(* ===== verification/Prelude.thy ===== *)
theory Prelude
  imports Main "HOL-Library.Word"
begin

text \<open>
  Shared ground of the development: the fixed-width integers of the code
  (\<open>s32\<close>, \<open>s64\<close> of \<open>src/src/public/util.h\<close>), byte arrays with \<open>memcpy\<close> and
  \<open>memmove\<close>, little-endian object representations, and the result type in which a failed
  assertion, a use of freed memory or an exhausted fuel is a value.
\<close>

unbundle bit_operations_syntax

named_theorems res_simps \<open>rules that run the result type\<close>
named_theorems buf_simps \<open>rules about byte arrays\<close>
named_theorems mask_simps \<open>masks of low bits as remainders\<close>

section \<open>Fixed-width integers\<close>

type_synonym byte = "8 word"

text \<open>
  A signed C integer of 32 or 64 bits is an \<open>int\<close> in range; an arithmetic result that leaves
  the range is wrapped to two's complement, as the compilers the project is built with do.
\<close>

definition s32 :: "int \<Rightarrow> int" where
  "s32 x = (x + 2147483648) mod 4294967296 - 2147483648"

definition s64 :: "int \<Rightarrow> int" where
  "s64 x = (x + 9223372036854775808) mod 18446744073709551616 - 9223372036854775808"

definition in_s32 :: "int \<Rightarrow> bool" where
  "in_s32 x \<longleftrightarrow> - 2147483648 \<le> x \<and> x < 2147483648"

definition in_s64 :: "int \<Rightarrow> bool" where
  "in_s64 x \<longleftrightarrow> - 9223372036854775808 \<le> x \<and> x < 9223372036854775808"

lemma s32_range [simp]: "in_s32 (s32 x)"
  using pos_mod_bound [of "4294967296" "x + 2147483648"]
    pos_mod_sign [of "4294967296" "x + 2147483648"]
  by (simp add: in_s32_def s32_def)

lemma s64_range [simp]: "in_s64 (s64 x)"
  using pos_mod_bound [of "18446744073709551616" "x + 9223372036854775808"]
    pos_mod_sign [of "18446744073709551616" "x + 9223372036854775808"]
  by (simp add: in_s64_def s64_def)

lemma s32_id: "in_s32 x \<Longrightarrow> s32 x = x"
  by (simp add: in_s32_def s32_def)

lemma s64_id: "in_s64 x \<Longrightarrow> s64 x = x"
  by (simp add: in_s64_def s64_def)

lemma s32_nonneg_id: "0 \<le> x \<Longrightarrow> x < 2147483648 \<Longrightarrow> s32 x = x"
  by (simp add: s32_def)

lemma shift_mod: "((x + a) mod m - a) mod m = x mod (m :: int)"
  by (metis add_diff_cancel_right' mod_diff_left_eq)

lemma shift_cong: "x mod m = y mod m \<Longrightarrow> (x + a) mod m = (y + a) mod (m :: int)"
  by (metis mod_add_left_eq)

lemma s32_mod: "s32 x mod 4294967296 = x mod 4294967296"
  unfolding s32_def by (rule shift_mod)

lemma s64_mod: "s64 x mod 18446744073709551616 = x mod 18446744073709551616"
  unfolding s64_def by (rule shift_mod)

lemma s32_cong: "x mod 4294967296 = y mod 4294967296 \<Longrightarrow> s32 x = s32 y"
  by (simp only: s32_def shift_cong [of x _ y])

lemma s64_cong: "x mod 18446744073709551616 = y mod 18446744073709551616 \<Longrightarrow> s64 x = s64 y"
  by (simp only: s64_def shift_cong [of x _ y])

section \<open>Masks\<close>

lemma and_mask_mod: "x AND (2 ^ n - 1) = x mod 2 ^ n" for x :: int
  by (simp flip: mask_eq_exp_minus_1 take_bit_eq_mask add: take_bit_eq_mod)

lemma and_mask_2 [mask_simps]: "x AND 3 = x mod 4" for x :: int
proof -
  have "(2 :: int) ^ 2 = 4" by simp
  moreover have "(4 :: int) - 1 = 3" by simp
  ultimately show ?thesis using and_mask_mod [of x 2] by (simp only:)
qed

lemma and_mask_3 [mask_simps]: "x AND 7 = x mod 8" for x :: int
proof -
  have "(2 :: int) ^ 3 = 8" "(8 :: int) - 1 = 7" by simp_all
  then show ?thesis using and_mask_mod [of x 3] by (simp only:)
qed

lemma and_mask_4 [mask_simps]: "x AND 15 = x mod 16" for x :: int
proof -
  have "(2 :: int) ^ 4 = 16" "(16 :: int) - 1 = 15" by simp_all
  then show ?thesis using and_mask_mod [of x 4] by (simp only:)
qed

lemma and_mask_5 [mask_simps]: "x AND 31 = x mod 32" for x :: int
proof -
  have "(2 :: int) ^ 5 = 32" "(32 :: int) - 1 = 31" by simp_all
  then show ?thesis using and_mask_mod [of x 5] by (simp only:)
qed

lemma and_mask_6 [mask_simps]: "x AND 63 = x mod 64" for x :: int
proof -
  have "(2 :: int) ^ 6 = 64" "(64 :: int) - 1 = 63" by simp_all
  then show ?thesis using and_mask_mod [of x 6] by (simp only:)
qed

lemma and_mask_7 [mask_simps]: "x AND 127 = x mod 128" for x :: int
proof -
  have "(2 :: int) ^ 7 = 128" "(128 :: int) - 1 = 127" by simp_all
  then show ?thesis using and_mask_mod [of x 7] by (simp only:)
qed

lemma and_mask_8 [mask_simps]: "x AND 255 = x mod 256" for x :: int
proof -
  have "(2 :: int) ^ 8 = 256" "(256 :: int) - 1 = 255" by simp_all
  then show ?thesis using and_mask_mod [of x 8] by (simp only:)
qed

lemma and_mask_9 [mask_simps]: "x AND 511 = x mod 512" for x :: int
proof -
  have "(2 :: int) ^ 9 = 512" "(512 :: int) - 1 = 511" by simp_all
  then show ?thesis using and_mask_mod [of x 9] by (simp only:)
qed

lemma and_mask_32 [mask_simps]: "x AND 4294967295 = x mod 4294967296" for x :: int
proof -
  have "(2 :: int) ^ 32 = 4294967296" "(4294967296 :: int) - 1 = 4294967295" by simp_all
  then show ?thesis using and_mask_mod [of x 32] by (simp only:)
qed

lemma disjoint_or_add: "a AND b = 0 \<Longrightarrow> a OR b = a + (b :: int)"
  using plus_and_or [of a b] by simp

lemma or_shifted:
  fixes a b :: int
  assumes "0 \<le> b" "b < 2 ^ n"
  shows "a * 2 ^ n OR b = a * 2 ^ n + b" "b OR a * 2 ^ n = b + a * 2 ^ n"
proof -
  have "take_bit n b = b" using assms by (rule take_bit_int_eq_self)
  then have b: "bit b k \<Longrightarrow> k < n" for k by (metis bit_take_bit_iff)
  have "a * 2 ^ n AND b = 0"
    unfolding push_bit_eq_mult [symmetric] by (intro bit_eqI) (auto simp: bit_simps dest: b)
  then show "a * 2 ^ n OR b = a * 2 ^ n + b" by (rule disjoint_or_add)
  then show "b OR a * 2 ^ n = b + a * 2 ^ n" by (simp add: or.commute add.commute)
qed
section \<open>Results: assertion failures, freed memory, fuel\<close>

text \<open>
  \<open>OASSERT\<close> aborts the process (\<open>__OAssert\<close> of \<open>src/src/public/util.cpp\<close> ends in
  \<open>assert(false)\<close>), so a failed assertion ends the run: \<open>AssertFail\<close> with the
  assertion's message. \<open>UseAfterFree\<close> is a
  member access on an object after \<open>delete this\<close>, \<open>NullDeref\<close> one through a null pointer,
  \<open>OutOfBounds\<close> a read or write outside an
  array, \<open>StackOverflow\<close> a recursion for which the C stack has no room, \<open>OutOfFuel\<close> a recursion deeper
  than the fuel given.
\<close>

datatype fault = AssertFail string | UseAfterFree | NullDeref | OutOfBounds | OutOfFuel | StackOverflow

definition res_bind :: "'e + 'a \<Rightarrow> ('a \<Rightarrow> 'e + 'b) \<Rightarrow> 'e + 'b" where
  "res_bind m f = (case m of Inl e \<Rightarrow> Inl e | Inr x \<Rightarrow> f x)"

lemma res_bind_Inl [simp, res_simps]: "res_bind (Inl e) f = Inl e"
  by (simp add: res_bind_def)

lemma res_bind_Inr [simp, res_simps]: "res_bind (Inr x) f = f x"
  by (simp add: res_bind_def)

lemma res_bind_eq_Inr [res_simps]:
  "res_bind m f = Inr y \<longleftrightarrow> (\<exists>x. m = Inr x \<and> f x = Inr y)"
  by (cases m) auto

lemma res_bind_eq_Inl [res_simps]:
  "res_bind m f = Inl e \<longleftrightarrow> m = Inl e \<or> (\<exists>x. m = Inr x \<and> f x = Inl e)"
  by (cases m) auto

lemma res_bind_assoc: "res_bind (res_bind m f) g = res_bind m (\<lambda>x. res_bind (f x) g)"
  by (cases m) auto

definition oassert :: "bool \<Rightarrow> string \<Rightarrow> fault + unit" where
  "oassert b msg = (if b then Inr () else Inl (AssertFail msg))"

lemma oassert_True [simp, res_simps]: "oassert True msg = Inr ()"
  by (simp add: oassert_def)

lemma oassert_False [simp, res_simps]: "oassert False msg = Inl (AssertFail msg)"
  by (simp add: oassert_def)

lemma oassert_eq [res_simps]:
  "oassert b msg = Inr u \<longleftrightarrow> b" "oassert b msg = Inl f \<longleftrightarrow> \<not> b \<and> f = AssertFail msg"
  by (auto simp: oassert_def)

section \<open>Byte arrays\<close>

text \<open>
  \<open>put d k s\<close> is \<open>memcpy(d + k, s, length s)\<close> into an array \<open>d\<close>; \<open>slice d k n\<close> is the
  \<open>n\<close> bytes at \<open>d + k\<close>.
\<close>

definition put :: "'a list \<Rightarrow> nat \<Rightarrow> 'a list \<Rightarrow> 'a list" where
  "put d k s = take k d @ s @ drop (k + length s) d"

definition slice :: "'a list \<Rightarrow> nat \<Rightarrow> nat \<Rightarrow> 'a list" where
  "slice d k n = take n (drop k d)"

lemma length_put [simp, buf_simps]: "k + length s \<le> length d \<Longrightarrow> length (put d k s) = length d"
  by (simp add: put_def)

lemma take_put_front [buf_simps]:
  "k + length s \<le> length d \<Longrightarrow> take (k + length s) (put d k s) = take k d @ s"
  by (simp add: put_def)

lemma take_put_below [buf_simps]: "n \<le> k \<Longrightarrow> k \<le> length d \<Longrightarrow> take n (put d k s) = take n d"
  by (simp add: put_def)

lemma slice_put [buf_simps]: "k + length s \<le> length d \<Longrightarrow> slice (put d k s) k (length s) = s"
  by (simp add: put_def slice_def)

lemma length_slice [simp, buf_simps]: "k + n \<le> length d \<Longrightarrow> length (slice d k n) = n"
  by (simp add: slice_def)

lemma slice_append_right [buf_simps]: "slice (xs @ ys) (length xs) n = take n ys"
  by (simp add: slice_def)

lemma slice_all [simp, buf_simps]: "slice xs 0 n = take n xs"
  by (simp add: slice_def)

lemma slice_take [buf_simps]: "k + n \<le> m \<Longrightarrow> slice (take m xs) k n = slice xs k n"
  by (simp add: slice_def drop_take min_def)

lemma slice_nth: "i < n \<Longrightarrow> k + n \<le> length xs \<Longrightarrow> slice xs k n ! i = xs ! (k + i)"
  by (simp add: slice_def)

definition memcpy_in :: "'a list \<Rightarrow> nat \<Rightarrow> 'a list \<Rightarrow> fault + 'a list" where
  "memcpy_in d k s = (if k + length s \<le> length d then Inr (put d k s) else Inl OutOfBounds)"

lemma memcpy_in_ok [simp, buf_simps]:
  "k + length s \<le> length d \<Longrightarrow> memcpy_in d k s = Inr (put d k s)"
  by (simp add: memcpy_in_def)

lemma memcpy_in_Inr [res_simps]:
  "memcpy_in d k s = Inr d' \<longleftrightarrow> k + length s \<le> length d \<and> d' = put d k s"
  by (auto simp: memcpy_in_def)

section \<open>Little-endian object representations\<close>

primrec le_bytes :: "nat \<Rightarrow> int \<Rightarrow> byte list" where
  "le_bytes 0 x = []"
| "le_bytes (Suc n) x = word_of_int x # le_bytes n (x div 256)"

primrec le_value :: "byte list \<Rightarrow> int" where
  "le_value [] = 0"
| "le_value (b # bs) = uint b + 256 * le_value bs"

lemma length_le_bytes [simp]: "length (le_bytes n x) = n"
  by (induction n arbitrary: x) simp_all

lemma le_value_bytes: "le_value (le_bytes n x) = x mod 256 ^ n"
proof (induction n arbitrary: x)
  case 0
  then show ?case by simp
next
  case (Suc n)
  have "uint (word_of_int x :: byte) = x mod 256"
    by (simp add: uint_word_of_int)
  then have "le_value (le_bytes (Suc n) x) = x mod 256 + 256 * (x div 256 mod 256 ^ n)"
    by (simp add: Suc)
  also have "\<dots> = x mod (256 * 256 ^ n)"
    by (simp add: zmod_zmult2_eq)
  finally show ?case by simp
qed

lemma le_value_nonneg: "0 \<le> le_value bs"
  by (induction bs) simp_all

lemma le_value_bound: "le_value bs < 256 ^ length bs"
proof (induction bs)
  case Nil
  then show ?case by simp
next
  case (Cons b bs)
  have "uint b < 256"
    using uint_lt2p [of b] by simp
  with Cons show ?case by simp
qed

lemma le_bytes_value: "le_bytes (length bs) (le_value bs) = bs"
proof (induction bs)
  case Nil
  then show ?case by simp
next
  case (Cons b bs)
  have b: "0 \<le> uint b" "uint b < 256"
    using uint_lt2p [of b] by simp_all
  have "word_of_int (uint b + 256 * le_value bs) = b"
  proof -
    have "(uint b + 256 * le_value bs) mod 256 = uint b"
      using b by simp
    then have "uint (word_of_int (uint b + 256 * le_value bs) :: byte) = uint b"
      by (simp only: uint_word_of_int) simp
    then show ?thesis by (simp only: word_uint_eq_iff)
  qed
  moreover have "(uint b + 256 * le_value bs) div 256 = le_value bs"
    using b by simp
  ultimately show ?case using Cons by simp
qed

text \<open>The object representations of \<open>s32\<close> and \<open>s64\<close> on the x86-64 target.\<close>

definition s32_bytes :: "int \<Rightarrow> byte list" where
  "s32_bytes x = le_bytes 4 x"

definition s64_bytes :: "int \<Rightarrow> byte list" where
  "s64_bytes x = le_bytes 8 x"

definition s32_of_bytes :: "byte list \<Rightarrow> int" where
  "s32_of_bytes bs = s32 (le_value bs)"

definition s64_of_bytes :: "byte list \<Rightarrow> int" where
  "s64_of_bytes bs = s64 (le_value bs)"

lemma length_s32_bytes [simp]: "length (s32_bytes x) = 4"
  by (simp add: s32_bytes_def)

lemma length_s64_bytes [simp]: "length (s64_bytes x) = 8"
  by (simp add: s64_bytes_def)

lemma s32_of_bytes_inverse [simp]: "s32_of_bytes (s32_bytes x) = s32 x"
  unfolding s32_of_bytes_def s32_bytes_def le_value_bytes by (rule s32_cong) simp

lemma s64_of_bytes_inverse [simp]: "s64_of_bytes (s64_bytes x) = s64 x"
  unfolding s64_of_bytes_def s64_bytes_def le_value_bytes by (rule s64_cong) simp

lemma s32_of_bytes_range [simp]: "in_s32 (s32_of_bytes bs)"
  by (simp add: s32_of_bytes_def)

lemma s64_of_bytes_range [simp]: "in_s64 (s64_of_bytes bs)"
  by (simp add: s64_of_bytes_def)

end
