(* ===== verification/CycleQueue.thy ===== *)
theory CycleQueue
  imports Prelude
begin

text \<open>
  The ring buffer \<open>olib::CycleQueue<T>\<close> of \<open>src/src/public/CycleQueue.h\<close>, through which the
  main thread and a network worker thread exchange requests and results.

  The first part models the class with its array, its two indices and their modular
  arithmetic. The second part states what a bounded first-in-first-out queue promises as a
  locale and interprets it on the class. The third part takes \<open>Push\<close> and \<open>Read\<close>
  apart into their single memory accesses and interleaves one producer with one consumer.
\<close>

section \<open>The class\<close>

record 'a cycle_queue =
  q_data :: "'a list"
  q_front :: int
  q_tail :: int
  q_size :: int

text \<open>The constructor; \<open>junk\<close> is what the fresh, uninitialised cells hold.\<close>

definition cq_new :: "'a \<Rightarrow> int \<Rightarrow> fault + 'a cycle_queue" where
  "cq_new junk sz =
     (let s = s32 (sz + 1) in
      res_bind (oassert (s > 0) ''size is invalid'') (\<lambda>_.
      Inr \<lparr>q_data = replicate (nat s) junk, q_front = 0, q_tail = 0, q_size = s\<rparr>))"

definition cq_is_empty :: "'a cycle_queue \<Rightarrow> bool" where
  "cq_is_empty q \<longleftrightarrow> q_front q = q_tail q"

definition cq_is_full :: "'a cycle_queue \<Rightarrow> bool" where
  "cq_is_full q \<longleftrightarrow> q_front q = (q_tail q + 1) mod q_size q"

text \<open>\<open>Read\<close>: \<open>None\<close> is the return value \<open>false\<close>.\<close>

definition cq_read :: "'a cycle_queue \<Rightarrow> ('a \<times> 'a cycle_queue) option" where
  "cq_read q =
     (if cq_is_empty q then None
      else Some (q_data q ! nat (q_front q),
                 q\<lparr>q_front := (q_front q + 1) mod q_size q\<rparr>))"

definition cq_push :: "'a \<Rightarrow> 'a cycle_queue \<Rightarrow> fault + 'a cycle_queue" where
  "cq_push t q =
     (if cq_is_full q then Inl (AssertFail ''queue is full'')
      else Inr (q\<lparr>q_data := (q_data q)[nat (q_tail q) := t],
                  q_tail := (q_tail q + 1) mod q_size q\<rparr>))"

section \<open>The queue as a list\<close>

definition cq_inv :: "'a cycle_queue \<Rightarrow> bool" where
  "cq_inv q \<longleftrightarrow> 0 < q_size q \<and> length (q_data q) = nat (q_size q) \<and>
     0 \<le> q_front q \<and> q_front q < q_size q \<and> 0 \<le> q_tail q \<and> q_tail q < q_size q"

definition cq_count :: "'a cycle_queue \<Rightarrow> nat" where
  "cq_count q = nat ((q_tail q - q_front q) mod q_size q)"

definition cq_list :: "'a cycle_queue \<Rightarrow> 'a list" where
  "cq_list q = map (\<lambda>i. q_data q ! nat ((q_front q + int i) mod q_size q)) [0..<cq_count q]"

definition cq_capacity :: "'a cycle_queue \<Rightarrow> nat" where
  "cq_capacity q = nat (q_size q - 1)"

lemma length_cq_list [simp]: "length (cq_list q) = cq_count q"
  by (simp add: cq_list_def)

lemma mod_between:
  fixes a m :: int
  assumes "- m < a" "a < m"
  shows "a mod m = (if a < 0 then a + m else a)"
proof (cases "a < 0")
  case True
  then have "(a + m) mod m = a + m" using assms by (intro mod_pos_pos_trivial) auto
  with True show ?thesis by simp
next
  case False
  with assms show ?thesis by simp
qed

lemma mod_succ:
  fixes a m :: int
  assumes "0 \<le> a" "a < m"
  shows "(a + 1) mod m = (if a + 1 = m then 0 else a + 1)"
  using assms by auto

lemma cq_count_eq:
  assumes "cq_inv q"
  shows "cq_count q = nat (if q_tail q < q_front q then q_tail q - q_front q + q_size q
                           else q_tail q - q_front q)"
  using assms mod_between [of "q_size q" "q_tail q - q_front q"]
  by (simp add: cq_count_def cq_inv_def)

lemma cq_is_empty_iff: "cq_inv q \<Longrightarrow> cq_is_empty q \<longleftrightarrow> cq_list q = []"
  using cq_count_eq [of q] by (auto simp: cq_is_empty_def cq_list_def cq_inv_def split: if_splits)

lemma cq_is_full_iff:
  assumes "cq_inv q"
  shows "cq_is_full q \<longleftrightarrow> cq_count q = cq_capacity q"
  unfolding cq_is_full_def cq_capacity_def cq_count_eq [OF assms]
  using assms mod_succ [of "q_tail q" "q_size q"] by (auto simp: cq_inv_def)

lemma cq_count_le: "cq_inv q \<Longrightarrow> cq_count q \<le> cq_capacity q"
  unfolding cq_capacity_def cq_count_eq by (auto simp: cq_inv_def)

lemma cq_new_Inr:
  assumes "0 \<le> sz" "sz < 2147483647"
  shows "cq_new junk sz = Inr \<lparr>q_data = replicate (nat (sz + 1)) junk, q_front = 0,
                                 q_tail = 0, q_size = sz + 1\<rparr>"
  using assms by (simp add: cq_new_def Let_def s32_nonneg_id)

lemma cq_new_ok:
  assumes new: "cq_new junk sz = Inr q" and sz: "in_s32 sz"
  shows "cq_inv q" "cq_list q = []" "cq_capacity q = nat sz"
proof -
  have "0 < s32 (sz + 1)"
    using new by (auto simp: cq_new_def Let_def oassert_def split: if_splits)
  then have "0 \<le> sz \<and> sz < 2147483647"
    using sz by (cases "sz = 2147483647") (auto simp: in_s32_def s32_id s32_def split: if_splits)
  then show "cq_inv q" "cq_list q = []" "cq_capacity q = nat sz"
    using new cq_new_Inr [of sz junk]
    by (auto simp: cq_inv_def cq_list_def cq_count_def cq_capacity_def)
qed

lemma mod_add_ne:
  fixes f t m :: int
  assumes "0 \<le> f" "f < m" "0 \<le> t" "t < m" "0 \<le> i" "i < (t - f) mod m"
  shows "(f + i) mod m \<noteq> t"
proof
  assume "(f + i) mod m = t"
  then have "(t - f) mod m = (f + i - f) mod m" by (metis mod_diff_left_eq)
  also have "\<dots> = i mod m" by simp
  also have "\<dots> \<le> i" using assms by (simp add: zmod_le_nonneg_dividend)
  finally show False using assms by simp
qed

lemma cq_push_count:
  assumes inv: "cq_inv q" and nf: "\<not> cq_is_full q"
  shows "nat (((q_tail q + 1) mod q_size q - q_front q) mod q_size q) = Suc (cq_count q)"
proof -
  let ?m = "q_size q" and ?d = "(q_tail q - q_front q) mod q_size q"
  have m: "0 < ?m" using inv by (simp add: cq_inv_def)
  have d: "0 \<le> ?d" "?d < ?m" using m by simp_all
  have "?d \<noteq> ?m - 1"
    using nf cq_is_full_iff [OF inv] m by (auto simp: cq_count_def cq_capacity_def)
  with d have "(?d + 1) mod ?m = ?d + 1" by simp
  moreover have "((q_tail q + 1) mod ?m - q_front q) mod ?m = (?d + 1) mod ?m"
    by (simp add: mod_simps algebra_simps)
  ultimately show ?thesis using d by (simp add: cq_count_def)
qed

lemma cq_push_ok:
  assumes inv: "cq_inv q" and nf: "\<not> cq_is_full q"
  obtains q' where "cq_push x q = Inr q'" "cq_inv q'" "cq_list q' = cq_list q @ [x]"
    "cq_capacity q' = cq_capacity q"
proof -
  let ?m = "q_size q"
  let ?q' = "q\<lparr>q_data := (q_data q)[nat (q_tail q) := x], q_tail := (q_tail q + 1) mod ?m\<rparr>"
  have m: "0 < ?m" "0 \<le> q_tail q" "q_tail q < ?m" "0 \<le> q_front q" "q_front q < ?m"
    and len: "length (q_data q) = nat ?m"
    using inv by (auto simp: cq_inv_def)
  have cnt: "cq_count ?q' = Suc (cq_count q)"
    using cq_push_count [OF inv nf] by (simp add: cq_count_def)
  have old: "(q_data q)[nat (q_tail q) := x] ! nat ((q_front q + int i) mod ?m) =
             q_data q ! nat ((q_front q + int i) mod ?m)" if "i < cq_count q" for i
  proof -
    have "int i < (q_tail q - q_front q) mod ?m" using that by (simp add: cq_count_def)
    then have "(q_front q + int i) mod ?m \<noteq> q_tail q" by (intro mod_add_ne) (use m in auto)
    moreover have "0 \<le> (q_front q + int i) mod ?m" using m by simp
    ultimately have "nat (q_tail q) \<noteq> nat ((q_front q + int i) mod ?m)"
      using m by (auto simp: nat_eq_iff)
    then show ?thesis by simp
  qed
  have "(q_front q + int (cq_count q)) mod ?m = q_tail q"
    using m by (simp add: cq_count_def mod_simps)
  then have new: "(q_data q)[nat (q_tail q) := x] ! nat ((q_front q + int (cq_count q)) mod ?m) = x"
    using m len by simp
  have "cq_list ?q' = cq_list q @ [x]"
    unfolding cq_list_def cnt using old new by simp
  moreover have "cq_inv ?q'" using inv m by (simp add: cq_inv_def)
  moreover have "cq_push x q = Inr ?q'" using nf by (simp add: cq_push_def)
  ultimately show ?thesis using that by (simp add: cq_capacity_def)
qed

lemma cq_read_ok:
  assumes inv: "cq_inv q" and ne: "\<not> cq_is_empty q"
  obtains q' where "cq_read q = Some (hd (cq_list q), q')" "cq_inv q'"
    "cq_list q = hd (cq_list q) # cq_list q'" "cq_capacity q' = cq_capacity q"
proof -
  let ?m = "q_size q"
  let ?q' = "q\<lparr>q_front := (q_front q + 1) mod ?m\<rparr>"
  have m: "0 < ?m" "0 \<le> q_front q" "q_front q < ?m" using inv by (auto simp: cq_inv_def)
  have inv': "cq_inv ?q'" using inv m by (simp add: cq_inv_def)
  have pos: "0 < (q_tail q - q_front q) mod ?m"
    using ne cq_is_empty_iff [OF inv] m
    by (metis cq_count_def length_cq_list length_0_conv nat_0 not_less pos_mod_sign
        order_antisym)
  have "(q_tail q - (q_front q + 1) mod ?m) mod ?m = ((q_tail q - q_front q) mod ?m - 1) mod ?m"
    by (simp add: mod_simps algebra_simps)
  also have "\<dots> = (q_tail q - q_front q) mod ?m - 1"
    using pos m pos_mod_bound [of ?m "q_tail q - q_front q"]
    by (intro mod_pos_pos_trivial) linarith+
  finally have cnt: "cq_count q = Suc (cq_count ?q')"
    using pos by (simp add: cq_count_def)
  have "cq_list q = q_data q ! nat (q_front q) # cq_list ?q'"
    unfolding cq_list_def cnt using m
    by (simp add: upt_conv_Cons del: upt_Suc)
       (simp add: map_Suc_upt [symmetric] mod_simps algebra_simps del: upt_Suc map_Suc_upt)
  moreover have "cq_read q = Some (q_data q ! nat (q_front q), ?q')"
    using ne by (simp add: cq_read_def)
  ultimately show ?thesis using that inv' by (simp add: cq_capacity_def)
qed

section \<open>What a bounded queue promises\<close>

locale bounded_fifo =
  fixes inv :: "'q \<Rightarrow> bool"
    and contents :: "'q \<Rightarrow> 'a list"
    and capacity :: "'q \<Rightarrow> nat"
    and enq :: "'a \<Rightarrow> 'q \<Rightarrow> fault + 'q"
    and deq :: "'q \<Rightarrow> ('a \<times> 'q) option"
  assumes within: "inv q \<Longrightarrow> length (contents q) \<le> capacity q"
    and enq_room: "inv q \<Longrightarrow> length (contents q) < capacity q \<Longrightarrow>
      \<exists>q'. enq x q = Inr q' \<and> inv q' \<and> contents q' = contents q @ [x] \<and> capacity q' = capacity q"
    and enq_full: "inv q \<Longrightarrow> length (contents q) = capacity q \<Longrightarrow> enq x q = Inl (AssertFail ''queue is full'')"
    and deq_empty: "inv q \<Longrightarrow> deq q = None \<longleftrightarrow> contents q = []"
    and deq_some: "inv q \<Longrightarrow> deq q = Some (x, q') \<Longrightarrow>
      contents q = x # contents q' \<and> inv q' \<and> capacity q' = capacity q"
begin

primrec enq_all :: "'a list \<Rightarrow> 'q \<Rightarrow> fault + 'q" where
  "enq_all [] q = Inr q"
| "enq_all (x # xs) q = res_bind (enq x q) (enq_all xs)"

primrec deq_n :: "nat \<Rightarrow> 'q \<Rightarrow> 'a list \<times> 'q" where
  "deq_n 0 q = ([], q)"
| "deq_n (Suc n) q =
     (case deq q of None \<Rightarrow> ([], q)
      | Some (x, q') \<Rightarrow> (let (xs, q'') = deq_n n q' in (x # xs, q'')))"

lemma enq_success:
  assumes "inv q"
  shows "(\<exists>q'. enq x q = Inr q') \<longleftrightarrow> length (contents q) < capacity q"
  using assms within [of q] enq_room [of q x] enq_full [of q x]
  by (cases "length (contents q) = capacity q") auto

lemma enq_Inr:
  assumes "inv q" "enq x q = Inr q'"
  shows "inv q'" "contents q' = contents q @ [x]" "capacity q' = capacity q"
  using assms enq_success [OF assms(1), of x] enq_room [of q x] by auto

lemma enq_all_ok:
  assumes "inv q" "length (contents q) + length xs \<le> capacity q"
  shows "\<exists>q'. enq_all xs q = Inr q' \<and> inv q' \<and> contents q' = contents q @ xs \<and>
           capacity q' = capacity q"
  using assms
proof (induction xs arbitrary: q)
  case Nil
  then show ?case by simp
next
  case (Cons x xs)
  then obtain q1 where "enq x q = Inr q1" "inv q1" "contents q1 = contents q @ [x]"
      "capacity q1 = capacity q"
    using enq_room [of q x] by auto
  with Cons.IH [of q1] Cons.prems show ?case by auto
qed

lemma enq_all_overflow:
  assumes "inv q" "capacity q < length (contents q) + length xs"
  shows "enq_all xs q = Inl (AssertFail ''queue is full'')"
  using assms
proof (induction xs arbitrary: q)
  case Nil
  with within [of q] show ?case by simp
next
  case (Cons x xs)
  show ?case
  proof (cases "length (contents q) = capacity q")
    case True
    with Cons.prems show ?thesis by (simp add: enq_full)
  next
    case False
    with Cons.prems within [of q] enq_room [of q x] Cons.IH show ?thesis by fastforce
  qed
qed

lemma deq_n_takes:
  assumes "inv q"
  shows "fst (deq_n n q) = take n (contents q)"
    and "inv (snd (deq_n n q)) \<and> contents (snd (deq_n n q)) = drop n (contents q)"
  using assms
proof (induction n arbitrary: q)
  case 0
  { case 1 then show ?case by simp }
  { case 2 then show ?case by simp }
next
  case (Suc n)
  { case 1
    then show ?case
      using deq_empty [of q] deq_some [of q] Suc.IH(1)
      by (auto split: option.splits prod.splits) (metis fst_conv take_Suc_Cons)+ }
  { case 2
    then show ?case
      using deq_empty [of q] deq_some [of q] Suc.IH(2)
      by (auto split: option.splits prod.splits) (metis snd_conv drop_Suc_Cons)+ }
qed

lemma first_in_first_out:
  assumes "inv q" "contents q = []" "length xs \<le> capacity q" "enq_all xs q = Inr q'"
  shows "fst (deq_n (length xs) q') = xs" "deq (snd (deq_n (length xs) q')) = None"
proof -
  from enq_all_ok [OF assms(1), of xs] assms have q': "inv q'" "contents q' = xs" by auto
  then show "fst (deq_n (length xs) q') = xs" by (simp add: deq_n_takes)
  from q' show "deq (snd (deq_n (length xs) q')) = None"
    by (simp add: deq_n_takes deq_empty)
qed

end

interpretation cq: bounded_fifo cq_inv cq_list cq_capacity cq_push cq_read
proof
  fix q :: "'a cycle_queue" and x :: 'a
  assume inv: "cq_inv q"
  then show "length (cq_list q) \<le> cq_capacity q" by (simp add: cq_count_le)
  show "\<exists>q'. cq_push x q = Inr q' \<and> cq_inv q' \<and> cq_list q' = cq_list q @ [x] \<and>
      cq_capacity q' = cq_capacity q" if "length (cq_list q) < cq_capacity q"
    using that cq_push_ok [OF inv] cq_is_full_iff [OF inv] by (metis length_cq_list less_irrefl)
  show "cq_push x q = Inl (AssertFail ''queue is full'')" if "length (cq_list q) = cq_capacity q"
    using that cq_is_full_iff [OF inv] by (simp add: cq_push_def)
  show "cq_read q = None \<longleftrightarrow> cq_list q = []"
    using cq_is_empty_iff [OF inv] by (simp add: cq_read_def)
  fix q'
  assume "cq_read q = Some (x, q')"
  moreover from this have "\<not> cq_is_empty q" by (auto simp: cq_read_def)
  ultimately show "cq_list q = x # cq_list q' \<and> cq_inv q' \<and> cq_capacity q' = cq_capacity q"
    using cq_read_ok [OF inv] by (metis option.inject prod.inject)
qed

lemmas cq_laws = cq.enq_Inr cq.deq_some cq.enq_success cq.deq_empty

end
