(* ===== verification/CycleQueueSpsc.thy ===== *)
theory CycleQueueSpsc
  imports CycleQueue
begin

text \<open>
  One producer thread and one consumer thread on a \<open>CycleQueue\<close>
  (\<open>src/src/public/CycleQueue.h\<close>). \<open>Push\<close> and \<open>Read\<close> take no lock: each is a test, an access to
  one cell and a store to one index. The step relation interleaves these accesses in every order
  (with each access atomic and in program order, which the \<open>volatile\<close> indices ask for), and
  the invariant shows that the consumer receives the producer's values in order, none lost,
  none twice, none torn.
\<close>

section \<open>Single accesses\<close>

datatype 'a producer = PIdle | PChecked 'a | PStored 'a

datatype 'a consumer = CIdle | CChecked | CLoaded 'a

record 'a spsc =
  ring :: "'a cycle_queue"
  prod :: "'a producer"
  cons :: "'a consumer"
  sent :: "'a list"
  received :: "'a list"

definition spsc_init :: "'a cycle_queue \<Rightarrow> 'a spsc" where
  "spsc_init q = \<lparr>ring = q, prod = PIdle, cons = CIdle, sent = [], received = []\<rparr>"

text \<open>
  \<open>Push\<close> (lines 34 to 42): the test \<open>IsFull\<close>, the store to the cell, the store to \<open>_tail\<close>.
  \<open>Read\<close> (lines 25 to 32): the test \<open>IsEmpty\<close>, the load of the cell, the store to \<open>_front\<close>.
\<close>

inductive spsc_step :: "'a spsc \<Rightarrow> 'a spsc \<Rightarrow> bool" where
  push_test: "prod s = PIdle \<Longrightarrow> \<not> cq_is_full (ring s) \<Longrightarrow>
    spsc_step s (s\<lparr>prod := PChecked v\<rparr>)"
| push_store: "prod s = PChecked v \<Longrightarrow>
    spsc_step s (s\<lparr>ring := (ring s)\<lparr>q_data := (q_data (ring s))[nat (q_tail (ring s)) := v]\<rparr>,
                   prod := PStored v\<rparr>)"
| push_publish: "prod s = PStored v \<Longrightarrow>
    spsc_step s (s\<lparr>ring := (ring s)\<lparr>q_tail := (q_tail (ring s) + 1) mod q_size (ring s)\<rparr>,
                   prod := PIdle, sent := sent s @ [v]\<rparr>)"
| read_test: "cons s = CIdle \<Longrightarrow> \<not> cq_is_empty (ring s) \<Longrightarrow>
    spsc_step s (s\<lparr>cons := CChecked\<rparr>)"
| read_load: "cons s = CChecked \<Longrightarrow>
    spsc_step s (s\<lparr>cons := CLoaded (q_data (ring s) ! nat (q_front (ring s)))\<rparr>)"
| read_advance: "cons s = CLoaded v \<Longrightarrow>
    spsc_step s (s\<lparr>ring := (ring s)\<lparr>q_front := (q_front (ring s) + 1) mod q_size (ring s)\<rparr>,
                   cons := CIdle, received := received s @ [v]\<rparr>)"

inductive spsc_reach :: "'a cycle_queue \<Rightarrow> 'a spsc \<Rightarrow> bool" for q where
  spsc_start: "spsc_reach q (spsc_init q)"
| spsc_more: "spsc_reach q s \<Longrightarrow> spsc_step s t \<Longrightarrow> spsc_reach q t"

section \<open>The invariant\<close>

definition spsc_inv :: "'a spsc \<Rightarrow> bool" where
  "spsc_inv s \<longleftrightarrow>
     cq_inv (ring s) \<and>
     sent s = received s @ cq_list (ring s) \<and>
     (prod s \<noteq> PIdle \<longrightarrow> \<not> cq_is_full (ring s)) \<and>
     (\<forall>v. prod s = PStored v \<longrightarrow> q_data (ring s) ! nat (q_tail (ring s)) = v) \<and>
     (cons s \<noteq> CIdle \<longrightarrow> \<not> cq_is_empty (ring s)) \<and>
     (\<forall>v. cons s = CLoaded v \<longrightarrow> v = hd (cq_list (ring s)))"

text \<open>The three writes as operations on the queue's contents.\<close>

lemma tail_not_occupied:
  assumes inv: "cq_inv q" and i: "i < cq_count q"
  shows "nat ((q_front q + int i) mod q_size q) \<noteq> nat (q_tail q)"
proof -
  have "(q_front q + int i) mod q_size q \<noteq> q_tail q"
    using assms by (intro mod_add_ne) (auto simp: cq_inv_def cq_count_def)
  moreover have "0 \<le> (q_front q + int i) mod q_size q" "0 \<le> q_tail q"
    using inv by (auto simp: cq_inv_def)
  ultimately show ?thesis by (simp add: nat_eq_iff)
qed

lemma store_keeps_contents:
  assumes "cq_inv q"
  shows "cq_list (q\<lparr>q_data := (q_data q)[nat (q_tail q) := v]\<rparr>) = cq_list q"
    and "cq_inv (q\<lparr>q_data := (q_data q)[nat (q_tail q) := v]\<rparr>)"
    and "(q_data q)[nat (q_tail q) := v] ! nat (q_tail q) = v"
proof -
  show "cq_list (q\<lparr>q_data := (q_data q)[nat (q_tail q) := v]\<rparr>) = cq_list q"
    using tail_not_occupied [OF assms]
    by (auto simp: cq_list_def cq_count_def intro!: nth_list_update_neq) metis
  show "cq_inv (q\<lparr>q_data := (q_data q)[nat (q_tail q) := v]\<rparr>)"
    using assms by (simp add: cq_inv_def)
  show "(q_data q)[nat (q_tail q) := v] ! nat (q_tail q) = v"
    using assms by (simp add: cq_inv_def)
qed

lemma publish_appends:
  assumes "cq_inv q" "\<not> cq_is_full q" "q_data q ! nat (q_tail q) = v"
  defines "q' \<equiv> q\<lparr>q_tail := (q_tail q + 1) mod q_size q\<rparr>"
  shows "cq_list q' = cq_list q @ [v]" "cq_inv q'" "\<not> cq_is_empty q'"
proof -
  have "(q_data q)[nat (q_tail q) := v] = q_data q"
    using assms(3) list_update_id by blast
  then have push: "cq_push v q = Inr q'"
    using assms(2) by (simp add: cq_push_def q'_def)
  from cq.enq_Inr [OF assms(1) push]
  show "cq_list q' = cq_list q @ [v]" "cq_inv q'" by auto
  then show "\<not> cq_is_empty q'" by (simp add: cq_is_empty_iff)
qed

lemma advance_drops:
  assumes "cq_inv q" "\<not> cq_is_empty q"
  defines "q' \<equiv> q\<lparr>q_front := (q_front q + 1) mod q_size q\<rparr>"
  shows "cq_list q = hd (cq_list q) # cq_list q'" "cq_inv q'" "\<not> cq_is_full q'"
    and "hd (cq_list q) = q_data q ! nat (q_front q)"
proof -
  have read: "cq_read q = Some (q_data q ! nat (q_front q), q')"
    using assms(2) by (simp add: cq_read_def q'_def)
  from cq.deq_some [OF assms(1) this] have
    c: "cq_list q = q_data q ! nat (q_front q) # cq_list q'" "cq_inv q'"
       "cq_capacity q' = cq_capacity q"
    by auto
  then show "cq_list q = hd (cq_list q) # cq_list q'" "cq_inv q'"
    "hd (cq_list q) = q_data q ! nat (q_front q)" by simp_all
  have "length (cq_list q') < cq_capacity q'"
    using c cq.within [OF assms(1)] by simp
  then show "\<not> cq_is_full q'" using cq_is_full_iff [OF c(2)] by simp
qed

lemma spsc_inv_init: "cq_inv q \<Longrightarrow> cq_list q = [] \<Longrightarrow> spsc_inv (spsc_init q)"
  by (simp add: spsc_inv_def spsc_init_def)

lemma spsc_step_inv:
  assumes "spsc_step s t" "spsc_inv s"
  shows "spsc_inv t"
  using assms
proof (induction rule: spsc_step.induct)
  case (push_test s v)
  then show ?case by (simp add: spsc_inv_def)
next
  case (push_store s v)
  then show ?case
    by (auto simp: spsc_inv_def store_keeps_contents cq_is_full_def cq_is_empty_def)
next
  case (push_publish s v)
  then have i: "cq_inv (ring s)" "\<not> cq_is_full (ring s)"
      "q_data (ring s) ! nat (q_tail (ring s)) = v"
    by (auto simp: spsc_inv_def)
  have "hd (cq_list (ring s) @ [v]) = hd (cq_list (ring s))" if "cons s \<noteq> CIdle"
    using that push_publish.prems i(1) by (auto simp: spsc_inv_def cq_is_empty_iff)
  with push_publish publish_appends [OF i] show ?case by (auto simp: spsc_inv_def)
next
  case (read_test s)
  then show ?case by (simp add: spsc_inv_def)
next
  case (read_load s)
  then have "cq_inv (ring s)" "\<not> cq_is_empty (ring s)" by (auto simp: spsc_inv_def)
  from advance_drops(4) [OF this] read_load show ?case by (auto simp: spsc_inv_def)
next
  case (read_advance s v)
  then have i: "cq_inv (ring s)" "\<not> cq_is_empty (ring s)" by (auto simp: spsc_inv_def)
  from read_advance advance_drops [OF i] show ?case
    by (auto simp: spsc_inv_def)
qed

lemma spsc_reach_inv:
  assumes "spsc_reach q s" "cq_inv q" "cq_list q = []"
  shows "spsc_inv s"
  using assms by (induction rule: spsc_reach.induct) (auto intro: spsc_inv_init spsc_step_inv)

inductive_cases spsc_stepE: "spsc_step s t"

text \<open>
  What \<open>olib::CycleQueue\<close> promises its users: on one thread any sequence of \<open>Push\<close> and
  \<open>Read\<close> behaves as on a bounded list; between one producer and one consumer thread the
  values arrive in order.
\<close>

section \<open>Refinement of a bounded list\<close>

datatype 'a queue_op = QPush 'a | QRead

datatype 'a queue_out = Pushed | Overflow | Got 'a | Nothing

text \<open>The observable run of a queue; the failed assertion of \<open>Push\<close> ends the process.\<close>

fun cq_trace :: "'a queue_op list \<Rightarrow> 'a cycle_queue \<Rightarrow> 'a queue_out list" where
  "cq_trace [] q = []"
| "cq_trace (QPush x # os) q =
     (case cq_push x q of Inl f \<Rightarrow> [Overflow] | Inr q' \<Rightarrow> Pushed # cq_trace os q')"
| "cq_trace (QRead # os) q =
     (case cq_read q of None \<Rightarrow> Nothing # cq_trace os q | Some (x, q') \<Rightarrow> Got x # cq_trace os q')"

fun list_trace :: "nat \<Rightarrow> 'a queue_op list \<Rightarrow> 'a list \<Rightarrow> 'a queue_out list" where
  "list_trace n [] xs = []"
| "list_trace n (QPush x # os) xs = (if length xs < n then Pushed # list_trace n os (xs @ [x]) else [Overflow])"
| "list_trace n (QRead # os) [] = Nothing # list_trace n os []"
| "list_trace n (QRead # os) (x # xs) = Got x # list_trace n os xs"

lemma cq_trace_list:
  "cq_inv q \<Longrightarrow> cq_trace os q = list_trace (cq_capacity q) os (cq_list q)"
proof (induction os arbitrary: q)
  case Nil
  then show ?case by simp
next
  case (Cons a os)
  show ?case
  proof (cases a)
    case (QPush x)
    show ?thesis
    proof (cases "length (cq_list q) < cq_capacity q")
      case True
      then obtain q' where "cq_push x q = Inr q'" "cq_inv q'" "cq_list q' = cq_list q @ [x]"
          "cq_capacity q' = cq_capacity q"
        using cq.enq_room [OF Cons.prems] by blast
      with True QPush Cons.IH [of q'] show ?thesis by simp
    next
      case False
      with cq.within [OF Cons.prems] have "length (cq_list q) = cq_capacity q" by simp
      with cq.enq_full [OF Cons.prems this] QPush show ?thesis by simp
    qed
  next
    case QRead
    show ?thesis
    proof (cases "cq_read q")
      case None
      with cq.deq_empty [OF Cons.prems] have "cq_list q = []" by simp
      with None QRead Cons.IH [OF Cons.prems] show ?thesis by simp
    next
      case (Some p)
      obtain x q' where p: "p = (x, q')" by fastforce
      with cq.deq_some [OF Cons.prems] Some QRead Cons.IH [of q'] show ?thesis by simp
    qed
  qed
qed

text \<open>
  C35. A queue made for \<open>n\<close> entries is a list of at most \<open>n\<close> entries: every sequence of \<open>Push\<close> and
  \<open>Read\<close> gives the results it gives on such a list, across any number of turns of the ring; the assertion fails
  exactly on the push that would be the entry \<open>n + 1\<close>.
\<close>

theorem cycle_queue_is_bounded_list:
  assumes "cq_new junk (int n) = Inr q" "n < 2147483647"
  shows "cq_trace os q = list_trace n os []"
proof -
  have "in_s32 (int n)" using assms(2) by (simp add: in_s32_def)
  from cq_new_ok [OF assms(1) this] cq_trace_list [of q os] show ?thesis by simp
qed

lemma cycle_queue_is_bounded_list_witness:
  "\<exists>q. cq_new (0 :: nat) 1 = Inr q \<and>
     cq_trace [QRead, QPush 5, QRead, QPush 6, QPush 7] q = [Nothing, Pushed, Got 5, Pushed, Overflow]"
proof -
  obtain q where q: "cq_new (0 :: nat) (int 1) = Inr q" using cq_new_Inr [of 1 "0 :: nat"] by auto
  have "cq_trace [QRead, QPush 5, QRead, QPush 6, QPush 7] q = [Nothing, Pushed, Got 5, Pushed, Overflow]"
    using cycle_queue_is_bounded_list [OF q, of "[QRead, QPush 5, QRead, QPush 6, QPush 7]"]
    by (simp del: cq_trace.simps)
  with q show ?thesis by (intro exI [of _ q]) (simp del: cq_trace.simps)
qed

text \<open>
  C34. Between a producer and a consumer thread without a lock, in every interleaving of the single
  memory accesses of \<open>Push\<close> and \<open>Read\<close>, the consumer has received a prefix of what the producer
  has pushed, what is missing is in the ring, and a value being loaded is the oldest one there.
\<close>

theorem spsc_delivers_in_order:
  assumes "cq_new junk n = Inr q" "in_s32 n" "spsc_reach q s"
  shows "sent s = received s @ cq_list (ring s) \<and> length (cq_list (ring s)) \<le> cq_capacity (ring s) \<and>
     (\<forall>v. cons s = CLoaded v \<longrightarrow> cq_list (ring s) \<noteq> [] \<and> v = hd (cq_list (ring s)))"
proof -
  have inv: "spsc_inv s" using spsc_reach_inv [OF assms(3)] cq_new_ok [OF assms(1,2)] by simp
  then have "cq_inv (ring s)" by (simp add: spsc_inv_def)
  from cq.within [OF this] cq_is_empty_iff [OF this] inv show ?thesis
    by (auto simp: spsc_inv_def)
qed

definition one_cell :: "nat cycle_queue" where
  "one_cell = \<lparr>q_data = [0, 0], q_front = 0, q_tail = 0, q_size = 2\<rparr>"

lemma spsc_delivers_in_order_witness:
  "\<exists>s. spsc_reach one_cell s \<and> sent s = [4] \<and> received s = [] \<and> cons s = CLoaded 4 \<and>
     4 = hd (cq_list (ring s))"
proof -
  let ?q = "one_cell\<lparr>q_data := [4, 0], q_tail := 1\<rparr>"
  let ?s = "\<lparr>ring = ?q, prod = PIdle, cons = CLoaded 4, sent = [4], received = []\<rparr>"
  have new: "cq_new (0 :: nat) 1 = Inr one_cell"
    using cq_new_Inr [of 1 "0 :: nat"] by (simp add: one_cell_def numeral_2_eq_2)
  have "spsc_step (spsc_init one_cell) ((spsc_init one_cell)\<lparr>prod := PChecked 4\<rparr>)"
    by (rule push_test) (simp_all add: spsc_init_def cq_is_full_def one_cell_def)
  then have s1: "spsc_reach one_cell ((spsc_init one_cell)\<lparr>prod := PChecked 4\<rparr>)"
    by (rule spsc_more [OF spsc_start])
  have s2: "spsc_reach one_cell ((spsc_init one_cell)\<lparr>ring := one_cell\<lparr>q_data := [4, 0]\<rparr>, prod := PStored 4\<rparr>)"
    using spsc_more [OF s1 push_store [where v = 4]] by (simp add: spsc_init_def one_cell_def)
  have s3: "spsc_reach one_cell \<lparr>ring = ?q, prod = PIdle, cons = CIdle, sent = [4], received = []\<rparr>"
    using spsc_more [OF s2 push_publish [where v = 4]] by (simp add: spsc_init_def one_cell_def)
  have s4: "spsc_reach one_cell \<lparr>ring = ?q, prod = PIdle, cons = CChecked, sent = [4], received = []\<rparr>"
    using spsc_more [OF s3 read_test] by (simp add: cq_is_empty_def one_cell_def)
  have s5: "spsc_reach one_cell ?s"
    using spsc_more [OF s4 read_load] by (simp add: one_cell_def)
  have "in_s32 1" by (simp add: in_s32_def)
  from spsc_delivers_in_order [OF new this s5] s5 show ?thesis by (intro exI [of _ ?s]) simp
qed

end
