(* ===== verification/NetState.thy ===== *)
theory NetState
  imports CycleQueue
begin

text \<open>
  The data of a network connection: events (\<open>NetEvent.h\<close>), the states of its send and receive
  machines (\<open>src/src/kernel/net/state\<close>), its four buffers and the members of \<open>class Connection\<close>
  (\<open>Connection.h\<close>), with the operations that run no user code: \<open>SetBufferSize\<close>,
  \<open>BeginSend\<close>, \<open>BeginRecv\<close> and the requests they push to the worker (\<open>NetWorker.cpp\<close>).
\<close>

named_theorems conn_simps \<open>rules about the members of a connection\<close>

section \<open>Events and machine states\<close>

datatype NetEventType =
    NEVT_SEND | NEVT_SEND_DONE | NEVT_SEND_ERROR | NEVT_SEND_READY | NEVT_SEND_PENDING
  | NEVT_RECV | NEVT_RECV_DONE | NEVT_RECV_ERROR | NEVT_RECV_CLOSE
  | NEVT_CLOSE | NEVT_ERROR

datatype send_state =
    SendNone | SendPending | Sending | SendingReady | SendingWait | SendingReadyWait
  | SendWaitClose | SendingWaitClose | SendClose

datatype recv_state = RecvNone | Recving | RecvingWait | RecvWaitClose | RecvClose

section \<open>Buffers\<close>

record buffer =
  b_data :: "byte list"
  b_size :: int
  b_offset :: int

definition content :: "buffer \<Rightarrow> byte list" where
  "content b = take (nat (b_offset b)) (b_data b)"

definition buf_ok :: "buffer \<Rightarrow> bool" where
  "buf_ok b \<longleftrightarrow> 0 \<le> b_offset b \<and> b_offset b \<le> b_size b \<and> b_size b < 2147483648 \<and>
     length (b_data b) = nat (b_size b)"

lemma buf_okD [conn_simps]:
  assumes "buf_ok b"
  shows "length (content b) = nat (b_offset b)" "nat (b_offset b) \<le> length (b_data b)"
  using assms by (auto simp: buf_ok_def content_def)

text \<open>
  \<open>memcpy(b.data + b.offset, src, size)\<close> and \<open>b.offset += size\<close>, as \<open>Send\<close>,
  \<open>BeginSend\<close> and \<open>ProcessPacket\<close> do it after their bounds test.
\<close>

definition buf_append :: "byte list \<Rightarrow> buffer \<Rightarrow> fault + buffer" where
  "buf_append src b =
     res_bind (memcpy_in (b_data b) (nat (b_offset b)) src) (\<lambda>d.
     Inr (b\<lparr>b_data := d, b_offset := s32 (b_offset b + int (length src))\<rparr>))"

lemma buf_append_ok:
  assumes "buf_ok b" "b_offset b + int (length src) \<le> b_size b"
  obtains b' where "buf_append src b = Inr b'" "buf_ok b'" "content b' = content b @ src"
    "b_size b' = b_size b" "b_offset b' = b_offset b + int (length src)"
proof -
  have fits: "nat (b_offset b) + length src \<le> length (b_data b)"
    using assms by (auto simp: buf_ok_def)
  have off: "s32 (b_offset b + int (length src)) = b_offset b + int (length src)"
    using assms by (auto simp: buf_ok_def intro: s32_nonneg_id)
  have nat_off: "nat (b_offset b + int (length src)) = nat (b_offset b) + length src"
    using assms by (simp add: buf_ok_def nat_add_distrib)
  let ?b' = "b\<lparr>b_data := put (b_data b) (nat (b_offset b)) src,
               b_offset := b_offset b + int (length src)\<rparr>"
  have "buf_append src b = Inr ?b'"
    using fits off by (simp add: buf_append_def)
  moreover have "buf_ok ?b'"
    using assms fits by (simp add: buf_ok_def)
  moreover have "content ?b' = content b @ src"
    using fits nat_off by (simp add: content_def take_put_front)
  ultimately show ?thesis using that by simp
qed

text \<open>\<open>memmove(b.data, b.data + n, b.offset - n)\<close> and \<open>b.offset -= n\<close>.\<close>

definition buf_consume :: "int \<Rightarrow> buffer \<Rightarrow> buffer" where
  "buf_consume n b =
     b\<lparr>b_data := (if 0 < n \<and> n < b_offset b
                  then put (b_data b) 0 (slice (b_data b) (nat n) (nat (b_offset b - n)))
                  else b_data b),
       b_offset := b_offset b - n\<rparr>"

lemma buf_consume_ok:
  assumes "buf_ok b" "0 \<le> n" "n \<le> b_offset b"
  shows "buf_ok (buf_consume n b)" "content (buf_consume n b) = drop (nat n) (content b)"
    "b_size (buf_consume n b) = b_size b" "b_offset (buf_consume n b) = b_offset b - n"
proof -
  have len: "nat n + nat (b_offset b - n) \<le> length (b_data b)"
    using assms by (auto simp: buf_ok_def)
  have sl: "slice (b_data b) (nat n) (nat (b_offset b - n)) = drop (nat n) (content b)"
    using assms by (simp add: slice_def content_def drop_take nat_diff_distrib)
  have "nat (b_offset b - n) \<le> length (b_data b)" using len by simp
  then show "content (buf_consume n b) = drop (nat n) (content b)"
    using assms len sl
    by (auto simp: buf_consume_def content_def put_def drop_take nat_diff_distrib not_less)
  show "buf_ok (buf_consume n b)"
    using assms len by (auto simp: buf_consume_def buf_ok_def)
qed (simp_all add: buf_consume_def)

section \<open>The members of a connection\<close>

datatype work_event = WORK_SEND | WORK_RECV

type_synonym work_request = "nat \<times> work_event"

text \<open>
  \<open>c_session\<close> is the state of the session object \<open>_session\<close> points to, \<open>c_pipe\<close> whether the
  session's \<open>_pipe\<close> points back to this connection, \<open>c_worker\<close> whether \<open>_worker\<close> is set,
  \<open>c_alive\<close> whether the object has not been deleted. \<open>c_workq\<close> is the work queue of the
  connection's worker (\<open>NetWorker::_workQueue\<close>), \<open>c_id\<close> the connection's identity in it.
  \<open>c_wire\<close> and \<open>c_sent\<close> are ghost members: the bytes the kernel has taken from
  \<open>::send\<close>, and the bytes the session has handed to \<open>Send\<close>.
\<close>

record 's conn =
  c_id :: nat
  c_session :: "'s option"
  c_pipe :: bool
  c_worker :: bool
  c_alive :: bool
  sendW :: buffer
  sendU :: buffer
  recvW :: buffer
  recvU :: buffer
  send_st :: send_state
  recv_st :: recv_state
  c_workq :: "work_request cycle_queue"
  c_wire :: "byte list"
  c_sent :: "byte list"

definition live :: "'s conn \<Rightarrow> fault + unit" where
  "live c = (if c_alive c then Inr () else Inl UseAfterFree)"

lemma live_simps [simp, conn_simps]:
  "live c = Inr u \<longleftrightarrow> c_alive c" "live c = Inl f \<longleftrightarrow> \<not> c_alive c \<and> f = UseAfterFree"
  by (auto simp: live_def)

lemma live_alive [simp]: "c_alive c \<Longrightarrow> live c = Inr ()"
  by simp

text \<open>
  The constructor and \<open>SetBufferSize\<close>, \<open>SetSession\<close> and \<open>NetWorker::Add\<close>, as
  \<open>Acceptor::accept\<close> and \<open>Connector::OnOut\<close> call them; \<open>junk\<close> is what \<open>malloc\<close> leaves in
  a fresh block.
\<close>

definition fresh_buffer :: "byte \<Rightarrow> int \<Rightarrow> buffer" where
  "fresh_buffer junk n = \<lparr>b_data = replicate (nat n) junk, b_size = n, b_offset = 0\<rparr>"

definition Connection_create ::
    "nat \<Rightarrow> byte \<Rightarrow> int \<Rightarrow> int \<Rightarrow> 's \<Rightarrow> work_request cycle_queue \<Rightarrow> 's conn" where
  "Connection_create i junk sendSize recvSize s q =
     \<lparr>c_id = i, c_session = Some s, c_pipe = True, c_worker = True, c_alive = True,
      sendW = fresh_buffer junk sendSize, sendU = fresh_buffer junk sendSize,
      recvW = fresh_buffer junk recvSize, recvU = fresh_buffer junk recvSize,
      send_st = SendNone, recv_st = RecvNone, c_workq = q, c_wire = [], c_sent = []\<rparr>"

text \<open>
  Buffers below \<open>2 ^ 30\<close> bytes keep \<open>worked.offset + used.offset\<close> within an \<open>s32\<close>; the
  configuration (\<open>bin/config/server_conf.xml\<close>) asks for 10240.
\<close>

definition bufs_ok :: "'s conn \<Rightarrow> bool" where
  "bufs_ok c \<longleftrightarrow> buf_ok (sendW c) \<and> buf_ok (sendU c) \<and> buf_ok (recvW c) \<and> buf_ok (recvU c) \<and>
     b_size (sendW c) = b_size (sendU c) \<and> b_size (recvW c) = b_size (recvU c) \<and>
     b_size (sendU c) < 1073741824 \<and> b_size (recvU c) < 1073741824"

lemma content_fresh [simp]: "content (fresh_buffer junk n) = []"
  by (simp add: content_def fresh_buffer_def)

lemma bufs_ok_create:
  assumes "0 \<le> sendSize" "sendSize < 1073741824" "0 \<le> recvSize" "recvSize < 1073741824"
  shows "bufs_ok (Connection_create i junk sendSize recvSize s q)"
  using assms by (simp add: bufs_ok_def buf_ok_def Connection_create_def fresh_buffer_def)

section \<open>Requests to the worker\<close>

text \<open>\<open>NetWorker::Send\<close> and \<open>NetWorker::Recv\<close>, called through \<open>_worker\<close>.\<close>

definition NetWorker_Send :: "'s conn \<Rightarrow> fault + 's conn" where
  "NetWorker_Send c =
     (if c_worker c
      then res_bind (cq_push (c_id c, WORK_SEND) (c_workq c)) (\<lambda>q. Inr (c\<lparr>c_workq := q\<rparr>))
      else Inl NullDeref)"

definition NetWorker_Recv :: "'s conn \<Rightarrow> fault + 's conn" where
  "NetWorker_Recv c =
     (if c_worker c
      then res_bind (cq_push (c_id c, WORK_RECV) (c_workq c)) (\<lambda>q. Inr (c\<lparr>c_workq := q\<rparr>))
      else Inl NullDeref)"

definition ChangeSendState :: "send_state \<Rightarrow> 's conn \<Rightarrow> 's conn" where
  "ChangeSendState s c = c\<lparr>send_st := s\<rparr>"

definition ChangeRecvState :: "recv_state \<Rightarrow> 's conn \<Rightarrow> 's conn" where
  "ChangeRecvState s c = c\<lparr>recv_st := s\<rparr>"

text \<open>\<open>BeginSend\<close>: the queued bytes move behind what the worker has left over.\<close>

definition BeginSend :: "'s conn \<Rightarrow> fault + (bool \<times> 's conn)" where
  "BeginSend c =
     (let worked = sendW c; used = sendU c in
      if b_offset used > 0 then
        (if s32 (b_offset worked + b_offset used) > b_size worked then Inr (False, c)
         else res_bind (buf_append (content used) worked) (\<lambda>worked'.
              res_bind (NetWorker_Send (c\<lparr>sendW := worked', sendU := used\<lparr>b_offset := 0\<rparr>\<rparr>)) (\<lambda>c'.
              Inr (True, c'))))
      else res_bind (NetWorker_Send c) (\<lambda>c'. Inr (True, c')))"

definition BeginRecv :: "'s conn \<Rightarrow> fault + 's conn" where
  "BeginRecv c = NetWorker_Recv c"

section \<open>Room in the work queue\<close>

definition queue_room :: "'s conn \<Rightarrow> bool" where
  "queue_room c \<longleftrightarrow> cq_inv (c_workq c) \<and> length (cq_list (c_workq c)) < cq_capacity (c_workq c)"

text \<open>What a push through the worker does when there is room.\<close>

definition pushed :: "work_event \<Rightarrow> 's conn \<Rightarrow> 's conn \<Rightarrow> bool" where
  "pushed w c c' \<longleftrightarrow> (\<exists>q. c' = c\<lparr>c_workq := q\<rparr> \<and> cq_inv q \<and>
     cq_list q = cq_list (c_workq c) @ [(c_id c, w)] \<and> cq_capacity q = cq_capacity (c_workq c))"

lemma NetWorker_push:
  assumes "c_worker c" "queue_room c"
  shows "\<exists>c'. NetWorker_Send c = Inr c' \<and> pushed WORK_SEND c c'"
    and "\<exists>c'. NetWorker_Recv c = Inr c' \<and> pushed WORK_RECV c c'"
  using assms cq.enq_room [of "c_workq c" "(c_id c, WORK_SEND)"]
    cq.enq_room [of "c_workq c" "(c_id c, WORK_RECV)"]
  by (auto simp: NetWorker_Send_def NetWorker_Recv_def queue_room_def pushed_def)

end
