(* ===== verification/Connection.thy ===== *)
theory Connection
  imports NetState
begin

text \<open>
  \<open>class Connection\<close> (\<open>src/src/kernel/net/Connection.cpp\<close>) with its two state machines
  (\<open>src/src/kernel/net/state/send\<close> and \<open>state/recv\<close>): one definition per state handler, the
  dispatch of an event to both machines, the session callbacks and the calls the session
  makes back into the pipe while a callback runs.

  The session is user code: a parameter \<open>app_react\<close> gives, for each callback and session
  state, the new session state and the calls it makes on its pipe, in order. The packet parser is
  the parameter \<open>app_parser\<close>. Since a callback re-enters \<open>OnEvent\<close>, the mutual recursion
  is cut by fuel, the depth of nested \<open>OnEvent\<close> activations.
\<close>

section \<open>The send machine\<close>

text \<open>
  \<open>if (connection->BeginSend()) connection->ChangeSendState(A) else
  connection->ChangeSendState(SendClose)\<close>, the form every handler uses.
\<close>

definition begin_send_to :: "send_state \<Rightarrow> 's conn \<Rightarrow> fault + 's conn" where
  "begin_send_to st c =
     res_bind (BeginSend c) (\<lambda>(ok, c').
     Inr (if ok then ChangeSendState st c' else ChangeSendState SendClose c'))"

definition SendNone_OnEvent :: "NetEventType \<Rightarrow> 's conn \<Rightarrow> fault + 's conn" where
  "SendNone_OnEvent evt c = (case evt of
     NEVT_SEND_PENDING \<Rightarrow> Inr c
   | NEVT_SEND_DONE \<Rightarrow> Inr c
   | NEVT_SEND_ERROR \<Rightarrow> Inr c
   | NEVT_SEND_READY \<Rightarrow> Inr c
   | NEVT_SEND \<Rightarrow> begin_send_to Sending c
   | NEVT_RECV_ERROR \<Rightarrow> Inr (ChangeSendState SendClose c)
   | NEVT_RECV_CLOSE \<Rightarrow> Inr (ChangeSendState SendClose c)
   | NEVT_CLOSE \<Rightarrow> Inr (ChangeSendState SendClose c)
   | NEVT_ERROR \<Rightarrow> Inr (ChangeSendState SendClose c)
   | _ \<Rightarrow> Inr c)"

definition SendPending_OnEvent :: "NetEventType \<Rightarrow> 's conn \<Rightarrow> fault + 's conn" where
  "SendPending_OnEvent evt c = (case evt of
     NEVT_SEND_READY \<Rightarrow> begin_send_to Sending c
   | NEVT_RECV_ERROR \<Rightarrow> Inr (ChangeSendState SendClose c)
   | NEVT_RECV_CLOSE \<Rightarrow> Inr (ChangeSendState SendClose c)
   | NEVT_CLOSE \<Rightarrow> Inr (ChangeSendState SendClose c)
   | NEVT_ERROR \<Rightarrow> Inr (ChangeSendState SendClose c)
   | _ \<Rightarrow> Inr c)"

definition Sending_OnEvent :: "NetEventType \<Rightarrow> 's conn \<Rightarrow> fault + 's conn" where
  "Sending_OnEvent evt c = (case evt of
     NEVT_SEND_PENDING \<Rightarrow> Inr (ChangeSendState SendPending c)
   | NEVT_SEND_DONE \<Rightarrow> Inr (ChangeSendState SendNone c)
   | NEVT_SEND_ERROR \<Rightarrow> Inr (ChangeSendState SendClose c)
   | NEVT_SEND_READY \<Rightarrow> Inr (ChangeSendState SendingReady c)
   | NEVT_SEND \<Rightarrow> Inr (ChangeSendState SendingWait c)
   | NEVT_RECV_ERROR \<Rightarrow> Inr (ChangeSendState SendWaitClose c)
   | NEVT_RECV_CLOSE \<Rightarrow> Inr (ChangeSendState SendWaitClose c)
   | NEVT_CLOSE \<Rightarrow> Inr (ChangeSendState SendWaitClose c)
   | NEVT_ERROR \<Rightarrow> Inr (ChangeSendState SendWaitClose c)
   | _ \<Rightarrow> Inr c)"

definition SendingReady_OnEvent :: "NetEventType \<Rightarrow> 's conn \<Rightarrow> fault + 's conn" where
  "SendingReady_OnEvent evt c = (case evt of
     NEVT_SEND_PENDING \<Rightarrow> begin_send_to Sending c
   | NEVT_SEND_DONE \<Rightarrow> Inr (ChangeSendState SendNone c)
   | NEVT_SEND_READY \<Rightarrow> Inr c
   | NEVT_SEND \<Rightarrow> Inr (ChangeSendState SendingReadyWait c)
   | NEVT_SEND_ERROR \<Rightarrow> Inr (ChangeSendState SendClose c)
   | NEVT_RECV_ERROR \<Rightarrow> Inr (ChangeSendState SendingWaitClose c)
   | NEVT_RECV_CLOSE \<Rightarrow> Inr (ChangeSendState SendingWaitClose c)
   | NEVT_CLOSE \<Rightarrow> Inr (ChangeSendState SendingWaitClose c)
   | NEVT_ERROR \<Rightarrow> Inr (ChangeSendState SendingWaitClose c)
   | _ \<Rightarrow> Inr c)"

definition SendingWait_OnEvent :: "NetEventType \<Rightarrow> 's conn \<Rightarrow> fault + 's conn" where
  "SendingWait_OnEvent evt c = (case evt of
     NEVT_SEND_PENDING \<Rightarrow> Inr (ChangeSendState SendPending c)
   | NEVT_SEND_DONE \<Rightarrow> begin_send_to Sending c
   | NEVT_SEND_ERROR \<Rightarrow> Inr (ChangeSendState SendClose c)
   | NEVT_SEND_READY \<Rightarrow> Inr (ChangeSendState SendingReadyWait c)
   | NEVT_SEND \<Rightarrow> Inr c
   | NEVT_RECV_ERROR \<Rightarrow> Inr (ChangeSendState SendingWaitClose c)
   | NEVT_RECV_CLOSE \<Rightarrow> Inr (ChangeSendState SendingWaitClose c)
   | NEVT_CLOSE \<Rightarrow> Inr (ChangeSendState SendingWaitClose c)
   | NEVT_ERROR \<Rightarrow> Inr (ChangeSendState SendingWaitClose c)
   | _ \<Rightarrow> Inr c)"

definition SendingReadyWait_OnEvent :: "NetEventType \<Rightarrow> 's conn \<Rightarrow> fault + 's conn" where
  "SendingReadyWait_OnEvent evt c = (case evt of
     NEVT_SEND_PENDING \<Rightarrow> begin_send_to Sending c
   | NEVT_SEND_DONE \<Rightarrow> begin_send_to Sending c
   | NEVT_SEND_ERROR \<Rightarrow> Inr (ChangeSendState SendClose c)
   | NEVT_SEND_READY \<Rightarrow> Inr c
   | NEVT_SEND \<Rightarrow> Inr c
   | NEVT_RECV_ERROR \<Rightarrow> Inr (ChangeSendState SendingWaitClose c)
   | NEVT_RECV_CLOSE \<Rightarrow> Inr (ChangeSendState SendingWaitClose c)
   | NEVT_CLOSE \<Rightarrow> Inr (ChangeSendState SendingWaitClose c)
   | NEVT_ERROR \<Rightarrow> Inr (ChangeSendState SendingWaitClose c)
   | _ \<Rightarrow> Inr c)"

definition SendWaitClose_OnEvent :: "NetEventType \<Rightarrow> 's conn \<Rightarrow> fault + 's conn" where
  "SendWaitClose_OnEvent evt c = (case evt of
     NEVT_SEND_PENDING \<Rightarrow> Inr (ChangeSendState SendClose c)
   | NEVT_SEND_DONE \<Rightarrow> Inr (ChangeSendState SendClose c)
   | NEVT_SEND_ERROR \<Rightarrow> Inr (ChangeSendState SendClose c)
   | _ \<Rightarrow> Inr c)"

definition SendingWaitClose_OnEvent :: "NetEventType \<Rightarrow> 's conn \<Rightarrow> fault + 's conn" where
  "SendingWaitClose_OnEvent evt c = (case evt of
     NEVT_SEND_PENDING \<Rightarrow> Inr (ChangeSendState SendClose c)
   | NEVT_SEND_ERROR \<Rightarrow> Inr (ChangeSendState SendClose c)
   | NEVT_SEND_DONE \<Rightarrow> begin_send_to SendWaitClose c
   | NEVT_RECV_ERROR \<Rightarrow> Inr (ChangeSendState SendWaitClose c)
   | NEVT_RECV_CLOSE \<Rightarrow> Inr (ChangeSendState SendWaitClose c)
   | _ \<Rightarrow> Inr c)"

definition SendClose_OnEvent :: "NetEventType \<Rightarrow> 's conn \<Rightarrow> fault + 's conn" where
  "SendClose_OnEvent evt c = Inr c"

text \<open>\<open>StateMachine::OnEvent\<close> on \<open>_sendMachine\<close>: the virtual call of the current state.\<close>

definition send_machine_OnEvent :: "NetEventType \<Rightarrow> 's conn \<Rightarrow> fault + 's conn" where
  "send_machine_OnEvent evt c = (case send_st c of
     SendNone \<Rightarrow> SendNone_OnEvent evt c
   | SendPending \<Rightarrow> SendPending_OnEvent evt c
   | Sending \<Rightarrow> Sending_OnEvent evt c
   | SendingReady \<Rightarrow> SendingReady_OnEvent evt c
   | SendingWait \<Rightarrow> SendingWait_OnEvent evt c
   | SendingReadyWait \<Rightarrow> SendingReadyWait_OnEvent evt c
   | SendWaitClose \<Rightarrow> SendWaitClose_OnEvent evt c
   | SendingWaitClose \<Rightarrow> SendingWaitClose_OnEvent evt c
   | SendClose \<Rightarrow> SendClose_OnEvent evt c)"

section \<open>The receive machine\<close>

text \<open>The handlers take \<open>ProcessPacket\<close> as an argument, which runs user code.\<close>

definition RecvNone_OnEvent :: "NetEventType \<Rightarrow> 's conn \<Rightarrow> fault + 's conn" where
  "RecvNone_OnEvent evt c = (case evt of
     NEVT_RECV \<Rightarrow> res_bind (BeginRecv c) (\<lambda>c'. Inr (ChangeRecvState Recving c'))
   | NEVT_ERROR \<Rightarrow> Inr (ChangeRecvState RecvClose c)
   | NEVT_CLOSE \<Rightarrow> Inr (ChangeRecvState RecvClose c)
   | NEVT_SEND_ERROR \<Rightarrow> Inr (ChangeRecvState RecvClose c)
   | NEVT_RECV_ERROR \<Rightarrow> Inr (ChangeRecvState RecvClose c)
   | NEVT_RECV_CLOSE \<Rightarrow> Inr (ChangeRecvState RecvClose c)
   | _ \<Rightarrow> Inr c)"

definition Recving_OnEvent ::
    "('s conn \<Rightarrow> fault + (bool \<times> 's conn)) \<Rightarrow> NetEventType \<Rightarrow> 's conn \<Rightarrow> fault + 's conn" where
  "Recving_OnEvent process evt c = (case evt of
     NEVT_RECV \<Rightarrow> Inr (ChangeRecvState RecvingWait c)
   | NEVT_RECV_DONE \<Rightarrow>
       res_bind (process c) (\<lambda>(ok, c').
       Inr (if ok then ChangeRecvState RecvNone c' else ChangeRecvState RecvClose c'))
   | NEVT_ERROR \<Rightarrow> Inr (ChangeRecvState RecvWaitClose c)
   | NEVT_CLOSE \<Rightarrow> Inr (ChangeRecvState RecvWaitClose c)
   | NEVT_SEND_ERROR \<Rightarrow> Inr (ChangeRecvState RecvWaitClose c)
   | NEVT_RECV_ERROR \<Rightarrow> Inr (ChangeRecvState RecvClose c)
   | NEVT_RECV_CLOSE \<Rightarrow> Inr (ChangeRecvState RecvClose c)
   | _ \<Rightarrow> Inr c)"

definition RecvingWait_OnEvent ::
    "('s conn \<Rightarrow> fault + (bool \<times> 's conn)) \<Rightarrow> NetEventType \<Rightarrow> 's conn \<Rightarrow> fault + 's conn" where
  "RecvingWait_OnEvent process evt c = (case evt of
     NEVT_RECV \<Rightarrow> Inr c
   | NEVT_RECV_DONE \<Rightarrow>
       res_bind (process c) (\<lambda>(ok, c').
       if ok then res_bind (BeginRecv c') (\<lambda>c''. Inr (ChangeRecvState Recving c''))
       else Inr (ChangeRecvState RecvClose c'))
   | NEVT_ERROR \<Rightarrow> Inr (ChangeRecvState RecvWaitClose c)
   | NEVT_CLOSE \<Rightarrow> Inr (ChangeRecvState RecvWaitClose c)
   | NEVT_SEND_ERROR \<Rightarrow> Inr (ChangeRecvState RecvWaitClose c)
   | NEVT_RECV_ERROR \<Rightarrow> Inr (ChangeRecvState RecvClose c)
   | NEVT_RECV_CLOSE \<Rightarrow> Inr (ChangeRecvState RecvClose c)
   | _ \<Rightarrow> Inr c)"

definition RecvWaitClose_OnEvent :: "NetEventType \<Rightarrow> 's conn \<Rightarrow> fault + 's conn" where
  "RecvWaitClose_OnEvent evt c = (case evt of
     NEVT_RECV_DONE \<Rightarrow> Inr (ChangeRecvState RecvClose c)
   | NEVT_RECV_ERROR \<Rightarrow> Inr (ChangeRecvState RecvClose c)
   | NEVT_RECV_CLOSE \<Rightarrow> Inr (ChangeRecvState RecvClose c)
   | _ \<Rightarrow> Inr c)"

definition RecvClose_OnEvent :: "NetEventType \<Rightarrow> 's conn \<Rightarrow> fault + 's conn" where
  "RecvClose_OnEvent evt c = Inr c"

definition recv_machine_OnEvent ::
    "('s conn \<Rightarrow> fault + (bool \<times> 's conn)) \<Rightarrow> NetEventType \<Rightarrow> 's conn \<Rightarrow> fault + 's conn" where
  "recv_machine_OnEvent process evt c = (case recv_st c of
     RecvNone \<Rightarrow> RecvNone_OnEvent evt c
   | Recving \<Rightarrow> Recving_OnEvent process evt c
   | RecvingWait \<Rightarrow> RecvingWait_OnEvent process evt c
   | RecvWaitClose \<Rightarrow> RecvWaitClose_OnEvent evt c
   | RecvClose \<Rightarrow> RecvClose_OnEvent evt c)"

section \<open>Session callbacks and pipe calls\<close>

datatype callback = CbConnected | CbRecv "byte list" | CbError int | CbDisconnected

datatype pipe_call = PSend "byte list" | PClose

record 's app =
  app_parser :: "byte list \<Rightarrow> int"
  app_react :: "callback \<Rightarrow> 's \<Rightarrow> 's \<times> pipe_call list"

text \<open>\<open>Connection::Send\<close> and \<open>Connection::Close\<close>; \<open>oe\<close> is \<open>OnEvent\<close>.\<close>

definition Connection_Send ::
    "(NetEventType \<Rightarrow> 's conn \<Rightarrow> fault + 's conn) \<Rightarrow> byte list \<Rightarrow> 's conn \<Rightarrow> fault + 's conn" where
  "Connection_Send oe context c =
     (if s32 (b_offset (sendU c) + int (length context)) > b_size (sendU c) then oe NEVT_ERROR c
      else res_bind (buf_append context (sendU c)) (\<lambda>used.
           oe NEVT_SEND (c\<lparr>sendU := used, c_sent := c_sent c @ context\<rparr>)))"

definition Connection_Close ::
    "(NetEventType \<Rightarrow> 's conn \<Rightarrow> fault + 's conn) \<Rightarrow> 's conn \<Rightarrow> fault + 's conn" where
  "Connection_Close oe c =
     (if c_session c = None then Inl (AssertFail ''session is null'') else oe NEVT_CLOSE c)"

text \<open>
  \<open>ISession::Send\<close> and \<open>ISession::Close\<close> (\<open>src/src/API/IKernel.h\<close>) do nothing once
  \<open>_pipe\<close> is null.
\<close>

definition ISession_call ::
    "(NetEventType \<Rightarrow> 's conn \<Rightarrow> fault + 's conn) \<Rightarrow> pipe_call \<Rightarrow> 's conn \<Rightarrow> fault + 's conn" where
  "ISession_call oe x c =
     (if c_pipe c
      then (case x of PSend context \<Rightarrow> Connection_Send oe context c
            | PClose \<Rightarrow> Connection_Close oe c)
      else Inr c)"

primrec run_calls ::
    "(NetEventType \<Rightarrow> 's conn \<Rightarrow> fault + 's conn) \<Rightarrow> pipe_call list \<Rightarrow> 's conn \<Rightarrow> fault + 's conn" where
  "run_calls oe [] c = Inr c"
| "run_calls oe (x # xs) c = res_bind (ISession_call oe x c) (run_calls oe xs)"

definition deliver ::
    "'s app \<Rightarrow> (NetEventType \<Rightarrow> 's conn \<Rightarrow> fault + 's conn) \<Rightarrow> callback \<Rightarrow> 's conn \<Rightarrow> fault + 's conn" where
  "deliver app oe cb c =
     (case c_session c of
        None \<Rightarrow> Inl (AssertFail ''session is null'')
      | Some s \<Rightarrow> (let (s', xs) = app_react app cb s in
                   run_calls oe xs (c\<lparr>c_session := Some s'\<rparr>)))"

section \<open>Packets\<close>

text \<open>
  The loop of \<open>ProcessPacket\<close>: \<open>None\<close> in the result's first component is the early
  \<open>return false\<close> on a malformed packet, \<open>Some pos\<close> the position after the last complete
  packet. Each turn consumes at least one byte, so the fuel is the number of buffered bytes.
\<close>

fun packet_loop ::
    "'s app \<Rightarrow> (callback \<Rightarrow> 's conn \<Rightarrow> fault + 's conn) \<Rightarrow> nat \<Rightarrow> int \<Rightarrow> 's conn
     \<Rightarrow> fault + (int option \<times> 's conn)" where
  "packet_loop app dl fuel pos c =
     (if pos < b_offset (recvU c) then
        (case fuel of
           0 \<Rightarrow> Inl OutOfFuel
         | Suc n \<Rightarrow>
             (let u = app_parser app
                        (slice (b_data (recvU c)) (nat pos) (nat (b_offset (recvU c) - pos))) in
              if u = 0 then Inr (Some pos, c)
              else if u > 0 then
                (if nat (pos + u) \<le> length (b_data (recvU c))
                 then res_bind (dl (CbRecv (slice (b_data (recvU c)) (nat pos) (nat u))) c) (\<lambda>c'.
                      res_bind (live c') (\<lambda>_. packet_loop app dl n (pos + u) c'))
                 else Inl OutOfBounds)
              else Inr (None, c)))
      else Inr (Some pos, c))"

declare packet_loop.simps [simp del]

definition ProcessPacket ::
    "'s app \<Rightarrow> (callback \<Rightarrow> 's conn \<Rightarrow> fault + 's conn) \<Rightarrow> 's conn \<Rightarrow> fault + (bool \<times> 's conn)" where
  "ProcessPacket app dl c =
     (let worked = recvW c; used = recvU c in
      if b_offset worked > 0 then
        (if s32 (b_offset worked + b_offset used) > b_size used then Inr (False, c)
         else res_bind (buf_append (content worked) used) (\<lambda>used'.
              let c1 = c\<lparr>recvU := used', recvW := worked\<lparr>b_offset := 0\<rparr>\<rparr> in
              res_bind (packet_loop app dl (nat (b_offset used')) 0 c1) (\<lambda>(r, c2).
              case r of
                None \<Rightarrow> Inr (False, c2)
              | Some pos \<Rightarrow> Inr (True, c2\<lparr>recvU := buf_consume pos (recvU c2)\<rparr>))))
      else Inr (True, c))"

section \<open>Closing and the event dispatch\<close>

text \<open>
  \<open>OnClose\<close>: the session is told, its pipe cut, the worker forgets the connection, the
  descriptor is closed and the object deletes itself.
\<close>

definition OnClose ::
    "(callback \<Rightarrow> 's conn \<Rightarrow> fault + 's conn) \<Rightarrow> 's conn \<Rightarrow> fault + 's conn" where
  "OnClose dl c =
     (if c_session c = None \<or> \<not> c_worker c
      then Inl (AssertFail ''session or worker is null'')
      else res_bind (dl CbDisconnected c) (\<lambda>c1.
           res_bind (live c1) (\<lambda>_.
           if c_worker c1
           then Inr (c1\<lparr>c_pipe := False, c_worker := False, c_alive := False\<rparr>)
           else Inl NullDeref)))"

primrec OnEvent :: "'s app \<Rightarrow> nat \<Rightarrow> NetEventType \<Rightarrow> 's conn \<Rightarrow> fault + 's conn" where
  "OnEvent app 0 = (\<lambda>evt c. Inl OutOfFuel)"
| "OnEvent app (Suc n) = (\<lambda>evt c.
     let dl = deliver app (OnEvent app n) in
     res_bind (live c) (\<lambda>_.
     res_bind (send_machine_OnEvent evt c) (\<lambda>c1.
     res_bind (recv_machine_OnEvent (ProcessPacket app dl) evt c1) (\<lambda>c2.
     res_bind (live c2) (\<lambda>_.
     if send_st c2 = SendClose \<and> recv_st c2 = RecvClose then OnClose dl c2 else Inr c2)))))"

declare OnEvent.simps [simp del]

text \<open>The entry points the engine calls, and the pipe's own.\<close>

definition Connection_OnConnected :: "'s app \<Rightarrow> nat \<Rightarrow> 's conn \<Rightarrow> fault + 's conn" where
  "Connection_OnConnected app n c = deliver app (OnEvent app n) CbConnected c"

definition Connection_OnIn :: "'s app \<Rightarrow> nat \<Rightarrow> 's conn \<Rightarrow> fault + 's conn" where
  "Connection_OnIn app n c = OnEvent app n NEVT_RECV c"

definition Connection_OnOut :: "'s app \<Rightarrow> nat \<Rightarrow> 's conn \<Rightarrow> fault + 's conn" where
  "Connection_OnOut app n c = OnEvent app n NEVT_SEND_READY c"

definition Connection_OnError :: "'s app \<Rightarrow> nat \<Rightarrow> int \<Rightarrow> 's conn \<Rightarrow> fault + 's conn" where
  "Connection_OnError app n errno c =
     res_bind (deliver app (OnEvent app n) (CbError errno) c) (\<lambda>c'. OnEvent app n NEVT_ERROR c')"

definition Connection_send :: "'s app \<Rightarrow> nat \<Rightarrow> byte list \<Rightarrow> 's conn \<Rightarrow> fault + 's conn" where
  "Connection_send app n context c = ISession_call (OnEvent app n) (PSend context) c"

definition Connection_close :: "'s app \<Rightarrow> nat \<Rightarrow> 's conn \<Rightarrow> fault + 's conn" where
  "Connection_close app n c = ISession_call (OnEvent app n) PClose c"

lemmas send_handlers =
  SendNone_OnEvent_def SendPending_OnEvent_def Sending_OnEvent_def SendingReady_OnEvent_def
  SendingWait_OnEvent_def SendingReadyWait_OnEvent_def SendWaitClose_OnEvent_def
  SendingWaitClose_OnEvent_def SendClose_OnEvent_def

lemmas recv_handlers =
  RecvNone_OnEvent_def Recving_OnEvent_def RecvingWait_OnEvent_def RecvWaitClose_OnEvent_def
  RecvClose_OnEvent_def

end
