(* ===== verification/NetWorker.thy ===== *)
theory NetWorker
  imports Connection
begin

text \<open>
  \<open>class NetWorker\<close> (\<open>src/src/kernel/net/NetWorker.cpp\<close>): the worker thread that performs
  the socket reads and writes of its connections, the two queues between it and the main thread,
  and \<open>Connection::OnRecv\<close> and \<open>Connection::OnSend\<close>, which run on the worker thread.

  The results of \<open>::recv\<close> and \<open>::send\<close> are an input: a list with one entry per call.
\<close>

section \<open>Socket reads and writes\<close>

datatype wret = WRET_DONE | WRET_PENDING | WRET_ERROR | WRET_CLOSE

datatype recv_result = RecvBytes "byte list" | RecvEof | RecvAgain | RecvFailed

datatype send_result = SendTook int | SendAgain | SendFailed

text \<open>
  The loop of \<open>OnRecv\<close>; the second component is the local \<open>offset\<close> when it ends. The
  list of results must be long enough: the loop ends at the latest when the buffer is full.
\<close>

fun recv_loop :: "recv_result list \<Rightarrow> int \<Rightarrow> buffer \<Rightarrow> fault + (wret \<times> int \<times> buffer)" where
  "recv_loop os off b =
     (if off < b_size b then
        (case os of
           [] \<Rightarrow> Inl OutOfFuel
         | r # os' \<Rightarrow>
             (case r of
                RecvFailed \<Rightarrow> Inr (WRET_ERROR, off, b)
              | RecvAgain \<Rightarrow> Inr (WRET_DONE, off, b)
              | RecvEof \<Rightarrow> Inr (WRET_CLOSE, off, b)
              | RecvBytes bs \<Rightarrow>
                  res_bind (memcpy_in (b_data b) (nat off) bs) (\<lambda>d.
                  recv_loop os' (off + int (length bs)) (b\<lparr>b_data := d\<rparr>))))
      else Inr (WRET_DONE, off, b))"

declare recv_loop.simps [simp del]

definition Connection_OnRecv :: "recv_result list \<Rightarrow> 's conn \<Rightarrow> fault + (wret \<times> 's conn)" where
  "Connection_OnRecv os c =
     (let buffer = recvW c in
      res_bind (oassert (b_offset buffer = 0) ''recv buffer is not empty'') (\<lambda>_.
      res_bind (recv_loop os (b_offset buffer) buffer) (\<lambda>(ret, off, b).
      Inr (ret, c\<lparr>recvW := (if ret = WRET_DONE then b\<lparr>b_offset := off\<rparr> else b)\<rparr>))))"

text \<open>
  The loop of \<open>OnSend\<close>. A call that takes nothing (\<open>SendTook 0\<close>) is repeated. The third
  component collects the bytes the kernel took.
\<close>

fun send_loop ::
    "send_result list \<Rightarrow> int \<Rightarrow> buffer \<Rightarrow> byte list \<Rightarrow> fault + (wret \<times> int \<times> byte list)" where
  "send_loop os off b wire =
     (if off < b_offset b then
        (case os of
           [] \<Rightarrow> Inl OutOfFuel
         | r # os' \<Rightarrow>
             (case r of
                SendFailed \<Rightarrow> Inr (WRET_ERROR, off, wire)
              | SendAgain \<Rightarrow> Inr (WRET_PENDING, off, wire)
              | SendTook n \<Rightarrow>
                  send_loop os' (if n > 0 then off + n else off) b
                    (wire @ slice (b_data b) (nat off) (nat n))))
      else Inr (WRET_DONE, off, wire))"

declare send_loop.simps [simp del]

definition Connection_OnSend :: "send_result list \<Rightarrow> 's conn \<Rightarrow> fault + (wret \<times> 's conn)" where
  "Connection_OnSend os c =
     (let buffer = sendW c in
      res_bind (oassert (b_offset buffer \<noteq> 0) ''send buffer is empty'') (\<lambda>_.
      res_bind (send_loop os 0 buffer []) (\<lambda>(ret, off, took).
      Inr (ret, c\<lparr>sendW := (if ret = WRET_ERROR then buffer else buf_consume off buffer),
                  c_wire := c_wire c @ took\<rparr>))))"

section \<open>The worker\<close>

type_synonym work_result = "nat \<times> NetEventType"

record 's worker =
  w_conns :: "nat \<Rightarrow> 's conn option"
  w_workq :: "work_request cycle_queue"
  w_resq :: "work_result cycle_queue"
  w_max :: int
  w_now :: int
  w_closed :: "nat list"

text \<open>The constructor \<open>NetWorker(maxConnection)\<close>: both queues hold two entries per connection.\<close>

definition NetWorker_new :: "int \<Rightarrow> fault + 's worker" where
  "NetWorker_new maxConnection =
     res_bind (cq_new (0, WORK_SEND) (s32 (maxConnection * 2))) (\<lambda>wq.
     res_bind (cq_new (0, NEVT_SEND) (s32 (maxConnection * 2))) (\<lambda>rq.
     Inr \<lparr>w_conns = Map.empty, w_workq = wq, w_resq = rq, w_max = maxConnection, w_now = 0, w_closed = []\<rparr>))"

definition GetFreeSlot :: "'s worker \<Rightarrow> int" where
  "GetFreeSlot w = w_max w - w_now w"

text \<open>
  An operation of a connection works on its worker's queue and may end in \<open>OnClose\<close>, which calls
  \<open>NetWorker::Remove\<close> to give the slot back and ends in \<open>delete this\<close>. What \<open>OnClose\<close> calls of the engine
  is in \<open>Engine\<close> (\<open>OnClose_engine\<close>): \<open>w_closed\<close> lists the connections for which that is still to be done.
\<close>

definition NetWorker_Remove :: "nat \<Rightarrow> 's worker \<Rightarrow> fault + 's worker" where
  "NetWorker_Remove i w =
     res_bind (oassert (w_now w - 1 \<ge> 0) ''connection count error'') (\<lambda>_.
     Inr (w\<lparr>w_conns := (w_conns w)(i := None), w_now := w_now w - 1\<rparr>))"

definition settle :: "nat \<Rightarrow> 's conn \<Rightarrow> 's worker \<Rightarrow> fault + 's worker" where
  "settle i c w =
     (let w' = w\<lparr>w_workq := c_workq c, w_conns := (w_conns w)(i \<mapsto> c)\<rparr> in
      if c_alive c then Inr w'
      else res_bind (NetWorker_Remove i w') (\<lambda>w''. Inr (w''\<lparr>w_closed := w_closed w'' @ [i]\<rparr>)))"

definition on_connection ::
    "('s conn \<Rightarrow> fault + 's conn) \<Rightarrow> nat \<Rightarrow> 's worker \<Rightarrow> fault + 's worker" where
  "on_connection f i w =
     (case w_conns w i of
        None \<Rightarrow> Inl UseAfterFree
      | Some c \<Rightarrow> res_bind (f (c\<lparr>c_workq := w_workq w\<rparr>)) (\<lambda>c'. settle i c' w))"

text \<open>
  \<open>NetWorker::Add\<close>, and the \<open>OnConnected\<close> callback that \<open>Acceptor::OnIn\<close> and
  \<open>Connector::OnOut\<close> make right after it.
\<close>

definition NetWorker_Add :: "nat \<Rightarrow> 's conn \<Rightarrow> 's worker \<Rightarrow> 's worker" where
  "NetWorker_Add i c w = w\<lparr>w_conns := (w_conns w)(i \<mapsto> c), w_now := w_now w + 1\<rparr>"

definition attach ::
    "'s app \<Rightarrow> nat \<Rightarrow> byte \<Rightarrow> int \<Rightarrow> int \<Rightarrow> 's \<Rightarrow> nat \<Rightarrow> 's worker \<Rightarrow> fault + 's worker" where
  "attach app n junk sendSize recvSize s i w =
     on_connection (Connection_OnConnected app n) i
       (NetWorker_Add i (Connection_create i junk sendSize recvSize s (w_workq w)) w)"

section \<open>Requests and results\<close>

fun recv_event :: "wret \<Rightarrow> NetEventType" where
  "recv_event WRET_ERROR = NEVT_RECV_ERROR"
| "recv_event WRET_CLOSE = NEVT_RECV_CLOSE"
| "recv_event _ = NEVT_RECV_DONE"

fun send_event :: "wret \<Rightarrow> NetEventType" where
  "send_event WRET_ERROR = NEVT_SEND_ERROR"
| "send_event WRET_PENDING = NEVT_SEND_PENDING"
| "send_event _ = NEVT_SEND_DONE"

text \<open>\<open>DoRequest\<close> on the worker thread, for a request already read off the work queue.\<close>

definition DoRequest ::
    "recv_result list \<Rightarrow> send_result list \<Rightarrow> work_request \<Rightarrow> 's worker \<Rightarrow> fault + 's worker" where
  "DoRequest ros sos r w =
     (let (i, e) = r in
      case w_conns w i of
        None \<Rightarrow> Inl UseAfterFree
      | Some c \<Rightarrow>
          res_bind (case e of
              WORK_RECV \<Rightarrow> res_bind (Connection_OnRecv ros c) (\<lambda>(ret, c'). Inr (recv_event ret, c'))
            | WORK_SEND \<Rightarrow> res_bind (Connection_OnSend sos c) (\<lambda>(ret, c'). Inr (send_event ret, c')))
            (\<lambda>(evt, c').
          res_bind (cq_push (i, evt) (w_resq w)) (\<lambda>q.
          Inr (w\<lparr>w_conns := (w_conns w)(i \<mapsto> c'), w_resq := q\<rparr>))))"

text \<open>\<open>DoResult\<close> on the main thread, for a result already read off the result queue.\<close>

definition DoResult :: "'s app \<Rightarrow> nat \<Rightarrow> work_result \<Rightarrow> 's worker \<Rightarrow> fault + 's worker" where
  "DoResult app n r w = on_connection (OnEvent app n (snd r)) (fst r) w"

text \<open>One turn of the loop of \<open>ThreadProc\<close>; an empty queue sleeps.\<close>

definition ThreadProc_turn ::
    "recv_result list \<Rightarrow> send_result list \<Rightarrow> 's worker \<Rightarrow> fault + 's worker" where
  "ThreadProc_turn ros sos w =
     (case cq_read (w_workq w) of
        None \<Rightarrow> Inr w
      | Some (r, q) \<Rightarrow> DoRequest ros sos r (w\<lparr>w_workq := q\<rparr>))"

text \<open>
  \<open>Process\<close>: results are handled until the queue is empty or the clock passes
  \<open>tick + frame\<close>; \<open>clock\<close> lists the readings of \<open>GetTimeMillisecond\<close> after each result.
\<close>

fun process_loop ::
    "'s app \<Rightarrow> nat \<Rightarrow> int \<Rightarrow> int list \<Rightarrow> 's worker \<Rightarrow> fault + 's worker" where
  "process_loop app n limit clock w =
     (case cq_read (w_resq w) of
        None \<Rightarrow> Inr w
      | Some (r, q) \<Rightarrow>
          res_bind (DoResult app n r (w\<lparr>w_resq := q\<rparr>)) (\<lambda>w'.
          case clock of
            [] \<Rightarrow> Inl OutOfFuel
          | now # clock' \<Rightarrow>
              if now > limit then Inr w' else process_loop app n limit clock' w'))"

declare process_loop.simps [simp del]

definition Process ::
    "'s app \<Rightarrow> nat \<Rightarrow> int \<Rightarrow> int \<Rightarrow> int list \<Rightarrow> 's worker \<Rightarrow> fault + 's worker" where
  "Process app n tick frame clock w = process_loop app n (tick + frame) clock w"

end
