(* ===== verification/ConnectionInv.thy ===== *)
theory ConnectionInv
  imports NetWorker
begin

text \<open>
  What every operation of a connection keeps: its send machine is in a \<open>Sending\<close> state
  exactly while one send request or its result is under way, its receive machine in a \<open>Recving\<close>
  state exactly while one receive request is, and no operation runs into a fault. The
  lemmas go up the call tree of \<open>Connection.cpp\<close>: requests, send handlers, receive
  handlers, pipe calls, callbacks, packets, events.
\<close>

section \<open>Requests under way\<close>

fun send_busy :: "send_state \<Rightarrow> bool" where
  "send_busy SendNone = False"
| "send_busy SendPending = False"
| "send_busy SendClose = False"
| "send_busy _ = True"

fun recv_busy :: "recv_state \<Rightarrow> bool" where
  "recv_busy RecvNone = False"
| "recv_busy RecvClose = False"
| "recv_busy _ = True"

text \<open>The request a result answers; the other events are never results.\<close>

fun result_kind :: "NetEventType \<Rightarrow> work_event option" where
  "result_kind NEVT_SEND_DONE = Some WORK_SEND"
| "result_kind NEVT_SEND_ERROR = Some WORK_SEND"
| "result_kind NEVT_SEND_PENDING = Some WORK_SEND"
| "result_kind NEVT_RECV_DONE = Some WORK_RECV"
| "result_kind NEVT_RECV_ERROR = Some WORK_RECV"
| "result_kind NEVT_RECV_CLOSE = Some WORK_RECV"
| "result_kind _ = None"

text \<open>
  \<open>G\<close> holds the requests whose results wait in the result queue, \<open>D\<close> the connections of
  the worker.
\<close>

definition under_way :: "work_request set \<Rightarrow> 's conn \<Rightarrow> work_event \<Rightarrow> bool" where
  "under_way G c e \<longleftrightarrow> (c_id c, e) \<in> set (cq_list (c_workq c)) \<or> (c_id c, e) \<in> G"

definition wired :: "work_request set \<Rightarrow> nat set \<Rightarrow> 's conn \<Rightarrow> bool" where
  "wired G D c \<longleftrightarrow>
     c_alive c \<and> c_worker c \<and> c_pipe c \<and> c_session c \<noteq> None \<and> bufs_ok c \<and>
     cq_inv (c_workq c) \<and> distinct (cq_list (c_workq c)) \<and> set (cq_list (c_workq c)) \<inter> G = {} \<and>
     set (cq_list (c_workq c)) \<subseteq> D \<times> UNIV \<and> finite D \<and> c_id c \<in> D \<and>
     2 * card D \<le> cq_capacity (c_workq c)"

definition idle_recv_empty :: "'s conn \<Rightarrow> bool" where
  "idle_recv_empty c \<longleftrightarrow>
     (recv_st c = RecvNone \<or> (c_id c, WORK_RECV) \<in> set (cq_list (c_workq c)) \<longrightarrow>
        b_offset (recvW c) = 0)"

definition send_ok :: "work_request set \<Rightarrow> 's conn \<Rightarrow> bool" where
  "send_ok G c \<longleftrightarrow> (send_busy (send_st c) \<longleftrightarrow> under_way G c WORK_SEND)"

definition recv_ok :: "work_request set \<Rightarrow> 's conn \<Rightarrow> bool" where
  "recv_ok G c \<longleftrightarrow> (recv_busy (recv_st c) \<longleftrightarrow> under_way G c WORK_RECV)"

text \<open>A connection between two events, and one inside \<open>ProcessPacket\<close>.\<close>

definition conn_ok :: "work_request set \<Rightarrow> nat set \<Rightarrow> 's conn \<Rightarrow> bool" where
  "conn_ok G D c \<longleftrightarrow> wired G D c \<and> send_ok G c \<and> recv_ok G c \<and> idle_recv_empty c"

definition mid_ok :: "work_request set \<Rightarrow> nat set \<Rightarrow> 's conn \<Rightarrow> bool" where
  "mid_ok G D c \<longleftrightarrow> wired G D c \<and> send_ok G c \<and> recv_busy (recv_st c) \<and> \<not> under_way G c WORK_RECV"

text \<open>What an operation leaves alone: the rest of the queue and the connection's identity.\<close>

definition extends :: "'s conn \<Rightarrow> 's conn \<Rightarrow> bool" where
  "extends c c' \<longleftrightarrow> c_id c' = c_id c \<and> cq_inv (c_workq c') \<and>
     cq_capacity (c_workq c') = cq_capacity (c_workq c) \<and>
     (\<exists>L. cq_list (c_workq c') = cq_list (c_workq c) @ L \<and> set L \<subseteq> {c_id c} \<times> UNIV)"

lemma extends_refl [simp]: "cq_inv (c_workq c) \<Longrightarrow> extends c c"
  by (simp add: extends_def)

lemma extends_trans: "extends c d \<Longrightarrow> extends d e \<Longrightarrow> extends c e"
  by (fastforce simp: extends_def)

lemma room_when_not_queued:
  assumes "wired G D c" "(c_id c, e) \<notin> set (cq_list (c_workq c))"
  shows "queue_room c"
proof -
  let ?Q = "cq_list (c_workq c)"
  have w: "distinct ?Q" "set ?Q \<subseteq> D \<times> UNIV" "finite D" "c_id c \<in> D"
    using assms(1) by (auto simp: wired_def)
  have univ: "UNIV = {WORK_SEND, WORK_RECV}"
    using work_event.exhaust by auto
  have "finite (UNIV :: work_event set)" "card (UNIV :: work_event set) = 2"
    by (simp_all add: univ)
  then have fin: "finite (D \<times> (UNIV :: work_event set))"
    and crd: "card (D \<times> (UNIV :: work_event set)) = 2 * card D"
    using w(3) by (simp_all add: card_cartesian_product)
  have "set ?Q \<subset> D \<times> UNIV"
    using w assms(2) by auto
  then have "card (set ?Q) < 2 * card D"
    using fin crd psubset_card_mono by metis
  then show ?thesis
    using w(1) assms(1) by (auto simp: queue_room_def wired_def distinct_card)
qed

lemma pushed_wired:
  assumes "wired G D c" "\<not> under_way G c e" "pushed e c c'"
  shows "wired G D c'" "under_way G c' e" "extends c c'"
    and "e' \<noteq> e \<Longrightarrow> under_way G c' e' \<longleftrightarrow> under_way G c e'"
    and "(c_id c, e') \<in> set (cq_list (c_workq c')) \<longleftrightarrow> e' = e \<or> (c_id c, e') \<in> set (cq_list (c_workq c))"
  using assms
  by (auto simp: pushed_def wired_def under_way_def extends_def bufs_ok_def)

lemma pushed_same:
  assumes "pushed e c c'"
  shows "sendW c' = sendW c" "sendU c' = sendU c" "recvW c' = recvW c" "recvU c' = recvU c"
    "send_st c' = send_st c" "recv_st c' = recv_st c" "c_wire c' = c_wire c" "c_sent c' = c_sent c"
    "c_id c' = c_id c" "c_session c' = c_session c" "c_alive c' = c_alive c"
  using assms by (auto simp: pushed_def)

section \<open>BeginSend\<close>

text \<open>What \<open>BeginSend\<close> does when no send is under way.\<close>

definition begun :: "work_request set \<Rightarrow> nat set \<Rightarrow> 's conn \<Rightarrow> 's conn \<Rightarrow> bool" where
  "begun G D c c' \<longleftrightarrow> wired G D c' \<and> extends c c' \<and> under_way G c' WORK_SEND \<and>
     (under_way G c' WORK_RECV \<longleftrightarrow> under_way G c WORK_RECV) \<and>
     ((c_id c, WORK_RECV) \<in> set (cq_list (c_workq c')) \<longleftrightarrow> (c_id c, WORK_RECV) \<in> set (cq_list (c_workq c))) \<and>
     content (sendW c') = content (sendW c) @ content (sendU c) \<and> content (sendU c') = [] \<and>
     recvW c' = recvW c \<and> recvU c' = recvU c \<and> send_st c' = send_st c \<and> recv_st c' = recv_st c \<and>
     c_wire c' = c_wire c \<and> c_sent c' = c_sent c \<and> c_session c' = c_session c"

lemma content_empty: "buf_ok b \<Longrightarrow> b_offset b \<le> 0 \<Longrightarrow> content b = []"
  by (simp add: content_def)

lemma BeginSend_fits:
  assumes c: "wired G D c" "\<not> under_way G c WORK_SEND"
    and fits: "b_offset (sendW c) + b_offset (sendU c) \<le> b_size (sendW c)"
  shows "\<exists>c'. BeginSend c = Inr (True, c') \<and> begun G D c c'"
proof -
  have b: "buf_ok (sendW c)" "buf_ok (sendU c)" "b_size (sendW c) = b_size (sendU c)"
    using c(1) by (auto simp: wired_def bufs_ok_def)
  have off: "s32 (b_offset (sendW c) + b_offset (sendU c)) = b_offset (sendW c) + b_offset (sendU c)"
    using b fits by (auto simp: buf_ok_def intro: s32_nonneg_id)
  show ?thesis
  proof (cases "b_offset (sendU c) > 0")
    case True
    have "int (length (content (sendU c))) = b_offset (sendU c)"
      using b True by (simp add: buf_okD)
    then obtain w where w: "buf_append (content (sendU c)) (sendW c) = Inr w" "buf_ok w"
        "content w = content (sendW c) @ content (sendU c)" "b_size w = b_size (sendW c)"
      using buf_append_ok [OF b(1), of "content (sendU c)"] fits by metis
    define c1 where "c1 = c\<lparr>sendW := w, sendU := (sendU c)\<lparr>b_offset := 0\<rparr>\<rparr>"
    have c1: "wired G D c1" "\<not> under_way G c1 WORK_SEND" "c_worker c1"
      using c w b by (auto simp: c1_def wired_def under_way_def bufs_ok_def buf_ok_def)
    have "queue_room c1"
      using c1 room_when_not_queued [OF c1(1), of WORK_SEND] by (auto simp: under_way_def)
    then obtain c' where c': "NetWorker_Send c1 = Inr c'" "pushed WORK_SEND c1 c'"
      using NetWorker_push(1) c1(3) by blast
    have "begun G D c c'"
      using pushed_wired [OF c1(1,2) c'(2)] pushed_same [OF c'(2)] w
      by (auto simp: begun_def c1_def extends_def under_way_def content_def)
    moreover have "BeginSend c = Inr (True, c')"
      using True fits off w(1) c'(1) by (simp add: BeginSend_def c1_def)
    ultimately show ?thesis by blast
  next
    case False
    then have e: "content (sendU c) = []" using b content_empty by auto
    have "queue_room c"
      using c room_when_not_queued [OF c(1), of WORK_SEND] by (auto simp: under_way_def)
    then obtain c' where c': "NetWorker_Send c = Inr c'" "pushed WORK_SEND c c'"
      using NetWorker_push(1) [of c] c(1) by (auto simp: wired_def)
    have "begun G D c c'"
      using pushed_wired [OF c c'(2)] pushed_same [OF c'(2)] e
      by (auto simp: begun_def extends_def)
    moreover have "BeginSend c = Inr (True, c')"
      using False c'(1) by (simp add: BeginSend_def)
    ultimately show ?thesis by blast
  qed
qed

lemma BeginSend_overflow:
  assumes "wired G D c" "b_size (sendW c) < b_offset (sendW c) + b_offset (sendU c)"
  shows "BeginSend c = Inr (False, c)"
proof -
  have b: "buf_ok (sendW c)" "buf_ok (sendU c)" "b_size (sendW c) = b_size (sendU c)"
      "b_size (sendU c) < 1073741824"
    using assms(1) by (auto simp: wired_def bufs_ok_def)
  then have "s32 (b_offset (sendW c) + b_offset (sendU c)) =
             b_offset (sendW c) + b_offset (sendU c)" "0 < b_offset (sendU c)"
    using assms(2) by (auto simp: buf_ok_def intro: s32_nonneg_id)
  then show ?thesis using assms(2) by (simp add: BeginSend_def Let_def)
qed


section \<open>The send machine\<close>

text \<open>
  A step of the send machine: nothing of the receive side changes, the connection stays wired,
  and the machine is busy afterwards exactly if a send is under way. Either the bytes in the
  two send buffers stay where they are, or the used buffer moves behind the working one.
\<close>

definition send_step :: "work_request set \<Rightarrow> nat set \<Rightarrow> 's conn \<Rightarrow> 's conn \<Rightarrow> bool" where
  "send_step G D c c' \<longleftrightarrow> wired G D c' \<and> extends c c' \<and> send_ok G c' \<and>
     (under_way G c' WORK_RECV \<longleftrightarrow> under_way G c WORK_RECV) \<and>
     ((c_id c, WORK_RECV) \<in> set (cq_list (c_workq c')) \<longleftrightarrow> (c_id c, WORK_RECV) \<in> set (cq_list (c_workq c))) \<and>
     recvW c' = recvW c \<and> recvU c' = recvU c \<and> recv_st c' = recv_st c \<and>
     c_wire c' = c_wire c \<and> c_sent c' = c_sent c \<and> c_session c' = c_session c \<and>
     (sendW c' = sendW c \<and> sendU c' = sendU c \<or>
      \<not> under_way G c WORK_SEND \<and> content (sendU c') = [] \<and>
      content (sendW c') = content (sendW c) @ content (sendU c)) \<and>
     (send_st c = SendClose \<longrightarrow> send_st c' = SendClose)"

lemma change_send_step:
  assumes "wired G D c" "send_busy st \<longleftrightarrow> under_way G c WORK_SEND"
    and "send_st c = SendClose \<Longrightarrow> st = SendClose"
  shows "send_step G D c (ChangeSendState st c)"
  using assms
  by (auto simp: send_step_def ChangeSendState_def wired_def send_ok_def under_way_def
      extends_def bufs_ok_def)

lemma stay_send_step: "wired G D c \<Longrightarrow> send_ok G c \<Longrightarrow> send_step G D c c"
  by (simp add: send_step_def) (simp add: wired_def)

lemma begin_send_step:
  assumes "wired G D c" "\<not> under_way G c WORK_SEND" "send_busy st" "send_st c \<noteq> SendClose"
  shows "\<exists>c'. begin_send_to st c = Inr c' \<and> send_step G D c c'"
proof (cases "b_offset (sendW c) + b_offset (sendU c) \<le> b_size (sendW c)")
  case True
  then obtain c1 where c1: "BeginSend c = Inr (True, c1)" "begun G D c c1"
    using BeginSend_fits assms by blast
  then have "send_step G D c (ChangeSendState st c1)"
    using assms
    by (auto simp: begun_def send_step_def ChangeSendState_def wired_def send_ok_def
        under_way_def extends_def bufs_ok_def)
  with c1 show ?thesis by (simp add: begin_send_to_def)
next
  case False
  then have "BeginSend c = Inr (False, c)" using BeginSend_overflow [OF assms(1)] by (simp add: not_le)
  moreover have "send_step G D c (ChangeSendState SendClose c)"
    using assms by (intro change_send_step) auto
  ultimately show ?thesis by (simp add: begin_send_to_def)
qed

text \<open>
  The send machine on any event: either the event is not an answer to a send and the machine
  agrees with what is under way, or it is the answer the machine is waiting for.
\<close>

definition send_pre :: "work_request set \<Rightarrow> NetEventType \<Rightarrow> 's conn \<Rightarrow> bool" where
  "send_pre G evt c \<longleftrightarrow>
     (if result_kind evt = Some WORK_SEND
      then send_busy (send_st c) \<and> \<not> under_way G c WORK_SEND else send_ok G c)"

lemma send_machine_step:
  assumes "wired G D c" "send_pre G evt c"
  shows "\<exists>c'. send_machine_OnEvent evt c = Inr c' \<and> send_step G D c c'"
  using assms
  by (cases "send_st c"; cases evt)
    (auto simp: send_machine_OnEvent_def send_handlers send_pre_def send_ok_def
      intro!: begin_send_step change_send_step stay_send_step)

section \<open>The receive machine outside \<open>ProcessPacket\<close>\<close>

definition recv_step :: "work_request set \<Rightarrow> nat set \<Rightarrow> 's conn \<Rightarrow> 's conn \<Rightarrow> bool" where
  "recv_step G D c c' \<longleftrightarrow> wired G D c' \<and> extends c c' \<and>
     (send_ok G c \<longrightarrow> send_ok G c') \<and>
     (under_way G c' WORK_SEND \<longleftrightarrow> under_way G c WORK_SEND) \<and>
     sendW c' = sendW c \<and> sendU c' = sendU c \<and> send_st c' = send_st c \<and>
     c_wire c' = c_wire c \<and> c_sent c' = c_sent c"

lemma recv_step_refl: "wired G D c \<Longrightarrow> recv_step G D c c"
  by (simp add: recv_step_def) (simp add: wired_def)

lemma change_recv_step:
  assumes "wired G D c"
  shows "recv_step G D c (ChangeRecvState st c)"
  using assms
  by (auto simp: recv_step_def ChangeRecvState_def wired_def send_ok_def under_way_def
      extends_def bufs_ok_def)

lemma begin_recv_step:
  assumes "wired G D c" "\<not> under_way G c WORK_RECV" "b_offset (recvW c) = 0"
  shows "\<exists>c'. BeginRecv c = Inr c' \<and> recv_step G D c (ChangeRecvState Recving c') \<and>
           recv_ok G (ChangeRecvState Recving c') \<and> idle_recv_empty (ChangeRecvState Recving c')"
proof -
  have "queue_room c"
    using assms room_when_not_queued [OF assms(1), of WORK_RECV] by (auto simp: under_way_def)
  then obtain c' where c': "NetWorker_Recv c = Inr c'" "pushed WORK_RECV c c'"
    using NetWorker_push(2) [of c] assms(1) by (auto simp: wired_def)
  from pushed_wired [OF assms(1,2) c'(2)] pushed_same [OF c'(2)] c'(1) assms(3)
  show ?thesis
    by (auto simp: BeginRecv_def recv_step_def ChangeRecvState_def wired_def send_ok_def recv_ok_def
        under_way_def extends_def bufs_ok_def idle_recv_empty_def)
qed

definition recv_pre :: "work_request set \<Rightarrow> NetEventType \<Rightarrow> 's conn \<Rightarrow> bool" where
  "recv_pre G evt c \<longleftrightarrow>
     (if result_kind evt = Some WORK_RECV
      then recv_busy (recv_st c) \<and> \<not> under_way G c WORK_RECV else recv_ok G c)"

lemma under_way_ChangeRecvState [simp]:
  "under_way G (ChangeRecvState st c) e \<longleftrightarrow> under_way G c e"
  "recv_st (ChangeRecvState st c) = st"
  "recvW (ChangeRecvState st c) = recvW c"
  "c_id (ChangeRecvState st c) = c_id c"
  "c_workq (ChangeRecvState st c) = c_workq c"
  by (simp_all add: ChangeRecvState_def under_way_def)

lemma recv_machine_step:
  assumes "wired G D c" "recv_pre G evt c" "idle_recv_empty c" "evt \<noteq> NEVT_RECV_DONE"
  shows "\<exists>c'. recv_machine_OnEvent process evt c = Inr c' \<and> recv_step G D c c' \<and>
           recv_ok G c' \<and> idle_recv_empty c'"
proof (cases "recv_st c = RecvNone \<and> evt = NEVT_RECV")
  case True
  then have "\<not> under_way G c WORK_RECV" "b_offset (recvW c) = 0"
    using assms by (auto simp: recv_pre_def recv_ok_def idle_recv_empty_def)
  from begin_recv_step [OF assms(1) this] True show ?thesis
    by (auto simp: recv_machine_OnEvent_def RecvNone_OnEvent_def)
next
  case False
  with assms show ?thesis
    by (cases "recv_st c"; cases evt)
      (auto simp: recv_machine_OnEvent_def recv_handlers recv_pre_def recv_ok_def
        idle_recv_empty_def recv_step_refl change_recv_step under_way_def)
qed


section \<open>Operations: what they leave alone, and the byte stream\<close>

text \<open>
  \<open>op_step\<close> is what every operation of the main thread does to a connection: bytes given to
  \<open>Send\<close> go to the end of what is still unsent; the buffer a worker may be reading or writing
  is not touched.
\<close>

definition op_step :: "work_request set \<Rightarrow> 's conn \<Rightarrow> 's conn \<Rightarrow> bool" where
  "op_step G c c' \<longleftrightarrow> extends c c' \<and> c_wire c' = c_wire c \<and>
     (\<exists>d. c_sent c' = c_sent c @ d \<and>
          content (sendW c') @ content (sendU c') = content (sendW c) @ content (sendU c) @ d) \<and>
     (under_way G c WORK_SEND \<longrightarrow> sendW c' = sendW c) \<and>
     (under_way G c WORK_RECV \<longrightarrow> recvW c' = recvW c) \<and>
     (send_st c = SendClose \<longrightarrow> send_st c' = SendClose)"

lemma op_step_refl: "cq_inv (c_workq c) \<Longrightarrow> op_step G c c"
  by (simp add: op_step_def)

lemma extends_under_way: "extends c c' \<Longrightarrow> under_way G c e \<Longrightarrow> under_way G c' e"
  by (auto simp: extends_def under_way_def)

lemma op_step_trans:
  assumes "op_step G c d" "op_step G d e"
  shows "op_step G c e"
  using assms extends_trans [of c d e] extends_under_way [of c d G]
  by (auto simp: op_step_def)

lemma send_step_op:
  assumes "send_step G D c c'"
  shows "op_step G c c'"
  using assms by (auto simp: send_step_def op_step_def)

lemma recv_step_op:
  assumes "recv_step G D c c'" "under_way G c WORK_RECV \<Longrightarrow> recvW c' = recvW c"
  shows "op_step G c c'"
  using assms by (auto simp: recv_step_def op_step_def)

section \<open>Events that the session can cause\<close>

fun user_event :: "NetEventType \<Rightarrow> bool" where
  "user_event NEVT_SEND = True"
| "user_event NEVT_CLOSE = True"
| "user_event NEVT_ERROR = True"
| "user_event _ = False"

lemma user_event_cases:
  "user_event evt \<longleftrightarrow> evt = NEVT_SEND \<or> evt = NEVT_CLOSE \<or> evt = NEVT_ERROR"
  by (cases evt) simp_all

lemma mid_wiredD: "wired G D c \<Longrightarrow> c_alive c"
  by (simp add: wired_def)

text \<open>
  Inside \<open>ProcessPacket\<close> such an event cannot close the connection: the receive machine waits
  for the running handler, so \<open>OnClose\<close> is not reached.
\<close>

lemma mid_event:
  assumes c: "mid_ok G D c" and evt: "user_event evt"
  shows "\<exists>c'. OnEvent app (Suc n) evt c = Inr c' \<and> mid_ok G D c' \<and> op_step G c c' \<and>
           recvW c' = recvW c \<and> recvU c' = recvU c"
proof -
  have "result_kind evt = None" using evt by (cases evt) simp_all
  then have "send_pre G evt c" using c by (simp add: send_pre_def mid_ok_def)
  then obtain c1 where c1: "send_machine_OnEvent evt c = Inr c1" "send_step G D c c1"
    using send_machine_step c unfolding mid_ok_def by blast
  have w1: "wired G D c1" "recv_busy (recv_st c1)" "\<not> under_way G c1 WORK_RECV"
      "recvW c1 = recvW c" "recvU c1 = recvU c" "send_ok G c1"
    using c1(2) c by (auto simp: send_step_def mid_ok_def)
  define c2 where "c2 = (if evt = NEVT_SEND \<or> recv_st c1 = RecvWaitClose then c1
                         else ChangeRecvState RecvWaitClose c1)"
  have r: "recv_machine_OnEvent (ProcessPacket app (deliver app (OnEvent app n))) evt c1 = Inr c2"
    using evt w1(2)
    by (cases "recv_st c1"; cases evt) (auto simp: recv_machine_OnEvent_def recv_handlers c2_def)
  have step: "recv_step G D c1 c2"
    using w1(1) by (simp add: c2_def recv_step_refl change_recv_step)
  have m2: "mid_ok G D c2"
    using step w1 by (auto simp: recv_step_def mid_ok_def c2_def)
  have "op_step G c1 c2"
    by (rule recv_step_op [OF step]) (simp add: c2_def)
  then have "op_step G c c2"
    using send_step_op [OF c1(2)] op_step_trans by blast
  moreover have "OnEvent app (Suc n) evt c = Inr c2"
    using c c1(1) r m2 by (auto simp: mid_ok_def wired_def Let_def OnEvent.simps)
  moreover have "recvW c2 = recvW c" "recvU c2 = recvU c"
    using w1 by (simp_all add: c2_def ChangeRecvState_def)
  ultimately show ?thesis using m2 by blast
qed

text \<open>The calls a session may make: no single message of \<open>2 ^ 30\<close> bytes or more.\<close>

fun call_fits :: "pipe_call \<Rightarrow> bool" where
  "call_fits (PSend bs) \<longleftrightarrow> int (length bs) < 1073741824"
| "call_fits PClose \<longleftrightarrow> True"

text \<open>\<open>Send\<close> and \<open>Close\<close> come down to one of the events, on a connection with the bytes added.\<close>

definition queued :: "byte list \<Rightarrow> 's conn \<Rightarrow> 's conn \<Rightarrow> bool" where
  "queued bs c c' \<longleftrightarrow> (\<exists>b. c' = c\<lparr>sendU := b, c_sent := c_sent c @ bs\<rparr> \<and> buf_ok b \<and>
     b_size b = b_size (sendU c) \<and> content b = content (sendU c) @ bs)"

lemma ISession_call_event:
  assumes "wired G D c" "call_fits x"
  shows "\<exists>c' evt. ISession_call oe x c = oe evt c' \<and> user_event evt \<and> (c' = c \<or> (\<exists>bs. queued bs c c'))"
proof (cases x)
  case (PSend bs)
  have b: "buf_ok (sendU c)" "b_size (sendU c) < 1073741824" "c_pipe c"
    using assms(1) by (auto simp: wired_def bufs_ok_def)
  then have off: "s32 (b_offset (sendU c) + int (length bs)) = b_offset (sendU c) + int (length bs)"
    using assms(2) PSend by (auto simp: buf_ok_def intro: s32_nonneg_id)
  show ?thesis
  proof (cases "b_offset (sendU c) + int (length bs) > b_size (sendU c)")
    case True
    then have "ISession_call oe x c = oe NEVT_ERROR c"
      using off b PSend by (simp add: ISession_call_def Connection_Send_def)
    then show ?thesis using user_event.simps by blast
  next
    case False
    then obtain b' where b': "buf_append bs (sendU c) = Inr b'" "buf_ok b'"
        "content b' = content (sendU c) @ bs" "b_size b' = b_size (sendU c)"
      using buf_append_ok [OF b(1), of bs] by (metis not_less)
    then have "ISession_call oe x c = oe NEVT_SEND (c\<lparr>sendU := b', c_sent := c_sent c @ bs\<rparr>)"
      using off b PSend False by (simp add: ISession_call_def Connection_Send_def)
    moreover have "queued bs c (c\<lparr>sendU := b', c_sent := c_sent c @ bs\<rparr>)"
      using b' by (auto simp: queued_def)
    ultimately show ?thesis using user_event.simps by blast
  qed
next
  case PClose
  then have "ISession_call oe x c = oe NEVT_CLOSE c"
    using assms(1) by (auto simp: ISession_call_def Connection_Close_def wired_def)
  then show ?thesis using user_event.simps by blast
qed

lemma queued_keeps:
  assumes "queued bs c c'"
  shows "wired G D c \<Longrightarrow> wired G D c'" "under_way G c' e \<longleftrightarrow> under_way G c e"
    "send_st c' = send_st c" "recv_st c' = recv_st c" "recvW c' = recvW c" "recvU c' = recvU c"
    "c_id c' = c_id c" "c_workq c' = c_workq c"
    "wired G D c \<Longrightarrow> op_step G c c'"
  using assms
  by (auto simp: queued_def wired_def under_way_def bufs_ok_def op_step_def extends_def)

lemma mid_queued: "queued bs c c' \<Longrightarrow> mid_ok G D c \<Longrightarrow> mid_ok G D c'"
  by (simp add: mid_ok_def queued_keeps send_ok_def)

lemma mid_call:
  assumes "mid_ok G D c" "call_fits x"
  shows "\<exists>c'. ISession_call (OnEvent app (Suc n)) x c = Inr c' \<and> mid_ok G D c' \<and> op_step G c c' \<and>
           recvW c' = recvW c \<and> recvU c' = recvU c"
proof -
  have w: "wired G D c" using assms(1) by (simp add: mid_ok_def)
  then obtain c1 evt where c1: "ISession_call (OnEvent app (Suc n)) x c = OnEvent app (Suc n) evt c1"
      "user_event evt" "c1 = c \<or> (\<exists>bs. queued bs c c1)"
    using ISession_call_event assms(2) by blast
  have m1: "mid_ok G D c1 \<and> op_step G c c1 \<and> recvW c1 = recvW c \<and> recvU c1 = recvU c"
    using c1(3)
  proof
    assume "c1 = c"
    with assms(1) w show ?thesis by (simp add: op_step_refl wired_def)
  next
    assume "\<exists>bs. queued bs c c1"
    with assms(1) w show ?thesis using mid_queued queued_keeps(5,6,9) by blast
  qed
  obtain c2 where "OnEvent app (Suc n) evt c1 = Inr c2" "mid_ok G D c2" "op_step G c1 c2"
      "recvW c2 = recvW c1" "recvU c2 = recvU c1"
    using mid_event [OF _ c1(2)] m1 by blast
  then show ?thesis using m1 c1(1) op_step_trans by metis
qed

lemma mid_run_calls:
  assumes "mid_ok G D c" "\<forall>x\<in>set xs. call_fits x"
  shows "\<exists>c'. run_calls (OnEvent app (Suc n)) xs c = Inr c' \<and> mid_ok G D c' \<and> op_step G c c' \<and>
           recvW c' = recvW c \<and> recvU c' = recvU c"
  using assms
proof (induction xs arbitrary: c)
  case Nil
  then show ?case by (auto simp: mid_ok_def wired_def intro: op_step_refl)
next
  case (Cons x xs)
  then obtain c1 where c1: "ISession_call (OnEvent app (Suc n)) x c = Inr c1" "mid_ok G D c1"
      "op_step G c c1" "recvW c1 = recvW c" "recvU c1 = recvU c"
    using mid_call [of G D c x app n] by auto
  from Cons.IH [OF c1(2)] Cons.prems(2) obtain c2 where
    "run_calls (OnEvent app (Suc n)) xs c1 = Inr c2" "mid_ok G D c2" "op_step G c1 c2"
    "recvW c2 = recvW c1" "recvU c2 = recvU c1"
    by auto
  then show ?case using c1 op_step_trans [of G c c1 c2] by simp
qed

end
