(* ===== verification/ConnectionSafe.thy ===== *)
theory ConnectionSafe
  imports ConnectionInv
begin

text \<open>
  The second half of the connection's invariant: callbacks, \<open>ProcessPacket\<close>, \<open>OnClose\<close> and
  whole events. The result is that under a well-behaved application every event, call and
  callback of \<open>Connection.cpp\<close> returns normally, and either leaves the connection consistent or
  closes it with nothing under way.
\<close>

section \<open>Applications\<close>

text \<open>
  The parser never claims more bytes than it was shown, messages stay below \<open>2 ^ 30\<close> bytes, and
  the session makes no call on its pipe while it is told of an error or of the end.
\<close>

definition well_behaved :: "'s app \<Rightarrow> bool" where
  "well_behaved app \<longleftrightarrow>
     (\<forall>bs. app_parser app bs \<le> int (length bs)) \<and>
     (\<forall>cb s x. x \<in> set (snd (app_react app cb s)) \<longrightarrow> call_fits x) \<and>
     (\<forall>s. snd (app_react app CbDisconnected s) = []) \<and>
     (\<forall>e s. snd (app_react app (CbError e) s) = [])"

lemma well_behavedD:
  assumes "well_behaved app"
  shows "app_parser app bs \<le> int (length bs)"
    "\<forall>x\<in>set (snd (app_react app cb s)). call_fits x"
    "snd (app_react app CbDisconnected s) = []"
    "snd (app_react app (CbError e) s) = []"
  using assms by (auto simp: well_behaved_def)

lemma set_session:
  "wired G D c \<Longrightarrow> wired G D (c\<lparr>c_session := Some s\<rparr>)"
  "under_way G (c\<lparr>c_session := Some s\<rparr>) e \<longleftrightarrow> under_way G c e"
  "mid_ok G D c \<Longrightarrow> mid_ok G D (c\<lparr>c_session := Some s\<rparr>)"
  "conn_ok G D c \<Longrightarrow> conn_ok G D (c\<lparr>c_session := Some s\<rparr>)"
  "wired G D c \<Longrightarrow> op_step G c (c\<lparr>c_session := Some s\<rparr>)"
  by (auto simp: wired_def under_way_def mid_ok_def conn_ok_def bufs_ok_def send_ok_def recv_ok_def
      idle_recv_empty_def op_step_def extends_def)

lemma mid_deliver:
  assumes "well_behaved app" "mid_ok G D c"
  shows "\<exists>c'. deliver app (OnEvent app (Suc n)) cb c = Inr c' \<and> mid_ok G D c' \<and> op_step G c c' \<and>
           recvW c' = recvW c \<and> recvU c' = recvU c"
proof -
  obtain s where s: "c_session c = Some s" using assms(2) by (auto simp: mid_ok_def wired_def)
  obtain s' xs where r: "app_react app cb s = (s', xs)" by (cases "app_react app cb s")
  have fits: "\<forall>x\<in>set xs. call_fits x" using well_behavedD(2) [OF assms(1), of cb s] r by simp
  have m: "mid_ok G D (c\<lparr>c_session := Some s'\<rparr>)" using assms(2) by (rule set_session(3))
  obtain c' where c': "run_calls (OnEvent app (Suc n)) xs (c\<lparr>c_session := Some s'\<rparr>) = Inr c'"
      "mid_ok G D c'" "op_step G (c\<lparr>c_session := Some s'\<rparr>) c'" "recvW c' = recvW c" "recvU c' = recvU c"
    using mid_run_calls [OF m fits, of app n] by auto
  moreover have "op_step G c (c\<lparr>c_session := Some s'\<rparr>)"
    using assms(2) by (auto simp: mid_ok_def intro: set_session(5))
  ultimately have "op_step G c c'" using op_step_trans by blast
  with c' s r show ?thesis by (simp add: deliver_def)
qed

section \<open>ProcessPacket\<close>

lemma packet_loop_mid:
  assumes "well_behaved app" "mid_ok G D c" "0 \<le> pos" "pos \<le> b_offset (recvU c)"
    and "b_offset (recvU c) - pos \<le> int fuel"
  shows "\<exists>r c'. packet_loop app (deliver app (OnEvent app (Suc n))) fuel pos c = Inr (r, c') \<and>
           mid_ok G D c' \<and> op_step G c c' \<and> recvW c' = recvW c \<and> recvU c' = recvU c \<and>
           (\<forall>p. r = Some p \<longrightarrow> pos \<le> p \<and> p \<le> b_offset (recvU c))"
  using assms
proof (induction fuel arbitrary: pos c)
  case 0
  then show ?case
    by (subst packet_loop.simps) (auto simp: mid_ok_def wired_def intro: op_step_refl)
next
  case (Suc fuel)
  let ?dl = "deliver app (OnEvent app (Suc n))"
  let ?d = "b_data (recvU c)" and ?off = "b_offset (recvU c)"
  define u where "u = app_parser app (slice ?d (nat pos) (nat (?off - pos)))"
  have self: "op_step G c c"
    using Suc.prems by (auto simp: mid_ok_def wired_def intro: op_step_refl)
  have b: "buf_ok (recvU c)" using Suc.prems by (auto simp: mid_ok_def wired_def bufs_ok_def)
  then have len: "nat ?off \<le> length ?d" by (simp add: buf_okD)
  show ?case
  proof (cases "pos < ?off \<and> u > 0")
    case False
    with Suc.prems show ?thesis
      by (subst packet_loop.simps) (auto simp: Let_def u_def [symmetric] self)
  next
    case True
    have "length (slice ?d (nat pos) (nat (?off - pos))) = nat (?off - pos)"
      using True Suc.prems len by (intro length_slice) linarith
    then have u: "pos + u \<le> ?off"
      using well_behavedD(1) [OF Suc.prems(1), of "slice ?d (nat pos) (nat (?off - pos))"] True
      by (simp add: u_def)
    obtain c1 where c1: "?dl (CbRecv (slice ?d (nat pos) (nat u))) c = Inr c1" "mid_ok G D c1"
        "op_step G c c1" "recvW c1 = recvW c" "recvU c1 = recvU c"
      using mid_deliver [OF Suc.prems(1,2)] by blast
    from c1(2) have alive: "c_alive c1" by (simp add: mid_ok_def wired_def)
    obtain r c' where c': "packet_loop app ?dl fuel (pos + u) c1 = Inr (r, c')" "mid_ok G D c'"
        "op_step G c1 c'" "recvW c' = recvW c1" "recvU c' = recvU c1"
        "\<forall>p. r = Some p \<longrightarrow> pos + u \<le> p \<and> p \<le> b_offset (recvU c1)"
      using Suc.IH [OF Suc.prems(1) c1(2), of "pos + u"] Suc.prems u True c1(5) by auto
    have "nat (pos + u) \<le> length ?d" using u len by linarith
    then have "packet_loop app ?dl (Suc fuel) pos c = Inr (r, c')"
      using True c1(1) c'(1) alive
      by (subst packet_loop.simps) (simp add: Let_def u_def [symmetric])
    moreover have "op_step G c c'" using c1(3) c'(3) op_step_trans by blast
    ultimately show ?thesis using c' c1 True by (intro exI [of _ r] exI [of _ c']) auto
  qed
qed

lemma mid_recv_buffers:
  assumes "mid_ok G D c" "buf_ok w" "buf_ok u" "b_size w = b_size (recvW c)" "b_size u = b_size (recvU c)"
  shows "mid_ok G D (c\<lparr>recvU := u, recvW := w\<rparr>)" "op_step G c (c\<lparr>recvU := u, recvW := w\<rparr>)"
  using assms
  by (auto simp: mid_ok_def wired_def bufs_ok_def send_ok_def under_way_def op_step_def extends_def)

lemma ProcessPacket_mid:
  assumes app: "well_behaved app" and c: "mid_ok G D c"
  shows "\<exists>ok c'. ProcessPacket app (deliver app (OnEvent app (Suc n))) c = Inr (ok, c') \<and>
           mid_ok G D c' \<and> op_step G c c' \<and> (ok \<longrightarrow> b_offset (recvW c') = 0)"
proof -
  let ?w = "recvW c" and ?u = "recvU c"
  have b: "buf_ok ?w" "buf_ok ?u" "b_size ?w = b_size ?u" "b_size ?u < 1073741824"
    using c by (auto simp: mid_ok_def wired_def bufs_ok_def)
  then have off: "s32 (b_offset ?w + b_offset ?u) = b_offset ?w + b_offset ?u"
    by (auto simp: buf_ok_def intro: s32_nonneg_id)
  have self: "mid_ok G D c" "op_step G c c"
    using c by (auto simp: mid_ok_def wired_def intro: op_step_refl)
  consider (empty) "b_offset ?w = 0" | (full) "b_offset ?w > 0" "b_offset ?w + b_offset ?u > b_size ?u"
    | (room) "b_offset ?w > 0" "b_offset ?w + b_offset ?u \<le> b_size ?u"
    using b(1) by (fastforce simp: buf_ok_def)
  then show ?thesis
  proof cases
    case empty
    then have "ProcessPacket app dl c = Inr (True, c)" for dl by (simp add: ProcessPacket_def)
    with self empty show ?thesis by auto
  next
    case full
    then have "ProcessPacket app dl c = Inr (False, c)" for dl
      using off by (simp add: ProcessPacket_def Let_def)
    with self show ?thesis by auto
  next
    case room
    have "int (length (content ?w)) = b_offset ?w" using b by (simp add: buf_okD buf_ok_def)
    then obtain u' where u': "buf_append (content ?w) ?u = Inr u'" "buf_ok u'" "b_size u' = b_size ?u"
      using buf_append_ok [OF b(2), of "content ?w"] room by (metis add.commute)
    define c1 where "c1 = c\<lparr>recvU := u', recvW := ?w\<lparr>b_offset := 0\<rparr>\<rparr>"
    have c1: "mid_ok G D c1" "op_step G c c1"
      unfolding c1_def using mid_recv_buffers [OF c _ u'(2)] b u'(3) by (auto simp: buf_ok_def)
    have u1: "recvU c1 = u'" "b_offset (recvW c1) = 0" by (simp_all add: c1_def)
    have fuel: "b_offset (recvU c1) - 0 \<le> int (nat (b_offset u'))" "0 \<le> b_offset (recvU c1)"
      using u'(2) u1 by (auto simp: buf_ok_def)
    obtain r c2 where c2: "packet_loop app (deliver app (OnEvent app (Suc n))) (nat (b_offset u')) 0 c1 = Inr (r, c2)"
        "mid_ok G D c2" "op_step G c1 c2" "recvW c2 = recvW c1" "recvU c2 = recvU c1"
        "\<forall>p. r = Some p \<longrightarrow> 0 \<le> p \<and> p \<le> b_offset (recvU c1)"
      using packet_loop_mid [OF app c1(1) order_refl fuel(2,1)] by blast
    have run: "ProcessPacket app (deliver app (OnEvent app (Suc n))) c =
        (case r of None \<Rightarrow> Inr (False, c2)
         | Some pos \<Rightarrow> Inr (True, c2\<lparr>recvU := buf_consume pos (recvU c2)\<rparr>))"
      using room off u'(1) c2(1) by (simp add: ProcessPacket_def Let_def c1_def)
    show ?thesis
    proof (cases r)
      case None
      with run c2(2) op_step_trans [OF c1(2) c2(3)] show ?thesis
        by (intro exI [of _ False] exI [of _ c2]) simp
    next
      case (Some p)
      have p: "buf_ok (buf_consume p (recvU c2))" "b_size (buf_consume p (recvU c2)) = b_size (recvU c2)"
        using buf_consume_ok [of u' p] u' c2(5,6) Some u1 by auto
      have bw: "buf_ok (recvW c2)" using c2(2) by (auto simp: mid_ok_def wired_def bufs_ok_def)
      let ?c3 = "c2\<lparr>recvU := buf_consume p (recvU c2)\<rparr>"
      from mid_recv_buffers [OF c2(2) bw p(1) refl p(2)]
      have c3: "mid_ok G D ?c3" "op_step G c2 ?c3" by simp_all
      have "op_step G c ?c3"
        using op_step_trans [OF op_step_trans [OF c1(2) c2(3)] c3(2)] .
      with run Some c2(4) u1 c3(1) show ?thesis
        by (intro exI [of _ True] exI [of _ ?c3]) simp
    qed
  qed
qed

section \<open>Events\<close>

lemma recv_machine_recvW:
  assumes "recv_machine_OnEvent process evt c = Inr c'" "evt \<noteq> NEVT_RECV_DONE"
  shows "recvW c' = recvW c"
  using assms
  by (cases "recv_st c"; cases evt)
    (auto simp: recv_machine_OnEvent_def recv_handlers BeginRecv_def NetWorker_Recv_def
      ChangeRecvState_def res_bind_eq_Inr split: if_splits)

lemma recv_done_step:
  assumes app: "well_behaved app" and c: "wired G D c" "send_ok G c" "recv_pre G NEVT_RECV_DONE c"
  shows "\<exists>c'. recv_machine_OnEvent (ProcessPacket app (deliver app (OnEvent app (Suc n)))) NEVT_RECV_DONE c
             = Inr c' \<and> wired G D c' \<and> send_ok G c' \<and> recv_ok G c' \<and> idle_recv_empty c' \<and> op_step G c c'"
proof -
  let ?p = "ProcessPacket app (deliver app (OnEvent app (Suc n)))"
  have m: "mid_ok G D c" using c by (simp add: recv_pre_def mid_ok_def)
  obtain ok c1 where c1: "?p c = Inr (ok, c1)" "mid_ok G D c1" "op_step G c c1"
      "ok \<longrightarrow> b_offset (recvW c1) = 0"
    using ProcessPacket_mid [OF app m] by blast
  have to: "wired G D (ChangeRecvState st d) \<and> send_ok G (ChangeRecvState st d) \<and>
      recv_ok G (ChangeRecvState st d) \<and> idle_recv_empty (ChangeRecvState st d) \<and>
      op_step G c (ChangeRecvState st d)"
    if "mid_ok G D d" "op_step G c d" "\<not> recv_busy st" "st = RecvNone \<longrightarrow> b_offset (recvW d) = 0" for st d
    using that change_recv_step [of G D d st] op_step_trans [of G c d "ChangeRecvState st d"]
      recv_step_op [of G D d "ChangeRecvState st d"]
    by (auto simp: mid_ok_def recv_step_def recv_ok_def idle_recv_empty_def under_way_def)
  show ?thesis
  proof (cases "recv_st c")
    case Recving
    with c1 to [OF c1(2,3), of RecvNone] to [OF c1(2,3), of RecvClose] show ?thesis
      by (cases ok) (simp_all add: recv_machine_OnEvent_def Recving_OnEvent_def)
  next
    case RecvingWait
    show ?thesis
    proof (cases ok)
      case True
      have "wired G D c1" "\<not> under_way G c1 WORK_RECV" "b_offset (recvW c1) = 0"
        using c1 True by (auto simp: mid_ok_def)
      from begin_recv_step [OF this] obtain c2 where c2: "BeginRecv c1 = Inr c2"
        "recv_step G D c1 (ChangeRecvState Recving c2)" "recv_ok G (ChangeRecvState Recving c2)"
        "idle_recv_empty (ChangeRecvState Recving c2)"
        by blast
      have "op_step G c1 (ChangeRecvState Recving c2)"
        using recv_step_op [OF c2(2)] c1(2) by (auto simp: mid_ok_def)
      then have "op_step G c (ChangeRecvState Recving c2)" using c1(3) op_step_trans by blast
      with RecvingWait True c1(1,2) c2 show ?thesis
        by (auto simp: recv_machine_OnEvent_def RecvingWait_OnEvent_def recv_step_def mid_ok_def
           )
    next
      case False
      with RecvingWait c1 to [OF c1(2,3), of RecvClose] show ?thesis
        by (simp add: recv_machine_OnEvent_def RecvingWait_OnEvent_def)
    qed
  next
    case RecvWaitClose
    have "op_step G c c" using c(1) by (auto simp: wired_def intro: op_step_refl)
    with RecvWaitClose to [OF m, of RecvClose] show ?thesis
      by (simp add: recv_machine_OnEvent_def RecvWaitClose_OnEvent_def)
  qed (use c(3) in \<open>simp_all add: recv_pre_def\<close>)
qed

text \<open>How an operation ends: the connection is consistent, or closed with nothing under way.\<close>

definition closed_ok :: "work_request set \<Rightarrow> nat set \<Rightarrow> 's conn \<Rightarrow> bool" where
  "closed_ok G D c \<longleftrightarrow> \<not> c_alive c \<and> \<not> c_pipe c \<and> (\<forall>e. \<not> under_way G c e) \<and>
     cq_inv (c_workq c) \<and> distinct (cq_list (c_workq c)) \<and> set (cq_list (c_workq c)) \<inter> G = {} \<and>
     set (cq_list (c_workq c)) \<subseteq> D \<times> UNIV \<and> 2 * card D \<le> cq_capacity (c_workq c)"

definition ends_ok :: "work_request set \<Rightarrow> nat set \<Rightarrow> 's conn \<Rightarrow> bool" where
  "ends_ok G D c \<longleftrightarrow> conn_ok G D c \<or> closed_ok G D c"

lemma OnClose_ok:
  assumes app: "well_behaved app" and c: "conn_ok G D c" "send_st c = SendClose" "recv_st c = RecvClose"
  shows "\<exists>c'. OnClose (deliver app oe) c = Inr c' \<and> closed_ok G D c' \<and> op_step G c c'"
proof -
  obtain s where s: "c_session c = Some s" using c(1) by (auto simp: conn_ok_def wired_def)
  obtain s' where r: "app_react app CbDisconnected s = (s', [])"
    using well_behavedD(3) [OF app, of s] by (metis prod.collapse)
  have idle: "\<not> under_way G c e" for e
    using c by (cases e) (auto simp: conn_ok_def send_ok_def recv_ok_def)
  let ?c' = "c\<lparr>c_session := Some s', c_pipe := False, c_worker := False, c_alive := False\<rparr>"
  have "OnClose (deliver app oe) c = Inr ?c'"
    using c(1) s r by (simp add: OnClose_def deliver_def conn_ok_def wired_def)
  moreover have "closed_ok G D ?c'" "op_step G c ?c'"
    using c idle by (auto simp: closed_ok_def conn_ok_def wired_def under_way_def op_step_def extends_def)
  ultimately show ?thesis by blast
qed

lemma send_error_closes:
  "send_pre G NEVT_SEND_ERROR c \<Longrightarrow>
     send_machine_OnEvent NEVT_SEND_ERROR c = Inr (ChangeSendState SendClose c)"
  by (cases "send_st c") (simp_all add: send_machine_OnEvent_def send_handlers send_pre_def)

lemma event_ok:
  assumes app: "well_behaved app"
    and c: "wired G D c" "send_pre G evt c" "recv_pre G evt c" "idle_recv_empty c"
  shows "\<exists>c'. OnEvent app (Suc (Suc n)) evt c = Inr c' \<and> ends_ok G D c' \<and> op_step G c c' \<and>
           (evt = NEVT_SEND_ERROR \<longrightarrow> send_st c' = SendClose)"
proof -
  let ?dl = "deliver app (OnEvent app (Suc n))"
  obtain c1 where c1: "send_machine_OnEvent evt c = Inr c1" "send_step G D c c1"
    using send_machine_step [OF c(1,2)] by blast
  have k1: "wired G D c1" "send_ok G c1" "recv_pre G evt c1" "idle_recv_empty c1"
    using c1(2) c(3,4) by (auto simp: send_step_def recv_pre_def recv_ok_def idle_recv_empty_def
        extends_def)
  obtain c2 where c2: "recv_machine_OnEvent (ProcessPacket app ?dl) evt c1 = Inr c2"
      "conn_ok G D c2" "op_step G c1 c2"
  proof (cases "evt = NEVT_RECV_DONE")
    case True
    with recv_done_step [OF app k1(1,2)] k1(3) that show ?thesis by (auto simp: conn_ok_def)
  next
    case False
    from recv_machine_step [OF k1(1,3,4) this, of "ProcessPacket app ?dl"]
    obtain c2 where r: "recv_machine_OnEvent (ProcessPacket app ?dl) evt c1 = Inr c2"
      "recv_step G D c1 c2" "recv_ok G c2" "idle_recv_empty c2" by blast
    have "recvW c2 = recvW c1"
      using r(1) False recv_machine_recvW by blast
    with r k1(2) that recv_step_op [OF r(2)] show ?thesis
      by (auto simp: conn_ok_def recv_step_def)
  qed
  have err: "evt = NEVT_SEND_ERROR \<longrightarrow> send_st c2 = SendClose"
    using c1(1) c(2) c2(3) send_error_closes [of G c]
    by (auto simp: op_step_def ChangeSendState_def)
  have step: "op_step G c c2" using send_step_op [OF c1(2)] c2(3) op_step_trans by blast
  show ?thesis
  proof (cases "send_st c2 = SendClose \<and> recv_st c2 = RecvClose")
    case True
    from OnClose_ok [OF app c2(2)] True obtain c3 where
      "OnClose ?dl c2 = Inr c3" "closed_ok G D c3" "op_step G c2 c3" by blast
    moreover from this have "evt = NEVT_SEND_ERROR \<longrightarrow> send_st c3 = SendClose"
      using err by (auto simp: op_step_def)
    ultimately show ?thesis using True c1(1) c2 c(1) step
      by (auto simp: Let_def OnEvent.simps ends_ok_def conn_ok_def wired_def intro: op_step_trans)
  next
    case False
    with c1(1) c2 c(1) step err show ?thesis
      by (auto simp: Let_def OnEvent.simps ends_ok_def conn_ok_def wired_def)
  qed
qed


section \<open>Calls and callbacks between events\<close>

lemma ends_okE:
  assumes "ends_ok G D c"
  obtains "conn_ok G D c" | "closed_ok G D c"
  using assms by (auto simp: ends_ok_def)

lemma conn_queued: "queued bs c c' \<Longrightarrow> conn_ok G D c \<Longrightarrow> conn_ok G D c'"
  by (simp add: conn_ok_def queued_keeps send_ok_def recv_ok_def idle_recv_empty_def)

lemma user_event_pre:
  assumes "conn_ok G D c" "result_kind evt = None"
  shows "wired G D c" "send_pre G evt c" "recv_pre G evt c" "idle_recv_empty c"
  using assms by (auto simp: conn_ok_def send_pre_def recv_pre_def)

lemma call_ok:
  assumes app: "well_behaved app" and c: "ends_ok G D c" and fits: "call_fits x"
  shows "\<exists>c'. ISession_call (OnEvent app (Suc (Suc n))) x c = Inr c' \<and> ends_ok G D c' \<and> op_step G c c'"
  using c
proof (cases rule: ends_okE)
  case 1
  then have w: "wired G D c" by (simp add: conn_ok_def)
  then obtain c1 evt where c1: "ISession_call (OnEvent app (Suc (Suc n))) x c = OnEvent app (Suc (Suc n)) evt c1"
      "user_event evt" "c1 = c \<or> (\<exists>bs. queued bs c c1)"
    using ISession_call_event fits by blast
  have k: "conn_ok G D c1" "op_step G c c1"
    using c1(3) 1 w conn_queued queued_keeps(9) op_step_refl [of c G]
    by (auto simp: wired_def intro: queued_keeps(9) [OF _ w])
  have "result_kind evt = None" using c1(2) by (cases evt) simp_all
  from event_ok [OF app user_event_pre [OF k(1) this], of n] c1(1) k(2) show ?thesis
    using op_step_trans by metis
next
  case 2
  then show ?thesis using c by (auto simp: ISession_call_def closed_ok_def intro: op_step_refl)
qed

lemma run_calls_ok:
  assumes app: "well_behaved app" and "ends_ok G D c" "\<forall>x\<in>set xs. call_fits x"
  shows "\<exists>c'. run_calls (OnEvent app (Suc (Suc n))) xs c = Inr c' \<and> ends_ok G D c' \<and> op_step G c c'"
  using assms(2,3)
proof (induction xs arbitrary: c)
  case Nil
  then show ?case
    by (auto simp: ends_ok_def conn_ok_def wired_def closed_ok_def intro: op_step_refl)
next
  case (Cons x xs)
  then obtain c1 where c1: "ISession_call (OnEvent app (Suc (Suc n))) x c = Inr c1" "ends_ok G D c1"
      "op_step G c c1"
    using call_ok [OF app, of G D c x n] by auto
  from Cons.IH [OF c1(2)] Cons.prems(2) obtain c2 where
    "run_calls (OnEvent app (Suc (Suc n))) xs c1 = Inr c2" "ends_ok G D c2" "op_step G c1 c2"
    by auto
  then show ?case using c1 op_step_trans [of G c c1 c2] by simp
qed

lemma deliver_ok:
  assumes app: "well_behaved app" and c: "conn_ok G D c"
  shows "\<exists>c'. deliver app (OnEvent app (Suc (Suc n))) cb c = Inr c' \<and> ends_ok G D c' \<and> op_step G c c'"
    and "\<exists>c'. deliver app oe (CbError e) c = Inr c' \<and> conn_ok G D c' \<and> op_step G c c'"
proof -
  obtain s where s: "c_session c = Some s" using c by (auto simp: conn_ok_def wired_def)
  have sess: "conn_ok G D (c\<lparr>c_session := Some s'\<rparr>)" "op_step G c (c\<lparr>c_session := Some s'\<rparr>)" for s'
    using set_session(4) [OF c] set_session(5) [of G D c] c by (simp_all add: conn_ok_def)
  obtain s' xs where r: "app_react app cb s = (s', xs)" by (cases "app_react app cb s")
  have fits: "\<forall>x\<in>set xs. call_fits x" using well_behavedD(2) [OF app, of cb s] r by simp
  have "ends_ok G D (c\<lparr>c_session := Some s'\<rparr>)" using sess by (simp add: ends_ok_def)
  from run_calls_ok [OF app this fits, of n] show
    "\<exists>c'. deliver app (OnEvent app (Suc (Suc n))) cb c = Inr c' \<and> ends_ok G D c' \<and> op_step G c c'"
    using s r sess(2) op_step_trans by (fastforce simp: deliver_def)
  obtain s2 where r2: "app_react app (CbError e) s = (s2, [])"
    using well_behavedD(4) [OF app, of e s] by (metis prod.collapse)
  show "\<exists>c'. deliver app oe (CbError e) c = Inr c' \<and> conn_ok G D c' \<and> op_step G c c'"
    using s r2 sess by (simp add: deliver_def)
qed

lemma OnError_ok:
  assumes app: "well_behaved app" and c: "conn_ok G D c"
  shows "\<exists>c'. Connection_OnError app (Suc (Suc n)) e c = Inr c' \<and> ends_ok G D c' \<and> op_step G c c'"
proof -
  obtain c1 where c1: "deliver app (OnEvent app (Suc (Suc n))) (CbError e) c = Inr c1"
      "conn_ok G D c1" "op_step G c c1"
    using deliver_ok(2) [OF app c] by blast
  from event_ok [OF app user_event_pre [OF c1(2), of NEVT_ERROR], of n] obtain c2 where
    "OnEvent app (Suc (Suc n)) NEVT_ERROR c1 = Inr c2" "ends_ok G D c2" "op_step G c1 c2"
    by auto
  then show ?thesis using c1 op_step_trans [of G c c1 c2] by (simp add: Connection_OnError_def)
qed

lemma OnIn_ok:
  assumes app: "well_behaved app" and c: "conn_ok G D c"
  shows "\<exists>c'. Connection_OnIn app (Suc (Suc n)) c = Inr c' \<and> ends_ok G D c' \<and> op_step G c c'"
    and "\<exists>c'. Connection_OnOut app (Suc (Suc n)) c = Inr c' \<and> ends_ok G D c' \<and> op_step G c c'"
  using event_ok [OF app user_event_pre [OF c, of NEVT_RECV], of n]
    event_ok [OF app user_event_pre [OF c, of NEVT_SEND_READY], of n]
  by (simp_all add: Connection_OnIn_def Connection_OnOut_def)

end
