(* ===== verification/WorkerSafe.thy ===== *)
theory WorkerSafe
  imports ConnectionSafe
begin

text \<open>
  The network worker as a system: the step relation interleaves the main thread (events from
  \<open>epoll\<close>, calls of the application, results of the worker) with the worker thread, in every
  order. The invariant over all reachable states gives the properties of the network layer: the
  queues never overflow, no request or result outlives its connection, the two threads never touch the
  same buffer, and the bytes on the wire are the bytes that were sent.
\<close>

section \<open>What the kernel may answer\<close>

text \<open>
  \<open>recv(2)\<close> returns between one byte and the space offered, \<open>send(2)\<close> takes at most the bytes
  offered; the lists cover all the calls one loop makes.
\<close>

fun recv_script :: "int \<Rightarrow> recv_result list \<Rightarrow> bool" where
  "recv_script room [] \<longleftrightarrow> room \<le> 0"
| "recv_script room (RecvBytes bs # os) \<longleftrightarrow> room \<le> 0 \<or>
     bs \<noteq> [] \<and> int (length bs) \<le> room \<and> recv_script (room - int (length bs)) os"
| "recv_script room (r # os) \<longleftrightarrow> True"

fun send_script :: "int \<Rightarrow> send_result list \<Rightarrow> bool" where
  "send_script left [] \<longleftrightarrow> left \<le> 0"
| "send_script left (SendTook n # os) \<longleftrightarrow> left \<le> 0 \<or> 0 \<le> n \<and> n \<le> left \<and> send_script (left - n) os"
| "send_script left (r # os) \<longleftrightarrow> True"

lemma recv_loop_ok:
  assumes "recv_script (b_size b - off) os" "0 \<le> off" "off \<le> b_size b"
    "length (b_data b) = nat (b_size b)"
  shows "\<exists>ret off' b'. recv_loop os off b = Inr (ret, off', b') \<and> off \<le> off' \<and> off' \<le> b_size b \<and>
           b_size b' = b_size b \<and> b_offset b' = b_offset b \<and> length (b_data b') = nat (b_size b)"
  using assms
proof (induction os arbitrary: off b)
  case Nil
  then show ?case by (simp add: recv_loop.simps)
next
  case (Cons r os)
  show ?case
  proof (cases "off < b_size b \<and> (\<exists>bs. r = RecvBytes bs)")
    case True
    then obtain bs where r: "r = RecvBytes bs" by blast
    have fits: "int (length bs) \<le> b_size b - off" "recv_script (b_size b - off - int (length bs)) os"
      using Cons.prems(1) True r by auto
    then have "nat off + length bs \<le> length (b_data b)" using Cons.prems by linarith
    with Cons.IH [of "b\<lparr>b_data := put (b_data b) (nat off) bs\<rparr>" "off + int (length bs)"]
    show ?thesis
      using fits Cons.prems True r by (subst recv_loop.simps) (fastforce simp: algebra_simps)
  next
    case False
    with Cons.prems show ?thesis
      by (subst recv_loop.simps) (cases r; simp)
  qed
qed

lemma send_loop_ok:
  assumes "send_script (b_offset b - off) os" "0 \<le> off" "off \<le> b_offset b" "buf_ok b"
  shows "\<exists>ret off'. send_loop os off b wire = Inr (ret, off', wire @ slice (b_data b) (nat off) (nat (off' - off)))
           \<and> off \<le> off' \<and> off' \<le> b_offset b \<and> (ret = WRET_DONE \<longrightarrow> off' = b_offset b) \<and> ret \<noteq> WRET_CLOSE"
  using assms
proof (induction os arbitrary: off wire)
  case Nil
  then show ?case by (simp add: send_loop.simps slice_def)
next
  case (Cons r os)
  show ?case
  proof (cases "off < b_offset b \<and> (\<exists>n. r = SendTook n)")
    case True
    then obtain n where r: "r = SendTook n" by blast
    have n: "0 \<le> n" "n \<le> b_offset b - off" "send_script (b_offset b - (off + n)) os"
      using Cons.prems(1) True r by (auto simp: algebra_simps)
    have next_off: "(if n > 0 then off + n else off) = off + n" using n by simp
    obtain ret off' where IH: "send_loop os (off + n) b (wire @ slice (b_data b) (nat off) (nat n))
        = Inr (ret, off', (wire @ slice (b_data b) (nat off) (nat n)) @
                 slice (b_data b) (nat (off + n)) (nat (off' - (off + n))))"
      "off + n \<le> off'" "off' \<le> b_offset b" "ret = WRET_DONE \<longrightarrow> off' = b_offset b" "ret \<noteq> WRET_CLOSE"
      using Cons.IH [OF n(3), of "wire @ slice (b_data b) (nat off) (nat n)"] Cons.prems n by auto
    have "slice (b_data b) (nat off) (nat n) @ slice (b_data b) (nat (off + n)) (nat (off' - (off + n)))
        = slice (b_data b) (nat off) (nat (off' - off))"
    proof -
      have "nat (off' - off) = nat n + nat (off' - (off + n))" "nat (off + n) = nat off + nat n"
        using n IH(2) Cons.prems(2) by auto
      then show ?thesis by (simp add: slice_def take_add add.commute)
    qed
    with IH True r next_off n show ?thesis by (subst send_loop.simps) auto
  next
    case False
    with Cons.prems show ?thesis
      by (subst send_loop.simps) (cases r; auto simp: slice_def)
  qed
qed

section \<open>Steps\<close>

definition buffer_sizes_ok :: "int \<Rightarrow> int \<Rightarrow> bool" where
  "buffer_sizes_ok sendSize recvSize \<longleftrightarrow>
     0 < sendSize \<and> sendSize < 1073741824 \<and> 0 < recvSize \<and> recvSize < 1073741824"

text \<open>
  One step of either thread. The main thread attaches a connection where \<open>GetWorker\<close> has found a
  free slot, reports \<open>EPOLLIN\<close>, \<open>EPOLLOUT\<close> and \<open>EPOLLERR\<close>, makes the application's calls, and
  handles results; the worker thread handles one request.
\<close>

inductive net_step :: "'s app \<Rightarrow> nat \<Rightarrow> 's worker \<Rightarrow> fault + 's worker \<Rightarrow> bool" for app n where
  net_attach: "w_conns w i = None \<Longrightarrow> GetFreeSlot w > 0 \<Longrightarrow> buffer_sizes_ok sendSize recvSize \<Longrightarrow>
    net_step app n w (attach app n junk sendSize recvSize s i w)"
| net_in: "w_conns w i \<noteq> None \<Longrightarrow> net_step app n w (on_connection (Connection_OnIn app n) i w)"
| net_out: "w_conns w i \<noteq> None \<Longrightarrow> net_step app n w (on_connection (Connection_OnOut app n) i w)"
| net_error: "w_conns w i \<noteq> None \<Longrightarrow> net_step app n w (on_connection (Connection_OnError app n e) i w)"
| net_send: "w_conns w i \<noteq> None \<Longrightarrow> int (length bs) < 1073741824 \<Longrightarrow>
    net_step app n w (on_connection (Connection_send app n bs) i w)"
| net_close: "w_conns w i \<noteq> None \<Longrightarrow> net_step app n w (on_connection (Connection_close app n) i w)"
| net_result: "cq_read (w_resq w) = Some (r, q) \<Longrightarrow>
    net_step app n w (DoResult app n r (w\<lparr>w_resq := q\<rparr>))"
| net_work: "cq_read (w_workq w) = Some ((i, e), q) \<Longrightarrow>
    (\<And>c. w_conns w i = Some c \<Longrightarrow>
       recv_script (b_size (recvW c)) ros \<and> send_script (b_offset (sendW c)) sos) \<Longrightarrow>
    net_step app n w (ThreadProc_turn ros sos w)"

inductive net_reach :: "'s app \<Rightarrow> nat \<Rightarrow> int \<Rightarrow> 's worker \<Rightarrow> bool" for app n maxConnection where
  net_start: "NetWorker_new maxConnection = Inr w \<Longrightarrow> net_reach app n maxConnection w"
| net_next: "net_reach app n maxConnection w \<Longrightarrow> net_step app n w (Inr w') \<Longrightarrow>
    net_reach app n maxConnection w'"

section \<open>The invariant\<close>

definition kind_of :: "work_result \<Rightarrow> work_request" where
  "kind_of r = (fst r, the (result_kind (snd r)))"

definition answered :: "'s worker \<Rightarrow> work_request list" where
  "answered w = map kind_of (cq_list (w_resq w))"

definition pending :: "'s worker \<Rightarrow> work_request list" where
  "pending w = cq_list (w_workq w) @ answered w"

text \<open>
  The byte stream of a connection: what the kernel took, what the worker holds and what is queued
  make up what was sent. Only after a failed \<open>send(2)\<close>, whose partial progress is not
  recorded, is the wire merely a prefix.
\<close>

definition stream_ok :: "'s worker \<Rightarrow> nat \<Rightarrow> 's conn \<Rightarrow> bool" where
  "stream_ok w i c \<longleftrightarrow>
     c_wire c @ content (sendW c) @ content (sendU c) = c_sent c \<or>
     (\<exists>rest. c_sent c = c_wire c @ rest) \<and>
     ((i, NEVT_SEND_ERROR) \<in> set (cq_list (w_resq w)) \<or> send_st c = SendClose)"

text \<open>The bookkeeping of the worker, and the part of the invariant about one connection.\<close>

definition books_ok :: "'s worker \<Rightarrow> bool" where
  "books_ok w \<longleftrightarrow>
     cq_inv (w_workq w) \<and> cq_inv (w_resq w) \<and>
     cq_capacity (w_workq w) = nat (2 * w_max w) \<and> cq_capacity (w_resq w) = nat (2 * w_max w) \<and>
     finite (dom (w_conns w)) \<and> int (card (dom (w_conns w))) = w_now w \<and> w_now w \<le> w_max w \<and>
     (\<forall>r\<in>set (cq_list (w_resq w)). result_kind (snd r) \<noteq> None) \<and>
     distinct (pending w) \<and> set (pending w) \<subseteq> dom (w_conns w) \<times> UNIV"

definition conn_at :: "'s worker \<Rightarrow> nat \<Rightarrow> 's conn \<Rightarrow> bool" where
  "conn_at w i c \<longleftrightarrow> c_id c = i \<and>
     conn_ok (set (answered w)) (dom (w_conns w)) (c\<lparr>c_workq := w_workq w\<rparr>) \<and> stream_ok w i c"

definition worker_ok :: "'s worker \<Rightarrow> bool" where
  "worker_ok w \<longleftrightarrow> books_ok w \<and> (\<forall>i c. w_conns w i = Some c \<longrightarrow> conn_at w i c)"

section \<open>The main thread\<close>

definition others_ok :: "nat \<Rightarrow> 's worker \<Rightarrow> bool" where
  "others_ok i w \<longleftrightarrow> books_ok w \<and> (\<forall>j c. j \<noteq> i \<longrightarrow> w_conns w j = Some c \<longrightarrow> conn_at w j c)"

lemma worker_ok_split:
  "worker_ok w \<longleftrightarrow> others_ok i w \<and> (\<forall>c. w_conns w i = Some c \<longrightarrow> conn_at w i c)"
  unfolding worker_ok_def others_ok_def by metis

text \<open>A connection does not notice what another one adds to the work queue, nor its end.\<close>

lemma conn_ok_other_queue:
  assumes "conn_ok G D (c\<lparr>c_workq := q\<rparr>)" "c_id c = j" "j \<noteq> i"
    and "cq_inv q'" "cq_capacity q' = cq_capacity q" "cq_list q' = cq_list q @ L"
    and "set L \<subseteq> {i} \<times> UNIV" "distinct (cq_list q')" "set (cq_list q') \<inter> G = {}"
    and "set (cq_list q') \<subseteq> D' \<times> UNIV" "D' \<subseteq> D" "j \<in> D'"
  shows "conn_ok G D' (c\<lparr>c_workq := q'\<rparr>)"
proof -
  have "under_way G (c\<lparr>c_workq := q'\<rparr>) e \<longleftrightarrow> under_way G (c\<lparr>c_workq := q\<rparr>) e"
    "(c_id c, e) \<in> set (cq_list q') \<longleftrightarrow> (c_id c, e) \<in> set (cq_list q)" for e
    using assms by (auto simp: under_way_def)
  moreover have "finite D'" "card D' \<le> card D"
    using assms(1,11) by (auto simp: conn_ok_def wired_def intro: finite_subset card_mono)
  ultimately show ?thesis
    using assms by (auto simp: conn_ok_def wired_def bufs_ok_def send_ok_def recv_ok_def idle_recv_empty_def)
qed

definition stream_kept :: "'s conn \<Rightarrow> 's conn \<Rightarrow> bool" where
  "stream_kept c c' \<longleftrightarrow>
     (c_wire c @ content (sendW c) @ content (sendU c) = c_sent c \<longrightarrow>
        c_wire c' @ content (sendW c') @ content (sendU c') = c_sent c') \<and>
     ((\<exists>rest. c_sent c = c_wire c @ rest) \<longrightarrow> (\<exists>rest. c_sent c' = c_wire c' @ rest))"

lemma op_step_stream: "op_step G c c' \<Longrightarrow> stream_kept c c'"
  by (auto simp: op_step_def stream_kept_def)

lemma stream_ok_kept:
  assumes "stream_ok w i c" "stream_kept c c'" "cq_list (w_resq w') = cq_list (w_resq w)"
    and "send_st c = SendClose \<Longrightarrow> send_st c' = SendClose"
  shows "stream_ok w' i c'"
  using assms by (auto simp: stream_ok_def stream_kept_def)

lemma settle_ok:
  fixes w :: "'s worker" and c c' :: "'s conn"
  defines "G \<equiv> set (answered w)" and "D \<equiv> dom (w_conns w)" and "c0 \<equiv> c\<lparr>c_workq := w_workq w\<rparr>"
  assumes w: "others_ok i w" and c: "w_conns w i = Some c" "c_id c = i"
    and ends: "ends_ok G D c'" and step: "op_step G c0 c'"
    and str: "stream_ok (w\<lparr>w_conns := (w_conns w)(i \<mapsto> c')\<rparr>) i c'"
  shows "\<exists>w'. settle i c' w = Inr w' \<and> worker_ok w'"
proof -
  let ?q = "c_workq c'"
  obtain L where q: "c_id c' = i" "cq_inv ?q" "cq_capacity ?q = cq_capacity (w_workq w)"
      "cq_list ?q = cq_list (w_workq w) @ L" "set L \<subseteq> {i} \<times> UNIV"
    using step c(2) by (auto simp: op_step_def extends_def c0_def)
  have qd: "distinct (cq_list ?q)" "set (cq_list ?q) \<inter> G = {}" "set (cq_list ?q) \<subseteq> D \<times> UNIV"
    using ends by (auto simp: ends_ok_def conn_ok_def wired_def closed_ok_def)
  have books: "books_ok w" using w by (simp add: others_ok_def)
  then have ans: "distinct (answered w)" "set (answered w) \<subseteq> D \<times> UNIV"
    by (auto simp: books_ok_def pending_def D_def)
  have iD: "i \<in> D" using c(1) by (auto simp: D_def)
  have other: "conn_ok G D' (d\<lparr>c_workq := ?q\<rparr>)" "c_id d = j" "stream_ok w j d"
    if "j \<noteq> i" "w_conns w j = Some d" "set (cq_list ?q) \<subseteq> D' \<times> UNIV" "D' \<subseteq> D" "j \<in> D'" for j d D'
  proof -
    have "conn_at w j d" using w that by (simp add: others_ok_def)
    then have d: "conn_ok G D (d\<lparr>c_workq := w_workq w\<rparr>)" "c_id d = j" "stream_ok w j d"
      by (simp_all add: conn_at_def G_def D_def)
    then show "c_id d = j" "stream_ok w j d" by simp_all
    from conn_ok_other_queue [OF d(1,2) that(1) q(2-5) qd(1,2) that(3-5)]
    show "conn_ok G D' (d\<lparr>c_workq := ?q\<rparr>)" .
  qed
  from ends show ?thesis
  proof (cases rule: ends_okE)
    case 1
    define w' where "w' = w\<lparr>w_workq := ?q, w_conns := (w_conns w)(i \<mapsto> c')\<rparr>"
    have dom: "dom (w_conns w') = D" using iD by (auto simp: D_def w'_def)
    have ans': "answered w' = answered w" by (simp add: answered_def w'_def)
    have "books_ok w'"
      using books q qd ans dom unfolding books_ok_def pending_def ans'
      by (simp add: w'_def G_def D_def) blast
    moreover have "conn_at w' i c'"
      using 1 str q(1) dom ans' by (simp add: conn_at_def w'_def G_def stream_ok_def)
    moreover have "conn_at w' j d" if "j \<noteq> i" "w_conns w j = Some d" for j d
      using other [OF that qd(3) order_refl] that dom ans'
      by (auto simp: conn_at_def w'_def G_def D_def stream_ok_def)
    ultimately have "worker_ok w'" by (auto simp: worker_ok_def w'_def)
    moreover have "settle i c' w = Inr w'"
      using 1 by (simp add: settle_def conn_ok_def wired_def Let_def w'_def)
    ultimately show ?thesis by blast
  next
    case 2
    define w' where "w' = w\<lparr>w_workq := ?q, w_conns := (w_conns w)(i := None), w_now := w_now w - 1,
      w_closed := w_closed w @ [i]\<rparr>"
    have gone: "(i, e) \<notin> set (cq_list ?q)" "(i, e) \<notin> G" for e
      using 2 q(1) by (auto simp: closed_ok_def under_way_def)
    have dom: "dom (w_conns w') = D - {i}" by (auto simp: D_def w'_def)
    have ans': "answered w' = answered w" by (simp add: answered_def w'_def)
    have sub: "set (cq_list ?q) \<subseteq> (D - {i}) \<times> UNIV" "set (answered w) \<subseteq> (D - {i}) \<times> UNIV"
      using gone qd(3) ans(2) by (auto simp: G_def)
    have card: "finite D" "int (card D) = w_now w" "w_now w \<le> w_max w"
      using books by (auto simp: books_ok_def D_def)
    have "card D = Suc (card (D - {i}))" by (rule card.remove [OF card(1) iD])
    then have now: "int (card (D - {i})) = w_now w - 1" "0 \<le> w_now w - 1"
      using card(2) by linarith+
    have "books_ok w'"
    proof -
      have "distinct (pending w')"
        using qd ans(1) unfolding pending_def ans' by (simp add: w'_def G_def)
      moreover have "set (pending w') \<subseteq> (D - {i}) \<times> UNIV"
        using sub unfolding pending_def ans' by (simp add: w'_def)
      ultimately show ?thesis
        using books q(2,3) now(1) card unfolding books_ok_def dom by (simp add: w'_def)
    qed
    moreover have "conn_at w' j d" if j: "j \<noteq> i" "w_conns w j = Some d" for j d
    proof -
      have "j \<in> D - {i}" using j by (auto simp: D_def)
      from other [OF j sub(1) Diff_subset this] show ?thesis
        unfolding conn_at_def dom ans' by (simp add: w'_def G_def stream_ok_def)
    qed
    ultimately have "worker_ok w'" by (auto simp: worker_ok_def w'_def split: if_splits)
    moreover have "settle i c' w = Inr w'"
      using 2 now(2) by (simp add: settle_def closed_ok_def Let_def NetWorker_Remove_def w'_def)
    ultimately show ?thesis by blast
  qed
qed

lemma on_connection_ok:
  assumes w: "worker_ok w" and i: "w_conns w i \<noteq> None"
    and f: "\<And>c. conn_ok (set (answered w)) (dom (w_conns w)) c \<Longrightarrow>
        \<exists>c'. f c = Inr c' \<and> ends_ok (set (answered w)) (dom (w_conns w)) c' \<and> op_step (set (answered w)) c c'"
  shows "\<exists>w'. on_connection f i w = Inr w' \<and> worker_ok w'"
proof -
  obtain c where c: "w_conns w i = Some c" using i by blast
  let ?c0 = "c\<lparr>c_workq := w_workq w\<rparr>"
  have k: "others_ok i w" "c_id c = i" "conn_ok (set (answered w)) (dom (w_conns w)) ?c0" "stream_ok w i c"
    using w c by (auto simp: worker_ok_split [of w i] conn_at_def)
  obtain c' where c': "f ?c0 = Inr c'" "ends_ok (set (answered w)) (dom (w_conns w)) c'"
      "op_step (set (answered w)) ?c0 c'"
    using f [OF k(3)] by blast
  have "stream_ok (w\<lparr>w_conns := (w_conns w)(i \<mapsto> c')\<rparr>) i c'"
    using stream_ok_kept [OF k(4), of c' "w\<lparr>w_conns := (w_conns w)(i \<mapsto> c')\<rparr>"]
      op_step_stream [OF c'(3)] c'(3)
    by (auto simp: stream_kept_def op_step_def)
  from settle_ok [OF k(1) c k(2) c'(2,3) this] c c'(1) show ?thesis
    by (simp add: on_connection_def)
qed


lemma attach_ok:
  assumes app: "well_behaved app" and w: "worker_ok w" and free: "w_conns w i = None" "GetFreeSlot w > 0"
    and sizes: "buffer_sizes_ok sendSize recvSize"
  shows "\<exists>w'. attach app (Suc (Suc n)) junk sendSize recvSize s i w = Inr w' \<and> worker_ok w'"
proof -
  let ?c = "Connection_create i junk sendSize recvSize s (w_workq w)"
  define w1 where "w1 = NetWorker_Add i ?c w"
  let ?D = "dom (w_conns w)"
  have books: "books_ok w" using w by (simp add: worker_ok_def)
  have dom: "dom (w_conns w1) = insert i ?D" by (simp add: w1_def NetWorker_Add_def)
  have same: "w_workq w1 = w_workq w" "w_resq w1 = w_resq w" "w_max w1 = w_max w"
      "w_now w1 = w_now w + 1" "answered w1 = answered w" "pending w1 = pending w"
    by (simp_all add: w1_def NetWorker_Add_def answered_def pending_def)
  have new: "i \<notin> ?D" "finite ?D" using free(1) books by (auto simp: books_ok_def)
  then have card: "card (insert i ?D) = Suc (card ?D)" by simp
  have books1: "books_ok w1"
    using books free(2) card new unfolding books_ok_def same dom
    by (auto simp: GetFreeSlot_def)
  have notin: "(i, e) \<notin> set (pending w)" for e
    using books new(1) by (auto simp: books_ok_def)
  have cap: "2 * card (insert i ?D) \<le> cq_capacity (w_workq w)"
    using books free(2) card by (auto simp: books_ok_def GetFreeSlot_def)
  have wire: "set (cq_list (w_workq w)) \<inter> set (answered w) = {}" "distinct (cq_list (w_workq w))"
      "set (cq_list (w_workq w)) \<subseteq> insert i ?D \<times> UNIV" "cq_inv (w_workq w)"
    using books by (auto simp: books_ok_def pending_def)
  have "bufs_ok ?c" using sizes by (intro bufs_ok_create) (auto simp: buffer_sizes_ok_def)
  then have fresh: "conn_ok (set (answered w)) (insert i ?D) ?c"
    using cap wire new notin
    by (auto simp: conn_ok_def wired_def send_ok_def recv_ok_def idle_recv_empty_def under_way_def
        Connection_create_def pending_def fresh_buffer_def)
  have "conn_at w1 i ?c"
    using fresh unfolding conn_at_def same dom
    by (simp add: Connection_create_def stream_ok_def)
  moreover have "conn_at w1 j d" if j: "j \<noteq> i" "w_conns w j = Some d" for j d
  proof -
    have "conn_at w j d" using w j(2) by (simp add: worker_ok_def)
    then show ?thesis
      using cap new(2) unfolding conn_at_def same dom
      by (auto simp: conn_ok_def wired_def bufs_ok_def send_ok_def recv_ok_def under_way_def
          idle_recv_empty_def stream_ok_def same)
  qed
  ultimately have "worker_ok w1"
    using books1 by (auto simp: worker_ok_def w1_def NetWorker_Add_def)
  moreover have "w_conns w1 i \<noteq> None" by (simp add: w1_def NetWorker_Add_def)
  ultimately show ?thesis
    using on_connection_ok [of w1 i "Connection_OnConnected app (Suc (Suc n))"] deliver_ok(1) [OF app]
    by (simp add: attach_def w1_def Connection_OnConnected_def)
qed

text \<open>Taking a result off the queue: its connection is then the only one out of balance.\<close>

lemma pop_result:
  assumes w: "worker_ok w" and pop: "cq_read (w_resq w) = Some ((i, evt), q)"
  defines "w1 \<equiv> w\<lparr>w_resq := q\<rparr>"
  obtains c k where "w_conns w i = Some c" "c_id c = i" "others_ok i w1" "result_kind evt = Some k"
    "wired (set (answered w1)) (dom (w_conns w)) (c\<lparr>c_workq := w_workq w\<rparr>)"
    "send_pre (set (answered w1)) evt (c\<lparr>c_workq := w_workq w\<rparr>)"
    "recv_pre (set (answered w1)) evt (c\<lparr>c_workq := w_workq w\<rparr>)"
    "idle_recv_empty (c\<lparr>c_workq := w_workq w\<rparr>)" "stream_ok w i c"
proof -
  have books: "books_ok w" using w by (simp add: worker_ok_def)
  then have "cq_inv (w_resq w)" by (simp add: books_ok_def)
  from cq.deq_some [OF this pop] have q: "cq_list (w_resq w) = (i, evt) # cq_list q" "cq_inv q"
      "cq_capacity q = cq_capacity (w_resq w)" by auto
  obtain k where k: "result_kind evt = Some k" using books q(1) by (auto simp: books_ok_def)
  have ans: "answered w = (i, k) # answered w1"
    using q(1) k by (simp add: answered_def kind_of_def w1_def)
  have dist: "distinct (cq_list (w_workq w) @ (i, k) # answered w1)"
    using books ans by (simp add: books_ok_def pending_def)
  have books1: "books_ok w1"
    using books q ans dist by (auto simp: books_ok_def pending_def w1_def)
  have "i \<in> dom (w_conns w)" using books ans by (auto simp: books_ok_def pending_def)
  then obtain c where c: "w_conns w i = Some c" by blast
  have gset: "set (answered w) = insert (i, k) (set (answered w1))" by (simp add: ans)
  have at: "conn_at w i c" using w c by (simp add: worker_ok_def)
  have other: "conn_at w1 j d" if "j \<noteq> i" "w_conns w j = Some d" for j d
  proof -
    have "conn_at w j d" using w that(2) by (simp add: worker_ok_def)
    then show ?thesis
      using that(1) q(1) unfolding conn_at_def gset
      by (auto simp: conn_ok_def wired_def bufs_ok_def send_ok_def recv_ok_def under_way_def
          idle_recv_empty_def stream_ok_def w1_def)
  qed
  have "others_ok i w1" using books1 other by (auto simp: others_ok_def w1_def)
  moreover have "wired (set (answered w1)) (dom (w_conns w)) (c\<lparr>c_workq := w_workq w\<rparr>)"
    "idle_recv_empty (c\<lparr>c_workq := w_workq w\<rparr>)"
    using at unfolding conn_at_def gset by (auto simp: conn_ok_def wired_def)
  moreover have "send_pre (set (answered w1)) evt (c\<lparr>c_workq := w_workq w\<rparr>)"
    "recv_pre (set (answered w1)) evt (c\<lparr>c_workq := w_workq w\<rparr>)"
  proof -
    let ?c = "c\<lparr>c_workq := w_workq w\<rparr>" and ?A = "set (answered w1)"
    have ok: "send_ok (insert (i, k) ?A) ?c" "recv_ok (insert (i, k) ?A) ?c" "c_id c = i"
      using at unfolding conn_at_def gset by (simp_all add: conn_ok_def)
    have uw: "under_way (insert (i, k) ?A) ?c e \<longleftrightarrow> e = k \<or> under_way ?A ?c e" for e
      using ok(3) by (auto simp: under_way_def)
    have nuw: "\<not> under_way ?A ?c k" using dist ok(3) by (simp add: under_way_def)
    show "send_pre ?A evt ?c" "recv_pre ?A evt ?c"
      using ok(1,2) uw nuw k unfolding send_pre_def recv_pre_def send_ok_def recv_ok_def
      by (cases k; simp)+
  qed
  moreover have "c_id c = i" "stream_ok w i c" using at by (simp_all add: conn_at_def)
  ultimately show ?thesis using that c k by blast
qed

lemma DoResult_ok:
  assumes app: "well_behaved app" and w: "worker_ok w" and pop: "cq_read (w_resq w) = Some ((i, evt), q)"
  shows "\<exists>w'. DoResult app (Suc (Suc n)) (i, evt) (w\<lparr>w_resq := q\<rparr>) = Inr w' \<and> worker_ok w'"
proof -
  define w1 where "w1 = w\<lparr>w_resq := q\<rparr>"
  from pop_result [OF w pop] obtain c k where c: "w_conns w i = Some c" "c_id c = i" "others_ok i w1"
    "wired (set (answered w1)) (dom (w_conns w)) (c\<lparr>c_workq := w_workq w\<rparr>)"
    "send_pre (set (answered w1)) evt (c\<lparr>c_workq := w_workq w\<rparr>)"
    "recv_pre (set (answered w1)) evt (c\<lparr>c_workq := w_workq w\<rparr>)"
    "idle_recv_empty (c\<lparr>c_workq := w_workq w\<rparr>)" "stream_ok w i c"
    unfolding w1_def by metis
  have f1: "w_conns w1 = w_conns w" "w_workq w1 = w_workq w" by (simp_all add: w1_def)
  from event_ok [OF app c(4-7)] obtain c' where c': "OnEvent app (Suc (Suc n)) evt (c\<lparr>c_workq := w_workq w\<rparr>) = Inr c'"
    "ends_ok (set (answered w1)) (dom (w_conns w)) c'" "op_step (set (answered w1)) (c\<lparr>c_workq := w_workq w\<rparr>) c'"
    "evt = NEVT_SEND_ERROR \<longrightarrow> send_st c' = SendClose"
    by blast
  have "cq_inv (w_resq w)" using w by (simp add: worker_ok_def books_ok_def)
  from cq.deq_some [OF this pop] have "cq_list (w_resq w) = (i, evt) # cq_list q" by simp
  moreover have "stream_kept c c'" using op_step_stream [OF c'(3)] by (simp add: stream_kept_def)
  moreover have "send_st c = SendClose \<longrightarrow> send_st c' = SendClose" using c'(3) by (simp add: op_step_def)
  ultimately have str: "stream_ok (w1\<lparr>w_conns := (w_conns w1)(i \<mapsto> c')\<rparr>) i c'"
    using c(8) c'(4) by (auto simp: stream_ok_def stream_kept_def w1_def)
  from settle_ok [OF c(3), of c c'] c c' f1 str obtain w' where "settle i c' w1 = Inr w'" "worker_ok w'"
    by auto
  then show ?thesis
    using c(1) c'(1) f1 by (simp add: DoResult_def on_connection_def w1_def)
qed


section \<open>The worker thread\<close>

lemma OnRecv_ok:
  assumes "buf_ok (recvW c)" "b_offset (recvW c) = 0" "recv_script (b_size (recvW c)) os"
  shows "\<exists>ret c'. Connection_OnRecv os c = Inr (ret, c') \<and>
           (\<exists>b. c' = c\<lparr>recvW := b\<rparr> \<and> buf_ok b \<and> b_size b = b_size (recvW c))"
proof -
  have s: "recv_script (b_size (recvW c) - 0) os" "length (b_data (recvW c)) = nat (b_size (recvW c))"
      "0 \<le> b_size (recvW c)"
    using assms by (auto simp: buf_ok_def)
  from recv_loop_ok [OF s(1) order_refl s(3,2)] obtain ret off b where
    "recv_loop os 0 (recvW c) = Inr (ret, off, b)" "0 \<le> off" "off \<le> b_size (recvW c)"
    "b_size b = b_size (recvW c)" "b_offset b = b_offset (recvW c)"
    "length (b_data b) = nat (b_size (recvW c))"
    by blast
  then show ?thesis
    using assms by (auto simp: Connection_OnRecv_def Let_def buf_ok_def)
qed

text \<open>The effect of \<open>OnSend\<close> on the working buffer and the wire.\<close>

definition send_progress :: "wret \<Rightarrow> 's conn \<Rightarrow> buffer \<Rightarrow> byte list \<Rightarrow> bool" where
  "send_progress ret c b wire \<longleftrightarrow> buf_ok b \<and> b_size b = b_size (sendW c) \<and>
     (if ret = WRET_ERROR then b = sendW c \<and> (\<exists>k. wire = c_wire c @ take k (content (sendW c)))
      else wire @ content b = c_wire c @ content (sendW c)) \<and>
     (ret = WRET_DONE \<longrightarrow> b_offset b = 0)"

lemma OnSend_ok:
  assumes b: "buf_ok (sendW c)" "b_offset (sendW c) \<noteq> 0" and s: "send_script (b_offset (sendW c)) os"
  shows "\<exists>ret b wire. Connection_OnSend os c = Inr (ret, c\<lparr>sendW := b, c_wire := wire\<rparr>) \<and>
           ret \<noteq> WRET_CLOSE \<and> send_progress ret c b wire"
proof -
  let ?b = "sendW c"
  have "send_script (b_offset ?b - 0) os" "0 \<le> b_offset ?b" using s b by (auto simp: buf_ok_def)
  from send_loop_ok [OF this(1) order_refl this(2) b(1), of "[]"] obtain ret off where
    r: "send_loop os 0 ?b [] = Inr (ret, off, slice (b_data ?b) 0 (nat off))" "0 \<le> off" "off \<le> b_offset ?b"
       "ret = WRET_DONE \<longrightarrow> off = b_offset ?b" "ret \<noteq> WRET_CLOSE"
    by auto
  have took: "take (nat off) (b_data ?b) = take (nat off) (content ?b)"
    using r(2,3) by (simp add: content_def min_def)
  let ?b' = "if ret = WRET_ERROR then ?b else buf_consume off ?b"
  let ?wire = "c_wire c @ take (nat off) (content ?b)"
  have k: "buf_ok (buf_consume off ?b)" "content (buf_consume off ?b) = drop (nat off) (content ?b)"
      "b_size (buf_consume off ?b) = b_size ?b" "b_offset (buf_consume off ?b) = b_offset ?b - off"
    using buf_consume_ok [OF b(1) r(2,3)] by auto
  then have "send_progress ret c ?b' ?wire"
    using b(1) r(4) by (auto simp: send_progress_def)
  moreover have "Connection_OnSend os c = Inr (ret, c\<lparr>sendW := ?b', c_wire := ?wire\<rparr>)"
    using r(1) b(2) took by (simp add: Connection_OnSend_def Let_def)
  ultimately show ?thesis using r(5) by blast
qed

text \<open>
  Answering a request moves it from the work queue to the result queue. The step fails in one
  case only, which \<open>OnSend\<close> asserts against: a send request for an empty buffer.
\<close>

lemma answer_ok:
  assumes w: "worker_ok w" and pop: "cq_read (w_workq w) = Some ((i, e), q)"
    and c: "w_conns w i = Some c" and kind: "result_kind evt = Some e"
    and same: "c_id c' = c_id c" "c_session c' = c_session c" "c_pipe c' = c_pipe c"
      "c_worker c' = c_worker c" "c_alive c' = c_alive c" "send_st c' = send_st c" "recv_st c' = recv_st c"
      "bufs_ok c'"
    and recv: "e \<noteq> WORK_RECV \<Longrightarrow> recvW c' = recvW c"
    and str: "\<And>rq. cq_list rq = cq_list (w_resq w) @ [(i, evt)] \<Longrightarrow>
                 stream_ok (w\<lparr>w_resq := rq\<rparr>) i c'"
  shows "\<exists>rq. cq_push (i, evt) (w_resq w) = Inr rq \<and>
           worker_ok (w\<lparr>w_workq := q, w_conns := (w_conns w)(i \<mapsto> c'), w_resq := rq\<rparr>)"
proof -
  let ?D = "dom (w_conns w)" and ?A = "set (answered w)"
  have books: "books_ok w" using w by (simp add: worker_ok_def)
  then have inv: "cq_inv (w_workq w)" "cq_inv (w_resq w)" by (simp_all add: books_ok_def)
  from cq.deq_some [OF inv(1) pop] have q: "cq_list (w_workq w) = (i, e) # cq_list q" "cq_inv q"
      "cq_capacity q = cq_capacity (w_workq w)" by auto
  have pend: "distinct ((i, e) # cq_list q @ answered w)" "set ((i, e) # cq_list q @ answered w) \<subseteq> ?D \<times> UNIV"
    using books q(1) by (simp_all add: books_ok_def pending_def)
  have at: "conn_at w j d" if "w_conns w j = Some d" for j d using w that by (simp add: worker_ok_def)
  have "wired ?A ?D (c\<lparr>c_workq := w_workq w\<rparr>)" using at [OF c] by (simp add: conn_at_def conn_ok_def)
  then have fin: "finite ?D" "2 * card ?D \<le> cq_capacity (w_workq w)" by (simp_all add: wired_def)
  have univ: "(UNIV :: work_event set) = {WORK_SEND, WORK_RECV}" using work_event.exhaust by auto
  have "finite (?D \<times> (UNIV :: work_event set))" "card (?D \<times> (UNIV :: work_event set)) = 2 * card ?D"
    using fin(1) by (simp_all add: card_cartesian_product univ)
  then have "card (set ((i, e) # cq_list q @ answered w)) \<le> 2 * card ?D"
    using card_mono pend(2) by metis
  then have "length ((i, e) # cq_list q @ answered w) \<le> 2 * card ?D"
    using distinct_card [OF pend(1)] by simp
  then have room: "length (cq_list (w_resq w)) < cq_capacity (w_resq w)"
    using fin(2) books by (simp add: books_ok_def answered_def)
  from cq.enq_room [OF inv(2) this] obtain rq where rq: "cq_push (i, evt) (w_resq w) = Inr rq" "cq_inv rq"
      "cq_list rq = cq_list (w_resq w) @ [(i, evt)]" "cq_capacity rq = cq_capacity (w_resq w)" by blast
  define w' where "w' = w\<lparr>w_workq := q, w_conns := (w_conns w)(i \<mapsto> c'), w_resq := rq\<rparr>"
  have ans: "answered w' = answered w @ [(i, e)]"
    using rq(3) kind by (simp add: answered_def kind_of_def w'_def)
  have gset: "set (answered w') = insert (i, e) ?A" by (simp add: ans)
  have dom: "dom (w_conns w') = ?D" using c by (auto simp: w'_def)
  have "pending w' = cq_list q @ answered w @ [(i, e)]" by (simp add: pending_def ans) (simp add: w'_def)
  then have "distinct (pending w')" "set (pending w') \<subseteq> ?D \<times> UNIV" using pend by auto
  then have "books_ok w'"
    using books q rq kind unfolding books_ok_def dom by (simp add: w'_def)
  moreover have keep: "conn_ok (insert (i, e) ?A) ?D (d'\<lparr>c_workq := q\<rparr>)"
    if d: "conn_ok ?A ?D (d\<lparr>c_workq := w_workq w\<rparr>)" "c_id d' = c_id d" "c_session d' = c_session d"
      "c_pipe d' = c_pipe d" "c_worker d' = c_worker d" "c_alive d' = c_alive d"
      "send_st d' = send_st d" "recv_st d' = recv_st d" "bufs_ok d'"
      "recvW d' = recvW d \<or> (c_id d, WORK_RECV) = (i, e)" for d d' :: "'a conn"
  proof -
    have uw: "under_way (insert (i, e) ?A) (d'\<lparr>c_workq := q\<rparr>) k \<longleftrightarrow> under_way ?A (d\<lparr>c_workq := w_workq w\<rparr>) k" for k
      using q(1) d(2) by (auto simp: under_way_def)
    have idle: "idle_recv_empty (d'\<lparr>c_workq := q\<rparr>)"
    proof (cases "(c_id d, WORK_RECV) = (i, e)")
      case True
      then have "recv_busy (recv_st d)" "(c_id d, WORK_RECV) \<notin> set (cq_list q)"
        using d(1) q(1) pend(1) by (auto simp: conn_ok_def recv_ok_def under_way_def)
      then show ?thesis using d(2,8) by (auto simp: idle_recv_empty_def)
    next
      case False
      then show ?thesis using d q(1) by (auto simp: conn_ok_def idle_recv_empty_def)
    qed
    have "wired (insert (i, e) ?A) ?D (d'\<lparr>c_workq := q\<rparr>)"
      using d q pend by (auto simp: conn_ok_def wired_def bufs_ok_def)
    then show ?thesis
      using d(1,7,8) idle uw by (simp add: conn_ok_def send_ok_def recv_ok_def)
  qed
  moreover have "conn_at w' i c'"
  proof -
    have "conn_ok (insert (i, e) ?A) ?D (c'\<lparr>c_workq := q\<rparr>)"
      using keep [of c c'] at [OF c] same recv by (cases e) (auto simp: conn_at_def)
    moreover have "stream_ok w' i c'" using str [OF rq(3)] by (simp add: stream_ok_def w'_def)
    ultimately show ?thesis
      using at [OF c] same(1) unfolding conn_at_def gset dom by (simp add: w'_def)
  qed
  moreover have "conn_at w' j d" if j: "j \<noteq> i" "w_conns w j = Some d" for j d
  proof -
    have "bufs_ok d" using at [OF j(2)] by (auto simp: conn_at_def conn_ok_def wired_def bufs_ok_def)
    then have "conn_ok (insert (i, e) ?A) ?D (d\<lparr>c_workq := q\<rparr>)"
      using keep [of d d] at [OF j(2)] by (auto simp: conn_at_def)
    then show ?thesis
      using at [OF j(2)] rq(3) unfolding conn_at_def gset dom by (auto simp: w'_def stream_ok_def)
  qed
  ultimately have "worker_ok w'" by (auto simp: worker_ok_def w'_def)
  with rq(1) show ?thesis by (auto simp: w'_def)
qed


lemma popped_request:
  assumes w: "worker_ok w" and pop: "cq_read (w_workq w) = Some ((i, e), q)"
  obtains c where "w_conns w i = Some c" "conn_at w i c" "under_way (set (answered w)) (c\<lparr>c_workq := w_workq w\<rparr>) e"
    "(i, e) \<in> set (cq_list (w_workq w))" "(i, e) \<notin> set (answered w)"
proof -
  have books: "books_ok w" using w by (simp add: worker_ok_def)
  then have "cq_inv (w_workq w)" by (simp add: books_ok_def)
  from cq.deq_some [OF this pop] have q: "cq_list (w_workq w) = (i, e) # cq_list q" by simp
  then have "i \<in> dom (w_conns w)" "(i, e) \<notin> set (answered w)"
    using books by (auto simp: books_ok_def pending_def)
  then obtain c where c: "w_conns w i = Some c" by blast
  then have "conn_at w i c" using w by (simp add: worker_ok_def)
  then show ?thesis using that c q \<open>(i, e) \<notin> set (answered w)\<close>
    by (auto simp: conn_at_def under_way_def)
qed

lemma result_kind_events:
  "result_kind (recv_event ret) = Some WORK_RECV" "result_kind (send_event ret) = Some WORK_SEND"
  by (cases ret; simp)+

lemma worker_turn_recv:
  assumes w: "worker_ok w" and pop: "cq_read (w_workq w) = Some ((i, WORK_RECV), q)"
    and os: "\<And>c. w_conns w i = Some c \<Longrightarrow> recv_script (b_size (recvW c)) ros"
  shows "\<exists>w'. ThreadProc_turn ros sos w = Inr w' \<and> worker_ok w'"
proof -
  from popped_request [OF w pop] obtain c where c: "w_conns w i = Some c" "conn_at w i c"
    "(i, WORK_RECV) \<in> set (cq_list (w_workq w))" by blast
  have b: "bufs_ok c" "b_offset (recvW c) = 0"
    using c(2,3) by (auto simp: conn_at_def conn_ok_def wired_def bufs_ok_def idle_recv_empty_def)
  then obtain ret b' where r: "Connection_OnRecv ros c = Inr (ret, c\<lparr>recvW := b'\<rparr>)" "buf_ok b'"
      "b_size b' = b_size (recvW c)"
    using OnRecv_ok [of c ros] os [OF c(1)] by (auto simp: bufs_ok_def)
  have "bufs_ok (c\<lparr>recvW := b'\<rparr>)" using b r by (simp add: bufs_ok_def)
  moreover have "stream_ok (w\<lparr>w_resq := rq\<rparr>) i (c\<lparr>recvW := b'\<rparr>)"
    if "cq_list rq = cq_list (w_resq w) @ [(i, recv_event ret)]" for rq
    using that c(2) by (auto simp: conn_at_def stream_ok_def)
  ultimately obtain rq where "cq_push (i, recv_event ret) (w_resq w) = Inr rq"
    "worker_ok (w\<lparr>w_workq := q, w_conns := (w_conns w)(i \<mapsto> c\<lparr>recvW := b'\<rparr>), w_resq := rq\<rparr>)"
    using answer_ok [OF w pop c(1) result_kind_events(1), of "c\<lparr>recvW := b'\<rparr>" ret] by auto
  then show ?thesis
    using pop c(1) r(1) by (auto simp: ThreadProc_turn_def DoRequest_def)
qed

lemma worker_turn_send:
  assumes w: "worker_ok w" and pop: "cq_read (w_workq w) = Some ((i, WORK_SEND), q)"
    and os: "\<And>c. w_conns w i = Some c \<Longrightarrow> send_script (b_offset (sendW c)) sos"
    and full: "\<And>c. w_conns w i = Some c \<Longrightarrow> b_offset (sendW c) \<noteq> 0"
  shows "\<exists>w'. ThreadProc_turn ros sos w = Inr w' \<and> worker_ok w'"
proof -
  from popped_request [OF w pop] obtain c where c: "w_conns w i = Some c" "conn_at w i c"
    "under_way (set (answered w)) (c\<lparr>c_workq := w_workq w\<rparr>) WORK_SEND" "(i, WORK_SEND) \<notin> set (answered w)"
    by blast
  have b: "bufs_ok c" using c(2) by (auto simp: conn_at_def conn_ok_def wired_def bufs_ok_def)
  then obtain ret b' wire where r: "Connection_OnSend sos c = Inr (ret, c\<lparr>sendW := b', c_wire := wire\<rparr>)"
      "ret \<noteq> WRET_CLOSE" "send_progress ret c b' wire"
    using OnSend_ok [of c sos] os [OF c(1)] full [OF c(1)] by (auto simp: bufs_ok_def)
  let ?c = "c\<lparr>sendW := b', c_wire := wire\<rparr>"
  have busy: "send_busy (send_st c)" using c(2,3) by (auto simp: conn_at_def conn_ok_def send_ok_def)
  have "(i, NEVT_SEND_ERROR) \<notin> set (cq_list (w_resq w))"
    using c(4) by (force simp: answered_def kind_of_def)
  then have exact: "c_wire c @ content (sendW c) @ content (sendU c) = c_sent c"
    using c(2) busy by (auto simp: conn_at_def stream_ok_def)
  have "stream_ok (w\<lparr>w_resq := rq\<rparr>) i ?c"
    if "cq_list rq = cq_list (w_resq w) @ [(i, send_event ret)]" for rq
  proof (cases "ret = WRET_ERROR")
    case True
    then obtain k where "wire = c_wire c @ take k (content (sendW c))"
      using r(3) by (auto simp: send_progress_def)
    then have "c_sent c = wire @ drop k (content (sendW c)) @ content (sendU c)"
      using exact by (metis append.assoc append_take_drop_id)
    then show ?thesis using that True by (auto simp: stream_ok_def)
  next
    case False
    then have "wire @ content b' = c_wire c @ content (sendW c)" using r(3) by (simp add: send_progress_def)
    then have "wire @ content b' @ content (sendU c) = c_sent c" using exact by (metis append.assoc)
    then show ?thesis by (simp add: stream_ok_def)
  qed
  moreover have "bufs_ok ?c" using b r(3) by (simp add: bufs_ok_def send_progress_def)
  ultimately obtain rq where "cq_push (i, send_event ret) (w_resq w) = Inr rq"
    "worker_ok (w\<lparr>w_workq := q, w_conns := (w_conns w)(i \<mapsto> ?c), w_resq := rq\<rparr>)"
    using answer_ok [OF w pop c(1) result_kind_events(2), of ?c ret] by auto
  then show ?thesis
    using pop c(1) r(1) by (auto simp: ThreadProc_turn_def DoRequest_def)
qed

lemma worker_turn_empty:
  assumes "worker_ok w" "cq_read (w_workq w) = Some ((i, WORK_SEND), q)"
    "w_conns w i = Some c" "b_offset (sendW c) = 0"
  shows "ThreadProc_turn ros sos w = Inl (AssertFail ''send buffer is empty'')"
  using assms by (simp add: ThreadProc_turn_def DoRequest_def Connection_OnSend_def)

section \<open>Every reachable state\<close>

lemma NetWorker_new_ok:
  assumes "NetWorker_new m = Inr w" "0 \<le> m" "m < 1073741823"
  shows "worker_ok w"
proof -
  have m: "s32 (m * 2) = m * 2" using assms(2,3) by (simp add: s32_nonneg_id)
  from assms(1) obtain wq rq where q: "cq_new (0, WORK_SEND) (m * 2) = Inr wq" "cq_new (0, NEVT_SEND) (m * 2) = Inr rq"
    and w: "w = \<lparr>w_conns = Map.empty, w_workq = wq, w_resq = rq, w_max = m, w_now = 0, w_closed = []\<rparr>"
    by (auto simp: NetWorker_new_def m res_bind_eq_Inr)
  have "in_s32 (m * 2)" using assms(2,3) by (simp add: in_s32_def)
  from cq_new_ok [OF q(1) this] cq_new_ok [OF q(2) this] assms(2) w show ?thesis
    by (simp add: worker_ok_def books_ok_def pending_def answered_def mult.commute)
qed

lemma net_step_ok:
  assumes app: "well_behaved app" and w: "worker_ok w" and step: "net_step app (Suc (Suc n)) w r"
  shows "(\<exists>w'. r = Inr w' \<and> worker_ok w') \<or> r = Inl (AssertFail ''send buffer is empty'')"
  using step
proof (cases rule: net_step.cases)
  case (net_attach i sendSize recvSize junk s)
  then show ?thesis using attach_ok [OF app w] by blast
next
  case (net_in i)
  with on_connection_ok [OF w, of i "Connection_OnIn app (Suc (Suc n))"] OnIn_ok(1) [OF app]
  show ?thesis by blast
next
  case (net_out i)
  with on_connection_ok [OF w, of i "Connection_OnOut app (Suc (Suc n))"] OnIn_ok(2) [OF app]
  show ?thesis by blast
next
  case (net_error i e)
  with on_connection_ok [OF w, of i "Connection_OnError app (Suc (Suc n)) e"] OnError_ok [OF app]
  show ?thesis by blast
next
  case (net_send i bs)
  with on_connection_ok [OF w, of i "Connection_send app (Suc (Suc n)) bs"]
    call_ok [OF app, of _ _ _ "PSend bs"]
  show ?thesis unfolding Connection_send_def ends_ok_def by (metis call_fits.simps(1))
next
  case (net_close i)
  with on_connection_ok [OF w, of i "Connection_close app (Suc (Suc n))"]
    call_ok [OF app, of _ _ _ "PClose"]
  show ?thesis unfolding Connection_close_def ends_ok_def by (metis call_fits.simps(2))
next
  case (net_result a q)
  with DoResult_ok [OF app w, of "fst a" "snd a" q n] show ?thesis by auto
next
  case (net_work i e q ros sos)
  show ?thesis
  proof (cases e)
    case WORK_RECV
    with net_work worker_turn_recv [OF w, of i q ros sos] show ?thesis by auto
  next
    case WORK_SEND
    from popped_request [OF w net_work(2)] obtain c where c: "w_conns w i = Some c" by blast
    show ?thesis
    proof (cases "b_offset (sendW c) = 0")
      case True
      with worker_turn_empty [OF w _ c] net_work WORK_SEND show ?thesis by auto
    next
      case False
      with net_work WORK_SEND worker_turn_send [OF w, of i q sos ros] c show ?thesis by auto
    qed
  qed
qed

lemma net_reach_ok:
  assumes "net_reach app (Suc (Suc n)) m w" "well_behaved app" "0 \<le> m" "m < 1073741823"
  shows "worker_ok w"
  using assms
proof (induction rule: net_reach.induct)
  case (net_start w)
  then show ?case by (intro NetWorker_new_ok)
next
  case (net_next w w')
  then show ?case using net_step_ok [of app w n "Inr w'"] by auto
qed

end
