(* ===== verification/NetProps.thy ===== *)
theory NetProps
  imports WorkerSafe CycleQueueSpsc
begin

text \<open>
  The properties of the network layer, for every state the worker and the main thread can reach together
  (\<open>net_reach\<close>), each with an instance on a small running system: one connection whose session
  echoes the first byte of every packet.
\<close>

section \<open>A running system\<close>

definition echo_app :: "byte list app" where
  "echo_app = \<lparr>app_parser = (\<lambda>bs. if bs = [] then 0 else 1),
     app_react = (\<lambda>cb s. case cb of CbRecv p \<Rightarrow> (s @ p, [PSend (take 1 p)]) | _ \<Rightarrow> (s, []))\<rparr>"

lemma echo_app_ok: "well_behaved echo_app"
  by (auto simp: well_behaved_def echo_app_def Suc_le_eq split: callback.splits)

definition idle_workq :: "work_request cycle_queue" where
  "idle_workq = \<lparr>q_data = [(0, WORK_SEND), (0, WORK_SEND), (0, WORK_SEND)], q_front = 0, q_tail = 0, q_size = 3\<rparr>"

definition idle_resq :: "work_result cycle_queue" where
  "idle_resq = \<lparr>q_data = [(0, NEVT_SEND), (0, NEVT_SEND), (0, NEVT_SEND)], q_front = 0, q_tail = 0, q_size = 3\<rparr>"

definition idle_conn :: "byte list conn" where
  "idle_conn = Connection_create 0 0 4 4 [] idle_workq"

definition idle_worker :: "byte list worker" where
  "idle_worker = \<lparr>w_conns = [0 \<mapsto> idle_conn], w_workq = idle_workq, w_resq = idle_resq, w_max = 1, w_now = 1, w_closed = []\<rparr>"

text \<open>The same after the application has sent the two bytes 7 and 8.\<close>

definition busy_workq :: "work_request cycle_queue" where
  "busy_workq = \<lparr>q_data = [(0, WORK_SEND), (0, WORK_SEND), (0, WORK_SEND)], q_front = 0, q_tail = 1, q_size = 3\<rparr>"

definition busy_conn :: "byte list conn" where
  "busy_conn = idle_conn\<lparr>sendW := \<lparr>b_data = [7, 8, 0, 0], b_size = 4, b_offset = 2\<rparr>,
     sendU := \<lparr>b_data = [7, 8, 0, 0], b_size = 4, b_offset = 0\<rparr>, send_st := Sending,
     c_workq := busy_workq, c_sent := [7, 8]\<rparr>"

definition busy_worker :: "byte list worker" where
  "busy_worker = idle_worker\<lparr>w_conns := [0 \<mapsto> busy_conn], w_workq := busy_workq\<rparr>"

lemmas demo_defs = idle_workq_def idle_resq_def idle_conn_def idle_worker_def busy_workq_def
  busy_conn_def busy_worker_def Connection_create_def fresh_buffer_def

lemma replicate_numeral [simp]: "replicate (numeral k) x = x # replicate (pred_numeral k) x"
  by (simp add: numeral_eq_Suc)

lemma idle_reach: "net_reach echo_app (Suc (Suc n)) 1 idle_worker"
proof -
  let ?w = "idle_worker\<lparr>w_conns := Map.empty, w_now := 0\<rparr>"
  have "NetWorker_new 1 = Inr ?w"
    by (simp add: NetWorker_new_def cq_new_def demo_defs s32_def)
  then have start: "net_reach echo_app (Suc (Suc n)) 1 ?w" by (rule net_start)
  have "attach echo_app (Suc (Suc n)) 0 4 4 [] 0 ?w = Inr idle_worker"
    by (simp add: attach_def on_connection_def NetWorker_Add_def Connection_OnConnected_def deliver_def
        settle_def demo_defs echo_app_def)
  moreover have "net_step echo_app (Suc (Suc n)) ?w (attach echo_app (Suc (Suc n)) 0 4 4 [] 0 ?w)"
    by (rule net_attach) (simp_all add: demo_defs GetFreeSlot_def buffer_sizes_ok_def)
  ultimately have "net_step echo_app (Suc (Suc n)) ?w (Inr idle_worker)" by simp
  with start show ?thesis by (rule net_next)
qed

lemma send_step_demo:
  "on_connection (Connection_send echo_app (Suc (Suc n)) [7, 8]) 0 idle_worker = Inr busy_worker"
  by (simp add: on_connection_def Connection_send_def ISession_call_def Connection_Send_def
      buf_append_def memcpy_in_def put_def OnEvent.simps send_machine_OnEvent_def SendNone_OnEvent_def
      begin_send_to_def BeginSend_def NetWorker_Send_def cq_push_def cq_is_full_def content_def
      ChangeSendState_def recv_machine_OnEvent_def RecvNone_OnEvent_def settle_def demo_defs s32_def Let_def)

lemma busy_step: "net_step echo_app (Suc (Suc n)) idle_worker (Inr busy_worker)"
  using net_send [of idle_worker 0 "[7, 8]" echo_app "Suc (Suc n)"]
  by (simp add: send_step_demo) (simp add: idle_worker_def)

lemma busy_reach: "net_reach echo_app (Suc (Suc n)) 1 busy_worker"
  using net_next [OF idle_reach busy_step] .

section \<open>No fault\<close>

text \<open>
  C1. Let the application be \<open>well_behaved\<close>: it makes no pipe call in \<open>OnError\<close> and
  \<open>OnDisconnected\<close>, its callbacks send less than $2^{30}$ bytes at a time, and its parser takes no more than
  it is given (\<open>close_in_OnError_use_after_free\<close>, \<open>close_in_OnDisconnected_diverges\<close> and \<open>huge_send_wraps\<close>
  show what happens otherwise); let the worker be made for less than $2^{30} - 1$ connections, the buffer sizes
  of a connection be positive and below $2^{30}$, and the sends from outside callbacks, too, have less than $2^{30}$ bytes. Then, whatever the
  interleaving of the main thread and the worker, a step from a reachable state never overflows a queue, never uses a deleted connection, a null pointer or memory outside a buffer,
  and needs no deeper nesting of \<open>OnEvent\<close> than two: it succeeds, or the worker
  stops in its one assertion that can fail, a send request on an empty buffer.
\<close>

theorem network_step_safe:
  assumes "net_reach app (Suc (Suc n)) m w" "well_behaved app" "0 \<le> m" "m < 1073741823"
    and "net_step app (Suc (Suc n)) w r"
  shows "(\<exists>w'. r = Inr w') \<or> r = Inl (AssertFail ''send buffer is empty'')"
  using net_step_ok [OF assms(2) net_reach_ok [OF assms(1-4)] assms(5)] by blast

lemma network_step_safe_witness:
  "net_step echo_app 2 busy_worker (ThreadProc_turn [RecvAgain] [SendTook 2] busy_worker) \<and>
   ((\<exists>w'. ThreadProc_turn [RecvAgain] [SendTook 2] busy_worker = Inr w') \<or>
    ThreadProc_turn [RecvAgain] [SendTook 2] busy_worker = Inl (AssertFail ''send buffer is empty''))"
proof -
  have "net_step echo_app (Suc (Suc 0)) busy_worker (ThreadProc_turn [RecvAgain] [SendTook 2] busy_worker)"
    by (rule net_work) (auto simp: cq_read_def cq_is_empty_def demo_defs)
  with network_step_safe [OF busy_reach echo_app_ok _ _ this] show ?thesis
    by (simp add: numeral_2_eq_2)
qed

section \<open>Requests\<close>

instantiation work_event :: finite
begin

instance
proof
  have "(UNIV :: work_event set) \<subseteq> {WORK_SEND, WORK_RECV}"
    using work_event.exhaust by auto
  then show "finite (UNIV :: work_event set)" by (rule finite_subset) simp
qed

end

lemma UNIV_work_event: "(UNIV :: work_event set) = {WORK_SEND, WORK_RECV}"
  using work_event.exhaust by auto

definition conn_busy :: "'s worker \<Rightarrow> nat \<Rightarrow> work_event \<Rightarrow> bool" where
  "conn_busy w i e \<longleftrightarrow>
     (case w_conns w i of
        None \<Rightarrow> False
      | Some c \<Rightarrow> (case e of WORK_SEND \<Rightarrow> send_busy (send_st c) | WORK_RECV \<Rightarrow> recv_busy (recv_st c)))"

text \<open>
  C8. In every reachable state no request is queued or answered twice at a time, none belongs to a
  connection that is gone, so both queues hold at most two entries per connection and never
  overflow; and a connection's two state machines know exactly which requests are under way.
\<close>

theorem requests_bounded:
  assumes "net_reach app (Suc (Suc n)) m w" "well_behaved app" "0 \<le> m" "m < 1073741823"
  shows "distinct (cq_list (w_workq w) @ answered w) \<and>
     length (cq_list (w_workq w)) + length (cq_list (w_resq w)) \<le> 2 * card (dom (w_conns w)) \<and>
     2 * card (dom (w_conns w)) \<le> cq_capacity (w_workq w) \<and> cq_capacity (w_resq w) = cq_capacity (w_workq w) \<and>
     (\<forall>i e. (i, e) \<in> set (cq_list (w_workq w)) \<union> set (answered w) \<longleftrightarrow> conn_busy w i e)"
proof (intro conjI allI)
  have ok: "worker_ok w" by (rule net_reach_ok [OF assms])
  then have books: "books_ok w" by (simp add: worker_ok_def)
  then have b: "distinct (pending w)" "set (pending w) \<subseteq> dom (w_conns w) \<times> UNIV" "finite (dom (w_conns w))"
    by (simp_all add: books_ok_def)
  show "distinct (cq_list (w_workq w) @ answered w)" using b(1) by (simp add: pending_def)
  show "cq_capacity (w_resq w) = cq_capacity (w_workq w)" "2 * card (dom (w_conns w)) \<le> cq_capacity (w_workq w)"
    using books by (auto simp: books_ok_def)
  have "card (set (pending w)) \<le> card (dom (w_conns w) \<times> (UNIV :: work_event set))"
    using b(2,3) by (intro card_mono) simp_all
  then have "length (pending w) \<le> 2 * card (dom (w_conns w))"
    using b(1) by (simp add: distinct_card card_cartesian_product UNIV_work_event)
  then show "length (cq_list (w_workq w)) + length (cq_list (w_resq w)) \<le> 2 * card (dom (w_conns w))"
    by (simp add: pending_def answered_def)
  fix i e
  show "(i, e) \<in> set (cq_list (w_workq w)) \<union> set (answered w) \<longleftrightarrow> conn_busy w i e"
  proof (cases "w_conns w i")
    case None
    with b(2) show ?thesis by (auto simp: pending_def conn_busy_def)
  next
    case (Some c)
    with ok have "conn_at w i c" by (simp add: worker_ok_def)
    with Some show ?thesis
      by (cases e) (auto simp: conn_at_def conn_ok_def send_ok_def recv_ok_def under_way_def conn_busy_def)
  qed
qed

lemma requests_bounded_witness:
  "cq_list (w_workq busy_worker) = [(0, WORK_SEND)] \<and> conn_busy busy_worker 0 WORK_SEND"
proof -
  have q: "cq_list (w_workq busy_worker) = [(0, WORK_SEND)]"
    by (simp add: cq_list_def cq_count_def demo_defs)
  with requests_bounded [OF busy_reach echo_app_ok] show ?thesis by auto
qed

section \<open>The byte stream\<close>

text \<open>
  C5. In every reachable state the bytes the kernel has taken for a connection, followed by the bytes
  the worker holds and the bytes queued behind them, are exactly the bytes the application has sent,
  in order; only once a \<open>send(2)\<close> has failed and the connection is on its way out may bytes
  be missing, and then the wire is a prefix of what was sent.
\<close>

theorem wire_carries_what_was_sent:
  assumes "net_reach app (Suc (Suc n)) m w" "well_behaved app" "0 \<le> m" "m < 1073741823"
    and "w_conns w i = Some c"
  shows "c_wire c @ content (sendW c) @ content (sendU c) = c_sent c \<or>
     (\<exists>rest. c_sent c = c_wire c @ rest) \<and>
     ((i, NEVT_SEND_ERROR) \<in> set (cq_list (w_resq w)) \<or> send_st c = SendClose)"
  using net_reach_ok [OF assms(1-4)] assms(5)
  by (simp add: worker_ok_def conn_at_def stream_ok_def)

lemma wire_carries_what_was_sent_witness:
  "c_sent busy_conn = [7, 8] \<and>
   (c_wire busy_conn @ content (sendW busy_conn) @ content (sendU busy_conn) = c_sent busy_conn \<or>
     (\<exists>rest. c_sent busy_conn = c_wire busy_conn @ rest) \<and>
     ((0, NEVT_SEND_ERROR) \<in> set (cq_list (w_resq busy_worker)) \<or> send_st busy_conn = SendClose))"
  using wire_carries_what_was_sent [OF busy_reach echo_app_ok, of 0 busy_conn]
  by (simp add: busy_worker_def) (simp add: busy_conn_def)

section \<open>The two threads\<close>

text \<open>A step of the main thread on one connection.\<close>

inductive main_step :: "'s app \<Rightarrow> nat \<Rightarrow> nat \<Rightarrow> 's worker \<Rightarrow> fault + 's worker \<Rightarrow> bool" for app n i w where
  main_in: "main_step app n i w (on_connection (Connection_OnIn app n) i w)"
| main_out: "main_step app n i w (on_connection (Connection_OnOut app n) i w)"
| main_error: "main_step app n i w (on_connection (Connection_OnError app n e) i w)"
| main_send: "int (length bs) < 1073741824 \<Longrightarrow> main_step app n i w (on_connection (Connection_send app n bs) i w)"
| main_close: "main_step app n i w (on_connection (Connection_close app n) i w)"
| main_result: "cq_read (w_resq w) = Some ((i, evt), q) \<Longrightarrow>
    main_step app n i w (DoResult app n (i, evt) (w\<lparr>w_resq := q\<rparr>))"

definition buffer_of :: "work_event \<Rightarrow> 's conn \<Rightarrow> buffer" where
  "buffer_of e c = (case e of WORK_SEND \<Rightarrow> sendW c | WORK_RECV \<Rightarrow> recvW c)"

lemma on_connection_keeps:
  assumes c: "w_conns w i = Some c" "c_id c = i" and q: "(i, e) \<in> set (cq_list (w_workq w))"
    and f: "f (c\<lparr>c_workq := w_workq w\<rparr>) = Inr c1" "ends_ok G D c1" "op_step G (c\<lparr>c_workq := w_workq w\<rparr>) c1"
    and r: "on_connection f i w = Inr w'"
  shows "\<exists>c'. w_conns w' i = Some c' \<and> buffer_of e c' = buffer_of e c"
proof -
  have uw: "under_way G (c\<lparr>c_workq := w_workq w\<rparr>) e" using q c(2) by (simp add: under_way_def)
  then have "under_way G c1 e" using f(3) extends_under_way unfolding op_step_def by blast
  then have "c_alive c1" using f(2) by (auto simp: ends_ok_def closed_ok_def conn_ok_def wired_def)
  with r c(1) f(1) have "w_conns w' i = Some c1" by (auto simp: on_connection_def settle_def Let_def)
  moreover have "buffer_of e c1 = buffer_of e c"
    using f(3) uw by (cases e) (simp_all add: buffer_of_def op_step_def)
  ultimately show ?thesis by blast
qed

lemma main_step_run:
  assumes app: "well_behaved app" and w: "worker_ok w" and c: "w_conns w i = Some c"
    and step: "main_step app (Suc (Suc n)) i w r"
  shows "\<exists>f G w1 c1. r = on_connection f i w1 \<and> w_conns w1 = w_conns w \<and> w_workq w1 = w_workq w \<and>
     f (c\<lparr>c_workq := w_workq w\<rparr>) = Inr c1 \<and> ends_ok G (dom (w_conns w)) c1 \<and> op_step G (c\<lparr>c_workq := w_workq w\<rparr>) c1"
proof -
  let ?c = "c\<lparr>c_workq := w_workq w\<rparr>"
  have ok: "conn_ok (set (answered w)) (dom (w_conns w)) ?c"
    using w c by (simp add: worker_ok_def conn_at_def)
  then have ends: "ends_ok (set (answered w)) (dom (w_conns w)) ?c" by (simp add: ends_ok_def)
  have direct: ?thesis if "r = on_connection f i w"
    "\<exists>c1. f ?c = Inr c1 \<and> ends_ok (set (answered w)) (dom (w_conns w)) c1 \<and> op_step (set (answered w)) ?c c1" for f
    using that by blast
  from step show ?thesis
  proof (cases rule: main_step.cases)
    case main_in show ?thesis by (rule direct [OF main_in OnIn_ok(1) [OF app ok]])
  next
    case main_out show ?thesis by (rule direct [OF main_out OnIn_ok(2) [OF app ok]])
  next
    case (main_error e) show ?thesis by (rule direct [OF main_error OnError_ok [OF app ok]])
  next
    case (main_send bs)
    have "call_fits (PSend bs)" using main_send(2) by simp
    from call_ok [OF app ends this, of n] show ?thesis by (intro direct [OF main_send(1)]) (simp add: Connection_send_def)
  next
    case main_close
    have "call_fits PClose" by simp
    from call_ok [OF app ends this, of n] show ?thesis by (intro direct [OF main_close]) (simp add: Connection_close_def)
  next
    case (main_result evt q)
    let ?w1 = "w\<lparr>w_resq := q\<rparr>"
    obtain d k where d: "w_conns w i = Some d"
      "wired (set (answered ?w1)) (dom (w_conns w)) (d\<lparr>c_workq := w_workq w\<rparr>)"
      "send_pre (set (answered ?w1)) evt (d\<lparr>c_workq := w_workq w\<rparr>)"
      "recv_pre (set (answered ?w1)) evt (d\<lparr>c_workq := w_workq w\<rparr>)"
      "idle_recv_empty (d\<lparr>c_workq := w_workq w\<rparr>)"
      using pop_result [OF w main_result(2)] by metis
    have "d = c" using c d(1) by simp
    from event_ok [OF app d(2-5), of n] this obtain c1 where
      "OnEvent app (Suc (Suc n)) evt ?c = Inr c1" "ends_ok (set (answered ?w1)) (dom (w_conns w)) c1"
      "op_step (set (answered ?w1)) ?c c1" by blast
    moreover have "r = on_connection (OnEvent app (Suc (Suc n)) evt) i ?w1" using main_result(1) by (simp add: DoResult_def)
    moreover have "w_conns ?w1 = w_conns w" "w_workq ?w1 = w_workq w" by simp_all
    ultimately show ?thesis by blast
  qed
qed

text \<open>
  C7. While a request of a connection waits for the worker thread or is being served by it, nothing the main
  thread does to that connection, from its events, the application's calls or other results, moves
  or changes the buffer the worker reads or fills, nor deletes the connection: the unlocked
  sharing of the two working buffers is free of races.
\<close>

theorem working_buffer_untouched:
  assumes "net_reach app (Suc (Suc n)) m w" "well_behaved app" "0 \<le> m" "m < 1073741823"
    and "main_step app (Suc (Suc n)) i w (Inr w')" "w_conns w i = Some c" "(i, e) \<in> set (cq_list (w_workq w))"
  shows "\<exists>c'. w_conns w' i = Some c' \<and> buffer_of e c' = buffer_of e c"
proof -
  have w: "worker_ok w" by (rule net_reach_ok [OF assms(1-4)])
  then have id: "c_id c = i" using assms(6) by (simp add: worker_ok_def conn_at_def)
  obtain f G w1 c1 where f: "Inr w' = on_connection f i w1" "w_conns w1 = w_conns w" "w_workq w1 = w_workq w"
     "f (c\<lparr>c_workq := w_workq w\<rparr>) = Inr c1" "ends_ok G (dom (w_conns w)) c1" "op_step G (c\<lparr>c_workq := w_workq w\<rparr>) c1"
    using main_step_run [OF assms(2) w assms(6,5)] by blast
  then show ?thesis
    using on_connection_keeps [of w1 i c e f c1 G "dom (w_conns w)" w'] assms(6,7) id by simp
qed

lemma working_buffer_untouched_witness:
  "\<exists>w' c'. on_connection (Connection_send echo_app 2 [9]) 0 busy_worker = Inr w' \<and>
     w_conns w' 0 = Some c' \<and> sendW c' = sendW busy_conn"
proof -
  have q: "(0, WORK_SEND) \<in> set (cq_list (w_workq busy_worker))"
    by (simp add: cq_list_def cq_count_def demo_defs)
  have c: "w_conns busy_worker 0 = Some busy_conn" by (simp add: busy_worker_def)
  have "main_step echo_app (Suc (Suc 0)) 0 busy_worker
      (on_connection (Connection_send echo_app (Suc (Suc 0)) [9]) 0 busy_worker)"
    by (rule main_send) simp
  moreover have "net_step echo_app (Suc (Suc 0)) busy_worker
      (on_connection (Connection_send echo_app (Suc (Suc 0)) [9]) 0 busy_worker)"
    by (rule net_send) (simp_all add: c)
  then obtain w' where "on_connection (Connection_send echo_app (Suc (Suc 0)) [9]) 0 busy_worker = Inr w'"
    using on_connection_ok [OF net_reach_ok [OF busy_reach echo_app_ok], of 0 "Connection_send echo_app (Suc (Suc 0)) [9]"]
      call_ok [OF echo_app_ok, of _ _ _ "PSend [9]" 0] c
    unfolding Connection_send_def ends_ok_def by auto
  ultimately have "\<exists>c'. w_conns w' 0 = Some c' \<and> buffer_of WORK_SEND c' = buffer_of WORK_SEND busy_conn"
    using working_buffer_untouched [OF busy_reach echo_app_ok _ _ _ c q, where n = 0 and w' = w'] by simp
  with \<open>on_connection _ 0 busy_worker = Inr w'\<close> show ?thesis by (auto simp: buffer_of_def numeral_2_eq_2)
qed

section \<open>A message on its way\<close>

text \<open>\<open>Connection::Send\<close> on an idle connection hands the bytes to the worker at once.\<close>

lemma idle_Send:
  assumes c: "conn_ok {} D c" "send_st c = SendNone" "cq_list (c_workq c) = []"
    and fits: "b_offset (sendW c) + b_offset (sendU c) + int (length bs) \<le> b_size (sendW c)"
  shows "\<exists>c'. Connection_send app (Suc n) bs c = Inr c' \<and> wired {} D c' \<and> send_st c' = Sending \<and>
     cq_list (c_workq c') = [(c_id c, WORK_SEND)] \<and> c_id c' = c_id c \<and>
     content (sendW c') = content (sendW c) @ content (sendU c) @ bs \<and> content (sendU c') = [] \<and>
     c_wire c' = c_wire c \<and> c_sent c' = c_sent c @ bs"
proof -
  have w: "wired {} D c" "\<not> under_way {} c WORK_RECV" "\<not> under_way {} c WORK_SEND"
    using c by (auto simp: conn_ok_def under_way_def)
  then have b: "buf_ok (sendW c)" "buf_ok (sendU c)" "b_size (sendW c) = b_size (sendU c)"
      "b_size (sendU c) < 1073741824" "c_pipe c" "c_alive c"
    by (auto simp: wired_def bufs_ok_def)
  have le: "b_offset (sendU c) + int (length bs) \<le> b_size (sendU c)" "0 \<le> b_offset (sendU c)"
    using b fits by (auto simp: buf_ok_def)
  then have no_wrap: "s32 (b_offset (sendU c) + int (length bs)) = b_offset (sendU c) + int (length bs)"
    using b(4) by (intro s32_nonneg_id) linarith+
  obtain u where u: "buf_append bs (sendU c) = Inr u" "buf_ok u" "content u = content (sendU c) @ bs"
      "b_size u = b_size (sendU c)" "b_offset u = b_offset (sendU c) + int (length bs)"
    using buf_append_ok [OF b(2) le(1)] by metis
  define c1 where "c1 = c\<lparr>sendU := u, c_sent := c_sent c @ bs\<rparr>"
  have c1: "wired {} D c1" "\<not> under_way {} c1 WORK_SEND" "\<not> under_way {} c1 WORK_RECV"
    using w u b by (simp_all add: c1_def wired_def bufs_ok_def under_way_def)
  have "b_offset (sendW c1) + b_offset (sendU c1) \<le> b_size (sendW c1)"
    using fits u(5) by (simp add: c1_def)
  then obtain c2 where c2: "BeginSend c1 = Inr (True, c2)" "begun {} D c1 c2"
    using BeginSend_fits [OF c1(1,2)] by blast
  let ?c = "ChangeSendState Sending c2"
  have q: "cq_list (c_workq c2) = [(c_id c, WORK_SEND)]"
  proof -
    obtain L where L: "cq_list (c_workq c2) = L" "set L \<subseteq> {c_id c} \<times> UNIV"
      using c2(2) c(3) by (auto simp: begun_def extends_def c1_def)
    have m: "(c_id c, WORK_SEND) \<in> set L" "(c_id c, WORK_RECV) \<notin> set L" "distinct L"
      using c2(2) c1(3) L(1) by (auto simp: begun_def under_way_def c1_def wired_def extends_def)
    have "x = (c_id c, WORK_SEND)" if x: "x \<in> set L" for x
    proof (cases x)
      case (Pair j e)
      with x L(2) m(2) show ?thesis by (cases e) auto
    qed
    with m(3) have "L = [(c_id c, WORK_SEND)] \<or> L = []"
      by (cases L; cases "tl L") auto
    with m(1) L(1) show ?thesis by auto
  qed
  have st: "send_machine_OnEvent NEVT_SEND c1 = Inr ?c"
    using c(2) c2(1) by (simp add: send_machine_OnEvent_def SendNone_OnEvent_def begin_send_to_def c1_def)
  have recv: "recv_machine_OnEvent p NEVT_SEND d = Inr d" for p and d :: "'a conn"
    by (cases "recv_st d") (simp_all add: recv_machine_OnEvent_def recv_handlers)
  have "Connection_send app (Suc n) bs c = Inr ?c"
    using b le no_wrap u(1) st recv c2(2) c1(1)
    by (simp add: Connection_send_def ISession_call_def Connection_Send_def OnEvent.simps c1_def [symmetric]
        Let_def wired_def begun_def ChangeSendState_def)
  moreover have "wired {} D ?c \<and> send_st ?c = Sending \<and> cq_list (c_workq ?c) = [(c_id c, WORK_SEND)] \<and>
     c_id ?c = c_id c \<and> content (sendW ?c) = content (sendW c) @ content (sendU c) @ bs \<and>
     content (sendU ?c) = [] \<and> c_wire ?c = c_wire c \<and> c_sent ?c = c_sent c @ bs"
    using c2(2) q u(3)
    by (auto simp: begun_def wired_def bufs_ok_def ChangeSendState_def extends_def c1_def)
  ultimately show ?thesis by blast
qed

lemma OnSend_all:
  assumes "buf_ok (sendW c)" "0 < b_offset (sendW c)"
  shows "Connection_OnSend [SendTook (b_offset (sendW c))] c =
     Inr (WRET_DONE, c\<lparr>sendW := buf_consume (b_offset (sendW c)) (sendW c), c_wire := c_wire c @ content (sendW c)\<rparr>)"
  using assms
  by (simp add: Connection_OnSend_def send_loop.simps content_def Let_def)

lemma OnEvent_send_done:
  assumes "send_st c = Sending" "c_alive c"
  shows "OnEvent app (Suc n) NEVT_SEND_DONE c = Inr (c\<lparr>send_st := SendNone\<rparr>)"
proof -
  have "recv_machine_OnEvent p NEVT_SEND_DONE d = Inr d" for p and d :: "'a conn"
    by (cases "recv_st d") (simp_all add: recv_machine_OnEvent_def recv_handlers)
  with assms show ?thesis
    by (simp add: OnEvent.simps send_machine_OnEvent_def Sending_OnEvent_def ChangeSendState_def Let_def)
qed

text \<open>
  C33. In a state reachable with a well-behaved application, let the send machine of a connection be idle and both
  queues of its worker be empty, and let the message be nonempty and fit what is free of the send buffer. Then it is on the wire after
  one turn of the worker in which one call of \<open>send\<close> takes all the bytes it is offered, and after the result has
  been processed the connection is idle again: everything ever sent has been transmitted.
\<close>

theorem message_reaches_the_wire:
  assumes "net_reach app (Suc (Suc n)) m w" "well_behaved app" "0 \<le> m" "m < 1073741823"
    and c: "w_conns w i = Some c" "send_st c = SendNone" and bs: "bs \<noteq> []"
    and idle: "cq_list (w_workq w) = []" "cq_list (w_resq w) = []"
    and fits: "b_offset (sendW c) + b_offset (sendU c) + int (length bs) \<le> b_size (sendW c)"
  shows "\<exists>w1 w2 w3 c3.
     on_connection (Connection_send app (Suc (Suc n)) bs) i w = Inr w1 \<and>
     ThreadProc_turn ros [SendTook (b_offset (sendW c) + b_offset (sendU c) + int (length bs))] w1 = Inr w2 \<and>
     Process app (Suc (Suc n)) tick frame [now] w2 = Inr w3 \<and>
     w_conns w3 i = Some c3 \<and> send_st c3 = SendNone \<and>
     c_wire c3 = c_sent c @ bs \<and> c_sent c3 = c_sent c @ bs"
proof -
  have w: "worker_ok w" by (rule net_reach_ok [OF assms(1-4)])
  then have books: "books_ok w" and at: "conn_at w i c" using c(1) by (simp_all add: worker_ok_def)
  have G: "answered w = []" using idle(2) by (simp add: answered_def)
  have id: "c_id c = i" using at by (simp add: conn_at_def)
  have exact: "c_wire c @ content (sendW c) @ content (sendU c) = c_sent c"
    using at c(2) idle(2) by (auto simp: conn_at_def stream_ok_def)
  let ?c = "c\<lparr>c_workq := w_workq w\<rparr>" and ?D = "dom (w_conns w)"
  have ok: "conn_ok {} ?D ?c" using at G by (simp add: conn_at_def)
  obtain c1 where c1: "Connection_send app (Suc (Suc n)) bs ?c = Inr c1" "wired {} ?D c1" "send_st c1 = Sending"
      "cq_list (c_workq c1) = [(i, WORK_SEND)]"
      "content (sendW c1) = content (sendW c) @ content (sendU c) @ bs" "content (sendU c1) = []"
      "c_wire c1 = c_wire c" "c_sent c1 = c_sent c @ bs"
    using idle_Send [OF ok, of bs app "Suc n"] c(2) idle(1) fits id by auto
  define w1 where "w1 = w\<lparr>w_workq := c_workq c1, w_conns := (w_conns w)(i \<mapsto> c1)\<rparr>"
  have alive: "c_alive c1" using c1(2) by (simp add: wired_def)
  have s1: "on_connection (Connection_send app (Suc (Suc n)) bs) i w = Inr w1"
    using c(1) c1(1) alive by (simp add: on_connection_def settle_def w1_def)
  have b: "buf_ok (sendW c)" "buf_ok (sendU c)" "buf_ok (sendW c1)"
    using ok c1(2) by (simp_all add: conn_ok_def wired_def bufs_ok_def)
  let ?k = "b_offset (sendW c) + b_offset (sendU c) + int (length bs)"
  have len: "nat (b_offset (sendW c1)) = nat (b_offset (sendW c)) + (nat (b_offset (sendU c)) + length bs)"
    using c1(5) b buf_okD(1) by (metis length_append)
  have k: "?k = b_offset (sendW c1)" "0 < b_offset (sendW c1)"
  proof -
    have "0 < length bs" using bs by simp
    moreover have "0 \<le> b_offset (sendW c)" "0 \<le> b_offset (sendU c)" "0 \<le> b_offset (sendW c1)"
      using b by (simp_all add: buf_ok_def)
    ultimately show "?k = b_offset (sendW c1)" "0 < b_offset (sendW c1)"
      using len by linarith+
  qed
  have inv1: "cq_inv (c_workq c1)" using c1(2) by (simp add: wired_def)
  obtain q where q: "cq_read (c_workq c1) = Some ((i, WORK_SEND), q)" "cq_list q = []" "cq_inv q"
  proof -
    obtain x q where "cq_read (c_workq c1) = Some (x, q)"
      using cq.deq_empty [OF inv1] c1(4) by (cases "cq_read (c_workq c1)") auto
    with cq.deq_some [OF inv1 this] c1(4) that show ?thesis by auto
  qed
  have card: "0 < card ?D" using books c(1) by (auto simp: books_ok_def card_gt_0_iff)
  then have room: "cq_inv (w_resq w)" "length (cq_list (w_resq w)) < cq_capacity (w_resq w)"
    using books idle(2) by (auto simp: books_ok_def)
  then obtain rq where rq: "cq_push (i, NEVT_SEND_DONE) (w_resq w) = Inr rq" "cq_inv rq"
      "cq_list rq = [(i, NEVT_SEND_DONE)]"
    using cq.enq_room [OF room, of "(i, NEVT_SEND_DONE)"] idle(2) by auto
  define c2 where "c2 = c1\<lparr>sendW := buf_consume ?k (sendW c1), c_wire := c_wire c1 @ content (sendW c1)\<rparr>"
  define w2 where "w2 = w1\<lparr>w_workq := q, w_conns := (w_conns w1)(i \<mapsto> c2), w_resq := rq\<rparr>"
  have s2: "ThreadProc_turn ros [SendTook ?k] w1 = Inr w2"
    using q(1) rq(1) OnSend_all [OF b(3) k(2)] k(1)
    by (simp add: ThreadProc_turn_def DoRequest_def w1_def w2_def c2_def)
  obtain rq' where rq': "cq_read rq = Some ((i, NEVT_SEND_DONE), rq')" "cq_list rq' = []" "cq_inv rq'"
  proof -
    obtain x q where "cq_read rq = Some (x, q)"
      using cq.deq_empty [OF rq(2)] rq(3) by (cases "cq_read rq") auto
    with cq.deq_some [OF rq(2) this] rq(3) that show ?thesis by auto
  qed
  define c3 where "c3 = c2\<lparr>c_workq := q, send_st := SendNone\<rparr>"
  define w3 where "w3 = w2\<lparr>w_resq := rq', w_conns := (w_conns w2)(i \<mapsto> c3)\<rparr>"
  have d: "DoResult app (Suc (Suc n)) (i, NEVT_SEND_DONE) (w2\<lparr>w_resq := rq'\<rparr>) = Inr w3"
    using alive c1(3) OnEvent_send_done [of "c2\<lparr>c_workq := q\<rparr>" app "Suc n"]
    by (simp add: DoResult_def on_connection_def settle_def Let_def w3_def w2_def c3_def c2_def w1_def)
  have "cq_read (w_resq w3) = None" using cq.deq_empty [OF rq'(3)] rq'(2) by (simp add: w3_def)
  then have s3: "Process app (Suc (Suc n)) tick frame [now] w2 = Inr w3"
    using d rq'(1)
    by (subst Process_def, subst process_loop.simps) (simp add: process_loop.simps w2_def)
  have "w_conns w3 i = Some c3" "send_st c3 = SendNone" "c_wire c3 = c_sent c @ bs" "c_sent c3 = c_sent c @ bs"
    using c1(5-8) by (simp_all add: w3_def c3_def c2_def exact [symmetric])
  with s1 s2 s3 show ?thesis by blast
qed

lemma message_reaches_the_wire_witness:
  "\<exists>w1 w2 w3 c3.
     on_connection (Connection_send echo_app 2 [7, 8]) 0 idle_worker = Inr w1 \<and>
     ThreadProc_turn [] [SendTook 2] w1 = Inr w2 \<and>
     Process echo_app 2 0 10 [5] w2 = Inr w3 \<and>
     w_conns w3 0 = Some c3 \<and> send_st c3 = SendNone \<and> c_wire c3 = [7, 8] \<and> c_sent c3 = [7, 8]"
proof -
  have "cq_list (w_workq idle_worker) = []" "cq_list (w_resq idle_worker) = []"
    "w_conns idle_worker 0 = Some idle_conn" "send_st idle_conn = SendNone"
    "b_offset (sendW idle_conn) + b_offset (sendU idle_conn) + int (length [7, 8 :: byte]) = 2"
    "b_size (sendW idle_conn) = 4" "c_sent idle_conn = []"
    by (simp_all add: cq_list_def cq_count_def demo_defs)
  with message_reaches_the_wire [OF idle_reach echo_app_ok, where n = 0 and i = 0 and c = idle_conn and bs = "[7, 8]"
      and ros = "[]" and tick = 0 and frame = 10 and now = 5]
  show ?thesis by (simp add: numeral_2_eq_2)
qed

end
