(* ===== verification/NetFindings.thy ===== *)
theory NetFindings
  imports NetProps
begin

text \<open>
  Behaviours of the network layer that its own design does not intend, each as a run of the model: what
  happens when a session closes its connection from inside a callback, when a connection is closed just
  after its socket became writable, and when a stream ends or is malformed.
\<close>

section \<open>Closing while the socket is reported writable\<close>

definition ready_worker :: "byte list worker" where
  "ready_worker = busy_worker\<lparr>w_conns := [0 \<mapsto> busy_conn\<lparr>send_st := SendingReady\<rparr>]\<rparr>"

definition closing_conn :: "byte list conn" where
  "closing_conn = busy_conn\<lparr>send_st := SendingWaitClose, recv_st := RecvClose\<rparr>"

definition closing_worker :: "byte list worker" where
  "closing_worker = busy_worker\<lparr>w_conns := [0 \<mapsto> closing_conn]\<rparr>"

definition drained_conn :: "byte list conn" where
  "drained_conn = closing_conn\<lparr>sendW := \<lparr>b_data = [7, 8, 0, 0], b_size = 4, b_offset = 0\<rparr>, c_wire := [7, 8]\<rparr>"

definition drained_worker :: "byte list worker" where
  "drained_worker = closing_worker\<lparr>w_conns := [0 \<mapsto> drained_conn], w_workq := busy_workq\<lparr>q_front := 1\<rparr>,
     w_resq := \<lparr>q_data = [(0, NEVT_SEND_DONE), (0, NEVT_SEND), (0, NEVT_SEND)], q_front = 0, q_tail = 1, q_size = 3\<rparr>\<rparr>"

definition doomed_conn :: "byte list conn" where
  "doomed_conn = drained_conn\<lparr>send_st := SendWaitClose, c_workq := busy_workq\<lparr>q_front := 1, q_tail := 2\<rparr>\<rparr>"

definition doomed_worker :: "byte list worker" where
  "doomed_worker = drained_worker\<lparr>w_conns := [0 \<mapsto> doomed_conn], w_workq := busy_workq\<lparr>q_front := 1, q_tail := 2\<rparr>,
     w_resq := (w_resq drained_worker)\<lparr>q_front := 1\<rparr>\<rparr>"

lemmas doom_defs = ready_worker_def closing_conn_def closing_worker_def drained_conn_def drained_worker_def
  doomed_conn_def doomed_worker_def demo_defs

lemmas run_event = OnEvent.simps send_machine_OnEvent_def send_handlers recv_machine_OnEvent_def recv_handlers
  ChangeSendState_def ChangeRecvState_def

lemma ready_reach: "net_reach echo_app (Suc (Suc n)) 1 ready_worker"
proof -
  have "on_connection (Connection_OnOut echo_app (Suc (Suc n))) 0 busy_worker = Inr ready_worker"
    by (simp add: on_connection_def Connection_OnOut_def run_event settle_def doom_defs)
  then have "net_step echo_app (Suc (Suc n)) busy_worker (Inr ready_worker)"
    using net_out [of busy_worker 0 echo_app "Suc (Suc n)"] by (simp add: busy_worker_def)
  with busy_reach show ?thesis by (rule net_next)
qed

lemma closing_reach: "net_reach echo_app (Suc (Suc n)) 1 closing_worker"
proof -
  have "on_connection (Connection_close echo_app (Suc (Suc n))) 0 ready_worker = Inr closing_worker"
    by (simp add: on_connection_def Connection_close_def ISession_call_def Connection_Close_def run_event
        settle_def doom_defs)
  then have "net_step echo_app (Suc (Suc n)) ready_worker (Inr closing_worker)"
    using net_close [of ready_worker 0 echo_app "Suc (Suc n)"] by (simp add: ready_worker_def)
  with ready_reach show ?thesis by (rule net_next)
qed

lemma drained_reach: "net_reach echo_app (Suc (Suc n)) 1 drained_worker"
proof -
  have "ThreadProc_turn [RecvAgain] [SendTook 2] closing_worker = Inr drained_worker"
    by (simp add: ThreadProc_turn_def cq_read_def cq_is_empty_def DoRequest_def Connection_OnSend_def Let_def
        send_loop.simps buf_consume_def slice_def cq_push_def cq_is_full_def doom_defs)
  moreover have "net_step echo_app (Suc (Suc n)) closing_worker (ThreadProc_turn [RecvAgain] [SendTook 2] closing_worker)"
    by (rule net_work) (auto simp: cq_read_def cq_is_empty_def doom_defs)
  ultimately show ?thesis using net_next [OF closing_reach] by simp
qed

lemma doomed_reach: "net_reach echo_app (Suc (Suc n)) 1 doomed_worker"
proof -
  have r: "cq_read (w_resq drained_worker) = Some ((0, NEVT_SEND_DONE), (w_resq drained_worker)\<lparr>q_front := 1\<rparr>)"
    by (simp add: cq_read_def cq_is_empty_def drained_worker_def)
  have "DoResult echo_app (Suc (Suc n)) (0, NEVT_SEND_DONE)
      (drained_worker\<lparr>w_resq := (w_resq drained_worker)\<lparr>q_front := 1\<rparr>\<rparr>) = Inr doomed_worker"
    by (simp add: DoResult_def Let_def on_connection_def run_event begin_send_to_def BeginSend_def NetWorker_Send_def
        cq_push_def cq_is_full_def settle_def doom_defs)
  with net_result [OF r, of echo_app "Suc (Suc n)"] net_next [OF drained_reach] show ?thesis
    by simp
qed

text \<open>
  The one assertion left in C1 is reachable: a session that closes a connection whose socket was
  reported writable while a send was under way ends the whole process. \<open>SendingReady\<close> goes to
  \<open>SendingWaitClose\<close>, whose \<open>SEND_DONE\<close> starts another send although nothing is queued, and the
  worker asserts that there is something to send.
\<close>

lemma close_when_writable_aborts:
  "\<exists>w. net_reach echo_app 2 1 w \<and> well_behaved echo_app \<and>
     (\<exists>q. cq_read (w_workq w) = Some ((0, WORK_SEND), q)) \<and>
     (\<forall>ros sos. ThreadProc_turn ros sos w = Inl (AssertFail ''send buffer is empty''))"
proof -
  have "cq_read (w_workq doomed_worker) = Some ((0, WORK_SEND), (w_workq doomed_worker)\<lparr>q_front := 2\<rparr>)"
    by (simp add: cq_read_def cq_is_empty_def doom_defs)
  moreover have "ThreadProc_turn ros sos doomed_worker = Inl (AssertFail ''send buffer is empty'')" for ros sos
    by (simp add: ThreadProc_turn_def cq_read_def cq_is_empty_def DoRequest_def Connection_OnSend_def doom_defs)
  ultimately show ?thesis
    using doomed_reach [of 0] echo_app_ok by (auto simp: numeral_2_eq_2 intro!: exI [of _ doomed_worker])
qed

text \<open>So does an empty message on an idle connection.\<close>

lemma empty_send_aborts:
  "\<exists>w. on_connection (Connection_send echo_app 2 []) 0 idle_worker = Inr w \<and>
     ThreadProc_turn ros sos w = Inl (AssertFail ''send buffer is empty'')"
  by (simp add: on_connection_def Connection_send_def ISession_call_def Connection_Send_def numeral_2_eq_2
      buf_append_def memcpy_in_def put_def run_event begin_send_to_def BeginSend_def NetWorker_Send_def
      cq_push_def cq_is_full_def settle_def demo_defs s32_def ThreadProc_turn_def cq_read_def cq_is_empty_def
      DoRequest_def Connection_OnSend_def Let_def live_def)

section \<open>Closing from a callback\<close>

definition closing_app :: "byte list app" where
  "closing_app = \<lparr>app_parser = (\<lambda>bs. if bs = [] then 0 else 1), app_react = (\<lambda>cb s. (s, [PClose]))\<rparr>"

text \<open>
  A session that calls \<open>Close\<close> again when it is told of the end recurses without bound, however much
  stack there is: the machines are still in their final states, so each \<open>Close\<close> runs
  \<open>OnClose\<close> anew.
\<close>

lemma close_in_OnDisconnected_diverges:
  "OnEvent closing_app n NEVT_CLOSE (idle_conn\<lparr>send_st := SendClose, recv_st := RecvClose\<rparr>) = Inl OutOfFuel"
proof -
  let ?c = "idle_conn\<lparr>send_st := SendClose, recv_st := RecvClose\<rparr>"
  show ?thesis
  proof (induction n)
    case 0
    then show ?case by (simp add: OnEvent.simps)
  next
    case (Suc n)
    have c: "c_session ?c = Some []" "c_pipe ?c" "?c\<lparr>c_session := Some []\<rparr> = ?c"
      by (simp_all add: demo_defs)
    have react: "app_react closing_app CbDisconnected [] = ([], [PClose])" by (simp add: closing_app_def)
    have "deliver closing_app (OnEvent closing_app n) CbDisconnected ?c = Inl OutOfFuel"
      unfolding deliver_def c(1) using Suc
      by (simp only: react option.case Let_def prod.case c(3) run_calls.simps ISession_call_def c(2)
          Connection_Close_def c(1) if_True pipe_call.case option.distinct if_False res_bind_Inl)
    then show ?case
      by (simp add: run_event OnClose_def Let_def) (simp add: demo_defs)
  qed
qed

text \<open>A session that calls \<open>Close\<close> from \<open>OnError\<close> makes \<open>OnError\<close> use the deleted connection.\<close>

definition close_on_error :: "byte list app" where
  "close_on_error = \<lparr>app_parser = (\<lambda>bs. 0), app_react = (\<lambda>cb s. case cb of CbError e \<Rightarrow> (s, [PClose]) | _ \<Rightarrow> (s, []))\<rparr>"

theorem close_in_OnError_use_after_free:
  "Connection_OnError close_on_error (Suc (Suc (Suc n))) e idle_conn = Inl UseAfterFree"
  by (simp add: Connection_OnError_def deliver_def close_on_error_def ISession_call_def Connection_Close_def
      run_event OnClose_def live_def demo_defs)

text \<open>A \<open>Close\<close> from \<open>OnRecv\<close> is lost: the connection stays open, goes on reading, and no longer sends.\<close>

definition close_on_recv :: "byte list app" where
  "close_on_recv = \<lparr>app_parser = (\<lambda>bs. 1), app_react = (\<lambda>cb s. case cb of CbRecv p \<Rightarrow> (s, [PClose]) | _ \<Rightarrow> (s, []))\<rparr>"

definition received_conn :: "byte list conn" where
  "received_conn = idle_conn\<lparr>recv_st := Recving, recvW := \<lparr>b_data = [5, 0, 0, 0], b_size = 4, b_offset = 1\<rparr>\<rparr>"

lemma close_in_OnRecv_lost:
  "\<exists>c. OnEvent close_on_recv (Suc (Suc (Suc n))) NEVT_RECV_DONE received_conn = Inr c \<and>
     c_alive c \<and> recv_st c = RecvNone \<and> send_st c = SendClose"
  by (simp add: received_conn_def run_event ProcessPacket_def content_def buf_append_def memcpy_in_def put_def
      packet_loop.simps slice_def deliver_def close_on_recv_def ISession_call_def Connection_Close_def Let_def
      buf_consume_def live_def demo_defs s32_def numeral_eq_Suc)

section \<open>The end of a stream\<close>

text \<open>A malformed packet stops the receive machine for good, but nobody closes the connection.\<close>

definition reject_app :: "byte list app" where
  "reject_app = \<lparr>app_parser = (\<lambda>bs. -1), app_react = (\<lambda>cb s. (s, []))\<rparr>"

lemma malformed_packet_stays_open:
  "\<exists>c. OnEvent reject_app (Suc (Suc n)) NEVT_RECV_DONE received_conn = Inr c \<and>
     c_alive c \<and> recv_st c = RecvClose \<and> send_st c = SendNone \<and>
     Connection_OnIn reject_app (Suc (Suc n)) c = Inr c \<and> Connection_OnOut reject_app (Suc (Suc n)) c = Inr c"
  by (simp add: received_conn_def run_event ProcessPacket_def content_def buf_append_def memcpy_in_def put_def
      packet_loop.simps slice_def reject_app_def Let_def live_def demo_defs s32_def numeral_eq_Suc
      Connection_OnIn_def Connection_OnOut_def)

text \<open>Bytes read just before the peer's end of stream are dropped: their count is never stored.\<close>

lemma eof_discards_bytes:
  "\<exists>c. Connection_OnRecv [RecvBytes [1, 2], RecvEof] idle_conn = Inr (WRET_CLOSE, c) \<and> content (recvW c) = []"
  by (simp add: Connection_OnRecv_def recv_loop.simps memcpy_in_def put_def content_def demo_defs Let_def)

text \<open>The addition in \<open>Send\<close> wraps, so a huge size passes the test and is copied out of bounds.\<close>

lemma huge_send_wraps:
  assumes "b_offset (sendU c) = 1" "b_size (sendU c) = 4" "length (b_data (sendU c)) = 4"
    and "length bs = 2147483647"
  shows "Connection_Send oe bs c = Inl OutOfBounds"
  using assms by (simp add: Connection_Send_def buf_append_def memcpy_in_def s32_def)

end
