(* ===== verification/PacketStream.thy ===== *)
theory PacketStream
  imports Connection
begin

text \<open>
  The reassembly of packets from a byte stream. \<open>frames\<close> is the specification: the packets a
  parser finds in a stream and what is left over. A parser is a client of the connection through
  \<open>IPacketParser::ParsePacket\<close> (\<open>src/src/API/IKernel.h\<close>); the locale \<open>stream_parser\<close> states what
  a parser must promise for the reassembly not to depend on how the network cuts the stream.
\<close>

section \<open>The packets of a stream\<close>

text \<open>
  \<open>None\<close> in the second component: the stream is malformed after the packets of the first.
\<close>

function frames :: "('a list \<Rightarrow> int) \<Rightarrow> 'a list \<Rightarrow> 'a list list \<times> 'a list option" where
  "frames p bs =
     (if bs = [] then ([], Some [])
      else if p bs = 0 then ([], Some bs)
      else if p bs < 0 \<or> length bs < nat (p bs) then ([], None)
      else (let (fs, r) = frames p (drop (nat (p bs)) bs) in (take (nat (p bs)) bs # fs, r)))"
  by pat_completeness auto
termination
  by (relation "measure (\<lambda>(p, bs). length bs)") auto

declare frames.simps [simp del]

lemma frames_Nil [simp]: "frames p [] = ([], Some [])"
  by (simp add: frames.simps)

lemma frames_wait: "p bs = 0 \<Longrightarrow> frames p bs = ([], Some bs)"
  by (simp add: frames.simps)

lemma frames_bad: "bs \<noteq> [] \<Longrightarrow> p bs < 0 \<Longrightarrow> frames p bs = ([], None)"
  by (simp add: frames.simps)

lemma frames_packet:
  assumes "0 < p bs" "p bs \<le> int (length bs)"
  shows "frames p bs = (take (nat (p bs)) bs # fst (frames p (drop (nat (p bs)) bs)),
                        snd (frames p (drop (nat (p bs)) bs)))"
  using assms by (subst frames.simps) (auto simp: split_beta)

text \<open>A whole stream is its packets and the rest, in order.\<close>

lemma frames_concat:
  "snd (frames p bs) = Some r \<Longrightarrow> concat (fst (frames p bs)) @ r = bs"
proof (induction p bs rule: frames.induct)
  case (1 p bs)
  consider "bs = []" | "p bs = 0" | "bs \<noteq> []" "p bs \<noteq> 0" "p bs < 0 \<or> length bs < nat (p bs)"
    | "bs \<noteq> []" "p bs \<noteq> 0" "\<not> (p bs < 0 \<or> length bs < nat (p bs))" by blast
  then show ?case
  proof cases
    case 4
    then have "frames p bs = (take (nat (p bs)) bs # fst (frames p (drop (nat (p bs)) bs)),
                        snd (frames p (drop (nat (p bs)) bs)))"
      by (intro frames_packet) auto
    with 1 4 show ?thesis by simp
  qed (use 1 in \<open>simp_all add: frames_wait, simp add: frames.simps\<close>)
qed

section \<open>Parsers on which cutting does not matter\<close>

locale stream_parser =
  fixes parse :: "byte list \<Rightarrow> int"
  assumes bounded: "parse bs \<le> int (length bs)"
    and stable: "bs \<noteq> [] \<Longrightarrow> parse bs \<noteq> 0 \<Longrightarrow> parse (bs @ xs) = parse bs"
begin

lemma frames_cut:
  "frames parse (bs @ xs) =
     (case snd (frames parse bs) of
        None \<Rightarrow> frames parse bs
      | Some r \<Rightarrow> (fst (frames parse bs) @ fst (frames parse (r @ xs)), snd (frames parse (r @ xs))))"
proof (induction bs rule: length_induct)
  case (1 bs)
  show ?case
  proof (cases "bs = [] \<or> parse bs = 0")
    case True
    then show ?thesis by (auto simp: frames_wait)
  next
    case False
    then have st: "parse (bs @ xs) = parse bs" "bs \<noteq> []" using stable by auto
    show ?thesis
    proof (cases "parse bs < 0")
      case True
      with st show ?thesis by (simp add: frames_bad)
    next
      case pos: False
      let ?n = "nat (parse bs)"
      have n: "0 < parse bs" "?n \<le> length bs" "parse bs \<le> int (length (bs @ xs))"
        using False pos bounded [of bs] by auto
      have "length (drop ?n bs) < length bs" using n st(2) by simp
      from "1.IH" [rule_format, OF this]
      have IH: "frames parse (drop ?n bs @ xs) =
          (case snd (frames parse (drop ?n bs)) of
             None \<Rightarrow> frames parse (drop ?n bs)
           | Some r \<Rightarrow> (fst (frames parse (drop ?n bs)) @ fst (frames parse (r @ xs)),
                        snd (frames parse (r @ xs))))" .
      have whole: "frames parse bs = (take ?n bs # fst (frames parse (drop ?n bs)), snd (frames parse (drop ?n bs)))"
        using frames_packet [of parse bs] n by simp
      have "frames parse (bs @ xs) = (take ?n bs # fst (frames parse (drop ?n bs @ xs)),
          snd (frames parse (drop ?n bs @ xs)))"
        using frames_packet [of parse "bs @ xs"] n st(1) by simp
      with IH whole show ?thesis by (simp split: option.splits)
    qed
  qed
qed

end

section \<open>\<open>ProcessPacket\<close> finds the packets\<close>

text \<open>A session that answers no packet: the callbacks are then a fold over the packets.\<close>

definition listens :: "'s app \<Rightarrow> (byte list \<Rightarrow> 's \<Rightarrow> 's) \<Rightarrow> bool" where
  "listens app f \<longleftrightarrow> (\<forall>p s. app_react app (CbRecv p) s = (f p s, []))"

definition told :: "(byte list \<Rightarrow> 's \<Rightarrow> 's) \<Rightarrow> byte list list \<Rightarrow> 's conn \<Rightarrow> 's conn" where
  "told f ps c = c\<lparr>c_session := map_option (fold f ps) (c_session c)\<rparr>"

lemma told_Nil [simp]: "told f [] c = c"
  by (cases c) (simp add: told_def option.map_ident fold_Nil [abs_def] id_def)

lemma told_simps [simp]:
  "told f qs (told f ps c) = told f (ps @ qs) c"
  "recvU (told f ps c) = recvU c" "recvW (told f ps c) = recvW c"
  "c_alive (told f ps c) = c_alive c"
  "c_session (told f ps c) = None \<longleftrightarrow> c_session c = None"
  by (cases "c_session c"; simp add: told_def)+

lemma deliver_listens:
  assumes "listens app f" "c_session c \<noteq> None"
  shows "deliver app oe (CbRecv p) c = Inr (told f [p] c)"
  using assms by (auto simp: deliver_def listens_def told_def)

lemma packet_loop_frames:
  assumes "listens app f" "c_session c \<noteq> None" "c_alive c" "\<And>bs. app_parser app bs \<le> int (length bs)"
    and "buf_ok (recvU c)" "0 \<le> pos" "pos \<le> b_offset (recvU c)"
    and "b_offset (recvU c) - pos \<le> int fuel"
  defines "fr \<equiv> frames (app_parser app) (drop (nat pos) (content (recvU c)))"
  shows "packet_loop app (deliver app oe) fuel pos c =
     Inr (map_option (\<lambda>r. b_offset (recvU c) - int (length r)) (snd fr), told f (fst fr) c)"
  using assms(2,3,5-8) unfolding fr_def
proof (induction fuel arbitrary: pos c)
  case 0
  then show ?case
    by (simp add: packet_loop.simps [where fuel = 0] buf_okD content_def)
next
  case (Suc fuel)
  let ?off = "b_offset (recvU c)" and ?d = "b_data (recvU c)"
  define bs where "bs = drop (nat pos) (content (recvU c))"
  have len: "length (content (recvU c)) = nat ?off" "nat ?off \<le> length ?d"
    using Suc.prems(3) by (auto simp: buf_okD)
  have bs: "slice ?d (nat pos) (nat (?off - pos)) = bs" "length bs = nat (?off - pos)"
    using Suc.prems(4,5) len
    by (simp_all add: slice_def bs_def content_def drop_take nat_diff_distrib)
  show ?case
  proof (cases "pos < ?off \<and> app_parser app bs > 0")
    case False
    then consider "pos = ?off" | "pos < ?off" "app_parser app bs = 0" | "pos < ?off" "app_parser app bs < 0"
      using Suc.prems(5) by linarith
    then show ?thesis
    proof cases
      case 1
      then have "drop (nat ?off) (content (recvU c)) = []" using len(1) by simp
      with 1 show ?thesis
        by (subst packet_loop.simps) simp
    next
      case 2
      then show ?thesis using bs(2)
        by (subst packet_loop.simps) (simp add: bs bs_def [symmetric] frames_wait)
    next
      case 3
      then have "bs \<noteq> []" using bs(2) by auto
      with 3 show ?thesis
        by (subst packet_loop.simps) (simp add: bs bs_def [symmetric] frames_bad Let_def)
    qed
  next
    case True
    let ?u = "app_parser app bs"
    have u: "0 < ?u" "?u \<le> int (length bs)" "pos + ?u \<le> ?off"
      using True assms(4) [of bs] bs(2) by auto
    have tk: "slice ?d (nat pos) (nat ?u) = take (nat ?u) bs"
    proof -
      have "nat ?u \<le> nat (?off - pos)" using u(3) by simp
      then show ?thesis unfolding bs(1) [symmetric] slice_def by (simp add: min_absorb1)
    qed
    have dr: "drop (nat (pos + ?u)) (content (recvU c)) = drop (nat ?u) bs"
      using u Suc.prems(4) by (simp add: bs_def nat_add_distrib add.commute)
    have "nat (pos + ?u) \<le> length ?d" using u len(2) by linarith
    moreover from Suc.IH [of "told f [take (nat ?u) bs] c" "pos + ?u"] Suc.prems u
    have "packet_loop app (deliver app oe) fuel (pos + ?u) (told f [take (nat ?u) bs] c) =
        Inr (map_option (\<lambda>r. ?off - int (length r)) (snd (frames (app_parser app) (drop (nat ?u) bs))),
             told f (take (nat ?u) bs # fst (frames (app_parser app) (drop (nat ?u) bs))) c)"
      by (simp add: dr)
    ultimately show ?thesis
      using True u Suc.prems(1,2)
      by (subst packet_loop.simps)
        (simp add: bs bs_def [symmetric] Let_def tk deliver_listens [OF assms(1)] frames_packet)
  qed
qed

lemma ProcessPacket_frames:
  assumes app: "listens app f" "\<And>bs. app_parser app bs \<le> int (length bs)"
    and c: "c_session c \<noteq> None" "c_alive c" "bufs_ok c"
    and fits: "b_offset (recvW c) + b_offset (recvU c) \<le> b_size (recvU c)" "0 < b_offset (recvW c)"
  defines "fr \<equiv> frames (app_parser app) (content (recvU c) @ content (recvW c))"
  shows "\<exists>c'. ProcessPacket app (deliver app oe) c = Inr (snd fr \<noteq> None, c') \<and>
           c_session c' = map_option (fold f (fst fr)) (c_session c) \<and> c_alive c' \<and> bufs_ok c' \<and>
           b_offset (recvW c') = 0 \<and> b_size (recvU c') = b_size (recvU c) \<and>
           (\<forall>r. snd fr = Some r \<longrightarrow> content (recvU c') = r)"
proof -
  have b: "buf_ok (recvW c)" "buf_ok (recvU c)" "b_size (recvU c) < 1073741824"
      "b_size (recvW c) = b_size (recvU c)"
    using c(3) by (auto simp: bufs_ok_def)
  have no_wrap: "s32 (b_offset (recvW c) + b_offset (recvU c)) = b_offset (recvW c) + b_offset (recvU c)"
    using b fits by (intro s32_nonneg_id) (auto simp: buf_ok_def)
  have len: "int (length (content (recvW c))) = b_offset (recvW c)"
    using b(1) fits(2) by (simp add: buf_okD)
  then obtain u where u: "buf_append (content (recvW c)) (recvU c) = Inr u" "buf_ok u"
      "content u = content (recvU c) @ content (recvW c)" "b_size u = b_size (recvU c)"
      "b_offset u = b_offset (recvU c) + b_offset (recvW c)"
    using buf_append_ok [OF b(2), of "content (recvW c)"] fits by (metis add.commute)
  define c1 where "c1 = c\<lparr>recvU := u, recvW := (recvW c)\<lparr>b_offset := 0\<rparr>\<rparr>"
  have c1: "c_session c1 \<noteq> None" "c_alive c1" "recvU c1 = u" "c_session c1 = c_session c"
    using c by (simp_all add: c1_def)
  have "0 \<le> b_offset u" using u(2) by (simp add: buf_ok_def)
  with packet_loop_frames [OF app(1) c1(1,2) app(2), of 0 "nat (b_offset u)" oe] u c1
  have run: "packet_loop app (deliver app oe) (nat (b_offset u)) 0 c1 =
      Inr (map_option (\<lambda>r. b_offset u - int (length r)) (snd fr), told f (fst fr) c1)"
    by (simp add: fr_def)
  have pp: "ProcessPacket app (deliver app oe) c =
      (case map_option (\<lambda>r. b_offset u - int (length r)) (snd fr) of
         None \<Rightarrow> Inr (False, told f (fst fr) c1)
       | Some pos \<Rightarrow> Inr (True, (told f (fst fr) c1)\<lparr>recvU := buf_consume pos u\<rparr>))"
    using fits no_wrap u(1) run by (simp add: ProcessPacket_def Let_def c1_def split: option.splits)
  have bw: "bufs_ok (told f ps c1)" for ps
    using c(3) u(2,4) b by (simp add: bufs_ok_def told_def c1_def) (simp add: buf_ok_def)
  show ?thesis
  proof (cases "snd fr")
    case None
    with pp show ?thesis
      using bw c1(2) u(4) by (simp add: told_def c1_def c(1))
  next
    case (Some r)
    from frames_concat [of "app_parser app" "content u" r] Some u(3)
    have cat: "concat (fst fr) @ r = content u" by (simp add: fr_def)
    then have "length (concat (fst fr)) + length r = nat (b_offset u)"
      using buf_okD(1) [OF u(2)] by (metis length_append)
    then have lr: "length r \<le> nat (b_offset u)"
        "nat (b_offset u - int (length r)) = length (concat (fst fr))"
      by linarith+
    have "0 \<le> b_offset u - int (length r)" using lr(1) \<open>0 \<le> b_offset u\<close> by linarith
    note eaten = buf_consume_ok [OF u(2) this]
    have "drop (nat (b_offset u - int (length r))) (concat (fst fr) @ r) = r" by (simp add: lr(2))
    then have k: "content (buf_consume (b_offset u - int (length r)) u) = r"
      using eaten(2) by (simp only: cat)
    show ?thesis
      using pp Some k eaten c1(2) u(4) bw [of "fst fr"]
      by (simp add: told_def c1_def bufs_ok_def)
  qed
qed

section \<open>The stream as a whole\<close>

text \<open>
  What the connection does with a stream that arrives in chunks: the worker leaves each one in
  \<open>_recv.worked\<close>, the main thread runs \<open>ProcessPacket\<close> on it.
\<close>

primrec feed ::
    "'s app \<Rightarrow> (NetEventType \<Rightarrow> 's conn \<Rightarrow> fault + 's conn) \<Rightarrow> byte list list \<Rightarrow> 's conn
     \<Rightarrow> fault + (bool \<times> 's conn)" where
  "feed app oe [] c = Inr (True, c)"
| "feed app oe (x # xs) c =
     res_bind (buf_append x (recvW c)) (\<lambda>w.
     res_bind (ProcessPacket app (deliver app oe) (c\<lparr>recvW := w\<rparr>)) (\<lambda>(ok, c').
     if ok then feed app oe xs c' else Inr (False, c')))"

text \<open>The receive buffer is never overfull: what is left over and the next chunk fit together.\<close>

primrec chunks_fit :: "(byte list \<Rightarrow> int) \<Rightarrow> int \<Rightarrow> byte list \<Rightarrow> byte list list \<Rightarrow> bool" where
  "chunks_fit p room rest [] \<longleftrightarrow> True"
| "chunks_fit p room rest (x # xs) \<longleftrightarrow>
     x \<noteq> [] \<and> int (length rest + length x) \<le> room \<and>
     (case snd (frames p (rest @ x)) of None \<Rightarrow> True | Some r \<Rightarrow> chunks_fit p room r xs)"

lemma append_to_empty:
  assumes "buf_ok b" "b_offset b = 0" "int (length x) \<le> b_size b"
  obtains b' where "buf_append x b = Inr b'" "buf_ok b'" "content b' = x"
    "b_size b' = b_size b" "b_offset b' = int (length x)"
proof -
  have "content b = []" using assms by (simp add: content_def)
  with buf_append_ok [of b x] assms that show ?thesis by auto
qed

context stream_parser
begin

lemma feed_frames:
  assumes app: "listens app f" "app_parser app = parse"
    and c: "c_session c \<noteq> None" "c_alive c" "bufs_ok c" "b_offset (recvW c) = 0"
    and fit: "chunks_fit parse (b_size (recvU c)) (content (recvU c)) xs"
  shows "\<exists>c'. feed app oe xs c =
             Inr (xs = [] \<or> snd (frames parse (content (recvU c) @ concat xs)) \<noteq> None, c') \<and>
           (xs \<noteq> [] \<longrightarrow> c_session c' =
              map_option (fold f (fst (frames parse (content (recvU c) @ concat xs)))) (c_session c)) \<and>
           (\<forall>r. xs \<noteq> [] \<longrightarrow> snd (frames parse (content (recvU c) @ concat xs)) = Some r \<longrightarrow>
              content (recvU c') = r)"
  using c fit
proof (induction xs arbitrary: c)
  case Nil
  then show ?case by simp
next
  case (Cons x xs)
  let ?U = "content (recvU c)"
  have x: "x \<noteq> []" "int (length ?U + length x) \<le> b_size (recvU c)"
    "\<And>r. snd (frames parse (?U @ x)) = Some r \<Longrightarrow> chunks_fit parse (b_size (recvU c)) r xs"
    using Cons.prems(5) by (auto split: option.splits)
  have b: "buf_ok (recvW c)" "buf_ok (recvU c)" "b_size (recvW c) = b_size (recvU c)"
    using Cons.prems(3) by (auto simp: bufs_ok_def)
  obtain w where w: "buf_append x (recvW c) = Inr w" "buf_ok w" "content w = x"
      "b_size w = b_size (recvW c)" "b_offset w = int (length x)"
    using append_to_empty [OF b(1) Cons.prems(4), of x] x(2) b(3) by auto
  have len: "int (length ?U) = b_offset (recvU c)" using b(2) by (simp add: buf_okD buf_ok_def)
  let ?c = "c\<lparr>recvW := w\<rparr>"
  have k: "c_session ?c \<noteq> None" "c_alive ?c" "bufs_ok ?c"
      "b_offset (recvW ?c) + b_offset (recvU ?c) \<le> b_size (recvU ?c)" "0 < b_offset (recvW ?c)"
    using Cons.prems w x len by (simp_all add: bufs_ok_def)
  have bound: "app_parser app bs \<le> int (length bs)" for bs by (simp add: app(2) bounded)
  obtain c1 where c1: "ProcessPacket app (deliver app oe) ?c = Inr (snd (frames parse (?U @ x)) \<noteq> None, c1)"
      "c_session c1 = map_option (fold f (fst (frames parse (?U @ x)))) (c_session c)" "c_alive c1"
      "bufs_ok c1" "b_offset (recvW c1) = 0" "b_size (recvU c1) = b_size (recvU c)"
      "\<And>r. snd (frames parse (?U @ x)) = Some r \<Longrightarrow> content (recvU c1) = r"
    using ProcessPacket_frames [OF app(1) bound k, of oe] w(3) by (auto simp: app(2))
  show ?case
  proof (cases "snd (frames parse (?U @ x))")
    case None
    then have "frames parse (?U @ concat (x # xs)) = frames parse (?U @ x)"
      using frames_cut [of "?U @ x" "concat xs"] by simp
    with None c1 w(1) show ?thesis by simp
  next
    case (Some r)
    have cut: "frames parse (?U @ concat (x # xs)) =
        (fst (frames parse (?U @ x)) @ fst (frames parse (r @ concat xs)), snd (frames parse (r @ concat xs)))"
      using frames_cut [of "?U @ x" "concat xs"] Some by simp
    have "c_session c1 \<noteq> None" using c1(2) Cons.prems(1) by simp
    from Cons.IH [OF this c1(3-5)] c1(6,7) x(3) Some
    obtain c2 where c2: "feed app oe xs c1 = Inr (xs = [] \<or> snd (frames parse (r @ concat xs)) \<noteq> None, c2)"
      "xs \<noteq> [] \<longrightarrow> c_session c2 = map_option (fold f (fst (frames parse (r @ concat xs)))) (c_session c1)"
      "\<forall>r'. xs \<noteq> [] \<longrightarrow> snd (frames parse (r @ concat xs)) = Some r' \<longrightarrow> content (recvU c2) = r'"
      by auto
    show ?thesis
    proof (cases "xs = []")
      case True
      with Some c1 w(1) show ?thesis by simp
    next
      case False
      with Some c1 c2 w(1) cut show ?thesis
        by (simp add: option.map_comp comp_def)
    qed
  qed
qed

end

end
