(* ===== verification/Harbor.thy ===== *)
theory Harbor
  imports PacketStream "HOL-Library.AList"
begin

text \<open>
  The node mesh: \<open>class Harbor\<close> (\<open>src/src/logic/harbor/Harbor.cpp\<close>) and \<open>class NodeSession\<close>
  (\<open>NodeSession.cpp\<close>). Sessions, listeners and protocol handlers are numbered; what the
  code does to the outside is a list of actions, in order.
\<close>

section \<open>Wire format\<close>

abbreviation (input) REPORT :: int where "REPORT \<equiv> 0"
abbreviation (input) MESSAGE :: int where "MESSAGE \<equiv> 1"
abbreviation (input) ANY_NODE :: int where "ANY_NODE \<equiv> -1"
abbreviation (input) MAX_IP_SIZE :: nat where "MAX_IP_SIZE \<equiv> 64"

record HarborHeader =
  hd_message :: int
  hd_len :: int

definition HarborHeader_bytes :: "HarborHeader \<Rightarrow> byte list" where
  "HarborHeader_bytes h = s32_bytes (hd_message h) @ s32_bytes (hd_len h)"

record NodeReport =
  nr_nodeType :: int
  nr_nodeId :: int
  nr_port :: int
  nr_hide :: bool

definition NodeReport_bytes :: "NodeReport \<Rightarrow> byte list" where
  "NodeReport_bytes r = s32_bytes (nr_nodeType r) @ s32_bytes (nr_nodeId r) @ s32_bytes (nr_port r) @
     [if nr_hide r then 1 else 0]"

text \<open>Reading an \<open>s32\<close> through a pointer cast; the packet must be long enough.\<close>

definition read_s32 :: "byte list \<Rightarrow> nat \<Rightarrow> fault + int" where
  "read_s32 bs k = (if k + 4 \<le> length bs then Inr (s32_of_bytes (slice bs k 4)) else Inl OutOfBounds)"

definition read_bool :: "byte list \<Rightarrow> nat \<Rightarrow> fault + bool" where
  "read_bool bs k = (if k < length bs then Inr (bs ! k \<noteq> 0) else Inl OutOfBounds)"

definition read_NodeReport :: "byte list \<Rightarrow> fault + NodeReport" where
  "read_NodeReport bs =
     res_bind (read_s32 bs 0) (\<lambda>t.
     res_bind (read_s32 bs 4) (\<lambda>i.
     res_bind (read_s32 bs 8) (\<lambda>p.
     res_bind (read_bool bs 12) (\<lambda>h.
     Inr \<lparr>nr_nodeType = t, nr_nodeId = i, nr_port = p, nr_hide = h\<rparr>))))"

text \<open>
  \<open>Harbor::ParsePacket\<close>, given to the connection as its \<open>IPacketParser\<close>. \<open>sizeof(HarborHeader)\<close>
  is 8; \<open>context\<close> is never null there.
\<close>

definition ParsePacket :: "byte list \<Rightarrow> int" where
  "ParsePacket bs =
     (if int (length bs) > 8
      then (let len = s32_of_bytes (slice bs 4 4) in if int (length bs) < len then 0 else len)
      else 0)"

lemma slice_s32 [simp]: "slice (s32_bytes x) 0 4 = s32_bytes x"
  by (simp add: slice_def)

lemma read_s32_at [simp]:
  "length as = k \<Longrightarrow> read_s32 (as @ s32_bytes x @ bs) k = Inr (s32 x)"
  "length as = k \<Longrightarrow> read_s32 (as @ s32_bytes x) k = Inr (s32 x)"
  by (auto simp: read_s32_def slice_def)

lemma slice_append_left: "k + n \<le> length xs \<Longrightarrow> slice (xs @ ys) k n = slice xs k n"
  by (simp add: slice_def)

interpretation harbor: stream_parser ParsePacket
proof
  fix bs xs :: "byte list"
  show "ParsePacket bs \<le> int (length bs)"
    by (simp add: ParsePacket_def Let_def)
  assume "ParsePacket bs \<noteq> 0"
  then show "ParsePacket (bs @ xs) = ParsePacket bs"
    by (auto simp: ParsePacket_def Let_def slice_append_left split: if_splits)
qed

section \<open>State\<close>

text \<open>
  \<open>_nodes[nodeType]\<close> is an association list, in the order in which the unordered map iterates;
  \<open>_handlers[nodeType]\<close> a map. \<open>hb_sessions\<close> are the \<open>NodeSession\<close> objects by their
  number. The recorded debug names have no effect and are left out.
\<close>

record node_session =
  ns_ready :: bool
  ns_nodeType :: int
  ns_nodeId :: int
  ns_connect :: bool
  ns_ip :: string
  ns_port :: int

definition NodeSession_new :: node_session where
  "NodeSession_new = \<lparr>ns_ready = False, ns_nodeType = 0, ns_nodeId = 0, ns_connect = False,
     ns_ip = [], ns_port = 0\<rparr>"

record reconnect =
  rc_session :: nat
  rc_ip :: string
  rc_port :: int
  rc_tick :: int

record harbor =
  hb_sendBuffSize :: int
  hb_recvBuffSize :: int
  hb_reconnectTick :: int
  hb_nodeType :: int
  hb_nodeId :: int
  hb_port :: int
  hb_hide :: bool
  hb_nodes :: "int \<Rightarrow> (int \<times> nat) list"
  hb_listeners :: "nat list"
  hb_handlers :: "int \<Rightarrow> int \<rightharpoonup> nat"
  hb_reconnects :: "reconnect list"
  hb_sessions :: "nat \<rightharpoonup> node_session"

datatype harbor_action =
    SessionSend nat "byte list"
  | NodeOpened nat int int bool string int
  | NodeClosed nat int int
  | HandlerCall nat int int "byte list"
  | KernelConnect string int int int nat
  | KernelListen string int int int

type_synonym harbor_result = "fault + harbor \<times> harbor_action list"

definition session_of :: "nat \<Rightarrow> harbor \<Rightarrow> fault + node_session" where
  "session_of s h = (case hb_sessions h s of None \<Rightarrow> Inl UseAfterFree | Some ns \<Rightarrow> Inr ns)"

definition set_session_of :: "nat \<Rightarrow> node_session \<Rightarrow> harbor \<Rightarrow> harbor" where
  "set_session_of s ns h = h\<lparr>hb_sessions := (hb_sessions h)(s \<mapsto> ns)\<rparr>"

text \<open>
  \<open>snprintf(buf, n, s)\<close> with \<open>s\<close> as the format: a conversion would read an argument that was
  never passed.
\<close>

fun format_text :: "string \<Rightarrow> string option" where
  "format_text [] = Some []"
| "format_text (c # cs) =
     (if c = CHR ''%''
      then (case cs of
              [] \<Rightarrow> None
            | d # ds \<Rightarrow> if d = CHR ''%'' then map_option (\<lambda>t. CHR ''%'' # t) (format_text ds) else None)
      else map_option (\<lambda>t. c # t) (format_text cs))"

definition SafeSprintf :: "nat \<Rightarrow> string \<Rightarrow> fault + string" where
  "SafeSprintf n s =
     (case format_text s of None \<Rightarrow> Inl OutOfBounds | Some t \<Rightarrow> Inr (take (n - 1) t))"

text \<open>
  \<open>Initialize\<close>, on the attributes of the \<open>harbor\<close> element: every \<open>node\<close> child is its type, name
  and optional \<open>hide\<close>; \<open>junk\<close> is what the uninitialised \<open>_nodeType\<close> holds before.
\<close>

definition Harbor_Initialize ::
    "string \<Rightarrow> int \<Rightarrow> int \<Rightarrow> int \<Rightarrow> (int \<times> string \<times> string option) list \<Rightarrow> int \<Rightarrow> int \<Rightarrow> int option
     \<Rightarrow> fault + harbor" where
  "Harbor_Initialize name sendSz recvSz wait nodes junk nodeArg portArg =
     (let (nodeType, hide) =
        fold (\<lambda>(t, n, h) (nt, hd). if n = name then (t, hd \<or> h = Some ''true'') else (nt, hd)) nodes (junk, False)
      in res_bind (oassert (nodeType > 0) ''invalid node type'') (\<lambda>_.
      Inr \<lparr>hb_sendBuffSize = sendSz, hb_recvBuffSize = recvSz, hb_reconnectTick = wait, hb_nodeType = nodeType,
           hb_nodeId = nodeArg, hb_port = (case portArg of Some p \<Rightarrow> p | None \<Rightarrow> 0), hb_hide = hide,
           hb_nodes = (\<lambda>_. []), hb_listeners = [], hb_handlers = (\<lambda>_ _. None), hb_reconnects = [],
           hb_sessions = Map.empty\<rparr>))"

section \<open>Opening, closing and messages\<close>

text \<open>The assertion of \<open>AddNodeListener\<close> is compiled under \<open>_DEBUG\<close>, which \<open>CMakeLists.txt\<close> defines in every build.\<close>

definition AddNodeListener :: "nat \<Rightarrow> harbor \<Rightarrow> fault + harbor" where
  "AddNodeListener l h =
     res_bind (oassert (l \<notin> set (hb_listeners h)) ''node listener is already add'') (\<lambda>_.
     Inr (h\<lparr>hb_listeners := hb_listeners h @ [l]\<rparr>))"

definition RegProtocolHandler :: "int \<Rightarrow> int \<Rightarrow> nat \<Rightarrow> harbor \<Rightarrow> harbor" where
  "RegProtocolHandler nodeType messageId f h =
     h\<lparr>hb_handlers := (hb_handlers h)(nodeType := (hb_handlers h nodeType)(messageId \<mapsto> f))\<rparr>"

definition OnNodeOpen :: "int \<Rightarrow> int \<Rightarrow> string \<Rightarrow> int \<Rightarrow> bool \<Rightarrow> nat \<Rightarrow> harbor \<Rightarrow> harbor \<times> harbor_action list" where
  "OnNodeOpen nodeType nodeId ip port hide s h =
     (h\<lparr>hb_nodes := (hb_nodes h)(nodeType := AList.update nodeId s (hb_nodes h nodeType))\<rparr>,
      List.map (\<lambda>l. NodeOpened l nodeType nodeId hide ip port) (hb_listeners h))"

definition OnNodeClose :: "int \<Rightarrow> int \<Rightarrow> harbor \<Rightarrow> harbor \<times> harbor_action list" where
  "OnNodeClose nodeType nodeId h =
     (h\<lparr>hb_nodes := (hb_nodes h)(nodeType := AList.delete nodeId (hb_nodes h nodeType))\<rparr>,
      List.map (\<lambda>l. NodeClosed l nodeType nodeId) (hb_listeners h))"

text \<open>
  \<open>size >= sizeof(s32)\<close> compares in \<open>size_t\<close>, so a negative \<open>size\<close> passes; \<open>context\<close> is what the
  packet holds from the pointer on.
\<close>

definition OnNodeMessage :: "int \<Rightarrow> int \<Rightarrow> byte list \<Rightarrow> int \<Rightarrow> harbor \<Rightarrow> fault + harbor_action list" where
  "OnNodeMessage nodeType nodeId context len h =
     res_bind (oassert (len mod 18446744073709551616 \<ge> 4) ''message size invalid'') (\<lambda>_.
     res_bind (read_s32 context 0) (\<lambda>messageId.
     let handler = (case hb_handlers h nodeType messageId of
                      None \<Rightarrow> hb_handlers h ANY_NODE messageId
                    | Some f \<Rightarrow> Some f) in
     Inr (case handler of None \<Rightarrow> [] | Some f \<Rightarrow> [HandlerCall f nodeType nodeId (drop 4 context)])))"

definition AddReconnect :: "int \<Rightarrow> nat \<Rightarrow> string \<Rightarrow> int \<Rightarrow> harbor \<Rightarrow> fault + harbor" where
  "AddReconnect now s ip port h =
     res_bind (SafeSprintf MAX_IP_SIZE ip) (\<lambda>ip'.
     Inr (h\<lparr>hb_reconnects := hb_reconnects h @
       [\<lparr>rc_session = s, rc_ip = ip', rc_port = port, rc_tick = now\<rparr>]\<rparr>))"

section \<open>The session\<close>

definition SetConnect :: "string \<Rightarrow> int \<Rightarrow> node_session \<Rightarrow> fault + node_session" where
  "SetConnect ip port ns =
     res_bind (SafeSprintf MAX_IP_SIZE ip) (\<lambda>ip'.
     Inr (ns\<lparr>ns_connect := True, ns_ip := ip', ns_port := port\<rparr>))"

definition report_packet :: "harbor \<Rightarrow> byte list" where
  "report_packet h =
     HarborHeader_bytes \<lparr>hd_message = REPORT, hd_len = 21\<rparr> @
     NodeReport_bytes \<lparr>nr_nodeType = hb_nodeType h, nr_nodeId = hb_nodeId h, nr_port = hb_port h,
       nr_hide = hb_hide h\<rparr>"

definition NodeSession_OnConnected :: "nat \<Rightarrow> harbor \<Rightarrow> harbor_result" where
  "NodeSession_OnConnected s h =
     res_bind (session_of s h) (\<lambda>ns.
     res_bind (oassert (\<not> ns_ready ns) ''why is ready?'') (\<lambda>_.
     Inr (h, [SessionSend s (report_packet h)])))"

definition NodeSession_OnRecv :: "nat \<Rightarrow> string \<Rightarrow> byte list \<Rightarrow> harbor \<Rightarrow> harbor_result" where
  "NodeSession_OnRecv s remoteIp context h =
     res_bind (session_of s h) (\<lambda>ns.
     res_bind (read_s32 context 0) (\<lambda>message.
     if \<not> ns_ready ns then
       (if message \<noteq> REPORT then Inl (AssertFail ''wtf'')
        else res_bind (read_NodeReport (drop 8 context)) (\<lambda>report.
             let ns1 = ns\<lparr>ns_nodeType := nr_nodeType report, ns_nodeId := nr_nodeId report\<rparr>;
                 (h1, acts) = OnNodeOpen (nr_nodeType report) (nr_nodeId report) remoteIp
                    (nr_port report) (nr_hide report) s (set_session_of s ns1 h) in
             Inr (set_session_of s (ns1\<lparr>ns_ready := True\<rparr>) h1, acts)))
     else if message \<noteq> MESSAGE then Inl (AssertFail ''wtf'')
     else res_bind (OnNodeMessage (ns_nodeType ns) (ns_nodeId ns) (drop 8 context)
            (s32 (int (length context) - 8)) h) (\<lambda>acts. Inr (h, acts))))"

definition NodeSession_OnDisconnected :: "int \<Rightarrow> nat \<Rightarrow> harbor \<Rightarrow> harbor_result" where
  "NodeSession_OnDisconnected now s h =
     res_bind (session_of s h) (\<lambda>ns.
     let (h1, acts) = (if ns_ready ns then OnNodeClose (ns_nodeType ns) (ns_nodeId ns) h else (h, [])) in
     if ns_connect ns
     then res_bind (AddReconnect now s (ns_ip ns) (ns_port ns) h1) (\<lambda>h2.
          Inr (set_session_of s (ns\<lparr>ns_ready := False\<rparr>) h2, acts))
     else Inr (h1, acts))"

definition NodeSession_OnConnectFailed :: "int \<Rightarrow> nat \<Rightarrow> harbor \<Rightarrow> harbor_result" where
  "NodeSession_OnConnectFailed now s h =
     res_bind (session_of s h) (\<lambda>ns.
     if ns_connect ns
     then res_bind (AddReconnect now s (ns_ip ns) (ns_port ns) h) (\<lambda>h'. Inr (h', []))
     else Inr (h, []))"

definition PrepareSendNodeMessage :: "nat \<Rightarrow> int \<Rightarrow> harbor_action list" where
  "PrepareSendNodeMessage s len =
     [SessionSend s (HarborHeader_bytes \<lparr>hd_message = MESSAGE, hd_len = s32 (len + 8)\<rparr>)]"

definition SendNodeMessage :: "nat \<Rightarrow> byte list \<Rightarrow> harbor_action list" where
  "SendNodeMessage s context = [SessionSend s context]"

section \<open>Sending\<close>

definition Harbor_PrepareSend :: "int \<Rightarrow> int \<Rightarrow> int \<Rightarrow> int \<Rightarrow> harbor \<Rightarrow> bool \<times> harbor_action list" where
  "Harbor_PrepareSend nodeType nodeId messageId len h =
     (case map_of (hb_nodes h nodeType) nodeId of
        Some s \<Rightarrow> (True, PrepareSendNodeMessage s (s32 (len + 4)) @ SendNodeMessage s (s32_bytes messageId))
      | None \<Rightarrow> (False, []))"

definition Harbor_Send :: "int \<Rightarrow> int \<Rightarrow> byte list \<Rightarrow> harbor \<Rightarrow> bool \<times> harbor_action list" where
  "Harbor_Send nodeType nodeId context h =
     (case map_of (hb_nodes h nodeType) nodeId of
        Some s \<Rightarrow> (True, SendNodeMessage s context)
      | None \<Rightarrow> (False, []))"

definition PrepareBrocast :: "int \<Rightarrow> int \<Rightarrow> int \<Rightarrow> harbor \<Rightarrow> harbor_action list" where
  "PrepareBrocast nodeType messageId len h =
     concat (List.map (\<lambda>(i, s). PrepareSendNodeMessage s (s32 (len + 4)) @ SendNodeMessage s (s32_bytes messageId))
       (hb_nodes h nodeType))"

definition Brocast :: "int \<Rightarrow> byte list \<Rightarrow> harbor \<Rightarrow> harbor_action list" where
  "Brocast nodeType context h =
     concat (List.map (\<lambda>(i, s). SendNodeMessage s context) (hb_nodes h nodeType))"

section \<open>Connecting\<close>

text \<open>\<open>s\<close> is the new session object of \<open>Create\<close>.\<close>

definition Harbor_Connect :: "nat \<Rightarrow> string \<Rightarrow> int \<Rightarrow> harbor \<Rightarrow> harbor_result" where
  "Harbor_Connect s ip port h =
     res_bind (SetConnect ip port NodeSession_new) (\<lambda>ns.
     Inr (set_session_of s ns h,
          [KernelConnect ip port (hb_sendBuffSize h) (hb_recvBuffSize h) s]))"

definition Harbor_Launched :: "int option \<Rightarrow> harbor \<Rightarrow> harbor \<times> harbor_action list" where
  "Harbor_Launched master h =
     (let h' = (case master of Some port \<Rightarrow> h\<lparr>hb_port := port\<rparr> | None \<Rightarrow> h) in
      (h', if hb_port h' \<noteq> 0
           then [KernelListen ''0.0.0.0'' (hb_port h') (hb_sendBuffSize h') (hb_recvBuffSize h')]
           else []))"

fun reconnect_loop :: "int \<Rightarrow> int \<Rightarrow> int \<Rightarrow> int \<Rightarrow> reconnect list \<Rightarrow> reconnect list \<times> harbor_action list" where
  "reconnect_loop now wait sendSz recvSz [] = ([], [])"
| "reconnect_loop now wait sendSz recvSz (u # us) =
     (if rc_tick u + wait > now then (u # us, [])
      else (let (rest, acts) = reconnect_loop now wait sendSz recvSz us in
            (rest, KernelConnect (rc_ip u) (rc_port u) sendSz recvSz (rc_session u) # acts)))"

definition Harbor_Loop :: "int \<Rightarrow> harbor \<Rightarrow> harbor \<times> harbor_action list" where
  "Harbor_Loop now h =
     (let (rest, acts) = reconnect_loop now (hb_reconnectTick h) (hb_sendBuffSize h) (hb_recvBuffSize h)
                           (hb_reconnects h) in
      (h\<lparr>hb_reconnects := rest\<rparr>, acts))"

end
