(* ===== verification/HarborSpec.thy ===== *)
theory HarborSpec
  imports Harbor
begin

text \<open>
  What the node mesh promises: the packets one node writes for a message are taken apart by the
  other into exactly that message, a report tells the receiver the sender's identity, a message goes to the
  handler of its node type or else to the handler for any node, and the reconnect queue connects
  what is due. Listeners see nodes open and close in step with the node table.
\<close>

section \<open>Messages on the wire\<close>

definition node_message :: "int \<times> byte list \<Rightarrow> byte list" where
  "node_message m = s32_bytes MESSAGE @ s32_bytes (int (length (snd m)) + 12) @ s32_bytes (fst m) @ snd m"

definition small_message :: "int \<times> byte list \<Rightarrow> bool" where
  "small_message m \<longleftrightarrow> in_s32 (fst m) \<and> int (length (snd m)) < 1073741824"

fun sent_to :: "nat \<Rightarrow> harbor_action list \<Rightarrow> byte list" where
  "sent_to s [] = []"
| "sent_to s (SessionSend s' bs # as) = (if s' = s then bs else []) @ sent_to s as"
| "sent_to s (_ # as) = sent_to s as"

lemma sent_to_append [simp]: "sent_to s (as @ bs) = sent_to s as @ sent_to s bs"
  by (induction s as rule: sent_to.induct) auto

lemma send_message_bytes:
  assumes "map_of (hb_nodes h nodeType) nodeId = Some s" "small_message (mid, context)"
  shows "sent_to s (snd (Harbor_PrepareSend nodeType nodeId mid (int (length context)) h) @
                    snd (Harbor_Send nodeType nodeId context h)) = node_message (mid, context)"
  using assms
  by (simp add: Harbor_PrepareSend_def Harbor_Send_def PrepareSendNodeMessage_def SendNodeMessage_def
      HarborHeader_bytes_def node_message_def small_message_def s32_nonneg_id add.commute)

lemma length_node_message [simp]: "length (node_message m) = length (snd m) + 12"
  by (simp add: node_message_def)

lemma ParsePacket_message:
  assumes "small_message m"
  shows "ParsePacket (node_message m @ xs) = int (length (node_message m))"
  using assms
  by (auto simp: ParsePacket_def node_message_def small_message_def slice_def Let_def s32_nonneg_id)

lemma frames_messages:
  assumes "\<forall>m\<in>set ms. small_message m"
  shows "frames ParsePacket (concat (List.map node_message ms)) = (List.map node_message ms, Some [])"
  using assms
proof (induction ms)
  case Nil
  then show ?case by simp
next
  case (Cons m ms)
  let ?rest = "concat (List.map node_message ms)"
  have p: "ParsePacket (node_message m @ ?rest) = int (length (node_message m))"
    using Cons.prems by (intro ParsePacket_message) simp
  have "frames ParsePacket (node_message m @ ?rest) =
      (take (length (node_message m)) (node_message m @ ?rest) #
         fst (frames ParsePacket (drop (length (node_message m)) (node_message m @ ?rest))),
       snd (frames ParsePacket (drop (length (node_message m)) (node_message m @ ?rest))))"
    using frames_packet [of ParsePacket "node_message m @ ?rest"] by (simp add: p)
  with Cons show ?case by simp
qed

section \<open>Dispatch\<close>

definition dispatch :: "harbor \<Rightarrow> int \<Rightarrow> int \<Rightarrow> int \<times> byte list \<Rightarrow> harbor_action list" where
  "dispatch h nodeType nodeId m =
     (case hb_handlers h nodeType (fst m) of
        Some f \<Rightarrow> [HandlerCall f nodeType nodeId (snd m)]
      | None \<Rightarrow> (case hb_handlers h ANY_NODE (fst m) of
                   Some f \<Rightarrow> [HandlerCall f nodeType nodeId (snd m)]
                 | None \<Rightarrow> []))"

lemma OnRecv_message:
  assumes "hb_sessions h s = Some ns" "ns_ready ns" "small_message m"
  shows "NodeSession_OnRecv s ip (node_message m) h = Inr (h, dispatch h (ns_nodeType ns) (ns_nodeId ns) m)"
proof -
  have "s32 (int (length (node_message m)) - 8) = int (length (snd m)) + 4"
    using assms(3) by (simp add: small_message_def s32_nonneg_id)
  moreover have "(int (length (snd m)) + 4) mod 18446744073709551616 = int (length (snd m)) + 4"
    using assms(3) by (simp add: small_message_def)
  moreover have "read_s32 (node_message m) 0 = Inr 1"
    "drop 8 (node_message m) = s32_bytes (fst m) @ snd m"
    by (simp_all add: node_message_def read_s32_def slice_def s32_id in_s32_def)
  moreover have "read_s32 (s32_bytes (fst m) @ snd m) 0 = Inr (fst m)"
    using assms(3) by (simp add: small_message_def read_s32_def slice_def s32_id)
  ultimately show ?thesis
    using assms(1,2)
    by (simp add: NodeSession_OnRecv_def session_of_def OnNodeMessage_def dispatch_def
        split: option.splits)
qed

section \<open>The handshake\<close>

lemma length_NodeReport [simp]: "length (NodeReport_bytes r) = 13"
  by (simp add: NodeReport_bytes_def)

lemma read_report:
  assumes "in_s32 (nr_nodeType r)" "in_s32 (nr_nodeId r)" "in_s32 (nr_port r)"
  shows "read_NodeReport (NodeReport_bytes r) = Inr r"
proof -
  have "read_s32 (NodeReport_bytes r) 0 = Inr (nr_nodeType r)"
    "read_s32 (NodeReport_bytes r) 4 = Inr (nr_nodeId r)"
    "read_s32 (NodeReport_bytes r) 8 = Inr (nr_port r)"
    "read_bool (NodeReport_bytes r) 12 = Inr (nr_hide r)"
    using assms by (simp_all add: NodeReport_bytes_def read_s32_def read_bool_def slice_def s32_id nth_append)
  then show ?thesis by (simp add: read_NodeReport_def)
qed

definition identity_in_range :: "harbor \<Rightarrow> bool" where
  "identity_in_range h \<longleftrightarrow> in_s32 (hb_nodeType h) \<and> in_s32 (hb_nodeId h) \<and> in_s32 (hb_port h)"

lemma report_is_a_packet: "ParsePacket (report_packet h) = int (length (report_packet h))"
  by (simp add: report_packet_def ParsePacket_def HarborHeader_bytes_def slice_def s32_nonneg_id)

lemma OnRecv_report:
  assumes "identity_in_range peer" "hb_sessions h s = Some ns" "\<not> ns_ready ns"
  shows "\<exists>h'. NodeSession_OnRecv s ip (report_packet peer) h =
           Inr (h', List.map (\<lambda>l. NodeOpened l (hb_nodeType peer) (hb_nodeId peer) (hb_hide peer) ip (hb_port peer))
                      (hb_listeners h)) \<and>
         map_of (hb_nodes h' (hb_nodeType peer)) (hb_nodeId peer) = Some s \<and>
         (\<forall>t i. (t, i) \<noteq> (hb_nodeType peer, hb_nodeId peer) \<longrightarrow>
            map_of (hb_nodes h' t) i = map_of (hb_nodes h t) i) \<and>
         (\<exists>ns'. hb_sessions h' s = Some ns' \<and> ns_ready ns' \<and> ns_nodeType ns' = hb_nodeType peer \<and>
            ns_nodeId ns' = hb_nodeId peer)"
proof -
  let ?r = "\<lparr>nr_nodeType = hb_nodeType peer, nr_nodeId = hb_nodeId peer, nr_port = hb_port peer,
      nr_hide = hb_hide peer\<rparr>"
  have "read_s32 (report_packet peer) 0 = Inr 0" "drop 8 (report_packet peer) = NodeReport_bytes ?r"
    by (simp_all add: report_packet_def HarborHeader_bytes_def read_s32_def slice_def s32_nonneg_id)
  moreover have "read_NodeReport (NodeReport_bytes ?r) = Inr ?r"
    using assms(1) by (intro read_report) (simp_all add: identity_in_range_def)
  ultimately show ?thesis
    using assms(2,3)
    by (simp add: NodeSession_OnRecv_def session_of_def OnNodeOpen_def set_session_of_def Let_def
        update_conv')
qed

section \<open>The node table\<close>

text \<open>
  The table and the sessions agree: an entry leads to a session that is ready under that very name.
\<close>

definition nodes_ok :: "harbor \<Rightarrow> bool" where
  "nodes_ok h \<longleftrightarrow> (\<forall>t i s. map_of (hb_nodes h t) i = Some s \<longrightarrow>
     (\<exists>ns. hb_sessions h s = Some ns \<and> ns_ready ns \<and> ns_nodeType ns = t \<and> ns_nodeId ns = i)) \<and>
     (\<forall>t. distinct (List.map fst (hb_nodes h t)))"

lemma nodes_okE:
  assumes "nodes_ok h" "map_of (hb_nodes h t) i = Some s"
  obtains ns where "hb_sessions h s = Some ns" "ns_ready ns" "ns_nodeType ns = t" "ns_nodeId ns = i"
  using assms unfolding nodes_ok_def by meson

lemma nodes_ok_unready:
  assumes "nodes_ok h" "hb_sessions h s = Some ns" "\<not> ns_ready ns"
  shows "map_of (hb_nodes h t) i \<noteq> Some s"
proof
  assume "map_of (hb_nodes h t) i = Some s"
  with nodes_okE [OF assms(1)] assms(2,3) show False by (metis option.inject)
qed

text \<open>A first packet that succeeds registers the session; later ones change nothing.\<close>

lemma OnRecv_cases:
  assumes "NodeSession_OnRecv s ip bs h = Inr (h', acts)"
  obtains (later) ns where "hb_sessions h s = Some ns" "ns_ready ns" "h' = h"
  | (first) ns and r :: NodeReport where "hb_sessions h s = Some ns" "\<not> ns_ready ns"
      "hb_nodes h' = (hb_nodes h)(nr_nodeType r := AList.update (nr_nodeId r) s (hb_nodes h (nr_nodeType r)))"
      "hb_sessions h' = (hb_sessions h)(s \<mapsto> ns\<lparr>ns_nodeType := nr_nodeType r, ns_nodeId := nr_nodeId r,
         ns_ready := True\<rparr>)"
proof -
  obtain ns where ns: "hb_sessions h s = Some ns"
    using assms by (auto simp: NodeSession_OnRecv_def res_simps session_of_def split: option.splits)
  show ?thesis
  proof (cases "ns_ready ns")
    case True
    with assms ns have "h' = h"
      by (auto simp: NodeSession_OnRecv_def res_simps session_of_def split: if_splits)
    with ns True later show ?thesis by blast
  next
    case False
    from assms ns False have "\<exists>r :: NodeReport.
      hb_nodes h' = (hb_nodes h)(nr_nodeType r := AList.update (nr_nodeId r) s (hb_nodes h (nr_nodeType r))) \<and>
      hb_sessions h' = (hb_sessions h)(s \<mapsto> ns\<lparr>ns_nodeType := nr_nodeType r, ns_nodeId := nr_nodeId r,
         ns_ready := True\<rparr>)"
      by (auto simp: NodeSession_OnRecv_def res_simps session_of_def OnNodeOpen_def set_session_of_def
          Let_def split: if_splits intro: exI conjI)
    with ns False first show ?thesis by blast
  qed
qed

lemma nodes_ok_recv:
  assumes "nodes_ok h" "NodeSession_OnRecv s ip bs h = Inr (h', acts)"
  shows "nodes_ok h'"
  using assms(2)
proof (cases rule: OnRecv_cases)
  case later
  with assms(1) show ?thesis by simp
next
  case (first ns r)
  let ?t = "nr_nodeType r" and ?i = "nr_nodeId r"
  have dist: "distinct (List.map fst (hb_nodes h t))" for t using assms(1) by (simp add: nodes_ok_def)
  have "\<exists>ns'. hb_sessions h' s' = Some ns' \<and> ns_ready ns' \<and> ns_nodeType ns' = t \<and> ns_nodeId ns' = i"
    if e: "map_of (hb_nodes h' t) i = Some s'" for t i s'
  proof (cases "t = ?t \<and> i = ?i")
    case True
    with e first show ?thesis by (simp add: update_conv' del: map_of_eq_Some_iff)
  next
    case False
    with e first have old: "map_of (hb_nodes h t) i = Some s'"
      by (auto simp: update_conv' simp del: map_of_eq_Some_iff split: if_splits)
    then have "s' \<noteq> s" using nodes_ok_unready [OF assms(1) first(1,2)] by blast
    with nodes_okE [OF assms(1) old] first(4) show ?thesis by (metis fun_upd_other)
  qed
  with dist first(3) show ?thesis by (simp add: nodes_ok_def distinct_update)
qed

lemma OnDisconnected_cases:
  assumes "NodeSession_OnDisconnected now s h = Inr (h', acts)"
  obtains ns ns' where "hb_sessions h s = Some ns"
    "hb_nodes h' = (if ns_ready ns
       then (hb_nodes h)(ns_nodeType ns := AList.delete (ns_nodeId ns) (hb_nodes h (ns_nodeType ns)))
       else hb_nodes h)"
    "hb_sessions h' = (hb_sessions h)(s \<mapsto> ns')"
proof -
  obtain ns where ns: "hb_sessions h s = Some ns"
    using assms by (auto simp: NodeSession_OnDisconnected_def res_simps session_of_def split: option.splits)
  have "hb_sessions h' = (hb_sessions h)(s \<mapsto> (if ns_connect ns then ns\<lparr>ns_ready := False\<rparr> else ns))"
    "hb_nodes h' = (if ns_ready ns
       then (hb_nodes h)(ns_nodeType ns := AList.delete (ns_nodeId ns) (hb_nodes h (ns_nodeType ns)))
       else hb_nodes h)"
    using assms ns
    by (auto simp: NodeSession_OnDisconnected_def res_simps session_of_def OnNodeClose_def AddReconnect_def
        set_session_of_def Let_def fun_upd_idem split: if_splits)
  with ns that show ?thesis by blast
qed

lemma nodes_ok_disconnected:
  assumes "nodes_ok h" "NodeSession_OnDisconnected now s h = Inr (h', acts)"
  shows "nodes_ok h'" "map_of (hb_nodes h' t) i \<noteq> Some s"
proof -
  obtain ns ns' where d: "hb_sessions h s = Some ns"
    "hb_nodes h' = (if ns_ready ns
       then (hb_nodes h)(ns_nodeType ns := AList.delete (ns_nodeId ns) (hb_nodes h (ns_nodeType ns)))
       else hb_nodes h)"
    "hb_sessions h' = (hb_sessions h)(s \<mapsto> ns')"
    using assms(2) by (rule OnDisconnected_cases)
  have old: "map_of (hb_nodes h t) i = Some s'" "s' \<noteq> s" if "map_of (hb_nodes h' t) i = Some s'" for t i s'
  proof -
    show k: "map_of (hb_nodes h t) i = Some s'"
      using that d(2) by (auto simp: delete_conv' restrict_map_def simp del: map_of_eq_Some_iff split: if_splits)
    show "s' \<noteq> s"
    proof
      assume s: "s' = s"
      from nodes_okE [OF assms(1) k] d(1) s have "ns_ready ns" "ns_nodeType ns = t" "ns_nodeId ns = i"
        by auto
      with that d(2) show False by (simp add: delete_conv' del: map_of_eq_Some_iff)
    qed
  qed
  then show "map_of (hb_nodes h' t) i \<noteq> Some s" by blast
  have "distinct (List.map fst (hb_nodes h' t))" for t
    using assms(1) d(2) by (simp add: nodes_ok_def distinct_delete)
  moreover have "\<exists>ns'. hb_sessions h' s' = Some ns' \<and> ns_ready ns' \<and> ns_nodeType ns' = t \<and> ns_nodeId ns' = i"
    if e: "map_of (hb_nodes h' t) i = Some s'" for t i s'
    using nodes_okE [OF assms(1) old(1) [OF e]] old(2) [OF e] d(3) by (metis fun_upd_other)
  ultimately show "nodes_ok h'" by (simp add: nodes_ok_def)
qed

section \<open>Reconnecting\<close>

definition due :: "int \<Rightarrow> harbor \<Rightarrow> reconnect \<Rightarrow> bool" where
  "due now h u \<longleftrightarrow> rc_tick u + hb_reconnectTick h \<le> now"

definition connect_unit :: "harbor \<Rightarrow> reconnect \<Rightarrow> harbor_action" where
  "connect_unit h u = KernelConnect (rc_ip u) (rc_port u) (hb_sendBuffSize h) (hb_recvBuffSize h) (rc_session u)"

lemma reconnect_loop_takeWhile:
  "reconnect_loop now wait a b us =
     (dropWhile (\<lambda>u. rc_tick u + wait \<le> now) us,
      List.map (\<lambda>u. KernelConnect (rc_ip u) (rc_port u) a b (rc_session u))
        (takeWhile (\<lambda>u. rc_tick u + wait \<le> now) us))"
  by (induction us) (auto simp: split_beta)

lemma sorted_takeWhile_filter:
  assumes "sorted (List.map f xs)"
  shows "takeWhile (\<lambda>x. f x \<le> (b :: int)) xs = filter (\<lambda>x. f x \<le> b) xs"
    "dropWhile (\<lambda>x. f x \<le> b) xs = filter (\<lambda>x. \<not> f x \<le> b) xs"
  using assms by (induction xs) (auto intro!: filter_False [symmetric] filter_True [symmetric])

lemma Harbor_Loop_due:
  assumes "sorted (List.map rc_tick (hb_reconnects h))"
  shows "Harbor_Loop now h =
     (h\<lparr>hb_reconnects := filter (\<lambda>u. \<not> due now h u) (hb_reconnects h)\<rparr>,
      List.map (connect_unit h) (filter (due now h) (hb_reconnects h)))"
proof -
  have e: "(\<lambda>u. rc_tick u + hb_reconnectTick h \<le> now) = (\<lambda>u. rc_tick u \<le> now - hb_reconnectTick h)"
    by auto
  have d: "due now h = (\<lambda>u. rc_tick u \<le> now - hb_reconnectTick h)"
    by (auto simp: due_def)
  show ?thesis
    using sorted_takeWhile_filter [OF assms, of "now - hb_reconnectTick h"]
    by (simp add: Harbor_Loop_def reconnect_loop_takeWhile e d connect_unit_def [abs_def])
qed

text \<open>
  A node session on a connection: the \<open>app\<close> of \<open>Connection.thy\<close> whose parser is
  \<open>Harbor::ParsePacket\<close> and whose session is a \<open>NodeSession\<close> of a harbor. Its state is the harbor
  with the actions it has taken so far, or the fault that ended the process.
\<close>

type_synonym link = "fault + harbor \<times> harbor_action list"

definition link_step :: "(harbor \<Rightarrow> harbor_result) \<Rightarrow> link \<Rightarrow> link" where
  "link_step f l = res_bind l (\<lambda>(h, done). res_bind (f h) (\<lambda>(h', acts). Inr (h', done @ acts)))"

text \<open>The only pipe call a node session makes by itself is the report it sends when connected.\<close>

definition NodeSession_react :: "nat \<Rightarrow> string \<Rightarrow> int \<Rightarrow> callback \<Rightarrow> link \<Rightarrow> link \<times> pipe_call list" where
  "NodeSession_react s ip now cb l =
     (case cb of
        CbConnected \<Rightarrow> (link_step (NodeSession_OnConnected s) l,
           (case l of Inl f \<Rightarrow> [] | Inr (h, done) \<Rightarrow> [PSend (report_packet h)]))
      | CbRecv p \<Rightarrow> (link_step (NodeSession_OnRecv s ip p) l, [])
      | CbError e \<Rightarrow> (l, [])
      | CbDisconnected \<Rightarrow> (link_step (NodeSession_OnDisconnected now s) l, []))"

definition node_app :: "nat \<Rightarrow> string \<Rightarrow> int \<Rightarrow> link app" where
  "node_app s ip now = \<lparr>app_parser = ParsePacket, app_react = NodeSession_react s ip now\<rparr>"

lemma length_report_packet [simp]: "length (report_packet h) = 21"
  by (simp add: report_packet_def HarborHeader_bytes_def)

lemma node_app_listens: "listens (node_app s ip now) (\<lambda>p. link_step (NodeSession_OnRecv s ip p))"
  by (simp add: listens_def node_app_def NodeSession_react_def)

lemma node_app_parser [simp]: "app_parser (node_app s ip now) = ParsePacket"
  by (simp add: node_app_def)

lemma node_message_nonempty [simp]: "node_message m \<noteq> []"
  using length_node_message [of m] by (cases "node_message m") simp_all

lemma link_messages:
  assumes "hb_sessions h s = Some ns" "ns_ready ns" "\<forall>m\<in>set ms. small_message m"
  shows "fold (\<lambda>p. link_step (NodeSession_OnRecv s ip p)) (List.map node_message ms) (Inr (h, acts)) =
         Inr (h, acts @ concat (List.map (dispatch h (ns_nodeType ns) (ns_nodeId ns)) ms))"
  using assms(3)
proof (induction ms arbitrary: acts)
  case Nil
  then show ?case by simp
next
  case (Cons m ms)
  with OnRecv_message [OF assms(1,2), of m ip] show ?case by (simp add: link_step_def)
qed

lemma link_delivers:
  assumes c: "c_session c = Some (Inr (h, []))" "c_alive c" "bufs_ok c" "b_offset (recvW c) = 0"
      "content (recvU c) = []"
    and s: "hb_sessions h s = Some ns" "ns_ready ns"
    and ms: "\<forall>m\<in>set ms. small_message m" "concat chunks = concat (List.map node_message ms)"
    and fit: "chunks_fit ParsePacket (b_size (recvU c)) [] chunks"
  shows "\<exists>c'. feed (node_app s ip now) oe chunks c = Inr (True, c') \<and>
           c_session c' = Some (Inr (h, concat (List.map (dispatch h (ns_nodeType ns) (ns_nodeId ns)) ms)))"
proof (cases "chunks = []")
  case True
  with ms(2) have "ms = []" by (cases ms) simp_all
  with True c(1) show ?thesis by simp
next
  case False
  have "c_session c \<noteq> None" using c(1) by simp
  from harbor.feed_frames [OF node_app_listens [of s ip now] node_app_parser this c(2-4), where xs = chunks and oe = oe]
  obtain c' where c': "feed (node_app s ip now) oe chunks c = Inr (True, c')"
    "c_session c' = map_option (fold (\<lambda>p. link_step (NodeSession_OnRecv s ip p)) (List.map node_message ms)) (c_session c)"
    using fit c(5) ms(2) False frames_messages [OF ms(1)] by auto
  with c(1) link_messages [OF s ms(1), of ip "[]"] show ?thesis by simp
qed

end
