(* ===== verification/MeshProps.thy ===== *)
theory MeshProps
  imports HarborSpec
begin

text \<open>
  Properties of the node mesh: over every sequence of accepts, connects, packets, disconnects and loop
  turns of a harbor (\<open>mesh_reach\<close>), and from a sender's \<open>PrepareSend\<close> and \<open>Send\<close> through the byte
  stream to the receiver's handlers.
\<close>

section \<open>Everything a harbor goes through\<close>

text \<open>
  The state with the clock. \<open>mesh_end\<close> is \<open>OnClose\<close> of the connection: \<open>OnDisconnected\<close>, then
  \<open>OnRelease\<close>, which deletes an accepted session and keeps a connecting one for the reconnect.
\<close>

definition Recover :: "nat \<Rightarrow> harbor \<Rightarrow> harbor" where
  "Recover s h = h\<lparr>hb_sessions := (hb_sessions h)(s := None)\<rparr>"

definition release_session :: "nat \<Rightarrow> harbor \<Rightarrow> harbor" where
  "release_session s h =
     (case hb_sessions h s of
        Some ns \<Rightarrow> if ns_connect ns then h else Recover s h
      | None \<Rightarrow> h)"

inductive mesh_step :: "int \<times> harbor \<Rightarrow> int \<times> harbor \<Rightarrow> bool" where
  mesh_accept: "hb_sessions h s = None \<Longrightarrow> mesh_step (now, h) (now, set_session_of s NodeSession_new h)"
| mesh_connect: "hb_sessions h s = None \<Longrightarrow> Harbor_Connect s ip port h = Inr (h', acts) \<Longrightarrow>
    mesh_step (now, h) (now, h')"
| mesh_recv: "NodeSession_OnRecv s ip bs h = Inr (h', acts) \<Longrightarrow> mesh_step (now, h) (now, h')"
| mesh_end: "NodeSession_OnDisconnected now s h = Inr (h', acts) \<Longrightarrow>
    mesh_step (now, h) (now, release_session s h')"
| mesh_failed: "NodeSession_OnConnectFailed now s h = Inr (h', acts) \<Longrightarrow> mesh_step (now, h) (now, h')"
| mesh_loop: "mesh_step (now, h) (now, fst (Harbor_Loop now h))"
| mesh_listener: "AddNodeListener l h = Inr h' \<Longrightarrow> mesh_step (now, h) (now, h')"
| mesh_handler: "mesh_step (now, h) (now, RegProtocolHandler t m f h)"
| mesh_clock: "now \<le> now' \<Longrightarrow> mesh_step (now, h) (now', h)"

inductive mesh_reach :: "harbor \<Rightarrow> int \<times> harbor \<Rightarrow> bool" for h0 where
  mesh_start: "mesh_reach h0 (now, h0)"
| mesh_next: "mesh_reach h0 x \<Longrightarrow> mesh_step x y \<Longrightarrow> mesh_reach h0 y"

definition reconnects_ok :: "int \<Rightarrow> harbor \<Rightarrow> bool" where
  "reconnects_ok now h \<longleftrightarrow> sorted (List.map rc_tick (hb_reconnects h)) \<and> (\<forall>u\<in>set (hb_reconnects h). rc_tick u \<le> now)"

lemma reconnects_ok_add:
  assumes "reconnects_ok now h" "AddReconnect now s ip port h = Inr h'"
  shows "reconnects_ok now h'" "hb_nodes h' = hb_nodes h" "hb_sessions h' = hb_sessions h"
  using assms by (auto simp: AddReconnect_def res_simps reconnects_ok_def sorted_append)

lemma reconnects_ok_same: "reconnects_ok now h \<Longrightarrow> hb_reconnects h' = hb_reconnects h \<Longrightarrow> reconnects_ok now h'"
  by (simp add: reconnects_ok_def)

lemma nodes_ok_same: "nodes_ok h \<Longrightarrow> hb_nodes h' = hb_nodes h \<Longrightarrow> hb_sessions h' = hb_sessions h \<Longrightarrow> nodes_ok h'"
  by (simp add: nodes_ok_def)

lemma nodes_ok_fresh:
  assumes "nodes_ok h" "hb_sessions h s = None"
  shows "nodes_ok (set_session_of s ns h)"
  using assms unfolding nodes_ok_def set_session_of_def
  by (simp del: map_of_eq_Some_iff) (metis option.distinct(1))

lemma nodes_ok_Recover:
  assumes "nodes_ok h" "\<And>t i. map_of (hb_nodes h t) i \<noteq> Some s"
  shows "nodes_ok (Recover s h)"
  using assms unfolding nodes_ok_def Recover_def by (simp del: map_of_eq_Some_iff)

lemma reconnects_ok_disconnected:
  assumes "reconnects_ok now h" "NodeSession_OnDisconnected now s h = Inr (h', acts)"
  shows "reconnects_ok now h'"
proof -
  obtain ns where ns: "hb_sessions h s = Some ns"
    using assms(2) by (auto simp: NodeSession_OnDisconnected_def res_simps session_of_def split: option.splits)
  define h1 where "h1 = (if ns_ready ns then fst (OnNodeClose (ns_nodeType ns) (ns_nodeId ns) h) else h)"
  have h1: "reconnects_ok now h1"
    by (rule reconnects_ok_same [OF assms(1)]) (simp add: h1_def OnNodeClose_def)
  show ?thesis
  proof (cases "ns_connect ns")
    case True
    with assms(2) ns obtain h2 where h2: "AddReconnect now s (ns_ip ns) (ns_port ns) h1 = Inr h2"
      "h' = set_session_of s (ns\<lparr>ns_ready := False\<rparr>) h2"
      by (auto simp: NodeSession_OnDisconnected_def res_simps session_of_def OnNodeClose_def h1_def Let_def
          split: if_splits)
    show ?thesis
      by (rule reconnects_ok_same [OF reconnects_ok_add(1) [OF h1 h2(1)]]) (simp add: h2(2) set_session_of_def)
  next
    case False
    with assms(2) ns have "h' = h1"
      by (auto simp: NodeSession_OnDisconnected_def session_of_def OnNodeClose_def h1_def Let_def
          split: if_splits)
    with h1 show ?thesis by simp
  qed
qed

lemma mesh_step_ok:
  assumes "mesh_step (now, h) (now', h')" "nodes_ok h" "reconnects_ok now h"
  shows "nodes_ok h' \<and> reconnects_ok now' h'"
  using assms(1)
proof (cases rule: mesh_step.cases)
  case (mesh_accept s)
  have "reconnects_ok now h'"
    by (rule reconnects_ok_same [OF assms(3)]) (simp add: mesh_accept set_session_of_def)
  with mesh_accept assms(2) nodes_ok_fresh show ?thesis by simp
next
  case (mesh_connect s ip port acts)
  then obtain ns where h': "h' = set_session_of s ns h" by (auto simp: Harbor_Connect_def res_simps)
  have "reconnects_ok now h'"
    by (rule reconnects_ok_same [OF assms(3)]) (simp add: h' set_session_of_def)
  with mesh_connect assms(2) nodes_ok_fresh h' show ?thesis by simp
next
  case (mesh_recv s ip bs acts)
  have "hb_reconnects h' = hb_reconnects h"
    using mesh_recv(2)
    by (auto simp: NodeSession_OnRecv_def res_simps session_of_def OnNodeOpen_def set_session_of_def Let_def
        split: option.splits if_splits)
  with mesh_recv assms nodes_ok_recv reconnects_ok_same show ?thesis by blast
next
  case (mesh_end s h1 acts)
  have "nodes_ok (release_session s h1)"
    using nodes_ok_disconnected [OF assms(2) mesh_end(3)]
    by (auto simp: release_session_def split: option.splits intro: nodes_ok_Recover)
  moreover have "hb_reconnects (release_session s h1) = hb_reconnects h1"
    by (simp add: release_session_def Recover_def split: option.splits)
  ultimately show ?thesis
    using mesh_end reconnects_ok_disconnected [OF assms(3) mesh_end(3)] reconnects_ok_same by metis
next
  case (mesh_failed s acts)
  then consider "h' = h" | ip port where "AddReconnect now s ip port h = Inr h'"
    by (auto simp: NodeSession_OnConnectFailed_def res_simps split: if_splits)
  then show ?thesis
  proof cases
    case 1
    with mesh_failed assms show ?thesis by simp
  next
    case 2
    with reconnects_ok_add [OF assms(3) 2] nodes_ok_same [OF assms(2)] mesh_failed show ?thesis by simp
  qed
next
  case mesh_loop
  have srt: "sorted (List.map rc_tick (hb_reconnects h))" using assms(3) by (simp add: reconnects_ok_def)
  have h': "h' = h\<lparr>hb_reconnects := filter (\<lambda>u. \<not> due now h u) (hb_reconnects h)\<rparr>"
    using mesh_loop Harbor_Loop_due [OF srt] by simp
  have "reconnects_ok now h'"
    using assms(3) by (auto simp: h' reconnects_ok_def intro: sorted_filter)
  moreover have "nodes_ok h'" by (rule nodes_ok_same [OF assms(2)]) (simp_all add: h')
  ultimately show ?thesis using mesh_loop by simp
next
  case (mesh_listener l)
  then have h': "h' = h\<lparr>hb_listeners := hb_listeners h @ [l]\<rparr>" by (auto simp: AddNodeListener_def res_simps oassert_eq)
  have "nodes_ok h'" by (rule nodes_ok_same [OF assms(2)]) (simp_all add: h')
  moreover have "reconnects_ok now h'" by (rule reconnects_ok_same [OF assms(3)]) (simp add: h')
  ultimately show ?thesis using mesh_listener by simp
next
  case (mesh_handler t m f)
  have "nodes_ok h'" by (rule nodes_ok_same [OF assms(2)]) (simp_all add: mesh_handler RegProtocolHandler_def)
  moreover have "reconnects_ok now h'"
    by (rule reconnects_ok_same [OF assms(3)]) (simp add: mesh_handler RegProtocolHandler_def)
  ultimately show ?thesis using mesh_handler by simp
next
  case mesh_clock
  with assms show ?thesis by (auto simp: reconnects_ok_def)
qed

lemma mesh_reach_ok:
  assumes "mesh_reach h0 x" "Harbor_Initialize name a b wait nodes junk i p = Inr h0"
  shows "nodes_ok (snd x) \<and> reconnects_ok (fst x) (snd x)"
  using assms(1)
proof induction
  case (mesh_start now)
  from assms(2) show ?case
    by (auto simp: Harbor_Initialize_def res_simps nodes_ok_def reconnects_ok_def split: prod.splits)
next
  case (mesh_next x y)
  then show ?case using mesh_step_ok [of "fst x" "snd x" "fst y" "snd y"] by simp
qed

section \<open>A harbor to run on\<close>

definition start_harbor :: harbor where
  "start_harbor = \<lparr>hb_sendBuffSize = 64, hb_recvBuffSize = 64, hb_reconnectTick = 100, hb_nodeType = 2,
     hb_nodeId = 7, hb_port = 9000, hb_hide = False, hb_nodes = (\<lambda>_. []), hb_listeners = [],
     hb_handlers = (\<lambda>_ _. None), hb_reconnects = [], hb_sessions = Map.empty\<rparr>"

lemma start_harbor_init:
  "Harbor_Initialize ''slave'' 64 64 100 [(1, ''master'', None), (2, ''slave'', None)] 0 7 (Some 9000) = Inr start_harbor"
  by (simp add: Harbor_Initialize_def start_harbor_def)

definition open_session :: node_session where
  "open_session = NodeSession_new\<lparr>ns_nodeType := 2, ns_nodeId := 7, ns_ready := True\<rparr>"

definition open_harbor :: harbor where
  "open_harbor = start_harbor\<lparr>hb_nodes := (\<lambda>_. [])(2 := [(7, 0)]), hb_sessions := [0 \<mapsto> open_session]\<rparr>"

lemma report_recv:
  assumes "hb_sessions h s = Some ns" "\<not> ns_ready ns" "hb_listeners h = []"
  shows "\<exists>h'. NodeSession_OnRecv s ip (report_packet start_harbor) h = Inr (h', []) \<and>
    hb_nodes h' = (hb_nodes h)(2 := AList.update 7 s (hb_nodes h 2)) \<and>
    h' = h\<lparr>hb_nodes := hb_nodes h', hb_sessions := (hb_sessions h)(s \<mapsto> ns\<lparr>ns_nodeType := 2, ns_nodeId := 7, ns_ready := True\<rparr>)\<rparr>"
proof -
  let ?r = "\<lparr>nr_nodeType = 2, nr_nodeId = 7, nr_port = 9000, nr_hide = False\<rparr>"
  have "read_s32 (report_packet start_harbor) 0 = Inr 0" "drop 8 (report_packet start_harbor) = NodeReport_bytes ?r"
    by (simp_all add: report_packet_def HarborHeader_bytes_def read_s32_def slice_def s32_nonneg_id start_harbor_def)
  moreover have "read_NodeReport (NodeReport_bytes ?r) = Inr ?r"
    by (intro read_report) (simp_all add: in_s32_def)
  ultimately show ?thesis
    using assms by (simp add: NodeSession_OnRecv_def session_of_def OnNodeOpen_def set_session_of_def Let_def)
qed

lemma open_reach: "mesh_reach start_harbor (0, open_harbor)"
proof -
  let ?h = "set_session_of 0 NodeSession_new start_harbor"
  have a: "mesh_reach start_harbor (0, ?h)"
    by (rule mesh_next [OF mesh_start mesh_accept]) (simp add: start_harbor_def)
  have "hb_sessions ?h 0 = Some NodeSession_new" "\<not> ns_ready NodeSession_new" "hb_listeners ?h = []"
    by (simp_all add: set_session_of_def NodeSession_new_def start_harbor_def)
  from report_recv [OF this, of "[]"] have "NodeSession_OnRecv 0 [] (report_packet start_harbor) ?h = Inr (open_harbor, [])"
    by (auto simp: open_harbor_def open_session_def set_session_of_def start_harbor_def)
  from mesh_next [OF a mesh_recv [OF this]] show ?thesis .
qed

section \<open>The node table\<close>

text \<open>
  C32. However connections come, report, fail and end, every entry of the node table leads to a session that
  exists, has been told by its peer that it is that very node, and has not been closed since: a
  message for a node is never written through a deleted session or to another node.
\<close>

theorem node_table_sound:
  assumes "mesh_reach h0 (now, h)" "Harbor_Initialize name a b wait nodes junk i0 p = Inr h0"
    and "map_of (hb_nodes h t) i = Some s"
  shows "\<exists>ns. hb_sessions h s = Some ns \<and> ns_ready ns \<and> ns_nodeType ns = t \<and> ns_nodeId ns = i"
  using mesh_reach_ok [OF assms(1,2)] nodes_okE [OF _ assms(3)] by (metis snd_conv)

lemma node_table_sound_witness:
  "map_of (hb_nodes open_harbor 2) 7 = Some 0 \<and>
   (\<exists>ns. hb_sessions open_harbor 0 = Some ns \<and> ns_ready ns \<and> ns_nodeType ns = 2 \<and> ns_nodeId ns = 7)"
proof -
  have e: "map_of (hb_nodes open_harbor 2) 7 = Some 0" by (simp add: open_harbor_def)
  show ?thesis using e node_table_sound [OF open_reach start_harbor_init e] by blast
qed

text \<open>
  A turn of \<open>Harbor::Loop\<close> reconnects exactly the sessions whose waiting time is over, oldest first, and
  keeps the others: although it stops at the first one that is not due, none is missed.
\<close>

lemma loop_reconnects_what_is_due:
  assumes "mesh_reach h0 (now, h)" "Harbor_Initialize name a b wait nodes junk i0 p = Inr h0"
  shows "Harbor_Loop now h =
     (h\<lparr>hb_reconnects := filter (\<lambda>u. \<not> due now h u) (hb_reconnects h)\<rparr>,
      List.map (connect_unit h) (filter (due now h) (hb_reconnects h)))"
  using mesh_reach_ok [OF assms] by (intro Harbor_Loop_due) (simp add: reconnects_ok_def)

text \<open>Two lost peers, one of which has waited long enough.\<close>

definition lost :: "nat \<Rightarrow> int \<Rightarrow> reconnect" where
  "lost s t = \<lparr>rc_session = s, rc_ip = ''10.0.0.2'', rc_port = 9000, rc_tick = t\<rparr>"

definition lost_session :: node_session where
  "lost_session = \<lparr>ns_ready = False, ns_nodeType = 0, ns_nodeId = 0, ns_connect = True,
     ns_ip = ''10.0.0.2'', ns_port = 9000\<rparr>"

definition lost_harbor :: "reconnect list \<Rightarrow> harbor" where
  "lost_harbor us = start_harbor\<lparr>hb_sessions := [0 \<mapsto> lost_session, 1 \<mapsto> lost_session], hb_reconnects := us\<rparr>"

lemma lost_reach: "mesh_reach start_harbor (120, lost_harbor [lost 0 10, lost 1 50])"
proof -
  have fmt: "SafeSprintf MAX_IP_SIZE ''10.0.0.2'' = Inr ''10.0.0.2''"
    by (simp add: SafeSprintf_def)
  let ?h1 = "set_session_of 0 lost_session start_harbor"
  have "Harbor_Connect 0 ''10.0.0.2'' 9000 start_harbor = Inr (?h1, [KernelConnect ''10.0.0.2'' 9000 64 64 0])"
    by (simp add: Harbor_Connect_def SetConnect_def fmt lost_session_def NodeSession_new_def start_harbor_def
        set_session_of_def)
  from mesh_next [OF mesh_start mesh_connect [OF _ this]] have a: "mesh_reach start_harbor (0, ?h1)"
    by (simp add: start_harbor_def)
  have "Harbor_Connect 1 ''10.0.0.2'' 9000 ?h1 = Inr (lost_harbor [], [KernelConnect ''10.0.0.2'' 9000 64 64 1])"
    by (simp add: Harbor_Connect_def SetConnect_def fmt lost_session_def NodeSession_new_def start_harbor_def
        set_session_of_def lost_harbor_def)
  from mesh_next [OF a mesh_connect [OF _ this]] have b: "mesh_reach start_harbor (0, lost_harbor [])"
    by (simp add: start_harbor_def set_session_of_def)
  have fail: "NodeSession_OnConnectFailed t s (lost_harbor us) = Inr (lost_harbor (us @ [lost s t]), [])"
    if "s = 0 \<or> s = 1" for s t us
    using that fmt
    by (auto simp: NodeSession_OnConnectFailed_def session_of_def lost_harbor_def lost_session_def lost_def
        AddReconnect_def)
  have "mesh_reach start_harbor (10, lost_harbor [])" by (rule mesh_next [OF b mesh_clock]) simp
  then have "mesh_reach start_harbor (10, lost_harbor [lost 0 10])"
    using mesh_next [OF _ mesh_failed [OF fail [of 0 10 "[]"]]] by simp
  then have "mesh_reach start_harbor (50, lost_harbor [lost 0 10])"
    by (rule mesh_next [OF _ mesh_clock]) simp
  then have "mesh_reach start_harbor (50, lost_harbor [lost 0 10, lost 1 50])"
    using mesh_next [OF _ mesh_failed [OF fail [of 1 50 "[lost 0 10]"]]] by simp
  then show ?thesis by (rule mesh_next [OF _ mesh_clock]) simp
qed

lemma loop_reconnects_what_is_due_witness:
  "Harbor_Loop 120 (lost_harbor [lost 0 10, lost 1 50]) =
     (lost_harbor [lost 1 50], [KernelConnect ''10.0.0.2'' 9000 64 64 0])"
  using loop_reconnects_what_is_due [OF lost_reach start_harbor_init]
  by (simp add: due_def connect_unit_def lost_harbor_def lost_def start_harbor_def)

section \<open>The handshake\<close>

text \<open>
  The report a node sends when a connection opens is one packet for the other side's parser, and reading it
  registers the session under the sender's own node type and id, tells every listener once, with the sender's
  port and visibility, and leaves every other entry of the node table alone.
\<close>

lemma report_registers_the_node:
  assumes "NodeSession_OnConnected sA hA = Inr (hA', acts)" "identity_in_range hA"
    and "hb_sessions hB sB = Some ns" "\<not> ns_ready ns"
  shows "frames ParsePacket (sent_to sA acts) = ([sent_to sA acts], Some []) \<and>
     (\<exists>hB'. NodeSession_OnRecv sB ip (sent_to sA acts) hB =
        Inr (hB', List.map (\<lambda>l. NodeOpened l (hb_nodeType hA) (hb_nodeId hA) (hb_hide hA) ip (hb_port hA)) (hb_listeners hB)) \<and>
        map_of (hb_nodes hB' (hb_nodeType hA)) (hb_nodeId hA) = Some sB \<and>
        (\<forall>t i. (t, i) \<noteq> (hb_nodeType hA, hb_nodeId hA) \<longrightarrow> map_of (hb_nodes hB' t) i = map_of (hb_nodes hB t) i))"
proof -
  have acts: "sent_to sA acts = report_packet hA"
    using assms(1) by (auto simp: NodeSession_OnConnected_def res_simps)
  have p: "ParsePacket (report_packet hA) = 21" using report_is_a_packet [of hA] by simp
  then have "frames ParsePacket (report_packet hA) = ([report_packet hA], Some [])"
    using frames_packet [of ParsePacket "report_packet hA"] by simp
  with acts OnRecv_report [OF assms(2-4), of ip] show ?thesis by auto
qed

lemma report_registers_the_node_witness:
  "\<exists>acts hB'. NodeSession_OnConnected 0 (set_session_of 0 NodeSession_new start_harbor) =
       Inr (set_session_of 0 NodeSession_new start_harbor, acts) \<and>
     NodeSession_OnRecv 0 ''1.2.3.4'' (sent_to 0 acts) (set_session_of 0 NodeSession_new start_harbor) = Inr (hB', []) \<and>
     map_of (hb_nodes hB' 2) 7 = Some 0"
proof -
  let ?h = "set_session_of 0 NodeSession_new start_harbor"
  have c: "NodeSession_OnConnected 0 ?h = Inr (?h, [SessionSend 0 (report_packet ?h)])"
    by (simp add: NodeSession_OnConnected_def session_of_def set_session_of_def NodeSession_new_def)
  have i: "identity_in_range ?h" "hb_sessions ?h 0 = Some NodeSession_new" "\<not> ns_ready NodeSession_new"
      "hb_listeners ?h = []" "hb_nodeType ?h = 2" "hb_nodeId ?h = 7"
    by (simp_all add: identity_in_range_def set_session_of_def start_harbor_def NodeSession_new_def in_s32_def)
  from report_registers_the_node [OF c i(1-3), of "''1.2.3.4''"] c show ?thesis by (auto simp: i(4-6))
qed

section \<open>Messages from node to node\<close>

text \<open>What \<open>PrepareSend\<close> and \<open>Send\<close> write for a list of messages, one after the other.\<close>

definition send_all :: "int \<Rightarrow> int \<Rightarrow> (int \<times> byte list) list \<Rightarrow> harbor \<Rightarrow> harbor_action list" where
  "send_all t i ms h = concat (List.map (\<lambda>(mid, context).
     snd (Harbor_PrepareSend t i mid (int (length context)) h) @ snd (Harbor_Send t i context h)) ms)"

lemma sent_all:
  assumes "map_of (hb_nodes h t) i = Some s" "\<forall>m\<in>set ms. small_message m"
  shows "sent_to s (send_all t i ms h) = concat (List.map node_message ms)"
  using assms(2)
proof (induction ms)
  case Nil
  then show ?case by (simp add: send_all_def)
next
  case (Cons m ms)
  have "small_message (fst m, snd m)" using Cons.prems by simp
  from send_message_bytes [OF assms(1) this] Cons show ?case
    by (simp add: send_all_def split_beta)
qed

text \<open>
  C6. What one node sends to another arrives: the bytes that \<open>PrepareSend\<close> and \<open>Send\<close> write for any
  sequence of messages, cut by the network into any chunks that fit the receive buffer, make the receiving connection
  call the handlers for exactly these messages, complete and in order, each with the handler of the
  sender's node type or else the one for any node.
\<close>

theorem node_messages_arrive:
  assumes "map_of (hb_nodes hA t) i = Some sA" "\<forall>m\<in>set ms. small_message m"
    and "concat chunks = sent_to sA (send_all t i ms hA)"
    and "hb_sessions hB sB = Some ns" "ns_ready ns"
    and "c_session c = Some (Inr (hB, []))" "c_alive c" "bufs_ok c" "b_offset (recvW c) = 0" "content (recvU c) = []"
    and "chunks_fit ParsePacket (b_size (recvU c)) [] chunks"
  shows "\<exists>c'. feed (node_app sB ip now) oe chunks c = Inr (True, c') \<and>
     c_session c' = Some (Inr (hB, concat (List.map (dispatch hB (ns_nodeType ns) (ns_nodeId ns)) ms)))"
  using link_delivers [OF assms(6-10,4,5,2) _ assms(11)] assms(3) sent_all [OF assms(1,2)] by simp

definition listening_harbor :: harbor where
  "listening_harbor = RegProtocolHandler ANY_NODE 5 1 open_harbor"

definition link_conn :: "link conn" where
  "link_conn = Connection_create 0 0 64 64 (Inr (listening_harbor, [])) \<lparr>q_data = [], q_front = 0, q_tail = 0, q_size = 0\<rparr>"

lemma node_messages_arrive_witness:
  "\<exists>c'. feed (node_app 0 [] 0) (OnEvent (node_app 0 [] 0) 2)
       [take 9 (node_message (5, [1, 2])), drop 9 (node_message (5, [1, 2])) @ node_message (6, [])] link_conn = Inr (True, c') \<and>
     c_session c' = Some (Inr (listening_harbor, [HandlerCall 1 2 7 [1, 2]]))"
proof -
  define ms :: "(int \<times> byte list) list" where "ms = [(5, [1, 2]), (6, [])]"
  define a b where "a = take 9 (node_message (5, [1, 2]))" and
    "b = drop 9 (node_message (5, [1, 2])) @ node_message (6, [])"
  have sm: "\<forall>m\<in>set ms. small_message m" by (simp add: small_message_def in_s32_def ms_def)
  have e: "map_of (hb_nodes open_harbor 2) 7 = Some 0" by (simp add: open_harbor_def)
  have len: "length a = 9" "length b = 17" by (simp_all add: a_def b_def)
  then have ne: "a \<noteq> []" "b \<noteq> []" by auto
  have whole: "concat [a, b] = concat (List.map node_message ms)"
    unfolding ms_def a_def b_def by (simp add: append_assoc [symmetric] del: append_assoc)
  have s: "hb_sessions listening_harbor 0 = Some open_session" "ns_ready open_session"
    by (simp_all add: listening_harbor_def RegProtocolHandler_def open_harbor_def open_session_def)
  have "ParsePacket a = 0"
    by (simp add: ParsePacket_def a_def node_message_def slice_def s32_nonneg_id)
  then have fa: "frames ParsePacket a = ([], Some a)" by (rule frames_wait)
  have fb: "frames ParsePacket (a @ b) = (List.map node_message ms, Some [])"
    using frames_messages [OF sm] whole by simp
  have fit: "chunks_fit ParsePacket 64 [] [a, b]" using len ne by (simp add: fa fb)
  have c: "c_session link_conn = Some (Inr (listening_harbor, []))" "c_alive link_conn" "bufs_ok link_conn"
      "b_offset (recvW link_conn) = 0" "content (recvU link_conn) = []" "b_size (recvU link_conn) = 64"
    by (simp_all add: link_conn_def Connection_create_def bufs_ok_def buf_ok_def fresh_buffer_def content_def)
  have d: "concat (List.map (dispatch listening_harbor 2 7) ms) = [HandlerCall 1 2 7 [1, 2]]"
    by (simp add: ms_def dispatch_def listening_harbor_def RegProtocolHandler_def open_harbor_def start_harbor_def)
  have "concat [a, b] = sent_to 0 (send_all 2 7 ms open_harbor)" using whole sent_all [OF e sm] by simp
  from node_messages_arrive [OF e sm this s c(1-5), where ip = "[]" and now = 0 and oe = "OnEvent (node_app 0 [] 0) 2"]
    fit c(6) d
  show ?thesis by (simp add: open_session_def a_def b_def)
qed

section \<open>Where the mesh does not do what it means to\<close>

text \<open>
  A node that comes back before its old connection is known to be dead is lost: when the old session ends, the
  entry it erases is the new session's, and nothing can be sent to the node although it is connected and ready.
\<close>

lemma stale_close_drops_live_node:
  "\<exists>h. mesh_reach start_harbor (0, h) \<and> (\<exists>ns. hb_sessions h 1 = Some ns \<and> ns_ready ns \<and> ns_nodeType ns = 2 \<and> ns_nodeId ns = 7) \<and>
     fst (Harbor_Send 2 7 bs h) = False"
proof -
  let ?h1 = "set_session_of 1 NodeSession_new open_harbor"
  let ?h2 = "open_harbor\<lparr>hb_nodes := (\<lambda>_. [])(2 := [(7, 1)]), hb_sessions := [0 \<mapsto> open_session, 1 \<mapsto> open_session]\<rparr>"
  let ?h3 = "?h2\<lparr>hb_nodes := (\<lambda>_. [])(2 := [])\<rparr>"
  have a: "mesh_reach start_harbor (0, ?h1)"
    by (rule mesh_next [OF open_reach mesh_accept]) (simp add: open_harbor_def)
  have "hb_sessions ?h1 1 = Some NodeSession_new" "\<not> ns_ready NodeSession_new" "hb_listeners ?h1 = []"
    by (simp_all add: set_session_of_def NodeSession_new_def open_harbor_def start_harbor_def)
  from report_recv [OF this, of "[]"] have "NodeSession_OnRecv 1 [] (report_packet start_harbor) ?h1 = Inr (?h2, [])"
    by (auto simp: open_harbor_def open_session_def set_session_of_def start_harbor_def)
  from mesh_next [OF a mesh_recv [OF this]] have b: "mesh_reach start_harbor (0, ?h2)" .
  have "NodeSession_OnDisconnected 0 0 ?h2 = Inr (?h3, [])"
    by (simp add: NodeSession_OnDisconnected_def session_of_def OnNodeClose_def open_session_def NodeSession_new_def
        open_harbor_def start_harbor_def Let_def)
  from mesh_next [OF b mesh_end [OF this]] have "mesh_reach start_harbor (0, release_session 0 ?h3)" .
  then show ?thesis
    by (intro exI [of _ "release_session 0 ?h3"])
      (simp add: release_session_def Recover_def open_session_def NodeSession_new_def Harbor_Send_def)
qed

text \<open>
  A peer may claim a length below that of the header. \<open>ParsePacket\<close> hands such a packet out, the
  size left for the message is negative, passes the assertion as a \<open>size_t\<close>, and the message id is
  read outside the packet.
\<close>

lemma short_packet_reads_out_of_bounds:
  assumes "length rest = 8"
  shows "ParsePacket (s32_bytes MESSAGE @ s32_bytes 5 @ rest) = 5 \<and>
     NodeSession_OnRecv 0 ip (take 5 (s32_bytes MESSAGE @ s32_bytes 5 @ rest)) open_harbor = Inl OutOfBounds"
  using assms
  by (simp add: ParsePacket_def slice_def s32_nonneg_id NodeSession_OnRecv_def session_of_def open_harbor_def
      open_session_def read_s32_def OnNodeMessage_def s32_def)

end
