(* ===== verification/Engine.thy ===== *)
theory Engine
  imports NetWorker "HOL-Library.AList"
begin

text \<open>
  \<open>class NetEngine\<close>, \<open>class Acceptor\<close> and \<open>class Connector\<close> (\<open>src/src/kernel/net\<close>): the table of
  handlers by descriptor, the epoll set beside it, the workers the connections are spread over, and the main loop that
  hands epoll's events to the handlers.

  The kernel's side is an input: the outcome of each system call. A new descriptor is the lowest one not open, as POSIX
  demands; closing one takes it out of the epoll set.
\<close>

section \<open>The tables\<close>

record 's acceptor =
  ac_create :: 's
  ac_sendSize :: int
  ac_recvSize :: int

record 's connector =
  co_session :: 's
  co_sendSize :: int
  co_recvSize :: int

text \<open>A connection carries its worker (an index), null until \<open>NetWorker::Add\<close>.\<close>

datatype 's handler = HAcceptor "'s acceptor" | HConnector "'s connector" | HConnection "nat option"

text \<open>
  \<open>en_room\<close> is the number of entries of \<open>_events\<close>, \<open>en_open\<close> the process's open descriptors, \<open>en_failed\<close> collects the
  sessions whose \<open>OnConnectFailed\<close> was called. The connection of descriptor \<open>fd\<close> has the identity \<open>nat fd\<close> in its worker.
\<close>

record 's engine =
  en_room :: int
  en_workers :: "'s worker list"
  en_handlers :: "(int \<times> 's handler) list"
  en_epoll :: "(int \<times> int) list"
  en_open :: "int list"
  en_failed :: "'s list"

definition EPOLLIN :: int where "EPOLLIN = 1"
definition EPOLLOUT :: int where "EPOLLOUT = 4"
definition EPOLLERR :: int where "EPOLLERR = 8"

definition lowest_free :: "int list \<Rightarrow> int" where
  "lowest_free fds = hd (filter (\<lambda>n. n \<notin> set fds) (List.map int [0..<Suc (length fds)]))"

definition fd_open :: "'s engine \<Rightarrow> int \<times> 's engine" where
  "fd_open E = (let fd = lowest_free (en_open E) in (fd, E\<lparr>en_open := fd # en_open E\<rparr>))"

definition fd_close :: "int \<Rightarrow> 's engine \<Rightarrow> 's engine" where
  "fd_close fd E = E\<lparr>en_open := removeAll fd (en_open E), en_epoll := AList.delete fd (en_epoll E)\<rparr>"

definition GetHandler :: "int \<Rightarrow> 's engine \<Rightarrow> 's handler option" where
  "GetHandler fd E = map_of (en_handlers E) fd"

definition CountHandlers :: "'s engine \<Rightarrow> int" where
  "CountHandlers E = int (length (en_handlers E))"

definition NetEngine_Add :: "int \<Rightarrow> 's handler \<Rightarrow> 's engine \<Rightarrow> fault + 's engine" where
  "NetEngine_Add fd h E =
     res_bind (oassert (GetHandler fd E = None) ''wtf'') (\<lambda>_.
     Inr (E\<lparr>en_handlers := AList.update fd h (en_handlers E)\<rparr>))"

definition NetEngine_Remove :: "int \<Rightarrow> 's engine \<Rightarrow> fault + 's engine" where
  "NetEngine_Remove fd E =
     res_bind (oassert (GetHandler fd E \<noteq> None) ''wtf'') (\<lambda>_.
     Inr (E\<lparr>en_handlers := AList.delete fd (en_handlers E)\<rparr>))"

text \<open>\<open>Add\<close> and \<open>Del\<close> of the epoll set; the bits of \<open>EPOLLERR\<close>, \<open>EPOLLHUP\<close> and \<open>EPOLLET\<close> are always added.\<close>

definition epoll_add :: "int \<Rightarrow> int \<Rightarrow> 's engine \<Rightarrow> fault + 's engine" where
  "epoll_add fd events E =
     res_bind (oassert (fd \<in> set (en_open E) \<and> map_of (en_epoll E) fd = None) ''epoll ctl failed'') (\<lambda>_.
     Inr (E\<lparr>en_epoll := AList.update fd (events OR 2147483672) (en_epoll E)\<rparr>))"

definition epoll_del :: "int \<Rightarrow> 's engine \<Rightarrow> fault + 's engine" where
  "epoll_del fd E =
     res_bind (oassert (fd \<in> set (en_open E) \<and> map_of (en_epoll E) fd \<noteq> None) ''epoll ctl failed'') (\<lambda>_.
     Inr (E\<lparr>en_epoll := AList.delete fd (en_epoll E)\<rparr>))"

section \<open>Starting\<close>

fun new_workers :: "nat \<Rightarrow> int \<Rightarrow> fault + 's worker list" where
  "new_workers 0 slots = Inr []"
| "new_workers (Suc n) slots =
     res_bind (NetWorker_new slots) (\<lambda>w. res_bind (new_workers n slots) (\<lambda>ws. Inr (w # ws)))"

text \<open>\<open>epoll_create\<close> refuses a size that is not positive; \<open>fds\<close> are the descriptors open before.\<close>

definition NetEngine_Initialize :: "int \<Rightarrow> int \<Rightarrow> int list \<Rightarrow> fault + 's engine" where
  "NetEngine_Initialize support threads fds =
     res_bind (oassert (support > 0) ''create epoll failed'') (\<lambda>_.
     res_bind (oassert (threads > 0) ''must have worker'') (\<lambda>_.
     res_bind (new_workers (nat threads) (support div threads)) (\<lambda>ws.
     Inr \<lparr>en_room = support, en_workers = ws, en_handlers = [], en_epoll = [], en_open = lowest_free fds # fds,
          en_failed = []\<rparr>)))"

section \<open>Workers\<close>

text \<open>The first of the workers with the most free slots; one without any is never taken.\<close>

definition better_worker :: "'s worker list \<Rightarrow> nat \<Rightarrow> nat option \<Rightarrow> nat option" where
  "better_worker ws k ret =
     (if GetFreeSlot (ws ! k) > 0
      then (case ret of
              None \<Rightarrow> Some k
            | Some r \<Rightarrow> if GetFreeSlot (ws ! r) < GetFreeSlot (ws ! k) then Some k else ret)
      else ret)"

definition GetWorker :: "'s engine \<Rightarrow> fault + nat" where
  "GetWorker E =
     (case fold (better_worker (en_workers E)) [0..<length (en_workers E)] None of
        None \<Rightarrow> Inl (AssertFail ''there is not a worker has slot'')
      | Some k \<Rightarrow> Inr k)"

text \<open>
  \<open>OnClose_engine\<close> is what \<open>Connection::OnClose\<close> does after \<open>NetWorker::Remove\<close>: \<open>Del\<close>, \<open>close\<close> and \<open>Remove\<close>, with
  their assertions. An operation on worker \<open>k\<close> leaves in \<open>w_closed\<close> the connections it closed, in order, and they go
  through these lines when it has ended. The operation itself reads nothing of the engine, so it makes no difference
  that the source has them in its middle.
\<close>

definition OnClose_engine :: "int \<Rightarrow> 's engine \<Rightarrow> fault + 's engine" where
  "OnClose_engine fd E = res_bind (epoll_del fd E) (\<lambda>E1. NetEngine_Remove fd (fd_close fd E1))"

primrec close_all :: "nat list \<Rightarrow> 's engine \<Rightarrow> fault + 's engine" where
  "close_all [] E = Inr E"
| "close_all (i # is) E = res_bind (OnClose_engine (int i) E) (close_all is)"

definition on_worker :: "('s worker \<Rightarrow> fault + 's worker) \<Rightarrow> nat \<Rightarrow> 's engine \<Rightarrow> fault + 's engine" where
  "on_worker f k E =
     (if k < length (en_workers E)
      then res_bind (f (en_workers E ! k)) (\<lambda>w.
           close_all (w_closed w) (E\<lparr>en_workers := (en_workers E)[k := w\<lparr>w_closed := []\<rparr>]\<rparr>))
      else Inl NullDeref)"

text \<open>What \<open>Acceptor::OnIn\<close> and \<open>Connector::OnOut\<close> do with a new connection.\<close>

definition adopt ::
    "'s app \<Rightarrow> nat \<Rightarrow> byte \<Rightarrow> int \<Rightarrow> int \<Rightarrow> 's \<Rightarrow> int \<Rightarrow> 's engine \<Rightarrow> fault + 's engine" where
  "adopt app n junk sendSize recvSize s fd E =
     res_bind (NetEngine_Add fd (HConnection None) E) (\<lambda>E1.
     res_bind (epoll_add fd (EPOLLIN OR EPOLLOUT) E1) (\<lambda>E2.
     res_bind (GetWorker E2) (\<lambda>k.
     on_worker (attach app n junk sendSize recvSize s (nat fd)) k
       (E2\<lparr>en_handlers := AList.update fd (HConnection (Some k)) (en_handlers E2)\<rparr>))))"

section \<open>Accepting and connecting\<close>

datatype accept_result = Accepted byte | AcceptAgain | AcceptFailed

text \<open>
  \<open>Acceptor::OnIn\<close>: one \<open>accept\<close> after the other until there is none; \<open>junk\<close> is what the new buffers hold. An \<open>accept\<close>
  that fails with another error than \<open>EAGAIN\<close> (a descriptor too many, a connection aborted) meets the assertion
  \<open>errno == EAGAIN\<close>. Its text is \<open>wtf\<close>, as in \<open>NetEngine::Add\<close> and \<open>Remove\<close>; the model adds the condition to tell them
  apart, which \<open>__OAssert\<close> does with the line.
\<close>

fun Acceptor_OnIn :: "'s app \<Rightarrow> nat \<Rightarrow> 's acceptor \<Rightarrow> accept_result list \<Rightarrow> 's engine \<Rightarrow> fault + 's engine" where
  "Acceptor_OnIn app n ac [] E = Inl OutOfFuel"
| "Acceptor_OnIn app n ac (r # rs) E =
     res_bind (oassert (ac_recvSize ac > 0 \<and> ac_sendSize ac > 0) ''buff size is zero'') (\<lambda>_.
     case r of
       AcceptAgain \<Rightarrow> Inr E
     | AcceptFailed \<Rightarrow> Inl (AssertFail ''wtf (errno == EAGAIN)'')
     | Accepted junk \<Rightarrow>
         (let (fd, E1) = fd_open E in
          res_bind (adopt app n junk (ac_sendSize ac) (ac_recvSize ac) (ac_create ac) fd E1) (Acceptor_OnIn app n ac rs)))"

definition Connector_OnOut :: "'s app \<Rightarrow> nat \<Rightarrow> byte \<Rightarrow> int \<Rightarrow> 's connector \<Rightarrow> 's engine \<Rightarrow> fault + 's engine" where
  "Connector_OnOut app n junk fd co E =
     res_bind (oassert (co_recvSize co > 0 \<and> co_sendSize co > 0) ''buff size is zero'') (\<lambda>_.
     res_bind (epoll_del fd E) (\<lambda>E1.
     res_bind (NetEngine_Remove fd E1) (\<lambda>E2.
     adopt app n junk (co_sendSize co) (co_recvSize co) (co_session co) fd E2)))"

definition Connector_OnError :: "int \<Rightarrow> 's connector \<Rightarrow> 's engine \<Rightarrow> fault + 's engine" where
  "Connector_OnError fd co E =
     res_bind (NetEngine_Remove fd (fd_close fd E)) (\<lambda>E1.
     Inr (E1\<lparr>en_failed := en_failed E1 @ [co_session co]\<rparr>))"

text \<open>
  \<open>Listen\<close>. \<open>ip\<close> is the address in the order of the network, as \<open>inet_addr\<close> stores it; \<open>htonl\<close> turns the bytes round on
  the little-endian target before they reach \<open>bind\<close>.
\<close>

definition htonl_bytes :: "byte list \<Rightarrow> byte list" where
  "htonl_bytes a = rev a"

definition NetEngine_Listen ::
    "bool \<Rightarrow> bool \<Rightarrow> bool \<Rightarrow> (byte list \<Rightarrow> int \<Rightarrow> bool) \<Rightarrow> bool \<Rightarrow> byte list \<Rightarrow> int \<Rightarrow> 's acceptor \<Rightarrow> 's engine
     \<Rightarrow> fault + bool \<times> 's engine" where
  "NetEngine_Listen socket_ok opt_ok nonblock_ok bind_ok listen_ok ip port ac E =
     res_bind (oassert socket_ok ''socket error'') (\<lambda>_.
     let (fd, E1) = fd_open E in
     res_bind (oassert opt_ok ''setsockopt error'') (\<lambda>_.
     res_bind (oassert nonblock_ok ''setnonbolocking error'') (\<lambda>_.
     if \<not> bind_ok (htonl_bytes ip) port then Inr (False, fd_close fd E1)
     else if \<not> listen_ok then Inr (False, fd_close fd E1)
     else res_bind (NetEngine_Add fd (HAcceptor ac) E1) (\<lambda>E2.
          res_bind (epoll_add fd EPOLLIN E2) (\<lambda>E3. Inr (True, E3))))))"

datatype connect_result = Connected | InProgress | ConnectError

definition NetEngine_Connect ::
    "bool \<Rightarrow> bool \<Rightarrow> bool \<Rightarrow> connect_result \<Rightarrow> 's connector \<Rightarrow> 's engine \<Rightarrow> fault + bool \<times> 's engine" where
  "NetEngine_Connect socket_ok nonblock_ok pton_ok ret co E =
     (if \<not> socket_ok then Inr (False, E)
      else
        let (fd, E1) = fd_open E in
        res_bind (oassert nonblock_ok ''setnonbolocking error'') (\<lambda>_.
        res_bind (oassert pton_ok ''inet_pton error'') (\<lambda>_.
        res_bind (oassert (ret \<noteq> ConnectError) ''connect error'') (\<lambda>_.
        res_bind (NetEngine_Add fd (HConnector co) E1) (\<lambda>E2.
        res_bind (epoll_add fd EPOLLOUT E2) (\<lambda>E3. Inr (True, E3)))))))"

section \<open>The loop\<close>

text \<open>One entry of \<open>_events\<close>, with what the system calls of its handlers give.\<close>

record event =
  ev_fd :: int
  ev_mask :: int
  ev_errno :: int
  ev_accepts :: "accept_result list"
  ev_junk :: byte

definition handler_OnError :: "'s app \<Rightarrow> nat \<Rightarrow> event \<Rightarrow> 's handler \<Rightarrow> 's engine \<Rightarrow> fault + 's engine" where
  "handler_OnError app n ev h E =
     (case h of
        HAcceptor ac \<Rightarrow> Inl (AssertFail ''acceptor error'')
      | HConnector co \<Rightarrow> Connector_OnError (ev_fd ev) co E
      | HConnection None \<Rightarrow> Inl NullDeref
      | HConnection (Some k) \<Rightarrow> on_worker (on_connection (Connection_OnError app n (ev_errno ev)) (nat (ev_fd ev))) k E)"

definition handler_OnOut :: "'s app \<Rightarrow> nat \<Rightarrow> event \<Rightarrow> 's handler \<Rightarrow> 's engine \<Rightarrow> fault + 's engine" where
  "handler_OnOut app n ev h E =
     (case h of
        HAcceptor ac \<Rightarrow> Inr E
      | HConnector co \<Rightarrow> Connector_OnOut app n (ev_junk ev) (ev_fd ev) co E
      | HConnection None \<Rightarrow> Inl NullDeref
      | HConnection (Some k) \<Rightarrow> on_worker (on_connection (Connection_OnOut app n) (nat (ev_fd ev))) k E)"

definition handler_OnIn :: "'s app \<Rightarrow> nat \<Rightarrow> event \<Rightarrow> 's handler \<Rightarrow> 's engine \<Rightarrow> fault + 's engine" where
  "handler_OnIn app n ev h E =
     (case h of
        HAcceptor ac \<Rightarrow> Acceptor_OnIn app n ac (ev_accepts ev) E
      | HConnector co \<Rightarrow> Inr E
      | HConnection None \<Rightarrow> Inl NullDeref
      | HConnection (Some k) \<Rightarrow> on_worker (on_connection (Connection_OnIn app n) (nat (ev_fd ev))) k E)"

text \<open>The handler is looked up again for each of the three bits.\<close>

definition on_bit ::
    "int \<Rightarrow> event \<Rightarrow> ('s handler \<Rightarrow> 's engine \<Rightarrow> fault + 's engine) \<Rightarrow> 's engine \<Rightarrow> fault + 's engine" where
  "on_bit b ev f E =
     (if ev_mask ev AND b \<noteq> 0
      then (case GetHandler (ev_fd ev) E of None \<Rightarrow> Inr E | Some h \<Rightarrow> f h E)
      else Inr E)"

definition dispatch_event :: "'s app \<Rightarrow> nat \<Rightarrow> event \<Rightarrow> 's engine \<Rightarrow> fault + 's engine" where
  "dispatch_event app n ev E =
     res_bind (on_bit EPOLLERR ev (handler_OnError app n ev) E) (\<lambda>E1.
     res_bind (on_bit EPOLLOUT ev (handler_OnOut app n ev) E1) (\<lambda>E2.
     on_bit EPOLLIN ev (handler_OnIn app n ev) E2))"

primrec dispatch_events :: "'s app \<Rightarrow> nat \<Rightarrow> event list \<Rightarrow> 's engine \<Rightarrow> fault + 's engine" where
  "dispatch_events app n [] E = Inr E"
| "dispatch_events app n (ev # evs) E = res_bind (dispatch_event app n ev E) (dispatch_events app n evs)"

text \<open>The results of the workers: \<open>ticks\<close> gives the clock at the start of each worker's turn and after each result.\<close>

primrec process_workers :: "'s app \<Rightarrow> nat \<Rightarrow> int \<Rightarrow> (nat \<Rightarrow> int \<times> int list) \<Rightarrow> nat list \<Rightarrow> 's engine \<Rightarrow> fault + 's engine" where
  "process_workers app n frame ticks [] E = Inr E"
| "process_workers app n frame ticks (k # ks) E =
     res_bind (on_worker (Process app n (fst (ticks k)) frame (snd (ticks k))) k E)
       (process_workers app n frame ticks ks)"

text \<open>
  \<open>epoll_wait\<close> may store as many events as there are handlers, \<open>CountHandlers\<close>, in an array of \<open>en_room\<close> entries.
\<close>

datatype wait_result = Ready "event list" | Interrupted | WaitError

definition NetEngine_Loop ::
    "'s app \<Rightarrow> nat \<Rightarrow> int \<Rightarrow> (nat \<Rightarrow> int \<times> int list) \<Rightarrow> wait_result \<Rightarrow> 's engine \<Rightarrow> fault + 's engine" where
  "NetEngine_Loop app n frameTick ticks res E =
     (if CountHandlers E = 0 then Inr E
      else case res of
        WaitError \<Rightarrow> Inl (AssertFail ''epoll wait error'')
      | Interrupted \<Rightarrow> Inr E
      | Ready evs \<Rightarrow>
          if int (length evs) > en_room E then Inl OutOfBounds
          else res_bind (dispatch_events app n evs E)
                 (process_workers app n (frameTick div int (length (en_workers E))) ticks [0..<length (en_workers E)]))"

end
