(* ===== verification/EngineSafe.thy ===== *)
theory EngineSafe
  imports Engine NetProps
begin

text \<open>
  The invariant of the engine: the table of handlers, the epoll set, the open descriptors and the workers' connections
  agree. Every operation of the main loop keeps it, together with the invariant of each worker, and none of them uses
  a handler or a connection that is gone.
\<close>

section \<open>The tables\<close>

lemma lowest_free_fresh: "lowest_free fds \<notin> set fds" "0 \<le> lowest_free fds"
proof -
  let ?c = "List.map int [0..<Suc (length fds)]"
  have "\<not> set ?c \<subseteq> set fds"
  proof
    assume "set ?c \<subseteq> set fds"
    from card_mono [OF _ this] have "card (set ?c) \<le> card (set fds)" by simp
    moreover have "card (set ?c) = Suc (length fds)"
      using distinct_card [of ?c] by (simp add: distinct_map inj_on_def del: upt_Suc)
    ultimately show False using card_length [of fds] by simp
  qed
  then have "filter (\<lambda>n. n \<notin> set fds) ?c \<noteq> []" by (auto simp: filter_empty_conv simp del: upt_Suc)
  from hd_in_set [OF this] have "lowest_free fds \<notin> set fds \<and> lowest_free fds \<in> set ?c"
    unfolding lowest_free_def by (auto simp del: upt_Suc)
  then show "lowest_free fds \<notin> set fds" "0 \<le> lowest_free fds" by auto
qed

definition handler_at :: "'s engine \<Rightarrow> int \<Rightarrow> 's handler \<Rightarrow> bool" where
  "handler_at E fd h =
     (case h of
        HAcceptor ac \<Rightarrow> buffer_sizes_ok (ac_sendSize ac) (ac_recvSize ac)
      | HConnector co \<Rightarrow> buffer_sizes_ok (co_sendSize co) (co_recvSize co)
      | HConnection None \<Rightarrow> False
      | HConnection (Some k) \<Rightarrow> k < length (en_workers E) \<and> w_conns (en_workers E ! k) (nat fd) \<noteq> None)"

definition tables_ok :: "'s engine \<Rightarrow> bool" where
  "tables_ok E \<longleftrightarrow>
     distinct (List.map fst (en_handlers E)) \<and> distinct (List.map fst (en_epoll E)) \<and>
     fst ` set (en_handlers E) = fst ` set (en_epoll E) \<and> fst ` set (en_handlers E) \<subseteq> set (en_open E) \<and>
     (\<forall>fd\<in>set (en_open E). 0 \<le> fd)"

definition registered :: "'s engine \<Rightarrow> nat \<Rightarrow> 's worker \<Rightarrow> bool" where
  "registered E k w \<longleftrightarrow> (\<forall>i. w_conns w i \<noteq> None \<longrightarrow> GetHandler (int i) E = Some (HConnection (Some k)))"

definition engine_ok :: "'s engine \<Rightarrow> bool" where
  "engine_ok E \<longleftrightarrow> tables_ok E \<and> (\<forall>w\<in>set (en_workers E). worker_ok w \<and> w_closed w = []) \<and>
     (\<forall>fd h. GetHandler fd E = Some h \<longrightarrow> handler_at E fd h) \<and>
     (\<forall>k<length (en_workers E). registered E k (en_workers E ! k))"

lemma handler_keys: "GetHandler fd E \<noteq> None \<longleftrightarrow> fd \<in> fst ` set (en_handlers E)"
  unfolding GetHandler_def by (metis map_of_eq_None_iff)

lemma handler_open: "tables_ok E \<Longrightarrow> GetHandler fd E = Some h \<Longrightarrow> 0 \<le> fd \<and> fd \<in> set (en_open E)"
  using handler_keys [of fd E] by (auto simp: tables_ok_def)

text \<open>The open descriptors that have no handler, and what no step changes: those and the capacities of the workers.\<close>

definition spare :: "'s engine \<Rightarrow> int set" where
  "spare E = set (en_open E) - fst ` set (en_handlers E)"

definition fixtures :: "'s engine \<Rightarrow> int list \<times> int set" where
  "fixtures E = (List.map w_max (en_workers E), spare E)"

lemma fixtures_workers:
  "fixtures E' = fixtures E \<Longrightarrow>
    List.map w_max (en_workers E') = List.map w_max (en_workers E) \<and> length (en_workers E') = length (en_workers E)"
  by (auto simp: fixtures_def dest: map_eq_imp_length_eq)

section \<open>What an operation on a worker leaves\<close>

lemma keys_delete: "fst ` set (AList.delete k xs) = fst ` set xs - {k}"
  by (metis delete_keys list.set_map set_removeAll)

lemma handler_at_workers: "en_workers E' = en_workers E \<Longrightarrow> handler_at E' fd h = handler_at E fd h"
  by (simp add: handler_at_def split: handler.splits option.splits)

text \<open>
  The state between the end of an operation on worker \<open>k\<close> and the last \<open>OnClose_engine\<close>: the connections still to be
  taken out of the tables are registered, and the worker has forgotten them.
\<close>

definition closing_ok :: "nat \<Rightarrow> nat list \<Rightarrow> 's engine \<Rightarrow> bool" where
  "closing_ok k L E \<longleftrightarrow> tables_ok E \<and> (\<forall>w\<in>set (en_workers E). worker_ok w \<and> w_closed w = []) \<and>
     (\<forall>fd h. GetHandler fd E = Some h \<longrightarrow> handler_at E fd h \<or> h = HConnection (Some k) \<and> nat fd \<in> set L) \<and>
     (\<forall>j<length (en_workers E). registered E j (en_workers E ! j)) \<and> k < length (en_workers E) \<and> distinct L \<and>
     (\<forall>i\<in>set L. GetHandler (int i) E = Some (HConnection (Some k)) \<and> w_conns (en_workers E ! k) i = None)"

lemma OnClose_engine_is:
  assumes "tables_ok E" "GetHandler fd E \<noteq> None"
  shows "OnClose_engine fd E = Inr (E\<lparr>en_handlers := AList.delete fd (en_handlers E),
    en_epoll := AList.delete fd (en_epoll E), en_open := removeAll fd (en_open E)\<rparr>)"
proof -
  have "fd \<in> fst ` set (en_epoll E)" "fd \<in> set (en_open E)"
    using assms handler_keys [of fd E] by (auto simp: tables_ok_def)
  then have "map_of (en_epoll E) fd \<noteq> None" by (simp add: map_of_eq_None_iff)
  then show ?thesis using \<open>fd \<in> set (en_open E)\<close> assms(2)
    by (simp add: OnClose_engine_def epoll_del_def fd_close_def NetEngine_Remove_def GetHandler_def delete_idem)
qed

lemma closing_step:
  assumes "closing_ok k (i # L) E"
  shows "\<exists>E'. OnClose_engine (int i) E = Inr E' \<and> closing_ok k L E' \<and> en_workers E' = en_workers E \<and> spare E' = spare E"
proof -
  define E' where "E' = E\<lparr>en_handlers := AList.delete (int i) (en_handlers E),
    en_epoll := AList.delete (int i) (en_epoll E), en_open := removeAll (int i) (en_open E)\<rparr>"
  have i: "GetHandler (int i) E = Some (HConnection (Some k))" "w_conns (en_workers E ! k) i = None" "i \<notin> set L"
    and t: "tables_ok E" using assms by (simp_all add: closing_ok_def)
  have look: "GetHandler x E' = (if x = int i then None else GetHandler x E)" for x
    by (simp add: E'_def GetHandler_def delete_conv')
  have ws: "en_workers E' = en_workers E" by (simp add: E'_def)
  have "tables_ok E'"
    using t unfolding tables_ok_def by (simp add: E'_def distinct_delete keys_delete) blast
  moreover have "registered E' j (en_workers E ! j)" if "j < length (en_workers E)" for j
  proof -
    have "registered E j (en_workers E ! j)" using assms that by (simp add: closing_ok_def)
    then show ?thesis using i(1,2) unfolding registered_def look by (metis handler.inject(3) of_nat_eq_iff option.inject)
  qed
  moreover have "handler_at E' x h \<or> h = HConnection (Some k) \<and> nat x \<in> set L" if h: "GetHandler x E' = Some h" for x h
  proof -
    have x: "x \<noteq> int i" "GetHandler x E = Some h" using h by (simp_all add: look split: if_splits)
    have "nat x \<noteq> i" using x handler_open [OF t x(2)] by auto
    then show ?thesis using assms x(2) handler_at_workers [OF ws] by (auto simp: closing_ok_def)
  qed
  moreover have "\<forall>j\<in>set L. GetHandler (int j) E' = Some (HConnection (Some k)) \<and> w_conns (en_workers E ! k) j = None"
    using assms i(3) by (auto simp: closing_ok_def look)
  ultimately have "closing_ok k L E'" using assms by (simp add: closing_ok_def ws)
  moreover have "spare E' = spare E"
    using handler_keys [of "int i" E] i(1) unfolding spare_def by (simp add: E'_def keys_delete) blast
  ultimately show ?thesis using OnClose_engine_is [OF t, of "int i"] i(1) ws by (simp add: E'_def [symmetric])
qed

lemma close_all_ok:
  "closing_ok k L E \<Longrightarrow> \<exists>E'. close_all L E = Inr E' \<and> engine_ok E' \<and> en_workers E' = en_workers E \<and> spare E' = spare E"
proof (induction L arbitrary: E)
  case Nil
  then show ?case by (simp add: closing_ok_def engine_ok_def)
next
  case (Cons i L)
  from closing_step [OF Cons(2)] obtain E1 where
    E1: "OnClose_engine (int i) E = Inr E1" "closing_ok k L E1" "en_workers E1 = en_workers E" "spare E1 = spare E" by blast
  from Cons(1) [OF E1(2)] E1(1,3,4) show ?case by simp
qed

text \<open>What an operation may do to the connections of its worker: close some of them, each once, and say so.\<close>

definition closing :: "'s worker \<Rightarrow> 's worker \<Rightarrow> bool" where
  "closing w w' \<longleftrightarrow> (\<exists>L. w_closed w' = w_closed w @ L \<and> distinct L \<and> set L \<subseteq> dom (w_conns w) \<and>
     dom (w_conns w') = dom (w_conns w) - set L) \<and> w_max w' = w_max w"

lemma closing_trans: "closing u v \<Longrightarrow> closing v w \<Longrightarrow> closing u w"
proof -
  assume "closing u v" "closing v w"
  then obtain L M where "w_closed v = w_closed u @ L" "distinct L" "set L \<subseteq> dom (w_conns u)"
    "dom (w_conns v) = dom (w_conns u) - set L" "w_closed w = w_closed v @ M" "distinct M" "set M \<subseteq> dom (w_conns v)"
    "dom (w_conns w) = dom (w_conns v) - set M" "w_max w = w_max u" by (auto simp: closing_def)
  then show ?thesis unfolding closing_def by (intro conjI exI [of _ "L @ M"]) auto
qed

lemma closing_same: "dom (w_conns w') = dom (w_conns w) \<Longrightarrow> w_closed w' = w_closed w \<Longrightarrow> w_max w' = w_max w \<Longrightarrow> closing w w'"
  unfolding closing_def by (intro conjI exI [of _ "[]"]) simp_all

lemma worker_ok_closed: "worker_ok (w\<lparr>w_closed := L\<rparr>) = worker_ok w"
  by (simp add: worker_ok_def books_ok_def conn_at_def stream_ok_def answered_def pending_def)

text \<open>
  The operation \<open>f\<close> on worker \<open>k\<close>, of which \<open>w0\<close> is the state with the connection that is being added, if there is one.
\<close>

lemma on_worker_closes:
  assumes "tables_ok E" "\<And>v. v \<in> set (en_workers E) \<Longrightarrow> worker_ok v \<and> w_closed v = []" "k < length (en_workers E)"
    and "f (en_workers E ! k) = Inr w" "worker_ok w" "closing w0 w" "w_closed w0 = []"
    and "\<And>fd h. GetHandler fd E = Some h \<Longrightarrow> h = HConnection (Some k) \<and> nat fd \<in> dom (w_conns w0) \<or>
      h \<noteq> HConnection (Some k) \<and> handler_at E fd h"
    and "\<And>j. j < length (en_workers E) \<Longrightarrow> j \<noteq> k \<Longrightarrow> registered E j (en_workers E ! j)" "registered E k w0"
  shows "\<exists>E'. on_worker f k E = Inr E' \<and> engine_ok E' \<and>
    fixtures E' = (List.map w_max ((en_workers E)[k := w0]), spare E)"
proof -
  let ?E = "E\<lparr>en_workers := (en_workers E)[k := w\<lparr>w_closed := []\<rparr>]\<rparr>"
  obtain L where L: "w_closed w = L" "distinct L" "set L \<subseteq> dom (w_conns w0)" "dom (w_conns w) = dom (w_conns w0) - set L"
    and mx: "w_max w = w_max w0" using assms(6,7) by (auto simp: closing_def)
  have at: "en_workers ?E ! j = (if j = k then w\<lparr>w_closed := []\<rparr> else en_workers E ! j)" for j using assms(3) by simp
  have look: "GetHandler x ?E = GetHandler x E" for x by (simp add: GetHandler_def)
  have none: "w_conns w i = None" if "i \<in> set L" for i using L(4) that by (metis DiffD2 domIff)
  have conns: "w_conns w i \<noteq> None \<longleftrightarrow> w_conns w0 i \<noteq> None \<and> i \<notin> set L" for i using L(4) by blast
  have "handler_at ?E x h \<or> h = HConnection (Some k) \<and> nat x \<in> set L" if h: "GetHandler x E = Some h" for x h
    using assms(8) [OF h] assms(3)
  proof (elim disjE conjE)
    assume "h = HConnection (Some k)" "nat x \<in> dom (w_conns w0)"
    then show ?thesis using conns [of "nat x"] assms(3) by (auto simp: handler_at_def at)
  next
    assume "h \<noteq> HConnection (Some k)" "handler_at E x h"
    then show ?thesis by (auto simp: handler_at_def at split: handler.splits option.splits)
  qed
  moreover have "registered ?E j (en_workers ?E ! j)" if "j < length (en_workers ?E)" for j
    using assms(9) [of j] assms(10) that conns unfolding registered_def look at by auto
  moreover have "\<forall>v\<in>set (en_workers ?E). worker_ok v \<and> w_closed v = []"
    using assms(2,5) set_update_subset_insert [of "en_workers E" k "w\<lparr>w_closed := []\<rparr>"] by (auto simp: worker_ok_closed)
  moreover have "tables_ok ?E" using assms(1) unfolding tables_ok_def by auto
  moreover have "\<forall>i\<in>set L. GetHandler (int i) E = Some (HConnection (Some k))"
    using assms(10) L(3) by (auto simp: registered_def)
  ultimately have "closing_ok k L ?E"
    using L(2) none assms(3) unfolding closing_ok_def look at by auto
  from close_all_ok [OF this] obtain E' where E': "close_all L ?E = Inr E'" "engine_ok E'" "en_workers E' = en_workers ?E"
    "spare E' = spare ?E" by blast
  then have "fixtures E' = (List.map w_max ((en_workers E)[k := w0]), spare E)"
    by (simp add: fixtures_def map_update mx) (simp add: spare_def)
  then show ?thesis using E'(1,2) L(1) assms(3,4) by (simp add: on_worker_def)
qed

lemma engine_worker: "engine_ok E \<Longrightarrow> k < length (en_workers E) \<Longrightarrow> worker_ok (en_workers E ! k)"
  by (simp add: engine_ok_def)

text \<open>The outcomes of the loop: the invariant, the workers' capacities unchanged, or one of three assertions.\<close>

definition engine_stops :: "fault set" where
  "engine_stops = {AssertFail ''there is not a worker has slot'', AssertFail ''acceptor error'',
     AssertFail ''wtf (errno == EAGAIN)''}"

definition runs_ok :: "int list \<times> int set \<Rightarrow> fault + 's engine \<Rightarrow> bool" where
  "runs_ok S r \<longleftrightarrow> (\<exists>E. r = Inr E \<and> engine_ok E \<and> fixtures E = S) \<or> (\<exists>f\<in>engine_stops. r = Inl f)"

lemma runs_ok_bind:
  "runs_ok S r \<Longrightarrow> (\<And>E. engine_ok E \<Longrightarrow> fixtures E = S \<Longrightarrow> runs_ok S (f E)) \<Longrightarrow>
   runs_ok S (res_bind r f)"
proof (cases r)
  case (Inl f)
  then show "runs_ok S r \<Longrightarrow> ?thesis" by (simp add: runs_ok_def)
next
  case (Inr E)
  then show "runs_ok S r \<Longrightarrow> (\<And>E. engine_ok E \<Longrightarrow> fixtures E = S \<Longrightarrow> runs_ok S (f E)) \<Longrightarrow> ?thesis"
    by (auto simp: runs_ok_def)
qed

lemma runs_ok_Inr: "engine_ok E \<Longrightarrow> runs_ok (fixtures E) (Inr E)"
  by (simp add: runs_ok_def)

lemma on_worker_runs:
  assumes "engine_ok E" "k < length (en_workers E)" "f (en_workers E ! k) = Inr w" "worker_ok w"
    and "closing (en_workers E ! k) w"
  shows "runs_ok (fixtures E) (on_worker f k E)"
proof -
  have ok: "tables_ok E" "\<And>v. v \<in> set (en_workers E) \<Longrightarrow> worker_ok v \<and> w_closed v = []" "w_closed (en_workers E ! k) = []"
    "\<And>j. j < length (en_workers E) \<Longrightarrow> registered E j (en_workers E ! j)"
    using assms(1,2) by (auto simp: engine_ok_def)
  have "h = HConnection (Some k) \<and> nat fd \<in> dom (w_conns (en_workers E ! k)) \<or> h \<noteq> HConnection (Some k) \<and> handler_at E fd h"
    if "GetHandler fd E = Some h" for fd h
  proof -
    have "handler_at E fd h" using assms(1) that by (simp add: engine_ok_def)
    then show ?thesis by (cases "h = HConnection (Some k)") (auto simp: handler_at_def)
  qed
  note h = this
  have "\<exists>E'. on_worker f k E = Inr E' \<and> engine_ok E' \<and>
    fixtures E' = (List.map w_max ((en_workers E)[k := en_workers E ! k]), spare E)"
  proof (rule on_worker_closes [where w = w])
    show "registered E j (en_workers E ! j)" if "j < length (en_workers E)" "j \<noteq> k" for j using ok(4) that(1) by blast
    show "registered E k (en_workers E ! k)" by (rule ok(4) [OF assms(2)])
  qed (fact assms(2-5) ok(1-3) h)+
  then show ?thesis by (simp add: runs_ok_def fixtures_def)
qed

section \<open>Operations of a worker\<close>

lemma adopted_connection_keeps:
  assumes "on_connection f i w = Inr w'"
  shows "closing w w'" "w_resq w' = w_resq w"
proof -
  from assms obtain c c' where c: "w_conns w i = Some c" and s: "settle i c' w = Inr w'"
    by (auto simp: on_connection_def res_bind_eq_Inr split: option.splits)
  show "w_resq w' = w_resq w" using s
    by (auto simp: settle_def NetWorker_Remove_def Let_def res_bind_eq_Inr split: if_splits)
  show "closing w w'"
  proof (cases "c_alive c'")
    case True
    then have "w' = w\<lparr>w_workq := c_workq c', w_conns := (w_conns w)(i \<mapsto> c')\<rparr>" using s by (simp add: settle_def Let_def)
    then show ?thesis using c by (intro closing_same) auto
  next
    case False
    then have "w_closed w' = w_closed w @ [i]" "w_conns w' = (w_conns w)(i := None)" "w_max w' = w_max w"
      using s by (auto simp: settle_def NetWorker_Remove_def Let_def res_bind_eq_Inr)
    then show ?thesis using c unfolding closing_def by (intro conjI exI [of _ "[i]"]) auto
  qed
qed

lemma attach_keeps:
  assumes "attach app n junk sendSize recvSize s i w = Inr w'"
  shows "closing (NetWorker_Add i (Connection_create i junk sendSize recvSize s (w_workq w)) w) w'"
  using adopted_connection_keeps(1) assms unfolding attach_def by blast

lemma handler_worker:
  assumes "engine_ok E" "GetHandler fd E = Some (HConnection (Some k))"
  shows "k < length (en_workers E) \<and> w_conns (en_workers E ! k) (nat fd) \<noteq> None"
proof -
  have "handler_at E fd (HConnection (Some k))" using assms by (simp add: engine_ok_def)
  then show ?thesis by (simp add: handler_at_def)
qed

lemma on_connection_runs:
  assumes "engine_ok E" "GetHandler fd E = Some (HConnection (Some k))"
    and "\<And>w. worker_ok w \<Longrightarrow> w_conns w (nat fd) \<noteq> None \<Longrightarrow> \<exists>w'. on_connection f (nat fd) w = Inr w' \<and> worker_ok w'"
  shows "runs_ok (fixtures E) (on_worker (on_connection f (nat fd)) k E)"
proof -
  have at: "k < length (en_workers E)" "w_conns (en_workers E ! k) (nat fd) \<noteq> None"
    using handler_worker [OF assms(1,2)] by blast+
  from assms(3) [OF engine_worker [OF assms(1) at(1)] at(2)] obtain w' where
    w': "on_connection f (nat fd) (en_workers E ! k) = Inr w'" "worker_ok w'" by blast
  show ?thesis by (rule on_worker_runs [where f = "on_connection f (nat fd)", OF assms(1) at(1) w' adopted_connection_keeps(1) [OF w'(1)]])
qed

lemma process_loop_runs:
  assumes "well_behaved app" "worker_ok w" "length (cq_list (w_resq w)) \<le> length clock"
  shows "\<exists>w'. process_loop app (Suc (Suc n)) limit clock w = Inr w' \<and> worker_ok w' \<and>
    closing w w'"
  using assms(2,3)
proof (induction clock arbitrary: w)
  case Nil
  have inv: "cq_inv (w_resq w)" using Nil(1) by (simp add: worker_ok_def books_ok_def)
  have "cq_list (w_resq w) = []" using Nil(2) by (metis le_zero_eq length_0_conv list.size(3))
  then have "cq_read (w_resq w) = None" using cq.deq_empty [OF inv] by simp
  then show ?case using Nil(1) closing_same [OF refl refl refl] by (simp add: process_loop.simps)
next
  case (Cons now clock)
  have inv: "cq_inv (w_resq w)" using Cons(2) by (simp add: worker_ok_def books_ok_def)
  show ?case
  proof (cases "cq_read (w_resq w)")
    case None
    then show ?thesis using Cons(2) closing_same [OF refl refl refl] by (simp add: process_loop.simps)
  next
    case (Some p)
    obtain i evt q where p: "p = ((i, evt), q)" by (metis prod.exhaust)
    have pop: "cq_read (w_resq w) = Some ((i, evt), q)" using Some p by simp
    from DoResult_ok [OF assms(1) Cons(2) pop] obtain w1 where
      w1: "DoResult app (Suc (Suc n)) (i, evt) (w\<lparr>w_resq := q\<rparr>) = Inr w1" "worker_ok w1" by blast
    have k: "closing w w1" "w_resq w1 = q"
      using adopted_connection_keeps [OF w1(1) [unfolded DoResult_def]] by (simp_all add: closing_def)
    have "cq_list (w_resq w) = (i, evt) # cq_list q" using cq.deq_some [OF inv pop] by simp
    then have "length (cq_list (w_resq w1)) \<le> length clock" using Cons(3) k(2) by simp
    from Cons(1) [OF w1(2) this] obtain w2 where "process_loop app (Suc (Suc n)) limit clock w1 = Inr w2" "worker_ok w2"
      "closing w1 w2" by blast
    then show ?thesis using pop w1 closing_trans [OF k(1)] k(1) by (subst process_loop.simps) auto
  qed
qed

section \<open>Choosing a worker\<close>

definition best_worker :: "'s worker list \<Rightarrow> nat \<Rightarrow> nat option \<Rightarrow> bool" where
  "best_worker ws n r \<longleftrightarrow>
     (case r of
        None \<Rightarrow> \<forall>j<n. GetFreeSlot (ws ! j) \<le> 0
      | Some k \<Rightarrow> k < n \<and> GetFreeSlot (ws ! k) > 0 \<and> (\<forall>j<n. GetFreeSlot (ws ! j) \<le> GetFreeSlot (ws ! k)) \<and>
          (\<forall>j<k. GetFreeSlot (ws ! j) < GetFreeSlot (ws ! k)))"

lemma fold_better_worker: "best_worker ws n (fold (better_worker ws) [0..<n] None)"
proof (induction n)
  case 0
  then show ?case by (simp add: best_worker_def)
next
  case (Suc n)
  then show ?case
    by (auto simp: best_worker_def better_worker_def less_Suc_eq split: option.splits)
qed

lemma GetWorker_cases:
  obtains k where "GetWorker E = Inr k" "best_worker (en_workers E) (length (en_workers E)) (Some k)"
  | "GetWorker E = Inl (AssertFail ''there is not a worker has slot'')"
    "\<forall>j<length (en_workers E). GetFreeSlot (en_workers E ! j) \<le> 0"
  using fold_better_worker [of "en_workers E" "length (en_workers E)"]
  by (cases "fold (better_worker (en_workers E)) [0..<length (en_workers E)] None")
    (simp_all add: GetWorker_def best_worker_def)

section \<open>A new connection\<close>

lemma buffer_sizes_pos: "buffer_sizes_ok a b \<Longrightarrow> b > 0 \<and> a > 0"
  by (simp add: buffer_sizes_ok_def)

lemma GetHandler_update:
  "GetHandler x (E\<lparr>en_handlers := AList.update fd h hs\<rparr>) = (if x = fd then Some h else map_of hs x)"
  by (simp add: GetHandler_def update_conv')

lemma tables_update:
  assumes "tables_ok E" "fd \<in> set (en_open E)"
  shows "tables_ok (E\<lparr>en_handlers := AList.update fd h (en_handlers E), en_epoll := AList.update fd m (en_epoll E)\<rparr>)"
  using assms by (auto simp: tables_ok_def distinct_update dom_update)

lemma adopt_runs:
  assumes "well_behaved app" "engine_ok E" "fd \<in> set (en_open E)" "GetHandler fd E = None" "buffer_sizes_ok sendSize recvSize"
  shows "runs_ok (List.map w_max (en_workers E), spare E - {fd}) (adopt app (Suc (Suc n)) junk sendSize recvSize s fd E)"
proof -
  define E2 where "E2 = E\<lparr>en_handlers := AList.update fd (HConnection None) (en_handlers E),
    en_epoll := AList.update fd ((EPOLLIN OR EPOLLOUT) OR 2147483672) (en_epoll E)\<rparr>"
  have tab: "tables_ok E" using assms(2) by (simp add: engine_ok_def)
  then have "fst ` set (en_handlers E) = fst ` set (en_epoll E)" by (simp add: tables_ok_def)
  then have "map_of (en_epoll E) fd = None"
    using assms(4) handler_keys [of fd E] by (simp add: map_of_eq_None_iff)
  then have steps: "adopt app (Suc (Suc n)) junk sendSize recvSize s fd E =
    res_bind (GetWorker E2) (\<lambda>k. on_worker (attach app (Suc (Suc n)) junk sendSize recvSize s (nat fd)) k
       (E2\<lparr>en_handlers := AList.update fd (HConnection (Some k)) (en_handlers E2)\<rparr>))"
    using assms(3,4) by (simp add: adopt_def NetEngine_Add_def epoll_add_def E2_def)
  have ws: "en_workers E2 = en_workers E" by (simp add: E2_def)
  show ?thesis
  proof (cases rule: GetWorker_cases [of E2])
    case (1 k)
    define E3 where "E3 = E2\<lparr>en_handlers := AList.update fd (HConnection (Some k)) (en_handlers E2)\<rparr>"
    have E3: "E3 = E\<lparr>en_handlers := AList.update fd (HConnection (Some k)) (en_handlers E),
        en_epoll := AList.update fd ((EPOLLIN OR EPOLLOUT) OR 2147483672) (en_epoll E)\<rparr>"
      by (simp add: E3_def E2_def)
    have k: "k < length (en_workers E)" "GetFreeSlot (en_workers E ! k) > 0"
      using 1(2) by (simp_all add: best_worker_def ws)
    have reg: "registered E j (en_workers E ! j)" if "j < length (en_workers E)" for j
      using assms(2) that by (simp add: engine_ok_def)
    have fd0: "0 \<le> fd" using tab assms(3) by (simp add: tables_ok_def)
    have free: "w_conns (en_workers E ! k) (nat fd) = None"
      using reg [OF k(1)] fd0 assms(4) by (auto simp: registered_def)
    from attach_ok [OF assms(1) engine_worker [OF assms(2) k(1)] free k(2) assms(5)] obtain w' where
      w': "attach app (Suc (Suc n)) junk sendSize recvSize s (nat fd) (en_workers E ! k) = Inr w'" "worker_ok w'" by blast
    have look: "GetHandler x E3 = (if x = fd then Some (HConnection (Some k)) else GetHandler x E)" for x
      by (simp add: E3 GetHandler_def update_conv')
    have ws3: "en_workers E3 = en_workers E" by (simp add: E3)
    let ?w0 = "NetWorker_Add (nat fd) (Connection_create (nat fd) junk sendSize recvSize s (w_workq (en_workers E ! k))) (en_workers E ! k)"
    have "\<exists>E'. on_worker (attach app (Suc (Suc n)) junk sendSize recvSize s (nat fd)) k E3 = Inr E' \<and> engine_ok E' \<and>
      fixtures E' = (List.map w_max ((en_workers E3)[k := ?w0]), spare E3)"
    proof (rule on_worker_closes)
      show "tables_ok E3" unfolding E3 by (rule tables_update [OF tab assms(3)])
      show "worker_ok v \<and> w_closed v = []" if "v \<in> set (en_workers E3)" for v
        using that assms(2) by (simp add: ws3 engine_ok_def)
      show "k < length (en_workers E3)" "worker_ok w'" using k(1) w'(2) by (simp_all add: ws3)
      show "attach app (Suc (Suc n)) junk sendSize recvSize s (nat fd) (en_workers E3 ! k) = Inr w'" using w'(1) by (simp add: ws3)
      show "closing ?w0 w'" by (rule attach_keeps [OF w'(1)])
      show "w_closed ?w0 = []" using assms(2) k(1) by (simp add: NetWorker_Add_def engine_ok_def)
      show "h = HConnection (Some k) \<and> nat x \<in> dom (w_conns ?w0) \<or> h \<noteq> HConnection (Some k) \<and> handler_at E3 x h"
        if h: "GetHandler x E3 = Some h" for x h
      proof (cases "x = fd")
        case True
        then show ?thesis using h by (simp add: look NetWorker_Add_def)
      next
        case False
        then have "handler_at E x h" using h assms(2) by (simp add: look engine_ok_def)
        then show ?thesis using handler_at_workers [OF ws3]
          by (cases "h = HConnection (Some k)") (auto simp: handler_at_def NetWorker_Add_def)
      qed
      show "registered E3 j (en_workers E3 ! j)" if "j < length (en_workers E3)" "j \<noteq> k" for j
        using reg [of j] that(1) assms(4) by (auto simp: registered_def look ws3)
      show "registered E3 k ?w0"
        using reg [OF k(1)] fd0 assms(4) by (auto simp: registered_def look NetWorker_Add_def)
    qed
    moreover have "spare E3 = spare E - {fd}" by (auto simp: spare_def E3 dom_update)
    moreover have "List.map w_max ((en_workers E)[k := ?w0]) = List.map w_max (en_workers E)"
      using k(1) by (simp add: NetWorker_Add_def map_update list_update_same_conv)
    ultimately show ?thesis
      unfolding steps 1(1) by (auto simp: E3_def [symmetric] ws3 runs_ok_def)
  next
    case 2
    then show ?thesis unfolding steps by (simp add: runs_ok_def engine_stops_def)
  qed
qed

section \<open>The handlers\<close>

lemma engine_ok_open:
  assumes "engine_ok E" "fd_open E = (fd, E')"
  shows "engine_ok E'" "fd \<in> set (en_open E')" "GetHandler fd E' = None" "GetHandler x E' = GetHandler x E"
    "en_workers E' = en_workers E" "map_of (en_epoll E') fd = None"
proof -
  have E': "E' = E\<lparr>en_open := fd # en_open E\<rparr>" "fd = lowest_free (en_open E)"
    using assms(2) by (auto simp: fd_open_def Let_def)
  have same: "GetHandler x E' = GetHandler x E" "en_workers E' = en_workers E" "en_epoll E' = en_epoll E" for x
    by (simp_all add: E' GetHandler_def)
  have t: "tables_ok E" using assms(1) by (simp add: engine_ok_def)
  show "en_workers E' = en_workers E" "GetHandler x E' = GetHandler x E" "fd \<in> set (en_open E')" by (simp_all add: same E' GetHandler_def)
  have "GetHandler fd E = None"
    using handler_open [OF t, of fd] lowest_free_fresh(1) [of "en_open E"] E'(2) by fastforce
  then show g: "GetHandler fd E' = None" by (simp add: same)
  have k: "fst ` set (en_handlers E) = fst ` set (en_epoll E)" using t by (simp add: tables_ok_def)
  show "map_of (en_epoll E') fd = None"
    using g handler_keys [of fd E] by (simp add: same map_of_eq_None_iff k)
  have "tables_ok E'" using t lowest_free_fresh(2) [of "en_open E"] by (auto simp: tables_ok_def E')
  then show "engine_ok E'"
    using assms(1) handler_at_workers [OF same(2)] by (simp add: engine_ok_def same registered_def)
qed

definition accepts_ok :: "accept_result list \<Rightarrow> bool" where
  "accepts_ok rs \<longleftrightarrow> (\<exists>js. rs = List.map Accepted js @ [AcceptAgain] \<or> rs = List.map Accepted js @ [AcceptFailed])"

lemma Acceptor_OnIn_runs:
  assumes "well_behaved app" "engine_ok E" "buffer_sizes_ok (ac_sendSize ac) (ac_recvSize ac)" "accepts_ok rs"
  shows "runs_ok (fixtures E) (Acceptor_OnIn app (Suc (Suc n)) ac rs E)"
proof -
  from assms(4) obtain js e where rs: "rs = List.map Accepted js @ [e]" and e: "e = AcceptAgain \<or> e = AcceptFailed"
    by (auto simp: accepts_ok_def)
  note pos = buffer_sizes_pos [OF assms(3)]
  show ?thesis unfolding rs using assms(2)
  proof (induction js arbitrary: E)
    case Nil
    then show ?case using pos e runs_ok_Inr [OF Nil] by (auto simp: runs_ok_def engine_stops_def)
  next
    case (Cons j js)
    obtain fd E1 where o: "fd_open E = (fd, E1)" by (metis prod.exhaust)
    note ok = engine_ok_open [OF Cons(2) o]
    have E1: "E1 = E\<lparr>en_open := fd # en_open E\<rparr>" "fd \<notin> set (en_open E)"
      using o lowest_free_fresh(1) [of "en_open E"] by (auto simp: fd_open_def Let_def)
    then have "(List.map w_max (en_workers E1), spare E1 - {fd}) = fixtures E" by (auto simp: fixtures_def spare_def)
    then have "runs_ok (fixtures E)
       (adopt app (Suc (Suc n)) j (ac_sendSize ac) (ac_recvSize ac) (ac_create ac) fd E1)"
      using adopt_runs [OF assms(1) ok(1-3) assms(3)] by metis
    then have "runs_ok (fixtures E)
       (res_bind (adopt app (Suc (Suc n)) j (ac_sendSize ac) (ac_recvSize ac) (ac_create ac) fd E1)
          (Acceptor_OnIn app (Suc (Suc n)) ac (List.map Accepted js @ [e])))"
    proof (rule runs_ok_bind)
      fix E' :: "'a engine" assume E': "engine_ok E'" "fixtures E' = fixtures E"
      from Cons(1) [OF E'(1)] show "runs_ok (fixtures E)
        (Acceptor_OnIn app (Suc (Suc n)) ac (List.map Accepted js @ [e]) E')" by (simp add: E'(2))
    qed
    then show ?case using pos o ok(5) by simp
  qed
qed

text \<open>Taking a connector out of the tables; its descriptor stays open for the connection, or is closed.\<close>

lemma engine_ok_remove:
  assumes "engine_ok E" "GetHandler fd E = Some (HConnector co)"
    and "E' = E\<lparr>en_handlers := AList.delete fd (en_handlers E), en_epoll := AList.delete fd (en_epoll E), en_open := op'\<rparr>"
    and "set (en_open E) - {fd} \<subseteq> set op'" "set op' \<subseteq> set (en_open E)"
  shows "engine_ok E'" "GetHandler fd E' = None"
proof -
  have look: "GetHandler x E' = (if x = fd then None else GetHandler x E)" for x
    by (simp add: assms(3) GetHandler_def delete_conv')
  then show "GetHandler fd E' = None" by simp
  have ws: "en_workers E' = en_workers E" by (simp add: assms(3))
  have "tables_ok E" using assms(1) by (simp add: engine_ok_def)
  then have "tables_ok E'"
    using assms(4,5) unfolding tables_ok_def by (simp add: assms(3) distinct_delete keys_delete) blast
  moreover have "registered E' k w" if "registered E k w" for k w
    using that assms(2) unfolding registered_def look by (metis handler.distinct(5) option.inject)
  moreover have "handler_at E' x h" if "GetHandler x E' = Some h" for x h
    using that assms(1) handler_at_workers [OF ws] by (simp add: look engine_ok_def split: if_splits)
  ultimately show "engine_ok E'" using assms(1) by (simp add: engine_ok_def ws)
qed

lemma Connector_OnOut_runs:
  assumes "well_behaved app" "engine_ok E" "GetHandler fd E = Some (HConnector co)"
  shows "runs_ok (fixtures E) (Connector_OnOut app (Suc (Suc n)) junk fd co E)"
proof -
  have t: "tables_ok E" using assms(2) by (simp add: engine_ok_def)
  have "handler_at E fd (HConnector co)" using assms(2,3) by (simp add: engine_ok_def)
  then have sz: "buffer_sizes_ok (co_sendSize co) (co_recvSize co)" by (simp add: handler_at_def)
  have fd: "fd \<in> set (en_open E)" using handler_open [OF t assms(3)] by simp
  have "fst ` set (en_handlers E) = fst ` set (en_epoll E)" using t by (simp add: tables_ok_def)
  then have ep: "map_of (en_epoll E) fd \<noteq> None" using handler_keys [of fd E] assms(3) by (simp add: map_of_eq_None_iff)
  define E2 where "E2 = E\<lparr>en_handlers := AList.delete fd (en_handlers E), en_epoll := AList.delete fd (en_epoll E),
    en_open := en_open E\<rparr>"
  note ok = engine_ok_remove [OF assms(2,3) E2_def]
  have E2: "E\<lparr>en_epoll := AList.delete fd (en_epoll E), en_handlers := AList.delete fd (en_handlers E)\<rparr> = E2"
    by (cases E) (simp add: E2_def)
  have "Connector_OnOut app (Suc (Suc n)) junk fd co E =
    adopt app (Suc (Suc n)) junk (co_sendSize co) (co_recvSize co) (co_session co) fd E2"
    using buffer_sizes_pos [OF sz] fd ep assms(3)
    by (simp add: Connector_OnOut_def epoll_del_def NetEngine_Remove_def GetHandler_def E2)
  moreover have "runs_ok (List.map w_max (en_workers E2), spare E2 - {fd})
    (adopt app (Suc (Suc n)) junk (co_sendSize co) (co_recvSize co) (co_session co) fd E2)"
    using ok fd by (intro adopt_runs [OF assms(1) _ _ _ sz]) (auto simp: E2_def)
  moreover have "fd \<in> fst ` set (en_handlers E)" using handler_keys [of fd E] assms(3) by simp
  then have "(List.map w_max (en_workers E2), spare E2 - {fd}) = fixtures E"
    unfolding fixtures_def spare_def by (simp add: E2_def keys_delete) blast
  ultimately show ?thesis by simp
qed

lemma Connector_OnError_is:
  assumes "GetHandler fd E = Some (HConnector co)"
  shows "Connector_OnError fd co E = Inr (E\<lparr>en_handlers := AList.delete fd (en_handlers E),
    en_epoll := AList.delete fd (en_epoll E), en_open := removeAll fd (en_open E), en_failed := en_failed E @ [co_session co]\<rparr>)"
  using assms by (simp add: Connector_OnError_def NetEngine_Remove_def fd_close_def GetHandler_def)

lemma failed_same:
  "tables_ok (E\<lparr>en_failed := fs\<rparr>) = tables_ok E" "GetHandler fd (E\<lparr>en_failed := fs\<rparr>) = GetHandler fd E"
  "handler_at (E\<lparr>en_failed := fs\<rparr>) fd h = handler_at E fd h" "registered (E\<lparr>en_failed := fs\<rparr>) k w = registered E k w"
  by (simp_all add: tables_ok_def GetHandler_def registered_def handler_at_def split: handler.splits option.splits)

lemma Connector_OnError_runs:
  assumes "engine_ok E" "GetHandler fd E = Some (HConnector co)"
  shows "runs_ok (fixtures E) (Connector_OnError fd co E)"
proof -
  define E2 where "E2 = E\<lparr>en_handlers := AList.delete fd (en_handlers E), en_epoll := AList.delete fd (en_epoll E),
    en_open := removeAll fd (en_open E)\<rparr>"
  have "engine_ok E2" by (rule engine_ok_remove [OF assms E2_def]) auto
  then have "engine_ok (E2\<lparr>en_failed := en_failed E @ [co_session co]\<rparr>)"
    by (simp add: engine_ok_def failed_same)
  moreover have "fixtures (E2\<lparr>en_failed := en_failed E @ [co_session co]\<rparr>) = fixtures E"
    using handler_keys [of fd E] assms(2) unfolding fixtures_def spare_def by (simp add: E2_def keys_delete) blast
  ultimately show ?thesis unfolding Connector_OnError_is [OF assms(2)] by (simp add: runs_ok_def E2_def)
qed

lemma handler_at_of: "engine_ok E \<Longrightarrow> GetHandler fd E = Some h \<Longrightarrow> handler_at E fd h"
  by (simp add: engine_ok_def)

section \<open>The loop\<close>

definition event_ok :: "event \<Rightarrow> bool" where
  "event_ok ev \<longleftrightarrow> accepts_ok (ev_accepts ev)"

lemma conn_runs:
  assumes "engine_ok E" "GetHandler fd E = Some (HConnection (Some k))"
    and "\<And>G D c. conn_ok G D c \<Longrightarrow> \<exists>c'. f c = Inr c' \<and> ends_ok G D c' \<and> op_step G c c'"
  shows "runs_ok (fixtures E) (on_worker (on_connection f (nat fd)) k E)"
  by (rule on_connection_runs [OF assms(1,2)]) (rule on_connection_ok, assumption+, rule assms(3))

lemma handler_cases:
  assumes "engine_ok E" "GetHandler fd E = Some h"
  obtains ac where "h = HAcceptor ac" "buffer_sizes_ok (ac_sendSize ac) (ac_recvSize ac)"
  | co where "h = HConnector co" | k where "h = HConnection (Some k)"
  using handler_at_of [OF assms] that by (cases h) (auto simp: handler_at_def split: option.splits)

lemma handler_runs:
  assumes "well_behaved app" "engine_ok E" "GetHandler (ev_fd ev) E = Some h" "event_ok ev"
  shows "runs_ok (fixtures E) (handler_OnError app (Suc (Suc n)) ev h E)"
    and "runs_ok (fixtures E) (handler_OnOut app (Suc (Suc n)) ev h E)"
    and "runs_ok (fixtures E) (handler_OnIn app (Suc (Suc n)) ev h E)"
proof -
  show "runs_ok (fixtures E) (handler_OnError app (Suc (Suc n)) ev h E)"
  proof (cases rule: handler_cases [OF assms(2,3)])
    case (1 ac)
    then show ?thesis by (simp add: handler_OnError_def runs_ok_def engine_stops_def)
  next
    case (2 co)
    with Connector_OnError_runs [OF assms(2), of "ev_fd ev" co] assms(3) show ?thesis by (simp add: handler_OnError_def)
  next
    case (3 k)
    with conn_runs [OF assms(2) _ OnError_ok [OF assms(1)]] assms(3) show ?thesis by (simp add: handler_OnError_def)
  qed
  show "runs_ok (fixtures E) (handler_OnOut app (Suc (Suc n)) ev h E)"
  proof (cases rule: handler_cases [OF assms(2,3)])
    case (1 ac)
    then show ?thesis using runs_ok_Inr [OF assms(2)] by (simp add: handler_OnOut_def)
  next
    case (2 co)
    with Connector_OnOut_runs [OF assms(1,2), of "ev_fd ev" co] assms(3) show ?thesis by (simp add: handler_OnOut_def)
  next
    case (3 k)
    with conn_runs [OF assms(2) _ OnIn_ok(2) [OF assms(1)]] assms(3) show ?thesis by (simp add: handler_OnOut_def)
  qed
  show "runs_ok (fixtures E) (handler_OnIn app (Suc (Suc n)) ev h E)"
  proof (cases rule: handler_cases [OF assms(2,3)])
    case (1 ac)
    with Acceptor_OnIn_runs [OF assms(1,2), of ac "ev_accepts ev"] assms(4) show ?thesis
      by (simp add: handler_OnIn_def event_ok_def)
  next
    case (2 co)
    then show ?thesis using runs_ok_Inr [OF assms(2)] by (simp add: handler_OnIn_def)
  next
    case (3 k)
    with conn_runs [OF assms(2) _ OnIn_ok(1) [OF assms(1)]] assms(3) show ?thesis by (simp add: handler_OnIn_def)
  qed
qed

lemma on_bit_runs:
  assumes "engine_ok E" "\<And>h. GetHandler (ev_fd ev) E = Some h \<Longrightarrow> runs_ok (fixtures E) (f h E)"
  shows "runs_ok (fixtures E) (on_bit b ev f E)"
  using assms runs_ok_Inr [OF assms(1)] by (simp add: on_bit_def split: option.splits)

lemma dispatch_event_runs:
  assumes "well_behaved app" "engine_ok E" "event_ok ev"
  shows "runs_ok (fixtures E) (dispatch_event app (Suc (Suc n)) ev E)"
proof -
  let ?S = "fixtures E" and ?e = "on_bit EPOLLERR ev (handler_OnError app (Suc (Suc n)) ev)"
    and ?o = "on_bit EPOLLOUT ev (handler_OnOut app (Suc (Suc n)) ev)" and ?i = "on_bit EPOLLIN ev (handler_OnIn app (Suc (Suc n)) ev)"
  have step: "runs_ok ?S (?e E')" "runs_ok ?S (?o E')" "runs_ok ?S (?i E')"
    if "engine_ok E'" "fixtures E' = ?S" for E'
    unfolding that(2) [symmetric]
    by (rule on_bit_runs [OF that(1)], rule handler_runs [OF assms(1) that(1) _ assms(3)], assumption)+
  show ?thesis unfolding dispatch_event_def
    by (rule runs_ok_bind [OF step(1) [OF assms(2) refl]], rule runs_ok_bind [OF step(2)], assumption+, rule step(3))
qed

lemma dispatch_events_runs:
  assumes "well_behaved app" "engine_ok E" "\<forall>ev\<in>set evs. event_ok ev"
  shows "runs_ok (fixtures E) (dispatch_events app (Suc (Suc n)) evs E)"
  using assms(2,3)
proof (induction evs arbitrary: E)
  case Nil
  then show ?case using runs_ok_Inr by simp
next
  case (Cons ev evs)
  have "event_ok ev" using Cons(3) by simp
  from dispatch_event_runs [OF assms(1) Cons(2) this] show ?case
  proof (simp, rule runs_ok_bind)
    fix E1 :: "'a engine" assume 1: "engine_ok E1" "fixtures E1 = fixtures E"
    show "runs_ok (fixtures E) (dispatch_events app (Suc (Suc n)) evs E1)"
      unfolding 1(2) [symmetric] using Cons(1) [OF 1(1)] Cons(3) by simp
  qed
qed

lemma results_bound: "worker_ok w \<Longrightarrow> int (length (cq_list (w_resq w))) \<le> 2 * w_max w"
proof -
  assume w: "worker_ok w"
  have inv: "cq_inv (w_resq w)" and cap: "cq_capacity (w_resq w) = nat (2 * w_max w)" and m: "0 \<le> w_max w"
    using w by (auto simp: worker_ok_def books_ok_def)
  show ?thesis using cq.within [OF inv] cap m by simp
qed

lemma process_workers_runs:
  assumes "well_behaved app" "engine_ok E" "\<forall>k\<in>set ks. k < length (en_workers E)"
    and "\<forall>k\<in>set ks. 2 * List.map w_max (en_workers E) ! k \<le> int (length (snd (ticks k)))"
  shows "runs_ok (fixtures E) (process_workers app (Suc (Suc n)) frame ticks ks E)"
  using assms(2-4)
proof (induction ks arbitrary: E)
  case Nil
  then show ?case using runs_ok_Inr by simp
next
  case (Cons k ks)
  have k: "k < length (en_workers E)" using Cons(3) by simp
  note w = engine_worker [OF Cons(2) k]
  have "length (cq_list (w_resq (en_workers E ! k))) \<le> length (snd (ticks k))"
    using results_bound [OF w] Cons(4) k by simp
  from process_loop_runs [OF assms(1) w this] obtain w' where
    w': "Process app (Suc (Suc n)) (fst (ticks k)) frame (snd (ticks k)) (en_workers E ! k) = Inr w'" "worker_ok w'"
    "closing (en_workers E ! k) w'"
    unfolding Process_def by metis
  from on_worker_runs [where f = "Process app (Suc (Suc n)) (fst (ticks k)) frame (snd (ticks k))", OF Cons(2) k w'] show ?case
  proof (simp, rule runs_ok_bind)
    fix E1 :: "'a engine" assume 1: "engine_ok E1" "fixtures E1 = fixtures E"
    have "List.map w_max (en_workers E1) = List.map w_max (en_workers E)" "length (en_workers E1) = length (en_workers E)"
      using fixtures_workers [OF 1(2)] by simp_all
    then show "runs_ok (fixtures E) (process_workers app (Suc (Suc n)) frame ticks ks E1)"
      unfolding 1(2) [symmetric] using Cons(1) [OF 1(1)] Cons(3,4) by simp
  qed
qed

text \<open>\<open>Listen\<close> and \<open>Connect\<close> from the modules.\<close>

lemma engine_ok_add:
  assumes "engine_ok E" "fd \<in> set (en_open E)" "GetHandler fd E = None" "handler_at E fd h"
  shows "engine_ok (E\<lparr>en_handlers := AList.update fd h (en_handlers E), en_epoll := AList.update fd m (en_epoll E)\<rparr>)"
proof -
  let ?E = "E\<lparr>en_handlers := AList.update fd h (en_handlers E), en_epoll := AList.update fd m (en_epoll E)\<rparr>"
  have ws: "en_workers ?E = en_workers E" by simp
  have look: "GetHandler x ?E = (if x = fd then Some h else GetHandler x E)" for x
    by (simp add: GetHandler_def update_conv')
  have t: "tables_ok ?E" using assms(1,2) by (intro tables_update) (simp_all add: engine_ok_def)
  have r: "registered ?E k (en_workers E ! k)" if "k < length (en_workers E)" for k
    using that assms(1,3) unfolding registered_def look engine_ok_def by (metis option.distinct(1))
  have h: "handler_at ?E x g" if "GetHandler x ?E = Some g" for x g
  proof (cases "x = fd")
    case True
    then have "g = h" using that unfolding look by simp
    then show ?thesis using True assms(4) handler_at_workers [OF ws] by simp
  next
    case False
    then have "GetHandler x E = Some g" using that unfolding look by simp
    then show ?thesis using handler_at_of [OF assms(1)] handler_at_workers [OF ws] by simp
  qed
  have w: "\<forall>w\<in>set (en_workers E). worker_ok w \<and> w_closed w = []" using assms(1) by (simp add: engine_ok_def)
  show ?thesis unfolding engine_ok_def ws by (intro conjI allI impI t w h r)
qed

lemma add_steps:
  assumes "engine_ok E" "fd_open E = (fd, E1)" "handler_at E1 fd h"
  shows "\<exists>E3. res_bind (NetEngine_Add fd h E1) (\<lambda>E2. res_bind (epoll_add fd m E2) (\<lambda>E3. Inr (True, E3))) = Inr (True, E3) \<and>
    engine_ok E3 \<and> fixtures E3 = fixtures E \<and> GetHandler fd E3 = Some h"
proof -
  note o = engine_ok_open [OF assms(1,2)]
  let ?E3 = "E1\<lparr>en_handlers := AList.update fd h (en_handlers E1), en_epoll := AList.update fd (m OR 2147483672) (en_epoll E1)\<rparr>"
  have g: "GetHandler fd ?E3 = Some h" by (simp add: GetHandler_def update_conv')
  have a: "NetEngine_Add fd h E1 = Inr (E1\<lparr>en_handlers := AList.update fd h (en_handlers E1)\<rparr>)"
    using o(3) by (simp add: NetEngine_Add_def)
  have e: "epoll_add fd m (E1\<lparr>en_handlers := AList.update fd h (en_handlers E1)\<rparr>) = Inr ?E3"
    using o(2,6) by (simp add: epoll_add_def)
  have "E1 = E\<lparr>en_open := fd # en_open E\<rparr>" "fd \<notin> set (en_open E)"
    using assms(2) lowest_free_fresh(1) [of "en_open E"] by (auto simp: fd_open_def Let_def)
  then have w: "fixtures ?E3 = fixtures E" by (auto simp: fixtures_def spare_def dom_update)
  have k: "engine_ok ?E3" by (rule engine_ok_add [OF o(1-3) assms(3)])
  have "res_bind (NetEngine_Add fd h E1) (\<lambda>E2. res_bind (epoll_add fd m E2) (\<lambda>E3. Inr (True, E3))) = Inr (True, ?E3)"
    unfolding a res_bind_Inr e ..
  then show ?thesis using g w k by blast
qed

lemma engine_ok_close_fresh:
  assumes "engine_ok E" "fd_open E = (fd, E1)"
  shows "engine_ok (fd_close fd E1)" "fixtures (fd_close fd E1) = fixtures E"
proof -
  have "AList.delete fd (en_epoll E1) = en_epoll E1"
    using engine_ok_open(6) [OF assms] by (simp add: map_of_eq_None_iff delete_idem)
  moreover have "removeAll fd (en_open E1) = en_open E"
    using assms(2) lowest_free_fresh(1) [of "en_open E"] by (auto simp: fd_open_def Let_def)
  moreover have "E1 = E\<lparr>en_open := fd # en_open E\<rparr>" using assms(2) by (auto simp: fd_open_def Let_def)
  ultimately have "fd_close fd E1 = E" by (simp add: fd_close_def)
  then show "engine_ok (fd_close fd E1)" "fixtures (fd_close fd E1) = fixtures E" using assms(1) by simp_all
qed

lemma Listen_ok:
  assumes "engine_ok E" "buffer_sizes_ok (ac_sendSize ac) (ac_recvSize ac)"
    and "NetEngine_Listen socket_ok opt_ok nonblock_ok bind_ok listen_ok ip port ac E = Inr (b, E')"
  shows "engine_ok E'" "fixtures E' = fixtures E"
proof -
  obtain fd E1 where o: "fd_open E = (fd, E1)" by (metis prod.exhaust)
  have "handler_at E1 fd (HAcceptor ac)" using assms(2) by (simp add: handler_at_def)
  from add_steps [OF assms(1) o this, of EPOLLIN] engine_ok_close_fresh [OF assms(1) o] assms(3)
  show "engine_ok E'" "fixtures E' = fixtures E"
    by (auto simp: NetEngine_Listen_def o res_bind_eq_Inr oassert_eq split: if_splits)
qed

lemma Connect_ok:
  assumes "engine_ok E" "buffer_sizes_ok (co_sendSize co) (co_recvSize co)"
    and "NetEngine_Connect socket_ok nonblock_ok pton_ok ret co E = Inr (b, E')"
  shows "engine_ok E'" "fixtures E' = fixtures E"
proof -
  obtain fd E1 where o: "fd_open E = (fd, E1)" by (metis prod.exhaust)
  have "handler_at E1 fd (HConnector co)" using assms(2) by (simp add: handler_at_def)
  from add_steps [OF assms(1) o this, of EPOLLOUT] assms(1,3)
  show "engine_ok E'" "fixtures E' = fixtures E"
    by (auto simp: NetEngine_Connect_def o res_bind_eq_Inr oassert_eq split: if_splits)
qed

lemma new_workers_ok:
  assumes "new_workers n m = Inr ws" "0 \<le> m" "m < 1073741823"
  shows "(\<forall>w\<in>set ws. worker_ok w \<and> w_closed w = [] \<and> w_conns w = Map.empty \<and> w_max w = m) \<and> length ws = n"
  using assms(1)
proof (induction n arbitrary: ws)
  case 0
  then show ?case by simp
next
  case (Suc n)
  then obtain w vs where w: "NetWorker_new m = Inr w" "new_workers n m = Inr vs" "ws = w # vs"
    by (auto simp: res_bind_eq_Inr)
  have "w_conns w = Map.empty \<and> w_closed w = [] \<and> w_max w = m" using w(1) by (auto simp: NetWorker_new_def res_bind_eq_Inr)
  then show ?case using Suc(1) [OF w(2)] NetWorker_new_ok [OF w(1) assms(2,3)] w(3) by simp
qed

lemma Initialize_ok:
  assumes "NetEngine_Initialize support threads fds = Inr E" "support < 1073741823" "\<forall>fd\<in>set fds. 0 \<le> fd"
  shows "engine_ok E \<and> fixtures E = (replicate (nat threads) (support div threads), insert (lowest_free fds) (set fds))"
proof -
  from assms(1) obtain ws where p: "support > 0" "threads > 0" and ws: "new_workers (nat threads) (support div threads) = Inr ws"
    and E: "E = \<lparr>en_room = support, en_workers = ws, en_handlers = [], en_epoll = [], en_open = lowest_free fds # fds, en_failed = []\<rparr>"
    by (auto simp: NetEngine_Initialize_def res_bind_eq_Inr oassert_eq)
  have "0 \<le> support div threads" "support div threads \<le> support div 1"
    using p by (simp add: pos_imp_zdiv_nonneg_iff, intro zdiv_mono2) simp_all
  then have m: "0 \<le> support div threads" "support div threads < 1073741823" using assms(2) by simp_all
  note w = new_workers_ok [OF ws m]
  have "registered E k (ws ! k)" if "k < length ws" for k using w that by (auto simp: registered_def dest: nth_mem)
  then have "engine_ok E"
    using w assms(3) lowest_free_fresh(2) by (auto simp: E engine_ok_def tables_ok_def GetHandler_def)
  moreover have "List.map w_max ws = replicate (nat threads) (support div threads)"
    using w by (auto intro!: nth_equalityI)
  ultimately show ?thesis by (simp add: E fixtures_def spare_def)
qed

end
