(* ===== verification/EngineProps.thy ===== *)
theory EngineProps
  imports EngineSafe
begin

text \<open>
  The engine as it runs: the main thread listens, connects, hands out events, handles results and makes the modules'
  calls while the worker threads answer requests, in any order. In every state reached so the tables agree, and a step
  succeeds or stops in one of the assertions about failed system calls and full workers.
\<close>

section \<open>Reachable states\<close>

inductive engine_step :: "'s app \<Rightarrow> nat \<Rightarrow> 's engine \<Rightarrow> fault + 's engine \<Rightarrow> bool" for app n E where
  es_listen: "buffer_sizes_ok (ac_sendSize ac) (ac_recvSize ac) \<Longrightarrow>
    engine_step app n E (res_bind (NetEngine_Listen so op nb bd li ip port ac E) (\<lambda>(b, E'). Inr E'))"
| es_connect: "buffer_sizes_ok (co_sendSize co) (co_recvSize co) \<Longrightarrow>
    engine_step app n E (res_bind (NetEngine_Connect so nb pt ret co E) (\<lambda>(b, E'). Inr E'))"
| es_event: "event_ok ev \<Longrightarrow> engine_step app n E (dispatch_event app n ev E)"
| es_process: "k < length (en_workers E) \<Longrightarrow> 2 * w_max (en_workers E ! k) \<le> int (length clock) \<Longrightarrow>
    engine_step app n E (on_worker (Process app n tick frame clock) k E)"
| es_send: "GetHandler fd E = Some (HConnection (Some k)) \<Longrightarrow> int (length bs) < 1073741824 \<Longrightarrow>
    engine_step app n E (on_worker (on_connection (Connection_send app n bs) (nat fd)) k E)"
| es_close: "GetHandler fd E = Some (HConnection (Some k)) \<Longrightarrow>
    engine_step app n E (on_worker (on_connection (Connection_close app n) (nat fd)) k E)"
| es_work: "k < length (en_workers E) \<Longrightarrow> cq_read (w_workq (en_workers E ! k)) = Some ((i, e), q) \<Longrightarrow>
    (\<And>c. w_conns (en_workers E ! k) i = Some c \<Longrightarrow>
       recv_script (b_size (recvW c)) ros \<and> send_script (b_offset (sendW c)) sos) \<Longrightarrow>
    engine_step app n E (on_worker (ThreadProc_turn ros sos) k E)"

inductive engine_reach :: "'s app \<Rightarrow> nat \<Rightarrow> int \<Rightarrow> int \<Rightarrow> int list \<Rightarrow> 's engine \<Rightarrow> bool" for app n support threads fds where
  er_start: "NetEngine_Initialize support threads fds = Inr E \<Longrightarrow> \<forall>fd\<in>set fds. 0 \<le> fd \<Longrightarrow>
    engine_reach app n support threads fds E"
| er_step: "engine_reach app n support threads fds E \<Longrightarrow> engine_step app n E (Inr E') \<Longrightarrow>
    engine_reach app n support threads fds E'"

inductive_cases engine_stepE: "engine_step app n E r"

text \<open>The assertions the code makes about system calls and about free slots.\<close>

definition allowed_stops :: "fault set" where
  "allowed_stops = AssertFail ` {''there is not a worker has slot'', ''acceptor error'', ''send buffer is empty'', ''socket error'',
     ''setsockopt error'', ''setnonbolocking error'', ''inet_pton error'', ''connect error'', ''wtf (errno == EAGAIN)''}"

definition step_ok :: "int list \<times> int set \<Rightarrow> fault + 's engine \<Rightarrow> bool" where
  "step_ok S r \<longleftrightarrow> (\<exists>E. r = Inr E \<and> engine_ok E \<and> fixtures E = S) \<or> (\<exists>f\<in>allowed_stops. r = Inl f)"

lemma runs_step: "runs_ok S r \<Longrightarrow> step_ok S r"
  by (auto simp: runs_ok_def step_ok_def engine_stops_def allowed_stops_def)

lemma DoRequest_keeps:
  assumes "DoRequest ros sos r w = Inr w'"
  shows "dom (w_conns w') = dom (w_conns w)" "w_max w' = w_max w" "w_closed w' = w_closed w"
  using assms by (auto simp: DoRequest_def res_bind_eq_Inr split: prod.splits option.splits work_event.splits if_splits)

lemma ThreadProc_turn_keeps:
  assumes "ThreadProc_turn ros sos w = Inr w'"
  shows "closing w w'"
proof (cases "cq_read (w_workq w)")
  case None
  then show ?thesis using assms by (simp add: ThreadProc_turn_def closing_same)
next
  case (Some p)
  then have "DoRequest ros sos (fst p) (w\<lparr>w_workq := snd p\<rparr>) = Inr w'" using assms by (simp add: ThreadProc_turn_def split_beta)
  from DoRequest_keeps [OF this] show ?thesis by (intro closing_same) simp_all
qed

lemma Listen_fault: "NetEngine_Listen so op nb bd li ip port ac E = Inl f \<Longrightarrow> engine_ok E \<Longrightarrow>
    buffer_sizes_ok (ac_sendSize ac) (ac_recvSize ac) \<Longrightarrow> f \<in> allowed_stops"
proof -
  assume a: "NetEngine_Listen so op nb bd li ip port ac E = Inl f" "engine_ok E" "buffer_sizes_ok (ac_sendSize ac) (ac_recvSize ac)"
  obtain fd E1 where o: "fd_open E = (fd, E1)" by (metis prod.exhaust)
  have "handler_at E1 fd (HAcceptor ac)" using a(3) by (simp add: handler_at_def)
  from add_steps [OF a(2) o this, of EPOLLIN] a(1) show ?thesis
    by (auto simp: NetEngine_Listen_def o allowed_stops_def oassert_def split: if_splits)
qed

lemma Connect_fault: "NetEngine_Connect so nb pt ret co E = Inl f \<Longrightarrow> engine_ok E \<Longrightarrow>
    buffer_sizes_ok (co_sendSize co) (co_recvSize co) \<Longrightarrow> f \<in> allowed_stops"
proof -
  assume a: "NetEngine_Connect so nb pt ret co E = Inl f" "engine_ok E" "buffer_sizes_ok (co_sendSize co) (co_recvSize co)"
  obtain fd E1 where o: "fd_open E = (fd, E1)" by (metis prod.exhaust)
  have "handler_at E1 fd (HConnector co)" using a(3) by (simp add: handler_at_def)
  from add_steps [OF a(2) o this, of EPOLLOUT] a(1) show ?thesis
    by (auto simp: NetEngine_Connect_def o allowed_stops_def oassert_def split: if_splits)
qed

lemma engine_step_ok:
  assumes app: "well_behaved app" and E: "engine_ok E" and step: "engine_step app (Suc (Suc n)) E r"
  shows "step_ok (fixtures E) r"
  using step
proof cases
  case (es_listen ac so op nb bd li ip port)
  show ?thesis
  proof (cases "NetEngine_Listen so op nb bd li ip port ac E")
    case (Inl f)
    then show ?thesis using Listen_fault [OF Inl E es_listen(2)] by (simp add: es_listen(1) step_ok_def)
  next
    case (Inr p)
    then show ?thesis using Listen_ok [OF E es_listen(2)] by (cases p) (simp add: es_listen(1) step_ok_def)
  qed
next
  case (es_connect co so nb pt ret)
  show ?thesis
  proof (cases "NetEngine_Connect so nb pt ret co E")
    case (Inl f)
    then show ?thesis using Connect_fault [OF Inl E es_connect(2)] by (simp add: es_connect(1) step_ok_def)
  next
    case (Inr p)
    then show ?thesis using Connect_ok [OF E es_connect(2)] by (cases p) (simp add: es_connect(1) step_ok_def)
  qed
next
  case (es_event ev)
  then show ?thesis using runs_step [OF dispatch_event_runs [OF app E]] by simp
next
  case (es_process k clock tick frame)
  note w = engine_worker [OF E es_process(2)]
  have "length (cq_list (w_resq (en_workers E ! k))) \<le> length clock" using results_bound [OF w] es_process(3) by simp
  from process_loop_runs [OF app w this, of n "tick + frame"] obtain w' where
    "Process app (Suc (Suc n)) tick frame clock (en_workers E ! k) = Inr w'" "worker_ok w'"
    "closing (en_workers E ! k) w'"
    unfolding Process_def by blast
  from runs_step [OF on_worker_runs [where f = "Process app (Suc (Suc n)) tick frame clock", OF E es_process(2) this]]
  show ?thesis by (simp add: es_process(1))
next
  case (es_send fd k bs)
  have "\<exists>c'. Connection_send app (Suc (Suc n)) bs c = Inr c' \<and> ends_ok G D c' \<and> op_step G c c'"
    if "conn_ok G D c" for G D and c :: "'a conn"
    using call_ok [OF app, of G D c "PSend bs"] that es_send(3) by (simp add: Connection_send_def ends_ok_def)
  from runs_step [OF conn_runs [OF E es_send(2) this]] show ?thesis by (simp add: es_send(1))
next
  case (es_close fd k)
  have "\<exists>c'. Connection_close app (Suc (Suc n)) c = Inr c' \<and> ends_ok G D c' \<and> op_step G c c'"
    if "conn_ok G D c" for G D and c :: "'a conn"
    using call_ok [OF app, of G D c "PClose"] that  by (simp add: Connection_close_def ends_ok_def)
  from runs_step [OF conn_runs [OF E es_close(2) this]] show ?thesis by (simp add: es_close(1))
next
  case (es_work k i e q ros sos)
  note w = engine_worker [OF E es_work(2)]
  have "net_step app (Suc (Suc n)) (en_workers E ! k) (ThreadProc_turn ros sos (en_workers E ! k))"
    using es_work(3,4) by (rule net_work)
  from net_step_ok [OF app w this] show ?thesis
  proof
    assume "\<exists>w'. ThreadProc_turn ros sos (en_workers E ! k) = Inr w' \<and> worker_ok w'"
    then obtain w' where w': "ThreadProc_turn ros sos (en_workers E ! k) = Inr w'" "worker_ok w'" by blast
    from runs_step [OF on_worker_runs [where f = "ThreadProc_turn ros sos", OF E es_work(2) w' ThreadProc_turn_keeps [OF w'(1)]]]
    show ?thesis by (simp add: es_work(1))
  next
    assume "ThreadProc_turn ros sos (en_workers E ! k) = Inl (AssertFail ''send buffer is empty'')"
    then show ?thesis using es_work(2) by (simp add: es_work(1) on_worker_def step_ok_def allowed_stops_def)
  qed
qed

lemma engine_reach_ok:
  assumes "engine_reach app (Suc (Suc n)) support threads fds E" "well_behaved app" "support < 1073741823"
  shows "engine_ok E \<and> fixtures E = (replicate (nat threads) (support div threads), insert (lowest_free fds) (set fds))"
  using assms
proof (induction rule: engine_reach.induct)
  case (er_start E)
  then show ?case by (intro Initialize_ok)
next
  case (er_step E E')
  then show ?case using engine_step_ok [of app E n "Inr E'"] by (simp add: step_ok_def)
qed

section \<open>The properties\<close>

text \<open>
  C2. Whatever the order of the main thread's and the workers' steps, none uses a deleted connection, a handler that is
  not registered or memory outside a buffer, registers a descriptor twice or deregisters one that is not: from every
  reachable state a step succeeds or stops in one of nine assertions, about a failed system call (a failed \<open>accept\<close>
  among them), a worker without a free slot, an error of a listening socket or a send request on an empty buffer. That is for
  an application that is \<open>well_behaved\<close> (it makes no pipe call in \<open>OnError\<close> and \<open>OnDisconnected\<close>, sends less than
  $2^{30}$ bytes at a time, and its parser takes no more than it is given) and a support below $2^{30} - 1$ connections; what
  happens without is in \<open>NetFindings\<close>.
\<close>

theorem engine_step_safe:
  assumes "engine_reach app (Suc (Suc n)) support threads fds E" "well_behaved app" "support < 1073741823"
    and "engine_step app (Suc (Suc n)) E r"
  shows "(\<exists>E'. r = Inr E') \<or>
    (\<exists>msg\<in>{''there is not a worker has slot'', ''acceptor error'', ''send buffer is empty'', ''socket error'',
       ''setsockopt error'', ''setnonbolocking error'', ''inet_pton error'', ''connect error'', ''wtf (errno == EAGAIN)''}. r = Inl (AssertFail msg))"
proof -
  have "engine_ok E" using engine_reach_ok [OF assms(1-3)] by simp
  from engine_step_ok [OF assms(2) this assms(4)] show ?thesis
    unfolding step_ok_def allowed_stops_def by (auto simp del: insert_iff)
qed

text \<open>
  C3. In every state reachable with a well-behaved application, buffer sizes that are positive and below $2^{30}$, and a
  support below $2^{30} - 1$, the table of handlers and the epoll set hold the same descriptors, all of them open and each
  once; the connections in the table are exactly the live connections of the workers, each under the worker it was given
  to, so a connection that closes leaves none of the three behind; no descriptor without a handler is open but \<open>fds\<close>,
  those open at the start, and epoll's own, so none leaks; and there are never more connections than the configured support.
\<close>

theorem engine_tables_agree:
  assumes "engine_reach app (Suc (Suc n)) support threads fds E" "well_behaved app" "support < 1073741823"
  shows "fst ` set (en_handlers E) = fst ` set (en_epoll E) \<and> fst ` set (en_handlers E) \<subseteq> set (en_open E) \<and>
    distinct (List.map fst (en_handlers E)) \<and> distinct (List.map fst (en_epoll E)) \<and>
    (\<forall>fd k. GetHandler fd E = Some (HConnection k) \<longrightarrow>
       (\<exists>j<length (en_workers E). k = Some j \<and> w_conns (en_workers E ! j) (nat fd) \<noteq> None)) \<and>
    (\<forall>j<length (en_workers E). \<forall>i. w_conns (en_workers E ! j) i \<noteq> None \<longrightarrow>
       GetHandler (int i) E = Some (HConnection (Some j))) \<and>
    set (en_open E) - fst ` set (en_handlers E) = insert (lowest_free fds) (set fds) \<and>
    (\<Sum>w\<leftarrow>en_workers E. w_now w) \<le> max 0 support"
proof -
  note ok = engine_reach_ok [OF assms]
  then have E: "tables_ok E" "\<forall>w\<in>set (en_workers E). worker_ok w" "\<forall>k<length (en_workers E). registered E k (en_workers E ! k)"
    by (simp_all add: engine_ok_def)
  have h: "\<exists>j<length (en_workers E). k = Some j \<and> w_conns (en_workers E ! j) (nat fd) \<noteq> None"
    if "GetHandler fd E = Some (HConnection k)" for fd k
    using handler_at_of [OF conjunct1 [OF ok] that] by (auto simp: handler_at_def split: option.splits)
  have "(\<Sum>w\<leftarrow>en_workers E. w_now w) \<le> (\<Sum>w\<leftarrow>en_workers E. w_max w)"
    using E(2) by (intro sum_list_mono) (auto simp: worker_ok_def books_ok_def)
  also have "\<dots> = int (nat threads) * (support div threads)" using ok by (simp add: fixtures_def sum_list_replicate)
  also have "\<dots> \<le> max 0 support"
  proof (cases "threads > 0")
    case True
    then have "0 \<le> support mod threads" by simp
    moreover have "threads * (support div threads) + support mod threads = support" by simp
    ultimately have "threads * (support div threads) \<le> support" by linarith
    then show ?thesis using True by simp
  qed simp
  finally have s: "(\<Sum>w\<leftarrow>en_workers E. w_now w) \<le> max 0 support" .
  have "spare E = insert (lowest_free fds) (set fds)" using ok by (simp add: fixtures_def)
  then show ?thesis using E(1,3) h s unfolding tables_ok_def registered_def spare_def by blast
qed







section \<open>A running engine\<close>

definition demo_acceptor :: "byte list acceptor" where
  "demo_acceptor = \<lparr>ac_create = [], ac_sendSize = 4, ac_recvSize = 4\<rparr>"

definition started :: "byte list engine" where
  "started = \<lparr>en_room = 1, en_workers = [idle_worker\<lparr>w_conns := Map.empty, w_now := 0\<rparr>], en_handlers = [], en_epoll = [],
     en_open = [3, 0, 1, 2], en_failed = []\<rparr>"

definition listening :: "byte list engine" where
  "listening = started\<lparr>en_handlers := [(4, HAcceptor demo_acceptor)], en_epoll := [(4, 2147483673)], en_open := [4, 3, 0, 1, 2]\<rparr>"

definition accept_one :: event where
  "accept_one = \<lparr>ev_fd = 4, ev_mask = 1, ev_errno = 0, ev_accepts = [Accepted 0, AcceptAgain], ev_junk = 0\<rparr>"

definition serving :: "byte list engine" where
  "serving = listening\<lparr>en_workers := [idle_worker\<lparr>w_conns := [5 \<mapsto> idle_conn\<lparr>c_id := 5\<rparr>]\<rparr>],
     en_handlers := [(4, HAcceptor demo_acceptor), (5, HConnection (Some 0))],
     en_epoll := [(4, 2147483673), (5, 2147483677)], en_open := [5, 4, 3, 0, 1, 2]\<rparr>"

lemma started_reach: "engine_reach echo_app n 1 1 [0, 1, 2] started"
proof (rule er_start)
  show "NetEngine_Initialize 1 1 [0, 1, 2] = Inr started"
    by (simp add: NetEngine_Initialize_def started_def lowest_free_def NetWorker_new_def cq_new_def demo_defs s32_def
        numeral_eq_Suc)
qed simp

lemma listening_reach: "engine_reach echo_app n 1 1 [0, 1, 2] listening"
proof (rule er_step [OF started_reach])
  have "res_bind (NetEngine_Listen True True True (\<lambda>_ _. True) True [0, 0, 0, 0] 80 demo_acceptor started) (\<lambda>(b, E'). Inr E') =
    Inr listening"
    by (simp add: NetEngine_Listen_def fd_open_def lowest_free_def started_def listening_def NetEngine_Add_def
        epoll_add_def GetHandler_def EPOLLIN_def)
  moreover have "buffer_sizes_ok (ac_sendSize demo_acceptor) (ac_recvSize demo_acceptor)"
    by (simp add: buffer_sizes_ok_def demo_acceptor_def)
  ultimately show "engine_step echo_app n started (Inr listening)" by (metis es_listen)
qed

lemma accept_one_ok: "event_ok accept_one"
  unfolding event_ok_def accepts_ok_def by (rule exI [of _ "[0]"]) (simp add: accept_one_def)

lemma accept_one_runs: "dispatch_event echo_app (Suc (Suc n)) accept_one listening = Inr serving"
  by (simp add: dispatch_event_def on_bit_def EPOLLERR_def EPOLLOUT_def EPOLLIN_def accept_one_def handler_OnIn_def
      GetHandler_def demo_acceptor_def fd_open_def lowest_free_def adopt_def NetEngine_Add_def epoll_add_def GetWorker_def
      better_worker_def GetFreeSlot_def on_worker_def attach_def on_connection_def NetWorker_Add_def
      Connection_OnConnected_def deliver_def settle_def echo_app_def listening_def started_def
      serving_def demo_defs)

lemma serving_reach: "engine_reach echo_app (Suc (Suc n)) 1 1 [0, 1, 2] serving"
  using er_step [OF listening_reach] es_event [OF accept_one_ok, of echo_app "Suc (Suc n)" listening]
  by (simp add: accept_one_runs)

lemma engine_step_safe_witness:
  "(\<exists>E'. dispatch_event echo_app 2 accept_one listening = Inr E') \<or>
   (\<exists>msg\<in>{''there is not a worker has slot'', ''acceptor error'', ''send buffer is empty'', ''socket error'',
       ''setsockopt error'', ''setnonbolocking error'', ''inet_pton error'', ''connect error'', ''wtf (errno == EAGAIN)''}.
     dispatch_event echo_app 2 accept_one listening = Inl (AssertFail msg))"
  using engine_step_safe [where n = 0, OF listening_reach echo_app_ok _ es_event [OF accept_one_ok]]
  by (simp add: numeral_2_eq_2 del: insert_iff)

lemma engine_tables_agree_witness:
  "fst ` set (en_handlers serving) = fst ` set (en_epoll serving) \<and> (\<Sum>w\<leftarrow>en_workers serving. w_now w) \<le> 1"
  using engine_tables_agree [where n = 0, OF serving_reach echo_app_ok] by simp


text \<open>
  The array of events has one entry for each configured connection, but the listening sockets and the connectors are
  handlers as well: with one of them and every slot taken, \<open>epoll_wait\<close> may store behind its end.
\<close>

lemma events_overrun:
  assumes "ev_fd a = 4" "ev_fd b = 5"
  shows "engine_reach echo_app (Suc (Suc n)) 1 1 [0, 1, 2] serving" "int (length [a, b]) \<le> CountHandlers serving"
    "NetEngine_Loop echo_app (Suc (Suc n)) frameTick ticks (Ready [a, b]) serving = Inl OutOfBounds"
  using serving_reach by (simp_all add: NetEngine_Loop_def CountHandlers_def serving_def listening_def started_def)

text \<open>
  A peer that goes before it is accepted (\<open>ECONNABORTED\<close>) or a process without a free descriptor (\<open>EMFILE\<close>) makes \<open>accept\<close>
  fail: the process ends, in a state that is reachable.
\<close>

lemma failed_accept_aborts:
  "engine_reach echo_app n 1 1 [0, 1, 2] listening"
  "event_ok \<lparr>ev_fd = 4, ev_mask = 1, ev_errno = 0, ev_accepts = [AcceptFailed], ev_junk = 0\<rparr>"
  "dispatch_event echo_app n \<lparr>ev_fd = 4, ev_mask = 1, ev_errno = 0, ev_accepts = [AcceptFailed], ev_junk = 0\<rparr> listening =
    Inl (AssertFail ''wtf (errno == EAGAIN)'')"
proof -
  show "engine_reach echo_app n 1 1 [0, 1, 2] listening" by (rule listening_reach)
  show "event_ok \<lparr>ev_fd = 4, ev_mask = 1, ev_errno = 0, ev_accepts = [AcceptFailed], ev_junk = 0\<rparr>"
    by (auto simp: event_ok_def accepts_ok_def intro!: exI [of _ "[]"])
qed (simp add: dispatch_event_def on_bit_def EPOLLERR_def EPOLLOUT_def EPOLLIN_def handler_OnIn_def GetHandler_def
    listening_def demo_acceptor_def)

text \<open>A connection that could not be made is reported once, whatever other bits come with the error.\<close>

lemma refused_once:
  assumes "GetHandler (ev_fd ev) E = Some (HConnector co)" "ev_mask ev AND EPOLLERR \<noteq> 0"
  shows "\<exists>E'. dispatch_event app n ev E = Inr E' \<and> en_failed E' = en_failed E @ [co_session co] \<and>
    GetHandler (ev_fd ev) E' = None \<and> en_workers E' = en_workers E \<and> ev_fd ev \<notin> set (en_open E')"
proof -
  let ?E = "E\<lparr>en_handlers := AList.delete (ev_fd ev) (en_handlers E), en_epoll := AList.delete (ev_fd ev) (en_epoll E),
    en_open := removeAll (ev_fd ev) (en_open E), en_failed := en_failed E @ [co_session co]\<rparr>"
  have "GetHandler (ev_fd ev) ?E = None" by (simp add: GetHandler_def delete_conv')
  then have "dispatch_event app n ev E = Inr ?E"
    using assms Connector_OnError_is [OF assms(1)] by (simp add: dispatch_event_def on_bit_def handler_OnError_def)
  then show ?thesis using \<open>GetHandler (ev_fd ev) ?E = None\<close> by simp
qed

text \<open>\<open>Listen\<close> binds to the address whose bytes are those of \<open>ip\<close> in reverse.\<close>

lemma listen_reverses_address:
  assumes "NetEngine_Listen so op nb (\<lambda>a p. a = bound) li ip port ac E = Inr (True, E')"
  shows "bound = rev ip"
  using assms by (auto simp: NetEngine_Listen_def htonl_bytes_def Let_def res_bind_eq_Inr split: prod.splits if_splits)

end
