(* ===== verification/KernelCore.thy ===== *)
theory KernelCore
  imports Prelude "HOL-Library.AList" "HOL-Library.Char_ord" "HOL-Library.Multiset"
begin

text \<open>
  The kernel around the network (\<open>src/src/kernel\<close>): the command line and the numbers of the configuration
  (\<open>ConfigMgr.cpp\<close>, \<open>tools.h\<close>), the modules of the dynamic libraries and their life cycle (\<open>LogicMgr.cpp\<close>,
  \<open>IModule.h\<close>). What tinyxml reads from the files and what \<open>dlopen\<close> finds are parameters.
\<close>

section \<open>The command line\<close>

definition starts_with :: "string \<Rightarrow> string \<Rightarrow> bool" where
  "starts_with p s \<longleftrightarrow> take (length p) s = p"

definition before_equal :: "string \<Rightarrow> string" where
  "before_equal s = takeWhile (\<lambda>c. c \<noteq> CHR ''='') s"

definition after_equal :: "string \<Rightarrow> string" where
  "after_equal s = tl (dropWhile (\<lambda>c. c \<noteq> CHR ''='') s)"

text \<open>\<open>ConfigMgr::parse\<close>: \<open>--name=value\<close> for each argument but the first; \<open>strstr\<close> finds the first equals sign.\<close>

fun parse_args :: "string list \<Rightarrow> (string \<times> string) list \<Rightarrow> fault + (string \<times> string) list" where
  "parse_args [] args = Inr args"
| "parse_args (a # rest) args =
     res_bind (oassert (starts_with ''--'' a) ''invalid argv'') (\<lambda>_.
     let start = drop 2 a in
     res_bind (oassert (CHR ''='' \<in> set start) ''invalid argv'') (\<lambda>_.
     parse_args rest (AList.update (before_equal start) (after_equal start) args)))"

definition ConfigMgr_parse :: "string list \<Rightarrow> fault + (string \<times> string) list" where
  "ConfigMgr_parse argv = parse_args (drop 1 argv) []"

definition GetCmdArg :: "string \<Rightarrow> (string \<times> string) list \<Rightarrow> string option" where
  "GetCmdArg name args = map_of args name"

text \<open>
  \<open>StringAsInt\<close> is \<open>atoi\<close>: in the GNU C library the result of \<open>strtol\<close>, which stays within 64 bits, cut to an \<open>int\<close>.
\<close>

definition is_space :: "char \<Rightarrow> bool" where
  "is_space c \<longleftrightarrow> c = CHR '' '' \<or> CHR 0x09 \<le> c \<and> c \<le> CHR 0x0D"

definition is_digit :: "char \<Rightarrow> bool" where
  "is_digit c \<longleftrightarrow> CHR ''0'' \<le> c \<and> c \<le> CHR ''9''"

definition digits_value :: "string \<Rightarrow> int" where
  "digits_value ds = foldl (\<lambda>a c. a * 10 + (of_char c - 48)) 0 ds"

definition atoi :: "string \<Rightarrow> int" where
  "atoi s =
     (let t = dropWhile is_space s;
          neg = (take 1 t = ''-'');
          u = (if take 1 t = ''-'' \<or> take 1 t = ''+'' then tl t else t);
          v = digits_value (takeWhile is_digit u) in
      s32 (if neg then max (- 9223372036854775808) (- v) else min 9223372036854775807 v))"

definition StringAsInt :: "string option \<Rightarrow> fault + int" where
  "StringAsInt val = (case val of None \<Rightarrow> Inl (AssertFail ''val is null'') | Some s \<Rightarrow> Inr (atoi s))"

text \<open>The members \<open>ConfigMgr::Initialize\<close> reads; \<open>attr\<close> gives the attribute of a child of the root element.\<close>

record config =
  cf_frameDuration :: int
  cf_netFrameTick :: int
  cf_netFrameWaitTick :: int
  cf_netSupportSize :: int
  cf_netThreadCount :: int

definition ConfigMgr_Initialize ::
    "(string \<Rightarrow> string \<Rightarrow> string option) \<Rightarrow> string list \<Rightarrow> fault + (string \<times> string) list \<times> config" where
  "ConfigMgr_Initialize attr argv =
     res_bind (ConfigMgr_parse argv) (\<lambda>args.
     res_bind (oassert (GetCmdArg ''name'' args \<noteq> None) ''invalid command args, there is no name'') (\<lambda>_.
     res_bind (StringAsInt (attr ''loop'' ''tick'')) (\<lambda>frame.
     res_bind (StringAsInt (attr ''net'' ''tick'')) (\<lambda>tick.
     res_bind (StringAsInt (attr ''net'' ''wait'')) (\<lambda>wait.
     res_bind (StringAsInt (attr ''net'' ''support'')) (\<lambda>support.
     res_bind (StringAsInt (attr ''net'' ''thread'')) (\<lambda>thread.
     Inr (args, \<lparr>cf_frameDuration = frame, cf_netFrameTick = tick, cf_netFrameWaitTick = wait,
                 cf_netSupportSize = support, cf_netThreadCount = thread\<rparr>))))))))"

section \<open>Modules\<close>

text \<open>A module acts on the world; the results of its \<open>Initialize\<close> and \<open>Launched\<close> are dropped by \<open>LogicMgr\<close>.\<close>

record 'w logic_module =
  md_Initialize :: "'w \<Rightarrow> bool \<times> 'w"
  md_Launched :: "'w \<Rightarrow> bool \<times> 'w"
  md_Loop :: "'w \<Rightarrow> 'w"
  md_Destroy :: "'w \<Rightarrow> 'w"

type_synonym 'w module_table = "(string \<times> 'w logic_module) list"

text \<open>\<open>CREATE_MODULE\<close> puts a module before those of its library created earlier; \<open>SetName\<close> keeps 62 characters.\<close>

definition CREATE_MODULE :: "string \<Rightarrow> 'w logic_module \<Rightarrow> 'w module_table \<Rightarrow> 'w module_table" where
  "CREATE_MODULE name m chain = (take 62 name, m) # chain"

definition FindModule :: "string \<Rightarrow> 'w module_table \<Rightarrow> 'w logic_module option" where
  "FindModule name mods = map_of mods name"

fun load_chain :: "'w module_table \<Rightarrow> 'w module_table \<Rightarrow> fault + 'w module_table" where
  "load_chain [] mods = Inr mods"
| "load_chain ((name, m) # chain) mods =
     res_bind (oassert (FindModule name mods = None) ''duplicate logic name'') (\<lambda>_. load_chain chain ((name, m) # mods))"

text \<open>\<open>LoadModule\<close>: the library found under a path gives the chain of its modules, at least one.\<close>

definition LoadModule :: "(string \<Rightarrow> 'w module_table option) \<Rightarrow> string \<Rightarrow> 'w module_table \<Rightarrow> fault + 'w module_table" where
  "LoadModule dl path mods =
     (case dl path of
        None \<Rightarrow> Inl (AssertFail ''open error'')
      | Some chain \<Rightarrow> res_bind (oassert (chain \<noteq> []) ''can't get module'') (\<lambda>_. load_chain chain mods))"

definition module_file :: "string \<Rightarrow> string \<Rightarrow> string \<Rightarrow> string" where
  "module_file app path name = take 511 (app @ ''/'' @ path @ ''lib'' @ name @ ''.so'')"

primrec load_modules ::
    "(string \<Rightarrow> 'w module_table option) \<Rightarrow> string \<Rightarrow> string \<Rightarrow> string list \<Rightarrow> 'w module_table \<Rightarrow> fault + 'w module_table" where
  "load_modules dl app path [] mods = Inr mods"
| "load_modules dl app path (name # names) mods =
     res_bind (LoadModule dl (module_file app path name) mods) (load_modules dl app path names)"

text \<open>
  \<open>LogicMgr::Initialize\<close>: all modules of the configuration are loaded, then each is initialised, then each launched.
  \<open>order\<close> is the order in which the unordered map is gone through.
\<close>

definition run_all :: "('w logic_module \<Rightarrow> 'w \<Rightarrow> 'w) \<Rightarrow> ('w module_table \<Rightarrow> 'w module_table) \<Rightarrow> 'w module_table \<Rightarrow> 'w \<Rightarrow> 'w" where
  "run_all f order mods w = fold (\<lambda>(name, m). f m) (order mods) w"

definition LogicMgr_Initialize ::
    "(string \<Rightarrow> 'w module_table option) \<Rightarrow> ('w module_table \<Rightarrow> 'w module_table) \<Rightarrow> string \<Rightarrow> string \<Rightarrow> string list \<Rightarrow> 'w
     \<Rightarrow> fault + 'w module_table \<times> 'w" where
  "LogicMgr_Initialize dl order app path names w =
     res_bind (load_modules dl app path names []) (\<lambda>mods.
     Inr (mods, run_all (\<lambda>m. snd \<circ> md_Launched m) order mods (run_all (\<lambda>m. snd \<circ> md_Initialize m) order mods w)))"

definition LogicMgr_Loop :: "('w module_table \<Rightarrow> 'w module_table) \<Rightarrow> 'w module_table \<Rightarrow> 'w \<Rightarrow> 'w" where
  "LogicMgr_Loop order mods w = run_all md_Loop order mods w"

definition LogicMgr_Destroy :: "('w module_table \<Rightarrow> 'w module_table) \<Rightarrow> 'w module_table \<Rightarrow> 'w \<Rightarrow> 'w" where
  "LogicMgr_Destroy order mods w = run_all md_Destroy order mods w"

text \<open>\<open>Kernel::Loop\<close>: a turn of the network, then one of the modules, as often as \<open>_terminate\<close> is found unset.\<close>

primrec Kernel_Loop ::
    "('w \<Rightarrow> fault + 'w) \<Rightarrow> ('w module_table \<Rightarrow> 'w module_table) \<Rightarrow> 'w module_table \<Rightarrow> nat \<Rightarrow> 'w \<Rightarrow> fault + 'w" where
  "Kernel_Loop net order mods 0 w = Inr w"
| "Kernel_Loop net order mods (Suc n) w =
     res_bind (net w) (\<lambda>w. Kernel_Loop net order mods n (LogicMgr_Loop order mods w))"

section \<open>What the command line means\<close>

definition arg_ok :: "string \<Rightarrow> bool" where
  "arg_ok a \<longleftrightarrow> starts_with ''--'' a \<and> CHR ''='' \<in> set (drop 2 a)"

definition arg_pair :: "string \<Rightarrow> string \<times> string" where
  "arg_pair a = (before_equal (drop 2 a), after_equal (drop 2 a))"

lemma parse_args_Cons:
  "parse_args (a # as) args =
    (if arg_ok a then parse_args as (AList.update (fst (arg_pair a)) (snd (arg_pair a)) args)
     else Inl (AssertFail ''invalid argv''))"
  by (simp add: arg_ok_def arg_pair_def Let_def oassert_def)

lemma parse_args_all:
  assumes "\<forall>a\<in>set as. arg_ok a"
  shows "\<exists>args'. parse_args as args = Inr args' \<and> (\<forall>k. map_of args' k = map_of (rev (List.map arg_pair as) @ args) k)"
  using assms
proof (induction as arbitrary: args)
  case Nil
  then show ?case by simp
next
  case (Cons a as)
  let ?u = "AList.update (fst (arg_pair a)) (snd (arg_pair a)) args"
  have "map_of (rev (List.map arg_pair as) @ ?u) k = map_of (rev (List.map arg_pair (a # as)) @ args) k" for k
    by (cases "arg_pair a") (simp add: map_of_append map_add_def update_conv' split: option.splits)
  then show ?case using Cons(1) [of ?u] Cons(2) by (simp add: parse_args_Cons del: parse_args.simps(2))
qed

lemma parse_args_bad: "\<not> (\<forall>a\<in>set as. arg_ok a) \<Longrightarrow> parse_args as args = Inl (AssertFail ''invalid argv'')"
  by (induction as arbitrary: args) (auto simp: parse_args_Cons simp del: parse_args.simps(2))

text \<open>
  The command line is accepted exactly if every argument after the program's name has the form \<open>--name=value\<close>; an
  argument is then found under its name, the last one if a name is given twice, and its value may itself hold equals signs.
\<close>

lemma command_line_parsed:
  "if \<forall>a\<in>set as. arg_ok a
   then \<exists>args. ConfigMgr_parse (p # as) = Inr args \<and> (\<forall>k. GetCmdArg k args = map_of (rev (List.map arg_pair as)) k)
   else ConfigMgr_parse (p # as) = Inl (AssertFail ''invalid argv'')"
  using parse_args_all [of as "[]"] parse_args_bad [of as "[]"] by (simp add: ConfigMgr_parse_def GetCmdArg_def)

lemma command_line_parsed_witness:
  "ConfigMgr_parse [''core'', ''--name=gate'', ''--node=1'', ''--name=a=b''] = Inr [(''name'', ''a=b''), (''node'', ''1'')] \<and>
   ConfigMgr_parse [''core'', ''-name''] = Inl (AssertFail ''invalid argv'')"
  using command_line_parsed [of "[''-name'']" "''core''"]
  by (simp add: arg_ok_def ConfigMgr_parse_def starts_with_def before_equal_def after_equal_def)

section \<open>Loading\<close>

lemma load_chain_spec:
  assumes "distinct (List.map fst mods)"
  shows "load_chain chain mods =
    (if distinct (List.map fst (rev chain @ mods)) then Inr (rev chain @ mods) else Inl (AssertFail ''duplicate logic name''))"
  using assms
proof (induction chain arbitrary: mods)
  case Nil
  then show ?case by simp
next
  case (Cons c chain)
  obtain name m where c: "c = (name, m)" by (cases c)
  show ?case
  proof (cases "name \<in> fst ` set mods")
    case True
    then show ?thesis by (auto simp: c FindModule_def map_of_eq_None_iff oassert_def)
  next
    case False
    then have "distinct (List.map fst ((name, m) # mods))" using Cons(2) by simp
    from Cons(1) [OF this] False show ?thesis by (auto simp: c FindModule_def map_of_eq_None_iff)
  qed
qed

lemma load_modules_spec:
  assumes "distinct (List.map fst mods)" "load_modules dl app path names mods = Inr mods'"
  shows "\<exists>chains. list_all2 (\<lambda>name chain. dl (module_file app path name) = Some chain \<and> chain \<noteq> []) names chains \<and>
    mods' = rev (concat chains) @ mods \<and> distinct (List.map fst mods')"
  using assms
proof (induction names arbitrary: mods)
  case Nil
  then show ?case by simp
next
  case (Cons name names)
  from Cons(3) obtain mods1 where m: "LoadModule dl (module_file app path name) mods = Inr mods1"
    "load_modules dl app path names mods1 = Inr mods'" by (auto simp: res_bind_eq_Inr)
  then obtain chain where c: "dl (module_file app path name) = Some chain" "chain \<noteq> []" "load_chain chain mods = Inr mods1"
    by (auto simp: LoadModule_def res_bind_eq_Inr oassert_eq split: option.splits)
  then have l: "mods1 = rev chain @ mods" "distinct (List.map fst mods1)"
    using load_chain_spec [OF Cons(2), of chain] by (auto split: if_splits)
  from Cons(1) [OF l(2) m(2)] obtain chains where
    "list_all2 (\<lambda>name chain. dl (module_file app path name) = Some chain \<and> chain \<noteq> []) names chains"
    "mods' = rev (concat chains) @ mods1" "distinct (List.map fst mods')" by blast
  then show ?case using c l(1) by (intro exI [of _ "chain # chains"]) simp
qed

text \<open>
  When the modules come up, every module of every configured library is there under its name, names being unique across
  all libraries; and whatever order the map is gone through, each is initialised exactly once before any is launched, and
  launched exactly once.
\<close>

lemma modules_start_in_two_phases:
  assumes "LogicMgr_Initialize dl order app path names w = Inr (mods, w')" "\<And>t. mset (order t) = mset t"
  shows "\<exists>chains phase.
    list_all2 (\<lambda>name chain. dl (module_file app path name) = Some chain \<and> chain \<noteq> []) names chains \<and>
    distinct (List.map fst (concat chains)) \<and>
    (\<forall>name m. FindModule name mods = Some m \<longleftrightarrow> (name, m) \<in> set (concat chains)) \<and>
    mset phase = mset (concat chains) \<and>
    w' = fold (\<lambda>f. f) (List.map (\<lambda>(name, m). snd \<circ> md_Initialize m) phase @ List.map (\<lambda>(name, m). snd \<circ> md_Launched m) phase) w"
proof -
  from assms(1) have l: "load_modules dl app path names [] = Inr mods"
    and w': "w' = run_all (\<lambda>m. snd \<circ> md_Launched m) order mods (run_all (\<lambda>m. snd \<circ> md_Initialize m) order mods w)"
    by (auto simp: LogicMgr_Initialize_def res_bind_eq_Inr)
  from load_modules_spec [OF _ l] obtain chains where c:
    "list_all2 (\<lambda>name chain. dl (module_file app path name) = Some chain \<and> chain \<noteq> []) names chains"
    "mods = rev (concat chains)" "distinct (List.map fst mods)" by auto
  have run: "fold (\<lambda>f. f) (List.map (\<lambda>(name, m). g m) ms) v = fold (\<lambda>(name, m). g m) ms v"
    for g :: "'a logic_module \<Rightarrow> 'a \<Rightarrow> 'a" and ms :: "'a module_table" and v
    by (induction ms arbitrary: v) auto
  have d: "distinct (List.map fst (concat chains))" using c(2,3) by (simp flip: rev_map)
  have f: "FindModule name mods = Some m \<longleftrightarrow> (name, m) \<in> set (concat chains)" for name m
    using map_of_eq_Some_iff [OF c(3), of name m] by (simp add: FindModule_def c(2))
  have "mset (order mods) = mset (concat chains)" using assms(2) [of mods] c(2) by simp
  moreover have "w' = fold (\<lambda>f. f) (List.map (\<lambda>(name, m). snd \<circ> md_Initialize m) (order mods) @
      List.map (\<lambda>(name, m). snd \<circ> md_Launched m) (order mods)) w"
    unfolding w' run_all_def by (simp add: run)
  ultimately show ?thesis using c(1) d f by blast
qed

definition logging_module :: "string \<Rightarrow> string list logic_module" where
  "logging_module name = \<lparr>md_Initialize = (\<lambda>w. (True, w @ [''init '' @ name])), md_Launched = (\<lambda>w. (False, w @ [''launch '' @ name])),
     md_Loop = id, md_Destroy = id\<rparr>"

definition demo_library :: "string \<Rightarrow> string list module_table option" where
  "demo_library path =
     (if path = ''./libHarbor.so'' then Some (CREATE_MODULE ''Harbor'' (logging_module ''h'') [])
      else if path = ''./libRpc.so'' then Some (CREATE_MODULE ''Rpc'' (logging_module ''r'') []) else None)"

lemma modules_start_in_two_phases_witness:
  "\<exists>mods. LogicMgr_Initialize demo_library rev ''.'' [] [''Harbor'', ''Rpc''] [] =
     Inr (mods, [''init h'', ''init r'', ''launch h'', ''launch r'']) \<and> FindModule ''Rpc'' mods \<noteq> None"
proof -
  let ?mods = "[(''Rpc'', logging_module ''r''), (''Harbor'', logging_module ''h'')]"
  have run: "LogicMgr_Initialize demo_library rev ''.'' [] [''Harbor'', ''Rpc''] [] =
     Inr (?mods, [''init h'', ''init r'', ''launch h'', ''launch r''])"
    by (simp add: LogicMgr_Initialize_def LoadModule_def module_file_def demo_library_def CREATE_MODULE_def FindModule_def
        run_all_def logging_module_def)
  from modules_start_in_two_phases [OF this] obtain chains where
    "list_all2 (\<lambda>name chain. demo_library (module_file ''.'' [] name) = Some chain \<and> chain \<noteq> []) [''Harbor'', ''Rpc''] chains"
    "\<forall>name m. FindModule name ?mods = Some m \<longleftrightarrow> (name, m) \<in> set (concat chains)" by auto
  then have "FindModule ''Rpc'' ?mods = Some (logging_module ''r'')"
    by (auto simp: list_all2_Cons1 demo_library_def module_file_def CREATE_MODULE_def)
  then show ?thesis using run by auto
qed

end
