(* ===== verification/LuaCtype.thy ===== *)
theory LuaCtype
  imports Prelude
begin

text \<open>
  Character classes of the embedded Lua (\<open>src/src/logic/scriptengine/lua/lctype.c\<close>, \<open>lctype.h\<close>):
  the table and the macros that test it. A character is an \<open>int\<close> between \<open>-1\<close> (\<open>EOZ\<close>) and 255.
\<close>

named_theorems ctype_simps \<open>what the character classes are\<close>

definition luai_ctype :: "int list" where
  "luai_ctype = [
    0, 0, 0, 0, 0, 0, 0, 0, 0, 0, 8, 8, 8, 8, 8, 0, 0, 0, 0, 0, 0, 0, 0, 0, 0, 0, 0, 0, 0, 0,
    0, 0, 0, 12, 4, 4, 4, 4, 4, 4, 4, 4, 4, 4, 4, 4, 4, 4, 4, 22, 22, 22, 22, 22, 22, 22, 22,
    22, 22, 4, 4, 4, 4, 4, 4, 4, 21, 21, 21, 21, 21, 21, 5, 5, 5, 5, 5, 5, 5, 5, 5, 5, 5, 5, 5,
    5, 5, 5, 5, 5, 5, 5, 4, 4, 4, 4, 5, 4, 21, 21, 21, 21, 21, 21, 5, 5, 5, 5, 5, 5, 5, 5, 5,
    5, 5, 5, 5, 5, 5, 5, 5, 5, 5, 5, 4, 4, 4, 4, 0, 0, 0, 0, 0, 0, 0, 0, 0, 0, 0, 0, 0, 0, 0,
    0, 0, 0, 0, 0, 0, 0, 0, 0, 0, 0, 0, 0, 0, 0, 0, 0, 0, 0, 0, 0, 0, 0, 0, 0, 0, 0, 0, 0, 0,
    0, 0, 0, 0, 0, 0, 0, 0, 0, 0, 0, 0, 0, 0, 0, 0, 0, 0, 0, 0, 0, 0, 0, 0, 0, 0, 0, 0, 0, 0,
    0, 0, 0, 0, 0, 0, 0, 0, 0, 0, 0, 0, 0, 0, 0, 0, 0, 0, 0, 0, 0, 0, 0, 0, 0, 0, 0, 0, 0, 0,
    0, 0, 0, 0, 0, 0, 0, 0, 0, 0, 0, 0, 0, 0, 0, 0, 0, 0, 0, 0, 0, 0, 0, 0]"

abbreviation (input) ALPHABIT :: nat where "ALPHABIT \<equiv> 0"
abbreviation (input) DIGITBIT :: nat where "DIGITBIT \<equiv> 1"
abbreviation (input) PRINTBIT :: nat where "PRINTBIT \<equiv> 2"
abbreviation (input) SPACEBIT :: nat where "SPACEBIT \<equiv> 3"
abbreviation (input) XDIGITBIT :: nat where "XDIGITBIT \<equiv> 4"

definition testprop :: "int \<Rightarrow> int \<Rightarrow> bool" where
  "testprop c p \<longleftrightarrow> (luai_ctype ! nat (c + 1)) AND p \<noteq> 0"

definition lislalpha :: "int \<Rightarrow> bool" where "lislalpha c \<longleftrightarrow> testprop c (2 ^ ALPHABIT)"
definition lislalnum :: "int \<Rightarrow> bool" where "lislalnum c \<longleftrightarrow> testprop c (2 ^ ALPHABIT OR 2 ^ DIGITBIT)"
definition lisdigit :: "int \<Rightarrow> bool" where "lisdigit c \<longleftrightarrow> testprop c (2 ^ DIGITBIT)"
definition lisspace :: "int \<Rightarrow> bool" where "lisspace c \<longleftrightarrow> testprop c (2 ^ SPACEBIT)"
definition lisprint :: "int \<Rightarrow> bool" where "lisprint c \<longleftrightarrow> testprop c (2 ^ PRINTBIT)"
definition lisxdigit :: "int \<Rightarrow> bool" where "lisxdigit c \<longleftrightarrow> testprop c (2 ^ XDIGITBIT)"
definition ltolower :: "int \<Rightarrow> int" where "ltolower c = c OR (65 XOR 97)"

section \<open>The classes as ranges\<close>

definition is_char :: "int \<Rightarrow> bool" where
  "is_char c \<longleftrightarrow> - 1 \<le> c \<and> c \<le> 255"

lemma is_char_upto: "is_char c \<longleftrightarrow> c \<in> set [- 1..255]"
  by (auto simp: is_char_def)

lemma classes_checked:
  "list_all (\<lambda>c. (lisdigit c \<longleftrightarrow> 48 \<le> c \<and> c \<le> 57) \<and>
     (lisspace c \<longleftrightarrow> 9 \<le> c \<and> c \<le> 13 \<or> c = 32) \<and>
     (lisxdigit c \<longleftrightarrow> 48 \<le> c \<and> c \<le> 57 \<or> 65 \<le> c \<and> c \<le> 70 \<or> 97 \<le> c \<and> c \<le> 102) \<and>
     (lislalpha c \<longleftrightarrow> 65 \<le> c \<and> c \<le> 90 \<or> 97 \<le> c \<and> c \<le> 122 \<or> c = 95) \<and>
     (lislalnum c \<longleftrightarrow> lislalpha c \<or> lisdigit c) \<and>
     (lisprint c \<longleftrightarrow> 32 \<le> c \<and> c \<le> 126)) [- 1..255]"
  by code_simp

lemma class_ranges [ctype_simps]:
  assumes "is_char c"
  shows "lisdigit c \<longleftrightarrow> 48 \<le> c \<and> c \<le> 57"
    "lisspace c \<longleftrightarrow> 9 \<le> c \<and> c \<le> 13 \<or> c = 32"
    "lisxdigit c \<longleftrightarrow> 48 \<le> c \<and> c \<le> 57 \<or> 65 \<le> c \<and> c \<le> 70 \<or> 97 \<le> c \<and> c \<le> 102"
    "lislalpha c \<longleftrightarrow> 65 \<le> c \<and> c \<le> 90 \<or> 97 \<le> c \<and> c \<le> 122 \<or> c = 95"
    "lislalnum c \<longleftrightarrow> 65 \<le> c \<and> c \<le> 90 \<or> 97 \<le> c \<and> c \<le> 122 \<or> c = 95 \<or> 48 \<le> c \<and> c \<le> 57"
    "lisprint c \<longleftrightarrow> 32 \<le> c \<and> c \<le> 126"
  using classes_checked assms by (auto simp: list_all_iff is_char_def)

text \<open>The character at the head of a C string, whose end is a zero byte.\<close>

definition cur :: "byte list \<Rightarrow> int" where
  "cur s = (case s of [] \<Rightarrow> 0 | b # _ \<Rightarrow> uint b)"

lemma cur_simps [simp]: "cur [] = 0" "cur (b # bs) = uint b"
  by (simp_all add: cur_def)

lemma byte_range: "0 \<le> uint (b :: byte)" "uint (b :: byte) \<le> 255"
  using uint_lt2p [of b] by simp_all

lemma is_char_byte [simp]: "is_char (uint (b :: byte))"
  unfolding is_char_def using byte_range [of b] by linarith

lemma is_char_cur [simp]: "is_char (cur s)"
  by (cases s) (simp_all, simp add: is_char_def)

lemma uint_of_int_byte: "0 \<le> x \<Longrightarrow> x \<le> 255 \<Longrightarrow> uint (word_of_int x :: byte) = x"
  by (simp add: uint_word_of_int)

end
