(* ===== verification/LuaObject.thy ===== *)
theory LuaObject
  imports LuaCtype
begin

text \<open>
  The generic functions over Lua objects that need no state
  (\<open>src/src/logic/scriptengine/lua/lobject.c\<close>): sizes as floating point bytes, logarithms,
  numerals, UTF-8 escapes, and the display form of a chunk's name. Unsigned integers are
  naturals with the wrap-around written out, C strings the bytes from the pointer on.
\<close>

section \<open>Sizes\<close>

function fb_coarse :: "nat \<Rightarrow> nat \<Rightarrow> nat \<times> nat" where
  "fb_coarse x e = (if 128 \<le> x then fb_coarse ((x + 15) mod 4294967296 div 16) (e + 4) else (x, e))"
  by pat_completeness auto
termination
proof (relation "measure fst")
  fix x e :: nat
  assume "128 \<le> x"
  have "(x + 15) mod 4294967296 \<le> x + 15" by (rule mod_less_eq_dividend)
  with \<open>128 \<le> x\<close> show "(((x + 15) mod 4294967296 div 16, e + 4), x, e) \<in> measure fst" by simp
qed simp

function fb_fine :: "nat \<Rightarrow> nat \<Rightarrow> nat \<times> nat" where
  "fb_fine x e = (if 16 \<le> x then fb_fine ((x + 1) div 2) (e + 1) else (x, e))"
  by pat_completeness auto
termination by (relation "measure fst") auto

declare fb_coarse.simps [simp del] fb_fine.simps [simp del]

definition luaO_int2fb :: "nat \<Rightarrow> int" where
  "luaO_int2fb x =
     (if x < 8 then int x
      else (let (x1, e1) = fb_coarse x 0; (x2, e2) = fb_fine x1 e1 in
            push_bit 3 (int e2 + 1) OR (int x2 - 8)))"

definition luaO_fb2int :: "int \<Rightarrow> int" where
  "luaO_fb2int x =
     (let e = drop_bit 3 x AND 31 in
      if e = 0 then x else push_bit (nat (e - 1)) ((x AND 7) + 8))"

definition log_2 :: "nat list" where
  "log_2 = [
    0, 1, 2, 2, 3, 3, 3, 3, 4, 4, 4, 4, 4, 4, 4, 4, 5, 5, 5, 5, 5, 5, 5, 5, 5, 5, 5, 5, 5, 5,
    5, 5, 6, 6, 6, 6, 6, 6, 6, 6, 6, 6, 6, 6, 6, 6, 6, 6, 6, 6, 6, 6, 6, 6, 6, 6, 6, 6, 6, 6,
    6, 6, 6, 6, 7, 7, 7, 7, 7, 7, 7, 7, 7, 7, 7, 7, 7, 7, 7, 7, 7, 7, 7, 7, 7, 7, 7, 7, 7, 7,
    7, 7, 7, 7, 7, 7, 7, 7, 7, 7, 7, 7, 7, 7, 7, 7, 7, 7, 7, 7, 7, 7, 7, 7, 7, 7, 7, 7, 7, 7,
    7, 7, 7, 7, 7, 7, 7, 7, 8, 8, 8, 8, 8, 8, 8, 8, 8, 8, 8, 8, 8, 8, 8, 8, 8, 8, 8, 8, 8, 8,
    8, 8, 8, 8, 8, 8, 8, 8, 8, 8, 8, 8, 8, 8, 8, 8, 8, 8, 8, 8, 8, 8, 8, 8, 8, 8, 8, 8, 8, 8,
    8, 8, 8, 8, 8, 8, 8, 8, 8, 8, 8, 8, 8, 8, 8, 8, 8, 8, 8, 8, 8, 8, 8, 8, 8, 8, 8, 8, 8, 8,
    8, 8, 8, 8, 8, 8, 8, 8, 8, 8, 8, 8, 8, 8, 8, 8, 8, 8, 8, 8, 8, 8, 8, 8, 8, 8, 8, 8, 8, 8,
    8, 8, 8, 8, 8, 8, 8, 8, 8, 8, 8, 8, 8, 8, 8, 8]"

function ceillog2_loop :: "nat \<Rightarrow> nat \<Rightarrow> nat" where
  "ceillog2_loop l x = (if 256 \<le> x then ceillog2_loop (l + 8) (x div 256) else l + log_2 ! x)"
  by pat_completeness auto
termination by (relation "measure snd") auto

declare ceillog2_loop.simps [simp del]

text \<open>\<open>x--\<close> on an \<open>unsigned int\<close>: zero becomes the largest one.\<close>

definition luaO_ceillog2 :: "nat \<Rightarrow> nat" where
  "luaO_ceillog2 x = ceillog2_loop 0 ((x + 4294967295) mod 4294967296)"

section \<open>Numerals\<close>

definition luaO_hexavalue :: "int \<Rightarrow> int" where
  "luaO_hexavalue c = (if lisdigit c then c - 48 else ltolower c - 97 + 10)"

definition isneg :: "byte list \<Rightarrow> bool \<times> byte list" where
  "isneg s = (if cur s = 45 then (True, tl s) else if cur s = 43 then (False, tl s) else (False, s))"

definition u64 :: "int \<Rightarrow> int" where
  "u64 x = x mod 18446744073709551616"

text \<open>The digit loops: the value so far, whether it is still empty, and the rest of the string.\<close>

fun hex_digits :: "int \<Rightarrow> bool \<Rightarrow> byte list \<Rightarrow> int \<times> bool \<times> byte list" where
  "hex_digits a noDigit [] = (a, noDigit, [])"
| "hex_digits a noDigit (b # bs) =
     (if lisxdigit (uint b) then hex_digits (u64 (a * 16 + luaO_hexavalue (uint b))) False bs
      else (a, noDigit, b # bs))"

fun dec_digits :: "int \<Rightarrow> bool \<Rightarrow> byte list \<Rightarrow> int \<times> bool \<times> byte list" where
  "dec_digits a noDigit [] = (a, noDigit, [])"
| "dec_digits a noDigit (b # bs) =
     (if lisdigit (uint b) then dec_digits (u64 (a * 10 + uint b - 48)) False bs
      else (a, noDigit, b # bs))"

definition skip_spaces :: "byte list \<Rightarrow> byte list" where
  "skip_spaces s = dropWhile (\<lambda>b. lisspace (uint b)) s"

text \<open>The result is the value and what the returned pointer points to, the terminator.\<close>

definition l_str2int :: "byte list \<Rightarrow> (int \<times> byte list) option" where
  "l_str2int s =
     (let (neg, s1) = isneg (skip_spaces s);
          (a, noDigit, s2) =
            (if cur s1 = 48 \<and> (cur (tl s1) = 120 \<or> cur (tl s1) = 88)
             then hex_digits 0 True (drop 2 s1) else dec_digits 0 True s1);
          s3 = skip_spaces s2
      in if noDigit \<or> cur s3 \<noteq> 0 then None
         else Some (s64 (if neg then u64 (0 - a) else a), s3))"

text \<open>\<open>lua_integer2str\<close>: the decimal digits of \<open>printf\<close>.\<close>

fun nat_digits :: "nat \<Rightarrow> byte list" where
  "nat_digits n = (if n < 10 then [of_nat (48 + n)] else nat_digits (n div 10) @ [of_nat (48 + n mod 10)])"

declare nat_digits.simps [simp del]

definition lua_integer2str :: "int \<Rightarrow> byte list" where
  "lua_integer2str i = (if i < 0 then 45 # nat_digits (nat (- i)) else nat_digits (nat i))"

section \<open>UTF-8 escapes\<close>

text \<open>
  \<open>mfb\<close> is an \<open>unsigned int\<close>; the buffer is filled backwards, so the list is what it holds from its last byte
  back to the first written one.
\<close>

function esc_loop :: "nat \<Rightarrow> nat \<Rightarrow> byte list \<Rightarrow> byte list" where
  "esc_loop x mfb acc =
     (let acc' = word_of_int (128 OR int x AND 63) # acc; x' = x div 64; mfb' = mfb div 2 in
      if x' > mfb' then esc_loop x' mfb' acc'
      else word_of_int (push_bit 1 (NOT (int mfb')) OR int x') # acc')"
  by pat_completeness auto
termination by (relation "measure fst") auto

declare esc_loop.simps [simp del]

definition luaO_utf8esc :: "nat \<Rightarrow> byte list" where
  "luaO_utf8esc x = (if x < 128 then [of_nat x] else esc_loop x 63 [])"

section \<open>Chunk names\<close>

definition RETS :: "byte list" where "RETS = [46, 46, 46]"
definition PRE :: "byte list" where "PRE = [91, 115, 116, 114, 105, 110, 103, 32, 34]"
definition POS :: "byte list" where "POS = [34, 93]"

text \<open>
  \<open>source\<close> is the string up to its terminator; the result is what is written to \<open>out\<close>, terminator included.
  \<open>bufflen\<close> is a \<open>size_t\<close> and at least \<open>LUA_IDSIZE\<close> (60) in every call.
\<close>

definition luaO_chunkid :: "byte list \<Rightarrow> nat \<Rightarrow> byte list" where
  "luaO_chunkid source bufflen =
     (let l = length source in
      if cur source = 61 then
        (if l \<le> bufflen then take l (drop 1 (source @ [0]))
         else take (bufflen - 1) (drop 1 source) @ [0])
      else if cur source = 64 then
        (if l \<le> bufflen then take l (drop 1 (source @ [0]))
         else RETS @ take (bufflen - 3) (drop (1 + l - (bufflen - 3)) (source @ [0])))
      else
        (let nl = takeWhile (\<lambda>b. b \<noteq> 10) source;
             room = bufflen - (length PRE + length RETS + length POS + 1) in
         PRE @
         (if l < room \<and> nl = source then source
          else take (min (length nl) room) source @ RETS) @
         POS @ [0]))"

end
