(* ===== verification/LuaApi.thy ===== *)
theory LuaApi
  imports LuaObject
begin

text \<open>
  What the library functions of the embedded Lua share: the values they take and push, the errors they
  raise, and the reads of a C string. An error leaves a function (\<open>luaL_argerror\<close>, \<open>luaL_error\<close> end in
  \<open>longjmp\<close>), so it is the left value of a sum; a read behind the terminator is the fault \<open>OutOfBounds\<close>.
\<close>

datatype lua_error =
    ArgError nat string
  | LuaError string
  | Fault fault

datatype lval = LNil | LBool bool | LInt int | LStr "byte list"

definition luaL_argcheck :: "bool \<Rightarrow> nat \<Rightarrow> string \<Rightarrow> lua_error + unit" where
  "luaL_argcheck cond arg extramsg = (if cond then Inr () else Inl (ArgError arg extramsg))"

lemma luaL_argcheck_True [simp, res_simps]: "luaL_argcheck True a m = Inr ()"
  by (simp add: luaL_argcheck_def)

lemma luaL_argcheck_False [simp, res_simps]: "luaL_argcheck False a m = Inl (ArgError a m)"
  by (simp add: luaL_argcheck_def)

lemma luaL_argcheck_Inr [res_simps]: "luaL_argcheck c a m = Inr u \<longleftrightarrow> c"
  by (simp add: luaL_argcheck_def)

text \<open>\<open>s[i]\<close> for a string \<open>s\<close> of known length, whose terminator is readable.\<close>

definition rd :: "byte list \<Rightarrow> nat \<Rightarrow> fault + int" where
  "rd s i = (if i < length s then Inr (uint (s ! i)) else if i = length s then Inr 0 else Inl OutOfBounds)"

lemma rd_ok: "i \<le> length s \<Longrightarrow> \<exists>c. rd s i = Inr c \<and> 0 \<le> c \<and> c \<le> 255"
  using byte_range by (auto simp: rd_def)

lemma rd_Inr: "rd s i = Inr c \<Longrightarrow> i \<le> length s \<and> 0 \<le> c \<and> c \<le> 255"
  using byte_range by (auto simp: rd_def split: if_splits)

lemma rd_append [simp]: "i < length s \<Longrightarrow> rd (s @ t) i = Inr (uint (s ! i))"
  by (simp add: rd_def nth_append)

lemma rd_at: "rd (p @ b # t) (length p) = Inr (uint b)"
  by (simp add: rd_def)

definition of_fault :: "fault + 'a \<Rightarrow> lua_error + 'a" where
  "of_fault r = (case r of Inl f \<Rightarrow> Inl (Fault f) | Inr x \<Rightarrow> Inr x)"

lemma of_fault_simps [simp, res_simps]: "of_fault (Inr x) = Inr x" "of_fault (Inl f) = Inl (Fault f)"
  by (simp_all add: of_fault_def)

lemma of_fault_Inr [res_simps]: "of_fault r = Inr x \<longleftrightarrow> r = Inr x"
  by (cases r) simp_all

definition u32 :: "int \<Rightarrow> int" where
  "u32 x = x mod 4294967296"

lemma u32_id: "0 \<le> x \<Longrightarrow> x < 4294967296 \<Longrightarrow> u32 x = x"
  by (simp add: u32_def)

lemma u64_id: "0 \<le> x \<Longrightarrow> x < 18446744073709551616 \<Longrightarrow> u64 x = x"
  by (simp add: u64_def)

text \<open>
  \<open>posrelat\<close> of \<open>lstrlib.c\<close> and \<open>u_posrelat\<close> of \<open>lutf8lib.c\<close>: a negative position counts from the end.
\<close>

definition u_posrelat :: "int \<Rightarrow> nat \<Rightarrow> int" where
  "u_posrelat pos len =
     (if pos \<ge> 0 then pos
      else if u64 (0 - pos) > int len then 0
      else s64 (int len + pos + 1))"

text \<open>
  Numbers of the embedded Lua: the conversion of floats to integers and the integer operations of the virtual machine
  (\<open>src/src/logic/scriptengine/lua/lvm.c\<close>). A float is its 64 bits.
\<close>

section \<open>Floats\<close>

text \<open>The integer a float is equal to, if there is one and it has 64 bits: \<open>luaV_tointeger\<close> with mode 0.\<close>

definition f2i :: "int \<Rightarrow> int option" where
  "f2i w =
     (let s = w div 9223372036854775808; e = w div 4503599627370496 mod 2048; m = w mod 4503599627370496;
          sign = (if s = 1 then - 1 else 1 :: int) in
      if e = 0 then (if m = 0 then Some 0 else None)
      else if e \<ge> 1075 then
        (if e \<le> 1086 then
           (let v = sign * ((4503599627370496 + m) * 2 ^ nat (e - 1075)) in if in_s64 v then Some v else None)
         else None)
      else if e \<ge> 1023 \<and> (4503599627370496 + m) mod 2 ^ nat (1075 - e) = 0 then
        Some (sign * ((4503599627370496 + m) div 2 ^ nat (1075 - e)))
      else None)"

definition is_nan :: "int \<Rightarrow> bool" where
  "is_nan w \<longleftrightarrow> w div 4503599627370496 mod 2048 = 2047 \<and> w mod 4503599627370496 \<noteq> 0"

end
