(* ===== verification/Serialize.thy ===== *)
theory Serialize
  imports LuaApi
begin

text \<open>
  The serialization of Lua values for remote calls (\<open>src/src/logic/scriptengine/serialize.cpp\<close>). A value is a
  tree; a table is its pairs in the order in which \<open>lua_next\<close> goes through them; a double is its 64-bit
  pattern. The stack slots that the Lua API guarantees (\<open>LUA_MINSTACK\<close> beyond the arguments, more after
  \<open>lua_checkstack\<close>) are counted in \<open>room\<close>: a push without a free one is \<open>StackOverrun\<close>.
\<close>

datatype sval =
    SNil
  | SBool bool
  | SInt int
  | SDouble int
  | SStr "byte list"
  | STable "(sval \<times> sval) list"
  | SOther

datatype seri_fault = Raised string | BufferOverrun | ReadOverrun | StackOverrun | SeriFuel

section \<open>Packing\<close>

definition BUFF_SIZE :: nat where "BUFF_SIZE = 2048"

text \<open>\<open>write\<close>: what is in the buffer so far is \<open>w\<close>, its length the offset; \<open>False\<close> raises the error in every caller.\<close>

definition stream_write :: "byte list \<Rightarrow> byte list \<Rightarrow> seri_fault + byte list" where
  "stream_write src w =
     (if length w + length src > BUFF_SIZE then Inl (Raised ''serialize buffer full'') else Inr (w @ src))"

text \<open>\<open>writeString\<close>: the length is checked to fit, the bytes are copied unchecked. \<open>len\<close> is an \<open>s32\<close>.\<close>

definition stream_writeString :: "byte list \<Rightarrow> byte list \<Rightarrow> seri_fault + byte list" where
  "stream_writeString src w =
     (let len = s32 (int (length src)) in
      res_bind (stream_write (s32_bytes len) w) (\<lambda>w.
      if len < 0 \<or> int (length w) + len > int BUFF_SIZE then Inl BufferOverrun
      else Inr (w @ take (nat len) src)))"

definition pack_nil :: "byte list \<Rightarrow> seri_fault + byte list" where
  "pack_nil w = stream_write [0] w"

definition pack_boolean :: "bool \<Rightarrow> byte list \<Rightarrow> seri_fault + byte list" where
  "pack_boolean b w = res_bind (stream_write [1] w) (stream_write [if b then 1 else 0])"

definition pack_integer :: "int \<Rightarrow> byte list \<Rightarrow> seri_fault + byte list" where
  "pack_integer n w = res_bind (stream_write [2] w) (stream_write (s64_bytes n))"

definition pack_double :: "int \<Rightarrow> byte list \<Rightarrow> seri_fault + byte list" where
  "pack_double n w = res_bind (stream_write [3] w) (stream_write (le_bytes 8 n))"

definition pack_string :: "byte list \<Rightarrow> byte list \<Rightarrow> seri_fault + byte list" where
  "pack_string s w = res_bind (stream_write [4] w) (stream_writeString s)"

text \<open>\<open>pack_one\<close> and the loop of \<open>pack_table\<close>: a key and its value are on the stack while they are packed.\<close>

fun pack_one :: "nat \<Rightarrow> sval \<Rightarrow> byte list \<Rightarrow> seri_fault + byte list"
  and pack_table :: "nat \<Rightarrow> (sval \<times> sval) list \<Rightarrow> byte list \<Rightarrow> seri_fault + byte list" where
  "pack_one room SNil w = pack_nil w"
| "pack_one room (SBool b) w = pack_boolean b w"
| "pack_one room (SInt n) w = pack_integer n w"
| "pack_one room (SDouble n) w = pack_double n w"
| "pack_one room (SStr s) w = pack_string s w"
| "pack_one room (STable kvs) w =
     res_bind (stream_write [5] w) (\<lambda>w. if room < 1 then Inl StackOverrun else pack_table room kvs w)"
| "pack_one room SOther w = Inl (Raised ''Unsupport type to serialize'')"
| "pack_table room [] w = pack_nil w"
| "pack_table room ((k, v) # kvs) w =
     (if room < 2 then Inl StackOverrun
      else res_bind (pack_one (room - 2) k w) (\<lambda>w.
           res_bind (pack_one (room - 2) v w) (pack_table room kvs)))"

definition LUA_MINSTACK :: nat where "LUA_MINSTACK = 20"

fun pack_args :: "sval list \<Rightarrow> byte list \<Rightarrow> seri_fault + byte list" where
  "pack_args [] w = Inr w"
| "pack_args (v # vs) w = res_bind (pack_one LUA_MINSTACK v w) (pack_args vs)"

definition l_serialize :: "sval list \<Rightarrow> seri_fault + byte list" where
  "l_serialize args = pack_args args []"

section \<open>Unpacking\<close>

text \<open>\<open>read\<close>: what is left of the buffer.\<close>

definition stream_read :: "nat \<Rightarrow> byte list \<Rightarrow> seri_fault + byte list \<times> byte list" where
  "stream_read n bs =
     (if n > length bs then Inl (Raised ''unserialize failed'') else Inr (take n bs, drop n bs))"

text \<open>
  \<open>readString\<close> and the push of the string: the length is believed. The terminator of the serialized string is
  readable too. A negative length is a huge \<open>size_t\<close>: \<open>luaS_newlstr\<close> refuses it as too big, except that
  the test of \<open>l + 1\<close> wraps to zero for \<open>-1\<close> and the copy runs away.
\<close>

definition push_string :: "byte list \<Rightarrow> seri_fault + byte list \<times> byte list" where
  "push_string bs =
     res_bind (stream_read 4 bs) (\<lambda>(h, rest).
       let len = s32_of_bytes h in
       if len < 0 \<and> len \<noteq> - 1 then Inl (Raised ''memory allocation error: block too big'')
       else if len < 0 \<or> len > int (length rest) + 1 then Inl ReadOverrun
       else Inr (take (nat len) (rest @ [0]), drop (nat len) rest))"

text \<open>
  \<open>lua_rawset\<close> into a fresh table: a float key with an integer value becomes that integer, \<open>NaN\<close> is refused, a
  nil value removes the key; a table as key is a new object, different from every key present.
\<close>

definition norm_key :: "sval \<Rightarrow> sval" where
  "norm_key k = (case k of SDouble w \<Rightarrow> (case f2i w of Some i \<Rightarrow> SInt i | None \<Rightarrow> k) | _ \<Rightarrow> k)"

definition is_table :: "sval \<Rightarrow> bool" where
  "is_table v = (case v of STable _ \<Rightarrow> True | _ \<Rightarrow> False)"

fun put_pair :: "sval \<Rightarrow> sval \<Rightarrow> (sval \<times> sval) list \<Rightarrow> (sval \<times> sval) list" where
  "put_pair k v [] = [(k, v)]"
| "put_pair k v ((k', v') # kvs) = (if k' = k \<and> \<not> is_table k then (k, v) # kvs else (k', v') # put_pair k v kvs)"

definition rawset :: "sval \<Rightarrow> sval \<Rightarrow> (sval \<times> sval) list \<Rightarrow> seri_fault + (sval \<times> sval) list" where
  "rawset k v kvs =
     (let k = norm_key k in
      if (case k of SDouble w \<Rightarrow> is_nan w | _ \<Rightarrow> False) then Inl (Raised ''table index is NaN'')
      else if v = SNil then Inr (filter (\<lambda>(k', _). k' \<noteq> k \<or> is_table k) kvs)
      else Inr (put_pair k v kvs))"

text \<open>
  \<open>push_one\<close>, \<open>push_value\<close> and the loop of \<open>push_table\<close>, the latter with the free slots after \<open>lua_newtable\<close>. The
  fuel is three per byte.
\<close>

fun push_one :: "nat \<Rightarrow> nat \<Rightarrow> byte list \<Rightarrow> seri_fault + sval \<times> byte list"
  and push_value :: "nat \<Rightarrow> nat \<Rightarrow> byte \<Rightarrow> byte list \<Rightarrow> seri_fault + sval \<times> byte list"
  and push_table :: "nat \<Rightarrow> nat \<Rightarrow> (sval \<times> sval) list \<Rightarrow> byte list \<Rightarrow> seri_fault + sval \<times> byte list" where
  "push_one 0 room bs = Inl SeriFuel"
| "push_one (Suc n) room bs =
     res_bind (stream_read 1 bs) (\<lambda>(t, rest). push_value n room (hd t) rest)"
| "push_value 0 room t bs = Inl SeriFuel"
| "push_value (Suc n) room t bs =
     (if t = 0 then (if room < 1 then Inl StackOverrun else Inr (SNil, bs))
      else if t = 1 then
        res_bind (stream_read 1 bs) (\<lambda>(v, rest).
          if room < 1 then Inl StackOverrun else Inr (SBool (hd v \<noteq> 0), rest))
      else if t = 2 then
        res_bind (stream_read 8 bs) (\<lambda>(v, rest).
          if room < 1 then Inl StackOverrun else Inr (SInt (s64_of_bytes v), rest))
      else if t = 3 then
        res_bind (stream_read 8 bs) (\<lambda>(v, rest).
          if room < 1 then Inl StackOverrun else Inr (SDouble (le_value v), rest))
      else if t = 4 then
        res_bind (push_string bs) (\<lambda>(v, rest).
          if room < 1 then Inl StackOverrun else Inr (SStr v, rest))
      else if t = 5 then (if room < 1 then Inl StackOverrun else push_table n (room - 1) [] bs)
      else Inl (Raised ''Unsupport type to unserialize''))"
| "push_table 0 room kvs bs = Inl SeriFuel"
| "push_table (Suc n) room kvs bs =
     res_bind (push_one n room bs) (\<lambda>(k, rest).
       if k = SNil then Inr (STable kvs, rest)
       else res_bind (push_one n (room - 1) rest) (\<lambda>(v, rest).
            res_bind (rawset k v kvs) (\<lambda>kvs. push_table n room kvs rest)))"

lemma stream_read_Inr: "stream_read n bs = Inr (x, r) \<longleftrightarrow> n \<le> length bs \<and> x = take n bs \<and> r = drop n bs"
  by (auto simp: stream_read_def)

lemma push_shrinks:
  "push_one n room bs = Inr (v, r) \<Longrightarrow> length r < length bs"
  "push_value n room t bs = Inr (v, r) \<Longrightarrow> length r \<le> length bs"
  "push_table n room kvs bs = Inr (v, r) \<Longrightarrow> length r \<le> length bs"
proof (induction n room bs and n room t bs and n room kvs bs arbitrary: v r and v r and v r
    rule: push_one_push_value_push_table.induct)
  case (2 n room bs)
  then show ?case by (fastforce simp: res_simps stream_read_Inr)
next
  case (4 n room t bs)
  then show ?case
    by (auto simp: res_simps stream_read_Inr push_string_def Let_def split: if_splits)
next
  case (6 n room kvs bs)
  from 6(4) obtain k rest where k: "push_one n room bs = Inr (k, rest)" by (auto simp: res_simps)
  with 6(1) have shorter: "length rest < length bs" by blast
  show ?case
  proof (cases "k = SNil")
    case True
    with 6(4) k shorter show ?thesis by simp
  next
    case False
    with 6(4) k obtain w rest' kvs' where w: "push_one n (room - 1) rest = Inr (w, rest')"
      "rawset k w kvs = Inr kvs'" "push_table n room kvs' rest' = Inr (v, r)"
      by (auto simp: res_simps)
    with 6(2) 6(3) k False shorter show ?thesis by fastforce
  qed
qed simp_all

text \<open>
  The loop of \<open>l_unserialize\<close>: \<open>room\<close> starts at the slot of the argument and \<open>LUA_MINSTACK\<close> more, and is raised to \<open>i\<close>
  every sixteenth time (the result of \<open>lua_checkstack\<close> is not looked at; it is taken to succeed).
\<close>

function unserialize_loop :: "nat \<Rightarrow> nat \<Rightarrow> sval list \<Rightarrow> byte list \<Rightarrow> seri_fault + sval list" where
  "unserialize_loop i room acc bs =
     (let room = (if i mod 16 = 15 then max room i else room) in
      case bs of
        [] \<Rightarrow> Inr acc
      | t # rest \<Rightarrow>
          (case push_value (3 * length bs) room t rest of
             Inl f \<Rightarrow> Inl f
           | Inr (v, rest') \<Rightarrow> unserialize_loop (i + 1) (room - 1) (acc @ [v]) rest'))"
  by pat_completeness auto
termination
  by (relation "measure (\<lambda>(i, room, acc, bs). length bs)") (auto simp: less_Suc_eq_le dest: push_shrinks(2))

declare unserialize_loop.simps [simp del]

definition l_unserialize :: "byte list \<Rightarrow> seri_fault + sval list" where
  "l_unserialize bs = (if length bs = 0 then Inr [] else unserialize_loop 0 (LUA_MINSTACK + 1) [] bs)"

section \<open>Hexadecimal\<close>

definition hex_digit :: "int \<Rightarrow> byte" where
  "hex_digit d = word_of_int (if d < 10 then d + 48 else d + 65 - 10)"

definition l_tohex :: "byte list \<Rightarrow> byte list" where
  "l_tohex s =
     (if length s = 0 then []
      else 48 # 120 # concat (map (\<lambda>b. [hex_digit (drop_bit 4 (sint b AND 240)), hex_digit (sint b AND 15)]) s))"

end
