(* ===== verification/ScriptEngine.thy ===== *)
theory ScriptEngine
  imports Harbor Serialize LuaObject
begin

text \<open>
  The bridge between the modules and the scripts (\<open>src/src/logic/scriptengine/ScriptEngine.cpp\<close>): formats of
  arguments and results, the registration of functions, and calls into Lua with what they leave on the Lua
  stack. \<open>lua_pcall\<close> runs a script, which is a parameter; floating point conversions are the machine's
  and the C library's, a record of functions.
\<close>

section \<open>Conversions\<close>

record numconv =
  nc_i2d :: "int \<Rightarrow> int"
  nc_strtod :: "byte list \<Rightarrow> int option"
  nc_d2f :: "int \<Rightarrow> int"
  nc_f2d :: "int \<Rightarrow> int"
  nc_d2s :: "int \<Rightarrow> byte list"

definition s8 :: "int \<Rightarrow> int" where "s8 x = (x + 128) mod 256 - 128"
definition s16 :: "int \<Rightarrow> int" where "s16 x = (x + 32768) mod 65536 - 32768"

text \<open>A numeral in a string counts when it takes up the whole string (\<open>luaO_str2num\<close>).\<close>

definition str_number :: "numconv \<Rightarrow> byte list \<Rightarrow> sval" where
  "str_number nc s =
     (case l_str2int s of
        Some (i, []) \<Rightarrow> SInt i
      | Some _ \<Rightarrow> SNil
      | None \<Rightarrow> (case nc_strtod nc s of Some d \<Rightarrow> SDouble d | None \<Rightarrow> SNil))"

definition num_of :: "numconv \<Rightarrow> sval \<Rightarrow> sval" where
  "num_of nc v = (case v of SStr s \<Rightarrow> str_number nc s | _ \<Rightarrow> v)"

definition lua_tointeger :: "numconv \<Rightarrow> sval \<Rightarrow> int" where
  "lua_tointeger nc v =
     (case num_of nc v of SInt i \<Rightarrow> i | SDouble d \<Rightarrow> (case f2i d of Some i \<Rightarrow> i | None \<Rightarrow> 0) | _ \<Rightarrow> 0)"

definition lua_tonumber :: "numconv \<Rightarrow> sval \<Rightarrow> int" where
  "lua_tonumber nc v = (case num_of nc v of SInt i \<Rightarrow> nc_i2d nc i | SDouble d \<Rightarrow> d | _ \<Rightarrow> 0)"

definition lua_toboolean :: "sval \<Rightarrow> bool" where
  "lua_toboolean v \<longleftrightarrow> v \<noteq> SNil \<and> v \<noteq> SBool False"

definition lua_tolstring :: "numconv \<Rightarrow> sval \<Rightarrow> byte list option" where
  "lua_tolstring nc v =
     (case v of SStr s \<Rightarrow> Some s | SInt i \<Rightarrow> Some (lua_integer2str i) | SDouble d \<Rightarrow> Some (nc_d2s nc d) | _ \<Rightarrow> None)"

section \<open>Formats\<close>

text \<open>A C argument or result: \<open>CStr None\<close> is the null pointer; \<open>CBuf\<close> is pointer and length, what is readable there.\<close>

datatype cval = C8 int | C16 int | C32 int | C64 int | CFloat int | CBool bool | CStr "byte list option"
  | CBuf "byte list option" int

definition read_one :: "numconv \<Rightarrow> char \<Rightarrow> sval \<Rightarrow> cval option" where
  "read_one nc c v =
     (if c = CHR ''c'' then Some (C8 (s8 (lua_tointeger nc v)))
      else if c = CHR ''d'' then Some (C16 (s16 (lua_tointeger nc v)))
      else if c = CHR ''i'' then Some (C32 (s32 (lua_tointeger nc v)))
      else if c = CHR ''l'' then Some (C64 (lua_tointeger nc v))
      else if c = CHR ''f'' then Some (CFloat (nc_d2f nc (lua_tonumber nc v)))
      else if c = CHR ''b'' then Some (CBool (lua_toboolean v))
      else if c = CHR ''s'' then Some (CStr (lua_tolstring nc v))
      else if c = CHR ''S'' then
        (let s = lua_tolstring nc v in
         Some (CBuf s (case s of None \<Rightarrow> 0 | Some b \<Rightarrow> s32 (int (length b)))))
      else None)"

text \<open>\<open>LuaReader::Read\<close>: the arguments not read yet are left in the list. A missing one ends the process.\<close>

fun LuaReader_Read :: "numconv \<Rightarrow> string \<Rightarrow> sval list \<Rightarrow> fault + cval list" where
  "LuaReader_Read nc [] args = Inr []"
| "LuaReader_Read nc (c # cs) [] = Inl (AssertFail ''param is not enough'')"
| "LuaReader_Read nc (c # cs) (v # args) =
     (case read_one nc c v of
        Some x \<Rightarrow> res_bind (LuaReader_Read nc cs args) (\<lambda>xs. Inr (x # xs))
      | None \<Rightarrow> LuaReader_Read nc cs (v # args))"

text \<open>\<open>LuaResult::Read\<close>: \<open>results\<close> are the first \<open>_count\<close> results.\<close>

fun LuaResult_Read :: "numconv \<Rightarrow> string \<Rightarrow> sval list \<Rightarrow> fault + cval list" where
  "LuaResult_Read nc [] results = Inr []"
| "LuaResult_Read nc (c # cs) [] = Inl (AssertFail ''not so many result'')"
| "LuaResult_Read nc (c # cs) (v # results) =
     (case read_one nc c v of
        Some x \<Rightarrow> res_bind (LuaResult_Read nc cs results) (\<lambda>xs. Inr (x # xs))
      | None \<Rightarrow> LuaResult_Read nc cs (v # results))"

text \<open>
  Pushing the values of a format, as \<open>LuaWriter::Write\<close> and \<open>ScriptEngine::Call\<close> do. \<open>va_arg\<close> of a type that is promoted
  when it is passed (\<open>s8\<close>, \<open>s16\<close>, \<open>float\<close>, \<open>bool\<close>) is undefined, and the compiler makes it a trap; an argument of
  another type than the format says is undefined too. Unknown letters are passed over.
\<close>

fun push_format :: "numconv \<Rightarrow> string \<Rightarrow> cval list \<Rightarrow> fault + sval list" where
  "push_format nc [] vs = Inr []"
| "push_format nc (c # cs) vs =
     (if c \<in> set ''cdfb'' then Inl (AssertFail ''va_arg of a promoted type'')
      else if c = CHR ''i'' then
        (case vs of C32 i # vs \<Rightarrow> res_bind (push_format nc cs vs) (\<lambda>xs. Inr (SInt i # xs)) | _ \<Rightarrow> Inl OutOfBounds)
      else if c = CHR ''l'' then
        (case vs of C64 i # vs \<Rightarrow> res_bind (push_format nc cs vs) (\<lambda>xs. Inr (SInt i # xs)) | _ \<Rightarrow> Inl OutOfBounds)
      else if c = CHR ''s'' then
        (case vs of
           CStr s # vs \<Rightarrow>
             res_bind (push_format nc cs vs) (\<lambda>xs.
             Inr ((case s of None \<Rightarrow> SNil | Some b \<Rightarrow> SStr (takeWhile (\<lambda>x. x \<noteq> 0) b)) # xs))
         | _ \<Rightarrow> Inl OutOfBounds)
      else if c = CHR ''S'' then
        (case vs of
           CBuf s len # vs \<Rightarrow>
             (let b = (case s of None \<Rightarrow> [] | Some b \<Rightarrow> b) in
              if len < 0 \<or> int (length b) < len then Inl OutOfBounds
              else res_bind (push_format nc cs vs) (\<lambda>xs. Inr (SStr (take (nat len) b) # xs)))
         | _ \<Rightarrow> Inl OutOfBounds)
      else push_format nc cs vs)"

section \<open>The Lua state\<close>

text \<open>
  What is on the stack: script values, functions by number, the tables of the package library, names pushed by the
  engine. \<open>package.loaded\<close> holds the modules by name, each a table of functions.
\<close>

datatype lv = LVal sval | LFun nat | LName string | LPackage | LLoaded | LModule string

record lua_env =
  le_loaded :: "string \<Rightarrow> (string \<Rightarrow> lv option) option"
  le_globals :: "string \<Rightarrow> lv option"
  le_path :: string

record lua_state =
  ls_stack :: "lv list"
  ls_env :: lua_env

definition lua_push :: "lv \<Rightarrow> lua_state \<Rightarrow> lua_state" where
  "lua_push v L = L\<lparr>ls_stack := v # ls_stack L\<rparr>"

definition lua_pop :: "nat \<Rightarrow> lua_state \<Rightarrow> fault + lua_state" where
  "lua_pop n L = (if n \<le> length (ls_stack L) then Inr (L\<lparr>ls_stack := drop n (ls_stack L)\<rparr>) else Inl OutOfBounds)"

text \<open>The element at a negative index.\<close>

definition lua_index :: "nat \<Rightarrow> lua_state \<Rightarrow> fault + lv" where
  "lua_index n L = (if 0 < n \<and> n \<le> length (ls_stack L) then Inr (ls_stack L ! (n - 1)) else Inl OutOfBounds)"

definition lua_getglobal :: "string \<Rightarrow> lua_state \<Rightarrow> lua_state" where
  "lua_getglobal name L =
     lua_push (if name = ''package'' then LPackage
               else (case le_globals (ls_env L) name of Some v \<Rightarrow> v | None \<Rightarrow> LVal SNil)) L"

definition table_get :: "lua_env \<Rightarrow> lv \<Rightarrow> string \<Rightarrow> fault + lv" where
  "table_get E t name =
     (case t of
        LPackage \<Rightarrow> Inr (if name = ''loaded'' then LLoaded else if name = ''path'' then LName (le_path E) else LVal SNil)
      | LLoaded \<Rightarrow> Inr (case le_loaded E name of Some _ \<Rightarrow> LModule name | None \<Rightarrow> LVal SNil)
      | LModule m \<Rightarrow>
          Inr (case le_loaded E m of
                 Some fs \<Rightarrow> (case fs name of Some v \<Rightarrow> v | None \<Rightarrow> LVal SNil)
               | None \<Rightarrow> LVal SNil)
      | _ \<Rightarrow> Inl OutOfBounds)"

text \<open>\<open>lua_getfield(L, -1, name)\<close>, and \<open>lua_rawget(L, -2)\<close> with a pushed name.\<close>

definition lua_getfield_top :: "string \<Rightarrow> lua_state \<Rightarrow> fault + lua_state" where
  "lua_getfield_top name L =
     res_bind (lua_index 1 L) (\<lambda>t. res_bind (table_get (ls_env L) t name) (\<lambda>v. Inr (lua_push v L)))"

definition lua_rawget_2 :: "lua_state \<Rightarrow> fault + lua_state" where
  "lua_rawget_2 L =
     (case ls_stack L of
        LName k # t # rest \<Rightarrow>
          res_bind (table_get (ls_env L) t k) (\<lambda>v. Inr (L\<lparr>ls_stack := v # t # rest\<rparr>))
      | _ \<Rightarrow> Inl OutOfBounds)"

text \<open>\<open>lua_rawset(L, -3)\<close>: a new table into \<open>package.loaded\<close> (written as its own name), or a function into a module.\<close>

definition lua_rawset_3 :: "lua_state \<Rightarrow> fault + lua_state" where
  "lua_rawset_3 L =
     (case ls_stack L of
        v # LName k # t # rest \<Rightarrow>
          (case t of
             LLoaded \<Rightarrow>
               Inr (L\<lparr>ls_stack := t # rest, ls_env := (ls_env L)\<lparr>le_loaded := (le_loaded (ls_env L))(k \<mapsto> Map.empty)\<rparr>\<rparr>)
           | LModule m \<Rightarrow>
               (case le_loaded (ls_env L) m of
                  Some fs \<Rightarrow>
                    Inr (L\<lparr>ls_stack := t # rest,
                           ls_env := (ls_env L)\<lparr>le_loaded := (le_loaded (ls_env L))(m \<mapsto> fs(k \<mapsto> v))\<rparr>\<rparr>)
                | None \<Rightarrow> Inl OutOfBounds)
           | _ \<Rightarrow> Inl OutOfBounds)
      | _ \<Rightarrow> Inl OutOfBounds)"

definition is_fun :: "lv \<Rightarrow> bool" where
  "is_fun v = (case v of LFun _ \<Rightarrow> True | _ \<Rightarrow> False)"

definition is_module :: "lv \<Rightarrow> bool" where
  "is_module v = (case v of LModule _ \<Rightarrow> True | _ \<Rightarrow> False)"

section \<open>Modules of functions\<close>

text \<open>
  A \<open>ScriptModule\<close> is the name it keeps: at most 63 characters, formatted; the table is made under the name as given.
  \<open>module_path\<close> is \<open>SafeSprintf(module, 256, "serverd.%s", name)\<close>.
\<close>

definition module_path :: "string \<Rightarrow> string" where
  "module_path name = take 255 (''serverd.'' @ name)"

definition CreateModule :: "string \<Rightarrow> lua_state \<Rightarrow> fault + string \<times> lua_state" where
  "CreateModule name L =
     res_bind (lua_getfield_top ''loaded'' (lua_getglobal ''package'' L)) (\<lambda>L1.
     res_bind (lua_rawset_3 (lua_push (LModule (module_path name)) (lua_push (LName (module_path name)) L1))) (\<lambda>L2.
     res_bind (lua_pop 2 L2) (\<lambda>L3.
     res_bind (SafeSprintf 64 name) (\<lambda>m. Inr (m, L3)))))"

definition push_module :: "string \<Rightarrow> lua_state \<Rightarrow> fault + lua_state" where
  "push_module m L =
     res_bind (lua_getfield_top ''loaded'' (lua_getglobal ''package'' L)) (\<lambda>L1.
     res_bind (lua_rawget_2 (lua_push (LName (module_path m)) L1)) (\<lambda>L2.
     res_bind (lua_index 1 L2) (\<lambda>t.
     res_bind (oassert (is_module t) ''where is module'') (\<lambda>_. Inr L2))))"

text \<open>The closure of \<open>Callback\<close> over the C function \<open>f\<close> is the function number \<open>f\<close>. (No return statement: the result is not used.)\<close>

definition AddModuleFunction :: "string \<Rightarrow> string \<Rightarrow> nat \<Rightarrow> lua_state \<Rightarrow> fault + lua_state" where
  "AddModuleFunction m func f L =
     res_bind (push_module m L) (\<lambda>L1.
     res_bind (lua_rawset_3 (lua_push (LFun f) (lua_push (LName func) L1))) (lua_pop 3))"

text \<open>\<open>AddSearchPath\<close>: \<open>lua_pushfstring\<close>, then \<open>lua_setfield(-3, "path")\<close> and two pops.\<close>

definition AddSearchPath :: "string \<Rightarrow> lua_state \<Rightarrow> fault + lua_state" where
  "AddSearchPath p L =
     res_bind (lua_getfield_top ''path'' (lua_getglobal ''package'' L)) (\<lambda>L1.
     res_bind (lua_index 1 L1) (\<lambda>cur_path.
     case cur_path of
       LName cp \<Rightarrow>
         (let L2 = L1\<lparr>ls_env := (ls_env L1)\<lparr>le_path := cp @ '';'' @ p @ ''/?.lua''\<rparr>\<rparr> in lua_pop 2 L2)
     | _ \<Rightarrow> Inl OutOfBounds))"

definition LoadLua :: "string \<Rightarrow> string \<Rightarrow> lua_state \<Rightarrow> fault + lua_state" where
  "LoadLua p logic L =
     res_bind (AddSearchPath (take 511 (p @ ''/hyper_net'')) L) (AddSearchPath (take 511 (p @ ''/'' @ logic)))"

text \<open>\<open>Callback\<close>: the C function \<open>f\<close> reads the arguments and writes its results; their number is returned.\<close>

definition script_callback :: "(sval list \<Rightarrow> 'w \<Rightarrow> fault + sval list \<times> 'w) \<Rightarrow> sval list \<Rightarrow> 'w \<Rightarrow> fault + (nat \<times> sval list) \<times> 'w" where
  "script_callback f args w = res_bind (f args w) (\<lambda>(out, w). Inr ((length out, out), w))"

section \<open>Calls\<close>

definition MAX_LUA_RESULT :: nat where "MAX_LUA_RESULT = 8"

text \<open>
  \<open>lua_pcall\<close> with a fixed number of results: \<open>run f args E\<close> is what the script does, the results or the error value
  (after the message handler), and the environment it leaves.
\<close>

type_synonym runner = "lv \<Rightarrow> sval list \<Rightarrow> lua_env \<Rightarrow> lua_env \<times> (sval + sval list)"

definition PrepareCall :: "string \<Rightarrow> string \<Rightarrow> lua_state \<Rightarrow> fault + lua_state" where
  "PrepareCall m func L =
     res_bind (push_module m L) (\<lambda>L1.
     res_bind (lua_rawget_2 (lua_push (LName func) L1)) (\<lambda>L2.
     res_bind (lua_index 1 L2) (\<lambda>f.
     res_bind (oassert (is_fun f) ''is not a function'') (\<lambda>_. Inr L2))))"

definition pad_results :: "sval list \<Rightarrow> sval list" where
  "pad_results rs = take MAX_LUA_RESULT (rs @ replicate MAX_LUA_RESULT SNil)"

text \<open>
  \<open>ExecuteFunction\<close>: the function lies under its \<open>argc\<close> arguments. The message handler, if there is one, is inserted
  below the function. The reader gets the results; what it reads is returned with the success.
\<close>

definition ExecuteFunction ::
    "runner \<Rightarrow> nat \<Rightarrow> (sval list \<Rightarrow> fault + 'r) \<Rightarrow> lua_state \<Rightarrow> fault + (bool \<times> 'r option) \<times> lua_state" where
  "ExecuteFunction run argc reader L =
     res_bind (lua_index (argc + 1) L) (\<lambda>f.
     res_bind (oassert (is_fun f) ''execute lua func but is not a func'') (\<lambda>_.
     let L1 = lua_getglobal ''__G__TRACKBACK__'' L in
     res_bind (lua_index 1 L1) (\<lambda>g.
     res_bind
       (if is_fun g
        then Inr (True, L1\<lparr>ls_stack := take (argc + 1) (ls_stack L) @ g # drop (argc + 1) (ls_stack L)\<rparr>)
        else res_bind (lua_pop 1 L1) (\<lambda>L. Inr (False, L))) (\<lambda>(traceback, L2).
     let args = concat (List.map (\<lambda>v. case v of LVal x \<Rightarrow> [x] | _ \<Rightarrow> []) (rev (take argc (ls_stack L2))));
         (E, out) = run f args (ls_env L2);
         base = L2\<lparr>ls_stack := drop (argc + 1) (ls_stack L2), ls_env := E\<rparr> in
     case out of
       Inl err \<Rightarrow>
         res_bind (lua_pop (if traceback then 2 else 1) (lua_push (LVal err) base)) (\<lambda>L3. Inr ((False, None), L3))
     | Inr rs \<Rightarrow>
         res_bind (reader (pad_results rs)) (\<lambda>r.
         res_bind (lua_pop MAX_LUA_RESULT (base\<lparr>ls_stack := List.map LVal (rev (pad_results rs)) @ ls_stack base\<rparr>)) (\<lambda>L3.
         res_bind (if traceback then lua_pop 1 L3 else Inr L3) (\<lambda>L4. Inr ((True, Some r), L4))))))))"

text \<open>The reader of \<open>Call\<close>: the results before the first nil are given to \<open>f\<close>.\<close>

definition counted_results :: "sval list \<Rightarrow> sval list" where
  "counted_results rs = takeWhile (\<lambda>v. v \<noteq> SNil) rs"

definition ScriptEngine_Call ::
    "numconv \<Rightarrow> runner \<Rightarrow> string \<Rightarrow> string \<Rightarrow> (sval list \<Rightarrow> fault + 'r) \<Rightarrow> string \<Rightarrow> cval list \<Rightarrow> lua_state
     \<Rightarrow> fault + (bool \<times> 'r option) \<times> lua_state" where
  "ScriptEngine_Call nc run m func f fmt vs L =
     res_bind (PrepareCall m func L) (\<lambda>L1.
     res_bind (push_format nc fmt vs) (\<lambda>xs.
     let L2 = L1\<lparr>ls_stack := List.map LVal (rev xs) @ ls_stack L1\<rparr> in
     res_bind (ExecuteFunction run (length xs) (\<lambda>rs. f (counted_results rs)) L2) (\<lambda>(ret, L3).
     res_bind (lua_pop 3 L3) (\<lambda>L4. Inr (ret, L4)))))"

definition ExecuteGlobalFunction ::
    "runner \<Rightarrow> string \<Rightarrow> lua_state \<Rightarrow> fault + (bool \<times> unit option) \<times> lua_state" where
  "ExecuteGlobalFunction run name L =
     (let L1 = lua_getglobal name L in
      res_bind (lua_index 1 L1) (\<lambda>f.
      res_bind (oassert (is_fun f) ''execute global func but is not a function'') (\<lambda>_.
      ExecuteFunction run 0 (\<lambda>_. Inr ()) L1)))"

text \<open>\<open>ExecuteString\<close>: \<open>luaL_loadstring\<close> pushes the chunk as a function, or the error message, on which the call asserts.\<close>

definition ExecuteString ::
    "runner \<Rightarrow> (string \<Rightarrow> lv) \<Rightarrow> string \<Rightarrow> lua_state \<Rightarrow> fault + (bool \<times> unit option) \<times> lua_state" where
  "ExecuteString run load codes L = ExecuteFunction run 0 (\<lambda>_. Inr ()) (lua_push (load codes) L)"

definition ExecuteScriptFile ::
    "runner \<Rightarrow> (string \<Rightarrow> lv) \<Rightarrow> string \<Rightarrow> lua_state \<Rightarrow> fault + (bool \<times> unit option) \<times> lua_state" where
  "ExecuteScriptFile run load m L = ExecuteString run load (take 255 (''require '' @ [CHR 0x27] @ m @ [CHR 0x27])) L"

text \<open>\<open>Loop\<close> runs the global \<open>loop\<close> once a frame; a script error ends the process.\<close>

definition ScriptEngine_Loop :: "runner \<Rightarrow> lua_state \<Rightarrow> fault + lua_state" where
  "ScriptEngine_Loop run L =
     res_bind (ExecuteGlobalFunction run ''loop'' L) (\<lambda>((res, _), L).
     res_bind (oassert res ''lua core loop failed'') (\<lambda>_. Inr L))"

end
