(* ===== verification/ScriptSpec.thy ===== *)
theory ScriptSpec
  imports ScriptEngine
begin

text \<open>
  The laws of the bridge to the scripts: what is marshalled is read back, a call runs the registered function on
  exactly the given arguments, and the Lua stack is on every path as it was.
\<close>

section \<open>Formats\<close>

fun cval_ok :: "cval \<Rightarrow> bool" where
  "cval_ok (C32 i) = in_s32 i"
| "cval_ok (CStr (Some b)) = (0 \<notin> set b)"
| "cval_ok (CStr None) = False"
| "cval_ok (CBuf (Some b) len) = (len = int (length b) \<and> len < 2147483648)"
| "cval_ok (CBuf None len) = False"
| "cval_ok _ = True"

lemma read_one_simps [simp]:
  "read_one nc CHR ''i'' (SInt i) = Some (C32 (s32 i))"
  "read_one nc CHR ''l'' (SInt i) = Some (C64 i)"
  "read_one nc CHR ''s'' (SStr b) = Some (CStr (Some b))"
  "read_one nc CHR ''S'' (SStr b) = Some (CBuf (Some b) (s32 (int (length b))))"
  by (simp_all add: read_one_def lua_tointeger_def num_of_def lua_tolstring_def)

text \<open>
  Arguments that one side pushes with a format of integers and strings are read back by the other side, with the same
  format, as the same C values: integers of 32 and 64 bits, C strings, and buffers with their length.
\<close>

lemma format_roundtrip:
  assumes "push_format nc fmt vs = Inr xs" "list_all cval_ok vs" "set fmt \<subseteq> set ''ilsS''" "length vs = length fmt"
  shows "LuaReader_Read nc fmt xs = Inr vs"
  using assms
proof (induction fmt arbitrary: vs xs)
  case Nil
  then show ?case by simp
next
  case (Cons c cs)
  then obtain v vs' where vs: "vs = v # vs'" by (cases vs) auto
  consider "c = CHR ''i''" | "c = CHR ''l''" | "c = CHR ''s''" | "c = CHR ''S''" using Cons.prems(3) by auto
  then show ?case
  proof cases
    case 1
    with Cons.prems vs obtain i ys where "v = C32 i" "xs = SInt i # ys" "push_format nc cs vs' = Inr ys"
      by (auto simp: res_simps split: cval.splits)
    with 1 Cons.IH [of vs' ys] Cons.prems vs show ?thesis by (simp add: s32_id)
  next
    case 2
    with Cons.prems vs obtain i ys where "v = C64 i" "xs = SInt i # ys" "push_format nc cs vs' = Inr ys"
      by (auto simp: res_simps split: cval.splits)
    with 2 Cons.IH [of vs' ys] Cons.prems vs show ?thesis by simp
  next
    case 3
    with Cons.prems vs obtain s ys where s: "v = CStr s" "push_format nc cs vs' = Inr ys"
      "xs = (case s of None \<Rightarrow> SNil | Some b \<Rightarrow> SStr (takeWhile (\<lambda>x. x \<noteq> 0) b)) # ys"
      by (auto simp: res_simps split: cval.splits)
    with Cons.prems vs obtain b where b: "s = Some b" "0 \<notin> set b" by (cases s) auto
    then have "takeWhile (\<lambda>x. x \<noteq> 0) b = b" by (auto simp: takeWhile_eq_all_conv)
    with 3 s b Cons.IH [of vs' ys] Cons.prems vs show ?thesis by simp
  next
    case 4
    with Cons.prems vs obtain s len where v: "v = CBuf s len" by (auto split: cval.splits)
    with Cons.prems vs obtain b where b: "s = Some b" "len = int (length b)" "len < 2147483648" by (cases s) auto
    then have e: "vs = CBuf (Some b) (int (length b)) # vs'" using vs v by simp
    from Cons.prems(1) 4 have "res_bind (push_format nc cs vs') (\<lambda>xs. Inr (SStr b # xs)) = Inr xs"
      by (simp add: e)
    then obtain ys where ys: "xs = SStr b # ys" "push_format nc cs vs' = Inr ys" by (auto simp: res_simps)
    have "LuaReader_Read nc cs ys = Inr vs'" using Cons.prems ys(2) vs by (intro Cons.IH) auto
    moreover have "s32 (int (length b)) = int (length b)" using b by (intro s32_nonneg_id) auto
    ultimately show ?thesis using 4 by (simp add: e ys(1))
  qed
qed

definition no_floats :: numconv where
  "no_floats = \<lparr>nc_i2d = (\<lambda>_. 0), nc_strtod = (\<lambda>_. None), nc_d2f = (\<lambda>_. 0), nc_f2d = (\<lambda>_. 0), nc_d2s = (\<lambda>_. [])\<rparr>"

lemma format_roundtrip_witness:
  "LuaReader_Read no_floats ''iiS'' [SInt 3, SInt (- 7), SStr [0, 255]] = Inr [C32 3, C32 (- 7), CBuf (Some [0, 255]) 2]"
  by (rule format_roundtrip) (simp_all add: in_s32_def)

lemma promoted_argument_traps: "c \<in> set ''cdfb'' \<Longrightarrow> push_format nc (c # cs) vs = Inl (AssertFail ''va_arg of a promoted type'')"
  by simp

section \<open>Calls\<close>

lemma stack_simps [simp]:
  "ls_stack (lua_push v L) = v # ls_stack L" "ls_env (lua_push v L) = ls_env L"
  "lua_index (Suc n) (lua_push v L) = (if n = 0 then Inr v else lua_index n L)"
  by (auto simp: lua_push_def lua_index_def)

lemma push_module_ok:
  assumes "le_loaded (ls_env L) (module_path m) = Some fs"
  shows "push_module m L = Inr (L\<lparr>ls_stack := [LModule (module_path m), LLoaded, LPackage] @ ls_stack L\<rparr>)"
  using assms
  by (simp add: push_module_def lua_getfield_top_def lua_getglobal_def lua_rawget_2_def table_get_def lua_push_def
      lua_index_def is_module_def)

lemma push_module_Inr:
  assumes "push_module m L = Inr L'"
  shows "\<exists>fs. le_loaded (ls_env L) (module_path m) = Some fs"
  using assms
  by (auto simp: push_module_def lua_getfield_top_def lua_getglobal_def lua_rawget_2_def table_get_def lua_push_def
      lua_index_def is_module_def res_simps split: option.splits)

lemma PrepareCall_ok:
  assumes "le_loaded (ls_env L) (module_path m) = Some fs" "fs func = Some (LFun f)"
  shows "PrepareCall m func L = Inr (L\<lparr>ls_stack := [LFun f, LModule (module_path m), LLoaded, LPackage] @ ls_stack L\<rparr>)"
  using assms
  by (simp add: PrepareCall_def push_module_ok lua_rawget_2_def table_get_def lua_push_def lua_index_def is_fun_def)

lemma PrepareCall_Inr:
  assumes "PrepareCall m func L = Inr L'"
  shows "\<exists>fs f. le_loaded (ls_env L) (module_path m) = Some fs \<and> fs func = Some (LFun f)"
proof -
  obtain L1 where "push_module m L = Inr L1" using assms by (auto simp: PrepareCall_def res_simps)
  then obtain fs where fs: "le_loaded (ls_env L) (module_path m) = Some fs" using push_module_Inr by blast
  with assms show ?thesis
    by (auto simp: PrepareCall_def push_module_ok lua_rawget_2_def table_get_def lua_push_def lua_index_def is_fun_def
        res_simps split: option.splits lv.splits)
qed

lemma length_pad_results [simp]: "length (pad_results rs) = MAX_LUA_RESULT"
  by (simp add: pad_results_def MAX_LUA_RESULT_def)

lemma plain_args: "concat (List.map (\<lambda>v. case v of LVal x \<Rightarrow> [x] | _ \<Rightarrow> []) (List.map LVal xs)) = xs"
  by (induction xs) simp_all

lemma is_fun_iff: "is_fun v \<longleftrightarrow> (\<exists>f. v = LFun f)"
  by (cases v) (simp_all add: is_fun_def)

text \<open>Where the stack is after the run, whatever the outcome and with or without a message handler.\<close>

lemma ExecuteFunction_spec:
  assumes "ls_stack L = List.map LVal (rev xs) @ LFun f # rest"
  shows "ExecuteFunction run (length xs) reader L =
    (let (E, out) = run (LFun f) xs (ls_env L); L' = L\<lparr>ls_stack := rest, ls_env := E\<rparr> in
     case out of
       Inl err \<Rightarrow> Inr ((False, None), L')
     | Inr rs \<Rightarrow> res_bind (reader (pad_results rs)) (\<lambda>r. Inr ((True, Some r), L')))"
proof -
  let ?n = "length xs"
  obtain E out where run: "run (LFun f) xs (ls_env L) = (E, out)" by (cases "run (LFun f) xs (ls_env L)")
  have idx: "lua_index (?n + 1) L = Inr (LFun f)" using assms by (simp add: lua_index_def nth_append)
  have parts: "take (?n + 1) (ls_stack L) = List.map LVal (rev xs) @ [LFun f]" "drop (?n + 1) (ls_stack L) = rest"
    "take ?n (ls_stack L) = List.map LVal (rev xs)" using assms by simp_all
  have args: "concat (List.map (\<lambda>v. case v of LVal x \<Rightarrow> [x] | _ \<Rightarrow> []) (rev (List.map LVal (rev xs)))) = xs"
    using plain_args [of xs] by (simp add: rev_map)
  have n: "(List.map LVal (rev xs) @ LFun f # rest) ! length xs = LFun f" by (simp add: nth_append)
  obtain g where g: "lua_getglobal ''__G__TRACKBACK__'' L = lua_push g L" by (simp add: lua_getglobal_def)
  show ?thesis
  proof (cases "is_fun g")
    case True
    then show ?thesis
      by (cases out; cases "reader (pad_results (projr out))")
        (simp_all add: ExecuteFunction_def Let_def idx [simplified] g parts [simplified] assms run args lua_pop_def lua_push_def
          is_fun_def [of "LFun f"] lua_index_def n)
  next
    case False
    then show ?thesis
      by (cases out; cases "reader (pad_results (projr out))")
        (simp_all add: ExecuteFunction_def Let_def idx [simplified] g parts [simplified] assms run args lua_pop_def lua_push_def
          is_fun_def [of "LFun f"] lua_index_def n)
  qed
qed

lemma Call_spec:
  assumes "le_loaded (ls_env L) (module_path m) = Some fs" "fs func = Some (LFun k)" "push_format nc fmt vs = Inr xs"
  shows "ScriptEngine_Call nc run m func f fmt vs L =
    (let (E, out) = run (LFun k) xs (ls_env L); L' = L\<lparr>ls_env := E\<rparr> in
     case out of
       Inl err \<Rightarrow> Inr ((False, None), L')
     | Inr rs \<Rightarrow> res_bind (f (counted_results (pad_results rs))) (\<lambda>r. Inr ((True, Some r), L')))"
proof -
  let ?L = "L\<lparr>ls_stack := List.map LVal (rev xs) @ LFun k # LModule (module_path m) # LLoaded # LPackage # ls_stack L\<rparr>"
  obtain E out where run: "run (LFun k) xs (ls_env L) = (E, out)" by (cases "run (LFun k) xs (ls_env L)")
  have "ls_stack ?L = List.map LVal (rev xs) @ LFun k # LModule (module_path m) # LLoaded # LPackage # ls_stack L" by simp
  note ex = ExecuteFunction_spec [OF this, of run "\<lambda>rs. f (counted_results rs)"]
  show ?thesis
    by (cases out; cases "case out of Inl _ \<Rightarrow> Inl OutOfBounds | Inr rs \<Rightarrow> f (counted_results (pad_results rs))")
      (simp_all add: Let_def ScriptEngine_Call_def PrepareCall_ok [OF assms(1,2)] assms(3) ex run lua_pop_def)
qed

lemma PrepareCall_fails:
  "le_loaded (ls_env L) (module_path m) = None \<Longrightarrow> PrepareCall m func L = Inl (AssertFail ''where is module'')"
  "le_loaded (ls_env L) (module_path m) = Some fs \<Longrightarrow> (\<And>k. fs func \<noteq> Some (LFun k)) \<Longrightarrow>
    PrepareCall m func L = Inl (AssertFail ''is not a function'')"
proof -
  assume "le_loaded (ls_env L) (module_path m) = None"
  then show "PrepareCall m func L = Inl (AssertFail ''where is module'')"
    by (simp add: PrepareCall_def push_module_def lua_getfield_top_def lua_getglobal_def lua_rawget_2_def table_get_def
        lua_push_def lua_index_def is_module_def)
next
  assume fs: "le_loaded (ls_env L) (module_path m) = Some fs" and none: "\<And>k. fs func \<noteq> Some (LFun k)"
  then show "PrepareCall m func L = Inl (AssertFail ''is not a function'')"
    by (auto simp: PrepareCall_def push_module_ok lua_rawget_2_def table_get_def lua_push_def lua_index_def is_fun_def
        split: option.splits lv.splits)
qed

text \<open>
  C40. A call into a script that comes back has run the function registered under that name in that module, on exactly the
  marshalled arguments in order, and leaves the Lua stack as it was: whether the script returns or fails, with or without a
  message handler, with too few results or too many. It does not come back in four cases only: the assertion that the
  module is not there, the assertion that it has no such function, C arguments that do not fit the format, and a
  reader of the results that fails on what the script returned.
\<close>

theorem script_call_keeps_stack:
  "case ScriptEngine_Call nc run m func f fmt vs L of
     Inr ((ok, r), L') \<Rightarrow>
       ls_stack L' = ls_stack L \<and>
       (\<exists>fs k xs. le_loaded (ls_env L) (module_path m) = Some fs \<and> fs func = Some (LFun k) \<and> push_format nc fmt vs = Inr xs \<and>
          ls_env L' = fst (run (LFun k) xs (ls_env L)) \<and> (ok \<longleftrightarrow> (\<exists>rs. snd (run (LFun k) xs (ls_env L)) = Inr rs)))
   | Inl e \<Rightarrow>
       e = AssertFail ''where is module'' \<and> le_loaded (ls_env L) (module_path m) = None \<or>
       e = AssertFail ''is not a function'' \<and>
         (\<exists>fs. le_loaded (ls_env L) (module_path m) = Some fs \<and> (\<nexists>k. fs func = Some (LFun k))) \<or>
       push_format nc fmt vs = Inl e \<or>
       (\<exists>fs k xs rs. le_loaded (ls_env L) (module_path m) = Some fs \<and> fs func = Some (LFun k) \<and>
          push_format nc fmt vs = Inr xs \<and> snd (run (LFun k) xs (ls_env L)) = Inr rs \<and>
          f (counted_results (pad_results rs)) = Inl e)"
proof (cases "le_loaded (ls_env L) (module_path m)")
  case None
  then show ?thesis by (simp add: ScriptEngine_Call_def PrepareCall_fails(1))
next
  case (Some fs)
  show ?thesis
  proof (cases "\<exists>k. fs func = Some (LFun k)")
    case False
    then have "PrepareCall m func L = Inl (AssertFail ''is not a function'')" by (intro PrepareCall_fails(2) [OF Some]) blast
    then show ?thesis using False Some by (simp add: ScriptEngine_Call_def)
  next
    case True
    then obtain k where k: "fs func = Some (LFun k)" by blast
    show ?thesis
    proof (cases "push_format nc fmt vs")
      case (Inl e)
      then show ?thesis by (simp add: ScriptEngine_Call_def PrepareCall_ok [OF Some k])
    next
      case (Inr xs)
      obtain E out where run: "run (LFun k) xs (ls_env L) = (E, out)" by (cases "run (LFun k) xs (ls_env L)")
      show ?thesis unfolding Call_spec [OF Some k Inr] using Some k Inr run
        by (cases out; cases "f (counted_results (pad_results (projr out)))") simp_all
    qed
  qed
qed

definition script_env :: lua_env where
  "script_env = \<lparr>le_loaded = [''serverd.harbor'' \<mapsto> [''onCall'' \<mapsto> LFun 4]], le_globals = [''__G__TRACKBACK__'' \<mapsto> LFun 9], le_path = []\<rparr>"

lemma script_call_keeps_stack_witness:
  "ls_stack \<lparr>ls_stack = [LFun 1], ls_env = script_env\<rparr> = [LFun 1] \<and>
    (\<exists>fs k xs. le_loaded script_env (module_path ''harbor'') = Some fs \<and> fs ''onCall'' = Some (LFun k) \<and>
       push_format no_floats ''i'' [C32 5] = Inr xs \<and> script_env = fst ((\<lambda>f args E. (E, Inl SNil)) (LFun k) xs script_env) \<and>
       (False \<longleftrightarrow> (\<exists>rs. snd ((\<lambda>f args E. (E, Inl SNil)) (LFun k) xs script_env) = (Inr rs :: sval + sval list))))"
proof -
  have "ScriptEngine_Call no_floats (\<lambda>f args E. (E, Inl SNil)) ''harbor'' ''onCall'' (\<lambda>_. Inr ()) ''i'' [C32 5]
      \<lparr>ls_stack = [LFun 1], ls_env = script_env\<rparr> = Inr ((False, None), \<lparr>ls_stack = [LFun 1], ls_env = script_env\<rparr>)"
    by (subst Call_spec [where fs = "[''onCall'' \<mapsto> LFun 4]" and k = 4 and xs = "[SInt 5]"])
      (simp_all add: script_env_def module_path_def)
  note call = this
  show ?thesis
    using script_call_keeps_stack [where nc = no_floats and run = "\<lambda>f args E. (E, Inl SNil)" and m = "''harbor''" and func = "''onCall''"
      and f = "\<lambda>_. Inr ()" and fmt = "''i''" and vs = "[C32 5]"
      and L = "\<lparr>ls_stack = [LFun 1], ls_env = script_env\<rparr>", unfolded call] by simp
qed

section \<open>Registration\<close>

lemma CreateModule_ok:
  assumes "SafeSprintf 64 name = Inr m"
  shows "CreateModule name L = Inr (m, L\<lparr>ls_env := (ls_env L)\<lparr>le_loaded := (le_loaded (ls_env L))(module_path name \<mapsto> Map.empty)\<rparr>\<rparr>)"
  using assms
  by (simp add: CreateModule_def lua_getfield_top_def lua_getglobal_def lua_rawset_3_def table_get_def lua_push_def
      lua_index_def lua_pop_def)

lemma AddModuleFunction_ok:
  assumes "le_loaded (ls_env L) (module_path m) = Some fs"
  shows "AddModuleFunction m func f L =
    Inr (L\<lparr>ls_env := (ls_env L)\<lparr>le_loaded := (le_loaded (ls_env L))(module_path m \<mapsto> fs(func \<mapsto> LFun f))\<rparr>\<rparr>)"
  using assms by (simp add: AddModuleFunction_def push_module_ok lua_rawset_3_def lua_push_def lua_pop_def)

lemma AddSearchPath_ok:
  "AddSearchPath p L = Inr (L\<lparr>ls_env := (ls_env L)\<lparr>le_path := le_path (ls_env L) @ '';'' @ p @ ''/?.lua''\<rparr>\<rparr>)"
  by (simp add: AddSearchPath_def lua_getfield_top_def lua_getglobal_def table_get_def lua_push_def lua_index_def lua_pop_def)

lemma LoadLua_ok:
  "\<exists>E. LoadLua p logic L = Inr (L\<lparr>ls_env := E\<rparr>)"
  by (auto simp: LoadLua_def AddSearchPath_ok)

end
