(* ===== verification/Rpc.thy ===== *)
theory Rpc
  imports MeshProps ScriptSpec
begin

text \<open>
  Remote calls between scripts (\<open>src/src/logic/rpc/Rpc.cpp\<close>): functions the scripts call to send a message to a node,
  and handlers of the harbor that call the scripts. The module's handlers and its listener are numbered.
\<close>

abbreviation (input) RPCNR :: int where "RPCNR \<equiv> 2"
abbreviation (input) RPC :: int where "RPC \<equiv> 3"
abbreviation (input) RESPONE :: int where "RESPONE \<equiv> 4"

record rpc_numbers =
  rn_OnCall :: nat
  rn_OnCallNoRet :: nat
  rn_OnRespone :: nat
  rn_listener :: nat
  rn_Call :: nat
  rn_CallNoRet :: nat
  rn_TypeCall :: nat
  rn_Respone :: nat

definition Rpc_Initialize :: "rpc_numbers \<Rightarrow> harbor \<Rightarrow> fault + harbor" where
  "Rpc_Initialize rn h =
     AddNodeListener (rn_listener rn)
       (RegProtocolHandler ANY_NODE RESPONE (rn_OnRespone rn)
         (RegProtocolHandler ANY_NODE RPCNR (rn_OnCallNoRet rn)
           (RegProtocolHandler ANY_NODE RPC (rn_OnCall rn) h)))"

definition Rpc_Launched :: "rpc_numbers \<Rightarrow> lua_state \<Rightarrow> fault + string \<times> lua_state" where
  "Rpc_Launched rn L =
     res_bind (CreateModule ''harbor'' L) (\<lambda>(m, L).
     res_bind (AddModuleFunction m ''call'' (rn_Call rn) L) (\<lambda>L.
     res_bind (AddModuleFunction m ''callNoRet'' (rn_CallNoRet rn) L) (\<lambda>L.
     res_bind (AddModuleFunction m ''typeCall'' (rn_TypeCall rn) L) (\<lambda>L.
     res_bind (AddModuleFunction m ''respone'' (rn_Respone rn) L) (\<lambda>L. Inr (m, L))))))"

section \<open>From the scripts to the harbor\<close>

text \<open>The \<open>size\<close> bytes at a buffer that was read from the arguments; a null buffer has size zero.\<close>

definition buffer_bytes :: "byte list option \<Rightarrow> int \<Rightarrow> byte list" where
  "buffer_bytes s len = take (nat len) (case s of None \<Rightarrow> [] | Some b \<Rightarrow> b)"

definition send_node :: "int \<Rightarrow> numconv \<Rightarrow> sval list \<Rightarrow> harbor \<Rightarrow> fault + harbor_action list" where
  "send_node messageId nc args h =
     res_bind (LuaReader_Read nc ''iiS'' args) (\<lambda>vs.
     case vs of
       [C32 nodeType, C32 nodeId, CBuf buffer len] \<Rightarrow>
         Inr (snd (Harbor_PrepareSend nodeType nodeId messageId len h) @
              snd (Harbor_Send nodeType nodeId (buffer_bytes buffer len) h))
     | _ \<Rightarrow> Inl OutOfBounds)"

definition Rpc_Call :: "numconv \<Rightarrow> sval list \<Rightarrow> harbor \<Rightarrow> fault + harbor_action list" where
  "Rpc_Call = send_node RPC"

definition Rpc_CallNoRet :: "numconv \<Rightarrow> sval list \<Rightarrow> harbor \<Rightarrow> fault + harbor_action list" where
  "Rpc_CallNoRet = send_node RPCNR"

definition Rpc_Respone :: "numconv \<Rightarrow> sval list \<Rightarrow> harbor \<Rightarrow> fault + harbor_action list" where
  "Rpc_Respone = send_node RESPONE"

definition Rpc_TypeCall :: "numconv \<Rightarrow> sval list \<Rightarrow> harbor \<Rightarrow> fault + harbor_action list" where
  "Rpc_TypeCall nc args h =
     res_bind (LuaReader_Read nc ''iS'' args) (\<lambda>vs.
     case vs of
       [C32 nodeType, CBuf buffer len] \<Rightarrow>
         Inr (PrepareBrocast nodeType RPCNR len h @ Brocast nodeType (buffer_bytes buffer len) h)
     | _ \<Rightarrow> Inl OutOfBounds)"

section \<open>From the harbor to the scripts\<close>

text \<open>Every call is made without a reader of results.\<close>

definition call_script ::
    "string \<Rightarrow> numconv \<Rightarrow> runner \<Rightarrow> string \<Rightarrow> string \<Rightarrow> cval list \<Rightarrow> lua_state \<Rightarrow> fault + (bool \<times> unit option) \<times> lua_state" where
  "call_script func nc run m fmt vs L = ScriptEngine_Call nc run m func (\<lambda>_. Inr ()) fmt vs L"

definition Rpc_OnOpen :: "numconv \<Rightarrow> runner \<Rightarrow> string \<Rightarrow> int \<Rightarrow> int \<Rightarrow> lua_state \<Rightarrow> fault + (bool \<times> unit option) \<times> lua_state" where
  "Rpc_OnOpen nc run m nodeType nodeId L = call_script ''onOpen'' nc run m ''ii'' [C32 nodeType, C32 nodeId] L"

definition Rpc_OnClose :: "numconv \<Rightarrow> runner \<Rightarrow> string \<Rightarrow> int \<Rightarrow> int \<Rightarrow> lua_state \<Rightarrow> fault + (bool \<times> unit option) \<times> lua_state" where
  "Rpc_OnClose nc run m nodeType nodeId L = call_script ''onClose'' nc run m ''ii'' [C32 nodeType, C32 nodeId] L"

definition Rpc_OnCall :: "numconv \<Rightarrow> runner \<Rightarrow> string \<Rightarrow> int \<Rightarrow> int \<Rightarrow> byte list \<Rightarrow> lua_state \<Rightarrow> fault + (bool \<times> unit option) \<times> lua_state" where
  "Rpc_OnCall nc run m nodeType nodeId context L =
     call_script ''onCall'' nc run m ''iiS'' [C32 nodeType, C32 nodeId, CBuf (Some context) (int (length context))] L"

definition Rpc_OnCallNoRet :: "numconv \<Rightarrow> runner \<Rightarrow> string \<Rightarrow> int \<Rightarrow> int \<Rightarrow> byte list \<Rightarrow> lua_state \<Rightarrow> fault + (bool \<times> unit option) \<times> lua_state" where
  "Rpc_OnCallNoRet nc run m nodeType nodeId context L =
     call_script ''onCallNoRet'' nc run m ''iiS'' [C32 nodeType, C32 nodeId, CBuf (Some context) (int (length context))] L"

definition Rpc_OnRespone :: "numconv \<Rightarrow> runner \<Rightarrow> string \<Rightarrow> int \<Rightarrow> int \<Rightarrow> byte list \<Rightarrow> lua_state \<Rightarrow> fault + (bool \<times> unit option) \<times> lua_state" where
  "Rpc_OnRespone nc run m nodeType nodeId context L =
     call_script ''onRespone'' nc run m ''iiS'' [C32 nodeType, C32 nodeId, CBuf (Some context) (int (length context))] L"

section \<open>A call from script to script\<close>

lemma Launched_module:
  "\<exists>L'. Rpc_Launched rn L = Inr (''harbor'', L') \<and> ls_stack L' = ls_stack L \<and>
    (\<exists>fs. le_loaded (ls_env L') (module_path ''harbor'') = Some fs \<and> fs ''call'' = Some (LFun (rn_Call rn)) \<and>
       fs ''respone'' = Some (LFun (rn_Respone rn)))"
proof -
  have s: "SafeSprintf 64 ''harbor'' = Inr ''harbor''" by (simp add: SafeSprintf_def)
  show ?thesis by (simp add: Rpc_Launched_def CreateModule_ok [OF s] AddModuleFunction_ok)
qed

lemma send_node_ok:
  assumes "in_s32 t" "in_s32 i" "int (length payload) < 1073741824"
  shows "send_node mid nc [SInt t, SInt i, SStr payload] h =
    Inr (snd (Harbor_PrepareSend t i mid (int (length payload)) h) @ snd (Harbor_Send t i payload h))"
proof -
  have "s32 (int (length payload)) = int (length payload)" using assms(3) by (intro s32_nonneg_id) auto
  then show ?thesis using assms(1,2) by (simp add: send_node_def s32_id buffer_bytes_def)
qed

lemma call_script_runs:
  assumes "le_loaded (ls_env L) (module_path m) = Some fs" "fs func = Some (LFun k)" "push_format nc fmt vs = Inr xs"
  shows "\<exists>ok r. call_script func nc run m fmt vs L = Inr ((ok, r), L\<lparr>ls_env := fst (run (LFun k) xs (ls_env L))\<rparr>)"
proof -
  obtain E out where run: "run (LFun k) xs (ls_env L) = (E, out)" by (cases "run (LFun k) xs (ls_env L)")
  show ?thesis unfolding call_script_def Call_spec [OF assms] by (cases out) (auto simp: run)
qed

text \<open>
  C36. A remote call goes from script to script: what \<open>harbor.call(type, id, payload)\<close> writes on one node, cut into any
  chunks that fit the receive buffer of the other, ends in one call of the script function \<open>onCall\<close> there, with the
  caller's type and id and with the payload unchanged, and the Lua stack of the callee as it was.
\<close>

theorem remote_call_reaches_script:
  assumes "map_of (hb_nodes hA t) i = Some sA" "in_s32 t" "in_s32 i" "int (length payload) < 1073741824"
    and "Rpc_Call nc [SInt t, SInt i, SStr payload] hA = Inr acts" "concat chunks = sent_to sA acts"
    and "hb_sessions hB sB = Some ns" "ns_ready ns" "hb_handlers hB (ns_nodeType ns) RPC = None"
    and "hb_handlers hB ANY_NODE RPC = Some (rn_OnCall rn)"
    and "c_session c = Some (Inr (hB, []))" "c_alive c" "bufs_ok c" "b_offset (recvW c) = 0" "content (recvU c) = []"
    and "chunks_fit ParsePacket (b_size (recvU c)) [] chunks"
    and "le_loaded (ls_env L) (module_path m) = Some fs" "fs ''onCall'' = Some (LFun k)"
  shows "\<exists>c'. feed (node_app sB ip now) oe chunks c = Inr (True, c') \<and>
    c_session c' = Some (Inr (hB, [HandlerCall (rn_OnCall rn) (ns_nodeType ns) (ns_nodeId ns) payload])) \<and>
    (\<exists>ok r. Rpc_OnCall nc run m (ns_nodeType ns) (ns_nodeId ns) payload L =
       Inr ((ok, r), L\<lparr>ls_env :=
         fst (run (LFun k) [SInt (ns_nodeType ns), SInt (ns_nodeId ns), SStr payload] (ls_env L))\<rparr>))"
proof -
  have sm: "small_message (RPC, payload)" using assms(4) by (simp add: small_message_def in_s32_def)
  have "acts = snd (Harbor_PrepareSend t i RPC (int (length payload)) hA) @ snd (Harbor_Send t i payload hA)"
    using assms(5) by (simp add: Rpc_Call_def send_node_ok [OF assms(2-4)])
  then have "sent_to sA acts = node_message (RPC, payload)" using send_message_bytes [OF assms(1) sm] by simp
  then have whole: "concat chunks = concat (List.map node_message [(RPC, payload)])" using assms(6) by simp
  have "\<forall>x\<in>set [(RPC, payload)]. small_message x" using sm by simp
  from link_delivers [OF assms(11-15,7,8) this whole assms(16)] obtain c' where
    "feed (node_app sB ip now) oe chunks c = Inr (True, c')"
    "c_session c' = Some (Inr (hB, concat (List.map (dispatch hB (ns_nodeType ns) (ns_nodeId ns)) [(RPC, payload)])))"
    by blast
  moreover have "dispatch hB (ns_nodeType ns) (ns_nodeId ns) (RPC, payload) =
      [HandlerCall (rn_OnCall rn) (ns_nodeType ns) (ns_nodeId ns) payload]"
    by (simp add: dispatch_def assms(9,10))
  moreover have "push_format nc ''iiS'' [C32 (ns_nodeType ns), C32 (ns_nodeId ns), CBuf (Some payload) (int (length payload))] =
      Inr [SInt (ns_nodeType ns), SInt (ns_nodeId ns), SStr payload]" by simp
  ultimately show ?thesis
    using call_script_runs [OF assms(17,18), of nc "''iiS''"] by (fastforce simp: Rpc_OnCall_def)
qed

definition demo_numbers :: rpc_numbers where
  "demo_numbers = \<lparr>rn_OnCall = 1, rn_OnCallNoRet = 2, rn_OnRespone = 3, rn_listener = 4, rn_Call = 5, rn_CallNoRet = 6,
     rn_TypeCall = 7, rn_Respone = 8\<rparr>"

definition rpc_harbor :: harbor where
  "rpc_harbor = (case Rpc_Initialize demo_numbers open_harbor of Inr h \<Rightarrow> h | Inl _ \<Rightarrow> open_harbor)"

definition rpc_conn :: "link conn" where
  "rpc_conn = Connection_create 0 0 64 64 (Inr (rpc_harbor, [])) \<lparr>q_data = [], q_front = 0, q_tail = 0, q_size = 0\<rparr>"

lemma remote_call_reaches_script_witness:
  "\<exists>c'. feed (node_app 0 [] 0) (OnEvent (node_app 0 [] 0) 2) [node_message (3, [1, 2])] rpc_conn = Inr (True, c') \<and>
    c_session c' = Some (Inr (rpc_harbor, [HandlerCall 1 2 7 [1, 2]])) \<and>
    (\<exists>ok r. Rpc_OnCall no_floats (\<lambda>f args E. (E, Inr args)) ''harbor'' 2 7 [1, 2] \<lparr>ls_stack = [], ls_env = script_env\<rparr> =
       Inr ((ok, r), \<lparr>ls_stack = [], ls_env = script_env\<rparr>))"
proof -
  let ?L = "\<lparr>ls_stack = [], ls_env = script_env\<rparr>" and ?ch = "[node_message (3, [1, 2])]"
  have e: "map_of (hb_nodes open_harbor 2) 7 = Some 0" by (simp add: open_harbor_def)
  have sm: "small_message (3, [1, 2])" by (simp add: small_message_def in_s32_def)
  have r: "in_s32 2" "in_s32 7" "int (length ([1, 2] :: byte list)) < 1073741824" by (simp_all add: in_s32_def)
  obtain acts where acts: "Rpc_Call no_floats [SInt 2, SInt 7, SStr [1, 2]] open_harbor = Inr acts"
    "sent_to 0 acts = node_message (3, [1, 2])"
    using send_message_bytes [OF e sm] by (simp add: Rpc_Call_def send_node_ok r)
  have s: "hb_sessions rpc_harbor 0 = Some open_session" "ns_ready open_session"
    "hb_handlers rpc_harbor (ns_nodeType open_session) 3 = None"
    "hb_handlers rpc_harbor (- 1) 3 = Some (rn_OnCall demo_numbers)"
    by (simp_all add: rpc_harbor_def Rpc_Initialize_def AddNodeListener_def RegProtocolHandler_def open_harbor_def
        open_session_def start_harbor_def demo_numbers_def)
  have c: "c_session rpc_conn = Some (Inr (rpc_harbor, []))" "c_alive rpc_conn" "bufs_ok rpc_conn"
      "b_offset (recvW rpc_conn) = 0" "content (recvU rpc_conn) = []" "b_size (recvU rpc_conn) = 64"
    by (simp_all add: rpc_conn_def Connection_create_def bufs_ok_def buf_ok_def fresh_buffer_def content_def)
  have fit: "chunks_fit ParsePacket (b_size (recvU rpc_conn)) [] ?ch"
    using frames_messages [of "[(3, [1, 2])]"] sm c(6) by simp
  have l: "le_loaded (ls_env ?L) (module_path ''harbor'') = Some [''onCall'' \<mapsto> LFun 4]"
    by (simp add: script_env_def module_path_def)
  have "concat ?ch = sent_to 0 acts" using acts(2) by simp
  from remote_call_reaches_script [OF e r acts(1) this s c(1-5) fit l, of 4 "[]" 0 "OnEvent (node_app 0 [] 0) 2"
      "\<lambda>f args E. (E, Inr args)"]
  show ?thesis by (simp add: open_session_def demo_numbers_def)
qed

end
