(* ===== verification/ThreadModule.thy ===== *)
theory ThreadModule
  imports Prelude
begin

text \<open>
  The worker threads of \<open>src/src/public/ThreadModule.h\<close>: the queue of a thread, its procedure as steps that
  interleave with the pushes and the termination by the main thread, and the completion lists. A step
  is what the code does between two points at which the other side can run: under the mutex, or up to
  the next test of a shared flag.
\<close>

section \<open>One thread\<close>

text \<open>
  Where the procedure stands: before the test of the outer loop, before the test of the inner loop,
  before taking the mutex, asleep in \<open>wait\<close>, behind the inner loop, or returned.
\<close>

datatype thread_pc = OuterTest | InnerTest | Locking | Waiting | AfterInner | Returned

record 'c thread =
  th_pc :: thread_pc
  th_command :: "'c option"
  th_commands :: "'c list"
  th_terminate :: bool
  th_running :: bool
  th_executed :: "'c list"
  th_complete :: "'c list"

definition thread_Start :: "'c thread" where
  "thread_Start = \<lparr>th_pc = OuterTest, th_command = None, th_commands = [], th_terminate = False,
     th_running = True, th_executed = [], th_complete = []\<rparr>"

text \<open>\<open>Thread::Push\<close>: only appends; the notification makes a sleeping thread able to wake up.\<close>

definition thread_Push :: "'c \<Rightarrow> 'c thread \<Rightarrow> 'c thread" where
  "thread_Push c t = t\<lparr>th_commands := th_commands t @ [c]\<rparr>"

definition thread_Terminate :: "'c thread \<Rightarrow> 'c thread" where
  "thread_Terminate t = t\<lparr>th_terminate := True\<rparr>"

text \<open>The body under the mutex once the thread is not, or no longer, waiting.\<close>

definition take_command :: "'c thread \<Rightarrow> 'c thread" where
  "take_command t =
     (case th_commands t of
        [] \<Rightarrow> t\<lparr>th_pc := InnerTest\<rparr>
      | c # cs \<Rightarrow> t\<lparr>th_command := Some c, th_commands := cs, th_pc := InnerTest\<rparr>)"

definition ThreadProc_step :: "'c thread \<Rightarrow> 'c thread" where
  "ThreadProc_step t =
     (case th_pc t of
        OuterTest \<Rightarrow>
          if th_terminate t then t\<lparr>th_running := False, th_pc := Returned\<rparr>
          else t\<lparr>th_command := None, th_pc := InnerTest\<rparr>
      | InnerTest \<Rightarrow> if th_terminate t then t\<lparr>th_pc := AfterInner\<rparr> else t\<lparr>th_pc := Locking\<rparr>
      | Locking \<Rightarrow> if th_commands t = [] then t\<lparr>th_pc := Waiting\<rparr> else take_command t
      | Waiting \<Rightarrow> take_command t
      | AfterInner \<Rightarrow>
          (case th_command t of
             Some c \<Rightarrow> t\<lparr>th_executed := th_executed t @ [c], th_complete := th_complete t @ [c], th_pc := OuterTest\<rparr>
           | None \<Rightarrow> t\<lparr>th_pc := OuterTest\<rparr>)
      | Returned \<Rightarrow> t)"

datatype 'c thread_event = Pushed 'c | Terminated | Ran

fun thread_step :: "'c thread_event \<Rightarrow> 'c thread \<Rightarrow> 'c thread" where
  "thread_step (Pushed c) t = thread_Push c t"
| "thread_step Terminated t = thread_Terminate t"
| "thread_step Ran t = ThreadProc_step t"

inductive thread_run :: "'c thread_event list \<Rightarrow> 'c thread \<Rightarrow> bool" where
  start: "thread_run [] thread_Start"
| step: "thread_run es t \<Longrightarrow> thread_run (es @ [e]) (thread_step e t)"

code_pred thread_run .

inductive_simps thread_run_Nil: "thread_run [] t"

definition pushed :: "'c thread_event list \<Rightarrow> 'c list" where
  "pushed es = concat (map (\<lambda>e. case e of Pushed c \<Rightarrow> [c] | _ \<Rightarrow> []) es)"

lemma pushed_simps [simp]: "pushed [] = []" "pushed (es @ [Pushed c]) = pushed es @ [c]"
  "pushed (es @ [Terminated]) = pushed es" "pushed (es @ [Ran]) = pushed es"
  by (simp_all add: pushed_def)

subsection \<open>What is executed\<close>

text \<open>
  The inner loop is left by termination alone, so the procedure comes to the execution once. Whatever was
  taken before the last command is lost.
\<close>

definition thread_inv :: "'c list \<Rightarrow> 'c thread \<Rightarrow> bool" where
  "thread_inv cs t \<longleftrightarrow>
     (th_pc t \<in> {OuterTest, AfterInner, Returned} \<longrightarrow> th_terminate t \<or> th_pc t = OuterTest \<and> th_command t = None) \<and>
     (th_executed t \<noteq> [] \<longrightarrow> th_terminate t \<and> th_pc t \<in> {OuterTest, Returned}) \<and>
     length (th_executed t) \<le> 1 \<and> th_complete t = th_executed t \<and>
     (\<exists>taken. cs = taken @ th_commands t \<and>
        (case th_command t of None \<Rightarrow> taken = [] | Some c \<Rightarrow> taken \<noteq> [] \<and> last taken = c) \<and>
        (th_executed t = [] \<or> taken \<noteq> [] \<and> th_executed t = [last taken]))"

lemma thread_inv_start: "thread_inv [] thread_Start"
  by (simp add: thread_inv_def thread_Start_def)

lemma thread_inv_take:
  assumes "thread_inv cs t" "th_pc t = Locking \<or> th_pc t = Waiting"
  shows "thread_inv cs (take_command t)"
proof (cases "th_commands t")
  case Nil
  with assms show ?thesis by (auto simp: thread_inv_def take_command_def)
next
  case (Cons c rest)
  from assms obtain taken where taken: "cs = taken @ th_commands t" by (auto simp: thread_inv_def)
  have e: "th_executed t = []" using assms by (auto simp: thread_inv_def)
  have "cs = (taken @ [c]) @ rest" using taken Cons by simp
  then show ?thesis using assms e Cons
    by (auto simp: thread_inv_def take_command_def intro!: exI [of _ "taken @ [c]"])
qed

lemma thread_inv_step:
  assumes "thread_inv cs t"
  shows "thread_inv (cs @ (case e of Pushed c \<Rightarrow> [c] | _ \<Rightarrow> [])) (thread_step e t)"
proof (cases e)
  case (Pushed c)
  with assms show ?thesis
    by (auto simp: thread_inv_def thread_Push_def thread_Start_def split: option.splits)
next
  case Terminated
  with assms show ?thesis by (auto simp: thread_inv_def thread_Terminate_def split: option.splits)
next
  case Ran
  have "thread_inv cs (ThreadProc_step t)"
  proof (cases "th_pc t")
    case OuterTest
    with assms show ?thesis
      by (cases "th_terminate t")
        (auto simp: thread_inv_def ThreadProc_step_def thread_Start_def split: option.splits)
  next
    case AfterInner
    with assms show ?thesis
      by (cases "th_command t") (auto simp: thread_inv_def ThreadProc_step_def thread_Start_def)
  next
    case InnerTest
    with assms show ?thesis by (auto simp: thread_inv_def ThreadProc_step_def split: option.splits)
  next
    case Locking
    with assms thread_inv_take [OF assms] show ?thesis
      by (auto simp: thread_inv_def ThreadProc_step_def split: option.splits)
  next
    case Waiting
    with thread_inv_take [OF assms] show ?thesis by (simp add: ThreadProc_step_def)
  next
    case Returned
    with assms show ?thesis by (simp add: ThreadProc_step_def)
  qed
  with Ran show ?thesis by simp
qed

lemma thread_run_inv: "thread_run es t \<Longrightarrow> thread_inv (pushed es) t"
proof (induction rule: thread_run.induct)
  case start
  then show ?case by (simp add: thread_inv_start)
next
  case (step es t e)
  then show ?case using thread_inv_step [of "pushed es" t e] by (cases e) simp_all
qed

text \<open>
  C38. Whatever is pushed and however the threads interleave: no command is executed before the module is
  terminated, and then at most one. Commands are taken in the order in which they were pushed: those taken and, behind
  them, those still in the queue are what was pushed. The command at hand is the last one taken, and it is that one which may be
  executed; those taken before it are lost. A thread that serves requests while it runs is what the code means to be; its inner
  loop has no way out but termination.
\<close>

theorem thread_executes_nothing_until_terminated:
  assumes "thread_run es t"
  shows "(\<not> th_terminate t \<longrightarrow> th_executed t = []) \<and> length (th_executed t) \<le> 1 \<and>
    th_complete t = th_executed t \<and>
    (\<exists>taken. pushed es = taken @ th_commands t \<and>
       th_command t = (if taken = [] then None else Some (last taken)) \<and>
       (th_executed t = [] \<or> taken \<noteq> [] \<and> th_executed t = [last taken]))"
proof -
  have i: "thread_inv (pushed es) t" by (rule thread_run_inv [OF assms])
  then obtain taken where "pushed es = taken @ th_commands t"
    "case th_command t of None \<Rightarrow> taken = [] | Some c \<Rightarrow> taken \<noteq> [] \<and> last taken = c"
    "th_executed t = [] \<or> taken \<noteq> [] \<and> th_executed t = [last taken]" by (auto simp: thread_inv_def)
  moreover from this(2) have "th_command t = (if taken = [] then None else Some (last taken))"
    by (cases "th_command t") simp_all
  ultimately show ?thesis using i unfolding thread_inv_def by blast
qed

text \<open>Two commands are taken while the thread runs; the second is executed on termination, the first never.\<close>

fun run_thread :: "'c thread_event list \<Rightarrow> 'c thread \<Rightarrow> 'c thread" where
  "run_thread [] t = t"
| "run_thread (e # es) t = run_thread es (thread_step e t)"

lemma run_thread_run: "thread_run es t \<Longrightarrow> thread_run (es @ fs) (run_thread fs t)"
proof (induction fs arbitrary: es t)
  case (Cons f fs)
  from Cons.IH [OF thread_run.step [OF Cons.prems, of f]] show ?case by simp
qed simp

definition lost_example :: "nat thread_event list" where
  "lost_example = [Pushed 1, Pushed 2] @ replicate 5 Ran @ [Terminated] @ replicate 4 Ran"

lemma lost_example_run: "thread_run lost_example (run_thread lost_example thread_Start)"
  using run_thread_run [OF thread_run.start, of lost_example] by simp

lemma thread_executes_nothing_until_terminated_witness:
  "th_executed (run_thread lost_example thread_Start) = [2] \<and> th_pc (run_thread lost_example thread_Start) = Returned \<and>
    (\<exists>taken. [1, 2] = taken @ th_commands (run_thread lost_example thread_Start) \<and>
      th_executed (run_thread lost_example thread_Start) = [last taken])"
proof -
  have "th_executed (run_thread lost_example thread_Start) = [2]" "th_pc (run_thread lost_example thread_Start) = Returned"
    by code_simp+
  moreover have p: "pushed lost_example = [1, 2]" by (simp add: pushed_def lost_example_def)
  ultimately show ?thesis using thread_executes_nothing_until_terminated [OF lost_example_run] unfolding p
    by (metis list.distinct(1))
qed

section \<open>The module\<close>

text \<open>
  The completion lists: workers append to \<open>_completeCommands\<close>, \<open>module_Process\<close> runs \<open>Complete\<close> on the main thread. Between
  two rounds of the loop the workers may append more: \<open>adds\<close> lists what arrives before each round.
\<close>

record 'c completion =
  completeCommands :: "'c list"
  completeCommandsRun :: "'c list"

definition AddToComplete :: "'c \<Rightarrow> 'c completion \<Rightarrow> 'c completion" where
  "AddToComplete c m = m\<lparr>completeCommands := completeCommands m @ [c]\<rparr>"

definition arrive :: "'c list list \<Rightarrow> 'c completion \<Rightarrow> 'c completion" where
  "arrive adds m = (case adds of [] \<Rightarrow> m | cs # _ \<Rightarrow> fold AddToComplete cs m)"

text \<open>One round up to the test of the emptiness: the swap happens at most once.\<close>

definition swap_round :: "bool \<Rightarrow> 'c completion \<Rightarrow> bool \<times> 'c completion" where
  "swap_round swaped m =
     (if \<not> swaped \<and> completeCommandsRun m = []
      then (True, \<lparr>completeCommands = completeCommandsRun m, completeCommandsRun = completeCommands m\<rparr>)
      else (swaped, m))"

lemma fold_AddToComplete:
  "fold AddToComplete cs m = m\<lparr>completeCommands := completeCommands m @ cs\<rparr>"
  by (induction cs arbitrary: m) (simp_all add: AddToComplete_def)

lemma arrive_run [simp]: "completeCommandsRun (arrive adds m) = completeCommandsRun m"
  by (simp add: arrive_def fold_AddToComplete split: list.splits)

lemma swap_round_decreases:
  "swap_round sw (arrive adds m) = (sw', m') \<Longrightarrow> completeCommandsRun m' \<noteq> [] \<Longrightarrow> \<not> sw' \<Longrightarrow>
    \<not> sw \<and> m' = arrive adds m"
  by (auto simp: swap_round_def split: if_splits)

function Process_loop :: "bool \<Rightarrow> 'c list list \<Rightarrow> 'c completion \<Rightarrow> 'c list \<Rightarrow> 'c list \<times> 'c completion" where
  "Process_loop swaped adds m finished =
     (let (sw, m') = swap_round swaped (arrive adds m) in
      case completeCommandsRun m' of
        [] \<Rightarrow> (finished, m')
      | c # cs \<Rightarrow> Process_loop sw (tl adds) (m'\<lparr>completeCommandsRun := cs\<rparr>) (finished @ [c]))"
  by pat_completeness auto
termination
  by (relation "measures [\<lambda>(sw, adds, m, d). if sw then 0 else 1, \<lambda>(sw, adds, m, d). length (completeCommandsRun m)]")
    (auto simp: swap_round_def split: if_splits)

declare Process_loop.simps [simp del]

definition module_Process :: "'c list list \<Rightarrow> 'c completion \<Rightarrow> 'c list \<times> 'c completion" where
  "module_Process adds m = Process_loop False adds m []"

text \<open>\<open>Push\<close>: the thread is \<open>id % size\<close>, computed on \<open>size_t\<close>; without threads it divides by zero.\<close>

definition module_Push :: "int \<Rightarrow> 'c \<Rightarrow> 'c thread list \<Rightarrow> fault + 'c thread list" where
  "module_Push i c ths =
     (if ths = [] then Inl OutOfBounds
      else (let k = nat (i mod 18446744073709551616 mod int (length ths)) in
            Inr (ths[k := thread_Push c (ths ! k)])))"

text \<open>
  \<open>Start\<close>: \<open>factory\<close> says for which thread \<open>Create\<close> gives a runner; a missing one ends the process in the assertion.
\<close>

primrec module_Start :: "(nat \<Rightarrow> bool) \<Rightarrow> nat \<Rightarrow> fault + 'c thread list" where
  "module_Start factory 0 = Inr []"
| "module_Start factory (Suc n) =
     res_bind (module_Start factory n) (\<lambda>ths.
     res_bind (oassert (factory n) ''create runner failed'') (\<lambda>_. Inr (ths @ [thread_Start])))"

subsection \<open>The laws of the module\<close>

lemma arrive_complete: "completeCommands (arrive adds m) = completeCommands m @ concat (take 1 adds)"
  by (simp add: arrive_def fold_AddToComplete split: list.splits)

lemma concat_take_Suc: "concat (take 1 adds) @ concat (take k (tl adds)) = concat (take (Suc k) adds)"
  by (cases adds) simp_all

lemma Process_loop_swapped:
  "\<exists>k m'. Process_loop True adds m d = (d @ completeCommandsRun m, m') \<and> completeCommandsRun m' = [] \<and>
     completeCommands m' = completeCommands m @ concat (take k adds)"
proof (induction "completeCommandsRun m" arbitrary: adds m d)
  case Nil
  then show ?case
    by (subst Process_loop.simps) (auto simp: swap_round_def arrive_complete intro!: exI [of _ 1])
next
  case (Cons c cs)
  let ?m = "(arrive adds m)\<lparr>completeCommandsRun := cs\<rparr>"
  have "cs = completeCommandsRun ?m" by simp
  from Cons.hyps(1) [OF this, of "tl adds" "d @ [c]"] obtain k m' where
    m': "Process_loop True (tl adds) ?m (d @ [c]) = ((d @ [c]) @ cs, m')" "completeCommandsRun m' = []"
      "completeCommands m' = completeCommands m @ concat (take 1 adds) @ concat (take k (tl adds))"
    by (auto simp: arrive_complete)
  have "Process_loop True adds m d = Process_loop True (tl adds) ?m (d @ [c])"
    using Cons.hyps(2) [symmetric] by (subst Process_loop.simps) (simp add: swap_round_def)
  with m' show ?case
    using Cons.hyps(2) [symmetric] concat_take_Suc [of adds k]
    by (intro exI [of _ "Suc k"] exI [of _ m']) simp
qed

lemma Process_loop_first:
  "\<exists>k l m'. Process_loop False adds m d =
       (d @ completeCommandsRun m @ completeCommands m @ concat (take k adds), m') \<and>
     completeCommandsRun m' = [] \<and> completeCommands m' = concat (take l (drop k adds))"
proof (induction "completeCommandsRun m" arbitrary: adds m d)
  case Nil
  let ?run = "completeCommands m @ concat (take 1 adds)"
  have r: "swap_round False (arrive adds m) = (True, \<lparr>completeCommands = [], completeCommandsRun = ?run\<rparr>)"
    using Nil by (simp add: swap_round_def arrive_complete)
  show ?case
  proof (cases ?run)
    case Nil': Nil
    then have e: "completeCommands m = []" "concat (take 1 adds) = []" by simp_all
    have "swap_round False (arrive adds m) = (True, \<lparr>completeCommands = [], completeCommandsRun = []\<rparr>)"
      unfolding r e by simp
    then have "Process_loop False adds m d = (d, \<lparr>completeCommands = [], completeCommandsRun = []\<rparr>)"
      by (subst Process_loop.simps) simp
    with Nil e(1) show ?thesis by (intro exI [of _ 0] exI [of _ "\<lparr>completeCommands = [], completeCommandsRun = []\<rparr>"]) simp
  next
    case (Cons c cs)
    let ?m = "\<lparr>completeCommands = [], completeCommandsRun = cs\<rparr>"
    obtain k m' where m': "Process_loop True (tl adds) ?m (d @ [c]) = ((d @ [c]) @ cs, m')"
      "completeCommandsRun m' = []" "completeCommands m' = concat (take k (tl adds))"
      using Process_loop_swapped [of "tl adds" ?m "d @ [c]"] by auto
    have "Process_loop False adds m d = (d @ ?run, m')"
      using r Cons m'(1) by (subst Process_loop.simps) simp
    moreover have "tl adds = drop 1 adds" by (simp add: drop_Suc)
    ultimately show ?thesis using m'(2,3) Nil
      by (intro exI [of _ 1] exI [of _ k] exI [of _ m']) simp
  qed
next
  case (Cons c cs)
  let ?m = "(arrive adds m)\<lparr>completeCommandsRun := cs\<rparr>"
  have "cs = completeCommandsRun ?m" by simp
  from Cons.hyps(1) [OF this, of "tl adds" "d @ [c]"] obtain k l m' where
    m': "Process_loop False (tl adds) ?m (d @ [c]) =
        ((d @ [c]) @ cs @ completeCommands m @ concat (take 1 adds) @ concat (take k (tl adds)), m')"
      "completeCommandsRun m' = []" "completeCommands m' = concat (take l (drop k (tl adds)))"
    by (auto simp: arrive_complete)
  have "Process_loop False adds m d = Process_loop False (tl adds) ?m (d @ [c])"
    using Cons.hyps(2) [symmetric] by (subst Process_loop.simps) (simp add: swap_round_def)
  moreover have "drop k (tl adds) = drop (Suc k) adds" by (simp add: drop_Suc)
  ultimately show ?case using m' Cons.hyps(2) [symmetric] concat_take_Suc [of adds k]
    by (intro exI [of _ "Suc k"] exI [of _ l] exI [of _ m']) (simp del: take_Suc)
qed

text \<open>
  However the workers append while it runs, \<open>module_Process\<close> comes to an end and completes every command that was
  waiting, and those that arrived up to its one swap, each once and in the order of completion; what
  arrived later is left for the next call, in order.
\<close>

lemma process_completes_in_order:
  "\<exists>k l m'. module_Process adds m =
       (completeCommandsRun m @ completeCommands m @ concat (take k adds), m') \<and>
     completeCommandsRun m' = [] \<and> completeCommands m' = concat (take l (drop k adds))"
  unfolding module_Process_def using Process_loop_first [of adds m "[]"] by simp

end
