(* ===== verification/Http.thy ===== *)
theory Http
  imports Rpc ThreadModule
begin

text \<open>
  The HTTP module (\<open>src/src/logic/http/Http.cpp\<close>): the functions \<open>get\<close> and \<open>post\<close> of the scripts queue a command on a
  worker thread, \<open>Complete\<close> reports a finished one to the scripts. The runner's \<open>Execute\<close> is empty in the source.
\<close>

section \<open>Commands\<close>

definition MAX_URL_SIZE :: nat where "MAX_URL_SIZE = 256"
definition MAX_PARAM_SIZE :: nat where "MAX_PARAM_SIZE = 1024"

datatype http_method = METHOD_GET | METHOD_POST

record HttpCommand =
  hc_sequenceId :: int
  hc_url :: string
  hc_param :: string
  hc_method :: http_method
  hc_errCode :: int
  hc_content :: "byte list option"

text \<open>A C string of a script is the format of the \<open>SafeSprintf\<close> that copies it; a null pointer is read through.\<close>

definition copy_text :: "nat \<Rightarrow> byte list option \<Rightarrow> fault + string" where
  "copy_text n s =
     (case s of
        None \<Rightarrow> Inl NullDeref
      | Some b \<Rightarrow> SafeSprintf n (List.map (\<lambda>x. char_of (unat x)) (takeWhile (\<lambda>x. x \<noteq> 0) b)))"

definition Http_Get :: "numconv \<Rightarrow> sval list \<Rightarrow> HttpCommand thread list \<Rightarrow> fault + HttpCommand thread list" where
  "Http_Get nc args ths =
     res_bind (LuaReader_Read nc ''lls'' args) (\<lambda>vs.
     case vs of
       [C64 threadId, C64 sequenceId, CStr uri] \<Rightarrow>
         res_bind (copy_text MAX_URL_SIZE uri) (\<lambda>url.
         module_Push threadId \<lparr>hc_sequenceId = sequenceId, hc_url = url, hc_param = [], hc_method = METHOD_GET,
           hc_errCode = 0, hc_content = None\<rparr> ths)
     | _ \<Rightarrow> Inl OutOfBounds)"

definition Http_Post :: "numconv \<Rightarrow> sval list \<Rightarrow> HttpCommand thread list \<Rightarrow> fault + HttpCommand thread list" where
  "Http_Post nc args ths =
     res_bind (LuaReader_Read nc ''llss'' args) (\<lambda>vs.
     case vs of
       [C64 threadId, C64 sequenceId, CStr u, CStr p] \<Rightarrow>
         res_bind (copy_text MAX_URL_SIZE u) (\<lambda>url.
         res_bind (copy_text MAX_PARAM_SIZE p) (\<lambda>param.
         module_Push threadId \<lparr>hc_sequenceId = sequenceId, hc_url = url, hc_param = param, hc_method = METHOD_POST,
           hc_errCode = 0, hc_content = None\<rparr> ths))
     | _ \<Rightarrow> Inl OutOfBounds)"

text \<open>\<open>Launched\<close>: the module of the scripts and the threads, as many as the configuration says.\<close>

definition Http_Launched :: "nat \<Rightarrow> nat \<Rightarrow> int \<Rightarrow> lua_state \<Rightarrow> fault + (string \<times> HttpCommand thread list) \<times> lua_state" where
  "Http_Launched get post threadCount L =
     res_bind (CreateModule ''http'' L) (\<lambda>(m, L).
     res_bind (AddModuleFunction m ''get'' get L) (\<lambda>L.
     res_bind (AddModuleFunction m ''post'' post L) (\<lambda>L.
     res_bind (module_Start (\<lambda>_. True) (nat threadCount)) (\<lambda>ths. Inr ((m, ths), L)))))"

definition Http_Complete :: "numconv \<Rightarrow> runner \<Rightarrow> string \<Rightarrow> HttpCommand \<Rightarrow> lua_state \<Rightarrow> fault + (bool \<times> unit option) \<times> lua_state" where
  "Http_Complete nc run m command L =
     call_script (if hc_errCode command = 0 then ''onSuccess'' else ''OnFailed'') nc run m ''ls''
       [C64 (hc_sequenceId command), CStr (hc_content command)] L"

section \<open>A request reaches its thread\<close>

lemma plain_text: "CHR ''%'' \<notin> set s \<Longrightarrow> SafeSprintf n s = Inr (take (n - 1) s)"
proof -
  have "CHR ''%'' \<notin> set s \<Longrightarrow> format_text s = Some s"
    by (induction s) auto
  then show "CHR ''%'' \<notin> set s \<Longrightarrow> ?thesis" by (simp add: SafeSprintf_def)
qed

lemma get_queues_command:
  assumes "ths \<noteq> []" "CHR ''%'' \<notin> set (List.map (\<lambda>x. char_of (unat x)) (takeWhile (\<lambda>x. x \<noteq> 0) url))"
  shows "\<exists>k<length ths. \<exists>c. Http_Get nc [SInt t, SInt s, SStr url] ths = Inr (ths[k := thread_Push c (ths ! k)]) \<and>
    int k = t mod 18446744073709551616 mod int (length ths) \<and> hc_sequenceId c = s \<and>
    hc_url c = take 255 (List.map (\<lambda>x. char_of (unat x)) (takeWhile (\<lambda>x. x \<noteq> 0) url))"
proof -
  let ?k = "t mod 18446744073709551616 mod int (length ths)"
  have "nat ?k < length ths \<and> int (nat ?k) = ?k" using assms(1) by (simp add: nat_less_iff)
  moreover have "LuaReader_Read nc ''lls'' [SInt t, SInt s, SStr url] = Inr [C64 t, C64 s, CStr (Some url)]"
    by (simp add: read_one_def lua_tointeger_def lua_tolstring_def num_of_def)
  moreover define c where "c = \<lparr>hc_sequenceId = s,
    hc_url = take 255 (List.map (\<lambda>x. char_of (unat x)) (takeWhile (\<lambda>x. x \<noteq> 0) url)), hc_param = [],
    hc_method = METHOD_GET, hc_errCode = 0, hc_content = None\<rparr>"
  ultimately have "Http_Get nc [SInt t, SInt s, SStr url] ths = Inr (ths[nat ?k := thread_Push c (ths ! nat ?k)])"
    using assms(1) by (simp add: Http_Get_def copy_text_def plain_text [OF assms(2)] MAX_URL_SIZE_def module_Push_def Let_def)
  then show ?thesis using \<open>nat ?k < length ths \<and> int (nat ?k) = ?k\<close> by (intro exI [of _ "nat ?k"] conjI exI [of _ c]) (simp_all add: c_def)
qed

text \<open>A percent sign in the address is a directive of the format: with an argument it does not have.\<close>

lemma percent_in_url: "Http_Get nc [SInt t, SInt s, SStr [37, 115]] ths = Inl OutOfBounds"
proof -
  have "(char_of (37 :: nat) :: char) = CHR ''%''" "(char_of (115 :: nat) :: char) = CHR ''s''" by code_simp+
  then show ?thesis
    by (simp add: Http_Get_def copy_text_def SafeSprintf_def read_one_def lua_tointeger_def lua_tolstring_def num_of_def)
qed

text \<open>An argument that is neither a string nor a number is a null pointer.\<close>

lemma nil_url: "Http_Get nc [SInt t, SInt s, SNil] ths = Inl NullDeref"
  by (simp add: Http_Get_def copy_text_def read_one_def lua_tointeger_def lua_tolstring_def num_of_def)

end
