(* ===== verification/LuaOpcodes.thy ===== *)
theory LuaOpcodes
  imports Prelude
begin

text \<open>
  The instruction format of the embedded Lua 5.3 virtual machine
  (\<open>src/src/logic/scriptengine/lua/lopcodes.h\<close>, \<open>lopcodes.c\<close>): a 32-bit word with an
  opcode and packed operands, the macros that read and write them, and the tables of opcode names
  and modes.
\<close>

named_theorems instr_simps \<open>rules about the fields of an instruction\<close>

type_synonym Instruction = "32 word"

section \<open>Fields\<close>

abbreviation (input) SIZE_C :: nat where "SIZE_C \<equiv> 9"
abbreviation (input) SIZE_B :: nat where "SIZE_B \<equiv> 9"
abbreviation (input) SIZE_Bx :: nat where "SIZE_Bx \<equiv> 18"
abbreviation (input) SIZE_A :: nat where "SIZE_A \<equiv> 8"
abbreviation (input) SIZE_Ax :: nat where "SIZE_Ax \<equiv> 26"
abbreviation (input) SIZE_OP :: nat where "SIZE_OP \<equiv> 6"
abbreviation (input) POS_OP :: nat where "POS_OP \<equiv> 0"
abbreviation (input) POS_A :: nat where "POS_A \<equiv> 6"
abbreviation (input) POS_C :: nat where "POS_C \<equiv> 14"
abbreviation (input) POS_B :: nat where "POS_B \<equiv> 23"
abbreviation (input) POS_Bx :: nat where "POS_Bx \<equiv> POS_C"
abbreviation (input) POS_Ax :: nat where "POS_Ax \<equiv> POS_A"

definition MAXARG_Bx :: int where "MAXARG_Bx = 262143"
definition MAXARG_sBx :: int where "MAXARG_sBx = 131071"
definition MAXARG_Ax :: int where "MAXARG_Ax = 67108863"
definition MAXARG_A :: int where "MAXARG_A = 255"
definition MAXARG_B :: int where "MAXARG_B = 511"
definition MAXARG_C :: int where "MAXARG_C = 511"

definition MASK1 :: "nat \<Rightarrow> nat \<Rightarrow> Instruction" where
  "MASK1 n p = push_bit p (NOT (push_bit n (NOT 0)))"

definition MASK0 :: "nat \<Rightarrow> nat \<Rightarrow> Instruction" where
  "MASK0 n p = NOT (MASK1 n p)"

definition getarg :: "Instruction \<Rightarrow> nat \<Rightarrow> nat \<Rightarrow> int" where
  "getarg i pos sz = uint (drop_bit pos i AND MASK1 sz 0)"

definition setarg :: "Instruction \<Rightarrow> int \<Rightarrow> nat \<Rightarrow> nat \<Rightarrow> Instruction" where
  "setarg i v pos sz = (i AND MASK0 sz pos) OR (push_bit pos (word_of_int v) AND MASK1 sz pos)"

definition GETARG_A :: "Instruction \<Rightarrow> int" where "GETARG_A i = getarg i POS_A SIZE_A"
definition SETARG_A :: "Instruction \<Rightarrow> int \<Rightarrow> Instruction" where "SETARG_A i v = setarg i v POS_A SIZE_A"
definition GETARG_B :: "Instruction \<Rightarrow> int" where "GETARG_B i = getarg i POS_B SIZE_B"
definition SETARG_B :: "Instruction \<Rightarrow> int \<Rightarrow> Instruction" where "SETARG_B i v = setarg i v POS_B SIZE_B"
definition GETARG_C :: "Instruction \<Rightarrow> int" where "GETARG_C i = getarg i POS_C SIZE_C"
definition SETARG_C :: "Instruction \<Rightarrow> int \<Rightarrow> Instruction" where "SETARG_C i v = setarg i v POS_C SIZE_C"
definition GETARG_Bx :: "Instruction \<Rightarrow> int" where "GETARG_Bx i = getarg i POS_Bx SIZE_Bx"
definition SETARG_Bx :: "Instruction \<Rightarrow> int \<Rightarrow> Instruction" where "SETARG_Bx i v = setarg i v POS_Bx SIZE_Bx"
definition GETARG_Ax :: "Instruction \<Rightarrow> int" where "GETARG_Ax i = getarg i POS_Ax SIZE_Ax"
definition SETARG_Ax :: "Instruction \<Rightarrow> int \<Rightarrow> Instruction" where "SETARG_Ax i v = setarg i v POS_Ax SIZE_Ax"
definition GETARG_sBx :: "Instruction \<Rightarrow> int" where "GETARG_sBx i = GETARG_Bx i - MAXARG_sBx"
definition SETARG_sBx :: "Instruction \<Rightarrow> int \<Rightarrow> Instruction" where "SETARG_sBx i b = SETARG_Bx i (b + MAXARG_sBx)"

section \<open>Opcodes\<close>

datatype (plugins only: code size) OpCode =
    OP_MOVE | OP_LOADK | OP_LOADKX | OP_LOADBOOL | OP_LOADNIL | OP_GETUPVAL | OP_GETTABUP |
    OP_GETTABLE | OP_SETTABUP | OP_SETUPVAL | OP_SETTABLE | OP_NEWTABLE | OP_SELF | OP_ADD |
    OP_SUB | OP_MUL | OP_MOD | OP_POW | OP_DIV | OP_IDIV | OP_BAND | OP_BOR | OP_BXOR |
    OP_SHL | OP_SHR | OP_UNM | OP_BNOT | OP_NOT | OP_LEN | OP_CONCAT | OP_JMP | OP_EQ |
    OP_LT | OP_LE | OP_TEST | OP_TESTSET | OP_CALL | OP_TAILCALL | OP_RETURN | OP_FORLOOP |
    OP_FORPREP | OP_TFORCALL | OP_TFORLOOP | OP_SETLIST | OP_CLOSURE | OP_VARARG | OP_EXTRAARG

datatype OpMode = iABC | iABx | iAsBx | iAx

datatype OpArgMask = OpArgN | OpArgU | OpArgR | OpArgK

text \<open>The enumeration in its order; a cast to \<open>OpCode\<close> of a number past the end is undefined.\<close>

definition opcodes :: "OpCode list" where
  "opcodes = [
    OP_MOVE, OP_LOADK, OP_LOADKX, OP_LOADBOOL, OP_LOADNIL, OP_GETUPVAL, OP_GETTABUP,
    OP_GETTABLE, OP_SETTABUP, OP_SETUPVAL, OP_SETTABLE, OP_NEWTABLE, OP_SELF, OP_ADD, OP_SUB,
    OP_MUL, OP_MOD, OP_POW, OP_DIV, OP_IDIV, OP_BAND, OP_BOR, OP_BXOR, OP_SHL, OP_SHR, OP_UNM,
    OP_BNOT, OP_NOT, OP_LEN, OP_CONCAT, OP_JMP, OP_EQ, OP_LT, OP_LE, OP_TEST, OP_TESTSET,
    OP_CALL, OP_TAILCALL, OP_RETURN, OP_FORLOOP, OP_FORPREP, OP_TFORCALL, OP_TFORLOOP,
    OP_SETLIST, OP_CLOSURE, OP_VARARG, OP_EXTRAARG]"

definition NUM_OPCODES :: nat where "NUM_OPCODES = 47"

fun OpCode_num :: "OpCode \<Rightarrow> int" where
  "OpCode_num OP_MOVE = 0"
| "OpCode_num OP_LOADK = 1"
| "OpCode_num OP_LOADKX = 2"
| "OpCode_num OP_LOADBOOL = 3"
| "OpCode_num OP_LOADNIL = 4"
| "OpCode_num OP_GETUPVAL = 5"
| "OpCode_num OP_GETTABUP = 6"
| "OpCode_num OP_GETTABLE = 7"
| "OpCode_num OP_SETTABUP = 8"
| "OpCode_num OP_SETUPVAL = 9"
| "OpCode_num OP_SETTABLE = 10"
| "OpCode_num OP_NEWTABLE = 11"
| "OpCode_num OP_SELF = 12"
| "OpCode_num OP_ADD = 13"
| "OpCode_num OP_SUB = 14"
| "OpCode_num OP_MUL = 15"
| "OpCode_num OP_MOD = 16"
| "OpCode_num OP_POW = 17"
| "OpCode_num OP_DIV = 18"
| "OpCode_num OP_IDIV = 19"
| "OpCode_num OP_BAND = 20"
| "OpCode_num OP_BOR = 21"
| "OpCode_num OP_BXOR = 22"
| "OpCode_num OP_SHL = 23"
| "OpCode_num OP_SHR = 24"
| "OpCode_num OP_UNM = 25"
| "OpCode_num OP_BNOT = 26"
| "OpCode_num OP_NOT = 27"
| "OpCode_num OP_LEN = 28"
| "OpCode_num OP_CONCAT = 29"
| "OpCode_num OP_JMP = 30"
| "OpCode_num OP_EQ = 31"
| "OpCode_num OP_LT = 32"
| "OpCode_num OP_LE = 33"
| "OpCode_num OP_TEST = 34"
| "OpCode_num OP_TESTSET = 35"
| "OpCode_num OP_CALL = 36"
| "OpCode_num OP_TAILCALL = 37"
| "OpCode_num OP_RETURN = 38"
| "OpCode_num OP_FORLOOP = 39"
| "OpCode_num OP_FORPREP = 40"
| "OpCode_num OP_TFORCALL = 41"
| "OpCode_num OP_TFORLOOP = 42"
| "OpCode_num OP_SETLIST = 43"
| "OpCode_num OP_CLOSURE = 44"
| "OpCode_num OP_VARARG = 45"
| "OpCode_num OP_EXTRAARG = 46"

definition GET_OPCODE :: "Instruction \<Rightarrow> OpCode option" where
  "GET_OPCODE i =
     (let n = nat (uint (drop_bit POS_OP i AND MASK1 SIZE_OP 0)) in
      if n < length opcodes then Some (opcodes ! n) else None)"

definition SET_OPCODE :: "Instruction \<Rightarrow> OpCode \<Rightarrow> Instruction" where
  "SET_OPCODE i op = setarg i (OpCode_num op) POS_OP SIZE_OP"

definition CREATE_ABC :: "OpCode \<Rightarrow> int \<Rightarrow> int \<Rightarrow> int \<Rightarrow> Instruction" where
  "CREATE_ABC op a b c = push_bit POS_OP (word_of_int (OpCode_num op)) OR push_bit POS_A (word_of_int a) OR
     push_bit POS_B (word_of_int b) OR push_bit POS_C (word_of_int c)"

definition CREATE_ABx :: "OpCode \<Rightarrow> int \<Rightarrow> int \<Rightarrow> Instruction" where
  "CREATE_ABx op a bc = push_bit POS_OP (word_of_int (OpCode_num op)) OR push_bit POS_A (word_of_int a) OR
     push_bit POS_Bx (word_of_int bc)"

definition CREATE_Ax :: "OpCode \<Rightarrow> int \<Rightarrow> Instruction" where
  "CREATE_Ax op a = push_bit POS_OP (word_of_int (OpCode_num op)) OR push_bit POS_Ax (word_of_int a)"

section \<open>Operands that are registers or constants\<close>

definition BITRK :: int where "BITRK = 256"
definition ISK :: "int \<Rightarrow> bool" where "ISK x \<longleftrightarrow> x AND BITRK \<noteq> 0"
definition INDEXK :: "int \<Rightarrow> int" where "INDEXK r = r AND NOT BITRK"
definition MAXINDEXRK :: int where "MAXINDEXRK = BITRK - 1"
definition RKASK :: "int \<Rightarrow> int" where "RKASK x = x OR BITRK"
definition NO_REG :: int where "NO_REG = MAXARG_A"
definition LFIELDS_PER_FLUSH :: int where "LFIELDS_PER_FLUSH = 50"

section \<open>Names and modes\<close>

definition luaP_opnames :: "string list" where
  "luaP_opnames = [
    ''MOVE'', ''LOADK'', ''LOADKX'', ''LOADBOOL'', ''LOADNIL'', ''GETUPVAL'', ''GETTABUP'',
    ''GETTABLE'', ''SETTABUP'', ''SETUPVAL'', ''SETTABLE'', ''NEWTABLE'', ''SELF'', ''ADD'',
    ''SUB'', ''MUL'', ''MOD'', ''POW'', ''DIV'', ''IDIV'', ''BAND'', ''BOR'', ''BXOR'',
    ''SHL'', ''SHR'', ''UNM'', ''BNOT'', ''NOT'', ''LEN'', ''CONCAT'', ''JMP'', ''EQ'',
    ''LT'', ''LE'', ''TEST'', ''TESTSET'', ''CALL'', ''TAILCALL'', ''RETURN'', ''FORLOOP'',
    ''FORPREP'', ''TFORCALL'', ''TFORLOOP'', ''SETLIST'', ''CLOSURE'', ''VARARG'',
    ''EXTRAARG'']"

fun OpMode_num :: "OpMode \<Rightarrow> byte" where
  "OpMode_num iABC = 0" | "OpMode_num iABx = 1" | "OpMode_num iAsBx = 2" | "OpMode_num iAx = 3"

fun OpArgMask_num :: "OpArgMask \<Rightarrow> byte" where
  "OpArgMask_num OpArgN = 0" | "OpArgMask_num OpArgU = 1" | "OpArgMask_num OpArgR = 2" | "OpArgMask_num OpArgK = 3"

definition opmode :: "byte \<Rightarrow> byte \<Rightarrow> OpArgMask \<Rightarrow> OpArgMask \<Rightarrow> OpMode \<Rightarrow> byte" where
  "opmode t a b c m = push_bit 7 t OR push_bit 6 a OR push_bit 4 (OpArgMask_num b) OR
     push_bit 2 (OpArgMask_num c) OR OpMode_num m"

definition luaP_opmodes :: "byte list" where
  "luaP_opmodes = [
    opmode 0 1 OpArgR OpArgN iABC, opmode 0 1 OpArgK OpArgN iABx,
    opmode 0 1 OpArgN OpArgN iABx, opmode 0 1 OpArgU OpArgU iABC,
    opmode 0 1 OpArgU OpArgN iABC, opmode 0 1 OpArgU OpArgN iABC,
    opmode 0 1 OpArgU OpArgK iABC, opmode 0 1 OpArgR OpArgK iABC,
    opmode 0 0 OpArgK OpArgK iABC, opmode 0 0 OpArgU OpArgN iABC,
    opmode 0 0 OpArgK OpArgK iABC, opmode 0 1 OpArgU OpArgU iABC,
    opmode 0 1 OpArgR OpArgK iABC, opmode 0 1 OpArgK OpArgK iABC,
    opmode 0 1 OpArgK OpArgK iABC, opmode 0 1 OpArgK OpArgK iABC,
    opmode 0 1 OpArgK OpArgK iABC, opmode 0 1 OpArgK OpArgK iABC,
    opmode 0 1 OpArgK OpArgK iABC, opmode 0 1 OpArgK OpArgK iABC,
    opmode 0 1 OpArgK OpArgK iABC, opmode 0 1 OpArgK OpArgK iABC,
    opmode 0 1 OpArgK OpArgK iABC, opmode 0 1 OpArgK OpArgK iABC,
    opmode 0 1 OpArgK OpArgK iABC, opmode 0 1 OpArgR OpArgN iABC,
    opmode 0 1 OpArgR OpArgN iABC, opmode 0 1 OpArgR OpArgN iABC,
    opmode 0 1 OpArgR OpArgN iABC, opmode 0 1 OpArgR OpArgR iABC,
    opmode 0 0 OpArgR OpArgN iAsBx, opmode 1 0 OpArgK OpArgK iABC,
    opmode 1 0 OpArgK OpArgK iABC, opmode 1 0 OpArgK OpArgK iABC,
    opmode 1 0 OpArgN OpArgU iABC, opmode 1 1 OpArgR OpArgU iABC,
    opmode 0 1 OpArgU OpArgU iABC, opmode 0 1 OpArgU OpArgU iABC,
    opmode 0 0 OpArgU OpArgN iABC, opmode 0 1 OpArgR OpArgN iAsBx,
    opmode 0 1 OpArgR OpArgN iAsBx, opmode 0 0 OpArgN OpArgU iABC,
    opmode 0 1 OpArgR OpArgN iAsBx, opmode 0 0 OpArgU OpArgU iABC,
    opmode 0 1 OpArgU OpArgN iABx, opmode 0 1 OpArgU OpArgN iABC, opmode 0 0 OpArgU OpArgU iAx]"

definition OpMode_of :: "byte \<Rightarrow> OpMode" where
  "OpMode_of b = [iABC, iABx, iAsBx, iAx] ! unat b"

definition OpArgMask_of :: "byte \<Rightarrow> OpArgMask" where
  "OpArgMask_of b = [OpArgN, OpArgU, OpArgR, OpArgK] ! unat b"

definition modes_of :: "OpCode \<Rightarrow> byte" where
  "modes_of op = luaP_opmodes ! nat (OpCode_num op)"

definition getOpMode :: "OpCode \<Rightarrow> OpMode" where
  "getOpMode op = OpMode_of (modes_of op AND 3)"

definition getBMode :: "OpCode \<Rightarrow> OpArgMask" where
  "getBMode op = OpArgMask_of (drop_bit 4 (modes_of op) AND 3)"

definition getCMode :: "OpCode \<Rightarrow> OpArgMask" where
  "getCMode op = OpArgMask_of (drop_bit 2 (modes_of op) AND 3)"

definition testAMode :: "OpCode \<Rightarrow> bool" where
  "testAMode op \<longleftrightarrow> modes_of op AND 64 \<noteq> 0"

definition testTMode :: "OpCode \<Rightarrow> bool" where
  "testTMode op \<longleftrightarrow> modes_of op AND 128 \<noteq> 0"

section \<open>Laws of the fields\<close>

lemma bit_MASK1 [instr_simps]: "bit (MASK1 n p) k \<longleftrightarrow> p \<le> k \<and> k < p + n \<and> k < 32"
  by (auto simp: MASK1_def bit_simps)

lemma getarg_take_bit: "getarg i pos sz = take_bit sz (uint (drop_bit pos i))"
proof -
  have "drop_bit pos i AND MASK1 sz 0 = take_bit sz (drop_bit pos i)"
    by (rule bit_word_eqI) (auto simp: bit_simps bit_MASK1)
  then show ?thesis by (simp add: getarg_def unsigned_take_bit_eq)
qed

lemma bit_setarg [instr_simps]:
  "bit (setarg i v pos sz) k \<longleftrightarrow> (if pos \<le> k \<and> k < pos + sz then k < 32 \<and> bit v (k - pos) else bit i k)"
  by (auto simp: setarg_def MASK0_def bit_simps bit_MASK1 dest: bit_imp_le_length)

lemma getarg_setarg_same [instr_simps]:
  assumes "pos + sz \<le> 32"
  shows "getarg (setarg i v pos sz) pos sz = v mod 2 ^ sz"
proof -
  have "take_bit sz (uint (drop_bit pos (setarg i v pos sz))) = take_bit sz v"
    using assms by (intro bit_eqI) (auto simp: bit_simps bit_setarg bit_uint_iff)
  then show ?thesis by (simp add: getarg_take_bit take_bit_eq_mod)
qed

lemma getarg_setarg_other [instr_simps]:
  assumes "pos' + sz' \<le> pos \<or> pos + sz \<le> pos'"
  shows "getarg (setarg i v pos sz) pos' sz' = getarg i pos' sz'"
proof -
  have "take_bit sz' (uint (drop_bit pos' (setarg i v pos sz))) = take_bit sz' (uint (drop_bit pos' i))"
    using assms by (intro bit_eqI) (auto simp: bit_simps bit_setarg bit_uint_iff)
  then show ?thesis by (simp add: getarg_take_bit)
qed

lemma getarg_bounds: "0 \<le> getarg i pos sz" "getarg i pos sz < 2 ^ sz"
  by (simp_all add: getarg_take_bit take_bit_int_less_exp)

lemma OpCode_num_nth: "OpCode_num op < 47 \<and> 0 \<le> OpCode_num op \<and> opcodes ! nat (OpCode_num op) = op"
  by (cases op) (simp_all add: opcodes_def)

lemma length_opcodes [simp]: "length opcodes = 47"
  by (simp add: opcodes_def)

lemma GET_OPCODE_getarg:
  "GET_OPCODE i = (if getarg i POS_OP SIZE_OP < 47 then Some (opcodes ! nat (getarg i POS_OP SIZE_OP)) else None)"
proof -
  let ?w = "drop_bit POS_OP i AND MASK1 SIZE_OP 0"
  have "uint ?w = int (unat ?w)" by simp
  then have "unat ?w < 47 \<longleftrightarrow> uint ?w < 47" by linarith
  then show ?thesis by (simp add: GET_OPCODE_def getarg_def Let_def)
qed

lemma bit_field:
  "0 \<le> v \<Longrightarrow> v < 2 ^ n \<Longrightarrow> bit v k \<Longrightarrow> k < n" for v :: int
  by (metis bit_take_bit_iff take_bit_int_eq_self)

lemma getarg_CREATE:
  assumes w: "\<And>k. k < sz \<Longrightarrow> bit w (pos + k) \<longleftrightarrow> bit v k" and v: "0 \<le> v" "v < 2 ^ sz" and "pos + sz \<le> 32"
  shows "getarg w pos sz = v"
proof -
  have "take_bit sz (uint (drop_bit pos w)) = take_bit sz v"
    using w assms(4) by (intro bit_eqI) (auto simp: bit_simps bit_uint_iff)
  then show ?thesis using v by (simp add: getarg_take_bit take_bit_int_eq_self)
qed

definition fields_fit :: "int \<Rightarrow> int \<Rightarrow> int \<Rightarrow> bool" where
  "fields_fit a b c \<longleftrightarrow> 0 \<le> a \<and> a \<le> MAXARG_A \<and> 0 \<le> b \<and> b \<le> MAXARG_B \<and> 0 \<le> c \<and> c \<le> MAXARG_C"

lemma bit_CREATE_ABC:
  assumes "fields_fit a b c"
  shows "bit (CREATE_ABC op a b c) k \<longleftrightarrow>
     (if k < 6 then bit (OpCode_num op) k else if k < 14 then bit a (k - 6)
      else if k < 23 then bit c (k - 14) else k < 32 \<and> bit b (k - 23))"
proof -
  have "bit (OpCode_num op) j \<Longrightarrow> j < 6" "bit a j \<Longrightarrow> j < 8" "bit b j \<Longrightarrow> j < 9" "bit c j \<Longrightarrow> j < 9" for j
    using bit_field [of "OpCode_num op" 6 j] bit_field [of a 8 j] bit_field [of b 9 j] bit_field [of c 9 j]
      OpCode_num_nth [of op] assms
    by (auto simp: fields_fit_def MAXARG_A_def MAXARG_B_def MAXARG_C_def)
  from this [of k] this [of "k - 6"] this [of "k - 14"] this [of "k - 23"] show ?thesis
    by (auto simp: CREATE_ABC_def bit_simps)
qed

lemma CREATE_ABC_fields:
  assumes "fields_fit a b c"
  shows "GET_OPCODE (CREATE_ABC op a b c) = Some op" "GETARG_A (CREATE_ABC op a b c) = a"
    "GETARG_B (CREATE_ABC op a b c) = b" "GETARG_C (CREATE_ABC op a b c) = c"
proof -
  note bits = bit_CREATE_ABC [OF assms]
  have fit: "0 \<le> a" "a < 2 ^ 8" "0 \<le> b" "b < 2 ^ 9" "0 \<le> c" "c < 2 ^ 9"
    using assms by (simp_all add: fields_fit_def MAXARG_A_def MAXARG_B_def MAXARG_C_def)
  have "getarg (CREATE_ABC op a b c) POS_OP SIZE_OP = OpCode_num op"
    using OpCode_num_nth [of op] by (intro getarg_CREATE) (auto simp: bits)
  with OpCode_num_nth [of op] show "GET_OPCODE (CREATE_ABC op a b c) = Some op"
    by (simp add: GET_OPCODE_getarg)
  show "GETARG_A (CREATE_ABC op a b c) = a" "GETARG_B (CREATE_ABC op a b c) = b" "GETARG_C (CREATE_ABC op a b c) = c"
    unfolding GETARG_A_def GETARG_B_def GETARG_C_def
    using fit by (intro getarg_CREATE; simp add: bits)+
qed

lemma bit_CREATE_ABx:
  assumes "0 \<le> a" "a \<le> MAXARG_A" "0 \<le> bc" "bc \<le> MAXARG_Bx"
  shows "bit (CREATE_ABx op a bc) k \<longleftrightarrow>
     (if k < 6 then bit (OpCode_num op) k else if k < 14 then bit a (k - 6) else k < 32 \<and> bit bc (k - 14))"
proof -
  have "bit (OpCode_num op) j \<Longrightarrow> j < 6" "bit a j \<Longrightarrow> j < 8" "bit bc j \<Longrightarrow> j < 18" for j
    using bit_field [of "OpCode_num op" 6 j] bit_field [of a 8 j] bit_field [of bc 18 j]
      OpCode_num_nth [of op] assms
    by (auto simp: MAXARG_A_def MAXARG_Bx_def)
  from this [of k] this [of "k - 6"] this [of "k - 14"] show ?thesis
    by (auto simp: CREATE_ABx_def bit_simps)
qed

lemma CREATE_ABx_fields:
  assumes "0 \<le> a" "a \<le> MAXARG_A" "0 \<le> bc" "bc \<le> MAXARG_Bx"
  shows "GET_OPCODE (CREATE_ABx op a bc) = Some op" "GETARG_A (CREATE_ABx op a bc) = a"
    "GETARG_Bx (CREATE_ABx op a bc) = bc" "GETARG_sBx (CREATE_ABx op a bc) = bc - MAXARG_sBx"
proof -
  note bits = bit_CREATE_ABx [OF assms]
  have fit: "a < 2 ^ 8" "bc < 2 ^ 18" using assms by (simp_all add: MAXARG_A_def MAXARG_Bx_def)
  have "getarg (CREATE_ABx op a bc) POS_OP SIZE_OP = OpCode_num op"
    using OpCode_num_nth [of op] by (intro getarg_CREATE) (auto simp: bits)
  with OpCode_num_nth [of op] show "GET_OPCODE (CREATE_ABx op a bc) = Some op"
    by (simp add: GET_OPCODE_getarg)
  show "GETARG_A (CREATE_ABx op a bc) = a" "GETARG_Bx (CREATE_ABx op a bc) = bc"
    unfolding GETARG_A_def GETARG_Bx_def
    using fit assms by (intro getarg_CREATE; simp add: bits)+
  then show "GETARG_sBx (CREATE_ABx op a bc) = bc - MAXARG_sBx" by (simp add: GETARG_sBx_def)
qed

lemma sBx_roundtrip [instr_simps]:
  assumes "- MAXARG_sBx \<le> b" "b \<le> MAXARG_sBx + 1"
  shows "GETARG_sBx (SETARG_sBx i b) = b" "GET_OPCODE (SETARG_sBx i b) = GET_OPCODE i"
    "GETARG_A (SETARG_sBx i b) = GETARG_A i"
  using assms
  by (simp_all add: GETARG_sBx_def SETARG_sBx_def GETARG_Bx_def SETARG_Bx_def getarg_setarg_same MAXARG_sBx_def
      GET_OPCODE_getarg getarg_setarg_other GETARG_A_def)

lemma bit_256: "bit (256 :: int) k \<longleftrightarrow> k = 8"
  using bit_exp_iff [where 'a = int, of 8 k] by simp

lemma RK_roundtrip:
  assumes "0 \<le> x" "x \<le> MAXINDEXRK"
  shows "ISK (RKASK x)" "INDEXK (RKASK x) = x" "\<not> ISK x" "RKASK x \<le> MAXARG_B" "0 \<le> RKASK x"
proof -
  have x: "bit x j \<Longrightarrow> j < 8" for j
    using assms bit_field [of x 8 j] by (simp add: MAXINDEXRK_def BITRK_def)
  have "bit ((x OR 256) AND 256) 8" by (simp add: bit_simps bit_256)
  then show "ISK (RKASK x)" unfolding ISK_def RKASK_def BITRK_def by (metis bit_0_eq bot_apply bot_bool_def)
  have "(x OR 256) AND NOT 256 = x" using x by (intro bit_eqI) (auto simp: bit_simps bit_256)
  then show "INDEXK (RKASK x) = x" by (simp add: INDEXK_def RKASK_def BITRK_def)
  have "x AND 256 = 0" using x by (intro bit_eqI) (auto simp: bit_simps bit_256)
  then show "\<not> ISK x" by (simp add: ISK_def BITRK_def)
  have "take_bit 9 (x OR 256) = x OR 256"
    using x by (intro bit_eqI) (force simp: bit_simps bit_256)
  then have "x OR 256 < 512" "0 \<le> x OR 256"
    using take_bit_int_less_exp [of 9 "x OR 256"] take_bit_nonnegative [of 9 "x OR 256"] by simp_all
  then show "RKASK x \<le> MAXARG_B" "0 \<le> RKASK x" by (simp_all add: RKASK_def BITRK_def MAXARG_B_def)
qed

text \<open>
  An instruction built from an opcode and three operands gives exactly these back, an operand that is
  replaced changes no other field, and a jump's signed operand survives its excess coding.
\<close>

lemma instruction_fields:
  assumes "fields_fit a b c" "0 \<le> a'" "a' \<le> MAXARG_A" "- MAXARG_sBx \<le> j" "j \<le> MAXARG_sBx + 1"
  shows "GET_OPCODE (CREATE_ABC op a b c) = Some op \<and> GETARG_A (CREATE_ABC op a b c) = a \<and>
    GETARG_B (CREATE_ABC op a b c) = b \<and> GETARG_C (CREATE_ABC op a b c) = c \<and>
    GETARG_A (SETARG_A i a') = a' \<and> GETARG_B (SETARG_A i a') = GETARG_B i \<and>
    GETARG_C (SETARG_A i a') = GETARG_C i \<and> GET_OPCODE (SETARG_A i a') = GET_OPCODE i \<and>
    GETARG_sBx (SETARG_sBx i j) = j \<and> GETARG_A (SETARG_sBx i j) = GETARG_A i"
  using CREATE_ABC_fields [OF assms(1)] sBx_roundtrip [OF assms(4,5)] assms(2,3)
  by (simp add: GETARG_A_def SETARG_A_def GETARG_B_def GETARG_C_def GET_OPCODE_getarg getarg_setarg_same
      getarg_setarg_other MAXARG_A_def)

lemma instruction_fields_witness:
  "GET_OPCODE (CREATE_ABC OP_ADD 255 511 0) = Some OP_ADD \<and> GETARG_A (CREATE_ABC OP_ADD 255 511 0) = 255 \<and>
    GETARG_B (CREATE_ABC OP_ADD 255 511 0) = 511 \<and> GETARG_C (CREATE_ABC OP_ADD 255 511 0) = 0 \<and>
    GETARG_A (SETARG_A 0 7) = 7 \<and> GETARG_B (SETARG_A 0 7) = GETARG_B 0 \<and>
    GETARG_C (SETARG_A 0 7) = GETARG_C 0 \<and> GET_OPCODE (SETARG_A 0 7) = GET_OPCODE 0 \<and>
    GETARG_sBx (SETARG_sBx 0 (- 100)) = - 100 \<and> GETARG_A (SETARG_sBx 0 (- 100)) = GETARG_A 0"
  by (rule instruction_fields) (simp_all add: fields_fit_def MAXARG_A_def MAXARG_B_def MAXARG_C_def MAXARG_sBx_def)

end
