(* ===== verification/LuaObjectSpec.thy ===== *)
theory LuaObjectSpec
  imports LuaObject
begin

text \<open>
  What the functions of \<open>lobject.c\<close> compute: sizes are rounded up by at most an eighth, logarithms
  are exact, decimal numerals are read back as they were printed, and chunk names fit their buffer.
\<close>

section \<open>Sizes\<close>

text \<open>\<open>y\<close> is \<open>x\<close> divided by \<open>2 ^ d\<close>, rounded up.\<close>

definition ceil_shift :: "nat \<Rightarrow> nat \<Rightarrow> nat \<Rightarrow> bool" where
  "ceil_shift x d y \<longleftrightarrow> 0 < y \<and> (y - 1) * 2 ^ d < x \<and> x \<le> y * 2 ^ d"

lemma ceil_shift_0: "0 < x \<Longrightarrow> ceil_shift x 0 x"
  by (simp add: ceil_shift_def)

lemma ceil_shift_trans:
  assumes "ceil_shift x c y" "ceil_shift y d z"
  shows "ceil_shift x (c + d) z"
proof -
  have "(z - 1) * 2 ^ d \<le> y - 1" "y \<le> z * 2 ^ d" using assms(2) by (auto simp: ceil_shift_def)
  then have "((z - 1) * 2 ^ d) * 2 ^ c \<le> (y - 1) * 2 ^ c" "y * 2 ^ c \<le> (z * 2 ^ d) * 2 ^ c"
    by (auto intro: mult_right_mono)
  moreover have "(z - 1) * 2 ^ (c + d) = ((z - 1) * 2 ^ d) * 2 ^ c" "z * 2 ^ (c + d) = (z * 2 ^ d) * 2 ^ c"
    by (simp_all add: power_add mult.assoc mult.left_commute)
  moreover have "(y - 1) * 2 ^ c < x" "x \<le> y * 2 ^ c" "0 < z" using assms by (simp_all add: ceil_shift_def)
  ultimately show ?thesis unfolding ceil_shift_def by linarith
qed

lemma ceil_shift_step: "0 < x \<Longrightarrow> ceil_shift x 4 ((x + 15) div 16)" "0 < x \<Longrightarrow> ceil_shift x 1 ((x + 1) div 2)"
  by (simp_all add: ceil_shift_def) presburger+

lemma fb_coarse_ok:
  assumes "8 \<le> x" "x \<le> 4294967280"
  shows "\<exists>y d. fb_coarse x e = (y, e + d) \<and> ceil_shift x d y \<and> 8 \<le> y \<and> y < 128"
  using assms
proof (induction x e rule: fb_coarse.induct)
  case (1 x e)
  show ?case
  proof (cases "128 \<le> x")
    case False
    with 1 show ?thesis
      by (subst fb_coarse.simps) (auto intro!: exI [of _ 0] ceil_shift_0)
  next
    case True
    let ?x = "(x + 15) div 16"
    have m: "(x + 15) mod 4294967296 = x + 15" using 1(3) by simp
    have "8 \<le> ?x" "?x \<le> 4294967280" using True 1(3) by auto
    with "1.IH" [OF True] m obtain y d where yd: "fb_coarse ?x (e + 4) = (y, e + 4 + d)" "ceil_shift ?x d y"
      "8 \<le> y" "y < 128" by auto
    have "ceil_shift x (4 + d) y" using ceil_shift_trans [OF ceil_shift_step(1) yd(2)] True by simp
    with yd m True show ?thesis
      by (subst fb_coarse.simps) (auto intro!: exI [of _ "4 + d"] simp: add.assoc)
  qed
qed

lemma fb_fine_ok:
  assumes "8 \<le> x"
  shows "\<exists>y d. fb_fine x e = (y, e + d) \<and> ceil_shift x d y \<and> 8 \<le> y \<and> y < 16"
  using assms
proof (induction x e rule: fb_fine.induct)
  case (1 x e)
  show ?case
  proof (cases "16 \<le> x")
    case False
    with 1 show ?thesis
      by (subst fb_fine.simps) (auto intro!: exI [of _ 0] ceil_shift_0)
  next
    case True
    let ?x = "(x + 1) div 2"
    have "8 \<le> ?x" using True by auto
    with "1.IH" [OF True] obtain y d where yd: "fb_fine ?x (e + 1) = (y, e + 1 + d)" "ceil_shift ?x d y"
      "8 \<le> y" "y < 16" by auto
    have "ceil_shift x (1 + d) y" using ceil_shift_trans [OF ceil_shift_step(2) yd(2)] True by simp
    with yd True show ?thesis
      by (subst fb_fine.simps) (auto intro!: exI [of _ "1 + d"] simp: add.assoc)
  qed
qed

lemma fb2int_fields:
  assumes "0 \<le> e" "e < 31" "0 \<le> m" "m < 8"
  shows "push_bit 3 (e + 1) OR m = (e + 1) * 8 + m" "luaO_fb2int ((e + 1) * 8 + m) = (m + 8) * 2 ^ nat e"
proof -
  show "push_bit 3 (e + 1) OR m = (e + 1) * 8 + m"
    using or_shifted(1) [of m 3 "e + 1"] assms by (simp add: push_bit_eq_mult)
  have "(m + (e + 1) * 8) mod 8 = m" using assms by (simp only: mod_mult_self1) simp
  then have "drop_bit 3 ((e + 1) * 8 + m) = e + 1" "((e + 1) * 8 + m) AND 7 = m" "(e + 1) AND 31 = e + 1"
    using assms by (simp_all add: drop_bit_eq_div mask_simps add.commute)
  then show "luaO_fb2int ((e + 1) * 8 + m) = (m + 8) * 2 ^ nat e"
    using assms by (simp add: luaO_fb2int_def push_bit_eq_mult Let_def)
qed

lemma fb2int_small: "0 \<le> x \<Longrightarrow> x < 8 \<Longrightarrow> luaO_fb2int x = x"
  by (simp add: luaO_fb2int_def drop_bit_eq_div)

text \<open>
  A table size coded in nine bits is decoded to at least the size asked for, and to at most an eighth more.
\<close>

lemma size_rounding:
  assumes "x \<le> 4294967280"
  shows "0 \<le> luaO_int2fb x \<and> luaO_int2fb x \<le> 255 \<and> int x \<le> luaO_fb2int (luaO_int2fb x) \<and>
    8 * (luaO_fb2int (luaO_int2fb x) - int x) < luaO_fb2int (luaO_int2fb x) + 1"
proof -
  have "0 \<le> luaO_int2fb x \<and> luaO_int2fb x \<le> 255 \<and> int x \<le> luaO_fb2int (luaO_int2fb x) \<and>
    8 * (luaO_fb2int (luaO_int2fb x) - int x) < luaO_fb2int (luaO_int2fb x) + 1"
  proof (cases "x < 8")
    case True
    then show ?thesis by (simp add: luaO_int2fb_def fb2int_small)
  next
    case False
    obtain y d where y: "fb_coarse x 0 = (y, d)" "ceil_shift x d y" "8 \<le> y"
      using fb_coarse_ok [of x 0] False assms by auto
    obtain z e where z: "fb_fine y d = (z, d + e)" "ceil_shift y e z" "8 \<le> z" "z < 16"
      using fb_fine_ok [OF y(3), of d] by auto
    have c: "ceil_shift x (d + e) z" by (rule ceil_shift_trans [OF y(2) z(2)])
    let ?k = "d + e"
    have up: "x \<le> z * 2 ^ ?k" and down: "(z - 1) * 2 ^ ?k < x" using c by (simp_all add: ceil_shift_def)
    have "(2 :: nat) ^ ?k * 7 \<le> (z - 1) * 2 ^ ?k" using z(3) by simp
    moreover have "(2 :: nat) ^ 30 = 1073741824" by simp
    ultimately have "(2 :: nat) ^ ?k < 2 ^ 30" using down assms by linarith
    then have k: "?k < 30" using power_less_imp_less_exp [of "2 :: nat" ?k 30] by simp
    have fb: "luaO_int2fb x = (int ?k + 1) * 8 + (int z - 8)"
      using False y(1) z fb2int_fields(1) [of "int ?k" "int z - 8"] k by (simp add: luaO_int2fb_def)
    have val: "luaO_fb2int (luaO_int2fb x) = int (z * 2 ^ ?k)"
      unfolding fb using fb2int_fields(2) [of "int ?k" "int z - 8"] k z by simp
    have "z * 2 ^ ?k = (z - 1) * 2 ^ ?k + 2 ^ ?k" using z(3) by (cases z) simp_all
    then have near: "z * 2 ^ ?k < x + 2 ^ ?k" using down by linarith
    have "8 * (2 :: nat) ^ ?k \<le> z * 2 ^ ?k" using z(3) by simp
    moreover have "8 * (int q - int x) < int q + 1" if "8 * p \<le> q" "q < x + p" for p q :: nat using that by presburger
    ultimately have "8 * (int (z * 2 ^ ?k) - int x) < int (z * 2 ^ ?k) + 1" using near by blast
    moreover have "0 \<le> luaO_int2fb x" "luaO_int2fb x \<le> 255" using k z by (simp_all add: fb)
    ultimately show ?thesis using up unfolding val by linarith
  qed
  then show ?thesis .
qed

lemma size_rounding_witness:
  "0 \<le> luaO_int2fb 1000 \<and> luaO_int2fb 1000 \<le> 255 \<and> int 1000 \<le> luaO_fb2int (luaO_int2fb 1000) \<and>
    8 * (luaO_fb2int (luaO_int2fb 1000) - int 1000) < luaO_fb2int (luaO_int2fb 1000) + 1"
  by (rule size_rounding) simp

section \<open>Logarithms\<close>

fun log_ok :: "nat \<Rightarrow> nat list \<Rightarrow> bool" where
  "log_ok i [] \<longleftrightarrow> True"
| "log_ok i (t # ts) \<longleftrightarrow> i < 2 ^ t \<and> (t = 0 \<or> 2 ^ (t - 1) \<le> i) \<and> log_ok (i + 1) ts"

lemma log_ok_nth:
  "log_ok i ts \<Longrightarrow> k < length ts \<Longrightarrow> i + k < 2 ^ (ts ! k) \<and> (ts ! k = 0 \<or> 2 ^ (ts ! k - 1) \<le> i + k)"
proof (induction i ts arbitrary: k rule: log_ok.induct)
  case (1 i)
  then show ?case by simp
next
  case (2 i t ts)
  then show ?case by (cases k) auto
qed

lemma log_2_table:
  assumes "k < 256"
  shows "k < 2 ^ (log_2 ! k)" "log_2 ! k = 0 \<or> 2 ^ (log_2 ! k - 1) \<le> k"
proof -
  have "log_ok 0 log_2" "length log_2 = 256" by (simp_all add: log_2_def)
  with log_ok_nth [of 0 log_2 k] assms show "k < 2 ^ (log_2 ! k)" "log_2 ! k = 0 \<or> 2 ^ (log_2 ! k - 1) \<le> k"
    by auto
qed

lemma ceillog2_loop_ok:
  "y < 2 ^ ceillog2_loop 0 y \<and> (ceillog2_loop 0 y = 0 \<or> 2 ^ (ceillog2_loop 0 y - 1) \<le> y) \<and>
   ceillog2_loop l y = l + ceillog2_loop 0 y"
proof (induction y arbitrary: l rule: less_induct)
  case (less y)
  show ?case
  proof (cases "256 \<le> y")
    case False
    with log_2_table [of y] show ?thesis by (simp add: ceillog2_loop.simps)
  next
    case True
    let ?r = "ceillog2_loop 0 (y div 256)"
    have "y div 256 < y" using True by simp
    note IH = less.IH [OF this]
    have r: "ceillog2_loop k y = k + 8 + ?r" for k
      using True IH [of "k + 8"] by (subst ceillog2_loop.simps) simp
    have pos: "0 < ?r" using IH [of 0] True by (cases "?r = 0") auto
    then have "2 ^ (?r - 1) \<le> y div 256" using IH [of 0] by auto
    then have "2 ^ (?r - 1) * 256 \<le> y" by (simp add: less_eq_div_iff_mult_less_eq)
    moreover have "2 ^ (8 + ?r - 1) = 2 ^ (?r - 1) * (256 :: nat)"
    proof -
      obtain k where "?r = Suc k" using pos by (cases ?r) auto
      then show ?thesis by (simp add: power_add)
    qed
    moreover have "y < 2 ^ (8 + ?r)"
    proof -
      have "y div 256 < 2 ^ ?r" using IH [of 0] by simp
      then have "y < 2 ^ ?r * 256" by (simp add: div_less_iff_less_mult)
      then show ?thesis by (simp add: power_add mult.commute)
    qed
    ultimately show ?thesis using pos by (simp add: r)
  qed
qed

lemma ceillog2_bounds:
  assumes "0 < x" "x \<le> 4294967296"
  shows "x \<le> 2 ^ luaO_ceillog2 x" "luaO_ceillog2 x = 0 \<or> 2 ^ (luaO_ceillog2 x - 1) < x"
proof -
  have "x + 4294967295 = x - 1 + 4294967296" using assms(1) by simp
  also have "\<dots> mod 4294967296 = x - 1" using assms by (simp only: mod_add_self2) simp
  finally have "luaO_ceillog2 x = ceillog2_loop 0 (x - 1)" by (simp add: luaO_ceillog2_def)
  with ceillog2_loop_ok [of "x - 1" 0] assms(1)
  show "x \<le> 2 ^ luaO_ceillog2 x" "luaO_ceillog2 x = 0 \<or> 2 ^ (luaO_ceillog2 x - 1) < x" by auto
qed

text \<open>
  The table-driven logarithm is the least exponent whose power of two is not below its argument.
\<close>

lemma ceillog2_correct:
  assumes "0 < x" "x \<le> 4294967296"
  shows "x \<le> 2 ^ luaO_ceillog2 x \<and> (luaO_ceillog2 x = 0 \<or> 2 ^ (luaO_ceillog2 x - 1) < x)"
  using ceillog2_bounds [OF assms] by blast

lemma ceillog2_correct_witness: "(1000 :: nat) \<le> 2 ^ luaO_ceillog2 1000 \<and> (luaO_ceillog2 1000 = 0 \<or> 2 ^ (luaO_ceillog2 1000 - 1) < (1000 :: nat))"
  by (rule ceillog2_correct) simp_all

section \<open>Numerals\<close>

lemma u64_step: "u64 (u64 x * k + y) = u64 (x * k + y)"
  unfolding u64_def by (metis mod_add_left_eq mod_mult_left_eq)

definition digit :: "nat \<Rightarrow> byte" where
  "digit n = of_nat (48 + n)"

lemma uint_digit: "n < 10 \<Longrightarrow> uint (digit n) = 48 + int n"
  unfolding digit_def by (simp only: unsigned_of_nat) (simp add: take_bit_eq_mod)

lemma lisdigit_digit: "n < 10 \<Longrightarrow> lisdigit (uint (digit n))"
  using class_ranges(1) [OF is_char_byte, of "digit n"] uint_digit [of n] by simp

lemma nat_digits_unfold:
  "nat_digits n = (if n < 10 then [digit n] else nat_digits (n div 10) @ [digit (n mod 10)])"
  unfolding digit_def by (rule nat_digits.simps)

lemma nat_digits_digits: "b \<in> set (nat_digits n) \<Longrightarrow> 48 \<le> uint b \<and> uint b \<le> 57"
proof (induction n rule: nat_digits.induct)
  case (1 n)
  show ?case
  proof (cases "n < 10")
    case True
    with 1 have "b = digit n" by (simp add: nat_digits_unfold [of n])
    with True show ?thesis by (simp add: uint_digit)
  next
    case False
    have "uint (digit (n mod 10)) = 48 + int (n mod 10)" by (simp add: uint_digit)
    then have "48 \<le> uint (digit (n mod 10)) \<and> uint (digit (n mod 10)) \<le> 57" by presburger
    moreover from 1(2) False have "b \<in> set (nat_digits (n div 10)) \<or> b = digit (n mod 10)"
      by (subst (asm) nat_digits_unfold) auto
    ultimately show ?thesis using "1.IH" [OF False] by blast
  qed
qed

lemma nat_digits_nonempty [simp]: "nat_digits n \<noteq> []"
  by (subst nat_digits_unfold) simp

lemma dec_digits_step: "n < 10 \<Longrightarrow> dec_digits a e (digit n # s) = dec_digits (u64 (a * 10 + int n)) False s"
  using lisdigit_digit [of n] uint_digit [of n] by (simp add: algebra_simps)

lemma dec_digits_nat_digits:
  "dec_digits a e (nat_digits n @ s) = dec_digits (u64 (a * 10 ^ length (nat_digits n) + int n)) False s"
proof (induction n arbitrary: e s rule: nat_digits.induct)
  case (1 n)
  show ?case
  proof (cases "n < 10")
    case True
    then show ?thesis by (simp add: nat_digits_unfold [of n] dec_digits_step del: dec_digits.simps)
  next
    case False
    let ?m = "n div 10"
    have "dec_digits a e (nat_digits n @ s) = dec_digits a e (nat_digits ?m @ digit (n mod 10) # s)"
      using False by (simp add: nat_digits_unfold [of n])
    also have "\<dots> = dec_digits (u64 (u64 (a * 10 ^ length (nat_digits ?m) + int ?m) * 10 + int (n mod 10))) False s"
      unfolding "1.IH" [OF False] by (rule dec_digits_step) simp
    also have "u64 (u64 (a * 10 ^ length (nat_digits ?m) + int ?m) * 10 + int (n mod 10)) =
        u64 (a * 10 ^ length (nat_digits n) + int n)"
    proof -
      have n: "int ?m * 10 + int (n mod 10) = int n" by presburger
      have l: "length (nat_digits n) = Suc (length (nat_digits ?m))"
        using False by (simp add: nat_digits_unfold [of n])
      have "(a * 10 ^ length (nat_digits ?m) + int ?m) * 10 + int (n mod 10) = a * 10 ^ length (nat_digits n) + int n"
        unfolding l n [symmetric] by (simp add: algebra_simps)
      then show ?thesis unfolding u64_step by simp
    qed
    finally show ?thesis .
  qed
qed

lemma skip_spaces_nonspace: "\<not> lisspace (cur s) \<Longrightarrow> skip_spaces s = s"
  by (cases s) (simp_all add: skip_spaces_def)

lemma str2int_digits:
  assumes "x = nat_digits n"
  shows "\<not> lisspace (cur x)" "\<not> (cur x = 48 \<and> (cur (tl x) = 120 \<or> cur (tl x) = 88))" "cur x \<noteq> 45" "cur x \<noteq> 43"
proof -
  have d: "b \<in> set x \<Longrightarrow> 48 \<le> uint b \<and> uint b \<le> 57" for b using nat_digits_digits assms by blast
  obtain b bs where x: "x = b # bs" using assms nat_digits_nonempty [of n] by (metis neq_Nil_conv)
  have b: "48 \<le> uint b" "uint b \<le> 57" using d x by auto
  then show "cur x \<noteq> 45" "cur x \<noteq> 43" by (auto simp: x)
  show "\<not> lisspace (cur x)" using b by (simp add: x class_ranges)
  show "\<not> (cur x = 48 \<and> (cur (tl x) = 120 \<or> cur (tl x) = 88))"
  proof (cases bs)
    case Nil
    then show ?thesis by (simp add: x)
  next
    case (Cons c cs)
    then have "uint c \<le> 57" using d x by auto
    then show ?thesis using Cons by (auto simp: x)
  qed
qed

text \<open>
  Every 64-bit integer printed in decimal is read back as itself, to the end of the string, the
  smallest one too, whose digits do not fit a positive integer.
\<close>

lemma str2int_integer2str:
  assumes "in_s64 i"
  shows "l_str2int (lua_integer2str i) = Some (i, [])"
proof -
  define n where "n = nat \<bar>i\<bar>"
  note d = str2int_digits [OF refl, of n]
  have dec: "dec_digits 0 True (nat_digits n) = (u64 (int n), False, [])"
    using dec_digits_nat_digits [of 0 True n "[]"] by simp
  have body: "(if cur (nat_digits n) = 48 \<and> (cur (tl (nat_digits n)) = 120 \<or> cur (tl (nat_digits n)) = 88)
      then hex_digits 0 True (drop 2 (nat_digits n)) else dec_digits 0 True (nat_digits n)) = (u64 (int n), False, [])"
    by (simp only: if_not_P [OF d(2)] dec)
  have sp: "skip_spaces [] = []" by (simp add: skip_spaces_def)
  show ?thesis
  proof (cases "i < 0")
    case True
    have s: "lua_integer2str i = 45 # nat_digits n" using True by (simp add: lua_integer2str_def n_def)
    have "\<not> lisspace 45" by code_simp
    then have "\<not> lisspace (cur (45 # nat_digits n))" by simp
    then have "isneg (skip_spaces (45 # nat_digits n)) = (True, nat_digits n)"
      by (simp add: skip_spaces_nonspace isneg_def)
    moreover have "s64 (u64 (0 - u64 (int n))) = i"
    proof -
      have "u64 (0 - u64 (int n)) mod 18446744073709551616 = i mod 18446744073709551616"
        using True by (simp add: u64_def n_def mod_simps)
      then have "s64 (u64 (0 - u64 (int n))) = s64 i" by (rule s64_cong)
      then show ?thesis using assms by (simp add: s64_id)
    qed
    ultimately show ?thesis
      unfolding s l_str2int_def by (simp only: Let_def prod.case body sp) simp
  next
    case False
    have s: "lua_integer2str i = nat_digits n" using False by (simp add: lua_integer2str_def n_def)
    have "isneg (skip_spaces (nat_digits n)) = (False, nat_digits n)"
      using d by (simp add: skip_spaces_nonspace isneg_def)
    moreover have "s64 (u64 (int n)) = i"
    proof -
      have "u64 (int n) mod 18446744073709551616 = i mod 18446744073709551616"
        using False by (simp add: u64_def n_def)
      then have "s64 (u64 (int n)) = s64 i" by (rule s64_cong)
      then show ?thesis using assms by (simp add: s64_id)
    qed
    ultimately show ?thesis
      unfolding s l_str2int_def by (simp only: Let_def prod.case body sp) simp
  qed
qed

lemma str2int_integer2str_witness: "l_str2int (lua_integer2str (- 9223372036854775808)) = Some (- 9223372036854775808, [])"
  using str2int_integer2str [of "- 9223372036854775808"] by (simp add: in_s64_def)

section \<open>Chunk names\<close>

text \<open>
  The display name of a chunk, terminator included, fits the buffer whatever the source, and the
  terminator is its only zero byte.
\<close>

lemma chunkid_fits:
  assumes "16 \<le> bufflen" "0 \<notin> set source"
  shows "length (luaO_chunkid source bufflen) \<le> bufflen \<and>
    (\<exists>name. luaO_chunkid source bufflen = name @ [0] \<and> 0 \<notin> set name)"
proof -
  let ?s = "source" and ?l = "length source"
  have tail: "take ?l (drop 1 (source @ [0])) = drop 1 source @ [0]" if "source \<noteq> []"
    using that by (cases source) simp_all
  have inner: "0 \<notin> set (take k (drop j source))" for k j
    using assms(2) by (meson in_set_dropD in_set_takeD)
  show ?thesis
  proof -
    consider (lit) "cur source = 61" | (isfile) "cur source = 64" | (plain) "cur source \<noteq> 61" "cur source \<noteq> 64" by blast
    then show ?thesis
    proof cases
      case lit
      then have ne: "source \<noteq> []" by auto
      show ?thesis
      proof (cases "?l \<le> bufflen")
        case True
        with lit have "luaO_chunkid source bufflen = drop 1 source @ [0]"
          using ne by (cases source) (simp_all add: luaO_chunkid_def Let_def)
        with True ne inner [of ?l 1] show ?thesis by (cases source) auto
      next
        case False
        with lit have "luaO_chunkid source bufflen = take (bufflen - 1) (drop 1 source) @ [0]"
          by (simp add: luaO_chunkid_def)
        with False assms(1) inner show ?thesis by auto
      qed
    next
      case isfile
      then have ne: "source \<noteq> []" by auto
      show ?thesis
      proof (cases "?l \<le> bufflen")
        case True
        with isfile have "luaO_chunkid source bufflen = drop 1 source @ [0]"
          using ne by (cases source) (simp_all add: luaO_chunkid_def Let_def)
        with True ne inner [of ?l 1] show ?thesis by (cases source) auto
      next
        case False
        let ?k = "1 + ?l - (bufflen - 3)"
        have k: "?k \<le> ?l" using assms(1) False by linarith
        then have t: "take (bufflen - 3) (drop ?k (source @ [0])) = drop ?k source @ [0]"
        proof -
          have "drop ?k (source @ [0]) = drop ?k source @ [0]" using k by simp
          moreover have "length (drop ?k source @ [0]) \<le> bufflen - 3" using assms(1) False by simp
          ultimately show ?thesis by (simp only: take_all)
        qed
        have "luaO_chunkid source bufflen = RETS @ take (bufflen - 3) (drop ?k (source @ [0]))"
          using isfile False by (simp add: luaO_chunkid_def Let_def del: take_append drop_append)
        then have "luaO_chunkid source bufflen = (RETS @ drop ?k source) @ [0]"
          unfolding t by simp
        moreover have "0 \<notin> set (drop ?k source)" using assms(2) by (meson in_set_dropD)
        moreover have "length (RETS @ drop ?k source) < bufflen" using assms(1) False by (simp add: RETS_def)
        ultimately show ?thesis by (auto simp: RETS_def)
      qed
    next
      case plain
      let ?nl = "takeWhile (\<lambda>b. b \<noteq> 10) source" and ?room = "bufflen - 15"
      define mid where "mid = (if ?l < ?room \<and> ?nl = source then source else take (min (length ?nl) ?room) source @ RETS)"
      have e: "luaO_chunkid source bufflen = (PRE @ mid @ POS) @ [0]"
      proof -
        have "bufflen - (length PRE + length RETS + length POS + 1) = ?room"
          by (simp add: PRE_def RETS_def POS_def)
        then show ?thesis using plain unfolding luaO_chunkid_def Let_def mid_def by (simp only: if_False append_assoc)
      qed
      have "length mid \<le> ?room + 3" by (auto simp: mid_def RETS_def)
      then have "length (luaO_chunkid source bufflen) \<le> bufflen"
        using assms(1) unfolding e by (simp add: PRE_def POS_def)
      moreover have "0 \<notin> set mid" using assms(2) inner [of _ 0] by (auto simp: mid_def RETS_def)
      ultimately show ?thesis unfolding e by (auto simp: PRE_def POS_def)
    qed
  qed
qed

lemma chunkid_fits_witness:
  "length (luaO_chunkid (replicate 100 65) 60) \<le> 60 \<and> (\<exists>name. luaO_chunkid (replicate 100 65) 60 = name @ [0] \<and> 0 \<notin> set name)"
  by (rule chunkid_fits) simp_all

end
