(* ===== verification/LuaUtf8.thy ===== *)
theory LuaUtf8
  imports LuaApi
begin

text \<open>
  The UTF-8 library (\<open>src/src/logic/scriptengine/lua/lutf8lib.c\<close>). A pointer into the subject is an offset from
  its start. The arguments of a library function are given converted: an integer, a string, or an
  optional integer for \<open>luaL_optinteger\<close>. Its result is the list of the values it returns.
\<close>

definition MAXUNICODE :: int where "MAXUNICODE = 1114111"

definition iscont :: "int \<Rightarrow> bool" where
  "iscont c \<longleftrightarrow> c AND 192 = 128"

text \<open>
  The loop over the continuation bytes. \<open>c\<close> and \<open>res\<close> are \<open>unsigned int\<close>; the first byte has eight bits, so the
  loop runs at most seven times. In the seventh the final shift is by 35, of a zero: undefined in C, zero
  on every machine, and the sequence is rejected.
\<close>

primrec decode_loop :: "nat \<Rightarrow> byte list \<Rightarrow> nat \<Rightarrow> int \<Rightarrow> nat \<Rightarrow> int \<Rightarrow> fault + (int \<times> nat \<times> int) option" where
  "decode_loop 0 s p c count res = Inl OutOfFuel"
| "decode_loop (Suc fuel) s p c count res =
     (if c AND 64 \<noteq> 0 then
        res_bind (rd s (p + (count + 1))) (\<lambda>cc.
          if cc AND 192 \<noteq> 128 then Inr None
          else decode_loop fuel s p (u32 (push_bit 1 c)) (count + 1) (u32 (push_bit 6 res) OR (cc AND 63)))
      else Inr (Some (c, count, res)))"

definition limits :: "int list" where
  "limits = [255, 127, 2047, 65535]"

definition utf8_decode :: "byte list \<Rightarrow> nat \<Rightarrow> fault + (int \<times> nat) option" where
  "utf8_decode s p =
     res_bind (rd s p) (\<lambda>c.
       if c < 128 then Inr (Some (c, p + 1))
       else res_bind (decode_loop 8 s p c 0 0) (\<lambda>r.
         case r of None \<Rightarrow> Inr None
         | Some (c, count, res) \<Rightarrow>
             (let res = res OR u32 (push_bit (count * 5) (c AND 127)) in
              if count > 3 \<or> res > MAXUNICODE \<or> res \<le> limits ! count then Inr None
              else Inr (Some (res, p + count + 1)))))"

section \<open>What the decoder reads and accepts\<close>

lemma iscont_range: "0 \<le> c \<Longrightarrow> c \<le> 255 \<Longrightarrow> iscont c \<longleftrightarrow> 128 \<le> c \<and> c < 192"
proof -
  have "list_all (\<lambda>c. iscont c \<longleftrightarrow> 128 \<le> c \<and> c < 192) [0..255]" by code_simp
  then show "0 \<le> c \<Longrightarrow> c \<le> 255 \<Longrightarrow> ?thesis" by (simp add: list_all_iff)
qed

lemma lead_tests:
  fixes c :: int
  assumes "128 \<le> c" "c \<le> 255"
  shows "c AND 64 \<noteq> 0 \<longleftrightarrow> 192 \<le> c"
    "192 \<le> c \<Longrightarrow> (2 * c) AND 64 \<noteq> 0 \<longleftrightarrow> 224 \<le> c"
    "224 \<le> c \<Longrightarrow> (4 * c) AND 64 \<noteq> 0 \<longleftrightarrow> 240 \<le> c"
    "240 \<le> c \<Longrightarrow> (8 * c) AND 64 \<noteq> 0 \<longleftrightarrow> 248 \<le> c"
    "192 \<le> c \<Longrightarrow> c < 224 \<Longrightarrow> (2 * c) AND 127 = 2 * (c - 192)"
    "224 \<le> c \<Longrightarrow> c < 240 \<Longrightarrow> (4 * c) AND 127 = 4 * (c - 224)"
    "240 \<le> c \<Longrightarrow> c < 248 \<Longrightarrow> (8 * c) AND 127 = 8 * (c - 240)"
proof -
  have all: "\<forall>c \<in> set [128..255]. (c AND 64 \<noteq> 0 \<longleftrightarrow> 192 \<le> c) \<and>
      (192 \<le> c \<longrightarrow> ((2 * c) AND 64 \<noteq> 0 \<longleftrightarrow> 224 \<le> c)) \<and>
      (224 \<le> c \<longrightarrow> ((4 * c) AND 64 \<noteq> 0 \<longleftrightarrow> 240 \<le> c)) \<and>
      (240 \<le> c \<longrightarrow> ((8 * c) AND 64 \<noteq> 0 \<longleftrightarrow> 248 \<le> c)) \<and>
      (192 \<le> c \<and> c < 224 \<longrightarrow> (2 * c) AND 127 = 2 * (c - 192)) \<and>
      (224 \<le> c \<and> c < 240 \<longrightarrow> (4 * c) AND 127 = 4 * (c - 224)) \<and>
      (240 \<le> c \<and> c < 248 \<longrightarrow> (8 * c) AND 127 = 8 * (c - 240))"
    unfolding list_all_iff [symmetric] by code_simp
  have "c \<in> set [128..255]" using assms by (simp only: set_upto) simp
  note c = bspec [OF all this]
  from c show "c AND 64 \<noteq> 0 \<longleftrightarrow> 192 \<le> c"
    "192 \<le> c \<Longrightarrow> (2 * c) AND 64 \<noteq> 0 \<longleftrightarrow> 224 \<le> c"
    "224 \<le> c \<Longrightarrow> (4 * c) AND 64 \<noteq> 0 \<longleftrightarrow> 240 \<le> c"
    "240 \<le> c \<Longrightarrow> (8 * c) AND 64 \<noteq> 0 \<longleftrightarrow> 248 \<le> c"
    "192 \<le> c \<Longrightarrow> c < 224 \<Longrightarrow> (2 * c) AND 127 = 2 * (c - 192)"
    "224 \<le> c \<Longrightarrow> c < 240 \<Longrightarrow> (4 * c) AND 127 = 4 * (c - 224)"
    "240 \<le> c \<Longrightarrow> c < 248 \<Longrightarrow> (8 * c) AND 127 = 8 * (c - 240)"
    by blast+
qed

lemma push_1: "push_bit 1 x = 2 * x" for x :: int
  by (simp add: push_bit_eq_mult)

lemma seventh_test: "(c * 128) AND 64 = 0" for c :: int
proof -
  have "c * 128 AND 64 = c * 128 AND (127 AND 64)" by simp
  also have "\<dots> = (c * 128 AND 127) AND 64" by (simp only: and.assoc)
  also have "\<dots> = 0" by (simp only: and_mask_7) simp
  finally show ?thesis .
qed

lemma decode_loop_reads:
  assumes "count + fuel = 8" "0 < fuel" "c = c0 * 2 ^ count" "0 \<le> c0" "c0 \<le> 255" "p + count < length s"
  shows "\<exists>r. decode_loop fuel s p c count res = Inr r \<and>
    (\<forall>c' n v. r = Some (c', n, v) \<longrightarrow> p + n < length s)"
  using assms
proof (induction fuel arbitrary: c count res)
  case 0
  then show ?case by simp
next
  case (Suc fuel)
  show ?case
  proof (cases "c AND 64 = 0")
    case True
    with Suc.prems show ?thesis by simp
  next
    case False
    obtain cc where cc: "rd s (p + (count + 1)) = Inr cc" "0 \<le> cc" "cc \<le> 255"
      using rd_ok [of "p + (count + 1)" s] Suc.prems(6) by auto
    show ?thesis
    proof (cases "cc AND 192 = 128")
      case False
      with \<open>c AND 64 \<noteq> 0\<close> cc show ?thesis by simp
    next
      case True
      have "cc \<noteq> 0" using True by auto
      with cc have len: "p + (count + 1) < length s" by (auto simp: rd_def split: if_splits)
      have fuel: "0 < fuel"
      proof (rule ccontr)
        assume "\<not> 0 < fuel"
        with Suc.prems(1) have "count = 7" by simp
        with Suc.prems(3) seventh_test [of c0] have "c AND 64 = 0" by simp
        with False show False ..
      qed
      have "c0 * 2 ^ Suc count \<le> 255 * 2 ^ 8"
        using Suc.prems by (intro mult_mono power_increasing) auto
      then have "u32 (push_bit 1 c) = c0 * 2 ^ (count + 1)"
        using Suc.prems(3,4) unfolding push_1 by (subst u32_id) (auto simp: algebra_simps)
      note IH = Suc.IH [OF _ fuel this Suc.prems(4,5) len, of "u32 (push_bit 6 res) OR (cc AND 63)"]
      show ?thesis using False True cc IH Suc.prems(1) by simp
    qed
  qed
qed

lemma utf8_decode_reads:
  assumes "p \<le> length s"
  shows "\<exists>r. utf8_decode s p = Inr r \<and>
    (\<forall>v q. r = Some (v, q) \<longrightarrow> p < q \<and> (p < length s \<longrightarrow> q \<le> length s))"
proof -
  obtain c where c: "rd s p = Inr c" "0 \<le> c" "c \<le> 255" using rd_ok [OF assms] by blast
  show ?thesis
  proof (cases "c < 128")
    case True
    with c assms show ?thesis by (simp add: utf8_decode_def)
  next
    case False
    with c have "p < length s" by (auto simp: rd_def split: if_splits)
    then obtain r where r: "decode_loop 8 s p c 0 0 = Inr r"
      "\<forall>c' n v. r = Some (c', n, v) \<longrightarrow> p + n < length s"
      using decode_loop_reads [of 0 8 c c p s 0] c by auto
    show ?thesis
    proof (cases r)
      case None
      with c False r show ?thesis by (simp add: utf8_decode_def)
    next
      case (Some x)
      obtain c' n v where "x = (c', n, v)" by (cases x)
      with Some r(2) have "p + n < length s" by simp
      with c False r(1) Some \<open>x = _\<close> show ?thesis by (simp add: utf8_decode_def Let_def del: decode_loop.simps)
    qed
  qed
qed

lemma utf8_decode_progress:
  assumes "utf8_decode s p = Inr (Some (v, q))"
  shows "p < q"
proof -
  have "p \<le> length s" using assms rd_Inr by (auto simp: utf8_decode_def res_simps)
  with utf8_decode_reads [of p s] assms show ?thesis by auto
qed

section \<open>The library functions\<close>

text \<open>\<open>utflen\<close>: the loop from \<open>posi\<close> to \<open>posj\<close>; \<open>n\<close> is an \<open>int\<close>.\<close>

function utflen_loop :: "byte list \<Rightarrow> nat \<Rightarrow> int \<Rightarrow> int \<Rightarrow> lua_error + lval list" where
  "utflen_loop s posi posj n =
     (if int posi \<le> posj then
        (case utf8_decode s posi of
           Inl f \<Rightarrow> Inl (Fault f)
         | Inr None \<Rightarrow> Inr [LNil, LInt (int posi + 1)]
         | Inr (Some (_, s1)) \<Rightarrow> utflen_loop s s1 posj (s32 (n + 1)))
      else Inr [LInt n])"
  by pat_completeness auto
termination
  by (relation "measure (\<lambda>(s, posi, posj, n). nat (posj + 1 - int posi))") (auto dest: utf8_decode_progress)

declare utflen_loop.simps [simp del]

definition utflen :: "byte list \<Rightarrow> int option \<Rightarrow> int option \<Rightarrow> lua_error + lval list" where
  "utflen s i j =
     (let len = length s;
          posi = u_posrelat (case i of None \<Rightarrow> 1 | Some i \<Rightarrow> i) len;
          posj = u_posrelat (case j of None \<Rightarrow> - 1 | Some j \<Rightarrow> j) len in
      res_bind (luaL_argcheck (1 \<le> posi \<and> posi - 1 \<le> int len) 2 ''initial position out of string'') (\<lambda>_.
      res_bind (luaL_argcheck (s64 (posj - 1) < int len) 3 ''final position out of string'') (\<lambda>_.
      utflen_loop s (nat (posi - 1)) (s64 (posj - 1)) 0)))"

text \<open>\<open>codepoint\<close>: \<open>room n\<close> says whether \<open>luaL_checkstack\<close> finds \<open>n\<close> slots; the values pushed so far are \<open>acc\<close>.\<close>

function codepoint_loop :: "byte list \<Rightarrow> nat \<Rightarrow> nat \<Rightarrow> lval list \<Rightarrow> lua_error + lval list" where
  "codepoint_loop s p se acc =
     (if p < se then
        (case utf8_decode s p of
           Inl f \<Rightarrow> Inl (Fault f)
         | Inr None \<Rightarrow> Inl (LuaError ''invalid UTF-8 code'')
         | Inr (Some (code, p')) \<Rightarrow> codepoint_loop s p' se (acc @ [LInt code]))
      else Inr acc)"
  by pat_completeness auto
termination
  by (relation "measure (\<lambda>(s, p, se, acc). se - p)") (auto dest: utf8_decode_progress)

declare codepoint_loop.simps [simp del]

definition codepoint :: "(int \<Rightarrow> bool) \<Rightarrow> byte list \<Rightarrow> int option \<Rightarrow> int option \<Rightarrow> lua_error + lval list" where
  "codepoint room s i j =
     (let len = length s;
          posi = u_posrelat (case i of None \<Rightarrow> 1 | Some i \<Rightarrow> i) len;
          pose = u_posrelat (case j of None \<Rightarrow> posi | Some j \<Rightarrow> j) len in
      res_bind (luaL_argcheck (posi \<ge> 1) 2 ''out of range'') (\<lambda>_.
      res_bind (luaL_argcheck (pose \<le> int len) 3 ''out of range'') (\<lambda>_.
      if posi > pose then Inr []
      else if s64 (pose - posi) \<ge> 2147483647 then Inl (LuaError ''string slice too long'')
      else if \<not> room (pose - posi + 1) then Inl (LuaError ''stack overflow (string slice too long)'')
      else codepoint_loop s (nat (posi - 1)) (nat pose) [])))"

definition pushutfchar :: "nat \<Rightarrow> int \<Rightarrow> lua_error + byte list" where
  "pushutfchar arg code =
     res_bind (luaL_argcheck (0 \<le> code \<and> code \<le> MAXUNICODE) arg ''value out of range'') (\<lambda>_.
     Inr (luaO_utf8esc (nat code)))"

fun utfchar_loop :: "nat \<Rightarrow> int list \<Rightarrow> byte list \<Rightarrow> lua_error + byte list" where
  "utfchar_loop i [] b = Inr b"
| "utfchar_loop i (code # codes) b =
     res_bind (pushutfchar i code) (\<lambda>bs. utfchar_loop (i + 1) codes (b @ bs))"

definition utfchar :: "int list \<Rightarrow> lua_error + lval list" where
  "utfchar args =
     (if length args = 1 then res_bind (pushutfchar 1 (hd args)) (\<lambda>bs. Inr [LStr bs])
      else res_bind (utfchar_loop 1 args []) (\<lambda>bs. Inr [LStr bs]))"

text \<open>The searches of \<open>byteoffset\<close>; the last one stops at the terminator, which is no continuation byte.\<close>

primrec back_over :: "byte list \<Rightarrow> nat \<Rightarrow> fault + nat" where
  "back_over s 0 = Inr 0"
| "back_over s (Suc p) = res_bind (rd s (Suc p)) (\<lambda>c. if iscont c then back_over s p else Inr (Suc p))"

function forward_over :: "byte list \<Rightarrow> nat \<Rightarrow> fault + nat" where
  "forward_over s p =
     (if p > length s then Inl OutOfBounds
      else res_bind (rd s p) (\<lambda>c. if iscont c then forward_over s (p + 1) else Inr p))"
  by pat_completeness auto
termination by (relation "measure (\<lambda>(s, p). length s + 1 - p)") auto

declare forward_over.simps [simp del]

primrec move_back :: "byte list \<Rightarrow> nat \<Rightarrow> nat \<Rightarrow> fault + nat \<times> nat" where
  "move_back s 0 p = Inr (0, p)"
| "move_back s (Suc n) p =
     (if p > 0 then res_bind (back_over s (p - 1)) (\<lambda>p'. move_back s n p') else Inr (Suc n, p))"

primrec move_forward :: "byte list \<Rightarrow> nat \<Rightarrow> nat \<Rightarrow> fault + nat \<times> nat" where
  "move_forward s 0 p = Inr (0, p)"
| "move_forward s (Suc n) p =
     (if p < length s then res_bind (forward_over s (p + 1)) (\<lambda>p'. move_forward s n p') else Inr (Suc n, p))"

definition byteoffset :: "byte list \<Rightarrow> int \<Rightarrow> int option \<Rightarrow> lua_error + lval list" where
  "byteoffset s n i =
     (let len = length s;
          posi = u_posrelat (case i of None \<Rightarrow> if n \<ge> 0 then 1 else s64 (int len + 1) | Some i \<Rightarrow> i) len in
      res_bind (luaL_argcheck (1 \<le> posi \<and> posi - 1 \<le> int len) 3 ''position out of range'') (\<lambda>_.
      let p = nat (posi - 1) in
      res_bind
        (if n = 0 then res_bind (of_fault (back_over s p)) (\<lambda>p. Inr (0, p))
         else res_bind (of_fault (rd s p)) (\<lambda>c.
           if iscont c then Inl (LuaError ''initial position is a continuation byte'')
           else if n < 0 then of_fault (move_back s (nat (- n)) p)
           else of_fault (move_forward s (nat (n - 1)) p)))
        (\<lambda>(n', p). Inr (if n' = 0 then [LInt (int p + 1)] else [LNil]))))"

definition iter_aux :: "byte list \<Rightarrow> int \<Rightarrow> lua_error + lval list" where
  "iter_aux s k =
     (let len = length s; n = s64 (k - 1) in
      res_bind
        (if n < 0 then Inr 0
         else if n < int len then of_fault (forward_over s (nat n + 1))
         else Inr (nat n))
        (\<lambda>n. if n \<ge> len then Inr []
              else (case utf8_decode s n of
                      Inl f \<Rightarrow> Inl (Fault f)
                    | Inr None \<Rightarrow> Inl (LuaError ''invalid UTF-8 code'')
                    | Inr (Some (code, next)) \<Rightarrow>
                        res_bind (of_fault (rd s next)) (\<lambda>c.
                        if iscont c then Inl (LuaError ''invalid UTF-8 code'')
                        else Inr [LInt (int n + 1), LInt code]))))"

end
