(* ===== verification/LuaUtf8Spec.thy ===== *)
theory LuaUtf8Spec
  imports LuaUtf8
begin

text \<open>
  The decoder of \<open>lutf8lib.c\<close> and the encoder of \<open>lobject.c\<close> are inverse to each other: what is encoded is
  decoded wherever it stands, and nothing but the encoding of a code point is decoded. On these
  rest the laws of the library functions.
\<close>

section \<open>The encoder and the decoder are inverse\<close>

definition utf8_bytes :: "int \<Rightarrow> int list" where
  "utf8_bytes x =
     (if x < 128 then [x]
      else if x < 2048 then [192 + x div 64, 128 + x mod 64]
      else if x < 65536 then [224 + x div 4096, 128 + x div 64 mod 64, 128 + x mod 64]
      else [240 + x div 262144, 128 + x div 4096 mod 64, 128 + x div 64 mod 64, 128 + x mod 64])"

lemma cont_byte: "128 OR y AND 63 = 128 + y mod (64 :: int)"
proof -
  have "128 OR y AND 63 = 2 * 2 ^ 6 OR (y mod 64)" by (simp add: and_mask_6)
  also have "\<dots> = 2 * 2 ^ 6 + y mod 64" by (rule or_shifted) auto
  finally show ?thesis by simp
qed

lemma lead_byte:
  "0 \<le> y \<Longrightarrow> y < 32 \<Longrightarrow> (word_of_int (- 64 OR y) :: byte) = word_of_int (192 + y)"
  "0 \<le> y \<Longrightarrow> y < 16 \<Longrightarrow> (word_of_int (- 32 OR y) :: byte) = word_of_int (224 + y)"
  "0 \<le> y \<Longrightarrow> y < 8 \<Longrightarrow> (word_of_int (- 16 OR y) :: byte) = word_of_int (240 + y)"
proof -
  have w: "(word_of_int (y - 256) :: byte) = word_of_int y" for y
    by (simp add: word_of_int_eq_iff take_bit_eq_mod)
  have "- 64 OR y = - 64 + y" if "0 \<le> y" "y < 32" using or_shifted(1) [of y 6 "- 1"] that by simp
  then show "0 \<le> y \<Longrightarrow> y < 32 \<Longrightarrow> (word_of_int (- 64 OR y) :: byte) = word_of_int (192 + y)"
    using w [of "192 + y"] by (simp only:) simp
  have "- 32 OR y = - 32 + y" if "0 \<le> y" "y < 16" using or_shifted(1) [of y 5 "- 1"] that by simp
  then show "0 \<le> y \<Longrightarrow> y < 16 \<Longrightarrow> (word_of_int (- 32 OR y) :: byte) = word_of_int (224 + y)"
    using w [of "224 + y"] by (simp only:) simp
  have "- 16 OR y = - 16 + y" if "0 \<le> y" "y < 8" using or_shifted(1) [of y 4 "- 1"] that by simp
  then show "0 \<le> y \<Longrightarrow> y < 8 \<Longrightarrow> (word_of_int (- 16 OR y) :: byte) = word_of_int (240 + y)"
    using w [of "240 + y"] by (simp only:) simp
qed

lemma utf8esc_bytes:
  assumes "x < 2097152"
  shows "luaO_utf8esc x = map word_of_int (utf8_bytes (int x))"
proof -
  have d: "x div 64 div 64 = x div 4096" "x div 64 div 64 div 64 = x div 262144"
    "x div 4096 div 64 = x div 262144"
    by (simp_all add: div_mult2_eq [symmetric])
  consider "x < 128" | "128 \<le> x" "x < 2048" | "2048 \<le> x" "x < 65536" | "65536 \<le> x" by linarith
  then show ?thesis
  proof cases
    case 1
    then show ?thesis by (simp add: luaO_utf8esc_def utf8_bytes_def)
  next
    case 2
    then have "x div 64 < 32" "\<not> 31 < x div 64" by (simp_all add: div_less_iff_less_mult)
    with 2 show ?thesis
      by (subst luaO_utf8esc_def, subst esc_loop.simps)
        (simp add: Let_def utf8_bytes_def cont_byte lead_byte zdiv_int zmod_int push_bit_eq_mult not_int_def)
  next
    case 3
    then have "31 < x div 64" "x div 4096 < 16" by (simp_all add: div_less_iff_less_mult less_eq_div_iff_mult_less_eq Suc_le_eq [symmetric])
    with 3 show ?thesis
      by (subst luaO_utf8esc_def, subst esc_loop.simps, subst esc_loop.simps)
        (simp add: Let_def utf8_bytes_def cont_byte lead_byte zdiv_int zmod_int push_bit_eq_mult not_int_def d)
  next
    case 4
    with assms have "31 < x div 64" "15 < x div 4096" "x div 262144 < 8"
      by (simp_all add: div_less_iff_less_mult less_eq_div_iff_mult_less_eq Suc_le_eq [symmetric])
    with 4 show ?thesis
      by (subst luaO_utf8esc_def, subst esc_loop.simps, subst esc_loop.simps, subst esc_loop.simps)
        (simp add: Let_def utf8_bytes_def cont_byte lead_byte zdiv_int zmod_int push_bit_eq_mult not_int_def d)
  qed
qed

lemma loop_stop: "c AND 64 = 0 \<Longrightarrow> decode_loop (Suc f) s p c n r = Inr (Some (c, n, r))"
  by simp

lemma loop_go:
  assumes "c AND 64 \<noteq> 0" "rd s (p + (n + 1)) = Inr cc" "0 \<le> c" "c < 65536" "0 \<le> r" "r < 67108864"
  shows "decode_loop (Suc f) s p c n r =
    (if iscont cc then decode_loop f s p (2 * c) (n + 1) (r * 64 + (cc - 128)) else Inr None)"
proof -
  have cc: "0 \<le> cc" "cc \<le> 255" using rd_Inr [OF assms(2)] by auto
  have "u32 (push_bit 1 c) = 2 * c" using assms unfolding push_1 by (simp add: u32_id)
  moreover have "u32 (push_bit 6 r) OR (cc AND 63) = r * 64 + (cc - 128)" if "iscont cc"
  proof -
    have "cc AND 63 = cc - 128" using that cc by (simp add: iscont_range and_mask_6) presburger
    moreover have "u32 (push_bit 6 r) = r * 2 ^ 6" using assms(5,6) by (simp add: u32_def push_bit_eq_mult)
    ultimately show ?thesis
      using or_shifted(1) [of "cc - 128" 6 r] that cc by (simp add: iscont_range)
  qed
  ultimately show ?thesis using assms(1,2) by (simp add: iscont_def)
qed

text \<open>The decoder on each class of first bytes.\<close>

lemma decode_1: "rd s p = Inr c \<Longrightarrow> c < 128 \<Longrightarrow> utf8_decode s p = Inr (Some (c, p + 1))"
  by (simp add: utf8_decode_def)

lemma decode_cont:
  assumes "rd s p = Inr c" "128 \<le> c" "c < 192"
  shows "utf8_decode s p = Inr None"
proof -
  have "c AND 64 = 0" using lead_tests(1) [of c] assms by auto
  moreover have "c AND 127 \<le> 127" using and_mask_7 [of c] by simp
  moreover have "u32 (c AND 127) = c AND 127" using and_mask_7 [of c] by (simp add: u32_def)
  ultimately show ?thesis using assms
    by (simp add: utf8_decode_def numeral_eq_Suc limits_def Let_def)
qed

lemma decode_2:
  assumes "rd s p = Inr c" "192 \<le> c" "c < 224" "rd s (p + 1) = Inr c1"
  shows "utf8_decode s p = (if iscont c1 \<and> 127 < (c - 192) * 64 + (c1 - 128)
    then Inr (Some ((c - 192) * 64 + (c1 - 128), p + 2)) else Inr None)"
proof -
  note t = lead_tests [of c]
  have c1: "0 \<le> c1" "c1 \<le> 255" using rd_Inr [OF assms(4)] by auto
  have "decode_loop (Suc 7) s p c 0 0 = (if iscont c1 then decode_loop (Suc 6) s p (2 * c) 1 (c1 - 128) else Inr None)"
    using t assms loop_go [of c s p 0 c1 0 7] by simp
  then have l: "decode_loop 8 s p c 0 0 = (if iscont c1 then Inr (Some (2 * c, 1, c1 - 128)) else Inr None)"
    using t assms by (simp add: numeral_eq_Suc)
  have v: "(c1 - 128) OR u32 (push_bit (1 * 5) (2 * c AND 127)) = (c - 192) * 64 + (c1 - 128)" if "iscont c1"
  proof -
    have "2 * c AND 127 = 2 * (c - 192)" by (rule t(5)) (use assms in simp_all)
    then have "u32 (push_bit (1 * 5) (2 * c AND 127)) = (c - 192) * 2 ^ 6"
      using assms by (simp add: u32_def push_bit_eq_mult)
    moreover have "0 \<le> c1 - 128" "c1 - 128 < 2 ^ 6" using that c1 by (simp_all add: iscont_range)
    ultimately show ?thesis using or_shifted(2) [of "c1 - 128" 6 "c - 192"] by simp
  qed
  show ?thesis
    using assms v by (simp add: utf8_decode_def l Let_def limits_def MAXUNICODE_def iscont_range c1)
qed

lemma decode_3:
  assumes "rd s p = Inr c" "224 \<le> c" "c < 240" "rd s (p + 1) = Inr c1"
  shows "iscont c1 \<Longrightarrow> rd s (p + 2) = Inr c2 \<Longrightarrow> utf8_decode s p =
      (let v = (c - 224) * 4096 + (c1 - 128) * 64 + (c2 - 128) in
       if iscont c2 \<and> 2047 < v then Inr (Some (v, p + 3)) else Inr None)"
    and "\<not> iscont c1 \<Longrightarrow> utf8_decode s p = Inr None"
proof -
  note t = lead_tests [of c]
  have c1: "0 \<le> c1" "c1 \<le> 255" using rd_Inr [OF assms(4)] by auto
  have go: "decode_loop (Suc 7) s p c 0 0 = (if iscont c1 then decode_loop 7 s p (2 * c) 1 (c1 - 128) else Inr None)"
    using t assms loop_go [of c s p 0 c1 0 7] by simp
  then show "\<not> iscont c1 \<Longrightarrow> utf8_decode s p = Inr None"
    using assms by (simp add: utf8_decode_def)
  assume i1: "iscont c1" and r2: "rd s (p + 2) = Inr c2"
  have c2: "0 \<le> c2" "c2 \<le> 255" using rd_Inr [OF r2] by auto
  have "decode_loop (Suc 6) s p (2 * c) 1 (c1 - 128) =
      (if iscont c2 then decode_loop (Suc 5) s p (4 * c) 2 ((c1 - 128) * 64 + (c2 - 128)) else Inr None)"
    using t assms i1 c1 r2 loop_go [of "2 * c" s p 1 c2 "c1 - 128" 6] by (simp add: iscont_range numeral_2_eq_2)
  moreover have "decode_loop (Suc 5) s p (4 * c) 2 r = Inr (Some (4 * c, 2, r))" for r
    by (rule loop_stop) (use t assms in simp)
  ultimately have l: "decode_loop 8 s p c 0 0 =
      (if iscont c2 then Inr (Some (4 * c, 2, (c1 - 128) * 64 + (c2 - 128))) else Inr None)"
    using go i1 by (simp add: numeral_eq_Suc)
  have v: "((c1 - 128) * 64 + (c2 - 128)) OR u32 (push_bit (2 * 5) (4 * c AND 127)) =
      (c - 224) * 4096 + (c1 - 128) * 64 + (c2 - 128)" if "iscont c2"
  proof -
    have "4 * c AND 127 = 4 * (c - 224)" by (rule t(6)) (use assms in simp_all)
    then have "u32 (push_bit (2 * 5) (4 * c AND 127)) = (c - 224) * 2 ^ 12"
      using assms by (simp add: u32_def push_bit_eq_mult)
    moreover have "0 \<le> (c1 - 128) * 64 + (c2 - 128)" "(c1 - 128) * 64 + (c2 - 128) < 2 ^ 12"
      using that i1 c1 c2 by (simp_all add: iscont_range)
    ultimately show ?thesis using or_shifted(2) [of "(c1 - 128) * 64 + (c2 - 128)" 12 "c - 224"] by simp
  qed
  have "iscont c2 \<Longrightarrow> (c - 224) * 4096 + (c1 - 128) * 64 + (c2 - 128) \<le> MAXUNICODE"
    using assms i1 c1 c2 by (simp add: iscont_range MAXUNICODE_def)
  then show "utf8_decode s p =
      (let v = (c - 224) * 4096 + (c1 - 128) * 64 + (c2 - 128) in
       if iscont c2 \<and> 2047 < v then Inr (Some (v, p + 3)) else Inr None)"
    using assms v by (cases "iscont c2") (simp_all add: utf8_decode_def l Let_def limits_def)
qed

lemma decode_4:
  assumes "rd s p = Inr c" "240 \<le> c" "c < 248" "rd s (p + 1) = Inr c1" "iscont c1"
  shows "rd s (p + 2) = Inr c2 \<Longrightarrow> iscont c2 \<Longrightarrow> rd s (p + 3) = Inr c3 \<Longrightarrow> utf8_decode s p =
      (let v = (c - 240) * 262144 + (c1 - 128) * 4096 + (c2 - 128) * 64 + (c3 - 128) in
       if iscont c3 \<and> 65535 < v \<and> v \<le> MAXUNICODE then Inr (Some (v, p + 4)) else Inr None)"
    and "rd s (p + 2) = Inr c2 \<Longrightarrow> \<not> iscont c2 \<Longrightarrow> utf8_decode s p = Inr None"
proof -
  note t = lead_tests [of c]
  have c1: "0 \<le> c1" "c1 \<le> 255" using rd_Inr [OF assms(4)] by auto
  have go: "decode_loop 8 s p c 0 0 = decode_loop 7 s p (2 * c) 1 (c1 - 128)"
    using t assms loop_go [of c s p 0 c1 0 7] by (simp del: decode_loop.simps)
  assume r2: "rd s (p + 2) = Inr c2"
  have c2: "0 \<le> c2" "c2 \<le> 255" using rd_Inr [OF r2] by auto
  have go2: "decode_loop 7 s p (2 * c) 1 (c1 - 128) =
      (if iscont c2 then decode_loop 6 s p (4 * c) 2 ((c1 - 128) * 64 + (c2 - 128)) else Inr None)"
    using t assms c1 r2 loop_go [of "2 * c" s p 1 c2 "c1 - 128" 6]
    by (simp add: iscont_range numeral_2_eq_2 del: decode_loop.simps)
  then show "\<not> iscont c2 \<Longrightarrow> utf8_decode s p = Inr None"
    using assms go by (simp add: utf8_decode_def)
  assume i2: "iscont c2" and r3: "rd s (p + 3) = Inr c3"
  have c3: "0 \<le> c3" "c3 \<le> 255" using rd_Inr [OF r3] by auto
  let ?r = "(c1 - 128) * 64 + (c2 - 128)"
  have rng: "0 \<le> ?r" "?r < 4096" using assms(5) i2 c1 c2 by (simp_all add: iscont_range)
  have "decode_loop (Suc 5) s p (4 * c) 2 ?r =
      (if iscont c3 then decode_loop (Suc 4) s p (8 * c) 3 (?r * 64 + (c3 - 128)) else Inr None)"
    using t assms rng r3 loop_go [of "4 * c" s p 2 c3 ?r 5] by (simp add: eval_nat_numeral del: decode_loop.simps)
  moreover have "decode_loop (Suc 4) s p (8 * c) 3 r = Inr (Some (8 * c, 3, r))" for r
    by (rule loop_stop) (use t assms in simp)
  ultimately have l: "decode_loop 8 s p c 0 0 =
      (if iscont c3 then Inr (Some (8 * c, 3, ?r * 64 + (c3 - 128))) else Inr None)"
    using go go2 i2 by (simp add: numeral_eq_Suc del: decode_loop.simps)
  have v: "(?r * 64 + (c3 - 128)) OR u32 (push_bit (3 * 5) (8 * c AND 127)) =
      (c - 240) * 262144 + (c1 - 128) * 4096 + (c2 - 128) * 64 + (c3 - 128)" if "iscont c3"
  proof -
    have "8 * c AND 127 = 8 * (c - 240)" by (rule t(7)) (use assms in simp_all)
    then have "u32 (push_bit (3 * 5) (8 * c AND 127)) = (c - 240) * 2 ^ 18"
      using assms by (simp add: u32_def push_bit_eq_mult)
    moreover have "0 \<le> ?r * 64 + (c3 - 128)" "?r * 64 + (c3 - 128) < 2 ^ 18"
      using that rng c3 by (simp_all add: iscont_range)
    ultimately show ?thesis using or_shifted(2) [of "?r * 64 + (c3 - 128)" 18 "c - 240"] by simp
  qed
  show "utf8_decode s p =
      (let v = (c - 240) * 262144 + (c1 - 128) * 4096 + (c2 - 128) * 64 + (c3 - 128) in
       if iscont c3 \<and> 65535 < v \<and> v \<le> MAXUNICODE then Inr (Some (v, p + 4)) else Inr None)"
    using assms v by (simp add: utf8_decode_def l Let_def limits_def)
qed

lemma decode_lead:
  assumes "rd s p = Inr c" "192 \<le> c" "rd s (p + 1) = Inr c1" "\<not> iscont c1"
  shows "utf8_decode s p = Inr None"
proof -
  have "c \<le> 255" using rd_Inr [OF assms(1)] by simp
  then have "decode_loop (Suc 7) s p c 0 0 = Inr None"
    using lead_tests [of c] assms loop_go [of c s p 0 c1 0 7] by simp
  with assms show ?thesis by (simp add: utf8_decode_def)
qed

lemma decode_high:
  assumes "rd s p = Inr c" "248 \<le> c" "utf8_decode s p = Inr (Some (v, q))"
  shows False
proof -
  note t = lead_tests [of c]
  have count: "decode_loop f s p c' n r = Inr (Some (c'', m, v)) \<Longrightarrow> n \<le> m" for f c' n r c'' m v
    by (induction f arbitrary: c' n r) (auto simp: res_simps split: if_splits dest!: meta_spec intro: Suc_leD)
  have step: "\<exists>r'. decode_loop f s p (u32 (2 * c')) (n + 1) r' = Inr (Some x)"
    if "decode_loop (Suc f) s p c' n r = Inr (Some x)" "c' AND 64 \<noteq> 0" for f c' n r x
    using that by (auto simp: res_simps push_1 mult.commute split: if_splits)
  have c: "c \<le> 255" using rd_Inr [OF assms(1)] by simp
  have tests: "c AND 64 \<noteq> 0" "(2 * c) AND 64 \<noteq> 0" "(4 * c) AND 64 \<noteq> 0" "(8 * c) AND 64 \<noteq> 0"
    using t c assms(2) by simp_all
  have w: "u32 (2 * c) = 2 * c" "u32 (2 * (2 * c)) = 4 * c" "u32 (2 * (4 * c)) = 8 * c"
    using c assms(2) by (simp_all add: u32_def)
  obtain c' n r where l: "decode_loop 8 s p c 0 0 = Inr (Some (c', n, r))" and n: "n \<le> 3"
  proof -
    obtain r0 where r0: "decode_loop 8 s p c 0 0 = Inr r0"
      using assms by (auto simp: utf8_decode_def res_simps split: if_splits)
    have "r0 \<noteq> None"
    proof
      assume "r0 = None"
      with assms r0 show False by (simp add: utf8_decode_def)
    qed
    then obtain c' n r where "r0 = Some (c', n, r)" by (metis not_Some_eq prod_cases3)
    then show thesis using assms r0 that by (auto simp: utf8_decode_def Let_def split: if_splits)
  qed
  have "(8 :: nat) = Suc (Suc (Suc (Suc 4)))" by simp
  with l have "decode_loop (Suc (Suc (Suc (Suc 4)))) s p c 0 0 = Inr (Some (c', n, r))" by (simp only:)
  from step [OF this tests(1), unfolded w]
  obtain r1 where "decode_loop (Suc (Suc (Suc 4))) s p (2 * c) (0 + 1) r1 = Inr (Some (c', n, r))" by blast
  from step [OF this tests(2), unfolded w]
  obtain r2 where "decode_loop (Suc (Suc 4)) s p (4 * c) (0 + 1 + 1) r2 = Inr (Some (c', n, r))" by blast
  from step [OF this tests(3), unfolded w]
  obtain r3 where "decode_loop (Suc 4) s p (8 * c) (0 + 1 + 1 + 1) r3 = Inr (Some (c', n, r))" by blast
  from step [OF this tests(4)]
  obtain r4 where "decode_loop 4 s p (u32 (2 * (8 * c))) (0 + 1 + 1 + 1 + 1) r4 = Inr (Some (c', n, r))" by blast
  from count [OF this] n show False by simp
qed

lemma dm64: "v = q * 64 + r \<Longrightarrow> 0 \<le> r \<Longrightarrow> r < 64 \<Longrightarrow> v div 64 = q \<and> v mod 64 = (r :: int)"
  by simp

lemma rd_bytes:
  assumes "i < length bs" "\<And>j. j < length bs \<Longrightarrow> 0 \<le> bs ! j \<and> bs ! j \<le> 255"
  shows "rd (s @ map word_of_int bs @ t) (length s + i) = Inr (bs ! i)"
  using assms uint_of_int_byte by (simp add: rd_def nth_append)

lemma decode_bytes_2:
  assumes "0 \<le> a" "a < 32" "0 \<le> b" "b < 64" "127 < a * 64 + b"
  shows "utf8_decode (s @ map word_of_int [192 + a, 128 + b] @ t) (length s) = Inr (Some (a * 64 + b, length s + 2))"
proof -
  let ?b = "[192 + a, 128 + b]"
  have k: "0 \<le> ?b ! j \<and> ?b ! j \<le> 255" if "j < length ?b" for j
    using that assms by (auto simp: less_Suc_eq)
  have r: "rd (s @ map word_of_int ?b @ t) (length s) = Inr (192 + a)"
    "rd (s @ map word_of_int ?b @ t) (length s + 1) = Inr (128 + b)"
    using rd_bytes [of 0 ?b s t, OF _ k] rd_bytes [of 1 ?b s t, OF _ k] by (simp_all del: of_int_add list.map)
  have i: "iscont (128 + b)" using assms by (simp add: iscont_range)
  have "192 \<le> 192 + a" "192 + a < 224" using assms by simp_all
  from decode_2 [OF r(1) this r(2)] i assms show ?thesis by simp
qed

lemma decode_bytes_3:
  assumes "0 \<le> a" "a < 16" "0 \<le> b" "b < 64" "0 \<le> c" "c < 64" "2047 < a * 4096 + b * 64 + c"
  shows "utf8_decode (s @ map word_of_int [224 + a, 128 + b, 128 + c] @ t) (length s) =
    Inr (Some (a * 4096 + b * 64 + c, length s + 3))"
proof -
  let ?b = "[224 + a, 128 + b, 128 + c]"
  have k: "0 \<le> ?b ! j \<and> ?b ! j \<le> 255" if "j < length ?b" for j
    using that assms by (auto simp: less_Suc_eq)
  have r: "rd (s @ map word_of_int ?b @ t) (length s) = Inr (224 + a)"
    "rd (s @ map word_of_int ?b @ t) (length s + 1) = Inr (128 + b)"
    "rd (s @ map word_of_int ?b @ t) (length s + 2) = Inr (128 + c)"
    using rd_bytes [of 0 ?b s t, OF _ k] rd_bytes [of 1 ?b s t, OF _ k] rd_bytes [of 2 ?b s t, OF _ k]
    by (simp_all del: of_int_add list.map)
  have i: "iscont (128 + b)" "iscont (128 + c)" using assms by (simp_all add: iscont_range)
  have "224 \<le> 224 + a" "224 + a < 240" using assms by simp_all
  from decode_3(1) [OF r(1) this r(2) i(1) r(3)] i assms show ?thesis by (simp add: Let_def)
qed

lemma decode_bytes_4:
  assumes "0 \<le> a" "a < 8" "0 \<le> b" "b < 64" "0 \<le> c" "c < 64" "0 \<le> d" "d < 64"
    "65535 < a * 262144 + b * 4096 + c * 64 + d" "a * 262144 + b * 4096 + c * 64 + d \<le> MAXUNICODE"
  shows "utf8_decode (s @ map word_of_int [240 + a, 128 + b, 128 + c, 128 + d] @ t) (length s) =
    Inr (Some (a * 262144 + b * 4096 + c * 64 + d, length s + 4))"
proof -
  let ?b = "[240 + a, 128 + b, 128 + c, 128 + d]"
  have k: "0 \<le> ?b ! j \<and> ?b ! j \<le> 255" if "j < length ?b" for j
    using that assms by (auto simp: less_Suc_eq)
  have r: "rd (s @ map word_of_int ?b @ t) (length s) = Inr (240 + a)"
    "rd (s @ map word_of_int ?b @ t) (length s + 1) = Inr (128 + b)"
    "rd (s @ map word_of_int ?b @ t) (length s + 2) = Inr (128 + c)"
    "rd (s @ map word_of_int ?b @ t) (length s + 3) = Inr (128 + d)"
    using rd_bytes [of 0 ?b s t, OF _ k] rd_bytes [of 1 ?b s t, OF _ k]
      rd_bytes [of 2 ?b s t, OF _ k] rd_bytes [of 3 ?b s t, OF _ k]
    by (simp_all del: of_int_add list.map)
  have i: "iscont (128 + b)" "iscont (128 + c)" "iscont (128 + d)"
    using assms by (simp_all add: iscont_range)
  have "240 \<le> 240 + a" "240 + a < 248" using assms by simp_all
  from decode_4(1) [OF r(1) this r(2) i(1) r(3) i(2) r(4)] i assms show ?thesis by (simp add: Let_def)
qed

lemma utf8_roundtrip:
  assumes "int x \<le> MAXUNICODE"
  shows "utf8_decode (s @ luaO_utf8esc x @ t) (length s) =
    Inr (Some (int x, length s + length (luaO_utf8esc x)))"
proof -
  define v where "v = int x"
  have v: "0 \<le> v" "v \<le> 1114111" using assms by (simp_all add: v_def MAXUNICODE_def)
  have b: "luaO_utf8esc x = map word_of_int (utf8_bytes v)"
    unfolding v_def using assms by (intro utf8esc_bytes) (simp add: MAXUNICODE_def)
  consider "v < 128" | "128 \<le> v" "v < 2048" | "2048 \<le> v" "v < 65536" | "65536 \<le> v" by linarith
  then show ?thesis unfolding b v_def [symmetric]
  proof cases
    case 1
    have "uint (of_int v :: byte) = v" using 1 v uint_of_int_byte [of v] by simp
    with 1 show "utf8_decode (s @ map word_of_int (utf8_bytes v) @ t) (length s) =
        Inr (Some (v, length s + length (map word_of_int (utf8_bytes v))))"
      by (simp add: utf8_bytes_def decode_1 rd_at)
  next
    case 2
    have "v div 64 * 64 + v mod 64 = v" "v div 64 < 32" "0 \<le> v div 64"
      using v 2 by (simp_all add: div_less_iff_less_mult)
    with 2 decode_bytes_2 [of "v div 64" "v mod 64" s t]
    show "utf8_decode (s @ map word_of_int (utf8_bytes v) @ t) (length s) =
        Inr (Some (v, length s + length (map word_of_int (utf8_bytes v))))"
      by (simp add: utf8_bytes_def)
  next
    case 3
    define w where "w = v div 64"
    have "w div 64 < 16" "0 \<le> w div 64" using v 3 unfolding w_def by (simp_all add: div_less_iff_less_mult)
    moreover have "w div 64 * 4096 + w mod 64 * 64 + v mod 64 = v"
      using div_mult_mod_eq [of w 64] div_mult_mod_eq [of v 64] unfolding w_def by linarith
    moreover have "v div 4096 = w div 64" unfolding w_def by (simp add: zdiv_zmult2_eq [symmetric])
    ultimately show "utf8_decode (s @ map word_of_int (utf8_bytes v) @ t) (length s) =
        Inr (Some (v, length s + length (map word_of_int (utf8_bytes v))))"
      using 3 decode_bytes_3 [of "w div 64" "w mod 64" "v mod 64" s t]
      by (simp add: utf8_bytes_def w_def [symmetric])
  next
    case 4
    define w where "w = v div 64"
    define u where "u = w div 64"
    have u: "u div 64 < 8" "0 \<le> u div 64" using v 4 unfolding u_def w_def by (simp_all add: div_less_iff_less_mult)
    have e: "u div 64 * 262144 + u mod 64 * 4096 + w mod 64 * 64 + v mod 64 = v"
      using div_mult_mod_eq [of u 64] div_mult_mod_eq [of w 64] div_mult_mod_eq [of v 64]
      unfolding u_def w_def by linarith
    have "v div 4096 = u" "v div 262144 = u div 64"
      unfolding u_def w_def by (simp_all add: zdiv_zmult2_eq [symmetric])
    with 4 have bytes: "utf8_bytes v = [240 + u div 64, 128 + u mod 64, 128 + w mod 64, 128 + v mod 64]"
      by (simp add: utf8_bytes_def w_def [symmetric])
    have "65535 < v" "v \<le> MAXUNICODE" using 4 v by (simp_all add: MAXUNICODE_def)
    then have "utf8_decode (s @ map word_of_int [240 + u div 64, 128 + u mod 64, 128 + w mod 64, 128 + v mod 64] @ t)
        (length s) = Inr (Some (v, length s + 4))"
      using decode_bytes_4 [of "u div 64" "u mod 64" "w mod 64" "v mod 64" s t] u unfolding e
      by (simp only: pos_mod_sign pos_mod_bound zero_less_numeral)
    then show "utf8_decode (s @ map word_of_int (utf8_bytes v) @ t) (length s) =
        Inr (Some (v, length s + length (map word_of_int (utf8_bytes v))))"
      unfolding bytes by (simp only: length_map) simp
  qed
qed

lemma slice_from_reads:
  assumes "p + n \<le> length s"
  shows "take n (drop p s) = map (\<lambda>i. s ! (p + i)) [0..<n]"
  using assms by (intro nth_equalityI) auto

lemma iscont_read: "rd s i = Inr c \<Longrightarrow> iscont c \<Longrightarrow> i < length s \<and> s ! i = word_of_int c"
  by (auto simp: rd_def iscont_def split: if_splits)

text \<open>
  Only canonical encodings are decoded: bytes the decoder accepts are, byte for byte, what the encoder
  writes for the value it returns, and that value is a code point.
\<close>

lemma utf8_canonical:
  assumes "utf8_decode s p = Inr (Some (v, q))" "p < length s"
  shows "0 \<le> v \<and> v \<le> MAXUNICODE \<and> take (q - p) (drop p s) = luaO_utf8esc (nat v)"
proof -
  define c where "c = uint (s ! p)"
  have c: "rd s p = Inr c" "c \<le> 255" "0 \<le> c" "s ! p = word_of_int c"
    using assms(2) byte_range by (auto simp: c_def rd_def)
  have b: "luaO_utf8esc (nat v) = map word_of_int (utf8_bytes v)" if "0 \<le> v" "v \<le> MAXUNICODE"
    using utf8esc_bytes [of "nat v"] that by (simp add: MAXUNICODE_def)
  obtain c1 where c1: "rd s (p + 1) = Inr c1" using rd_ok [of "p + 1" s] assms(2) by auto
  have k1: "0 \<le> c1" "c1 \<le> 255" using rd_Inr [OF c1] by auto
  consider "c < 128" | "128 \<le> c" "c < 192" | "192 \<le> c" "c < 224" | "224 \<le> c" "c < 240" | "240 \<le> c" "c < 248" | "248 \<le> c"
    by linarith
  then show ?thesis
  proof cases
    case 1
    with assms c decode_1 [of s p c] have "v = c" "q = p + 1" by auto
    with 1 c assms(2) b slice_from_reads [of p 1 s] show ?thesis by (simp add: MAXUNICODE_def utf8_bytes_def)
  next
    case 2
    with assms c decode_cont show ?thesis by auto
  next
    case 3
    with assms c c1 decode_2 have i: "iscont c1" and v: "v = (c - 192) * 64 + (c1 - 128)" "127 < v" and q: "q = p + 2"
      by (auto split: if_splits)
    have r1: "128 \<le> c1" "c1 < 192" using i k1 iscont_range by auto
    have "v div 64 = c - 192" "v mod 64 = c1 - 128" using dm64 [OF v(1)] r1 by simp_all
    moreover have "v < 2048" using v(1) 3 r1 by simp
    moreover have "take 2 (drop p s) = [s ! p, s ! (p + 1)]"
      using slice_from_reads [of p 2 s] iscont_read [OF c1 i] by (simp add: upt_rec less_2_cases_iff)
    ultimately show ?thesis using v(2) b q c iscont_read [OF c1 i]
      by (simp add: MAXUNICODE_def utf8_bytes_def del: of_int_add)
  next
    case 4
    have i: "iscont c1" using assms c c1 4 decode_3(2) by fastforce
    note s1 = iscont_read [OF c1 i]
    obtain c2 where c2: "rd s (p + 2) = Inr c2" using rd_ok [of "p + 2" s] s1 by auto
    have k2: "0 \<le> c2" "c2 \<le> 255" using rd_Inr [OF c2] by auto
    from decode_3(1) [OF c(1) 4 c1 i c2] assms have i2: "iscont c2"
      and v: "v = (c - 224) * 4096 + (c1 - 128) * 64 + (c2 - 128)" "2047 < v" and q: "q = p + 3"
      by (auto simp: Let_def split: if_splits)
    note s2 = iscont_read [OF c2 i2]
    have r: "128 \<le> c1" "c1 < 192" "128 \<le> c2" "c2 < 192" using i i2 k1 k2 iscont_range by auto
    have "v = ((c - 224) * 64 + (c1 - 128)) * 64 + (c2 - 128)" using v(1) by simp
    from dm64 [OF this] have d1: "v div 64 = (c - 224) * 64 + (c1 - 128)" "v mod 64 = c2 - 128" using r by simp_all
    from dm64 [OF d1(1)] have "v div 64 div 64 = c - 224" "v div 64 mod 64 = c1 - 128" using r by simp_all
    moreover have "v div 4096 = v div 64 div 64" by (simp add: zdiv_zmult2_eq [symmetric])
    moreover note d1(2)
    moreover have "v < 65536" using v(1) 4 r by simp
    moreover have "take 3 (drop p s) = [s ! p, s ! (p + 1), s ! (p + 2)]"
      using slice_from_reads [of p 3 s] s2 by (simp add: upt_rec)
    ultimately show ?thesis using v(2) b q c s1 s2
      by (simp add: MAXUNICODE_def utf8_bytes_def del: of_int_add)
  next
    case 5
    have i: "iscont c1" using assms c c1 5 decode_lead by fastforce
    note s1 = iscont_read [OF c1 i]
    obtain c2 where c2: "rd s (p + 2) = Inr c2" using rd_ok [of "p + 2" s] s1 by auto
    have i2: "iscont c2" using assms c c1 5 i c2 decode_4(2) by fastforce
    note s2 = iscont_read [OF c2 i2]
    obtain c3 where c3: "rd s (p + 3) = Inr c3" using rd_ok [of "p + 3" s] s2 by auto
    have k: "0 \<le> c2" "c2 \<le> 255" "0 \<le> c3" "c3 \<le> 255" using rd_Inr [OF c2] rd_Inr [OF c3] by auto
    from decode_4(1) [OF c(1) 5 c1 i c2 i2 c3] assms have i3: "iscont c3"
      and v: "v = (c - 240) * 262144 + (c1 - 128) * 4096 + (c2 - 128) * 64 + (c3 - 128)"
        "65535 < v" "v \<le> MAXUNICODE" and q: "q = p + 4"
      by (auto simp: Let_def split: if_splits)
    note s3 = iscont_read [OF c3 i3]
    have r: "128 \<le> c1" "c1 < 192" "128 \<le> c2" "c2 < 192" "128 \<le> c3" "c3 < 192"
      using i i2 i3 k1 k iscont_range by auto
    have "v = ((c - 240) * 4096 + (c1 - 128) * 64 + (c2 - 128)) * 64 + (c3 - 128)" using v(1) by simp
    from dm64 [OF this] have d1: "v div 64 = ((c - 240) * 64 + (c1 - 128)) * 64 + (c2 - 128)" "v mod 64 = c3 - 128"
      using r by simp_all
    from dm64 [OF d1(1)] have d2: "v div 64 div 64 = (c - 240) * 64 + (c1 - 128)" "v div 64 mod 64 = c2 - 128"
      using r by simp_all
    from dm64 [OF d2(1)] have d3: "v div 64 div 64 div 64 = c - 240" "v div 64 div 64 mod 64 = c1 - 128"
      using r by simp_all
    have e: "v div 4096 = v div 64 div 64" "v div 262144 = v div 64 div 64 div 64"
      by (simp_all add: zdiv_zmult2_eq [symmetric])
    have "\<not> v < 128" "\<not> v < 2048" "\<not> v < 65536" using v(2) by simp_all
    then have bytes: "utf8_bytes v = [240 + (c - 240), 128 + (c1 - 128), 128 + (c2 - 128), 128 + (c3 - 128)]"
      unfolding utf8_bytes_def e d3 d2(2) d1(2) by (simp only: if_False)
    have "take 4 (drop p s) = [s ! p, s ! (p + 1), s ! (p + 2), s ! (p + 3)]"
      using slice_from_reads [of p 4 s] s3 by (simp add: upt_rec numeral_3_eq_3)
    moreover have "0 \<le> v" using v(2) by simp
    ultimately show ?thesis using v(3) b [OF _ v(3)] q c(4) s1 s2 s3 by (simp add: bytes del: of_int_add)
  next
    case 6
    with assms c decode_high show ?thesis by blast
  qed
qed

lemma utf8_canonical_witness:
  "(0 :: int) \<le> 8364 \<and> 8364 \<le> MAXUNICODE \<and> take (3 - 0) (drop 0 [226, 130, 172]) = luaO_utf8esc (nat 8364)"
proof (rule utf8_canonical [where s = "[226, 130, 172]" and p = 0 and q = 3])
  show "utf8_decode [226, 130, 172] 0 = Inr (Some (8364, 3))" by code_simp
qed simp

section \<open>The library functions on well-formed strings\<close>

definition codes_ok :: "int list \<Rightarrow> bool" where
  "codes_ok cs \<longleftrightarrow> list_all (\<lambda>c. 0 \<le> c \<and> c \<le> MAXUNICODE) cs"

definition encode :: "int list \<Rightarrow> byte list" where
  "encode cs = concat (map (\<lambda>c. luaO_utf8esc (nat c)) cs)"

lemma encode_simps [simp]: "encode [] = []" "encode (c # cs) = luaO_utf8esc (nat c) @ encode cs"
  by (simp_all add: encode_def)

lemma codes_ok_simps [simp]: "codes_ok []" "codes_ok (c # cs) \<longleftrightarrow> 0 \<le> c \<and> c \<le> MAXUNICODE \<and> codes_ok cs"
  by (auto simp: codes_ok_def)

lemma esc_nonempty [simp]: "luaO_utf8esc x \<noteq> []"
proof -
  have "esc_loop x m acc \<noteq> []" for x m and acc :: "byte list"
    by (induction x m acc rule: esc_loop.induct) (subst esc_loop.simps, simp add: Let_def)
  then show ?thesis by (simp add: luaO_utf8esc_def)
qed

lemma esc_length: "1 \<le> length (luaO_utf8esc x)"
  using esc_nonempty [of x] by (cases "luaO_utf8esc x") simp_all

lemma decode_encoded:
  assumes "0 \<le> c" "c \<le> MAXUNICODE"
  shows "utf8_decode (pre @ luaO_utf8esc (nat c) @ post) (length pre) =
    Inr (Some (c, length (pre @ luaO_utf8esc (nat c))))"
  using utf8_roundtrip [of "nat c" pre post] assms by simp

lemma utflen_loop_encoded:
  assumes "codes_ok cs" "0 \<le> n" "n + int (length cs) < 2147483648"
  shows "utflen_loop (pre @ encode cs) (length pre) (int (length (pre @ encode cs)) - 1) n =
    Inr [LInt (n + int (length cs))]"
  using assms
proof (induction cs arbitrary: pre n)
  case Nil
  then show ?case by (subst utflen_loop.simps) simp
next
  case (Cons c cs)
  let ?e = "luaO_utf8esc (nat c)"
  have "int (length pre) \<le> int (length (pre @ encode (c # cs))) - 1"
    using esc_length [of "nat c"] by simp
  moreover have "s32 (n + 1) = n + 1" using Cons.prems by (simp add: s32_def)
  ultimately show ?case
    using Cons.prems decode_encoded [of c pre "encode cs"] Cons.IH [of "n + 1" "pre @ ?e"]
    by (subst utflen_loop.simps) (simp add: algebra_simps)
qed

lemma codepoint_loop_encoded:
  assumes "codes_ok cs"
  shows "codepoint_loop (pre @ encode cs) (length pre) (length (pre @ encode cs)) acc = Inr (acc @ map LInt cs)"
  using assms
proof (induction cs arbitrary: pre acc)
  case Nil
  then show ?case by (subst codepoint_loop.simps) simp
next
  case (Cons c cs)
  let ?e = "luaO_utf8esc (nat c)"
  have "0 < length ?e" by simp
  with Cons.prems decode_encoded [of c pre "encode cs"] Cons.IH [of "pre @ ?e" "acc @ [LInt c]"]
  show ?case by (subst codepoint_loop.simps) simp
qed

lemma utfchar_encodes:
  assumes "codes_ok cs"
  shows "utfchar cs = Inr [LStr (encode cs)]"
proof -
  have loop: "codes_ok ds \<Longrightarrow> utfchar_loop i ds b = Inr (b @ encode ds)" for i ds b
    by (induction i ds b rule: utfchar_loop.induct) (simp_all add: pushutfchar_def)
  show ?thesis
  proof (cases "length cs = 1")
    case True
    then obtain c where "cs = [c]" by (cases cs) auto
    with assms show ?thesis by (simp add: utfchar_def pushutfchar_def)
  next
    case False
    with assms loop show ?thesis by (simp add: utfchar_def)
  qed
qed

lemma encode_length: "length cs \<le> length (encode cs)"
proof (induction cs)
  case (Cons c cs)
  with esc_length [of "nat c"] show ?case by simp
qed simp

lemma posrelat_last: "0 < len \<Longrightarrow> len < 9223372036854775807 \<Longrightarrow> u_posrelat (- 1) len = int len"
  by (simp add: u_posrelat_def u64_def s64_def)

text \<open>
  What \<open>utf8.char\<close> builds from any list of code points is taken apart again: \<open>utf8.len\<close> counts them and
  \<open>utf8.codepoint\<close> over the whole string returns them, in order.
\<close>

lemma utf8_library_roundtrip:
  assumes "codes_ok cs" "length (encode cs) < 2147483647" "\<And>n. n < 2147483647 \<Longrightarrow> room n"
  shows "\<exists>s. utfchar cs = Inr [LStr s] \<and> utflen s None None = Inr [LInt (int (length cs))] \<and>
    codepoint room s (Some 1) (Some (- 1)) = Inr (map LInt cs)"
proof (intro exI conjI)
  let ?s = "encode cs"
  show "utfchar cs = Inr [LStr ?s]" using assms(1) by (rule utfchar_encodes)
  have short: "length cs < 2147483647" using encode_length [of cs] assms(2) by linarith
  have one: "u_posrelat 1 n = 1" for n by (simp add: u_posrelat_def)
  show "utflen ?s None None = Inr [LInt (int (length cs))]"
  proof (cases "?s = []")
    case True
    then have "cs = []" using encode_length [of cs] by simp
    with True show ?thesis
      by (simp add: utflen_def one u_posrelat_def u64_def s64_def utflen_loop.simps)
  next
    case False
    then have "u_posrelat (- 1) (length ?s) = int (length ?s)" using assms(2) by (intro posrelat_last) auto
    moreover have "s64 (int (length ?s) - 1) = int (length ?s) - 1"
      using assms(2) by (intro s64_id) (simp add: in_s64_def)
    ultimately show ?thesis
      using utflen_loop_encoded [of cs 0 "[]"] assms(1) short by (simp add: utflen_def one)
  qed
  show "codepoint room ?s (Some 1) (Some (- 1)) = Inr (map LInt cs)"
  proof (cases "?s = []")
    case True
    then have "cs = []" using encode_length [of cs] by simp
    with True show ?thesis by (simp add: codepoint_def one u_posrelat_def u64_def s64_def)
  next
    case False
    then have "u_posrelat (- 1) (length ?s) = int (length ?s)" using assms(2) by (intro posrelat_last) auto
    moreover have "s64 (int (length ?s) - 1) = int (length ?s) - 1"
      using assms(2) by (intro s64_id) (simp add: in_s64_def)
    moreover have "room (int (length ?s))" using assms(2,3) by simp
    ultimately show ?thesis
      using False codepoint_loop_encoded [OF assms(1), of "[]" "[]"] assms(2)
      by (simp add: codepoint_def one Suc_le_eq)
  qed
qed

lemma utf8_library_roundtrip_witness:
  "\<exists>s. utfchar [72, 228, 8364, 128512] = Inr [LStr s] \<and> utflen s None None = Inr [LInt 4] \<and>
    codepoint (\<lambda>n. n < 1000000000000) s (Some 1) (Some (- 1)) = Inr [LInt 72, LInt 228, LInt 8364, LInt 128512]"
proof -
  have "codes_ok [72, 228, 8364, 128512]" by code_simp
  moreover have "length (encode [72, 228, 8364, 128512]) < 2147483647" by (simp add: utf8esc_bytes utf8_bytes_def)
  ultimately show ?thesis
    using utf8_library_roundtrip [of "[72, 228, 8364, 128512]" "\<lambda>n. n < 1000000000000"] by simp
qed

section \<open>No read behind the terminator\<close>

lemma utflen_loop_safe:
  assumes "posj < int (length s)"
  shows "utflen_loop s posi posj n \<noteq> Inl (Fault f)"
  using assms
proof (induction s posi posj n rule: utflen_loop.induct)
  case (1 s posi posj n)
  show ?case
  proof (cases "int posi \<le> posj")
    case False
    then show ?thesis by (simp add: utflen_loop.simps [of s posi])
  next
    case True
    with 1(2) obtain r where r: "utf8_decode s posi = Inr r" using utf8_decode_reads [of posi s] by auto
    show ?thesis
    proof (cases r)
      case None
      with r True show ?thesis by (simp add: utflen_loop.simps [of s posi])
    next
      case (Some x)
      obtain v q where "x = (v, q)" by (cases x)
      with 1 True r Some show ?thesis by (subst utflen_loop.simps) simp
    qed
  qed
qed

lemma codepoint_loop_safe:
  assumes "se \<le> length s"
  shows "codepoint_loop s p se acc \<noteq> Inl (Fault f)"
  using assms
proof (induction s p se acc rule: codepoint_loop.induct)
  case (1 s p se acc)
  show ?case
  proof (cases "p < se")
    case False
    then show ?thesis by (simp add: codepoint_loop.simps [of s p])
  next
    case True
    with 1(2) obtain r where r: "utf8_decode s p = Inr r" using utf8_decode_reads [of p s] by auto
    show ?thesis
    proof (cases r)
      case None
      with r True show ?thesis by (simp add: codepoint_loop.simps [of s p])
    next
      case (Some x)
      obtain v q where "x = (v, q)" by (cases x)
      with 1 True r Some show ?thesis by (subst codepoint_loop.simps) simp
    qed
  qed
qed

lemma back_over_ok: "p \<le> length s \<Longrightarrow> \<exists>q. back_over s p = Inr q \<and> q \<le> p"
proof (induction p)
  case (Suc p)
  then obtain c where "rd s (Suc p) = Inr c" using rd_ok by blast
  with Suc show ?case by (cases "iscont c") (auto intro: le_SucI)
qed simp

lemma forward_over_ok: "p \<le> length s \<Longrightarrow> \<exists>q. forward_over s p = Inr q \<and> p \<le> q \<and> q \<le> length s"
proof (induction s p rule: forward_over.induct)
  case (1 s p)
  then obtain c where c: "rd s p = Inr c" using rd_ok by blast
  show ?case
  proof (cases "iscont c")
    case False
    with c 1(2) show ?thesis by (simp add: forward_over.simps [of s p])
  next
    case True
    then have "p < length s" using iscont_read [OF c] by simp
    with 1 c True obtain q where "forward_over s (p + 1) = Inr q" "p + 1 \<le> q" "q \<le> length s" by auto
    with c True \<open>p < length s\<close> show ?thesis by (simp add: forward_over.simps [of s p])
  qed
qed

lemma move_back_ok: "p \<le> length s \<Longrightarrow> \<exists>r. move_back s n p = Inr r"
proof (induction n arbitrary: p)
  case (Suc n)
  then have "p - 1 \<le> length s" by simp
  from back_over_ok [OF this] obtain q where "back_over s (p - 1) = Inr q" "q \<le> p - 1" by blast
  with Suc show ?case by simp
qed simp

lemma move_forward_ok: "p \<le> length s \<Longrightarrow> \<exists>r. move_forward s n p = Inr r"
proof (induction n arbitrary: p)
  case (Suc n)
  then show ?case using forward_over_ok [of "p + 1" s] by (cases "p < length s") auto
qed simp

lemma iter_aux_safe: "length s < 9223372036854775807 \<Longrightarrow> iter_aux s k \<noteq> Inl (Fault f)"
proof -
  have walk: "n \<le> length s \<Longrightarrow> n < length s \<Longrightarrow>
      (case utf8_decode s n of Inl f \<Rightarrow> Inl (Fault f) | Inr None \<Rightarrow> Inl (LuaError m)
       | Inr (Some (code, next)) \<Rightarrow> res_bind (of_fault (rd s next)) (\<lambda>c.
           if iscont c then Inl (LuaError m) else Inr [LInt (int n + 1), LInt code])) \<noteq> Inl (Fault f)" for n m
  proof -
    assume "n \<le> length s" "n < length s"
    with utf8_decode_reads [of n s] obtain r where r: "utf8_decode s n = Inr r"
      "\<forall>v q. r = Some (v, q) \<longrightarrow> q \<le> length s" by blast
    show ?thesis
    proof (cases r)
      case None
      with r show ?thesis by simp
    next
      case (Some x)
      obtain v q where x: "x = (v, q)" by (cases x)
      with r Some obtain c where "rd s q = Inr c" using rd_ok [of q s] by auto
      with r Some x show ?thesis by simp
    qed
  qed
  show ?thesis
  proof (cases "s64 (k - 1) < 0 \<or> \<not> s64 (k - 1) < int (length s)")
    case True
    then show ?thesis using walk [of 0] by (auto simp: iter_aux_def Let_def not_less)
  next
    case False
    then have "nat (s64 (k - 1)) + 1 \<le> length s" by linarith
    from forward_over_ok [OF this] obtain q where "forward_over s (nat (s64 (k - 1)) + 1) = Inr q" "q \<le> length s" by auto
    with False walk [of q] show ?thesis by (simp add: iter_aux_def Let_def)
  qed
qed

lemma byteoffset_safe: "byteoffset s n i \<noteq> Inl (Fault f)"
proof -
  define posi where "posi = u_posrelat (case i of None \<Rightarrow> if n \<ge> 0 then 1 else s64 (int (length s) + 1) | Some i \<Rightarrow> i) (length s)"
  show ?thesis
  proof (cases "1 \<le> posi \<and> posi - 1 \<le> int (length s)")
    case False
    then show ?thesis unfolding byteoffset_def Let_def posi_def [symmetric] by (simp only: luaL_argcheck_False) simp
  next
    case True
    let ?p = "nat (posi - 1)"
    have p: "?p \<le> length s" using True by linarith
    obtain q where q: "back_over s ?p = Inr q" using back_over_ok [OF p] by blast
    obtain c where c: "rd s ?p = Inr c" using rd_ok [OF p] by blast
    obtain r1 where r1: "move_back s (nat (- n)) ?p = Inr r1" using move_back_ok [OF p] by blast
    obtain r2 where r2: "move_forward s (nat (n - 1)) ?p = Inr r2" using move_forward_ok [OF p] by blast
    show ?thesis unfolding byteoffset_def Let_def posi_def [symmetric]
      using True q c r1 r2 by (auto split: prod.splits)
  qed
qed

text \<open>
  Whatever the subject and the positions, well-formed or not: none of the functions of the UTF-8
  library reads behind the terminator of the subject, and none runs out of the decoder's seven rounds.
\<close>

lemma utf8_library_safe:
  assumes "length s < 9223372036854775807"
  shows "utflen s i j \<noteq> Inl (Fault f) \<and> codepoint room s i j \<noteq> Inl (Fault f) \<and>
    byteoffset s k i \<noteq> Inl (Fault f) \<and> iter_aux s k \<noteq> Inl (Fault f)"
proof (intro conjI)
  show "utflen s i j \<noteq> Inl (Fault f)"
    using utflen_loop_safe by (simp add: utflen_def Let_def luaL_argcheck_def)
  show "codepoint room s i j \<noteq> Inl (Fault f)"
    using codepoint_loop_safe by (simp add: codepoint_def Let_def luaL_argcheck_def)
  show "byteoffset s k i \<noteq> Inl (Fault f)" by (rule byteoffset_safe)
  show "iter_aux s k \<noteq> Inl (Fault f)" using assms by (rule iter_aux_safe)
qed

lemma utf8_library_safe_witness:
  "utflen [255, 191, 191] None None \<noteq> Inl (Fault OutOfBounds) \<and>
    codepoint (\<lambda>_. True) [255, 191, 191] None None \<noteq> Inl (Fault OutOfBounds) \<and>
    byteoffset [255, 191, 191] 2 None \<noteq> Inl (Fault OutOfBounds) \<and> iter_aux [255, 191, 191] 2 \<noteq> Inl (Fault OutOfBounds)"
  by (rule utf8_library_safe) simp

end
