(* ===== verification/SerializeSpec.thy ===== *)
theory SerializeSpec
  imports Serialize
begin

text \<open>
  The laws of the serialization: what is packed is unpacked to the same values, the fuel is always enough, and the
  inputs on which buffer, message or stack are overrun.
\<close>

section \<open>The encoding\<close>

function (sequential) enc :: "sval \<Rightarrow> byte list" and enc_pairs :: "(sval \<times> sval) list \<Rightarrow> byte list" where
  "enc SNil = [0]"
| "enc (SBool b) = [1, if b then 1 else 0]"
| "enc (SInt n) = 2 # s64_bytes n"
| "enc (SDouble n) = 3 # le_bytes 8 n"
| "enc (SStr s) = 4 # s32_bytes (int (length s)) @ s"
| "enc (STable kvs) = 5 # enc_pairs kvs"
| "enc SOther = []"
| "enc_pairs [] = [0]"
| "enc_pairs ((k, v) # kvs) = enc k @ enc v @ enc_pairs kvs"
  by pat_completeness auto
termination
  by (relation "measure (case_sum size (size_list (size_prod size size)))") simp_all

text \<open>
  The values of the round trip: integers and doubles of 64 bits, and tables as Lua has them, whose keys are distinct,
  neither nil nor \<open>NaN\<close> nor an integral float, here no tables themselves, and whose values are not nil.
\<close>

definition key_ok :: "sval \<Rightarrow> bool" where
  "key_ok k \<longleftrightarrow> (case k of SNil \<Rightarrow> False | STable _ \<Rightarrow> False | SOther \<Rightarrow> False
     | SDouble w \<Rightarrow> f2i w = None \<and> \<not> is_nan w | _ \<Rightarrow> True)"

function (sequential) val_ok :: "sval \<Rightarrow> bool" and pairs_ok :: "(sval \<times> sval) list \<Rightarrow> bool" where
  "val_ok SNil = True"
| "val_ok (SBool b) = True"
| "val_ok (SInt n) = in_s64 n"
| "val_ok (SDouble n) = (0 \<le> n \<and> n < 18446744073709551616)"
| "val_ok (SStr s) = True"
| "val_ok (STable kvs) = (distinct (map fst kvs) \<and> pairs_ok kvs)"
| "val_ok SOther = False"
| "pairs_ok [] = True"
| "pairs_ok ((k, v) # kvs) = (key_ok k \<and> val_ok k \<and> v \<noteq> SNil \<and> val_ok v \<and> pairs_ok kvs)"
  by pat_completeness auto
termination
  by (relation "measure (case_sum size (size_list (size_prod size size)))") simp_all

text \<open>The stack slots that unpacking takes.\<close>

function (sequential) slots :: "sval \<Rightarrow> nat" and slots_pairs :: "(sval \<times> sval) list \<Rightarrow> nat" where
  "slots (STable kvs) = 1 + slots_pairs kvs"
| "slots _ = 1"
| "slots_pairs [] = 1"
| "slots_pairs ((k, v) # kvs) = max (1 + slots v) (slots_pairs kvs)"
  by pat_completeness auto
termination
  by (relation "measure (case_sum size (size_list (size_prod size size)))") simp_all

lemma stream_write_Inr: "stream_write x w = Inr w' \<longleftrightarrow> length w + length x \<le> BUFF_SIZE \<and> w' = w @ x"
  by (auto simp: stream_write_def)

lemma stream_writeString_Inr:
  assumes "stream_writeString s w = Inr w'" "length s < 2147483648"
  shows "w' = w @ s32_bytes (int (length s)) @ s"
proof -
  have "s32 (int (length s)) = int (length s)" using assms(2) by (intro s32_nonneg_id) auto
  with assms(1) show ?thesis by (auto simp: stream_writeString_def res_simps stream_write_Inr Let_def split: if_splits)
qed

function (sequential) short :: "sval \<Rightarrow> bool" and short_pairs :: "(sval \<times> sval) list \<Rightarrow> bool" where
  "short (SStr s) = (length s < 2147483648)"
| "short (STable kvs) = short_pairs kvs"
| "short _ = True"
| "short_pairs [] = True"
| "short_pairs ((k, v) # kvs) = (short k \<and> short v \<and> short_pairs kvs)"
  by pat_completeness auto
termination
  by (relation "measure (case_sum size (size_list (size_prod size size)))") simp_all

lemma pack_encodes:
  "pack_one room v w = Inr w' \<Longrightarrow> short v \<Longrightarrow> w' = w @ enc v"
  "pack_table room kvs w = Inr w' \<Longrightarrow> short_pairs kvs \<Longrightarrow> w' = w @ enc_pairs kvs"
proof (induction room v w and room kvs w arbitrary: w' and w' rule: pack_one_pack_table.induct)
  case (5 room s w)
  then show ?case using stream_writeString_Inr by (fastforce simp: pack_string_def res_simps stream_write_Inr)
next
  case (6 room kvs w)
  then show ?case by (fastforce simp: res_simps stream_write_Inr split: if_splits)
next
  case (9 room k v kvs w)
  then show ?case by (fastforce simp: res_simps split: if_splits)
qed (auto simp: pack_nil_def pack_boolean_def pack_integer_def pack_double_def res_simps stream_write_Inr split: if_splits)

section \<open>Unpacking what was packed\<close>

lemma stream_read_append: "length x = n \<Longrightarrow> stream_read n (x @ rest) = Inr (x, rest)"
  by (simp add: stream_read_def)

lemma push_string_enc:
  assumes "length s < 2147483648"
  shows "push_string (s32_bytes (int (length s)) @ s @ rest) = Inr (s, rest)"
proof -
  have "s32 (int (length s)) = int (length s)" using assms by (intro s32_nonneg_id) auto
  then show ?thesis by (simp add: push_string_def stream_read_append)
qed

lemma put_pair_new: "k \<notin> fst ` set kvs \<Longrightarrow> put_pair k v kvs = kvs @ [(k, v)]"
  by (induction k v kvs rule: put_pair.induct) auto

lemma norm_key_ok: "key_ok k \<Longrightarrow> norm_key k = k"
  by (auto simp: key_ok_def norm_key_def split: sval.splits)

lemma rawset_new: "key_ok k \<Longrightarrow> v \<noteq> SNil \<Longrightarrow> k \<notin> fst ` set kvs \<Longrightarrow> rawset k v kvs = Inr (kvs @ [(k, v)])"
  by (auto simp: rawset_def norm_key_ok put_pair_new key_ok_def Let_def split: sval.splits)

lemma slots_pos: "1 \<le> slots v" "1 \<le> slots_pairs kvs"
  by (induction v and kvs rule: slots_slots_pairs.induct) auto

lemma stream_read_1: "stream_read (Suc 0) (t # bs) = Inr ([t], bs)"
  by (simp add: stream_read_def)

lemma le_8_value: "0 \<le> n \<Longrightarrow> n < 18446744073709551616 \<Longrightarrow> le_value (le_bytes 8 n) = n"
  by (simp add: le_value_bytes)

lemma push_enc:
  "val_ok v \<Longrightarrow> short v \<Longrightarrow> slots v \<le> room \<Longrightarrow> 3 * length (enc v) \<le> n \<Longrightarrow>
     push_one n room (enc v @ rest) = Inr (v, rest)"
  "pairs_ok kvs \<Longrightarrow> short_pairs kvs \<Longrightarrow> slots_pairs kvs \<le> room \<Longrightarrow> distinct (map fst (acc @ kvs)) \<Longrightarrow>
     3 * length (enc_pairs kvs) + 1 \<le> n \<Longrightarrow> push_table n room acc (enc_pairs kvs @ rest) = Inr (STable (acc @ kvs), rest)"
proof (induction v and kvs arbitrary: n room rest and n room rest acc rule: enc_enc_pairs.induct)
  case (6 kvs)
  obtain m where n: "n = Suc (Suc m)" "3 * length (enc_pairs kvs) + 1 \<le> m" using 6(5) by (cases n; cases "n - 1") auto
  have "1 \<le> room" "slots_pairs kvs \<le> room - 1" using 6(4) by simp_all
  with 6(1) [of "room - 1" "[]" m rest] 6(2,3) n show ?case by (simp add: stream_read_1)
next
  case 8
  then obtain m where "n = Suc (Suc (Suc m))" by (cases n; cases "n - 1"; cases "n - 2") auto
  with 8 show ?case by (simp add: stream_read_1)
next
  case (9 k v kvs)
  obtain m where n: "n = Suc m" using 9(8) by (cases n) auto
  have ne: "k \<noteq> SNil" "slots k \<le> room" using 9(4,6) slots_pos(1) [of v]
    by (auto simp: key_ok_def split: sval.splits)
  have l: "1 \<le> length (enc k)" "1 \<le> length (enc v)"
    using 9(4) by (cases k; cases v; auto simp: key_ok_def)+
  have "push_one m room (enc k @ enc v @ enc_pairs kvs @ rest) = Inr (k, enc v @ enc_pairs kvs @ rest)"
    using 9 ne n by (intro 9(1)) auto
  moreover have "push_one m (room - 1) (enc v @ enc_pairs kvs @ rest) = Inr (v, enc_pairs kvs @ rest)"
    using 9 n by (intro 9(2)) auto
  moreover have "rawset k v acc = Inr (acc @ [(k, v)])"
    using 9 by (intro rawset_new) auto
  moreover have "push_table m room (acc @ [(k, v)]) (enc_pairs kvs @ rest) = Inr (STable ((acc @ [(k, v)]) @ kvs), rest)"
    using 9 n l by (intro 9(3)) auto
  ultimately show ?case using ne n by simp
next
  case (1 n room rest)
  then obtain m where "n = Suc (Suc m)" by (cases n; cases "n - 1") auto
  with 1 show ?case by (simp add: stream_read_1)
next
  case (2 b n room rest)
  then obtain m where "n = Suc (Suc m)" by (cases n; cases "n - 1") auto
  with 2 show ?case by (simp add: stream_read_1)
next
  case (3 i n room rest)
  then obtain m where "n = Suc (Suc m)" by (cases n; cases "n - 1") auto
  with 3 show ?case by (simp add: stream_read_1 stream_read_append s64_id)
next
  case (4 i n room rest)
  then obtain m where "n = Suc (Suc m)" by (cases n; cases "n - 1") auto
  with 4 show ?case by (simp add: stream_read_1 stream_read_append le_8_value)
next
  case (5 s n room rest)
  then obtain m where "n = Suc (Suc m)" by (cases n; cases "n - 1") auto
  with 5 show ?case by (simp add: stream_read_1 push_string_enc)
qed simp_all

lemma unserialize_enc:
  "list_all val_ok vs \<Longrightarrow> list_all short vs \<Longrightarrow> (\<And>j. j < length vs \<Longrightarrow> j + slots (vs ! j) \<le> room) \<Longrightarrow>
     unserialize_loop i room acc (concat (map enc vs)) = Inr (acc @ vs)"
proof (induction vs arbitrary: i room acc)
  case Nil
  then show ?case by (subst unserialize_loop.simps) simp
next
  case (Cons v vs)
  let ?room = "if i mod 16 = 15 then max room i else room" and ?rest = "concat (map enc vs)"
  have "slots v \<le> room" using Cons.prems(3) [of 0] by simp
  then have "push_one (Suc (3 * length (enc v @ ?rest))) ?room (enc v @ ?rest) = Inr (v, ?rest)"
    using Cons.prems by (intro push_enc(1)) auto
  moreover obtain t bs where e: "enc v = t # bs" using Cons.prems(1) by (cases v) auto
  ultimately have p: "push_value (3 * length (t # bs @ ?rest)) ?room t (bs @ ?rest) = Inr (v, ?rest)"
    by (simp only: e append_Cons push_one.simps) (simp add: stream_read_1 del: push_value.simps)
  have "unserialize_loop (i + 1) (?room - 1) (acc @ [v]) ?rest = Inr ((acc @ [v]) @ vs)"
  proof (rule Cons.IH)
    fix j assume "j < length vs"
    then have "Suc j + slots (vs ! j) \<le> room" using Cons.prems(3) [of "Suc j"] by simp
    then show "j + slots (vs ! j) \<le> ?room - 1" by (cases "i mod 16 = 15") auto
  qed (use Cons.prems in simp_all)
  with p e show ?case by (subst unserialize_loop.simps) (simp add: Let_def)
qed

lemma pack_args_encodes:
  "pack_args vs w = Inr bs \<Longrightarrow> list_all short vs \<Longrightarrow> bs = w @ concat (map enc vs)"
proof (induction vs arbitrary: w)
  case (Cons v vs)
  then obtain w' where w': "pack_one LUA_MINSTACK v w = Inr w'" "pack_args vs w' = Inr bs" by (auto simp: res_simps)
  with Cons.prems pack_encodes(1) [OF w'(1)] Cons.IH [OF w'(2)] show ?case by simp
qed simp

text \<open>
  C39. What \<open>serialize\<close> returns is read back by \<open>unserialize\<close> to the same values in the same order: nil, booleans,
  integers, doubles bit by bit, strings and tables. The number of values and their nesting must fit the stack, which neither side
  extends: with \<open>j\<close> values before it, a value may take 21 - \<open>j\<close> slots at most (\<open>slots\<close>: one, and for
  a table two more than for the largest of its values), which is what Lua guarantees to \<open>unserialize\<close> once the
  message is off the stack; \<open>many_values_overrun_stack\<close> and
  \<open>table_bytes_overrun_stack\<close> show what happens beyond. The tables are such as Lua has (\<open>val_ok\<close>: no nil as a
  value, distinct keys as Lua normalises them, neither nil nor NaN), without tables as keys, which come back as other objects, and
  strings are shorter than \<open>2 ^ 31\<close> bytes.
\<close>

theorem serialize_roundtrip:
  assumes "l_serialize vs = Inr bs" "list_all val_ok vs" "list_all short vs"
    "\<And>j. j < length vs \<Longrightarrow> j + slots (vs ! j) \<le> 21"
  shows "l_unserialize bs = Inr vs"
proof -
  have bs: "bs = concat (map enc vs)" using assms(1,3) pack_args_encodes [of vs "[]"] by (simp add: l_serialize_def)
  show ?thesis
  proof (cases vs)
    case Nil
    with bs show ?thesis by (simp add: l_unserialize_def)
  next
    case (Cons v vs')
    then have "bs \<noteq> []" using bs assms(2) by (cases v) auto
    then show ?thesis
      using unserialize_enc [OF assms(2,3), of 21 0 "[]"] assms(4)
      unfolding bs [symmetric] by (simp add: l_unserialize_def LUA_MINSTACK_def)
  qed
qed

definition seri_example :: "sval list" where
  "seri_example = [SInt (- 5), SStr [104, 105], STable [(SInt 1, SBool True), (SStr [97], STable [])], SNil]"

lemma serialize_roundtrip_witness: "\<exists>bs. l_serialize seri_example = Inr bs \<and> l_unserialize bs = Inr seri_example"
proof -
  have "\<exists>bs. l_serialize seri_example = Inr bs"
    by (simp add: l_serialize_def seri_example_def pack_string_def pack_integer_def pack_boolean_def pack_nil_def
        stream_write_def stream_writeString_def Let_def LUA_MINSTACK_def BUFF_SIZE_def s32_def)
  then obtain bs where bs: "l_serialize seri_example = Inr bs" by blast
  have "l_unserialize bs = Inr seri_example"
  proof (rule serialize_roundtrip [OF bs])
    show "list_all val_ok seri_example" "list_all short seri_example"
      by (simp_all add: seri_example_def key_ok_def in_s64_def)
    show "j + slots (seri_example ! j) \<le> 21" if "j < length seri_example" for j
      using that by (auto simp: seri_example_def less_Suc_eq)
  qed
  with bs show ?thesis by blast
qed

section \<open>Every message is read to an end\<close>

lemma rawset_no_fuel: "rawset k v kvs \<noteq> Inl SeriFuel"
  by (simp add: rawset_def Let_def)

lemma push_string_no_fuel: "push_string bs \<noteq> Inl SeriFuel"
  by (auto simp: push_string_def stream_read_def Let_def res_simps)

lemma push_no_fuel:
  "3 * length bs + 1 \<le> n \<Longrightarrow> push_one n room bs \<noteq> Inl SeriFuel"
  "3 * length bs + 3 \<le> n \<Longrightarrow> push_value n room t bs \<noteq> Inl SeriFuel"
  "3 * length bs + 2 \<le> n \<Longrightarrow> push_table n room kvs bs \<noteq> Inl SeriFuel"
proof (induction n room bs and n room t bs and n room kvs bs rule: push_one_push_value_push_table.induct)
  case (2 n room bs)
  show ?case
  proof (cases bs)
    case Nil
    then show ?thesis by (simp add: stream_read_def)
  next
    case (Cons t rest)
    with 2(1) [of "[t]" rest] 2(1) [of rest "[t]"] 2(2) show ?thesis by (simp add: stream_read_1)
  qed
next
  case (4 n room t bs)
  then show ?case using push_string_no_fuel [of bs] by (auto simp: res_simps stream_read_def split: if_splits)
next
  case (6 n room kvs bs)
  show ?case
  proof (cases "push_one n room bs")
    case (Inl f)
    with 6(1,4) show ?thesis by auto
  next
    case (Inr x)
    then obtain k rest where x: "push_one n room bs = Inr (k, rest)" by (cases x) simp
    from push_shrinks(1) [OF x] have s: "length rest < length bs" .
    show ?thesis
    proof (cases "k = SNil")
      case True
      with x show ?thesis by simp
    next
      case False
      show ?thesis
      proof (cases "push_one n (room - 1) rest")
        case (Inl f)
        with 6(2) [OF False, of rest] 6(4) x False s show ?thesis by auto
      next
        case (Inr y)
        then obtain v rest' where y: "push_one n (room - 1) rest = Inr (v, rest')" by (cases y) simp
        from push_shrinks(1) [OF y] s have "3 * length rest' + 2 \<le> n" using 6(4) by simp
        with 6(3) x False y rawset_no_fuel [of k v kvs] show ?thesis by (cases "rawset k v kvs") auto
      qed
    qed
  qed
qed simp_all

lemma unserialize_loop_no_fuel: "unserialize_loop i room acc bs \<noteq> Inl SeriFuel"
proof (induction i room acc bs rule: unserialize_loop.induct)
  case (1 i room acc bs)
  show ?case
  proof (cases bs)
    case Nil
    then show ?thesis by (subst unserialize_loop.simps) simp
  next
    case (Cons t rest)
    let ?room = "if i mod 16 = 15 then max room i else room"
    show ?thesis
    proof (cases "push_value (3 * length bs) ?room t rest")
      case (Inl f)
      with push_no_fuel(2) [of rest "3 * length bs" ?room t] Cons show ?thesis
        by (subst unserialize_loop.simps) (auto simp: Let_def)
    next
      case (Inr x)
      with 1 [OF refl Cons Inr] Cons show ?thesis
        by (subst unserialize_loop.simps) (cases x, simp add: Let_def)
    qed
  qed
qed

text \<open>
  Reading ends on every byte string, however it was made: three steps per byte are enough for the nested tables,
  so \<open>unserialize\<close> always gives values or one of the faults that the code has.
\<close>

lemma unserialize_terminates: "l_unserialize bs \<noteq> Inl SeriFuel"
  using unserialize_loop_no_fuel by (simp add: l_unserialize_def)

section \<open>Overruns\<close>

text \<open>
  A string argument is copied into the buffer of 2048 bytes without a check of its length: with more than 2043 bytes
  the copy writes behind the buffer, although every other value that does not fit is refused.
\<close>

lemma long_string_overruns_buffer:
  assumes "length s < 2147483648"
  shows "l_serialize [SStr s] = Inl BufferOverrun \<longleftrightarrow> 2043 < length s"
proof -
  have "s32 (int (length s)) = int (length s)" using assms by (intro s32_nonneg_id) auto
  then show ?thesis
    by (auto simp: l_serialize_def pack_string_def stream_write_def stream_writeString_def BUFF_SIZE_def Let_def)
qed

lemma long_string_overruns_buffer_witness: "l_serialize [SStr (replicate 3000 65)] = Inl BufferOverrun"
  using long_string_overruns_buffer [of "replicate 3000 65"] by simp

text \<open>
  A message of five bytes that announces a longer string makes \<open>unserialize\<close> read behind the message.
\<close>

lemma forged_length_overruns_message:
  assumes "1 < len" "len < 2147483648"
  shows "l_unserialize (4 # s32_bytes len) = Inl ReadOverrun"
proof -
  have l: "s32 len = len" using assms by (intro s32_nonneg_id) auto
  have "push_string (s32_bytes len) = Inl ReadOverrun"
    using stream_read_append [of "s32_bytes len" 4 "[]"] assms l by (simp add: push_string_def)
  moreover have "push_value (3 * length (4 # s32_bytes len)) 21 4 (s32_bytes len) =
      push_value (Suc 14) 21 4 (s32_bytes len)" by simp
  ultimately have "push_value (3 * length (4 # s32_bytes len)) 21 4 (s32_bytes len) = Inl ReadOverrun"
    by (simp only: push_value.simps) simp
  then show ?thesis
    by (simp add: l_unserialize_def LUA_MINSTACK_def unserialize_loop.simps [of 0] Let_def del: push_value.simps)
qed

lemma forged_length_overruns_message_witness: "l_unserialize (4 # s32_bytes 100) = Inl ReadOverrun"
  by (rule forged_length_overruns_message) simp_all

text \<open>Tables nested in tables: packing takes two stack slots a level and never asks for more.\<close>

primrec nested :: "nat \<Rightarrow> sval" where
  "nested 0 = SNil"
| "nested (Suc n) = STable [(SInt 1, nested n)]"

lemma deep_table_overruns_stack: "l_serialize [nested 11] = Inl StackOverrun" "\<exists>bs. l_serialize [nested 10] = Inr bs"
  by (simp_all add: l_serialize_def eval_nat_numeral pack_nil_def pack_integer_def stream_write_def BUFF_SIZE_def LUA_MINSTACK_def)

lemma table_bytes_overrun_stack: "l_unserialize (replicate 22 5) = Inl StackOverrun"
  by code_simp

lemma many_values_overrun_stack: "l_unserialize (replicate 31 0) = Inl StackOverrun"
  by code_simp

end
