(* ===== verification/Discovery.thy ===== *)
theory Discovery
  imports Harbor "HOL-Library.Multiset"
begin

text \<open>
  How the nodes of a cluster find each other: the master's listener (\<open>src/src/logic/master/Master.cpp\<close>) announces
  every node that opens to all the others and these to it, and a cluster node (\<open>src/src/logic/cluster/Cluster.cpp\<close>)
  connects to the nodes announced to it. Bodies of the messages are \<open>node_proto::NewNode\<close>.
\<close>

abbreviation (input) NEW_NODE :: int where "NEW_NODE \<equiv> 1"

record NewNode =
  nn_nodeType :: int
  nn_nodeId :: int
  nn_ip :: string
  nn_port :: int

definition NewNode_size :: int where "NewNode_size = 76"

text \<open>The object on the wire: behind the terminator of \<open>ip\<close> the array holds what the stack held, \<open>junk\<close>.\<close>

definition chars_bytes :: "string \<Rightarrow> byte list" where
  "chars_bytes s = List.map (\<lambda>c. of_nat (of_char c)) s"

definition NewNode_bytes :: "byte list \<Rightarrow> NewNode \<Rightarrow> byte list" where
  "NewNode_bytes junk n =
     s32_bytes (nn_nodeType n) @ s32_bytes (nn_nodeId n) @
     take MAX_IP_SIZE (chars_bytes (nn_ip n) @ 0 # junk) @ s32_bytes (nn_port n)"

definition read_NewNode :: "byte list \<Rightarrow> fault + NewNode" where
  "read_NewNode bs =
     res_bind (read_s32 bs 0) (\<lambda>t.
     res_bind (read_s32 bs 4) (\<lambda>i.
     res_bind (read_s32 bs 72) (\<lambda>p.
     let ip = takeWhile (\<lambda>b. b \<noteq> 0) (drop 8 bs) in
     if 8 + length ip < length bs
     then Inr \<lparr>nn_nodeType = t, nn_nodeId = i, nn_ip = List.map (\<lambda>b. char_of (unat b)) ip, nn_port = p\<rparr>
     else Inl OutOfBounds)))"

text \<open>The key of a node: \<open>((s64)nodeType << 32) | ((s64)nodeId)\<close>.\<close>

definition node_key :: "int \<Rightarrow> int \<Rightarrow> int" where
  "node_key nodeType nodeId = s64 (push_bit 32 nodeType) OR nodeId"

section \<open>The master\<close>

text \<open>
  \<open>s_nodes\<close> by key. The order in which the unordered map is gone through is the argument \<open>order\<close>, any
  rearrangement of the entries. The assertion on a node that opens again with another address is compiled under \<open>_DEBUG\<close>,
  which \<open>CMakeLists.txt\<close> defines in every build.
\<close>

definition Master_SendNewNode :: "int \<Rightarrow> int \<Rightarrow> int \<Rightarrow> int \<Rightarrow> string \<Rightarrow> int \<Rightarrow> fault + (int \<times> int) \<times> NewNode" where
  "Master_SendNewNode nodeType nodeId newNodeType newNodeId ip port =
     res_bind (SafeSprintf MAX_IP_SIZE ip) (\<lambda>ip'.
     Inr ((nodeType, nodeId), \<lparr>nn_nodeType = newNodeType, nn_nodeId = newNodeId, nn_ip = ip', nn_port = port\<rparr>))"

text \<open>What \<open>SendNewNode\<close> hands to the harbor for such a message.\<close>

definition NewNode_actions :: "byte list \<Rightarrow> (int \<times> int) \<times> NewNode \<Rightarrow> harbor \<Rightarrow> harbor_action list" where
  "NewNode_actions junk m h =
     (case m of ((t, i), n) \<Rightarrow>
        snd (Harbor_PrepareSend t i NEW_NODE NewNode_size h) @ snd (Harbor_Send t i (NewNode_bytes junk n) h))"

type_synonym node_table = "(int \<times> NewNode) list"

fun announce :: "int \<Rightarrow> int \<Rightarrow> int \<Rightarrow> string \<Rightarrow> int \<Rightarrow> node_table \<Rightarrow> fault + ((int \<times> int) \<times> NewNode) list" where
  "announce check nodeType nodeId ip port [] = Inr []"
| "announce check nodeType nodeId ip port ((k, n) # rest) =
     (if k \<noteq> check then
        res_bind (Master_SendNewNode (nn_nodeType n) (nn_nodeId n) nodeType nodeId ip port) (\<lambda>m1.
        res_bind (Master_SendNewNode nodeType nodeId (nn_nodeType n) (nn_nodeId n) (nn_ip n) (nn_port n)) (\<lambda>m2.
        res_bind (announce check nodeType nodeId ip port rest) (\<lambda>ms. Inr (m1 # m2 # ms))))
      else announce check nodeType nodeId ip port rest)"

definition Master_OnOpen ::
    "(node_table \<Rightarrow> node_table) \<Rightarrow> int \<Rightarrow> int \<Rightarrow> bool \<Rightarrow> string \<Rightarrow> int \<Rightarrow> node_table
     \<Rightarrow> fault + node_table \<times> ((int \<times> int) \<times> NewNode) list" where
  "Master_OnOpen order nodeType nodeId hide ip port nodes =
     (if hide then Inr (nodes, [])
      else (let check = node_key nodeType nodeId in
            res_bind (oassert (case map_of nodes check of None \<Rightarrow> True | Some n \<Rightarrow> ip = nn_ip n \<and> port = nn_port n) ''wtf'') (\<lambda>_.
            res_bind (SafeSprintf MAX_IP_SIZE ip) (\<lambda>ip'.
            let nodes' = AList.update check
                  \<lparr>nn_nodeType = nodeType, nn_nodeId = nodeId, nn_ip = ip', nn_port = port\<rparr> nodes in
            res_bind (announce check nodeType nodeId ip port (order nodes')) (\<lambda>ms. Inr (nodes', ms))))))"

text \<open>\<open>OnClose\<close> does nothing: a node that is gone stays in the table.\<close>

definition Master_OnClose :: "int \<Rightarrow> int \<Rightarrow> node_table \<Rightarrow> node_table" where
  "Master_OnClose nodeType nodeId nodes = nodes"

section \<open>A cluster node\<close>

text \<open>\<open>s_openNode\<close> is the set of the keys connected to; \<open>s\<close> is the session object that \<open>Connect\<close> creates.\<close>

definition NewNodeComming ::
    "nat \<Rightarrow> byte list \<Rightarrow> int \<Rightarrow> int set \<Rightarrow> harbor \<Rightarrow> fault + int set \<times> harbor \<times> harbor_action list" where
  "NewNodeComming s context len openNode h =
     res_bind (oassert (len = NewNode_size) ''invalid node size'') (\<lambda>_.
     res_bind (read_NewNode context) (\<lambda>info.
     res_bind (oassert (nn_port info > 0) ''where is harbor port'') (\<lambda>_.
     let check = node_key (nn_nodeType info) (nn_nodeId info) in
     if check \<in> openNode then Inr (openNode, h, [])
     else if nn_nodeType info = hb_nodeType h \<and> nn_nodeId info \<le> hb_nodeId h then Inr (openNode, h, [])
     else res_bind (Harbor_Connect s (nn_ip info) (nn_port info) h) (\<lambda>(h', acts).
          Inr (insert check openNode, h', acts)))))"

section \<open>Keys\<close>

lemma node_key_inj:
  assumes "in_s32 t" "in_s32 t'" "0 \<le> i" "in_s32 i" "0 \<le> i'" "in_s32 i'" "node_key t i = node_key t' i'"
  shows "t = t' \<and> i = i'"
proof -
  have k: "node_key u j = u * 2 ^ 32 + j" if "in_s32 u" "0 \<le> j" "in_s32 j" for u j
  proof -
    have "s64 (push_bit 32 u) = u * 2 ^ 32"
      using that by (simp add: push_bit_eq_mult) (intro s64_id, simp add: in_s32_def in_s64_def)
    then show ?thesis using or_shifted(1) [of j 32 u] that by (simp add: node_key_def in_s32_def)
  qed
  have e: "t * 2 ^ 32 + i = t' * 2 ^ 32 + i'" using assms k by metis
  have "i mod 2 ^ 32 = i" "i' mod 2 ^ 32 = i'" using assms by (simp_all add: in_s32_def)
  moreover have "(t * 2 ^ 32 + i) mod 2 ^ 32 = i mod 2 ^ 32" "(t' * 2 ^ 32 + i') mod 2 ^ 32 = i' mod 2 ^ 32" by simp_all
  ultimately have "i = i'" using e by metis
  with e show ?thesis by simp
qed

text \<open>A negative id fills the upper half, so that nodes of different types share a key.\<close>

lemma node_key_negative: "node_key 1 (- 1) = node_key 2 (- 1)"
  by (simp add: node_key_def)

text \<open>As \<open>OnClose\<close> leaves the table alone, a node that comes back at another address ends the master.\<close>

lemma moved_node_aborts_master:
  assumes "map_of nodes (node_key nodeType nodeId) = Some n" "nn_ip n \<noteq> ip \<or> nn_port n \<noteq> port"
  shows "Master_OnOpen order nodeType nodeId False ip port (Master_OnClose nodeType nodeId nodes) = Inl (AssertFail ''wtf'')"
  using assms by (auto simp: Master_OnOpen_def Master_OnClose_def oassert_def)

section \<open>The message is read back\<close>

definition ip_ok :: "string \<Rightarrow> bool" where
  "ip_ok ip \<longleftrightarrow> length ip < MAX_IP_SIZE \<and> list_all (\<lambda>c. c \<noteq> CHR 0x00 \<and> c \<noteq> CHR ''%'') ip"

lemma format_plain: "list_all (\<lambda>c. c \<noteq> CHR 0x00 \<and> c \<noteq> CHR ''%'') s \<Longrightarrow> format_text s = Some s"
  by (induction s) simp_all

lemma SafeSprintf_ip [simp]: "ip_ok ip \<Longrightarrow> SafeSprintf MAX_IP_SIZE ip = Inr ip"
  by (simp add: SafeSprintf_def ip_ok_def format_plain)

definition node_ok :: "NewNode \<Rightarrow> bool" where
  "node_ok n \<longleftrightarrow> in_s32 (nn_nodeType n) \<and> 0 \<le> nn_nodeId n \<and> in_s32 (nn_nodeId n) \<and>
     0 < nn_port n \<and> in_s32 (nn_port n) \<and> ip_ok (nn_ip n)"

lemma unat_char: "unat (of_nat (of_char c) :: byte) = of_char c"
proof -
  have "(of_char c :: nat) < 256" by simp
  then show ?thesis by (simp add: unat_of_nat)
qed

lemma char_nonzero: "c \<noteq> CHR 0x00 \<Longrightarrow> (of_nat (of_char c) :: byte) \<noteq> 0"
proof
  assume c: "c \<noteq> CHR 0x00" and z: "(of_nat (of_char c) :: byte) = 0"
  have "(of_char c :: nat) = of_char (CHR 0x00)" using unat_char [of c] by (simp add: z)
  with c show False by (simp only: of_char_eq_iff)
qed

lemma read_NewNode_bytes:
  assumes "node_ok n" "length junk = 63"
  shows "read_NewNode (NewNode_bytes junk n) = Inr n"
proof -
  let ?ip = "chars_bytes (nn_ip n)" and ?k = "length (nn_ip n)"
  have k: "?k < 64" and chars: "list_all (\<lambda>c. c \<noteq> CHR 0x00 \<and> c \<noteq> CHR ''%'') (nn_ip n)"
    using assms(1) by (simp_all add: node_ok_def ip_ok_def)
  have len: "length ?ip = ?k" by (simp add: chars_bytes_def)
  define tail where "tail = take (63 - ?k) junk"
  have field: "take MAX_IP_SIZE (?ip @ 0 # junk) = ?ip @ 0 # tail"
    using k len by (simp add: tail_def take_Cons')
  have tl: "length tail = 63 - ?k" using assms(2) by (simp add: tail_def)
  let ?bs = "NewNode_bytes junk n"
  have bs: "?bs = s32_bytes (nn_nodeType n) @ s32_bytes (nn_nodeId n) @ (?ip @ 0 # tail) @ s32_bytes (nn_port n)"
    by (simp only: NewNode_bytes_def field)
  have "read_s32 ?bs 0 = Inr (nn_nodeType n)" "read_s32 ?bs 4 = Inr (nn_nodeId n)"
    unfolding bs using read_s32_at(1) [of "[]" 0] read_s32_at(1) [of "s32_bytes (nn_nodeType n)" 4] assms(1)
    by (simp_all add: node_ok_def s32_id)
  moreover have "read_s32 ?bs 72 = Inr (nn_port n)"
    using read_s32_at(2) [of "s32_bytes (nn_nodeType n) @ s32_bytes (nn_nodeId n) @ ?ip @ 0 # tail" 72 "nn_port n"]
      assms(1) k len tl unfolding bs by (simp add: node_ok_def s32_id)
  moreover have "drop 8 ?bs = ?ip @ 0 # tail @ s32_bytes (nn_port n)" unfolding bs by simp
  moreover have "takeWhile (\<lambda>b. b \<noteq> 0) (?ip @ 0 # tail @ s32_bytes (nn_port n)) = ?ip"
    using chars char_nonzero by (subst takeWhile_append2) (auto simp: chars_bytes_def list_all_iff)
  moreover have "List.map (\<lambda>b. char_of (unat b)) ?ip = nn_ip n"
    by (simp add: chars_bytes_def unat_char comp_def)
  moreover have "length ?bs = 76" unfolding bs using k len tl by simp
  ultimately show ?thesis using k len by (simp add: read_NewNode_def Let_def)
qed

section \<open>The master's announcements\<close>

abbreviation (input) addr :: "NewNode \<Rightarrow> int \<times> int" where
  "addr n \<equiv> (nn_nodeType n, nn_nodeId n)"

definition key_of :: "NewNode \<Rightarrow> int" where
  "key_of n = node_key (nn_nodeType n) (nn_nodeId n)"

definition order_ok :: "(node_table \<Rightarrow> node_table) \<Rightarrow> bool" where
  "order_ok order \<longleftrightarrow> (\<forall>xs. mset (order xs) = mset xs)"

fun master_run :: "(node_table \<Rightarrow> node_table) \<Rightarrow> NewNode list \<Rightarrow> node_table \<Rightarrow>
    fault + node_table \<times> ((int \<times> int) \<times> NewNode) list" where
  "master_run order [] nodes = Inr (nodes, [])"
| "master_run order (n # ns) nodes =
     res_bind (Master_OnOpen order (nn_nodeType n) (nn_nodeId n) False (nn_ip n) (nn_port n) nodes) (\<lambda>(nodes, ms).
     res_bind (master_run order ns nodes) (\<lambda>(nodes, ms'). Inr (nodes, ms @ ms')))"

lemma announce_result:
  assumes "\<forall>(k, m) \<in> set tbl. ip_ok (nn_ip m)" "ip_ok (nn_ip n)"
  shows "announce check (nn_nodeType n) (nn_nodeId n) (nn_ip n) (nn_port n) tbl =
    Inr (concat (List.map (\<lambda>(k, m). if k \<noteq> check then [(addr m, n), (addr n, m)] else []) tbl))"
  using assms by (induction tbl) (auto simp: Master_SendNewNode_def)

definition table_of :: "NewNode list \<Rightarrow> node_table" where
  "table_of ns = List.map (\<lambda>n. (key_of n, n)) ns"

lemma update_new: "k \<notin> fst ` set al \<Longrightarrow> AList.update k v al = al @ [(k, v)]"
  by (induction al) auto

definition announced :: "NewNode list \<Rightarrow> NewNode \<Rightarrow> ((int \<times> int) \<times> NewNode) multiset" where
  "announced old n = (\<Sum>m\<in>#mset old. {#(addr m, n), (addr n, m)#})"

lemma mset_concat_map: "mset (concat (List.map f xs)) = (\<Sum>x\<in>#mset xs. mset (f x))"
  by (induction xs) simp_all

lemma OnOpen_new:
  assumes "order_ok order" "list_all node_ok (n # old)" "distinct (List.map key_of (n # old))"
  shows "\<exists>ms. Master_OnOpen order (nn_nodeType n) (nn_nodeId n) False (nn_ip n) (nn_port n) (table_of old) =
    Inr (table_of (old @ [n]), ms) \<and> mset ms = announced old n"
proof -
  let ?t = "order (table_of (old @ [n]))"
  let ?f = "\<lambda>(k, m). if k \<noteq> key_of n then [(addr m, n), (addr n, m)] else []"
  have ip: "ip_ok (nn_ip n)" using assms(2) by (simp add: node_ok_def)
  have new: "key_of n \<notin> fst ` set (table_of old)" using assms(3) by (auto simp: table_of_def)
  have t: "mset ?t = mset (table_of (old @ [n]))" using assms(1) by (simp add: order_ok_def)
  then have "set ?t = set (table_of (old @ [n]))" by (rule mset_eq_setD)
  then have ips: "\<forall>(k, m) \<in> set ?t. ip_ok (nn_ip m)"
    using assms(2) by (auto simp: table_of_def node_ok_def list_all_iff)
  have "announce (key_of n) (nn_nodeType n) (nn_nodeId n) (nn_ip n) (nn_port n) ?t = Inr (concat (List.map ?f ?t))"
    by (rule announce_result [OF ips ip])
  moreover have "mset (concat (List.map ?f ?t)) = announced old n"
  proof -
    have "mset (concat (List.map ?f ?t)) = (\<Sum>x\<in>#mset (table_of (old @ [n])). mset (?f x))"
      unfolding mset_concat_map t ..
    also have "\<dots> = (\<Sum>x\<in>#mset (table_of old). mset (?f x))" by (simp add: table_of_def)
    also have "\<dots> = (\<Sum>m\<in>#mset old. mset (?f (key_of m, m)))"
      by (simp add: table_of_def image_mset.compositionality comp_def)
    also have "\<dots> = announced old n"
    proof -
      have "key_of m \<noteq> key_of n" if "m \<in> set old" for m using assms(3) that by (metis distinct.simps(2) image_eqI list.map(2) set_map)
      then show ?thesis unfolding announced_def
        by (intro arg_cong [of _ _ sum_mset] image_mset_cong) simp
    qed
    finally show ?thesis .
  qed
  moreover have "AList.update (key_of n) n (table_of old) = table_of (old @ [n])"
    using update_new [OF new] by (simp add: table_of_def)
  moreover have "\<lparr>nn_nodeType = nn_nodeType n, nn_nodeId = nn_nodeId n, nn_ip = nn_ip n, nn_port = nn_port n\<rparr> = n"
    by (cases n) simp
  moreover have "map_of (table_of old) (key_of n) = None" using new by (simp add: map_of_eq_None_iff)
  ultimately show ?thesis
    unfolding Master_OnOpen_def Let_def key_of_def using ip by (simp only: SafeSprintf_ip res_bind_Inr) simp
qed

primrec announced_all :: "NewNode list \<Rightarrow> NewNode list \<Rightarrow> ((int \<times> int) \<times> NewNode) multiset" where
  "announced_all old [] = {#}"
| "announced_all old (n # ns) = announced old n + announced_all (old @ [n]) ns"

lemma master_run_announces:
  assumes "order_ok order" "list_all node_ok (old @ ns)" "distinct (List.map key_of (old @ ns))"
  shows "\<exists>ms. master_run order ns (table_of old) = Inr (table_of (old @ ns), ms) \<and> mset ms = announced_all old ns"
  using assms(2,3)
proof (induction ns arbitrary: old)
  case Nil
  then show ?case by simp
next
  case (Cons n ns)
  have "list_all node_ok (n # old)" "distinct (List.map key_of (n # old))" using Cons.prems by auto
  from OnOpen_new [OF assms(1) this] obtain ms where
    "Master_OnOpen order (nn_nodeType n) (nn_nodeId n) False (nn_ip n) (nn_port n) (table_of old) =
      Inr (table_of (old @ [n]), ms)" "mset ms = announced old n" by blast
  moreover obtain ms' where "master_run order ns (table_of (old @ [n])) = Inr (table_of (old @ n # ns), ms')"
    "mset ms' = announced_all (old @ [n]) ns" using Cons.IH [of "old @ [n]"] Cons.prems by auto
  ultimately show ?case by simp
qed

text \<open>What is announced to a node that opened earlier, to the new one, and to all in the end.\<close>

definition told :: "((int \<times> int) \<times> NewNode) multiset \<Rightarrow> NewNode \<Rightarrow> NewNode multiset" where
  "told M a = image_mset snd (filter_mset (\<lambda>m. fst m = addr a) M)"

lemma told_plus: "told (M + N) a = told M a + told N a"
  by (simp add: told_def)

lemma told_announced_new:
  assumes "\<forall>m\<in>set old. addr m \<noteq> addr n"
  shows "told (announced old n) n = mset old"
  using assms by (induction old) (auto simp: announced_def told_def)

lemma told_announced_other:
  assumes "addr a \<noteq> addr n" "distinct (List.map addr old)"
  shows "told (announced old n) a = (if \<exists>m\<in>set old. addr m = addr a then {#n#} else {#})"
  using assms by (induction old) (auto simp: announced_def told_def)

lemma told_all:
  assumes "distinct (List.map addr (old @ ns))" "a \<in> set (old @ ns)"
  shows "told (announced_all old ns) a = (if a \<in> set old then mset ns else mset (remove1 a (old @ ns)))"
  using assms
proof (induction ns arbitrary: old)
  case Nil
  then show ?case by (simp add: told_def)
next
  case (Cons n ns)
  have IH: "told (announced_all (old @ [n]) ns) a =
      (if a \<in> set (old @ [n]) then mset ns else mset (remove1 a ((old @ [n]) @ ns)))"
    using Cons.prems by (intro Cons.IH) auto
  have inj: "m \<in> set (old @ n # ns) \<Longrightarrow> m' \<in> set (old @ n # ns) \<Longrightarrow> addr m = addr m' \<Longrightarrow> m = m'" for m m'
    using Cons.prems(1) unfolding distinct_map by (blast dest: inj_onD)
  show ?case
  proof (cases "a = n")
    case True
    have "n \<notin> set old" using Cons.prems(1) by auto
    moreover from this have "\<forall>m\<in>set old. addr m \<noteq> addr n" using inj [of _ n] by auto
    ultimately show ?thesis using True IH told_announced_new [of old n]
      by (simp add: told_plus remove1_append)
  next
    case False
    then have ne: "addr a \<noteq> addr n" using inj [of a n] Cons.prems(2) by auto
    have d: "distinct (List.map addr old)" using Cons.prems(1) by simp
    have e: "(\<exists>m\<in>set old. addr m = addr a) \<longleftrightarrow> a \<in> set old"
    proof
      assume "\<exists>m\<in>set old. addr m = addr a"
      then obtain m where m: "m \<in> set old" "addr m = addr a" by blast
      then have "m = a" using Cons.prems(2) by (intro inj) auto
      with m(1) show "a \<in> set old" by simp
    qed blast
    have "told (announced old n) a = (if a \<in> set old then {#n#} else {#})"
      unfolding told_announced_other [OF ne d] e ..
    with False IH show ?thesis by (simp add: told_plus)
  qed
qed

section \<open>The connections of a node\<close>

text \<open>The messages to a node, as \<open>NewNodeComming\<close> gets them one after the other; sessions are numbered as they are made.\<close>

fun cluster_run :: "nat \<Rightarrow> byte list list \<Rightarrow> int set \<Rightarrow> harbor \<Rightarrow> fault + int set \<times> harbor \<times> harbor_action list" where
  "cluster_run s [] openNode h = Inr (openNode, h, [])"
| "cluster_run s (m # ms) openNode h =
     res_bind (NewNodeComming s m (int (length m)) openNode h) (\<lambda>(openNode, h, acts).
     res_bind (cluster_run (s + 1) ms openNode h) (\<lambda>(openNode, h, acts'). Inr (openNode, h, acts @ acts')))"

definition connects :: "harbor_action list \<Rightarrow> (string \<times> int) list" where
  "connects acts = concat (List.map (\<lambda>a. case a of KernelConnect ip port _ _ _ \<Rightarrow> [(ip, port)] | _ \<Rightarrow> []) acts)"

lemma connects_simps [simp]: "connects [] = []" "connects (xs @ ys) = connects xs @ connects ys"
  "connects (KernelConnect ip port x y z # xs) = (ip, port) # connects xs"
  by (simp_all add: connects_def)

definition wants :: "harbor \<Rightarrow> NewNode \<Rightarrow> bool" where
  "wants h n \<longleftrightarrow> \<not> (nn_nodeType n = hb_nodeType h \<and> nn_nodeId n \<le> hb_nodeId h)"

lemma length_NewNode_bytes: "length junk = 63 \<Longrightarrow> length (NewNode_bytes junk n) = 76"
  by (simp add: NewNode_bytes_def)

lemma cluster_run_connects:
  assumes "list_all node_ok ns" "distinct (List.map key_of ns)" "\<forall>n\<in>set ns. key_of n \<notin> openNode"
    "length junk = 63"
  shows "\<exists>h' acts. cluster_run s (List.map (NewNode_bytes junk) ns) openNode h =
      Inr (openNode \<union> key_of ` set (filter (wants h) ns), h', acts) \<and>
    connects acts = List.map (\<lambda>n. (nn_ip n, nn_port n)) (filter (wants h) ns)"
  using assms(1-3)
proof (induction ns arbitrary: s openNode h)
  case Nil
  then show ?case by simp
next
  case (Cons n ns)
  have ok: "node_ok n" using Cons.prems by simp
  then have ip: "ip_ok (nn_ip n)" and port: "0 < nn_port n" by (simp_all add: node_ok_def)
  note rd = read_NewNode_bytes [OF ok assms(4)]
  have key: "node_key (nn_nodeType n) (nn_nodeId n) \<notin> openNode" using Cons.prems(3) by (simp add: key_of_def)
  show ?case
  proof (cases "wants h n")
    case False
    then have "NewNodeComming s (NewNode_bytes junk n) (int (length (NewNode_bytes junk n))) openNode h = Inr (openNode, h, [])"
      using rd port key length_NewNode_bytes [OF assms(4), of n]
      by (auto simp: NewNodeComming_def NewNode_size_def Let_def wants_def)
    moreover obtain h' acts where "cluster_run (s + 1) (List.map (NewNode_bytes junk) ns) openNode h =
        Inr (openNode \<union> key_of ` set (filter (wants h) ns), h', acts)"
      "connects acts = List.map (\<lambda>n. (nn_ip n, nn_port n)) (filter (wants h) ns)"
      using Cons.IH [of openNode "s + 1" h] Cons.prems by auto
    ultimately show ?thesis using False by simp
  next
    case True
    obtain h1 acts1 where c: "Harbor_Connect s (nn_ip n) (nn_port n) h = Inr (h1, acts1)"
      "acts1 = [KernelConnect (nn_ip n) (nn_port n) (hb_sendBuffSize h) (hb_recvBuffSize h) s]"
      "hb_nodeType h1 = hb_nodeType h" "hb_nodeId h1 = hb_nodeId h"
      using ip by (simp add: Harbor_Connect_def SetConnect_def set_session_of_def)
    have w: "wants h1 = wants h" by (simp add: wants_def fun_eq_iff c(3,4))
    have "NewNodeComming s (NewNode_bytes junk n) (int (length (NewNode_bytes junk n))) openNode h =
        Inr (insert (key_of n) openNode, h1, acts1)"
      using rd port key True c(1) length_NewNode_bytes [OF assms(4), of n]
      by (auto simp: NewNodeComming_def NewNode_size_def Let_def wants_def key_of_def)
    moreover obtain h' acts where "cluster_run (s + 1) (List.map (NewNode_bytes junk) ns) (insert (key_of n) openNode) h1 =
        Inr (insert (key_of n) openNode \<union> key_of ` set (filter (wants h1) ns), h', acts)"
      "connects acts = List.map (\<lambda>n. (nn_ip n, nn_port n)) (filter (wants h1) ns)"
    proof -
      have "\<forall>m\<in>set ns. key_of m \<noteq> key_of n" using Cons.prems(2) by (metis distinct.simps(2) image_eqI list.map(2) set_map)
      then show thesis
        using that Cons.IH [of "insert (key_of n) openNode" "s + 1" h1] Cons.prems by auto
    qed
    ultimately show ?thesis using True c(2) w by simp
  qed
qed

definition messages_to :: "byte list \<Rightarrow> NewNode \<Rightarrow> ((int \<times> int) \<times> NewNode) list \<Rightarrow> byte list list" where
  "messages_to junk a ms = List.map (NewNode_bytes junk) (List.map snd (filter (\<lambda>m. fst m = addr a) ms))"

lemma distinct_addr: "distinct (List.map key_of ns) \<Longrightarrow> distinct (List.map addr ns)"
  by (induction ns) (auto simp: key_of_def)

text \<open>
  C37. Whatever the order in which nodes open at the master and in which its table is gone through, every node connects to
  exactly the announced others it has to: all of another type and those of its own type with a larger id, each once.
  So two nodes of one type are connected by exactly one of them (and two of different types by both).
\<close>

theorem discovery_connects:
  assumes "order_ok order" "list_all node_ok ns" "distinct (List.map key_of ns)" "a \<in> set ns"
    and "hb_nodeType h = nn_nodeType a" "hb_nodeId h = nn_nodeId a" "length junk = 63"
  shows "\<exists>tbl ms h' acts bs. master_run order ns [] = Inr (tbl, ms) \<and>
    cluster_run s (messages_to junk a ms) {} h = Inr (key_of ` set bs, h', acts) \<and>
    connects acts = List.map (\<lambda>b. (nn_ip b, nn_port b)) bs \<and> distinct bs \<and>
    set bs = {b \<in> set ns. nn_nodeType b \<noteq> nn_nodeType a \<or> nn_nodeId a < nn_nodeId b}"
proof -
  have "table_of [] = []" by (simp add: table_of_def)
  with master_run_announces [OF assms(1), of "[]" ns] assms(2,3) obtain ms where
    run: "master_run order ns [] = Inr (table_of ns, ms)" and ms: "mset ms = announced_all [] ns" by auto
  define heard where "heard = List.map snd (filter (\<lambda>m. fst m = addr a) ms)"
  have "mset heard = told (mset ms) a" by (simp add: heard_def told_def mset_filter)
  also have "\<dots> = mset (remove1 a ns)"
    using told_all [of "[]" ns a] distinct_addr [OF assms(3)] assms(4) by (simp add: ms)
  finally have heard: "mset heard = mset (remove1 a ns)" .
  then have hs: "set heard = set (remove1 a ns)" by (rule mset_eq_setD)
  have dn: "distinct ns" using assms(3) by (simp add: distinct_map)
  have dk: "distinct (List.map key_of heard)"
  proof -
    have "mset (List.map key_of heard) = mset (List.map key_of (remove1 a ns))" using heard by simp
    moreover have "distinct (List.map key_of (remove1 a ns))"
      using assms(3) by (meson distinct_map distinct_remove1 inj_on_subset set_remove1_subset)
    ultimately show ?thesis using mset_eq_imp_distinct_iff by blast
  qed
  have "list_all node_ok heard" using assms(2) hs by (metis list_all_iff notin_set_remove1)
  from cluster_run_connects [OF this dk, of "{}" junk s h] assms(7) obtain h' acts where
    "cluster_run s (messages_to junk a ms) {} h = Inr (key_of ` set (filter (wants h) heard), h', acts)"
    "connects acts = List.map (\<lambda>b. (nn_ip b, nn_port b)) (filter (wants h) heard)"
    by (auto simp: messages_to_def heard_def)
  moreover have "distinct (filter (wants h) heard)" using dk by (simp add: distinct_map)
  moreover have "set (filter (wants h) heard) = {b \<in> set ns. nn_nodeType b \<noteq> nn_nodeType a \<or> nn_nodeId a < nn_nodeId b}"
    using dn by (auto simp: hs wants_def assms(5,6))
  ultimately show ?thesis using run by blast
qed

definition three_nodes :: "NewNode list" where
  "three_nodes =
     [\<lparr>nn_nodeType = 2, nn_nodeId = 1, nn_ip = ''10.0.0.1'', nn_port = 7001\<rparr>,
      \<lparr>nn_nodeType = 2, nn_nodeId = 2, nn_ip = ''10.0.0.2'', nn_port = 7002\<rparr>,
      \<lparr>nn_nodeType = 3, nn_nodeId = 1, nn_ip = ''10.0.0.3'', nn_port = 7003\<rparr>]"

definition second_harbor :: harbor where
  "second_harbor = \<lparr>hb_sendBuffSize = 0, hb_recvBuffSize = 0, hb_reconnectTick = 0, hb_nodeType = 2, hb_nodeId = 2,
     hb_port = 7002, hb_hide = False, hb_nodes = (\<lambda>_. []), hb_listeners = [], hb_handlers = (\<lambda>_ _. None),
     hb_reconnects = [], hb_sessions = Map.empty\<rparr>"

lemma discovery_connects_witness:
  "\<exists>tbl ms h' acts bs. master_run rev three_nodes [] = Inr (tbl, ms) \<and>
    cluster_run 0 (messages_to (replicate 63 0) (three_nodes ! 1) ms) {} second_harbor = Inr (key_of ` set bs, h', acts) \<and>
    connects acts = List.map (\<lambda>b. (nn_ip b, nn_port b)) bs \<and> distinct bs \<and>
    set bs = {b \<in> set three_nodes. nn_nodeType b \<noteq> nn_nodeType (three_nodes ! 1) \<or> nn_nodeId (three_nodes ! 1) < nn_nodeId b}"
proof (rule discovery_connects)
  show "order_ok rev" by (simp add: order_ok_def)
  show "list_all node_ok three_nodes" by (simp add: three_nodes_def node_ok_def ip_ok_def in_s32_def)
  show "distinct (List.map key_of three_nodes)"
    by (simp add: three_nodes_def key_of_def node_key_def push_bit_eq_mult s64_def)
  show "three_nodes ! 1 \<in> set three_nodes" by (simp add: three_nodes_def)
  show "hb_nodeType second_harbor = nn_nodeType (three_nodes ! 1)" "hb_nodeId second_harbor = nn_nodeId (three_nodes ! 1)"
    by (simp_all add: second_harbor_def three_nodes_def)
qed simp

end
