(* ===== verification/LuaZio.thy ===== *)
theory LuaZio
  imports LuaApi
begin

text \<open>
  Buffered input of the embedded Lua (\<open>src/src/logic/scriptengine/lua/lzio.c\<close>): a reader function, which is not part of the
  interpreter, delivers the input in pieces. Reading does not depend on where one piece ends and the next begins.
\<close>

section \<open>Streams\<close>

text \<open>The unread bytes of the current piece, and what the reader will return: no bytes, or no piece, is the end.\<close>

record ZIO =
  z_buf :: "byte list"
  z_pieces :: "byte list list"

definition luaZ_init :: "byte list list \<Rightarrow> ZIO" where
  "luaZ_init pieces = \<lparr>z_buf = [], z_pieces = pieces\<rparr>"

definition luaZ_fill :: "ZIO \<Rightarrow> byte option \<times> ZIO" where
  "luaZ_fill z =
     (case z_pieces z of
        [] \<Rightarrow> (None, z)
      | [] # ps \<Rightarrow> (None, z\<lparr>z_pieces := ps\<rparr>)
      | (b # bs) # ps \<Rightarrow> (Some b, \<lparr>z_buf = bs, z_pieces = ps\<rparr>))"

text \<open>At the end of the input the count of \<open>zgetc\<close> underflows; no code reads the stream after that.\<close>

definition zgetc :: "ZIO \<Rightarrow> byte option \<times> ZIO" where
  "zgetc z = (case z_buf z of b # bs \<Rightarrow> (Some b, z\<lparr>z_buf := bs\<rparr>) | [] \<Rightarrow> luaZ_fill z)"

text \<open>\<open>luaZ_read\<close> returns the number of missing bytes, and here also the bytes it copied.\<close>

definition put_back :: "byte \<Rightarrow> ZIO \<Rightarrow> ZIO" where
  "put_back b z = z\<lparr>z_buf := b # z_buf z\<rparr>"

definition refill :: "ZIO \<Rightarrow> bool \<times> ZIO" where
  "refill z =
     (if z_buf z = [] then (case luaZ_fill z of (None, z) \<Rightarrow> (False, z) | (Some b, z) \<Rightarrow> (True, put_back b z))
      else (True, z))"

lemma refill_nonempty: "refill z = (True, z') \<Longrightarrow> z_buf z' \<noteq> []"
  by (auto simp: refill_def put_back_def split: if_splits option.splits prod.splits)

function luaZ_read :: "nat \<Rightarrow> ZIO \<Rightarrow> nat \<times> byte list \<times> ZIO" where
  "luaZ_read n z =
     (if n = 0 then (0, [], z)
      else case refill z of
        (False, z) \<Rightarrow> (n, [], z)
      | (True, z) \<Rightarrow>
          let m = (if n \<le> length (z_buf z) then n else length (z_buf z));
              (missing, bs, z') = luaZ_read (n - m) (z\<lparr>z_buf := drop m (z_buf z)\<rparr>) in
          (missing, take m (z_buf z) @ bs, z'))"
  by pat_completeness auto
termination
  by (relation "measure fst") (auto dest!: refill_nonempty [OF sym])

declare luaZ_read.simps [simp del]

section \<open>What is in a stream\<close>

text \<open>The bytes a stream still delivers, and all that its pieces hold.\<close>

definition stream :: "ZIO \<Rightarrow> byte list" where
  "stream z = z_buf z @ concat (takeWhile (\<lambda>p. p \<noteq> []) (z_pieces z))"

definition left :: "ZIO \<Rightarrow> nat" where
  "left z = length (z_buf z) + length (concat (z_pieces z))"

lemma stream_init: "stream (luaZ_init pieces) = concat (takeWhile (\<lambda>p. p \<noteq> []) pieces)"
  by (simp add: stream_def luaZ_init_def)

lemma fill_Some:
  assumes "z_buf z = []" "luaZ_fill z = (Some b, z')"
  shows "stream z = b # stream z'" "left z = Suc (left z')"
  using assms by (auto simp: luaZ_fill_def stream_def left_def split: list.splits)

lemma fill_None:
  assumes "z_buf z = []" "luaZ_fill z = (None, z')"
  shows "stream z = []" "left z' = left z"
  using assms by (auto simp: luaZ_fill_def stream_def left_def split: list.splits)

lemma put_back [simp]: "stream (put_back b z) = b # stream z" "left (put_back b z) = Suc (left z)" "z_buf (put_back b z) \<noteq> []"
  by (simp_all add: stream_def left_def put_back_def)

lemma zgetc_stream:
  assumes "stream z = b # bs"
  shows "\<exists>z'. zgetc z = (Some b, z') \<and> stream z' = bs \<and> left z = Suc (left z')"
proof (cases "z_buf z")
  case Nil
  obtain c z' where c: "luaZ_fill z = (c, z')" by (cases "luaZ_fill z")
  then obtain a where "c = Some a" using fill_None [OF Nil] assms by (cases c) auto
  then show ?thesis using fill_Some [OF Nil] c assms Nil by (simp add: zgetc_def)
next
  case (Cons a as)
  then show ?thesis using assms by (simp add: zgetc_def stream_def left_def)
qed

lemma zgetc_end:
  assumes "stream z = []"
  shows "fst (zgetc z) = None"
proof -
  have b: "z_buf z = []" using assms by (simp add: stream_def)
  obtain c z' where c: "luaZ_fill z = (c, z')" by (cases "luaZ_fill z")
  then show ?thesis using fill_Some [OF b] assms b by (cases c) (auto simp: zgetc_def)
qed

lemma refill_True: "refill z = (True, z') \<Longrightarrow> stream z' = stream z \<and> left z' = left z"
  using fill_Some [of z] by (cases "luaZ_fill z"; cases "fst (luaZ_fill z)") (auto simp: refill_def split: if_splits)

lemma refill_False: "refill z = (False, z') \<Longrightarrow> stream z = [] \<and> left z' = left z"
  using fill_None [of z] by (cases "luaZ_fill z"; cases "fst (luaZ_fill z)") (auto simp: refill_def split: if_splits)

text \<open>One round of the loop.\<close>

definition portion :: "nat \<Rightarrow> ZIO \<Rightarrow> nat" where
  "portion n z = (if n \<le> length (z_buf z) then n else length (z_buf z))"

definition advance :: "nat \<Rightarrow> ZIO \<Rightarrow> ZIO" where
  "advance n z = z\<lparr>z_buf := drop (portion n z) (z_buf z)\<rparr>"

lemma read_0: "luaZ_read 0 z = (0, [], z)"
  by (simp add: luaZ_read.simps)

lemma read_end: "n \<noteq> 0 \<Longrightarrow> refill z = (False, z') \<Longrightarrow> luaZ_read n z = (n, [], z')"
  by (simp add: luaZ_read.simps [of n z])

lemma read_more:
  "n \<noteq> 0 \<Longrightarrow> refill z = (True, z1) \<Longrightarrow>
    luaZ_read n z = (case luaZ_read (n - portion n z1) (advance n z1) of
      (k, bs, z') \<Rightarrow> (k, take (portion n z1) (z_buf z1) @ bs, z'))"
  by (simp add: luaZ_read.simps [of n z] portion_def advance_def Let_def)

lemma advance: "stream z = take (portion n z) (z_buf z) @ stream (advance n z)" "left z = portion n z + left (advance n z)"
  "portion n z \<le> n" "portion n z \<le> length (z_buf z)"
  by (auto simp: stream_def left_def advance_def portion_def)

lemma read_induct [case_names zero eof more]:
  assumes "\<And>z. P 0 z" "\<And>n z z'. n \<noteq> 0 \<Longrightarrow> refill z = (False, z') \<Longrightarrow> P n z"
    and "\<And>n z z1. n \<noteq> 0 \<Longrightarrow> refill z = (True, z1) \<Longrightarrow> P (n - portion n z1) (advance n z1) \<Longrightarrow> P n z"
  shows "P n z"
proof (induction n arbitrary: z rule: less_induct)
  case (less n)
  obtain b z1 where r: "refill z = (b, z1)" by (cases "refill z")
  consider "n = 0" | "n \<noteq> 0" "b = False" | "n \<noteq> 0" "b = True" by blast
  then show ?case
  proof cases
    case 3
    then have "n - portion n z1 < n" using refill_nonempty [of z z1] r by (auto simp: portion_def)
    then have "P (n - portion n z1) (advance n z1)" by (rule less)
    then show ?thesis using assms(3) [of n z z1] 3 r by simp
  qed (use assms(1) assms(2) [of n z z1] r in simp_all)
qed

text \<open>The first bytes of the stream, however it is cut; fewer only at its end.\<close>

lemma read_all:
  "n \<le> length (stream z) \<Longrightarrow> \<exists>z'. luaZ_read n z = (0, take n (stream z), z') \<and> stream z' = drop n (stream z)"
proof (induction n z rule: read_induct)
  case (more n z z1)
  let ?m = "portion n z1" and ?a = "take (portion n z1) (z_buf z1)"
  have z: "stream z = ?a @ stream (advance n z1)" unfolding refill_True [OF more(2), THEN conjunct1, symmetric] by (rule advance(1))
  have a: "length ?a = ?m" "?m \<le> n" using advance(3,4) [of n z1] by simp_all
  have "n - ?m \<le> length (stream (advance n z1))" using more(4) a unfolding z length_append by linarith
  from more(3) [OF this] obtain z' where
    "luaZ_read (n - ?m) (advance n z1) = (0, take (n - ?m) (stream (advance n z1)), z')"
    "stream z' = drop (n - ?m) (stream (advance n z1))" by blast
  moreover have "take n (?a @ ys) = ?a @ take (n - ?m) ys" "drop n (?a @ ys) = drop (n - ?m) ys" for ys
    unfolding take_append drop_append a(1) using a by simp_all
  ultimately show ?case unfolding read_more [OF more(1,2)] z by simp
qed (auto simp: read_0 dest: refill_False)

lemma read_short: "length (stream z) < n \<Longrightarrow> fst (luaZ_read n z) \<noteq> 0"
proof (induction n z rule: read_induct)
  case (more n z z1)
  let ?m = "portion n z1" and ?a = "take (portion n z1) (z_buf z1)"
  have z: "stream z = ?a @ stream (advance n z1)" unfolding refill_True [OF more(2), THEN conjunct1, symmetric] by (rule advance(1))
  have "length ?a = ?m" using advance(4) [of n z1] by simp
  then have "length (stream (advance n z1)) < n - ?m" using more(4) unfolding z length_append by linarith
  from more(3) [OF this] show ?case unfolding read_more [OF more(1,2)] by (auto split: prod.splits)
qed (auto simp: read_end)

lemma read_left: "luaZ_read n z = (k, bs, z') \<Longrightarrow> left z = left z' + length bs \<and> length bs + k = n"
proof (induction n z arbitrary: bs rule: read_induct)
  case (more n z z1)
  obtain bs' where r: "luaZ_read (n - portion n z1) (advance n z1) = (k, bs', z')" "bs = take (portion n z1) (z_buf z1) @ bs'"
    using more(4) unfolding read_more [OF more(1,2)] by (auto split: prod.splits)
  have "left z = portion n z1 + left (advance n z1)"
    unfolding refill_True [OF more(2), THEN conjunct2, symmetric] by (rule advance(2))
  moreover have "length bs = portion n z1 + length bs'" using advance(4) [of n z1] r(2) by simp
  ultimately show ?case using more(3) [OF r(1)] advance(3) [of n z1] by linarith
qed (auto simp: read_0 read_end dest: refill_False)

end
