(* ===== verification/LuaDump.thy ===== *)
theory LuaDump
  imports LuaZio
begin

text \<open>
  Function prototypes of the embedded Lua and how they are saved and loaded as binary chunks
  (\<open>ldump.c\<close>, \<open>lundump.c\<close> and \<open>f_parser\<close> of \<open>ldo.c\<close> under \<open>src/src/logic/scriptengine/lua\<close>).
\<close>

section \<open>Prototypes\<close>

text \<open>Constants are the values the compiler puts into a function; a float is its bit pattern.\<close>

datatype const = KNil | KBool byte | KFlt int | KInt int | KShr "byte list" | KLng "byte list"

record Upvaldesc =
  uv_name :: "byte list option"
  uv_instack :: byte
  uv_idx :: byte

record LocVar =
  lv_name :: "byte list option"
  lv_startpc :: int
  lv_endpc :: int

text \<open>
  A \<open>Proto\<close>, in the order of its fields; each vector is a list whose length is the size field. The sources are compared
  as pointers when a function is dumped, so their type is a parameter: pointers in a running state, strings in a file.
\<close>

datatype 's Proto =
  Proto (p_numparams: byte) (p_is_vararg: byte) (p_maxstacksize: byte) (p_linedefined: int) (p_lastlinedefined: int)
    (p_k: "const list") (p_code: "32 word list") (p_p: "'s Proto list") (p_lineinfo: "int list")
    (p_locvars: "LocVar list") (p_upvalues: "Upvaldesc list") (p_source: "'s option")

section \<open>Dump\<close>

text \<open>
  The writer is a callback. The dump functions only ever call \<open>DumpBlock\<close>, so each is the list of the blocks it passes to
  it; \<open>luaU_dump\<close> feeds them to the writer.
\<close>

definition DumpByte :: "int \<Rightarrow> byte list list" where
  "DumpByte y = [[word_of_int y]]"

definition DumpInt :: "int \<Rightarrow> byte list list" where
  "DumpInt x = [s32_bytes x]"

definition DumpNumber :: "int \<Rightarrow> byte list list" where
  "DumpNumber x = [le_bytes 8 x]"

definition DumpInteger :: "int \<Rightarrow> byte list list" where
  "DumpInteger x = [s64_bytes x]"

definition DumpString :: "byte list option \<Rightarrow> byte list list" where
  "DumpString s =
     (case s of
        None \<Rightarrow> DumpByte 0
      | Some str \<Rightarrow>
          let sz = int (length str) + 1 in
          (if sz < 0xFF then DumpByte sz else DumpByte 0xFF @ [le_bytes 8 sz]) @ [str])"

definition DumpCode :: "32 word list \<Rightarrow> byte list list" where
  "DumpCode code = DumpInt (int (length code)) @ [concat (map (\<lambda>w. le_bytes 4 (uint w)) code)]"

definition ttype_const :: "const \<Rightarrow> int" where
  "ttype_const o' = (case o' of KNil \<Rightarrow> 0 | KBool _ \<Rightarrow> 1 | KFlt _ \<Rightarrow> 3 | KInt _ \<Rightarrow> 19 | KShr _ \<Rightarrow> 4 | KLng _ \<Rightarrow> 20)"

definition DumpConstant :: "const \<Rightarrow> byte list list" where
  "DumpConstant o' =
     DumpByte (ttype_const o') @
     (case o' of
        KNil \<Rightarrow> []
      | KBool b \<Rightarrow> DumpByte (uint b)
      | KFlt w \<Rightarrow> DumpNumber w
      | KInt i \<Rightarrow> DumpInteger i
      | KShr s \<Rightarrow> DumpString (Some s)
      | KLng s \<Rightarrow> DumpString (Some s))"

definition DumpConstants :: "const list \<Rightarrow> byte list list" where
  "DumpConstants k = DumpInt (int (length k)) @ concat (map DumpConstant k)"

definition DumpUpvalue :: "Upvaldesc \<Rightarrow> byte list list" where
  "DumpUpvalue u = DumpByte (uint (uv_instack u)) @ DumpByte (uint (uv_idx u))"

definition DumpUpvalues :: "Upvaldesc list \<Rightarrow> byte list list" where
  "DumpUpvalues us = DumpInt (int (length us)) @ concat (map DumpUpvalue us)"

definition DumpLocVar :: "LocVar \<Rightarrow> byte list list" where
  "DumpLocVar v = DumpString (lv_name v) @ DumpInt (lv_startpc v) @ DumpInt (lv_endpc v)"

definition DumpDebug :: "bool \<Rightarrow> int list \<Rightarrow> LocVar list \<Rightarrow> Upvaldesc list \<Rightarrow> byte list list" where
  "DumpDebug strip lineinfo locvars upvalues =
     (let n = (if strip then 0 else length lineinfo) in DumpInt (int n) @ [concat (map s32_bytes (take n lineinfo))]) @
     (let n = (if strip then 0 else length locvars) in DumpInt (int n) @ concat (map DumpLocVar (take n locvars))) @
     (let n = (if strip then 0 else length upvalues) in
       DumpInt (int n) @ concat (map (\<lambda>u. DumpString (uv_name u)) (take n upvalues)))"

text \<open>\<open>str\<close> is \<open>getstr\<close>, the characters a source pointer points to.\<close>

fun DumpFunction :: "('s \<Rightarrow> byte list) \<Rightarrow> bool \<Rightarrow> 's Proto \<Rightarrow> 's option \<Rightarrow> byte list list" where
  "DumpFunction str strip (Proto numparams is_vararg maxstacksize linedefined lastlinedefined k code p lineinfo locvars upvalues source) psource =
     (if strip \<or> source = psource then DumpString None else DumpString (map_option str source)) @
     DumpInt linedefined @ DumpInt lastlinedefined @
     DumpByte (uint numparams) @ DumpByte (uint is_vararg) @ DumpByte (uint maxstacksize) @
     DumpCode code @ DumpConstants k @ DumpUpvalues upvalues @
     (DumpInt (int (length p)) @ concat (map (\<lambda>g. DumpFunction str strip g source) p)) @
     DumpDebug strip lineinfo locvars upvalues"

definition LUA_SIGNATURE :: "byte list" where "LUA_SIGNATURE = [27, 76, 117, 97]"
definition LUAC_VERSION :: int where "LUAC_VERSION = 5 * 16 + 3"
definition LUAC_FORMAT :: int where "LUAC_FORMAT = 0"
definition LUAC_DATA :: "byte list" where "LUAC_DATA = [0x19, 0x93, 13, 10, 0x1a, 10]"
definition LUAC_INT :: int where "LUAC_INT = 0x5678"

text \<open>The bits of \<open>370.5\<close>.\<close>

definition LUAC_NUM :: int where "LUAC_NUM = 4645225521121067008"

definition DumpHeader :: "byte list list" where
  "DumpHeader =
     [LUA_SIGNATURE] @ DumpByte LUAC_VERSION @ DumpByte LUAC_FORMAT @ [LUAC_DATA] @
     DumpByte 4 @ DumpByte 8 @ DumpByte 4 @ DumpByte 8 @ DumpByte 8 @ DumpInteger LUAC_INT @ DumpNumber LUAC_NUM"

text \<open>The writer gets blocks as long as its status is zero.\<close>

record 'd DumpState =
  d_data :: 'd
  d_status :: int

definition DumpBlock :: "(byte list \<Rightarrow> 'd \<Rightarrow> int \<times> 'd) \<Rightarrow> byte list \<Rightarrow> 'd DumpState \<Rightarrow> 'd DumpState" where
  "DumpBlock writer b D =
     (if d_status D = 0 then let (st, d) = writer b (d_data D) in \<lparr>d_data = d, d_status = st\<rparr> else D)"

definition dump_blocks :: "('s \<Rightarrow> byte list) \<Rightarrow> bool \<Rightarrow> 's Proto \<Rightarrow> byte list list" where
  "dump_blocks str strip f = DumpHeader @ DumpByte (int (length (p_upvalues f))) @ DumpFunction str strip f None"

definition luaU_dump :: "('s \<Rightarrow> byte list) \<Rightarrow> 's Proto \<Rightarrow> (byte list \<Rightarrow> 'd \<Rightarrow> int \<times> 'd) \<Rightarrow> 'd \<Rightarrow> bool \<Rightarrow> int \<times> 'd" where
  "luaU_dump str f writer data strip =
     (let D = fold (DumpBlock writer) (dump_blocks str strip f) \<lparr>d_data = data, d_status = 0\<rparr> in (d_status D, d_data D))"

section \<open>Load\<close>

text \<open>
  The state of a load: the name for messages, and whether the allocator can give a block of a size. Only blocks whose size
  comes from the input are asked for here. A load function passes the stream on, an error ends it.
\<close>

record LoadState =
  ls_name :: string
  ls_alloc :: "int \<Rightarrow> bool"

type_synonym 'a loader = "ZIO \<Rightarrow> lua_error + 'a \<times> ZIO"

definition ld_ret :: "'a \<Rightarrow> 'a loader" where
  "ld_ret x z = Inr (x, z)"

definition ld_fail :: "lua_error \<Rightarrow> 'a loader" where
  "ld_fail e z = Inl e"

definition ld_bind :: "'a loader \<Rightarrow> ('a \<Rightarrow> 'b loader) \<Rightarrow> 'b loader" where
  "ld_bind p f z = res_bind (p z) (\<lambda>(x, z). f x z)"

fun ld_list :: "nat \<Rightarrow> 'a loader \<Rightarrow> 'a list loader" where
  "ld_list 0 p = ld_ret []"
| "ld_list (Suc n) p = ld_bind p (\<lambda>x. ld_bind (ld_list n p) (\<lambda>xs. ld_ret (x # xs)))"

definition load_error :: "LoadState \<Rightarrow> string \<Rightarrow> lua_error" where
  "load_error S why = LuaError (ls_name S @ '': '' @ why @ '' precompiled chunk'')"

definition memory_error :: lua_error where
  "memory_error = LuaError ''not enough memory''"

definition luaM_newvector :: "LoadState \<Rightarrow> int \<Rightarrow> int \<Rightarrow> unit loader" where
  "luaM_newvector S n e = (if ls_alloc S (u64 (n * e)) then ld_ret () else ld_fail memory_error)"

definition LoadBlock :: "LoadState \<Rightarrow> nat \<Rightarrow> byte list loader" where
  "LoadBlock S sz z =
     (case luaZ_read sz z of (missing, bs, z') \<Rightarrow> if missing \<noteq> 0 then Inl (load_error S ''truncated'') else Inr (bs, z'))"

definition LoadByte :: "LoadState \<Rightarrow> int loader" where
  "LoadByte S = ld_bind (LoadBlock S 1) (\<lambda>bs. ld_ret (le_value bs))"

definition LoadInt :: "LoadState \<Rightarrow> int loader" where
  "LoadInt S = ld_bind (LoadBlock S 4) (\<lambda>bs. ld_ret (s32_of_bytes bs))"

definition LoadNumber :: "LoadState \<Rightarrow> int loader" where
  "LoadNumber S = ld_bind (LoadBlock S 8) (\<lambda>bs. ld_ret (le_value bs))"

definition LoadInteger :: "LoadState \<Rightarrow> int loader" where
  "LoadInteger S = ld_bind (LoadBlock S 8) (\<lambda>bs. ld_ret (s64_of_bytes bs))"

definition LoadString :: "LoadState \<Rightarrow> byte list option loader" where
  "LoadString S =
     ld_bind (LoadByte S) (\<lambda>b.
     ld_bind (if b = 0xFF then ld_bind (LoadBlock S 8) (\<lambda>bs. ld_ret (le_value bs)) else ld_ret b) (\<lambda>sz.
     if sz = 0 then ld_ret None
     else
       ld_bind (luaM_newvector S (sz - 1) 1) (\<lambda>_.
       ld_bind (LoadBlock S (nat (sz - 1))) (\<lambda>bs. ld_ret (Some bs)))))"

text \<open>A block of 32-bit values.\<close>

fun fours :: "byte list \<Rightarrow> byte list list" where
  "fours (a # b # c # d # bs) = [a, b, c, d] # fours bs"
| "fours bs = []"

definition LoadCode :: "LoadState \<Rightarrow> 32 word list loader" where
  "LoadCode S =
     ld_bind (LoadInt S) (\<lambda>n.
     ld_bind (luaM_newvector S n 4) (\<lambda>_.
     ld_bind (LoadBlock S (nat (u64 (n * 4)))) (\<lambda>bs. ld_ret (map (\<lambda>w. word_of_int (le_value w)) (fours bs)))))"

text \<open>
  \<open>luaS_newlstr\<close> decides by the length which kind of string it makes. A constant of string type without a string is
  stored by reading the type of the object behind a null pointer; an unknown type leaves the nil that was there.
\<close>

definition string_const :: "byte list \<Rightarrow> const" where
  "string_const s = (if length s \<le> 40 then KShr s else KLng s)"

definition LoadConstant :: "LoadState \<Rightarrow> const loader" where
  "LoadConstant S =
     ld_bind (LoadByte S) (\<lambda>t.
       if t = 1 then ld_bind (LoadByte S) (\<lambda>b. ld_ret (KBool (word_of_int b)))
       else if t = 3 then ld_bind (LoadNumber S) (\<lambda>w. ld_ret (KFlt w))
       else if t = 19 then ld_bind (LoadInteger S) (\<lambda>i. ld_ret (KInt i))
       else if t = 4 \<or> t = 20 then
         ld_bind (LoadString S) (\<lambda>s. case s of Some s \<Rightarrow> ld_ret (string_const s) | None \<Rightarrow> ld_fail (Fault NullDeref))
       else ld_ret KNil)"

definition LoadConstants :: "LoadState \<Rightarrow> const list loader" where
  "LoadConstants S =
     ld_bind (LoadInt S) (\<lambda>n.
     ld_bind (luaM_newvector S n 16) (\<lambda>_. ld_list (nat n) (LoadConstant S)))"

definition LoadUpvalue :: "LoadState \<Rightarrow> Upvaldesc loader" where
  "LoadUpvalue S =
     ld_bind (LoadByte S) (\<lambda>a. ld_bind (LoadByte S) (\<lambda>b.
       ld_ret \<lparr>uv_name = None, uv_instack = word_of_int a, uv_idx = word_of_int b\<rparr>))"

definition LoadUpvalues :: "LoadState \<Rightarrow> Upvaldesc list loader" where
  "LoadUpvalues S =
     ld_bind (LoadInt S) (\<lambda>n.
     ld_bind (luaM_newvector S n 16) (\<lambda>_. ld_list (nat n) (LoadUpvalue S)))"

definition LoadLocVar :: "LoadState \<Rightarrow> LocVar loader" where
  "LoadLocVar S =
     ld_bind (LoadString S) (\<lambda>s. ld_bind (LoadInt S) (\<lambda>a. ld_bind (LoadInt S) (\<lambda>b.
       ld_ret \<lparr>lv_name = s, lv_startpc = a, lv_endpc = b\<rparr>)))"

text \<open>The names go to the upvalues that were loaded before; their number is read again and not compared.\<close>

fun LoadNames :: "LoadState \<Rightarrow> nat \<Rightarrow> Upvaldesc list \<Rightarrow> Upvaldesc list loader" where
  "LoadNames S 0 us = ld_ret us"
| "LoadNames S (Suc n) us =
     ld_bind (LoadString S) (\<lambda>s.
       case us of
         [] \<Rightarrow> ld_fail (Fault OutOfBounds)
       | u # us \<Rightarrow> ld_bind (LoadNames S n us) (\<lambda>us. ld_ret (u\<lparr>uv_name := s\<rparr> # us)))"

definition LoadDebug :: "LoadState \<Rightarrow> Upvaldesc list \<Rightarrow> (int list \<times> LocVar list \<times> Upvaldesc list) loader" where
  "LoadDebug S upvalues =
     ld_bind (LoadInt S) (\<lambda>n. ld_bind (luaM_newvector S n 4) (\<lambda>_.
     ld_bind (LoadBlock S (nat (u64 (n * 4)))) (\<lambda>bs. let lineinfo = map s32_of_bytes (fours bs) in
     ld_bind (LoadInt S) (\<lambda>n. ld_bind (luaM_newvector S n 16) (\<lambda>_.
     ld_bind (ld_list (nat n) (LoadLocVar S)) (\<lambda>locvars.
     ld_bind (LoadInt S) (\<lambda>n.
     ld_bind (LoadNames S (nat n) upvalues) (\<lambda>upvalues. ld_ret (lineinfo, locvars, upvalues)))))))))"

text \<open>
  The source calls itself once for each level of nested functions and has no limit: the first argument is the number of such
  calls, one within the other, for which the C stack has room.
\<close>

fun LoadFunction :: "nat \<Rightarrow> LoadState \<Rightarrow> byte list option \<Rightarrow> byte list Proto loader" where
  "LoadFunction 0 S psource = ld_fail (Fault StackOverflow)"
| "LoadFunction (Suc room) S psource =
     ld_bind (LoadString S) (\<lambda>s. let source = (case s of None \<Rightarrow> psource | Some _ \<Rightarrow> s) in
     ld_bind (LoadInt S) (\<lambda>linedefined. ld_bind (LoadInt S) (\<lambda>lastlinedefined.
     ld_bind (LoadByte S) (\<lambda>numparams. ld_bind (LoadByte S) (\<lambda>is_vararg. ld_bind (LoadByte S) (\<lambda>maxstacksize.
     ld_bind (LoadCode S) (\<lambda>code. ld_bind (LoadConstants S) (\<lambda>k. ld_bind (LoadUpvalues S) (\<lambda>upvalues.
     ld_bind (ld_bind (LoadInt S) (\<lambda>n. ld_bind (luaM_newvector S n 8) (\<lambda>_. ld_list (nat n) (LoadFunction room S source)))) (\<lambda>p.
     ld_bind (LoadDebug S upvalues) (\<lambda>(lineinfo, locvars, upvalues).
       ld_ret (Proto (word_of_int numparams) (word_of_int is_vararg) (word_of_int maxstacksize) linedefined lastlinedefined
         k code p lineinfo locvars upvalues source))))))))))))"

definition checkliteral :: "LoadState \<Rightarrow> byte list \<Rightarrow> string \<Rightarrow> unit loader" where
  "checkliteral S s msg =
     ld_bind (LoadBlock S (length s)) (\<lambda>buff. if buff \<noteq> s then ld_fail (load_error S msg) else ld_ret ())"

definition fchecksize :: "LoadState \<Rightarrow> int \<Rightarrow> string \<Rightarrow> unit loader" where
  "fchecksize S sz tname =
     ld_bind (LoadByte S) (\<lambda>b. if b \<noteq> sz then ld_fail (load_error S (tname @ '' size mismatch in'')) else ld_ret ())"

definition check_value :: "LoadState \<Rightarrow> int loader \<Rightarrow> int \<Rightarrow> string \<Rightarrow> unit loader" where
  "check_value S p v msg = ld_bind p (\<lambda>x. if x \<noteq> v then ld_fail (load_error S msg) else ld_ret ())"

definition checkHeader :: "LoadState \<Rightarrow> unit loader" where
  "checkHeader S =
     ld_bind (checkliteral S (tl LUA_SIGNATURE) ''not a'') (\<lambda>_.
     ld_bind (check_value S (LoadByte S) LUAC_VERSION ''version mismatch in'') (\<lambda>_.
     ld_bind (check_value S (LoadByte S) LUAC_FORMAT ''format mismatch in'') (\<lambda>_.
     ld_bind (checkliteral S LUAC_DATA ''corrupted'') (\<lambda>_.
     ld_bind (fchecksize S 4 ''int'') (\<lambda>_. ld_bind (fchecksize S 8 ''size_t'') (\<lambda>_.
     ld_bind (fchecksize S 4 ''Instruction'') (\<lambda>_. ld_bind (fchecksize S 8 ''lua_Integer'') (\<lambda>_.
     ld_bind (fchecksize S 8 ''lua_Number'') (\<lambda>_.
     ld_bind (check_value S (LoadInteger S) LUAC_INT ''endianness mismatch in'') (\<lambda>_.
     check_value S (LoadNumber S) LUAC_NUM ''float format mismatch in''))))))))))"

text \<open>A closure: its prototype and upvalues, pointers that are null until \<open>luaF_initupvals\<close> makes them closed nils.\<close>

record LClosure =
  cl_p :: "byte list Proto"
  cl_upvals :: "const option list"

definition display_name :: "string \<Rightarrow> string" where
  "display_name name =
     (case name of
        [] \<Rightarrow> []
      | c # cs \<Rightarrow> if c = CHR ''@'' \<or> c = CHR ''='' then cs else if c = CHR 0x1B then ''binary string'' else name)"

definition luaU_undump :: "nat \<Rightarrow> (int \<Rightarrow> bool) \<Rightarrow> string \<Rightarrow> LClosure loader" where
  "luaU_undump room alloc name =
     (let S = \<lparr>ls_name = display_name name, ls_alloc = alloc\<rparr> in
      ld_bind (checkHeader S) (\<lambda>_.
      ld_bind (LoadByte S) (\<lambda>n.
      ld_bind (LoadFunction room S None) (\<lambda>p. ld_ret \<lparr>cl_p = p, cl_upvals = replicate (nat n) None\<rparr>))))"

definition luaF_initupvals :: "LClosure \<Rightarrow> LClosure" where
  "luaF_initupvals cl = cl\<lparr>cl_upvals := map (\<lambda>_. Some KNil) (cl_upvals cl)\<rparr>"

definition checkmode :: "string option \<Rightarrow> string \<Rightarrow> lua_error + unit" where
  "checkmode mode x =
     (case mode of
        None \<Rightarrow> Inr ()
      | Some mode \<Rightarrow>
          if hd x \<in> set mode then Inr ()
          else Inl (LuaError (''attempt to load a '' @ x @ '' chunk (mode is '' @ [CHR 0x27] @ mode @ [CHR 0x27] @ '')'')))"

text \<open>\<open>f_parser\<close>: the first character decides; the parser of source text is a parameter.\<close>

definition f_parser :: "nat \<Rightarrow> (int \<Rightarrow> bool) \<Rightarrow> (string \<Rightarrow> byte option \<Rightarrow> LClosure loader) \<Rightarrow> string option \<Rightarrow> string \<Rightarrow>
    LClosure loader" where
  "f_parser room alloc luaY_parser mode name z =
     (let (c, z) = zgetc z in
      ld_bind
        (if c = Some (hd LUA_SIGNATURE)
         then ld_bind (\<lambda>z. res_bind (checkmode mode ''binary'') (\<lambda>u. Inr (u, z))) (\<lambda>_. luaU_undump room alloc name)
         else ld_bind (\<lambda>z. res_bind (checkmode mode ''text'') (\<lambda>u. Inr (u, z))) (\<lambda>_. luaY_parser name c))
        (\<lambda>cl. ld_ret (luaF_initupvals cl)) z)"

end
