(* ===== verification/LuaDumpSpec.thy ===== *)
theory LuaDumpSpec
  imports LuaDump
begin

text \<open>
  Loading what was dumped: each load function, on a stream that begins with what the matching dump function writes, returns
  the value and leaves the rest; on a proper prefix of it, it ends with the error that the chunk is truncated. Both
  together are \<open>delivers\<close>, which composes along the code.
\<close>

section \<open>Delivering a value\<close>

definition cut :: "LoadState \<Rightarrow> lua_error" where
  "cut S = load_error S ''truncated''"

definition proper_prefix :: "byte list \<Rightarrow> byte list \<Rightarrow> bool" where
  "proper_prefix xs ys \<longleftrightarrow> (\<exists>zs. zs \<noteq> [] \<and> ys = xs @ zs)"

definition delivers :: "LoadState \<Rightarrow> 'a loader \<Rightarrow> byte list \<Rightarrow> 'a \<Rightarrow> bool" where
  "delivers S p bs x \<longleftrightarrow>
     (\<forall>z rest. stream z = bs @ rest \<longrightarrow> (\<exists>z'. p z = Inr (x, z') \<and> stream z' = rest)) \<and>
     (\<forall>z. proper_prefix (stream z) bs \<longrightarrow> p z = Inl (cut S))"

lemma proper_prefix_append:
  "proper_prefix xs (ys @ zs) \<longleftrightarrow> proper_prefix xs ys \<or> (\<exists>ws. xs = ys @ ws \<and> proper_prefix ws zs)"
  unfolding proper_prefix_def append_eq_append_conv2 by (auto simp: append_eq_append_conv2)

lemma delivers_ret: "delivers S (ld_ret x) [] x"
  by (simp add: delivers_def ld_ret_def proper_prefix_def)

lemma delivers_ok: "delivers S p bs x \<Longrightarrow> stream z = bs @ rest \<Longrightarrow> \<exists>z'. p z = Inr (x, z') \<and> stream z' = rest"
  by (simp add: delivers_def)

lemma delivers_cut: "delivers S p bs x \<Longrightarrow> proper_prefix (stream z) bs \<Longrightarrow> p z = Inl (cut S)"
  by (simp add: delivers_def)

lemma delivers_bind:
  assumes p: "delivers S p bs x" and f: "delivers S (f x) bs' y"
  shows "delivers S (ld_bind p f) (bs @ bs') y"
  unfolding delivers_def
proof (intro conjI allI impI)
  fix z rest assume "stream z = (bs @ bs') @ rest"
  then have "stream z = bs @ (bs' @ rest)" by simp
  from delivers_ok [OF p this] obtain z1 where z1: "p z = Inr (x, z1)" "stream z1 = bs' @ rest" by blast
  from delivers_ok [OF f z1(2)] show "\<exists>z'. ld_bind p f z = Inr (y, z') \<and> stream z' = rest" by (simp add: ld_bind_def z1(1))
next
  fix z assume "proper_prefix (stream z) (bs @ bs')"
  then consider "proper_prefix (stream z) bs" | ws where "stream z = bs @ ws" "proper_prefix ws bs'"
    by (auto simp: proper_prefix_append)
  then show "ld_bind p f z = Inl (cut S)"
  proof cases
    case 1
    then show ?thesis using delivers_cut [OF p] by (simp add: ld_bind_def)
  next
    case 2
    from delivers_ok [OF p 2(1)] obtain z1 where z1: "p z = Inr (x, z1)" "stream z1 = ws" by blast
    then show ?thesis using 2(2) delivers_cut [OF f, of z1] by (simp add: ld_bind_def)
  qed
qed

text \<open>Parts that read nothing, and results that are only looked at.\<close>

lemma delivers_skip: "delivers S p [] x \<Longrightarrow> delivers S (f x) bs y \<Longrightarrow> delivers S (ld_bind p f) bs y"
  using delivers_bind [of S p "[]" x f bs y] by simp

lemma delivers_map: "delivers S p bs x \<Longrightarrow> y = g x \<Longrightarrow> delivers S (ld_bind p (\<lambda>x. ld_ret (g x))) bs y"
  using delivers_bind [of S p bs x "\<lambda>x. ld_ret (g x)" "[]" y] delivers_ret [of S "g x"] by simp

lemma delivers_list: "(\<And>x. x \<in> set xs \<Longrightarrow> delivers S p (enc x) x) \<Longrightarrow> delivers S (ld_list (length xs) p) (concat (map enc xs)) xs"
proof (induction xs)
  case Nil
  then show ?case by (simp add: delivers_ret)
next
  case (Cons x xs)
  then have "delivers S (ld_list (length xs) p) (concat (map enc xs)) xs" "delivers S p (enc x) x" by simp_all
  then show ?case by (auto intro!: delivers_bind delivers_map)
qed

lemma delivers_list_map:
  "(\<And>x. x \<in> set xs \<Longrightarrow> delivers S p (enc x) (g x)) \<Longrightarrow> delivers S (ld_list (length xs) p) (concat (map enc xs)) (map g xs)"
proof (induction xs)
  case Nil
  then show ?case by (simp add: delivers_ret)
next
  case (Cons x xs)
  then have "delivers S (ld_list (length xs) p) (concat (map enc xs)) (map g xs)" "delivers S p (enc x) (g x)" by simp_all
  then show ?case by (auto intro!: delivers_bind delivers_map)
qed

section \<open>The pieces\<close>

lemma load_block: "length bs = n \<Longrightarrow> delivers S (LoadBlock S n) bs bs"
  unfolding delivers_def
proof (intro conjI allI impI)
  fix z rest assume n: "length bs = n" and z: "stream z = bs @ rest"
  then have "n \<le> length (stream z)" by simp
  from read_all [OF this] show "\<exists>z'. LoadBlock S n z = Inr (bs, z') \<and> stream z' = rest"
    using n z by (auto simp: LoadBlock_def)
next
  fix z assume n: "length bs = n" and z: "proper_prefix (stream z) bs"
  then have "length (stream z) < n" by (auto simp: proper_prefix_def)
  from read_short [OF this] show "LoadBlock S n z = Inl (cut S)" by (auto simp: LoadBlock_def cut_def split: prod.splits)
qed

lemma le_value_id: "0 \<le> x \<Longrightarrow> x < 256 ^ n \<Longrightarrow> le_value (le_bytes n x) = x"
  by (simp add: le_value_bytes)

lemma load_byte: "0 \<le> y \<Longrightarrow> y < 256 \<Longrightarrow> delivers S (LoadByte S) (concat (DumpByte y)) y"
  unfolding LoadByte_def DumpByte_def
  by (rule delivers_map [OF load_block]) (simp_all add: uint_word_of_int)

lemma load_int: "in_s32 x \<Longrightarrow> delivers S (LoadInt S) (concat (DumpInt x)) x"
  unfolding LoadInt_def DumpInt_def by (rule delivers_map [OF load_block]) (simp_all add: s32_id)

lemma load_number: "0 \<le> x \<Longrightarrow> x < 18446744073709551616 \<Longrightarrow> delivers S (LoadNumber S) (concat (DumpNumber x)) x"
  unfolding LoadNumber_def DumpNumber_def by (rule delivers_map [OF load_block]) (simp_all add: le_value_id)

lemma load_integer: "in_s64 x \<Longrightarrow> delivers S (LoadInteger S) (concat (DumpInteger x)) x"
  unfolding LoadInteger_def DumpInteger_def by (rule delivers_map [OF load_block]) (simp_all add: s64_id)

text \<open>An allocator that has what is asked for.\<close>

definition ample :: "LoadState \<Rightarrow> bool" where
  "ample S \<longleftrightarrow> (\<forall>n. 0 \<le> n \<longrightarrow> n < 9223372036854775807 \<longrightarrow> ls_alloc S n)"

lemma load_alloc: "ample S \<Longrightarrow> 0 \<le> n * e \<Longrightarrow> n * e < 9223372036854775807 \<Longrightarrow> delivers S (luaM_newvector S n e) [] ()"
  by (simp add: luaM_newvector_def ample_def u64_def delivers_ret)

definition short :: "byte list option \<Rightarrow> bool" where
  "short s \<longleftrightarrow> (case s of None \<Rightarrow> True | Some s \<Rightarrow> int (length s) < 9223372036854775807)"

lemma load_string:
  assumes "ample S" "short s"
  shows "delivers S (LoadString S) (concat (DumpString s)) s"
proof (cases s)
  case None
  have "delivers S (LoadString S) (concat (DumpByte 0) @ []) None"
    unfolding LoadString_def by (rule delivers_bind [OF load_byte]) (auto intro!: delivers_skip delivers_ret)
  then show ?thesis using None by (simp add: DumpString_def)
next
  case (Some t)
  let ?n = "int (length t) + 1"
  have tail: "delivers S (ld_bind (luaM_newvector S (?n - 1) 1) (\<lambda>_.
      ld_bind (LoadBlock S (nat (?n - 1))) (\<lambda>bs. ld_ret (Some bs)))) t (Some t)"
    using assms Some by (intro delivers_skip [OF load_alloc] delivers_map [OF load_block]) (simp_all add: short_def)
  show ?thesis
  proof (cases "?n < 255")
    case True
    have "delivers S (LoadString S) (concat (DumpByte ?n) @ [] @ t) (Some t)"
      unfolding LoadString_def using True tail
      by (intro delivers_bind [OF load_byte] delivers_bind) (auto intro: delivers_ret)
    then show ?thesis using True Some by (simp add: DumpString_def)
  next
    case False
    have "delivers S (LoadString S) (concat (DumpByte 255) @ (le_bytes 8 ?n) @ t) (Some t)"
      unfolding LoadString_def
    proof (intro delivers_bind [OF load_byte] delivers_bind)
      show "delivers S (if (255 :: int) = 0xFF then ld_bind (LoadBlock S 8) (\<lambda>bs. ld_ret (le_value bs)) else ld_ret 255)
          (le_bytes 8 ?n) ?n"
        using assms Some by (auto intro!: delivers_map [OF load_block] simp: short_def le_value_id)
    qed (use tail in simp_all)
    then show ?thesis using False Some by (simp add: DumpString_def Let_def)
  qed
qed

lemma fours_concat: "(\<And>x. length (enc x) = 4) \<Longrightarrow> fours (concat (map enc xs)) = map enc xs"
proof (induction xs)
  case (Cons x xs)
  obtain a b c d where "enc x = [a, b, c, d]"
    using Cons(2) [of x] by (auto simp: length_Suc_conv numeral_eq_Suc)
  then show ?case using Cons by simp
qed simp

lemma length_concat_const: "(\<And>x. length (enc x) = 4) \<Longrightarrow> length (concat (map enc xs)) = 4 * length xs"
  by (induction xs) auto

text \<open>The vectors of a prototype are shorter than \<open>2 ^ 31\<close>.\<close>

definition fits_int :: "'a list \<Rightarrow> bool" where
  "fits_int xs \<longleftrightarrow> length xs < 2147483648"

lemma fits_int_s32: "fits_int xs \<Longrightarrow> in_s32 (int (length xs))"
  by (simp add: fits_int_def in_s32_def)

lemma load_size: "fits_int xs \<Longrightarrow> delivers S (LoadInt S) (concat (DumpInt (int (length xs)))) (int (length xs))"
  by (rule load_int [OF fits_int_s32])

lemma load_vector_alloc: "ample S \<Longrightarrow> fits_int xs \<Longrightarrow> 0 \<le> e \<Longrightarrow> e \<le> 16 \<Longrightarrow> delivers S (luaM_newvector S (int (length xs)) e) [] ()"
proof (rule load_alloc)
  assume a: "fits_int xs" "0 \<le> e" "e \<le> 16"
  show "0 \<le> int (length xs) * e" using a by simp
  have "int (length xs) * e \<le> 2147483648 * 16" using a by (intro mult_mono) (simp_all add: fits_int_def)
  then show "int (length xs) * e < 9223372036854775807" by simp
qed

lemma load_fours:
  assumes "fits_int xs" "\<And>x. length (enc x) = 4"
  shows "delivers S (LoadBlock S (nat (u64 (int (length xs) * 4)))) (concat (map enc xs)) (concat (map enc xs))"
  using assms length_concat_const [of enc xs] by (intro load_block) (simp add: u64_def fits_int_def)

lemma load_code:
  assumes "ample S" "fits_int code"
  shows "delivers S (LoadCode S) (concat (DumpCode code)) code"
proof -
  have "map (\<lambda>w. word_of_int (le_value w)) (fours (concat (map (\<lambda>w. le_bytes 4 (uint w)) code))) = code"
    using uint_lt2p [where 'a = 32] by (simp add: fours_concat le_value_id comp_def)
  then show ?thesis
    unfolding LoadCode_def DumpCode_def concat_append using assms
    by (intro delivers_bind [OF load_size] delivers_skip [OF load_vector_alloc]) (auto intro!: delivers_map [OF load_fours])
qed

section \<open>Constants, upvalues, debug information\<close>

definition const_ok :: "const \<Rightarrow> bool" where
  "const_ok o' \<longleftrightarrow>
     (case o' of
        KFlt w \<Rightarrow> 0 \<le> w \<and> w < 18446744073709551616
      | KInt i \<Rightarrow> in_s64 i
      | KShr s \<Rightarrow> length s \<le> 40
      | KLng s \<Rightarrow> 40 < length s \<and> short (Some s)
      | _ \<Rightarrow> True)"

lemma byte_value [simp]: "0 \<le> uint b" "uint b < 256" for b :: byte
  using uint_lt2p [of b] by simp_all

lemma load_constant:
  assumes "ample S" "const_ok o'"
  shows "delivers S (LoadConstant S) (concat (DumpConstant o')) o'"
proof -
  have str: "delivers S (ld_bind (LoadString S) (\<lambda>s. case s of Some s \<Rightarrow> ld_ret (string_const s) | None \<Rightarrow> ld_fail (Fault NullDeref)))
      (concat (DumpString (Some s))) (string_const s)" if "short (Some s)" for s
  proof -
    have "delivers S (ld_bind (LoadString S) (\<lambda>s. case s of Some s \<Rightarrow> ld_ret (string_const s) | None \<Rightarrow> ld_fail (Fault NullDeref)))
        (concat (DumpString (Some s)) @ []) (string_const s)"
      by (rule delivers_bind [OF load_string [OF assms(1) that]]) (simp add: delivers_ret)
    then show ?thesis by simp
  qed
  have tag: "0 \<le> ttype_const o'" "ttype_const o' < 256" by (cases o'; simp add: ttype_const_def)+
  show ?thesis
    unfolding LoadConstant_def DumpConstant_def concat_append
  proof (rule delivers_bind [OF load_byte [OF tag]])
    show "delivers S (if ttype_const o' = 1 then ld_bind (LoadByte S) (\<lambda>b. ld_ret (KBool (word_of_int b)))
       else if ttype_const o' = 3 then ld_bind (LoadNumber S) (\<lambda>w. ld_ret (KFlt w))
       else if ttype_const o' = 19 then ld_bind (LoadInteger S) (\<lambda>i. ld_ret (KInt i))
       else if ttype_const o' = 4 \<or> ttype_const o' = 20 then
         ld_bind (LoadString S) (\<lambda>s. case s of Some s \<Rightarrow> ld_ret (string_const s) | None \<Rightarrow> ld_fail (Fault NullDeref))
       else ld_ret KNil)
      (concat (case o' of KNil \<Rightarrow> [] | KBool b \<Rightarrow> DumpByte (uint b) | KFlt w \<Rightarrow> DumpNumber w | KInt i \<Rightarrow> DumpInteger i
        | KShr s \<Rightarrow> DumpString (Some s) | KLng s \<Rightarrow> DumpString (Some s))) o'"
    proof (cases o')
      case (KShr s)
      then have "short (Some s)" "string_const s = KShr s" using assms(2) by (auto simp: const_ok_def short_def string_const_def)
      then show ?thesis using str [of s] KShr by (simp add: ttype_const_def)
    next
      case (KLng s)
      then have "short (Some s)" "string_const s = KLng s" using assms(2) by (auto simp: const_ok_def string_const_def)
      then show ?thesis using str [of s] KLng by (simp add: ttype_const_def)
    qed (use assms(2) in \<open>simp_all add: ttype_const_def const_ok_def delivers_ret delivers_map [OF load_byte]
        delivers_map [OF load_number] delivers_map [OF load_integer]\<close>)
  qed
qed

lemma concat_blocks: "concat (concat (map f xs)) = concat (map (\<lambda>x. concat (f x)) xs)"
  by (induction xs) simp_all

lemma load_constants:
  assumes "ample S" "fits_int k" "\<forall>o'\<in>set k. const_ok o'"
  shows "delivers S (LoadConstants S) (concat (DumpConstants k)) k"
  unfolding LoadConstants_def DumpConstants_def concat_append concat_blocks using assms
  by (intro delivers_bind [OF load_size] delivers_skip [OF load_vector_alloc]) (auto intro!: delivers_list load_constant)

definition nameless :: "Upvaldesc \<Rightarrow> Upvaldesc" where
  "nameless u = u\<lparr>uv_name := None\<rparr>"

lemma nameless [simp]: "(nameless u)\<lparr>uv_name := s\<rparr> = u\<lparr>uv_name := s\<rparr>" "u\<lparr>uv_name := uv_name u\<rparr> = u"
  by (simp_all add: nameless_def)

lemma load_upvalue: "delivers S (LoadUpvalue S) (concat (DumpUpvalue u)) (nameless u)"
  unfolding LoadUpvalue_def DumpUpvalue_def concat_append
  by (intro delivers_bind [OF load_byte] delivers_map [OF load_byte]) (simp_all add: nameless_def)

lemma load_upvalues:
  assumes "ample S" "fits_int us"
  shows "delivers S (LoadUpvalues S) (concat (DumpUpvalues us)) (map nameless us)"
  unfolding LoadUpvalues_def DumpUpvalues_def concat_append concat_blocks using assms
  by (intro delivers_bind [OF load_size] delivers_skip [OF load_vector_alloc])
    (auto intro!: delivers_list_map load_upvalue)

definition locvar_ok :: "LocVar \<Rightarrow> bool" where
  "locvar_ok v \<longleftrightarrow> short (lv_name v) \<and> in_s32 (lv_startpc v) \<and> in_s32 (lv_endpc v)"

lemma load_locvar:
  assumes "ample S" "locvar_ok v"
  shows "delivers S (LoadLocVar S) (concat (DumpLocVar v)) v"
  unfolding LoadLocVar_def DumpLocVar_def concat_append using assms
  by (intro delivers_bind [OF load_string] delivers_bind [OF load_int] delivers_map [OF load_int]) (auto simp: locvar_ok_def)

lemma load_names:
  assumes "ample S" "\<forall>u\<in>set us. short (uv_name u)"
  shows "delivers S (LoadNames S (length us) (map nameless us)) (concat (map (\<lambda>u. concat (DumpString (uv_name u))) us)) us"
  using assms(2)
proof (induction us)
  case Nil
  then show ?case by (simp add: delivers_ret)
next
  case (Cons u us)
  then have "delivers S (LoadNames S (length us) (map nameless us)) (concat (map (\<lambda>u. concat (DumpString (uv_name u))) us)) us"
    by simp
  then show ?case using Cons(2)
    by (auto intro!: delivers_bind [OF load_string [OF assms(1)]] delivers_map)
qed

text \<open>What is left of a prototype without debug information.\<close>

definition kept :: "bool \<Rightarrow> 'a list \<Rightarrow> 'a list" where
  "kept strip xs = (if strip then [] else xs)"

lemma kept: "fits_int xs \<Longrightarrow> fits_int (kept strip xs)" "set (kept strip xs) \<subseteq> set xs"
  by (simp_all add: kept_def fits_int_def)

lemma load_debug:
  assumes "ample S" "fits_int li" "\<forall>x\<in>set li. in_s32 x" "fits_int lv" "\<forall>v\<in>set lv. locvar_ok v"
    and "fits_int us" "\<forall>u\<in>set us. short (uv_name u)"
  shows "delivers S (LoadDebug S (map nameless us)) (concat (DumpDebug strip li lv us))
    (kept strip li, kept strip lv, if strip then map nameless us else us)"
proof -
  let ?li = "kept strip li" and ?lv = "kept strip lv" and ?us = "kept strip us"
  have k: "concat (DumpDebug strip li lv us) =
      concat (DumpInt (int (length ?li))) @ concat (map s32_bytes ?li) @
      concat (DumpInt (int (length ?lv))) @ concat (map (\<lambda>x. concat (DumpLocVar x)) ?lv) @
      concat (DumpInt (int (length ?us))) @ concat (map (\<lambda>u. concat (DumpString (uv_name u))) ?us)"
    by (simp add: DumpDebug_def kept_def Let_def concat_blocks)
  have li: "map s32_of_bytes (fours (concat (map s32_bytes ?li))) = ?li"
    using assms(3) by (simp add: fours_concat comp_def kept_def map_idI s32_id)
  have us: "delivers S (LoadNames S (length ?us) (map nameless us))
      (concat (map (\<lambda>u. concat (DumpString (uv_name u))) ?us)) (if strip then map nameless us else us)"
    using load_names [OF assms(1,7)] by (simp add: kept_def delivers_ret)
  have lv: "delivers S (ld_list (length ?lv) (LoadLocVar S)) (concat (map (\<lambda>x. concat (DumpLocVar x)) ?lv)) ?lv"
    using assms(5) kept(2) [of strip lv] by (intro delivers_list load_locvar [OF assms(1)]) auto
  note f = kept(1) [OF assms(2), of strip] kept(1) [OF assms(4), of strip] kept(1) [OF assms(6), of strip]
  have "delivers S (ld_bind (ld_list (nat (int (length ?lv))) (LoadLocVar S)) (\<lambda>lv. ld_bind (LoadInt S) (\<lambda>n.
      ld_bind (LoadNames S (nat n) (map nameless us)) (\<lambda>us. ld_ret (?li, lv, us)))))
    (concat (map (\<lambda>x. concat (DumpLocVar x)) ?lv) @ concat (DumpInt (int (length ?us))) @
      concat (map (\<lambda>u. concat (DumpString (uv_name u))) ?us)) (?li, ?lv, if strip then map nameless us else us)"
    unfolding nat_int by (intro delivers_bind [OF lv] delivers_bind [OF load_size [OF f(3)]]) (simp add: delivers_map [OF us])
  then show ?thesis
    unfolding LoadDebug_def k Let_def
    by (intro delivers_bind [OF load_size [OF f(1)]] delivers_skip [OF load_vector_alloc [OF assms(1) f(1)]]
        delivers_bind [OF load_fours [OF f(1)]] delivers_bind [OF load_size [OF f(2)]]
        delivers_skip [OF load_vector_alloc [OF assms(1) f(2)]]) (simp_all add: li)
qed

section \<open>Functions\<close>

text \<open>What the compiler makes: sizes and numbers in their ranges, no nested function without a source in one that has one.\<close>

fun proto_ok :: "('s \<Rightarrow> byte list) \<Rightarrow> 's Proto \<Rightarrow> bool" where
  "proto_ok str (Proto numparams is_vararg maxstacksize linedefined lastlinedefined k code p lineinfo locvars upvalues source) \<longleftrightarrow>
     in_s32 linedefined \<and> in_s32 lastlinedefined \<and> fits_int k \<and> (\<forall>o'\<in>set k. const_ok o') \<and> fits_int code \<and> fits_int p \<and>
     fits_int lineinfo \<and> (\<forall>x\<in>set lineinfo. in_s32 x) \<and> fits_int locvars \<and> (\<forall>v\<in>set locvars. locvar_ok v) \<and>
     fits_int upvalues \<and> (\<forall>u\<in>set upvalues. short (uv_name u)) \<and> short (map_option str source) \<and>
     (\<forall>g\<in>set p. proto_ok str g \<and> (source \<noteq> None \<longrightarrow> p_source g \<noteq> None))"

fun depth :: "'s Proto \<Rightarrow> nat" where
  "depth (Proto numparams is_vararg maxstacksize linedefined lastlinedefined k code p lineinfo locvars upvalues source) =
     Suc (foldr max (map depth p) 0)"

text \<open>What a load gives back: sources as strings, and without debug information if it was stripped.\<close>

fun plain :: "('s \<Rightarrow> byte list) \<Rightarrow> bool \<Rightarrow> 's Proto \<Rightarrow> byte list Proto" where
  "plain str strip (Proto numparams is_vararg maxstacksize linedefined lastlinedefined k code p lineinfo locvars upvalues source) =
     Proto numparams is_vararg maxstacksize linedefined lastlinedefined k code (map (plain str strip) p) (kept strip lineinfo)
       (kept strip locvars) (if strip then map nameless upvalues else upvalues) (if strip then None else map_option str source)"

lemma plain_map: "plain str False f = map_Proto str f"
  by (induction f) (simp add: kept_def)

lemma depth_member: "g \<in> set p \<Longrightarrow> depth g \<le> foldr max (map depth p) 0"
  by (induction p) auto

lemma word_of_uint: "word_of_int (uint b) = b" for b :: byte
  by simp

lemma load_function:
  assumes S: "ample S"
  shows "proto_ok str f \<Longrightarrow> depth f \<le> n \<Longrightarrow> strip \<or> psource = None \<or> p_source f \<noteq> None \<Longrightarrow>
    delivers S (LoadFunction n S (if strip then None else map_option str psource))
      (concat (DumpFunction str strip f psource)) (plain str strip f)"
proof (induction f arbitrary: n psource)
  case (Proto np va ms ld lld k code p li lv us source)
  obtain m where n: "n = Suc m" using Proto(3) by (cases n) auto
  let ?src = "if strip \<or> source = psource then None else map_option str source"
  let ?source = "if strip then None else map_option str source"
  have ok: "in_s32 ld" "in_s32 lld" "fits_int k" "\<forall>o'\<in>set k. const_ok o'" "fits_int code" "fits_int p" "fits_int li"
    "\<forall>x\<in>set li. in_s32 x" "fits_int lv" "\<forall>v\<in>set lv. locvar_ok v" "fits_int us" "\<forall>u\<in>set us. short (uv_name u)"
    "short (map_option str source)" "\<forall>g\<in>set p. proto_ok str g \<and> (source \<noteq> None \<longrightarrow> p_source g \<noteq> None)"
    using Proto(2) by auto
  have s: "short ?src" using ok(13) by (simp add: short_def)
  have src: "(case ?src of None \<Rightarrow> if strip then None else map_option str psource | Some _ \<Rightarrow> ?src) = ?source"
    using Proto(4) by (cases source) auto
  have sub: "delivers S (LoadFunction m S ?source) (concat (DumpFunction str strip g source)) (plain str strip g)" if "g \<in> set p" for g
    using Proto(1) [OF that, of m source] ok(14) that depth_member [OF that] Proto(3) n by auto
  have ps: "delivers S (ld_bind (LoadInt S) (\<lambda>n. ld_bind (luaM_newvector S n 8) (\<lambda>_. ld_list (nat n) (LoadFunction m S ?source))))
      (concat (DumpInt (int (length p))) @ concat (map (\<lambda>g. concat (DumpFunction str strip g source)) p)) (map (plain str strip) p)"
    using delivers_list_map [of p S "LoadFunction m S ?source", OF sub]
    by (intro delivers_bind [OF load_size [OF ok(6)]] delivers_skip [OF load_vector_alloc [OF S ok(6)]]) simp_all
  have e: "concat (DumpFunction str strip (Proto np va ms ld lld k code p li lv us source) psource) =
      concat (DumpString ?src) @ concat (DumpInt ld) @ concat (DumpInt lld) @ concat (DumpByte (uint np)) @ concat (DumpByte (uint va)) @
      concat (DumpByte (uint ms)) @ concat (DumpCode code) @ concat (DumpConstants k) @ concat (DumpUpvalues us) @
      (concat (DumpInt (int (length p))) @ concat (map (\<lambda>g. concat (DumpFunction str strip g source)) p)) @
      concat (DumpDebug strip li lv us)"
    by (simp add: concat_blocks)
  have dbg: "delivers S (ld_bind (LoadDebug S (map nameless us)) (\<lambda>(a, b, c). ld_ret (F a b c)))
      (concat (DumpDebug strip li lv us)) (F (kept strip li) (kept strip lv) (if strip then map nameless us else us))" for F :: "_ \<Rightarrow> _ \<Rightarrow> _ \<Rightarrow> byte list Proto"
  proof -
    have "delivers S (ld_bind (LoadDebug S (map nameless us)) (\<lambda>(a, b, c). ld_ret (F a b c)))
      (concat (DumpDebug strip li lv us) @ []) (F (kept strip li) (kept strip lv) (if strip then map nameless us else us))"
      by (rule delivers_bind [OF load_debug [OF S ok(7-12)]]) (simp add: delivers_ret)
    then show ?thesis by simp
  qed
  show ?case
    unfolding e n LoadFunction.simps plain.simps
    by (intro delivers_bind [OF load_string [OF S s]], unfold Let_def src)
      (intro delivers_bind [OF load_int [OF ok(1)]] delivers_bind [OF load_int [OF ok(2)]] delivers_bind [OF load_byte]
        delivers_bind [OF load_code [OF S ok(5)]] delivers_bind [OF load_constants [OF S ok(3,4)]]
        delivers_bind [OF load_upvalues [OF S ok(11)]] delivers_bind [OF ps]
        byte_value, unfold word_of_uint, rule dbg)
qed

end
