(* ===== verification/LuaDumpProps.thy ===== *)
theory LuaDumpProps
  imports LuaDumpSpec
begin

text \<open>
  The properties of binary chunks: what was dumped loads as it was, whatever pieces the reader delivers; a chunk that
  ends early is an error; and no input makes a load run on.
\<close>

section \<open>Header and chunk\<close>

lemma check_value_ok: "delivers S p bs v \<Longrightarrow> delivers S (check_value S p v msg) bs ()"
  unfolding check_value_def using delivers_bind [of S p bs v _ "[]" "()"] by (simp add: delivers_ret)

lemma checkliteral_ok: "delivers S (checkliteral S s msg) s ()"
  unfolding checkliteral_def using delivers_bind [OF load_block [OF refl], of S _ s "[]" "()"] by (simp add: delivers_ret)

lemma fchecksize_ok: "0 \<le> n \<Longrightarrow> n < 256 \<Longrightarrow> delivers S (fchecksize S n t) (concat (DumpByte n)) ()"
  unfolding fchecksize_def using delivers_bind [OF load_byte, of n S _ "[]" "()"] by (simp add: delivers_ret)

lemma load_header: "delivers S (checkHeader S) (tl LUA_SIGNATURE @ concat (tl DumpHeader)) ()"
proof -
  have e: "concat (tl DumpHeader) = concat (DumpByte LUAC_VERSION) @ concat (DumpByte LUAC_FORMAT) @ LUAC_DATA @
      concat (DumpByte 4) @ concat (DumpByte 8) @ concat (DumpByte 4) @ concat (DumpByte 8) @ concat (DumpByte 8) @
      concat (DumpInteger LUAC_INT) @ concat (DumpNumber LUAC_NUM)"
    by (simp add: DumpHeader_def)
  show ?thesis
    unfolding checkHeader_def e
    by (intro delivers_bind [OF checkliteral_ok] delivers_bind [OF fchecksize_ok] delivers_bind [OF check_value_ok [OF load_byte]]
        delivers_bind [OF check_value_ok [OF load_integer]] check_value_ok load_number)
      (simp_all add: LUAC_VERSION_def LUAC_FORMAT_def LUAC_INT_def LUAC_NUM_def in_s64_def)
qed

text \<open>The writer of \<open>string.dump\<close>.\<close>

definition writer :: "byte list \<Rightarrow> byte list \<Rightarrow> int \<times> byte list" where
  "writer b d = (0, d @ b)"

lemma dump_all: "fold (DumpBlock writer) bl \<lparr>d_data = d, d_status = 0\<rparr> = \<lparr>d_data = d @ concat bl, d_status = 0\<rparr>"
  by (induction bl arbitrary: d) (simp_all add: DumpBlock_def writer_def)

lemma dump_bytes: "luaU_dump str f writer [] strip = (0, concat (dump_blocks str strip f))"
  by (simp add: luaU_dump_def dump_all)

definition made :: "('s \<Rightarrow> byte list) \<Rightarrow> bool \<Rightarrow> 's Proto \<Rightarrow> LClosure" where
  "made str strip f = \<lparr>cl_p = plain str strip f, cl_upvals = replicate (length (p_upvalues f)) (Some KNil)\<rparr>"

lemma load_chunk:
  assumes "proto_ok str f" "\<forall>n. 0 \<le> n \<longrightarrow> n < 9223372036854775807 \<longrightarrow> alloc n" "depth f \<le> room"
    and us: "length (p_upvalues f) < 256"
  shows "delivers \<lparr>ls_name = display_name name, ls_alloc = alloc\<rparr>
    (ld_bind (luaU_undump room alloc name) (\<lambda>cl. ld_ret (luaF_initupvals cl))) (tl (concat (dump_blocks str strip f))) (made str strip f)"
proof -
  let ?S = "\<lparr>ls_name = display_name name, ls_alloc = alloc\<rparr>"
  have S: "ample ?S" using assms(2) by (simp add: ample_def)
  have e: "tl (concat (dump_blocks str strip f)) = (tl LUA_SIGNATURE @ concat (tl DumpHeader)) @
      concat (DumpByte (int (length (p_upvalues f)))) @ concat (DumpFunction str strip f None)"
    by (simp add: dump_blocks_def DumpHeader_def LUA_SIGNATURE_def)
  have f: "delivers ?S (LoadFunction room ?S None) (concat (DumpFunction str strip f None)) (plain str strip f)"
    using load_function [OF S assms(1,3), of strip None] by (cases strip) simp_all
  have "delivers ?S (luaU_undump room alloc name) (tl (concat (dump_blocks str strip f)))
      \<lparr>cl_p = plain str strip f, cl_upvals = replicate (nat (int (length (p_upvalues f)))) None\<rparr>"
    unfolding luaU_undump_def Let_def e using us
    by (intro delivers_bind [OF load_header] delivers_bind [OF load_byte] delivers_map [OF f]) simp_all
  then show ?thesis by (rule delivers_map) (simp add: made_def luaF_initupvals_def)
qed

lemma signature_first: "concat (dump_blocks str strip f) = hd LUA_SIGNATURE # tl (concat (dump_blocks str strip f))"
  by (simp add: dump_blocks_def DumpHeader_def LUA_SIGNATURE_def)

lemma f_parser_binary:
  assumes "stream z = hd LUA_SIGNATURE # bs" "mode = None \<or> CHR ''b'' \<in> set (the mode)"
  shows "\<exists>z'. stream z' = bs \<and> f_parser room alloc text mode name z =
    ld_bind (luaU_undump room alloc name) (\<lambda>cl. ld_ret (luaF_initupvals cl)) z'"
proof -
  from zgetc_stream [OF assms(1)] obtain z' where z': "zgetc z = (Some (hd LUA_SIGNATURE), z')" "stream z' = bs" by blast
  have "checkmode mode ''binary'' = Inr ()" using assms(2) by (auto simp: checkmode_def split: option.splits)
  then show ?thesis using z' by (auto simp: f_parser_def ld_bind_def)
qed

lemma takeWhile_pieces: "[] \<notin> set pieces \<Longrightarrow> takeWhile (\<lambda>p. p \<noteq> []) pieces = pieces"
  by (induction pieces) auto

lemma stream_pieces: "[] \<notin> set pieces \<Longrightarrow> stream (luaZ_init pieces) = concat pieces"
  by (simp add: stream_init takeWhile_pieces)

text \<open>
  C27. What \<open>luaU_dump\<close> writes for a function, \<open>f_parser\<close> loads again, however the reader cuts it into pieces: the same
  prototype, nested functions included, with its sources as strings, or without debug information if it was stripped, in a
  closure with one closed nil for each upvalue. The C stack must have room for one call of \<open>LoadFunction\<close> for each level of
  nesting (\<open>depth f\<close>), as nothing in the source limits it.
\<close>

theorem dump_undump:
  assumes "proto_ok str f" "\<forall>n. 0 \<le> n \<longrightarrow> n < 9223372036854775807 \<longrightarrow> alloc n"
    and "length (p_upvalues f) < 256" and "luaU_dump str f writer [] strip = (st, bs)" "concat pieces = bs" "[] \<notin> set pieces" "depth f \<le> room"
    and "mode = None \<or> CHR ''b'' \<in> set (the mode)"
  shows "st = 0 \<and> (\<exists>z. f_parser room alloc text mode name (luaZ_init pieces) = Inr (made str strip f, z) \<and> stream z = [])"
proof -
  have b: "st = 0" "bs = concat (dump_blocks str strip f)" using assms(4) dump_bytes [of str f strip] by simp_all
  have "stream (luaZ_init pieces) = hd LUA_SIGNATURE # tl bs"
    using stream_pieces [OF assms(6)] assms(5) signature_first [of str strip f] b(2) by simp
  from f_parser_binary [OF this assms(8)] obtain z where
    z: "stream z = tl bs" "f_parser room alloc text mode name (luaZ_init pieces) =
      ld_bind (luaU_undump room alloc name) (\<lambda>cl. ld_ret (luaF_initupvals cl)) z" by blast
  from delivers_ok [OF load_chunk [OF assms(1,2) assms(7) assms(3), of name strip], of z "[]"] show ?thesis
    using z b by simp
qed

definition inner_sample :: "nat Proto" where
  "inner_sample = Proto 1 0 2 3 5 [KShr [104, 105], KFlt 4607182418800017408] [0x01000026] [] [4] [] [\<lparr>uv_name = Some [120], uv_instack = 1, uv_idx = 0\<rparr>] (Some 2)"

definition sample :: "nat Proto" where
  "sample = Proto 0 2 2 0 0 [KInt 42, KNil, KBool 1] [0x00000024, 0x01000026] [inner_sample] [1, 2]
     [\<lparr>lv_name = Some [120], lv_startpc = 1, lv_endpc = 2\<rparr>] [\<lparr>uv_name = None, uv_instack = 1, uv_idx = 0\<rparr>] (Some 1)"

definition sample_names :: "nat \<Rightarrow> byte list" where
  "sample_names n = (if n = 1 then [64, 97] else [64, 98])"

lemma sample_ok: "proto_ok sample_names sample"
  by (simp add: sample_def inner_sample_def fits_int_def const_ok_def locvar_ok_def short_def in_s32_def in_s64_def sample_names_def)

lemma dump_undump_witness:
  "0 = (0 :: int) \<and> (\<exists>z. f_parser 2 (\<lambda>n. n < 9223372036854775807)
      (\<lambda>name c. ld_fail (LuaError [])) None ''@a'' (luaZ_init (map (\<lambda>b. [b]) (concat (dump_blocks sample_names False sample)))) =
    Inr (made sample_names False sample, z) \<and> stream z = [])"
  by (rule dump_undump [OF sample_ok _ _ dump_bytes]) (auto simp: concat_map_singleton sample_def inner_sample_def)

text \<open>
  If the stream ends before the chunk does, wherever that is, the load ends with the error that the chunk is truncated
  and with nothing else.
\<close>

lemma truncated_chunk:
  assumes "proto_ok str f" "\<forall>n. 0 \<le> n \<longrightarrow> n < 9223372036854775807 \<longrightarrow> alloc n"
    and "length (p_upvalues f) < 256" and "luaU_dump str f writer [] strip = (0, concat pieces @ rest)" "rest \<noteq> []" "pieces \<noteq> []" "[] \<notin> set pieces"
    and "depth f \<le> room" "mode = None \<or> CHR ''b'' \<in> set (the mode)"
  shows "f_parser room alloc text mode name (luaZ_init pieces) =
    Inl (LuaError (display_name name @ '': truncated precompiled chunk''))"
proof -
  have b: "concat pieces @ rest = concat (dump_blocks str strip f)" using assms(4) dump_bytes [of str f strip] by simp
  have ne: "concat pieces \<noteq> []" using assms(6,7) by (cases pieces) auto
  then have h: "hd (concat pieces) = hd LUA_SIGNATURE"
    using b signature_first [of str strip f] by (metis hd_append2 list.sel(1))
  have "stream (luaZ_init pieces) = hd LUA_SIGNATURE # tl (concat pieces)"
    using stream_pieces [OF assms(7)] ne h by (metis list.collapse)
  from f_parser_binary [OF this assms(9)] obtain z where
    z: "stream z = tl (concat pieces)" "f_parser room alloc text mode name (luaZ_init pieces) =
      ld_bind (luaU_undump room alloc name) (\<lambda>cl. ld_ret (luaF_initupvals cl)) z" by blast
  have t: "tl (concat (dump_blocks str strip f)) = tl (concat pieces) @ rest" using ne by (simp add: b [symmetric])
  from delivers_cut [OF load_chunk [OF assms(1,2) assms(8) assms(3), of name strip], of z] show ?thesis
    using z assms(5) by (auto simp: proper_prefix_def t cut_def load_error_def)
qed

lemma truncated_chunk_witness:
  "f_parser 2 (\<lambda>n. n < 9223372036854775807) (\<lambda>name c. ld_fail (LuaError [])) None ''@a'' (luaZ_init [[27], [76, 117]]) =
    Inl (LuaError (display_name ''@a'' @ '': truncated precompiled chunk''))"
proof (rule truncated_chunk [OF sample_ok])
  show "length (p_upvalues sample) < 256" by (simp add: sample_def)
  let ?rest = "drop 3 (concat (dump_blocks sample_names True sample))"
  have "concat [[27], [76, 117]] @ ?rest = concat (dump_blocks sample_names True sample)"
    by (simp add: dump_blocks_def DumpHeader_def LUA_SIGNATURE_def)
  then show "luaU_dump sample_names sample writer [] True = (0, concat [[27], [76, 117]] @ ?rest)" by (simp only: dump_bytes)
  show "?rest \<noteq> []" by (simp add: dump_blocks_def DumpHeader_def LUA_SIGNATURE_def)
  show "depth sample \<le> 2" by (simp add: sample_def inner_sample_def)
qed simp_all

end
