(* ===== verification/LuaDumpSafe.thy ===== *)
theory LuaDumpSafe
  imports LuaDumpProps
begin

text \<open>
  Loading any bytes at all: what a load may end with, what holds of a prototype it returns, and that it never reads more
  than there is. \<open>sound deep b P p\<close> says this of a load function on streams of at most \<open>b\<close> bytes.
\<close>

text \<open>
  The faults are a string constant without a string, names for upvalues that do not exist and, where \<open>deep\<close> allows it,
  functions nested deeper than the C stack has room for.
\<close>

definition load_fault :: "bool \<Rightarrow> lua_error \<Rightarrow> bool" where
  "load_fault deep e \<longleftrightarrow>
     (\<exists>m. e = LuaError m) \<or> e = Fault NullDeref \<or> e = Fault OutOfBounds \<or> deep \<and> e = Fault StackOverflow"

definition sound :: "bool \<Rightarrow> nat \<Rightarrow> ('a \<Rightarrow> bool) \<Rightarrow> 'a loader \<Rightarrow> bool" where
  "sound d b P p \<longleftrightarrow>
     (\<forall>z. left z \<le> b \<longrightarrow> (case p z of Inl e \<Rightarrow> load_fault d e | Inr (x, z') \<Rightarrow> P x \<and> left z' \<le> left z))"

lemma sound_ret: "P x \<Longrightarrow> sound d b P (ld_ret x)"
  by (simp add: sound_def ld_ret_def)

lemma sound_fail: "load_fault d e \<Longrightarrow> sound d b P (ld_fail e)"
  by (simp add: sound_def ld_fail_def)

lemma sound_bind:
  assumes "sound d b P p" "\<And>x. P x \<Longrightarrow> sound d b Q (f x)"
  shows "sound d b Q (ld_bind p f)"
  unfolding sound_def
proof (intro allI impI)
  fix z assume z: "left z \<le> b"
  show "case ld_bind p f z of Inl e \<Rightarrow> load_fault d e | Inr (x, z') \<Rightarrow> Q x \<and> left z' \<le> left z"
  proof (cases "p z")
    case (Inl e)
    then show ?thesis using assms(1) z by (auto simp: sound_def ld_bind_def dest!: spec [of _ z])
  next
    case (Inr r)
    obtain x z1 where r: "r = (x, z1)" by (cases r)
    then have x: "P x" "left z1 \<le> left z" using assms(1) z Inr by (auto simp: sound_def dest!: spec [of _ z])
    then have "left z1 \<le> b" using z by simp
    with assms(2) [OF x(1)] have "case f x z1 of Inl e \<Rightarrow> load_fault d e | Inr (x, z') \<Rightarrow> Q x \<and> left z' \<le> left z1"
      unfolding sound_def by blast
    then show ?thesis using Inr r x(2) by (auto simp: ld_bind_def split: sum.splits)
  qed
qed

lemma sound_weaken: "sound d b P p \<Longrightarrow> (\<And>x. P x \<Longrightarrow> Q x) \<Longrightarrow> sound d b Q p"
  unfolding sound_def by (fastforce split: sum.splits)

lemma sound_list: "sound d b P p \<Longrightarrow> sound d b (\<lambda>xs. length xs = n \<and> (\<forall>x\<in>set xs. P x)) (ld_list n p)"
  by (induction n) (auto intro!: sound_ret elim!: sound_bind)

lemma fault_error [simp]: "load_fault d (load_error S m)" "load_fault d memory_error"
  by (simp_all add: load_fault_def load_error_def memory_error_def)

lemma sound_block: "sound d b (\<lambda>bs. length bs = n \<and> n \<le> b) (LoadBlock S n)"
  unfolding sound_def
proof (intro allI impI)
  fix z assume z: "left z \<le> b"
  obtain k bs z' where r: "luaZ_read n z = (k, bs, z')" by (cases "luaZ_read n z")
  from read_left [OF r] show "case LoadBlock S n z of Inl e \<Rightarrow> load_fault d e | Inr (x, z') \<Rightarrow> (length x = n \<and> n \<le> b) \<and> left z' \<le> left z"
    using z by (simp add: LoadBlock_def r)
qed

lemma sound_alloc: "sound d b (\<lambda>_. True) (luaM_newvector S n e)"
  by (simp add: luaM_newvector_def sound_ret sound_fail)

lemma le_value_range: "0 \<le> le_value bs \<and> le_value bs < 256 ^ length bs"
proof -
  have "le_value (le_bytes (length bs) (le_value bs)) = le_value bs mod 256 ^ length bs" by (rule le_value_bytes)
  then have "le_value bs = le_value bs mod 256 ^ length bs" by (simp add: le_bytes_value)
  then show ?thesis by (metis pos_mod_bound pos_mod_sign zero_less_numeral zero_less_power)
qed

lemma sound_byte: "sound d b (\<lambda>x. 0 \<le> x \<and> x < 256) (LoadByte S)"
  unfolding LoadByte_def using le_value_range by (intro sound_bind [OF sound_block] sound_ret) (metis power_one_right)

lemma sound_int: "sound d b in_s32 (LoadInt S)"
  unfolding LoadInt_def by (intro sound_bind [OF sound_block] sound_ret) simp

lemma sound_integer: "sound d b in_s64 (LoadInteger S)"
  unfolding LoadInteger_def by (intro sound_bind [OF sound_block] sound_ret) simp

lemma sound_eight: "sound d b (\<lambda>x. 0 \<le> x \<and> x < 18446744073709551616) (ld_bind (LoadBlock S 8) (\<lambda>bs. ld_ret (le_value bs)))"
proof (intro sound_bind [OF sound_block] sound_ret)
  fix bs :: "byte list" assume "length bs = 8 \<and> 8 \<le> b"
  then show "0 \<le> le_value bs \<and> le_value bs < 18446744073709551616" using le_value_range [of bs] by simp
qed

lemma sound_string:
  assumes "int b < 9223372036854775807"
  shows "sound d b short (LoadString S)"
  unfolding LoadString_def
proof (intro sound_bind [OF sound_byte])
  fix x assume "0 \<le> x \<and> x < (256 :: int)"
  then show "sound d b short (ld_bind (if x = 255 then ld_bind (LoadBlock S 8) (\<lambda>bs. ld_ret (le_value bs)) else ld_ret x)
      (\<lambda>sz. if sz = 0 then ld_ret None else ld_bind (luaM_newvector S (sz - 1) 1) (\<lambda>_.
        ld_bind (LoadBlock S (nat (sz - 1))) (\<lambda>bs. ld_ret (Some bs)))))"
    using assms
    by (intro sound_bind [where P = "\<lambda>_. True"] sound_weaken [OF sound_eight])
      (auto intro!: sound_ret sound_bind [OF sound_alloc] sound_bind [OF sound_block] sound_weaken [OF sound_eight] simp: short_def)
qed

lemma small_nat: "in_s32 n \<Longrightarrow> length xs = nat n \<Longrightarrow> fits_int xs"
  by (auto simp: in_s32_def fits_int_def nat_less_iff)

lemma nat_s32: "in_s32 n \<Longrightarrow> nat n < 2147483648"
  by (auto simp: in_s32_def nat_less_iff)

lemma length_fours: "length (fours bs) = length bs div 4"
  by (induction bs rule: fours.induct) auto

lemma fours_small:
  assumes "int b < 9223372036854775807" "in_s32 n" "length bs = nat (u64 (n * 4)) \<and> nat (u64 (n * 4)) \<le> b"
  shows "fits_int (fours bs)"
proof (cases "0 \<le> n")
  case True
  then have "u64 (n * 4) = n * 4" using assms(2) by (simp add: u64_def in_s32_def)
  then have "length bs = nat (n * 4)" using assms(3) by simp
  then show ?thesis using True assms(2) by (auto simp: fits_int_def length_fours in_s32_def)
next
  case False
  then have "u64 (n * 4) = n * 4 + 18446744073709551616"
    using assms(2) mod_add_self2 [of "n * 4" "18446744073709551616 :: int"] mod_pos_pos_trivial [of "n * 4 + 18446744073709551616" "18446744073709551616 :: int"]
    by (simp add: u64_def in_s32_def)
  then have "n * 4 + 18446744073709551616 \<le> int b" using assms(3) by (metis nat_le_iff)
  then show ?thesis using assms(1,2) by (simp add: in_s32_def)
qed

section \<open>The parts of a function\<close>

lemma sound_code: "int b < 9223372036854775807 \<Longrightarrow> sound d b fits_int (LoadCode S)"
  unfolding LoadCode_def
  by (intro sound_bind [OF sound_int] sound_bind [OF sound_alloc] sound_bind [OF sound_block] sound_ret)
    (use fours_small in \<open>simp add: fits_int_def\<close>)

lemma sound_constant:
  assumes b: "int b < 9223372036854775807"
  shows "sound d b const_ok (LoadConstant S)"
proof -
  have "sound d b const_ok (case s of Some s \<Rightarrow> ld_ret (string_const s) | None \<Rightarrow> ld_fail (Fault NullDeref))" if "short s" for s
    using that by (cases s) (auto intro!: sound_ret sound_fail simp: load_fault_def string_const_def const_ok_def)
  then show ?thesis
    unfolding LoadConstant_def LoadNumber_def
    by (intro sound_bind [OF sound_byte])
      (auto intro!: sound_ret sound_bind [OF sound_byte] sound_bind [OF sound_eight] sound_bind [OF sound_integer]
        sound_bind [OF sound_string [OF b]] simp: const_ok_def)
qed

lemma sound_vector:
  assumes "sound d b P p"
  shows "sound d b (\<lambda>xs. fits_int xs \<and> (\<forall>x\<in>set xs. P x)) (ld_bind (LoadInt S) (\<lambda>n. ld_bind (luaM_newvector S n e) (\<lambda>_. ld_list (nat n) p)))"
  by (intro sound_bind [OF sound_int] sound_bind [OF sound_alloc] sound_weaken [OF sound_list [OF assms]])
    (auto intro: small_nat)

lemma sound_upvalue: "sound d b (\<lambda>u. short (uv_name u)) (LoadUpvalue S)"
  unfolding LoadUpvalue_def
  by (intro sound_bind [OF sound_byte] sound_ret) (simp add: short_def)

lemma sound_constants:
  "int b < 9223372036854775807 \<Longrightarrow> sound d b (\<lambda>k. fits_int k \<and> (\<forall>x\<in>set k. const_ok x)) (LoadConstants S)"
  unfolding LoadConstants_def by (rule sound_vector [OF sound_constant])

lemma sound_upvalues: "sound d b (\<lambda>us. fits_int us \<and> (\<forall>u\<in>set us. short (uv_name u))) (LoadUpvalues S)"
  unfolding LoadUpvalues_def by (rule sound_vector [OF sound_upvalue])

lemma sound_locvar: "int b < 9223372036854775807 \<Longrightarrow> sound d b locvar_ok (LoadLocVar S)"
  unfolding LoadLocVar_def
  by (intro sound_bind [OF sound_string] sound_bind [OF sound_int] sound_ret) (simp_all add: locvar_ok_def)

lemma sound_names:
  assumes b: "int b < 9223372036854775807"
  shows "\<forall>u\<in>set us. short (uv_name u) \<Longrightarrow>
    sound d b (\<lambda>us'. length us' = length us \<and> (\<forall>u\<in>set us'. short (uv_name u))) (LoadNames S n us)"
proof (induction n arbitrary: us)
  case 0
  then show ?case by (simp add: sound_ret)
next
  case (Suc n)
  show ?case
  proof (cases us)
    case Nil
    then show ?thesis by (auto intro!: sound_bind [OF sound_string [OF b]] sound_fail simp: load_fault_def)
  next
    case (Cons u us')
    then show ?thesis using Suc(2)
      by (auto intro!: sound_bind [OF sound_string [OF b]] sound_bind [OF Suc(1)] sound_ret)
  qed
qed

lemma sound_debug:
  assumes b: "int b < 9223372036854775807" and "fits_int us" "\<forall>u\<in>set us. short (uv_name u)"
  shows "sound d b (\<lambda>(li, lv, us). fits_int li \<and> (\<forall>x\<in>set li. in_s32 x) \<and> fits_int lv \<and> (\<forall>v\<in>set lv. locvar_ok v) \<and>
    fits_int us \<and> (\<forall>u\<in>set us. short (uv_name u))) (LoadDebug S us)"
  unfolding LoadDebug_def Let_def
proof (intro sound_bind [OF sound_int] sound_bind [OF sound_alloc] sound_bind [OF sound_block]
    sound_bind [OF sound_list [OF sound_locvar [OF b]]]
    sound_bind [OF sound_names [OF b assms(3)]] sound_ret)
qed (use assms fours_small [OF b] in \<open>auto simp: fits_int_def intro: nat_s32\<close>)

section \<open>Functions and chunks\<close>

lemma string_consumes: "LoadString S z = Inr (s, z') \<Longrightarrow> left z \<le> b \<Longrightarrow> left z' < left z"
proof -
  assume a: "LoadString S z = Inr (s, z')" "left z \<le> b"
  obtain k bs z1 where r: "luaZ_read 1 z = (k, bs, z1)" by (cases "luaZ_read 1 z")
  then have k: "k = 0" using a(1) by (auto simp: LoadString_def LoadByte_def LoadBlock_def ld_bind_def split: if_splits)
  then have z1: "left z = Suc (left z1)" using read_left [OF r] by simp
  let ?rest = "\<lambda>x. ld_bind (if x = 255 then ld_bind (LoadBlock S 8) (\<lambda>bs. ld_ret (le_value bs)) else ld_ret x)
      (\<lambda>sz. if sz = 0 then ld_ret None else ld_bind (luaM_newvector S (sz - 1) 1) (\<lambda>_.
        ld_bind (LoadBlock S (nat (sz - 1))) (\<lambda>bs. ld_ret (Some bs))))"
  have e: "?rest (le_value bs) z1 = Inr (s, z')"
    using a(1) r k by (simp add: LoadString_def LoadByte_def LoadBlock_def ld_bind_def ld_ret_def)
  have "sound d b (\<lambda>_. True) (?rest x)" for x
    by (intro sound_bind [where P = "\<lambda>_. True"])
      (auto intro!: sound_ret sound_bind [OF sound_alloc] sound_bind [OF sound_block])
  from this [of "le_value bs", unfolded sound_def, rule_format, of z1] have "left z' \<le> left z1"
    using e z1 a(2) by simp
  then show ?thesis using z1 by simp
qed

definition function_ok :: "byte list option \<Rightarrow> byte list Proto \<Rightarrow> bool" where
  "function_ok psource f \<longleftrightarrow> proto_ok (\<lambda>s. s) f \<and> (psource \<noteq> None \<longrightarrow> p_source f \<noteq> None)"

lemma sound_function:
  shows "d \<or> b < n \<Longrightarrow> int b < 9223372036854775807 \<Longrightarrow> short psource \<Longrightarrow>
    sound d b (function_ok psource) (LoadFunction n S psource)"
proof (induction n arbitrary: b psource)
  case 0
  then show ?case by (auto intro!: sound_fail simp: load_fault_def)
next
  case (Suc n)
  show ?case unfolding sound_def
  proof (intro allI impI)
    fix z assume z: "left z \<le> b"
    note b = Suc(3)
    have str: "case LoadString S z of Inl e \<Rightarrow> load_fault d e | Inr (s, z') \<Rightarrow> short s \<and> left z' \<le> left z"
      using sound_string [OF b, of d S] z unfolding sound_def by blast
    show "case LoadFunction (Suc n) S psource z of Inl e \<Rightarrow> load_fault d e | Inr (f, z') \<Rightarrow> function_ok psource f \<and> left z' \<le> left z"
    proof (cases "LoadString S z")
      case (Inl e)
      then show ?thesis using str by (simp add: ld_bind_def)
    next
      case (Inr r)
      obtain s z1 where r: "r = (s, z1)" by (cases r)
      let ?src = "case s of None \<Rightarrow> psource | Some _ \<Rightarrow> s"
      let ?rest = "ld_bind (LoadInt S) (\<lambda>linedefined. ld_bind (LoadInt S) (\<lambda>lastlinedefined.
         ld_bind (LoadByte S) (\<lambda>numparams. ld_bind (LoadByte S) (\<lambda>is_vararg. ld_bind (LoadByte S) (\<lambda>maxstacksize.
         ld_bind (LoadCode S) (\<lambda>code. ld_bind (LoadConstants S) (\<lambda>k. ld_bind (LoadUpvalues S) (\<lambda>upvalues.
         ld_bind (ld_bind (LoadInt S) (\<lambda>n'. ld_bind (luaM_newvector S n' 8) (\<lambda>_. ld_list (nat n') (LoadFunction n S ?src)))) (\<lambda>p.
         ld_bind (LoadDebug S upvalues) (\<lambda>(lineinfo, locvars, upvalues).
           ld_ret (Proto (word_of_int numparams) (word_of_int is_vararg) (word_of_int maxstacksize) linedefined lastlinedefined
             k code p lineinfo locvars upvalues ?src)))))))))))"
      have lt: "left z1 < left z" using string_consumes [OF _ z] Inr r by blast
      have src: "short ?src" "psource \<noteq> None \<longrightarrow> ?src \<noteq> None" using str Inr r Suc(4) by (auto split: option.splits)
      have c: "d \<or> left z1 < n" "int (left z1) < 9223372036854775807" using lt z Suc(2,3) by auto
      have sub: "sound d (left z1) (function_ok ?src) (LoadFunction n S ?src)" by (rule Suc(1) [OF c src(1)])
      have "sound d (left z1) (function_ok psource) ?rest"
      proof (intro sound_bind [OF sound_int] sound_bind [OF sound_byte] sound_bind [OF sound_code [OF c(2)]]
          sound_bind [OF sound_constants [OF c(2)]]
          sound_bind [OF sound_upvalues] sound_bind [OF sound_vector [OF sub]])
        fix ld lld np va ms :: int and code :: "32 word list" and k p and us :: "Upvaldesc list"
        assume h: "in_s32 ld" "in_s32 lld" "fits_int code" "fits_int k \<and> (\<forall>x\<in>set k. const_ok x)"
          "fits_int us \<and> (\<forall>u\<in>set us. short (uv_name u))" "fits_int p \<and> (\<forall>f\<in>set p. function_ok ?src f)"
        show "sound d (left z1) (function_ok psource) (ld_bind (LoadDebug S us) (\<lambda>(lineinfo, locvars, upvalues).
           ld_ret (Proto (word_of_int np) (word_of_int va) (word_of_int ms) ld lld k code p lineinfo locvars upvalues ?src)))"
          using h(5) by (intro sound_bind [OF sound_debug [OF c(2)]])
            (use h src in \<open>auto intro!: sound_ret simp: function_ok_def option.map_ident\<close>)
      qed
      then have "case ?rest z1 of Inl e \<Rightarrow> load_fault d e | Inr (f, z') \<Rightarrow> function_ok psource f \<and> left z' \<le> left z1"
        unfolding sound_def by blast
      then show ?thesis using Inr r lt by (auto simp: ld_bind_def Let_def split: sum.splits)
    qed
  qed
qed

lemma sound_check: "sound d b (\<lambda>_. True) p \<Longrightarrow> sound d b (\<lambda>_. True) (check_value S p v msg)"
  unfolding check_value_def by (erule sound_bind) (auto intro!: sound_ret sound_fail)

lemma sound_header: "sound d b (\<lambda>_. True) (checkHeader S)"
proof -
  have lit: "sound d b (\<lambda>_. True) (checkliteral S s msg)" for s msg
    unfolding checkliteral_def by (auto intro!: sound_bind [OF sound_block] sound_ret sound_fail)
  have sz: "sound d b (\<lambda>_. True) (fchecksize S n t)" for n t
    unfolding fchecksize_def by (auto intro!: sound_bind [OF sound_byte] sound_ret sound_fail)
  note byte = sound_check [OF sound_weaken [OF sound_byte]] and eight = sound_check [OF sound_weaken [OF sound_integer]]
  have num: "sound d b (\<lambda>_. True) (LoadNumber S)"
    unfolding LoadNumber_def by (rule sound_weaken [OF sound_eight]) simp
  show ?thesis
    unfolding checkHeader_def
    by (intro sound_bind [OF lit] sound_bind [OF sz] sound_bind [OF byte] sound_bind [OF eight] sound_check [OF num]) simp_all
qed

text \<open>
  C28. Whatever the bytes (fewer than \<open>2 ^ 63 - 1\<close>) and however many nested calls the C stack has room for, a load reads at most
  what there is and ends in one of four ways: with an error message; with one of two accesses that the code does not guard (a string
  constant without a string, names for more upvalues than there are); with the C stack overflowing, which takes at least as many
  bytes as there are calls; or with a function that is as the compiler makes them: all vectors shorter than \<open>2 ^ 31\<close>, all
  numbers in the range of their C types, strings of the kind their length demands, a source in every function nested in one that has
  a source.
\<close>

theorem loads_are_typed:
  assumes "int (left z) < 9223372036854775807"
  shows "case luaU_undump room alloc name z of
      Inl e \<Rightarrow> load_fault (room \<le> left z) e
    | Inr (cl, z') \<Rightarrow> proto_ok (\<lambda>s. s) (cl_p cl) \<and> length (cl_upvals cl) < 256 \<and> left z' \<le> left z"
proof -
  have "short None" by (simp add: short_def)
  have "room \<le> left z \<or> left z < room" by auto
  note f = sound_function [OF this assms \<open>short None\<close>]
  have "sound (room \<le> left z) (left z) (\<lambda>cl. proto_ok (\<lambda>s. s) (cl_p cl) \<and> length (cl_upvals cl) < 256) (luaU_undump room alloc name)"
    unfolding luaU_undump_def Let_def
    by (intro sound_bind [OF sound_header] sound_bind [OF sound_byte] sound_bind [OF f] sound_ret) (auto simp: function_ok_def)
  then have "case luaU_undump room alloc name z of
      Inl e \<Rightarrow> load_fault (room \<le> left z) e
    | Inr (cl, z') \<Rightarrow> (proto_ok (\<lambda>s. s) (cl_p cl) \<and> length (cl_upvals cl) < 256) \<and> left z' \<le> left z"
    unfolding sound_def by blast
  then show ?thesis by (auto split: sum.splits)
qed

lemma loads_are_typed_witness:
  "case luaU_undump 3 (\<lambda>n. True) ''=stdin'' (luaZ_init [[76], [117]]) of
      Inl e \<Rightarrow> load_fault (3 \<le> left (luaZ_init [[76], [117]])) e
    | Inr (cl, z') \<Rightarrow> proto_ok (\<lambda>s. s) (cl_p cl) \<and> length (cl_upvals cl) < 256 \<and> left z' \<le> left (luaZ_init [[76], [117]])"
  by (rule loads_are_typed) (simp add: luaZ_init_def left_def)

text \<open>
  Whatever room the C stack has, there is a chunk for which it overflows: nothing stops the recursion. The chunk is what
  \<open>luaU_dump\<close> writes for functions nested that deep.
\<close>

primrec nested_proto :: "nat \<Rightarrow> nat Proto" where
  "nested_proto 0 = Proto 0 0 0 0 0 [] [] [] [] [] [] None"
| "nested_proto (Suc n) = Proto 0 0 0 0 0 [] [] [nested_proto n] [] [] [] None"

definition overflows :: "'a loader \<Rightarrow> byte list \<Rightarrow> bool" where
  "overflows p bs \<longleftrightarrow> (\<forall>z rest. stream z = bs @ rest \<longrightarrow> p z = Inl (Fault StackOverflow))"

lemma overflows_after: "delivers S p bs x \<Longrightarrow> overflows (f x) bs' \<Longrightarrow> overflows (ld_bind p f) (bs @ bs')"
  unfolding overflows_def
proof (intro allI impI)
  fix z rest assume p: "delivers S p bs x" and f: "\<forall>z rest. stream z = bs' @ rest \<longrightarrow> f x z = Inl (Fault StackOverflow)"
    and "stream z = (bs @ bs') @ rest"
  then have "stream z = bs @ (bs' @ rest)" by simp
  from delivers_ok [OF p this] obtain z1 where "p z = Inr (x, z1)" "stream z1 = bs' @ rest" by blast
  then show "ld_bind p f z = Inl (Fault StackOverflow)" using f by (simp add: ld_bind_def)
qed

lemma overflows_first: "overflows p bs \<Longrightarrow> overflows (ld_bind p f) (bs @ bs')"
  by (simp add: overflows_def ld_bind_def)

lemma overflows_last: "overflows p bs \<Longrightarrow> overflows (ld_bind p f) bs"
  by (simp add: overflows_def ld_bind_def)

lemma nested_overflows:
  assumes S: "ample S"
  shows "overflows (LoadFunction n S None) (concat (DumpFunction str True (nested_proto n) None))"
proof (induction n)
  case 0
  then show ?case by (simp add: overflows_def ld_fail_def)
next
  case (Suc n)
  have e: "concat (DumpFunction str True (nested_proto (Suc n)) None) =
      concat (DumpString None) @ concat (DumpInt 0) @ concat (DumpInt 0) @ concat (DumpByte 0) @ concat (DumpByte 0) @
      concat (DumpByte 0) @ concat (DumpCode []) @ concat (DumpConstants []) @ concat (DumpUpvalues []) @
      (concat (DumpInt 1) @ concat (DumpFunction str True (nested_proto n) None)) @ concat (DumpDebug True [] [] [])"
    by simp
  have list: "overflows (ld_bind (luaM_newvector S 1 8) (\<lambda>_. ld_list (nat 1) (LoadFunction n S None)))
      (concat (DumpFunction str True (nested_proto n) None))"
  proof -
    have "overflows (ld_list (nat 1) (LoadFunction n S None)) (concat (DumpFunction str True (nested_proto n) None))"
      using overflows_last [OF Suc] by simp
    from overflows_after [OF load_alloc [OF S, of 1 8], where f = "\<lambda>_. ld_list (nat 1) (LoadFunction n S None)", OF _ _ this]
    show ?thesis by simp
  qed
  have vec: "fits_int ([] :: 'x list)" by (simp add: fits_int_def)
  show ?case
    unfolding e LoadFunction.simps Let_def
    by (intro overflows_after [OF load_string [OF S]] overflows_after [OF load_int] overflows_after [OF load_byte]
        overflows_after [OF load_code [OF S vec]] overflows_after [OF load_constants [OF S vec]]
        overflows_after [OF load_upvalues [OF S vec]] overflows_first)
      (simp_all add: list [simplified] short_def in_s32_def overflows_after [OF load_int])
qed

lemma deep_chunk_overflows:
  assumes "\<forall>n. 0 \<le> n \<longrightarrow> n < 9223372036854775807 \<longrightarrow> alloc n"
  shows "\<exists>bs. luaU_dump str (nested_proto room) writer [] True = (0, bs) \<and>
    f_parser room alloc text None name (luaZ_init [bs]) = Inl (Fault StackOverflow)"
proof -
  let ?S = "\<lparr>ls_name = display_name name, ls_alloc = alloc\<rparr>" and ?b = "concat (dump_blocks str True (nested_proto room))"
  have S: "ample ?S" using assms by (simp add: ample_def)
  have us: "p_upvalues (nested_proto room) = []" by (cases room) simp_all
  have e: "tl ?b = (tl LUA_SIGNATURE @ concat (tl DumpHeader)) @ concat (DumpByte 0) @ concat (DumpFunction str True (nested_proto room) None)"
    by (simp add: dump_blocks_def DumpHeader_def LUA_SIGNATURE_def us)
  have "overflows (luaU_undump room alloc name) (tl ?b)"
    unfolding luaU_undump_def Let_def e
    by (intro overflows_after [OF load_header] overflows_after [OF load_byte] overflows_last nested_overflows S) simp_all
  moreover have "stream (luaZ_init [?b]) = hd LUA_SIGNATURE # tl ?b"
    using signature_first [of str True "nested_proto room"] by (subst stream_pieces) (auto simp: dump_blocks_def DumpHeader_def LUA_SIGNATURE_def)
  ultimately show ?thesis
    using f_parser_binary [of "luaZ_init [?b]" "tl ?b" None room alloc "text" name]
    by (auto simp: dump_bytes overflows_def ld_bind_def)
qed

end
