(* ===== verification/LuaTable.thy ===== *)
theory LuaTable
  imports LuaApi
begin

text \<open>
  The tables of the embedded Lua (\<open>src/src/logic/scriptengine/lua/ltable.c\<close>): an array part for the keys \<open>1\<close> to
  \<open>sizearray\<close> and a hash part, a chained scatter table with Brent's variation in an array of nodes linked by offsets.

  Pointers into the parts are cells, the pointer \<open>lastfree\<close> an index. The number of bytes of a part stays far below what
  can be addressed, so allocation is taken to succeed; the garbage collector, which turns keys of empty nodes into dead
  keys, does not run.
\<close>

section \<open>Values\<close>

text \<open>
  Floats are given by their bits, strings by their bytes: short strings are interned, so that equal bytes are one object;
  light user data, light C functions and collectable objects by their addresses.
\<close>

datatype tvalue =
    TNil | TBool bool | TLight nat | TInt int | TFlt int | TShr "byte list" | TLng "byte list" | TLcf nat | TGc nat

definition is_zero :: "int \<Rightarrow> bool" where
  "is_zero w \<longleftrightarrow> w mod 9223372036854775808 = 0"

text \<open>\<open>luaV_tointeger\<close> with mode 0 on a number, and \<open>luaV_rawequalobj\<close>.\<close>

definition to_int :: "tvalue \<Rightarrow> int option" where
  "to_int v = (case v of TInt i \<Rightarrow> Some i | TFlt w \<Rightarrow> f2i w | _ \<Rightarrow> None)"

definition rawequal :: "tvalue \<Rightarrow> tvalue \<Rightarrow> bool" where
  "rawequal a b =
     (case (a, b) of
        (TInt i, TFlt w) \<Rightarrow> f2i w = Some i
      | (TFlt w, TInt i) \<Rightarrow> f2i w = Some i
      | (TFlt v, TFlt w) \<Rightarrow> \<not> is_nan v \<and> \<not> is_nan w \<and> (v = w \<or> is_zero v \<and> is_zero w)
      | _ \<Rightarrow> a = b)"

section \<open>Hashes\<close>

text \<open>\<open>luaS_hash\<close> of \<open>lstring.c\<close>: at most 32 bytes of the string enter the hash.\<close>

function hash_loop :: "byte list \<Rightarrow> nat \<Rightarrow> nat \<Rightarrow> 32 word \<Rightarrow> 32 word" where
  "hash_loop str step l1 h =
     (if 0 < step \<and> step \<le> l1
      then hash_loop str step (l1 - step) (h XOR (push_bit 5 h + drop_bit 2 h + ucast (str ! (l1 - 1))))
      else h)"
  by pat_completeness auto
termination by (relation "measure (\<lambda>(_, _, l1, _). l1)") auto

declare hash_loop.simps [simp del]

definition luaS_hash :: "byte list \<Rightarrow> 32 word \<Rightarrow> 32 word" where
  "luaS_hash str seed = hash_loop str (drop_bit 5 (length str) + 1) (length str) (seed XOR of_nat (length str))"

function bit_length :: "int \<Rightarrow> nat" where
  "bit_length m = (if m \<le> 0 then 0 else Suc (bit_length (m div 2)))"
  by pat_completeness auto
termination by (relation "measure nat") auto

declare bit_length.simps [simp del]

text \<open>
  \<open>l_hashfloat\<close>: \<open>frexp\<close> splits the number into a mantissa of one half to one, here times \<open>2 ^ 31\<close> and cut to an
  integer, and an exponent.
\<close>

definition l_hashfloat :: "int \<Rightarrow> int" where
  "l_hashfloat w =
     (let s = w div 9223372036854775808; e = w div 4503599627370496 mod 2048; m = w mod 4503599627370496;
          sign = (if s = 1 then - 1 else 1 :: int);
          (ni, i) =
            (if e \<noteq> 0 then (sign * ((4503599627370496 + m) div 4194304), e - 1022)
             else if m = 0 then (0, 0)
             else (sign * (m * 2147483648 div 2 ^ bit_length m), int (bit_length m) - 1074)) in
      if e = 2047 then 0
      else (let u = u32 (i + ni) in if u \<le> 2147483647 then u else 4294967295 - u))"

definition lmod :: "int \<Rightarrow> nat \<Rightarrow> nat" where
  "lmod n sz = nat (n AND (int sz - 1))"

definition hashmod :: "int \<Rightarrow> nat \<Rightarrow> nat" where
  "hashmod n sz = nat (n mod ((int sz - 1) OR 1))"

definition point2uint :: "nat \<Rightarrow> int" where
  "point2uint p = u32 (int p)"

text \<open>\<open>mainposition\<close> in a hash part of \<open>size\<close> nodes; the nil key is looked up as an object with address zero.\<close>

definition mainposition :: "32 word \<Rightarrow> nat \<Rightarrow> tvalue \<Rightarrow> nat" where
  "mainposition seed sz key =
     (case key of
        TInt i \<Rightarrow> lmod i sz
      | TFlt w \<Rightarrow> hashmod (l_hashfloat w) sz
      | TShr s \<Rightarrow> lmod (uint (luaS_hash s seed)) sz
      | TLng s \<Rightarrow> lmod (uint (luaS_hash s seed)) sz
      | TBool b \<Rightarrow> lmod (if b then 1 else 0) sz
      | TLight p \<Rightarrow> hashmod (point2uint p) sz
      | TLcf p \<Rightarrow> hashmod (point2uint p) sz
      | TGc p \<Rightarrow> hashmod (point2uint p) sz
      | TNil \<Rightarrow> hashmod (point2uint 0) sz)"

section \<open>Tables\<close>

record lnode =
  nd_val :: tvalue
  nd_key :: tvalue
  nd_next :: int

definition empty_node :: lnode where
  "empty_node = \<lparr>nd_val = TNil, nd_key = TNil, nd_next = 0\<rparr>"

text \<open>\<open>tb_dummy\<close>: the hash part is the shared \<open>dummynode\<close>, a table of one node that is never written.\<close>

record ltable =
  tb_array :: "tvalue list"
  tb_node :: "lnode list"
  tb_dummy :: bool
  tb_lastfree :: nat

datatype cell = ArrCell nat | NodeCell nat

definition cell_get :: "ltable \<Rightarrow> cell \<Rightarrow> tvalue" where
  "cell_get t c = (case c of ArrCell i \<Rightarrow> tb_array t ! i | NodeCell i \<Rightarrow> nd_val (tb_node t ! i))"

definition set_val :: "nat \<Rightarrow> tvalue \<Rightarrow> lnode list \<Rightarrow> lnode list" where
  "set_val i v ns = ns[i := (ns ! i)\<lparr>nd_val := v\<rparr>]"

definition set_key :: "nat \<Rightarrow> tvalue \<Rightarrow> lnode list \<Rightarrow> lnode list" where
  "set_key i k ns = ns[i := (ns ! i)\<lparr>nd_key := k\<rparr>]"

definition set_next :: "nat \<Rightarrow> int \<Rightarrow> lnode list \<Rightarrow> lnode list" where
  "set_next i d ns = ns[i := (ns ! i)\<lparr>nd_next := d\<rparr>]"

definition cell_put :: "cell \<Rightarrow> tvalue \<Rightarrow> ltable \<Rightarrow> ltable" where
  "cell_put c v t =
     (case c of
        ArrCell i \<Rightarrow> t\<lparr>tb_array := (tb_array t)[i := v]\<rparr>
      | NodeCell i \<Rightarrow> t\<lparr>tb_node := set_val i v (tb_node t)\<rparr>)"

definition MAXABITS :: nat where "MAXABITS = 31"
definition MAXASIZE :: int where "MAXASIZE = 2147483648"
definition MAXHBITS :: nat where "MAXHBITS = 30"

section \<open>Searching\<close>

text \<open>
  The search loops: from the main position along the offsets, until a key \<open>eq\<close> accepts or the offset is zero. The fuel is
  one more than the number of nodes.
\<close>

fun find_chain :: "nat \<Rightarrow> (tvalue \<Rightarrow> bool) \<Rightarrow> lnode list \<Rightarrow> int \<Rightarrow> fault + nat option" where
  "find_chain 0 eq ns i = Inl OutOfFuel"
| "find_chain (Suc f) eq ns i =
     (if i < 0 \<or> int (length ns) \<le> i then Inl OutOfBounds
      else let n = ns ! nat i in
        if eq (nd_key n) then Inr (Some (nat i))
        else if nd_next n = 0 then Inr None
        else find_chain f eq ns (i + nd_next n))"

definition search :: "32 word \<Rightarrow> ltable \<Rightarrow> tvalue \<Rightarrow> (tvalue \<Rightarrow> bool) \<Rightarrow> fault + cell option" where
  "search seed t key eq =
     res_bind (find_chain (Suc (length (tb_node t))) eq (tb_node t) (int (mainposition seed (length (tb_node t)) key)))
       (\<lambda>r. Inr (map_option NodeCell r))"

definition luaH_getint :: "32 word \<Rightarrow> ltable \<Rightarrow> int \<Rightarrow> fault + cell option" where
  "luaH_getint seed t key =
     (if u64 (key - 1) < int (length (tb_array t)) then Inr (Some (ArrCell (nat (key - 1))))
      else search seed t (TInt key) (\<lambda>k. k = TInt key))"

definition luaH_getstr :: "32 word \<Rightarrow> ltable \<Rightarrow> byte list \<Rightarrow> fault + cell option" where
  "luaH_getstr seed t key = search seed t (TShr key) (\<lambda>k. k = TShr key)"

definition luaH_get :: "32 word \<Rightarrow> ltable \<Rightarrow> tvalue \<Rightarrow> fault + cell option" where
  "luaH_get seed t key =
     (case key of
        TShr s \<Rightarrow> luaH_getstr seed t s
      | TInt i \<Rightarrow> luaH_getint seed t i
      | TNil \<Rightarrow> Inr None
      | TFlt w \<Rightarrow> (case f2i w of Some k \<Rightarrow> luaH_getint seed t k | None \<Rightarrow> search seed t key (\<lambda>k. rawequal k key))
      | _ \<Rightarrow> search seed t key (\<lambda>k. rawequal k key))"

text \<open>What a reader of the table sees: the value in the cell, nil for the shared nil object.\<close>

definition luaH_value :: "32 word \<Rightarrow> ltable \<Rightarrow> tvalue \<Rightarrow> fault + tvalue" where
  "luaH_value seed t key =
     res_bind (luaH_get seed t key) (\<lambda>c. Inr (case c of None \<Rightarrow> TNil | Some c \<Rightarrow> cell_get t c))"

section \<open>Counting integer keys\<close>

definition arrayindex :: "tvalue \<Rightarrow> nat" where
  "arrayindex key = (case key of TInt k \<Rightarrow> (if 0 < k \<and> k \<le> MAXASIZE then nat k else 0) | _ \<Rightarrow> 0)"

text \<open>
  \<open>computesizes\<close>: \<open>twotoi\<close> is an \<open>unsigned int\<close>, and \<open>nums\<close> has \<open>MAXABITS + 1\<close> entries.
\<close>

function computesizes_loop :: "nat list \<Rightarrow> nat \<Rightarrow> nat \<Rightarrow> nat \<Rightarrow> nat \<Rightarrow> nat \<Rightarrow> nat \<Rightarrow> fault + nat \<times> nat" where
  "computesizes_loop nums pna i twotoi a na optimal =
     (if pna > twotoi div 2 then
        (if length nums \<le> i then Inl OutOfBounds
         else if nums ! i > 0 then
           (let a' = a + nums ! i in
            if a' > twotoi div 2
            then computesizes_loop nums pna (Suc i) (twotoi * 2 mod 4294967296) a' a' twotoi
            else computesizes_loop nums pna (Suc i) (twotoi * 2 mod 4294967296) a' na optimal)
         else computesizes_loop nums pna (Suc i) (twotoi * 2 mod 4294967296) a na optimal)
      else Inr (optimal, na))"
  by pat_completeness auto
termination by (relation "measure (\<lambda>(nums, _, i, _). length nums - i)") auto

declare computesizes_loop.simps [simp del]

text \<open>The optimal size and the number of keys that will go to the array part.\<close>

definition computesizes :: "nat list \<Rightarrow> nat \<Rightarrow> fault + nat \<times> nat" where
  "computesizes nums pna = computesizes_loop nums pna 0 1 0 0 0"

definition bump :: "nat list \<Rightarrow> nat \<Rightarrow> nat \<Rightarrow> nat list" where
  "bump nums i n = nums[i := nums ! i + n]"

definition countint :: "tvalue \<Rightarrow> nat list \<Rightarrow> nat \<times> nat list" where
  "countint key nums =
     (let k = arrayindex key in if k \<noteq> 0 then (1, bump nums (luaO_ceillog2 k) 1) else (0, nums))"

text \<open>One slice of \<open>numusearray\<close>: the used keys from \<open>i\<close> to \<open>lim\<close>.\<close>

definition count_slice :: "tvalue list \<Rightarrow> nat \<Rightarrow> nat \<Rightarrow> nat" where
  "count_slice arr i lim = length (filter (\<lambda>j. arr ! (j - 1) \<noteq> TNil) [i..<Suc lim])"

function numusearray_loop :: "tvalue list \<Rightarrow> nat list \<Rightarrow> nat \<Rightarrow> nat \<Rightarrow> nat \<Rightarrow> nat \<times> nat list" where
  "numusearray_loop arr nums ause i lg =
     (if lg \<le> MAXABITS then
        (let ttlg = 2 ^ lg; lim = (if ttlg > length arr then length arr else ttlg) in
         if ttlg > length arr \<and> i > lim then (ause, nums)
         else let lc = count_slice arr i lim in
           numusearray_loop arr (bump nums lg lc) (ause + lc) (max i (Suc lim)) (Suc lg))
      else (ause, nums))"
  by pat_completeness auto
termination by (relation "measure (\<lambda>(_, _, _, _, lg). Suc MAXABITS - lg)") auto

declare numusearray_loop.simps [simp del]

definition numusearray :: "ltable \<Rightarrow> nat list \<Rightarrow> nat \<times> nat list" where
  "numusearray t nums = numusearray_loop (tb_array t) nums 0 1 0"

text \<open>From the last node to the first: the used nodes, those with array indices, and the counts.\<close>

fun numusehash_loop :: "lnode list \<Rightarrow> nat \<Rightarrow> nat \<Rightarrow> nat list \<Rightarrow> nat \<times> nat \<times> nat list" where
  "numusehash_loop [] totaluse ause nums = (totaluse, ause, nums)"
| "numusehash_loop (n # ns) totaluse ause nums =
     (if nd_val n \<noteq> TNil
      then (let (c, nums') = countint (nd_key n) nums in numusehash_loop ns (Suc totaluse) (ause + c) nums')
      else numusehash_loop ns totaluse ause nums)"

definition numusehash :: "ltable \<Rightarrow> nat list \<Rightarrow> nat \<times> nat \<times> nat list" where
  "numusehash t nums = numusehash_loop (rev (tb_node t)) 0 0 nums"

section \<open>Resizing and inserting\<close>

definition setarrayvector :: "nat \<Rightarrow> ltable \<Rightarrow> ltable" where
  "setarrayvector sz t =
     t\<lparr>tb_array := take sz (tb_array t) @ replicate (sz - length (tb_array t)) TNil\<rparr>"

definition setnodevector :: "nat \<Rightarrow> ltable \<Rightarrow> lua_error + ltable" where
  "setnodevector sz t =
     (if sz = 0 then Inr (t\<lparr>tb_node := [empty_node], tb_dummy := True, tb_lastfree := 0\<rparr>)
      else let lsize = luaO_ceillog2 sz in
        if lsize > MAXHBITS then Inl (LuaError ''table overflow'')
        else Inr (t\<lparr>tb_node := replicate (2 ^ lsize) empty_node, tb_dummy := False, tb_lastfree := 2 ^ lsize\<rparr>))"

definition luaH_new :: ltable where
  "luaH_new = \<lparr>tb_array = [], tb_node = [empty_node], tb_dummy = True, tb_lastfree = 0\<rparr>"

text \<open>
  \<open>luaH_set\<close>, \<open>luaH_setint\<close>, \<open>luaH_resize\<close>, \<open>rehash\<close> and \<open>luaH_newkey\<close> call one another; the first four take the
  last, \<open>nk\<close>, as an argument.
\<close>

type_synonym newkey = "ltable \<Rightarrow> tvalue \<Rightarrow> lua_error + cell \<times> ltable"

definition set_with :: "newkey \<Rightarrow> 32 word \<Rightarrow> ltable \<Rightarrow> tvalue \<Rightarrow> lua_error + cell \<times> ltable" where
  "set_with nk seed t key =
     res_bind (of_fault (luaH_get seed t key)) (\<lambda>p. case p of Some c \<Rightarrow> Inr (c, t) | None \<Rightarrow> nk t key)"

definition setint_with :: "newkey \<Rightarrow> 32 word \<Rightarrow> ltable \<Rightarrow> int \<Rightarrow> tvalue \<Rightarrow> lua_error + ltable" where
  "setint_with nk seed t key v =
     res_bind (of_fault (luaH_getint seed t key)) (\<lambda>p.
     res_bind (case p of Some c \<Rightarrow> Inr (c, t) | None \<Rightarrow> nk t (TInt key)) (\<lambda>(c, t). Inr (cell_put c v t)))"

text \<open>The elements of the vanishing slice, then those of the old nodes from the last to the first.\<close>

fun reinsert_array :: "newkey \<Rightarrow> 32 word \<Rightarrow> nat \<Rightarrow> tvalue list \<Rightarrow> ltable \<Rightarrow> lua_error + ltable" where
  "reinsert_array nk seed i [] t = Inr t"
| "reinsert_array nk seed i (v # vs) t =
     res_bind (if v \<noteq> TNil then setint_with nk seed t (int (i + 1)) v else Inr t) (reinsert_array nk seed (Suc i) vs)"

fun reinsert_nodes :: "newkey \<Rightarrow> 32 word \<Rightarrow> lnode list \<Rightarrow> ltable \<Rightarrow> lua_error + ltable" where
  "reinsert_nodes nk seed [] t = Inr t"
| "reinsert_nodes nk seed (n # ns) t =
     res_bind
       (if nd_val n \<noteq> TNil
        then res_bind (set_with nk seed t (nd_key n)) (\<lambda>(c, t). Inr (cell_put c (nd_val n) t))
        else Inr t)
       (reinsert_nodes nk seed ns)"

definition resize_with :: "newkey \<Rightarrow> 32 word \<Rightarrow> ltable \<Rightarrow> nat \<Rightarrow> nat \<Rightarrow> lua_error + ltable" where
  "resize_with nk seed t nasize nhsize =
     (let oldasize = length (tb_array t);
          t1 = (if nasize > oldasize then setarrayvector nasize t else t) in
      res_bind (setnodevector nhsize t1) (\<lambda>t2.
      res_bind
        (if nasize < oldasize
         then reinsert_array nk seed nasize (drop nasize (tb_array t)) (t2\<lparr>tb_array := take nasize (tb_array t)\<rparr>)
         else Inr t2)
        (reinsert_nodes nk seed (rev (tb_node t)))))"

definition rehash_with :: "newkey \<Rightarrow> 32 word \<Rightarrow> ltable \<Rightarrow> tvalue \<Rightarrow> lua_error + ltable" where
  "rehash_with nk seed t ek =
     (let (na0, nums0) = numusearray t (replicate (Suc MAXABITS) 0);
          (hashuse, ause, nums1) = numusehash t nums0;
          (c, nums2) = countint ek nums1;
          totaluse = na0 + hashuse + 1 in
      res_bind (of_fault (computesizes nums2 (na0 + ause + c))) (\<lambda>(asize, na).
      resize_with nk seed t asize (totaluse - na)))"

text \<open>\<open>getfreepos\<close>: the new \<open>lastfree\<close> and the place, if there is one.\<close>

fun getfreepos :: "lnode list \<Rightarrow> nat \<Rightarrow> nat \<times> nat option" where
  "getfreepos ns 0 = (0, None)"
| "getfreepos ns (Suc p) = (if nd_key (ns ! p) = TNil then (p, Some p) else getfreepos ns p)"

text \<open>The search for the node before \<open>mp\<close>, from the main position of its key.\<close>

fun find_previous :: "nat \<Rightarrow> lnode list \<Rightarrow> int \<Rightarrow> int \<Rightarrow> fault + nat" where
  "find_previous 0 ns othern mp = Inl OutOfFuel"
| "find_previous (Suc f) ns othern mp =
     (if othern < 0 \<or> int (length ns) \<le> othern then Inl OutOfBounds
      else if othern + nd_next (ns ! nat othern) = mp then Inr (nat othern)
      else find_previous f ns (othern + nd_next (ns ! nat othern)) mp)"

definition key_for_insert :: "tvalue \<Rightarrow> lua_error + tvalue" where
  "key_for_insert key =
     (case key of
        TNil \<Rightarrow> Inl (LuaError ''table index is nil'')
      | TFlt w \<Rightarrow>
          (case f2i w of
             Some k \<Rightarrow> Inr (TInt k)
           | None \<Rightarrow> if is_nan w then Inl (LuaError ''table index is NaN'') else Inr key)
      | _ \<Rightarrow> Inr key)"

text \<open>The colliding node \<open>mp\<close> moves to the free place \<open>f\<close>; \<open>p\<close> is its predecessor.\<close>

definition move_node :: "nat \<Rightarrow> nat \<Rightarrow> nat \<Rightarrow> lnode list \<Rightarrow> lnode list" where
  "move_node p mp f ns =
     (let ns1 = set_next p (int f - int p) ns;
          ns2 = ns1[f := ns1 ! mp];
          ns3 = (if nd_next (ns2 ! mp) \<noteq> 0
                 then set_next mp 0 (set_next f (nd_next (ns2 ! f) + (int mp - int f)) ns2) else ns2) in
      set_val mp TNil ns3)"

text \<open>The new node goes to the free place \<open>f\<close>, behind the colliding node \<open>mp\<close> in its chain.\<close>

definition chain_node :: "nat \<Rightarrow> nat \<Rightarrow> lnode list \<Rightarrow> lnode list" where
  "chain_node mp f ns =
     (let ns1 = (if nd_next (ns ! mp) \<noteq> 0 then set_next f (int mp + nd_next (ns ! mp) - int f) ns else ns) in
      set_next mp (int f - int mp) ns1)"

definition newkey_with :: "newkey \<Rightarrow> 32 word \<Rightarrow> ltable \<Rightarrow> tvalue \<Rightarrow> lua_error + cell \<times> ltable" where
  "newkey_with nk seed t key0 =
     res_bind (key_for_insert key0) (\<lambda>key.
     let ns = tb_node t; mp = mainposition seed (length ns) key in
     if nd_val (ns ! mp) \<noteq> TNil \<or> tb_dummy t then
       (case getfreepos ns (tb_lastfree t) of
          (lf, None) \<Rightarrow>
            res_bind (rehash_with nk seed (t\<lparr>tb_lastfree := lf\<rparr>) key) (\<lambda>t. set_with nk seed t key)
        | (lf, Some f) \<Rightarrow>
            let othern = mainposition seed (length ns) (nd_key (ns ! mp)) in
            if othern \<noteq> mp then
              res_bind (of_fault (find_previous (Suc (length ns)) ns (int othern) (int mp))) (\<lambda>p.
              Inr (NodeCell mp, t\<lparr>tb_node := set_key mp key (move_node p mp f ns), tb_lastfree := lf\<rparr>))
            else Inr (NodeCell f, t\<lparr>tb_node := set_key f key (chain_node mp f ns), tb_lastfree := lf\<rparr>))
     else Inr (NodeCell mp, t\<lparr>tb_node := set_key mp key ns\<rparr>))"

primrec luaH_newkey :: "nat \<Rightarrow> 32 word \<Rightarrow> newkey" where
  "luaH_newkey 0 seed = (\<lambda>t key. Inl (Fault OutOfFuel))"
| "luaH_newkey (Suc n) seed = newkey_with (luaH_newkey n seed) seed"

definition luaH_set :: "nat \<Rightarrow> 32 word \<Rightarrow> ltable \<Rightarrow> tvalue \<Rightarrow> lua_error + cell \<times> ltable" where
  "luaH_set n seed = set_with (luaH_newkey n seed) seed"

definition luaH_setint :: "nat \<Rightarrow> 32 word \<Rightarrow> ltable \<Rightarrow> int \<Rightarrow> tvalue \<Rightarrow> lua_error + ltable" where
  "luaH_setint n seed = setint_with (luaH_newkey n seed) seed"

definition luaH_resize :: "nat \<Rightarrow> 32 word \<Rightarrow> ltable \<Rightarrow> nat \<Rightarrow> nat \<Rightarrow> lua_error + ltable" where
  "luaH_resize n seed = resize_with (luaH_newkey n seed) seed"

definition luaH_resizearray :: "nat \<Rightarrow> 32 word \<Rightarrow> ltable \<Rightarrow> nat \<Rightarrow> lua_error + ltable" where
  "luaH_resizearray n seed t nasize = luaH_resize n seed t nasize (if tb_dummy t then 0 else length (tb_node t))"

text \<open>A store through the API: the cell for the key, then the value.\<close>

definition table_store :: "nat \<Rightarrow> 32 word \<Rightarrow> ltable \<Rightarrow> tvalue \<Rightarrow> tvalue \<Rightarrow> lua_error + ltable" where
  "table_store n seed t key v = res_bind (luaH_set n seed t key) (\<lambda>(c, t). Inr (cell_put c v t))"

end
