(* ===== verification/LuaTableChain.thy ===== *)
theory LuaTableChain
  imports LuaTable
begin

text \<open>
  The hash part of a Lua table as a chained scatter table: the invariant of its links, the search along a chain, and the
  three ways a new key is put in. The main position of a key is the interface: any function into the nodes will do.
\<close>

section \<open>The invariant\<close>

definition edges :: "lnode list \<Rightarrow> (nat \<times> nat) set" where
  "edges ns = {(i, j). i < length ns \<and> nd_next (ns ! i) \<noteq> 0 \<and> int j = int i + nd_next (ns ! i)}"

abbreviation (input) key_at :: "lnode list \<Rightarrow> nat \<Rightarrow> tvalue" where "key_at ns i \<equiv> nd_key (ns ! i)"
abbreviation (input) val_at :: "lnode list \<Rightarrow> nat \<Rightarrow> tvalue" where "val_at ns i \<equiv> nd_val (ns ! i)"

text \<open>
  Links stay inside and lead to used nodes, no two to the same one and never round in a circle; a free node is blank; a
  key is reachable from its main position, and there lies a key in its own main position; no key occurs twice.
\<close>

definition chain_ok :: "(tvalue \<Rightarrow> nat) \<Rightarrow> lnode list \<Rightarrow> bool" where
  "chain_ok mp ns \<longleftrightarrow>
     (\<forall>i<length ns. nd_next (ns ! i) \<noteq> 0 \<longrightarrow>
        (\<exists>j<length ns. int j = int i + nd_next (ns ! i) \<and> key_at ns j \<noteq> TNil)) \<and>
     (\<forall>i j k. (i, k) \<in> edges ns \<longrightarrow> (j, k) \<in> edges ns \<longrightarrow> i = j) \<and>
     acyclic (edges ns) \<and>
     (\<forall>i<length ns. key_at ns i = TNil \<longrightarrow> val_at ns i = TNil \<and> nd_next (ns ! i) = 0) \<and>
     (\<forall>i<length ns. key_at ns i \<noteq> TNil \<longrightarrow> (mp (key_at ns i), i) \<in> (edges ns)\<^sup>* \<and>
        key_at ns (mp (key_at ns i)) \<noteq> TNil \<and> mp (key_at ns (mp (key_at ns i))) = mp (key_at ns i)) \<and>
     (\<forall>i<length ns. \<forall>j<length ns. key_at ns i = key_at ns j \<longrightarrow> key_at ns i \<noteq> TNil \<longrightarrow> i = j)"

lemma edgesI: "i < length ns \<Longrightarrow> nd_next (ns ! i) \<noteq> 0 \<Longrightarrow> int j = int i + nd_next (ns ! i) \<Longrightarrow> (i, j) \<in> edges ns"
  by (simp add: edges_def)

lemma edges_functional: "(i, j) \<in> edges ns \<Longrightarrow> (i, k) \<in> edges ns \<Longrightarrow> j = k"
  by (auto simp: edges_def)

lemma next_target:
  "chain_ok mp ns \<Longrightarrow> i < length ns \<Longrightarrow> nd_next (ns ! i) \<noteq> 0 \<Longrightarrow>
     \<exists>j<length ns. int j = int i + nd_next (ns ! i) \<and> key_at ns j \<noteq> TNil"
  unfolding chain_ok_def by blast

lemma edges_injective: "chain_ok mp ns \<Longrightarrow> (i, k) \<in> edges ns \<Longrightarrow> (j, k) \<in> edges ns \<Longrightarrow> i = j"
  unfolding chain_ok_def by blast

lemma acyclicD: "chain_ok mp ns \<Longrightarrow> (i, i) \<notin> (edges ns)\<^sup>+"
  by (simp add: chain_ok_def acyclic_def)

lemma blank: "chain_ok mp ns \<Longrightarrow> i < length ns \<Longrightarrow> key_at ns i = TNil \<Longrightarrow> val_at ns i = TNil \<and> nd_next (ns ! i) = 0"
  unfolding chain_ok_def by blast

lemma keys_unique:
  "chain_ok mp ns \<Longrightarrow> i < length ns \<Longrightarrow> j < length ns \<Longrightarrow> key_at ns i = key_at ns j \<Longrightarrow> key_at ns i \<noteq> TNil \<Longrightarrow> i = j"
  unfolding chain_ok_def by blast

lemma edges_target:
  assumes "chain_ok mp ns" "(i, j) \<in> edges ns"
  shows "i < length ns" "j < length ns" "key_at ns j \<noteq> TNil" "key_at ns i \<noteq> TNil"
proof -
  have i: "i < length ns" "nd_next (ns ! i) \<noteq> 0" "int j = int i + nd_next (ns ! i)" using assms(2) by (auto simp: edges_def)
  from next_target [OF assms(1) i(1,2)] obtain j' where "j' < length ns" "int j' = int i + nd_next (ns ! i)" "key_at ns j' \<noteq> TNil"
    by blast
  moreover from this have "j' = j" using i by simp
  ultimately show "i < length ns" "j < length ns" "key_at ns j \<noteq> TNil" using i by auto
  show "key_at ns i \<noteq> TNil" using blank [OF assms(1) i(1)] i(2) by blast
qed

lemma home:
  assumes "chain_ok mp ns" "i < length ns" "key_at ns i \<noteq> TNil"
  shows "(mp (key_at ns i), i) \<in> (edges ns)\<^sup>*" "key_at ns (mp (key_at ns i)) \<noteq> TNil"
    "mp (key_at ns (mp (key_at ns i))) = mp (key_at ns i)" "mp (key_at ns i) < length ns"
proof -
  show r: "(mp (key_at ns i), i) \<in> (edges ns)\<^sup>*" "key_at ns (mp (key_at ns i)) \<noteq> TNil"
    "mp (key_at ns (mp (key_at ns i))) = mp (key_at ns i)"
    using assms unfolding chain_ok_def by blast+
  show "mp (key_at ns i) < length ns"
    using r(1) assms(2) edges_target(1) [OF assms(1)] by (cases rule: converse_rtranclE) auto
qed

lemma acyclic_rank: "(\<And>i j. (i, j) \<in> E \<Longrightarrow> r j < (r i :: nat)) \<Longrightarrow> acyclic E"
proof -
  assume r: "\<And>i j. (i, j) \<in> E \<Longrightarrow> r j < r i"
  have "r j < r i" if "(i, j) \<in> E\<^sup>+" for i j
    using that by (induction rule: trancl_induct) (use r in \<open>force+\<close>)
  then show ?thesis by (auto simp: acyclic_def)
qed

text \<open>The invariant from a description \<open>E\<close> of the links, with a rank that falls along them.\<close>

lemma chain_okI:
  assumes E: "edges ns = E"
    and next_E: "\<And>i. i < length ns \<Longrightarrow> nd_next (ns ! i) \<noteq> 0 \<Longrightarrow> \<exists>j. (i, j) \<in> E"
    and target: "\<And>i j. (i, j) \<in> E \<Longrightarrow> j < length ns \<and> key_at ns j \<noteq> TNil"
    and inj: "\<And>i j k. (i, k) \<in> E \<Longrightarrow> (j, k) \<in> E \<Longrightarrow> i = j"
    and rank: "\<And>i j. (i, j) \<in> E \<Longrightarrow> r j < (r i :: nat)"
    and blank: "\<And>i. i < length ns \<Longrightarrow> key_at ns i = TNil \<Longrightarrow> val_at ns i = TNil \<and> nd_next (ns ! i) = 0"
    and home: "\<And>i. i < length ns \<Longrightarrow> key_at ns i \<noteq> TNil \<Longrightarrow> (mp (key_at ns i), i) \<in> E\<^sup>* \<and>
        key_at ns (mp (key_at ns i)) \<noteq> TNil \<and> mp (key_at ns (mp (key_at ns i))) = mp (key_at ns i)"
    and unique: "\<And>i j. i < length ns \<Longrightarrow> j < length ns \<Longrightarrow> key_at ns i = key_at ns j \<Longrightarrow> key_at ns i \<noteq> TNil \<Longrightarrow> i = j"
  shows "chain_ok mp ns"
  unfolding chain_ok_def E
proof (intro conjI allI impI)
  fix i assume i: "i < length ns"
  show "\<exists>j<length ns. int j = int i + nd_next (ns ! i) \<and> key_at ns j \<noteq> TNil" if "nd_next (ns ! i) \<noteq> 0"
  proof -
    from next_E [OF i that] obtain j where j: "(i, j) \<in> E" by blast
    then have "int j = int i + nd_next (ns ! i)" unfolding E [symmetric] edges_def by simp
    then show ?thesis using target [OF j] by blast
  qed
  show "val_at ns i = TNil" "nd_next (ns ! i) = 0" if "key_at ns i = TNil" using blank [OF i that] by blast+
  show "(mp (key_at ns i), i) \<in> E\<^sup>*" "key_at ns (mp (key_at ns i)) \<noteq> TNil"
    "mp (key_at ns (mp (key_at ns i))) = mp (key_at ns i)" if "key_at ns i \<noteq> TNil" using home [OF i that] by blast+
  show "i = j" if "j < length ns" "key_at ns i = key_at ns j" "key_at ns i \<noteq> TNil" for j
    by (rule unique [OF i that])
next
  show "i = j" if "(i, k) \<in> E" "(j, k) \<in> E" for i j k by (rule inj [OF that])
  show "acyclic E" by (rule acyclic_rank) (rule rank)
qed

definition reach :: "lnode list \<Rightarrow> nat \<Rightarrow> nat set" where
  "reach ns i = {j. (i, j) \<in> (edges ns)\<^sup>*}"

lemma reach_self [simp]: "i \<in> reach ns i"
  by (simp add: reach_def)

lemma reach_step: "(i, j) \<in> edges ns \<Longrightarrow> reach ns i = insert i (reach ns j)"
proof -
  assume e: "(i, j) \<in> edges ns"
  have "(j, x) \<in> (edges ns)\<^sup>*" if "(i, x) \<in> (edges ns)\<^sup>*" "x \<noteq> i" for x
    using that(1) by (cases rule: converse_rtranclE) (use that(2) edges_functional [OF e] in auto)
  then show ?thesis using e unfolding reach_def by (auto intro: converse_rtrancl_into_rtrancl)
qed

lemma reach_end: "nd_next (ns ! i) = 0 \<Longrightarrow> reach ns i = {i}"
  unfolding reach_def by (auto elim!: converse_rtranclE simp: edges_def)

lemma reach_bound:
  assumes "chain_ok mp ns" "i < length ns"
  shows "reach ns i \<subseteq> {..<length ns}" "finite (reach ns i)" "card (reach ns i) \<le> length ns"
proof -
  show s: "reach ns i \<subseteq> {..<length ns}"
  proof
    fix j assume "j \<in> reach ns i"
    then have "(i, j) \<in> (edges ns)\<^sup>*" by (simp add: reach_def)
    then show "j \<in> {..<length ns}" using assms(2) edges_target(2) [OF assms(1)] by (induction rule: rtrancl_induct) auto
  qed
  then show "finite (reach ns i)" using finite_subset by blast
  show "card (reach ns i) \<le> length ns" using card_mono [OF _ s] by simp
qed

lemma reach_pos:
  assumes "chain_ok mp ns" "i < length ns"
  shows "0 < card (reach ns i)"
proof -
  have "reach ns i \<noteq> {}" by (rule ex_in_conv [THEN iffD1]) (rule exI [of _ i], simp)
  then show ?thesis using reach_bound(2) [OF assms] by (simp add: card_gt_0_iff)
qed

lemma reach_card:
  assumes "chain_ok mp ns" "(i, j) \<in> edges ns"
  shows "card (reach ns i) = Suc (card (reach ns j))"
proof -
  have "i \<notin> reach ns j"
  proof
    assume "i \<in> reach ns j"
    then have "(i, i) \<in> (edges ns)\<^sup>+" using assms(2) by (simp add: reach_def rtrancl_into_trancl2)
    then show False using assms(1) by (simp add: chain_ok_def acyclic_def)
  qed
  then show ?thesis
    using reach_step [OF assms(2)] reach_bound(2) [OF assms(1) edges_target(2) [OF assms]] by simp
qed

section \<open>Searching\<close>

lemma find_chain_spec:
  assumes "chain_ok mp ns" "i < length ns" "card (reach ns i) \<le> f"
  shows "\<exists>r. find_chain f eq ns (int i) = Inr r \<and>
    (case r of Some j \<Rightarrow> j \<in> reach ns i \<and> eq (key_at ns j) | None \<Rightarrow> \<forall>j\<in>reach ns i. \<not> eq (key_at ns j))"
  using assms(2,3)
proof (induction f arbitrary: i)
  case 0
  have "finite (reach ns i)" using reach_bound(2) [OF assms(1) 0(1)] .
  then show ?case using 0 by (metis card_0_eq empty_iff le_zero_eq reach_self)
next
  case (Suc f)
  show ?case
  proof (cases "eq (key_at ns i) \<or> nd_next (ns ! i) = 0")
    case True
    show ?thesis
    proof (cases "eq (key_at ns i)")
      case True
      then show ?thesis using Suc(2) by simp
    next
      case False
      then show ?thesis using True Suc(2) reach_end [of ns i] by simp
    qed
  next
    case False
    then obtain j where j: "j < length ns" "int j = int i + nd_next (ns ! i)"
      using next_target [OF assms(1) Suc(2)] by blast
    have e: "(i, j) \<in> edges ns" using Suc(2) False j by (intro edgesI) auto
    from Suc(1) [OF j(1)] Suc(3) reach_card [OF assms(1) e] obtain r where
      "find_chain f eq ns (int j) = Inr r"
      "case r of Some l \<Rightarrow> l \<in> reach ns j \<and> eq (key_at ns l) | None \<Rightarrow> \<forall>l\<in>reach ns j. \<not> eq (key_at ns l)" by auto
    then show ?thesis using Suc(2) False j(2) reach_step [OF e] by (auto split: option.splits)
  qed
qed

lemma find_previous_spec:
  assumes "chain_ok mp ns" "(i, q) \<in> (edges ns)\<^sup>+" "card (reach ns i) \<le> f"
  shows "\<exists>p. find_previous f ns (int i) (int q) = Inr p \<and> (p, q) \<in> edges ns"
  using assms(2,3)
proof (induction f arbitrary: i)
  case 0
  then obtain j where "(i, j) \<in> edges ns" by (meson tranclD)
  then have "finite (reach ns i)" using reach_bound(2) [OF assms(1)] edges_target(1) [OF assms(1)] by blast
  then show ?case using 0(2) by (metis card_0_eq empty_iff le_zero_eq reach_self)
next
  case (Suc f)
  from tranclD [OF Suc(2)] obtain j where e: "(i, j) \<in> edges ns" "(j, q) \<in> (edges ns)\<^sup>*" by blast
  then have j: "int j = int i + nd_next (ns ! i)" "i < length ns" by (auto simp: edges_def)
  show ?case
  proof (cases "j = q")
    case True
    then show ?thesis using e(1) j by auto
  next
    case False
    then have "(j, q) \<in> (edges ns)\<^sup>+" using e(2) by (meson rtranclD)
    from Suc(1) [OF this] Suc(3) reach_card [OF assms(1) e(1)] False j show ?thesis by auto
  qed
qed

section \<open>What the nodes hold\<close>

definition keyset :: "lnode list \<Rightarrow> tvalue set" where
  "keyset ns = nd_key ` set ns - {TNil}"

definition content :: "lnode list \<Rightarrow> tvalue \<Rightarrow> tvalue" where
  "content ns k = (case List.find (\<lambda>n. nd_key n = k) ns of Some n \<Rightarrow> nd_val n | None \<Rightarrow> TNil)"

lemma keyset_iff: "k \<in> keyset ns \<longleftrightarrow> k \<noteq> TNil \<and> (\<exists>i<length ns. key_at ns i = k)"
  unfolding keyset_def by (auto simp: in_set_conv_nth) (metis imageI nth_mem)

lemma content_absent: "k \<noteq> TNil \<Longrightarrow> k \<notin> keyset ns \<Longrightarrow> content ns k = TNil"
proof -
  assume "k \<noteq> TNil" "k \<notin> keyset ns"
  then have "List.find (\<lambda>n. nd_key n = k) ns = None" by (auto simp: find_None_iff keyset_def)
  then show ?thesis by (simp add: content_def)
qed

lemma content_at:
  assumes "chain_ok mp ns" "i < length ns" "key_at ns i = k" "k \<noteq> TNil"
  shows "content ns k = val_at ns i"
proof -
  have "List.find (\<lambda>n. nd_key n = k) ns \<noteq> None" using assms(2,3) by (auto simp: find_None_iff in_set_conv_nth)
  then obtain n j where n: "List.find (\<lambda>n. nd_key n = k) ns = Some n" "j < length ns" "n = ns ! j" "key_at ns j = k"
    by (auto simp: find_Some_iff)
  then have "j = i" using keys_unique [OF assms(1) n(2) assms(2)] assms(3,4) by simp
  then show ?thesis using n by (simp add: content_def)
qed

lemma keyset_card: "card (keyset ns) \<le> length ns"
proof -
  have "card (keyset ns) \<le> card (nd_key ` set ns)" unfolding keyset_def by (intro card_mono) auto
  also have "\<dots> \<le> length ns" using card_image_le [of "set ns" nd_key] card_length [of ns] by simp
  finally show ?thesis .
qed

lemma keyset_full:
  assumes "chain_ok mp ns" "\<forall>i<length ns. key_at ns i \<noteq> TNil"
  shows "card (keyset ns) = length ns"
proof -
  have "inj_on (key_at ns) {..<length ns}" using assms(2) keys_unique [OF assms(1)] by (simp add: inj_on_def)
  then have "card (key_at ns ` {..<length ns}) = length ns" using card_image by fastforce
  moreover have "keyset ns = key_at ns ` {..<length ns}"
  proof (intro equalityI subsetI)
    show "k \<in> key_at ns ` {..<length ns}" if "k \<in> keyset ns" for k using that by (auto simp: keyset_iff)
    show "k \<in> keyset ns" if "k \<in> key_at ns ` {..<length ns}" for k using that assms(2) by (auto simp: keyset_iff)
  qed
  ultimately show ?thesis by simp
qed

section \<open>A free place\<close>

definition free_ok :: "lnode list \<Rightarrow> nat \<Rightarrow> bool" where
  "free_ok ns lf \<longleftrightarrow> lf \<le> length ns \<and> (\<forall>i<length ns. lf \<le> i \<longrightarrow> key_at ns i \<noteq> TNil)"

lemma getfreepos_some: "getfreepos ns lf = (lf', Some f) \<Longrightarrow>
    f < lf \<and> lf' = f \<and> key_at ns f = TNil \<and> (\<forall>i. f < i \<longrightarrow> i < lf \<longrightarrow> key_at ns i \<noteq> TNil)"
  by (induction lf) (auto simp: less_Suc_eq split: if_splits)

lemma getfreepos_none: "getfreepos ns lf = (lf', None) \<Longrightarrow> lf' = 0 \<and> (\<forall>i<lf. key_at ns i \<noteq> TNil)"
  by (induction lf) (auto simp: less_Suc_eq split: if_splits)

lemma getfreepos_free:
  assumes "free_ok ns lf" "snd (getfreepos ns lf) \<noteq> None"
  obtains f where "getfreepos ns lf = (f, Some f)" "f < length ns" "key_at ns f = TNil"
    "\<forall>i<length ns. f < i \<longrightarrow> key_at ns i \<noteq> TNil"
proof -
  obtain lf' f where g: "getfreepos ns lf = (lf', Some f)" using assms(2) by (cases "getfreepos ns lf") auto
  note s = getfreepos_some [OF g]
  have "key_at ns i \<noteq> TNil" if "i < length ns" "f < i" for i
    using s assms(1) that by (cases "i < lf") (auto simp: free_ok_def)
  then show thesis using that [of f] g s assms(1) by (auto simp: free_ok_def)
qed

lemma getfreepos_full:
  assumes "free_ok ns lf" "snd (getfreepos ns lf) = None" "i < length ns"
  shows "key_at ns i \<noteq> TNil"
proof -
  obtain lf' where g: "getfreepos ns lf = (lf', None)" using assms(2) by (cases "getfreepos ns lf") auto
  show ?thesis using getfreepos_none [OF g] assms(1,3) by (cases "i < lf") (auto simp: free_ok_def)
qed

lemma getfreepos_room:
  assumes "chain_ok mp ns" "free_ok ns lf" "card (keyset ns) < length ns"
  shows "snd (getfreepos ns lf) \<noteq> None"
  using keyset_full [OF assms(1)] getfreepos_full [OF assms(2)] assms(3) by auto

section \<open>Putting in a new key\<close>

text \<open>What an insertion does: node \<open>c\<close> now carries the new key without a value, everything else is kept.\<close>

definition inserted :: "(tvalue \<Rightarrow> nat) \<Rightarrow> tvalue \<Rightarrow> nat \<Rightarrow> lnode list \<Rightarrow> lnode list \<Rightarrow> bool" where
  "inserted mp k c ns ns' \<longleftrightarrow>
     chain_ok mp ns' \<and> length ns' = length ns \<and> c < length ns \<and> key_at ns' c = k \<and> val_at ns' c = TNil \<and>
     keyset ns' \<subseteq> insert k (keyset ns) \<and> (\<forall>x. x \<noteq> TNil \<longrightarrow> content ns' x = content ns x)"

text \<open>The content, when the keys with a value are kept, wherever they lie.\<close>

lemma content_cong:
  assumes "chain_ok mp ns" "chain_ok mp ns'" "x \<noteq> TNil"
    and "\<And>i. i < length ns \<Longrightarrow> key_at ns i = x \<Longrightarrow> val_at ns i \<noteq> TNil \<Longrightarrow>
       \<exists>j<length ns'. key_at ns' j = x \<and> val_at ns' j = val_at ns i"
    and "\<And>j. j < length ns' \<Longrightarrow> key_at ns' j = x \<Longrightarrow> val_at ns' j \<noteq> TNil \<Longrightarrow>
       \<exists>i<length ns. key_at ns i = x \<and> val_at ns i = val_at ns' j"
  shows "content ns' x = content ns x"
proof (cases "content ns x = TNil \<and> content ns' x = TNil")
  case False
  then consider "content ns x \<noteq> TNil" | "content ns' x \<noteq> TNil" by blast
  then show ?thesis
  proof cases
    case 1
    then obtain i where i: "i < length ns" "key_at ns i = x" using content_absent [OF assms(3)] keyset_iff by blast
    then have "val_at ns i \<noteq> TNil" using 1 content_at [OF assms(1)] assms(3) by metis
    from assms(4) [OF i this] obtain j where "j < length ns'" "key_at ns' j = x" "val_at ns' j = val_at ns i" by blast
    then show ?thesis using content_at [OF assms(1) i(1)] content_at [OF assms(2)] i(2) assms(3) by metis
  next
    case 2
    then obtain j where j: "j < length ns'" "key_at ns' j = x" using content_absent [OF assms(3)] keyset_iff by blast
    then have "val_at ns' j \<noteq> TNil" using 2 content_at [OF assms(2)] assms(3) by metis
    from assms(5) [OF j this] obtain i where "i < length ns" "key_at ns i = x" "val_at ns i = val_at ns' j" by blast
    then show ?thesis using content_at [OF assms(1)] content_at [OF assms(2) j(1)] j(2) assms(3) by metis
  qed
qed simp

lemma content_same:
  assumes "chain_ok mp ns" "chain_ok mp ns'" "x \<noteq> TNil" "length ns' = length ns"
    and at: "\<And>i. i < length ns \<Longrightarrow> key_at ns' i = key_at ns i \<or> val_at ns i = TNil"
      "\<And>i. i < length ns \<Longrightarrow> val_at ns' i = val_at ns i"
  shows "content ns' x = content ns x"
  by (rule content_cong [OF assms(1-3)]) (use assms(4) at in metis)+

lemma keyset_insert:
  assumes "length ns' = length ns" "\<And>i. i < length ns \<Longrightarrow> key_at ns' i = k \<or> key_at ns' i = key_at ns i"
  shows "keyset ns' \<subseteq> insert k (keyset ns)"
proof
  fix x assume "x \<in> keyset ns'"
  then obtain i where "x \<noteq> TNil" "i < length ns" "key_at ns' i = x" using assms(1) by (auto simp: keyset_iff)
  then show "x \<in> insert k (keyset ns)" using assms(2) [of i] by (auto simp: keyset_iff)
qed

text \<open>The main position holds no value: its key is replaced.\<close>

lemma insert_in_place:
  assumes ok: "chain_ok mp ns" and k: "k \<noteq> TNil" "k \<notin> keyset ns"
    and m: "mp k = m" "m < length ns" "val_at ns m = TNil"
  shows "inserted mp k m ns (set_key m k ns)"
proof -
  let ?n = "set_key m k ns"
  have len: "length ?n = length ns" by (simp add: set_key_def)
  have at: "key_at ?n i = (if i = m then k else key_at ns i)" "val_at ?n i = val_at ns i" "nd_next (?n ! i) = nd_next (ns ! i)"
    if "i < length ns" for i using that by (cases "i = m", auto simp: set_key_def)+
  have used: "key_at ?n i \<noteq> TNil" if "i < length ns" "key_at ns i \<noteq> TNil" for i using that at k(1) by simp
  have e: "edges ?n = edges ns" unfolding edges_def len using at(3) by auto
  have absent: "key_at ns i \<noteq> k" if "i < length ns" for i using that k by (auto simp: keyset_iff)
  have ok': "chain_ok mp ?n"
  proof (rule chain_okI [OF e, where r = "\<lambda>i. card (reach ns i)"], unfold len)
    fix i assume i: "i < length ns"
    show "\<exists>j. (i, j) \<in> edges ns" if "nd_next (?n ! i) \<noteq> 0"
      using next_target [OF ok i] that at(3) [OF i] i by (auto simp: edges_def)
    show "val_at ?n i = TNil \<and> nd_next (?n ! i) = 0" if "key_at ?n i = TNil"
      using blank [OF ok i] that at [OF i] k(1) by (simp split: if_splits)
    show "(mp (key_at ?n i), i) \<in> (edges ns)\<^sup>* \<and> key_at ?n (mp (key_at ?n i)) \<noteq> TNil \<and>
      mp (key_at ?n (mp (key_at ?n i))) = mp (key_at ?n i)" if key: "key_at ?n i \<noteq> TNil"
    proof (cases "i = m")
      case True
      then show ?thesis using at m k(1) by simp
    next
      case False
      then have ki: "key_at ?n i = key_at ns i" using at i by simp
      note h = home [OF ok i, folded ki, OF key]
      show ?thesis using h(1) used [OF h(4,2)] h(3) at(1) [OF h(4)] m(1) by (auto simp: ki split: if_splits)
    qed
    show "i = j" if "j < length ns" "key_at ?n i = key_at ?n j" "key_at ?n i \<noteq> TNil" for j
      using keys_unique [OF ok i that(1)] that absent [OF i] absent [OF that(1)] at(1) [OF i] at(1) [OF that(1)]
      by (auto split: if_splits)
  next
    show "j < length ns \<and> key_at ?n j \<noteq> TNil" if "(i, j) \<in> edges ns" for i j
      using edges_target [OF ok that] used by blast
    show "i = j" if "(i, l) \<in> edges ns" "(j, l) \<in> edges ns" for i j l by (rule edges_injective [OF ok that])
    show "card (reach ns j) < card (reach ns i)" if "(i, j) \<in> edges ns" for i j using reach_card [OF ok that] by simp
  qed
  have "content ?n x = content ns x" if "x \<noteq> TNil" for x
    by (rule content_same [OF ok ok' that]) (use m at in \<open>simp_all add: len\<close>)
  moreover have "keyset ?n \<subseteq> insert k (keyset ns)" using keyset_insert [OF len] at(1) by simp
  ultimately show ?thesis using ok' at m by (simp add: inserted_def len)
qed

text \<open>The main position holds a key of its own: the new node is chained behind it.\<close>

lemma edges_chained:
  assumes ok: "chain_ok mp ns" and m: "m < length ns" "key_at ns m \<noteq> TNil" and f: "f < length ns" "key_at ns f = TNil"
  shows "edges (set_key f k (chain_node m f ns)) =
    {(m, f)} \<union> {(f, t) | t. (m, t) \<in> edges ns} \<union> {(i, j). (i, j) \<in> edges ns \<and> i \<noteq> m}" (is "edges ?n = ?E")
proof -
  have mf: "m \<noteq> f" using m f by auto
  have b: "nd_next (ns ! f) = 0" using blank [OF ok f] by simp
  have len: "length ?n = length ns" by (simp add: set_key_def chain_node_def set_next_def Let_def)
  have nx: "nd_next (?n ! i) = (if i = m then int f - int m
      else if i = f then (if nd_next (ns ! m) \<noteq> 0 then int m + nd_next (ns ! m) - int f else 0) else nd_next (ns ! i))"
    if "i < length ns" for i
    using that mf m f(1) b by (auto simp: set_key_def chain_node_def set_next_def Let_def nth_list_update)
  have nof: "(i, f) \<notin> edges ns" for i using edges_target(3) [OF ok] f(2) by blast
  have "(i, j) \<in> edges ?n \<longleftrightarrow> (i, j) \<in> ?E" for i j
  proof -
    consider "i = m" | "i = f" | "i \<noteq> m" "i \<noteq> f" by blast
    then show ?thesis
    proof cases
      case 1
      then show ?thesis using nx [OF m(1)] mf m(1) by (auto simp: edges_def len)
    next
      case 2
      have "(i, j) \<in> edges ?n \<longleftrightarrow> (m, j) \<in> edges ns"
        using nx [OF f(1)] mf m(1) f(1) nof [of m] 2 by (auto simp: edges_def len)
      moreover have "(f, j) \<notin> edges ns" using b by (simp add: edges_def)
      ultimately show ?thesis using 2 mf by auto
    next
      case 3
      then show ?thesis using nx [of i] by (auto simp: edges_def len)
    qed
  qed
  then show ?thesis by (simp only: set_eq_iff split_paired_All) blast
qed

lemma insert_chained:
  assumes ok: "chain_ok mp ns" and k: "k \<noteq> TNil" "k \<notin> keyset ns"
    and m: "mp k = m" "m < length ns" "key_at ns m \<noteq> TNil" "mp (key_at ns m) = m"
    and f: "f < length ns" "key_at ns f = TNil"
  shows "inserted mp k f ns (set_key f k (chain_node m f ns))"
proof -
  let ?n = "set_key f k (chain_node m f ns)"
  have mf: "m \<noteq> f" using m(3) f(2) by auto
  have bl: "val_at ns f = TNil" "nd_next (ns ! f) = 0" using blank [OF ok f] by auto
  have len: "length ?n = length ns" by (simp add: set_key_def chain_node_def set_next_def Let_def)
  have at: "key_at ?n i = (if i = f then k else key_at ns i)" "val_at ?n i = val_at ns i" if "i < length ns" for i
    using that mf m(2) f(1) by (auto simp: set_key_def chain_node_def set_next_def Let_def nth_list_update)
  have used: "key_at ?n i \<noteq> TNil" if "i < length ns" "key_at ns i \<noteq> TNil" for i using that at k(1) by simp
  have nof: "(i, f) \<notin> edges ns" "(f, i) \<notin> edges ns" for i
    using edges_target(3,4) [OF ok] f(2) by blast+
  note e = edges_chained [OF ok m(2,3) f, of k]
  have same_next: "nd_next (?n ! i) = nd_next (ns ! i)" if "i < length ns" "i \<noteq> m" "i \<noteq> f" for i
    using that m(2) f(1) by (auto simp: set_key_def chain_node_def set_next_def Let_def nth_list_update)
  have last: "nd_next (?n ! f) \<noteq> 0 \<Longrightarrow> nd_next (ns ! m) \<noteq> 0"
    using mf m(2) f(1) bl by (auto simp: set_key_def chain_node_def set_next_def Let_def nth_list_update split: if_splits)
  have sub: "(edges ns)\<^sup>* \<subseteq> (edges ?n)\<^sup>*"
  proof (rule rtrancl_subset_rtrancl, clarify)
    fix i j assume "(i, j) \<in> edges ns"
    then show "(i, j) \<in> (edges ?n)\<^sup>*"
      unfolding e by (cases "i = m") (auto intro: converse_rtrancl_into_rtrancl)
  qed
  have absent: "key_at ns i \<noteq> k" if "i < length ns" for i using that k by (auto simp: keyset_iff)
  have ok': "chain_ok mp ?n"
  proof (rule chain_okI [OF refl, where r = "\<lambda>i. if i = f then 2 * card (reach ns m) - 1 else 2 * card (reach ns i)"], unfold len)
    fix i assume i: "i < length ns"
    show "\<exists>j. (i, j) \<in> edges ?n" if "nd_next (?n ! i) \<noteq> 0"
      using next_target [OF ok i] next_target [OF ok m(2)] same_next [OF i] last that m(2) i unfolding e
      by (cases "i = m"; cases "i = f") (auto simp: edges_def)
    show "val_at ?n i = TNil \<and> nd_next (?n ! i) = 0" if "key_at ?n i = TNil"
      using blank [OF ok i] that at [OF i] same_next [OF i] k(1) m(3) by (auto split: if_splits)
    show "(mp (key_at ?n i), i) \<in> (edges ?n)\<^sup>* \<and> key_at ?n (mp (key_at ?n i)) \<noteq> TNil \<and>
        mp (key_at ?n (mp (key_at ?n i))) = mp (key_at ?n i)" if key: "key_at ?n i \<noteq> TNil"
    proof (cases "i = f")
      case True
      then show ?thesis using at m mf f(1) e by auto
    next
      case False
      then have ki: "key_at ?n i = key_at ns i" using i at by simp
      note h = home [OF ok i, folded ki, OF key]
      have "mp (key_at ?n i) \<noteq> f" using h(2) f(2) by auto
      then show ?thesis using h sub used [OF h(4,2)] at(1) [OF h(4)] by auto
    qed
    show "i = j" if "j < length ns" "key_at ?n i = key_at ?n j" "key_at ?n i \<noteq> TNil" for j
      using keys_unique [OF ok i that(1)] that absent [OF i] absent [OF that(1)] at(1) [OF i] at(1) [OF that(1)]
      by (auto split: if_splits)
  next
    fix i j assume ij: "(i, j) \<in> edges ?n"
    show "j < length ns \<and> key_at ?n j \<noteq> TNil"
      using ij edges_target(2,3) [OF ok] used f(1) k(1) at(1) [OF f(1)] unfolding e by auto
    consider "i = m" "j = f" | "i = f" "(m, j) \<in> edges ns" "j \<noteq> f" | "(i, j) \<in> edges ns" "i \<noteq> f" "j \<noteq> f"
      using ij nof unfolding e by blast
    then show "(if j = f then 2 * card (reach ns m) - 1 else 2 * card (reach ns j))
      < (if i = f then 2 * card (reach ns m) - 1 else 2 * card (reach ns i))"
    proof cases
      case 1
      have "card (reach ns m) > 0" by (rule reach_pos [OF ok m(2)])
      then show ?thesis using 1 mf by simp
    next
      case 2
      then show ?thesis using reach_card [OF ok 2(2)] by simp
    next
      case 3
      then show ?thesis using reach_card [OF ok 3(1)] by simp
    qed
    show "i = l" if l: "(l, j) \<in> edges ?n" for l
    proof (cases "j = f")
      case True
      have "x = m" if "(x, f) \<in> edges ?n" for x using that nof(1) unfolding e by auto
      from this [of i] this [of l] show ?thesis using ij l True by simp
    next
      case False
      have x: "(if x = f then m else x, j) \<in> edges ns \<and> x \<noteq> m" if x: "(x, j) \<in> edges ?n" for x
      proof -
        from x consider "x = f" "(m, j) \<in> edges ns" | "(x, j) \<in> edges ns" "x \<noteq> m" using False unfolding e by blast
        then show ?thesis using nof(2) [of j] mf by cases auto
      qed
      have "(if i = f then m else i) = (if l = f then m else l)"
        by (rule edges_injective [OF ok, of _ j]) (use x [OF ij] x [OF l] in auto)
      then show ?thesis using x [OF ij] x [OF l] by (simp split: if_splits)
    qed
  qed
  have "content ?n x = content ns x" if "x \<noteq> TNil" for x
    by (rule content_same [OF ok ok' that]) (use bl at in \<open>simp_all add: len\<close>)
  moreover have "keyset ?n \<subseteq> insert k (keyset ns)" using keyset_insert [OF len] at(1) by simp
  ultimately show ?thesis using ok' at f bl by (simp add: inserted_def len)
qed

text \<open>The main position holds a key from elsewhere: it moves to the free place first.\<close>

definition swap_places :: "nat \<Rightarrow> nat \<Rightarrow> nat \<Rightarrow> nat" where
  "swap_places m f i = (if i = m then f else if i = f then m else i)"

lemma swap_places_simps [simp]:
  "swap_places m f m = f" "swap_places m f f = m" "swap_places m f (swap_places m f i) = i"
  "i \<noteq> m \<Longrightarrow> i \<noteq> f \<Longrightarrow> swap_places m f i = i"
  by (auto simp: swap_places_def)

lemma swap_places_eq: "swap_places m f i = swap_places m f j \<longleftrightarrow> i = j"
  by (metis swap_places_simps(3))

lemma move_ok:
  assumes ok: "chain_ok mp ns"
    and m: "m < length ns" "key_at ns m \<noteq> TNil" "mp (key_at ns m) \<noteq> m" and f: "f < length ns" "key_at ns f = TNil"
    and p: "(p, m) \<in> edges ns"
  defines "n1 \<equiv> set_key m TNil (move_node p m f ns)"
  shows "chain_ok mp n1" "length n1 = length ns" "keyset n1 = keyset ns" "x \<noteq> TNil \<Longrightarrow> content n1 x = content ns x"
    "key_at n1 m = TNil" "val_at n1 m = TNil" "set_key m k n1 = set_key m k (move_node p m f ns)"
proof -
  let ?s = "swap_places m f"
  have mf: "m \<noteq> f" using m(2) f(2) by auto
  have bl: "val_at ns f = TNil" "nd_next (ns ! f) = 0" using blank [OF ok f] by auto
  have pl: "p < length ns" "nd_next (ns ! p) \<noteq> 0" "int m = int p + nd_next (ns ! p)" using p by (auto simp: edges_def)
  have pm: "p \<noteq> m" "p \<noteq> f" using pl bl by auto
  show len: "length n1 = length ns"
    by (simp add: n1_def set_key_def move_node_def set_next_def set_val_def Let_def)
  have at: "key_at n1 i = key_at ns (?s i)" "val_at n1 i = val_at ns (?s i)" if "i < length ns" for i
    using that mf m(1) f bl pm pl(1) unfolding swap_places_def
    by (auto simp: n1_def set_key_def move_node_def set_next_def set_val_def Let_def nth_list_update)
  have nx: "nd_next (n1 ! i) = (if i = m then 0 else if i = p then int f - int p
      else if i = f then (if nd_next (ns ! m) \<noteq> 0 then nd_next (ns ! m) + (int m - int f) else 0) else nd_next (ns ! i))"
    if "i < length ns" for i
    using that mf m(1) f bl pm pl(1)
    by (auto simp: n1_def set_key_def move_node_def set_next_def set_val_def Let_def nth_list_update)
  show "key_at n1 m = TNil" "val_at n1 m = TNil" using at [OF m(1)] bl f(2) by simp_all
  show "set_key m k n1 = set_key m k (move_node p m f ns)"
    by (simp add: n1_def set_key_def move_node_def set_next_def set_val_def Let_def nth_list_update m(1))
  have sl: "?s i < length ns" if "i < length ns" for i using that m(1) f(1) by (simp add: swap_places_def)
  have none: "(i, f) \<notin> edges ns" "(f, i) \<notin> edges ns" "(m, m) \<notin> edges ns" for i
    using edges_target(3,4) [OF ok] f(2) acyclicD [OF ok] by blast+
  have into_m: "i = p" if "(i, m) \<in> edges ns" for i by (rule edges_injective [OF ok that p])
  have e: "(i, j) \<in> edges n1 \<longleftrightarrow> (?s i, ?s j) \<in> edges ns" for i j
  proof -
    consider "i = m" | "i = f" | "i = p" | "i \<noteq> m" "i \<noteq> f" "i \<noteq> p" by blast
    then show ?thesis
    proof cases
      case 1
      then show ?thesis using none(2) nx [OF m(1)] by (simp add: edges_def)
    next
      case 2
      have "(i, j) \<in> edges n1 \<longleftrightarrow> (m, j) \<in> edges ns"
        using 2 nx [OF f(1)] mf pm f(1) m(1) none(1) [of m] by (auto simp: edges_def len)
      also have "\<dots> \<longleftrightarrow> (m, ?s j) \<in> edges ns"
        using none by (cases "j = m"; cases "j = f") auto
      finally show ?thesis using 2 by simp
    next
      case 3
      have "(i, j) \<in> edges n1 \<longleftrightarrow> j = f" using 3 nx [OF pl(1)] pm pl(1) by (auto simp: edges_def len)
      also have "\<dots> \<longleftrightarrow> ?s j = m" by (auto simp: swap_places_def)
      also have "\<dots> \<longleftrightarrow> (p, ?s j) \<in> edges ns" by (metis p edges_functional)
      finally show ?thesis using 3 pm by simp
    next
      case 4
      have "(i, j) \<in> edges n1 \<longleftrightarrow> (i, j) \<in> edges ns" using 4 nx [of i] by (auto simp: edges_def len)
      also have "\<dots> \<longleftrightarrow> (i, ?s j) \<in> edges ns"
        using none(1) [of i] into_m [of i] 4(3) by (cases "j = m"; cases "j = f") auto
      finally show ?thesis using 4 by simp
    qed
  qed
  have path: "(?s i, ?s j) \<in> (edges n1)\<^sup>*" if "(i, j) \<in> (edges ns)\<^sup>*" for i j
    using that by (induction rule: rtrancl_induct) (auto intro: rtrancl_into_rtrancl simp: e)
  show ok': "chain_ok mp n1"
  proof (rule chain_okI [OF refl, where r = "\<lambda>i. card (reach ns (?s i))"], unfold len)
    fix i assume i: "i < length ns"
    show "\<exists>j. (i, j) \<in> edges n1" if "nd_next (n1 ! i) \<noteq> 0"
    proof -
      have "nd_next (ns ! ?s i) \<noteq> 0" using that nx [OF i] pl mf by (auto simp: swap_places_def split: if_splits)
      from next_target [OF ok sl [OF i] this] obtain j where "(?s i, j) \<in> edges ns"
        using \<open>nd_next (ns ! ?s i) \<noteq> 0\<close> sl [OF i] by (auto simp: edges_def)
      then show ?thesis using e [of i "?s j"] by auto
    qed
    show "val_at n1 i = TNil \<and> nd_next (n1 ! i) = 0" if key: "key_at n1 i = TNil"
    proof -
      have "\<nexists>j. (?s i, j) \<in> edges ns"
        using blank [OF ok sl [OF i]] at(1) [OF i] key by (simp add: edges_def)
      then have "\<nexists>j. (i, j) \<in> edges n1" using e by blast
      then show ?thesis using \<open>nd_next (n1 ! i) \<noteq> 0 \<Longrightarrow> \<exists>j. (i, j) \<in> edges n1\<close>
        blank [OF ok sl [OF i]] at [OF i] key by auto
    qed
    show "(mp (key_at n1 i), i) \<in> (edges n1)\<^sup>* \<and> key_at n1 (mp (key_at n1 i)) \<noteq> TNil \<and>
        mp (key_at n1 (mp (key_at n1 i))) = mp (key_at n1 i)" if key: "key_at n1 i \<noteq> TNil"
    proof -
      note h = home [OF ok sl [OF i], folded at(1) [OF i], OF key]
      have "mp (key_at n1 i) \<noteq> m" "mp (key_at n1 i) \<noteq> f" using h(2,3) m(3) f(2) by auto
      then have "?s (mp (key_at n1 i)) = mp (key_at n1 i)" by simp
      then show ?thesis using h path [OF h(1)] at(1) [OF h(4)] by simp
    qed
    show "i = j" if "j < length ns" "key_at n1 i = key_at n1 j" "key_at n1 i \<noteq> TNil" for j
      using keys_unique [OF ok sl [OF i] sl [OF that(1)]] that at(1) [OF i] at(1) [OF that(1)] by (simp add: swap_places_eq)
  next
    fix i j assume ij: "(i, j) \<in> edges n1"
    note t = edges_target [OF ok ij [unfolded e]]
    show "j < length ns \<and> key_at n1 j \<noteq> TNil" using t(2,3) at(1) [of j] sl [of "?s j"] by simp
    show "card (reach ns (?s j)) < card (reach ns (?s i))" using reach_card [OF ok ij [unfolded e]] by simp
    show "i = l" if "(l, j) \<in> edges n1" for l
      using edges_injective [OF ok ij [unfolded e] that [unfolded e]] by (simp add: swap_places_eq)
  qed
  show "keyset n1 = keyset ns"
    by (auto simp: keyset_iff len) (metis at(1) sl swap_places_simps(3))+
  show "content n1 x = content ns x" if "x \<noteq> TNil"
    by (rule content_cong [OF ok ok' that]; unfold len) (metis at sl swap_places_simps(3))+
qed

end
