(* ===== verification/LuaTableSpec.thy ===== *)
theory LuaTableSpec
  imports LuaTableChain LuaObjectSpec
begin

text \<open>
  A Lua table as a finite map from keys to values: the invariant of a table, the map it stands for, and the proof that
  lookup and insertion without a rehash do what the map says.
\<close>

section \<open>Keys\<close>

text \<open>Floats with an integral value are integers as keys; not a number and nil are no keys.\<close>

definition canon :: "tvalue \<Rightarrow> tvalue" where
  "canon k = (case k of TFlt w \<Rightarrow> (case f2i w of Some i \<Rightarrow> TInt i | None \<Rightarrow> k) | _ \<Rightarrow> k)"

definition valid_key :: "tvalue \<Rightarrow> bool" where
  "valid_key k \<longleftrightarrow> (case k of TNil \<Rightarrow> False | TInt i \<Rightarrow> in_s64 i | TFlt w \<Rightarrow> \<not> is_nan w | _ \<Rightarrow> True)"

definition canonical :: "tvalue \<Rightarrow> bool" where
  "canonical k \<longleftrightarrow> valid_key k \<and> canon k = k"

lemma f2i_zero: "is_zero w \<Longrightarrow> f2i w = Some 0"
proof -
  assume "is_zero w"
  then obtain q where q: "w = q * 9223372036854775808" by (auto simp: is_zero_def elim!: dvdE)
  have "w div 4503599627370496 = q * 2048" by (simp add: q)
  moreover have "w mod 4503599627370496 = 0" by (simp add: q)
  ultimately show ?thesis by (simp add: f2i_def)
qed

lemma f2i_in_s64: "f2i w = Some i \<Longrightarrow> in_s64 i"
proof -
  assume f: "f2i w = Some i"
  define e where "e = w div 4503599627370496 mod 2048"
  define m where "m = w mod 4503599627370496"
  define sg where "sg = (if w div 9223372036854775808 = 1 then - 1 else 1 :: int)"
  have m: "0 \<le> m" "m < 4503599627370496" by (simp_all add: m_def)
  have bound: "in_s64 (sg * (x div 2 ^ k))" if "0 \<le> x" "x < 9007199254740992" for x :: int and k
  proof -
    have "0 \<le> x div 2 ^ k" "x div 2 ^ k \<le> x" using that(1) zdiv_mono2 [of x 1 "2 ^ k"] by (simp_all add: pos_imp_zdiv_nonneg_iff)
    then show ?thesis using that by (simp add: sg_def in_s64_def)
  qed
  from f show ?thesis
    unfolding f2i_def Let_def e_def [symmetric] m_def [symmetric] sg_def [symmetric]
    using bound [of "4503599627370496 + m"] m by (auto split: if_splits simp: in_s64_def)
qed

lemma canonical_canon: "valid_key k \<Longrightarrow> canonical (canon k)"
  using f2i_in_s64 by (auto simp: canonical_def canon_def valid_key_def split: tvalue.splits option.splits)

lemma canonicalD: "canonical k \<Longrightarrow> valid_key k" "canonical k \<Longrightarrow> canon k = k" "canonical k \<Longrightarrow> k \<noteq> TNil"
  by (auto simp: canonical_def valid_key_def)

lemma key_for_insert_valid: "valid_key k \<Longrightarrow> key_for_insert k = Inr (canon k)"
  by (auto simp: key_for_insert_def canon_def valid_key_def split: tvalue.splits option.splits)

lemma canonical_not_integral: "canonical (TFlt w) \<Longrightarrow> f2i w = None"
  by (auto simp: canonical_def canon_def split: option.splits)

lemma canonical_not_zero: "canonical (TFlt w) \<Longrightarrow> \<not> is_zero w \<and> \<not> is_nan w"
  using f2i_zero [of w] canonical_not_integral [of w] by (auto simp: canonical_def valid_key_def)

lemma rawequal_canonical: "canonical a \<Longrightarrow> canonical b \<Longrightarrow> rawequal a b \<longleftrightarrow> a = b"
  using canonical_not_zero canonical_not_integral by (cases a; cases b) (auto simp: rawequal_def)

lemma rawequal_nil: "rawequal TNil b \<longleftrightarrow> b = TNil"
  by (cases b) (auto simp: rawequal_def)

lemma rawequal_nan: "is_nan w \<Longrightarrow> f2i w = None \<Longrightarrow> \<not> rawequal a (TFlt w)"
  by (cases a) (auto simp: rawequal_def)

lemma nan_not_integral: "is_nan w \<Longrightarrow> f2i w = None"
  by (auto simp: is_nan_def f2i_def Let_def)

section \<open>Main positions\<close>

lemma lmod_less: "lmod n (2 ^ l) < 2 ^ l"
proof -
  have "n AND (int (2 ^ l) - 1) = n mod 2 ^ l" using and_mask_mod [of n l] by simp
  then show ?thesis by (simp add: lmod_def nat_less_iff)
qed

lemma or_one: "(2 ^ l - 1 :: int) OR 1 = (if l = 0 then 1 else 2 ^ l - 1)"
proof (cases l)
  case (Suc k)
  have "(2 ^ l - 1 :: int) = mask l" by (simp add: mask_eq_exp_minus_1)
  moreover have "mask l OR (1 :: int) = mask l" using Suc by (auto intro!: bit_eqI simp: bit_simps)
  ultimately show ?thesis using Suc by simp
qed simp

lemma hashmod_less: "hashmod n (2 ^ l) < 2 ^ l"
proof -
  have e: "hashmod n (2 ^ l) = nat (n mod (if l = 0 then 1 else 2 ^ l - 1))"
    using or_one [of l] by (simp add: hashmod_def)
  show ?thesis
  proof (cases "l = 0")
    case True
    then show ?thesis using e by simp
  next
    case False
    then have "(2 :: int) ^ 1 \<le> 2 ^ l" by (intro power_increasing) auto
    then have "n mod (2 ^ l - 1) < 2 ^ l - 1" by (intro pos_mod_bound) simp
    then have "n mod (2 ^ l - 1) < 2 ^ l" by simp
    then show ?thesis using e False by (simp add: nat_less_iff)
  qed
qed

lemma mainposition_less: "mainposition seed (2 ^ l) k < 2 ^ l"
  unfolding mainposition_def by (cases k; simp only: tvalue.case lmod_less hashmod_less)

section \<open>Insertion into a scatter table\<close>

text \<open>
  The interface of the main position: a function of the keys into the nodes. Whatever it is, there is a way to put a new
  key in as long as there is room, and a search from its main position finds a key.
\<close>

definition placed :: "(tvalue \<Rightarrow> nat) \<Rightarrow> tvalue \<Rightarrow> lnode list \<Rightarrow> nat \<Rightarrow> lnode list \<Rightarrow> nat \<Rightarrow> bool" where
  "placed mp k ns c ns' lf' \<longleftrightarrow> inserted mp k c ns ns' \<and> free_ok ns' lf'"

locale scatter =
  fixes mp :: "tvalue \<Rightarrow> nat" and sz :: nat
  assumes mp_less: "mp k < sz"
begin

lemma find_key:
  assumes "chain_ok mp ns" "length ns = sz"
  shows "\<exists>r. find_chain (Suc (length ns)) eq ns (int (mp k)) = Inr r \<and>
    (case r of Some j \<Rightarrow> j < length ns \<and> eq (nd_key (ns ! j))
     | None \<Rightarrow> \<forall>j<length ns. nd_key (ns ! j) \<noteq> TNil \<longrightarrow> mp (nd_key (ns ! j)) = mp k \<longrightarrow> \<not> eq (nd_key (ns ! j)))"
proof -
  have l: "mp k < length ns" using mp_less assms(2) by simp
  from find_chain_spec [OF assms(1) l, of "Suc (length ns)" eq] reach_bound(3) [OF assms(1) l] obtain r where
    r: "find_chain (Suc (length ns)) eq ns (int (mp k)) = Inr r"
      "case r of Some j \<Rightarrow> j \<in> reach ns (mp k) \<and> eq (nd_key (ns ! j)) | None \<Rightarrow> \<forall>j\<in>reach ns (mp k). \<not> eq (nd_key (ns ! j))"
    by auto
  have "\<not> eq (nd_key (ns ! j))" if "r = None" "j < length ns" "nd_key (ns ! j) \<noteq> TNil" "mp (nd_key (ns ! j)) = mp k" for j
    using home(1) [OF assms(1) that(2,3)] that r(2) by (simp add: reach_def)
  then show ?thesis using r reach_bound(1) [OF assms(1) l] by (cases r) (auto simp del: find_chain.simps)
qed

lemma find_found:
  assumes "chain_ok mp ns" "length ns = sz" "i < length ns" "nd_key (ns ! i) = k" "k \<noteq> TNil"
    and eq: "\<And>j. j < length ns \<Longrightarrow> eq (nd_key (ns ! j)) \<longleftrightarrow> nd_key (ns ! j) = k"
  shows "find_chain (Suc (length ns)) eq ns (int (mp k)) = Inr (Some i)"
proof -
  from find_key [OF assms(1,2), of eq k] obtain r where
    r: "find_chain (Suc (length ns)) eq ns (int (mp k)) = Inr r"
      "case r of Some j \<Rightarrow> j < length ns \<and> eq (nd_key (ns ! j))
     | None \<Rightarrow> \<forall>j<length ns. nd_key (ns ! j) \<noteq> TNil \<longrightarrow> mp (nd_key (ns ! j)) = mp k \<longrightarrow> \<not> eq (nd_key (ns ! j))" by blast
  obtain j where j: "r = Some j" "j < length ns" "nd_key (ns ! j) = k" using r(2) eq assms(3-5) by (cases r) auto
  have "j = i" using keys_unique [OF assms(1) j(2) assms(3)] j(3) assms(4,5) by simp
  then show ?thesis using r(1) j(1) by simp
qed

lemma find_absent:
  assumes "chain_ok mp ns" "length ns = sz" "\<And>j. j < length ns \<Longrightarrow> \<not> eq (nd_key (ns ! j))"
  shows "find_chain (Suc (length ns)) eq ns (int (mp k)) = Inr None"
  using find_key [OF assms(1,2), of eq k] assms(3) by (auto simp del: find_chain.simps split: option.splits)

text \<open>The three ways to put a key in, chosen as \<open>luaH_newkey\<close> does.\<close>

lemma place_free:
  assumes "chain_ok mp ns" "length ns = sz" "free_ok ns lf" "k \<noteq> TNil" "k \<notin> keyset ns" "nd_val (ns ! mp k) = TNil"
  shows "placed mp k ns (mp k) (set_key (mp k) k ns) lf"
proof -
  have l: "mp k < length ns" using mp_less assms(2) by simp
  have "free_ok (set_key (mp k) k ns) lf"
    using assms(3,4) l by (auto simp: free_ok_def set_key_def nth_list_update)
  then show ?thesis using insert_in_place [OF assms(1,4,5) refl l assms(6)] by (simp add: placed_def)
qed

lemma place_behind:
  assumes "chain_ok mp ns" "length ns = sz" "k \<noteq> TNil" "k \<notin> keyset ns"
    and "nd_val (ns ! mp k) \<noteq> TNil" "mp (nd_key (ns ! mp k)) = mp k"
    and f: "f < length ns" "nd_key (ns ! f) = TNil" "\<forall>i<length ns. f < i \<longrightarrow> nd_key (ns ! i) \<noteq> TNil"
  shows "placed mp k ns f (set_key f k (chain_node (mp k) f ns)) f"
proof -
  have l: "mp k < length ns" using mp_less assms(2) by simp
  have used: "nd_key (ns ! mp k) \<noteq> TNil" using blank [OF assms(1) l] assms(5) by blast
  have "free_ok (set_key f k (chain_node (mp k) f ns)) f"
    using f l assms(3) by (auto simp: free_ok_def set_key_def chain_node_def set_next_def Let_def nth_list_update)
  then show ?thesis using insert_chained [OF assms(1,3,4) refl l used assms(6) f(1,2)] by (simp add: placed_def)
qed

lemma place_moving:
  assumes "chain_ok mp ns" "length ns = sz" "k \<noteq> TNil" "k \<notin> keyset ns"
    and "nd_val (ns ! mp k) \<noteq> TNil" "mp (nd_key (ns ! mp k)) \<noteq> mp k"
    and f: "f < length ns" "nd_key (ns ! f) = TNil" "\<forall>i<length ns. f < i \<longrightarrow> nd_key (ns ! i) \<noteq> TNil"
  shows "\<exists>p. find_previous (Suc (length ns)) ns (int (mp (nd_key (ns ! mp k)))) (int (mp k)) = Inr p \<and>
    placed mp k ns (mp k) (set_key (mp k) k (move_node p (mp k) f ns)) f"
proof -
  let ?m = "mp k"
  have l: "?m < length ns" using mp_less assms(2) by simp
  have used: "nd_key (ns ! ?m) \<noteq> TNil" using blank [OF assms(1) l] assms(5) by blast
  have mf: "?m \<noteq> f" using used f(2) by auto
  have "(mp (nd_key (ns ! ?m)), ?m) \<in> (edges ns)\<^sup>+"
    using home(1) [OF assms(1) l used] assms(6) by (meson rtranclD)
  from find_previous_spec [OF assms(1) this, of "Suc (length ns)"] reach_bound(3) [OF assms(1) home(4) [OF assms(1) l used]]
  obtain p where p: "find_previous (Suc (length ns)) ns (int (mp (nd_key (ns ! ?m)))) (int ?m) = Inr p" "(p, ?m) \<in> edges ns"
    by auto
  note mv = move_ok [OF assms(1) l used assms(6) f(1,2) p(2)]
  have "inserted mp k ?m ns (set_key ?m k (move_node p ?m f ns))"
    using insert_in_place [OF mv(1) assms(3), of ?m, unfolded mv(2,3,7), OF assms(4) refl l mv(6)] mv(2,3,4)
    by (simp add: inserted_def)
  moreover have "free_ok (set_key ?m k (move_node p ?m f ns)) f"
    using f l mf assms(3) used edges_target(1) [OF assms(1) p(2)]
    by (auto simp: free_ok_def set_key_def move_node_def set_next_def set_val_def Let_def nth_list_update)
  ultimately show ?thesis using p(1) unfolding placed_def by blast
qed

end

interpretation hash: scatter "mainposition seed (2 ^ l)" "2 ^ l" for seed l
  by unfold_locales (rule mainposition_less)

section \<open>The map a table stands for\<close>

definition in_array :: "ltable \<Rightarrow> tvalue \<Rightarrow> bool" where
  "in_array t k \<longleftrightarrow> (case k of TInt i \<Rightarrow> 1 \<le> i \<and> i \<le> int (length (tb_array t)) | _ \<Rightarrow> False)"

definition table_at :: "ltable \<Rightarrow> tvalue \<Rightarrow> tvalue" where
  "table_at t k =
     (if in_array t k then tb_array t ! (case k of TInt i \<Rightarrow> nat (i - 1) | _ \<Rightarrow> 0)
      else if valid_key k then content (tb_node t) k else TNil)"

definition lua_map :: "ltable \<Rightarrow> tvalue \<Rightarrow> tvalue" where
  "lua_map t k = table_at t (canon k)"

definition node_keys :: "ltable \<Rightarrow> tvalue set" where
  "node_keys t = keyset (tb_node t)"

definition table_ok :: "32 word \<Rightarrow> ltable \<Rightarrow> bool" where
  "table_ok seed t \<longleftrightarrow>
     (\<exists>l\<le>MAXHBITS. length (tb_node t) = 2 ^ l) \<and>
     chain_ok (mainposition seed (length (tb_node t))) (tb_node t) \<and>
     (if tb_dummy t then tb_node t = [empty_node] \<and> tb_lastfree t = 0 else free_ok (tb_node t) (tb_lastfree t)) \<and>
     length (tb_array t) \<le> 2147483648 \<and>
     (\<forall>k\<in>node_keys t. canonical k \<and> \<not> in_array t k)"

text \<open>The cell \<open>c\<close> belongs to the key \<open>k\<close>.\<close>

definition cell_of :: "ltable \<Rightarrow> tvalue \<Rightarrow> cell \<Rightarrow> bool" where
  "cell_of t k c \<longleftrightarrow>
     (case c of
        ArrCell j \<Rightarrow> j < length (tb_array t) \<and> k = TInt (int j + 1)
      | NodeCell j \<Rightarrow> j < length (tb_node t) \<and> nd_key (tb_node t ! j) = k \<and> k \<noteq> TNil)"

lemma table_okD:
  assumes "table_ok seed t"
  shows "chain_ok (mainposition seed (length (tb_node t))) (tb_node t)"
    "length (tb_array t) \<le> 2147483648"
    "k \<in> node_keys t \<Longrightarrow> canonical k" "k \<in> node_keys t \<Longrightarrow> \<not> in_array t k"
    "\<not> tb_dummy t \<Longrightarrow> free_ok (tb_node t) (tb_lastfree t)"
    "tb_dummy t \<Longrightarrow> tb_node t = [empty_node] \<and> tb_lastfree t = 0"
  using assms unfolding table_ok_def by auto

lemma cell_of_in_array: "cell_of t k (ArrCell j) \<Longrightarrow> in_array t k"
  by (auto simp: cell_of_def in_array_def)

lemma cell_of_node: "cell_of t k (NodeCell j) \<Longrightarrow> k \<in> node_keys t"
  by (auto simp: cell_of_def node_keys_def keyset_iff)

lemma cell_get_at:
  assumes "table_ok seed t" "canonical k" "cell_of t k c"
  shows "cell_get t c = table_at t k"
proof (cases c)
  case (ArrCell j)
  then show ?thesis using assms(3) by (auto simp: cell_of_def cell_get_def table_at_def in_array_def)
next
  case (NodeCell j)
  have j: "j < length (tb_node t)" "nd_key (tb_node t ! j) = k" using assms(3) NodeCell by (auto simp: cell_of_def)
  have "\<not> in_array t k" using table_okD(4) [OF assms(1)] cell_of_node assms(3) NodeCell by blast
  then show ?thesis
    using content_at [OF table_okD(1) [OF assms(1)] j canonicalD(3) [OF assms(2)]] NodeCell canonicalD(1) [OF assms(2)]
    by (simp add: cell_get_def table_at_def)
qed

lemma table_at_absent: "\<not> in_array t k \<Longrightarrow> k \<notin> node_keys t \<Longrightarrow> table_at t k = TNil"
  using content_absent [of k "tb_node t"] by (cases k) (auto simp: table_at_def node_keys_def valid_key_def)

section \<open>Lookup\<close>

text \<open>What a lookup of the key \<open>k\<close> returns: its cell, or nothing where there is no such key.\<close>

definition looked_up :: "ltable \<Rightarrow> tvalue \<Rightarrow> cell option \<Rightarrow> bool" where
  "looked_up t k r \<longleftrightarrow>
     (case r of Some c \<Rightarrow> cell_of t k c | None \<Rightarrow> \<not> in_array t k \<and> k \<notin> node_keys t)"

lemma node_key_at: "table_ok seed t \<Longrightarrow> j < length (tb_node t) \<Longrightarrow> nd_key (tb_node t ! j) = TNil \<or> canonical (nd_key (tb_node t ! j))"
  using table_okD(3) [of seed t "nd_key (tb_node t ! j)"] by (auto simp: node_keys_def keyset_iff)

lemma search_key:
  assumes ok: "table_ok seed t" and k: "canonical k" and na: "\<not> in_array t k"
    and eq: "\<And>x. x = TNil \<or> canonical x \<Longrightarrow> eq x \<longleftrightarrow> x = k"
  shows "\<exists>r. search seed t k eq = Inr r \<and> looked_up t k r"
proof -
  let ?ns = "tb_node t"
  obtain l where l: "length ?ns = 2 ^ l" using ok by (auto simp: table_ok_def)
  note c = table_okD(1) [OF ok, unfolded l]
  have e: "eq (nd_key (?ns ! j)) \<longleftrightarrow> nd_key (?ns ! j) = k" if "j < length ?ns" for j
    using eq [OF node_key_at [OF ok that]] .
  show ?thesis
  proof (cases "k \<in> node_keys t")
    case True
    then obtain i where i: "i < length ?ns" "nd_key (?ns ! i) = k" by (auto simp: node_keys_def keyset_iff)
    from hash.find_found [OF c l i canonicalD(3) [OF k], of eq, OF e] i canonicalD(3) [OF k] show ?thesis
      by (simp add: search_def l looked_up_def cell_of_def del: find_chain.simps)
  next
    case False
    then have "\<not> eq (nd_key (?ns ! j))" if "j < length ?ns" for j
      using that e [OF that] canonicalD(3) [OF k] by (auto simp: node_keys_def keyset_iff)
    from hash.find_absent [OF c l, of eq, OF this] False na show ?thesis
      by (simp add: search_def l looked_up_def del: find_chain.simps)
  qed
qed

lemma luaH_getint_spec:
  assumes ok: "table_ok seed t" and i: "in_s64 i"
  shows "\<exists>r. luaH_getint seed t i = Inr r \<and> looked_up t (TInt i) r"
proof -
  have k: "canonical (TInt i)" using i by (simp add: canonical_def valid_key_def canon_def)
  have u: "u64 (i - 1) < int (length (tb_array t)) \<longleftrightarrow> in_array t (TInt i)"
  proof (cases "1 \<le> i")
    case True
    then show ?thesis using i u64_id [of "i - 1"] by (auto simp: in_array_def in_s64_def)
  next
    case False
    then have "(i - 1 + 18446744073709551616) mod 18446744073709551616 = i - 1 + 18446744073709551616"
      using i by (intro mod_pos_pos_trivial) (simp_all add: in_s64_def)
    then have "u64 (i - 1) = i - 1 + 18446744073709551616" unfolding u64_def by (simp only: mod_add_self2)
    then show ?thesis using False i table_okD(2) [OF ok] by (auto simp: in_array_def in_s64_def)
  qed
  show ?thesis
  proof (cases "in_array t (TInt i)")
    case True
    then show ?thesis using u by (auto simp: luaH_getint_def looked_up_def cell_of_def in_array_def)
  next
    case False
    then show ?thesis using search_key [OF ok k False, of "\<lambda>x. x = TInt i"] u by (simp add: luaH_getint_def)
  qed
qed

lemma luaH_get_spec:
  assumes ok: "table_ok seed t" and k: "valid_key k"
  shows "\<exists>r. luaH_get seed t k = Inr r \<and> looked_up t (canon k) r"
proof -
  have s: "\<exists>r. search seed t k (\<lambda>x. rawequal x k) = Inr r \<and> looked_up t (canon k) r"
    if "canon k = k" "\<not> in_array t k"
    using search_key [OF ok _ that(2), of "\<lambda>x. rawequal x k"] k that(1) rawequal_canonical [of _ k] rawequal_nil [of k]
    by (auto simp: canonical_def)
  show ?thesis
  proof (cases k)
    case (TInt i)
    then show ?thesis using luaH_getint_spec [OF ok] k by (simp add: luaH_get_def valid_key_def canon_def)
  next
    case (TFlt w)
    show ?thesis
    proof (cases "f2i w")
      case None
      then show ?thesis using s TFlt by (simp add: luaH_get_def canon_def in_array_def)
    next
      case (Some i)
      then show ?thesis using luaH_getint_spec [OF ok f2i_in_s64] TFlt by (simp add: luaH_get_def canon_def)
    qed
  next
    case (TShr x)
    have "canonical (TShr x)" by (simp add: canonical_def valid_key_def canon_def)
    from search_key [OF ok this, of "\<lambda>y. y = TShr x"] show ?thesis
      using TShr by (simp add: luaH_get_def luaH_getstr_def canon_def in_array_def)
  qed (use s k in \<open>simp_all add: luaH_get_def canon_def in_array_def valid_key_def\<close>)
qed

text \<open>Every query has an answer: nil and not a number are never found.\<close>

lemma luaH_value_spec:
  assumes ok: "table_ok seed t" and k: "case k of TInt i \<Rightarrow> in_s64 i | _ \<Rightarrow> True"
  shows "luaH_value seed t k = Inr (lua_map t k)"
proof (cases "valid_key k")
  case True
  from luaH_get_spec [OF ok True] obtain r where r: "luaH_get seed t k = Inr r" "looked_up t (canon k) r" by blast
  show ?thesis
  proof (cases r)
    case None
    then show ?thesis using r table_at_absent [of t "canon k"] by (simp add: luaH_value_def looked_up_def lua_map_def)
  next
    case (Some c)
    then show ?thesis using r cell_get_at [OF ok canonical_canon [OF True], of c]
      by (simp add: luaH_value_def looked_up_def lua_map_def)
  qed
next
  case False
  then consider "k = TNil" | w where "k = TFlt w" "is_nan w" using k by (cases k) (auto simp: valid_key_def)
  then show ?thesis
  proof cases
    case 1
    then show ?thesis by (simp add: luaH_value_def luaH_get_def lua_map_def canon_def table_at_def in_array_def valid_key_def)
  next
    case 2
    obtain l where l: "length (tb_node t) = 2 ^ l" using ok by (auto simp: table_ok_def)
    have "search seed t k (\<lambda>x. rawequal x k) = Inr None"
      using hash.find_absent [OF table_okD(1) [OF ok, unfolded l] l, of "\<lambda>x. rawequal x k"]
        rawequal_nan [OF 2(2) nan_not_integral [OF 2(2)]] 2(1)
      by (simp add: search_def l del: find_chain.simps)
    then show ?thesis using 2 nan_not_integral [OF 2(2)]
      by (simp add: luaH_value_def luaH_get_def lua_map_def canon_def table_at_def in_array_def valid_key_def)
  qed
qed

end
