(* ===== verification/LuaTableStore.thy ===== *)
theory LuaTableStore
  imports LuaTableSpec
begin

text \<open>
  Stores into a Lua table: a new key with room for it, the rehash that makes room, and the theorem that a store updates
  the map the table stands for.
\<close>

section \<open>A new key where there is room\<close>

definition room :: "ltable \<Rightarrow> tvalue \<Rightarrow> bool" where
  "room t k \<longleftrightarrow> in_array t k \<or> k \<in> node_keys t \<or> \<not> tb_dummy t \<and> card (node_keys t) < length (tb_node t)"

definition same_shape :: "ltable \<Rightarrow> ltable \<Rightarrow> bool" where
  "same_shape t t' \<longleftrightarrow> length (tb_array t') = length (tb_array t) \<and> length (tb_node t') = length (tb_node t) \<and>
     tb_dummy t' = tb_dummy t"

lemma same_shape_refl [simp]: "same_shape t t"
  by (simp add: same_shape_def)

lemma same_shape_trans: "same_shape t t' \<Longrightarrow> same_shape t' t'' \<Longrightarrow> same_shape t t''"
  by (simp add: same_shape_def)

lemma same_shape_in_array: "same_shape t t' \<Longrightarrow> in_array t' k = in_array t k"
  by (cases k) (simp_all add: same_shape_def in_array_def)

lemma node_key_canonical: "table_ok seed t \<Longrightarrow> TNil \<notin> node_keys t"
  by (simp add: node_keys_def keyset_def)

lemma getfreepos_dummy: "table_ok seed t \<Longrightarrow> tb_dummy t \<Longrightarrow> getfreepos (tb_node t) (tb_lastfree t) = (0, None)"
  using table_okD(6) by fastforce

lemma newkey_places:
  assumes ok: "table_ok seed t" and k: "valid_key k" "canon k \<notin> node_keys t"
    and rm: "\<not> tb_dummy t \<and> nd_val (tb_node t ! mainposition seed (length (tb_node t)) (canon k)) = TNil \<or>
      snd (getfreepos (tb_node t) (tb_lastfree t)) \<noteq> None"
  shows "\<exists>c ns' lf'. newkey_with nk seed t k = Inr (NodeCell c, t\<lparr>tb_node := ns', tb_lastfree := lf'\<rparr>) \<and>
    placed (mainposition seed (length (tb_node t))) (canon k) (tb_node t) c ns' lf'"
proof -
  let ?ns = "tb_node t" and ?x = "canon k" and ?mp = "mainposition seed (length (tb_node t))"
  obtain l where l: "length ?ns = 2 ^ l" using ok by (auto simp: table_ok_def)
  have nd: "\<not> tb_dummy t" using rm getfreepos_dummy [OF ok] by auto
  note c = table_okD(1) [OF ok] and free = table_okD(5) [OF ok nd]
  note x = canonicalD(3) [OF canonical_canon [OF k(1)]] k(2) [unfolded node_keys_def]
  note [simp] = newkey_with_def key_for_insert_valid [OF k(1)] Let_def
  show ?thesis
  proof (cases "nd_val (?ns ! ?mp ?x) = TNil")
    case True
    from hash.place_free [OF c [unfolded l] l free x True [unfolded l]] True nd show ?thesis
      by (intro exI [of _ "?mp ?x"] exI [of _ "set_key (?mp ?x) ?x ?ns"] exI [of _ "tb_lastfree t"]) (simp add: l)
  next
    case False
    then obtain f where f: "getfreepos ?ns (tb_lastfree t) = (f, Some f)" "f < length ?ns" "nd_key (?ns ! f) = TNil"
        "\<forall>i<length ?ns. f < i \<longrightarrow> nd_key (?ns ! i) \<noteq> TNil"
      using rm getfreepos_free [OF free] by blast
    show ?thesis
    proof (cases "?mp (nd_key (?ns ! ?mp ?x)) = ?mp ?x")
      case True
      from hash.place_behind [OF c [unfolded l] l x False [unfolded l] True [unfolded l] f(2-4)] True False f(1) show ?thesis
        by (intro exI [of _ f] exI [of _ "set_key f ?x (chain_node (?mp ?x) f ?ns)"] exI [of _ f]) (simp add: l)
    next
      case foreign: False
      from hash.place_moving [OF c [unfolded l] l x False [unfolded l] foreign [unfolded l] f(2-4)] obtain p where
        p: "find_previous (Suc (length ?ns)) ?ns (int (?mp (nd_key (?ns ! ?mp ?x)))) (int (?mp ?x)) = Inr p"
          "placed ?mp ?x ?ns (?mp ?x) (set_key (?mp ?x) ?x (move_node p (?mp ?x) f ?ns)) f" unfolding l by blast
      then show ?thesis using foreign False f(1)
        by (intro exI [of _ "?mp ?x"] exI [of _ "set_key (?mp ?x) ?x (move_node p (?mp ?x) f ?ns)"] exI [of _ f])
          (simp del: find_previous.simps)
    qed
  qed
qed

lemma placed_table:
  assumes ok: "table_ok seed t" and x: "canonical x" "\<not> in_array t x" "\<not> tb_dummy t"
    and p: "placed (mainposition seed (length (tb_node t))) x (tb_node t) c ns' lf'"
  defines "t' \<equiv> t\<lparr>tb_node := ns', tb_lastfree := lf'\<rparr>"
  shows "table_ok seed t'" "same_shape t t'" "node_keys t' \<subseteq> insert x (node_keys t)" "cell_of t' x (NodeCell c)"
    "table_at t' y = table_at t y" "tb_array t' = tb_array t"
proof -
  note i = p [unfolded placed_def inserted_def]
  have len: "length ns' = length (tb_node t)" using i by blast
  show shape: "same_shape t t'" using len by (simp add: same_shape_def t'_def)
  show keys: "node_keys t' \<subseteq> insert x (node_keys t)" using i by (simp add: node_keys_def t'_def)
  show "tb_array t' = tb_array t" by (simp add: t'_def)
  have "\<forall>k\<in>node_keys t'. canonical k \<and> \<not> in_array t' k"
    using keys x table_okD(3,4) [OF ok] unfolding same_shape_in_array [OF shape] by blast
  then show "table_ok seed t'"
    using ok i x(3) unfolding table_ok_def by (simp add: t'_def len)
  show "cell_of t' x (NodeCell c)" using i canonicalD(3) [OF x(1)] by (simp add: cell_of_def t'_def len)
  show "table_at t' y = table_at t y"
    using i by (cases y) (simp_all add: table_at_def t'_def in_array_def valid_key_def)
qed

lemma set_with_room:
  assumes ok: "table_ok seed t" and k: "valid_key k" and rm: "room t (canon k)"
  shows "\<exists>c t'. set_with (newkey_with nk seed) seed t k = Inr (c, t') \<and> table_ok seed t' \<and> same_shape t t' \<and>
    node_keys t' \<subseteq> (if in_array t (canon k) then node_keys t else insert (canon k) (node_keys t)) \<and>
    cell_of t' (canon k) c \<and> (\<forall>y. table_at t' y = table_at t y)"
proof -
  note x = canonical_canon [OF k]
  from luaH_get_spec [OF ok k] obtain r where r: "luaH_get seed t k = Inr r" "looked_up t (canon k) r" by blast
  show ?thesis
  proof (cases r)
    case (Some c)
    then show ?thesis using r ok by (auto simp: set_with_def looked_up_def)
  next
    case None
    then have absent: "\<not> in_array t (canon k)" "canon k \<notin> node_keys t" using r(2) by (auto simp: looked_up_def)
    then have nd: "\<not> tb_dummy t" "card (keyset (tb_node t)) < length (tb_node t)"
      using rm by (auto simp: room_def node_keys_def)
    have "snd (getfreepos (tb_node t) (tb_lastfree t)) \<noteq> None"
      by (rule getfreepos_room [OF table_okD(1) [OF ok] table_okD(5) [OF ok nd(1)] nd(2)])
    from newkey_places [OF ok k absent(2) disjI2 [OF this], of nk] obtain c ns' lf' where
      n: "newkey_with nk seed t k = Inr (NodeCell c, t\<lparr>tb_node := ns', tb_lastfree := lf'\<rparr>)"
        "placed (mainposition seed (length (tb_node t))) (canon k) (tb_node t) c ns' lf'" by blast
    note pt = placed_table [OF ok x absent(1) nd(1) n(2)]
    show ?thesis using r(1) None n(1) pt absent(1)
      by (intro exI [of _ "NodeCell c"] exI [of _ "t\<lparr>tb_node := ns', tb_lastfree := lf'\<rparr>"]) (simp add: set_with_def)
  qed
qed

section \<open>Writing a cell\<close>

lemma set_val_nth: "set_val j v ns ! i = (if i = j \<and> j < length ns then (ns ! j)\<lparr>nd_val := v\<rparr> else ns ! i)"
  by (cases "j < length ns") (simp_all add: set_val_def nth_list_update list_update_beyond not_less)

lemma set_val_simps [simp]:
  "length (set_val j v ns) = length ns" "nd_key (set_val j v ns ! i) = nd_key (ns ! i)"
  "nd_next (set_val j v ns ! i) = nd_next (ns ! i)"
  "j < length ns \<Longrightarrow> nd_val (set_val j v ns ! i) = (if i = j then v else nd_val (ns ! i))"
  by (simp_all add: set_val_nth) (simp add: set_val_def)

lemma edges_set_val [simp]: "edges (set_val j v ns) = edges ns"
  by (simp add: edges_def)

lemma chain_ok_set_val:
  assumes "chain_ok mp ns" "j < length ns" "nd_key (ns ! j) \<noteq> TNil"
  shows "chain_ok mp (set_val j v ns)"
  using assms unfolding chain_ok_def by simp

lemma keyset_set_val [simp]: "keyset (set_val j v ns) = keyset ns"
  by (auto simp: keyset_iff)

lemma content_set_val:
  assumes "chain_ok mp ns" "j < length ns" "nd_key (ns ! j) \<noteq> TNil" "y \<noteq> TNil"
  shows "content (set_val j v ns) y = (if y = nd_key (ns ! j) then v else content ns y)"
proof (cases "y \<in> keyset ns")
  case True
  then obtain i where i: "i < length ns" "nd_key (ns ! i) = y" by (auto simp: keyset_iff)
  have "i = j" if "y = nd_key (ns ! j)" using keys_unique [OF assms(1) i(1) assms(2)] i(2) assms(3) that by simp
  have l: "i < length (set_val j v ns)" "nd_key (set_val j v ns ! i) = y" using i by simp_all
  have "i = j \<longleftrightarrow> y = nd_key (ns ! j)" using \<open>y = nd_key (ns ! j) \<Longrightarrow> i = j\<close> i(2) by blast
  then show ?thesis
    unfolding content_at [OF assms(1) i assms(4)] content_at [OF chain_ok_set_val [OF assms(1-3), of v] l assms(4)]
    using assms(2) by simp
next
  case False
  moreover have "y \<noteq> nd_key (ns ! j)" using False assms(2,4) by (auto simp: keyset_iff)
  ultimately show ?thesis using content_absent [OF assms(4)] by simp
qed

lemma cell_put_ok:
  assumes ok: "table_ok seed t" and x: "canonical x" and c: "cell_of t x c"
  shows "table_ok seed (cell_put c v t)" "same_shape t (cell_put c v t)" "node_keys (cell_put c v t) = node_keys t"
    "table_at (cell_put c v t) = (table_at t)(x := v)"
proof -
  show s: "same_shape t (cell_put c v t)" by (cases c) (simp_all add: cell_put_def same_shape_def)
  show k: "node_keys (cell_put c v t) = node_keys t" by (cases c) (simp_all add: cell_put_def node_keys_def)
  have "chain_ok (mainposition seed (length (tb_node t))) (tb_node (cell_put c v t)) \<and>
      table_at (cell_put c v t) = (table_at t)(x := v) \<and>
      (if tb_dummy t then tb_node (cell_put c v t) = [empty_node] \<and> tb_lastfree (cell_put c v t) = 0
       else free_ok (tb_node (cell_put c v t)) (tb_lastfree (cell_put c v t)))"
  proof (cases c)
    case (ArrCell j)
    then have j: "j < length (tb_array t)" "x = TInt (int j + 1)" using c by (auto simp: cell_of_def)
    have "table_at (cell_put c v t) y = ((table_at t)(x := v)) y" for y
    proof (cases "\<exists>i. y = TInt i \<and> in_array t y")
      case True
      then obtain i where i: "y = TInt i" "1 \<le> i" "i \<le> int (length (tb_array t))" by (auto simp: in_array_def)
      then show ?thesis using j ArrCell by (auto simp: table_at_def cell_put_def in_array_def nth_list_update)
    next
      case False
      then have "\<not> in_array t y" by (cases y) (auto simp: in_array_def)
      moreover have "y \<noteq> x" using False j by (auto simp: in_array_def)
      ultimately show ?thesis using ArrCell same_shape_in_array [OF s] by (simp add: table_at_def cell_put_def)
    qed
    then show ?thesis using ArrCell table_okD(1,5,6) [OF ok] by (auto simp: cell_put_def)
  next
    case (NodeCell j)
    then have j: "j < length (tb_node t)" "nd_key (tb_node t ! j) = x" "x \<noteq> TNil" using c by (auto simp: cell_of_def)
    have u: "nd_key (tb_node t ! j) \<noteq> TNil" using j by simp
    have na: "\<not> in_array t x" using table_okD(4) [OF ok] cell_of_node c NodeCell by blast
    have nd: "\<not> tb_dummy t" using table_okD(6) [OF ok] j by (auto simp: empty_node_def)
    have "table_at (cell_put c v t) y = ((table_at t)(x := v)) y" for y
    proof (cases "in_array t y \<or> \<not> valid_key y")
      case True
      then show ?thesis using NodeCell na canonicalD(1) [OF x] same_shape_in_array [OF s]
        by (auto simp: table_at_def cell_put_def split: tvalue.splits)
    next
      case False
      then have "y \<noteq> TNil" by (auto simp: valid_key_def)
      from content_set_val [OF table_okD(1) [OF ok] j(1) u this, of v] show ?thesis
        using False NodeCell j(2) same_shape_in_array [OF s] by (simp add: table_at_def cell_put_def)
    qed
    then show ?thesis using NodeCell nd chain_ok_set_val [OF table_okD(1) [OF ok] j(1) u] table_okD(5) [OF ok nd]
      by (auto simp: cell_put_def free_ok_def)
  qed
  then show "table_ok seed (cell_put c v t)" "table_at (cell_put c v t) = (table_at t)(x := v)"
    using ok k s same_shape_in_array [OF s] unfolding table_ok_def by (simp_all add: same_shape_def)
qed

section \<open>Stores\<close>

definition store_with :: "newkey \<Rightarrow> 32 word \<Rightarrow> ltable \<Rightarrow> tvalue \<Rightarrow> tvalue \<Rightarrow> lua_error + ltable" where
  "store_with nk seed t k v = res_bind (set_with nk seed t k) (\<lambda>(c, t). Inr (cell_put c v t))"

fun store_all :: "newkey \<Rightarrow> 32 word \<Rightarrow> (tvalue \<times> tvalue) list \<Rightarrow> ltable \<Rightarrow> lua_error + ltable" where
  "store_all nk seed [] t = Inr t"
| "store_all nk seed ((k, v) # kvs) t = res_bind (store_with nk seed t k v) (store_all nk seed kvs)"

lemma store_all_append: "store_all nk seed (xs @ ys) t = res_bind (store_all nk seed xs t) (store_all nk seed ys)"
proof (induction xs arbitrary: t)
  case (Cons p xs)
  then have "(\<lambda>u. store_all nk seed (xs @ ys) u) = (\<lambda>u. res_bind (store_all nk seed xs u) (store_all nk seed ys))" by blast
  then show ?case by (cases p) (simp add: res_bind_assoc)
qed simp

lemma store_room:
  assumes "table_ok seed t" "valid_key k" "room t (canon k)"
  shows "\<exists>t'. store_with (newkey_with nk seed) seed t k v = Inr t' \<and> table_ok seed t' \<and> same_shape t t' \<and>
    node_keys t' \<subseteq> (if in_array t (canon k) then node_keys t else insert (canon k) (node_keys t)) \<and>
    table_at t' = (table_at t)(canon k := v)"
proof -
  from set_with_room [OF assms, of nk] obtain c t1 where
    t1: "set_with (newkey_with nk seed) seed t k = Inr (c, t1)" "table_ok seed t1" "same_shape t t1"
      "node_keys t1 \<subseteq> (if in_array t (canon k) then node_keys t else insert (canon k) (node_keys t))"
      "cell_of t1 (canon k) c" "\<forall>y. table_at t1 y = table_at t y" by blast
  note p = cell_put_ok [OF t1(2) canonical_canon [OF assms(2)] t1(5), of v]
  have "table_at t1 = table_at t" using t1(6) by blast
  then show ?thesis using t1(1) p same_shape_trans [OF t1(3) p(2)] t1(4) by (simp add: store_with_def)
qed

end
