(* ===== verification/LuaTableResize.thy ===== *)
theory LuaTableResize
  imports LuaTableStore
begin

text \<open>
  \<open>luaH_resize\<close>: with room for the keys that do not go to the array part, both parts get their new sizes and the map
  the table stands for stays the same. No reinsertion rehashes, so one level of \<open>luaH_newkey\<close> is enough.
\<close>

section \<open>Storing many\<close>

definition update_all :: "(tvalue \<Rightarrow> tvalue) \<Rightarrow> (tvalue \<times> tvalue) list \<Rightarrow> tvalue \<Rightarrow> tvalue" where
  "update_all m kvs = foldl (\<lambda>m (k, v). m(k := v)) m kvs"

lemma update_all_simps [simp]:
  "update_all m [] = m" "update_all m ((k, v) # kvs) = update_all (m(k := v)) kvs"
  by (simp_all add: update_all_def)

lemma update_all_other: "y \<notin> fst ` set kvs \<Longrightarrow> update_all m kvs y = m y"
  by (induction kvs arbitrary: m) (auto simp: fun_upd_def)

lemma update_all_in: "distinct (map fst kvs) \<Longrightarrow> (k, v) \<in> set kvs \<Longrightarrow> update_all m kvs k = v"
proof (induction kvs arbitrary: m)
  case (Cons p kvs)
  obtain a b where p: "p = (a, b)" by (cases p)
  show ?case
  proof (cases "(k, v) = p")
    case True
    then show ?thesis using Cons(2) p update_all_other [of k kvs "m(k := v)"] by (auto simp: image_iff)
  next
    case False
    then have "(k, v) \<in> set kvs" "distinct (map fst kvs)" using Cons(2,3) p by auto
    from Cons(1) [OF this(2,1), of "m(a := b)"] show ?thesis by (simp only: p update_all_simps)
  qed
qed simp

lemma finite_node_keys [simp]: "finite (node_keys t)"
  by (simp add: node_keys_def keyset_def)

definition outside :: "ltable \<Rightarrow> tvalue set \<Rightarrow> tvalue set" where
  "outside t K = {k \<in> K. \<not> in_array t k}"

lemma store_all_room:
  assumes "table_ok seed t" "\<And>k v. (k, v) \<in> set kvs \<Longrightarrow> canonical k"
    and "if tb_dummy t then outside t (fst ` set kvs) = {}
      else card (node_keys t \<union> outside t (fst ` set kvs)) \<le> length (tb_node t)"
  shows "\<exists>t'. store_all (newkey_with nk seed) seed kvs t = Inr t' \<and> table_ok seed t' \<and> same_shape t t' \<and>
    node_keys t' \<subseteq> node_keys t \<union> outside t (fst ` set kvs) \<and> table_at t' = update_all (table_at t) kvs"
  using assms
proof (induction kvs arbitrary: t)
  case (Cons p kvs)
  obtain k v where p: "p = (k, v)" by (cases p)
  have k: "valid_key k" "canon k = k" using Cons(3) [of k v] p canonicalD by auto
  let ?K = "node_keys t \<union> outside t (fst ` set (p # kvs))"
  have fin: "finite ?K" by (simp add: outside_def)
  have rm: "room t (canon k)"
  proof (cases "in_array t k \<or> k \<in> node_keys t")
    case False
    then have "\<not> tb_dummy t" using Cons(4) p by (auto simp: outside_def split: if_splits)
    moreover have "card (insert k (node_keys t)) \<le> card ?K" using False p fin by (intro card_mono) (auto simp: outside_def)
    ultimately show ?thesis using Cons(4) False by (simp add: room_def k)
  qed (auto simp: room_def k)
  from store_room [OF Cons(2) k(1) rm, of nk v] obtain t1 where
    t1: "store_with (newkey_with nk seed) seed t k v = Inr t1" "table_ok seed t1" "same_shape t t1"
      "node_keys t1 \<subseteq> (if in_array t k then node_keys t else insert k (node_keys t))"
      "table_at t1 = (table_at t)(k := v)" unfolding k(2) by blast
  have out: "outside t1 K = outside t K" for K by (simp add: outside_def same_shape_in_array [OF t1(3)])
  have sub: "node_keys t1 \<union> outside t (fst ` set kvs) \<subseteq> ?K" using t1(4) p by (auto simp: outside_def split: if_splits)
  have mono: "outside t (fst ` set kvs) \<subseteq> outside t (fst ` set (p # kvs))" by (auto simp: outside_def)
  have "if tb_dummy t1 then outside t1 (fst ` set kvs) = {}
      else card (node_keys t1 \<union> outside t1 (fst ` set kvs)) \<le> length (tb_node t1)"
  proof (cases "tb_dummy t")
    case True
    then show ?thesis using Cons(4) t1(3) mono unfolding out same_shape_def by auto
  next
    case False
    then show ?thesis using Cons(4) t1(3) card_mono [OF fin sub] unfolding out same_shape_def by simp
  qed
  from Cons(1) [OF t1(2) _ this] Cons(3) obtain t2 where
    t2: "store_all (newkey_with nk seed) seed kvs t1 = Inr t2" "table_ok seed t2" "same_shape t1 t2"
      "node_keys t2 \<subseteq> node_keys t1 \<union> outside t (fst ` set kvs)" "table_at t2 = update_all (table_at t1) kvs"
    unfolding out by auto
  have "node_keys t2 \<subseteq> ?K" using t2(4) sub by blast
  then show ?case using t1 t2 same_shape_trans [OF t1(3) t2(3)] p by simp
qed simp

section \<open>What a table holds\<close>

fun array_pairs :: "nat \<Rightarrow> tvalue list \<Rightarrow> (tvalue \<times> tvalue) list" where
  "array_pairs i [] = []"
| "array_pairs i (v # vs) = (if v \<noteq> TNil then [(TInt (int (i + 1)), v)] else []) @ array_pairs (Suc i) vs"

definition node_pairs :: "lnode list \<Rightarrow> (tvalue \<times> tvalue) list" where
  "node_pairs ns = map (\<lambda>n. (nd_key n, nd_val n)) (filter (\<lambda>n. nd_val n \<noteq> TNil) ns)"

lemma array_pairs_iff:
  "(k, v) \<in> set (array_pairs i vs) \<longleftrightarrow> v \<noteq> TNil \<and> (\<exists>j<length vs. k = TInt (int (i + j) + 1) \<and> vs ! j = v)"
proof (induction vs arbitrary: i)
  case (Cons w vs)
  have "(\<exists>j<length (w # vs). k = TInt (int (i + j) + 1) \<and> (w # vs) ! j = v) \<longleftrightarrow>
      k = TInt (int i + 1) \<and> w = v \<or> (\<exists>j<length vs. k = TInt (int (Suc i + j) + 1) \<and> vs ! j = v)"
    by (simp only: length_Cons Ex_less_Suc2) (simp add: add_ac)
  then show ?case unfolding array_pairs.simps set_append Un_iff Cons by auto
qed simp

lemma distinct_array_pairs: "distinct (map fst (array_pairs i vs))"
proof (induction vs arbitrary: i)
  case (Cons w vs)
  have "TInt (int (i + 1)) \<notin> fst ` set (array_pairs (Suc i) vs)"
    using array_pairs_iff [of _ _ "Suc i" vs] by (auto simp: image_iff)
  then show ?case using Cons by simp
qed simp

lemma node_pairs_iff:
  "(k, v) \<in> set (node_pairs ns) \<longleftrightarrow> v \<noteq> TNil \<and> (\<exists>i<length ns. nd_key (ns ! i) = k \<and> nd_val (ns ! i) = v)"
  by (auto simp: node_pairs_def in_set_conv_nth)

lemma distinct_node_pairs:
  assumes "chain_ok mp ns"
  shows "distinct (map fst (node_pairs ns))"
proof -
  have "distinct (map fst (node_pairs (take n ns)))" if "n \<le> length ns" for n
    using that
  proof (induction n)
    case (Suc n)
    let ?k = "nd_key (ns ! n)"
    have "?k \<notin> fst ` set (node_pairs (take n ns))" if "nd_val (ns ! n) \<noteq> TNil"
    proof
      assume "?k \<in> fst ` set (node_pairs (take n ns))"
      then obtain i where "i < n" "nd_key (ns ! i) = ?k" using Suc(2) by (auto simp: node_pairs_iff image_iff)
      moreover have "?k \<noteq> TNil" using blank [OF assms, of n] Suc(2) that by auto
      ultimately show False using keys_unique [OF assms, of i n] Suc(2) by auto
    qed
    moreover have "node_pairs (take (Suc n) ns) =
        node_pairs (take n ns) @ (if nd_val (ns ! n) \<noteq> TNil then [(?k, nd_val (ns ! n))] else [])"
      using Suc(2) by (simp add: node_pairs_def take_Suc_conv_app_nth)
    ultimately show ?case using Suc by simp
  qed (simp add: node_pairs_def)
  from this [of "length ns"] show ?thesis by simp
qed

lemma reinsert_nodes_store: "reinsert_nodes nk seed ns t = store_all nk seed (node_pairs ns) t"
proof (induction ns arbitrary: t)
  case (Cons n ns)
  then have "reinsert_nodes nk seed ns = store_all nk seed (node_pairs ns)" by blast
  then show ?case by (simp add: node_pairs_def store_with_def)
qed (simp add: node_pairs_def)

lemma reinsert_array_store: "reinsert_array nk seed i vs t = store_all nk seed (array_pairs i vs) t"
proof (induction vs arbitrary: i t)
  case (Cons v vs)
  then have "reinsert_array nk seed (Suc i) vs = store_all nk seed (array_pairs (Suc i) vs)" by blast
  moreover have "setint_with nk seed t k v = store_with nk seed t (TInt k) v" for k t
    by (simp add: setint_with_def store_with_def set_with_def luaH_get_def res_bind_assoc)
  ultimately show ?case by simp
qed simp

definition fits :: "nat \<Rightarrow> tvalue \<Rightarrow> bool" where
  "fits n k \<longleftrightarrow> (case k of TInt i \<Rightarrow> 1 \<le> i \<and> i \<le> int n | _ \<Rightarrow> False)"

lemma in_array_fits: "in_array t k = fits (length (tb_array t)) k"
  by (cases k) (simp_all add: in_array_def fits_def)

lemma fits_canonical: "fits n k \<Longrightarrow> n \<le> 2147483648 \<Longrightarrow> canonical k"
  by (cases k) (auto simp: fits_def canonical_def valid_key_def canon_def in_s64_def)

definition live_pairs :: "ltable \<Rightarrow> (tvalue \<times> tvalue) list" where
  "live_pairs t = array_pairs 0 (tb_array t) @ node_pairs (tb_node t)"

definition live :: "ltable \<Rightarrow> tvalue set" where
  "live t = {k. table_at t k \<noteq> TNil}"

lemma array_pairs_at:
  "(k, v) \<in> set (array_pairs 0 (tb_array t)) \<longleftrightarrow> in_array t k \<and> v \<noteq> TNil \<and> table_at t k = v"
proof (cases "in_array t k")
  case True
  then obtain i where i: "k = TInt i" "1 \<le> i" "i \<le> int (length (tb_array t))" by (cases k) (auto simp: in_array_def)
  have "(\<exists>j<length (tb_array t). k = TInt (int (0 + j) + 1) \<and> tb_array t ! j = v) \<longleftrightarrow> tb_array t ! nat (i - 1) = v"
    using i by (auto intro!: exI [of _ "nat (i - 1)"])
  then show ?thesis using True i by (auto simp: array_pairs_iff table_at_def)
qed (auto simp: array_pairs_iff in_array_def)

lemma node_pairs_at:
  assumes ok: "table_ok seed t"
  shows "(k, v) \<in> set (node_pairs (tb_node t)) \<longleftrightarrow> \<not> in_array t k \<and> v \<noteq> TNil \<and> table_at t k = v"
proof
  assume "(k, v) \<in> set (node_pairs (tb_node t))"
  then obtain i where i: "i < length (tb_node t)" "nd_key (tb_node t ! i) = k" "nd_val (tb_node t ! i) = v" "v \<noteq> TNil"
    by (auto simp: node_pairs_iff)
  moreover have "k \<noteq> TNil" using blank [OF table_okD(1) [OF ok] i(1)] i by auto
  ultimately have k: "k \<in> node_keys t" by (auto simp: node_keys_def keyset_iff)
  then show "\<not> in_array t k \<and> v \<noteq> TNil \<and> table_at t k = v"
    using content_at [OF table_okD(1) [OF ok] i(1,2) \<open>k \<noteq> TNil\<close>] table_okD(3,4) [OF ok] i(3,4) canonicalD(1)
    by (simp add: table_at_def)
next
  assume v: "\<not> in_array t k \<and> v \<noteq> TNil \<and> table_at t k = v"
  then have "k \<in> node_keys t" using table_at_absent by blast
  then obtain i where i: "i < length (tb_node t)" "nd_key (tb_node t ! i) = k" "k \<noteq> TNil" by (auto simp: node_keys_def keyset_iff)
  have "valid_key k" using \<open>k \<in> node_keys t\<close> table_okD(3) [OF ok] canonicalD(1) by blast
  then have "table_at t k = content (tb_node t) k" using v by (simp add: table_at_def)
  then have "nd_val (tb_node t ! i) = v" using v content_at [OF table_okD(1) [OF ok] i] by simp
  then show "(k, v) \<in> set (node_pairs (tb_node t))" using i v by (auto simp: node_pairs_iff)
qed

lemma live_pairs_at: "table_ok seed t \<Longrightarrow> (k, v) \<in> set (live_pairs t) \<longleftrightarrow> v \<noteq> TNil \<and> table_at t k = v"
  unfolding live_pairs_def set_append Un_iff array_pairs_at using node_pairs_at by blast

lemma live_keys: "table_ok seed t \<Longrightarrow> fst ` set (live_pairs t) = live t"
proof (intro equalityI subsetI)
  assume ok: "table_ok seed t"
  show "k \<in> live t" if "k \<in> fst ` set (live_pairs t)" for k using that live_pairs_at [OF ok] by (auto simp: live_def)
  show "k \<in> fst ` set (live_pairs t)" if "k \<in> live t" for k
    using that live_pairs_at [OF ok, of k "table_at t k"] by (auto simp: live_def intro: rev_image_eqI)
qed

lemma distinct_live_pairs:
  assumes "table_ok seed t"
  shows "distinct (map fst (live_pairs t))"
  using distinct_array_pairs [of 0 "tb_array t"] distinct_node_pairs [OF table_okD(1) [OF assms]]
    node_pairs_at [OF assms] array_pairs_at [of _ _ t]
  by (auto simp: live_pairs_def)

lemma live_canonical: "table_ok seed t \<Longrightarrow> k \<in> live t \<Longrightarrow> canonical k"
proof -
  assume ok: "table_ok seed t" and k: "k \<in> live t"
  show "canonical k"
  proof (cases "in_array t k")
    case True
    then show ?thesis using fits_canonical table_okD(2) [OF ok] by (auto simp: in_array_fits)
  next
    case False
    then show ?thesis using k table_at_absent table_okD(3) [OF ok] by (auto simp: live_def)
  qed
qed

lemma finite_live: "table_ok seed t \<Longrightarrow> finite (live t)"
  using live_keys [of seed t] by (metis finite_imageI finite_set)

section \<open>Resizing\<close>

lemma edges_replicate: "edges (replicate n empty_node) = {}"
  by (auto simp: edges_def empty_node_def)

lemma chain_ok_replicate: "chain_ok mp (replicate n empty_node)"
  by (rule chain_okI [OF edges_replicate, where r = "\<lambda>_. 0"]) (simp_all add: empty_node_def)

lemma keyset_replicate: "keyset (replicate n empty_node) = {}"
  by (auto simp: keyset_def empty_node_def)

text \<open>The table before the reinsertions: the slots of the new array part that exist already, and an empty hash part.\<close>

definition hollow :: "ltable \<Rightarrow> nat \<Rightarrow> nat \<Rightarrow> ltable" where
  "hollow t na nh =
     \<lparr>tb_array = take na (tb_array t) @ replicate (na - length (tb_array t)) TNil,
      tb_node = (if nh = 0 then [empty_node] else replicate (2 ^ luaO_ceillog2 nh) empty_node),
      tb_dummy = (nh = 0), tb_lastfree = (if nh = 0 then 0 else 2 ^ luaO_ceillog2 nh)\<rparr>"

lemma hollow_nodes: "tb_node (hollow t na nh) = replicate (if nh = 0 then 1 else 2 ^ luaO_ceillog2 nh) empty_node"
  by (simp add: hollow_def)

lemma ceillog2_small: "0 < n \<Longrightarrow> n \<le> 1073741824 \<Longrightarrow> luaO_ceillog2 n \<le> 30"
proof (rule ccontr)
  assume n: "0 < n" "n \<le> 1073741824" "\<not> luaO_ceillog2 n \<le> 30"
  then have "(2 :: nat) ^ 30 \<le> 2 ^ (luaO_ceillog2 n - 1)" by (intro power_increasing) auto
  then show False using ceillog2_bounds(2) [of n] n by simp
qed

lemma resize_is_store:
  assumes "nh \<le> 1073741824"
  shows "resize_with nk seed t na nh =
    store_all nk seed (array_pairs na (drop na (tb_array t)) @ node_pairs (rev (tb_node t))) (hollow t na nh)"
proof -
  have big: "na > length (tb_array t) \<Longrightarrow> array_pairs na (drop na (tb_array t)) = []" by simp
  have e: "reinsert_nodes nk seed = (\<lambda>ns. store_all nk seed (node_pairs ns))" by (intro ext) (rule reinsert_nodes_store)
  show ?thesis
    using ceillog2_small [of nh] assms
    by (cases t; cases "na < length (tb_array t)"; cases "nh = 0")
      (simp_all add: resize_with_def setnodevector_def setarrayvector_def hollow_def MAXHBITS_def Let_def store_all_append e reinsert_array_store)
qed

lemma hollow_ok:
  assumes "na \<le> 2147483648" "nh \<le> 1073741824"
  shows "table_ok seed (hollow t na nh)" "node_keys (hollow t na nh) = {}" "in_array (hollow t na nh) k = fits na k"
    "length (tb_array (hollow t na nh)) = na" "nh \<le> length (tb_node (hollow t na nh))"
    "tb_dummy (hollow t na nh) \<longleftrightarrow> nh = 0"
proof -
  show len: "length (tb_array (hollow t na nh)) = na" by (simp add: hollow_def)
  show keys: "node_keys (hollow t na nh) = {}" by (simp add: node_keys_def hollow_nodes keyset_replicate)
  show "in_array (hollow t na nh) k = fits na k" by (simp add: in_array_fits len)
  show d: "tb_dummy (hollow t na nh) \<longleftrightarrow> nh = 0" by (simp add: hollow_def)
  show "nh \<le> length (tb_node (hollow t na nh))" using ceillog2_bounds(1) [of nh] assms(2) by (simp add: hollow_nodes)
  have "\<exists>l\<le>MAXHBITS. length (tb_node (hollow t na nh)) = 2 ^ l"
  proof (cases "nh = 0")
    case False
    then show ?thesis using ceillog2_small [of nh] assms(2)
      by (intro exI [of _ "luaO_ceillog2 nh"]) (simp add: hollow_nodes MAXHBITS_def)
  qed (auto simp: hollow_nodes intro!: exI [of _ 0])
  moreover have "chain_ok mp (tb_node (hollow t na nh))" for mp unfolding hollow_nodes by (rule chain_ok_replicate)
  ultimately show "table_ok seed (hollow t na nh)"
    unfolding table_ok_def keys using assms(1) len by (auto simp: hollow_def free_ok_def)
qed

lemma hollow_at:
  assumes "k \<notin> fst ` set (array_pairs na (drop na (tb_array t)) @ node_pairs (rev (tb_node t)))" "table_ok seed t"
  shows "table_at (hollow t na nh) k = table_at t k"
proof -
  have no: "(k, v) \<notin> set (array_pairs na (drop na (tb_array t)))" "(k, v) \<notin> set (node_pairs (tb_node t))" for v
    using assms(1) fst_conv [of k v] by (auto simp: node_pairs_def simp del: fst_conv intro: rev_image_eqI)
  have "length (tb_array (hollow t na nh)) = na" by (simp add: hollow_def)
  then have in_h: "in_array (hollow t na nh) k = fits na k" by (simp add: in_array_fits)
  have blank_nodes: "content (tb_node (hollow t na nh)) k = TNil" if "k \<noteq> TNil"
    using content_absent [OF that] by (simp add: hollow_nodes keyset_replicate)
  have out: "table_at t k = TNil" if "\<not> in_array t k"
    using no(2) [of "table_at t k"] node_pairs_at [OF assms(2), of k "table_at t k"] that by blast
  show ?thesis
  proof (cases "fits na k")
    case True
    then obtain i where i: "k = TInt i" "1 \<le> i" "i \<le> int na" by (cases k) (auto simp: fits_def)
    have at: "table_at (hollow t na nh) k = (if nat (i - 1) < length (tb_array t) then tb_array t ! nat (i - 1) else TNil)"
      using in_h True i by (auto simp: table_at_def hollow_def nth_append)
    have "in_array t k \<longleftrightarrow> nat (i - 1) < length (tb_array t)" using i by (auto simp: in_array_def)
    then show ?thesis using at out i by (cases "in_array t k") (simp_all add: table_at_def)
  next
    case False
    then have h: "table_at (hollow t na nh) k = TNil"
      using in_h blank_nodes by (cases k) (simp_all add: table_at_def valid_key_def)
    have "table_at t k = TNil" if arr: "in_array t k"
    proof (rule ccontr)
      assume nz: "table_at t k \<noteq> TNil"
      obtain i where i: "k = TInt i" "int na < i" "i \<le> int (length (tb_array t))"
        using arr False by (cases k) (auto simp: in_array_def fits_def)
      have "(k, table_at t k) \<in> set (array_pairs na (drop na (tb_array t)))"
        using nz i arr by (auto simp: array_pairs_iff table_at_def intro!: exI [of _ "nat (i - 1) - na"])
      then show False using no by blast
    qed
    then show ?thesis using h out by (cases "in_array t k") simp_all
  qed
qed

lemma resize_ok:
  assumes ok: "table_ok seed t" and na: "na \<le> 2147483648" and nh: "nh \<le> 1073741824"
    and few: "card {k \<in> live t. \<not> fits na k} \<le> nh"
  shows "\<exists>t'. resize_with (newkey_with nk seed) seed t na nh = Inr t' \<and> table_ok seed t' \<and> table_at t' = table_at t \<and>
    length (tb_array t') = na \<and> nh \<le> length (tb_node t') \<and> (tb_dummy t' \<longleftrightarrow> nh = 0) \<and>
    node_keys t' \<subseteq> {k \<in> live t. \<not> fits na k}"
proof -
  let ?h = "hollow t na nh" and ?kvs = "array_pairs na (drop na (tb_array t)) @ node_pairs (rev (tb_node t))"
  note h = hollow_ok [OF na nh, where t = t]
  have "(k, v) \<in> set (array_pairs 0 (tb_array t))" if kv: "(k, v) \<in> set (array_pairs na (drop na (tb_array t)))" for k v
  proof -
    from kv obtain j where "v \<noteq> TNil" "j < length (tb_array t) - na" "k = TInt (int (na + j) + 1)" "tb_array t ! (na + j) = v"
      by (auto simp: array_pairs_iff)
    then show ?thesis unfolding array_pairs_iff by (intro conjI exI [of _ "na + j"]) simp_all
  qed
  then have sub: "p \<in> set ?kvs \<Longrightarrow> p \<in> set (live_pairs t)" for p
    unfolding live_pairs_def set_append Un_iff by (cases p) (auto simp: node_pairs_def)
  have keys: "fst ` set ?kvs \<subseteq> live t" using sub live_keys [OF ok] by blast
  have out: "outside ?h (fst ` set ?kvs) \<subseteq> {k \<in> live t. \<not> fits na k}"
    using keys unfolding outside_def h(3) by blast
  have "rev (node_pairs (tb_node t)) = node_pairs (rev (tb_node t))" by (simp add: node_pairs_def rev_map rev_filter)
  then have "map fst (node_pairs (rev (tb_node t))) = rev (map fst (node_pairs (tb_node t)))" by (simp add: rev_map)
  then have "distinct (map fst (node_pairs (rev (tb_node t))))" using distinct_node_pairs [OF table_okD(1) [OF ok]] by simp
  moreover have "set (map fst (array_pairs na (drop na (tb_array t)))) \<inter> set (map fst (node_pairs (rev (tb_node t)))) = {}"
  proof -
    have "in_array t k" if "(k, v) \<in> set (array_pairs na (drop na (tb_array t)))" for k v
      using that by (auto simp: array_pairs_iff in_array_def)
    moreover have "\<not> in_array t k" if "(k, v) \<in> set (node_pairs (rev (tb_node t)))" for k v
      using that node_pairs_at [OF ok, of k v] by (simp add: node_pairs_def image_iff)
    ultimately show ?thesis by (fastforce simp: image_iff)
  qed
  ultimately have d: "distinct (map fst ?kvs)" using distinct_array_pairs [of na] by simp
  have fin: "finite {k \<in> live t. \<not> fits na k}" using finite_live [OF ok] by simp
  have "card (outside ?h (fst ` set ?kvs)) \<le> nh" using card_mono [OF fin out] few by linarith
  then have "if tb_dummy ?h then outside ?h (fst ` set ?kvs) = {}
      else card (node_keys ?h \<union> outside ?h (fst ` set ?kvs)) \<le> length (tb_node ?h)"
    using h(2,5,6) finite_subset [OF out fin] by auto
  moreover have "canonical k" if "(k, v) \<in> set ?kvs" for k v
    using keys live_canonical [OF ok] that by force
  ultimately obtain t' where t': "store_all (newkey_with nk seed) seed ?kvs ?h = Inr t'" "table_ok seed t'" "same_shape ?h t'"
      "node_keys t' \<subseteq> node_keys ?h \<union> outside ?h (fst ` set ?kvs)" "table_at t' = update_all (table_at ?h) ?kvs"
    using store_all_room [OF h(1), of ?kvs nk] by blast
  have "table_at t' k = table_at t k" for k
  proof (cases "k \<in> fst ` set ?kvs")
    case True
    then obtain v where v: "(k, v) \<in> set ?kvs" by force
    then show ?thesis using update_all_in [OF d v] live_pairs_at [OF ok, of k v] sub [OF v] t'(5) by simp
  next
    case False
    then show ?thesis using update_all_other [OF False, of "table_at ?h"] hollow_at [OF False ok] t'(5) by simp
  qed
  then have "table_at t' = table_at t" by blast
  moreover have "node_keys t' \<subseteq> {k \<in> live t. \<not> fits na k}" using t'(4) out unfolding h(2) by blast
  ultimately show ?thesis
    using t'(1,2,3) h(4-6) unfolding resize_is_store [OF nh] same_shape_def by auto
qed

end
