(* ===== verification/LuaTableRehash.thy ===== *)
theory LuaTableRehash
  imports LuaTableResize
begin

text \<open>
  \<open>rehash\<close>: the counts of the integer keys are exact, the new array part is more than half full, the new hash part has
  room for what does not go there and for the new key. With that a store always updates the map of the table.
\<close>

section \<open>Slots\<close>

text \<open>Slot \<open>j\<close> holds the integer keys above \<open>2 ^ (j - 1)\<close> and up to \<open>2 ^ j\<close>.\<close>

definition in_slot :: "nat \<Rightarrow> tvalue \<Rightarrow> bool" where
  "in_slot j k \<longleftrightarrow> fits 2147483648 k \<and> luaO_ceillog2 (arrayindex k) = j"

lemma arrayindex_fits: "arrayindex k \<noteq> 0 \<longleftrightarrow> fits 2147483648 k"
  by (cases k) (auto simp: arrayindex_def fits_def MAXASIZE_def)

lemma arrayindex_range: "fits n k \<Longrightarrow> n \<le> 2147483648 \<Longrightarrow> 0 < arrayindex k \<and> arrayindex k \<le> n \<and> k = TInt (int (arrayindex k))"
  by (cases k) (auto simp: arrayindex_def fits_def MAXASIZE_def)

lemma ceillog2_le:
  assumes "0 < x" "x \<le> 2147483648"
  shows "luaO_ceillog2 x \<le> j \<longleftrightarrow> x \<le> 2 ^ j"
proof
  assume "luaO_ceillog2 x \<le> j"
  then have "(2 :: nat) ^ luaO_ceillog2 x \<le> 2 ^ j" by (intro power_increasing) auto
  then show "x \<le> 2 ^ j" using ceillog2_bounds(1) [of x] assms by linarith
next
  assume x: "x \<le> 2 ^ j"
  show "luaO_ceillog2 x \<le> j"
  proof (rule ccontr)
    assume "\<not> luaO_ceillog2 x \<le> j"
    then have "(2 :: nat) ^ j \<le> 2 ^ (luaO_ceillog2 x - 1)" by (intro power_increasing) auto
    moreover have "2 ^ (luaO_ceillog2 x - 1) < x" using ceillog2_bounds(2) [of x] assms \<open>\<not> luaO_ceillog2 x \<le> j\<close> by auto
    ultimately show False using x by linarith
  qed
qed

lemma ceillog2_31: "0 < x \<Longrightarrow> x \<le> 2147483648 \<Longrightarrow> luaO_ceillog2 x \<le> 31"
  using ceillog2_le [of x 31] by simp

definition slots :: "tvalue list \<Rightarrow> nat \<Rightarrow> nat" where
  "slots ks j = length (filter (in_slot j) ks)"

lemma slots_simps [simp]: "slots [] j = 0" "slots (xs @ ys) j = slots xs j + slots ys j"
  "slots (k # ks) j = (if in_slot j k then 1 else 0) + slots ks j"
  by (simp_all add: slots_def)

definition added :: "nat list \<Rightarrow> nat list \<Rightarrow> (nat \<Rightarrow> nat) \<Rightarrow> bool" where
  "added nums nums' s \<longleftrightarrow> length nums' = length nums \<and> (\<forall>j<length nums. nums' ! j = nums ! j + s j)"

lemma added_trans: "added a b s \<Longrightarrow> added b c s' \<Longrightarrow> added a c (\<lambda>j. s j + s' j)"
  by (simp add: added_def)

lemma added_refl [simp]: "added a a (\<lambda>j. 0)"
  by (simp add: added_def)

lemma added_bump: "i < length nums \<Longrightarrow> added nums (bump nums i n) (\<lambda>j. if j = i then n else 0)"
  by (simp add: added_def bump_def nth_list_update)

section \<open>Counting\<close>

definition int_keys :: "tvalue list \<Rightarrow> nat" where
  "int_keys ks = length (filter (fits 2147483648) ks)"

lemma int_keys_simps [simp]: "int_keys [] = 0" "int_keys (xs @ ys) = int_keys xs + int_keys ys"
  "int_keys (k # ks) = (if fits 2147483648 k then 1 else 0) + int_keys ks"
  by (simp_all add: int_keys_def)

lemma countint_ok:
  assumes "length nums = 32"
  shows "\<exists>nums'. countint k nums = (int_keys [k], nums') \<and> added nums nums' (slots [k])"
proof (cases "fits 2147483648 k")
  case True
  have "luaO_ceillog2 (arrayindex k) < length nums" using arrayindex_range [OF True] ceillog2_31 [of "arrayindex k"] assms by simp
  from added_bump [OF this, of 1] show ?thesis
    using True arrayindex_fits [of k] by (auto simp: countint_def Let_def added_def in_slot_def)
next
  case False
  then show ?thesis using arrayindex_fits [of k] by (simp add: countint_def Let_def added_def in_slot_def)
qed

lemma numusehash_loop_ok:
  assumes "length nums = 32"
  shows "\<exists>nums'. numusehash_loop ns tot ause nums =
      (tot + length (node_pairs ns), ause + int_keys (map fst (node_pairs ns)), nums') \<and>
    added nums nums' (slots (map fst (node_pairs ns)))"
  using assms
proof (induction ns arbitrary: tot ause nums)
  case Nil
  then show ?case by (simp add: node_pairs_def added_def)
next
  case (Cons n ns)
  show ?case
  proof (cases "nd_val n = TNil")
    case True
    then show ?thesis using Cons by (simp add: node_pairs_def)
  next
    case False
    from countint_ok [OF Cons(2), of "nd_key n"] obtain n1 where
      n1: "countint (nd_key n) nums = (int_keys [nd_key n], n1)" "added nums n1 (slots [nd_key n])" by blast
    then have "length n1 = 32" using Cons(2) by (simp add: added_def)
    from Cons(1) [OF this, of "Suc tot" "ause + int_keys [nd_key n]"] obtain n2 where
      n2: "numusehash_loop ns (Suc tot) (ause + int_keys [nd_key n]) n1 =
          (Suc tot + length (node_pairs ns), ause + int_keys [nd_key n] + int_keys (map fst (node_pairs ns)), n2)"
        "added n1 n2 (slots (map fst (node_pairs ns)))" by blast
    show ?thesis using False n1(1) n2(1) added_trans [OF n1(2) n2(2)]
      by (simp add: node_pairs_def added_def)
  qed
qed

text \<open>The used indices of the array part from \<open>i\<close> on.\<close>

definition used_from :: "tvalue list \<Rightarrow> nat \<Rightarrow> nat list" where
  "used_from arr i = filter (\<lambda>x. arr ! (x - 1) \<noteq> TNil) [i..<Suc (length arr)]"

definition slot_start :: "nat \<Rightarrow> nat \<Rightarrow> nat" where
  "slot_start len lg = (if lg = 0 then 1 else min (2 ^ (lg - 1)) len + 1)"

lemma slot_start_log:
  assumes "slot_start len lg \<le> x" "x \<le> len" "len \<le> 2147483648"
  shows "lg \<le> luaO_ceillog2 x" "0 < x"
proof -
  show "0 < x" using assms(1) by (auto simp: slot_start_def split: if_splits)
  have "\<not> luaO_ceillog2 x \<le> lg - 1" if "lg \<noteq> 0"
    using ceillog2_le [OF \<open>0 < x\<close>, of "lg - 1"] assms that by (auto simp: slot_start_def)
  then show "lg \<le> luaO_ceillog2 x" by (cases lg) auto
qed

lemma numusearray_loop_ok:
  assumes "length nums = 32" "length arr \<le> 2147483648" "lg \<le> 32" "i = slot_start (length arr) lg"
  shows "\<exists>nums'. numusearray_loop arr nums ause i lg = (ause + length (used_from arr i), nums') \<and>
    added nums nums' (\<lambda>j. length (filter (\<lambda>x. luaO_ceillog2 x = j) (used_from arr i)))"
  using assms(1,3,4)
proof (induction "32 - lg" arbitrary: lg i nums ause)
  case 0
  then have "lg = 32" by simp
  then have "used_from arr i = []" using 0 assms(2) by (simp add: used_from_def slot_start_def)
  then show ?case using \<open>lg = 32\<close> by (simp add: numusearray_loop.simps MAXABITS_def)
next
  case (Suc d)
  let ?lim = "min (2 ^ lg) (length arr)"
  have lg: "lg \<le> 31" "d = 32 - Suc lg" using Suc(2) by auto
  show ?case
  proof (cases "2 ^ lg > length arr \<and> i > length arr")
    case True
    then have "used_from arr i = []" by (simp add: used_from_def)
    then show ?thesis using True lg by (subst numusearray_loop.simps) (simp add: MAXABITS_def)
  next
    case False
    have lim: "(if 2 ^ lg > length arr then length arr else 2 ^ lg) = ?lim" by simp
    have nxt: "max i (Suc ?lim) = slot_start (length arr) (Suc lg)"
      using Suc(5) by (cases lg) (auto simp: slot_start_def)
    have go: "\<not> (2 ^ lg > length arr \<and> i > ?lim)" using False by auto
    let ?lc = "count_slice arr i ?lim"
    have step: "numusearray_loop arr nums ause i lg =
        numusearray_loop arr (bump nums lg ?lc) (ause + ?lc) (slot_start (length arr) (Suc lg)) (Suc lg)"
      by (subst numusearray_loop.simps) (simp only: MAXABITS_def lg(1) Let_def lim go if_True if_False nxt)
    have b: "added nums (bump nums lg ?lc) (\<lambda>j. if j = lg then ?lc else 0)" using Suc(3) lg by (intro added_bump) simp
    then have "length (bump nums lg ?lc) = 32" using Suc(3) by (simp add: added_def)
    from Suc(1) [OF lg(2) this _ refl, of "ause + ?lc"] lg(1) obtain n2 where
      n2: "numusearray_loop arr (bump nums lg ?lc) (ause + ?lc) (slot_start (length arr) (Suc lg)) (Suc lg) =
          (ause + ?lc + length (used_from arr (slot_start (length arr) (Suc lg))), n2)"
        "added (bump nums lg ?lc) n2
          (\<lambda>j. length (filter (\<lambda>x. luaO_ceillog2 x = j) (used_from arr (slot_start (length arr) (Suc lg)))))"
      by auto
    define sl where "sl = filter (\<lambda>x. arr ! (x - 1) \<noteq> TNil) [i..<Suc ?lim]"
    have sl: "length sl = ?lc" by (simp add: sl_def count_slice_def)
    have "[i..<Suc (length arr)] = [i..<Suc ?lim] @ [max i (Suc ?lim)..<Suc (length arr)]"
    proof (cases "i \<le> Suc ?lim")
      case True
      then show ?thesis using upt_add_eq_append [of i "Suc ?lim" "length arr - ?lim"] by (simp add: max_def)
    next
      case False
      then show ?thesis using Suc(5) by (cases lg) (auto simp: slot_start_def)
    qed
    then have split: "used_from arr i = sl @ used_from arr (slot_start (length arr) (Suc lg))"
      by (simp add: used_from_def sl_def nxt del: upt_Suc)
    have "luaO_ceillog2 x = lg" if "x \<in> set sl" for x
      using that slot_start_log [of "length arr" lg x] ceillog2_le [of x lg] assms(2) Suc(5) by (auto simp: sl_def)
    then have "filter (\<lambda>x. luaO_ceillog2 x = j) sl = (if j = lg then sl else [])" for j
      by (auto intro!: filter_True filter_False)
    then have "length (filter (\<lambda>x. luaO_ceillog2 x = j) sl) = (if j = lg then ?lc else 0)" for j
      by (simp add: sl)
    then show ?thesis using step n2(1) added_trans [OF b n2(2)] by (simp add: split sl)
  qed
qed

section \<open>The size of the array part\<close>

definition below :: "nat list \<Rightarrow> nat \<Rightarrow> nat" where
  "below nums i = sum_list (take i nums)"

lemma below_Suc: "i < length nums \<Longrightarrow> below nums (Suc i) = below nums i + nums ! i"
  by (simp add: below_def take_Suc_conv_app_nth)

lemma below_0 [simp]: "below nums 0 = 0"
  by (simp add: below_def)

definition optimal_upto :: "nat list \<Rightarrow> nat \<Rightarrow> nat \<Rightarrow> nat \<Rightarrow> bool" where
  "optimal_upto nums i opt na \<longleftrightarrow>
     (opt = 0 \<and> na = 0 \<or> (\<exists>j<i. opt = 2 ^ j \<and> na = below nums (Suc j) \<and> opt div 2 < na)) \<and>
     (\<forall>j<i. 0 < nums ! j \<longrightarrow> 2 ^ j div 2 < below nums (Suc j) \<longrightarrow> 2 ^ j \<le> opt)"

lemma optimal_upto_keep:
  "optimal_upto nums i opt na \<Longrightarrow> \<not> (0 < nums ! i \<and> 2 ^ i div 2 < below nums (Suc i)) \<Longrightarrow> optimal_upto nums (Suc i) opt na"
  unfolding optimal_upto_def by (auto simp: less_Suc_eq)

lemma optimal_upto_take:
  assumes "optimal_upto nums i opt na" "2 ^ i div 2 < below nums (Suc i)"
  shows "optimal_upto nums (Suc i) (2 ^ i) (below nums (Suc i))"
proof -
  have "(2 :: nat) ^ j \<le> 2 ^ i" if "j < i" for j using that by (intro power_increasing) auto
  then show ?thesis using assms unfolding optimal_upto_def by (auto simp: less_Suc_eq)
qed

lemma computesizes_loop_ok:
  assumes "length nums = 32" "pna \<le> 1073741824" "i \<le> 31" "optimal_upto nums i opt na"
  shows "\<exists>i' opt' na'. computesizes_loop nums pna i (2 ^ i) (below nums i) na opt = Inr (opt', na') \<and>
    optimal_upto nums i' opt' na' \<and> i' \<le> 31 \<and> pna \<le> 2 ^ i' div 2"
  using assms(3,4)
proof (induction "31 - i" arbitrary: i opt na)
  case 0
  then have "i = 31" by simp
  then have "computesizes_loop nums pna i (2 ^ i) (below nums i) na opt = Inr (opt, na)"
    using assms(2) by (simp add: computesizes_loop.simps)
  then show ?case using 0 assms(2) \<open>i = 31\<close> by (intro exI [of _ i] exI [of _ opt] exI [of _ na]) simp
next
  case (Suc d)
  then have i: "i < 31" "d = 31 - Suc i" by simp_all
  show ?case
  proof (cases "pna \<le> 2 ^ i div 2")
    case True
    then have "computesizes_loop nums pna i (2 ^ i) (below nums i) na opt = Inr (opt, na)"
      by (simp add: computesizes_loop.simps)
    then show ?thesis using Suc(3,4) True by blast
  next
    case False
    have "(2 :: nat) ^ i * 2 \<le> 2 ^ 31" using i power_increasing [of "Suc i" 31 "2 :: nat"] by simp
    then have w: "(2 :: nat) ^ i * 2 mod 4294967296 = 2 ^ Suc i" by simp
    have b: "below nums i + nums ! i = below nums (Suc i)" using below_Suc [of i nums] i assms(1) by simp
    let ?up = "0 < nums ! i \<and> 2 ^ i div 2 < below nums (Suc i)"
    have step: "computesizes_loop nums pna i (2 ^ i) (below nums i) na opt =
        computesizes_loop nums pna (Suc i) (2 ^ Suc i) (below nums (Suc i))
          (if ?up then below nums (Suc i) else na) (if ?up then 2 ^ i else opt)"
      using False i assms(1) b by (subst computesizes_loop.simps) (auto simp: Let_def w)
    have "optimal_upto nums (Suc i) (if ?up then 2 ^ i else opt) (if ?up then below nums (Suc i) else na)"
      using optimal_upto_take [OF Suc(4)] optimal_upto_keep [OF Suc(4)] by auto
    from Suc(1) [OF i(2) _ this] i(1) show ?thesis unfolding step by simp
  qed
qed

lemma computesizes_ok:
  assumes "length nums = 32" "pna \<le> 1073741824"
  shows "\<exists>i opt na. computesizes nums pna = Inr (opt, na) \<and> optimal_upto nums i opt na \<and> i \<le> 31 \<and> pna \<le> 2 ^ i div 2"
proof -
  have "optimal_upto nums 0 0 0" by (simp add: optimal_upto_def)
  from computesizes_loop_ok [OF assms _ this] show ?thesis by (simp add: computesizes_def)
qed

section \<open>Rehash\<close>

lemma array_pairs_keys:
  "map fst (array_pairs i vs) = map (\<lambda>x. TInt (int (i + x))) (used_from vs 1)"
proof (induction vs arbitrary: i)
  case (Cons v vs)
  have "[1..<Suc (length (v # vs))] = 1 # map Suc [1..<Suc (length vs)]"
    by (simp add: map_Suc_upt upt_conv_Cons del: upt_Suc)
  moreover have "filter (\<lambda>x. (v # vs) ! (Suc x - 1) \<noteq> TNil) [1..<Suc (length vs)] = used_from vs 1"
    unfolding used_from_def by (intro filter_cong) (auto simp: nth_Cons')
  moreover have "filter (\<lambda>x. (v # vs) ! (x - 1) \<noteq> TNil) (1 # map Suc xs) =
      (if v \<noteq> TNil then [1] else []) @ map Suc (filter (\<lambda>x. (v # vs) ! (Suc x - 1) \<noteq> TNil) xs)" for xs
    by (simp add: filter_map comp_def)
  ultimately have "used_from (v # vs) 1 = (if v \<noteq> TNil then [1] else []) @ map Suc (used_from vs 1)"
    by (simp only: used_from_def [of "v # vs"])
  then show ?case using Cons [of "Suc i"] by (simp add: comp_def)
qed (simp add: used_from_def)

lemma numusearray_ok:
  assumes "length nums = 32" "length (tb_array t) \<le> 2147483648"
  shows "\<exists>nums'. numusearray t nums = (length (array_pairs 0 (tb_array t)), nums') \<and>
    added nums nums' (slots (map fst (array_pairs 0 (tb_array t))))"
proof -
  let ?u = "used_from (tb_array t) 1"
  have "length (array_pairs 0 (tb_array t)) = length ?u"
    using arg_cong [OF array_pairs_keys [of 0 "tb_array t"], of length] by simp
  moreover have "slots (map fst (array_pairs 0 (tb_array t))) j = length (filter (\<lambda>x. luaO_ceillog2 x = j) ?u)" for j
  proof -
    have "filter (in_slot j \<circ> (\<lambda>x. TInt (int (0 + x)))) ?u = filter (\<lambda>x. luaO_ceillog2 x = j) ?u"
      using assms(2) by (intro filter_cong) (auto simp: in_slot_def used_from_def fits_def arrayindex_def MAXASIZE_def)
    then show ?thesis unfolding array_pairs_keys slots_def filter_map by simp
  qed
  then have "slots (map fst (array_pairs 0 (tb_array t))) = (\<lambda>j. length (filter (\<lambda>x. luaO_ceillog2 x = j) ?u))"
    by (intro ext)
  ultimately show ?thesis
    using numusearray_loop_ok [OF assms, of 0 1 0] by (simp add: numusearray_def slot_start_def)
qed

lemma below_sum: "i \<le> length nums \<Longrightarrow> below nums i = (\<Sum>l<i. nums ! l)"
  by (induction i) (simp_all add: below_Suc)

lemma fits_slot: "j \<le> 31 \<Longrightarrow> fits (2 ^ j) k \<longleftrightarrow> (\<exists>l\<le>j. in_slot l k)"
proof -
  assume j: "j \<le> 31"
  have p: "(2 :: nat) ^ j \<le> 2147483648" using power_increasing [OF j, of "2 :: nat"] by simp
  show ?thesis
  proof (cases "fits 2147483648 k")
    case True
    note a = arrayindex_range [OF True]
    have "fits (2 ^ j) k \<longleftrightarrow> arrayindex k \<le> 2 ^ j" using a by (cases k) (auto simp: fits_def arrayindex_def)
    also have "\<dots> \<longleftrightarrow> luaO_ceillog2 (arrayindex k) \<le> j" using ceillog2_le a by simp
    finally show ?thesis using True by (auto simp: in_slot_def)
  next
    case False
    have "fits (2 ^ j) k \<Longrightarrow> fits 2147483648 k"
      using of_nat_mono [OF p, where ?'a = int] by (cases k) (auto simp: fits_def)
    then have "\<not> fits (2 ^ j) k" using False by blast
    then show ?thesis using False by (simp add: in_slot_def)
  qed
qed

lemma slots_below:
  assumes "j \<le> 31"
  shows "(\<Sum>l<Suc j. slots ks l) = length (filter (fits (2 ^ j)) ks)"
proof (induction ks)
  case (Cons k ks)
  have "(\<Sum>l<Suc j. if in_slot l k then 1 else 0) = (if fits (2 ^ j) k then 1 else 0 :: nat)"
  proof (cases "fits (2 ^ j) k")
    case True
    then obtain m where m: "m \<le> j" "in_slot m k" using fits_slot [OF assms] by blast
    then have "(\<lambda>l. if in_slot l k then 1 else 0) = (\<lambda>l. if l = m then 1 else 0 :: nat)" by (auto simp: in_slot_def)
    then have "(\<Sum>l<Suc j. if in_slot l k then 1 else 0) = (\<Sum>l<Suc j. if l = m then 1 else 0 :: nat)" by (rule arg_cong)
    then show ?thesis using True m(1) by (simp only: sum.delta finite_lessThan) simp
  next
    case False
    then show ?thesis using fits_slot [OF assms] by simp
  qed
  then show ?case using Cons by (simp add: sum.distrib)
qed simp

lemma rehash_is_resize:
  fixes ek :: tvalue
  assumes ok: "table_ok seed t" and few: "length (live_pairs t) < 1073741824"
  defines "ks \<equiv> map fst (live_pairs t) @ [ek]"
  shows "\<exists>opt. rehash_with nk seed t ek =
      resize_with nk seed t opt (length (filter (\<lambda>k. \<not> fits opt k) ks)) \<and>
    opt \<le> 2147483648 \<and> (opt = 0 \<or> opt div 2 < length (filter (fits opt) ks)) \<and>
    (\<exists>i\<le>31. int_keys ks \<le> 2 ^ i div 2 \<and>
      (\<forall>j<i. 0 < slots ks j \<longrightarrow> 2 ^ j div 2 < length (filter (fits (2 ^ j)) ks) \<longrightarrow> 2 ^ j \<le> opt))"
proof -
  let ?z = "replicate (Suc MAXABITS) 0"
  have z: "length ?z = 32" by (simp add: MAXABITS_def)
  from numusearray_ok [OF z table_okD(2) [OF ok]] obtain n0 where
    n0: "numusearray t ?z = (length (array_pairs 0 (tb_array t)), n0)"
      "added ?z n0 (slots (map fst (array_pairs 0 (tb_array t))))" by blast
  then have "length n0 = 32" using z by (simp add: added_def)
  from numusehash_loop_ok [OF this, of "rev (tb_node t)" 0 0] obtain n1 where
    n1: "numusehash t n0 = (length (node_pairs (rev (tb_node t))), int_keys (map fst (node_pairs (rev (tb_node t)))), n1)"
      "added n0 n1 (slots (map fst (node_pairs (rev (tb_node t)))))" by (auto simp: numusehash_def)
  then have "length n1 = 32" using \<open>length n0 = 32\<close> by (simp add: added_def)
  from countint_ok [OF this, of ek] obtain n2 where
    n2: "countint ek n1 = (int_keys [ek], n2)" "added n1 n2 (slots [ek])" by blast
  have r: "node_pairs (rev (tb_node t)) = rev (node_pairs (tb_node t))" by (simp add: node_pairs_def rev_map rev_filter)
  have rl: "slots (map fst (rev xs)) j = slots (map fst xs) j" "int_keys (map fst (rev xs)) = int_keys (map fst xs)" for xs :: "(tvalue \<times> tvalue) list" and j
    by (simp_all add: slots_def int_keys_def rev_map [symmetric] rev_filter [symmetric])
  have len: "length n2 = 32" using n2(2) \<open>length n1 = 32\<close> by (simp add: added_def)
  have at: "n2 ! j = slots ks j" if "j < 32" for j
    using n0(2) n1(2) n2(2) that z \<open>length n0 = 32\<close> \<open>length n1 = 32\<close>
    by (simp add: added_def ks_def live_pairs_def r rl del: slots_simps(3) replicate_Suc)
  have arr: "int_keys (map fst (array_pairs 0 (tb_array t))) = length (array_pairs 0 (tb_array t))"
  proof -
    have "fits 2147483648 k" if "(k, v) \<in> set (array_pairs 0 (tb_array t))" for k v
      using that array_pairs_at [of k v t] table_okD(2) [OF ok] by (cases k) (auto simp: in_array_def fits_def)
    then have "filter (fits 2147483648) (map fst (array_pairs 0 (tb_array t))) = map fst (array_pairs 0 (tb_array t))"
      by (intro filter_True) auto
    then show ?thesis by (simp only: int_keys_def) simp
  qed
  have pna: "length (array_pairs 0 (tb_array t)) + int_keys (map fst (node_pairs (rev (tb_node t)))) + int_keys [ek] = int_keys ks"
    by (simp add: ks_def live_pairs_def r rl arr del: int_keys_simps(3))
  have lks: "length ks \<le> 1073741824" using few by (simp add: ks_def)
  have "int_keys ks \<le> length ks" by (simp add: int_keys_def)
  from computesizes_ok [OF len order_trans [OF this lks]] obtain i opt na where
    c: "computesizes n2 (int_keys ks) = Inr (opt, na)" "optimal_upto n2 i opt na" "i \<le> 31" "int_keys ks \<le> 2 ^ i div 2"
    by blast
  have bel: "below n2 (Suc j) = length (filter (fits (2 ^ j)) ks)" if "j < i" for j
  proof -
    have "below n2 (Suc j) = (\<Sum>l<Suc j. slots ks l)"
      using that c(3) len at by (subst below_sum) (auto intro!: sum.cong)
    then show ?thesis using slots_below [of j ks] that c(3) by simp
  qed
  have na: "na = length (filter (fits opt) ks) \<and> opt \<le> 2147483648 \<and> (opt = 0 \<or> opt div 2 < na)"
  proof (cases "opt = 0 \<and> na = 0")
    case True
    have "\<not> fits 0 k" for k by (cases k) (auto simp: fits_def)
    then show ?thesis using True by simp
  next
    case False
    then obtain j where j: "j < i" "opt = 2 ^ j" "na = below n2 (Suc j)" "opt div 2 < na"
      using c(2) unfolding optimal_upto_def by blast
    have "(2 :: nat) ^ j \<le> 2 ^ 31" using j(1) c(3) by (intro power_increasing) auto
    then show ?thesis using bel [OF j(1)] j by simp
  qed
  have tot: "length (array_pairs 0 (tb_array t)) + length (node_pairs (rev (tb_node t))) + 1 = length ks"
    by (simp add: ks_def live_pairs_def r)
  have "length ks - na = length (filter (\<lambda>k. \<not> fits opt k) ks)"
    using sum_length_filter_compl [of "fits opt" ks] na by simp
  moreover have "rehash_with nk seed t ek = resize_with nk seed t opt (length ks - na)"
    unfolding rehash_with_def Let_def n0(1) n1(1) n2(1) prod.case pna tot c(1) by simp
  moreover have "\<forall>j<i. 0 < slots ks j \<longrightarrow> 2 ^ j div 2 < length (filter (fits (2 ^ j)) ks) \<longrightarrow> 2 ^ j \<le> opt"
    using c(2,3) bel at unfolding optimal_upto_def by auto
  ultimately show ?thesis using na c(3,4) by (intro exI [of _ opt]) auto
qed

end
