(* ===== verification/LuaTableProps.thy ===== *)
theory LuaTableProps
  imports LuaTableRehash
begin

text \<open>
  The properties of Lua tables: a store updates the map a table stands for, with or without a rehash, a lookup reads it,
  and no operation leaves the parts of the table. Two levels of \<open>luaH_newkey\<close> are enough, as a rehash makes room.
\<close>

section \<open>A store\<close>

lemma table_ok_lastfree:
  assumes ok: "table_ok seed t" and full: "snd (getfreepos (tb_node t) (tb_lastfree t)) = None"
  shows "table_ok seed (t\<lparr>tb_lastfree := 0\<rparr>)"
proof -
  have "free_ok (tb_node t) 0" if "\<not> tb_dummy t"
    using getfreepos_full [OF table_okD(5) [OF ok that] full] by (simp add: free_ok_def)
  then show ?thesis using ok unfolding table_ok_def by (auto simp: node_keys_def in_array_def split: tvalue.splits)
qed

lemma lastfree_in_array [simp]: "in_array (t\<lparr>tb_lastfree := n\<rparr>) k = in_array t k"
  by (cases k) (simp_all add: in_array_def)

lemma lastfree_same [simp]:
  "table_at (t\<lparr>tb_lastfree := n\<rparr>) = table_at t" "live_pairs (t\<lparr>tb_lastfree := n\<rparr>) = live_pairs t"
  "live (t\<lparr>tb_lastfree := n\<rparr>) = live t"
  by (simp_all add: fun_eq_iff table_at_def live_pairs_def live_def)

lemma live_length: "table_ok seed t \<Longrightarrow> length (live_pairs t) = card (live t)"
  using distinct_card [OF distinct_live_pairs] live_keys [of seed t] by fastforce

text \<open>The array part is more than half full, and no larger power of two would be.\<close>

definition well_sized :: "tvalue set \<Rightarrow> nat \<Rightarrow> bool" where
  "well_sized K n \<longleftrightarrow>
     (n = 0 \<or> n div 2 < card {k \<in> K. fits n k}) \<and> (\<forall>j\<le>31. 2 ^ j div 2 < card {k \<in> K. fits (2 ^ j) k} \<longrightarrow> 2 ^ j \<le> n)"

lemma fits_few:
  assumes "distinct ks" "n \<le> 2147483648"
  shows "length (filter (fits n) ks) \<le> n"
proof -
  have "{k. fits n k} \<inter> set ks \<subseteq> (\<lambda>x. TInt (int x)) ` {1..n}"
  proof
    fix k assume k: "k \<in> {k. fits n k} \<inter> set ks"
    have "arrayindex k \<in> {1..n}" "k = TInt (int (arrayindex k))" using arrayindex_range [of n k] k assms(2) by auto
    then show "k \<in> (\<lambda>x. TInt (int x)) ` {1..n}" by (rule rev_image_eqI)
  qed
  from surj_card_le [OF _ this] show ?thesis by (simp add: distinct_length_filter assms(1))
qed

lemma size_is_largest:
  assumes d: "distinct ks" and i: "i \<le> 31" "int_keys ks \<le> 2 ^ i div 2"
    and opt: "\<forall>j<i. 0 < slots ks j \<longrightarrow> 2 ^ j div 2 < length (filter (fits (2 ^ j)) ks) \<longrightarrow> 2 ^ j \<le> opt"
    and j: "j \<le> 31" "2 ^ j div 2 < length (filter (fits (2 ^ j)) ks)"
  shows "2 ^ j \<le> opt"
proof -
  have p: "(2 :: nat) ^ m \<le> 2147483648" if "m \<le> 31" for m using power_increasing [OF that, of "2 :: nat"] by simp
  have "fits (2 ^ j) k \<Longrightarrow> fits 2147483648 k" for k
    using of_nat_mono [OF p [OF j(1)], where ?'a = int] by (cases k) (auto simp: fits_def)
  then have "length (filter (fits (2 ^ j)) ks) \<le> int_keys ks"
    unfolding int_keys_def distinct_length_filter [OF d] by (intro card_mono) auto
  then have lt: "j < i"
  proof (cases "i \<le> j")
    case True
    then have "(2 :: nat) ^ i div 2 \<le> 2 ^ j div 2" by (intro div_le_mono power_increasing) auto
    then show ?thesis using \<open>length (filter (fits (2 ^ j)) ks) \<le> int_keys ks\<close> i(2) j(2) by linarith
  qed simp
  have "0 < slots ks j"
  proof (cases j)
    case 0
    have "length (filter (fits 1) ks) = slots ks 0" using slots_below [of 0 ks] by simp
    then show ?thesis using 0 j(2) by simp
  next
    case (Suc m)
    have "length (filter (fits (2 ^ j)) ks) = length (filter (fits (2 ^ m)) ks) + slots ks j"
      using slots_below [of j ks] slots_below [of m ks] j(1) Suc by simp
    moreover have "length (filter (fits (2 ^ m)) ks) \<le> 2 ^ m" using fits_few [OF d p] j(1) Suc by simp
    ultimately show ?thesis using j(2) Suc by simp
  qed
  then show ?thesis using opt lt j(2) by blast
qed

lemma rehash_makes_room:
  assumes ok: "table_ok seed t" and few: "card (live t) < 1073741824" and ek: "canonical ek" "ek \<notin> live t"
  shows "\<exists>t'. rehash_with (newkey_with nk seed) seed t ek = Inr t' \<and> table_ok seed t' \<and> table_at t' = table_at t \<and>
    room t' ek \<and> well_sized (insert ek (live t)) (length (tb_array t'))"
proof -
  let ?ks = "map fst (live_pairs t) @ [ek]"
  have few': "length (live_pairs t) < 1073741824" using few live_length [OF ok] by simp
  have d: "distinct ?ks" using distinct_live_pairs [OF ok] live_keys [OF ok] ek(2) by auto
  have st: "length (filter P ?ks) = card {k \<in> insert ek (live t). P k}" for P
  proof -
    have "{x. P x} \<inter> set ?ks = {k \<in> insert ek (live t). P k}" using live_keys [OF ok] by auto
    then show ?thesis by (simp only: distinct_length_filter [OF d])
  qed
  from rehash_is_resize [OF ok few', of "newkey_with nk seed" ek] obtain opt i where
    r: "rehash_with (newkey_with nk seed) seed t ek =
      resize_with (newkey_with nk seed) seed t opt (length (filter (\<lambda>k. \<not> fits opt k) ?ks))" "opt \<le> 2147483648"
      "opt = 0 \<or> opt div 2 < length (filter (fits opt) ?ks)" "i \<le> 31" "int_keys ?ks \<le> 2 ^ i div 2"
      "\<forall>j<i. 0 < slots ?ks j \<longrightarrow> 2 ^ j div 2 < length (filter (fits (2 ^ j)) ?ks) \<longrightarrow> 2 ^ j \<le> opt" by blast
  have ws: "well_sized (insert ek (live t)) opt"
    using r(3) size_is_largest [OF d r(4-6)] unfolding st well_sized_def by blast
  let ?nh = "length (filter (\<lambda>k. \<not> fits opt k) ?ks)"
  have "?nh \<le> length ?ks" by (rule length_filter_le)
  then have nh: "?nh \<le> 1073741824" using few' by simp
  have "card {k \<in> live t. \<not> fits opt k} = length (filter (\<lambda>k. \<not> fits opt k) (map fst (live_pairs t)))"
    unfolding live_keys [OF ok, symmetric] set_map [symmetric] distinct_length_filter [OF distinct_live_pairs [OF ok]]
    by (intro arg_cong [of _ _ card]) auto
  then have c: "card {k \<in> live t. \<not> fits opt k} + (if fits opt ek then 0 else 1) = ?nh" by simp
  then have "card {k \<in> live t. \<not> fits opt k} \<le> ?nh" by linarith
  from resize_ok [OF ok r(2) nh this, of nk] obtain t' where
    t': "resize_with (newkey_with nk seed) seed t opt ?nh = Inr t'" "table_ok seed t'" "table_at t' = table_at t"
      "length (tb_array t') = opt" "?nh \<le> length (tb_node t')" "tb_dummy t' \<longleftrightarrow> ?nh = 0"
      "node_keys t' \<subseteq> {k \<in> live t. \<not> fits opt k}" by blast
  have "room t' ek"
  proof (cases "fits opt ek")
    case True
    then show ?thesis using t'(4) by (simp add: room_def in_array_fits)
  next
    case False
    have "card (node_keys t') \<le> card {k \<in> live t. \<not> fits opt k}" using finite_live [OF ok] t'(7) by (intro card_mono) auto
    then have "card (node_keys t') < length (tb_node t')" "?nh \<noteq> 0" using c False t'(5) by simp_all
    then show ?thesis using t'(6) by (simp add: room_def)
  qed
  then show ?thesis using r(1) t' ws by auto
qed

lemma newkey_rehashes:
  assumes "valid_key k" and "snd (getfreepos (tb_node t) (tb_lastfree t)) = None"
    and "nd_val (tb_node t ! mainposition seed (length (tb_node t)) (canon k)) \<noteq> TNil \<or> tb_dummy t"
  shows "newkey_with nk seed t k =
    res_bind (rehash_with nk seed (t\<lparr>tb_lastfree := 0\<rparr>) (canon k)) (\<lambda>t. set_with nk seed t (canon k))"
proof -
  obtain lf where "getfreepos (tb_node t) (tb_lastfree t) = (lf, None)"
    using assms(2) by (cases "getfreepos (tb_node t) (tb_lastfree t)") auto
  with getfreepos_none [OF this] assms(1,3) show ?thesis
    by (simp add: newkey_with_def key_for_insert_valid Let_def)
qed

lemma set_with_any:
  assumes ok: "table_ok seed t" and k: "valid_key k" and few: "card (live t) < 1073741824"
  shows "\<exists>c t'. set_with (newkey_with (newkey_with nk seed) seed) seed t k = Inr (c, t') \<and> table_ok seed t' \<and>
    cell_of t' (canon k) c \<and> table_at t' = table_at t"
proof -
  let ?x = "canon k" and ?nk = "newkey_with nk seed"
  note x = canonical_canon [OF k]
  from luaH_get_spec [OF ok k] obtain r where r: "luaH_get seed t k = Inr r" "looked_up t ?x r" by blast
  show ?thesis
  proof (cases r)
    case (Some c)
    then show ?thesis using r ok by (auto simp: set_with_def looked_up_def)
  next
    case None
    then have absent: "\<not> in_array t ?x" "?x \<notin> node_keys t" using r(2) by (auto simp: looked_up_def)
    have s: "set_with (newkey_with ?nk seed) seed t k = newkey_with ?nk seed t k" using r(1) None by (simp add: set_with_def)
    show ?thesis
    proof (cases "\<not> tb_dummy t \<and> nd_val (tb_node t ! mainposition seed (length (tb_node t)) ?x) = TNil \<or>
        snd (getfreepos (tb_node t) (tb_lastfree t)) \<noteq> None")
      case True
      then have "\<not> tb_dummy t" using getfreepos_dummy [OF ok] by auto
      from newkey_places [OF ok k absent(2) True, of ?nk] obtain c ns' lf' where
        n: "newkey_with ?nk seed t k = Inr (NodeCell c, t\<lparr>tb_node := ns', tb_lastfree := lf'\<rparr>)"
          "placed (mainposition seed (length (tb_node t))) ?x (tb_node t) c ns' lf'" by blast
      from placed_table [OF ok x absent(1) \<open>\<not> tb_dummy t\<close> n(2)] show ?thesis
        unfolding s n(1) by (auto simp: fun_eq_iff)
    next
      case False
      let ?t0 = "t\<lparr>tb_lastfree := 0\<rparr>"
      have full: "snd (getfreepos (tb_node t) (tb_lastfree t)) = None"
        "nd_val (tb_node t ! mainposition seed (length (tb_node t)) ?x) \<noteq> TNil \<or> tb_dummy t" using False by blast+
      have "?x \<notin> live ?t0" using table_at_absent [OF absent] by (simp add: live_def)
      from rehash_makes_room [OF table_ok_lastfree [OF ok full(1)] _ x this, of nk] few obtain t1 where
        t1: "rehash_with ?nk seed ?t0 ?x = Inr t1" "table_ok seed t1" "table_at t1 = table_at t" "room t1 ?x" by auto
      have xk: "valid_key ?x" "canon ?x = ?x" using canonicalD [OF x] by blast+
      from set_with_room [OF t1(2) xk(1), of nk] t1(4) obtain c t2 where
        t2: "set_with ?nk seed t1 ?x = Inr (c, t2)" "table_ok seed t2" "cell_of t2 ?x c" "\<forall>y. table_at t2 y = table_at t1 y"
        unfolding xk(2) by blast
      show ?thesis unfolding s newkey_rehashes [OF k full] t1(1) using t1(3) t2 by (auto simp: fun_eq_iff)
    qed
  qed
qed

lemma table_store_ok:
  assumes "table_ok seed t" "valid_key k" "card (live t) < 1073741824"
  shows "\<exists>t'. table_store (Suc (Suc n)) seed t k v = Inr t' \<and> table_ok seed t' \<and> table_at t' = (table_at t)(canon k := v)"
proof -
  from set_with_any [OF assms, of "luaH_newkey n seed"] obtain c t1 where
    t1: "luaH_set (Suc (Suc n)) seed t k = Inr (c, t1)" "table_ok seed t1" "cell_of t1 (canon k) c" "table_at t1 = table_at t"
    by (auto simp: luaH_set_def)
  from cell_put_ok [OF t1(2) canonical_canon [OF assms(2)] t1(3), of v] t1(1,4) show ?thesis
    by (simp add: table_store_def)
qed

text \<open>
  C9. A store of a value under a key that is neither nil nor not a number succeeds in every well-formed table with fewer
  than \<open>2 ^ 30\<close> values, keeps the table well-formed, and afterwards the table stands for the same map with this one key
  updated; floats with integral values and integers are one key. The chains, the free pointer, the counts, the
  reinsertions of a rehash never leave the table, and two nested calls of \<open>luaH_newkey\<close> are enough.
\<close>

theorem store_updates_map:
  assumes "table_ok seed t" "valid_key k" "card (live t) < 1073741824"
  shows "\<exists>t'. table_store (Suc (Suc n)) seed t k v = Inr t' \<and> table_ok seed t' \<and>
    (\<forall>y. lua_map t' y = (if canon y = canon k then v else lua_map t y))"
  using table_store_ok [OF assms, of n v] by (auto simp: lua_map_def)

lemma luaH_new_ok: "table_ok seed luaH_new" "table_at luaH_new k = TNil" "live luaH_new = {}"
proof -
  have n: "tb_node luaH_new = replicate 1 empty_node" "tb_array luaH_new = []" by (simp_all add: luaH_new_def)
  have a: "\<not> in_array luaH_new k" for k by (cases k) (simp_all add: in_array_def n)
  have k: "node_keys luaH_new = {}" unfolding node_keys_def n by (rule keyset_replicate)
  show "table_at luaH_new k = TNil" for k by (rule table_at_absent) (simp_all add: a k)
  then show "live luaH_new = {}" by (simp add: live_def)
  have "chain_ok mp (tb_node luaH_new)" for mp unfolding n by (rule chain_ok_replicate)
  then show "table_ok seed luaH_new" unfolding table_ok_def k by (auto simp: luaH_new_def intro: exI [of _ 0])
qed

lemma store_updates_map_witness:
  "\<exists>t'. table_store (Suc (Suc 0)) 7 luaH_new (TShr [104, 105]) (TInt 1) = Inr t' \<and> table_ok 7 t' \<and>
    (\<forall>y. lua_map t' y = (if canon y = canon (TShr [104, 105]) then TInt 1 else lua_map luaH_new y))"
  by (rule store_updates_map) (simp_all add: luaH_new_ok valid_key_def)

section \<open>A run of stores\<close>

fun stores :: "nat \<Rightarrow> 32 word \<Rightarrow> (tvalue \<times> tvalue) list \<Rightarrow> ltable \<Rightarrow> lua_error + ltable" where
  "stores n seed [] t = Inr t"
| "stores n seed ((k, v) # kvs) t = res_bind (table_store n seed t k v) (stores n seed kvs)"

lemma live_update: "table_at t' = (table_at t)(x := v) \<Longrightarrow> live t' \<subseteq> insert x (live t)"
  by (auto simp: live_def fun_upd_def)

lemma stores_ok:
  assumes "table_ok seed t" "\<forall>(k, v)\<in>set kvs. valid_key k" "card (live t) + length kvs \<le> 1073741824"
  shows "\<exists>t'. stores (Suc (Suc n)) seed kvs t = Inr t' \<and> table_ok seed t' \<and>
    table_at t' = update_all (table_at t) (map (\<lambda>(k, v). (canon k, v)) kvs)"
  using assms
proof (induction kvs arbitrary: t)
  case (Cons p kvs)
  obtain k v where p: "p = (k, v)" by (cases p)
  have "valid_key k" "card (live t) < 1073741824" using Cons(3,4) p by auto
  from table_store_ok [OF Cons(2) this, of n v] obtain t1 where
    t1: "table_store (Suc (Suc n)) seed t k v = Inr t1" "table_ok seed t1" "table_at t1 = (table_at t)(canon k := v)" by blast
  have "card (live t1) \<le> card (insert (canon k) (live t))"
    using live_update [OF t1(3)] finite_live [OF Cons(2)] by (intro card_mono) auto
  also have "\<dots> \<le> Suc (card (live t))" using finite_live [OF Cons(2)] by (simp add: card_insert_if)
  finally have "card (live t1) + length kvs \<le> 1073741824" using Cons(4) by simp
  from Cons(1) [OF t1(2) _ this] Cons(3) t1(1,3) show ?case by (auto simp: p fun_upd_def)
qed simp

lemma update_all_map_of: "update_all m kvs y = (case map_of (rev kvs) y of Some v \<Rightarrow> v | None \<Rightarrow> m y)"
  by (induction kvs arbitrary: m) (auto simp: map_add_def split: option.splits)

text \<open>
  A table made by \<open>luaH_new\<close> and filled by stores is a map: whatever the stores and their order, a lookup finds what
  was stored last under the key, and nil where nothing was. Integer and float keys with the same value are the same key;
  a lookup of nil or of not a number finds nil.
\<close>

lemma tables_are_maps:
  assumes "\<forall>(k, v)\<in>set kvs. valid_key k" "length kvs \<le> 1073741824" "case k of TInt i \<Rightarrow> in_s64 i | _ \<Rightarrow> True"
  shows "\<exists>t. stores (Suc (Suc n)) seed kvs luaH_new = Inr t \<and>
    luaH_value seed t k =
      Inr (case map_of (rev (map (\<lambda>(k, v). (canon k, v)) kvs)) (canon k) of Some v \<Rightarrow> v | None \<Rightarrow> TNil)"
proof -
  from stores_ok [OF luaH_new_ok(1) assms(1), of n] assms(2) obtain t where
    t: "stores (Suc (Suc n)) seed kvs luaH_new = Inr t" "table_ok seed t"
      "table_at t = update_all (table_at luaH_new) (map (\<lambda>(k, v). (canon k, v)) kvs)"
    by (auto simp: luaH_new_ok)
  with luaH_value_spec [OF t(2) assms(3)] show ?thesis
    by (simp add: lua_map_def update_all_map_of luaH_new_ok split: option.split)
qed

lemma tables_are_maps_witness:
  "\<exists>t. stores (Suc (Suc 0)) 7 [(TInt 1, TBool True), (TShr [97], TInt 5), (TInt 1, TInt 6)] luaH_new = Inr t \<and>
    luaH_value 7 t (TFlt 4607182418800017408) =
      Inr (case map_of (rev (map (\<lambda>(k, v). (canon k, v)) [(TInt 1, TBool True), (TShr [97], TInt 5), (TInt 1, TInt 6)]))
        (canon (TFlt 4607182418800017408)) of Some v \<Rightarrow> v | None \<Rightarrow> TNil)"
  by (rule tables_are_maps) (simp_all add: valid_key_def in_s64_def)

text \<open>
  C10. A rehash keeps the map, makes room for the key it is done for, and gives the array part the largest power of two
  such that more than half of its slots are used by the integer keys of the table and the new key.
\<close>

theorem rehash_sizes:
  assumes "table_ok seed t" "card (live t) < 1073741824" "canonical ek" "ek \<notin> live t"
  shows "\<exists>t'. rehash_with (luaH_newkey (Suc n) seed) seed t ek = Inr t' \<and> table_ok seed t' \<and> table_at t' = table_at t \<and>
    room t' ek \<and> well_sized (insert ek (live t)) (length (tb_array t'))"
  using rehash_makes_room [OF assms] by simp

lemma rehash_sizes_witness:
  "\<exists>t'. rehash_with (luaH_newkey (Suc 0) 7) 7 luaH_new (TInt 1) = Inr t' \<and> table_ok 7 t' \<and>
    table_at t' = table_at luaH_new \<and> room t' (TInt 1) \<and> well_sized (insert (TInt 1) (live luaH_new)) (length (tb_array t'))"
  by (rule rehash_sizes) (simp_all add: luaH_new_ok canonical_def canon_def valid_key_def in_s64_def)

text \<open>
  No table takes nil or not a number as a key: the store raises the error of the source and nothing is stored.
\<close>

lemma store_rejects_key:
  assumes "table_ok seed t" "is_nan w"
  shows "table_store (Suc n) seed t TNil v = Inl (LuaError ''table index is nil'') \<and>
    table_store (Suc n) seed t (TFlt w) v = Inl (LuaError ''table index is NaN'')"
proof -
  obtain l where l: "length (tb_node t) = 2 ^ l" using assms(1) by (auto simp: table_ok_def)
  have "search seed t (TFlt w) (\<lambda>x. rawequal x (TFlt w)) = Inr None"
    using hash.find_absent [OF table_okD(1) [OF assms(1), unfolded l] l, of "\<lambda>x. rawequal x (TFlt w)"]
      rawequal_nan [OF assms(2) nan_not_integral [OF assms(2)]]
    by (simp add: search_def l del: find_chain.simps)
  then show ?thesis
    using assms(2) nan_not_integral [OF assms(2)]
    by (simp add: table_store_def luaH_set_def set_with_def luaH_get_def newkey_with_def key_for_insert_def)
qed

lemma store_rejects_key_witness:
  "table_store (Suc 0) 7 luaH_new TNil (TInt 1) = Inl (LuaError ''table index is nil'') \<and>
    table_store (Suc 0) 7 luaH_new (TFlt 9221120237041090560) (TInt 1) = Inl (LuaError ''table index is NaN'')"
  by (rule store_rejects_key) (simp_all add: luaH_new_ok is_nan_def)

end
