(* ===== verification/LuaTableIter.thy ===== *)
theory LuaTableIter
  imports LuaTableProps
begin

text \<open>
  Traversal of a Lua table (\<open>findindex\<close>, \<open>luaH_next\<close>) and its length (\<open>unbound_search\<close>, \<open>luaH_getn\<close>), from
  \<open>src/src/logic/scriptengine/lua/ltable.c\<close>.
\<close>

section \<open>Traversal\<close>

definition findindex :: "32 word \<Rightarrow> ltable \<Rightarrow> tvalue \<Rightarrow> lua_error + nat" where
  "findindex seed t key =
     (if key = TNil then Inr 0
      else let i = arrayindex key in
        if i \<noteq> 0 \<and> i \<le> length (tb_array t) then Inr i
        else res_bind (of_fault (search seed t key (\<lambda>k. rawequal k key))) (\<lambda>r.
          case r of
            Some (NodeCell j) \<Rightarrow> Inr ((j + 1) + length (tb_array t))
          | _ \<Rightarrow> Inl (LuaError (''invalid key to '' @ [CHR 0x27] @ ''next'' @ [CHR 0x27]))))"

text \<open>The next key and its value, from the array part first and then from the nodes.\<close>

definition luaH_next :: "32 word \<Rightarrow> ltable \<Rightarrow> tvalue \<Rightarrow> lua_error + (tvalue \<times> tvalue) option" where
  "luaH_next seed t key =
     res_bind (findindex seed t key) (\<lambda>i.
     case List.find (\<lambda>j. tb_array t ! j \<noteq> TNil) [i..<length (tb_array t)] of
       Some j \<Rightarrow> Inr (Some (TInt (int (j + 1)), tb_array t ! j))
     | None \<Rightarrow>
         (case List.find (\<lambda>j. nd_val (tb_node t ! j) \<noteq> TNil) [i - length (tb_array t)..<length (tb_node t)] of
            Some j \<Rightarrow> Inr (Some (nd_key (tb_node t ! j), nd_val (tb_node t ! j)))
          | None \<Rightarrow> Inr None))"

text \<open>What a script does with \<open>pairs\<close>: from nil on, until there is no next key.\<close>

fun traverse :: "nat \<Rightarrow> 32 word \<Rightarrow> ltable \<Rightarrow> tvalue \<Rightarrow> lua_error + (tvalue \<times> tvalue) list" where
  "traverse 0 seed t key = Inl (Fault OutOfFuel)"
| "traverse (Suc f) seed t key =
     res_bind (luaH_next seed t key) (\<lambda>r.
     case r of None \<Rightarrow> Inr [] | Some (k, v) \<Rightarrow> res_bind (traverse f seed t k) (\<lambda>rest. Inr ((k, v) # rest)))"

section \<open>The length\<close>

text \<open>The two binary searches between an index \<open>i\<close> that is zero or used and an unused index \<open>j\<close>.\<close>

function array_boundary :: "tvalue list \<Rightarrow> nat \<Rightarrow> nat \<Rightarrow> nat" where
  "array_boundary arr i j =
     (if j - i > 1 then
        (let m = (i + j) div 2 in if arr ! (m - 1) = TNil then array_boundary arr i m else array_boundary arr m j)
      else i)"
  by pat_completeness auto
termination by (relation "measure (\<lambda>(_, i, j). j - i)") auto

declare array_boundary.simps [simp del]

function hash_boundary :: "32 word \<Rightarrow> ltable \<Rightarrow> nat \<Rightarrow> nat \<Rightarrow> fault + nat" where
  "hash_boundary seed t i j =
     (if j - i > 1 then
        (let m = (i + j) div 2 in
         case luaH_value seed t (TInt (int m)) of
           Inl e \<Rightarrow> Inl e
         | Inr v \<Rightarrow> if v = TNil then hash_boundary seed t i m else hash_boundary seed t m j)
      else Inr i)"
  by pat_completeness auto
termination by (relation "measure (\<lambda>(_, _, i, j). j - i)") auto

declare hash_boundary.simps [simp del]

fun linear_search :: "nat \<Rightarrow> 32 word \<Rightarrow> ltable \<Rightarrow> nat \<Rightarrow> fault + nat" where
  "linear_search 0 seed t i = Inl OutOfFuel"
| "linear_search (Suc f) seed t i =
     res_bind (luaH_value seed t (TInt (int i))) (\<lambda>v. if v \<noteq> TNil then linear_search f seed t (i + 1) else Inr (i - 1))"

text \<open>The doubling loop of \<open>unbound_search\<close>; \<open>n\<close> is the fuel of the linear search it may resort to.\<close>

fun unbound_loop :: "nat \<Rightarrow> nat \<Rightarrow> 32 word \<Rightarrow> ltable \<Rightarrow> nat \<Rightarrow> nat \<Rightarrow> fault + nat" where
  "unbound_loop n 0 seed t i j = Inl OutOfFuel"
| "unbound_loop n (Suc f) seed t i j =
     res_bind (luaH_value seed t (TInt (int j))) (\<lambda>v.
     if v \<noteq> TNil then (if j > 1073741823 then linear_search n seed t 1 else unbound_loop n f seed t j (j * 2))
     else hash_boundary seed t i j)"

definition unbound_search :: "nat \<Rightarrow> 32 word \<Rightarrow> ltable \<Rightarrow> nat \<Rightarrow> fault + nat" where
  "unbound_search n seed t j = unbound_loop n 32 seed t j (j + 1)"

definition luaH_getn :: "nat \<Rightarrow> 32 word \<Rightarrow> ltable \<Rightarrow> fault + int" where
  "luaH_getn n seed t =
     (let j = length (tb_array t) in
      res_bind
        (if j > 0 \<and> tb_array t ! (j - 1) = TNil then Inr (array_boundary (tb_array t) 0 j)
         else if tb_dummy t then Inr j
         else unbound_search n seed t j)
        (\<lambda>r. Inr (s32 (int r))))"

section \<open>Every key once\<close>

definition entry :: "ltable \<Rightarrow> nat \<Rightarrow> tvalue \<times> tvalue" where
  "entry t p =
     (if p < length (tb_array t) then (TInt (int (p + 1)), tb_array t ! p)
      else (nd_key (tb_node t ! (p - length (tb_array t))), nd_val (tb_node t ! (p - length (tb_array t)))))"

definition positions :: "ltable \<Rightarrow> nat \<Rightarrow> nat list" where
  "positions t i = [i..<length (tb_array t) + length (tb_node t)]"

abbreviation (input) in_use :: "ltable \<Rightarrow> nat \<Rightarrow> bool" where
  "in_use t p \<equiv> snd (entry t p) \<noteq> TNil"

lemma find_append: "List.find P (xs @ ys) = (case List.find P xs of Some x \<Rightarrow> Some x | None \<Rightarrow> List.find P ys)"
  by (induction xs) auto

lemma find_map: "List.find P (map f xs) = map_option f (List.find (\<lambda>x. P (f x)) xs)"
  by (induction xs) auto

lemma find_cong: "(\<And>x. x \<in> set xs \<Longrightarrow> P x = Q x) \<Longrightarrow> List.find P xs = List.find Q xs"
  by (induction xs) auto

lemma find_upt: "List.find P [i..<n] = Some p \<Longrightarrow> i \<le> p \<and> p < n \<and> P p \<and> filter P [i..<n] = p # filter P [Suc p..<n]"
proof (induction "n - i" arbitrary: i)
  case (Suc d)
  then have u: "[i..<n] = i # [Suc i..<n]" by (intro upt_conv_Cons) simp
  show ?case
  proof (cases "P i")
    case True
    then show ?thesis using Suc(2,3) unfolding u by auto
  next
    case False
    then have "List.find P [Suc i..<n] = Some p" using Suc(3) unfolding u by simp
    moreover have "d = n - Suc i" using Suc(2) by simp
    ultimately show ?thesis using Suc(1) [of "Suc i"] False unfolding u by auto
  qed
qed simp

lemma map_plus_upt: "map (\<lambda>q. q + n) [a..<b] = [a + n..<b + n]" for n :: nat
  by (induction b) auto

lemma positions_split:
  "positions t i = [i..<length (tb_array t)] @ map (\<lambda>q. q + length (tb_array t)) [i - length (tb_array t)..<length (tb_node t)]"
proof -
  let ?n = "length (tb_array t)"
  have "map (\<lambda>q. q + ?n) [i - ?n..<length (tb_node t)] = [i - ?n + ?n..<length (tb_node t) + ?n]"
    by (rule map_plus_upt)
  also have "i - ?n + ?n = max i ?n" by simp
  finally show ?thesis
    using upt_add_eq_append [of i ?n "length (tb_node t)"] unfolding positions_def
    by (cases "i \<le> ?n") (simp_all add: add.commute max_def)
qed

lemma luaH_next_entry:
  assumes "findindex seed t key = Inr i"
  shows "luaH_next seed t key = Inr (map_option (entry t) (List.find (in_use t) (positions t i)))"
proof -
  let ?n = "length (tb_array t)"
  have a: "List.find (in_use t) [i..<?n] = List.find (\<lambda>j. tb_array t ! j \<noteq> TNil) [i..<?n]"
    by (intro find_cong) (auto simp: entry_def)
  have b: "List.find (\<lambda>q. in_use t (q + ?n)) xs = List.find (\<lambda>j. nd_val (tb_node t ! j) \<noteq> TNil) xs" for xs
    by (simp add: entry_def)
  show ?thesis
  proof (cases "List.find (\<lambda>j. tb_array t ! j \<noteq> TNil) [i..<?n]")
    case None
    then show ?thesis unfolding luaH_next_def assms positions_split find_append a find_map b
      by (auto simp: entry_def split: option.splits)
  next
    case (Some j)
    have "j < ?n" using find_upt [OF Some] by blast
    then show ?thesis using Some unfolding luaH_next_def assms positions_split find_append a by (simp add: entry_def)
  qed
qed

lemma findindex_entry:
  assumes ok: "table_ok seed t" and p: "p < length (tb_array t) + length (tb_node t)" "in_use t p"
  shows "findindex seed t (fst (entry t p)) = Inr (Suc p)"
proof (cases "p < length (tb_array t)")
  case True
  have "nat (1 + int p) = Suc p" by simp
  then show ?thesis using True table_okD(2) [OF ok] by (simp add: findindex_def entry_def arrayindex_def MAXASIZE_def Let_def)
next
  case False
  let ?q = "p - length (tb_array t)" and ?k = "fst (entry t p)"
  have q: "?q < length (tb_node t)" "nd_key (tb_node t ! ?q) = ?k" "nd_val (tb_node t ! ?q) \<noteq> TNil"
    using False p by (auto simp: entry_def)
  have nn: "?k \<noteq> TNil" using blank [OF table_okD(1) [OF ok] q(1)] q by auto
  then have k: "?k \<in> node_keys t" using q by (auto simp: node_keys_def keyset_iff)
  note c = table_okD(3) [OF ok k] and na = table_okD(4) [OF ok k]
  from search_key [OF ok c na, of "\<lambda>x. rawequal x ?k"] rawequal_canonical [OF _ c] rawequal_nil [of ?k] nn obtain r where
    r: "search seed t ?k (\<lambda>x. rawequal x ?k) = Inr r" "looked_up t ?k r" by auto
  obtain j where j: "r = Some (NodeCell j)" "j < length (tb_node t)" "nd_key (tb_node t ! j) = ?k"
    using r(2) k na cell_of_in_array by (auto simp: looked_up_def cell_of_def split: option.splits cell.splits)
  have "j = ?q" using keys_unique [OF table_okD(1) [OF ok] j(2) q(1)] j(3) q(2) nn by simp
  moreover have "arrayindex ?k = 0 \<or> length (tb_array t) < arrayindex ?k"
    using na table_okD(2) [OF ok] by (cases ?k) (auto simp: in_array_def arrayindex_def)
  ultimately show ?thesis using r(1) j(1) nn False by (auto simp: findindex_def Let_def)
qed

lemma traverse_from:
  assumes ok: "table_ok seed t"
  shows "findindex seed t key = Inr i \<Longrightarrow> length (filter (in_use t) (positions t i)) < f \<Longrightarrow>
    traverse f seed t key = Inr (map (entry t) (filter (in_use t) (positions t i)))"
proof (induction f arbitrary: key i)
  case (Suc f)
  show ?case
  proof (cases "List.find (in_use t) (positions t i)")
    case None
    then have "filter (in_use t) (positions t i) = []" by (simp add: find_None_iff filter_empty_conv)
    then show ?thesis using luaH_next_entry [OF Suc(2)] None by simp
  next
    case (Some p)
    note u = find_upt [OF Some [unfolded positions_def], folded positions_def]
    have "findindex seed t (fst (entry t p)) = Inr (Suc p)" using findindex_entry [OF ok] u by blast
    from Suc(1) [OF this] Suc(3) u have
      "traverse f seed t (fst (entry t p)) = Inr (map (entry t) (filter (in_use t) (positions t (Suc p))))" by simp
    then show ?thesis using luaH_next_entry [OF Suc(2)] Some u by (cases "entry t p") simp
  qed
qed simp

lemma array_pairs_snoc:
  "array_pairs i (vs @ [v]) = array_pairs i vs @ (if v \<noteq> TNil then [(TInt (int (i + length vs) + 1), v)] else [])"
  by (induction vs arbitrary: i) simp_all

lemma array_pairs_upt:
  "array_pairs 0 vs = map (\<lambda>j. (TInt (int (j + 1)), vs ! j)) (filter (\<lambda>j. vs ! j \<noteq> TNil) [0..<length vs])"
proof (induction vs rule: rev_induct)
  case (snoc v vs)
  have "filter (\<lambda>j. (vs @ [v]) ! j \<noteq> TNil) [0..<length vs] = filter (\<lambda>j. vs ! j \<noteq> TNil) [0..<length vs]"
    by (intro filter_cong) (auto simp: nth_append)
  then show ?case using snoc by (auto simp: array_pairs_snoc nth_append)
qed simp

lemma live_pairs_entries: "live_pairs t = map (entry t) (filter (in_use t) (positions t 0))"
proof -
  let ?n = "length (tb_array t)"
  have n: "node_pairs (tb_node t) =
      map (\<lambda>j. (nd_key (tb_node t ! j), nd_val (tb_node t ! j))) (filter (\<lambda>j. nd_val (tb_node t ! j) \<noteq> TNil) [0..<length (tb_node t)])"
    unfolding node_pairs_def by (subst (1) map_nth [symmetric]) (simp only: filter_map map_map comp_def)
  have "filter (in_use t) [0..<?n] = filter (\<lambda>j. tb_array t ! j \<noteq> TNil) [0..<?n]"
    by (intro filter_cong) (auto simp: entry_def)
  moreover have "map (entry t) (filter (\<lambda>j. tb_array t ! j \<noteq> TNil) [0..<?n]) = array_pairs 0 (tb_array t)"
    unfolding array_pairs_upt by (intro map_cong) (auto simp: entry_def)
  ultimately show ?thesis
    unfolding live_pairs_def positions_split n by (simp add: filter_map comp_def entry_def)
qed

text \<open>
  C11. A traversal that starts at nil and asks for the next key until there is none visits every key that has a value
  exactly once, with its value, and nothing else; it ends after as many steps as there are such keys.
\<close>

theorem traversal_visits_all:
  assumes "table_ok seed t" "card (live t) < n"
  shows "\<exists>kvs. traverse n seed t TNil = Inr kvs \<and> distinct (map fst kvs) \<and>
    (\<forall>k v. (k, v) \<in> set kvs \<longleftrightarrow> v \<noteq> TNil \<and> table_at t k = v)"
proof -
  have "findindex seed t TNil = Inr 0" by (simp add: findindex_def)
  moreover have "length (filter (in_use t) (positions t 0)) < n"
    using assms live_length [OF assms(1)] by (simp add: live_pairs_entries)
  ultimately have "traverse n seed t TNil = Inr (live_pairs t)"
    using traverse_from [OF assms(1)] by (simp add: live_pairs_entries)
  then show ?thesis using distinct_live_pairs [OF assms(1)] live_pairs_at [OF assms(1)] by simp
qed

lemma traversal_visits_all_witness:
  "\<exists>kvs. traverse 1 7 luaH_new TNil = Inr kvs \<and> distinct (map fst kvs) \<and>
    (\<forall>k v. (k, v) \<in> set kvs \<longleftrightarrow> v \<noteq> TNil \<and> table_at luaH_new k = v)"
  by (rule traversal_visits_all) (simp_all add: luaH_new_ok)

section \<open>The length is a boundary\<close>

definition present :: "ltable \<Rightarrow> nat \<Rightarrow> bool" where
  "present t x \<longleftrightarrow> table_at t (TInt (int x)) \<noteq> TNil"

definition boundary :: "ltable \<Rightarrow> nat \<Rightarrow> bool" where
  "boundary t x \<longleftrightarrow> (x = 0 \<or> present t x) \<and> \<not> present t (Suc x)"

lemma present_array: "0 < x \<Longrightarrow> x \<le> length (tb_array t) \<Longrightarrow> present t x \<longleftrightarrow> tb_array t ! (x - 1) \<noteq> TNil"
  by (simp add: present_def table_at_def in_array_def nat_diff_distrib)

lemma value_present:
  assumes "table_ok seed t" "x < 9223372036854775808"
  shows "\<exists>v. luaH_value seed t (TInt (int x)) = Inr v \<and> (v \<noteq> TNil \<longleftrightarrow> present t x)"
  using luaH_value_spec [OF assms(1), of "TInt (int x)"] assms(2)
  by (simp add: in_s64_def lua_map_def canon_def present_def)

lemma midpoint: "j - i > 1 \<Longrightarrow> i < (i + j) div 2 \<and> (i + j) div 2 < j" for i j :: nat
  by auto

lemma array_boundary_ok:
  assumes "i < j" "j \<le> length (tb_array t)" "i = 0 \<or> present t i" "\<not> present t j"
  shows "boundary t (array_boundary (tb_array t) i j) \<and> array_boundary (tb_array t) i j < j"
  using assms
proof (induction "j - i" arbitrary: i j rule: less_induct)
  case less
  show ?case
  proof (cases "j - i > 1")
    case False
    then have "j = Suc i" using less(2) by simp
    then show ?thesis using less(4,5) False by (simp add: array_boundary.simps boundary_def)
  next
    case True
    let ?m = "(i + j) div 2"
    note m = midpoint [OF True]
    have d: "?m - i < j - i" "j - ?m < j - i" using m by auto
    have pm: "present t ?m \<longleftrightarrow> tb_array t ! (?m - 1) \<noteq> TNil" using m less(3) by (intro present_array) auto
    show ?thesis
    proof (cases "present t ?m")
      case False
      then have "array_boundary (tb_array t) i j = array_boundary (tb_array t) i ?m"
        using True pm by (subst array_boundary.simps) (simp add: Let_def)
      then show ?thesis using less(1) [OF d(1)] m less(3,4) False by fastforce
    next
      case present: True
      then have "array_boundary (tb_array t) i j = array_boundary (tb_array t) ?m j"
        using True pm by (subst array_boundary.simps) (simp add: Let_def)
      then show ?thesis using less(1) [OF d(2)] m less(3,5) present by fastforce
    qed
  qed
qed

lemma hash_boundary_ok:
  assumes "table_ok seed t" "i < j" "j < 9223372036854775808" "i = 0 \<or> present t i" "\<not> present t j"
  shows "\<exists>n. hash_boundary seed t i j = Inr n \<and> boundary t n \<and> n < j"
  using assms(2-)
proof (induction "j - i" arbitrary: i j rule: less_induct)
  case less
  show ?case
  proof (cases "j - i > 1")
    case False
    then have "j = Suc i" using less(2) by simp
    then show ?thesis using less(4,5) False by (simp add: hash_boundary.simps boundary_def)
  next
    case True
    let ?m = "(i + j) div 2"
    note m = midpoint [OF True]
    have d: "?m - i < j - i" "j - ?m < j - i" using m by auto
    from value_present [OF assms(1), of ?m] m less(3) obtain v where
      v: "luaH_value seed t (TInt (int ?m)) = Inr v" "v \<noteq> TNil \<longleftrightarrow> present t ?m" by auto
    show ?thesis
    proof (cases "present t ?m")
      case False
      then have "hash_boundary seed t i j = hash_boundary seed t i ?m"
        using True v by (subst hash_boundary.simps) (simp add: Let_def)
      then show ?thesis using less(1) [OF d(1)] m less(3,4) False by fastforce
    next
      case present: True
      then have "hash_boundary seed t i j = hash_boundary seed t ?m j"
        using True v by (subst hash_boundary.simps) (simp add: Let_def)
      then show ?thesis using less(1) [OF d(2)] m less(3,5) present by fastforce
    qed
  qed
qed

lemma present_upto:
  assumes "table_ok seed t" "\<forall>y. 0 < y \<longrightarrow> y < x \<longrightarrow> present t y"
  shows "x \<le> Suc (card (live t))"
proof -
  have "(\<lambda>y. TInt (int y)) ` {1..<x} \<subseteq> live t" using assms(2) by (auto simp: live_def present_def)
  moreover have "card ((\<lambda>y. TInt (int y)) ` {1..<x}) = x - 1" by (subst card_image) (auto simp: inj_on_def)
  ultimately have "x - 1 \<le> card (live t)" using card_mono [OF finite_live [OF assms(1)]] by metis
  then show ?thesis by simp
qed

lemma linear_search_ok:
  assumes ok: "table_ok seed t" and few: "card (live t) < 1073741824"
  shows "\<lbrakk>0 < x; \<forall>y. 0 < y \<longrightarrow> y < x \<longrightarrow> present t y; card (live t) + 2 \<le> x + f\<rbrakk> \<Longrightarrow>
    \<exists>n. linear_search f seed t x = Inr n \<and> boundary t n \<and> n < 1073741824"
proof (induction f arbitrary: x)
  case 0
  then show ?case using present_upto [OF ok 0(2)] by simp
next
  case (Suc f)
  note le = present_upto [OF ok Suc(3)]
  from value_present [OF ok, of x] le few obtain v where
    v: "luaH_value seed t (TInt (int x)) = Inr v" "v \<noteq> TNil \<longleftrightarrow> present t x" by auto
  show ?case
  proof (cases "present t x")
    case True
    have "\<forall>y. 0 < y \<longrightarrow> y < x + 1 \<longrightarrow> present t y" using Suc(3) True by (auto simp: less_Suc_eq)
    from Suc(1) [OF _ this] Suc(4) True v show ?thesis by simp
  next
    case False
    have "x - 1 = 0 \<or> present t (x - 1)" using Suc(3) [rule_format, of "x - 1"] Suc(2) by linarith
    then have "boundary t (x - 1)" using False Suc(2) by (simp add: boundary_def)
    then show ?thesis using False v le few Suc(2) by simp
  qed
qed

lemma unbound_loop_ok:
  assumes ok: "table_ok seed t" and few: "card (live t) < 1073741824" and n: "card (live t) < n"
  shows "\<lbrakk>i < j; i = 0 \<or> present t i; j \<le> 2147483648; 2147483648 \<le> j * 2 ^ f\<rbrakk> \<Longrightarrow>
    \<exists>x. unbound_loop n (Suc f) seed t i j = Inr x \<and> boundary t x \<and> x < 2147483648"
proof (induction f arbitrary: i j)
  case (Suc f)
  from value_present [OF ok, of j] Suc(4) obtain v where
    v: "luaH_value seed t (TInt (int j)) = Inr v" "v \<noteq> TNil \<longleftrightarrow> present t j" by auto
  show ?case
  proof (cases "present t j")
    case False
    then show ?thesis using v hash_boundary_ok [OF ok Suc(2) _ Suc(3) False] Suc(4) by fastforce
  next
    case True
    show ?thesis
    proof (cases "j > 1073741823")
      case big: True
      from linear_search_ok [OF ok few, of 1 n] n show ?thesis using True v big by auto
    next
      case False
      then show ?thesis using Suc(1) [of j "j * 2"] Suc(2,5) True v by (simp add: mult.assoc)
    qed
  qed
next
  case 0
  then have "j = 2147483648" by simp
  from value_present [OF ok, of j] this obtain v where
    v: "luaH_value seed t (TInt (int j)) = Inr v" "v \<noteq> TNil \<longleftrightarrow> present t j" by auto
  show ?case
  proof (cases "present t j")
    case False
    then show ?thesis using v hash_boundary_ok [OF ok 0(1) _ 0(2) False] 0(3) by fastforce
  next
    case True
    from linear_search_ok [OF ok few, of 1 n] n show ?thesis using True v \<open>j = 2147483648\<close> by auto
  qed
qed

text \<open>
  C12. The length of a table is always a boundary: zero or an index with a value, followed by an index without one. The
  search ends, in at most 32 doublings and, where keys were chosen to mislead the doubling, one look at each used index.
\<close>

theorem getn_is_boundary:
  assumes "table_ok seed t" "card (live t) < 1073741824" "card (live t) < n" "length (tb_array t) < 2147483648"
  shows "\<exists>x. luaH_getn n seed t = Inr (int x) \<and> boundary t x"
proof -
  let ?j = "length (tb_array t)"
  have s: "s32 (int x) = int x" if "x < 2147483648" for x using that by (intro s32_nonneg_id) simp_all
  show ?thesis
  proof (cases "?j > 0 \<and> tb_array t ! (?j - 1) = TNil")
    case True
    then have "\<not> present t ?j" by (simp add: present_array)
    from array_boundary_ok [of 0 ?j t, OF _ _ _ this] True assms(4) s show ?thesis by (auto simp: luaH_getn_def)
  next
    case False
    then have p: "?j = 0 \<or> present t ?j" using present_array [of ?j t] by (cases "?j = 0") simp_all
    show ?thesis
    proof (cases "tb_dummy t")
      case True
      have "node_keys t = {}" using table_okD(6) [OF assms(1) True] by (simp add: node_keys_def keyset_def empty_node_def)
      then have "\<not> present t (Suc ?j)" unfolding present_def using table_at_absent [of t] by (simp add: in_array_def)
      then show ?thesis using False True p s [OF assms(4)] by (auto simp: luaH_getn_def boundary_def)
    next
      case nd: False
      have "\<exists>x. unbound_loop n (Suc 31) seed t ?j (?j + 1) = Inr x \<and> boundary t x \<and> x < 2147483648"
        using p assms(4) by (intro unbound_loop_ok [OF assms(1-3)]) auto
      moreover have "(32 :: nat) = Suc 31" by simp
      ultimately obtain x where "unbound_search n seed t ?j = Inr x" "boundary t x" "x < 2147483648"
        unfolding unbound_search_def by metis
      then show ?thesis using False nd s by (auto simp: luaH_getn_def)
    qed
  qed
qed

lemma getn_is_boundary_witness: "\<exists>x. luaH_getn 1 7 luaH_new = Inr (int x) \<and> boundary luaH_new x"
  by (rule getn_is_boundary) (simp_all add: luaH_new_ok, simp add: luaH_new_def)

end
