(* ===== verification/LuaTabLib.thy ===== *)
theory LuaTabLib
  imports LuaTableIter
begin

text \<open>
  The table library of the embedded Lua (\<open>src/src/logic/scriptengine/lua/ltablib.c\<close>). Like the source it works through a
  pair of access functions, raw access or metamethods; \<open>raw_tab\<close> is the raw pair on the tables of \<open>LuaTable\<close>.
\<close>

section \<open>Access\<close>

record 'm TabA =
  geti :: "'m \<Rightarrow> int \<Rightarrow> lua_error + tvalue"
  seti :: "'m \<Rightarrow> int \<Rightarrow> tvalue \<Rightarrow> lua_error + 'm"

text \<open>\<open>lua_rawgeti\<close> and \<open>lua_rawseti\<close>; the length is \<open>luaH_getn\<close>, whose linear search has the fuel \<open>n\<close>.\<close>

definition lua_rawgeti :: "32 word \<Rightarrow> ltable \<Rightarrow> int \<Rightarrow> lua_error + tvalue" where
  "lua_rawgeti seed t n =
     res_bind (of_fault (luaH_getint seed t n)) (\<lambda>c. Inr (case c of None \<Rightarrow> TNil | Some c \<Rightarrow> cell_get t c))"

definition lua_rawseti :: "32 word \<Rightarrow> ltable \<Rightarrow> int \<Rightarrow> tvalue \<Rightarrow> lua_error + ltable" where
  "lua_rawseti seed t n v = luaH_setint 2 seed t n v"

definition raw_tab :: "32 word \<Rightarrow> ltable TabA" where
  "raw_tab seed = \<lparr>geti = lua_rawgeti seed, seti = lua_rawseti seed\<rparr>"

section \<open>Insert, remove, move\<close>

text \<open>The copying loops: up from the end, and down from the start.\<close>

function move_up :: "'m TabA \<Rightarrow> int \<Rightarrow> int \<Rightarrow> 'm \<Rightarrow> lua_error + 'm" where
  "move_up ta i pos m =
     (if i > pos then res_bind (geti ta m (i - 1)) (\<lambda>v. res_bind (seti ta m i v) (\<lambda>m'. move_up ta (i - 1) pos m'))
      else Inr m)"
  by pat_completeness auto
termination by (relation "measure (\<lambda>(ta, i, pos, m). nat (i - pos))") auto

declare move_up.simps [simp del]

text \<open>\<open>n\<close> is the length of the table, \<open>args\<close> the arguments after it.\<close>

definition tinsert :: "'m TabA \<Rightarrow> 'm \<Rightarrow> int \<Rightarrow> int option \<Rightarrow> tvalue \<Rightarrow> lua_error + 'm" where
  "tinsert ta m n pos v =
     (let e = s64 (n + 1) in
      case pos of
        None \<Rightarrow> seti ta m e v
      | Some pos \<Rightarrow>
          res_bind (luaL_argcheck (1 \<le> pos \<and> pos \<le> e) 2 ''position out of bounds'') (\<lambda>_.
          res_bind (move_up ta e pos m) (\<lambda>m. seti ta m pos v)))"

function move_down :: "'m TabA \<Rightarrow> int \<Rightarrow> int \<Rightarrow> 'm \<Rightarrow> lua_error + 'm" where
  "move_down ta pos size' m =
     (if pos < size' then res_bind (geti ta m (pos + 1)) (\<lambda>v. res_bind (seti ta m pos v) (\<lambda>m'. move_down ta (pos + 1) size' m'))
      else Inr m)"
  by pat_completeness auto
termination by (relation "measure (\<lambda>(ta, pos, size', m). nat (size' - pos))") auto

declare move_down.simps [simp del]

text \<open>After the loop \<open>pos\<close> is the old length, or one more if that was the position asked for.\<close>

definition tremove :: "'m TabA \<Rightarrow> 'm \<Rightarrow> int \<Rightarrow> int option \<Rightarrow> lua_error + tvalue \<times> 'm" where
  "tremove ta m n pos' =
     (let pos = (case pos' of None \<Rightarrow> n | Some p \<Rightarrow> p) in
      res_bind (if pos \<noteq> n then luaL_argcheck (1 \<le> pos \<and> pos \<le> s64 (n + 1)) 1 ''position out of bounds'' else Inr ()) (\<lambda>_.
      res_bind (geti ta m pos) (\<lambda>r.
      res_bind (move_down ta pos n m) (\<lambda>m.
      res_bind (seti ta m (max pos n) TNil) (\<lambda>m. Inr (r, m))))))"

function copy_down :: "'m TabA \<Rightarrow> int \<Rightarrow> int \<Rightarrow> int \<Rightarrow> 'm \<Rightarrow> lua_error + 'm" where
  "copy_down ta f t i m =
     (if i \<ge> 0 then res_bind (geti ta m (f + i)) (\<lambda>v. res_bind (seti ta m (t + i) v) (\<lambda>m'. copy_down ta f t (i - 1) m'))
      else Inr m)"
  by pat_completeness auto
termination by (relation "measure (\<lambda>(ta, f, t, i, m). nat (i + 1))") auto

declare copy_down.simps [simp del]

function copy_up :: "'m TabA \<Rightarrow> int \<Rightarrow> int \<Rightarrow> int \<Rightarrow> int \<Rightarrow> 'm \<Rightarrow> lua_error + 'm" where
  "copy_up ta f t n i m =
     (if i < n then res_bind (geti ta m (f + i)) (\<lambda>v. res_bind (seti ta m (t + i) v) (\<lambda>m'. copy_up ta f t n (i + 1) m'))
      else Inr m)"
  by pat_completeness auto
termination by (relation "measure (\<lambda>(ta, f, t, n, i, m). nat (n - i))") auto

declare copy_up.simps [simp del]

text \<open>\<open>table.move\<close> within one table: the copying goes down where the ranges may overlap upwards.\<close>

definition tmove :: "'m TabA \<Rightarrow> 'm \<Rightarrow> int \<Rightarrow> int \<Rightarrow> int \<Rightarrow> lua_error + 'm" where
  "tmove ta m f e t =
     (if e \<ge> f then
        res_bind (luaL_argcheck (f > 0 \<or> e < 9223372036854775807 + f) 3 ''too many elements to move'') (\<lambda>_.
        let n = e - f + 1 in
        res_bind (luaL_argcheck (t \<le> 9223372036854775807 - n + 1) 4 ''destination wrap around'') (\<lambda>_.
        if t > f then copy_down ta f t (n - 1) m else copy_up ta f t n 0 m))
      else Inr m)"

section \<open>Concat, pack, unpack\<close>

text \<open>
  \<open>str\<close> is \<open>lua_tolstring\<close>: strings themselves, numbers converted, nothing for other values; \<open>typename\<close> the name of a type.
  The error message prints the index as an \<open>int\<close>.
\<close>

definition addfield :: "(tvalue \<Rightarrow> byte list option) \<Rightarrow> (tvalue \<Rightarrow> string) \<Rightarrow> 'm TabA \<Rightarrow> 'm \<Rightarrow> int \<Rightarrow> lua_error + byte list" where
  "addfield str typename ta m i =
     res_bind (geti ta m i) (\<lambda>v.
       case str v of
         Some s \<Rightarrow> Inr s
       | None \<Rightarrow> Inl (LuaError (''invalid value ('' @ typename v @ '') at index '' @
             map (\<lambda>b. char_of (unat b)) (lua_integer2str (s32 i)) @ '' in table for '' @ [CHR 0x27] @ ''concat'' @ [CHR 0x27])))"

function concat_loop :: "(tvalue \<Rightarrow> byte list option) \<Rightarrow> (tvalue \<Rightarrow> string) \<Rightarrow> 'm TabA \<Rightarrow> 'm \<Rightarrow> byte list \<Rightarrow> int \<Rightarrow> int \<Rightarrow>
    byte list \<Rightarrow> lua_error + int \<times> byte list" where
  "concat_loop str typename ta m sep i e b =
     (if i < e then
        res_bind (addfield str typename ta m i) (\<lambda>s. concat_loop str typename ta m sep (i + 1) e (b @ s @ sep))
      else Inr (i, b))"
  by pat_completeness auto
termination by (relation "measure (\<lambda>(str, typename, ta, m, sep, i, e, b). nat (e - i))") auto

declare concat_loop.simps [simp del]

definition tconcat :: "(tvalue \<Rightarrow> byte list option) \<Rightarrow> (tvalue \<Rightarrow> string) \<Rightarrow> 'm TabA \<Rightarrow> 'm \<Rightarrow> byte list \<Rightarrow> int \<Rightarrow> int \<Rightarrow>
    lua_error + byte list" where
  "tconcat str typename ta m sep i e =
     res_bind (concat_loop str typename ta m sep i e []) (\<lambda>(i, b).
       if i = e then res_bind (addfield str typename ta m i) (\<lambda>s. Inr (b @ s)) else Inr b)"

text \<open>\<open>table.pack\<close>: a new table of the right sizes, filled from the last value down, and the field \<open>n\<close>.\<close>

fun pack_loop :: "32 word \<Rightarrow> tvalue list \<Rightarrow> nat \<Rightarrow> ltable \<Rightarrow> lua_error + ltable" where
  "pack_loop seed vs 0 t = Inr t"
| "pack_loop seed vs (Suc i) t = res_bind (lua_rawseti seed t (int (Suc i)) (vs ! i)) (pack_loop seed vs i)"

definition pack :: "32 word \<Rightarrow> tvalue list \<Rightarrow> lua_error + ltable" where
  "pack seed vs =
     res_bind (luaH_resize 2 seed luaH_new (length vs) 1) (\<lambda>t.
     res_bind (pack_loop seed vs (length vs) t) (\<lambda>t.
     table_store 2 seed t (TShr [110]) (TInt (int (length vs)))))"

text \<open>The loop ends after the element \<open>e\<close>, with an increment that overflows at the largest integer.\<close>

function unpack_loop :: "'m TabA \<Rightarrow> 'm \<Rightarrow> int \<Rightarrow> int \<Rightarrow> lua_error + tvalue list" where
  "unpack_loop ta m i e =
     res_bind (geti ta m i) (\<lambda>v.
       if i = 9223372036854775807 then Inl (Fault (AssertFail ''signed overflow''))
       else if i < e then res_bind (unpack_loop ta m (i + 1) e) (\<lambda>vs. Inr (v # vs))
       else Inr [v])"
  by pat_completeness auto
termination by (relation "measure (\<lambda>(ta, m, i, e). nat (e - i))") auto

declare unpack_loop.simps [simp del]

text \<open>\<open>checkstack\<close> is \<open>lua_checkstack\<close>, whether the stack can take so many values.\<close>

definition unpack :: "(int \<Rightarrow> bool) \<Rightarrow> 'm TabA \<Rightarrow> 'm \<Rightarrow> int \<Rightarrow> int \<Rightarrow> lua_error + tvalue list" where
  "unpack checkstack ta m i e =
     (if i > e then Inr []
      else if u64 (e - i) \<ge> 2147483647 \<or> \<not> checkstack (e - i + 1) then Inl (LuaError ''too many results to unpack'')
      else unpack_loop ta m i e)"

section \<open>Sort\<close>

text \<open>The swap of \<open>set2\<close>: the value on top of the stack goes to \<open>i\<close>, the one below to \<open>j\<close>.\<close>

definition set2 :: "'m TabA \<Rightarrow> int \<Rightarrow> int \<Rightarrow> tvalue \<Rightarrow> tvalue \<Rightarrow> 'm \<Rightarrow> lua_error + 'm" where
  "set2 ta i j v2 v1 m = res_bind (seti ta m i v1) (\<lambda>m'. seti ta m' j v2)"

type_synonym order = "tvalue \<Rightarrow> tvalue \<Rightarrow> lua_error + bool"

text \<open>The two inner loops; the value they stop at is left on the stack.\<close>

function scan_up :: "'m TabA \<Rightarrow> order \<Rightarrow> 'm \<Rightarrow> int \<Rightarrow> tvalue \<Rightarrow> int \<Rightarrow> lua_error + int \<times> tvalue" where
  "scan_up ta lt m u p i =
     res_bind (geti ta m (i + 1)) (\<lambda>a.
     res_bind (lt a p) (\<lambda>less.
     if less then
       (if i + 1 \<ge> u then Inl (LuaError ''invalid order function for sorting'') else scan_up ta lt m u p (i + 1))
     else Inr (i + 1, a)))"
  by pat_completeness auto
termination by (relation "measure (\<lambda>(ta, lt, m, u, p, i). nat (u - i))") auto

declare scan_up.simps [simp del]

function scan_down :: "'m TabA \<Rightarrow> order \<Rightarrow> 'm \<Rightarrow> int \<Rightarrow> tvalue \<Rightarrow> int \<Rightarrow> lua_error + int \<times> tvalue" where
  "scan_down ta lt m l p j =
     res_bind (geti ta m (j - 1)) (\<lambda>a.
     res_bind (lt p a) (\<lambda>less.
     if less then
       (if j - 1 \<le> l then Inl (LuaError ''invalid order function for sorting'') else scan_down ta lt m l p (j - 1))
     else Inr (j - 1, a)))"
  by pat_completeness auto
termination by (relation "measure (\<lambda>(ta, lt, m, l, p, j). nat (j - l))") auto

declare scan_down.simps [simp del]

lemma scan_up_up: "scan_up ta lt m u p i = Inr (i', a) \<Longrightarrow> i < i'"
proof (induction ta lt m u p i rule: scan_up.induct)
  case (1 ta lt m u p i)
  from 1(2) show ?case
    by (subst (asm) scan_up.simps) (auto simp: res_bind_eq_Inr split: if_splits dest: 1(1))
qed

lemma scan_down_down: "scan_down ta lt m l p j = Inr (j', a) \<Longrightarrow> j' < j"
proof (induction ta lt m l p j rule: scan_down.induct)
  case (1 ta lt m l p j)
  from 1(2) show ?case
    by (subst (asm) scan_down.simps) (auto simp: res_bind_eq_Inr split: if_splits dest: 1(1))
qed

lemma res_bind_cong [fundef_cong]:
  "a = b \<Longrightarrow> (\<And>x. b = Inr x \<Longrightarrow> f x = g x) \<Longrightarrow> res_bind a f = res_bind b g"
  by (cases b) auto

text \<open>The partition loop, with the pivot \<open>p\<close> in \<open>u - 1\<close>; it returns the final \<open>i\<close>.\<close>

function partition_loop :: "'m TabA \<Rightarrow> order \<Rightarrow> int \<Rightarrow> int \<Rightarrow> tvalue \<Rightarrow> int \<Rightarrow> int \<Rightarrow> 'm \<Rightarrow> lua_error + int \<times> 'm" where
  "partition_loop ta lt l u p i j m =
     res_bind (scan_up ta lt m u p i) (\<lambda>(i', ai).
     res_bind (scan_down ta lt m l p j) (\<lambda>(j', aj).
     if j' < i' then Inr (i', m)
     else res_bind (set2 ta i' j' ai aj m) (\<lambda>m'. partition_loop ta lt l u p i' j' m')))"
  by pat_completeness auto
termination by (relation "measure (\<lambda>(ta, lt, l, u, p, i, j, m). nat (j - i + 1))") (auto dest!: scan_up_up scan_down_down)

declare partition_loop.simps [simp del]

text \<open>The steps of one round: the ends in order, the median to the middle, the pivot to its place.\<close>

definition sort_ends :: "'m TabA \<Rightarrow> order \<Rightarrow> int \<Rightarrow> int \<Rightarrow> 'm \<Rightarrow> lua_error + 'm" where
  "sort_ends ta lt l u m =
     res_bind (geti ta m l) (\<lambda>al. res_bind (geti ta m u) (\<lambda>au.
     res_bind (lt au al) (\<lambda>less. if less then set2 ta l u al au m else Inr m)))"

definition sort_middle :: "'m TabA \<Rightarrow> order \<Rightarrow> int \<Rightarrow> int \<Rightarrow> int \<Rightarrow> 'm \<Rightarrow> lua_error + 'm" where
  "sort_middle ta lt l i u m =
     res_bind (geti ta m i) (\<lambda>ai. res_bind (geti ta m l) (\<lambda>al.
     res_bind (lt ai al) (\<lambda>less.
     if less then set2 ta i l ai al m
     else
       res_bind (geti ta m u) (\<lambda>au. res_bind (lt au ai) (\<lambda>less. if less then set2 ta i u ai au m else Inr m)))))"

definition split_at_pivot :: "'m TabA \<Rightarrow> order \<Rightarrow> int \<Rightarrow> int \<Rightarrow> int \<Rightarrow> 'm \<Rightarrow> lua_error + int \<times> 'm" where
  "split_at_pivot ta lt l i u m =
     res_bind (geti ta m i) (\<lambda>p. res_bind (geti ta m (u - 1)) (\<lambda>b.
     res_bind (set2 ta i (u - 1) p b m) (\<lambda>m.
     res_bind (partition_loop ta lt l u p l (u - 1) m) (\<lambda>(i, m).
     res_bind (geti ta m (u - 1)) (\<lambda>x. res_bind (geti ta m i) (\<lambda>y.
     res_bind (set2 ta (u - 1) i x y m) (\<lambda>m. Inr (i, m))))))))"

text \<open>The recursion takes a fuel, the number of nested rounds; \<open>u - l\<close> is enough.\<close>

fun auxsort :: "nat \<Rightarrow> 'm TabA \<Rightarrow> order \<Rightarrow> int \<Rightarrow> int \<Rightarrow> 'm \<Rightarrow> lua_error + 'm" where
  "auxsort 0 ta lt l u m = (if l < u then Inl (Fault OutOfFuel) else Inr m)"
| "auxsort (Suc f) ta lt l u m =
     (if l < u then
        res_bind (sort_ends ta lt l u m) (\<lambda>m.
        if u - l = 1 then Inr m
        else if l + u > 2147483647 then Inl (Fault (AssertFail ''signed overflow''))
        else let i = (l + u) div 2 in
          res_bind (sort_middle ta lt l i u m) (\<lambda>m.
          if u - l = 2 then Inr m
          else
            res_bind (split_at_pivot ta lt l i u m) (\<lambda>(i, m).
            if i - l < u - i then
              res_bind (auxsort f ta lt l (i - 1) m) (\<lambda>m. auxsort f ta lt (i + 1) u m)
            else
              res_bind (auxsort f ta lt (i + 1) u m) (\<lambda>m. auxsort f ta lt l (i - 1) m))))
      else Inr m)"

text \<open>\<open>sort\<close> with \<open>n\<close> the length of the table, which is cast to an \<open>int\<close>.\<close>

definition lua_sort :: "'m TabA \<Rightarrow> order \<Rightarrow> int \<Rightarrow> 'm \<Rightarrow> lua_error + 'm" where
  "lua_sort ta lt n m = auxsort (nat (s32 n)) ta lt 1 (s32 n) m"

end
