(* ===== verification/LuaTabSort.thy ===== *)
theory LuaTabSort
  imports LuaTabLib "HOL-Library.Multiset"
begin

text \<open>
  The table library works through access functions: the locale \<open>tab_access\<close> states what they promise, a read finds what
  was stored last, and proves under it that \<open>sort\<close> never leaves its range, permutes and sorts. Raw access to a Lua table
  is an instance.
\<close>

section \<open>Permuted ranges\<close>

definition permuted :: "(int \<Rightarrow> tvalue) \<Rightarrow> (int \<Rightarrow> tvalue) \<Rightarrow> int \<Rightarrow> int \<Rightarrow> bool" where
  "permuted f g l u \<longleftrightarrow>
     (\<forall>x. x \<notin> {l..u} \<longrightarrow> g x = f x) \<and> image_mset g (mset_set {l..u}) = image_mset f (mset_set {l..u})"

lemma permuted_refl [simp]: "permuted f f l u"
  by (simp add: permuted_def)

lemma permuted_trans: "permuted f g l u \<Longrightarrow> permuted g h l u \<Longrightarrow> permuted f h l u"
  by (simp add: permuted_def)

lemma permuted_sub:
  assumes "permuted f g l' u'" "l \<le> l'" "u' \<le> u"
  shows "permuted f g l u"
proof -
  have "image_mset g (mset_set {l..u}) = image_mset f (mset_set {l..u})"
  proof (cases "l' \<le> u'")
    case True
    have "{l..u} = {l'..u'} \<union> ({l..u} - {l'..u'})" using assms True by auto
    then have s: "mset_set {l..u} = mset_set {l'..u'} + mset_set ({l..u} - {l'..u'})"
      by (metis (no_types) Diff_disjoint finite_Diff finite_atLeastAtMost_int mset_set_Union)
    have "image_mset g (mset_set ({l..u} - {l'..u'})) = image_mset f (mset_set ({l..u} - {l'..u'}))"
      using assms(1) by (intro image_mset_cong) (auto simp: permuted_def)
    then show ?thesis using assms(1) unfolding s by (simp add: permuted_def)
  next
    case False
    then have "g = f" using assms(1) by (auto simp: permuted_def)
    then show ?thesis by simp
  qed
  then show ?thesis using assms by (auto simp: permuted_def)
qed

lemma permuted_swap:
  assumes "x \<in> {l..u}" "y \<in> {l..u}"
  shows "permuted f (f(x := f y, y := f x)) l u"
proof -
  let ?t = "\<lambda>z. if z = x then y else if z = y then x else z" and ?A = "{l..u}"
  have inj: "inj_on ?t ?A" by (auto simp: inj_on_def split: if_splits)
  have "?t ` ?A \<subseteq> ?A" using assms by auto
  then have "?t ` ?A = ?A" using inj by (intro endo_inj_surj) auto
  then have "image_mset ?t (mset_set ?A) = mset_set ?A" using inj by (simp add: image_mset_mset_set)
  then have "image_mset f (mset_set ?A) = image_mset f (image_mset ?t (mset_set ?A))" by simp
  also have "\<dots> = image_mset (f(x := f y, y := f x)) (mset_set ?A)"
    unfolding multiset.map_comp by (intro image_mset_cong) auto
  finally show ?thesis using assms by (auto simp: permuted_def)
qed

lemma permuted_image: "permuted f g l u \<Longrightarrow> g ` {l..u} = f ` {l..u}"
  unfolding permuted_def
  by (metis finite_atLeastAtMost_int finite_set_mset_mset_set set_image_mset)

lemma permuted_all: "permuted f g l u \<Longrightarrow> (\<forall>x\<in>{l..u}. P (f x)) \<Longrightarrow> \<forall>x\<in>{l..u}. P (g x)"
  using permuted_image [of f g l u] by (metis (mono_tags, lifting) imageE image_eqI)

lemma permuted_outside: "permuted f g l u \<Longrightarrow> x \<notin> {l..u} \<Longrightarrow> g x = f x"
  by (simp add: permuted_def)

section \<open>Orders\<close>

text \<open>A strict weak order on the values of \<open>V\<close>, and a sorted range: no value is less than one before it.\<close>

definition weak_order :: "tvalue set \<Rightarrow> (tvalue \<Rightarrow> tvalue \<Rightarrow> bool) \<Rightarrow> bool" where
  "weak_order V prec \<longleftrightarrow>
     (\<forall>a\<in>V. \<forall>b\<in>V. prec a b \<longrightarrow> \<not> prec b a) \<and>
     (\<forall>a\<in>V. \<forall>b\<in>V. \<forall>c\<in>V. \<not> prec b a \<longrightarrow> \<not> prec c b \<longrightarrow> \<not> prec c a)"

definition sorted_range :: "(tvalue \<Rightarrow> tvalue \<Rightarrow> bool) \<Rightarrow> (int \<Rightarrow> tvalue) \<Rightarrow> int \<Rightarrow> int \<Rightarrow> bool" where
  "sorted_range prec f l u \<longleftrightarrow> (\<forall>x y. l \<le> x \<longrightarrow> x < y \<longrightarrow> y \<le> u \<longrightarrow> \<not> prec (f y) (f x))"

lemma sorted_small: "u \<le> l \<Longrightarrow> sorted_range prec f l u"
  by (simp add: sorted_range_def)

lemma sorted_join:
  assumes o: "weak_order V prec" and V: "\<forall>x\<in>{l..u}. f x \<in> V" and i: "l \<le> i" "i \<le> u"
    and lo: "\<forall>x\<in>{l..i - 1}. \<not> prec (f i) (f x)" and hi: "\<forall>x\<in>{i + 1..u}. \<not> prec (f x) (f i)"
    and s: "sorted_range prec f l (i - 1)" "sorted_range prec f (i + 1) u"
  shows "sorted_range prec f l u"
  unfolding sorted_range_def
proof (intro allI impI)
  fix x y assume xy: "l \<le> x" "x < y" "y \<le> u"
  consider "y < i" | "i < x" | "x = i" | "y = i" | "x < i" "i < y" using xy by linarith
  then show "\<not> prec (f y) (f x)"
  proof cases
    case 1
    then show ?thesis using s(1) xy by (simp add: sorted_range_def)
  next
    case 2
    then show ?thesis using s(2) xy by (simp add: sorted_range_def)
  next
    case 3
    then show ?thesis using hi xy by simp
  next
    case 4
    then show ?thesis using lo xy by simp
  next
    case 5
    then have "\<not> prec (f i) (f x)" "\<not> prec (f y) (f i)" using lo hi xy by simp_all
    moreover have "f x \<in> V" "f i \<in> V" "f y \<in> V" using V xy i by auto
    ultimately show ?thesis using o unfolding weak_order_def by blast
  qed
qed

text \<open>Both sides of a pivot sorted, one after the other.\<close>

lemma sorted_sides:
  assumes o: "weak_order V prec" and V: "\<forall>x\<in>{l..u}. f x \<in> V" and k: "l \<le> k" "k \<le> u"
    and lo: "\<forall>x\<in>{l..k - 1}. \<not> prec (f k) (f x)" and hi: "\<forall>x\<in>{k + 1..u}. \<not> prec (f x) (f k)"
    and abcd: "a = l \<and> b = k - 1 \<and> c = k + 1 \<and> d = u \<or> a = k + 1 \<and> b = u \<and> c = l \<and> d = k - 1"
    and p: "permuted f g a b" "permuted g h c d" and s: "sorted_range prec g a b" "sorted_range prec h c d"
  shows "sorted_range prec h l u"
proof -
  have hg: "h x = g x" if "x \<in> {a..b}" for x using permuted_outside [OF p(2)] abcd that by auto
  have gf: "g x = f x" if "x \<in> {c..d}" for x using permuted_outside [OF p(1)] abcd that by auto
  have hk: "h k = f k" using permuted_outside [OF p(1), of k] permuted_outside [OF p(2), of k] abcd by auto
  have all: "\<forall>x\<in>{l'..u'}. P (h x)" if "\<forall>x\<in>{l'..u'}. P (f x)" "l' = a \<and> u' = b \<or> l' = c \<and> u' = d" for P l' u'
    using that(2)
  proof
    assume e: "l' = a \<and> u' = b"
    then have "\<forall>x\<in>{a..b}. P (g x)" using permuted_all [OF p(1)] that(1) by blast
    then show ?thesis using hg e by simp
  next
    assume e: "l' = c \<and> u' = d"
    then have "\<forall>x\<in>{c..d}. P (g x)" using that(1) gf by simp
    then show ?thesis using permuted_all [OF p(2)] e by blast
  qed
  have "sorted_range prec h a b" using s(1) hg by (auto simp: sorted_range_def)
  with s(2) have sh: "sorted_range prec h l (k - 1)" "sorted_range prec h (k + 1) u" using abcd by auto
  have "permuted f h l u" using permuted_trans [OF permuted_sub [OF p(1)] permuted_sub [OF p(2)]] abcd k by auto
  then have V': "\<forall>x\<in>{l..u}. h x \<in> V" by (rule permuted_all [where P = "\<lambda>v. v \<in> V", OF _ V])
  have "\<forall>x\<in>{l..k - 1}. \<not> prec (f k) (h x)" by (rule all [where P = "\<lambda>v. \<not> prec (f k) v", OF lo]) (use abcd in auto)
  moreover have "\<forall>x\<in>{k + 1..u}. \<not> prec (h x) (f k)" by (rule all [where P = "\<lambda>v. \<not> prec v (f k)", OF hi]) (use abcd in auto)
  ultimately show ?thesis by (intro sorted_join [OF o V' k _ _ sh]) (simp_all add: hk)
qed

text \<open>What may be wrong with a call of an order function, or what it shows of itself.\<close>

definition order_errors :: "order \<Rightarrow> lua_error set" where
  "order_errors lt = insert (LuaError ''invalid order function for sorting'') {e. \<exists>a b. lt a b = Inl e}"

text \<open>An order function that decides a strict weak order, without errors.\<close>

definition ordered_by :: "order \<Rightarrow> (tvalue \<Rightarrow> tvalue \<Rightarrow> bool) \<Rightarrow> tvalue set \<Rightarrow> bool" where
  "ordered_by lt prec V \<longleftrightarrow> weak_order V prec \<and> (\<forall>a\<in>V. \<forall>b\<in>V. lt a b = Inr (prec a b))"

section \<open>The interface\<close>

locale tab_access =
  fixes ta :: "'m TabA" and good :: "'m \<Rightarrow> bool" and elem :: "'m \<Rightarrow> int \<Rightarrow> tvalue" and D :: "int set"
  assumes geti_ok: "good m \<Longrightarrow> i \<in> D \<Longrightarrow> geti ta m i = Inr (elem m i)"
    and seti_ok: "good m \<Longrightarrow> i \<in> D \<Longrightarrow> \<exists>m'. seti ta m i v = Inr m' \<and> good m' \<and> elem m' = (elem m)(i := v)"
begin

lemma set2_ok:
  assumes "good m" "i \<in> D" "j \<in> D"
  shows "\<exists>m'. set2 ta i j x y m = Inr m' \<and> good m' \<and> elem m' = (elem m)(i := y, j := x)"
proof -
  from seti_ok [OF assms(1,2), of y] obtain m1 where m1: "seti ta m i y = Inr m1" "good m1" "elem m1 = (elem m)(i := y)" by blast
  from seti_ok [OF m1(2) assms(3), of x] m1 show ?thesis by (auto simp: set2_def)
qed

definition keeps :: "order \<Rightarrow> 'm \<Rightarrow> int \<Rightarrow> int \<Rightarrow> lua_error + 'm \<Rightarrow> bool" where
  "keeps lt m l u r \<longleftrightarrow>
     (case r of Inl e \<Rightarrow> e \<in> order_errors lt | Inr m' \<Rightarrow> good m' \<and> permuted (elem m) (elem m') l u)"

lemma scan_up_ok:
  assumes "good m" "{l..u} \<subseteq> D"
  shows "l \<le> i \<Longrightarrow> i < u \<Longrightarrow>
    case scan_up ta lt m u p i of Inl e \<Rightarrow> e \<in> order_errors lt | Inr (i', a) \<Rightarrow> i < i' \<and> i' \<le> u \<and> a = elem m i'"
proof (induction "nat (u - i)" arbitrary: i rule: less_induct)
  case less
  have g: "geti ta m (i + 1) = Inr (elem m (i + 1))" using assms less(2,3) by (intro geti_ok) auto
  show ?case
  proof (cases "lt (elem m (i + 1)) p")
    case (Inl e)
    then show ?thesis using g by (auto simp: scan_up.simps [of ta lt m u p i] order_errors_def)
  next
    case (Inr b)
    show ?thesis
    proof (cases "b \<and> i + 1 < u")
      case True
      then show ?thesis using g Inr less(1) [of "i + 1"] less(2) by (subst scan_up.simps) (auto split: sum.splits)
    next
      case False
      then show ?thesis using g Inr less(3) by (subst scan_up.simps) (auto simp: order_errors_def)
    qed
  qed
qed

lemma scan_down_ok:
  assumes "good m" "{l..u} \<subseteq> D"
  shows "l < j \<Longrightarrow> j \<le> u + 1 \<Longrightarrow>
    case scan_down ta lt m l p j of Inl e \<Rightarrow> e \<in> order_errors lt | Inr (j', a) \<Rightarrow> l \<le> j' \<and> j' < j \<and> a = elem m j'"
proof (induction "nat (j - l)" arbitrary: j rule: less_induct)
  case less
  have g: "geti ta m (j - 1) = Inr (elem m (j - 1))" using assms less(2,3) by (intro geti_ok) auto
  show ?case
  proof (cases "lt p (elem m (j - 1))")
    case (Inl e)
    then show ?thesis using g by (auto simp: scan_down.simps [of ta lt m l p j] order_errors_def)
  next
    case (Inr b)
    show ?thesis
    proof (cases "b \<and> l < j - 1")
      case True
      then show ?thesis using g Inr less(1) [of "j - 1"] less(3) by (subst scan_down.simps) (auto split: sum.splits)
    next
      case False
      then show ?thesis using g Inr less(2) by (subst scan_down.simps) (auto simp: order_errors_def)
    qed
  qed
qed

lemma partition_loop_ok:
  assumes "{l..u} \<subseteq> D"
  shows "good m \<Longrightarrow> l \<le> i \<Longrightarrow> i < u \<Longrightarrow> l < j \<Longrightarrow> j \<le> u \<Longrightarrow>
    case partition_loop ta lt l u p i j m of
      Inl e \<Rightarrow> e \<in> order_errors lt
    | Inr (i', m') \<Rightarrow> i < i' \<and> i' \<le> u \<and> good m' \<and> permuted (elem m) (elem m') (i + 1) (j - 1)"
proof (induction "nat (j - i + 1)" arbitrary: i j m rule: less_induct)
  case less
  note up = scan_up_ok [OF less(2) assms less(3,4), of lt p]
  note down = scan_down_ok [OF less(2) assms less(5), of lt p]
  show ?case
  proof (cases "scan_up ta lt m u p i")
    case (Inl e)
    then show ?thesis using up by (subst partition_loop.simps) simp
  next
    case (Inr r)
    obtain i' ai where r: "r = (i', ai)" by (cases r)
    then have i': "i < i'" "i' \<le> u" "ai = elem m i'" using up Inr by auto
    show ?thesis
    proof (cases "scan_down ta lt m l p j")
      case (Inl e)
      then show ?thesis using down Inr r less(6) by (subst partition_loop.simps) simp
    next
      case inr2: (Inr s)
      obtain j' aj where s: "s = (j', aj)" by (cases s)
      then have j': "l \<le> j'" "j' < j" "aj = elem m j'" using down inr2 less(6) by auto
      show ?thesis
      proof (cases "j' < i'")
        case True
        then show ?thesis using Inr inr2 r s i' less(2) by (subst partition_loop.simps) simp
      next
        case False
        have "i' \<in> D" "j' \<in> D" using assms i' j' less(3,6) False by auto
        from set2_ok [OF less(2) this, of ai aj] obtain m1 where
          m1: "set2 ta i' j' ai aj m = Inr m1" "good m1" "elem m1 = (elem m)(i' := aj, j' := ai)" by blast
        have p: "permuted (elem m) (elem m1) (i + 1) (j - 1)"
          unfolding m1(3) i'(3) j'(3) using i' j' False by (intro permuted_swap) auto
        have e: "partition_loop ta lt l u p i j m = partition_loop ta lt l u p i' j' m1"
          using Inr inr2 r s False m1(1) by (subst partition_loop.simps) simp
        have "nat (j' - i' + 1) < nat (j - i + 1)" "l \<le> i'" "i' < u" "l < j'" "j' \<le> u"
          using i' j' False less(3,6) by auto
        from less(1) [OF this(1) m1(2) this(2-5)] show ?thesis
          unfolding e using permuted_trans [OF p permuted_sub] i' j' by (auto split: sum.splits)
      qed
    qed
  qed
qed

lemma keeps_bind:
  assumes "keeps lt m l u r" "\<And>m'. good m' \<Longrightarrow> permuted (elem m) (elem m') l u \<Longrightarrow> keeps lt m' l u (f m')"
  shows "keeps lt m l u (res_bind r f)"
  using assms(1) assms(2) [of "projr r"]
  by (cases r) (auto simp: keeps_def intro: permuted_trans split: sum.splits)

lemma keeps_lt:
  "(\<And>b. lt x y = Inr b \<Longrightarrow> keeps lt m l u (f b)) \<Longrightarrow> keeps lt m l u (res_bind (lt x y) f)"
  by (cases "lt x y") (auto simp: keeps_def order_errors_def)

lemma keeps_swap:
  assumes "good m" "{l..u} \<subseteq> D" "x \<in> {l..u}" "y \<in> {l..u}"
  shows "keeps lt m l u (set2 ta x y (elem m x) (elem m y) m)"
proof -
  have "x \<in> D" "y \<in> D" using assms(2-4) by auto
  from set2_ok [OF assms(1) this, of "elem m x" "elem m y"] permuted_swap [OF assms(3,4), of "elem m"] show ?thesis
    by (auto simp: keeps_def)
qed

lemma keeps_same: "good m \<Longrightarrow> keeps lt m l u (Inr m)"
  by (simp add: keeps_def)

lemma sort_ends_ok:
  assumes "good m" "{l..u} \<subseteq> D" "l < u"
  shows "keeps lt m l u (sort_ends ta lt l u m)"
proof -
  have "geti ta m l = Inr (elem m l)" "geti ta m u = Inr (elem m u)" using assms by (auto intro!: geti_ok)
  then show ?thesis using assms keeps_swap [OF assms(1,2), of l u lt]
    by (auto simp: sort_ends_def intro!: keeps_lt keeps_same)
qed

lemma sort_middle_ok:
  assumes "good m" "{l..u} \<subseteq> D" "l < i" "i < u"
  shows "keeps lt m l u (sort_middle ta lt l i u m)"
proof -
  have "geti ta m l = Inr (elem m l)" "geti ta m u = Inr (elem m u)" "geti ta m i = Inr (elem m i)"
    using assms by (auto intro!: geti_ok)
  then show ?thesis using assms keeps_swap [OF assms(1,2), of i l lt] keeps_swap [OF assms(1,2), of i u lt]
    by (auto simp: sort_middle_def intro!: keeps_lt keeps_same)
qed

lemma split_at_pivot_ok:
  assumes "good m" "{l..u} \<subseteq> D" "l < i" "i < u" "l + 2 < u"
  shows "case split_at_pivot ta lt l i u m of
      Inl e \<Rightarrow> e \<in> order_errors lt
    | Inr (i', m') \<Rightarrow> l < i' \<and> i' \<le> u \<and> good m' \<and> permuted (elem m) (elem m') l u"
proof -
  have D: "i \<in> D" "u - 1 \<in> D" "i \<in> {l..u}" "u - 1 \<in> {l..u}" using assms by auto
  note g = geti_ok [OF assms(1) D(1)] geti_ok [OF assms(1) D(2)]
  from keeps_swap [OF assms(1,2) D(3,4), of lt] set2_ok [OF assms(1) D(1,2), of "elem m i" "elem m (u - 1)"] obtain m1 where
    m1: "set2 ta i (u - 1) (elem m i) (elem m (u - 1)) m = Inr m1" "good m1" "permuted (elem m) (elem m1) l u"
    by (auto simp: keeps_def)
  have b: "l \<le> l" "l < u" "l < u - 1" "u - 1 \<le> u" using assms by auto
  note pl = partition_loop_ok [OF assms(2) m1(2) b, of lt "elem m i"]
  show ?thesis
  proof (cases "partition_loop ta lt l u (elem m i) l (u - 1) m1")
    case (Inl e)
    then show ?thesis using pl g m1(1) by (simp add: split_at_pivot_def)
  next
    case (Inr r)
    obtain i' m2 where r: "r = (i', m2)" by (cases r)
    then have m2: "l < i'" "i' \<le> u" "good m2" "permuted (elem m1) (elem m2) (l + 1) (u - 1 - 1)" using pl Inr by auto
    have D': "i' \<in> D" "i' \<in> {l..u}" using m2(1,2) assms(2) by auto
    from keeps_swap [OF m2(3) assms(2) D(4) D'(2), of lt] set2_ok [OF m2(3) D(2) D'(1), of "elem m2 (u - 1)" "elem m2 i'"]
    obtain m3 where m3: "set2 ta (u - 1) i' (elem m2 (u - 1)) (elem m2 i') m2 = Inr m3" "good m3"
        "permuted (elem m2) (elem m3) l u" by (auto simp: keeps_def)
    have "permuted (elem m) (elem m3) l u"
      using permuted_trans [OF permuted_trans [OF m1(3) permuted_sub [OF m2(4)]] m3(3)] by simp
    then show ?thesis
      using g m1(1) Inr r m2 m3 geti_ok [OF m2(3) D(2)] geti_ok [OF m2(3) D'(1)] by (simp add: split_at_pivot_def)
  qed
qed

lemma auxsort_ok:
  shows "good m \<Longrightarrow> {l..u} \<subseteq> D \<Longrightarrow> u \<le> 1073741823 \<Longrightarrow> nat (u - l) \<le> f \<Longrightarrow> keeps lt m l u (auxsort f ta lt l u m)"
proof (induction f arbitrary: l u m)
  case 0
  then show ?case by (simp add: keeps_same)
next
  case (Suc f)
  show ?case
  proof (cases "l < u")
    case False
    then show ?thesis using Suc(2) by (simp add: keeps_same)
  next
    case True
    let ?i = "(l + u) div 2"
    let ?rest = "\<lambda>m. res_bind (sort_middle ta lt l ?i u m) (\<lambda>m. if u - l = 2 then Inr m
          else res_bind (split_at_pivot ta lt l ?i u m) (\<lambda>(i, m).
            if i - l < u - i then res_bind (auxsort f ta lt l (i - 1) m) (\<lambda>m. auxsort f ta lt (i + 1) u m)
            else res_bind (auxsort f ta lt (i + 1) u m) (\<lambda>m. auxsort f ta lt l (i - 1) m)))"
    have rest: "keeps lt m l u (?rest m)" if m: "good m" and "u - l \<noteq> 1" for m
    proof (rule keeps_bind)
      have i: "l < ?i" "?i < u" using that True by auto
      show "keeps lt m l u (sort_middle ta lt l ?i u m)" by (rule sort_middle_ok [OF m Suc(3) i])
      fix m1 assume m1: "good m1"
      show "keeps lt m1 l u (if u - l = 2 then Inr m1 else res_bind (split_at_pivot ta lt l ?i u m1) (\<lambda>(i, m).
            if i - l < u - i then res_bind (auxsort f ta lt l (i - 1) m) (\<lambda>m. auxsort f ta lt (i + 1) u m)
            else res_bind (auxsort f ta lt (i + 1) u m) (\<lambda>m. auxsort f ta lt l (i - 1) m)))"
      proof (cases "u - l = 2")
        case False
        then have "l + 2 < u" using True that by auto
        note sp = split_at_pivot_ok [OF m1 Suc(3) i this, of lt]
        show ?thesis
        proof (cases "split_at_pivot ta lt l ?i u m1")
          case (Inl e)
          then show ?thesis using sp False by (simp add: keeps_def)
        next
          case (Inr r)
          obtain i' m2 where r: "r = (i', m2)" by (cases r)
          then have m2: "l < i'" "i' \<le> u" "good m2" "permuted (elem m1) (elem m2) l u" using sp Inr by auto
          have part: "keeps lt m' l u (auxsort f ta lt a b m')" if "good m'" "a = l \<and> b = i' - 1 \<or> a = i' + 1 \<and> b = u" for m' a b
          proof -
            have "{a..b} \<subseteq> D" "b \<le> 1073741823" "nat (b - a) \<le> f" "l \<le> a" "b \<le> u" using that(2) m2(1,2) Suc(3-5) True by auto
            from Suc(1) [OF that(1) this(1-3)] permuted_sub [OF _ this(4,5)] show ?thesis
              by (auto simp: keeps_def split: sum.splits)
          qed
          have "keeps lt m2 l u (if i' - l < u - i' then res_bind (auxsort f ta lt l (i' - 1) m2) (\<lambda>m. auxsort f ta lt (i' + 1) u m)
            else res_bind (auxsort f ta lt (i' + 1) u m2) (\<lambda>m. auxsort f ta lt l (i' - 1) m))"
            using part m2(3) by (auto intro!: keeps_bind)
          then show ?thesis using False Inr r m2(4)
            by (auto simp: keeps_def intro: permuted_trans split: sum.splits)
        qed
      qed (use m1 in \<open>simp add: keeps_same\<close>)
    qed
    have e: "auxsort (Suc f) ta lt l u m = res_bind (sort_ends ta lt l u m) (\<lambda>m. if u - l = 1 then Inr m else ?rest m)"
    proof -
      have "\<not> l + u > 2147483647" using True Suc(4) by simp
      then show ?thesis using True by (simp only: auxsort.simps Let_def if_True if_False)
    qed
    show ?thesis unfolding e
      using sort_ends_ok [OF Suc(2,3) True] rest by (intro keeps_bind) (auto intro: keeps_same)
  qed
qed

text \<open>With a strict weak order on the values of the range there is no error, and the range gets sorted.\<close>

definition within :: "'m \<Rightarrow> int \<Rightarrow> int \<Rightarrow> tvalue set \<Rightarrow> bool" where
  "within m l u V \<longleftrightarrow> (\<forall>x\<in>{l..u}. elem m x \<in> V)"

lemma within_permuted: "within m l u V \<Longrightarrow> permuted (elem m) (elem m') l u \<Longrightarrow> within m' l u V"
  unfolding within_def by (rule permuted_all)

lemma ordered_lt: "ordered_by lt prec V \<Longrightarrow> a \<in> V \<Longrightarrow> b \<in> V \<Longrightarrow> lt a b = Inr (prec a b)"
  by (simp add: ordered_by_def)

lemma ordered_asym: "ordered_by lt prec V \<Longrightarrow> a \<in> V \<Longrightarrow> b \<in> V \<Longrightarrow> prec a b \<Longrightarrow> \<not> prec b a"
  unfolding ordered_by_def weak_order_def by blast

lemma ordered_trans:
  "ordered_by lt prec V \<Longrightarrow> a \<in> V \<Longrightarrow> b \<in> V \<Longrightarrow> c \<in> V \<Longrightarrow> \<not> prec b a \<Longrightarrow> \<not> prec c b \<Longrightarrow> \<not> prec c a"
  unfolding ordered_by_def weak_order_def by blast

lemma ordered_irrefl: "ordered_by lt prec V \<Longrightarrow> a \<in> V \<Longrightarrow> \<not> prec a a"
  using ordered_asym [of lt prec V a a] by blast

lemma scan_up_sorted:
  assumes o: "ordered_by lt prec V" and m: "good m" "{l..u} \<subseteq> D" "within m l u V" "p \<in> V"
    and s: "s < u" "\<not> prec (elem m s) p"
  shows "l \<le> i \<Longrightarrow> i < s \<Longrightarrow> \<exists>i'. scan_up ta lt m u p i = Inr (i', elem m i') \<and> i < i' \<and> i' \<le> s \<and>
    \<not> prec (elem m i') p \<and> (\<forall>x. i < x \<longrightarrow> x < i' \<longrightarrow> prec (elem m x) p)"
proof (induction "nat (s - i)" arbitrary: i rule: less_induct)
  case less
  have g: "geti ta m (i + 1) = Inr (elem m (i + 1))" using m less(2,3) s by (intro geti_ok) auto
  have "elem m (i + 1) \<in> V" using m(3) less(2,3) s by (auto simp: within_def)
  then have c: "lt (elem m (i + 1)) p = Inr (prec (elem m (i + 1)) p)" using ordered_lt [OF o _ m(4)] by blast
  show ?case
  proof (cases "prec (elem m (i + 1)) p")
    case False
    then show ?thesis using g c less(3) by (subst scan_up.simps) auto
  next
    case True
    then have "i + 1 < s" using less(3) s(2) by (cases "i + 1 = s") auto
    from less(1) [OF _ _ this] less(2,3) obtain i' where
      i': "scan_up ta lt m u p (i + 1) = Inr (i', elem m i')" "i + 1 < i'" "i' \<le> s" "\<not> prec (elem m i') p"
        "\<forall>x. i + 1 < x \<longrightarrow> x < i' \<longrightarrow> prec (elem m x) p" by auto
    have "prec (elem m x) p" if "i < x" "x < i'" for x using i'(5) True that by (cases "x = i + 1") auto
    moreover have "scan_up ta lt m u p i = Inr (i', elem m i')"
      using g c True \<open>i + 1 < s\<close> s(1) i'(1) by (subst scan_up.simps) simp
    ultimately show ?thesis using i' by (intro exI [of _ i']) auto
  qed
qed

lemma scan_down_sorted:
  assumes o: "ordered_by lt prec V" and m: "good m" "{l..u} \<subseteq> D" "within m l u V" "p \<in> V"
    and s: "l \<le> s" "\<not> prec p (elem m s)"
  shows "s < j \<Longrightarrow> j \<le> u + 1 \<Longrightarrow> \<exists>j'. scan_down ta lt m l p j = Inr (j', elem m j') \<and> s \<le> j' \<and> j' < j \<and>
    \<not> prec p (elem m j') \<and> (\<forall>x. j' < x \<longrightarrow> x < j \<longrightarrow> prec p (elem m x))"
proof (induction "nat (j - s)" arbitrary: j rule: less_induct)
  case less
  have g: "geti ta m (j - 1) = Inr (elem m (j - 1))" using m less(2,3) s by (intro geti_ok) auto
  have "elem m (j - 1) \<in> V" using m(3) less(2,3) s by (auto simp: within_def)
  then have c: "lt p (elem m (j - 1)) = Inr (prec p (elem m (j - 1)))" using ordered_lt [OF o m(4)] by blast
  show ?case
  proof (cases "prec p (elem m (j - 1))")
    case False
    then show ?thesis using g c less(2) by (subst scan_down.simps) auto
  next
    case True
    then have "s < j - 1" using less(2) s(2) by (cases "j - 1 = s") auto
    from less(1) [OF _ this] less(2,3) obtain j' where
      j': "scan_down ta lt m l p (j - 1) = Inr (j', elem m j')" "s \<le> j'" "j' < j - 1" "\<not> prec p (elem m j')"
        "\<forall>x. j' < x \<longrightarrow> x < j - 1 \<longrightarrow> prec p (elem m x)" by auto
    have "prec p (elem m x)" if "j' < x" "x < j" for x using j'(5) True that by (cases "x = j - 1") auto
    moreover have "scan_down ta lt m l p j = Inr (j', elem m j')"
      using g c True \<open>s < j - 1\<close> s(1) j'(1) by (subst scan_down.simps) simp
    ultimately show ?thesis using j' by (intro exI [of _ j']) auto
  qed
qed

text \<open>The invariant of the partition loop: values up to \<open>i\<close> are not above, those from \<open>j\<close> on not below the pivot.\<close>

definition apart :: "(tvalue \<Rightarrow> tvalue \<Rightarrow> bool) \<Rightarrow> tvalue \<Rightarrow> 'm \<Rightarrow> int \<Rightarrow> int \<Rightarrow> int \<Rightarrow> int \<Rightarrow> bool" where
  "apart prec p m l u i j \<longleftrightarrow>
     (\<forall>x. l \<le> x \<longrightarrow> x \<le> i \<longrightarrow> \<not> prec p (elem m x)) \<and> (\<forall>x. j \<le> x \<longrightarrow> x \<le> u \<longrightarrow> \<not> prec (elem m x) p)"

lemma partition_loop_sorted:
  assumes o: "ordered_by lt prec V" and D: "{l..u} \<subseteq> D" and p: "p \<in> V"
  shows "good m \<Longrightarrow> within m l u V \<Longrightarrow> apart prec p m l u i j \<Longrightarrow> l \<le> i \<Longrightarrow> i \<le> j \<Longrightarrow> j \<le> u - 1 \<Longrightarrow>
      i < j \<or> l < i \<and> j < u - 1 \<Longrightarrow>
    \<exists>i' m'. partition_loop ta lt l u p i j m = Inr (i', m') \<and> i' \<le> u - 1 \<and> apart prec p m' l u (i' - 1) i'"
proof (induction "nat (j - i + 1)" arbitrary: i j m rule: less_induct)
  case less
  define s where "s = (if i < j then j else j + 1)"
  have s: "i < s" "s < u" "j \<le> s" using less(6-8) by (auto simp: s_def)
  then have sp: "\<not> prec (elem m s) p" using less(4) by (auto simp: apart_def)
  define s' where "s' = (if i < j then i else i - 1)"
  have s': "s' < j" "l \<le> s'" "s' \<le> i" using less(5-8) by (auto simp: s'_def)
  then have sp': "\<not> prec p (elem m s')" using less(4) by (auto simp: apart_def)
  from scan_up_sorted [OF o less(2) D less(3) p s(2) sp less(5) s(1)] obtain i' where
    i': "scan_up ta lt m u p i = Inr (i', elem m i')" "i < i'" "i' \<le> s" "\<not> prec (elem m i') p"
      "\<forall>x. i < x \<longrightarrow> x < i' \<longrightarrow> prec (elem m x) p" by blast
  from scan_down_sorted [OF o less(2) D less(3) p s'(2) sp' s'(1)] less(7) obtain j' where
    j': "scan_down ta lt m l p j = Inr (j', elem m j')" "s' \<le> j'" "j' < j" "\<not> prec p (elem m j')"
      "\<forall>x. j' < x \<longrightarrow> x < j \<longrightarrow> prec p (elem m x)" by auto
  have V: "elem m x \<in> V" if "l \<le> x" "x \<le> u" for x using less(3) that by (simp add: within_def)
  have low: "\<not> prec p (elem m x)" if "l \<le> x" "x < i'" for x
  proof (cases "x \<le> i")
    case False
    then have "prec (elem m x) p" using i'(5) that by simp
    then show ?thesis using ordered_asym [OF o V p] that i'(3) s(2) by auto
  qed (use less(4) that in \<open>simp add: apart_def\<close>)
  have high: "\<not> prec (elem m x) p" if "j' < x" "x \<le> u" for x
  proof (cases "j \<le> x")
    case False
    then have "prec p (elem m x)" using j'(5) that by simp
    then show ?thesis using ordered_asym [OF o p V] that j'(2) s'(2) by auto
  qed (use less(4) that in \<open>simp add: apart_def\<close>)
  show ?case
  proof (cases "j' < i'")
    case True
    then have "partition_loop ta lt l u p i j m = Inr (i', m)" using i'(1) j'(1) by (subst partition_loop.simps) simp
    moreover have "apart prec p m l u (i' - 1) i'" using low high True by (auto simp: apart_def)
    ultimately show ?thesis using i'(3) s(2) by auto
  next
    case False
    have ij: "i' \<in> D" "j' \<in> D" "i' \<in> {l..u}" "j' \<in> {l..u}" using D i'(2) j'(3) less(5-8) False by auto
    from set2_ok [OF less(2) ij(1,2), of "elem m i'" "elem m j'"] obtain m1 where
      m1: "set2 ta i' j' (elem m i') (elem m j') m = Inr m1" "good m1"
        "elem m1 = (elem m)(i' := elem m j', j' := elem m i')" by blast
    have e: "partition_loop ta lt l u p i j m = partition_loop ta lt l u p i' j' m1"
      using i'(1) j'(1) False m1(1) by (subst partition_loop.simps) simp
    have w: "within m1 l u V" using within_permuted [OF less(3)] permuted_swap [OF ij(3,4), of "elem m"] m1(3) by simp
    have "elem m1 x = (if x = j' then elem m i' else if x = i' then elem m j' else elem m x)" for x
      using m1(3) by simp
    then have a: "apart prec p m1 l u i' j'"
      using low high i'(4) j'(4) False by (auto simp: apart_def)
    have "nat (j' - i' + 1) < nat (j - i + 1)" "l \<le> i'" "i' \<le> j'" "j' \<le> u - 1" "i' < j' \<or> l < i' \<and> j' < u - 1"
      using i'(2) j'(3) False less(5-7) by auto
    from less(1) [OF this(1) m1(2) w a this(2-5)] show ?thesis unfolding e .
  qed
qed

lemma sort_ends_sorted:
  assumes o: "ordered_by lt prec V" and m: "good m" "{l..u} \<subseteq> D" "within m l u V" "l < u"
  shows "\<exists>m'. sort_ends ta lt l u m = Inr m' \<and> \<not> prec (elem m' u) (elem m' l)"
proof -
  have D: "l \<in> D" "u \<in> D" and V: "elem m l \<in> V" "elem m u \<in> V" using m by (auto simp: within_def)
  note g = geti_ok [OF m(1) D(1)] geti_ok [OF m(1) D(2)] ordered_lt [OF o V(2,1)]
  show ?thesis
  proof (cases "prec (elem m u) (elem m l)")
    case True
    from set2_ok [OF m(1) D, of "elem m l" "elem m u"] g True ordered_asym [OF o V(2,1) True] m(4) show ?thesis
      by (auto simp: sort_ends_def)
  next
    case False
    then show ?thesis using g by (simp add: sort_ends_def)
  qed
qed

lemma sort_middle_sorted:
  assumes o: "ordered_by lt prec V" and m: "good m" "{l..u} \<subseteq> D" "within m l u V" "l < i" "i < u"
    and e: "\<not> prec (elem m u) (elem m l)"
  shows "\<exists>m'. sort_middle ta lt l i u m = Inr m' \<and> \<not> prec (elem m' i) (elem m' l) \<and> \<not> prec (elem m' u) (elem m' i)"
proof -
  have D: "l \<in> D" "i \<in> D" "u \<in> D" and V: "elem m l \<in> V" "elem m i \<in> V" "elem m u \<in> V" using m by (auto simp: within_def)
  note g = geti_ok [OF m(1) D(1)] geti_ok [OF m(1) D(2)] geti_ok [OF m(1) D(3)] ordered_lt [OF o V(2,1)] ordered_lt [OF o V(3,2)]
  consider "prec (elem m i) (elem m l)" | "\<not> prec (elem m i) (elem m l)" "prec (elem m u) (elem m i)" |
    "\<not> prec (elem m i) (elem m l)" "\<not> prec (elem m u) (elem m i)" by blast
  then show ?thesis
  proof cases
    case 1
    from set2_ok [OF m(1) D(2,1), of "elem m i" "elem m l"] g 1 ordered_asym [OF o V(2,1) 1] e m(4,5) show ?thesis
      by (auto simp: sort_middle_def)
  next
    case 2
    from set2_ok [OF m(1) D(2,3), of "elem m i" "elem m u"] g 2 ordered_asym [OF o V(3,2) 2(2)] e m(4,5) show ?thesis
      by (auto simp: sort_middle_def)
  next
    case 3
    then show ?thesis using g by (simp add: sort_middle_def)
  qed
qed

lemma split_at_pivot_sorted:
  assumes o: "ordered_by lt prec V" and m: "good m" "{l..u} \<subseteq> D" "within m l u V" "l < i" "i < u" "l + 2 < u"
    and e: "\<not> prec (elem m i) (elem m l)" "\<not> prec (elem m u) (elem m i)"
  shows "\<exists>i' m'. split_at_pivot ta lt l i u m = Inr (i', m') \<and>
    (\<forall>x\<in>{l..i' - 1}. \<not> prec (elem m' i') (elem m' x)) \<and> (\<forall>x\<in>{i' + 1..u}. \<not> prec (elem m' x) (elem m' i'))"
proof -
  let ?p = "elem m i"
  have D: "i \<in> D" "u - 1 \<in> D" "i \<in> {l..u}" "u - 1 \<in> {l..u}" using m by auto
  have p: "?p \<in> V" using m(3) D(3) by (simp add: within_def)
  from set2_ok [OF m(1) D(1,2), of ?p "elem m (u - 1)"] obtain m1 where
    m1: "set2 ta i (u - 1) ?p (elem m (u - 1)) m = Inr m1" "good m1"
      "elem m1 = (elem m)(i := elem m (u - 1), u - 1 := ?p)" by blast
  have w1: "within m1 l u V" using within_permuted [OF m(3)] permuted_swap [OF D(3,4), of "elem m"] m1(3) by simp
  have "l \<noteq> i" "l \<noteq> u - 1" "u \<noteq> i" using m by auto
  then have "elem m1 l = elem m l" "elem m1 u = elem m u" "elem m1 (u - 1) = ?p" using m1(3) by simp_all
  moreover have "x = u - 1 \<or> x = u" if "u - 1 \<le> x" "x \<le> u" for x :: int using that by linarith
  ultimately have a: "apart prec ?p m1 l u l (u - 1)"
    using e ordered_irrefl [OF o p] unfolding apart_def by (metis order_antisym)
  from partition_loop_sorted [OF o m(2) p m1(2) w1 a] m(6) obtain i' m2 where
    i': "partition_loop ta lt l u ?p l (u - 1) m1 = Inr (i', m2)" "i' \<le> u - 1" "apart prec ?p m2 l u (i' - 1) i'" by auto
  from partition_loop_ok [OF m(2) m1(2), of l "u - 1" lt ?p] m(4-6) i'(1) have
    m2: "l < i'" "good m2" "permuted (elem m1) (elem m2) (l + 1) (u - 1 - 1)" by auto
  have pu: "elem m2 (u - 1) = ?p" using permuted_outside [OF m2(3), of "u - 1"] m1(3) by simp
  have D': "i' \<in> D" using m2(1) i'(2) m(2) by auto
  from set2_ok [OF m2(2) D(2) D', of "elem m2 (u - 1)" "elem m2 i'"] obtain m3 where
    m3: "set2 ta (u - 1) i' (elem m2 (u - 1)) (elem m2 i') m2 = Inr m3" "elem m3 = (elem m2)(u - 1 := elem m2 i', i' := ?p)"
    using pu by auto
  have s: "split_at_pivot ta lt l i u m = Inr (i', m3)"
    using geti_ok [OF m(1) D(1)] geti_ok [OF m(1) D(2)] m1(1) i'(1) geti_ok [OF m2(2) D(2)] geti_ok [OF m2(2) D'] m3(1)
    by (simp add: split_at_pivot_def)
  have hi: "\<not> prec (elem m2 x) ?p" if "i' \<le> x" "x \<le> u" for x using i'(3) that by (simp add: apart_def)
  have "\<not> prec (elem m3 i') (elem m3 x)" if "x \<in> {l..i' - 1}" for x
  proof -
    have "elem m3 i' = ?p" "elem m3 x = elem m2 x" using that i'(2) m3(2) by auto
    then show ?thesis using i'(3) that by (simp add: apart_def)
  qed
  moreover have "\<not> prec (elem m3 x) (elem m3 i')" if "x \<in> {i' + 1..u}" for x
  proof -
    have "elem m3 i' = ?p" "elem m3 x = (if x = u - 1 then elem m2 i' else elem m2 x)" using that m3(2) by auto
    then show ?thesis using hi [of x] hi [of i'] that i'(2) by auto
  qed
  ultimately show ?thesis using s by blast
qed

lemma sorted_three:
  assumes "ordered_by lt prec V" "within m l u V" "u = l + 2" "\<not> prec (elem m (l + 1)) (elem m l)" "\<not> prec (elem m u) (elem m (l + 1))"
  shows "sorted_range prec (elem m) l u"
proof (rule sorted_join [where V = V and i = "l + 1"])
  show "weak_order V prec" using assms(1) by (simp add: ordered_by_def)
  show "\<forall>x\<in>{l..u}. elem m x \<in> V" using assms(2) by (simp add: within_def)
  have "{l..l + 1 - 1} = {l}" "{l + 1 + 1..u} = {u}" using assms(3) by auto
  then show "\<forall>x\<in>{l..l + 1 - 1}. \<not> prec (elem m (l + 1)) (elem m x)" "\<forall>x\<in>{l + 1 + 1..u}. \<not> prec (elem m x) (elem m (l + 1))"
    using assms(4,5) by simp_all
qed (use assms(3) in \<open>auto intro: sorted_small\<close>)

lemma keeps_Inr: "keeps lt m l u r \<Longrightarrow> r = Inr m' \<Longrightarrow> good m' \<and> permuted (elem m) (elem m') l u"
  by (simp add: keeps_def)

lemma auxsort_sorted:
  assumes o: "ordered_by lt prec V"
  shows "good m \<Longrightarrow> {l..u} \<subseteq> D \<Longrightarrow> within m l u V \<Longrightarrow> u \<le> 1073741823 \<Longrightarrow> nat (u - l) \<le> f \<Longrightarrow>
    \<exists>m'. auxsort f ta lt l u m = Inr m' \<and> sorted_range prec (elem m') l u"
proof (induction f arbitrary: l u m)
  case 0
  then show ?case by (simp add: sorted_small)
next
  case (Suc f)
  show ?case
  proof (cases "l < u")
    case False
    then show ?thesis by (simp add: sorted_small)
  next
    case True
    let ?i = "(l + u) div 2"
    have nov: "\<not> l + u > 2147483647" using True Suc(5) by simp
    from sort_ends_sorted [OF o Suc(2-4) True] obtain m1 where
      m1: "sort_ends ta lt l u m = Inr m1" "\<not> prec (elem m1 u) (elem m1 l)" by blast
    from keeps_Inr [OF sort_ends_ok [OF Suc(2,3) True] m1(1)] have g1: "good m1" "within m1 l u V"
      using within_permuted [OF Suc(4)] by blast+
    show ?thesis
    proof (cases "u - l = 1")
      case one: True
      have "sorted_range prec (elem m1) l u" unfolding sorted_range_def
      proof (intro allI impI)
        fix x y assume "l \<le> x" "x < y" "y \<le> u"
        then have "x = l" "y = u" using one by linarith+
        then show "\<not> prec (elem m1 y) (elem m1 x)" using m1(2) by simp
      qed
      then show ?thesis using one True m1(1) by simp
    next
      case False
      then have i: "l < ?i" "?i < u" using True by auto
      from sort_middle_sorted [OF o g1(1) Suc(3) g1(2) i m1(2)] obtain m2 where
        m2: "sort_middle ta lt l ?i u m1 = Inr m2" "\<not> prec (elem m2 ?i) (elem m2 l)" "\<not> prec (elem m2 u) (elem m2 ?i)" by blast
      from keeps_Inr [OF sort_middle_ok [OF g1(1) Suc(3) i] m2(1)] have g2: "good m2" "within m2 l u V"
        using within_permuted [OF g1(2)] by blast+
      show ?thesis
      proof (cases "u - l = 2")
        case two: True
        then have "?i = l + 1" by auto
        then have "sorted_range prec (elem m2) l u" using sorted_three [OF o g2(2)] m2(2,3) two by simp
        then show ?thesis using two True False m1(1) m2(1) nov by (simp add: Let_def)
      next
        case three: False
        then have l2: "l + 2 < u" using True False by linarith
        from split_at_pivot_sorted [OF o g2(1) Suc(3) g2(2) i l2 m2(2,3)] obtain k m3 where
          m3: "split_at_pivot ta lt l ?i u m2 = Inr (k, m3)" "\<forall>x\<in>{l..k - 1}. \<not> prec (elem m3 k) (elem m3 x)"
            "\<forall>x\<in>{k + 1..u}. \<not> prec (elem m3 x) (elem m3 k)" by blast
        from split_at_pivot_ok [OF g2(1) Suc(3) i l2, of lt] m3(1) have
          g3: "l < k" "k \<le> u" "good m3" "permuted (elem m2) (elem m3) l u" by auto
        note w3 = within_permuted [OF g2(2) g3(4)]
        have part: "\<exists>m''. auxsort f ta lt a b m' = Inr m'' \<and> sorted_range prec (elem m'') a b \<and> good m'' \<and>
            permuted (elem m') (elem m'') a b"
          if "good m'" "within m' l u V" "a = l \<and> b = k - 1 \<or> a = k + 1 \<and> b = u" for m' a b
        proof -
          have r: "{a..b} \<subseteq> D" "b \<le> 1073741823" "nat (b - a) \<le> f" "{a..b} \<subseteq> {l..u}"
            using that(3) g3(1,2) Suc(3,5,6) True by auto
          then have "within m' a b V" using that(2) unfolding within_def by blast
          from Suc(1) [OF that(1) r(1) this r(2,3)] keeps_Inr [OF auxsort_ok [OF that(1) r(1-3)]] show ?thesis by blast
        qed
        let ?rec = "if k - l < u - k then res_bind (auxsort f ta lt l (k - 1) m3) (\<lambda>m. auxsort f ta lt (k + 1) u m)
            else res_bind (auxsort f ta lt (k + 1) u m3) (\<lambda>m. auxsort f ta lt l (k - 1) m)"
        have e: "auxsort (Suc f) ta lt l u m = ?rec"
          using True False three nov m1(1) m2(1) m3(1) by (simp add: Let_def)
        have V3: "\<forall>x\<in>{l..u}. elem m3 x \<in> V" using w3 by (simp add: within_def)
        note sides = sorted_sides [OF o [unfolded ordered_by_def, THEN conjunct1] V3 _ g3(2) m3(2,3)]
        have side: "\<exists>m4 m5. auxsort f ta lt a b m3 = Inr m4 \<and> auxsort f ta lt c d m4 = Inr m5 \<and> sorted_range prec (elem m5) l u"
          if abcd: "a = l \<and> b = k - 1 \<and> c = k + 1 \<and> d = u \<or> a = k + 1 \<and> b = u \<and> c = l \<and> d = k - 1" for a b c d
        proof -
          from part [OF g3(3) w3, of a b] abcd obtain m4 where
            m4: "auxsort f ta lt a b m3 = Inr m4" "sorted_range prec (elem m4) a b" "good m4" "permuted (elem m3) (elem m4) a b"
            by blast
          have "permuted (elem m3) (elem m4) l u" using m4(4) abcd g3(1,2) by (elim permuted_sub) auto
          from part [OF m4(3) within_permuted [OF w3 this], of c d] abcd obtain m5 where
            m5: "auxsort f ta lt c d m4 = Inr m5" "sorted_range prec (elem m5) c d" "permuted (elem m4) (elem m5) c d"
            by blast
          show ?thesis using m4(1) m5(1) sides [OF _ abcd m4(4) m5(3) m4(2) m5(2)] g3(1) by auto
        qed
        show ?thesis unfolding e using side [of l "k - 1" "k + 1" u] side [of "k + 1" u l "k - 1"] by auto
      qed
    qed
  qed
qed

end

text \<open>
  The copying operations of the table library, over the access interface: insertion and removal shift a range by one,
  and \<open>table.move\<close> copies as if every value had been read before the first was written, whatever the overlap.
\<close>

context tab_access begin

lemma move_up_ok:
  assumes "good m" "{pos..e} \<subseteq> D" "pos \<le> e"
  shows "\<exists>m'. move_up ta e pos m = Inr m' \<and> good m' \<and>
    elem m' = (\<lambda>x. if pos < x \<and> x \<le> e then elem m (x - 1) else elem m x)"
  using assms
proof (induction "nat (e - pos)" arbitrary: e m rule: less_induct)
  case less
  show ?case
  proof (cases "e > pos")
    case False
    then have "(\<lambda>x. if pos < x \<and> x \<le> e then elem m (x - 1) else elem m x) = elem m" by (intro ext) auto
    then show ?thesis using False less(2) by (simp add: move_up.simps [of ta e pos m])
  next
    case True
    then have D: "e - 1 \<in> D" "e \<in> D" using less(3) by auto
    from seti_ok [OF less(2) D(2), of "elem m (e - 1)"] obtain m1 where
      m1: "seti ta m e (elem m (e - 1)) = Inr m1" "good m1" "elem m1 = (elem m)(e := elem m (e - 1))" by blast
    have "{pos..e - 1} \<subseteq> D" using less(3) by auto
    from less(1) [OF _ m1(2) this] True obtain m2 where
      m2: "move_up ta (e - 1) pos m1 = Inr m2" "good m2"
        "elem m2 = (\<lambda>x. if pos < x \<and> x \<le> e - 1 then elem m1 (x - 1) else elem m1 x)" by auto
    have "elem m2 = (\<lambda>x. if pos < x \<and> x \<le> e then elem m (x - 1) else elem m x)"
      unfolding m2(3) m1(3) using True by (intro ext) auto
    then show ?thesis using True geti_ok [OF less(2) D(1)] m1(1) m2(1,2) by (simp add: move_up.simps [of ta e pos m])
  qed
qed

lemma move_down_ok:
  assumes "good m" "{pos..n} \<subseteq> D"
  shows "\<exists>m'. move_down ta pos n m = Inr m' \<and> good m' \<and>
    elem m' = (\<lambda>x. if pos \<le> x \<and> x < n then elem m (x + 1) else elem m x)"
  using assms
proof (induction "nat (n - pos)" arbitrary: pos m rule: less_induct)
  case less
  show ?case
  proof (cases "pos < n")
    case False
    then have "(\<lambda>x. if pos \<le> x \<and> x < n then elem m (x + 1) else elem m x) = elem m" by (intro ext) auto
    then show ?thesis using False less(2) by (simp add: move_down.simps [of ta pos n m])
  next
    case True
    then have D: "pos + 1 \<in> D" "pos \<in> D" using less(3) by auto
    from seti_ok [OF less(2) D(2), of "elem m (pos + 1)"] obtain m1 where
      m1: "seti ta m pos (elem m (pos + 1)) = Inr m1" "good m1" "elem m1 = (elem m)(pos := elem m (pos + 1))" by blast
    have "{pos + 1..n} \<subseteq> D" using less(3) by auto
    from less(1) [OF _ m1(2) this] True obtain m2 where
      m2: "move_down ta (pos + 1) n m1 = Inr m2" "good m2"
        "elem m2 = (\<lambda>x. if pos + 1 \<le> x \<and> x < n then elem m1 (x + 1) else elem m1 x)" by auto
    have "elem m2 = (\<lambda>x. if pos \<le> x \<and> x < n then elem m (x + 1) else elem m x)"
      unfolding m2(3) m1(3) using True by (intro ext) auto
    then show ?thesis using True geti_ok [OF less(2) D(1)] m1(1) m2(1,2) by (simp add: move_down.simps [of ta pos n m])
  qed
qed

lemma copy_down_ok:
  assumes "good m" "f < t" "\<forall>x. 0 \<le> x \<longrightarrow> x \<le> i \<longrightarrow> f + x \<in> D \<and> t + x \<in> D"
  shows "\<exists>m'. copy_down ta f t i m = Inr m' \<and> good m' \<and>
    elem m' = (\<lambda>x. if t \<le> x \<and> x \<le> t + i then elem m (x - t + f) else elem m x)"
  using assms
proof (induction "nat (i + 1)" arbitrary: i m rule: less_induct)
  case less
  show ?case
  proof (cases "i \<ge> 0")
    case False
    then have "(\<lambda>x. if t \<le> x \<and> x \<le> t + i then elem m (x - t + f) else elem m x) = elem m" by (intro ext) auto
    then show ?thesis using False less(2) by (simp add: copy_down.simps [of ta f t i m])
  next
    case True
    then have D: "f + i \<in> D" "t + i \<in> D" using less(4) by auto
    from seti_ok [OF less(2) D(2), of "elem m (f + i)"] obtain m1 where
      m1: "seti ta m (t + i) (elem m (f + i)) = Inr m1" "good m1" "elem m1 = (elem m)(t + i := elem m (f + i))" by blast
    from less(1) [OF _ m1(2) less(3), of "i - 1"] True less(4) obtain m2 where
      m2: "copy_down ta f t (i - 1) m1 = Inr m2" "good m2"
        "elem m2 = (\<lambda>x. if t \<le> x \<and> x \<le> t + (i - 1) then elem m1 (x - t + f) else elem m1 x)" by auto
    have "elem m2 = (\<lambda>x. if t \<le> x \<and> x \<le> t + i then elem m (x - t + f) else elem m x)"
      unfolding m2(3) m1(3) using True less(3) by (intro ext) (auto simp: algebra_simps)
    then show ?thesis using True geti_ok [OF less(2) D(1)] m1(1) m2(1,2) by (simp add: copy_down.simps [of ta f t i m])
  qed
qed

lemma copy_up_ok:
  assumes "good m" "t \<le> f" "\<forall>x. i \<le> x \<longrightarrow> x < n \<longrightarrow> f + x \<in> D \<and> t + x \<in> D"
  shows "\<exists>m'. copy_up ta f t n i m = Inr m' \<and> good m' \<and>
    elem m' = (\<lambda>x. if t + i \<le> x \<and> x < t + n then elem m (x - t + f) else elem m x)"
  using assms
proof (induction "nat (n - i)" arbitrary: i m rule: less_induct)
  case less
  show ?case
  proof (cases "i < n")
    case False
    then have "(\<lambda>x. if t + i \<le> x \<and> x < t + n then elem m (x - t + f) else elem m x) = elem m" by (intro ext) auto
    then show ?thesis using False less(2) by (simp add: copy_up.simps [of ta f t n i m])
  next
    case True
    then have D: "f + i \<in> D" "t + i \<in> D" using less(4) by auto
    from seti_ok [OF less(2) D(2), of "elem m (f + i)"] obtain m1 where
      m1: "seti ta m (t + i) (elem m (f + i)) = Inr m1" "good m1" "elem m1 = (elem m)(t + i := elem m (f + i))" by blast
    from less(1) [OF _ m1(2) less(3), of "i + 1"] True less(4) obtain m2 where
      m2: "copy_up ta f t n (i + 1) m1 = Inr m2" "good m2"
        "elem m2 = (\<lambda>x. if t + (i + 1) \<le> x \<and> x < t + n then elem m1 (x - t + f) else elem m1 x)" by auto
    have "elem m2 = (\<lambda>x. if t + i \<le> x \<and> x < t + n then elem m (x - t + f) else elem m x)"
      unfolding m2(3) m1(3) using True less(3) by (intro ext) (auto simp: algebra_simps)
    then show ?thesis using True geti_ok [OF less(2) D(1)] m1(1) m2(1,2) by (simp add: copy_up.simps [of ta f t n i m])
  qed
qed

lemma tmove_ok:
  assumes m: "good m" and D: "{f..e} \<subseteq> D" "{t..t + (e - f)} \<subseteq> D" and arg: "f > 0 \<or> e < 9223372036854775807 + f"
    "t \<le> 9223372036854775807 - (e - f)"
  shows "\<exists>m'. tmove ta m f e t = Inr m' \<and> good m' \<and>
    elem m' = (\<lambda>x. if t \<le> x \<and> x \<le> t + (e - f) then elem m (x - t + f) else elem m x)"
proof (cases "f \<le> e")
  case False
  then have "(\<lambda>x. if t \<le> x \<and> x \<le> t + (e - f) then elem m (x - t + f) else elem m x) = elem m" by (intro ext) auto
  then show ?thesis using False m by (simp add: tmove_def)
next
  case True
  have d: "\<forall>x. 0 \<le> x \<longrightarrow> x \<le> e - f \<longrightarrow> f + x \<in> D \<and> t + x \<in> D" using D by auto
  have a: "luaL_argcheck (f > 0 \<or> e < 9223372036854775807 + f) 3 ''too many elements to move'' = Inr ()"
    "luaL_argcheck (t \<le> 9223372036854775807 - (e - f + 1) + 1) 4 ''destination wrap around'' = Inr ()"
    using arg by (auto simp: luaL_argcheck_def)
  show ?thesis
  proof (cases "t > f")
    case up: True
    from copy_down_ok [OF m up d] show ?thesis using True up a by (simp add: tmove_def Let_def)
  next
    case down: False
    then have "t \<le> f" by simp
    from copy_up_ok [OF m this, of 0 "e - f + 1"] d obtain m' where
      "copy_up ta f t (e - f + 1) 0 m = Inr m'" "good m'"
      "elem m' = (\<lambda>x. if t + 0 \<le> x \<and> x < t + (e - f + 1) then elem m (x - t + f) else elem m x)" by auto
    then show ?thesis using True down a by (auto simp: tmove_def Let_def intro!: ext)
  qed
qed

lemma tinsert_ok:
  assumes "good m" "{pos..n + 1} \<subseteq> D" "1 \<le> pos" "pos \<le> n + 1" "in_s64 (n + 1)"
  shows "\<exists>m'. tinsert ta m n (Some pos) v = Inr m' \<and> good m' \<and>
    elem m' = (\<lambda>x. if x = pos then v else if pos < x \<and> x \<le> n + 1 then elem m (x - 1) else elem m x)"
proof -
  from move_up_ok [OF assms(1,2,4)] obtain m1 where
    m1: "move_up ta (n + 1) pos m = Inr m1" "good m1" "elem m1 = (\<lambda>x. if pos < x \<and> x \<le> n + 1 then elem m (x - 1) else elem m x)"
    by blast
  have "pos \<in> D" using assms(2,4) by auto
  from seti_ok [OF m1(2) this, of v] m1 assms(3-5) show ?thesis
    by (auto simp: tinsert_def Let_def luaL_argcheck_def s64_id fun_upd_def)
qed

lemma tinsert_end_ok:
  assumes "good m" "n + 1 \<in> D" "in_s64 (n + 1)"
  shows "\<exists>m'. tinsert ta m n None v = Inr m' \<and> good m' \<and> elem m' = (elem m)(n + 1 := v)"
  using seti_ok [OF assms(1,2), of v] assms(3) by (simp add: tinsert_def Let_def s64_id)

lemma tremove_ok:
  assumes "good m" "{pos..n} \<subseteq> D" "1 \<le> pos" "pos \<le> n" "in_s64 (n + 1)"
  shows "\<exists>m'. tremove ta m n (Some pos) = Inr (elem m pos, m') \<and> good m' \<and>
    elem m' = (\<lambda>x. if x = n then TNil else if pos \<le> x \<and> x < n then elem m (x + 1) else elem m x)"
proof -
  from move_down_ok [OF assms(1,2)] obtain m1 where
    m1: "move_down ta pos n m = Inr m1" "good m1" "elem m1 = (\<lambda>x. if pos \<le> x \<and> x < n then elem m (x + 1) else elem m x)"
    by blast
  have "pos \<in> D" "n \<in> D" using assms(2,4) by auto
  from seti_ok [OF m1(2) this(2), of TNil] geti_ok [OF assms(1) this(1)] m1 assms(3-5) show ?thesis
    by (auto simp: tremove_def Let_def luaL_argcheck_def s64_id fun_upd_def max_def)
qed

text \<open>What was inserted is what a removal at the same position returns, and the table is as before.\<close>

lemma insert_remove_ok:
  assumes "good m" "{pos..n + 1} \<subseteq> D" "1 \<le> pos" "pos \<le> n + 1" "in_s64 (n + 1)" "in_s64 (n + 2)" "elem m (n + 1) = TNil"
  shows "\<exists>m1 m2. tinsert ta m n (Some pos) v = Inr m1 \<and> tremove ta m1 (n + 1) (Some pos) = Inr (v, m2) \<and>
    good m1 \<and> good m2 \<and> elem m2 = elem m"
proof -
  from tinsert_ok [OF assms(1-5), of v] obtain m1 where
    m1: "tinsert ta m n (Some pos) v = Inr m1" "good m1"
      "elem m1 = (\<lambda>x. if x = pos then v else if pos < x \<and> x \<le> n + 1 then elem m (x - 1) else elem m x)" by blast
  have "in_s64 (n + 1 + 1)" using assms(6) by (simp add: add.commute add.left_commute)
  from tremove_ok [OF m1(2) assms(2-4) this] obtain m2 where
    m2: "tremove ta m1 (n + 1) (Some pos) = Inr (elem m1 pos, m2)" "good m2"
      "elem m2 = (\<lambda>x. if x = n + 1 then TNil else if pos \<le> x \<and> x < n + 1 then elem m1 (x + 1) else elem m1 x)" by blast
  have "elem m2 = elem m" unfolding m2(3) m1(3) using assms(4,7) by (intro ext) auto
  then show ?thesis using m1(1,2) m2(1,2) by (auto simp: m1(3))
qed

end

end
