(* ===== verification/LuaTabProps.thy ===== *)
theory LuaTabProps
  imports LuaTabSort
begin

text \<open>
  The table library on raw Lua tables: the access functions keep the promises of \<open>tab_access\<close>, so that sorting, inserting,
  removing and moving are what they should be on the maps of \<open>LuaTableSpec\<close>, and touch no key outside their range.
\<close>

section \<open>Raw access\<close>

text \<open>The tables met while an operation works on the integers of \<open>D\<close>: other keys are as at its start, in \<open>t0\<close>.\<close>

definition slots_of :: "int set \<Rightarrow> tvalue set" where
  "slots_of D = TInt ` D"

definition working :: "32 word \<Rightarrow> ltable \<Rightarrow> int set \<Rightarrow> ltable \<Rightarrow> bool" where
  "working seed t0 D t \<longleftrightarrow>
     table_ok seed t \<and> (\<forall>k. k \<notin> slots_of D \<longrightarrow> table_at t k = table_at t0 k) \<and>
     (\<forall>i\<in>D. in_s64 i) \<and> finite (live t0 \<union> slots_of D) \<and> card (live t0 \<union> slots_of D) < 1073741824"

definition slot :: "ltable \<Rightarrow> int \<Rightarrow> tvalue" where
  "slot t i = lua_map t (TInt i)"

lemma int_key: "in_s64 i \<Longrightarrow> valid_key (TInt i)" "canon (TInt i) = TInt i"
  by (simp_all add: valid_key_def canon_def)

lemma slot_at: "slot t i = table_at t (TInt i)"
  by (simp add: slot_def lua_map_def int_key)

lemma rawgeti_ok:
  assumes "table_ok seed t" "in_s64 i"
  shows "lua_rawgeti seed t i = Inr (slot t i)"
proof -
  from luaH_getint_spec [OF assms] obtain r where r: "luaH_getint seed t i = Inr r" "looked_up t (TInt i) r" by blast
  have c: "canonical (TInt i)" using assms(2) by (simp add: canonical_def int_key)
  show ?thesis
    using r table_at_absent [of t "TInt i"] cell_get_at [OF assms(1) c]
    by (cases r) (simp_all add: lua_rawgeti_def slot_at looked_up_def)
qed

lemma rawseti_ok:
  assumes "table_ok seed t" "in_s64 i" "card (live t) < 1073741824"
  shows "\<exists>t'. lua_rawseti seed t i v = Inr t' \<and> table_ok seed t' \<and> table_at t' = (table_at t)(TInt i := v)"
proof -
  have "lua_rawseti seed t i v = table_store (Suc (Suc 0)) seed t (TInt i) v"
    by (simp add: lua_rawseti_def luaH_setint_def table_store_def luaH_set_def setint_with_def set_with_def luaH_get_def
        res_bind_assoc numeral_2_eq_2)
  then show ?thesis using table_store_ok [OF assms(1) int_key(1) [OF assms(2)] assms(3), of 0 v] by (simp add: int_key)
qed

lemma working_live: "working seed t0 D t \<Longrightarrow> live t \<subseteq> live t0 \<union> slots_of D"
  by (auto simp: working_def live_def)

interpretation raw: tab_access "raw_tab seed" "working seed t0 D" slot D for seed t0 D
proof
  fix t i assume w: "working seed t0 D t" and i: "i \<in> D"
  have ok: "table_ok seed t" "in_s64 i" using w i by (auto simp: working_def)
  then show "geti (raw_tab seed) t i = Inr (slot t i)" by (simp add: raw_tab_def rawgeti_ok)
  fix v
  have "card (live t) \<le> card (live t0 \<union> slots_of D)" using w by (intro card_mono working_live) (auto simp: working_def)
  then have "card (live t) < 1073741824" using w by (simp add: working_def)
  from rawseti_ok [OF ok this, of v] obtain t' where
    t': "lua_rawseti seed t i v = Inr t'" "table_ok seed t'" "table_at t' = (table_at t)(TInt i := v)" by blast
  have "working seed t0 D t'" using w i t'(2,3) by (auto simp: working_def slots_of_def)
  then show "\<exists>t'. seti (raw_tab seed) t i v = Inr t' \<and> working seed t0 D t' \<and> slot t' = (slot t)(i := v)"
    using t'(1,3) by (auto simp: raw_tab_def slot_at fun_eq_iff)
qed

lemma working_start:
  assumes "table_ok seed t" "\<forall>i\<in>D. in_s64 i" "finite D" "card (live t \<union> slots_of D) < 1073741824"
  shows "working seed t D t"
  using assms finite_live [OF assms(1)] by (simp add: working_def slots_of_def)

definition only_changes :: "int set \<Rightarrow> ltable \<Rightarrow> ltable \<Rightarrow> bool" where
  "only_changes D t t' \<longleftrightarrow> (\<forall>k. canon k \<notin> slots_of D \<longrightarrow> lua_map t' k = lua_map t k)"

lemma working_end: "working seed t D t' \<Longrightarrow> table_ok seed t' \<and> only_changes D t t'"
  by (auto simp: working_def only_changes_def lua_map_def)

section \<open>Sorting\<close>

lemma sort_start:
  assumes "table_ok seed t" "n \<le> 1073741823" "card (live t \<union> slots_of {1..n}) < 1073741824"
  shows "working seed t {1..n} t"
  using assms by (auto simp: in_s64_def intro!: working_start)

lemma sort_ok:
  assumes "table_ok seed t" "0 \<le> n" "n \<le> 1073741823" "card (live t \<union> slots_of {1..n}) < 1073741824"
    and "ordered_by lt prec (slot t ` {1..n})"
  shows "\<exists>t'. lua_sort (raw_tab seed) lt n t = Inr t' \<and> table_ok seed t' \<and> only_changes {1..n} t t' \<and>
    permuted (slot t) (slot t') 1 n \<and> sorted_range prec (slot t') 1 n"
proof -
  note w = sort_start [OF assms(1,3,4)]
  have n: "s32 n = n" using assms(2,3) by (simp add: s32_def)
  have "raw.within t 1 n (slot t ` {1..n})" by (simp add: raw.within_def)
  from raw.auxsort_sorted [OF assms(5) w order_refl this assms(3), of "nat n"]
  obtain t' where t': "auxsort (nat n) (raw_tab seed) lt 1 n t = Inr t'" "sorted_range prec (slot t') 1 n" using nat_mono [of "n - 1" n] by auto
  from raw.keeps_Inr [OF raw.auxsort_ok [OF w order_refl assms(3)] t'(1)] nat_mono [of "n - 1" n] have
    "working seed t {1..n} t'" "permuted (slot t) (slot t') 1 n" by auto
  then show ?thesis using t' working_end by (auto simp: lua_sort_def n)
qed

text \<open>
  C24. \<open>table.sort\<close> sorts: with an order function that decides a strict weak order on the values of the first \<open>n\<close> slots of a
  well-formed table, it returns, the slots hold the same values as often as before, none of them less than one before it,
  and no other key of the table has changed.
\<close>

theorem sort_sorts:
  assumes "table_ok seed t" "0 \<le> n" "n \<le> 1073741823" "card (live t \<union> slots_of {1..n}) < 1073741824"
    and "ordered_by lt prec (slot t ` {1..n})"
  shows "\<exists>t'. lua_sort (raw_tab seed) lt n t = Inr t' \<and> table_ok seed t' \<and> only_changes {1..n} t t' \<and>
    permuted (slot t) (slot t') 1 n \<and> sorted_range prec (slot t') 1 n"
  using assms by (rule sort_ok)

definition int_less :: order where
  "int_less a b = (case (a, b) of (TInt x, TInt y) \<Rightarrow> Inr (x < y) | _ \<Rightarrow> Inl (LuaError ''attempt to compare''))"

definition three :: ltable where
  "three = \<lparr>tb_array = [TInt 3, TInt 1, TInt 2], tb_node = [empty_node], tb_dummy = True, tb_lastfree = 0\<rparr>"

lemma three_node_keys: "node_keys three = {}"
  using keyset_replicate [of 1] by (simp add: node_keys_def three_def)

lemma three_ok: "table_ok seed three" "live three \<subseteq> slots_of {1..3}" "card (live three \<union> slots_of {1..3}) < 1073741824"
proof -
  have "chain_ok mp (tb_node three)" for mp using chain_ok_replicate [of mp 1] by (simp add: three_def)
  then show "table_ok seed three"
    unfolding table_ok_def three_node_keys by (auto simp: three_def intro: exI [of _ 0])
  show l: "live three \<subseteq> slots_of {1..3}"
  proof
    fix k assume "k \<in> live three"
    then have "in_array three k" using table_at_absent [of three k] three_node_keys by (auto simp: live_def)
    then show "k \<in> slots_of {1..3}" by (auto simp: in_array_def slots_of_def three_def split: tvalue.splits)
  qed
  have "card (slots_of {1..3}) \<le> 3" unfolding slots_of_def using card_image_le [of "{1..3 :: int}" TInt] by simp
  then show "card (live three \<union> slots_of {1..3}) < 1073741824" using l by (simp add: Un_absorb1)
qed

lemma three_slots: "slot three ` {1..3} = {TInt 1, TInt 2, TInt 3}"
proof -
  have "{1..3 :: int} = {1, 2, 3}" by auto
  then show ?thesis by (auto simp: slot_at table_at_def in_array_def three_def)
qed

lemma sort_sorts_witness:
  "\<exists>t'. lua_sort (raw_tab 7) int_less 3 three = Inr t' \<and> table_ok 7 t' \<and> only_changes {1..3} three t' \<and>
    permuted (slot three) (slot t') 1 3 \<and> sorted_range (\<lambda>a b. int_less a b = Inr True) (slot t') 1 3"
  by (rule sort_sorts)
    (simp_all add: three_ok three_slots, simp add: ordered_by_def weak_order_def int_less_def)

text \<open>
  Whatever the order function answers, and however it contradicts itself, \<open>table.sort\<close> never reads or writes outside
  the first \<open>n\<close> slots and never runs on: it ends with the same values in another order, with an error of the order
  function, or with the error that the order function is invalid.
\<close>

lemma sort_any_order:
  assumes "table_ok seed t" "n \<le> 1073741823" "card (live t \<union> slots_of {1..n}) < 1073741824" "0 \<le> n"
  shows "case lua_sort (raw_tab seed) lt n t of
      Inl e \<Rightarrow> e \<in> order_errors lt
    | Inr t' \<Rightarrow> table_ok seed t' \<and> only_changes {1..n} t t' \<and> permuted (slot t) (slot t') 1 n"
proof -
  note w = sort_start [OF assms(1-3)]
  have n: "s32 n = n" using assms(2,4) by (simp add: s32_def)
  have "nat (n - 1) \<le> nat n" by (rule nat_mono) simp
  from raw.auxsort_ok [OF w order_refl assms(2) this, of lt] show ?thesis
    using working_end by (auto simp: lua_sort_def n raw.keeps_def split: sum.splits)
qed

lemma sort_any_order_witness:
  "case lua_sort (raw_tab 7) (\<lambda>a b. Inr True) 3 three of
      Inl e \<Rightarrow> e \<in> order_errors (\<lambda>a b. Inr True)
    | Inr t' \<Rightarrow> table_ok 7 t' \<and> only_changes {1..3} three t' \<and> permuted (slot three) (slot t') 1 3"
  by (rule sort_any_order) (simp_all add: three_ok)

section \<open>Insert, remove, move\<close>

text \<open>
  \<open>table.insert\<close> at a position from one to one past the end shifts the values from there up by one and touches no other
  key, and \<open>table.remove\<close> there returns the inserted value and gives back the very map the table stood for.
\<close>

lemma insert_then_remove:
  assumes "table_ok seed t" "1 \<le> pos" "pos \<le> n + 1" "n < 9223372036854775806" "slot t (n + 1) = TNil"
    "card (live t \<union> slots_of {pos..n + 1}) < 1073741824"
  shows "\<exists>t1 t2. tinsert (raw_tab seed) t n (Some pos) v = Inr t1 \<and> table_ok seed t1 \<and> only_changes {pos..n + 1} t t1 \<and>
    slot t1 = (\<lambda>x. if x = pos then v else if pos < x \<and> x \<le> n + 1 then slot t (x - 1) else slot t x) \<and>
    tremove (raw_tab seed) t1 (n + 1) (Some pos) = Inr (v, t2) \<and> table_ok seed t2 \<and> lua_map t2 = lua_map t"
proof -
  have D: "\<forall>i\<in>{pos..n + 1}. in_s64 i" and s: "in_s64 (n + 1)" "in_s64 (n + 2)"
    using assms(2-4) by (auto simp: in_s64_def)
  from working_start [OF assms(1) D _ assms(6)] have w: "working seed t {pos..n + 1} t" by simp
  from raw.tinsert_ok [OF w order_refl assms(2,3) s(1), of v] raw.insert_remove_ok [OF w order_refl assms(2,3) s assms(5), of v]
  obtain t1 t2 where t1: "tinsert (raw_tab seed) t n (Some pos) v = Inr t1" "working seed t {pos..n + 1} t1"
      "slot t1 = (\<lambda>x. if x = pos then v else if pos < x \<and> x \<le> n + 1 then slot t (x - 1) else slot t x)"
    and t2: "tremove (raw_tab seed) t1 (n + 1) (Some pos) = Inr (v, t2)" "working seed t {pos..n + 1} t2" "slot t2 = slot t"
    by auto
  have "lua_map t2 k = lua_map t k" for k
  proof (cases "canon k \<in> slots_of {pos..n + 1}")
    case True
    then obtain i where "canon k = TInt i" by (auto simp: slots_of_def)
    then show ?thesis using fun_cong [OF t2(3), of i] by (simp add: lua_map_def slot_at)
  next
    case False
    then show ?thesis using working_end [OF t2(2)] by (simp add: only_changes_def)
  qed
  then show ?thesis using t1 t2 working_end by (auto simp: fun_eq_iff)
qed

lemma insert_then_remove_witness:
  "\<exists>t1 t2. tinsert (raw_tab 7) three 3 (Some 4) (TBool True) = Inr t1 \<and> table_ok 7 t1 \<and> only_changes {4..3 + 1} three t1 \<and>
    slot t1 = (\<lambda>x. if x = 4 then TBool True else if 4 < x \<and> x \<le> 3 + 1 then slot three (x - 1) else slot three x) \<and>
    tremove (raw_tab 7) t1 (3 + 1) (Some 4) = Inr (TBool True, t2) \<and> table_ok 7 t2 \<and> lua_map t2 = lua_map three"
proof (rule insert_then_remove)
  have na: "\<not> in_array three (TInt 4)" by (simp add: in_array_def three_def)
  show "slot three (3 + 1) = TNil" using table_at_absent [OF na] by (simp add: slot_at three_node_keys)
  have "card (live three \<union> slots_of {4..3 + 1}) \<le> card (slots_of {1..4})"
    using three_ok(2) by (intro card_mono) (auto simp: slots_of_def)
  also have "\<dots> \<le> 4" unfolding slots_of_def using card_image_le [of "{1..4 :: int}" TInt] by simp
  finally show "card (live three \<union> slots_of {4..3 + 1}) < 1073741824" by simp
qed (simp_all add: three_ok)

text \<open>
  C26. \<open>table.move\<close> within a table copies as if all values were read before the first is written, however the two ranges
  overlap: afterwards each slot of the target range holds what the slot of the source range held, no other key changes.
\<close>

theorem move_is_simultaneous:
  assumes "table_ok seed t" "f \<le> e" "0 < f" "0 < d" "d + (e - f) < 9223372036854775807" "e < 9223372036854775807"
    and "card (live t \<union> slots_of ({f..e} \<union> {d..d + (e - f)})) < 1073741824"
  shows "\<exists>t'. tmove (raw_tab seed) t f e d = Inr t' \<and> table_ok seed t' \<and>
    (\<forall>x\<in>{0..e - f}. slot t' (d + x) = slot t (f + x)) \<and> only_changes {d..d + (e - f)} t t'"
proof -
  let ?D = "{f..e} \<union> {d..d + (e - f)}"
  have D: "\<forall>i\<in>?D. in_s64 i" using assms(3-6) by (auto simp: in_s64_def)
  from working_start [OF assms(1) D _ assms(7)] have w: "working seed t ?D t" by simp
  have "f > 0 \<or> e < 9223372036854775807 + f" "d \<le> 9223372036854775807 - (e - f)" using assms(3,5) by simp_all
  from raw.tmove_ok [OF w Un_upper1 Un_upper2 this] obtain t' where
    t': "tmove (raw_tab seed) t f e d = Inr t'" "working seed t ?D t'"
      "slot t' = (\<lambda>x. if d \<le> x \<and> x \<le> d + (e - f) then slot t (x - d + f) else slot t x)" by blast
  have o: "only_changes {d..d + (e - f)} t t'" unfolding only_changes_def
  proof (intro allI impI)
    fix k assume k: "canon k \<notin> slots_of {d..d + (e - f)}"
    show "lua_map t' k = lua_map t k"
    proof (cases "canon k \<in> slots_of ?D")
      case True
      then obtain i where i: "canon k = TInt i" by (auto simp: slots_of_def)
      then have "slot t' i = slot t i" using k by (auto simp: t'(3) slots_of_def)
      then show ?thesis using i by (simp add: lua_map_def slot_at)
    next
      case False
      then show ?thesis using working_end [OF t'(2)] by (simp add: only_changes_def)
    qed
  qed
  have "slot t' (d + x) = slot t (f + x)" if "x \<in> {0..e - f}" for x using that by (simp add: t'(3) add.commute)
  then show ?thesis using t'(1) working_end [OF t'(2)] o by blast
qed

lemma move_is_simultaneous_witness:
  "\<exists>t'. tmove (raw_tab 7) three 1 2 2 = Inr t' \<and> table_ok 7 t' \<and>
    (\<forall>x\<in>{0..2 - 1}. slot t' (2 + x) = slot three (1 + x)) \<and> only_changes {2..2 + (2 - 1)} three t'"
proof (rule move_is_simultaneous)
  have "card (live three \<union> slots_of ({1..2} \<union> {2..2 + (2 - 1)})) \<le> card (slots_of {1..4})"
    using three_ok(2) by (intro card_mono) (auto simp: slots_of_def)
  also have "\<dots> \<le> 4" unfolding slots_of_def using card_image_le [of "{1..4 :: int}" TInt] by simp
  finally show "card (live three \<union> slots_of ({1..2} \<union> {2..2 + (2 - 1)})) < 1073741824" by simp
qed (simp_all add: three_ok)

section \<open>Pack and unpack\<close>

lemma pack_loop_ok:
  assumes "working seed t0 {1..int (length vs)} t" "i \<le> length vs"
  shows "\<exists>t'. pack_loop seed vs i t = Inr t' \<and> working seed t0 {1..int (length vs)} t' \<and>
    slot t' = (\<lambda>x. if 1 \<le> x \<and> x \<le> int i then vs ! nat (x - 1) else slot t x)"
  using assms
proof (induction i arbitrary: t)
  case 0
  then show ?case by (auto simp: fun_eq_iff)
next
  case (Suc i)
  have "int (Suc i) \<in> {1..int (length vs)}" using Suc(3) by simp
  from raw.seti_ok [OF Suc(2) this, of "vs ! i"] obtain t1 where
    t1: "lua_rawseti seed t (int (Suc i)) (vs ! i) = Inr t1" "working seed t0 {1..int (length vs)} t1"
      "slot t1 = (slot t)(int (Suc i) := vs ! i)" by (auto simp: raw_tab_def)
  from Suc(1) [OF t1(2)] Suc(3) obtain t2 where
    t2: "pack_loop seed vs i t1 = Inr t2" "working seed t0 {1..int (length vs)} t2"
      "slot t2 = (\<lambda>x. if 1 \<le> x \<and> x \<le> int i then vs ! nat (x - 1) else slot t1 x)" by auto
  have "slot t2 = (\<lambda>x. if 1 \<le> x \<and> x \<le> int (Suc i) then vs ! nat (x - 1) else slot t x)"
    unfolding t2(3) t1(3) by (intro ext) auto
  then show ?case using t1(1) t2(1,2) by (simp del: of_nat_Suc)
qed

lemma unpack_loop_ok:
  assumes "table_ok seed t" "e < 9223372036854775807" "0 \<le> i" "i \<le> e"
  shows "unpack_loop (raw_tab seed) t i e = Inr (map (\<lambda>x. slot t x) [i..e])"
  using assms
proof (induction "nat (e - i)" arbitrary: i rule: less_induct)
  case less
  have g: "geti (raw_tab seed) t i = Inr (slot t i)"
    using rawgeti_ok [OF less(2)] less(3-5) by (simp add: raw_tab_def in_s64_def)
  show ?case
  proof (cases "i < e")
    case True
    then have "unpack_loop (raw_tab seed) t (i + 1) e = Inr (map (\<lambda>x. slot t x) [i + 1..e])"
      using less by (intro less(1)) auto
    then show ?thesis using g True less(3) by (simp add: unpack_loop.simps [of "raw_tab seed" t i e] upto_rec1)
  next
    case False
    then have "i = e" using less(5) by simp
    then show ?thesis using g less(3) by (simp add: unpack_loop.simps [of "raw_tab seed" t e e])
  qed
qed

lemma pack_ok:
  assumes "length vs < 1073741823"
  shows "\<exists>t. pack seed vs = Inr t \<and> table_ok seed t \<and> lua_map t (TShr [110]) = TInt (int (length vs)) \<and>
    (\<forall>i<length vs. slot t (int i + 1) = vs ! i)"
proof -
  let ?D = "{1..int (length vs)}"
  have "{k \<in> live luaH_new. \<not> fits (length vs) k} = {}" by (simp add: luaH_new_ok)
  from resize_ok [where seed = seed and nk = "luaH_newkey 1 seed", OF luaH_new_ok(1), of "length vs" 1] this assms obtain t0 where
    t0: "luaH_resize 2 seed luaH_new (length vs) 1 = Inr t0" "table_ok seed t0" "table_at t0 = table_at luaH_new"
    by (auto simp: luaH_resize_def numeral_2_eq_2)
  have l: "live t0 = {}" using t0(3) luaH_new_ok(3) by (simp add: live_def)
  have c: "card (slots_of ?D) = length vs" by (simp add: slots_of_def card_image inj_on_def)
  have "working seed t0 ?D t0" using assms by (intro working_start [OF t0(2)]) (auto simp: in_s64_def l c)
  from pack_loop_ok [OF this order_refl] obtain t1 where
    t1: "pack_loop seed vs (length vs) t0 = Inr t1" "working seed t0 ?D t1"
      "slot t1 = (\<lambda>x. if 1 \<le> x \<and> x \<le> int (length vs) then vs ! nat (x - 1) else slot t0 x)" by blast
  have ok: "table_ok seed t1" using t1(2) by (simp add: working_def)
  have "card (live t1) \<le> card (slots_of ?D)" using working_live [OF t1(2)] l by (intro card_mono) (simp_all add: slots_of_def)
  then have "card (live t1) < 1073741824" using c assms by simp
  from table_store_ok [OF ok _ this, of "TShr [110]" 0 "TInt (int (length vs))"] obtain t2 where
    t2: "table_store 2 seed t1 (TShr [110]) (TInt (int (length vs))) = Inr t2" "table_ok seed t2"
      "table_at t2 = (table_at t1)(TShr [110] := TInt (int (length vs)))"
    by (auto simp: valid_key_def canon_def numeral_2_eq_2)
  have "slot t2 (int i + 1) = vs ! i" if "i < length vs" for i
    using fun_cong [OF t1(3), of "int i + 1"] that by (simp add: slot_at t2(3))
  then show ?thesis using t0(1) t1(1) t2 by (simp add: pack_def lua_map_def canon_def)
qed

lemma slots_list: "(\<forall>i<length vs. f (int i + 1) = vs ! i) \<Longrightarrow> map f [1..int (length vs)] = vs"
  by (intro nth_equalityI) (simp_all add: nth_upto add.commute)

text \<open>
  \<open>table.pack\<close> makes a well-formed table with the values in its first slots and their number under the key \<open>n\<close>, nils
  included, and \<open>table.unpack\<close> up to that number returns the same values.
\<close>

lemma pack_unpack:
  assumes "length vs < 1073741823"
  shows "\<exists>t. pack seed vs = Inr t \<and> table_ok seed t \<and> lua_map t (TShr [110]) = TInt (int (length vs)) \<and>
    unpack (\<lambda>n. True) (raw_tab seed) t 1 (int (length vs)) = Inr vs"
proof -
  from pack_ok [OF assms, of seed] obtain t where
    t: "pack seed vs = Inr t" "table_ok seed t" "lua_map t (TShr [110]) = TInt (int (length vs))"
      "map (\<lambda>x. slot t x) [1..int (length vs)] = vs" using slots_list by blast
  have "unpack (\<lambda>n. True) (raw_tab seed) t 1 (int (length vs)) = Inr vs"
    using t(4) unpack_loop_ok [OF t(2), of "int (length vs)" 1] assms
    by (cases vs) (auto simp: unpack_def u64_def)
  then show ?thesis using t by blast
qed

lemma pack_unpack_witness:
  "\<exists>t. pack 7 [TInt 5, TNil, TBool True] = Inr t \<and> table_ok 7 t \<and>
    lua_map t (TShr [110]) = TInt (int (length [TInt 5, TNil, TBool True])) \<and>
    unpack (\<lambda>n. True) (raw_tab 7) t 1 (int (length [TInt 5, TNil, TBool True])) = Inr [TInt 5, TNil, TBool True]"
  by (rule pack_unpack) simp

end
