(* ===== verification/LuaVm.thy ===== *)
theory LuaVm
  imports LuaTable "HOL-Library.Signed_Division"
begin

unbundle bit_operations_syntax

text \<open>
  Numbers in the virtual machine of the embedded Lua (\<open>lvm.c\<close>, \<open>luaO_arith\<close> of \<open>lobject.c\<close> under
  \<open>src/src/logic/scriptengine/lua\<close>): integer arithmetic, conversions, comparisons, numeric loops. A float is its bits.
\<close>

section \<open>Integer arithmetic\<close>

text \<open>Signed values go through unsigned ones; the division of C rounds towards zero (\<open>sdiv\<close>, \<open>smod\<close>).\<close>

definition luaV_div :: "int \<Rightarrow> int \<Rightarrow> lua_error + int" where
  "luaV_div m n =
     (if u64 (u64 n + 1) \<le> 1 then
        (if n = 0 then Inl (LuaError ''attempt to divide by zero'') else Inr (s64 (0 - u64 m)))
      else let q = m sdiv n in Inr (if (m XOR n) < 0 \<and> m smod n \<noteq> 0 then q - 1 else q))"

definition luaV_mod :: "int \<Rightarrow> int \<Rightarrow> lua_error + int" where
  "luaV_mod m n =
     (if u64 (u64 n + 1) \<le> 1 then
        (if n = 0 then Inl (LuaError (''attempt to perform '' @ [CHR 0x27] @ ''n%0'' @ [CHR 0x27])) else Inr 0)
      else let r = m smod n in Inr (if r \<noteq> 0 \<and> (m XOR n) < 0 then r + n else r))"

text \<open>
  \<open>OP_SHR\<close> calls \<open>luaV_shiftl\<close> with the distance negated. For the least integer that overflows in C, which leaves the result
  undefined; the model takes it to wrap around, as the compilers do here, and the result is then 0, as Lua means it.
\<close>

definition luaV_shiftl :: "int \<Rightarrow> int \<Rightarrow> int" where
  "luaV_shiftl x y =
     (if y < 0 then (if y \<le> - 64 then 0 else s64 (drop_bit (nat (- y)) (u64 x)))
      else (if y \<ge> 64 then 0 else s64 (u64 (push_bit (nat y) (u64 x)))))"

datatype arith_op =
  OPADD | OPSUB | OPMUL | OPMOD | OPPOW | OPDIV | OPIDIV | OPBAND | OPBOR | OPBXOR | OPSHL | OPSHR | OPUNM | OPBNOT

definition intarith :: "arith_op \<Rightarrow> int \<Rightarrow> int \<Rightarrow> lua_error + int" where
  "intarith op v1 v2 =
     (case op of
        OPADD \<Rightarrow> Inr (s64 (u64 v1 + u64 v2))
      | OPSUB \<Rightarrow> Inr (s64 (u64 v1 - u64 v2))
      | OPMUL \<Rightarrow> Inr (s64 (u64 v1 * u64 v2))
      | OPMOD \<Rightarrow> luaV_mod v1 v2
      | OPIDIV \<Rightarrow> luaV_div v1 v2
      | OPBAND \<Rightarrow> Inr (s64 (u64 v1 AND u64 v2))
      | OPBOR \<Rightarrow> Inr (s64 (u64 v1 OR u64 v2))
      | OPBXOR \<Rightarrow> Inr (s64 (u64 v1 XOR u64 v2))
      | OPSHL \<Rightarrow> Inr (luaV_shiftl v1 v2)
      | OPSHR \<Rightarrow> Inr (luaV_shiftl v1 (s64 (- v2)))
      | OPUNM \<Rightarrow> Inr (s64 (0 - u64 v1))
      | OPBNOT \<Rightarrow> Inr (s64 (u64 (NOT 0) XOR u64 v1))
      | _ \<Rightarrow> Inr 0)"

section \<open>Floats\<close>

text \<open>
  The value of a float that is a number, as a multiple of \<open>2 ^ -1074\<close>: every finite float is one, and the infinities come
  out beyond all finite ones.
\<close>

definition unit :: int where
  "unit = 2 ^ 1074"

definition scaled :: "int \<Rightarrow> int" where
  "scaled w =
     (let e = w div 4503599627370496 mod 2048; m = w mod 4503599627370496;
          a = (if e = 0 then m else (4503599627370496 + m) * 2 ^ nat (e - 1)) in
      if w div 9223372036854775808 = 1 then - a else a)"

definition luai_numlt :: "int \<Rightarrow> int \<Rightarrow> bool" where
  "luai_numlt a b \<longleftrightarrow> \<not> is_nan a \<and> \<not> is_nan b \<and> scaled a < scaled b"

definition luai_numle :: "int \<Rightarrow> int \<Rightarrow> bool" where
  "luai_numle a b \<longleftrightarrow> \<not> is_nan a \<and> \<not> is_nan b \<and> scaled a \<le> scaled b"

text \<open>\<open>cast_num\<close>: the nearest float, ties to even, and the number of bits it goes by.\<close>

fun nbits :: "nat \<Rightarrow> nat" where
  "nbits n = (if n = 0 then 0 else Suc (nbits (n div 2)))"

declare nbits.simps [simp del]

definition cast_num :: "int \<Rightarrow> int" where
  "cast_num i =
     (if i = 0 then 0
      else let a = \<bar>i\<bar>; l = nbits (nat a) - 1;
               q = (if l \<le> 52 then a * 2 ^ (52 - l)
                    else let s = l - 52; q = a div 2 ^ s; r = a mod 2 ^ s; h = 2 ^ (s - 1) in
                      if r > h \<or> r = h \<and> odd q then q + 1 else q) in
        (if i < 0 then 9223372036854775808 else 0) + (int l + 1023) * 4503599627370496 + (q - 4503599627370496))"

text \<open>The conversion of a float inside the range to an integer, towards zero.\<close>

definition cast_int :: "int \<Rightarrow> int" where
  "cast_int w = (if scaled w < 0 then - (- scaled w div unit) else scaled w div unit)"

section \<open>Conversions\<close>

text \<open>\<open>str2num\<close> is \<open>luaO_str2num\<close> on a whole string.\<close>

definition luaV_tonumber :: "(byte list \<Rightarrow> tvalue option) \<Rightarrow> tvalue \<Rightarrow> int option" where
  "luaV_tonumber str2num obj =
     (let nvalue = (\<lambda>v. case v of Some (TInt i) \<Rightarrow> Some (cast_num i) | Some (TFlt w) \<Rightarrow> Some w | _ \<Rightarrow> None) in
      case obj of
        TFlt w \<Rightarrow> Some w
      | TInt i \<Rightarrow> Some (cast_num i)
      | TShr s \<Rightarrow> nvalue (str2num s)
      | TLng s \<Rightarrow> nvalue (str2num s)
      | _ \<Rightarrow> None)"

text \<open>The float case: the floor, corrected to the ceiling in mode 2, if it is in the range.\<close>

definition flt_tointeger :: "int \<Rightarrow> nat \<Rightarrow> int option" where
  "flt_tointeger w mode =
     (if is_nan w then None
      else let f = scaled w div unit; integral = (scaled w mod unit = 0) in
        if \<not> integral \<and> mode = 0 then None
        else let f = (if \<not> integral \<and> mode > 1 then f + 1 else f) in
          if in_s64 f then Some f else None)"

definition luaV_tointeger :: "(byte list \<Rightarrow> tvalue option) \<Rightarrow> tvalue \<Rightarrow> nat \<Rightarrow> int option" where
  "luaV_tointeger str2num obj mode =
     (let again = (\<lambda>v. case v of Some (TInt i) \<Rightarrow> Some i | Some (TFlt w) \<Rightarrow> flt_tointeger w mode | _ \<Rightarrow> None) in
      case obj of
        TFlt w \<Rightarrow> flt_tointeger w mode
      | TInt i \<Rightarrow> Some i
      | TShr s \<Rightarrow> again (str2num s)
      | TLng s \<Rightarrow> again (str2num s)
      | _ \<Rightarrow> None)"

text \<open>The dispatch of \<open>luaO_arith\<close>; float operations and metamethods are arguments.\<close>

definition luaO_arith :: "(byte list \<Rightarrow> tvalue option) \<Rightarrow> (arith_op \<Rightarrow> int \<Rightarrow> int \<Rightarrow> int) \<Rightarrow>
    (arith_op \<Rightarrow> tvalue \<Rightarrow> tvalue \<Rightarrow> lua_error + tvalue) \<Rightarrow> arith_op \<Rightarrow> tvalue \<Rightarrow> tvalue \<Rightarrow> lua_error + tvalue" where
  "luaO_arith str2num numarith trybinTM op p1 p2 =
     (if op \<in> {OPBAND, OPBOR, OPBXOR, OPSHL, OPSHR, OPBNOT} then
        (case (luaV_tointeger str2num p1 0, luaV_tointeger str2num p2 0) of
           (Some i1, Some i2) \<Rightarrow> res_bind (intarith op i1 i2) (\<lambda>i. Inr (TInt i))
         | _ \<Rightarrow> trybinTM op p1 p2)
      else
        (case (p1, p2) of
           (TInt i1, TInt i2) \<Rightarrow>
             if op \<in> {OPDIV, OPPOW} then Inr (TFlt (numarith op (cast_num i1) (cast_num i2)))
             else res_bind (intarith op i1 i2) (\<lambda>i. Inr (TInt i))
         | _ \<Rightarrow>
             (case (luaV_tonumber str2num p1, luaV_tonumber str2num p2) of
                (Some n1, Some n2) \<Rightarrow> Inr (TFlt (numarith op n1 n2))
              | _ \<Rightarrow> trybinTM op p1 p2)))"

section \<open>Comparisons\<close>

definition l_intfitsf :: "int \<Rightarrow> bool" where
  "l_intfitsf i \<longleftrightarrow> - (2 ^ 53) \<le> i \<and> i \<le> 2 ^ 53"

definition MINFLT :: int where
  "MINFLT = cast_num (- 9223372036854775808)"

definition MAXFLT :: int where
  "MAXFLT = cast_num 9223372036854775808"

definition LTintfloat :: "int \<Rightarrow> int \<Rightarrow> bool" where
  "LTintfloat i f =
     (if \<not> l_intfitsf i then
        (if luai_numle MAXFLT f then True
         else if luai_numlt MINFLT f then i < cast_int f
         else False)
      else luai_numlt (cast_num i) f)"

definition LEintfloat :: "int \<Rightarrow> int \<Rightarrow> bool" where
  "LEintfloat i f =
     (if \<not> l_intfitsf i then
        (if luai_numle MAXFLT f then True
         else if luai_numle MINFLT f then i \<le> cast_int f
         else False)
      else luai_numle (cast_num i) f)"

definition LTnum :: "tvalue \<Rightarrow> tvalue \<Rightarrow> bool" where
  "LTnum l r =
     (case l of
        TInt li \<Rightarrow> (case r of TInt ri \<Rightarrow> li < ri | TFlt rf \<Rightarrow> LTintfloat li rf | _ \<Rightarrow> False)
      | TFlt lf \<Rightarrow> (case r of TFlt rf \<Rightarrow> luai_numlt lf rf | TInt ri \<Rightarrow> if is_nan lf then False else \<not> LEintfloat ri lf | _ \<Rightarrow> False)
      | _ \<Rightarrow> False)"

definition LEnum :: "tvalue \<Rightarrow> tvalue \<Rightarrow> bool" where
  "LEnum l r =
     (case l of
        TInt li \<Rightarrow> (case r of TInt ri \<Rightarrow> li \<le> ri | TFlt rf \<Rightarrow> LEintfloat li rf | _ \<Rightarrow> False)
      | TFlt lf \<Rightarrow> (case r of TFlt rf \<Rightarrow> luai_numle lf rf | TInt ri \<Rightarrow> if is_nan lf then False else \<not> LTintfloat ri lf | _ \<Rightarrow> False)
      | _ \<Rightarrow> False)"

text \<open>Strings are compared segment by segment; \<open>strcoll\<close> sees the bytes before the first zero.\<close>

definition cstr :: "byte list \<Rightarrow> byte list" where
  "cstr s = takeWhile (\<lambda>b. b \<noteq> 0) s"

lemma cstr_length: "length (cstr s) \<le> length s"
  by (simp add: cstr_def length_takeWhile_le)

function l_strcmp :: "(byte list \<Rightarrow> byte list \<Rightarrow> int) \<Rightarrow> byte list \<Rightarrow> byte list \<Rightarrow> fault + int" where
  "l_strcmp strcoll l r =
     (let temp = strcoll (cstr l) (cstr r) in
      if temp \<noteq> 0 then Inr temp
      else let len = length (cstr l) in
        if len = length r then Inr (if len = length l then 0 else 1)
        else if len = length l then Inr (- 1)
        else if len > length r then Inl OutOfBounds
        else l_strcmp strcoll (drop (len + 1) l) (drop (len + 1) r))"
  by pat_completeness auto
termination
  by (relation "measure (\<lambda>(_, l, _). length l)") (use cstr_length le_neq_implies_less in fastforce)+

declare l_strcmp.simps [simp del]

text \<open>\<open>luaV_lessthan\<close> and \<open>luaV_lessequal\<close>; \<open>orderTM\<close> is \<open>luaT_callorderTM\<close>, with no answer if there is no metamethod.\<close>

definition is_number :: "tvalue \<Rightarrow> bool" where
  "is_number v \<longleftrightarrow> (case v of TInt _ \<Rightarrow> True | TFlt _ \<Rightarrow> True | _ \<Rightarrow> False)"

definition string_of :: "tvalue \<Rightarrow> byte list option" where
  "string_of v = (case v of TShr s \<Rightarrow> Some s | TLng s \<Rightarrow> Some s | _ \<Rightarrow> None)"

datatype order_event = TM_LT | TM_LE

definition luaV_lessthan :: "(byte list \<Rightarrow> byte list \<Rightarrow> int) \<Rightarrow> (tvalue \<Rightarrow> tvalue \<Rightarrow> order_event \<Rightarrow> lua_error + bool option) \<Rightarrow>
    (tvalue \<Rightarrow> tvalue \<Rightarrow> lua_error) \<Rightarrow> tvalue \<Rightarrow> tvalue \<Rightarrow> lua_error + bool" where
  "luaV_lessthan strcoll orderTM ordererror l r =
     (if is_number l \<and> is_number r then Inr (LTnum l r)
      else case (string_of l, string_of r) of
        (Some ls, Some rs) \<Rightarrow> res_bind (of_fault (l_strcmp strcoll ls rs)) (\<lambda>c. Inr (c < 0))
      | _ \<Rightarrow> res_bind (orderTM l r TM_LT) (\<lambda>res. case res of None \<Rightarrow> Inl (ordererror l r) | Some b \<Rightarrow> Inr b))"

definition luaV_lessequal :: "(byte list \<Rightarrow> byte list \<Rightarrow> int) \<Rightarrow> (tvalue \<Rightarrow> tvalue \<Rightarrow> order_event \<Rightarrow> lua_error + bool option) \<Rightarrow>
    (tvalue \<Rightarrow> tvalue \<Rightarrow> lua_error) \<Rightarrow> tvalue \<Rightarrow> tvalue \<Rightarrow> lua_error + bool" where
  "luaV_lessequal strcoll orderTM ordererror l r =
     (if is_number l \<and> is_number r then Inr (LEnum l r)
      else case (string_of l, string_of r) of
        (Some ls, Some rs) \<Rightarrow> res_bind (of_fault (l_strcmp strcoll ls rs)) (\<lambda>c. Inr (c \<le> 0))
      | _ \<Rightarrow> res_bind (orderTM l r TM_LE) (\<lambda>res. case res of
            Some b \<Rightarrow> Inr b
          | None \<Rightarrow> res_bind (orderTM r l TM_LT) (\<lambda>res. case res of None \<Rightarrow> Inl (ordererror l r) | Some b \<Rightarrow> Inr (\<not> b))))"

section \<open>Numeric loops\<close>

text \<open>The limit of an integer loop, and whether the loop must not run at all.\<close>

definition forlimit :: "(byte list \<Rightarrow> tvalue option) \<Rightarrow> tvalue \<Rightarrow> int \<Rightarrow> (int \<times> bool) option" where
  "forlimit str2num obj step =
     (case luaV_tointeger str2num obj (if step < 0 then 2 else 1) of
        Some p \<Rightarrow> Some (p, False)
      | None \<Rightarrow>
          (case luaV_tonumber str2num obj of
             None \<Rightarrow> None
           | Some n \<Rightarrow>
               if luai_numlt 0 n then Some (9223372036854775807, step < 0)
               else Some (- 9223372036854775808, step \<ge> 0)))"

text \<open>
  The integer case of \<open>OP_FORPREP\<close> and \<open>OP_FORLOOP\<close>: index, limit and step are the registers of the loop. The sums are
  signed; they wrap as on every target of the code.
\<close>

record ForLoop =
  fl_index :: int
  fl_limit :: int
  fl_step :: int

definition forprep :: "(byte list \<Rightarrow> tvalue option) \<Rightarrow> tvalue \<Rightarrow> tvalue \<Rightarrow> tvalue \<Rightarrow> ForLoop option" where
  "forprep str2num init plimit pstep =
     (case (init, pstep) of
        (TInt init, TInt step) \<Rightarrow>
          (case forlimit str2num plimit step of
             None \<Rightarrow> None
           | Some (ilimit, stopnow) \<Rightarrow>
               let initv = (if stopnow then 0 else init) in
               Some \<lparr>fl_index = s64 (initv - step), fl_limit = ilimit, fl_step = step\<rparr>)
      | _ \<Rightarrow> None)"

definition forloop :: "ForLoop \<Rightarrow> (int \<times> ForLoop) option" where
  "forloop fl =
     (let idx = s64 (fl_index fl + fl_step fl) in
      if (if 0 < fl_step fl then idx \<le> fl_limit fl else fl_limit fl \<le> idx)
      then Some (idx, fl\<lparr>fl_index := idx\<rparr>) else None)"

text \<open>The values of the control variable, for at most so many rounds; whether the loop has ended by then.\<close>

fun loop_values :: "nat \<Rightarrow> ForLoop \<Rightarrow> int list \<times> bool" where
  "loop_values 0 fl = ([], False)"
| "loop_values (Suc n) fl =
     (case forloop fl of None \<Rightarrow> ([], True) | Some (i, fl) \<Rightarrow> (let (is, e) = loop_values n fl in (i # is, e)))"

unbundle bit_operations_syntax

text \<open>
  Integer arithmetic of the virtual machine: every operation is the exact one on the integers, reduced to 64 bits; division
  and modulus round towards minus infinity although those of C round towards zero.
\<close>

lemma u64_take: "u64 x = take_bit 64 x"
  by (simp add: u64_def take_bit_eq_mod)

lemma s64_take: "s64 x = signed_take_bit 63 x"
  by (simp add: s64_def signed_take_bit_eq_take_bit_shift take_bit_eq_mod)

lemma s64_u64 [simp]: "s64 (u64 x) = s64 x"
  by (rule s64_cong) (simp add: u64_def)

lemma s64_u64_ops:
  "s64 (u64 a + u64 b) = s64 (a + b)" "s64 (u64 a - u64 b) = s64 (a - b)" "s64 (u64 a * u64 b) = s64 (a * b)"
  "s64 (- u64 a) = s64 (- a)"
  by (rule s64_cong; simp add: u64_def mod_simps)+

lemma s64_u64_bits:
  "s64 (u64 a AND u64 b) = s64 (a AND b)" "s64 (u64 a OR u64 b) = s64 (a OR b)" "s64 (u64 a XOR u64 b) = s64 (a XOR b)"
  unfolding s64_take u64_take by (rule bit_eqI; auto simp: bit_simps min_def)+

lemma special_divisor: "in_s64 n \<Longrightarrow> u64 (u64 n + 1) \<le> 1 \<longleftrightarrow> n = 0 \<or> n = - 1"
proof -
  assume n: "in_s64 n"
  have e: "u64 (u64 n + 1) = (n + 1) mod 18446744073709551616" by (simp add: u64_def mod_simps)
  show ?thesis
  proof (cases "0 \<le> n + 1")
    case True
    then show ?thesis using n unfolding e by (simp add: in_s64_def) auto
  next
    case False
    then have "(n + 1 + 18446744073709551616) mod 18446744073709551616 = n + 1 + 18446744073709551616"
      using n by (intro mod_pos_pos_trivial) (simp_all add: in_s64_def)
    then have "(n + 1) mod 18446744073709551616 = n + 1 + 18446744073709551616" by (simp only: mod_add_self2)
    then show ?thesis using False n unfolding e by (simp add: in_s64_def)
  qed
qed

lemma sdiv_cases:
  "m sdiv n = (if (m < 0) = (n < 0) then \<bar>m\<bar> div \<bar>n\<bar> else - (\<bar>m\<bar> div \<bar>n\<bar>))" for m n :: int
  by (auto simp: signed_divide_int_def sgn_if)

lemma smod_cases: "m smod n = (if m < 0 then - (\<bar>m\<bar> mod \<bar>n\<bar>) else \<bar>m\<bar> mod \<bar>n\<bar>)" for m n :: int
  by (auto simp: signed_modulo_int_def sgn_if)

lemma floor_division:
  fixes m n :: int
  assumes "n \<noteq> 0"
  shows "(if (m XOR n) < 0 \<and> m smod n \<noteq> 0 then m sdiv n - 1 else m sdiv n) = m div n"
    "(if m smod n \<noteq> 0 \<and> (m XOR n) < 0 then m smod n + n else m smod n) = m mod n"
proof -
  have x: "(m XOR n) < 0 \<longleftrightarrow> (m < 0) \<noteq> (n < 0)" by (simp add: xor_negative_int_iff)
  note facts = zdiv_zminus1_eq_if [of n "- m"] zdiv_zminus2_eq_if [of "- n" m] zmod_zminus1_eq_if [of "- m" n]
    zmod_zminus2_eq_if [of m "- n"] div_minus_minus [of m n] mod_minus_minus [of m n]
  consider "0 \<le> m" "0 < n" | "m < 0" "n < 0" | "m < 0" "0 < n" | "0 \<le> m" "n < 0" using assms by linarith
  then have "(if (m XOR n) < 0 \<and> m smod n \<noteq> 0 then m sdiv n - 1 else m sdiv n) = m div n \<and>
    (if m smod n \<noteq> 0 \<and> (m XOR n) < 0 then m smod n + n else m smod n) = m mod n"
  proof cases
    case 1
    then show ?thesis by (simp add: x sdiv_cases smod_cases)
  next
    case 2
    then show ?thesis using facts(5,6) by (simp add: x sdiv_cases smod_cases)
  next
    case 3
    then show ?thesis using facts(1,3) by (simp add: x sdiv_cases smod_cases)
  next
    case 4
    then show ?thesis using facts(2,4) by (simp add: x sdiv_cases smod_cases)
  qed
  then show "(if (m XOR n) < 0 \<and> m smod n \<noteq> 0 then m sdiv n - 1 else m sdiv n) = m div n"
    "(if m smod n \<noteq> 0 \<and> (m XOR n) < 0 then m smod n + n else m smod n) = m mod n" by simp_all
qed

lemma div_range:
  assumes "in_s64 m" "n \<noteq> 0" "n \<noteq> - 1"
  shows "in_s64 (m div n)"
proof -
  have h: "\<bar>m\<bar> div 2 \<le> 4611686018427387904" using assms(1) unfolding in_s64_def by linarith
  show ?thesis
  proof (cases "n = 1")
    case False
    then have n: "2 \<le> \<bar>n\<bar>" using assms(2,3) by linarith
    have "\<bar>m\<bar> div \<bar>n\<bar> \<le> \<bar>m\<bar> div 2" using zdiv_mono2 [of "\<bar>m\<bar>" 2 "\<bar>n\<bar>"] n by simp
    moreover have "0 \<le> \<bar>m\<bar> div \<bar>n\<bar>" using n by (simp add: pos_imp_zdiv_nonneg_iff)
    moreover have "m div n = m sdiv n \<or> m div n = m sdiv n - 1" using floor_division(1) [OF assms(2), of m] by (metis (full_types))
    moreover have "\<bar>m sdiv n\<bar> = \<bar>m\<bar> div \<bar>n\<bar>" using calculation(2) by (simp add: sdiv_cases)
    ultimately show ?thesis using h unfolding in_s64_def by linarith
  qed (use assms(1) in simp)
qed

lemma luaV_div_floor:
  assumes "in_s64 m" "in_s64 n" "n \<noteq> 0"
  shows "luaV_div m n = Inr (s64 (m div n))"
proof (cases "n = - 1")
  case True
  then show ?thesis using special_divisor [OF assms(2)] s64_u64_ops(4) [of m] by (simp add: luaV_div_def)
next
  case False
  then have "in_s64 (m div n)" using div_range [OF assms(1,3)] by simp
  then show ?thesis using False assms special_divisor [OF assms(2)] floor_division(1) [OF assms(3), of m]
    by (simp add: luaV_div_def Let_def s64_id)
qed

lemma luaV_mod_floor:
  assumes "in_s64 m" "in_s64 n" "n \<noteq> 0"
  shows "luaV_mod m n = Inr (s64 (m mod n))"
proof (cases "n = - 1")
  case True
  then show ?thesis using special_divisor [OF assms(2)] by (simp add: luaV_mod_def s64_id in_s64_def)
next
  case False
  have "in_s64 (m mod n)"
  proof (cases "0 < n")
    case True
    then show ?thesis using assms(2) pos_mod_bound [OF True, of m] pos_mod_sign [OF True, of m] unfolding in_s64_def by linarith
  next
    case False
    then have "n < 0" using assms(3) by simp
    then show ?thesis using assms(2) neg_mod_bound [of n m] neg_mod_sign [of n m] unfolding in_s64_def by linarith
  qed
  then show ?thesis using False assms special_divisor [OF assms(2)] floor_division(2) [OF assms(3), of m]
    by (simp add: luaV_mod_def Let_def s64_id)
qed

section \<open>The exact operations\<close>

definition exact :: "arith_op \<Rightarrow> int \<Rightarrow> int \<Rightarrow> int" where
  "exact op a b =
     (case op of
        OPADD \<Rightarrow> a + b
      | OPSUB \<Rightarrow> a - b
      | OPMUL \<Rightarrow> a * b
      | OPMOD \<Rightarrow> a mod b
      | OPIDIV \<Rightarrow> a div b
      | OPBAND \<Rightarrow> a AND b
      | OPBOR \<Rightarrow> a OR b
      | OPBXOR \<Rightarrow> a XOR b
      | OPSHL \<Rightarrow> if b \<ge> 0 then a * 2 ^ nat b else u64 a div 2 ^ nat (- b)
      | OPSHR \<Rightarrow> if b \<ge> 0 then u64 a div 2 ^ nat b else a * 2 ^ nat (- b)
      | OPUNM \<Rightarrow> - a
      | OPBNOT \<Rightarrow> NOT a
      | _ \<Rightarrow> 0)"

lemma far_right: "64 \<le> n \<Longrightarrow> u64 a div 2 ^ n = 0"
proof -
  assume "64 \<le> n"
  then have "(2 :: int) ^ 64 \<le> 2 ^ n" by (intro power_increasing) auto
  then show ?thesis using pos_mod_bound [of "18446744073709551616" a] pos_mod_sign [of "18446744073709551616" a]
    by (simp add: u64_def div_pos_pos_trivial)
qed

lemma far_left: "64 \<le> n \<Longrightarrow> s64 (a * 2 ^ n) = 0"
proof -
  assume "64 \<le> n"
  then have "(2 :: int) ^ n = 2 ^ (64 + (n - 64))" by simp
  also have "\<dots> = 2 ^ 64 * 2 ^ (n - 64)" by (rule power_add)
  finally have "a * 2 ^ n = 18446744073709551616 * (a * 2 ^ (n - 64))" by simp
  then have "a * 2 ^ n mod 18446744073709551616 = 0 mod 18446744073709551616" by (simp only: mod_mult_self1_is_0 mod_0)
  then show ?thesis using s64_cong [of "a * 2 ^ n" 0] by (simp add: s64_def)
qed

lemma shiftl_exact: "luaV_shiftl a b = s64 (if b \<ge> 0 then a * 2 ^ nat b else u64 a div 2 ^ nat (- b))"
proof (cases "b < 0")
  case True
  then show ?thesis using far_right [of "nat (- b)" a] by (auto simp: luaV_shiftl_def drop_bit_eq_div s64_def)
next
  case False
  have "s64 (u64 a * 2 ^ nat b) = s64 (a * 2 ^ nat b)" by (rule s64_cong) (simp add: u64_def mod_simps)
  then show ?thesis using False far_left [of "nat b" a] by (auto simp: luaV_shiftl_def push_bit_eq_mult)
qed

text \<open>
  C30. On integers \<open>intarith\<close> is exact arithmetic reduced to 64 bits, for every operation and every operands: floor division
  and modulus, also of the least integer by minus one, logical shifts by any distance in either direction, bitwise
  operations on two's complement.
\<close>

theorem integer_arithmetic:
  assumes "in_s64 a" "in_s64 b" "op \<noteq> OPPOW" "op \<noteq> OPDIV" "op = OPMOD \<or> op = OPIDIV \<Longrightarrow> b \<noteq> 0"
  shows "intarith op a b = Inr (s64 (exact op a b))"
proof (cases "op = OPSHR")
  case True
  show ?thesis
  proof (cases "b = - 9223372036854775808")
    case m: True
    then have "s64 (- b) = b" by (simp add: s64_def)
    moreover have b: "b \<le> - 64" "64 \<le> nat (- b)" using m by simp_all
    moreover have "luaV_shiftl a b = 0" using b(1) by (simp add: luaV_shiftl_def)
    ultimately show ?thesis using True far_left [OF b(2), of a] by (simp add: intarith_def exact_def)
  next
    case False
    then have "s64 (- b) = - b" using assms(2) by (intro s64_id) (simp add: in_s64_def)
    then show ?thesis using True shiftl_exact [of a "- b"] by (cases "b = 0") (auto simp: intarith_def exact_def)
  qed
next
  case False
  have "s64 (u64 (NOT 0) XOR u64 a) = s64 (NOT a)" unfolding s64_u64_bits by simp
  with False show ?thesis
    using assms luaV_div_floor [OF assms(1,2)] luaV_mod_floor [OF assms(1,2)] shiftl_exact [of a b]
    by (cases op) (simp_all add: intarith_def exact_def s64_u64_ops s64_u64_bits)
qed

lemma integer_arithmetic_witness: "intarith OPIDIV (- 9223372036854775808) (- 1) = Inr (s64 (exact OPIDIV (- 9223372036854775808) (- 1)))"
  by (rule integer_arithmetic) (simp_all add: in_s64_def)

end
