(* ===== verification/LuaVmCompare.thy ===== *)
theory LuaVmCompare
  imports LuaVm
begin

text \<open>
  Comparisons of the virtual machine: integers and floats are compared by their exact values, although a 64-bit integer need
  not be a float; strings by their bytes, zeros included, although \<open>strcoll\<close> stops at a zero.
\<close>

section \<open>Exact conversions\<close>

lemma nbits_bounds: "0 < n \<Longrightarrow> 0 < nbits n \<and> 2 ^ (nbits n - 1) \<le> n \<and> n < 2 ^ nbits n"
proof (induction n rule: less_induct)
  case (less n)
  show ?case
  proof (cases "n = 1")
    case True
    then show ?thesis by (simp add: nbits.simps)
  next
    case False
    then have n: "0 < n div 2" "n div 2 < n" using less(2) by auto
    from less(1) [OF n(2,1)] obtain k where k: "nbits (n div 2) = Suc k" "2 ^ k \<le> n div 2" "n div 2 < 2 ^ Suc k"
      by (cases "nbits (n div 2)") auto
    have e: "nbits n = Suc (Suc k)" using less(2) k(1) by (simp add: nbits.simps [of n])
    have "2 * 2 ^ k \<le> n" "n < 2 * 2 ^ Suc k" using k(2,3) by linarith+
    then show ?thesis unfolding e by simp
  qed
qed

text \<open>The bits of a float from its parts.\<close>

lemma float_parts:
  assumes "0 \<le> m" "m < 4503599627370496" "0 \<le> e" "e < 2048" "s = 0 \<or> s = (1 :: int)"
  defines "w \<equiv> s * 9223372036854775808 + e * 4503599627370496 + m"
  shows "w div 4503599627370496 mod 2048 = e" "w mod 4503599627370496 = m" "w div 9223372036854775808 = s"
proof -
  have w: "w = (s * 2048 + e) * 4503599627370496 + m" by (simp add: w_def)
  have d: "w div 4503599627370496 = s * 2048 + e" unfolding w using assms(1,2) by simp
  show "w div 4503599627370496 mod 2048 = e" unfolding d using assms(3,4) by simp
  show "w mod 4503599627370496 = m" unfolding w mod_mult_self3 using assms(1,2) by simp
  have "w = s * 9223372036854775808 + (e * 4503599627370496 + m)" "e * 4503599627370496 + m < 9223372036854775808"
    "0 \<le> e * 4503599627370496 + m" using assms by (auto simp: w_def)
  then show "w div 9223372036854775808 = s" by simp
qed

lemma scaled_parts:
  assumes "0 \<le> m" "m < 4503599627370496" "0 < e" "e < 2047" "s = 0 \<or> s = (1 :: int)"
  shows "scaled (s * 9223372036854775808 + e * 4503599627370496 + m) =
      (if s = 1 then - 1 else 1) * ((4503599627370496 + m) * 2 ^ nat (e - 1))"
    "\<not> is_nan (s * 9223372036854775808 + e * 4503599627370496 + m)"
  using float_parts [of m e s] assms by (auto simp: scaled_def is_nan_def Let_def)

lemma nbits_unique:
  assumes "2 ^ l \<le> n" "n < 2 ^ Suc l"
  shows "nbits n = Suc l"
proof -
  have n: "0 < n" by (rule less_le_trans [OF _ assms(1)]) simp
  note b = nbits_bounds [OF n]
  have "nbits n - 1 < Suc l"
    using power_less_imp_less_exp [of "2 :: nat", OF _ le_less_trans [OF b [THEN conjunct2, THEN conjunct1] assms(2)]] by simp
  moreover have "l < nbits n"
    using power_less_imp_less_exp [of "2 :: nat", OF _ le_less_trans [OF assms(1) b [THEN conjunct2, THEN conjunct2]]] by simp
  ultimately show ?thesis by simp
qed

lemma cast_num_value:
  assumes i: "i \<noteq> 0" "2 ^ l \<le> nat \<bar>i\<bar>" "nat \<bar>i\<bar> < 2 ^ Suc l" "l \<le> 1000"
    and q: "if l \<le> 52 then q = \<bar>i\<bar> * 2 ^ (52 - l) else \<bar>i\<bar> = q * 2 ^ (l - 52)"
    and r: "4503599627370496 \<le> q" "q < 9007199254740992"
  shows "scaled (cast_num i) = i * unit \<and> \<not> is_nan (cast_num i)"
proof -
  let ?s = "if i < 0 then 1 else 0 :: int"
  have l: "nbits (nat \<bar>i\<bar>) - 1 = l" using nbits_unique [OF i(2,3)] by simp
  have "cast_num i = (if i < 0 then 9223372036854775808 else 0) + (int l + 1023) * 4503599627370496 + (q - 4503599627370496)"
  proof (cases "l \<le> 52")
    case True
    then have "\<bar>i\<bar> * 2 ^ (52 - l) = q" using q by simp
    then show ?thesis using i(1) True unfolding cast_num_def Let_def l by (simp only: if_True if_False)
  next
    case False
    then have "\<bar>i\<bar> = q * 2 ^ (l - 52)" using q by simp
    then have "\<bar>i\<bar> div 2 ^ (l - 52) = q" "\<bar>i\<bar> mod 2 ^ (l - 52) = 0" by simp_all
    then show ?thesis using i(1) False unfolding cast_num_def Let_def l by simp
  qed
  then have c: "cast_num i = ?s * 9223372036854775808 + (int l + 1023) * 4503599627370496 + (q - 4503599627370496)" by simp
  have "q * 2 ^ (l + 1022) = \<bar>i\<bar> * unit"
  proof (cases "l \<le> 52")
    case True
    then have "52 - l + (l + 1022) = 1074" by simp
    then show ?thesis using q True by (simp only: unit_def if_True mult.assoc power_add [symmetric])
  next
    case False
    then have "l + 1022 = l - 52 + 1074" by simp
    then have "q * 2 ^ (l + 1022) = q * 2 ^ (l - 52) * 2 ^ 1074" by (simp only: power_add mult.assoc)
    then show ?thesis using q False by (simp only: unit_def if_False)
  qed
  moreover have "nat (int l + 1023 - 1) = l + 1022" by simp
  ultimately show ?thesis
    unfolding c using scaled_parts [of "q - 4503599627370496" "int l + 1023" ?s] i(1,4) r by (auto simp: abs_if)
qed

lemma cast_num_small:
  assumes "\<bar>i\<bar> < 9007199254740992"
  shows "scaled (cast_num i) = i * unit \<and> \<not> is_nan (cast_num i)"
proof (cases "i = 0")
  case True
  then show ?thesis by (simp add: cast_num_def scaled_def is_nan_def)
next
  case False
  define l where "l = nbits (nat \<bar>i\<bar>) - 1"
  from nbits_bounds [of "nat \<bar>i\<bar>"] False have b: "2 ^ l \<le> nat \<bar>i\<bar>" "nat \<bar>i\<bar> < 2 ^ Suc l"
    by (simp_all add: l_def del: power_Suc)
  have i: "2 ^ l \<le> \<bar>i\<bar>" "\<bar>i\<bar> < 2 ^ Suc l" using b by (simp_all add: nat_less_iff le_nat_iff)
  have "(2 :: int) ^ l < 2 ^ 53" using order_le_less_trans [OF i(1) assms] by simp
  then have "l < 53" by (rule power_less_imp_less_exp [rotated]) simp
  then have l: "l \<le> 52" by simp
  have p: "(2 :: int) ^ l * 2 ^ (52 - l) = 2 ^ 52" "(2 :: int) ^ Suc l * 2 ^ (52 - l) = 2 ^ 53"
    using l by (simp_all only: power_add [symmetric]) simp_all
  have "2 ^ l * 2 ^ (52 - l) \<le> \<bar>i\<bar> * 2 ^ (52 - l)" "\<bar>i\<bar> * 2 ^ (52 - l) < 2 ^ Suc l * 2 ^ (52 - l)"
    using i by (auto intro: mult_right_mono mult_strict_right_mono simp del: power_Suc)
  then have "4503599627370496 \<le> \<bar>i\<bar> * 2 ^ (52 - l)" "\<bar>i\<bar> * 2 ^ (52 - l) < 9007199254740992" unfolding p by simp_all
  with b l False show ?thesis by (intro cast_num_value [where q = "\<bar>i\<bar> * 2 ^ (52 - l)"]) auto
qed

lemma cast_num_power:
  assumes "\<bar>i\<bar> = 4503599627370496 * 2 ^ s" "0 < s" "s \<le> 11"
  shows "scaled (cast_num i) = i * unit \<and> \<not> is_nan (cast_num i)"
proof -
  have e: "\<bar>i\<bar> = 2 ^ (52 + s)" using assms(1) by (simp only: power_add) simp
  then have n: "nat \<bar>i\<bar> = 2 ^ (52 + s)" by (simp add: nat_power_eq)
  have "i \<noteq> 0" using e by auto
  then show ?thesis
    using assms n by (intro cast_num_value [where l = "52 + s" and q = 4503599627370496]) auto
qed

lemma cast_num_fits:
  assumes "l_intfitsf i"
  shows "scaled (cast_num i) = i * unit" "\<not> is_nan (cast_num i)"
  using cast_num_small [of i] cast_num_power [of i 1] assms by (cases "\<bar>i\<bar> = 9007199254740992"; force simp: l_intfitsf_def)+

lemma limits:
  "scaled MINFLT = - 9223372036854775808 * unit" "\<not> is_nan MINFLT"
  "scaled MAXFLT = 9223372036854775808 * unit" "\<not> is_nan MAXFLT"
  using cast_num_power [of "- 9223372036854775808" 11] cast_num_power [of "9223372036854775808" 11]
  unfolding MINFLT_def MAXFLT_def by simp_all

section \<open>Integers and floats\<close>

lemma unit_pos: "0 < unit"
  by (simp add: unit_def)

lemma scaled_large:
  assumes "9007199254740992 * unit < \<bar>scaled w\<bar>"
  shows "unit dvd scaled w"
proof -
  define e where "e = w div 4503599627370496 mod 2048"
  define m where "m = w mod 4503599627370496"
  have m: "0 \<le> m" "m < 4503599627370496" by (simp_all add: m_def)
  define a where "a = (if e = 0 then m else (4503599627370496 + m) * 2 ^ nat (e - 1))"
  have s: "scaled w = a \<or> scaled w = - a" by (simp add: scaled_def Let_def e_def m_def a_def)
  have a: "0 \<le> a" using m by (simp add: a_def)
  then have big: "9007199254740992 * unit < a" using s assms by auto
  have "1 \<le> unit" using unit_pos by simp
  then have "e \<noteq> 0" using big m unfolding a_def by (auto split: if_splits)
  then have ae: "a = (4503599627370496 + m) * 2 ^ nat (e - 1)" by (simp add: a_def)
  have "1074 \<le> nat (e - 1)"
  proof (rule ccontr)
    assume "\<not> 1074 \<le> nat (e - 1)"
    then have "(2 :: int) ^ nat (e - 1) \<le> unit" unfolding unit_def by (intro power_increasing) simp_all
    then have "a \<le> 9007199254740992 * unit" unfolding ae using m by (intro mult_mono) simp_all
    then show False using big by simp
  qed
  then have "unit dvd 2 ^ nat (e - 1)" unfolding unit_def by (rule le_imp_power_dvd)
  then show ?thesis using s ae by auto
qed

lemma cast_int_large: "unit dvd scaled w \<Longrightarrow> cast_int w * unit = scaled w"
  by (auto simp: cast_int_def elim!: dvdE)

lemma cast_int_small:
  assumes "\<bar>scaled w\<bar> \<le> 9007199254740992 * unit"
  shows "\<bar>cast_int w\<bar> \<le> 9007199254740992"
proof -
  have "\<bar>scaled w\<bar> div unit \<le> 9007199254740992 * unit div unit" using assms unit_pos by (intro zdiv_mono1)
  moreover have "0 \<le> \<bar>scaled w\<bar> div unit" using unit_pos by (simp add: pos_imp_zdiv_nonneg_iff)
  ultimately show ?thesis using unit_pos by (auto simp: cast_int_def)
qed

text \<open>Beyond the range of exact conversion, truncation does not matter.\<close>

lemma compare_truncated:
  assumes "\<not> l_intfitsf i"
  shows "i < cast_int f \<longleftrightarrow> i * unit < scaled f" "i \<le> cast_int f \<longleftrightarrow> i * unit \<le> scaled f"
proof -
  have i: "i < - 9007199254740992 \<or> 9007199254740992 < i" using assms by (auto simp: l_intfitsf_def)
  have "(i < cast_int f \<longleftrightarrow> i * unit < scaled f) \<and> (i \<le> cast_int f \<longleftrightarrow> i * unit \<le> scaled f)"
  proof (cases "\<bar>scaled f\<bar> \<le> 9007199254740992 * unit")
    case True
    have c: "- 9007199254740992 \<le> cast_int f" "cast_int f \<le> 9007199254740992" using cast_int_small [OF True] by linarith+
    have s: "- 9007199254740992 * unit \<le> scaled f" "scaled f \<le> 9007199254740992 * unit" using True by linarith+
    from i show ?thesis
    proof
      assume i: "i < - 9007199254740992"
      then have "i * unit < - 9007199254740992 * unit" using unit_pos by (intro mult_strict_right_mono)
      then show ?thesis using i c s by linarith
    next
      assume i: "9007199254740992 < i"
      then have "9007199254740992 * unit < i * unit" using unit_pos by (intro mult_strict_right_mono)
      then show ?thesis using i c s by linarith
    qed
  next
    case False
    then have "scaled f = cast_int f * unit" using cast_int_large [OF scaled_large] by simp
    then show ?thesis using unit_pos by simp
  qed
  then show "i < cast_int f \<longleftrightarrow> i * unit < scaled f" "i \<le> cast_int f \<longleftrightarrow> i * unit \<le> scaled f" by blast+
qed

lemma s64_unit: "in_s64 i \<Longrightarrow> - 9223372036854775808 * unit \<le> i * unit" "in_s64 i \<Longrightarrow> i * unit < 9223372036854775808 * unit"
  using unit_pos mult_right_mono [of "- 9223372036854775808" i unit] mult_strict_right_mono [of i 9223372036854775808 unit]
  by (auto simp: in_s64_def)

lemma LTintfloat_exact:
  assumes "in_s64 i"
  shows "LTintfloat i f \<longleftrightarrow> \<not> is_nan f \<and> i * unit < scaled f"
proof (cases "l_intfitsf i")
  case True
  then show ?thesis using cast_num_fits [OF True] by (auto simp: LTintfloat_def luai_numlt_def)
next
  case False
  note i = s64_unit [OF assms]
  show ?thesis
    using False limits i compare_truncated(1) [OF False, of f]
    by (auto simp: LTintfloat_def luai_numlt_def luai_numle_def)
qed

lemma LEintfloat_exact:
  assumes "in_s64 i"
  shows "LEintfloat i f \<longleftrightarrow> \<not> is_nan f \<and> i * unit \<le> scaled f"
proof (cases "l_intfitsf i")
  case True
  then show ?thesis using cast_num_fits [OF True] by (auto simp: LEintfloat_def luai_numle_def)
next
  case False
  note i = s64_unit [OF assms]
  show ?thesis
    using False limits i compare_truncated(2) [OF False, of f]
    by (auto simp: LEintfloat_def luai_numle_def)
qed

text \<open>The value of a number in the unit of \<open>scaled\<close>; not a number has none.\<close>

definition num_value :: "tvalue \<Rightarrow> int option" where
  "num_value v = (case v of TInt i \<Rightarrow> Some (i * unit) | TFlt w \<Rightarrow> if is_nan w then None else Some (scaled w) | _ \<Rightarrow> None)"

definition number_ok :: "tvalue \<Rightarrow> bool" where
  "number_ok v \<longleftrightarrow> (case v of TInt i \<Rightarrow> in_s64 i | TFlt _ \<Rightarrow> True | _ \<Rightarrow> False)"

lemma LTnum_exact:
  assumes "number_ok l" "number_ok r"
  shows "LTnum l r \<longleftrightarrow> (\<exists>a b. num_value l = Some a \<and> num_value r = Some b \<and> a < b)"
  using assms unit_pos
  by (auto simp: LTnum_def num_value_def number_ok_def LTintfloat_exact LEintfloat_exact luai_numlt_def split: tvalue.splits)

lemma LEnum_exact:
  assumes "number_ok l" "number_ok r"
  shows "LEnum l r \<longleftrightarrow> (\<exists>a b. num_value l = Some a \<and> num_value r = Some b \<and> a \<le> b)"
  using assms unit_pos
  by (auto simp: LEnum_def num_value_def number_ok_def LTintfloat_exact LEintfloat_exact luai_numle_def split: tvalue.splits)

section \<open>Strings\<close>

text \<open>\<open>strcmp\<close>, which is \<open>strcoll\<close> in the locale a C program starts in.\<close>

fun strcmp :: "byte list \<Rightarrow> byte list \<Rightarrow> int" where
  "strcmp [] [] = 0"
| "strcmp [] (b # bs) = - 1"
| "strcmp (a # as) [] = 1"
| "strcmp (a # as) (b # bs) = (if a < b then - 1 else if b < a then 1 else strcmp as bs)"

lemma strcmp_eq: "strcmp l r = 0 \<longleftrightarrow> l = r"
  by (induction l r rule: strcmp.induct) auto

lemma strcmp_less: "strcmp l r < 0 \<longleftrightarrow> ord_class.lexordp l r"
  by (induction l r rule: strcmp.induct) auto

text \<open>What the first segment decides is decided for the whole strings.\<close>

lemma segment_decides: "strcmp (cstr l) (cstr r) \<noteq> 0 \<Longrightarrow> strcmp l r = strcmp (cstr l) (cstr r)"
proof (induction l r rule: strcmp.induct)
  case (2 b bs)
  then show ?case by (simp add: cstr_def split: if_splits)
next
  case (3 a as)
  then show ?case by (simp add: cstr_def split: if_splits)
next
  case (4 a as b bs)
  then show ?case using word_gt_0 [of a] word_gt_0 [of b] by (auto simp: cstr_def split: if_splits)
qed (simp add: cstr_def)

lemma cstr_split: "s = cstr s \<or> (\<exists>t. s = cstr s @ 0 # t)"
  by (induction s) (auto simp: cstr_def)

lemma strcmp_append: "strcmp (s @ l) (s @ r) = strcmp l r"
  by (induction s) simp_all

lemma l_strcmp_exact: "l_strcmp strcmp l r = Inr (strcmp l r)"
proof (induction "length l" arbitrary: l r rule: less_induct)
  case less
  show ?case
  proof (cases "strcmp (cstr l) (cstr r) = 0")
    case False
    then show ?thesis using segment_decides [OF False] by (simp add: l_strcmp.simps [of strcmp l r] Let_def)
  next
    case True
    obtain c where c: "cstr l = c" "cstr r = c" "strcmp c c = 0" using True by (simp add: strcmp_eq)
    consider "l = c" "r = c" | l' where "l = c @ 0 # l'" "r = c" | r' where "l = c" "r = c @ 0 # r'" |
      l' r' where "l = c @ 0 # l'" "r = c @ 0 # r'"
      using cstr_split [of l] cstr_split [of r] c by metis
    then show ?thesis
    proof cases
      case (4 l' r')
      have "l_strcmp strcmp l' r' = Inr (strcmp l' r')" using 4(1) by (intro less) simp
      then show ?thesis using c 4 strcmp_append [of c "0 # l'" "0 # r'"] by (subst l_strcmp.simps) (simp add: Let_def)
    next
      case (2 l')
      then show ?thesis using c strcmp_append [of c "0 # l'" "[]"] by (subst l_strcmp.simps) (simp add: Let_def)
    next
      case (3 r')
      then show ?thesis using c strcmp_append [of c "[]" "0 # r'"] by (subst l_strcmp.simps) (simp add: Let_def)
    qed (use c in \<open>subst l_strcmp.simps, simp add: Let_def\<close>)
  qed
qed

section \<open>The order operators\<close>

definition comparable :: "tvalue \<Rightarrow> tvalue \<Rightarrow> bool" where
  "comparable l r \<longleftrightarrow> number_ok l \<and> number_ok r \<or> string_of l \<noteq> None \<and> string_of r \<noteq> None"

definition exact_less :: "tvalue \<Rightarrow> tvalue \<Rightarrow> bool" where
  "exact_less l r \<longleftrightarrow>
     (\<exists>a b. num_value l = Some a \<and> num_value r = Some b \<and> a < b) \<or>
     (\<exists>s t. string_of l = Some s \<and> string_of r = Some t \<and> ord_class.lexordp s t)"

lemma number_not_string: "number_ok v \<Longrightarrow> is_number v \<and> string_of v = None" "string_of v \<noteq> None \<Longrightarrow> num_value v = None \<and> \<not> is_number v"
  by (cases v; simp add: number_ok_def is_number_def string_of_def num_value_def)+

lemma lessthan_exact: "comparable l r \<Longrightarrow> luaV_lessthan strcmp tm err l r = Inr (exact_less l r)"
  unfolding comparable_def
proof (elim disjE conjE)
  assume a: "number_ok l" "number_ok r"
  then show ?thesis using number_not_string(1) [OF a(1)] number_not_string(1) [OF a(2)]
    by (simp add: luaV_lessthan_def exact_less_def LTnum_exact)
next
  assume a: "string_of l \<noteq> None" "string_of r \<noteq> None"
  then show ?thesis using number_not_string(2) [OF a(1)] number_not_string(2) [OF a(2)]
    by (auto simp: luaV_lessthan_def exact_less_def l_strcmp_exact strcmp_less)
qed

lemma lessequal_exact:
  assumes "comparable l r"
  shows "luaV_lessequal strcmp tm err l r = Inr (exact_less l r \<or>
    (\<exists>a. num_value l = Some a \<and> num_value r = Some a) \<or> (\<exists>s. string_of l = Some s \<and> string_of r = Some s))"
  using assms unfolding comparable_def
proof (elim disjE conjE)
  assume a: "number_ok l" "number_ok r"
  then show ?thesis using number_not_string(1) [OF a(1)] number_not_string(1) [OF a(2)]
    by (auto simp: luaV_lessequal_def exact_less_def LEnum_exact order_le_less)
next
  assume a: "string_of l \<noteq> None" "string_of r \<noteq> None"
  then show ?thesis using number_not_string(2) [OF a(1)] number_not_string(2) [OF a(2)]
    by (auto simp: luaV_lessequal_def exact_less_def l_strcmp_exact order_le_less strcmp_eq simp flip: strcmp_less)
qed

text \<open>
  C29. The operators \<open><\<close> and \<open><=\<close> on two numbers compare their exact values, integers and floats alike, infinities included,
  and are false when one is not a number; on two strings they are the order and equality of their bytes. No metamethod is
  called and there is no error.
\<close>

theorem comparisons_exact:
  assumes "comparable l r"
  shows "luaV_lessthan strcmp tm err l r = Inr (exact_less l r) \<and>
    luaV_lessequal strcmp tm err l r = Inr (exact_less l r \<or>
      (\<exists>a. num_value l = Some a \<and> num_value r = Some a) \<or> (\<exists>s. string_of l = Some s \<and> string_of r = Some s))"
  using lessthan_exact [OF assms] lessequal_exact [OF assms] by simp

lemma comparisons_exact_witness:
  "luaV_lessthan strcmp (\<lambda>_ _ _. Inr None) (\<lambda>_ _. Fault OutOfFuel) (TInt 9007199254740993) (TFlt 4845873199050653696) =
      Inr (exact_less (TInt 9007199254740993) (TFlt 4845873199050653696)) \<and>
    luaV_lessequal strcmp (\<lambda>_ _ _. Inr None) (\<lambda>_ _. Fault OutOfFuel) (TInt 9007199254740993) (TFlt 4845873199050653696) =
      Inr (exact_less (TInt 9007199254740993) (TFlt 4845873199050653696) \<or>
        (\<exists>a. num_value (TInt 9007199254740993) = Some a \<and> num_value (TFlt 4845873199050653696) = Some a) \<or>
        (\<exists>s. string_of (TInt 9007199254740993) = Some s \<and> string_of (TFlt 4845873199050653696) = Some s))"
  by (rule comparisons_exact) (simp add: comparable_def number_ok_def in_s64_def)

end
