(* ===== verification/LuaVmSort.thy ===== *)
theory LuaVmSort
  imports LuaTabProps LuaVmCompare
begin

text \<open>Sorting without an order function: \<open>table.sort\<close> then compares with the operator of the virtual machine.\<close>

lemma strings_ordered: "weak_order {v. string_of v \<noteq> None} exact_less"
proof -
  have "exact_less l r \<longleftrightarrow> ord_class.lexordp (the (string_of l)) (the (string_of r))"
    if "string_of l \<noteq> None" "string_of r \<noteq> None" for l r
    using that number_not_string(2) [OF that(1)] by (auto simp: exact_less_def)
  moreover have "\<not> ord_class.lexordp y x \<Longrightarrow> \<not> ord_class.lexordp z y \<Longrightarrow> \<not> ord_class.lexordp z x" for x y z :: "byte list"
    by (metis lexordp_linear lexordp_trans lexordp_antisym)
  ultimately show ?thesis unfolding weak_order_def using lexordp_antisym by (simp add: Ball_def) blast
qed

lemma numbers_ordered: "weak_order {v. number_ok v \<and> num_value v \<noteq> None} exact_less"
proof -
  have "exact_less l r \<longleftrightarrow> the (num_value l) < the (num_value r)"
    if "number_ok l \<and> num_value l \<noteq> None" "number_ok r \<and> num_value r \<noteq> None" for l r
    using that number_not_string(1) [of l] by (auto simp: exact_less_def)
  then show ?thesis unfolding weak_order_def by auto
qed

definition sortable :: "tvalue set \<Rightarrow> bool" where
  "sortable V \<longleftrightarrow> V \<subseteq> {v. number_ok v \<and> num_value v \<noteq> None} \<or> V \<subseteq> {v. string_of v \<noteq> None}"

lemma weak_order_subset: "weak_order V prec \<Longrightarrow> U \<subseteq> V \<Longrightarrow> weak_order U prec"
  unfolding weak_order_def by blast

lemma default_order:
  assumes "sortable V"
  shows "ordered_by (luaV_lessthan strcmp tm err) exact_less V"
proof -
  have "weak_order V exact_less"
    using assms weak_order_subset [OF strings_ordered] weak_order_subset [OF numbers_ordered] by (auto simp: sortable_def)
  moreover have "comparable a b" if "a \<in> V" "b \<in> V" for a b
    using assms that by (auto simp: sortable_def comparable_def)
  ultimately show ?thesis by (auto simp: ordered_by_def lessthan_exact)
qed

text \<open>
  C25. A table whose first slots hold only numbers, integers and floats mixed but none not a number, or only strings, is
  sorted by \<open>table.sort\<close> without an order function: by exact value, or by bytes, without an error.
\<close>

theorem plain_sort:
  assumes "table_ok seed t" "0 \<le> n" "n \<le> 1073741823" "card (live t \<union> slots_of {1..n}) < 1073741824"
    and "sortable (slot t ` {1..n})"
  shows "\<exists>t'. lua_sort (raw_tab seed) (luaV_lessthan strcmp tm err) n t = Inr t' \<and> table_ok seed t' \<and>
    only_changes {1..n} t t' \<and> permuted (slot t) (slot t') 1 n \<and> sorted_range exact_less (slot t') 1 n"
  using assms(1-4) default_order [OF assms(5)] by (rule sort_ok)

lemma plain_sort_witness:
  "\<exists>t'. lua_sort (raw_tab 7) (luaV_lessthan strcmp (\<lambda>_ _ _. Inr None) (\<lambda>_ _. Fault OutOfFuel)) 3 three = Inr t' \<and>
    table_ok 7 t' \<and> only_changes {1..3} three t' \<and> permuted (slot three) (slot t') 1 3 \<and> sorted_range exact_less (slot t') 1 3"
  by (rule plain_sort)
    (simp_all add: three_ok three_slots sortable_def number_ok_def in_s64_def num_value_def)

end
