(* ===== verification/LuaVmLoop.thy ===== *)
theory LuaVmLoop
  imports LuaVmCompare
begin

text \<open>
  Numeric loops of the virtual machine whose start and step are integers. The limit may be a float: it is rounded towards the
  start, and clipped to the range. A loop whose limit plus step leaves the range never ends.
\<close>

section \<open>The limit\<close>

lemma le_quotient:
  assumes "0 < (b :: int)"
  shows "x * b \<le> a \<longleftrightarrow> x \<le> a div b"
proof
  assume "x * b \<le> a"
  then have "x * b div b \<le> a div b" using assms by (intro zdiv_mono1)
  then show "x \<le> a div b" using assms by simp
next
  assume "x \<le> a div b"
  then have "x * b \<le> a div b * b" using assms by (intro mult_right_mono) auto
  also have "\<dots> \<le> a" using pos_mod_sign [OF assms, of a] div_mult_mod_eq [of a b] by linarith
  finally show "x * b \<le> a" .
qed

lemmas times_unit = le_quotient [OF unit_pos]

lemma unit_times: "L \<le> x * unit \<longleftrightarrow> (if L mod unit = 0 then L div unit else L div unit + 1) \<le> x"
proof -
  have "L = L div unit * unit + L mod unit" by simp
  moreover have "0 \<le> L mod unit" "L mod unit < unit" using unit_pos by simp_all
  moreover have "L < x * unit \<longleftrightarrow> L div unit < x" using times_unit [of x L] times_unit [of "L div unit" L] times_unit [of x "L"]
    by (metis linorder_not_le pos_imp_zdiv_neg_iff unit_pos mult.commute zdiv_mono1 nonzero_mult_div_cancel_right order_less_irrefl div_less_iff_less_mult)
  ultimately show ?thesis using unit_pos by (cases "L mod unit = 0") (auto simp: order_le_less mult.commute)
qed

text \<open>Whether a value is within the limit of a loop in its direction.\<close>

definition within_limit :: "int \<Rightarrow> int \<Rightarrow> int \<Rightarrow> bool" where
  "within_limit step p x \<longleftrightarrow> (if 0 < step then x \<le> p else p \<le> x)"

definition stopped :: "int \<Rightarrow> int \<Rightarrow> bool" where
  "stopped step p \<longleftrightarrow> p = (if 0 < step then - 9223372036854775808 else 9223372036854775807)"

lemma scaled_zero: "scaled 0 = 0" "\<not> is_nan 0"
  by (simp_all add: scaled_def is_nan_def)

lemma flt_limit:
  assumes w: "\<not> is_nan w" and s: "step \<noteq> 0"
  shows "\<exists>p stop. forlimit str2num (TFlt w) step = Some (p, stop) \<and> in_s64 p \<and>
    (if stop then stopped step p \<and> (\<forall>x. in_s64 x \<longrightarrow> \<not> within_limit step (scaled w) (x * unit))
     else \<forall>x. in_s64 x \<longrightarrow> (within_limit step (scaled w) (x * unit) \<longleftrightarrow> within_limit step p x))"
proof -
  let ?L = "scaled w" and ?m = "if step < 0 then 2 else 1 :: nat"
  define f where "f = (if ?L mod unit \<noteq> 0 \<and> ?m > 1 then ?L div unit + 1 else ?L div unit)"
  have lim: "within_limit step ?L (x * unit) \<longleftrightarrow> within_limit step f x" for x
    using s times_unit [of x ?L] unit_times [of ?L x] by (auto simp: within_limit_def f_def)
  have c: "flt_tointeger w ?m = (if in_s64 f then Some f else None)"
    using w by (simp add: flt_tointeger_def Let_def f_def)
  show ?thesis
  proof (cases "in_s64 f")
    case True
    then show ?thesis using c lim by (intro exI [of _ f] exI [of _ False]) (simp add: forlimit_def luaV_tointeger_def)
  next
    case False
    have L: "0 < ?L \<longleftrightarrow> 0 < f"
    proof (cases "0 < f")
      case True
      then have "1 \<le> ?L div unit" using False by (auto simp: f_def in_s64_def split: if_splits)
      then have "1 * unit \<le> ?L" unfolding times_unit .
      then show ?thesis using True unit_pos by simp
    next
      case neg: False
      then have "?L div unit < 0" using False by (auto simp: f_def in_s64_def split: if_splits)
      then have "?L < 0" using pos_imp_zdiv_neg_iff [OF unit_pos] by blast
      then show ?thesis using neg by simp
    qed
    have n: "luai_numlt 0 w \<longleftrightarrow> 0 < ?L" using w scaled_zero by (simp add: luai_numlt_def)
    have e: "forlimit str2num (TFlt w) step =
        (if 0 < f then Some (9223372036854775807, step < 0) else Some (- 9223372036854775808, step \<ge> 0))"
      using c False n L by (simp add: forlimit_def luaV_tointeger_def luaV_tonumber_def)
    show ?thesis
      using False s unfolding e lim by (auto simp: within_limit_def stopped_def in_s64_def)
  qed
qed

lemma forlimit_ok:
  assumes "number_ok lim" "num_value lim = Some L" "step \<noteq> 0"
  shows "\<exists>p stop. forlimit str2num lim step = Some (p, stop) \<and> in_s64 p \<and>
    (if stop then stopped step p \<and> (\<forall>x. in_s64 x \<longrightarrow> \<not> within_limit step L (x * unit))
     else \<forall>x. in_s64 x \<longrightarrow> (within_limit step L (x * unit) \<longleftrightarrow> within_limit step p x))"
proof (cases lim)
  case (TInt p)
  then have "L = p * unit" "in_s64 p" using assms(1,2) by (simp_all add: num_value_def number_ok_def)
  then show ?thesis using TInt unit_pos
    by (intro exI [of _ p] exI [of _ False]) (simp add: forlimit_def luaV_tointeger_def within_limit_def)
next
  case (TFlt w)
  then have w: "\<not> is_nan w" "L = scaled w" using assms(2) by (auto simp: num_value_def split: if_splits)
  from flt_limit [OF w(1) assms(3), of str2num] show ?thesis unfolding TFlt w(2) .
qed (use assms in \<open>simp_all add: number_ok_def\<close>)

section \<open>The rounds\<close>

lemma loop_run:
  assumes "fl_step fl = s" "fl_limit fl = p" "s64 (fl_index fl + s) = x"
    and "\<forall>k<n. within_limit s p (x + int k * s) \<and> in_s64 (x + int (Suc k) * s)" "\<not> within_limit s p (x + int n * s)"
  shows "loop_values (Suc n) fl = (map (\<lambda>k. x + int k * s) [0..<n], True)"
  using assms
proof (induction n arbitrary: fl x)
  case 0
  then have "forloop fl = None" by (auto simp: forloop_def within_limit_def Let_def)
  then show ?case by simp
next
  case (Suc n)
  have "within_limit s p (x + int 0 * s) \<and> in_s64 (x + int (Suc 0) * s)" using Suc(5) by blast
  then have w: "within_limit s p x" and x: "in_s64 (x + s)" by simp_all
  have f: "forloop fl = Some (x, fl\<lparr>fl_index := x\<rparr>)" using w Suc(2-4) by (simp add: forloop_def within_limit_def Let_def)
  have "within_limit s p (x + s + int k * s) \<and> in_s64 (x + s + int (Suc k) * s)" if "k < n" for k
    using Suc(5) that by (auto simp: algebra_simps dest!: spec [of _ "Suc k"])
  moreover have "\<not> within_limit s p (x + s + int n * s)" using Suc(6) by (simp add: algebra_simps)
  ultimately have "loop_values (Suc n) (fl\<lparr>fl_index := x\<rparr>) = (map (\<lambda>k. x + s + int k * s) [0..<n], True)"
    using Suc(2,3) x by (intro Suc(1)) (simp_all add: s64_id)
  then have "loop_values (Suc (Suc n)) fl = (x # map (\<lambda>k. x + s + int k * s) [0..<n], True)"
    using f by (simp only: loop_values.simps(2) [of "Suc n"] option.case prod.case Let_def)
  moreover have "x # map (\<lambda>k. x + s + int k * s) [0..<n] = map (\<lambda>k. x + int k * s) [0..<Suc n]"
    by (simp add: map_upt_Suc algebra_simps del: upt_Suc)
  ultimately show ?case by (simp only:)
qed

text \<open>The number of rounds.\<close>

lemma round_count:
  assumes "s \<noteq> 0"
  shows "\<exists>n. \<forall>k. k < n \<longleftrightarrow> within_limit s p (x + int k * s)"
proof (cases "within_limit s p x")
  case False
  have "\<not> within_limit s p (x + int k * s)" for k
  proof (cases "0 < s")
    case True
    then have "0 \<le> int k * s" by simp
    moreover have "p < x" using False True by (simp add: within_limit_def)
    ultimately have "p < x + int k * s" by linarith
    then show ?thesis using True by (simp add: within_limit_def)
  next
    case neg: False
    then have "int k * s \<le> 0" by (simp add: mult_nonneg_nonpos)
    then show ?thesis using False neg by (simp add: within_limit_def)
  qed
  then show ?thesis by blast
next
  case True
  let ?n = "nat (\<bar>p - x\<bar> div \<bar>s\<bar>) + 1"
  have q: "k < ?n \<longleftrightarrow> int k * \<bar>s\<bar> \<le> \<bar>p - x\<bar>" for k
  proof -
    have "k < ?n \<longleftrightarrow> int k \<le> \<bar>p - x\<bar> div \<bar>s\<bar>" using assms by (simp add: less_Suc_eq_le nat_le_iff le_nat_iff pos_imp_zdiv_nonneg_iff)
    also have "\<dots> \<longleftrightarrow> int k * \<bar>s\<bar> \<le> \<bar>p - x\<bar>"
      using assms by (intro le_quotient [symmetric]) simp
    finally show ?thesis .
  qed
  have "k < ?n \<longleftrightarrow> within_limit s p (x + int k * s)" for k
    unfolding q using True assms by (cases "0 < s") (auto simp: within_limit_def abs_if)
  then show ?thesis by blast
qed

lemma within_mono: "within_limit s L (y * unit) \<Longrightarrow> (if 0 < s then x \<le> y else y \<le> x) \<Longrightarrow> within_limit s L (x * unit)"
proof -
  assume a: "within_limit s L (y * unit)" "if 0 < s then x \<le> y else y \<le> x"
  have u: "0 \<le> unit" using unit_pos by simp
  show ?thesis
  proof (cases "0 < s")
    case True
    then show ?thesis using a mult_right_mono [OF _ u, of x y] by (auto simp: within_limit_def intro: order_trans)
  next
    case False
    then show ?thesis using a mult_right_mono [OF _ u, of y x] by (auto simp: within_limit_def intro: order_trans)
  qed
qed

lemma further: "a \<le> b \<Longrightarrow> if 0 < s then i + int a * s \<le> i + int b * s else i + int b * s \<le> i + int a * s"
proof -
  assume "a \<le> b"
  then have "0 < s \<Longrightarrow> int a * s \<le> int b * s" "s \<le> 0 \<Longrightarrow> int b * s \<le> int a * s"
    by (auto intro: mult_right_mono mult_right_mono_neg)
  then show ?thesis by auto
qed

text \<open>
  C31. A numeric loop with an integer start and step runs exactly for the values from the start by steps that do not pass the
  limit, a float limit compared exactly, and ends, unless the limit plus the step leaves the range of integers.
\<close>

theorem for_loop_values:
  assumes "in_s64 i" "in_s64 s" "s \<noteq> 0" "number_ok lim" "num_value lim = Some L"
    and "forprep str2num (TInt i) lim (TInt s) = Some fl" "in_s64 (fl_limit fl + s)"
  shows "\<exists>n. loop_values (Suc n) fl = (map (\<lambda>k. i + int k * s) [0..<n], True) \<and>
    (\<forall>k. k < n \<longleftrightarrow> within_limit s L ((i + int k * s) * unit))"
proof -
  from forlimit_ok [OF assms(4,5,3), of str2num] obtain p stop where
    p: "forlimit str2num lim s = Some (p, stop)" "in_s64 p"
      "if stop then stopped s p \<and> (\<forall>x. in_s64 x \<longrightarrow> \<not> within_limit s L (x * unit))
       else \<forall>x. in_s64 x \<longrightarrow> (within_limit s L (x * unit) \<longleftrightarrow> within_limit s p x)" by blast
  have fl: "fl_index fl = s64 ((if stop then 0 else i) - s)" "fl_limit fl = p" "fl_step fl = s"
    using assms(6) p(1) by (auto simp: forprep_def Let_def)
  have first: "s64 (fl_index fl + s) = (if stop then 0 else i)"
  proof -
    have "s64 (s64 (x - s) + s) = s64 x" for x by (rule s64_cong) (metis s64_mod mod_add_left_eq diff_add_cancel)
    then show ?thesis using fl(1) assms(1) by (simp add: s64_id in_s64_def)
  qed
  show ?thesis
  proof (cases stop)
    case True
    then have "\<not> within_limit s p 0" using p(3) by (simp add: stopped_def within_limit_def)
    then have "loop_values (Suc 0) fl = (map (\<lambda>k. 0 + int k * s) [0..<0], True)"
      using fl first True by (intro loop_run) simp_all
    moreover have "\<not> within_limit s L ((i + int k * s) * unit)" for k
    proof -
      have "if 0 < s then i \<le> i + int k * s else i + int k * s \<le> i" using further [of 0 k s i] by (auto split: if_splits)
      then show ?thesis using p(3) True assms(1) within_mono [of s L "i + int k * s" i] by auto
    qed
    ultimately show ?thesis by (intro exI [of _ 0]) simp
  next
    case False
    then have pl: "in_s64 x \<Longrightarrow> within_limit s L (x * unit) \<longleftrightarrow> within_limit s p x" for x using p(3) by simp
    from round_count [OF assms(3), of p i] obtain n where n: "\<And>k. k < n \<longleftrightarrow> within_limit s p (i + int k * s)" by blast
    have range: "in_s64 (i + int (Suc k) * s)" if "k < n" for k
    proof -
      have e: "i + int (Suc k) * s = i + int k * s + s" by (simp add: algebra_simps)
      have w: "within_limit s p (i + int k * s)" using n that by blast
      show ?thesis
      proof (cases "0 < s")
        case True
        then have "0 \<le> int k * s" "i + int k * s \<le> p" using w by (simp_all add: within_limit_def)
        then show ?thesis using assms(1,7) True unfolding e fl(2) in_s64_def by linarith
      next
        case False
        then have "int k * s \<le> 0" "p \<le> i + int k * s" "s < 0" using w assms(3) by (simp_all add: within_limit_def mult_nonneg_nonpos)
        then show ?thesis using assms(1,7) unfolding e fl(2) in_s64_def by linarith
      qed
    qed
    have "loop_values (Suc n) fl = (map (\<lambda>k. i + int k * s) [0..<n], True)"
      using fl first False n range by (intro loop_run) auto
    moreover have "k < n \<longleftrightarrow> within_limit s L ((i + int k * s) * unit)" for k
    proof (cases "k < n")
      case True
      then have "in_s64 (i + int k * s)" using range [of "k - 1"] assms(1) by (cases k) auto
      then show ?thesis using n [of k] pl by simp
    next
      case le: False
      have "in_s64 (i + int n * s)" using range [of "n - 1"] assms(1) by (cases n) auto
      then have "\<not> within_limit s L ((i + int n * s) * unit)" using n [of n] pl by simp
      then show ?thesis using le within_mono [of s L "i + int k * s" "i + int n * s"] further [of n k s i] by auto
    qed
    ultimately show ?thesis by blast
  qed
qed

lemma for_loop_values_witness:
  "\<exists>n. loop_values (Suc n) \<lparr>fl_index = 8, fl_limit = 25, fl_step = 2\<rparr> = (map (\<lambda>k. 10 + int k * 2) [0..<n], True) \<and>
    (\<forall>k. k < n \<longleftrightarrow> within_limit 2 (25 * unit) ((10 + int k * 2) * unit))"
  by (rule for_loop_values [where lim = "TInt 25" and str2num = "\<lambda>_. None"])
    (simp_all add: in_s64_def number_ok_def num_value_def forprep_def forlimit_def luaV_tointeger_def s64_def)

text \<open>Otherwise the index wraps around: a loop up to the largest integer never ends.\<close>

lemma loop_wraps_forever:
  assumes "fl_step fl = 1" "fl_limit fl = 9223372036854775807"
  shows "\<not> snd (loop_values n fl)"
  using assms
proof (induction n arbitrary: fl)
  case (Suc n)
  have "s64 x \<le> 9223372036854775807" for x using s64_range [of x] by (simp add: in_s64_def del: s64_range)
  then have "forloop fl = Some (s64 (fl_index fl + 1), fl\<lparr>fl_index := s64 (fl_index fl + 1)\<rparr>)"
    using Suc(2,3) by (simp add: forloop_def Let_def)
  then show ?case using Suc(1) [of "fl\<lparr>fl_index := s64 (fl_index fl + 1)\<rparr>"] Suc(2,3)
    by (cases "loop_values n (fl\<lparr>fl_index := s64 (fl_index fl + 1)\<rparr>)") (simp add: Let_def)
qed simp

end
