(* ===== verification/LuaString.thy ===== *)
theory LuaString
  imports LuaTable
begin

text \<open>
  The string table of the embedded Lua (\<open>src/src/logic/scriptengine/lua/lstring.c\<close>), and what the garbage collector
  (\<open>lgc.c\<close>) does to strings: short strings are interned in a chained hash table, \<open>luaS_new\<close> looks in a small cache keyed
  by the address of its argument first, and the collector takes dead strings out of the table.

  String objects are held in a store by address. A chain of the table, linked in the code by \<open>u.hnext\<close>, is the list of the
  addresses in it; the list \<open>allgc\<close>, linked by \<open>next\<close>, is split at \<open>sweepgc\<close> into the objects in front of it, which
  includes all new ones, and those still to be swept. Reading an object that has been freed is \<open>UseAfterFree\<close>. The address
  of a new object is an argument: it is what the allocator, which is taken to succeed, returns.
\<close>

section \<open>State\<close>

record TString =
  ts_long :: bool
  ts_marked :: "8 word"
  ts_extra :: nat
  ts_hash :: "32 word"
  ts_bytes :: "byte list"

record gstate =
  strt_hash :: "nat list list"
  strt_nuse :: int
  strt_size :: nat
  g_seed :: "32 word"
  g_currentwhite :: "8 word"
  g_heap :: "nat \<rightharpoonup> TString"
  g_allgc :: "nat list"
  g_sweepgc :: "nat list"
  g_fixedgc :: "nat list"
  g_strcache :: "nat list"
  g_memerrmsg :: nat

definition LUAI_MAXSHORTLEN :: nat where "LUAI_MAXSHORTLEN = 40"
definition MINSTRTABSIZE :: nat where "MINSTRTABSIZE = 128"
definition STRCACHE_SIZE :: nat where "STRCACHE_SIZE = 127"
definition MAX_SIZE :: nat where "MAX_SIZE = 9223372036854775807"
definition sizeof_TString :: nat where "sizeof_TString = 24"

definition deref :: "gstate \<Rightarrow> nat \<Rightarrow> lua_error + TString" where
  "deref g p = (case g_heap g p of None \<Rightarrow> Inl (Fault UseAfterFree) | Some ts \<Rightarrow> Inr ts)"

definition set_string :: "nat \<Rightarrow> TString \<Rightarrow> gstate \<Rightarrow> gstate" where
  "set_string p ts g = g\<lparr>g_heap := (g_heap g)(p \<mapsto> ts)\<rparr>"

section \<open>Colours\<close>

definition WHITEBITS :: "8 word" where "WHITEBITS = 3"
definition BLACKBIT :: "8 word" where "BLACKBIT = 4"

definition iswhite :: "TString \<Rightarrow> bool" where
  "iswhite ts \<longleftrightarrow> ts_marked ts AND WHITEBITS \<noteq> 0"

definition otherwhite :: "gstate \<Rightarrow> 8 word" where
  "otherwhite g = g_currentwhite g XOR WHITEBITS"

definition isdeadm :: "8 word \<Rightarrow> 8 word \<Rightarrow> bool" where
  "isdeadm ow m \<longleftrightarrow> (m XOR WHITEBITS) AND ow = 0"

definition isdead :: "gstate \<Rightarrow> TString \<Rightarrow> bool" where
  "isdead g ts \<longleftrightarrow> isdeadm (otherwhite g) (ts_marked ts)"

definition changewhite :: "TString \<Rightarrow> TString" where
  "changewhite ts = ts\<lparr>ts_marked := ts_marked ts XOR WHITEBITS\<rparr>"

definition luaC_white :: "gstate \<Rightarrow> 8 word" where
  "luaC_white g = g_currentwhite g AND WHITEBITS"

definition white2gray :: "TString \<Rightarrow> TString" where
  "white2gray ts = ts\<lparr>ts_marked := ts_marked ts AND NOT WHITEBITS\<rparr>"

definition gray2black :: "TString \<Rightarrow> TString" where
  "gray2black ts = ts\<lparr>ts_marked := ts_marked ts OR BLACKBIT\<rparr>"

definition maskcolors :: "8 word" where
  "maskcolors = NOT (BLACKBIT OR WHITEBITS)"

section \<open>The string table\<close>

definition luaS_eqlngstr :: "gstate \<Rightarrow> nat \<Rightarrow> nat \<Rightarrow> lua_error + bool" where
  "luaS_eqlngstr g a b =
     res_bind (deref g a) (\<lambda>x. res_bind (deref g b) (\<lambda>y.
       Inr (a = b \<or> length (ts_bytes x) = length (ts_bytes y) \<and> ts_bytes x = ts_bytes y)))"

definition hash_index :: "32 word \<Rightarrow> nat \<Rightarrow> nat" where
  "hash_index h sz = lmod (uint h) sz"

text \<open>\<open>luaS_resize\<close>: the chains are taken apart one by one, in place, and every element goes to the front of its new chain.\<close>

fun rechain :: "gstate \<Rightarrow> nat \<Rightarrow> nat list \<Rightarrow> nat list list \<Rightarrow> lua_error + nat list list" where
  "rechain g newsize [] hs = Inr hs"
| "rechain g newsize (p # ps) hs =
     res_bind (deref g p) (\<lambda>ts.
       let h = hash_index (ts_hash ts) newsize in
       if length hs \<le> h then Inl (Fault OutOfBounds) else rechain g newsize ps (hs[h := p # hs ! h]))"

fun rehash_chains :: "gstate \<Rightarrow> nat \<Rightarrow> nat list \<Rightarrow> nat list list \<Rightarrow> lua_error + nat list list" where
  "rehash_chains g newsize [] hs = Inr hs"
| "rehash_chains g newsize (i # is) hs =
     res_bind (rechain g newsize (hs ! i) (hs[i := []])) (rehash_chains g newsize is)"

definition luaS_resize :: "nat \<Rightarrow> gstate \<Rightarrow> lua_error + gstate" where
  "luaS_resize newsize g =
     (let sz = strt_size g;
          hs = (if sz < newsize then strt_hash g @ replicate (newsize - sz) [] else strt_hash g) in
      res_bind (rehash_chains g newsize [0..<sz] hs) (\<lambda>hs.
        if newsize < sz \<and> \<not> (hs ! newsize = [] \<and> hs ! (sz - 1) = []) then Inl (Fault (AssertFail ''vanishing slice''))
        else Inr (g\<lparr>strt_hash := take newsize hs, strt_size := newsize\<rparr>)))"

definition luaS_clearcache :: "gstate \<Rightarrow> lua_error + gstate" where
  "luaS_clearcache g =
     fold (\<lambda>i r. res_bind r (\<lambda>g. res_bind (deref g (g_strcache g ! i)) (\<lambda>ts.
         Inr (if iswhite ts then g\<lparr>g_strcache := (g_strcache g)[i := g_memerrmsg g]\<rparr> else g))))
       [0..<STRCACHE_SIZE] (Inr g)"

text \<open>\<open>luaC_newobj\<close>, and \<open>createstrobj\<close>.\<close>

definition luaC_newobj :: "nat \<Rightarrow> TString \<Rightarrow> gstate \<Rightarrow> gstate" where
  "luaC_newobj a ob g = g\<lparr>g_heap := (g_heap g)(a \<mapsto> ob\<lparr>ts_marked := luaC_white g\<rparr>), g_allgc := a # g_allgc g\<rparr>"

definition createstrobj :: "nat \<Rightarrow> byte list \<Rightarrow> bool \<Rightarrow> 32 word \<Rightarrow> gstate \<Rightarrow> gstate" where
  "createstrobj a str long h g =
     luaC_newobj a \<lparr>ts_long = long, ts_marked = 0, ts_extra = 0, ts_hash = h, ts_bytes = str\<rparr> g"

text \<open>\<open>luaS_remove\<close>: the loop for the previous element runs off the end of the chain when the string is not in it.\<close>

fun unchain :: "nat \<Rightarrow> nat list \<Rightarrow> lua_error + nat list" where
  "unchain t [] = Inl (Fault NullDeref)"
| "unchain t (p # ps) = (if p = t then Inr ps else res_bind (unchain t ps) (\<lambda>ps. Inr (p # ps)))"

definition luaS_remove :: "nat \<Rightarrow> gstate \<Rightarrow> lua_error + gstate" where
  "luaS_remove t g =
     res_bind (deref g t) (\<lambda>ts.
       let h = hash_index (ts_hash ts) (strt_size g) in
       if length (strt_hash g) \<le> h then Inl (Fault OutOfBounds)
       else res_bind (unchain t (strt_hash g ! h)) (\<lambda>ps.
         Inr (g\<lparr>strt_hash := (strt_hash g)[h := ps], strt_nuse := strt_nuse g - 1\<rparr>)))"

fun find_short :: "gstate \<Rightarrow> byte list \<Rightarrow> nat list \<Rightarrow> lua_error + (nat \<times> TString) option" where
  "find_short g str [] = Inr None"
| "find_short g str (p # ps) =
     res_bind (deref g p) (\<lambda>ts.
       if length str = length (ts_bytes ts) \<and> str = ts_bytes ts then Inr (Some (p, ts)) else find_short g str ps)"

definition internshrstr :: "nat \<Rightarrow> byte list \<Rightarrow> gstate \<Rightarrow> lua_error + nat \<times> gstate" where
  "internshrstr a str g =
     (let h = luaS_hash str (g_seed g); i = hash_index h (strt_size g) in
      if length (strt_hash g) \<le> i then Inl (Fault OutOfBounds)
      else res_bind (find_short g str (strt_hash g ! i)) (\<lambda>r.
        case r of
          Some (p, ts) \<Rightarrow> Inr (p, if isdead g ts then set_string p (changewhite ts) g else g)
        | None \<Rightarrow>
            res_bind (if int (strt_size g) \<le> strt_nuse g \<and> strt_size g \<le> 1073741823 then luaS_resize (strt_size g * 2) g
                      else Inr g) (\<lambda>g.
              let i = hash_index h (strt_size g); g = createstrobj a str False h g in
              if length (strt_hash g) \<le> i then Inl (Fault OutOfBounds)
              else Inr (a, g\<lparr>strt_hash := (strt_hash g)[i := a # strt_hash g ! i], strt_nuse := strt_nuse g + 1\<rparr>))))"

definition luaS_newlstr :: "nat \<Rightarrow> byte list \<Rightarrow> gstate \<Rightarrow> lua_error + nat \<times> gstate" where
  "luaS_newlstr a str g =
     (if length str \<le> LUAI_MAXSHORTLEN then internshrstr a str g
      else if MAX_SIZE - sizeof_TString < length str + 1 then
        Inl (LuaError ''memory allocation error: block too big'')
      else Inr (a, createstrobj a str True (g_seed g) g))"

text \<open>
  \<open>luaS_new\<close>: the argument is the address of a string in C and its bytes up to the zero. \<open>strcmp\<close> compares them with
  those of the cached object up to its first zero, which is the added one at its end if there is none before.
\<close>

definition cstring :: "byte list \<Rightarrow> byte list" where
  "cstring bs = takeWhile (\<lambda>b. b \<noteq> 0) bs"

definition luaS_new :: "nat \<Rightarrow> nat \<Rightarrow> byte list \<Rightarrow> gstate \<Rightarrow> lua_error + nat \<times> gstate" where
  "luaS_new a addr str g =
     (let i = nat (point2uint addr mod int STRCACHE_SIZE); p = g_strcache g ! i in
      res_bind (deref g p) (\<lambda>ts.
        if str = cstring (ts_bytes ts) then Inr (p, g)
        else res_bind (luaS_newlstr a str g) (\<lambda>(s, g). Inr (s, g\<lparr>g_strcache := (g_strcache g)[i := s]\<rparr>))))"

section \<open>Creation\<close>

definition luaC_fix :: "nat \<Rightarrow> gstate \<Rightarrow> lua_error + gstate" where
  "luaC_fix p g =
     (case g_allgc g of
        [] \<Rightarrow> Inl (Fault (AssertFail ''object must be 1st in allgc list''))
      | q # qs \<Rightarrow>
          if q \<noteq> p then Inl (Fault (AssertFail ''object must be 1st in allgc list''))
          else res_bind (deref g p) (\<lambda>ts.
            Inr (set_string p (white2gray ts) g\<lparr>g_allgc := qs, g_fixedgc := p # g_fixedgc g\<rparr>)))"

text \<open>What \<open>lua_newstate\<close> leaves before \<open>luaS_init\<close>; the seed depends on the time and on addresses.\<close>

definition new_gstate :: "32 word \<Rightarrow> gstate" where
  "new_gstate seed =
     \<lparr>strt_hash = [], strt_nuse = 0, strt_size = 0, g_seed = seed, g_currentwhite = 1, g_heap = Map.empty,
      g_allgc = [], g_sweepgc = [], g_fixedgc = [], g_strcache = replicate STRCACHE_SIZE 0, g_memerrmsg = 0\<rparr>"

definition MEMERRMSG :: "byte list" where
  "MEMERRMSG = map (\<lambda>c. of_nat (of_char c)) ''not enough memory''"

definition luaS_init :: "nat \<Rightarrow> gstate \<Rightarrow> lua_error + gstate" where
  "luaS_init a g =
     res_bind (luaS_resize MINSTRTABSIZE g) (\<lambda>g.
     res_bind (luaS_newlstr a MEMERRMSG g) (\<lambda>(m, g).
     res_bind (luaC_fix m (g\<lparr>g_memerrmsg := m\<rparr>)) (\<lambda>g.
       Inr (g\<lparr>g_strcache := replicate STRCACHE_SIZE (g_memerrmsg g)\<rparr>))))"

section \<open>Collection\<close>

text \<open>\<open>reallymarkobject\<close> on a string.\<close>

definition reallymarkobject :: "nat \<Rightarrow> gstate \<Rightarrow> lua_error + gstate" where
  "reallymarkobject p g = res_bind (deref g p) (\<lambda>ts. Inr (set_string p (gray2black (white2gray ts)) g))"

text \<open>The end of \<open>atomic\<close>.\<close>

definition finish_atomic :: "gstate \<Rightarrow> lua_error + gstate" where
  "finish_atomic g = res_bind (luaS_clearcache g) (\<lambda>g. Inr (g\<lparr>g_currentwhite := otherwhite g\<rparr>))"

definition freeobj :: "nat \<Rightarrow> gstate \<Rightarrow> lua_error + gstate" where
  "freeobj p g =
     res_bind (deref g p) (\<lambda>ts.
     res_bind (if ts_long ts then Inr g else luaS_remove p g) (\<lambda>g.
       Inr (g\<lparr>g_heap := (g_heap g)(p := None)\<rparr>)))"

text \<open>One round of the loop of \<open>sweeplist\<close> at \<open>sweepgc\<close>: a string that stays is passed.\<close>

definition sweep_one :: "nat \<Rightarrow> gstate \<Rightarrow> lua_error + bool \<times> gstate" where
  "sweep_one obj g =
     res_bind (deref g obj) (\<lambda>ts.
       if isdeadm (otherwhite g) (ts_marked ts) then res_bind (freeobj obj g) (\<lambda>g. Inr (False, g))
       else Inr (True, set_string obj (ts\<lparr>ts_marked := (ts_marked ts AND maskcolors) OR luaC_white g\<rparr>) g))"

definition sweep_next :: "gstate \<Rightarrow> lua_error + bool \<times> gstate" where
  "sweep_next g =
     (case g_sweepgc g of
        [] \<Rightarrow> Inr (True, g)
      | obj # rest \<Rightarrow>
          res_bind (sweep_one obj g) (\<lambda>(stays, g).
            Inr (stays, g\<lparr>g_sweepgc := rest, g_allgc := (if stays then g_allgc g @ [obj] else g_allgc g)\<rparr>)))"

fun sweeplist :: "nat \<Rightarrow> gstate \<Rightarrow> lua_error + gstate" where
  "sweeplist 0 g = Inr g"
| "sweeplist (Suc count) g = res_bind (sweep_next g) (\<lambda>(_, g). sweeplist count g)"

text \<open>\<open>sweeptolive\<close>, for which the number of objects is fuel, and \<open>entersweep\<close>: a new object is never put where it would be swept.\<close>

fun sweeptolive :: "nat \<Rightarrow> gstate \<Rightarrow> lua_error + gstate" where
  "sweeptolive 0 g = Inl (Fault OutOfFuel)"
| "sweeptolive (Suc f) g = res_bind (sweep_next g) (\<lambda>(stays, g). if stays then Inr g else sweeptolive f g)"

definition entersweep :: "gstate \<Rightarrow> lua_error + gstate" where
  "entersweep g = sweeptolive (Suc (length (g_allgc g))) (g\<lparr>g_allgc := [], g_sweepgc := g_allgc g\<rparr>)"

definition checkSizes :: "gstate \<Rightarrow> lua_error + gstate" where
  "checkSizes g = (if strt_nuse g < int (strt_size g div 4) then luaS_resize (strt_size g div 2) g else Inr g)"

text \<open>\<open>sweepwholelist\<close> and \<open>luaC_freeallobjects\<close> when a state is closed.\<close>

fun sweepwholelist :: "nat list \<Rightarrow> gstate \<Rightarrow> lua_error + nat list \<times> gstate" where
  "sweepwholelist [] g = Inr ([], g)"
| "sweepwholelist (p # ps) g =
     res_bind (sweep_one p g) (\<lambda>(stays, g).
     res_bind (sweepwholelist ps g) (\<lambda>(qs, g). Inr (if stays then p # qs else qs, g)))"

definition luaC_freeallobjects :: "gstate \<Rightarrow> lua_error + gstate" where
  "luaC_freeallobjects g =
     (let g = g\<lparr>g_currentwhite := WHITEBITS\<rparr> in
      res_bind (sweepwholelist (g_allgc g @ g_sweepgc g) g) (\<lambda>(ps, g).
      res_bind (sweepwholelist (g_fixedgc g) g) (\<lambda>(qs, g).
        if strt_nuse g \<noteq> 0 then Inl (Fault (AssertFail ''g->strt.nuse == 0''))
        else Inr (g\<lparr>g_allgc := ps, g_sweepgc := [], g_fixedgc := qs\<rparr>))))"

end
