(* ===== verification/LuaStringSpec.thy ===== *)
theory LuaStringSpec
  imports LuaString LuaTableSpec "HOL-Library.Multiset"
begin

text \<open>
  What the string table promises: its chains hold exactly the short strings of the store, each in the chain of its hash,
  no two with the same bytes; resizing keeps that, and a search finds a string when there is one.
\<close>

section \<open>The invariant of the table\<close>

text \<open>\<open>short g p h bs\<close>: at \<open>p\<close> there is a short string with this hash and these bytes.\<close>

definition short_at :: "gstate \<Rightarrow> nat \<Rightarrow> TString \<Rightarrow> bool" where
  "short_at g p ts \<longleftrightarrow> g_heap g p = Some ts \<and> \<not> ts_long ts"

definition chained :: "gstate \<Rightarrow> nat \<Rightarrow> nat list list \<Rightarrow> bool" where
  "chained g sz hs \<longleftrightarrow>
     (\<forall>i<length hs. \<forall>p\<in>set (hs ! i). \<exists>ts. short_at g p ts \<and> hash_index (ts_hash ts) sz = i)"

definition interned :: "gstate \<Rightarrow> bool" where
  "interned g \<longleftrightarrow>
     (\<forall>p ts. short_at g p ts \<longrightarrow> ts_hash ts = luaS_hash (ts_bytes ts) (g_seed g) \<and> length (ts_bytes ts) \<le> LUAI_MAXSHORTLEN) \<and>
     (\<forall>p ts q us. short_at g p ts \<longrightarrow> short_at g q us \<longrightarrow> ts_bytes ts = ts_bytes us \<longrightarrow> p = q)"

definition in_table :: "gstate \<Rightarrow> nat list list \<Rightarrow> bool" where
  "in_table g hs \<longleftrightarrow> distinct (concat hs) \<and> set (concat hs) = {p. \<exists>ts. short_at g p ts} \<and> strt_nuse g = int (length (concat hs))"

definition tab_ok :: "gstate \<Rightarrow> bool" where
  "tab_ok g \<longleftrightarrow>
     length (strt_hash g) = strt_size g \<and> (\<exists>k. strt_size g = 2 ^ k) \<and> chained g (strt_size g) (strt_hash g) \<and>
     in_table g (strt_hash g) \<and> interned g"

lemma hash_index_less: "hash_index h (2 ^ k) < 2 ^ k"
  by (simp add: hash_index_def lmod_less)

lemma deref_Some: "g_heap g p = Some ts \<Longrightarrow> deref g p = Inr ts"
  by (simp add: deref_def)

section \<open>Chains\<close>

lemma mset_concat_update:
  "i < length hs \<Longrightarrow> mset (concat (hs[i := xs])) + mset (hs ! i) = mset (concat hs) + mset xs"
proof (induction hs arbitrary: i)
  case (Cons h hs)
  then show ?case by (cases i) (auto simp: ac_simps)
qed simp

lemma mset_concat_push:
  "i < length hs \<Longrightarrow> mset (concat (hs[i := p # hs ! i])) = add_mset p (mset (concat hs))"
  using mset_concat_update [of i hs "p # hs ! i"] by simp

lemma rechain_spec:
  assumes "2 ^ m \<le> length hs" "\<forall>p\<in>set ps. \<exists>ts. short_at g p ts"
  shows "\<exists>hs'. rechain g (2 ^ m) ps hs = Inr hs' \<and> length hs' = length hs \<and>
    mset (concat hs') = mset ps + mset (concat hs) \<and>
    (\<forall>i<length hs. \<forall>p\<in>set (hs' ! i). p \<in> set (hs ! i) \<or> (\<exists>ts. short_at g p ts \<and> hash_index (ts_hash ts) (2 ^ m) = i))"
  using assms
proof (induction ps arbitrary: hs)
  case (Cons p ps)
  from Cons.prems obtain ts where ts: "short_at g p ts" by auto
  let ?h = "hash_index (ts_hash ts) (2 ^ m)"
  let ?hs = "hs[?h := p # hs ! ?h]"
  have h: "?h < length hs" using hash_index_less [of "ts_hash ts" m] Cons.prems(1) by simp
  have "2 ^ m \<le> length ?hs" "\<forall>p\<in>set ps. \<exists>ts. short_at g p ts" using Cons.prems by auto
  from Cons.IH [OF this] obtain hs' where hs': "rechain g (2 ^ m) ps ?hs = Inr hs'" "length hs' = length hs"
    "mset (concat hs') = mset ps + mset (concat ?hs)"
    "\<forall>i<length hs. \<forall>q\<in>set (hs' ! i). q \<in> set (?hs ! i) \<or> (\<exists>ts. short_at g q ts \<and> hash_index (ts_hash ts) (2 ^ m) = i)"
    by auto
  have "rechain g (2 ^ m) (p # ps) hs = Inr hs'"
    using ts h hs'(1) by (simp add: short_at_def deref_Some Let_def)
  moreover have "mset (concat hs') = mset (p # ps) + mset (concat hs)"
    using hs'(3) mset_concat_push [OF h, of p] by simp
  moreover have "q \<in> set (hs ! i) \<or> (\<exists>ts. short_at g q ts \<and> hash_index (ts_hash ts) (2 ^ m) = i)"
    if "i < length hs" "q \<in> set (hs' ! i)" for i q
    using hs'(4)[rule_format, OF that] ts h by (auto simp: nth_list_update split: if_splits)
  ultimately show ?case using hs'(2) by blast
qed simp

lemma rehash_spec:
  assumes "2 ^ m \<le> length hs" "\<forall>p\<in>set (concat hs). \<exists>ts. short_at g p ts" "set is \<subseteq> {..<length hs}"
    and "\<forall>i<length hs. i \<notin> set is \<longrightarrow> (\<forall>p\<in>set (hs ! i). \<exists>ts. short_at g p ts \<and> hash_index (ts_hash ts) (2 ^ m) = i)"
  shows "\<exists>hs'. rehash_chains g (2 ^ m) is hs = Inr hs' \<and> length hs' = length hs \<and>
    mset (concat hs') = mset (concat hs) \<and> chained g (2 ^ m) hs'"
  using assms
proof (induction "is" arbitrary: hs)
  case Nil
  then show ?case by (simp add: chained_def)
next
  case (Cons i "is")
  have i: "i < length hs" using Cons.prems(3) by simp
  have el: "\<forall>p\<in>set (hs ! i). \<exists>ts. short_at g p ts"
    using Cons.prems(2) i nth_mem by fastforce
  from rechain_spec [of m "hs[i := []]", OF _ el] Cons.prems(1) obtain h1 where
    h1: "rechain g (2 ^ m) (hs ! i) (hs[i := []]) = Inr h1" "length h1 = length hs"
      "mset (concat h1) = mset (hs ! i) + mset (concat (hs[i := []]))"
      "\<forall>j<length hs. \<forall>p\<in>set (h1 ! j). p \<in> set (hs[i := []] ! j) \<or>
         (\<exists>ts. short_at g p ts \<and> hash_index (ts_hash ts) (2 ^ m) = j)"
    by auto
  have m1: "mset (concat h1) = mset (concat hs)" using h1(3) mset_concat_update [OF i, of "[]"] by (simp add: ac_simps)
  have s1: "set (concat h1) = set (concat hs)" using m1 mset_eq_setD by blast
  have r1: "\<forall>j<length h1. j \<notin> set is \<longrightarrow> (\<forall>p\<in>set (h1 ! j). \<exists>ts. short_at g p ts \<and> hash_index (ts_hash ts) (2 ^ m) = j)"
  proof (intro allI impI ballI)
    fix j p assume j: "j < length h1" "j \<notin> set is" "p \<in> set (h1 ! j)"
    from h1(2,4) j consider "p \<in> set (hs[i := []] ! j)" | "\<exists>ts. short_at g p ts \<and> hash_index (ts_hash ts) (2 ^ m) = j" by auto
    then show "\<exists>ts. short_at g p ts \<and> hash_index (ts_hash ts) (2 ^ m) = j"
    proof cases
      case 1
      then have "j \<noteq> i" "p \<in> set (hs ! j)" using i by (auto simp: nth_list_update split: if_splits)
      then show ?thesis using Cons.prems(4) j(1,2) h1(2) by auto
    qed
  qed
  have "\<exists>hs'. rehash_chains g (2 ^ m) is h1 = Inr hs' \<and> length hs' = length h1 \<and>
    mset (concat hs') = mset (concat h1) \<and> chained g (2 ^ m) hs'"
    by (rule Cons.IH) (use Cons.prems h1(2) s1 r1 in auto)
  then show ?case using h1(1,2) m1 by auto
qed

section \<open>Resizing\<close>

lemma chained_beyond:
  assumes "chained g (2 ^ m) hs" "2 ^ m \<le> j" "j < length hs"
  shows "hs ! j = []"
proof (rule ccontr)
  assume "hs ! j \<noteq> []"
  then obtain p where "p \<in> set (hs ! j)" by (meson last_in_set)
  then obtain ts where "short_at g p ts" "hash_index (ts_hash ts) (2 ^ m) = j"
    using assms(1,3) unfolding chained_def by blast
  then show False using hash_index_less [of "ts_hash ts" m] assms(2) by simp
qed

lemma concat_take_beyond:
  assumes "\<And>j. n \<le> j \<Longrightarrow> j < length hs \<Longrightarrow> hs ! j = []"
  shows "concat (take n hs) = concat hs"
proof -
  have "concat (drop n hs) = []"
    using assms by (auto simp: in_set_conv_nth)
  then show ?thesis using concat_append [of "take n hs" "drop n hs"] by simp
qed

lemma resize_spec:
  assumes "length (strt_hash g) = strt_size g" "in_table g (strt_hash g)"
  shows "\<exists>hs'. luaS_resize (2 ^ m) g = Inr (g\<lparr>strt_hash := hs', strt_size := 2 ^ m\<rparr>) \<and> length hs' = 2 ^ m \<and>
    chained g (2 ^ m) hs' \<and> in_table g hs'"
proof -
  let ?sz = "strt_size g"
  define hs where "hs = (if ?sz < 2 ^ m then strt_hash g @ replicate (2 ^ m - ?sz) [] else strt_hash g)"
  have l: "2 ^ m \<le> length hs" "?sz \<le> length hs" "length hs = max ?sz (2 ^ m)" using assms(1) by (auto simp: hs_def)
  have c: "concat hs = concat (strt_hash g)" by (simp add: hs_def)
  have out: "\<forall>i<length hs. i \<notin> set [0..<?sz] \<longrightarrow> hs ! i = []" using assms(1) by (auto simp: hs_def nth_append)
  have "\<exists>hs'. rehash_chains g (2 ^ m) [0..<?sz] hs = Inr hs' \<and> length hs' = length hs \<and>
    mset (concat hs') = mset (concat hs) \<and> chained g (2 ^ m) hs'"
    by (rule rehash_spec) (use l(1,2) assms(2) out c in \<open>auto simp: in_table_def\<close>)
  then obtain hs' where hs': "rehash_chains g (2 ^ m) [0..<?sz] hs = Inr hs'" "length hs' = length hs"
    "mset (concat hs') = mset (concat hs)" "chained g (2 ^ m) hs'" by blast
  have empty: "hs' ! j = []" if "2 ^ m \<le> j" "j < length hs'" for j
    using chained_beyond [OF hs'(4) that] .
  have t: "concat (take (2 ^ m) hs') = concat hs'" using empty by (rule concat_take_beyond)
  have res: "luaS_resize (2 ^ m) g = Inr (g\<lparr>strt_hash := take (2 ^ m) hs', strt_size := 2 ^ m\<rparr>)"
    using hs'(1,2) l(3) empty [of "2 ^ m"] empty [of "?sz - 1"]
    by (auto simp: luaS_resize_def Let_def hs_def [symmetric])
  have "chained g (2 ^ m) (take (2 ^ m) hs')" using hs'(4) by (auto simp: chained_def)
  moreover have "in_table g (take (2 ^ m) hs')"
    using assms(2) hs'(3) c t mset_eq_setD [OF hs'(3)] mset_eq_length [OF hs'(3)] mset_eq_imp_distinct_iff [OF hs'(3)]
    by (simp add: in_table_def)
  ultimately show ?thesis using res hs'(2) l(1) by auto
qed

lemma tab_ok_cong:
  assumes "strt_hash g' = strt_hash g" "strt_size g' = strt_size g" "strt_nuse g' = strt_nuse g" "g_seed g' = g_seed g"
    and "\<And>p. map_option (\<lambda>ts. (ts_long ts, ts_hash ts, ts_bytes ts)) (g_heap g' p) =
      map_option (\<lambda>ts. (ts_long ts, ts_hash ts, ts_bytes ts)) (g_heap g p)"
  shows "tab_ok g \<Longrightarrow> tab_ok g'"
proof -
  have s: "\<exists>us. short_at g p us \<and> ts_hash us = ts_hash ts \<and> ts_bytes us = ts_bytes ts" if "short_at g' p ts" for p ts
    using assms(5) [of p] that by (cases "g_heap g p") (auto simp: short_at_def)
  have s': "\<exists>us. short_at g' p us \<and> ts_hash us = ts_hash ts \<and> ts_bytes us = ts_bytes ts" if "short_at g p ts" for p ts
    using assms(5) [of p] that by (cases "g_heap g' p") (auto simp: short_at_def)
  assume ok: "tab_ok g"
  have "{p. \<exists>ts. short_at g' p ts} = {p. \<exists>ts. short_at g p ts}" using s s' by blast
  then have 1: "in_table g' (strt_hash g')" using ok assms(1,3) by (simp add: tab_ok_def in_table_def)
  have "chained g (strt_size g) (strt_hash g)" using ok by (simp add: tab_ok_def)
  then have 2: "chained g' (strt_size g') (strt_hash g')"
    unfolding chained_def assms(1,2) using s' by metis
  have i: "interned g" using ok by (simp add: tab_ok_def)
  have 3: "interned g'"
    unfolding interned_def assms(4)
  proof (intro conjI allI impI)
    fix p ts assume "short_at g' p ts"
    from s [OF this] obtain us where us: "short_at g p us" "ts_hash us = ts_hash ts" "ts_bytes us = ts_bytes ts" by blast
    have "ts_hash us = luaS_hash (ts_bytes us) (g_seed g) \<and> length (ts_bytes us) \<le> LUAI_MAXSHORTLEN"
      using i us(1) by (simp add: interned_def)
    then show "ts_hash ts = luaS_hash (ts_bytes ts) (g_seed g)" "length (ts_bytes ts) \<le> LUAI_MAXSHORTLEN"
      using us(2,3) by simp_all
  next
    fix p ts q us assume "short_at g' p ts" "short_at g' q us" "ts_bytes ts = ts_bytes us"
    from s [OF this(1)] s [OF this(2)] this(3) obtain a b where "short_at g p a" "short_at g q b" "ts_bytes a = ts_bytes b"
      by auto
    then show "p = q" using i by (auto simp: interned_def)
  qed
  show "tab_ok g'" using ok 1 2 3 assms(1,2) by (simp add: tab_ok_def)
qed

lemma tab_ok_resize:
  assumes "tab_ok g"
  shows "\<exists>hs'. luaS_resize (2 ^ m) g = Inr (g\<lparr>strt_hash := hs', strt_size := 2 ^ m\<rparr>) \<and>
    tab_ok (g\<lparr>strt_hash := hs', strt_size := 2 ^ m\<rparr>)"
proof -
  from assms have "length (strt_hash g) = strt_size g" "in_table g (strt_hash g)" by (simp_all add: tab_ok_def)
  from resize_spec [OF this] obtain hs' where hs':
    "luaS_resize (2 ^ m) g = Inr (g\<lparr>strt_hash := hs', strt_size := 2 ^ m\<rparr>)" "length hs' = 2 ^ m"
    "chained g (2 ^ m) hs'" "in_table g hs'" by blast
  have "interned g" using assms by (simp add: tab_ok_def)
  with hs'(2-4) have "tab_ok (g\<lparr>strt_hash := hs', strt_size := 2 ^ m\<rparr>)"
    by (auto simp: tab_ok_def chained_def in_table_def interned_def short_at_def)
  with hs'(1) show ?thesis by blast
qed

section \<open>Searching, adding and removing\<close>

lemma find_short_spec:
  assumes "\<forall>p\<in>set ps. \<exists>ts. g_heap g p = Some ts"
  shows "(\<exists>p ts. find_short g str ps = Inr (Some (p, ts)) \<and> p \<in> set ps \<and> g_heap g p = Some ts \<and> ts_bytes ts = str) \<or>
    find_short g str ps = Inr None \<and> (\<forall>p\<in>set ps. \<forall>ts. g_heap g p = Some ts \<longrightarrow> ts_bytes ts \<noteq> str)"
  using assms
proof (induction ps)
  case (Cons p ps)
  then obtain ts where ts: "g_heap g p = Some ts" by auto
  show ?case
  proof (cases "ts_bytes ts = str")
    case True
    then have "find_short g str (p # ps) = Inr (Some (p, ts))" using ts by (simp add: deref_Some)
    then show ?thesis using ts True by auto
  next
    case False
    then have "find_short g str (p # ps) = find_short g str ps" using ts by (simp add: deref_Some eq_commute)
    then show ?thesis using Cons False ts by auto
  qed
qed simp

lemma in_concat: "p \<in> set (concat hs) \<Longrightarrow> \<exists>i<length hs. p \<in> set (hs ! i)"
  by (metis UN_E in_set_conv_nth set_concat)

lemma in_chain:
  assumes "tab_ok g" "short_at g p ts"
  shows "hash_index (ts_hash ts) (strt_size g) < strt_size g"
    "p \<in> set (strt_hash g ! hash_index (ts_hash ts) (strt_size g))"
proof -
  show "hash_index (ts_hash ts) (strt_size g) < strt_size g"
    using assms(1) hash_index_less by (auto simp: tab_ok_def)
  have "p \<in> set (concat (strt_hash g))" using assms by (auto simp: tab_ok_def in_table_def)
  from in_concat [OF this] obtain i where i: "i < length (strt_hash g)" "p \<in> set (strt_hash g ! i)" by blast
  then obtain us where "short_at g p us" "hash_index (ts_hash us) (strt_size g) = i"
    using assms(1) unfolding tab_ok_def chained_def by blast
  then show "p \<in> set (strt_hash g ! hash_index (ts_hash ts) (strt_size g))"
    using i(2) assms(2) by (simp add: short_at_def)
qed

lemma search_spec:
  assumes "tab_ok g" and i: "i = hash_index (luaS_hash str (g_seed g)) (strt_size g)"
  shows "i < length (strt_hash g)"
    "(\<exists>p ts. find_short g str (strt_hash g ! i) = Inr (Some (p, ts)) \<and> short_at g p ts \<and> ts_bytes ts = str) \<or>
     find_short g str (strt_hash g ! i) = Inr None \<and> (\<forall>p ts. short_at g p ts \<longrightarrow> ts_bytes ts \<noteq> str)"
proof -
  show l: "i < length (strt_hash g)" using assms hash_index_less by (auto simp: tab_ok_def)
  have el: "\<exists>ts. short_at g p ts" if "p \<in> set (strt_hash g ! i)" for p
    using assms(1) l that unfolding tab_ok_def chained_def by blast
  then have "\<forall>p\<in>set (strt_hash g ! i). \<exists>ts. g_heap g p = Some ts" by (auto simp: short_at_def)
  from find_short_spec [OF this, of str]
  show "(\<exists>p ts. find_short g str (strt_hash g ! i) = Inr (Some (p, ts)) \<and> short_at g p ts \<and> ts_bytes ts = str) \<or>
     find_short g str (strt_hash g ! i) = Inr None \<and> (\<forall>p ts. short_at g p ts \<longrightarrow> ts_bytes ts \<noteq> str)"
  proof (elim disjE exE conjE)
    fix p ts assume a: "find_short g str (strt_hash g ! i) = Inr (Some (p, ts))" "p \<in> set (strt_hash g ! i)"
      "g_heap g p = Some ts" "ts_bytes ts = str"
    with el have "short_at g p ts" by (fastforce simp: short_at_def)
    with a show ?thesis by blast
  next
    assume a: "find_short g str (strt_hash g ! i) = Inr None"
      "\<forall>p\<in>set (strt_hash g ! i). \<forall>ts. g_heap g p = Some ts \<longrightarrow> ts_bytes ts \<noteq> str"
    have "ts_bytes ts \<noteq> str" if s: "short_at g p ts" for p ts
    proof
      assume b: "ts_bytes ts = str"
      then have "ts_hash ts = luaS_hash str (g_seed g)" using assms(1) s by (auto simp: tab_ok_def interned_def)
      then have "p \<in> set (strt_hash g ! i)" using in_chain(2) [OF assms(1) s] i by simp
      then show False using a(2) s b by (simp add: short_at_def)
    qed
    with a(1) show ?thesis by blast
  qed
qed

lemma short_at_new:
  assumes "a \<notin> dom (g_heap g)"
  shows "short_at (createstrobj a str long h g) p ts \<longleftrightarrow>
    short_at g p ts \<or> p = a \<and> \<not> long \<and>
      ts = \<lparr>ts_long = long, ts_marked = luaC_white g, ts_extra = 0, ts_hash = h, ts_bytes = str\<rparr>"
  using assms by (auto simp: short_at_def createstrobj_def luaC_newobj_def)

lemma tab_ok_new_short:
  assumes ok: "tab_ok g" and a: "a \<notin> dom (g_heap g)" and len: "length str \<le> LUAI_MAXSHORTLEN"
    and fresh: "\<forall>p ts. short_at g p ts \<longrightarrow> ts_bytes ts \<noteq> str"
    and h: "h = luaS_hash str (g_seed g)" and i: "i = hash_index h (strt_size g)"
  shows "tab_ok ((createstrobj a str False h g)\<lparr>strt_hash := (strt_hash g)[i := a # strt_hash g ! i], strt_nuse := strt_nuse g + 1\<rparr>)"
    (is "tab_ok ?g")
proof -
  let ?hs = "(strt_hash g)[i := a # strt_hash g ! i]"
  have l: "i < length (strt_hash g)" using search_spec(1) [OF ok, of i str] i h by simp
  have s: "short_at ?g p ts \<longleftrightarrow> short_at g p ts \<or> p = a \<and>
      ts = \<lparr>ts_long = False, ts_marked = luaC_white g, ts_extra = 0, ts_hash = h, ts_bytes = str\<rparr>" for p ts
    using short_at_new [OF a, of str False h p ts] by (simp add: short_at_def)
  have m: "mset (concat ?hs) = mset (a # concat (strt_hash g))" using mset_concat_push [OF l, of a] by simp
  have na: "a \<notin> set (concat (strt_hash g))" using ok a by (auto simp: tab_ok_def in_table_def short_at_def)
  have "distinct (concat ?hs)"
    using mset_eq_imp_distinct_iff [OF m] na ok by (simp add: tab_ok_def in_table_def)
  moreover have "set (concat ?hs) = {p. \<exists>ts. short_at ?g p ts}"
  proof -
    have "set (concat (strt_hash g)) = {p. \<exists>ts. short_at g p ts}" using ok by (simp only: tab_ok_def in_table_def)
    then have "set (concat ?hs) = insert a {p. \<exists>ts. short_at g p ts}" using mset_eq_setD [OF m] by (simp only: list.set)
    also have "\<dots> = {p. \<exists>ts. short_at ?g p ts}" unfolding s by blast
    finally show ?thesis .
  qed
  moreover have "strt_nuse ?g = int (length (concat ?hs))"
    using mset_eq_length [OF m] ok by (simp add: tab_ok_def in_table_def)
  ultimately have 1: "in_table ?g ?hs" unfolding in_table_def by blast
  have sz: "strt_size ?g = strt_size g" by (simp add: createstrobj_def luaC_newobj_def)
  have "\<exists>ts. short_at ?g p ts \<and> hash_index (ts_hash ts) (strt_size g) = j"
    if j: "j < length ?hs" "p \<in> set (?hs ! j)" for j p
  proof (cases "p = a \<and> j = i")
    case True
    then show ?thesis using s i by auto
  next
    case False
    then have "p \<in> set (strt_hash g ! j)" by (cases "j = i") (use j l in auto)
    then have "\<exists>ts. short_at g p ts \<and> hash_index (ts_hash ts) (strt_size g) = j"
      using ok j(1) unfolding tab_ok_def chained_def by (metis length_list_update)
    then show ?thesis using s by auto
  qed
  then have 2: "chained ?g (strt_size g) ?hs" by (simp add: chained_def)
  have "interned g" using ok by (simp add: tab_ok_def)
  then have 3: "interned ?g"
    unfolding interned_def s using fresh len h by (auto simp: createstrobj_def luaC_newobj_def)
  show ?thesis using 1 2 3 sz ok by (simp add: tab_ok_def)
qed

lemma tab_ok_same_short:
  assumes "tab_ok g" "\<And>p ts. short_at g' p ts \<longleftrightarrow> short_at g p ts"
    and "strt_hash g' = strt_hash g" "strt_size g' = strt_size g" "strt_nuse g' = strt_nuse g" "g_seed g' = g_seed g"
  shows "tab_ok g'"
  using assms by (simp add: tab_ok_def chained_def in_table_def interned_def)

lemma tab_ok_new_long:
  assumes "tab_ok g" "a \<notin> dom (g_heap g)"
  shows "tab_ok (createstrobj a str True h g)"
  by (rule tab_ok_same_short [OF assms(1)])
    (simp_all only: short_at_new [OF assms(2)] simp_thms, simp_all add: createstrobj_def luaC_newobj_def)

lemma unchain_spec: "p \<in> set ps \<Longrightarrow> unchain p ps = Inr (remove1 p ps)"
  by (induction ps) auto

text \<open>Freeing a string: a short one leaves the table, and no fault comes up.\<close>

lemma freeobj_spec:
  assumes ok: "tab_ok g" and ts: "g_heap g p = Some ts"
  shows "\<exists>hs' n. freeobj p g = Inr (g\<lparr>strt_hash := hs', strt_nuse := n, g_heap := (g_heap g)(p := None)\<rparr>) \<and>
    tab_ok (g\<lparr>strt_hash := hs', strt_nuse := n, g_heap := (g_heap g)(p := None)\<rparr>)"
proof (cases "ts_long ts")
  case True
  let ?g = "g\<lparr>strt_hash := strt_hash g, strt_nuse := strt_nuse g, g_heap := (g_heap g)(p := None)\<rparr>"
  have "freeobj p g = Inr ?g" using True ts by (simp add: freeobj_def deref_Some)
  moreover have "tab_ok ?g"
    by (rule tab_ok_same_short [OF ok]) (use True ts in \<open>auto simp: short_at_def\<close>)
  ultimately show ?thesis by blast
next
  case False
  then have sh: "short_at g p ts" using ts by (simp add: short_at_def)
  define i where "i = hash_index (ts_hash ts) (strt_size g)"
  let ?hs = "(strt_hash g)[i := remove1 p (strt_hash g ! i)]"
  let ?g = "g\<lparr>strt_hash := ?hs, strt_nuse := strt_nuse g - 1, g_heap := (g_heap g)(p := None)\<rparr>"
  have l: "i < length (strt_hash g)" "p \<in> set (strt_hash g ! i)"
    using in_chain [OF ok sh] ok by (simp_all add: i_def tab_ok_def)
  have f: "freeobj p g = Inr ?g"
    using False ts l by (simp add: freeobj_def luaS_remove_def deref_Some i_def [symmetric] Let_def unchain_spec)
  have s: "short_at ?g q us \<longleftrightarrow> short_at g q us \<and> q \<noteq> p" for q us by (auto simp: short_at_def)
  have "mset (concat ?hs) + mset (strt_hash g ! i) = mset (concat (strt_hash g)) + (mset (strt_hash g ! i) - {#p#})"
    using mset_concat_update [OF l(1), of "remove1 p (strt_hash g ! i)"] by simp
  then have "mset (concat ?hs) + {#p#} = mset (concat (strt_hash g))"
    using l(2) by (metis add_mset_add_single add_left_cancel insert_DiffM set_mset_mset union_commute union_mset_add_mset_left
      union_mset_add_mset_right)
  then have m: "mset (p # concat ?hs) = mset (concat (strt_hash g))" by simp
  have d: "distinct (p # concat ?hs)"
    using mset_eq_imp_distinct_iff [OF m] ok by (simp only: tab_ok_def in_table_def)
  have st: "set (p # concat ?hs) = {q. \<exists>us. short_at g q us}"
    using mset_eq_setD [OF m] ok by (simp only: tab_ok_def in_table_def)
  have "set (concat ?hs) = {q. \<exists>us. short_at ?g q us}"
    unfolding s using d st by auto
  moreover have "strt_nuse ?g = int (length (concat ?hs))"
    using mset_eq_length [OF m] ok by (simp add: tab_ok_def in_table_def)
  ultimately have 1: "in_table ?g ?hs" using d unfolding in_table_def by simp
  have "\<exists>us. short_at ?g q us \<and> hash_index (ts_hash us) (strt_size g) = j"
    if j: "j < length ?hs" "q \<in> set (?hs ! j)" for j q
  proof -
    have "q \<in> set (concat ?hs)" using j nth_mem [OF j(1)] by (metis UN_I set_concat)
    then have "q \<noteq> p" using d by auto
    have "q \<in> set (strt_hash g ! j)"
      by (cases "j = i") (use j l in \<open>auto dest: set_remove1_subset [THEN subsetD]\<close>)
    then have "\<exists>us. short_at g q us \<and> hash_index (ts_hash us) (strt_size g) = j"
      using ok j(1) unfolding tab_ok_def chained_def by (metis length_list_update)
    then show ?thesis using s \<open>q \<noteq> p\<close> by auto
  qed
  then have 2: "chained ?g (strt_size g) ?hs" by (simp add: chained_def)
  have "interned g" using ok by (simp add: tab_ok_def)
  then have 3: "interned ?g" unfolding interned_def s by simp blast
  have "tab_ok ?g" using 1 2 3 ok by (simp add: tab_ok_def)
  then show ?thesis using f by blast
qed

section \<open>Interning\<close>

lemma internshrstr_spec:
  assumes ok: "tab_ok g" and a: "a \<notin> dom (g_heap g)" and len: "length str \<le> LUAI_MAXSHORTLEN"
  shows "(\<exists>p ts. short_at g p ts \<and> ts_bytes ts = str \<and>
      internshrstr a str g = Inr (p, if isdead g ts then set_string p (changewhite ts) g else g)) \<or>
    (\<forall>p ts. short_at g p ts \<longrightarrow> ts_bytes ts \<noteq> str) \<and>
    (\<exists>hs' sz' n'. internshrstr a str g =
        Inr (a, (createstrobj a str False (luaS_hash str (g_seed g)) g)\<lparr>strt_hash := hs', strt_size := sz', strt_nuse := n'\<rparr>) \<and>
      tab_ok ((createstrobj a str False (luaS_hash str (g_seed g)) g)\<lparr>strt_hash := hs', strt_size := sz', strt_nuse := n'\<rparr>))"
proof -
  let ?h = "luaS_hash str (g_seed g)"
  let ?i = "hash_index ?h (strt_size g)"
  have l: "?i < length (strt_hash g)" by (rule search_spec(1) [OF ok refl])
  from search_spec(2) [OF ok refl, of str] show ?thesis
  proof (elim disjE exE conjE)
    fix p ts assume f: "find_short g str (strt_hash g ! ?i) = Inr (Some (p, ts))" "short_at g p ts" "ts_bytes ts = str"
    then have "internshrstr a str g = Inr (p, if isdead g ts then set_string p (changewhite ts) g else g)"
      using l by (simp add: internshrstr_def Let_def)
    with f show ?thesis by blast
  next
    assume f: "find_short g str (strt_hash g ! ?i) = Inr None" and no: "\<forall>p ts. short_at g p ts \<longrightarrow> ts_bytes ts \<noteq> str"
    define r where "r = (if int (strt_size g) \<le> strt_nuse g \<and> strt_size g \<le> 1073741823
      then luaS_resize (strt_size g * 2) g else Inr g)"
    obtain k where k: "strt_size g = 2 ^ k" using ok by (auto simp: tab_ok_def)
    have "\<exists>hs1 sz1. r = Inr (g\<lparr>strt_hash := hs1, strt_size := sz1\<rparr>) \<and> tab_ok (g\<lparr>strt_hash := hs1, strt_size := sz1\<rparr>)"
    proof (cases "int (strt_size g) \<le> strt_nuse g \<and> strt_size g \<le> 1073741823")
      case True
      then have "r = luaS_resize (2 ^ Suc k) g" using k by (simp add: r_def mult.commute)
      with tab_ok_resize [OF ok, of "Suc k"] show ?thesis by auto
    next
      case False
      have "g = g\<lparr>strt_hash := strt_hash g, strt_size := strt_size g\<rparr>" by simp
      with False ok show ?thesis unfolding r_def by metis
    qed
    then obtain hs1 sz1 where r: "r = Inr (g\<lparr>strt_hash := hs1, strt_size := sz1\<rparr>)"
      and ok1: "tab_ok (g\<lparr>strt_hash := hs1, strt_size := sz1\<rparr>)" by blast
    let ?g1 = "g\<lparr>strt_hash := hs1, strt_size := sz1\<rparr>"
    let ?i1 = "hash_index ?h sz1"
    let ?g' = "(createstrobj a str False ?h g)\<lparr>strt_hash := hs1[?i1 := a # hs1 ! ?i1], strt_size := sz1, strt_nuse := strt_nuse g + 1\<rparr>"
    have l1: "?i1 < length hs1" using search_spec(1) [OF ok1 refl, of str] by simp
    have "tab_ok ((createstrobj a str False ?h ?g1)\<lparr>strt_hash := hs1[?i1 := a # hs1 ! ?i1], strt_nuse := strt_nuse g + 1\<rparr>)"
      using tab_ok_new_short [OF ok1 _ len _ _ refl, of a ?h] a no by (simp add: short_at_def)
    also have "(createstrobj a str False ?h ?g1)\<lparr>strt_hash := hs1[?i1 := a # hs1 ! ?i1], strt_nuse := strt_nuse g + 1\<rparr> = ?g'"
      by (simp add: createstrobj_def luaC_newobj_def luaC_white_def)
    finally have t: "tab_ok ?g'" .
    have "internshrstr a str g = Inr (a, ?g')"
      unfolding internshrstr_def r_def [symmetric] Let_def r using l l1 f
      by (simp add: createstrobj_def luaC_newobj_def luaC_white_def r)
    with t no show ?thesis by blast
  qed
qed

end
