(* ===== verification/LuaStringGc.thy ===== *)
theory LuaStringGc
  imports LuaStringSpec
begin

text \<open>
  Strings and the garbage collector: no string in the cache or in a chain has been freed, the strings that are dead are
  waiting to be swept, and neither creating nor collecting strings faults.
\<close>

section \<open>Colours\<close>

lemma small_bits:
  "bit (3 :: int) n \<longleftrightarrow> n = 0 \<or> n = 1" "bit (2 :: int) n \<longleftrightarrow> n = 1" "bit (4 :: int) n \<longleftrightarrow> n = 2"
  "bit (1 :: int) n \<longleftrightarrow> n = 0" "bit (7 :: int) n \<longleftrightarrow> n = 0 \<or> n = 1 \<or> n = 2"
proof -
  show "bit (3 :: int) n \<longleftrightarrow> n = 0 \<or> n = 1" "bit (2 :: int) n \<longleftrightarrow> n = 1" "bit (1::int) n \<longleftrightarrow> n = 0"
    by (cases n; simp add: bit_Suc bit_1_iff)+
  consider "n = 0" | "n = 1" | k where "n = Suc (Suc k)" by (metis One_nat_def not0_implies_Suc)
  then show "bit (4 :: int) n \<longleftrightarrow> n = 2" "bit (7::int) n \<longleftrightarrow> n = 0 \<or> n = 1 \<or> n = 2"
    by (cases; simp add: bit_Suc bit_1_iff)+
qed

lemma all_less_8: "(\<forall>n<8. P n) \<longleftrightarrow> P 0 \<and> P 1 \<and> P 2 \<and> P 3 \<and> P 4 \<and> P 5 \<and> P 6 \<and> P (7 :: nat)"
  by (simp add: numeral_eq_Suc All_less_Suc) blast

lemma byte_eq_iff: "v = w \<longleftrightarrow> (\<forall>n<8. bit v n = bit w n)" for v w :: "8 word"
  by (simp add: bit_eq_iff)

lemma white_bits:
  "m AND 3 = 0 \<longleftrightarrow> \<not> bit m 0 \<and> \<not> bit m 1" "m AND 2 = 0 \<longleftrightarrow> \<not> bit m 1"
  "m AND 1 = 0 \<longleftrightarrow> \<not> bit m 0" for m :: "8 word"
  unfolding byte_eq_iff all_less_8 by (simp_all add: bit_and_iff small_bits bit_1_iff)

lemma iswhite_bits: "iswhite ts \<longleftrightarrow> bit (ts_marked ts) 0 \<or> bit (ts_marked ts) 1"
  by (auto simp: iswhite_def WHITEBITS_def white_bits)

lemma isdeadm_bits:
  "isdeadm (1 XOR WHITEBITS) m \<longleftrightarrow> bit m 1" "isdeadm (2 XOR WHITEBITS) m \<longleftrightarrow> bit m 0"
  "isdeadm 2 m \<longleftrightarrow> bit m 1" "isdeadm 1 m \<longleftrightarrow> bit m 0"
  by (simp_all add: isdeadm_def WHITEBITS_def white_bits bit_xor_iff small_bits)

lemma maskcolors_bits: "\<not> bit maskcolors 0" "\<not> bit maskcolors 1"
  by (simp_all add: maskcolors_def BLACKBIT_def WHITEBITS_def bit_not_iff bit_or_iff)

definition two_white :: "gstate \<Rightarrow> bool" where
  "two_white g \<longleftrightarrow> g_currentwhite g = 1 \<or> g_currentwhite g = 2"

lemma dead_white: "two_white g \<Longrightarrow> isdead g ts \<Longrightarrow> iswhite ts"
  by (auto simp: two_white_def isdead_def otherwhite_def isdeadm_bits iswhite_bits)

lemma other_two_white: "two_white g \<Longrightarrow> two_white (g\<lparr>g_currentwhite := otherwhite g\<rparr>)"
  by (auto simp: two_white_def otherwhite_def WHITEBITS_def)

lemma new_not_dead: "two_white g \<Longrightarrow> ts_marked ts = luaC_white g \<Longrightarrow> \<not> isdead g ts"
  by (auto simp: two_white_def isdead_def otherwhite_def isdeadm_bits luaC_white_def WHITEBITS_def small_bits)

lemma changewhite_not_dead: "two_white g \<Longrightarrow> isdead g ts \<Longrightarrow> \<not> isdead g (changewhite ts)"
  by (auto simp: two_white_def isdead_def otherwhite_def isdeadm_bits changewhite_def WHITEBITS_def bit_xor_iff small_bits)

lemma swept_not_dead:
  "two_white g \<Longrightarrow> ts_marked ts = (m AND maskcolors) OR luaC_white g \<Longrightarrow> \<not> isdead g ts"
  using maskcolors_bits
  by (auto simp: two_white_def isdead_def otherwhite_def isdeadm_bits luaC_white_def WHITEBITS_def bit_or_iff bit_and_iff
    small_bits)

lemma gray_not_white: "\<not> iswhite (white2gray ts)" "\<not> iswhite (gray2black (white2gray ts))"
  by (auto simp: iswhite_bits white2gray_def gray2black_def WHITEBITS_def BLACKBIT_def bit_or_iff bit_and_iff bit_not_iff small_bits)

lemma isdead_cong: "g_currentwhite g' = g_currentwhite g \<Longrightarrow> isdead g' = isdead g"
  by (simp add: isdead_def otherwhite_def fun_eq_iff)

section \<open>The invariant\<close>

definition owned :: "gstate \<Rightarrow> bool" where
  "owned g \<longleftrightarrow> distinct (g_allgc g @ g_sweepgc g @ g_fixedgc g) \<and>
     set (g_allgc g @ g_sweepgc g @ g_fixedgc g) = dom (g_heap g)"

definition dead_waiting :: "gstate \<Rightarrow> bool" where
  "dead_waiting g \<longleftrightarrow> (\<forall>p ts. g_heap g p = Some ts \<longrightarrow> isdead g ts \<longrightarrow> p \<in> set (g_sweepgc g)) \<and>
     (\<forall>p\<in>set (g_fixedgc g). \<forall>ts. g_heap g p = Some ts \<longrightarrow> \<not> iswhite ts)"

definition usable :: "gstate \<Rightarrow> nat \<Rightarrow> bool" where
  "usable g p \<longleftrightarrow> (\<exists>ts. g_heap g p = Some ts \<and> \<not> isdead g ts \<and> 0 \<notin> set (ts_bytes ts))"

definition cache_ok :: "gstate \<Rightarrow> bool" where
  "cache_ok g \<longleftrightarrow> length (g_strcache g) = STRCACHE_SIZE \<and> (\<forall>p\<in>set (g_strcache g). usable g p) \<and>
     g_memerrmsg g \<in> set (g_fixedgc g) \<and> usable g (g_memerrmsg g)"

definition strings_ok :: "gstate \<Rightarrow> bool" where
  "strings_ok g \<longleftrightarrow> tab_ok g \<and> two_white g \<and> owned g \<and> dead_waiting g \<and> cache_ok g"

text \<open>What an operation that only adds strings or changes colours leaves: live strings stay live, with their bytes.\<close>

definition keeps :: "gstate \<Rightarrow> gstate \<Rightarrow> bool" where
  "keeps g g' \<longleftrightarrow> (\<forall>p ts. g_heap g p = Some ts \<longrightarrow> \<not> isdead g ts \<longrightarrow>
     (\<exists>us. g_heap g' p = Some us \<and> \<not> isdead g' us \<and> ts_bytes us = ts_bytes ts \<and> ts_long us = ts_long ts))"

lemma keeps_refl: "keeps g g"
  by (auto simp: keeps_def)

lemma keeps_trans: "keeps g h \<Longrightarrow> keeps h k \<Longrightarrow> keeps g k"
  unfolding keeps_def by metis

lemma usable_keeps: "keeps g g' \<Longrightarrow> usable g p \<Longrightarrow> usable g' p"
  unfolding keeps_def usable_def by metis

lemma cache_ok_keeps:
  assumes "cache_ok g" "keeps g g'" "g_strcache g' = g_strcache g" "g_memerrmsg g' = g_memerrmsg g"
    "set (g_fixedgc g) \<subseteq> set (g_fixedgc g')"
  shows "cache_ok g'"
  using assms usable_keeps [OF assms(2)] by (auto simp: cache_ok_def)

section \<open>Recolouring one string\<close>

lemma recolour:
  assumes ok: "strings_ok g" and ts: "g_heap g p = Some ts" and nd: "\<not> isdead g (ts\<lparr>ts_marked := m\<rparr>)"
    and fx: "p \<notin> set (g_fixedgc g)"
  shows "strings_ok (set_string p (ts\<lparr>ts_marked := m\<rparr>) g)" "keeps g (set_string p (ts\<lparr>ts_marked := m\<rparr>) g)"
proof -
  let ?g = "set_string p (ts\<lparr>ts_marked := m\<rparr>) g"
  have d: "isdead ?g = isdead g" by (rule isdead_cong) (simp add: set_string_def)
  show k: "keeps g ?g" unfolding keeps_def d using ts nd by (auto simp: set_string_def)
  have "tab_ok ?g" by (rule tab_ok_cong [of _ g]) (use ok ts in \<open>auto simp: set_string_def strings_ok_def\<close>)
  moreover have "owned ?g" using ok ts by (auto simp: strings_ok_def owned_def set_string_def)
  moreover have "dead_waiting ?g"
    using ok nd fx unfolding strings_ok_def dead_waiting_def d by (auto simp: set_string_def)
  moreover have "cache_ok ?g"
    by (rule cache_ok_keeps [OF _ k]) (use ok in \<open>auto simp: strings_ok_def set_string_def\<close>)
  ultimately show "strings_ok ?g" using ok by (simp add: strings_ok_def two_white_def set_string_def)
qed

lemma not_fixed:
  assumes "strings_ok g" "g_heap g p = Some ts" "iswhite ts"
  shows "p \<notin> set (g_fixedgc g)"
  using assms by (auto simp: strings_ok_def dead_waiting_def)

section \<open>New strings\<close>

lemma new_string:
  assumes ok: "strings_ok g" and a: "a \<notin> dom (g_heap g)"
    and g': "g' = (createstrobj a str long h g)\<lparr>strt_hash := hs, strt_size := sz, strt_nuse := n\<rparr>" and t: "tab_ok g'"
  shows "strings_ok g'" "keeps g g'" "\<exists>ts. g_heap g' a = Some ts \<and> ts_bytes ts = str \<and> ts_long ts = long \<and> \<not> isdead g' ts"
    "g_strcache g' = g_strcache g"
proof -
  have w: "two_white g" using ok by (simp add: strings_ok_def)
  have d: "isdead g' = isdead g" by (rule isdead_cong) (simp add: g' createstrobj_def luaC_newobj_def)
  define ts where "ts = \<lparr>ts_long = long, ts_marked = luaC_white g, ts_extra = 0, ts_hash = h, ts_bytes = str\<rparr>"
  have hp: "g_heap g' = (g_heap g)(a \<mapsto> ts)" by (simp add: g' createstrobj_def luaC_newobj_def ts_def)
  have nd: "\<not> isdead g ts" by (rule new_not_dead [OF w]) (simp add: ts_def)
  show e: "\<exists>ts. g_heap g' a = Some ts \<and> ts_bytes ts = str \<and> ts_long ts = long \<and> \<not> isdead g' ts"
    using nd hp d by (simp add: ts_def)
  show k: "keeps g g'" unfolding keeps_def d hp using a by auto
  show c: "g_strcache g' = g_strcache g" by (simp add: g' createstrobj_def luaC_newobj_def)
  have l: "g_allgc g' = a # g_allgc g" "g_sweepgc g' = g_sweepgc g" "g_fixedgc g' = g_fixedgc g" "g_memerrmsg g' = g_memerrmsg g"
    by (simp_all add: g' createstrobj_def luaC_newobj_def)
  have "owned g'" using ok a unfolding strings_ok_def owned_def l hp by auto
  moreover have "dead_waiting g'"
  proof -
    have "a \<notin> set (g_fixedgc g)" using ok a unfolding strings_ok_def owned_def by auto
    then show ?thesis using ok nd unfolding strings_ok_def dead_waiting_def l hp d by auto
  qed
  moreover have "cache_ok g'" by (rule cache_ok_keeps [OF _ k c]) (use ok l in \<open>auto simp: strings_ok_def\<close>)
  moreover have "two_white g'" using w by (simp add: g' createstrobj_def luaC_newobj_def two_white_def)
  ultimately show "strings_ok g'" using t by (simp add: strings_ok_def)
qed

definition makes :: "gstate \<Rightarrow> byte list \<Rightarrow> nat \<Rightarrow> gstate \<Rightarrow> bool" where
  "makes g str p g' \<longleftrightarrow> strings_ok g' \<and> keeps g g' \<and> g_strcache g' = g_strcache g \<and>
     (\<exists>ts. g_heap g' p = Some ts \<and> ts_bytes ts = str \<and> \<not> isdead g' ts \<and> (length str \<le> LUAI_MAXSHORTLEN \<longrightarrow> \<not> ts_long ts))"

lemma newlstr_makes:
  assumes ok: "strings_ok g" and a: "a \<notin> dom (g_heap g)" and len: "length str + 1 \<le> MAX_SIZE - sizeof_TString"
  shows "\<exists>p g'. luaS_newlstr a str g = Inr (p, g') \<and> makes g str p g'"
proof (cases "length str \<le> LUAI_MAXSHORTLEN")
  case True
  have t: "tab_ok g" using ok by (simp add: strings_ok_def)
  have n: "luaS_newlstr a str g = internshrstr a str g" using True by (simp add: luaS_newlstr_def)
  from internshrstr_spec [OF t a True] show ?thesis
  proof (elim disjE exE conjE)
    fix p ts assume p: "short_at g p ts" "ts_bytes ts = str"
      and r: "internshrstr a str g = Inr (p, if isdead g ts then set_string p (changewhite ts) g else g)"
    have ts: "g_heap g p = Some ts" "\<not> ts_long ts" using p(1) by (simp_all add: short_at_def)
    have "makes g str p (if isdead g ts then set_string p (changewhite ts) g else g)"
    proof (cases "isdead g ts")
      case dead: True
      have w: "two_white g" using ok by (simp add: strings_ok_def)
      define m where "m = ts_marked ts XOR WHITEBITS"
      have c: "changewhite ts = ts\<lparr>ts_marked := m\<rparr>" by (simp add: changewhite_def m_def)
      have nd: "\<not> isdead g (ts\<lparr>ts_marked := m\<rparr>)" using changewhite_not_dead [OF w dead] c by simp
      have nf: "p \<notin> set (g_fixedgc g)" using not_fixed [OF ok ts(1) dead_white [OF w dead]] .
      from recolour [OF ok ts(1) nd nf] dead c nd ts(2) p(2) show ?thesis
        by (simp add: makes_def set_string_def isdead_def otherwhite_def)
    next
      case False
      then show ?thesis using ok keeps_refl p(2) ts by (simp add: makes_def)
    qed
    with r n show ?thesis by auto
  next
    fix hs sz n' assume r: "internshrstr a str g =
        Inr (a, (createstrobj a str False (luaS_hash str (g_seed g)) g)\<lparr>strt_hash := hs, strt_size := sz, strt_nuse := n'\<rparr>)"
      and t': "tab_ok ((createstrobj a str False (luaS_hash str (g_seed g)) g)\<lparr>strt_hash := hs, strt_size := sz, strt_nuse := n'\<rparr>)"
    from new_string [OF ok a refl t'] r n show ?thesis unfolding makes_def by auto
  qed
next
  case False
  let ?g = "createstrobj a str True (g_seed g) g"
  have eq: "?g = (createstrobj a str True (g_seed g) g)\<lparr>strt_hash := strt_hash ?g, strt_size := strt_size ?g, strt_nuse := strt_nuse ?g\<rparr>"
    by simp
  have t: "tab_ok ?g" using tab_ok_new_long [OF _ a] ok by (simp add: strings_ok_def)
  have "luaS_newlstr a str g = Inr (a, ?g)" using False len by (simp add: luaS_newlstr_def)
  with new_string [OF ok a eq t] False show ?thesis unfolding makes_def by auto
qed

end
