(* ===== verification/LuaStringRun.thy ===== *)
theory LuaStringRun
  imports LuaStringGc
begin

text \<open>
  Runs of the string table: what the operations of \<open>lstring.c\<close> and the phases of the collector do to the invariant, and
  the states that a Lua state goes through from its creation to its end.
\<close>

section \<open>The cache\<close>

lemma strings_ok_cache:
  assumes ok: "strings_ok g" and p: "usable g p"
  shows "strings_ok (g\<lparr>g_strcache := (g_strcache g)[i := p]\<rparr>)" "keeps g (g\<lparr>g_strcache := (g_strcache g)[i := p]\<rparr>)"
proof -
  let ?g = "g\<lparr>g_strcache := (g_strcache g)[i := p]\<rparr>"
  have d: "isdead ?g = isdead g" by (rule isdead_cong) simp
  show "keeps g ?g" unfolding keeps_def d by auto
  have "tab_ok ?g" by (rule tab_ok_cong [of _ g]) (use ok in \<open>auto simp: strings_ok_def\<close>)
  moreover have "set ((g_strcache g)[i := p]) \<subseteq> insert p (set (g_strcache g))" by (rule set_update_subset_insert)
  then have "cache_ok ?g" using ok p by (auto simp: strings_ok_def cache_ok_def usable_def d)
  ultimately show "strings_ok ?g"
    using ok by (simp add: strings_ok_def two_white_def owned_def dead_waiting_def d)
qed

lemma cstring_id: "0 \<notin> set bs \<Longrightarrow> cstring bs = bs"
  unfolding cstring_def by (rule takeWhile_eq_all_conv [THEN iffD2]) auto

lemma cache_index: "nat (point2uint addr mod int STRCACHE_SIZE) < STRCACHE_SIZE"
  by (simp add: STRCACHE_SIZE_def nat_less_iff)

text \<open>\<open>stringed\<close>: what a caller of \<open>luaS_new\<close> gets.\<close>

definition stringed :: "gstate \<Rightarrow> byte list \<Rightarrow> nat \<Rightarrow> gstate \<Rightarrow> bool" where
  "stringed g str p g' \<longleftrightarrow> strings_ok g' \<and> keeps g g' \<and> (\<exists>ts. g_heap g' p = Some ts \<and> ts_bytes ts = str \<and> \<not> isdead g' ts)"

lemma new_stringed:
  assumes ok: "strings_ok g" and a: "a \<notin> dom (g_heap g)" and len: "length str + 1 \<le> MAX_SIZE - sizeof_TString"
    and z: "0 \<notin> set str"
  shows "\<exists>p g'. luaS_new a addr str g = Inr (p, g') \<and> stringed g str p g'"
proof -
  define i where "i = nat (point2uint addr mod int STRCACHE_SIZE)"
  have "g_strcache g ! i \<in> set (g_strcache g)"
    using ok cache_index [of addr] by (simp add: strings_ok_def cache_ok_def i_def)
  then have "usable g (g_strcache g ! i)" using ok by (simp add: strings_ok_def cache_ok_def)
  then obtain ts where ts: "g_heap g (g_strcache g ! i) = Some ts" "\<not> isdead g ts" "0 \<notin> set (ts_bytes ts)"
    by (auto simp: usable_def)
  show ?thesis
  proof (cases "str = ts_bytes ts")
    case True
    then have "luaS_new a addr str g = Inr (g_strcache g ! i, g)"
      using ts by (simp add: luaS_new_def i_def [symmetric] deref_Some cstring_id Let_def)
    then show ?thesis using ok ts keeps_refl True by (auto simp: stringed_def)
  next
    case False
    from newlstr_makes [OF ok a len] obtain p g1 where g1: "luaS_newlstr a str g = Inr (p, g1)" "makes g str p g1" by blast
    let ?g = "g1\<lparr>g_strcache := (g_strcache g1)[i := p]\<rparr>"
    have n: "luaS_new a addr str g = Inr (p, ?g)"
      using ts False g1(1) by (simp add: luaS_new_def i_def [symmetric] deref_Some cstring_id Let_def)
    have ok1: "strings_ok g1" and k1: "keeps g g1" using g1(2) by (simp_all add: makes_def)
    obtain us where us: "g_heap g1 p = Some us" "ts_bytes us = str" "\<not> isdead g1 us" using g1(2) by (auto simp: makes_def)
    have u: "usable g1 p" using us z by (simp add: usable_def)
    have d: "isdead ?g = isdead g1" by (rule isdead_cong) simp
    have "stringed g str p ?g"
      using strings_ok_cache [OF ok1 u, of i] keeps_trans [OF k1] us by (simp add: stringed_def d)
    with n show ?thesis by blast
  qed
qed

section \<open>Fixing and marking\<close>

lemma fix_keeps:
  assumes ok: "strings_ok g" and r: "luaC_fix p g = Inr g'"
  shows "strings_ok g'" "keeps g g'"
proof -
  from r obtain qs ts where q: "g_allgc g = p # qs" and ts: "g_heap g p = Some ts"
    and g': "g' = set_string p (white2gray ts) g\<lparr>g_allgc := qs, g_fixedgc := p # g_fixedgc g\<rparr>"
    by (auto simp: luaC_fix_def deref_def split: list.splits if_splits option.splits)
  have w: "two_white g" using ok by (simp add: strings_ok_def)
  obtain m where m: "white2gray ts = ts\<lparr>ts_marked := m\<rparr>" by (simp add: white2gray_def)
  have nd: "\<not> isdead g (ts\<lparr>ts_marked := m\<rparr>)" using dead_white [OF w] gray_not_white(1) [of ts] m by auto
  have nf: "p \<notin> set (g_fixedgc g)" using ok q by (auto simp: strings_ok_def owned_def)
  let ?g = "set_string p (white2gray ts) g"
  have 1: "strings_ok ?g" "keeps g ?g" using recolour [OF ok ts nd nf] m by simp_all
  have d: "isdead g' = isdead ?g" by (rule isdead_cong) (simp add: g' set_string_def)
  have h: "g_heap g' = g_heap ?g" "g_fixedgc g' = p # g_fixedgc ?g" "g_sweepgc g' = g_sweepgc ?g"
    by (simp_all add: g' set_string_def)
  have k: "keeps ?g g'" unfolding keeps_def d h by auto
  then show "keeps g g'" using keeps_trans 1(2) by blast
  have "tab_ok g'" by (rule tab_ok_cong [of _ ?g]) (use 1 in \<open>auto simp: strings_ok_def g' set_string_def\<close>)
  moreover have "owned g'" using 1(1) q unfolding strings_ok_def owned_def by (auto simp: g' set_string_def)
  moreover have "dead_waiting g'"
  proof -
    have "g_heap g' p = Some (white2gray ts)" by (simp add: h set_string_def)
    moreover have "\<not> iswhite (white2gray ts)" by (rule gray_not_white)
    ultimately show ?thesis using 1(1) unfolding strings_ok_def dead_waiting_def d h by auto
  qed
  moreover have "cache_ok g'"
    by (rule cache_ok_keeps [OF _ k]) (use 1 in \<open>auto simp: strings_ok_def g' set_string_def\<close>)
  moreover have "two_white g'" using w by (simp add: g' set_string_def two_white_def)
  ultimately show "strings_ok g'" by (simp add: strings_ok_def)
qed

lemma mark_keeps:
  assumes ok: "strings_ok g" and ts: "g_heap g p = Some ts" "iswhite ts" and r: "reallymarkobject p g = Inr g'"
  shows "strings_ok g'" "keeps g g'"
proof -
  have w: "two_white g" using ok by (simp add: strings_ok_def)
  obtain m where m: "gray2black (white2gray ts) = ts\<lparr>ts_marked := m\<rparr>" by (simp add: white2gray_def gray2black_def)
  have nd: "\<not> isdead g (ts\<lparr>ts_marked := m\<rparr>)" using dead_white [OF w] gray_not_white(2) [of ts] m by auto
  have "g' = set_string p (ts\<lparr>ts_marked := m\<rparr>) g" using r ts m by (simp add: reallymarkobject_def deref_Some)
  with recolour [OF ok ts(1) nd not_fixed [OF ok ts]] show "strings_ok g'" "keeps g g'" by simp_all
qed

section \<open>The end of the mark phase\<close>

lemma clearcache_spec:
  assumes len: "length (g_strcache g) = STRCACHE_SIZE" and el: "\<forall>p\<in>set (g_strcache g). g_heap g p \<noteq> None"
    and m: "g_heap g (g_memerrmsg g) \<noteq> None"
  shows "\<exists>c. luaS_clearcache g = Inr (g\<lparr>g_strcache := c\<rparr>) \<and> length c = STRCACHE_SIZE \<and>
    (\<forall>p\<in>set c. p = g_memerrmsg g \<or> p \<in> set (g_strcache g) \<and> (\<forall>ts. g_heap g p = Some ts \<longrightarrow> \<not> iswhite ts))"
proof -
  let ?step = "\<lambda>i r. res_bind r (\<lambda>g. res_bind (deref g (g_strcache g ! i)) (\<lambda>ts.
         Inr (if iswhite ts then g\<lparr>g_strcache := (g_strcache g)[i := g_memerrmsg g]\<rparr> else g)))"
  let ?good = "\<lambda>p. p = g_memerrmsg g \<or> p \<in> set (g_strcache g) \<and> (\<forall>ts. g_heap g p = Some ts \<longrightarrow> \<not> iswhite ts)"
  have "\<exists>c. fold ?step [0..<n] (Inr g) = Inr (g\<lparr>g_strcache := c\<rparr>) \<and> length c = STRCACHE_SIZE \<and>
      (\<forall>i<n. ?good (c ! i)) \<and> (\<forall>i<STRCACHE_SIZE. n \<le> i \<longrightarrow> c ! i = g_strcache g ! i)"
    if "n \<le> STRCACHE_SIZE" for n
    using that
  proof (induction n)
    case 0
    have "fold ?step [0..<0] (Inr g) = Inr (g\<lparr>g_strcache := g_strcache g\<rparr>)" by simp
    then show ?case using len by blast
  next
    case (Suc n)
    then obtain c where c: "fold ?step [0..<n] (Inr g) = Inr (g\<lparr>g_strcache := c\<rparr>)" "length c = STRCACHE_SIZE"
      "\<forall>i<n. ?good (c ! i)" "\<forall>i<STRCACHE_SIZE. n \<le> i \<longrightarrow> c ! i = g_strcache g ! i" by auto
    have n: "c ! n = g_strcache g ! n" "g_strcache g ! n \<in> set (g_strcache g)" using c(4) Suc.prems len by auto
    then obtain ts where ts: "g_heap g (c ! n) = Some ts" using el by fastforce
    define c' where "c' = (if iswhite ts then c[n := g_memerrmsg g] else c)"
    have f: "fold ?step [0..<Suc n] (Inr g) = Inr (g\<lparr>g_strcache := c'\<rparr>)"
      using c(1) ts by (simp add: deref_def c'_def)
    have "length c' = STRCACHE_SIZE" using c(2) by (simp add: c'_def)
    moreover have "?good (c' ! i)" if "i < Suc n" for i
      using that c(2,3) n ts Suc.prems by (cases "i = n") (auto simp: c'_def)
    moreover have "\<forall>i<STRCACHE_SIZE. Suc n \<le> i \<longrightarrow> c' ! i = g_strcache g ! i" using c(4) by (simp add: c'_def)
    ultimately show ?case using f by blast
  qed
  from this [of STRCACHE_SIZE] obtain c where c: "luaS_clearcache g = Inr (g\<lparr>g_strcache := c\<rparr>)" "length c = STRCACHE_SIZE"
    "\<forall>i<STRCACHE_SIZE. ?good (c ! i)"
    unfolding luaS_clearcache_def by blast
  then have "\<forall>p\<in>set c. ?good p" by (metis in_set_conv_nth)
  with c(1,2) show ?thesis by blast
qed

definition flipped :: "nat list \<Rightarrow> gstate \<Rightarrow> gstate" where
  "flipped c g = g\<lparr>g_strcache := c, g_currentwhite := otherwhite g, g_allgc := [], g_sweepgc := g_allgc g\<rparr>"

lemma atomic_spec:
  assumes ok: "strings_ok g" and s: "g_sweepgc g = []"
  shows "\<exists>c. finish_atomic g = Inr (g\<lparr>g_strcache := c, g_currentwhite := otherwhite g\<rparr>) \<and> strings_ok (flipped c g)"
proof -
  have u: "\<And>p. p \<in> set (g_strcache g) \<Longrightarrow> usable g p" "usable g (g_memerrmsg g)" "g_memerrmsg g \<in> set (g_fixedgc g)"
    "length (g_strcache g) = STRCACHE_SIZE"
    using ok by (auto simp: strings_ok_def cache_ok_def)
  have w: "two_white g" using ok by (simp add: strings_ok_def)
  have "\<forall>p\<in>set (g_strcache g). g_heap g p \<noteq> None" "g_heap g (g_memerrmsg g) \<noteq> None"
    using u(1,2) by (auto simp: usable_def)
  from clearcache_spec [OF u(4) this] obtain c where c: "luaS_clearcache g = Inr (g\<lparr>g_strcache := c\<rparr>)" "length c = STRCACHE_SIZE"
    "\<forall>p\<in>set c. p = g_memerrmsg g \<or> p \<in> set (g_strcache g) \<and> (\<forall>ts. g_heap g p = Some ts \<longrightarrow> \<not> iswhite ts)" by blast
  let ?g = "flipped c g"
  have dw: "iswhite ts" if "isdead ?g ts" for ts
  proof -
    have "isdead (g\<lparr>g_currentwhite := otherwhite g\<rparr>) ts" using that by (simp add: flipped_def isdead_def otherwhite_def)
    then show ?thesis by (rule dead_white [OF other_two_white [OF w]])
  qed
  have fx: "\<not> iswhite ts" if "p \<in> set (g_fixedgc g)" "g_heap g p = Some ts" for p ts
    using ok that by (auto simp: strings_ok_def dead_waiting_def)
  have "tab_ok ?g" by (rule tab_ok_cong [of _ g]) (use ok in \<open>auto simp: strings_ok_def flipped_def\<close>)
  moreover have "owned ?g" using ok s by (simp add: strings_ok_def owned_def flipped_def)
  moreover have "dead_waiting ?g"
    unfolding dead_waiting_def
  proof (intro conjI allI ballI impI)
    fix p ts assume h: "g_heap ?g p = Some ts" "isdead ?g ts"
    then have p: "g_heap g p = Some ts" "iswhite ts" using dw by (simp_all add: flipped_def)
    then have "p \<in> set (g_allgc g @ g_sweepgc g @ g_fixedgc g)" using ok by (auto simp: strings_ok_def owned_def)
    then show "p \<in> set (g_sweepgc ?g)" using fx p s by (auto simp: flipped_def)
  qed (use fx in \<open>auto simp: flipped_def\<close>)
  moreover have "cache_ok ?g"
  proof -
    have us: "usable ?g p" if "usable g p" "\<forall>ts. g_heap g p = Some ts \<longrightarrow> \<not> iswhite ts" for p
      using that dw by (auto simp: usable_def flipped_def)
    have "usable ?g (g_memerrmsg g)" by (rule us [OF u(2)]) (use fx u(3) in blast)
    moreover have "usable ?g p" if "p \<in> set c" for p
    proof (cases "p = g_memerrmsg g")
      case True
      then show ?thesis using \<open>usable ?g (g_memerrmsg g)\<close> by simp
    next
      case False
      then show ?thesis using bspec [OF c(3) that] us [of p] u(1) [of p] by simp
    qed
    ultimately show ?thesis using c(2) u(3) by (simp add: cache_ok_def flipped_def)
  qed
  moreover have "two_white ?g" using other_two_white [OF w] by (simp add: two_white_def flipped_def otherwhite_def)
  moreover have "finish_atomic g = Inr (g\<lparr>g_strcache := c, g_currentwhite := otherwhite g\<rparr>)"
    using c(1) by (simp add: finish_atomic_def otherwhite_def)
  ultimately show ?thesis by (auto simp: strings_ok_def)
qed

section \<open>Sweeping\<close>

lemma sweep_one_spec:
  assumes ok: "strings_ok g" and s: "g_sweepgc g = p # rest"
  shows "\<exists>ts g'. g_heap g p = Some ts \<and> sweep_next g = Inr (\<not> isdead g ts, g') \<and> strings_ok g' \<and> keeps g g' \<and>
    g_sweepgc g' = rest \<and> g_currentwhite g' = g_currentwhite g \<and> (\<forall>q. q \<noteq> p \<longrightarrow> g_heap g' q = g_heap g q) \<and>
    (g_heap g' p = None \<longleftrightarrow> isdead g ts)"
proof -
  have w: "two_white g" using ok by (simp add: strings_ok_def)
  have "p \<in> dom (g_heap g)" using ok s unfolding strings_ok_def owned_def by auto
  then obtain ts where ts: "g_heap g p = Some ts" by blast
  have nf: "p \<notin> set (g_fixedgc g)" "p \<notin> set rest" using ok s by (auto simp: strings_ok_def owned_def)
  show ?thesis
  proof (cases "isdead g ts")
    case dead: True
    have t: "tab_ok g" using ok by (simp add: strings_ok_def)
    from freeobj_spec [OF t ts] obtain hs n where f:
      "freeobj p g = Inr (g\<lparr>strt_hash := hs, strt_nuse := n, g_heap := (g_heap g)(p := None)\<rparr>)"
      "tab_ok (g\<lparr>strt_hash := hs, strt_nuse := n, g_heap := (g_heap g)(p := None)\<rparr>)" by blast
    let ?g = "g\<lparr>strt_hash := hs, strt_nuse := n, g_heap := (g_heap g)(p := None), g_sweepgc := rest\<rparr>"
    have r: "sweep_next g = Inr (False, ?g)"
      using s ts dead f(1) by (simp add: sweep_next_def sweep_one_def deref_Some isdead_def)
    have d: "isdead ?g = isdead g" by (rule isdead_cong) simp
    have k: "keeps g ?g" unfolding keeps_def d using ts dead by auto
    have "tab_ok ?g" by (rule tab_ok_cong [OF _ _ _ _ _ f(2)]) auto
    moreover have "owned ?g" using ok s unfolding strings_ok_def owned_def by auto
    moreover have "dead_waiting ?g" using ok s unfolding strings_ok_def dead_waiting_def d by auto
    moreover have "cache_ok ?g" by (rule cache_ok_keeps [OF _ k]) (use ok in \<open>auto simp: strings_ok_def\<close>)
    moreover have "two_white ?g" using w by (simp add: two_white_def)
    ultimately have "strings_ok ?g" by (simp add: strings_ok_def)
    with r k ts dead show ?thesis by auto
  next
    case live: False
    define m where "m = (ts_marked ts AND maskcolors) OR luaC_white g"
    let ?h = "set_string p (ts\<lparr>ts_marked := m\<rparr>) g"
    let ?g = "?h\<lparr>g_sweepgc := rest, g_allgc := g_allgc g @ [p]\<rparr>"
    have nd: "\<not> isdead g (ts\<lparr>ts_marked := m\<rparr>)" by (rule swept_not_dead [OF w]) (simp add: m_def)
    note h = recolour [OF ok ts nd nf(1)]
    have r: "sweep_next g = Inr (True, ?g)"
      using s ts live by (simp add: sweep_next_def sweep_one_def deref_Some isdead_def m_def set_string_def)
    have d: "isdead ?g = isdead ?h" "isdead ?h = isdead g" by (rule isdead_cong, simp add: set_string_def)+
    have k1: "keeps ?h ?g" unfolding keeps_def d by auto
    have k: "keeps g ?g" by (rule keeps_trans [OF h(2) k1])
    have "tab_ok ?g" by (rule tab_ok_cong [of _ ?h]) (use h(1) in \<open>auto simp: strings_ok_def\<close>)
    moreover have "owned ?g" using h(1) s unfolding strings_ok_def owned_def by (auto simp: set_string_def)
    moreover have "dead_waiting ?g"
    proof -
      have "q \<in> set rest" if "g_heap ?h q = Some us" "isdead g us" for q us
      proof -
        have "q \<in> set (g_sweepgc ?h)" using h(1) that unfolding strings_ok_def dead_waiting_def d by blast
        moreover have "q \<noteq> p" using that nd by (auto simp: set_string_def)
        ultimately show ?thesis using s by (simp add: set_string_def)
      qed
      then show ?thesis using h(1) unfolding strings_ok_def dead_waiting_def d by simp
    qed
    moreover have "cache_ok ?g" by (rule cache_ok_keeps [OF _ k1]) (use h(1) in \<open>auto simp: strings_ok_def\<close>)
    moreover have "two_white ?g" using w by (simp add: two_white_def set_string_def)
    ultimately have "strings_ok ?g" by (simp add: strings_ok_def)
    with r k ts live show ?thesis by (auto simp: set_string_def)
  qed
qed

text \<open>What is left of the store when the first \<open>n\<close> objects to be swept have been passed.\<close>

definition doomed :: "gstate \<Rightarrow> nat set \<Rightarrow> nat set" where
  "doomed g A = {p \<in> A. \<exists>ts. g_heap g p = Some ts \<and> isdead g ts}"

lemma sweeplist_spec:
  assumes "strings_ok g"
  shows "\<exists>g'. sweeplist n g = Inr g' \<and> strings_ok g' \<and> keeps g g' \<and> g_sweepgc g' = drop n (g_sweepgc g) \<and>
    dom (g_heap g') = dom (g_heap g) - doomed g (set (take n (g_sweepgc g)))"
  using assms
proof (induction n arbitrary: g)
  case 0
  then show ?case using keeps_refl by (auto simp: doomed_def)
next
  case (Suc n)
  show ?case
  proof (cases "g_sweepgc g")
    case Nil
    then have "sweep_next g = Inr (True, g)" by (simp add: sweep_next_def)
    with Suc.IH [OF Suc.prems] Nil show ?thesis by (auto simp: doomed_def)
  next
    case (Cons p rest)
    from sweep_one_spec [OF Suc.prems Cons] obtain ts g1 where ts: "g_heap g p = Some ts"
      and g1: "sweep_next g = Inr (\<not> isdead g ts, g1)" "strings_ok g1" "keeps g g1" "g_sweepgc g1 = rest"
        "g_currentwhite g1 = g_currentwhite g" "\<forall>q. q \<noteq> p \<longrightarrow> g_heap g1 q = g_heap g q" "g_heap g1 p = None \<longleftrightarrow> isdead g ts" by (elim exE conjE) metis
    from Suc.IH [OF g1(2)] obtain g' where g': "sweeplist n g1 = Inr g'" "strings_ok g'" "keeps g1 g'"
      "g_sweepgc g' = drop n rest" "dom (g_heap g') = dom (g_heap g1) - doomed g1 (set (take n rest))"
      using g1(4) by auto
    have d: "isdead g1 = isdead g" by (rule isdead_cong [OF g1(5)])
    have np: "p \<notin> set rest" using Suc.prems Cons by (auto simp: strings_ok_def owned_def)
    then have nt: "p \<notin> set (take n rest)" by (meson in_set_takeD)
    have "doomed g1 (set (take n rest)) = doomed g (set (take n rest))"
      using g1(6) nt unfolding doomed_def d by (metis (no_types, lifting))
    moreover have "dom (g_heap g1) = dom (g_heap g) - doomed g {p}"
      using g1(6,7) ts by (auto simp: doomed_def dom_def)
    moreover have "doomed g (set (take (Suc n) (g_sweepgc g))) = doomed g {p} \<union> doomed g (set (take n rest))"
      by (auto simp: doomed_def Cons)
    ultimately have "dom (g_heap g') = dom (g_heap g) - doomed g (set (take (Suc n) (g_sweepgc g)))"
      using g'(5) by auto
    moreover have "sweeplist (Suc n) g = Inr g'" using g1(1) g'(1) by simp
    ultimately show ?thesis using g'(2,4) keeps_trans [OF g1(3) g'(3)] Cons by auto
  qed
qed

lemma sweeptolive_spec:
  assumes "strings_ok g" "length (g_sweepgc g) < f"
  shows "\<exists>g'. sweeptolive f g = Inr g' \<and> strings_ok g' \<and> keeps g g'"
  using assms
proof (induction f arbitrary: g)
  case (Suc f)
  show ?case
  proof (cases "g_sweepgc g")
    case Nil
    then have "sweeptolive (Suc f) g = Inr g" by (simp add: sweep_next_def)
    then show ?thesis using Suc.prems keeps_refl by blast
  next
    case (Cons p rest)
    from sweep_one_spec [OF Suc.prems(1) Cons] obtain b g1 where
      g1: "sweep_next g = Inr (b, g1)" "strings_ok g1" "keeps g g1" "g_sweepgc g1 = rest" by blast
    show ?thesis
    proof (cases b)
      case True
      then show ?thesis using g1 by auto
    next
      case False
      have "length (g_sweepgc g1) < f" using g1(4) Suc.prems(2) Cons by simp
      from Suc.IH [OF g1(2) this] keeps_trans [OF g1(3)] g1(1) False show ?thesis by auto
    qed
  qed
qed simp

lemma atomic_sweep:
  assumes "strings_ok g" "g_sweepgc g = []"
  shows "\<exists>g1 g'. finish_atomic g = Inr g1 \<and> entersweep g1 = Inr g' \<and> strings_ok g'"
proof -
  from atomic_spec [OF assms] obtain c where
    c: "finish_atomic g = Inr (g\<lparr>g_strcache := c, g_currentwhite := otherwhite g\<rparr>)" "strings_ok (flipped c g)" by blast
  have "length (g_sweepgc (flipped c g)) < Suc (length (g_allgc g))" by (simp add: flipped_def)
  from sweeptolive_spec [OF c(2) this] c(1) show ?thesis by (auto simp: entersweep_def flipped_def simp del: sweeptolive.simps)
qed

lemma checkSizes_spec:
  assumes ok: "strings_ok g"
  shows "\<exists>g'. checkSizes g = Inr g' \<and> strings_ok g' \<and> keeps g g' \<and> g_heap g' = g_heap g"
proof (cases "strt_nuse g < int (strt_size g div 4)")
  case True
  have t: "tab_ok g" using ok by (simp add: strings_ok_def)
  then obtain k where k: "strt_size g = 2 ^ k" by (auto simp: tab_ok_def)
  have "0 \<le> strt_nuse g" using t by (simp add: tab_ok_def in_table_def)
  then have "k \<noteq> 0" using True k by (cases k) auto
  then obtain j where "k = Suc j" by (cases k) auto
  then have "strt_size g div 2 = 2 ^ j" using k by simp
  with tab_ok_resize [OF t, of j] True obtain hs where
    r: "checkSizes g = Inr (g\<lparr>strt_hash := hs, strt_size := 2 ^ j\<rparr>)" "tab_ok (g\<lparr>strt_hash := hs, strt_size := 2 ^ j\<rparr>)"
    by (auto simp: checkSizes_def)
  let ?g = "g\<lparr>strt_hash := hs, strt_size := 2 ^ j\<rparr>"
  have d: "isdead ?g = isdead g" by (rule isdead_cong) simp
  have k: "keeps g ?g" unfolding keeps_def d by auto
  have "cache_ok ?g" by (rule cache_ok_keeps [OF _ k]) (use ok in \<open>auto simp: strings_ok_def\<close>)
  then have "strings_ok ?g"
    using ok r(2) by (simp add: strings_ok_def two_white_def owned_def dead_waiting_def d)
  with r(1) k show ?thesis by auto
next
  case False
  then show ?thesis using ok keeps_refl by (auto simp: checkSizes_def)
qed

end
