(* ===== verification/LuaStringProps.thy ===== *)
theory LuaStringProps
  imports LuaStringRun
begin

text \<open>
  The properties of the strings of a Lua state, over every run of the operations of \<open>lstring.c\<close> and the phases of the
  collector: interning, the cache, and what is freed.
\<close>

section \<open>Creation\<close>

lemma init_ok: "\<exists>g. luaS_init a (new_gstate seed) = Inr g \<and> strings_ok g \<and> g_sweepgc g = [] \<and> dom (g_heap g) = {a}"
proof -
  let ?init = "new_gstate seed"
  have e: "g_heap ?init = Map.empty" "strt_size ?init = 0" "strt_hash ?init = []" "strt_nuse ?init = 0" by (simp_all add: new_gstate_def)
  then have i0: "in_table ?init (strt_hash ?init)" "length (strt_hash ?init) = strt_size ?init"
    by (auto simp: in_table_def short_at_def)
  from resize_spec [OF i0(2,1), of 7] obtain hs where
    r: "luaS_resize (2 ^ 7) ?init = Inr (?init\<lparr>strt_hash := hs, strt_size := 2 ^ 7\<rparr>)" "length hs = 2 ^ 7"
      "chained ?init (2 ^ 7) hs" "in_table ?init hs" by blast
  let ?g1 = "?init\<lparr>strt_hash := hs, strt_size := 2 ^ 7\<rparr>"
  have ns: "\<not> short_at ?g1 p ts" for p ts using e by (simp add: short_at_def)
  have t1: "tab_ok ?g1"
  proof -
    have "chained ?g1 (2 ^ 7) hs" "in_table ?g1 hs" using r(3,4) by (simp_all add: chained_def in_table_def short_at_def)
    moreover have "interned ?g1" using ns by (simp add: interned_def)
    moreover have "\<exists>k. strt_size ?g1 = 2 ^ k" by (intro exI [of _ 7]) simp
    ultimately show ?thesis using r(2) by (simp add: tab_ok_def)
  qed
  have len: "length MEMERRMSG \<le> LUAI_MAXSHORTLEN" by (simp add: MEMERRMSG_def LUAI_MAXSHORTLEN_def)
  have a: "a \<notin> dom (g_heap ?g1)" using e by simp
  define h where "h = luaS_hash MEMERRMSG (g_seed ?g1)"
  from internshrstr_spec [OF t1 a len] ns obtain hs' sz n where
    n: "internshrstr a MEMERRMSG ?g1 = Inr (a, (createstrobj a MEMERRMSG False h ?g1)\<lparr>strt_hash := hs', strt_size := sz, strt_nuse := n\<rparr>)"
    and t2: "tab_ok ((createstrobj a MEMERRMSG False h ?g1)\<lparr>strt_hash := hs', strt_size := sz, strt_nuse := n\<rparr>)"
    unfolding h_def [symmetric] by blast
  let ?g2 = "(createstrobj a MEMERRMSG False h ?g1)\<lparr>strt_hash := hs', strt_size := sz, strt_nuse := n\<rparr>"
  define ts where "ts = \<lparr>ts_long = False, ts_marked = 1, ts_extra = 0, ts_hash = h, ts_bytes = MEMERRMSG\<rparr>"
  have g2: "g_heap ?g2 = [a \<mapsto> ts]" "g_allgc ?g2 = [a]" "g_currentwhite ?g2 = 1" "g_sweepgc ?g2 = []" "g_fixedgc ?g2 = []"
    by (simp_all add: createstrobj_def luaC_newobj_def new_gstate_def ts_def luaC_white_def WHITEBITS_def)
  let ?g3 = "set_string a (white2gray ts) (?g2\<lparr>g_memerrmsg := a\<rparr>)\<lparr>g_allgc := [], g_fixedgc := [a]\<rparr>"
  let ?g = "?g3\<lparr>g_strcache := replicate STRCACHE_SIZE (g_memerrmsg ?g3)\<rparr>"
  have m: "MINSTRTABSIZE = 2 ^ 7" by (simp add: MINSTRTABSIZE_def)
  have "luaS_newlstr a MEMERRMSG ?g1 = Inr (a, ?g2)" using n len by (simp add: luaS_newlstr_def)
  moreover have "luaC_fix a (?g2\<lparr>g_memerrmsg := a\<rparr>) = Inr ?g3" using g2 by (simp add: luaC_fix_def deref_def)
  ultimately have "luaS_init a ?init = Inr ?g" unfolding luaS_init_def m using r(1) by simp
  moreover have "strings_ok ?g"
  proof -
    have hp: "g_heap ?g = [a \<mapsto> white2gray ts]" using g2(1) by (simp add: set_string_def)
    have cw: "two_white ?g" using g2(3) by (simp add: two_white_def set_string_def)
    have nd: "\<not> isdead ?g (white2gray ts)" using dead_white [OF cw] gray_not_white(1) by blast
    have z: "0 \<notin> set MEMERRMSG" by (simp add: MEMERRMSG_def)
    have us: "usable ?g a" using hp nd z by (simp add: usable_def white2gray_def ts_def)
    have "tab_ok ?g"
      by (rule tab_ok_cong [OF _ _ _ _ _ t2]) (use g2(1) in \<open>auto simp: set_string_def white2gray_def\<close>)
    moreover have "owned ?g" using g2 hp by (simp add: owned_def set_string_def)
    moreover have "dead_waiting ?g" using hp nd gray_not_white(1) g2 by (auto simp: dead_waiting_def set_string_def)
    moreover have "cache_ok ?g" using us by (simp add: cache_ok_def set_string_def)
    ultimately show ?thesis using cw by (simp add: strings_ok_def)
  qed
  moreover have "g_sweepgc ?g = []" "dom (g_heap ?g) = {a}" using g2(1,4) by (simp_all add: set_string_def)
  ultimately show ?thesis by blast
qed

section \<open>Runs\<close>

text \<open>
  One step of the strings of a state: a new string, at an address that the allocator has free; the fixing of one; and what
  the collector does, which marks only before the sweep, and sweeps some objects at a time.
\<close>

inductive gc_step :: "gstate \<Rightarrow> gstate \<Rightarrow> bool" where
  step_newlstr: "a \<notin> dom (g_heap g) \<Longrightarrow> luaS_newlstr a str g = Inr (p, g') \<Longrightarrow> gc_step g g'"
| step_new: "a \<notin> dom (g_heap g) \<Longrightarrow> 0 \<notin> set str \<Longrightarrow> luaS_new a addr str g = Inr (p, g') \<Longrightarrow> gc_step g g'"
| step_fix: "luaC_fix p g = Inr g' \<Longrightarrow> gc_step g g'"
| step_mark: "g_sweepgc g = [] \<Longrightarrow> g_heap g p = Some ts \<Longrightarrow> iswhite ts \<Longrightarrow> reallymarkobject p g = Inr g' \<Longrightarrow> gc_step g g'"
| step_atomic: "g_sweepgc g = [] \<Longrightarrow> finish_atomic g = Inr g1 \<Longrightarrow> entersweep g1 = Inr g' \<Longrightarrow> gc_step g g'"
| step_sweep: "sweeplist n g = Inr g' \<Longrightarrow> gc_step g g'"
| step_sizes: "g_sweepgc g = [] \<Longrightarrow> checkSizes g = Inr g' \<Longrightarrow> gc_step g g'"

inductive reachable_strings :: "32 word \<Rightarrow> gstate \<Rightarrow> bool" for seed where
  reach_init: "luaS_init a (new_gstate seed) = Inr g \<Longrightarrow> reachable_strings seed g"
| reach_step: "reachable_strings seed g \<Longrightarrow> gc_step g g' \<Longrightarrow> reachable_strings seed g'"

lemma newlstr_len:
  assumes "luaS_newlstr a str g = Inr r"
  shows "length str + 1 \<le> MAX_SIZE - sizeof_TString"
proof (cases "length str \<le> LUAI_MAXSHORTLEN")
  case True
  then show ?thesis by (simp add: LUAI_MAXSHORTLEN_def MAX_SIZE_def sizeof_TString_def)
next
  case False
  then show ?thesis using assms by (auto simp: luaS_newlstr_def split: if_splits)
qed

lemma new_len:
  assumes "luaS_new a addr str g = Inr (p, g')" "strings_ok g"
  shows "length str + 1 \<le> MAX_SIZE - sizeof_TString \<or> g' = g"
proof -
  obtain ts where "deref g (g_strcache g ! nat (point2uint addr mod int STRCACHE_SIZE)) = Inr ts"
    using assms(1) by (auto simp: luaS_new_def Let_def res_simps)
  then have "g' = g \<or> (\<exists>r. luaS_newlstr a str g = Inr r)"
    using assms(1) by (auto simp: luaS_new_def Let_def res_simps split: if_splits)
  then show ?thesis using newlstr_len by blast
qed

lemma step_ok: "gc_step g g' \<Longrightarrow> strings_ok g \<Longrightarrow> strings_ok g'"
proof (induction rule: gc_step.induct)
  case (step_newlstr a g str p g')
  from newlstr_makes [OF step_newlstr(3,1) newlstr_len [OF step_newlstr(2)]] step_newlstr(2) show ?case
    by (auto simp: makes_def)
next
  case (step_new a g str addr p g')
  then show ?case using new_len [OF step_new(3,4)] new_stringed [OF step_new(4,1) _ step_new(2), of addr]
    by (auto simp: stringed_def)
next
  case (step_fix p g g')
  then show ?case using fix_keeps by blast
next
  case (step_mark g p ts g')
  then show ?case using mark_keeps by blast
next
  case (step_atomic g g1 g')
  then show ?case using atomic_sweep [OF step_atomic(4,1)] by auto
next
  case (step_sweep n g g')
  then show ?case using sweeplist_spec [OF step_sweep(2), of n] by auto
next
  case (step_sizes g g')
  then show ?case using checkSizes_spec [OF step_sizes(3)] by auto
qed

lemma reachable_ok: "reachable_strings seed g \<Longrightarrow> strings_ok g"
proof (induction rule: reachable_strings.induct)
  case (reach_init a g)
  then show ?case using init_ok [of a seed] by auto
qed (rule step_ok)

lemma created: "\<exists>g. luaS_init a (new_gstate seed) = Inr g \<and> reachable_strings seed g \<and> g_sweepgc g = [] \<and> dom (g_heap g) = {a}"
  using init_ok [of a seed] reach_init by blast

section \<open>Sweeping in pieces\<close>

lemma sweeplist_add: "sweeplist (m + n) g = res_bind (sweeplist m g) (sweeplist n)"
proof (induction m arbitrary: g)
  case (Suc m)
  show ?case by (cases "sweep_next g") (auto simp: Suc)
qed simp

lemma sweeptolive_sweeps:
  assumes "sweeptolive f g = Inr g'"
  shows "\<exists>k. sweeplist k g = Inr g'"
  using assms
proof (induction f arbitrary: g)
  case (Suc f)
  from Suc.prems obtain b g1 where g1: "sweep_next g = Inr (b, g1)" "(if b then Inr g1 else sweeptolive f g1) = Inr g'"
    by (auto simp: res_simps)
  show ?case
  proof (cases b)
    case True
    then have "sweeplist 1 g = Inr g'" using g1 by simp
    then show ?thesis ..
  next
    case False
    with g1(2) Suc.IH [of g1] obtain k where "sweeplist k g1 = Inr g'" by auto
    then have "sweeplist (Suc k) g = Inr g'" using g1(1) by simp
    then show ?thesis ..
  qed
qed simp

lemma whole_sweep:
  assumes "strings_ok g" "length (g_sweepgc g) \<le> n"
  shows "\<exists>g'. sweeplist n g = Inr g' \<and> g_sweepgc g' = [] \<and> keeps g g' \<and>
    dom (g_heap g') = {p. \<exists>ts. g_heap g p = Some ts \<and> \<not> isdead g ts}"
proof -
  from sweeplist_spec [OF assms(1), of n] obtain g' where g': "sweeplist n g = Inr g'" "keeps g g'" "g_sweepgc g' = []"
    "dom (g_heap g') = dom (g_heap g) - doomed g (set (g_sweepgc g))" using assms(2) by auto
  have "p \<in> set (g_sweepgc g)" if "g_heap g p = Some ts" "isdead g ts" for p ts
    using assms(1) that by (auto simp: strings_ok_def dead_waiting_def)
  then have "dom (g_heap g') = {p. \<exists>ts. g_heap g p = Some ts \<and> \<not> isdead g ts}"
    using g'(4) by (auto simp: doomed_def)
  with g'(1-3) show ?thesis by blast
qed

lemma flip_dead:
  assumes "two_white g" "\<not> isdead g ts"
  shows "isdead (g\<lparr>g_currentwhite := otherwhite g\<rparr>) ts \<longleftrightarrow> iswhite ts"
  using assms by (auto simp: two_white_def isdead_def otherwhite_def iswhite_bits isdeadm_bits WHITEBITS_def)

section \<open>Closing a state\<close>

lemma all_dead: "g_currentwhite g = WHITEBITS \<Longrightarrow> isdeadm (otherwhite g) m"
  by (simp add: isdeadm_def otherwhite_def)

lemma sweepwholelist_all:
  assumes "tab_ok g" "g_currentwhite g = WHITEBITS" "distinct ps" "set ps \<subseteq> dom (g_heap g)"
  shows "\<exists>g'. sweepwholelist ps g = Inr ([], g') \<and> tab_ok g' \<and> g_currentwhite g' = WHITEBITS \<and> g_fixedgc g' = g_fixedgc g \<and>
    dom (g_heap g') = dom (g_heap g) - set ps"
  using assms
proof (induction ps arbitrary: g)
  case (Cons p ps)
  then obtain ts where ts: "g_heap g p = Some ts" by auto
  from freeobj_spec [OF Cons.prems(1) ts] obtain hs n where f:
    "freeobj p g = Inr (g\<lparr>strt_hash := hs, strt_nuse := n, g_heap := (g_heap g)(p := None)\<rparr>)"
    "tab_ok (g\<lparr>strt_hash := hs, strt_nuse := n, g_heap := (g_heap g)(p := None)\<rparr>)" by blast
  let ?g = "g\<lparr>strt_hash := hs, strt_nuse := n, g_heap := (g_heap g)(p := None)\<rparr>"
  have "sweep_one p g = Inr (False, ?g)"
    using ts f(1) all_dead [OF Cons.prems(2)] by (simp add: sweep_one_def deref_Some)
  moreover have "\<exists>g'. sweepwholelist ps ?g = Inr ([], g') \<and> tab_ok g' \<and> g_currentwhite g' = WHITEBITS \<and>
      g_fixedgc g' = g_fixedgc ?g \<and> dom (g_heap g') = dom (g_heap ?g) - set ps"
    by (rule Cons.IH) (use f(2) Cons.prems in auto)
  ultimately show ?case by auto
qed simp

lemma close_frees_all:
  assumes "strings_ok g"
  shows "\<exists>g'. luaC_freeallobjects g = Inr g' \<and> g_heap g' = Map.empty \<and> strt_nuse g' = 0"
proof -
  let ?g = "g\<lparr>g_currentwhite := WHITEBITS\<rparr>"
  have d: "distinct (g_allgc g @ g_sweepgc g)" "distinct (g_fixedgc g)"
    "set (g_allgc g @ g_sweepgc g) \<inter> set (g_fixedgc g) = {}"
    "set (g_allgc g @ g_sweepgc g) \<union> set (g_fixedgc g) = dom (g_heap g)"
    using assms by (auto simp: strings_ok_def owned_def)
  have t: "tab_ok ?g" by (rule tab_ok_cong [of _ g]) (use assms in \<open>auto simp: strings_ok_def\<close>)
  have s: "set (g_allgc g @ g_sweepgc g) \<subseteq> dom (g_heap ?g)" using d(4) by auto
  from sweepwholelist_all [OF t _ d(1) s] obtain g1 where g1: "sweepwholelist (g_allgc g @ g_sweepgc g) ?g = Inr ([], g1)"
    "tab_ok g1" "g_currentwhite g1 = WHITEBITS" "g_fixedgc g1 = g_fixedgc g"
    "dom (g_heap g1) = dom (g_heap g) - set (g_allgc g @ g_sweepgc g)" by auto
  have "set (g_fixedgc g) \<subseteq> dom (g_heap g1)" using d(3,4) g1(5) by auto
  from sweepwholelist_all [OF g1(2,3) d(2) this] obtain g2 where g2: "sweepwholelist (g_fixedgc g) g1 = Inr ([], g2)"
    "tab_ok g2" "dom (g_heap g2) = dom (g_heap g1) - set (g_fixedgc g)" by auto
  have e: "dom (g_heap g2) = {}" using g2(3) g1(5) d(4) by auto
  then have "{p. \<exists>ts. short_at g2 p ts} = {}" by (auto simp: short_at_def)
  then have "set (concat (strt_hash g2)) = {}" using g2(2) by (simp only: tab_ok_def in_table_def)
  then have "concat (strt_hash g2) = []" by (simp only: set_empty)
  then have "strt_nuse g2 = 0" using g2(2) by (simp only: tab_ok_def in_table_def) simp
  with e g1(1,4) g2(1) show ?thesis by (simp add: luaC_freeallobjects_def Let_def)
qed

section \<open>Properties\<close>

text \<open>
  C16. In every state that creating, fixing, marking and sweeping strings can reach, \<open>luaS_newlstr\<close> returns, without a fault,
  a string that has the bytes asked for and is not dead; when it is short, it is the only short string with these bytes in
  the store, whether it was there, dead or alive, or is new.
\<close>

theorem strings_interned:
  assumes "reachable_strings seed g" "a \<notin> dom (g_heap g)" "length str + 1 \<le> MAX_SIZE - sizeof_TString"
  shows "\<exists>p g' ts. luaS_newlstr a str g = Inr (p, g') \<and> reachable_strings seed g' \<and>
    g_heap g' p = Some ts \<and> ts_bytes ts = str \<and> \<not> isdead g' ts \<and>
    (length str \<le> LUAI_MAXSHORTLEN \<longrightarrow> (\<forall>q us. g_heap g' q = Some us \<and> \<not> ts_long us \<and> ts_bytes us = str \<longrightarrow> q = p))"
proof -
  from newlstr_makes [OF reachable_ok [OF assms(1)] assms(2,3)] obtain p g' ts where
    n: "luaS_newlstr a str g = Inr (p, g')" "strings_ok g'" "g_heap g' p = Some ts" "ts_bytes ts = str" "\<not> isdead g' ts"
      "length str \<le> LUAI_MAXSHORTLEN \<longrightarrow> \<not> ts_long ts"
    unfolding makes_def by blast
  have "reachable_strings seed g'" by (rule reach_step [OF assms(1) step_newlstr [OF assms(2) n(1)]])
  moreover have "q = p" if "length str \<le> LUAI_MAXSHORTLEN" "g_heap g' q = Some us" "\<not> ts_long us" "ts_bytes us = str" for q us
  proof -
    have "interned g'" using n(2) by (simp add: strings_ok_def tab_ok_def)
    moreover have "short_at g' p ts" "short_at g' q us" using that n(3,6) by (simp_all add: short_at_def)
    ultimately show "q = p" using that(4) n(4) by (simp add: interned_def)
  qed
  ultimately show ?thesis using n(1,3-5) by blast
qed

lemma strings_interned_witness:
  "\<exists>g p g' ts. luaS_init 1 (new_gstate 7) = Inr g \<and> luaS_newlstr 2 [104, 105] g = Inr (p, g') \<and>
    g_heap g' p = Some ts \<and> ts_bytes ts = [104, 105] \<and> \<not> isdead g' ts"
proof -
  from created [of 1 7] obtain g where g: "luaS_init 1 (new_gstate 7) = Inr g" "reachable_strings 7 g" "dom (g_heap g) = {1}"
    by blast
  have "2 \<notin> dom (g_heap g)" "length [104 :: byte, 105] + 1 \<le> MAX_SIZE - sizeof_TString"
    using g(3) by (simp_all add: MAX_SIZE_def sizeof_TString_def)
  from strings_interned [OF g(2) this] g(1) show ?thesis by blast
qed

text \<open>
  C17. \<open>luaS_new\<close>, which compares its argument only with the string in one slot of the cache, chosen by the argument's
  address, never reads a freed string, although the collector runs between its calls, and returns a string that is not dead
  and has exactly the bytes of the argument: those behind a hit at the same address are not taken for granted.
\<close>

theorem cached_strings:
  assumes "reachable_strings seed g" "a \<notin> dom (g_heap g)" "0 \<notin> set str" "length str + 1 \<le> MAX_SIZE - sizeof_TString"
  shows "\<exists>p g' ts. luaS_new a addr str g = Inr (p, g') \<and> reachable_strings seed g' \<and>
    g_heap g' p = Some ts \<and> ts_bytes ts = str \<and> \<not> isdead g' ts"
proof -
  from new_stringed [OF reachable_ok [OF assms(1)] assms(2,4,3), of addr] obtain p g' ts where
    n: "luaS_new a addr str g = Inr (p, g')" "g_heap g' p = Some ts" "ts_bytes ts = str" "\<not> isdead g' ts"
    unfolding stringed_def by blast
  with reach_step [OF assms(1) step_new [OF assms(2,3) n(1)]] show ?thesis by blast
qed

lemma cached_strings_witness:
  "\<exists>g p g' ts. luaS_init 1 (new_gstate 7) = Inr g \<and> luaS_new 2 4096 [104, 105] g = Inr (p, g') \<and>
    g_heap g' p = Some ts \<and> ts_bytes ts = [104, 105] \<and> \<not> isdead g' ts"
proof -
  from created [of 1 7] obtain g where g: "luaS_init 1 (new_gstate 7) = Inr g" "reachable_strings 7 g" "dom (g_heap g) = {1}"
    by blast
  have "2 \<notin> dom (g_heap g)" "0 \<notin> set [104 :: byte, 105]" "length [104 :: byte, 105] + 1 \<le> MAX_SIZE - sizeof_TString"
    using g(3) by (simp_all add: MAX_SIZE_def sizeof_TString_def)
  from cached_strings [OF g(2) this, of 4096] g(1) show ?thesis by blast
qed

lemma finish_and_sweep:
  assumes ok: "strings_ok g" and s: "g_sweepgc g = []"
  shows "\<exists>g1 g2. finish_atomic g = Inr g1 \<and> entersweep g1 = Inr g2 \<and>
    (\<forall>n\<ge>length (g_sweepgc g2). \<exists>g'. sweeplist n g2 = Inr g' \<and> g_sweepgc g' = [] \<and>
      dom (g_heap g') = {p. \<exists>ts. g_heap g p = Some ts \<and> \<not> iswhite ts})"
proof -
  from atomic_spec [OF ok s] obtain c where
    c: "finish_atomic g = Inr (g\<lparr>g_strcache := c, g_currentwhite := otherwhite g\<rparr>)" "strings_ok (flipped c g)" by blast
  let ?f = "flipped c g"
  have e: "entersweep (g\<lparr>g_strcache := c, g_currentwhite := otherwhite g\<rparr>) = sweeptolive (Suc (length (g_allgc g))) ?f"
    by (simp add: entersweep_def flipped_def del: sweeptolive.simps)
  have l: "length (g_sweepgc ?f) < Suc (length (g_allgc g))" by (simp add: flipped_def)
  from sweeptolive_spec [OF c(2) l] obtain g2 where g2: "sweeptolive (Suc (length (g_allgc g))) ?f = Inr g2" by blast
  from sweeptolive_sweeps [OF g2] obtain k where k: "sweeplist k ?f = Inr g2" by blast
  have d: "isdead ?f ts \<longleftrightarrow> iswhite ts" if "g_heap g p = Some ts" for p ts
  proof -
    have "\<not> isdead g ts" using ok s that by (auto simp: strings_ok_def dead_waiting_def)
    moreover have "isdead ?f ts \<longleftrightarrow> isdead (g\<lparr>g_currentwhite := otherwhite g\<rparr>) ts"
      by (simp add: flipped_def isdead_def otherwhite_def)
    ultimately show ?thesis using flip_dead ok by (simp add: strings_ok_def)
  qed
  have "\<exists>g'. sweeplist n g2 = Inr g' \<and> g_sweepgc g' = [] \<and>
      dom (g_heap g') = {p. \<exists>ts. g_heap g p = Some ts \<and> \<not> iswhite ts}" if n: "length (g_sweepgc g2) \<le> n" for n
  proof -
    from sweeplist_spec [OF c(2), of k] k have "g_sweepgc g2 = drop k (g_sweepgc ?f)" by auto
    then have "length (g_sweepgc ?f) \<le> k + n" using n by simp
    from whole_sweep [OF c(2) this] obtain g' where g': "sweeplist (k + n) ?f = Inr g'" "g_sweepgc g' = []"
      "dom (g_heap g') = {p. \<exists>ts. g_heap ?f p = Some ts \<and> \<not> isdead ?f ts}" by blast
    have "sweeplist n g2 = Inr g'" using g'(1) k by (simp add: sweeplist_add)
    moreover have "{p. \<exists>ts. g_heap ?f p = Some ts \<and> \<not> isdead ?f ts} = {p. \<exists>ts. g_heap g p = Some ts \<and> \<not> iswhite ts}"
      using d by (auto simp: flipped_def)
    ultimately show ?thesis using g'(2,3) by auto
  qed
  then show ?thesis using c(1) e g2 by auto
qed

text \<open>
  C18. From every reachable state outside a sweep, the end of the mark phase and a sweep free exactly the strings that are
  white, with no fault; a table whose strings are all freed when the state is closed passes the assertion that it is empty.
\<close>

theorem white_strings_freed:
  assumes "reachable_strings seed g" "g_sweepgc g = []"
  shows "(\<exists>g1 g2. finish_atomic g = Inr g1 \<and> entersweep g1 = Inr g2 \<and>
      (\<forall>n\<ge>length (g_sweepgc g2). \<exists>g'. sweeplist n g2 = Inr g' \<and> g_sweepgc g' = [] \<and>
        dom (g_heap g') = {p. \<exists>ts. g_heap g p = Some ts \<and> \<not> iswhite ts})) \<and>
    (\<exists>g'. luaC_freeallobjects g = Inr g' \<and> g_heap g' = Map.empty \<and> strt_nuse g' = 0)"
  using finish_and_sweep [OF reachable_ok [OF assms(1)] assms(2)] close_frees_all [OF reachable_ok [OF assms(1)]] by blast

lemma white_strings_freed_witness:
  "\<exists>g g'. luaS_init 1 (new_gstate 7) = Inr g \<and> luaC_freeallobjects g = Inr g' \<and> g_heap g' = Map.empty"
proof -
  from created [of 1 7] obtain g where g: "luaS_init 1 (new_gstate 7) = Inr g" "reachable_strings 7 g" "g_sweepgc g = []"
    by blast
  from white_strings_freed [OF g(2,3)] g(1) show ?thesis by blast
qed

end
