(* ===== verification/LuaMatch.thy ===== *)
theory LuaMatch
  imports LuaApi
begin

text \<open>
  Pattern matching of the embedded Lua (\<open>src/src/logic/scriptengine/lua/lstrlib.c\<close>): the backtracking matcher.

  Pointers into the subject and the pattern are positions; both are followed by a zero, which can be read, and a read behind
  it is the fault \<open>OutOfBounds\<close>. The recursion of \<open>match\<close> goes only to later positions of the pattern, so that fuel for
  its length plus one is always enough; the loops have their own termination proofs.
\<close>

section \<open>Character classes of the C library\<close>

definition c_islower :: "int \<Rightarrow> bool" where "c_islower c \<longleftrightarrow> 97 \<le> c \<and> c \<le> 122"
definition c_isupper :: "int \<Rightarrow> bool" where "c_isupper c \<longleftrightarrow> 65 \<le> c \<and> c \<le> 90"
definition c_isalpha :: "int \<Rightarrow> bool" where "c_isalpha c \<longleftrightarrow> c_islower c \<or> c_isupper c"
definition c_isdigit :: "int \<Rightarrow> bool" where "c_isdigit c \<longleftrightarrow> 48 \<le> c \<and> c \<le> 57"
definition c_isalnum :: "int \<Rightarrow> bool" where "c_isalnum c \<longleftrightarrow> c_isalpha c \<or> c_isdigit c"
definition c_isxdigit :: "int \<Rightarrow> bool" where
  "c_isxdigit c \<longleftrightarrow> c_isdigit c \<or> 65 \<le> c \<and> c \<le> 70 \<or> 97 \<le> c \<and> c \<le> 102"
definition c_isspace :: "int \<Rightarrow> bool" where "c_isspace c \<longleftrightarrow> c = 32 \<or> 9 \<le> c \<and> c \<le> 13"
definition c_iscntrl :: "int \<Rightarrow> bool" where "c_iscntrl c \<longleftrightarrow> 0 \<le> c \<and> c < 32 \<or> c = 127"
definition c_isgraph :: "int \<Rightarrow> bool" where "c_isgraph c \<longleftrightarrow> 33 \<le> c \<and> c \<le> 126"
definition c_ispunct :: "int \<Rightarrow> bool" where "c_ispunct c \<longleftrightarrow> c_isgraph c \<and> \<not> c_isalnum c"
definition c_tolower :: "int \<Rightarrow> int" where "c_tolower c = (if c_isupper c then c + 32 else c)"
definition c_toupper :: "int \<Rightarrow> int" where "c_toupper c = (if c_islower c then c - 32 else c)"

section \<open>State\<close>

text \<open>A capture: its start, and its length or one of the two marks \<open>CAP_UNFINISHED\<close> and \<open>CAP_POSITION\<close>.\<close>

definition CAP_UNFINISHED :: int where "CAP_UNFINISHED = - 1"
definition CAP_POSITION :: int where "CAP_POSITION = - 2"
definition LUA_MAXCAPTURES :: nat where "LUA_MAXCAPTURES = 32"
definition MAXCCALLS :: nat where "MAXCCALLS = 200"

text \<open>The first \<open>level\<close> entries of the array \<open>capture\<close>; those behind are never read.\<close>

record MatchState =
  matchdepth :: nat
  capture :: "(nat \<times> int) list"

definition level :: "MatchState \<Rightarrow> nat" where
  "level ms = length (capture ms)"

definition ch :: "byte list \<Rightarrow> nat \<Rightarrow> lua_error + int" where
  "ch str i = of_fault (rd str i)"

section \<open>Single characters\<close>

definition check_capture :: "MatchState \<Rightarrow> int \<Rightarrow> lua_error + nat" where
  "check_capture ms l =
     (let i = l - 49 in
      if i < 0 \<or> int (level ms) \<le> i \<or> snd (capture ms ! nat i) = CAP_UNFINISHED then
        Inl (LuaError (''invalid capture index %'' @ [char_of (nat l)]))
      else Inr (nat i))"

fun last_unfinished :: "(nat \<times> int) list \<Rightarrow> nat \<Rightarrow> lua_error + nat" where
  "last_unfinished cs 0 = Inl (LuaError ''invalid pattern capture'')"
| "last_unfinished cs (Suc l) = (if snd (cs ! l) = CAP_UNFINISHED then Inr l else last_unfinished cs l)"

definition capture_to_close :: "MatchState \<Rightarrow> lua_error + nat" where
  "capture_to_close ms = last_unfinished (capture ms) (level ms)"

text \<open>\<open>classend\<close>, with the loop that looks for the bracket.\<close>

function bracket_end :: "byte list \<Rightarrow> nat \<Rightarrow> lua_error + nat" where
  "bracket_end pat p =
     (if p = length pat then Inl (LuaError ''malformed pattern (missing ']')'')
      else if length pat < p then Inl (Fault OutOfBounds)
      else res_bind (ch pat p) (\<lambda>c.
        let p = (if c = 37 \<and> p + 1 < length pat then p + 2 else p + 1) in
        res_bind (ch pat p) (\<lambda>c. if c = 93 then Inr (p + 1) else bracket_end pat p)))"
  by pat_completeness auto
termination by (relation "measure (\<lambda>(pat, p). length pat - p)") (auto split: if_splits)

declare bracket_end.simps [simp del]

definition classend :: "byte list \<Rightarrow> nat \<Rightarrow> lua_error + nat" where
  "classend pat p =
     res_bind (ch pat p) (\<lambda>c.
       if c = 37 then
         (if p + 1 = length pat then Inl (LuaError ''malformed pattern (ends with '%')'') else Inr (p + 2))
       else if c = 91 then
         res_bind (ch pat (p + 1)) (\<lambda>c. bracket_end pat (if c = 94 then p + 2 else p + 1))
       else Inr (p + 1))"

definition match_class :: "int \<Rightarrow> int \<Rightarrow> bool" where
  "match_class c cl =
     (let l = c_tolower cl;
          res = (if l = 97 then Some (c_isalpha c)
            else if l = 99 then Some (c_iscntrl c)
            else if l = 100 then Some (c_isdigit c)
            else if l = 103 then Some (c_isgraph c)
            else if l = 108 then Some (c_islower c)
            else if l = 112 then Some (c_ispunct c)
            else if l = 115 then Some (c_isspace c)
            else if l = 117 then Some (c_isupper c)
            else if l = 119 then Some (c_isalnum c)
            else if l = 120 then Some (c_isxdigit c)
            else if l = 122 then Some (c = 0)
            else None) in
      case res of None \<Rightarrow> cl = c | Some r \<Rightarrow> if c_islower cl then r else \<not> r)"

function bracket_loop :: "byte list \<Rightarrow> int \<Rightarrow> bool \<Rightarrow> nat \<Rightarrow> nat \<Rightarrow> lua_error + bool" where
  "bracket_loop pat c sig p ec =
     (if \<not> p + 1 < ec then Inr (\<not> sig)
      else let p = p + 1 in
        res_bind (ch pat p) (\<lambda>x.
          if x = 37 then
            res_bind (ch pat (p + 1)) (\<lambda>y. if match_class c y then Inr sig else bracket_loop pat c sig (p + 1) ec)
          else
            res_bind (ch pat (p + 1)) (\<lambda>y.
              if y = 45 \<and> p + 2 < ec then
                res_bind (ch pat (p + 2)) (\<lambda>z.
                  if x \<le> c \<and> c \<le> z then Inr sig else bracket_loop pat c sig (p + 2) ec)
              else if x = c then Inr sig
              else bracket_loop pat c sig p ec)))"
  by pat_completeness auto
termination by (relation "measure (\<lambda>(pat, c, sig, p, ec). ec - p)") auto

declare bracket_loop.simps [simp del]

definition matchbracketclass :: "byte list \<Rightarrow> int \<Rightarrow> nat \<Rightarrow> nat \<Rightarrow> lua_error + bool" where
  "matchbracketclass pat c p ec =
     res_bind (ch pat (p + 1)) (\<lambda>x.
       if x = 94 then bracket_loop pat c False (p + 1) ec else bracket_loop pat c True p ec)"

definition singlematch :: "byte list \<Rightarrow> byte list \<Rightarrow> nat \<Rightarrow> nat \<Rightarrow> nat \<Rightarrow> lua_error + bool" where
  "singlematch src pat s p ep =
     (if length src \<le> s then Inr False
      else res_bind (ch src s) (\<lambda>c. res_bind (ch pat p) (\<lambda>x.
        if x = 46 then Inr True
        else if x = 37 then res_bind (ch pat (p + 1)) (\<lambda>y. Inr (match_class c y))
        else if x = 91 then matchbracketclass pat c p (ep - 1)
        else Inr (x = c))))"

section \<open>Balanced strings and back references\<close>

function balance_loop :: "byte list \<Rightarrow> int \<Rightarrow> int \<Rightarrow> nat \<Rightarrow> int \<Rightarrow> lua_error + nat option" where
  "balance_loop src b e s cont =
     (if \<not> s + 1 < length src then Inr None
      else let s = s + 1 in
        res_bind (ch src s) (\<lambda>c.
          if c = e then (if cont - 1 = 0 then Inr (Some (s + 1)) else balance_loop src b e s (cont - 1))
          else if c = b then balance_loop src b e s (cont + 1)
          else balance_loop src b e s cont))"
  by pat_completeness auto
termination by (relation "measure (\<lambda>(src, b, e, s, cont). length src - s)") auto

declare balance_loop.simps [simp del]

definition matchbalance :: "byte list \<Rightarrow> byte list \<Rightarrow> nat \<Rightarrow> nat \<Rightarrow> lua_error + nat option" where
  "matchbalance src pat s p =
     (if length pat \<le> p + 1 then Inl (LuaError ''malformed pattern (missing arguments to '%b')'')
      else res_bind (ch src s) (\<lambda>c. res_bind (ch pat p) (\<lambda>b.
        if c \<noteq> b then Inr None
        else res_bind (ch pat (p + 1)) (\<lambda>e. balance_loop src b e s 1))))"

text \<open>
  The length of a capture is compared as an unsigned number, so that a position capture never matches; the comparison of the
  bytes reads \<open>len\<close> bytes from the start of the capture.
\<close>

definition match_capture :: "byte list \<Rightarrow> MatchState \<Rightarrow> nat \<Rightarrow> int \<Rightarrow> lua_error + nat option" where
  "match_capture src ms s l =
     res_bind (check_capture ms l) (\<lambda>l.
       let (init, len) = capture ms ! l in
       if u64 len \<le> int (length src - s) then
         (if length src < init + nat len then Inl (Fault OutOfBounds)
          else Inr (if take (nat len) (drop init src) = take (nat len) (drop s src) then Some (s + nat len) else None))
       else Inr None)"

section \<open>Repetitions and captures\<close>

text \<open>The functions that \<open>match\<close> calls to go on have it as an argument, as it is for the rest of the pattern.\<close>

type_synonym matcher = "nat \<Rightarrow> nat \<Rightarrow> MatchState \<Rightarrow> lua_error + nat option \<times> MatchState"

lemma singlematch_less: "singlematch src pat s p ep = Inr True \<Longrightarrow> s < length src"
  by (auto simp: singlematch_def split: if_splits)

function count_single :: "byte list \<Rightarrow> byte list \<Rightarrow> nat \<Rightarrow> nat \<Rightarrow> nat \<Rightarrow> nat \<Rightarrow> lua_error + nat" where
  "count_single src pat s p ep i =
     (case singlematch src pat (s + i) p ep of
        Inl e \<Rightarrow> Inl e
      | Inr False \<Rightarrow> Inr i
      | Inr True \<Rightarrow> count_single src pat s p ep (i + 1))"
  by pat_completeness auto
termination
  by (relation "measure (\<lambda>(src, pat, s, p, ep, i). length src - (s + i))") (auto dest!: singlematch_less)

declare count_single.simps [simp del]

fun expand_down :: "matcher \<Rightarrow> nat \<Rightarrow> nat \<Rightarrow> nat \<Rightarrow> MatchState \<Rightarrow> lua_error + nat option \<times> MatchState" where
  "expand_down m s q 0 ms = m s q ms"
| "expand_down m s q (Suc i) ms =
     res_bind (m (s + Suc i) q ms) (\<lambda>(res, ms).
       case res of Some e \<Rightarrow> Inr (Some e, ms) | None \<Rightarrow> expand_down m s q i ms)"

definition max_expand :: "matcher \<Rightarrow> byte list \<Rightarrow> byte list \<Rightarrow> nat \<Rightarrow> nat \<Rightarrow> nat \<Rightarrow> MatchState \<Rightarrow> lua_error + nat option \<times> MatchState" where
  "max_expand m src pat s p ep ms = res_bind (count_single src pat s p ep 0) (\<lambda>i. expand_down m s (ep + 1) i ms)"

function min_expand :: "matcher \<Rightarrow> byte list \<Rightarrow> byte list \<Rightarrow> nat \<Rightarrow> nat \<Rightarrow> nat \<Rightarrow> MatchState \<Rightarrow> lua_error + nat option \<times> MatchState" where
  "min_expand m src pat s p ep ms =
     res_bind (m s (ep + 1) ms) (\<lambda>(res, ms).
       case res of
         Some e \<Rightarrow> Inr (Some e, ms)
       | None \<Rightarrow>
           (case singlematch src pat s p ep of
              Inl e \<Rightarrow> Inl e
            | Inr False \<Rightarrow> Inr (None, ms)
            | Inr True \<Rightarrow> min_expand m src pat (s + 1) p ep ms))"
  by pat_completeness auto
termination
  by (relation "measure (\<lambda>(m, src, pat, s, p, ep, ms). length src - s)") (auto dest!: singlematch_less)

declare min_expand.simps [simp del]

definition start_capture :: "matcher \<Rightarrow> nat \<Rightarrow> nat \<Rightarrow> int \<Rightarrow> MatchState \<Rightarrow> lua_error + nat option \<times> MatchState" where
  "start_capture m s p what ms =
     (if LUA_MAXCAPTURES \<le> level ms then Inl (LuaError ''too many captures'')
      else res_bind (m s p (ms\<lparr>capture := capture ms @ [(s, what)]\<rparr>)) (\<lambda>(res, ms).
        Inr (res, if res = None then ms\<lparr>capture := butlast (capture ms)\<rparr> else ms)))"

definition end_capture :: "matcher \<Rightarrow> nat \<Rightarrow> nat \<Rightarrow> MatchState \<Rightarrow> lua_error + nat option \<times> MatchState" where
  "end_capture m s p ms =
     res_bind (capture_to_close ms) (\<lambda>l.
       let init = fst (capture ms ! l) in
       res_bind (m s p (ms\<lparr>capture := (capture ms)[l := (init, int s - int init)]\<rparr>)) (\<lambda>(res, ms).
         Inr (res, if res = None then ms\<lparr>capture := (capture ms)[l := (fst (capture ms ! l), CAP_UNFINISHED)]\<rparr> else ms)))"

section \<open>The matcher\<close>

definition with_depth :: "matcher \<Rightarrow> matcher" where
  "with_depth body s p ms =
     (if matchdepth ms = 0 then Inl (LuaError ''pattern too complex'')
      else res_bind (body s p (ms\<lparr>matchdepth := matchdepth ms - 1\<rparr>)) (\<lambda>(res, ms).
        Inr (res, ms\<lparr>matchdepth := matchdepth ms + 1\<rparr>)))"

definition is_suffix :: "int \<Rightarrow> bool" where
  "is_suffix c \<longleftrightarrow> c = 42 \<or> c = 63 \<or> c = 45"

text \<open>The default case: one character class with an optional suffix. \<open>again\<close> is the jump to \<open>init\<close>.\<close>

definition match_default :: "matcher \<Rightarrow> matcher \<Rightarrow> byte list \<Rightarrow> byte list \<Rightarrow> matcher" where
  "match_default m again src pat s p ms =
     res_bind (classend pat p) (\<lambda>ep.
     res_bind (singlematch src pat s p ep) (\<lambda>one.
     res_bind (ch pat ep) (\<lambda>suffix.
       if \<not> one then (if is_suffix suffix then again s (ep + 1) ms else Inr (None, ms))
       else if suffix = 63 then
         res_bind (m (s + 1) (ep + 1) ms) (\<lambda>(res, ms).
           case res of Some e \<Rightarrow> Inr (Some e, ms) | None \<Rightarrow> again s (ep + 1) ms)
       else if suffix = 43 then max_expand m src pat (s + 1) p ep ms
       else if suffix = 42 then max_expand m src pat s p ep ms
       else if suffix = 45 then min_expand m src pat s p ep ms
       else again (s + 1) ep ms)))"

definition frontier :: "byte list \<Rightarrow> byte list \<Rightarrow> nat \<Rightarrow> nat \<Rightarrow> nat \<Rightarrow> lua_error + bool" where
  "frontier src pat s p ep =
     res_bind (if s = 0 then Inr 0 else ch src (s - 1)) (\<lambda>previous.
     res_bind (matchbracketclass pat previous p (ep - 1)) (\<lambda>before.
       if before then Inr False
       else res_bind (ch src s) (\<lambda>c. matchbracketclass pat c p (ep - 1))))"

fun do_match :: "nat \<Rightarrow> byte list \<Rightarrow> byte list \<Rightarrow> matcher" where
  "do_match 0 src pat s p ms = Inl (Fault OutOfFuel)"
| "do_match (Suc f) src pat s p ms =
     (let again = do_match f src pat; m = with_depth again in
      if p = length pat then Inr (Some s, ms)
      else res_bind (ch pat p) (\<lambda>c.
        if c = 40 then
          res_bind (ch pat (p + 1)) (\<lambda>c.
            if c = 41 then start_capture m s (p + 2) CAP_POSITION ms else start_capture m s (p + 1) CAP_UNFINISHED ms)
        else if c = 41 then end_capture m s (p + 1) ms
        else if c = 36 \<and> p + 1 = length pat then Inr (if s = length src then Some s else None, ms)
        else if c = 37 then
          res_bind (ch pat (p + 1)) (\<lambda>c.
            if c = 98 then
              res_bind (matchbalance src pat s (p + 2)) (\<lambda>r.
                case r of Some s \<Rightarrow> again s (p + 4) ms | None \<Rightarrow> Inr (None, ms))
            else if c = 102 then
              res_bind (ch pat (p + 2)) (\<lambda>c.
                if c \<noteq> 91 then Inl (LuaError ''missing '[' after '%f' in pattern'')
                else res_bind (classend pat (p + 2)) (\<lambda>ep.
                  res_bind (frontier src pat s (p + 2) ep) (\<lambda>b. if b then again s ep ms else Inr (None, ms))))
            else if c_isdigit c then
              res_bind (match_capture src ms s c) (\<lambda>r.
                case r of Some s \<Rightarrow> again s (p + 2) ms | None \<Rightarrow> Inr (None, ms))
            else match_default m again src pat s p ms)
        else match_default m again src pat s p ms))"

text \<open>\<open>match\<close> with enough fuel.\<close>

definition match_fuel :: "byte list \<Rightarrow> nat" where
  "match_fuel pat = Suc (length pat)"

definition match :: "byte list \<Rightarrow> byte list \<Rightarrow> matcher" where
  "match src pat = with_depth (do_match (match_fuel pat) src pat)"

text \<open>
  What the matcher computes: \<open>ways\<close> lists, in the order of preference, all the ways in which the rest of a pattern matches
  from a position, and \<open>match\<close> returns the first of them, or fails if there is none, with its state as it was.
\<close>

section \<open>Bounds\<close>

lemma ch_ok: "i \<le> length str \<Longrightarrow> \<exists>c. ch str i = Inr c"
  using rd_ok [of i str] by (auto simp: ch_def)

lemma ch_end: "ch str (length str) = Inr 0"
  by (simp add: ch_def rd_def)

definition in_pattern :: "byte list \<Rightarrow> nat \<Rightarrow> lua_error + nat \<Rightarrow> bool" where
  "in_pattern pat p r \<longleftrightarrow> (case r of Inl e \<Rightarrow> \<exists>m. e = LuaError m | Inr e \<Rightarrow> p < e \<and> e \<le> length pat)"

lemma bracket_end_ok: "p \<le> length pat \<Longrightarrow> in_pattern pat p (bracket_end pat p)"
proof (induction pat p rule: bracket_end.induct)
  case (1 pat p)
  show ?case
  proof (cases "p = length pat")
    case True
    then show ?thesis by (subst bracket_end.simps) (simp add: in_pattern_def)
  next
    case False
    then have p: "p < length pat" using 1 by simp
    then obtain c where c: "ch pat p = Inr c" using ch_ok [of p pat] by auto
    define q where "q = (if c = 37 \<and> p + 1 < length pat then p + 2 else p + 1)"
    have q: "p < q" "q \<le> length pat" using p by (auto simp: q_def)
    then obtain d where d: "ch pat q = Inr d" using ch_ok by blast
    have e: "bracket_end pat p = (if d = 93 then Inr (q + 1) else bracket_end pat q)"
      using p c d unfolding bracket_end.simps [of pat p] q_def by (auto simp: Let_def)
    show ?thesis
    proof (cases "d = 93")
      case True
      then have "q \<noteq> length pat" using d ch_end [of pat] by auto
      then show ?thesis using e True q by (simp add: in_pattern_def)
    next
      case d93: False
      have "in_pattern pat q (bracket_end pat q)"
        using "1.IH" [OF False _ q_def d93 q(2)] p by simp
      then show ?thesis using e d93 q(1) by (auto simp: in_pattern_def split: sum.splits)
    qed
  qed
qed

lemma classend_ok:
  assumes "p < length pat"
  shows "in_pattern pat p (classend pat p)"
proof -
  obtain c where c: "ch pat p = Inr c" using ch_ok [of p pat] assms by auto
  obtain d where d: "ch pat (p + 1) = Inr d" using ch_ok [of "p + 1" pat] assms by auto
  define q where "q = (if d = 94 then p + 2 else p + 1)"
  have "q \<le> length pat"
  proof (cases "p + 1 = length pat")
    case True
    then show ?thesis using d ch_end [of pat] by (auto simp: q_def)
  qed (use assms in \<open>auto simp: q_def\<close>)
  then have "in_pattern pat q (bracket_end pat q)" by (rule bracket_end_ok)
  moreover have "p < q" by (simp add: q_def)
  ultimately have b: "in_pattern pat p (bracket_end pat q)" by (auto simp: in_pattern_def split: sum.splits)
  have "classend pat p = (if c = 37 then
      (if p + 1 = length pat then Inl (LuaError ''malformed pattern (ends with '%')'') else Inr (p + 2))
    else if c = 91 then bracket_end pat q else Inr (p + 1))"
    unfolding classend_def c d q_def res_bind_Inr ..
  then show ?thesis using assms b by (auto simp: in_pattern_def)
qed

lemma bracket_loop_ok: "ec \<le> length pat \<Longrightarrow> \<exists>b. bracket_loop pat c sig p ec = Inr b"
proof (induction pat c sig p ec rule: bracket_loop.induct)
  case (1 pat c sig p ec)
  show ?case
  proof (cases "p + 1 < ec")
    case False
    then show ?thesis by (subst bracket_loop.simps) simp
  next
    case True
    then obtain x y where x: "ch pat (p + 1) = Inr x" "ch pat (p + 1 + 1) = Inr y"
      using ch_ok [of "p + 1" pat] ch_ok [of "p + 1 + 1" pat] 1(4) by auto
    note r = bracket_loop.simps [of pat c sig p ec]
    consider "x = 37" | "x \<noteq> 37" "y = 45" "p + 1 + 2 < ec" | "x \<noteq> 37" "\<not> (y = 45 \<and> p + 1 + 2 < ec)" by blast
    then show ?thesis
    proof cases
      case esc: 1
      show ?thesis
      proof (cases "match_class c y")
        case m: True
        then show ?thesis using True x esc by (subst r) simp
      next
        case m: False
        have "\<exists>b. bracket_loop pat c sig (p + 1 + 1) ec = Inr b" by (rule 1(1)) (use True x esc m 1(4) in auto)
        then show ?thesis using True x esc m by (subst r) simp
      qed
    next
      case range: 2
      then obtain z where z: "ch pat (p + 1 + 2) = Inr z" using ch_ok [of "p + 1 + 2" pat] 1(4) by auto
      show ?thesis
      proof (cases "x \<le> c \<and> c \<le> z")
        case m: True
        then show ?thesis using True x range z by (subst r) (simp add: numeral_3_eq_3)
      next
        case m: False
        have "\<exists>b. bracket_loop pat c sig (p + 1 + 2) ec = Inr b" by (rule 1(2)) (use True x range z m 1(4) in auto)
        then show ?thesis using True x range z m by (subst r) (simp add: numeral_3_eq_3)
      qed
    next
      case single: 3
      show ?thesis
      proof (cases "x = c")
        case m: True
        then show ?thesis using True x single by (subst r) auto
      next
        case m: False
        have "\<exists>b. bracket_loop pat c sig (p + 1) ec = Inr b" by (rule 1(3)) (use True x single m 1(4) in auto)
        then show ?thesis using True x single m by (subst r) auto
      qed
    qed
  qed
qed

lemma matchbracketclass_ok:
  assumes "p < length pat" "ec \<le> length pat"
  shows "\<exists>b. matchbracketclass pat c p ec = Inr b"
proof -
  obtain x where "ch pat (p + 1) = Inr x" using ch_ok [of "p + 1" pat] assms by auto
  then show ?thesis using bracket_loop_ok [OF assms(2)] by (simp add: matchbracketclass_def)
qed

lemma singlematch_ok:
  assumes "p < length pat" "ep \<le> length pat"
  shows "\<exists>b. singlematch src pat s p ep = Inr b"
proof (cases "s < length src")
  case True
  then obtain c x y where "ch src s = Inr c" "ch pat p = Inr x" "ch pat (p + 1) = Inr y"
    using ch_ok [of s src] ch_ok [of p pat] ch_ok [of "p + 1" pat] assms by auto
  moreover have "ep - 1 \<le> length pat" using assms by simp
  ultimately show ?thesis using matchbracketclass_ok [OF assms(1), of "ep - 1" c] by (auto simp: singlematch_def)
next
  case False
  then have "singlematch src pat s p ep = Inr False" by (simp add: singlematch_def)
  then show ?thesis by blast
qed

lemma count_single_ok:
  assumes "p < length pat" "ep \<le> length pat" "s + i \<le> length src"
  shows "\<exists>n. count_single src pat s p ep i = Inr n \<and> i \<le> n \<and> s + n \<le> length src \<and>
    (\<forall>j. i \<le> j \<longrightarrow> j < n \<longrightarrow> singlematch src pat (s + j) p ep = Inr True) \<and> singlematch src pat (s + n) p ep = Inr False"
  using assms
proof (induction src pat s p ep i rule: count_single.induct)
  case (1 src pat s p ep i)
  obtain b where b: "singlematch src pat (s + i) p ep = Inr b" using singlematch_ok [OF 1(2,3)] by blast
  show ?case
  proof (cases b)
    case False
    then have "count_single src pat s p ep i = Inr i" using b by (subst count_single.simps) simp
    then show ?thesis using b False 1(4) by auto
  next
    case True
    then have e: "count_single src pat s p ep i = count_single src pat s p ep (i + 1)" using b by (subst count_single.simps) simp
    have "s + (i + 1) \<le> length src" using singlematch_less [of src pat "s + i" p ep] b True by simp
    from 1(1) [OF _ _ 1(2,3) this, of b] b True obtain n where n: "count_single src pat s p ep (i + 1) = Inr n" "i + 1 \<le> n"
      "s + n \<le> length src" "\<forall>j. i + 1 \<le> j \<longrightarrow> j < n \<longrightarrow> singlematch src pat (s + j) p ep = Inr True"
      "singlematch src pat (s + n) p ep = Inr False" by auto
    have "singlematch src pat (s + j) p ep = Inr True" if "i \<le> j" "j < n" for j
      using n(4) b True that by (cases "j = i") auto
    then show ?thesis using e n(1-3,5) by auto
  qed
qed

definition in_subject :: "byte list \<Rightarrow> nat \<Rightarrow> lua_error + nat option \<Rightarrow> bool" where
  "in_subject src s r \<longleftrightarrow> (case r of Inl e \<Rightarrow> \<exists>m. e = LuaError m | Inr None \<Rightarrow> True | Inr (Some e) \<Rightarrow> s \<le> e \<and> e \<le> length src)"

lemma balance_loop_ok: "in_subject src s (balance_loop src b e s cont)"
proof (induction src b e s cont rule: balance_loop.induct)
  case (1 src b e s cont)
  note r = balance_loop.simps [of src b e s cont]
  show ?case
  proof (cases "s + 1 < length src")
    case False
    then show ?thesis by (subst r) (simp add: in_subject_def)
  next
    case True
    then obtain c where c: "ch src (s + 1) = Inr c" using ch_ok [of "s + 1" src] by auto
    have up: "in_subject src s x" if "in_subject src (s + 1) x" for x
      using that by (auto simp: in_subject_def split: sum.splits option.splits)
    show ?thesis
      using True c up [OF 1(1)] up [OF 1(2)] up [OF 1(3)]
      by (subst r) (auto simp: in_subject_def Let_def)
  qed
qed

lemma matchbalance_ok:
  assumes "s \<le> length src" "p \<le> length pat"
  shows "in_subject src s (matchbalance src pat s p)"
    "matchbalance src pat s p = Inr (Some e) \<Longrightarrow> p + 2 \<le> length pat"
proof -
  show "in_subject src s (matchbalance src pat s p)"
  proof (cases "length pat \<le> p + 1")
    case True
    then show ?thesis by (simp add: matchbalance_def in_subject_def)
  next
    case False
    then obtain c b e where "ch src s = Inr c" "ch pat p = Inr b" "ch pat (p + 1) = Inr e"
      using ch_ok [of s src] ch_ok [of p pat] ch_ok [of "p + 1" pat] assms by auto
    then show ?thesis using False balance_loop_ok [of src s b e 1] by (auto simp: matchbalance_def in_subject_def)
  qed
  show "matchbalance src pat s p = Inr (Some e) \<Longrightarrow> p + 2 \<le> length pat"
    by (auto simp: matchbalance_def split: if_splits)
qed

lemma frontier_ok:
  assumes "s \<le> length src" "p < length pat" "ep \<le> length pat"
  shows "\<exists>b. frontier src pat s p ep = Inr b"
proof -
  have e: "ep - 1 \<le> length pat" using assms(3) by simp
  obtain c where c: "ch src s = Inr c" using ch_ok [of s src] assms by auto
  obtain d where d: "(if s = 0 then Inr 0 else ch src (s - 1)) = Inr d"
    using ch_ok [of "s - 1" src, OF diff_le_self [THEN le_trans, OF assms(1)]] by (cases "s = 0") auto
  obtain x y where x: "matchbracketclass pat d p (ep - 1) = Inr x" "matchbracketclass pat c p (ep - 1) = Inr y"
    using matchbracketclass_ok [OF assms(2) e] by meson
  show ?thesis unfolding frontier_def d c res_bind_Inr x by (cases x) auto
qed

section \<open>Captures\<close>

definition cap_ok :: "byte list \<Rightarrow> nat \<Rightarrow> (nat \<times> int) list \<Rightarrow> bool" where
  "cap_ok src s cs \<longleftrightarrow> length cs \<le> LUA_MAXCAPTURES \<and>
     (\<forall>(i, l)\<in>set cs. i \<le> s \<and> (l = CAP_UNFINISHED \<or> l = CAP_POSITION \<or> 0 \<le> l \<and> int i + l \<le> int (length src)))"

lemma cap_ok_later: "cap_ok src s cs \<Longrightarrow> s \<le> s' \<Longrightarrow> cap_ok src s' cs"
  by (fastforce simp: cap_ok_def)

lemma cap_ok_nth:
  assumes "cap_ok src s cs" "l < length cs"
  shows "fst (cs ! l) \<le> s" "snd (cs ! l) = CAP_UNFINISHED \<or> snd (cs ! l) = CAP_POSITION \<or>
    0 \<le> snd (cs ! l) \<and> int (fst (cs ! l)) + snd (cs ! l) \<le> int (length src)"
proof -
  have "cs ! l \<in> set cs" using assms(2) by simp
  from bspec [OF conjunct2 [OF assms(1) [unfolded cap_ok_def]] this] show "fst (cs ! l) \<le> s" "snd (cs ! l) = CAP_UNFINISHED \<or> snd (cs ! l) = CAP_POSITION \<or>
    0 \<le> snd (cs ! l) \<and> int (fst (cs ! l)) + snd (cs ! l) \<le> int (length src)"
    by (auto simp: split_beta)
qed

lemma last_unfinished_ok:
  "(\<exists>l. last_unfinished cs n = Inr l \<and> l < n \<and> snd (cs ! l) = CAP_UNFINISHED) \<or> (\<exists>m. last_unfinished cs n = Inl (LuaError m))"
  by (induction n) auto

lemma match_capture_ok:
  assumes "cap_ok src s (capture ms)" "s \<le> length src" "length src < 9223372036854775808"
  shows "in_subject src s (match_capture src ms s c)"
proof (cases "check_capture ms c")
  case (Inl e)
  then show ?thesis
    by (auto simp: match_capture_def in_subject_def check_capture_def Let_def split: if_splits)
next
  case (Inr l)
  then have l: "l < length (capture ms)" "snd (capture ms ! l) \<noteq> CAP_UNFINISHED"
    by (auto simp: check_capture_def Let_def level_def split: if_splits)
  obtain i n where n: "capture ms ! l = (i, n)" by (cases "capture ms ! l") auto
  have "n = CAP_POSITION \<or> 0 \<le> n \<and> int i + n \<le> int (length src)" using cap_ok_nth(2) [OF assms(1) l(1)] l(2) n by auto
  then show ?thesis
  proof
    assume "n = CAP_POSITION"
    then have "u64 n = 18446744073709551614" by (simp add: CAP_POSITION_def u64_def)
    then have "\<not> u64 n \<le> int (length src - s)" using assms(3) by simp
    then show ?thesis using Inr n by (simp add: match_capture_def in_subject_def)
  next
    assume b: "0 \<le> n \<and> int i + n \<le> int (length src)"
    then have "u64 n = n" using assms(3) by (intro u64_id) auto
    moreover have "\<not> length src < i + nat n" using b by linarith
    ultimately show ?thesis using Inr n b assms(2) by (auto simp: match_capture_def in_subject_def nat_le_iff)
  qed
qed

lemma cap_ok_append:
  "cap_ok src s cs \<Longrightarrow> length cs < LUA_MAXCAPTURES \<Longrightarrow> w = CAP_UNFINISHED \<or> w = CAP_POSITION \<Longrightarrow> cap_ok src s (cs @ [(s, w)])"
  by (auto simp: cap_ok_def)

lemma cap_ok_close:
  assumes "cap_ok src s cs" "l < length cs" "s \<le> length src"
  shows "cap_ok src s (cs[l := (fst (cs ! l), int s - int (fst (cs ! l)))])"
proof -
  have "fst (cs ! l) \<le> s" by (rule cap_ok_nth(1) [OF assms(1,2)])
  moreover have "set (cs[l := (fst (cs ! l), int s - int (fst (cs ! l)))]) \<subseteq> insert (fst (cs ! l), int s - int (fst (cs ! l))) (set cs)"
    by (rule set_update_subset_insert)
  ultimately show ?thesis using assms unfolding cap_ok_def by fastforce
qed

end
