(* ===== verification/LuaStrFind.thy ===== *)
theory LuaStrFind
  imports LuaMatch LuaObject
begin

text \<open>
  The functions of \<open>lstrlib.c\<close> that search: \<open>string.find\<close>, \<open>match\<close>, \<open>gmatch\<close> and \<open>gsub\<close>.

  The arguments are given as the functions get them: strings, optional integers for \<open>luaL_optinteger\<close>, and for \<open>gsub\<close> the
  replacement, of which a table or a function is an argument of the model. \<open>room\<close> says for which numbers \<open>luaL_checkstack\<close>
  finds space. The result is the list of the values returned.
\<close>

section \<open>Plain search\<close>

fun memchr :: "byte \<Rightarrow> byte list \<Rightarrow> nat option" where
  "memchr b [] = None"
| "memchr b (x # xs) = (if x = b then Some 0 else map_option Suc (memchr b xs))"

lemma memchr_less: "memchr b xs = Some j \<Longrightarrow> j < length xs"
  by (induction xs arbitrary: j) (auto split: if_splits)

text \<open>The bytes at the addresses from \<open>a\<close> up to \<open>b\<close>; outside of the string the read is a fault.\<close>

definition bytes_between :: "byte list \<Rightarrow> nat \<Rightarrow> nat \<Rightarrow> lua_error + byte list" where
  "bytes_between src a b =
     (if a \<le> b \<and> b \<le> length src then Inr (take (b - a) (drop a src)) else Inl (Fault OutOfBounds))"

text \<open>
  The loop of \<open>lmemfind\<close>: \<open>k\<close> is the start of the rest, \<open>l1\<close> the number of places where the string can begin. \<open>memchr\<close> may
  read the \<open>l1\<close> bytes from there, \<open>memcmp\<close> as many as \<open>rest\<close> has behind the byte found.
\<close>

function memfind_loop :: "byte list \<Rightarrow> byte \<Rightarrow> byte list \<Rightarrow> nat \<Rightarrow> nat \<Rightarrow> lua_error + nat option" where
  "memfind_loop s1 b rest k l1 =
     (if l1 = 0 then Inr None
      else case bytes_between s1 k (k + l1) of
        Inl e \<Rightarrow> Inl e
      | Inr places \<Rightarrow>
          (case memchr b places of
             None \<Rightarrow> Inr None
           | Some j \<Rightarrow>
               (case bytes_between s1 (k + j + 1) (k + j + 1 + length rest) of
                  Inl e \<Rightarrow> Inl e
                | Inr bs \<Rightarrow>
                    if bs = rest then Inr (Some (k + j))
                    else memfind_loop s1 b rest (k + j + 1) (l1 - (j + 1)))))"
  by pat_completeness auto
termination by (relation "measure (\<lambda>(s1, b, rest, k, l1). l1)") auto

declare memfind_loop.simps [simp del]

definition lmemfind :: "byte list \<Rightarrow> byte list \<Rightarrow> lua_error + nat option" where
  "lmemfind s1 s2 =
     (case s2 of
        [] \<Rightarrow> Inr (Some 0)
      | b # rest \<Rightarrow> if length s1 < length s2 then Inr None else memfind_loop s1 b rest 0 (length s1 - length rest))"

definition SPECIALS :: "int list" where
  "SPECIALS = [94, 36, 42, 43, 63, 46, 40, 91, 37, 45]"

definition until_zero :: "byte list \<Rightarrow> byte list" where
  "until_zero bs = takeWhile (\<lambda>b. b \<noteq> 0) bs"

function nospecials_loop :: "byte list \<Rightarrow> nat \<Rightarrow> bool" where
  "nospecials_loop p ofs =
     (let part = until_zero (drop ofs p) in
      if \<exists>b\<in>set part. uint b \<in> set SPECIALS then False
      else let ofs = ofs + length part + 1 in if ofs \<le> length p then nospecials_loop p ofs else True)"
  by pat_completeness auto
termination by (relation "measure (\<lambda>(p, ofs). Suc (length p) - ofs)") auto

declare nospecials_loop.simps [simp del]

definition nospecials :: "byte list \<Rightarrow> bool" where
  "nospecials p = nospecials_loop p 0"

section \<open>Captures as values\<close>

text \<open>\<open>bounds\<close> are the start and the end of the whole match, where the caller has them.\<close>

definition push_onecapture :: "byte list \<Rightarrow> MatchState \<Rightarrow> nat \<Rightarrow> (nat \<times> nat) option \<Rightarrow> lua_error + lval" where
  "push_onecapture src ms i bounds =
     (if level ms \<le> i then
        (if i = 0 then
           (case bounds of
              Some (s, e) \<Rightarrow> res_bind (bytes_between src s e) (\<lambda>bs. Inr (LStr bs))
            | None \<Rightarrow> Inl (Fault NullDeref))
         else Inl (LuaError (''invalid capture index %'' @ [char_of (49 + i)])))
      else
        let (init, l) = capture ms ! i in
        if l = CAP_UNFINISHED then Inl (LuaError ''unfinished capture'')
        else if l = CAP_POSITION then Inr (LInt (int init + 1))
        else res_bind (bytes_between src init (init + nat l)) (\<lambda>bs. Inr (LStr bs)))"

fun push_range :: "byte list \<Rightarrow> MatchState \<Rightarrow> (nat \<times> nat) option \<Rightarrow> nat list \<Rightarrow> lua_error + lval list" where
  "push_range src ms bounds [] = Inr []"
| "push_range src ms bounds (i # is) =
     res_bind (push_onecapture src ms i bounds) (\<lambda>v. res_bind (push_range src ms bounds is) (\<lambda>vs. Inr (v # vs)))"

definition push_captures :: "(int \<Rightarrow> bool) \<Rightarrow> byte list \<Rightarrow> MatchState \<Rightarrow> (nat \<times> nat) option \<Rightarrow> lua_error + lval list" where
  "push_captures room src ms bounds =
     (let nlevels = (if level ms = 0 \<and> bounds \<noteq> None then 1 else level ms) in
      if \<not> room (int nlevels) then Inl (LuaError ''stack overflow (too many captures)'')
      else push_range src ms bounds [0..<nlevels])"

section \<open>find and match\<close>

definition start_state :: MatchState where
  "start_state = \<lparr>matchdepth = MAXCCALLS, capture = []\<rparr>"

text \<open>The loop over the starts of a match. \<open>p0\<close> is the start of the pattern behind its anchor.\<close>

function find_loop :: "byte list \<Rightarrow> byte list \<Rightarrow> nat \<Rightarrow> bool \<Rightarrow> nat \<Rightarrow> MatchState \<Rightarrow> lua_error + (nat \<times> nat \<times> MatchState) option" where
  "find_loop src pat p0 anchor s1 ms =
     res_bind (match src pat s1 p0 (ms\<lparr>capture := []\<rparr>)) (\<lambda>(res, ms).
       case res of
         Some e \<Rightarrow> Inr (Some (s1, e, ms))
       | None \<Rightarrow> if s1 < length src \<and> \<not> anchor then find_loop src pat p0 anchor (s1 + 1) ms else Inr None)"
  by pat_completeness auto
termination by (relation "measure (\<lambda>(src, pat, p0, anchor, s1, ms). length src - s1)") auto

declare find_loop.simps [simp del]

definition has_anchor :: "byte list \<Rightarrow> bool" where
  "has_anchor pat \<longleftrightarrow> (case pat of b # _ \<Rightarrow> uint b = 94 | [] \<Rightarrow> False)"

definition str_find_aux :: "(int \<Rightarrow> bool) \<Rightarrow> bool \<Rightarrow> byte list \<Rightarrow> byte list \<Rightarrow> int option \<Rightarrow> bool \<Rightarrow> lua_error + lval list" where
  "str_find_aux room finding s p init plain =
     (let ls = length s;
          init = u_posrelat (case init of None \<Rightarrow> 1 | Some i \<Rightarrow> i) ls in
      if init > int ls + 1 then Inr [LNil]
      else let s1 = (if init < 1 then 0 else nat (init - 1)) in
        if finding \<and> (plain \<or> nospecials p) then
          res_bind (lmemfind (drop s1 s) p) (\<lambda>r.
            case r of
              Some k \<Rightarrow> Inr [LInt (int (s1 + k) + 1), LInt (int (s1 + k) + int (length p))]
            | None \<Rightarrow> Inr [LNil])
        else
          let anchor = has_anchor p in
          res_bind (find_loop s p (if anchor then 1 else 0) anchor s1 start_state) (\<lambda>r.
            case r of
              None \<Rightarrow> Inr [LNil]
            | Some (s1, e, ms) \<Rightarrow>
                if finding then
                  res_bind (push_captures room s ms None) (\<lambda>vs. Inr (LInt (int s1 + 1) # LInt (int e) # vs))
                else push_captures room s ms (Some (s1, e))))"

definition str_find :: "(int \<Rightarrow> bool) \<Rightarrow> byte list \<Rightarrow> byte list \<Rightarrow> int option \<Rightarrow> bool \<Rightarrow> lua_error + lval list" where
  "str_find room s p init plain = str_find_aux room True s p init plain"

definition str_match :: "(int \<Rightarrow> bool) \<Rightarrow> byte list \<Rightarrow> byte list \<Rightarrow> int option \<Rightarrow> lua_error + lval list" where
  "str_match room s p init = str_find_aux room False s p init False"

section \<open>gmatch\<close>

text \<open>The iterator: with the position it has kept it returns the values of the next match and the new position.\<close>

function gmatch_aux :: "(int \<Rightarrow> bool) \<Rightarrow> byte list \<Rightarrow> byte list \<Rightarrow> nat \<Rightarrow> MatchState \<Rightarrow> lua_error + (lval list \<times> nat) option" where
  "gmatch_aux room s p src ms =
     (if length s < src then Inr None
      else res_bind (match s p src 0 (ms\<lparr>capture := []\<rparr>)) (\<lambda>(res, ms).
        case res of
          None \<Rightarrow> gmatch_aux room s p (src + 1) ms
        | Some e \<Rightarrow>
            res_bind (push_captures room s ms (Some (src, e))) (\<lambda>vs. Inr (Some (vs, if e = src then e + 1 else e)))))"
  by pat_completeness auto
termination by (relation "measure (\<lambda>(room, s, p, src, ms). Suc (length s) - src)") auto

declare gmatch_aux.simps [simp del]

section \<open>gsub\<close>

datatype repl = ReplString "byte list" | ReplTable "lval \<Rightarrow> lua_error + lval" | ReplFunction "lval list \<Rightarrow> lua_error + lval"

text \<open>\<open>lua_tolstring\<close> and \<open>luaL_tolstring\<close> of a string or an integer.\<close>

definition value_bytes :: "lval \<Rightarrow> byte list option" where
  "value_bytes v =
     (case v of LStr bs \<Rightarrow> Some bs | LInt i \<Rightarrow> Some (lua_integer2str i) | _ \<Rightarrow> None)"

fun add_s :: "byte list \<Rightarrow> MatchState \<Rightarrow> nat \<Rightarrow> nat \<Rightarrow> byte list \<Rightarrow> lua_error + byte list" where
  "add_s src ms s e [] = Inr []"
| "add_s src ms s e (c # cs) =
     (if uint c \<noteq> 37 then res_bind (add_s src ms s e cs) (\<lambda>bs. Inr (c # bs))
      else case cs of
        [] \<Rightarrow> Inl (LuaError ''invalid use of '%' in replacement string'')
      | d # ds \<Rightarrow>
          if \<not> c_isdigit (uint d) then
            (if uint d \<noteq> 37 then Inl (LuaError ''invalid use of '%' in replacement string'')
             else res_bind (add_s src ms s e ds) (\<lambda>bs. Inr (d # bs)))
          else
            res_bind
              (if uint d = 48 then bytes_between src s e
               else res_bind (push_onecapture src ms (nat (uint d - 49)) (Some (s, e))) (\<lambda>v.
                 case value_bytes v of Some bs \<Rightarrow> Inr bs | None \<Rightarrow> Inl (Fault NullDeref)))
              (\<lambda>v. res_bind (add_s src ms s e ds) (\<lambda>bs. Inr (v @ bs))))"

definition type_name :: "lval \<Rightarrow> string" where
  "type_name v = (case v of LNil \<Rightarrow> ''nil'' | LBool _ \<Rightarrow> ''boolean'' | LInt _ \<Rightarrow> ''number'' | LStr _ \<Rightarrow> ''string'')"

definition add_result :: "byte list \<Rightarrow> nat \<Rightarrow> nat \<Rightarrow> lval \<Rightarrow> lua_error + byte list" where
  "add_result src s e v =
     (if v = LNil \<or> v = LBool False then bytes_between src s e
      else case value_bytes v of
        Some bs \<Rightarrow> Inr bs
      | None \<Rightarrow> Inl (LuaError (''invalid replacement value (a '' @ type_name v @ '')'')))"

definition add_value :: "(int \<Rightarrow> bool) \<Rightarrow> byte list \<Rightarrow> MatchState \<Rightarrow> nat \<Rightarrow> nat \<Rightarrow> repl \<Rightarrow> lua_error + byte list" where
  "add_value room src ms s e tr =
     (case tr of
        ReplString news \<Rightarrow> add_s src ms s e news
      | ReplFunction f \<Rightarrow>
          res_bind (push_captures room src ms (Some (s, e))) (\<lambda>vs. res_bind (f vs) (add_result src s e))
      | ReplTable t \<Rightarrow>
          res_bind (push_onecapture src ms 0 (Some (s, e))) (\<lambda>v. res_bind (t v) (add_result src s e)))"

text \<open>
  Where the next round of the loop starts, and what is copied of the subject. A match that ends behind the subject would
  leave it; it is a fault here, and never comes up.
\<close>

definition gsub_next :: "byte list \<Rightarrow> nat \<Rightarrow> nat option \<Rightarrow> byte list \<Rightarrow> (nat \<times> byte list) option" where
  "gsub_next s src e b =
     (if e \<noteq> None \<and> src < the e then Some (the e, b)
      else if src < length s then Some (src + 1, b @ [s ! src])
      else None)"

lemma gsub_next_less: "gsub_next s src e b = Some (src', b') \<Longrightarrow> \<forall>x. e = Some x \<longrightarrow> x \<le> length s \<Longrightarrow> src < src' \<and> src' \<le> length s"
  by (auto simp: gsub_next_def split: if_splits)

definition gsub_add :: "(int \<Rightarrow> bool) \<Rightarrow> byte list \<Rightarrow> repl \<Rightarrow> nat \<Rightarrow> int \<Rightarrow> byte list \<Rightarrow> nat option \<Rightarrow> MatchState \<Rightarrow>
    lua_error + int \<times> byte list" where
  "gsub_add room s tr src n b e ms =
     (case e of
        None \<Rightarrow> Inr (n, b)
      | Some e \<Rightarrow>
          if length s < e then Inl (Fault OutOfBounds)
          else res_bind (add_value room s ms src e tr) (\<lambda>bs. Inr (n + 1, b @ bs)))"

lemma gsub_add_less: "gsub_add room s tr src n b e ms = Inr r \<Longrightarrow> \<forall>x. e = Some x \<longrightarrow> x \<le> length s"
  by (auto simp: gsub_add_def split: if_splits)

function gsub_loop :: "(int \<Rightarrow> bool) \<Rightarrow> byte list \<Rightarrow> byte list \<Rightarrow> nat \<Rightarrow> bool \<Rightarrow> repl \<Rightarrow> int \<Rightarrow> nat \<Rightarrow> int \<Rightarrow> byte list \<Rightarrow> MatchState \<Rightarrow>
    lua_error + byte list \<times> int" where
  "gsub_loop room s p p0 anchor tr max_s src n b ms =
     (if \<not> n < max_s then Inr (b @ drop src s, n)
      else case match s p src p0 (ms\<lparr>capture := []\<rparr>) of
        Inl x \<Rightarrow> Inl x
      | Inr (e, ms) \<Rightarrow>
          (case gsub_add room s tr src n b e ms of
             Inl x \<Rightarrow> Inl x
           | Inr (n, b) \<Rightarrow>
               (case gsub_next s src e b of
                  None \<Rightarrow> Inr (b @ drop src s, n)
                | Some (src, b) \<Rightarrow>
                    if anchor then Inr (b @ drop src s, n)
                    else gsub_loop room s p p0 anchor tr max_s src n b ms)))"
  by pat_completeness auto
termination
  by (relation "measure (\<lambda>(room, s, p, p0, anchor, tr, max_s, src, n, b, ms). length s - src)")
    (auto dest!: gsub_add_less gsub_next_less)

declare gsub_loop.simps [simp del]

definition str_gsub :: "(int \<Rightarrow> bool) \<Rightarrow> byte list \<Rightarrow> byte list \<Rightarrow> repl \<Rightarrow> int option \<Rightarrow> lua_error + lval list" where
  "str_gsub room src p tr max_s =
     (let anchor = has_anchor p in
      res_bind (gsub_loop room src p (if anchor then 1 else 0) anchor tr
          (case max_s of None \<Rightarrow> int (length src) + 1 | Some m \<Rightarrow> m) 0 0 [] start_state)
        (\<lambda>(b, n). Inr [LStr b, LInt n]))"

text \<open>
  The simple functions of \<open>lstrlib.c\<close>: \<open>len\<close>, \<open>sub\<close>, \<open>reverse\<close>, \<open>lower\<close>, \<open>upper\<close>, \<open>rep\<close>, \<open>byte\<close> and \<open>char\<close>. Arguments and
  results are as for the searching functions.
\<close>

section \<open>Definitions\<close>

definition MAXSIZE :: int where "MAXSIZE = 2147483647"

definition str_len :: "byte list \<Rightarrow> int" where
  "str_len s = int (length s)"

definition str_sub :: "byte list \<Rightarrow> int \<Rightarrow> int option \<Rightarrow> lua_error + byte list" where
  "str_sub s i j =
     (let l = length s;
          start = u_posrelat i l;
          stop = u_posrelat (case j of None \<Rightarrow> - 1 | Some j \<Rightarrow> j) l;
          start = (if start < 1 then 1 else start);
          stop = (if stop > int l then int l else stop) in
      if start \<le> stop then bytes_between s (nat (start - 1)) (nat stop) else Inr [])"

definition str_reverse :: "byte list \<Rightarrow> byte list" where
  "str_reverse s = map (\<lambda>i. s ! (length s - i - 1)) [0..<length s]"

definition str_lower :: "byte list \<Rightarrow> byte list" where
  "str_lower s = map (\<lambda>b. of_int (c_tolower (uint b))) s"

definition str_upper :: "byte list \<Rightarrow> byte list" where
  "str_upper s = map (\<lambda>b. of_int (c_toupper (uint b))) s"

text \<open>The loop of \<open>str_rep\<close>: all copies but the last are followed by the separator.\<close>

fun rep_loop :: "byte list \<Rightarrow> byte list \<Rightarrow> nat \<Rightarrow> byte list" where
  "rep_loop s sep 0 = s"
| "rep_loop s sep (Suc n) = s @ sep @ rep_loop s sep n"

definition str_rep :: "byte list \<Rightarrow> int \<Rightarrow> byte list \<Rightarrow> lua_error + byte list" where
  "str_rep s n sep =
     (let l = int (length s); lsep = int (length sep) in
      if n \<le> 0 then Inr []
      else if u64 (l + lsep) < l \<or> u64 (l + lsep) > MAXSIZE div n then Inl (LuaError ''resulting string too large'')
      else Inr (rep_loop s sep (nat (n - 1))))"

definition str_byte :: "(int \<Rightarrow> bool) \<Rightarrow> byte list \<Rightarrow> int option \<Rightarrow> int option \<Rightarrow> lua_error + lval list" where
  "str_byte room s i j =
     (let l = length s;
          posi = u_posrelat (case i of None \<Rightarrow> 1 | Some i \<Rightarrow> i) l;
          pose = u_posrelat (case j of None \<Rightarrow> posi | Some j \<Rightarrow> j) l;
          posi = (if posi < 1 then 1 else posi);
          pose = (if pose > int l then int l else pose) in
      if posi > pose then Inr []
      else if pose - posi \<ge> 2147483647 then Inl (LuaError ''string slice too long'')
      else let n = nat (pose - posi) + 1 in
        if \<not> room (int n) then Inl (LuaError ''stack overflow (string slice too long)'')
        else res_bind (bytes_between s (nat (posi - 1)) (nat (posi - 1) + n)) (\<lambda>bs. Inr (map (\<lambda>b. LInt (uint b)) bs)))"

fun str_char :: "nat \<Rightarrow> int list \<Rightarrow> lua_error + byte list" where
  "str_char i [] = Inr []"
| "str_char i (c # cs) =
     res_bind (luaL_argcheck (c mod 256 = c) i ''value out of range'') (\<lambda>_.
     res_bind (str_char (i + 1) cs) (\<lambda>bs. Inr (of_int c # bs)))"

section \<open>Functional behaviour\<close>

lemma u_posrelat_nonneg: "0 \<le> i \<Longrightarrow> u_posrelat i l = i"
  by (simp add: u_posrelat_def)

lemma u_posrelat_back: "1 \<le> k \<Longrightarrow> k \<le> l \<Longrightarrow> l < 9223372036854775808 \<Longrightarrow> u_posrelat (- int k) l = int l - int k + 1"
  by (simp add: u_posrelat_def u64_id s64_id in_s64_def)

text \<open>A string is its first \<open>k\<close> characters and the rest.\<close>

lemma sub_splits:
  assumes "length s < 9223372036854775808" "k \<le> length s"
  shows "\<exists>a b. str_sub s 1 (Some (int k)) = Inr a \<and> str_sub s (int k + 1) None = Inr b \<and> a @ b = s"
proof -
  have m: "u_posrelat (- 1) (length s) = int (length s)"
  proof (cases "s = []")
    case True
    then show ?thesis by (simp add: u_posrelat_def u64_def)
  next
    case False
    then show ?thesis using u_posrelat_back [of 1 "length s"] assms(1) by (cases s) auto
  qed
  have "str_sub s 1 (Some (int k)) = Inr (take k s)"
    using assms(2) by (cases "k = 0") (auto simp: str_sub_def u_posrelat_nonneg bytes_between_def)
  moreover have "str_sub s (int k + 1) None = Inr (drop k s)"
    using assms(2) m by (simp add: str_sub_def u_posrelat_nonneg bytes_between_def Let_def)
  ultimately show ?thesis by simp
qed

lemma reverse_rev: "str_reverse s = rev s"
  by (rule nth_equalityI) (simp_all add: str_reverse_def rev_nth)

text \<open>The length of a repetition is what the code reserves, and fits an \<open>int\<close>.\<close>

lemma rep_loop_length: "length (rep_loop s sep n) = (n + 1) * length s + n * length sep"
  by (induction n) (simp_all add: algebra_simps)

lemma rep_bounded:
  assumes "str_rep s n sep = Inr r" "length s + length sep < 18446744073709551616" "0 < n"
  shows "int (length r) = n * int (length s) + (n - 1) * int (length sep) \<and> int (length r) \<le> MAXSIZE"
proof -
  have r: "r = rep_loop s sep (nat (n - 1))" "int (length s) + int (length sep) \<le> MAXSIZE div n"
    using assms by (auto simp: str_rep_def Let_def u64_id split: if_splits)
  have 1: "int (length r) = n * int (length s) + (n - 1) * int (length sep)"
    using assms(3) by (simp add: r(1) rep_loop_length algebra_simps)
  have "n * (int (length s) + int (length sep)) \<le> n * (MAXSIZE div n)" using r(2) assms(3) by simp
  also have "\<dots> \<le> MAXSIZE" using mult_div_mod_eq [of n MAXSIZE] pos_mod_sign [OF assms(3), of MAXSIZE] by linarith
  finally show ?thesis using 1 by (simp add: algebra_simps)
qed

text \<open>\<open>char\<close> after \<open>byte\<close>.\<close>

lemma char_byte: "str_char k (map uint s) = Inr s"
proof (induction s arbitrary: k)
  case (Cons b s)
  have "uint b mod 256 = uint b" using uint_lt2p [of b] by simp
  then show ?case using Cons by simp
qed simp

end
