(* ===== verification/LuaMatchWays.thy ===== *)
theory LuaMatchWays
  imports LuaMatch
begin

text \<open>
  The reference for the matcher: the list of all the ways in which the rest of a pattern can match from a position, in the
  order of preference, with errors as elements. The matcher is proved to return its first element.
\<close>

section \<open>All ways to match\<close>

type_synonym captures = "(nat \<times> int) list"
type_synonym ways = "(lua_error + nat \<times> captures) list"
type_synonym search = "nat \<Rightarrow> nat \<Rightarrow> captures \<Rightarrow> ways"

definition alt :: "lua_error + 'a \<Rightarrow> ('a \<Rightarrow> ways) \<Rightarrow> ways" where
  "alt r g = (case r of Inl e \<Rightarrow> [Inl e] | Inr x \<Rightarrow> g x)"

lemma alt_simps [simp]: "alt (Inl e) g = [Inl e]" "alt (Inr x) g = g x"
  by (simp_all add: alt_def)

definition ways_open :: "search \<Rightarrow> nat \<Rightarrow> nat \<Rightarrow> int \<Rightarrow> captures \<Rightarrow> ways" where
  "ways_open w s p what cs =
     (if LUA_MAXCAPTURES \<le> length cs then [Inl (LuaError ''too many captures'')] else w s p (cs @ [(s, what)]))"

definition ways_close :: "search \<Rightarrow> nat \<Rightarrow> nat \<Rightarrow> captures \<Rightarrow> ways" where
  "ways_close w s p cs =
     alt (last_unfinished cs (length cs)) (\<lambda>l. w s p (cs[l := (fst (cs ! l), int s - int (fst (cs ! l)))]))"

text \<open>One item with its suffix: \<open>n\<close> is the number of characters from \<open>s\<close> that it matches.\<close>

definition ways_item :: "search \<Rightarrow> byte list \<Rightarrow> byte list \<Rightarrow> nat \<Rightarrow> nat \<Rightarrow> captures \<Rightarrow> ways" where
  "ways_item w src pat s p cs =
     alt (classend pat p) (\<lambda>ep. alt (ch pat ep) (\<lambda>suffix. alt (count_single src pat s p ep 0) (\<lambda>n.
       if suffix = 63 then (if 0 < n then w (s + 1) (ep + 1) cs else []) @ w s (ep + 1) cs
       else if suffix = 42 then concat (map (\<lambda>i. w (s + i) (ep + 1) cs) (rev [0..<Suc n]))
       else if suffix = 43 then concat (map (\<lambda>i. w (s + i) (ep + 1) cs) (rev [1..<Suc n]))
       else if suffix = 45 then concat (map (\<lambda>i. w (s + i) (ep + 1) cs) [0..<Suc n])
       else if 0 < n then w (s + 1) ep cs else [])))"

definition ways_from :: "nat option \<Rightarrow> (nat \<Rightarrow> ways) \<Rightarrow> ways" where
  "ways_from r g = (case r of None \<Rightarrow> [] | Some s \<Rightarrow> g s)"

fun ways :: "nat \<Rightarrow> byte list \<Rightarrow> byte list \<Rightarrow> search" where
  "ways 0 src pat s p cs = [Inl (Fault OutOfFuel)]"
| "ways (Suc f) src pat s p cs =
     (let w = ways f src pat in
      if p = length pat then [Inr (s, cs)]
      else alt (ch pat p) (\<lambda>c.
        if c = 40 then
          alt (ch pat (p + 1)) (\<lambda>d.
            if d = 41 then ways_open w s (p + 2) CAP_POSITION cs else ways_open w s (p + 1) CAP_UNFINISHED cs)
        else if c = 41 then ways_close w s (p + 1) cs
        else if c = 36 \<and> p + 1 = length pat then (if s = length src then [Inr (s, cs)] else [])
        else if c = 37 then
          alt (ch pat (p + 1)) (\<lambda>d.
            if d = 98 then alt (matchbalance src pat s (p + 2)) (\<lambda>r. ways_from r (\<lambda>s. w s (p + 4) cs))
            else if d = 102 then
              alt (ch pat (p + 2)) (\<lambda>d.
                if d \<noteq> 91 then [Inl (LuaError ''missing '[' after '%f' in pattern'')]
                else alt (classend pat (p + 2)) (\<lambda>ep. alt (frontier src pat s (p + 2) ep) (\<lambda>b. if b then w s ep cs else [])))
            else if c_isdigit d then
              alt (match_capture src \<lparr>matchdepth = 0, capture = cs\<rparr> s d) (\<lambda>r. ways_from r (\<lambda>s. w s (p + 2) cs))
            else ways_item w src pat s p cs)
        else ways_item w src pat s p cs))"

section \<open>Agreement\<close>

fun outcome :: "MatchState \<Rightarrow> ways \<Rightarrow> lua_error + nat option \<times> MatchState" where
  "outcome ms [] = Inr (None, ms)"
| "outcome ms (Inl e # ws) = Inl e"
| "outcome ms (Inr (e, cs) # ws) = Inr (Some e, ms\<lparr>capture := cs\<rparr>)"

lemma outcome_append: "outcome ms (xs @ ys) = (if xs = [] then outcome ms ys else outcome ms xs)"
  by (cases "(ms, xs)" rule: outcome.cases) auto

lemma outcome_cases:
  obtains "ws = []" "outcome ms ws = Inr (None, ms)"
  | e where "ws \<noteq> []" "outcome ms ws = Inl e"
  | e cs where "ws \<noteq> []" "outcome ms ws = Inr (Some e, ms\<lparr>capture := cs\<rparr>)"
  by (cases "(ms, ws)" rule: outcome.cases) auto

abbreviation too_complex :: "lua_error + 'a" where
  "too_complex \<equiv> Inl (LuaError ''pattern too complex'')"

definition agrees :: "nat \<Rightarrow> lua_error + nat option \<times> MatchState \<Rightarrow> MatchState \<Rightarrow> ways \<Rightarrow> bool" where
  "agrees k r ms ws \<longleftrightarrow> r = outcome ms ws \<or> matchdepth ms < k \<and> r = too_complex"

lemma agrees_outcome: "agrees k (outcome ms ws) ms ws"
  by (simp add: agrees_def)

lemma agrees_mono: "agrees k r ms ws \<Longrightarrow> k \<le> k' \<Longrightarrow> agrees k' r ms ws"
  by (auto simp: agrees_def)

lemma agrees_depth:
  assumes "agrees k (body s p (ms\<lparr>matchdepth := matchdepth ms - 1\<rparr>)) (ms\<lparr>matchdepth := matchdepth ms - 1\<rparr>) ws"
  shows "agrees (Suc k) (with_depth body s p ms) ms ws"
proof (cases "matchdepth ms = 0")
  case True
  then show ?thesis by (simp add: agrees_def with_depth_def)
next
  case False
  let ?ms = "ms\<lparr>matchdepth := matchdepth ms - 1\<rparr>"
  from assms show ?thesis
    unfolding agrees_def
  proof
    assume r: "body s p ?ms = outcome ?ms ws"
    have "with_depth body s p ms = outcome ms ws"
      using False r by (cases "(ms, ws)" rule: outcome.cases) (auto simp: with_depth_def)
    then show "with_depth body s p ms = outcome ms ws \<or> matchdepth ms < Suc k \<and> with_depth body s p ms = too_complex" ..
  next
    assume "matchdepth ?ms < k \<and> body s p ?ms = too_complex"
    then have "matchdepth ms < Suc k" "with_depth body s p ms = too_complex" using False by (auto simp: with_depth_def)
    then show "with_depth body s p ms = outcome ms ws \<or> matchdepth ms < Suc k \<and> with_depth body s p ms = too_complex" by blast
  qed
qed

text \<open>A choice between a first way and others, which are tried in the same state.\<close>

lemma agrees_orelse:
  assumes "agrees k r ms xs" "agrees k r' ms ys"
  shows "agrees k (res_bind r (\<lambda>(res, ms'). case res of Some e \<Rightarrow> Inr (Some e, ms') | None \<Rightarrow> if ms' = ms then r' else g ms')) ms (xs @ ys)"
proof -
  from assms(1) show ?thesis
    unfolding agrees_def
  proof
    assume r: "r = outcome ms xs"
    show "res_bind r (\<lambda>(res, ms'). case res of Some e \<Rightarrow> Inr (Some e, ms') | None \<Rightarrow> if ms' = ms then r' else g ms') = outcome ms (xs @ ys) \<or>
      matchdepth ms < k \<and> res_bind r (\<lambda>(res, ms'). case res of Some e \<Rightarrow> Inr (Some e, ms') | None \<Rightarrow> if ms' = ms then r' else g ms') = too_complex"
      using assms(2) by (cases xs ms rule: outcome_cases) (auto simp: r outcome_append agrees_def)
  qed auto
qed

lemma orelse_same:
  assumes "agrees k r ms xs" "agrees k (g ms) ms ys"
  shows "agrees k (res_bind r (\<lambda>(res, ms'). case res of Some e \<Rightarrow> Inr (Some e, ms') | None \<Rightarrow> g ms')) ms (xs @ ys)"
proof -
  have "(\<lambda>(res, ms'). case res of Some e \<Rightarrow> Inr (Some e, ms') | None \<Rightarrow> if ms' = ms then g ms else g ms') =
    (\<lambda>(res, ms'). case res of Some e \<Rightarrow> Inr (Some e, ms') | None \<Rightarrow> g ms')"
    by (auto simp: fun_eq_iff split: option.splits)
  with agrees_orelse [OF assms, of g] show ?thesis by simp
qed

lemma agrees_down:
  assumes "\<And>i. i \<le> n \<Longrightarrow> agrees k (m (s + i) q ms) ms (W i)"
  shows "agrees k (expand_down m s q n ms) ms (concat (map W (rev [0..<Suc n])))"
  using assms
proof (induction n)
  case 0
  from 0 [of 0] show ?case by simp
next
  case (Suc n)
  have "agrees k (expand_down m s q n ms) ms (concat (map W (rev [0..<Suc n])))" by (rule Suc.IH) (use Suc.prems in simp)
  from orelse_same [where g = "expand_down m s q n", OF Suc.prems [OF le_refl] this] show ?case by simp
qed

lemma agrees_up:
  assumes "\<And>i. i \<le> n \<Longrightarrow> agrees k (m (s + i) (ep + 1) ms) ms (W i)"
    and "\<And>i. i < n \<Longrightarrow> singlematch src pat (s + i) p ep = Inr True" "singlematch src pat (s + n) p ep = Inr False"
  shows "agrees k (min_expand m src pat s p ep ms) ms (concat (map W [0..<Suc n]))"
  using assms
proof (induction n arbitrary: s W)
  case 0
  have "agrees k (res_bind (m s (ep + 1) ms) (\<lambda>(res, ms').
      case res of Some e \<Rightarrow> Inr (Some e, ms') | None \<Rightarrow> Inr (None, ms'))) ms (W 0 @ [])"
    by (rule orelse_same) (use 0(1) [of 0] agrees_outcome [of k ms "[]"] in simp_all)
  moreover have "singlematch src pat s p ep = Inr False" using 0(3) by simp
  ultimately show ?case unfolding min_expand.simps [of m src pat s p ep ms] by (simp only: sum.case bool.case) simp
next
  case (Suc n)
  have IH: "agrees k (min_expand m src pat (s + 1) p ep ms) ms (concat (map (\<lambda>i. W (Suc i)) [0..<Suc n]))"
  proof (rule Suc.IH)
    show "agrees k (m (s + 1 + i) (ep + 1) ms) ms (W (Suc i))" if "i \<le> n" for i using Suc.prems(1) [of "Suc i"] that by simp
    show "singlematch src pat (s + 1 + i) p ep = Inr True" if "i < n" for i using Suc.prems(2) [of "Suc i"] that by simp
    show "singlematch src pat (s + 1 + n) p ep = Inr False" using Suc.prems(3) by simp
  qed
  have e: "concat (map W [0..<Suc (Suc n)]) = W 0 @ concat (map (\<lambda>i. W (Suc i)) [0..<Suc n])"
    by (simp only: upt_conv_Cons [of 0 "Suc (Suc n)"] map_Suc_upt [symmetric] map_map comp_def list.map concat.simps zero_less_Suc)
  have "agrees k (res_bind (m s (ep + 1) ms) (\<lambda>(res, ms').
      case res of Some e \<Rightarrow> Inr (Some e, ms') | None \<Rightarrow> min_expand m src pat (s + 1) p ep ms')) ms
      (W 0 @ concat (map (\<lambda>i. W (Suc i)) [0..<Suc n]))"
    by (rule orelse_same [where g = "min_expand m src pat (s + 1) p ep", OF _ IH]) (use Suc.prems(1) [of 0] in simp)
  moreover have "singlematch src pat s p ep = Inr True" using Suc.prems(2) [of 0] by simp
  ultimately show ?case unfolding e min_expand.simps [of m src pat s p ep ms] by (simp only: sum.case bool.case)
qed

section \<open>Captures\<close>

lemma agrees_start:
  assumes "length (capture ms) < LUA_MAXCAPTURES \<Longrightarrow>
    agrees k (m s p (ms\<lparr>capture := capture ms @ [(s, what)]\<rparr>)) (ms\<lparr>capture := capture ms @ [(s, what)]\<rparr>)
      (w s p (capture ms @ [(s, what)]))"
  shows "agrees k (start_capture m s p what ms) ms (ways_open w s p what (capture ms))"
proof (cases "length (capture ms) < LUA_MAXCAPTURES")
  case False
  then show ?thesis by (simp add: start_capture_def ways_open_def level_def agrees_def)
next
  case True
  let ?ws = "w s p (capture ms @ [(s, what)])"
  show ?thesis
    using assms [OF True] True
    by (cases "(ms, ?ws)" rule: outcome.cases) (auto simp: start_capture_def ways_open_def level_def agrees_def)
qed

lemma agrees_end:
  assumes "\<And>l. l < length (capture ms) \<Longrightarrow> snd (capture ms ! l) = CAP_UNFINISHED \<Longrightarrow>
    agrees k (m s p (ms\<lparr>capture := (capture ms)[l := (fst (capture ms ! l), int s - int (fst (capture ms ! l)))]\<rparr>))
      (ms\<lparr>capture := (capture ms)[l := (fst (capture ms ! l), int s - int (fst (capture ms ! l)))]\<rparr>)
      (w s p ((capture ms)[l := (fst (capture ms ! l), int s - int (fst (capture ms ! l)))]))"
  shows "agrees k (end_capture m s p ms) ms (ways_close w s p (capture ms))"
  using last_unfinished_ok [of "capture ms" "length (capture ms)"]
proof (elim disjE exE conjE)
  fix l assume l: "last_unfinished (capture ms) (length (capture ms)) = Inr l" "l < length (capture ms)"
    "snd (capture ms ! l) = CAP_UNFINISHED"
  let ?cs = "(capture ms)[l := (fst (capture ms ! l), int s - int (fst (capture ms ! l)))]"
  have undo: "?cs[l := (fst (?cs ! l), CAP_UNFINISHED)] = capture ms"
  proof -
    have "capture ms ! l = (fst (capture ms ! l), CAP_UNFINISHED)" using l(3) by (simp add: prod_eq_iff)
    then show ?thesis using l(2) by (metis fst_conv list_update_id list_update_overwrite nth_list_update_eq)
  qed
  have e: "end_capture m s p ms = res_bind (m s p (ms\<lparr>capture := ?cs\<rparr>)) (\<lambda>(res, ms).
      Inr (res, if res = None then ms\<lparr>capture := (capture ms)[l := (fst (capture ms ! l), CAP_UNFINISHED)]\<rparr> else ms))"
    using l(1) by (simp add: end_capture_def capture_to_close_def level_def Let_def)
  have w: "ways_close w s p (capture ms) = w s p ?cs" using l(1) by (simp add: ways_close_def)
  show ?thesis
    using assms [OF l(2,3)] undo unfolding e w
    by (cases "(ms, w s p ?cs)" rule: outcome.cases) (auto simp: agrees_def)
next
  fix e assume "last_unfinished (capture ms) (length (capture ms)) = Inl (LuaError e)"
  then show ?thesis by (simp add: end_capture_def capture_to_close_def level_def ways_close_def agrees_def)
qed

lemma match_capture_cong: "capture ms = cs \<Longrightarrow> match_capture src ms s c = match_capture src \<lparr>matchdepth = 0, capture = cs\<rparr> s c"
  by (simp add: match_capture_def check_capture_def level_def)

section \<open>Items\<close>

lemma count_next:
  assumes "p < length pat" "ep \<le> length pat" "s < length src" "singlematch src pat s p ep = Inr True"
  shows "\<exists>n. count_single src pat s p ep 0 = Inr (Suc n) \<and> count_single src pat (s + 1) p ep 0 = Inr n"
proof -
  from count_single_ok [OF assms(1,2), of s 0 src] assms(3) obtain n where n: "count_single src pat s p ep 0 = Inr n"
    "\<forall>j<n. singlematch src pat (s + j) p ep = Inr True" "singlematch src pat (s + n) p ep = Inr False" by auto
  from count_single_ok [OF assms(1,2), of "s + 1" 0 src] assms(3) obtain k where k: "count_single src pat (s + 1) p ep 0 = Inr k"
    "\<forall>j<k. singlematch src pat (s + 1 + j) p ep = Inr True" "singlematch src pat (s + 1 + k) p ep = Inr False" by auto
  have "n \<noteq> 0" using n(3) assms(4) by (cases n) auto
  have "\<not> n - 1 < k"
  proof
    assume "n - 1 < k"
    then have "singlematch src pat (s + 1 + (n - 1)) p ep = Inr True" using k(2) by blast
    then show False using n(3) \<open>n \<noteq> 0\<close> by simp
  qed
  moreover have "\<not> Suc k < n"
  proof
    assume "Suc k < n"
    then have "singlematch src pat (s + Suc k) p ep = Inr True" using n(2) by blast
    then show False using k(3) by simp
  qed
  ultimately have "n = Suc k" using \<open>n \<noteq> 0\<close> by simp
  then show ?thesis using n(1) k(1) by blast
qed

lemma count_zero:
  assumes "singlematch src pat s p ep = Inr False"
  shows "count_single src pat s p ep 0 = Inr 0"
  using assms by (subst count_single.simps) simp

text \<open>The bounds under which \<open>match\<close> runs, and what every way keeps of them.\<close>

definition ready :: "byte list \<Rightarrow> byte list \<Rightarrow> nat \<Rightarrow> nat \<Rightarrow> captures \<Rightarrow> bool" where
  "ready src pat s p cs \<longleftrightarrow> s \<le> length src \<and> p \<le> length pat \<and> cap_ok src s cs"

lemma ready_later: "ready src pat s p cs \<Longrightarrow> s \<le> s' \<Longrightarrow> s' \<le> length src \<Longrightarrow> q \<le> length pat \<Longrightarrow> ready src pat s' q cs"
  using cap_ok_later by (auto simp: ready_def)

lemma upt_from_one: "rev [1..<Suc n] = map Suc (rev [0..<n])"
  by (simp add: rev_map [symmetric] map_Suc_upt)

lemma agrees_item:
  assumes r: "ready src pat s p cs" and p: "p < length pat" and cs: "capture ms = cs"
    and m: "\<And>s' q. s \<le> s' \<Longrightarrow> s' \<le> length src \<Longrightarrow> p < q \<Longrightarrow> q \<le> length pat \<Longrightarrow> agrees k (m s' q ms) ms (w s' q cs)"
    and again: "\<And>s' q. s \<le> s' \<Longrightarrow> s' \<le> length src \<Longrightarrow> p < q \<Longrightarrow> q \<le> length pat \<Longrightarrow> agrees k (again s' q ms) ms (w s' q cs)"
  shows "agrees k (match_default m again src pat s p ms) ms (ways_item w src pat s p cs)"
proof (cases "classend pat p")
  case (Inl e)
  then show ?thesis by (simp add: match_default_def ways_item_def agrees_def)
next
  case (Inr ep)
  have ep: "p < ep" "ep \<le> length pat" using classend_ok [OF p] Inr by (simp_all add: in_pattern_def)
  have s: "s \<le> length src" using r by (simp add: ready_def)
  obtain x where x: "ch pat ep = Inr x" using ch_ok [OF ep(2)] by blast
  have more: "ep + 1 \<le> length pat" if "x = 63 \<or> x = 42 \<or> x = 43 \<or> x = 45"
    using x ep(2) ch_end [of pat] that by (cases "ep = length pat") auto
  obtain one where one: "singlematch src pat s p ep = Inr one" using singlematch_ok [OF p ep(2)] by blast
  from count_single_ok [OF p ep(2), of s 0 src] s obtain n where n: "count_single src pat s p ep 0 = Inr n" "s + n \<le> length src"
    "\<forall>j<n. singlematch src pat (s + j) p ep = Inr True" "singlematch src pat (s + n) p ep = Inr False" by auto
  have W: "ways_item w src pat s p cs =
     (if x = 63 then (if 0 < n then w (s + 1) (ep + 1) cs else []) @ w s (ep + 1) cs
       else if x = 42 then concat (map (\<lambda>i. w (s + i) (ep + 1) cs) (rev [0..<Suc n]))
       else if x = 43 then concat (map (\<lambda>i. w (s + i) (ep + 1) cs) (rev [1..<Suc n]))
       else if x = 45 then concat (map (\<lambda>i. w (s + i) (ep + 1) cs) [0..<Suc n])
       else if 0 < n then w (s + 1) ep cs else [])"
    by (simp only: ways_item_def Inr x n(1) alt_simps)
  have M: "match_default m again src pat s p ms =
      (if \<not> one then (if is_suffix x then again s (ep + 1) ms else Inr (None, ms))
       else if x = 63 then
         res_bind (m (s + 1) (ep + 1) ms) (\<lambda>(res, ms). case res of Some e \<Rightarrow> Inr (Some e, ms) | None \<Rightarrow> again s (ep + 1) ms)
       else if x = 43 then max_expand m src pat (s + 1) p ep ms
       else if x = 42 then max_expand m src pat s p ep ms
       else if x = 45 then min_expand m src pat s p ep ms
       else again (s + 1) ep ms)"
    by (simp only: match_default_def Inr one x res_bind_Inr)
  show ?thesis
  proof (cases one)
    case False
    then have n0: "n = 0" using n(1) count_zero [of src pat s p ep] one by simp
    have a: "agrees k (again s (ep + 1) ms) ms (w s (ep + 1) cs)" if "is_suffix x"
      using that s ep more by (intro again) (auto simp: is_suffix_def)
    show ?thesis
      unfolding M W n0 using a False agrees_outcome [of k ms "[]"] by (auto simp: is_suffix_def)
  next
    case True
    have s1: "s + 1 \<le> length src" using singlematch_less [of src pat s p ep] one True by simp
    from count_next [OF p ep(2), of s src] s1 one True n(1) obtain n' where
      n': "n = Suc n'" "count_single src pat (s + 1) p ep 0 = Inr n'" by auto
    consider "x = 63" | "x = 43" | "x = 42" | "x = 45" | "x \<notin> {63, 43, 42, 45}" by blast
    then show ?thesis
    proof cases
      case 1
      have "agrees k (res_bind (m (s + 1) (ep + 1) ms) (\<lambda>(res, ms).
          case res of Some e \<Rightarrow> Inr (Some e, ms) | None \<Rightarrow> again s (ep + 1) ms)) ms (w (s + 1) (ep + 1) cs @ w s (ep + 1) cs)"
        using orelse_same [where g = "again s (ep + 1)"] m again s1 s ep more 1 by simp
      then show ?thesis unfolding M W using 1 True n'(1) by simp
    next
      case 2
      have "agrees k (expand_down m (s + 1) (ep + 1) n' ms) ms (concat (map (\<lambda>i. w (s + 1 + i) (ep + 1) cs) (rev [0..<Suc n'])))"
        by (rule agrees_down) (use m s1 ep more 2 n(2) n'(1) in auto)
      moreover have "map (\<lambda>i. w (s + i) (ep + 1) cs) (rev [1..<Suc n]) = map (\<lambda>i. w (s + 1 + i) (ep + 1) cs) (rev [0..<Suc n'])"
        unfolding upt_from_one n'(1) by simp
      ultimately show ?thesis unfolding M W using 2 True n'(2) by (simp add: max_expand_def del: upt_Suc)
    next
      case 3
      have "agrees k (expand_down m s (ep + 1) n ms) ms (concat (map (\<lambda>i. w (s + i) (ep + 1) cs) (rev [0..<Suc n])))"
        by (rule agrees_down) (use m ep more 3 n(2) in auto)
      then show ?thesis unfolding M W using 3 True n(1) by (simp add: max_expand_def del: upt_Suc)
    next
      case 4
      have "agrees k (min_expand m src pat s p ep ms) ms (concat (map (\<lambda>i. w (s + i) (ep + 1) cs) [0..<Suc n]))"
        by (rule agrees_up) (use m ep more 4 n in auto)
      then show ?thesis unfolding M W using 4 True by (simp del: upt_Suc)
    next
      case 5
      then show ?thesis unfolding M W using again [of "s + 1" ep] s1 ep True n'(1) by simp
    qed
  qed
qed

section \<open>The matcher returns the first way\<close>

lemma alt_agrees:
  assumes "\<And>x. r = Inr x \<Longrightarrow> agrees k (g x) ms (h x)"
  shows "agrees k (res_bind r g) ms (alt r h)"
  using assms by (cases r) (auto simp: agrees_def)

lemma do_match_agrees:
  assumes "length src < 9223372036854775808"
  shows "ready src pat s p (capture ms) \<Longrightarrow> length pat - p < f \<Longrightarrow>
    agrees (length pat - p) (do_match f src pat s p ms) ms (ways f src pat s p (capture ms))"
proof (induction f arbitrary: s p ms)
  case 0
  then show ?case by simp
next
  case (Suc f)
  show ?case
  proof (cases "p = length pat")
    case True
    then show ?thesis by (simp add: agrees_def)
  next
    case False
    let ?k = "length pat - p" and ?cs = "capture ms"
    let ?again = "do_match f src pat" and ?w = "ways f src pat"
    have p: "p < length pat" using Suc.prems False by (simp add: ready_def)
    have s: "s \<le> length src" and co: "cap_ok src s ?cs" using Suc.prems by (simp_all add: ready_def)
    have again: "agrees ?k (?again s' q ms') ms' (?w s' q (capture ms'))"
      if "s' \<le> length src" "p < q" "q \<le> length pat" "cap_ok src s' (capture ms')" for s' q and ms' :: MatchState
      by (rule agrees_mono [OF Suc.IH]) (use that p Suc.prems in \<open>auto simp: ready_def\<close>)
    have m: "agrees ?k (with_depth ?again s' q ms') ms' (?w s' q (capture ms'))"
      if "s' \<le> length src" "p < q" "q \<le> length pat" "cap_ok src s' (capture ms')" for s' q and ms' :: MatchState
    proof (rule agrees_mono [OF agrees_depth])
      have "agrees (length pat - q) (?again s' q (ms'\<lparr>matchdepth := matchdepth ms' - 1\<rparr>)) (ms'\<lparr>matchdepth := matchdepth ms' - 1\<rparr>)
          (?w s' q (capture (ms'\<lparr>matchdepth := matchdepth ms' - 1\<rparr>)))"
        by (rule Suc.IH) (use that p Suc.prems in \<open>auto simp: ready_def\<close>)
      then show "agrees (length pat - q) (?again s' q (ms'\<lparr>matchdepth := matchdepth ms' - 1\<rparr>)) (ms'\<lparr>matchdepth := matchdepth ms' - 1\<rparr>)
          (?w s' q (capture ms'))" by simp
      show "Suc (length pat - q) \<le> ?k" using that p by simp
    qed
    have item: "agrees ?k (match_default (with_depth ?again) ?again src pat s p ms) ms (ways_item ?w src pat s p ?cs)"
      by (rule agrees_item [OF _ p refl]) (use Suc.prems again m cap_ok_later [OF co] in auto)
    have start: "agrees ?k (start_capture (with_depth ?again) s q what ms) ms (ways_open ?w s q what ?cs)"
      if "p < q" "q \<le> length pat" "what = CAP_UNFINISHED \<or> what = CAP_POSITION" for q what
      by (rule agrees_start) (use m [of s q "ms\<lparr>capture := ?cs @ [(s, what)]\<rparr>"] that s cap_ok_append [OF co] in simp)
    have close: "agrees ?k (end_capture (with_depth ?again) s (p + 1) ms) ms (ways_close ?w s (p + 1) ?cs)"
    proof (rule agrees_end)
      fix l assume l: "l < length ?cs" "snd (?cs ! l) = CAP_UNFINISHED"
      let ?ms = "ms\<lparr>capture := ?cs[l := (fst (?cs ! l), int s - int (fst (?cs ! l)))]\<rparr>"
      have "agrees ?k (with_depth ?again s (p + 1) ?ms) ?ms (?w s (p + 1) (capture ?ms))"
        by (rule m) (use p s cap_ok_close [OF co l(1) s] in simp_all)
      then show "agrees ?k (with_depth ?again s (p + 1) ?ms) ?ms (?w s (p + 1) (?cs[l := (fst (?cs ! l), int s - int (fst (?cs ! l)))]))"
        by simp
    qed
    obtain c d where c: "ch pat p = Inr c" and d: "ch pat (p + 1) = Inr d"
      using ch_ok [of p pat] ch_ok [of "p + 1" pat] p by auto
    have d0: "d = 0" if "p + 1 = length pat" using d ch_end [of pat] that by simp
    have bal: "agrees ?k (res_bind (matchbalance src pat s (p + 2)) (\<lambda>r.
        case r of Some s \<Rightarrow> ?again s (p + 4) ms | None \<Rightarrow> Inr (None, ms))) ms
        (alt (matchbalance src pat s (p + 2)) (\<lambda>r. ways_from r (\<lambda>s. ?w s (p + 4) ?cs)))" if "p + 2 \<le> length pat"
    proof (rule alt_agrees)
      fix r assume r: "matchbalance src pat s (p + 2) = Inr r"
      show "agrees ?k (case r of Some s \<Rightarrow> ?again s (p + 4) ms | None \<Rightarrow> Inr (None, ms)) ms (ways_from r (\<lambda>s. ?w s (p + 4) ?cs))"
      proof (cases r)
        case (Some e)
        have "s \<le> e" "e \<le> length src" using matchbalance_ok(1) [OF s that] r Some by (simp_all add: in_subject_def)
        moreover have "p + 4 \<le> length pat" using matchbalance_ok(2) [OF s that] r Some by simp
        ultimately show ?thesis using again [of e "p + 4" ms] cap_ok_later [OF co] Some by (simp add: ways_from_def)
      qed (simp add: ways_from_def agrees_def)
    qed
    have fr: "agrees ?k (res_bind (classend pat (p + 2)) (\<lambda>ep.
        res_bind (frontier src pat s (p + 2) ep) (\<lambda>b. if b then ?again s ep ms else Inr (None, ms)))) ms
        (alt (classend pat (p + 2)) (\<lambda>ep. alt (frontier src pat s (p + 2) ep) (\<lambda>b. if b then ?w s ep ?cs else [])))"
      if "p + 2 < length pat"
    proof (intro alt_agrees)
      fix ep b assume "classend pat (p + 2) = Inr ep"
      then have "p < ep" "ep \<le> length pat" using classend_ok [OF that] by (auto simp: in_pattern_def)
      then show "agrees ?k (if b then ?again s ep ms else Inr (None, ms)) ms (if b then ?w s ep ?cs else [])"
        using again [of s ep ms] s co agrees_outcome [of ?k ms "[]"] by auto
    qed
    have mc: "agrees ?k (res_bind (match_capture src ms s d) (\<lambda>r.
        case r of Some s \<Rightarrow> ?again s (p + 2) ms | None \<Rightarrow> Inr (None, ms))) ms
        (alt (match_capture src \<lparr>matchdepth = 0, capture = ?cs\<rparr> s d) (\<lambda>r. ways_from r (\<lambda>s. ?w s (p + 2) ?cs)))"
      if "p + 2 \<le> length pat"
      unfolding match_capture_cong [OF refl, of src ms s d, symmetric]
    proof (rule alt_agrees)
      fix r assume r: "match_capture src ms s d = Inr r"
      show "agrees ?k (case r of Some s \<Rightarrow> ?again s (p + 2) ms | None \<Rightarrow> Inr (None, ms)) ms (ways_from r (\<lambda>s. ?w s (p + 2) ?cs))"
      proof (cases r)
        case (Some e)
        have "s \<le> e" "e \<le> length src" using match_capture_ok [OF co s assms, of d] r Some by (simp_all add: in_subject_def)
        then show ?thesis using again [of e "p + 2" ms] cap_ok_later [OF co] Some that by (simp add: ways_from_def)
      qed (simp add: ways_from_def agrees_def)
    qed
    note M = do_match.simps(2) [of f src pat s p ms] and W = ways.simps(2) [of f src pat s p ?cs]
    consider "c = 40" | "c = 41" | "c = 36" "p + 1 = length pat" | "c = 37" | "c \<notin> {40, 41, 37}" "\<not> (c = 36 \<and> p + 1 = length pat)"
      by blast
    then show ?thesis
    proof cases
      case 1
      have "p + 2 \<le> length pat" if "d = 41" using d0 that p by (cases "p + 1 = length pat") auto
      then show ?thesis
        unfolding M W Let_def c d res_bind_Inr alt_simps using False 1 start [of "p + 2" CAP_POSITION] start [of "p + 1" CAP_UNFINISHED] p
        by auto
    next
      case 2
      then show ?thesis unfolding M W Let_def c d res_bind_Inr alt_simps using False close by simp
    next
      case 3
      then show ?thesis
        unfolding M W Let_def c d res_bind_Inr alt_simps using False agrees_outcome [of ?k ms "[]"] by (auto simp: agrees_def)
    next
      case 4
      show ?thesis
      proof (cases "d = 98 \<or> d = 102 \<or> c_isdigit d")
        case esc: False
        then show ?thesis unfolding M W Let_def c d res_bind_Inr alt_simps using False 4 item by simp
      next
        case True
        then have "d \<noteq> 0" by (auto simp: c_isdigit_def)
        then have p2: "p + 2 \<le> length pat" using d0 p by (cases "p + 1 = length pat") auto
        then obtain e where e: "ch pat (p + 2) = Inr e" using ch_ok by blast
        have p3: "p + 2 < length pat" if "e = 91" using e ch_end [of pat] that p2 by (cases "p + 2 = length pat") auto
        have not_digit: "\<not> c_isdigit 98" "\<not> c_isdigit 102" by (simp_all add: c_isdigit_def)
        show ?thesis
        proof (cases "d = 102")
          case f: True
          show ?thesis
          proof (cases "e = 91")
            case True
            then show ?thesis
              unfolding M W Let_def c d e res_bind_Inr alt_simps using False 4 f fr [OF p3] by simp
          next
            case no: False
            then show ?thesis
              unfolding M W Let_def c d e res_bind_Inr alt_simps using False 4 f by (simp add: agrees_def)
          qed
        next
          case nf: False
          show ?thesis
            unfolding M W Let_def c d res_bind_Inr alt_simps using False 4 nf True bal [OF p2] mc [OF p2] by (auto simp del: add_2_eq_Suc')
        qed
      qed
    next
      case 5
      then show ?thesis unfolding M W Let_def c d res_bind_Inr alt_simps using False item by auto
    qed
  qed
qed

section \<open>What every way is like\<close>

text \<open>Errors are error messages, never a fault; a match ends in the subject, and its captures lie in it.\<close>

definition good_way :: "byte list \<Rightarrow> nat \<Rightarrow> lua_error + nat \<times> captures \<Rightarrow> bool" where
  "good_way src s x \<longleftrightarrow> (case x of Inl e \<Rightarrow> \<exists>m. e = LuaError m | Inr (e, cs) \<Rightarrow> s \<le> e \<and> e \<le> length src \<and> cap_ok src e cs)"

definition good :: "byte list \<Rightarrow> nat \<Rightarrow> ways \<Rightarrow> bool" where
  "good src s ws \<longleftrightarrow> (\<forall>x\<in>set ws. good_way src s x)"

lemma good_later: "good src s' ws \<Longrightarrow> s \<le> s' \<Longrightarrow> good src s ws"
  by (fastforce simp: good_def good_way_def split: sum.splits)

lemma good_simps [simp]:
  "good src s []" "good src s [Inl (LuaError m)]" "good src s (xs @ ys) \<longleftrightarrow> good src s xs \<and> good src s ys"
  by (auto simp: good_def good_way_def)

lemma good_concat: "(\<And>i. i \<in> set is \<Longrightarrow> good src s (W i)) \<Longrightarrow> good src s (concat (map W is))"
  by (auto simp: good_def)

lemma good_alt:
  assumes "\<And>e. r = Inl e \<Longrightarrow> \<exists>m. e = LuaError m" "\<And>x. r = Inr x \<Longrightarrow> good src s (h x)"
  shows "good src s (alt r h)"
  using assms by (cases r) auto

lemma good_item:
  assumes p: "p < length pat" and s: "s \<le> length src"
    and w: "\<And>s' q. s \<le> s' \<Longrightarrow> s' \<le> length src \<Longrightarrow> p < q \<Longrightarrow> q \<le> length pat \<Longrightarrow> good src s' (w s' q cs)"
  shows "good src s (ways_item w src pat s p cs)"
proof (cases "classend pat p")
  case (Inl e)
  then show ?thesis using classend_ok [OF p] by (auto simp: ways_item_def in_pattern_def)
next
  case (Inr ep)
  have ep: "p < ep" "ep \<le> length pat" using classend_ok [OF p] Inr by (simp_all add: in_pattern_def)
  obtain x where x: "ch pat ep = Inr x" using ch_ok [OF ep(2)] by blast
  have more: "ep + 1 \<le> length pat" if "x = 63 \<or> x = 42 \<or> x = 43 \<or> x = 45"
    using x ep(2) ch_end [of pat] that by (cases "ep = length pat") auto
  from count_single_ok [OF p ep(2), of s 0 src] s obtain n where n: "count_single src pat s p ep 0 = Inr n" "s + n \<le> length src" by auto
  have g: "good src s (w (s + i) q cs)" if "i \<le> n" "p < q" "q \<le> length pat" for i q
    by (rule good_later [OF w]) (use that n(2) in auto)
  have g1: "0 < n \<Longrightarrow> good src s (w (s + 1) q cs)" "good src s (w s q cs)" if "p < q" "q \<le> length pat" for q
    using g [of 1 q] g [of 0 q] that by simp_all
  show ?thesis
    unfolding ways_item_def Inr x n(1) alt_simps
    using g g1 more ep by (auto intro!: good_concat simp del: upt_Suc)
qed

lemma ways_good:
  assumes "length src < 9223372036854775808"
  shows "ready src pat s p cs \<Longrightarrow> length pat - p < f \<Longrightarrow> good src s (ways f src pat s p cs)"
proof (induction f arbitrary: s p cs)
  case (Suc f)
  show ?case
  proof (cases "p = length pat")
    case True
    then show ?thesis using Suc.prems by (simp add: good_def good_way_def ready_def)
  next
    case False
    let ?w = "ways f src pat"
    have p: "p < length pat" using Suc.prems False by (simp add: ready_def)
    have s: "s \<le> length src" and co: "cap_ok src s cs" using Suc.prems by (simp_all add: ready_def)
    have w: "good src s (?w s' q cs')" if "s \<le> s'" "s' \<le> length src" "p < q" "q \<le> length pat" "cap_ok src s' cs'" for s' q cs'
      by (rule good_later [OF Suc.IH]) (use that p Suc.prems in \<open>auto simp: ready_def\<close>)
    have item: "good src s (ways_item ?w src pat s p cs)"
    proof (rule good_item [OF p s])
      fix s' q assume a: "s \<le> s'" "s' \<le> length src" "p < q" "q \<le> length pat"
      show "good src s' (?w s' q cs)" by (rule Suc.IH) (use a p Suc.prems cap_ok_later [OF co] in \<open>auto simp: ready_def\<close>)
    qed
    have start: "good src s (ways_open ?w s q what cs)"
      if "p < q" "q \<le> length pat" "what = CAP_UNFINISHED \<or> what = CAP_POSITION" for q what
      using w [OF le_refl s that(1,2) cap_ok_append [OF co _ that(3)]] by (simp add: ways_open_def)
    have close: "good src s (ways_close ?w s (p + 1) cs)"
      using last_unfinished_ok [of cs "length cs"]
    proof (elim disjE exE conjE)
      fix l assume l: "last_unfinished cs (length cs) = Inr l" "l < length cs"
      have "good src s (?w s (p + 1) (cs[l := (fst (cs ! l), int s - int (fst (cs ! l)))]))"
        by (rule w) (use p s cap_ok_close [OF co l(2) s] in auto)
      then show ?thesis using l(1) by (simp add: ways_close_def)
    qed (simp add: ways_close_def)
    obtain c d where c: "ch pat p = Inr c" and d: "ch pat (p + 1) = Inr d"
      using ch_ok [of p pat] ch_ok [of "p + 1" pat] p by auto
    have d0: "d = 0" if "p + 1 = length pat" using d ch_end [of pat] that by simp
    have bal: "good src s (alt (matchbalance src pat s (p + 2)) (\<lambda>r. ways_from r (\<lambda>s. ?w s (p + 4) cs)))" if "p + 2 \<le> length pat"
    proof (rule good_alt)
      show "\<exists>m. e = LuaError m" if "matchbalance src pat s (p + 2) = Inl e" for e
        using matchbalance_ok(1) [OF s \<open>p + 2 \<le> length pat\<close>] that by (simp add: in_subject_def)
      show "good src s (ways_from r (\<lambda>s. ?w s (p + 4) cs))" if r: "matchbalance src pat s (p + 2) = Inr r" for r
      proof (cases r)
        case (Some e)
        have "s \<le> e" "e \<le> length src"
          using matchbalance_ok(1) [OF s \<open>p + 2 \<le> length pat\<close>] r Some by (simp_all add: in_subject_def)
        moreover have "p + 4 \<le> length pat" using matchbalance_ok(2) [OF s \<open>p + 2 \<le> length pat\<close>] r Some by simp
        ultimately show ?thesis using w [of e "p + 4" cs] cap_ok_later [OF co] Some by (simp add: ways_from_def)
      qed (simp add: ways_from_def)
    qed
    have fr: "good src s (alt (classend pat (p + 2)) (\<lambda>ep. alt (frontier src pat s (p + 2) ep) (\<lambda>b. if b then ?w s ep cs else [])))"
      if q: "p + 2 < length pat"
    proof (rule good_alt)
      show "\<exists>m. e = LuaError m" if "classend pat (p + 2) = Inl e" for e
        using classend_ok [OF q] that by (simp add: in_pattern_def)
      fix ep assume "classend pat (p + 2) = Inr ep"
      then have ep: "p < ep" "ep \<le> length pat" using classend_ok [OF q] by (auto simp: in_pattern_def)
      obtain b where "frontier src pat s (p + 2) ep = Inr b" using frontier_ok [OF s q ep(2)] by blast
      then show "good src s (alt (frontier src pat s (p + 2) ep) (\<lambda>b. if b then ?w s ep cs else []))"
        using w [of s ep cs] ep s co by simp
    qed
    have mc: "good src s (alt (match_capture src \<lparr>matchdepth = 0, capture = cs\<rparr> s d) (\<lambda>r. ways_from r (\<lambda>s. ?w s (p + 2) cs)))"
      if q: "p + 2 \<le> length pat"
    proof -
      have "cap_ok src s (capture \<lparr>matchdepth = 0, capture = cs\<rparr>)" using co by simp
      note mco = match_capture_ok [OF this s assms, of d]
      show ?thesis
      proof (rule good_alt)
        show "\<exists>m. e = LuaError m" if "match_capture src \<lparr>matchdepth = 0, capture = cs\<rparr> s d = Inl e" for e
          using mco that by (simp add: in_subject_def)
        show "good src s (ways_from r (\<lambda>s. ?w s (p + 2) cs))" if r: "match_capture src \<lparr>matchdepth = 0, capture = cs\<rparr> s d = Inr r" for r
        proof (cases r)
          case (Some e)
          have "s \<le> e" "e \<le> length src" using mco r Some by (simp_all add: in_subject_def)
          then show ?thesis using w [of e "p + 2" cs] cap_ok_later [OF co] Some q by (simp add: ways_from_def)
        qed (simp add: ways_from_def)
      qed
    qed
    note W = ways.simps(2) [of f src pat s p cs]
    consider "c = 40" | "c = 41" | "c = 36" "p + 1 = length pat" | "c = 37" | "c \<notin> {40, 41, 37}" "\<not> (c = 36 \<and> p + 1 = length pat)"
      by blast
    then show ?thesis
    proof cases
      case 1
      have "p + 2 \<le> length pat" if "d = 41" using d0 that p by (cases "p + 1 = length pat") auto
      then show ?thesis
        unfolding W Let_def c d alt_simps using False 1 start [of "p + 2" CAP_POSITION] start [of "p + 1" CAP_UNFINISHED] p by auto
    next
      case 2
      then show ?thesis unfolding W Let_def c d alt_simps using False close by simp
    next
      case 3
      then show ?thesis unfolding W Let_def c d alt_simps using False co s by (auto simp: good_def good_way_def)
    next
      case 4
      show ?thesis
      proof (cases "d = 98 \<or> d = 102 \<or> c_isdigit d")
        case esc: False
        then show ?thesis unfolding W Let_def c d alt_simps using False 4 item by simp
      next
        case True
        then have "d \<noteq> 0" by (auto simp: c_isdigit_def)
        then have p2: "p + 2 \<le> length pat" using d0 p by (cases "p + 1 = length pat") auto
        then obtain e where e: "ch pat (p + 2) = Inr e" using ch_ok by blast
        have p3: "p + 2 < length pat" if "e = 91" using e ch_end [of pat] that p2 by (cases "p + 2 = length pat") auto
        show ?thesis
        proof (cases "d = 102")
          case f: True
          then show ?thesis unfolding W Let_def c d e alt_simps using False 4 fr [OF p3] by (cases "e = 91") simp_all
        next
          case nf: False
          show ?thesis
            unfolding W Let_def c d alt_simps using False 4 nf True bal [OF p2] mc [OF p2] by (auto simp del: add_2_eq_Suc')
        qed
      qed
    next
      case 5
      then show ?thesis unfolding W Let_def c d alt_simps using False item by auto
    qed
  qed
qed simp

end
