(* ===== verification/LuaStrSpec.thy ===== *)
theory LuaStrSpec
  imports LuaStrFind LuaMatchWays
begin

text \<open>
  The searching functions of the string library against the reference of the matcher: the match they find is the leftmost,
  and there the first way; a plain search finds the first occurrence; nothing is read outside the strings.
\<close>

section \<open>One attempt\<close>

definition all_ways :: "byte list \<Rightarrow> byte list \<Rightarrow> nat \<Rightarrow> nat \<Rightarrow> ways" where
  "all_ways src pat s p = ways (match_fuel pat) src pat s p []"

definition subject_ok :: "byte list \<Rightarrow> bool" where
  "subject_ok src \<longleftrightarrow> length src < 9223372036854775808"

lemma ready_start: "s \<le> length src \<Longrightarrow> p \<le> length pat \<Longrightarrow> ready src pat s p []"
  by (simp add: ready_def cap_ok_def LUA_MAXCAPTURES_def)

lemma match_agrees:
  assumes "subject_ok src" "s \<le> length src" "p \<le> length pat" "capture ms = []"
  shows "agrees (Suc (length pat - p)) (match src pat s p ms) ms (all_ways src pat s p)"
proof -
  let ?ms = "ms\<lparr>matchdepth := matchdepth ms - 1\<rparr>"
  have "agrees (length pat - p) (do_match (match_fuel pat) src pat s p ?ms) ?ms (ways (match_fuel pat) src pat s p (capture ?ms))"
    by (rule do_match_agrees)
      (use assms ready_start [of s src p pat] in \<open>auto simp: subject_ok_def match_fuel_def\<close>)
  then show ?thesis
    unfolding match_def all_ways_def using agrees_depth assms(4) by simp
qed

lemma all_ways_good: "subject_ok src \<Longrightarrow> s \<le> length src \<Longrightarrow> p \<le> length pat \<Longrightarrow> good src s (all_ways src pat s p)"
  unfolding all_ways_def by (rule ways_good [OF _ ready_start]) (auto simp: subject_ok_def match_fuel_def)

text \<open>What one attempt gives: an error message, no match and the state as it was, or the first way.\<close>

lemma match_cases:
  assumes "subject_ok src" "s \<le> length src" "p \<le> length pat" "capture ms = []"
  obtains (error) m where "match src pat s p ms = Inl (LuaError m)"
      "m = ''pattern too complex'' \<and> matchdepth ms \<le> length pat - p \<or> (\<exists>ws. all_ways src pat s p = Inl (LuaError m) # ws)"
  | (none) "match src pat s p ms = Inr (None, ms)" "all_ways src pat s p = []"
  | (found) e cs ws where "match src pat s p ms = Inr (Some e, ms\<lparr>capture := cs\<rparr>)" "all_ways src pat s p = Inr (e, cs) # ws"
      "s \<le> e" "e \<le> length src" "cap_ok src e cs"
proof -
  have g: "good src s (all_ways src pat s p)" by (rule all_ways_good [OF assms(1-3)])
  from match_agrees [OF assms] show ?thesis
    unfolding agrees_def
  proof
    assume r: "match src pat s p ms = outcome ms (all_ways src pat s p)"
    show ?thesis
    proof (cases "all_ways src pat s p")
      case Nil
      then show ?thesis using none r by simp
    next
      case (Cons x ws)
      then have x: "good_way src s x" using g by (simp add: good_def)
      show ?thesis
      proof (cases x)
        case (Inl e)
        then obtain m where "e = LuaError m" using x by (auto simp: good_way_def)
        then show ?thesis using error [of m] r Cons Inl by simp
      next
        case (Inr y)
        obtain e cs where "y = (e, cs)" by (cases y)
        then show ?thesis using found [of e cs ws] r Cons Inr x by (simp add: good_way_def)
      qed
    qed
  next
    assume "matchdepth ms < Suc (length pat - p) \<and> match src pat s p ms = too_complex"
    then show ?thesis using error by auto
  qed
qed

section \<open>Searching\<close>

definition found_at :: "byte list \<Rightarrow> byte list \<Rightarrow> nat \<Rightarrow> nat \<Rightarrow> nat \<Rightarrow> nat \<Rightarrow> captures \<Rightarrow> bool" where
  "found_at src pat p0 s1 s e cs \<longleftrightarrow> s1 \<le> s \<and> s \<le> e \<and> e \<le> length src \<and> cap_ok src e cs \<and>
     (\<forall>t. s1 \<le> t \<longrightarrow> t < s \<longrightarrow> all_ways src pat t p0 = []) \<and> (\<exists>ws. all_ways src pat s p0 = Inr (e, cs) # ws)"

definition search_ok :: "byte list \<Rightarrow> byte list \<Rightarrow> nat \<Rightarrow> bool \<Rightarrow> nat \<Rightarrow> lua_error + (nat \<times> nat \<times> MatchState) option \<Rightarrow> bool" where
  "search_ok src pat p0 anchor s1 r \<longleftrightarrow>
     (case r of
        Inl e \<Rightarrow> \<exists>m. e = LuaError m
      | Inr None \<Rightarrow> \<forall>t. s1 \<le> t \<longrightarrow> t \<le> (if anchor then s1 else length src) \<longrightarrow> all_ways src pat t p0 = []
      | Inr (Some (s, e, ms)) \<Rightarrow> found_at src pat p0 s1 s e (capture ms) \<and> (anchor \<longrightarrow> s = s1))"

lemma find_loop_ok:
  assumes "subject_ok src" "p0 \<le> length pat" "s1 \<le> length src"
  shows "search_ok src pat p0 anchor s1 (find_loop src pat p0 anchor s1 ms)"
  using assms
proof (induction src pat p0 anchor s1 ms rule: find_loop.induct)
  case (1 src pat p0 anchor s1 ms)
  let ?ms = "ms\<lparr>capture := []\<rparr>"
  note r = find_loop.simps [of src pat p0 anchor s1 ms]
  have c: "capture ?ms = []" by simp
  show ?case
  proof (cases rule: match_cases [OF 1(2,4,3) c])
    case (1 m)
    then show ?thesis unfolding r by (simp add: search_ok_def)
  next
    case none: 2
    show ?thesis
    proof (cases "s1 < length src \<and> \<not> anchor")
      case False
      have "all_ways src pat t p0 = []" if "s1 \<le> t" "t \<le> (if anchor then s1 else length src)" for t
      proof -
        have "t = s1" using that False 1(4) by (auto split: if_splits)
        then show ?thesis using none(2) by simp
      qed
      moreover have "find_loop src pat p0 anchor s1 ms = Inr None" unfolding r using none(1) False by auto
      ultimately show ?thesis unfolding search_ok_def by simp
    next
      case True
      have "search_ok src pat p0 anchor (s1 + 1) (find_loop src pat p0 anchor (s1 + 1) ?ms)"
        by (rule 1(1)) (use none True 1(2-4) in auto)
      moreover have "find_loop src pat p0 anchor s1 ms = find_loop src pat p0 anchor (s1 + 1) ?ms"
        unfolding r using none(1) True by simp
      moreover have "all_ways src pat t p0 = []" if "s1 \<le> t" "\<not> s1 + 1 \<le> t" for t
      proof -
        have "t = s1" using that by simp
        then show ?thesis using none(2) by simp
      qed
      ultimately show ?thesis
        using True unfolding search_ok_def found_at_def
        by (auto split: sum.splits option.splits)
    qed
  next
    case found: (3 e cs ws)
    then show ?thesis unfolding r using 1(4) by (auto simp: search_ok_def found_at_def)
  qed
qed

section \<open>Captures\<close>

definition finished :: "captures \<Rightarrow> bool" where
  "finished cs \<longleftrightarrow> (\<forall>(i, l)\<in>set cs. l \<noteq> CAP_UNFINISHED)"

text \<open>What \<open>push_onecapture\<close> makes of a capture.\<close>

definition capture_value :: "byte list \<Rightarrow> nat \<times> int \<Rightarrow> lval" where
  "capture_value src c = (case c of (i, l) \<Rightarrow> if l = CAP_POSITION then LInt (int i + 1) else LStr (take (nat l) (drop i src)))"

lemma bytes_between_ok: "a \<le> b \<Longrightarrow> b \<le> length src \<Longrightarrow> bytes_between src a b = Inr (take (b - a) (drop a src))"
  by (simp add: bytes_between_def)

lemma push_onecapture_ok:
  assumes "cap_ok src e (capture ms)" "i < level ms"
  shows "push_onecapture src ms i bs = (if snd (capture ms ! i) = CAP_UNFINISHED then Inl (LuaError ''unfinished capture'')
    else Inr (capture_value src (capture ms ! i)))"
proof -
  obtain j l where c: "capture ms ! i = (j, l)" by (cases "capture ms ! i")
  have "l = CAP_UNFINISHED \<or> l = CAP_POSITION \<or> 0 \<le> l \<and> int j + l \<le> int (length src)"
    using cap_ok_nth(2) [OF assms(1), of i] assms(2) c by (simp add: level_def)
  moreover have "j + nat l \<le> length src" if "0 \<le> l" "int j + l \<le> int (length src)" using that by linarith
  ultimately show ?thesis
    using assms(2) c bytes_between_ok [of j "j + nat l" src]
    by (auto simp: push_onecapture_def capture_value_def CAP_UNFINISHED_def CAP_POSITION_def)
qed

definition lua_result :: "lua_error + 'a \<Rightarrow> bool" where
  "lua_result r \<longleftrightarrow> (\<forall>e. r = Inl e \<longrightarrow> (\<exists>m. e = LuaError m))"

lemma lua_result_simps [simp]: "lua_result (Inr x)" "lua_result (Inl (LuaError m))" "\<not> lua_result (Inl (Fault f))"
  by (auto simp: lua_result_def)

lemma lua_result_bind: "lua_result r \<Longrightarrow> (\<And>x. r = Inr x \<Longrightarrow> lua_result (g x)) \<Longrightarrow> lua_result (res_bind r g)"
  by (cases r) (auto simp: lua_result_def)

lemma push_one_result:
  assumes "cap_ok src e (capture ms)" "s \<le> e" "e \<le> length src"
  shows "lua_result (push_onecapture src ms i (Some (s, e)))"
proof (cases "i < level ms")
  case True
  then show ?thesis using push_onecapture_ok [OF assms(1) True] by simp
next
  case False
  then show ?thesis using bytes_between_ok [OF assms(2,3)] by (simp add: push_onecapture_def)
qed

lemma push_range_result:
  assumes "\<And>i. i \<in> set is \<Longrightarrow> lua_result (push_onecapture src ms i bs)"
  shows "lua_result (push_range src ms bs is)"
  using assms by (induction "is") (auto intro!: lua_result_bind)

lemma push_captures_result:
  assumes "cap_ok src e (capture ms)" "bs = None \<or> (\<exists>s. bs = Some (s, e) \<and> s \<le> e \<and> e \<le> length src)"
  shows "lua_result (push_captures room src ms bs)"
proof -
  define n where "n = (if level ms = 0 \<and> bs \<noteq> None then 1 else level ms)"
  have "lua_result (push_onecapture src ms i bs)" if "i \<in> set [0..<n]" for i
  proof (cases bs)
    case None
    then have "i < level ms" using that by (simp add: n_def)
    then show ?thesis using push_onecapture_ok [OF assms(1)] by simp
  next
    case (Some p)
    then show ?thesis using assms push_one_result [OF assms(1)] by auto
  qed
  then have "lua_result (push_range src ms bs [0..<n])" by (rule push_range_result)
  then show ?thesis unfolding push_captures_def Let_def n_def [symmetric] by simp
qed

lemma push_range_values:
  assumes "cap_ok src e (capture ms)" "finished (capture ms)" "\<forall>i\<in>set is. i < level ms"
  shows "push_range src ms bs is = Inr (map (\<lambda>i. capture_value src (capture ms ! i)) is)"
  using assms(3)
proof (induction "is")
  case (Cons i "is")
  have "snd (capture ms ! i) \<noteq> CAP_UNFINISHED"
  proof -
    have "capture ms ! i \<in> set (capture ms)" using Cons.prems by (simp add: level_def)
    from bspec [OF assms(2) [unfolded finished_def] this] show ?thesis by (simp add: split_beta)
  qed
  then show ?case using Cons push_onecapture_ok [OF assms(1), of i bs] by simp
qed simp

lemma push_captures_values:
  assumes "cap_ok src e (capture ms)" "finished (capture ms)" "room (int (level ms))" "bs = None \<or> level ms \<noteq> 0"
  shows "push_captures room src ms bs = Inr (map (capture_value src) (capture ms))"
proof -
  have "push_range src ms bs [0..<level ms] = Inr (map (\<lambda>i. capture_value src (capture ms ! i)) [0..<level ms])"
    by (rule push_range_values [OF assms(1,2)]) simp
  moreover have "map (\<lambda>i. capture_value src (capture ms ! i)) [0..<level ms] = map (capture_value src) (capture ms)"
    by (simp add: level_def map_nth map_map [unfolded comp_def, symmetric, of "capture_value src" "(!) (capture ms)"])
  ultimately show ?thesis using assms(3,4) by (auto simp: push_captures_def)
qed

section \<open>Plain search\<close>

definition occurs :: "byte list \<Rightarrow> byte list \<Rightarrow> nat \<Rightarrow> bool" where
  "occurs s1 s2 k \<longleftrightarrow> k + length s2 \<le> length s1 \<and> take (length s2) (drop k s1) = s2"

lemma memchr_spec:
  "case memchr b xs of None \<Rightarrow> b \<notin> set xs | Some j \<Rightarrow> j < length xs \<and> xs ! j = b \<and> (\<forall>i<j. xs ! i \<noteq> b)"
  by (induction xs) (auto simp: less_Suc_eq_0_disj split: option.splits)

lemma occurs_Cons:
  "occurs s1 (b # rest) k \<longleftrightarrow> k + length rest < length s1 \<and> s1 ! k = b \<and> take (length rest) (drop (k + 1) s1) = rest"
proof (cases "k < length s1")
  case True
  then have "drop k s1 = s1 ! k # drop (k + 1) s1" by (simp add: Cons_nth_drop_Suc)
  then show ?thesis by (auto simp: occurs_def)
qed (auto simp: occurs_def)

lemma memfind_loop_spec:
  assumes "k + l1 + length rest = length s1"
  shows "\<exists>r. memfind_loop s1 b rest k l1 = Inr r \<and> (case r of
      None \<Rightarrow> \<forall>j\<ge>k. \<not> occurs s1 (b # rest) j
    | Some j \<Rightarrow> k \<le> j \<and> occurs s1 (b # rest) j \<and> (\<forall>i\<ge>k. i < j \<longrightarrow> \<not> occurs s1 (b # rest) i))"
  using assms
proof (induction s1 b rest k l1 rule: memfind_loop.induct)
  case (1 s1 b rest k l1)
  note r = memfind_loop.simps [of s1 b rest k l1]
  show ?case
  proof (cases "l1 = 0")
    case True
    then show ?thesis using 1(2) unfolding r by (auto simp: occurs_Cons)
  next
    case l1: False
    have len: "length (take l1 (drop k s1)) = l1" using 1(2) by simp
    have w: "bytes_between s1 k (k + l1) = Inr (take l1 (drop k s1))" using 1(2) by (simp add: bytes_between_def)
    have nth: "take l1 (drop k s1) ! i = s1 ! (k + i)" if "i < l1" for i using that 1(2) by simp
    show ?thesis
    proof (cases "memchr b (take l1 (drop k s1))")
      case None
      then have n: "b \<notin> set (take l1 (drop k s1))" using memchr_spec [of b "take l1 (drop k s1)"] by simp
      have "\<not> occurs s1 (b # rest) j" if "k \<le> j" for j
      proof
        assume o: "occurs s1 (b # rest) j"
        then have "j < k + l1" using 1(2) by (simp add: occurs_Cons)
        then have "j - k < l1" using that by linarith
        then have "take l1 (drop k s1) ! (j - k) = s1 ! j" using nth [of "j - k"] that by simp
        then show False using n o \<open>j - k < l1\<close> len by (metis nth_mem occurs_Cons)
      qed
      then show ?thesis unfolding r w using l1 None by simp
    next
      case (Some j)
      then have j: "j < l1" "s1 ! (k + j) = b" "\<forall>i<j. s1 ! (k + i) \<noteq> b"
        using memchr_spec [of b "take l1 (drop k s1)"] nth len by auto
      have w2: "bytes_between s1 (k + j + 1) (k + j + 1 + length rest) = Inr (take (length rest) (drop (k + j + 1) s1))"
        using j(1) 1(2) by (simp add: bytes_between_def)
      have skip: "\<not> occurs s1 (b # rest) i" if "k \<le> i" "i < k + j" for i
        using j(3) that by (auto simp: occurs_Cons dest: spec [of _ "i - k"])
      show ?thesis
      proof (cases "take (length rest) (drop (k + j + 1) s1) = rest")
        case True
        then have "occurs s1 (b # rest) (k + j)" using j 1(2) by (simp add: occurs_Cons)
        then show ?thesis unfolding r w using l1 Some True skip w2 by simp
      next
        case False
        then have no: "\<not> occurs s1 (b # rest) (k + j)" by (simp add: occurs_Cons)
        obtain r' where "memfind_loop s1 b rest (k + j + 1) (l1 - (j + 1)) = Inr r'" "case r' of
            None \<Rightarrow> \<forall>i\<ge>k + j + 1. \<not> occurs s1 (b # rest) i
          | Some x \<Rightarrow> k + j + 1 \<le> x \<and> occurs s1 (b # rest) x \<and> (\<forall>i\<ge>k + j + 1. i < x \<longrightarrow> \<not> occurs s1 (b # rest) i)"
          using 1(1) [OF l1 w Some w2 False] j(1) 1(2) by auto
        moreover have "memfind_loop s1 b rest k l1 = memfind_loop s1 b rest (k + j + 1) (l1 - (j + 1))"
          unfolding r w using l1 Some False w2 by simp
        moreover have "\<not> occurs s1 (b # rest) i" if "k \<le> i" "\<not> k + j + 1 \<le> i" for i
          using skip [of i] no that by (cases "i = k + j") auto
        ultimately show ?thesis
          by (cases r') (auto split: option.splits)
      qed
    qed
  qed
qed

lemma lmemfind_spec:
  "\<exists>r. lmemfind s1 s2 = Inr r \<and>
    (case r of None \<Rightarrow> \<forall>j. \<not> occurs s1 s2 j | Some j \<Rightarrow> occurs s1 s2 j \<and> (\<forall>i<j. \<not> occurs s1 s2 i))"
proof (cases s2)
  case Nil
  then show ?thesis by (simp add: lmemfind_def occurs_def)
next
  case (Cons b rest)
  show ?thesis
  proof (cases "length s1 < length s2")
    case True
    then show ?thesis using Cons by (simp add: lmemfind_def occurs_def)
  next
    case False
    then have "0 + (length s1 - length rest) + length rest = length s1" using Cons by simp
    from memfind_loop_spec [OF this, of b] show ?thesis using False unfolding Cons by (auto simp: lmemfind_def split: option.splits)
  qed
qed

lemma nospecials_loop_ok:
  "ofs \<le> length p \<Longrightarrow> nospecials_loop p ofs \<longleftrightarrow> (\<forall>b\<in>set (drop ofs p). uint b \<notin> set SPECIALS)"
proof (induction p ofs rule: nospecials_loop.induct)
  case (1 p ofs)
  define part where "part = until_zero (drop ofs p)"
  have dw: "dropWhile (\<lambda>b. b \<noteq> 0) (drop ofs p) = drop (ofs + length part) p"
    by (simp add: dropWhile_eq_drop part_def until_zero_def add.commute)
  have d: "drop ofs p = part @ drop (ofs + length part) p"
    unfolding dw [symmetric] by (simp add: part_def until_zero_def)
  have z: "drop (ofs + length part) p = [] \<or> (\<exists>rest. drop (ofs + length part) p = 0 # rest \<and> rest = drop (ofs + length part + 1) p)"
  proof (cases "drop (ofs + length part) p")
    case (Cons b rest)
    then have "dropWhile (\<lambda>b. b \<noteq> 0) (drop ofs p) = b # rest" using dw by simp
    then have "b = 0" using hd_dropWhile [of "\<lambda>b. b \<noteq> 0" "drop ofs p"] by auto
    moreover have "rest = drop (ofs + length part + 1) p"
      using Cons drop_Suc [of "ofs + length part" p] tl_drop [of "ofs + length part" p] by simp
    ultimately show ?thesis using Cons by simp
  qed simp
  have sp: "(0 :: int) \<notin> set SPECIALS" by (simp add: SPECIALS_def)
  note r = nospecials_loop.simps [of p ofs, unfolded part_def [symmetric] Let_def]
  show ?case
  proof (cases "\<exists>b\<in>set part. uint b \<in> set SPECIALS")
    case True
    then show ?thesis unfolding r d by auto
  next
    case no: False
    show ?thesis
    proof (cases "ofs + length part + 1 \<le> length p")
      case True
      have "nospecials_loop p (ofs + length part + 1) \<longleftrightarrow> (\<forall>b\<in>set (drop (ofs + length part + 1) p). uint b \<notin> set SPECIALS)"
        by (rule 1(1) [OF part_def no refl True True])
      moreover have "drop (ofs + length part) p = 0 # drop (ofs + length part + 1) p" using z True by auto
      ultimately show ?thesis unfolding r d using no True sp by auto
    next
      case False
      then have "drop (ofs + length part) p = []" using z by auto
      then show ?thesis unfolding r d using no False by auto
    qed
  qed
qed

lemma nospecials_ok: "nospecials p \<longleftrightarrow> (\<forall>b\<in>set p. uint b \<notin> set SPECIALS)"
  using nospecials_loop_ok [of 0 p] by (simp add: nospecials_def)

end
