(* ===== verification/LuaStrProps.thy ===== *)
theory LuaStrProps
  imports LuaStrSpec
begin

text \<open>
  The properties of pattern matching and of the functions that search: the reference of the matcher, the leftmost match, the
  first occurrence, the absence of faults, and a replacement that changes nothing.
\<close>

section \<open>Faults\<close>

definition repl_ok :: "repl \<Rightarrow> bool" where
  "repl_ok tr \<longleftrightarrow> (case tr of ReplString _ \<Rightarrow> True | ReplTable t \<Rightarrow> (\<forall>v. lua_result (t v)) | ReplFunction f \<Rightarrow> (\<forall>vs. lua_result (f vs)))"

lemma start_state_simps [simp]: "capture start_state = []" "matchdepth start_state = MAXCCALLS"
  by (simp_all add: start_state_def)

lemma captured_is_text: "push_onecapture src ms i bs = Inr v \<Longrightarrow> value_bytes v \<noteq> None"
  by (auto simp: push_onecapture_def value_bytes_def res_simps split: if_splits option.splits prod.splits)

lemma add_s_result:
  assumes "cap_ok src e (capture ms)" "s \<le> e" "e \<le> length src"
  shows "lua_result (add_s src ms s e news)"
  using assms
proof (induction src ms s e news rule: add_s.induct)
  case (2 src ms s e c cs)
  show ?case
  proof (cases "uint c = 37")
    case False
    then show ?thesis using 2 by (auto intro: lua_result_bind)
  next
    case esc: True
    show ?thesis
    proof (cases cs)
      case (Cons d ds)
      show ?thesis
      proof (cases "c_isdigit (uint d)")
        case False
        then show ?thesis using 2(2) esc Cons 2(4-6) by (auto intro: lua_result_bind)
      next
        case True
        have t: "lua_result (case value_bytes v of Some bs \<Rightarrow> Inr bs | None \<Rightarrow> Inl (Fault NullDeref))"
          if "push_onecapture src ms i (Some (s, e)) = Inr v" for i v
          using captured_is_text [OF that] by (cases "value_bytes v") auto
        have 1: "lua_result (if uint d = 48 then bytes_between src s e
            else res_bind (push_onecapture src ms (nat (uint d - 49)) (Some (s, e))) (\<lambda>v.
              case value_bytes v of Some bs \<Rightarrow> Inr bs | None \<Rightarrow> Inl (Fault NullDeref)))"
          using push_one_result [OF 2(4-6), of "nat (uint d - 49)"] t bytes_between_ok [OF 2(5,6)]
          by (auto intro!: lua_result_bind)
        have 3: "lua_result (add_s src ms s e ds)" using 2(3) esc Cons True 2(4-6) by simp
        show ?thesis
          using esc Cons True by (simp only: add_s.simps list.case not_True_eq_False if_False simp_thms)
            (intro lua_result_bind 1 3, simp)
      qed
    qed (use esc in simp)
  qed
qed simp

lemma add_result_result: "s \<le> e \<Longrightarrow> e \<le> length src \<Longrightarrow> lua_result (add_result src s e v)"
  using bytes_between_ok [of s e src] by (auto simp: add_result_def split: option.splits)

lemma add_value_result:
  assumes "cap_ok src e (capture ms)" "s \<le> e" "e \<le> length src" "repl_ok tr"
  shows "lua_result (add_value room src ms s e tr)"
  using assms add_s_result [OF assms(1-3)] push_one_result [OF assms(1-3)]
    push_captures_result [OF assms(1), of "Some (s, e)"] add_result_result [OF assms(2,3)]
  by (auto simp: add_value_def repl_ok_def intro!: lua_result_bind split: repl.splits)

lemma gsub_loop_result:
  assumes "subject_ok s" "p0 \<le> length p" "src \<le> length s" "repl_ok tr"
  shows "lua_result (gsub_loop room s p p0 anchor tr max_s src n b ms)"
  using assms
proof (induction room s p p0 anchor tr max_s src n b ms rule: gsub_loop.induct)
  case (1 room s p p0 anchor tr max_s src n b ms)
  note r = gsub_loop.simps [of room s p p0 anchor tr max_s src n b ms]
  let ?ms = "ms\<lparr>capture := []\<rparr>"
  have c: "capture ?ms = []" by simp
  show ?case
  proof (cases "n < max_s")
    case False
    then show ?thesis unfolding r by simp
  next
    case True
    have go: "lua_result (case gsub_next s src e b' of None \<Rightarrow> Inr (b' @ drop src s, n')
        | Some (src, b) \<Rightarrow> if anchor then Inr (b @ drop src s, n')
            else gsub_loop room s p p0 anchor tr max_s src n' b ms')"
      if m: "match s p src p0 ?ms = Inr (e, ms')" "gsub_add room s tr src n b e ms' = Inr (n', b')" for e n' b' ms'
    proof (cases "gsub_next s src e b'")
      case (Some y)
      obtain src' b'' where y: "y = (src', b'')" by (cases y)
      have l: "src' \<le> length s" using gsub_next_less [OF _ gsub_add_less [OF m(2)]] Some y by simp
      show ?thesis
      proof (cases anchor)
        case True
        then show ?thesis using Some y by simp
      next
        case False
        have "lua_result (gsub_loop room s p p0 anchor tr max_s src' n' b'' ms')"
          by (rule 1(1) [OF _ m(1) refl m(2) refl Some y [symmetric] _ 1(2,3) l 1(5)]) (use \<open>n < max_s\<close> False in auto)
        then show ?thesis using Some y False by simp
      qed
    qed simp
    show ?thesis
    proof (cases rule: match_cases [OF 1(2,4,3) c])
      case (1 m)
      then show ?thesis unfolding r using True by simp
    next
      case none: 2
      show ?thesis unfolding r using True none(1) go [OF none(1), of n b] by (simp add: gsub_add_def)
    next
      case found: (3 e cs ws)
      let ?m = "ms\<lparr>capture := cs\<rparr>"
      have f1: "match s p src p0 ?ms = Inr (Some e, ?m)" using found(1) by simp
      have "lua_result (add_value room s ?m src e tr)" by (rule add_value_result) (use found 1(5) in auto)
      then have "lua_result (gsub_add room s tr src n b (Some e) ?m)"
        using found(4) by (auto simp: gsub_add_def intro: lua_result_bind)
      then show ?thesis
        unfolding r using True f1 go [OF f1] by (cases "gsub_add room s tr src n b (Some e) ?m") (auto simp: lua_result_def)
    qed
  qed
qed

lemma gmatch_result:
  assumes "subject_ok s"
  shows "lua_result (gmatch_aux room s p src ms)"
  using assms
proof (induction room s p src ms rule: gmatch_aux.induct)
  case (1 room s p src ms)
  note r = gmatch_aux.simps [of room s p src ms]
  show ?case
  proof (cases "length s < src")
    case True
    then show ?thesis unfolding r by simp
  next
    case False
    then have l: "src \<le> length s" "(0 :: nat) \<le> length p" and c: "capture (ms\<lparr>capture := []\<rparr>) = []" by simp_all
    show ?thesis
    proof (cases rule: match_cases [OF 1(2) l c])
      case (1 m)
      then show ?thesis unfolding r using False by simp
    next
      case none: 2
      have "lua_result (gmatch_aux room s p (src + 1) (ms\<lparr>capture := []\<rparr>))" by (rule 1(1)) (use False none 1(2) in auto)
      then show ?thesis unfolding r using False none by simp
    next
      case found: (3 e cs ws)
      have "lua_result (push_captures room s (ms\<lparr>capture := []\<rparr>\<lparr>capture := cs\<rparr>) (Some (src, e)))"
        by (rule push_captures_result) (use found in auto)
      then show ?thesis unfolding r using False found by (auto intro: lua_result_bind)
    qed
  qed
qed

lemma anchor_fits: "(if has_anchor p then 1 else 0) \<le> length p"
  by (cases p) (simp_all add: has_anchor_def)

lemma find_aux_result:
  assumes "subject_ok s"
  shows "lua_result (str_find_aux room finding s p init plain)"
proof -
  define i where "i = u_posrelat (case init of None \<Rightarrow> 1 | Some i \<Rightarrow> i) (length s)"
  define s1 where "s1 = (if i < 1 then 0 else nat (i - 1))"
  define r where "r = find_loop s p (if has_anchor p then 1 else 0) (has_anchor p) s1 start_state"
  show ?thesis
  proof (cases "i > int (length s) + 1")
    case True
    then show ?thesis by (simp add: str_find_aux_def i_def [symmetric])
  next
    case False
    then have l: "s1 \<le> length s" by (auto simp: s1_def)
    have ok: "search_ok s p (if has_anchor p then 1 else 0) (has_anchor p) s1 r"
      unfolding r_def by (rule find_loop_ok [OF assms anchor_fits l])
    have "lua_result (res_bind r (\<lambda>r. case r of None \<Rightarrow> Inr [LNil]
        | Some (s1, e, ms) \<Rightarrow>
            if finding then res_bind (push_captures room s ms None) (\<lambda>vs. Inr (LInt (int s1 + 1) # LInt (int e) # vs))
            else push_captures room s ms (Some (s1, e))))"
    proof (rule lua_result_bind)
      show "lua_result r" using ok by (auto simp: lua_result_def search_ok_def)
      fix x assume x: "r = Inr x"
      show "lua_result (case x of None \<Rightarrow> Inr [LNil]
        | Some (s1, e, ms) \<Rightarrow>
            if finding then res_bind (push_captures room s ms None) (\<lambda>vs. Inr (LInt (int s1 + 1) # LInt (int e) # vs))
            else push_captures room s ms (Some (s1, e)))"
      proof (cases x)
        case (Some y)
        obtain t e ms where y: "y = (t, e, ms)" by (cases y)
        have f: "cap_ok s e (capture ms)" "t \<le> e" "e \<le> length s" using ok x Some y by (simp_all add: search_ok_def found_at_def)
        have 1: "lua_result (push_captures room s ms None)" by (rule push_captures_result [OF f(1)]) simp
        have 2: "lua_result (push_captures room s ms (Some (t, e)))" by (rule push_captures_result [OF f(1)]) (use f in auto)
        show ?thesis using Some y 1 2 by (auto intro: lua_result_bind)
      qed simp
    qed
    moreover obtain x where "lmemfind (drop s1 s) p = Inr x" using lmemfind_spec by blast
    ultimately show ?thesis
      using False unfolding str_find_aux_def Let_def i_def [symmetric] s1_def [symmetric] r_def [symmetric]
      by (auto split: option.splits)
  qed
qed

section \<open>A replacement that changes nothing\<close>

lemma gsub_loop_identity:
  assumes "subject_ok s" "p0 \<le> length p" "src \<le> length s" "b = take src s"
    and "gsub_loop room s p p0 anchor (ReplString [37, 48]) max_s src n b ms = Inr (r, k)"
  shows "r = s"
  using assms
proof (induction room s p p0 anchor "ReplString [37, 48]" max_s src n b ms rule: gsub_loop.induct)
  case (1 room s p p0 anchor max_s src n b ms)
  note g = 1(6) [unfolded gsub_loop.simps [of room s p p0 anchor "ReplString [37, 48]" max_s src n b ms]]
  let ?ms = "ms\<lparr>capture := []\<rparr>" and ?tr = "ReplString [37, 48]"
  have c: "capture ?ms = []" by simp
  show ?case
  proof (cases "n < max_s")
    case False
    then show ?thesis using g 1(5) by simp
  next
    case True
    have go: ?thesis if m: "match s p src p0 ?ms = Inr (e, ms')" "\<forall>x. e = Some x \<longrightarrow> src \<le> x \<and> x \<le> length s" for e ms'
    proof -
      define m' where "m' = (case e of None \<Rightarrow> src | Some x \<Rightarrow> x)"
      have m': "src \<le> m'" "m' \<le> length s" using m(2) 1(4) by (auto simp: m'_def split: option.splits)
      have add: "add_s s ms' src x [37, 48] = Inr (take (x - src) (drop src s))" if "src \<le> x" "x \<le> length s" for x
        using bytes_between_ok [OF that] by (simp add: c_isdigit_def)
      have tk: "take src s @ take (x - src) (drop src s) = take x s" if "src \<le> x" for x
        using that by (metis add_diff_inverse_nat linorder_not_less take_add)
      obtain n' where a: "gsub_add room s ?tr src n b e ms' = Inr (n', take m' s)"
      proof (cases e)
        case None
        then show ?thesis using that [of n] 1(5) by (simp add: gsub_add_def m'_def)
      next
        case (Some x)
        then show ?thesis
          using that [of "n + 1"] m(2) add [of x] tk [of x] 1(5) by (simp add: gsub_add_def add_value_def m'_def del: add_s.simps)
      qed
      show ?thesis
      proof (cases "gsub_next s src e (take m' s)")
        case None
        then have "m' = src" "\<not> src < length s" using m' by (auto simp: gsub_next_def m'_def split: if_splits option.splits)
        then show ?thesis using g True m(1) a None by simp
      next
        case (Some y)
        obtain src' b' where y: "y = (src', b')" by (cases y)
        have l: "src' \<le> length s" using gsub_next_less [OF _ gsub_add_less [OF a]] Some y by simp
        have b': "b' = take src' s"
          using Some y m' by (auto simp: gsub_next_def m'_def take_Suc_conv_app_nth split: if_splits option.splits)
        show ?thesis
        proof (cases anchor)
          case True
          then show ?thesis using g \<open>n < max_s\<close> m(1) a Some y b' by simp
        next
          case False
          have "gsub_loop room s p p0 anchor ?tr max_s src' n' b' ms' = Inr (r, k)"
            using g True m(1) a Some y False by simp
          then show ?thesis
            using 1(1) [OF _ m(1) refl a refl Some y [symmetric] _ 1(2,3) l b'] True False by simp
        qed
      qed
    qed
    show ?thesis
    proof (cases rule: match_cases [OF 1(2,4,3) c])
      case (1 m)
      then show ?thesis using g True by simp
    next
      case none: 2
      show ?thesis by (rule go [OF none(1)]) simp
    next
      case found: (3 e cs ws)
      show ?thesis by (rule go [OF found(1)]) (use found in simp)
    qed
  qed
qed

section \<open>Properties\<close>

text \<open>
  C19. For any subject, pattern and position, \<open>match\<close> returns the first of all the ways in which the pattern matches there, in
  the order of preference its repetitions and options have, or fails when there is none; only a pattern of at least 200
  characters may end in the error that it is too complex instead. A way that is not an error message ends in the subject
  with all its captures inside it.
\<close>

theorem match_is_first_way:
  assumes "subject_ok src" "s \<le> length src" "p \<le> length pat"
  shows "(match src pat s p start_state = outcome start_state (all_ways src pat s p) \<or>
      MAXCCALLS \<le> length pat - p \<and> match src pat s p start_state = Inl (LuaError ''pattern too complex'')) \<and>
    good src s (all_ways src pat s p)"
proof
  show "match src pat s p start_state = outcome start_state (all_ways src pat s p) \<or>
      MAXCCALLS \<le> length pat - p \<and> match src pat s p start_state = Inl (LuaError ''pattern too complex'')"
    using match_agrees [OF assms, of start_state] by (auto simp: agrees_def)
  show "good src s (all_ways src pat s p)" by (rule all_ways_good [OF assms])
qed

text \<open>The pattern \<open>a*b\<close> at the start of \<open>aab\<close>.\<close>

lemma match_is_first_way_witness:
  "match [97, 97, 98] [97, 42, 98] 0 0 start_state = Inr (Some 3, start_state) \<and>
    outcome start_state (all_ways [97, 97, 98] [97, 42, 98] 0 0) = Inr (Some 3, start_state)"
proof -
  have "match [97, 97, 98] [97, 42, 98] 0 0 start_state = Inr (Some 3, start_state)" by code_simp
  then show ?thesis
    using match_is_first_way [of "[97, 97, 98]" 0 0 "[97, 42, 98]"] by (simp add: subject_ok_def MAXCCALLS_def)
qed

text \<open>
  C20. \<open>string.find\<close>, \<open>match\<close>, the iterator of \<open>gmatch\<close> and \<open>gsub\<close> read nothing outside the subject, the pattern and the
  replacement, whatever these are: each call, which always ends, returns values or an error message.
\<close>

theorem searches_are_safe:
  assumes "subject_ok s" "repl_ok tr"
  shows "lua_result (str_find room s p init plain) \<and> lua_result (str_match room s p init) \<and>
    lua_result (gmatch_aux room s p src start_state) \<and> lua_result (str_gsub room s p tr max_s)"
proof -
  have "lua_result (gsub_loop room s p (if has_anchor p then 1 else 0) (has_anchor p) tr m 0 0 [] start_state)" for m
    by (rule gsub_loop_result [OF assms(1) anchor_fits _ assms(2)]) simp
  then have "lua_result (str_gsub room s p tr max_s)"
    unfolding str_gsub_def Let_def by (intro lua_result_bind) auto
  then show ?thesis
    using find_aux_result [OF assms(1)] gmatch_result [OF assms(1)] by (simp add: str_find_def str_match_def)
qed

lemma searches_are_safe_witness:
  "lua_result (str_gsub (\<lambda>_. True) [97, 37] [37, 98, 40] (ReplString [37, 49]) None)"
  using searches_are_safe [of "[97, 37]" "ReplString [37, 49]" "\<lambda>_. True" "[37, 98, 40]" None False 0 None]
  by (simp add: subject_ok_def repl_ok_def)

text \<open>
  \<open>string.find\<close> with a pattern returns the leftmost match from the given start, only at the start itself for an anchored
  pattern: there its end and captures are those of the first way, and no way to match begins earlier; it returns nil exactly
  when nowhere a match begins. Otherwise it raises an error message.
\<close>

lemma find_is_leftmost:
  assumes "subject_ok s" "k \<le> length s" "\<not> nospecials p"
  shows "(\<exists>m. str_find room s p (Some (int k + 1)) False = Inl (LuaError m)) \<or>
    str_find room s p (Some (int k + 1)) False = Inr [LNil] \<and>
      (\<forall>t. k \<le> t \<longrightarrow> t \<le> (if has_anchor p then k else length s) \<longrightarrow> all_ways s p t (if has_anchor p then 1 else 0) = []) \<or>
    (\<exists>t e cs vs. str_find room s p (Some (int k + 1)) False = Inr (LInt (int t + 1) # LInt (int e) # vs) \<and>
      found_at s p (if has_anchor p then 1 else 0) k t e cs \<and> (has_anchor p \<longrightarrow> t = k) \<and>
      (finished cs \<longrightarrow> vs = map (capture_value s) cs))"
proof -
  define p0 where "p0 = (if has_anchor p then 1 else 0 :: nat)"
  define r where "r = find_loop s p p0 (has_anchor p) k start_state"
  have ok: "search_ok s p p0 (has_anchor p) k r"
    unfolding r_def p0_def by (rule find_loop_ok [OF assms(1) anchor_fits assms(2)])
  have e: "str_find room s p (Some (int k + 1)) False = res_bind r (\<lambda>r. case r of None \<Rightarrow> Inr [LNil]
      | Some (s1, e, ms) \<Rightarrow> res_bind (push_captures room s ms None) (\<lambda>vs. Inr (LInt (int s1 + 1) # LInt (int e) # vs)))"
    using assms(2,3) by (simp add: str_find_def str_find_aux_def u_posrelat_def Let_def r_def p0_def)
  consider m where "r = Inl (LuaError m)" | "r = Inr None" | t e ms where "r = Inr (Some (t, e, ms))"
    using ok by (cases r rule: sum.exhaust) (auto simp: search_ok_def split: option.splits)
  then show ?thesis
  proof cases
    case 1
    then show ?thesis using e by simp
  next
    case 2
    then show ?thesis unfolding p0_def [symmetric] using e ok by (simp add: search_ok_def)
  next
    case 3
    then have f: "found_at s p p0 k t e (capture ms)" "has_anchor p \<longrightarrow> t = k" using ok by (simp_all add: search_ok_def)
    have co: "cap_ok s e (capture ms)" using f(1) by (simp add: found_at_def)
    have "lua_result (push_captures room s ms None)" by (rule push_captures_result [OF co]) simp
    moreover have "vs = map (capture_value s) (capture ms)"
      if "push_captures room s ms None = Inr vs" "finished (capture ms)" for vs
    proof -
      have "room (int (level ms))" using that(1) by (auto simp: push_captures_def Let_def split: if_splits)
      from push_captures_values [where room = room and bs = None, OF co that(2) this] that(1) show ?thesis by simp
    qed
    ultimately show ?thesis unfolding p0_def [symmetric] using e 3 f by (cases "push_captures room s ms None") (auto simp: lua_result_def)
  qed
qed

text \<open>The pattern \<open>[a]\<close> in \<open>ba\<close>.\<close>

lemma find_is_leftmost_witness:
  "str_find (\<lambda>_. True) [98, 97] [91, 97, 93] (Some 1) False = Inr [LInt 2, LInt 2] \<and> all_ways [98, 97] [91, 97, 93] 0 0 = []"
proof -
  have v: "str_find (\<lambda>_. True) [98, 97] [91, 97, 93] (Some 1) False = Inr [LInt 2, LInt 2]" by code_simp
  have "\<not> has_anchor [91, 97, 93]" by (simp add: has_anchor_def)
  then obtain t e cs where "int t + 1 = 2" "found_at [98, 97] [91, 97, 93] 0 0 t e cs"
    using find_is_leftmost [of "[98, 97]" 0 "[91, 97, 93]" "\<lambda>_. True"] v
    by (auto simp: subject_ok_def nospecials_ok SPECIALS_def)
  then show ?thesis using v by (auto simp: found_at_def)
qed

text \<open>
  C22. A plain search, asked for or because the pattern has no special character, returns the first occurrence from the given
  start, and nil exactly when there is none.
\<close>

theorem plain_find_first:
  assumes "k \<le> length s" "plain \<or> nospecials p"
  shows "(\<exists>j. str_find room s p (Some (int k + 1)) plain = Inr [LInt (int j + 1), LInt (int j + int (length p))] \<and>
      k \<le> j \<and> occurs s p j \<and> (\<forall>i. k \<le> i \<longrightarrow> i < j \<longrightarrow> \<not> occurs s p i)) \<or>
    str_find room s p (Some (int k + 1)) plain = Inr [LNil] \<and> (\<forall>i. k \<le> i \<longrightarrow> \<not> occurs s p i)"
proof -
  have o: "occurs (drop k s) p i \<longleftrightarrow> occurs s p (k + i)" for i
    using assms(1) by (auto simp: occurs_def add.commute)
  obtain r where r: "lmemfind (drop k s) p = Inr r"
    "case r of None \<Rightarrow> \<forall>j. \<not> occurs (drop k s) p j | Some j \<Rightarrow> occurs (drop k s) p j \<and> (\<forall>i<j. \<not> occurs (drop k s) p i)"
    using lmemfind_spec by blast
  have e: "str_find room s p (Some (int k + 1)) plain = (case r of
      Some j \<Rightarrow> Inr [LInt (int (k + j) + 1), LInt (int (k + j) + int (length p))] | None \<Rightarrow> Inr [LNil])"
    using assms r(1) by (cases r) (auto simp: str_find_def str_find_aux_def u_posrelat_def Let_def)
  show ?thesis
  proof (cases r)
    case None
    then have "\<not> occurs s p i" if "k \<le> i" for i
      using r(2) o [of "i - k"] that by simp
    then show ?thesis using e None by simp
  next
    case (Some j)
    then have j: "occurs s p (k + j)" "\<forall>i<j. \<not> occurs s p (k + i)" using r(2) o by simp_all
    have "\<not> occurs s p i" if "k \<le> i" "i < k + j" for i
      using j(2) that by (auto dest: spec [of _ "i - k"])
    then show ?thesis using e Some j(1) by (intro disjI1 exI [of _ "k + j"]) auto
  qed
qed

lemma plain_find_first_witness:
  "\<exists>j. str_find (\<lambda>_. True) [97, 98, 98] [98] (Some 1) False = Inr [LInt (int j + 1), LInt (int j + 1)] \<and> occurs [97, 98, 98] [98] j"
proof -
  have "occurs [97, 98, 98] [98 :: byte] 1" by (simp add: occurs_def)
  then show ?thesis
    using plain_find_first [of 0 "[97, 98, 98]" False "[98]" "\<lambda>_. True"] by (auto simp: nospecials_ok SPECIALS_def)
qed

text \<open>C0. Whatever the pattern, \<open>gsub\<close> with the replacement \<open>%0\<close>, the whole match, returns the subject unchanged.\<close>

theorem gsub_whole_match_identity:
  assumes "subject_ok s" "str_gsub room s p (ReplString [37, 48]) max_s = Inr vs"
  shows "\<exists>n. vs = [LStr s, LInt n]"
proof -
  from assms(2) obtain b n where
    b: "gsub_loop room s p (if has_anchor p then 1 else 0) (has_anchor p) (ReplString [37, 48])
      (case max_s of None \<Rightarrow> int (length s) + 1 | Some m \<Rightarrow> m) 0 0 [] start_state = Inr (b, n)" "vs = [LStr b, LInt n]"
    by (auto simp: str_gsub_def Let_def res_simps)
  have "b = s" by (rule gsub_loop_identity [OF assms(1) anchor_fits _ _ b(1)]) auto
  then show ?thesis using b(2) by simp
qed

text \<open>The pattern \<open>.\<close> in \<open>ab\<close>.\<close>

lemma gsub_whole_match_identity_witness:
  "\<exists>n. str_gsub (\<lambda>_. True) [97, 98] [46] (ReplString [37, 48]) None = Inr [LStr [97, 98], LInt n]"
proof -
  have v: "str_gsub (\<lambda>_. True) [97, 98] [46] (ReplString [37, 48]) None = Inr [LStr [97, 98], LInt 2]" by code_simp
  have "subject_ok [97, 98]" by (simp add: subject_ok_def)
  from gsub_whole_match_identity [OF this v] v show ?thesis by auto
qed

end
