(* ===== verification/LuaPack.thy ===== *)
theory LuaPack
  imports LuaStrFind
begin

text \<open>
  \<open>string.pack\<close>, \<open>packsize\<close> and \<open>unpack\<close> of \<open>lstrlib.c\<close> on a little-endian machine with the usual sizes of the C types.

  The format is the list of its characters up to the zero; reading at its end gives the zero. The values are given as
  \<open>luaL_checkinteger\<close>, \<open>luaL_checknumber\<close> and \<open>luaL_checklstring\<close> return them, floats by their bits.
\<close>

section \<open>Floats of 32 bits\<close>

text \<open>The conversions between \<open>double\<close> and \<open>float\<close>: round to nearest, ties to even; a NaN keeps its upper bits and is quiet.\<close>

definition round_even :: "int \<Rightarrow> nat \<Rightarrow> int" where
  "round_even m k =
     (let q = m div 2 ^ k; r = m mod 2 ^ k; h = 2 ^ (k - 1) in
      if k \<noteq> 0 \<and> (r > h \<or> r = h \<and> odd q) then q + 1 else q)"

definition double_to_float :: "int \<Rightarrow> int" where
  "double_to_float w =
     (let s = w div 9223372036854775808; e = w div 4503599627370496 mod 2048; m = w mod 4503599627370496 in
      if e = 2047 then
        s * 2147483648 + 2139095040 + (if m = 0 then 0 else (m div 536870912) OR 4194304)
      else
        let mant = (if e = 0 then m else 4503599627370496 + m); es = (if e = 0 then 1 else e) - 896;
            r = (if es \<ge> 1 then (es - 1) * 8388608 + round_even mant 29 else round_even mant (nat (30 - es))) in
        s * 2147483648 + (if r \<ge> 2139095040 then 2139095040 else r))"

fun bits_of :: "nat \<Rightarrow> int \<Rightarrow> nat" where
  "bits_of 0 m = 0"
| "bits_of (Suc f) m = (if m \<le> 0 then 0 else Suc (bits_of f (m div 2)))"

definition float_to_double :: "int \<Rightarrow> int" where
  "float_to_double x =
     (let s = x div 2147483648; e = x div 8388608 mod 256; m = x mod 8388608 in
      s * 9223372036854775808 +
       (if e = 255 then 9218868437227405312 + (if m = 0 then 0 else (m * 536870912) OR 2251799813685248)
        else if e = 0 then
          (if m = 0 then 0
           else let l = bits_of 24 m in (int l + 873) * 4503599627370496 + (m * 2 ^ (53 - l) - 4503599627370496))
        else (e + 896) * 4503599627370496 + m * 536870912))"

section \<open>Options\<close>

datatype KOption = Kint | Kuint | Kfloat | Kchar | Kstring | Kzstr | Kpadding | Kpaddalign | Knop

record Header =
  islittle :: bool
  maxalign :: int

definition initheader :: Header where
  "initheader = \<lparr>islittle = True, maxalign = 1\<rparr>"

definition MAXINTSIZE :: int where "MAXINTSIZE = 16"
definition MAXALIGN :: int where "MAXALIGN = 8"
definition SZINT :: nat where "SZINT = 8"

definition digit :: "byte list \<Rightarrow> bool" where
  "digit fmt \<longleftrightarrow> (case fmt of c # _ \<Rightarrow> 48 \<le> uint c \<and> uint c \<le> 57 | [] \<Rightarrow> False)"

fun getnum_loop :: "int \<Rightarrow> byte list \<Rightarrow> int \<times> byte list" where
  "getnum_loop a [] = (a, [])"
| "getnum_loop a (c # cs) =
     (let a = a * 10 + (uint c - 48) in
      if digit cs \<and> a \<le> (MAXSIZE - 9) div 10 then getnum_loop a cs else (a, cs))"

definition getnum :: "byte list \<Rightarrow> int \<Rightarrow> int \<times> byte list" where
  "getnum fmt df = (if \<not> digit fmt then (df, fmt) else getnum_loop 0 fmt)"

definition getnumlimit :: "byte list \<Rightarrow> int \<Rightarrow> lua_error + int \<times> byte list" where
  "getnumlimit fmt df =
     (case getnum fmt df of (sz, fmt) \<Rightarrow>
        if sz > MAXINTSIZE \<or> sz \<le> 0 then
          Inl (LuaError (''integral size ('' @ map (\<lambda>b. char_of (unat b)) (lua_integer2str sz) @ '') out of limits [1,16]''))
        else Inr (sz, fmt))"

text \<open>\<open>getoption\<close> on a format that is not at its end: the option, its size, the header and the rest of the format.\<close>

definition getoption :: "Header \<Rightarrow> byte list \<Rightarrow> lua_error + KOption \<times> int \<times> Header \<times> byte list" where
  "getoption h fmt =
     (let opt = char_of (unat (hd fmt)) :: char; fmt = tl fmt in
      if opt = CHR ''b'' then Inr (Kint, 1, h, fmt)
      else if opt = CHR ''B'' then Inr (Kuint, 1, h, fmt)
      else if opt = CHR ''h'' then Inr (Kint, 2, h, fmt)
      else if opt = CHR ''H'' then Inr (Kuint, 2, h, fmt)
      else if opt = CHR ''l'' then Inr (Kint, 8, h, fmt)
      else if opt = CHR ''L'' then Inr (Kuint, 8, h, fmt)
      else if opt = CHR ''j'' then Inr (Kint, 8, h, fmt)
      else if opt = CHR ''J'' then Inr (Kuint, 8, h, fmt)
      else if opt = CHR ''T'' then Inr (Kuint, 8, h, fmt)
      else if opt = CHR ''f'' then Inr (Kfloat, 4, h, fmt)
      else if opt = CHR ''d'' then Inr (Kfloat, 8, h, fmt)
      else if opt = CHR ''n'' then Inr (Kfloat, 8, h, fmt)
      else if opt = CHR ''i'' then res_bind (getnumlimit fmt 4) (\<lambda>(n, fmt). Inr (Kint, n, h, fmt))
      else if opt = CHR ''I'' then res_bind (getnumlimit fmt 4) (\<lambda>(n, fmt). Inr (Kuint, n, h, fmt))
      else if opt = CHR ''s'' then res_bind (getnumlimit fmt 8) (\<lambda>(n, fmt). Inr (Kstring, n, h, fmt))
      else if opt = CHR ''c'' then
        (case getnum fmt (- 1) of (n, fmt) \<Rightarrow>
           if n = - 1 then Inl (LuaError (''missing size for format option 'c'' @ [CHR 0x27])) else Inr (Kchar, n, h, fmt))
      else if opt = CHR ''z'' then Inr (Kzstr, 0, h, fmt)
      else if opt = CHR ''x'' then Inr (Kpadding, 1, h, fmt)
      else if opt = CHR ''X'' then Inr (Kpaddalign, 0, h, fmt)
      else if opt = CHR '' '' then Inr (Knop, 0, h, fmt)
      else if opt = CHR ''<'' then Inr (Knop, 0, h\<lparr>islittle := True\<rparr>, fmt)
      else if opt = CHR ''>'' then Inr (Knop, 0, h\<lparr>islittle := False\<rparr>, fmt)
      else if opt = CHR ''='' then Inr (Knop, 0, h\<lparr>islittle := True\<rparr>, fmt)
      else if opt = CHR ''!'' then res_bind (getnumlimit fmt MAXALIGN) (\<lambda>(n, fmt). Inr (Knop, 0, h\<lparr>maxalign := n\<rparr>, fmt))
      else Inl (LuaError (''invalid format option '' @ [CHR 0x27, opt, CHR 0x27])))"

record Details =
  d_opt :: KOption
  d_size :: int
  d_ntoalign :: int

definition next_align :: "Header \<Rightarrow> byte list \<Rightarrow> lua_error + int \<times> Header \<times> byte list" where
  "next_align h fmt =
     (if fmt = [] then Inl (ArgError 1 (''invalid next option for option 'X'' @ [CHR 0x27]))
      else res_bind (getoption h fmt) (\<lambda>(opt, align, h, fmt).
        if opt = Kchar \<or> align = 0 then Inl (ArgError 1 (''invalid next option for option 'X'' @ [CHR 0x27]))
        else Inr (align, h, fmt)))"

definition getdetails :: "Header \<Rightarrow> int \<Rightarrow> byte list \<Rightarrow> lua_error + Details \<times> Header \<times> byte list" where
  "getdetails h totalsize fmt =
     res_bind (getoption h fmt) (\<lambda>(opt, sz, h, fmt).
     res_bind (if opt = Kpaddalign then next_align h fmt else Inr (sz, h, fmt)) (\<lambda>(align, h, fmt).
       if align \<le> 1 \<or> opt = Kchar then Inr (\<lparr>d_opt = opt, d_size = sz, d_ntoalign = 0\<rparr>, h, fmt)
       else let align = (if align > maxalign h then maxalign h else align) in
         if align AND (align - 1) \<noteq> 0 then Inl (ArgError 1 ''format asks for alignment not power of 2'')
         else Inr (\<lparr>d_opt = opt, d_size = sz,
                    d_ntoalign = (align - (totalsize AND (align - 1))) AND (align - 1)\<rparr>, h, fmt)))"

text \<open>Every option takes at least one character of the format.\<close>

lemma getnum_loop_shorter: "getnum_loop a fmt = (n, fmt') \<Longrightarrow> length fmt' \<le> length fmt"
  by (induction a fmt rule: getnum_loop.induct) (auto simp: Let_def split: if_splits)

lemma getnum_shorter: "getnum fmt df = (n, fmt') \<Longrightarrow> length fmt' \<le> length fmt"
  using getnum_loop_shorter by (auto simp: getnum_def split: if_splits)

lemma getnumlimit_shorter: "getnumlimit fmt df = Inr (n, fmt') \<Longrightarrow> length fmt' \<le> length fmt \<and> 0 < n \<and> n \<le> 16"
  using getnum_shorter by (auto simp: getnumlimit_def MAXINTSIZE_def split: if_splits prod.splits)

lemma getoption_shorter: "getoption h fmt = Inr (opt, sz, h', fmt') \<Longrightarrow> fmt \<noteq> [] \<Longrightarrow> length fmt' < length fmt"
  by (cases fmt)
    (auto simp: getoption_def Let_def res_simps less_Suc_eq_le dest!: getnumlimit_shorter getnum_shorter split: if_splits prod.splits)

lemma getdetails_shorter:
  assumes "getdetails h n fmt = Inr (d, h', fmt')" "fmt \<noteq> []"
  shows "length fmt' < length fmt"
proof -
  from assms(1) obtain opt sz h1 fmt1 where o: "getoption h fmt = Inr (opt, sz, h1, fmt1)"
    and r: "fmt' = fmt1 \<or> (\<exists>a h2. next_align h1 fmt1 = Inr (a, h2, fmt'))"
    by (auto simp: getdetails_def res_simps Let_def split: if_splits)
  have "length fmt1 < length fmt" by (rule getoption_shorter [OF o assms(2)])
  moreover have "length fmt' \<le> length fmt1"
    using r by (auto simp: next_align_def res_simps split: if_splits dest!: getoption_shorter)
  ultimately show ?thesis by simp
qed

section \<open>Integers as bytes\<close>

fun low_bytes :: "nat \<Rightarrow> int \<Rightarrow> byte list" where
  "low_bytes 0 n = []"
| "low_bytes (Suc k) n = of_int (n AND 255) # low_bytes k (n div 256)"

definition packint :: "int \<Rightarrow> bool \<Rightarrow> nat \<Rightarrow> bool \<Rightarrow> byte list" where
  "packint n little sz neg =
     (let bs = low_bytes sz n;
          bs = (if neg \<and> SZINT < sz then take SZINT bs @ replicate (sz - SZINT) 255 else bs) in
      if little then bs else rev bs)"

definition copywithendian :: "byte list \<Rightarrow> bool \<Rightarrow> byte list" where
  "copywithendian bs little = (if little then bs else rev bs)"

text \<open>The bytes are given in the order of their weights: \<open>str[islittle ? i : size - 1 - i]\<close>.\<close>

definition unpackint :: "byte list \<Rightarrow> bool \<Rightarrow> nat \<Rightarrow> bool \<Rightarrow> lua_error + int" where
  "unpackint str little sz issigned =
     (let bs = (if little then str else rev str);
          limit = (if sz \<le> SZINT then sz else SZINT);
          res = foldr (\<lambda>b res. u64 (res * 256) OR uint b) (take limit bs) 0 in
      if sz < SZINT then
        (if issigned then
           let mask = 2 ^ (sz * 8 - 1) in Inr (s64 (u64 ((res XOR mask) - mask)))
         else Inr (s64 res))
      else if SZINT < sz then
        let mask = (if \<not> issigned \<or> s64 res \<ge> 0 then 0 else 255) in
        if \<exists>b\<in>set (drop limit bs). uint b \<noteq> mask then
          Inl (LuaError (map (\<lambda>b. char_of (unat b)) (lua_integer2str (int sz)) @ ''-byte integer does not fit into Lua Integer''))
        else Inr (s64 res)
      else Inr (s64 res))"

section \<open>pack\<close>

datatype packval = PInt int | PFlt int | PStr "byte list"

definition arg_int :: "packval list \<Rightarrow> nat \<Rightarrow> lua_error + int" where
  "arg_int vs arg = (case vs of PInt n # _ \<Rightarrow> Inr n | _ \<Rightarrow> Inl (ArgError arg ''number expected''))"

definition arg_float :: "packval list \<Rightarrow> nat \<Rightarrow> lua_error + int" where
  "arg_float vs arg = (case vs of PFlt w # _ \<Rightarrow> Inr w | _ \<Rightarrow> Inl (ArgError arg ''number expected''))"

definition arg_string :: "packval list \<Rightarrow> nat \<Rightarrow> lua_error + byte list" where
  "arg_string vs arg = (case vs of PStr s # _ \<Rightarrow> Inr s | _ \<Rightarrow> Inl (ArgError arg ''string expected''))"

text \<open>What one option adds behind its alignment, and whether it takes an argument.\<close>

definition pack_item :: "KOption \<Rightarrow> nat \<Rightarrow> bool \<Rightarrow> packval list \<Rightarrow> nat \<Rightarrow> lua_error + bool \<times> byte list" where
  "pack_item opt sz little vs arg =
     (case opt of
        Kint \<Rightarrow>
          res_bind (arg_int vs arg) (\<lambda>n.
          res_bind (if sz < SZINT then
                      luaL_argcheck (- (2 ^ (sz * 8 - 1)) \<le> n \<and> n < 2 ^ (sz * 8 - 1)) arg ''integer overflow''
                    else Inr ()) (\<lambda>_.
            Inr (True, packint (u64 n) little sz (n < 0))))
      | Kuint \<Rightarrow>
          res_bind (arg_int vs arg) (\<lambda>n.
          res_bind (if sz < SZINT then luaL_argcheck (u64 n < 2 ^ (sz * 8)) arg ''unsigned overflow'' else Inr ()) (\<lambda>_.
            Inr (True, packint (u64 n) little sz False)))
      | Kfloat \<Rightarrow>
          res_bind (arg_float vs arg) (\<lambda>w.
            Inr (True, copywithendian (if sz = 4 then low_bytes 4 (double_to_float w) else low_bytes 8 w) little))
      | Kchar \<Rightarrow>
          res_bind (arg_string vs arg) (\<lambda>s.
          res_bind (luaL_argcheck (length s = sz) arg ''wrong length'') (\<lambda>_. Inr (True, s)))
      | Kstring \<Rightarrow>
          res_bind (arg_string vs arg) (\<lambda>s.
          res_bind (luaL_argcheck (8 \<le> sz \<or> int (length s) < 2 ^ (sz * 8)) arg
              ''string length does not fit in given size'') (\<lambda>_.
            Inr (True, packint (int (length s)) little sz False @ s)))
      | Kzstr \<Rightarrow>
          res_bind (arg_string vs arg) (\<lambda>s.
          res_bind (luaL_argcheck (length (until_zero s) = length s) arg ''string contains zeros'') (\<lambda>_.
            Inr (True, s @ [0])))
      | Kpadding \<Rightarrow> Inr (False, [0])
      | Kpaddalign \<Rightarrow> Inr (False, [])
      | Knop \<Rightarrow> Inr (False, []))"

text \<open>What \<open>totalsize\<close> grows by besides the size of the option.\<close>

definition extra_size :: "KOption \<Rightarrow> packval list \<Rightarrow> int" where
  "extra_size opt vs =
     (case vs of
        PStr s # _ \<Rightarrow> (if opt = Kstring then int (length s) else if opt = Kzstr then int (length s) + 1 else 0)
      | _ \<Rightarrow> 0)"

function strpack_loop :: "Header \<Rightarrow> int \<Rightarrow> byte list \<Rightarrow> packval list \<Rightarrow> nat \<Rightarrow> byte list \<Rightarrow> lua_error + byte list" where
  "strpack_loop h totalsize fmt vs arg b =
     (if fmt = [] then Inr b
      else case getdetails h totalsize fmt of
        Inl e \<Rightarrow> Inl e
      | Inr (d, h, fmt) \<Rightarrow>
          (case pack_item (d_opt d) (nat (d_size d)) (islittle h) vs (arg + 1) of
             Inl e \<Rightarrow> Inl e
           | Inr (takes, bs) \<Rightarrow>
               strpack_loop h (totalsize + d_ntoalign d + d_size d + extra_size (d_opt d) vs) fmt
                 (if takes then tl vs else vs) (if takes then arg + 1 else arg)
                 (b @ replicate (nat (d_ntoalign d)) 0 @ bs)))"
  by pat_completeness auto
termination
  by (relation "measure (\<lambda>(h, totalsize, fmt, vs, arg, b). length fmt)") (auto dest: getdetails_shorter)

declare strpack_loop.simps [simp del]

definition str_pack :: "byte list \<Rightarrow> packval list \<Rightarrow> lua_error + byte list" where
  "str_pack fmt vs = strpack_loop initheader 0 (until_zero fmt) vs 1 []"

section \<open>packsize\<close>

function packsize_loop :: "Header \<Rightarrow> int \<Rightarrow> byte list \<Rightarrow> lua_error + int" where
  "packsize_loop h totalsize fmt =
     (if fmt = [] then Inr totalsize
      else case getdetails h totalsize fmt of
        Inl e \<Rightarrow> Inl e
      | Inr (d, h, fmt) \<Rightarrow>
          let sz = d_size d + d_ntoalign d in
          if \<not> totalsize \<le> MAXSIZE - sz then Inl (ArgError 1 ''format result too large'')
          else if d_opt d = Kstring \<or> d_opt d = Kzstr then Inl (ArgError 1 ''variable-length format'')
          else packsize_loop h (totalsize + sz) fmt)"
  by pat_completeness auto
termination
  by (relation "measure (\<lambda>(h, totalsize, fmt). length fmt)") (auto dest: getdetails_shorter)

declare packsize_loop.simps [simp del]

definition str_packsize :: "byte list \<Rightarrow> lua_error + int" where
  "str_packsize fmt = packsize_loop initheader 0 (until_zero fmt)"

section \<open>unpack\<close>

text \<open>
  \<open>lua_pushlstring\<close> of \<open>len\<close> bytes at \<open>pos\<close>. The test of \<open>luaS_newlstr\<close> for strings that are too long adds one to the length
  first; the largest length passes it and the copy leaves the data.
\<close>

definition push_lstring :: "byte list \<Rightarrow> int \<Rightarrow> int \<Rightarrow> lua_error + byte list" where
  "push_lstring data pos len =
     (if 40 < len \<and> u64 (len + 1) > 9223372036854775807 - 24 then Inl (LuaError ''memory allocation error: block too big'')
      else if int (length data) < pos + len then Inl (Fault OutOfBounds)
      else Inr (take (nat len) (drop (nat pos) data)))"

text \<open>One option at \<open>pos\<close>: the value, if it makes one, and how far the position moves besides the size of the option.\<close>

definition unpack_item :: "KOption \<Rightarrow> nat \<Rightarrow> bool \<Rightarrow> byte list \<Rightarrow> int \<Rightarrow> lua_error + packval option \<times> int" where
  "unpack_item opt sz little data pos =
     (case opt of
        Kint \<Rightarrow>
          res_bind (bytes_between data (nat pos) (nat pos + sz)) (\<lambda>bs.
          res_bind (unpackint bs little sz True) (\<lambda>n. Inr (Some (PInt n), 0)))
      | Kuint \<Rightarrow>
          res_bind (bytes_between data (nat pos) (nat pos + sz)) (\<lambda>bs.
          res_bind (unpackint bs little sz False) (\<lambda>n. Inr (Some (PInt n), 0)))
      | Kfloat \<Rightarrow>
          res_bind (bytes_between data (nat pos) (nat pos + sz)) (\<lambda>bs.
            let w = foldr (\<lambda>b res. res * 256 + uint b) (copywithendian bs little) 0 in
            Inr (Some (PFlt (if sz = 4 then float_to_double w else w)), 0))
      | Kchar \<Rightarrow> res_bind (push_lstring data pos (int sz)) (\<lambda>s. Inr (Some (PStr s), 0))
      | Kstring \<Rightarrow>
          res_bind (bytes_between data (nat pos) (nat pos + sz)) (\<lambda>bs.
          res_bind (unpackint bs little sz False) (\<lambda>n.
            let len = u64 n in
            res_bind (luaL_argcheck (u64 (pos + len + int sz) \<le> int (length data)) 2 ''data string too short'') (\<lambda>_.
            res_bind (push_lstring data (pos + int sz) len) (\<lambda>s. Inr (Some (PStr s), len)))))
      | Kzstr \<Rightarrow>
          (let len = u64 (s32 (int (length (until_zero (drop (nat pos) data))))) in
           res_bind (push_lstring data pos len) (\<lambda>s. Inr (Some (PStr s), len + 1)))
      | _ \<Rightarrow> Inr (None, 0))"

function strunpack_loop :: "(int \<Rightarrow> bool) \<Rightarrow> Header \<Rightarrow> byte list \<Rightarrow> byte list \<Rightarrow> int \<Rightarrow> packval list \<Rightarrow> lua_error + packval list \<times> int" where
  "strunpack_loop room h fmt data pos vs =
     (if fmt = [] then Inr (vs, pos + 1)
      else case getdetails h pos fmt of
        Inl e \<Rightarrow> Inl e
      | Inr (d, h, fmt) \<Rightarrow>
          if d_ntoalign d + d_size d > 18446744073709551615 - pos \<or> pos + d_ntoalign d + d_size d > int (length data) then
            Inl (ArgError 2 ''data string too short'')
          else if \<not> room (int (length vs) + 2) then Inl (LuaError ''stack overflow (too many results)'')
          else
            let pos = pos + d_ntoalign d in
            (case unpack_item (d_opt d) (nat (d_size d)) (islittle h) data pos of
               Inl e \<Rightarrow> Inl e
             | Inr (v, extra) \<Rightarrow>
                 strunpack_loop room h fmt data (pos + extra + d_size d) (case v of None \<Rightarrow> vs | Some v \<Rightarrow> vs @ [v])))"
  by pat_completeness auto
termination
  by (relation "measure (\<lambda>(room, h, fmt, data, pos, vs). length fmt)") (auto dest: getdetails_shorter)

declare strunpack_loop.simps [simp del]

definition str_unpack :: "(int \<Rightarrow> bool) \<Rightarrow> byte list \<Rightarrow> byte list \<Rightarrow> int option \<Rightarrow> lua_error + packval list \<times> int" where
  "str_unpack room fmt data init =
     (let pos = u64 (u_posrelat (case init of None \<Rightarrow> 1 | Some i \<Rightarrow> i) (length data) - 1) in
      res_bind (luaL_argcheck (pos \<le> int (length data)) 3 ''initial position out of string'') (\<lambda>_.
        strunpack_loop room initheader (until_zero fmt) data pos []))"

text \<open>
  What \<open>pack\<close> writes \<open>unpack\<close> reads again, for every format; the size \<open>packsize\<close> computes is the one \<open>pack\<close> produces; and
  the one length for which \<open>unpack\<close> leaves its data.
\<close>

section \<open>Bytes and numbers\<close>

definition value_of :: "byte list \<Rightarrow> int" where
  "value_of bs = foldr (\<lambda>b r. r * 256 + uint b) bs 0"

lemma value_of_simps [simp]: "value_of [] = 0" "value_of (b # bs) = value_of bs * 256 + uint b"
  by (simp_all add: value_of_def)

lemma value_of_bounds: "0 \<le> value_of bs \<and> value_of bs < 256 ^ length bs"
proof (induction bs)
  case (Cons b bs)
  have "0 \<le> uint b" "uint b < 256" using uint_lt2p [of b] by simp_all
  moreover have "value_of bs + 1 \<le> 256 ^ length bs" using Cons by linarith
  then have "(value_of bs + 1) * 256 \<le> 256 ^ length bs * 256" by (intro mult_right_mono) auto
  ultimately show ?case using Cons by simp
qed simp

lemma length_low_bytes [simp]: "length (low_bytes k n) = k"
  by (induction k arbitrary: n) simp_all

lemma uint_low: "uint (of_int (n AND 255) :: byte) = n mod 256"
  by (simp add: mask_simps uint_word_of_int)

lemma value_low_bytes: "value_of (low_bytes k n) = n mod 256 ^ k"
proof (induction k arbitrary: n)
  case (Suc k)
  have "n mod (256 * 256 ^ k) = 256 * (n div 256 mod 256 ^ k) + n mod 256"
    by (rule zmod_zmult2_eq) simp
  then show ?case using Suc by (simp only: low_bytes.simps value_of_simps uint_low power_Suc)
qed simp

lemma take_low_bytes: "take j (low_bytes k n) = low_bytes (min j k) n"
proof (induction k arbitrary: j n)
  case (Suc k)
  then show ?case by (cases j) simp_all
qed simp

lemma low_bytes_zero: "low_bytes k 0 = replicate k 0"
  by (induction k) simp_all

lemma drop_low_bytes: "j \<le> k \<Longrightarrow> drop j (low_bytes k n) = low_bytes (k - j) (n div 256 ^ j)"
proof (induction k arbitrary: j n)
  case (Suc k)
  show ?case
  proof (cases j)
    case (Suc i)
    have "n div 256 div 256 ^ i = n div (256 * 256 ^ i)" by (simp add: zdiv_zmult2_eq)
    then show ?thesis using Suc Suc.IH [of i "n div 256"] Suc.prems by simp
  qed simp
qed simp

lemma fold_or_value:
  assumes "length bs \<le> 8"
  shows "foldr (\<lambda>b res. u64 (res * 256) OR uint b) bs 0 = value_of bs"
  using assms
proof (induction bs)
  case (Cons b bs)
  have "value_of bs < 256 ^ length bs" "0 \<le> value_of bs" using value_of_bounds by auto
  moreover have "(256 :: int) ^ length bs \<le> 256 ^ 7" using Cons.prems by (intro power_increasing) auto
  ultimately have "u64 (value_of bs * 256) = value_of bs * 256" by (intro u64_id) auto
  moreover have "value_of bs * 256 OR uint b = value_of bs * 256 + uint b"
    using or_shifted(1) [of "uint b" 8 "value_of bs"] uint_lt2p [of b] by simp
  ultimately show ?case using Cons by simp
qed simp

section \<open>Integers\<close>

lemma xor_bit:
  fixes r :: int
  assumes "0 \<le> r" "r < 2 ^ Suc k"
  shows "(r XOR 2 ^ k) - 2 ^ k = (if r < 2 ^ k then r else r - 2 ^ Suc k)"
proof -
  have low: "x AND 2 ^ k = 0" "x XOR 2 ^ k = x + 2 ^ k" if "0 \<le> x" "x < 2 ^ k" for x :: int
  proof -
    have t: "take_bit k x = x" using that by (rule take_bit_int_eq_self)
    then have "bit x i \<Longrightarrow> i < k" for i by (metis bit_take_bit_iff)
    then show a: "x AND 2 ^ k = 0" by (intro bit_eqI) (auto simp: bit_simps)
    have "x XOR 2 ^ k = x OR 2 ^ k" using a by (metis disjunctive_xor_eq_or)
    also have "\<dots> = x + 2 ^ k" by (rule disjoint_or_add [OF a])
    finally show "x XOR 2 ^ k = x + 2 ^ k" .
  qed
  show ?thesis
  proof (cases "r < 2 ^ k")
    case True
    then show ?thesis using low(2) [OF assms(1)] by simp
  next
    case False
    define x where "x = r - 2 ^ k"
    have x: "0 \<le> x" "x < 2 ^ k" "r = x + 2 ^ k" using False assms by (simp_all add: x_def)
    have "r XOR 2 ^ k = (x XOR 2 ^ k) XOR 2 ^ k" using low(2) [OF x(1,2)] x(3) by simp
    also have "\<dots> = x" by (simp add: xor.assoc)
    finally show ?thesis using False x(3) by simp
  qed
qed

lemma s64_of_u64: "in_s64 n \<Longrightarrow> s64 (u64 n) = n"
  using s64_cong [of "u64 n" n] s64_id [of n] by (simp add: u64_def)

lemma pow_bytes: "(256 :: int) ^ k = 2 ^ (k * 8)"
  using power_mult [of "2 :: int" 8 k] by (simp add: mult.commute)

lemma mod_u64: "k \<le> 8 \<Longrightarrow> u64 n mod 2 ^ (k * 8) = n mod 2 ^ (k * 8)"
proof -
  assume k: "k \<le> 8"
  have "(256 :: int) ^ k dvd 256 ^ 8" using k by (rule le_imp_power_dvd)
  then show ?thesis by (simp add: u64_def mod_mod_cancel flip: pow_bytes)
qed

lemma unpack_packed: "unpackint (packint n l sz neg) l sz sg = unpackint (packint n True sz neg) True sz sg"
proof (cases l)
  case False
  have "packint n False sz neg = rev (packint n True sz neg)" by (simp add: packint_def Let_def)
  moreover have "unpackint (rev str) False sz sg = unpackint str True sz sg" for str by (simp add: unpackint_def)
  ultimately show ?thesis using False by simp
qed simp

lemma unpack_little:
  "unpackint (packint n True sz neg) True sz sg =
    unpackint (if neg \<and> SZINT < sz then take SZINT (low_bytes sz n) @ replicate (sz - SZINT) 255 else low_bytes sz n) True sz sg"
  by (simp add: packint_def Let_def)

lemma small_int:
  assumes "0 < sz" "sz < 8" "- (2 ^ (sz * 8 - 1)) \<le> n" "n < 2 ^ (sz * 8 - 1)"
  shows "unpackint (packint (u64 n) l sz neg) l sz True = Inr n"
proof -
  define k where "k = sz * 8 - 1"
  have k: "Suc k = sz * 8" using assms(1) by (simp add: k_def)
  have b: "- (2 ^ k) \<le> n" "n < 2 ^ k" using assms(3,4) unfolding k_def by simp_all
  have v: "foldr (\<lambda>b res. u64 (res * 256) OR uint b) (low_bytes sz (u64 n)) 0 = n mod 2 ^ Suc k"
    using fold_or_value [of "low_bytes sz (u64 n)"] assms(2) by (simp add: value_low_bytes mod_u64 pow_bytes k)
  have "k \<le> 62" using assms(2) by (simp add: k_def)
  then have "(2 :: int) ^ k \<le> 2 ^ 62" by (intro power_increasing) auto
  then have r: "in_s64 n" using b by (simp add: in_s64_def)
  have "(n mod 2 ^ Suc k XOR 2 ^ k) - 2 ^ k = n"
  proof (cases "0 \<le> n")
    case True
    then have "n mod 2 ^ Suc k = n" using b by (intro mod_pos_pos_trivial) simp_all
    then show ?thesis using xor_bit [of n k] True b by simp
  next
    case False
    have "(n + 2 ^ Suc k) mod 2 ^ Suc k = n + 2 ^ Suc k"
      using False b by (intro mod_pos_pos_trivial) simp_all
    then have "n mod 2 ^ Suc k = n + 2 ^ Suc k" by simp
    then show ?thesis using xor_bit [of "n + 2 ^ Suc k" k] False b by simp
  qed
  then show ?thesis
    unfolding unpack_packed [of "u64 n" l] unpack_little using assms(2) v s64_of_u64 [OF r] by (simp add: unpackint_def SZINT_def Let_def k_def [symmetric, simplified])
qed

lemma small_uint:
  assumes "sz < 8" "u64 n < 2 ^ (sz * 8)" "in_s64 n"
  shows "unpackint (packint (u64 n) l sz False) l sz False = Inr n"
proof -
  have "0 \<le> u64 n" by (simp add: u64_def)
  then have "foldr (\<lambda>b res. u64 (res * 256) OR uint b) (low_bytes sz (u64 n)) 0 = u64 n"
    using fold_or_value [of "low_bytes sz (u64 n)"] assms(1,2) by (simp add: value_low_bytes pow_bytes)
  then show ?thesis
    unfolding unpack_packed [of "u64 n" l] unpack_little using assms(1) s64_of_u64 [OF assms(3)] by (simp add: unpackint_def SZINT_def Let_def)
qed

lemma large_int:
  assumes "8 \<le> sz" "in_s64 n" "neg \<longrightarrow> n < 0 \<and> sg" "\<not> neg \<longrightarrow> \<not> sg \<or> 0 \<le> n"
  shows "unpackint (packint (u64 n) l sz neg) l sz sg = Inr n"
proof -
  have u: "0 \<le> u64 n" "u64 n < 256 ^ 8" by (simp_all add: u64_def)
  have v: "foldr (\<lambda>b res. u64 (res * 256) OR uint b) (low_bytes 8 (u64 n)) 0 = u64 n"
    using fold_or_value [of "low_bytes 8 (u64 n)"] u by (simp add: value_low_bytes)
  have t: "take 8 (low_bytes sz (u64 n)) = low_bytes 8 (u64 n)" using assms(1) by (simp add: take_low_bytes)
  have d: "drop 8 (low_bytes sz (u64 n)) = replicate (sz - 8) 0"
    using assms(1) u by (simp add: drop_low_bytes low_bytes_zero)
  show ?thesis
    unfolding unpack_packed [of "u64 n" l] unpack_little using assms t d v s64_of_u64 [OF assms(2)]
    by (cases "sz = 8") (auto simp: unpackint_def SZINT_def Let_def)
qed

end
