(* ===== verification/LuaPackProps.thy ===== *)
theory LuaPackProps
  imports LuaPack
begin

text \<open>
  The properties of \<open>pack\<close>, \<open>packsize\<close> and \<open>unpack\<close>, over all formats: what an option takes, its item, and the loops.
\<close>

section \<open>Options\<close>

definition header_ok :: "Header \<Rightarrow> bool" where
  "header_ok h \<longleftrightarrow> 1 \<le> maxalign h"

definition size_ok :: "KOption \<Rightarrow> int \<Rightarrow> bool" where
  "size_ok opt n \<longleftrightarrow>
     (case opt of
        Kint \<Rightarrow> 1 \<le> n \<and> n \<le> 16
      | Kuint \<Rightarrow> 1 \<le> n \<and> n \<le> 16
      | Kfloat \<Rightarrow> n = 4 \<or> n = 8
      | Kchar \<Rightarrow> 0 \<le> n
      | Kstring \<Rightarrow> 1 \<le> n \<and> n \<le> 16
      | Kpadding \<Rightarrow> n = 1
      | _ \<Rightarrow> n = 0)"

lemma getnum_loop_nonneg:
  assumes "getnum_loop a fmt = (n, fmt')" "0 \<le> a" "digit fmt"
  shows "0 \<le> n"
  using assms
proof (induction a fmt rule: getnum_loop.induct)
  case (2 a c cs)
  have d: "48 \<le> uint c" using 2(4) by (simp add: digit_def)
  show ?case
  proof (cases "digit cs \<and> a * 10 + (uint c - 48) \<le> (MAXSIZE - 9) div 10")
    case True
    have "getnum_loop (a * 10 + (uint c - 48)) cs = (n, fmt')" using 2(2) True by (simp add: Let_def)
    from 2(1) [OF refl True this] show ?thesis using True d 2(3) by simp
  next
    case False
    then have "n = a * 10 + (uint c - 48)" using 2(2) by (auto simp: Let_def)
    then show ?thesis using d 2(3) by simp
  qed
qed simp

lemma getnum_size: "getnum fmt (- 1) = (n, fmt') \<Longrightarrow> n \<noteq> - 1 \<Longrightarrow> 0 \<le> n"
  using getnum_loop_nonneg [of 0 fmt n fmt'] by (auto simp: getnum_def split: if_splits)

lemma getoption_ok:
  assumes "getoption h fmt = Inr (opt, n, h', fmt')" "header_ok h"
  shows "size_ok opt n \<and> header_ok h'"
  using assms
  by (auto simp: getoption_def Let_def res_simps size_ok_def header_ok_def dest!: getnumlimit_shorter getnum_size
    split: if_splits prod.splits)

lemma getdetails_ok:
  assumes "getdetails h tot fmt = Inr (d, h', fmt')" "header_ok h"
  shows "size_ok (d_opt d) (d_size d)" "header_ok h'" "0 \<le> d_ntoalign d"
proof -
  from assms(1) obtain opt sz h1 fmt1 where o: "getoption h fmt = Inr (opt, sz, h1, fmt1)"
    by (cases "getoption h fmt") (auto simp: getdetails_def)
  define r where "r = (if opt = Kpaddalign then next_align h1 fmt1 else Inr (sz, h1, fmt1))"
  from assms(1) obtain align h2 fmt2 where a2: "r = Inr (align, h2, fmt2)"
    by (cases r) (auto simp: getdetails_def o r_def [symmetric])
  have d2: "(if align \<le> 1 \<or> opt = Kchar then Inr (\<lparr>d_opt = opt, d_size = sz, d_ntoalign = 0\<rparr>, h2, fmt2)
      else let align = (if align > maxalign h2 then maxalign h2 else align) in
        if align AND (align - 1) \<noteq> 0 then Inl (ArgError 1 ''format asks for alignment not power of 2'')
        else Inr (\<lparr>d_opt = opt, d_size = sz, d_ntoalign = (align - (tot AND (align - 1))) AND (align - 1)\<rparr>, h2, fmt2)) =
      Inr (d, h', fmt')"
    using assms(1) unfolding getdetails_def o res_bind_Inr prod.case r_def [symmetric] a2 .
  then have h2: "h2 = h'" "fmt2 = fmt'" by (auto simp: Let_def split: if_splits)
  have a: "(if opt = Kpaddalign then next_align h1 fmt1 else Inr (sz, h1, fmt1)) = Inr (align, h', fmt')"
    using a2 by (simp add: r_def h2)
  have d: "d_opt d = opt" "d_size d = sz"
    "d_ntoalign d = 0 \<or> 1 < align \<and> (\<exists>x. d_ntoalign d = x AND ((if align > maxalign h' then maxalign h' else align) - 1))"
    using d2 unfolding h2 by (auto simp: Let_def split: if_splits)
  have h1: "size_ok opt sz" "header_ok h1" using getoption_ok [OF o assms(2)] by simp_all
  then show "size_ok (d_opt d) (d_size d)" using d by simp
  show h': "header_ok h'"
  proof (cases "opt = Kpaddalign")
    case True
    then show ?thesis using a getoption_ok [OF _ h1(2)] by (auto simp: next_align_def res_simps split: if_splits)
  qed (use a h1 in auto)
  show "0 \<le> d_ntoalign d" using d(3) h' by (auto simp: header_ok_def)
qed

section \<open>One item\<close>

definition value_ok :: "packval \<Rightarrow> bool" where
  "value_ok v \<longleftrightarrow> (case v of PInt n \<Rightarrow> in_s64 n | PFlt w \<Rightarrow> 0 \<le> w \<and> w < 18446744073709551616 | PStr s \<Rightarrow> True)"

text \<open>A float may have gone through 32 bits.\<close>

definition same :: "packval \<Rightarrow> packval \<Rightarrow> bool" where
  "same x v \<longleftrightarrow> (case v of PFlt w \<Rightarrow> x = PFlt w \<or> x = PFlt (float_to_double (double_to_float w)) | _ \<Rightarrow> x = v)"

lemma round_even_nonneg: "0 \<le> m \<Longrightarrow> 0 \<le> round_even m k"
proof -
  assume "0 \<le> m"
  then have "0 \<le> m div 2 ^ k" by (simp add: pos_imp_zdiv_nonneg_iff)
  then show ?thesis by (simp add: round_even_def Let_def)
qed

lemma double_to_float_bounds:
  assumes "0 \<le> w" "w < 18446744073709551616"
  shows "0 \<le> double_to_float w \<and> double_to_float w < 4294967296"
proof -
  define s where "s = w div 9223372036854775808"
  define m where "m = w mod 4503599627370496"
  have s: "0 \<le> s" "s \<le> 1"
    using assms mult_div_mod_eq [of 9223372036854775808 w] pos_mod_sign [of 9223372036854775808 w]
      pos_mod_bound [of 9223372036854775808 w] unfolding s_def by linarith+
  have m: "0 \<le> m" "m < 4503599627370496" by (simp_all add: m_def)
  have "m div 536870912 < 8388608" "0 \<le> m div 536870912" using m mult_div_mod_eq [of 536870912 m] pos_mod_sign [of 536870912 m]
      pos_mod_bound [of 536870912 m] by linarith+
  then have q: "0 \<le> (m div 536870912) OR 4194304" "(m div 536870912) OR 4194304 < 8388608"
    using OR_upper [of "m div 536870912" 23 4194304] by auto
  define b where "b = double_to_float w - s * 2147483648"
  have "0 \<le> b \<and> b < 2147483648"
  proof -
    define e where "e = w div 4503599627370496 mod 2048"
    define r where "r = (if (if e = 0 then 1 else e) - 896 \<ge> 1
      then ((if e = 0 then 1 else e) - 896 - 1) * 8388608 + round_even (if e = 0 then m else 4503599627370496 + m) 29
      else round_even (if e = 0 then m else 4503599627370496 + m) (nat (30 - ((if e = 0 then 1 else e) - 896))))"
    have "b = (if e = 2047 then 2139095040 + (if m = 0 then 0 else (m div 536870912) OR 4194304)
        else if r \<ge> 2139095040 then 2139095040 else r)"
      unfolding b_def r_def double_to_float_def Let_def s_def m_def e_def by simp
    moreover have "0 \<le> r" using m round_even_nonneg by (auto simp: r_def intro!: add_nonneg_nonneg)
    ultimately show ?thesis using q by auto
  qed
  then show ?thesis using s by (simp add: b_def)
qed

lemma until_zero_stop: "length (until_zero s) = length s \<Longrightarrow> until_zero (s @ 0 # t) = s"
proof -
  assume "length (until_zero s) = length s"
  then have "until_zero s = s" unfolding until_zero_def by (metis takeWhile_eq_take take_all order_refl)
  then have "\<forall>b\<in>set s. b \<noteq> 0" unfolding until_zero_def by (metis set_takeWhileD)
  then show ?thesis by (simp add: until_zero_def takeWhile_append2)
qed

lemma between_parts: "bytes_between (pre @ bs @ post) (length pre) (length pre + length bs) = Inr bs"
  by (simp add: bytes_between_def)

lemma push_parts:
  assumes "length pre + length bs \<le> 2147483647"
  shows "push_lstring (pre @ bs @ post) (int (length pre)) (int (length bs)) = Inr bs"
proof -
  have "u64 (int (length bs) + 1) = int (length bs) + 1" using assms by (intro u64_id) auto
  then show ?thesis using assms by (simp add: push_lstring_def)
qed

lemma length_packint: "length (packint n l k neg) = k"
  by (auto simp: packint_def Let_def SZINT_def)

lemma item_roundtrip:
  assumes p: "pack_item opt (nat n) l vs arg = Inr (takes, bs)" and n: "size_ok opt n" and vs: "\<forall>v\<in>set vs. value_ok v"
    and len: "length pre + length bs \<le> 2147483647"
  shows "int (length bs) = n + extra_size opt vs" "0 \<le> extra_size opt vs"
    "\<exists>v. unpack_item opt (nat n) l (pre @ bs @ post) (int (length pre)) = Inr (v, extra_size opt vs) \<and>
      (if takes then vs \<noteq> [] \<and> (\<exists>x. v = Some x \<and> same x (hd vs)) else v = None)"
proof -
  have nt: "nat (int (length pre)) = length pre" by simp
  have "int (length bs) = n + extra_size opt vs \<and> 0 \<le> extra_size opt vs \<and>
    (\<exists>v. unpack_item opt (nat n) l (pre @ bs @ post) (int (length pre)) = Inr (v, extra_size opt vs) \<and>
      (if takes then vs \<noteq> [] \<and> (\<exists>x. v = Some x \<and> same x (hd vs)) else v = None))"
  proof (cases opt)
    case Kint
    with p obtain i rest where vs': "vs = PInt i # rest" and t: takes and bs: "bs = packint (u64 i) l (nat n) (i < 0)"
      and r: "nat n < 8 \<Longrightarrow> - (2 ^ (nat n * 8 - 1)) \<le> i \<and> i < 2 ^ (nat n * 8 - 1)"
      by (auto simp: pack_item_def arg_int_def res_simps SZINT_def split: list.splits packval.splits if_splits)
    have i: "in_s64 i" using vs vs' by (simp add: value_ok_def)
    have lb: "length bs = nat n" by (simp add: bs length_packint)
    have "unpackint bs l (nat n) True = Inr i"
    proof (cases "nat n < 8")
      case True
      then show ?thesis using small_int [of "nat n" i l "i < 0"] r n Kint bs by (simp add: size_ok_def)
    next
      case False
      then show ?thesis using large_int [of "nat n" i "i < 0" True l] i bs by simp
    qed
    then show ?thesis
      using Kint between_parts [of pre bs post] lb n vs' t by (simp add: unpack_item_def extra_size_def size_ok_def same_def)
  next
    case Kuint
    with p obtain i rest where vs': "vs = PInt i # rest" and t: takes and bs: "bs = packint (u64 i) l (nat n) False"
      and r: "nat n < 8 \<Longrightarrow> u64 i < 2 ^ (nat n * 8)"
      by (auto simp: pack_item_def arg_int_def res_simps SZINT_def split: list.splits packval.splits if_splits)
    have i: "in_s64 i" using vs vs' by (simp add: value_ok_def)
    have lb: "length bs = nat n" by (simp add: bs length_packint)
    have "unpackint bs l (nat n) False = Inr i"
      using small_uint [of "nat n" i l] large_int [of "nat n" i False False l] r i bs by (cases "nat n < 8") auto
    then show ?thesis
      using Kuint between_parts [of pre bs post] lb n vs' t by (simp add: unpack_item_def extra_size_def size_ok_def same_def)
  next
    case Kfloat
    with p obtain w rest where vs': "vs = PFlt w # rest" and t: takes
      and bs: "bs = copywithendian (if nat n = 4 then low_bytes 4 (double_to_float w) else low_bytes 8 w) l"
      by (auto simp: pack_item_def arg_float_def res_simps split: list.splits packval.splits if_splits)
    have w: "0 \<le> w" "w < 18446744073709551616" using vs vs' by (simp_all add: value_ok_def)
    have n48: "n = 4 \<or> n = 8" using n Kfloat by (simp add: size_ok_def)
    have lb: "length bs = nat n" using n48 by (auto simp: bs copywithendian_def)
    have "foldr (\<lambda>b res. res * 256 + uint b) (copywithendian bs l) 0 = (if nat n = 4 then double_to_float w else w)"
    proof -
      have "copywithendian bs l = (if nat n = 4 then low_bytes 4 (double_to_float w) else low_bytes 8 w)"
        by (simp add: bs copywithendian_def)
      then show ?thesis
        using value_low_bytes [of 4 "double_to_float w"] value_low_bytes [of 8 w] double_to_float_bounds [OF w] w
        by (simp add: value_of_def)
    qed
    then show ?thesis
      using Kfloat between_parts [of pre bs post] lb n48 vs' t by (auto simp: unpack_item_def extra_size_def same_def)
  next
    case Kchar
    with p obtain s rest where vs': "vs = PStr s # rest" and t: takes and bs: "bs = s" "length s = nat n"
      by (auto simp: pack_item_def arg_string_def res_simps split: list.splits packval.splits if_splits)
    have "int (nat n) = n" using n Kchar by (simp add: size_ok_def)
    then show ?thesis
      using Kchar push_parts [OF len, of post] bs vs' t by (simp add: unpack_item_def extra_size_def same_def)
  next
    case Kstring
    with p obtain s rest where vs': "vs = PStr s # rest" and t: takes
      and bs: "bs = packint (int (length s)) l (nat n) False @ s" and r: "8 \<le> nat n \<or> int (length s) < 2 ^ (nat n * 8)"
      by (auto simp: pack_item_def arg_string_def res_simps split: list.splits packval.splits if_splits)
    let ?i = "int (length s)" and ?h = "packint (int (length s)) l (nat n) False"
    have ls: "length pre + nat n + length s \<le> 2147483647" using len by (simp add: bs length_packint)
    have u: "u64 ?i = ?i" "in_s64 ?i" using ls by (simp_all add: u64_id in_s64_def)
    have up: "unpackint ?h l (nat n) False = Inr ?i"
      using small_uint [of "nat n" ?i l] large_int [of "nat n" ?i False False l] r u by (cases "nat n < 8") auto
    have n1: "int (nat n) = n" "0 \<le> n" using n Kstring by (simp_all add: size_ok_def)
    have b: "bytes_between (pre @ bs @ post) (length pre) (length pre + nat n) = Inr ?h"
      using between_parts [of pre ?h "s @ post"] by (simp add: bs length_packint)
    have ps: "push_lstring (pre @ bs @ post) (int (length pre) + n) ?i = Inr s"
      using push_parts [of "pre @ ?h" s post] ls n1 by (simp add: bs length_packint)
    have "u64 (int (length pre) + ?i + n) = int (length pre) + ?i + n" using ls n1 by (intro u64_id) auto
    then have "u64 (int (length pre) + ?i + n) \<le> int (length (pre @ bs @ post))" using n1 by (simp add: bs length_packint)
    then show ?thesis
      using Kstring up b ps u n1 vs' t by (simp add: unpack_item_def extra_size_def same_def bs length_packint)
  next
    case Kzstr
    with p obtain s rest where vs': "vs = PStr s # rest" and t: takes and bs: "bs = s @ [0]" "length (until_zero s) = length s"
      by (auto simp: pack_item_def arg_string_def res_simps split: list.splits packval.splits if_splits)
    have z: "until_zero (drop (length pre) (pre @ bs @ post)) = s" using until_zero_stop [OF bs(2)] by (simp add: bs(1))
    have ls: "length pre + length s < 2147483647" using len by (simp add: bs(1))
    have "u64 (s32 (int (length s))) = int (length s)" using ls by (simp add: s32_nonneg_id u64_id)
    moreover have "push_lstring (pre @ bs @ post) (int (length pre)) (int (length s)) = Inr s"
      using push_parts [of pre s "0 # post"] ls by (simp add: bs(1))
    moreover have "n = 0" using n Kzstr by (simp add: size_ok_def)
    ultimately show ?thesis using Kzstr z vs' t by (simp add: unpack_item_def extra_size_def same_def bs(1) Let_def)
  qed (use p n in \<open>auto simp: pack_item_def unpack_item_def extra_size_def size_ok_def split: list.splits packval.splits\<close>)
  then show "int (length bs) = n + extra_size opt vs" "0 \<le> extra_size opt vs"
    "\<exists>v. unpack_item opt (nat n) l (pre @ bs @ post) (int (length pre)) = Inr (v, extra_size opt vs) \<and>
      (if takes then vs \<noteq> [] \<and> (\<exists>x. v = Some x \<and> same x (hd vs)) else v = None)" by blast+
qed

section \<open>The loops\<close>

lemma strpack_loop_step:
  assumes "fmt \<noteq> []" "getdetails h tot fmt = Inr (d, h', fmt')"
    "pack_item (d_opt d) (nat (d_size d)) (islittle h') vs (arg + 1) = Inr (takes, bs)"
  shows "strpack_loop h tot fmt vs arg b =
    strpack_loop h' (tot + d_ntoalign d + d_size d + extra_size (d_opt d) vs) fmt' (if takes then tl vs else vs)
      (if takes then arg + 1 else arg) (b @ replicate (nat (d_ntoalign d)) 0 @ bs)"
  using assms(1) by (subst strpack_loop.simps) (simp only: assms(2,3) if_False sum.case prod.case)

lemma strpack_loop_stop:
  assumes "fmt \<noteq> []" "getdetails h tot fmt = Inr (d, h', fmt')"
    "pack_item (d_opt d) (nat (d_size d)) (islittle h') vs (arg + 1) = Inl e"
  shows "strpack_loop h tot fmt vs arg b = Inl e"
  using assms(1) by (subst strpack_loop.simps) (simp only: assms(2,3) if_False sum.case prod.case)

text \<open>An option takes the first value or none; without a value to take it fails.\<close>

lemma pack_item_takes:
  assumes "pack_item opt n l vs arg = Inr (takes, bs)"
  shows "takes \<Longrightarrow> \<exists>e. pack_item opt n l [] arg = Inl e"
    "takes \<Longrightarrow> pack_item opt n l (take (Suc m) vs) arg = Inr (True, bs) \<and> extra_size opt (take (Suc m) vs) = extra_size opt vs"
    "\<not> takes \<Longrightarrow> pack_item opt n l us arg = Inr (False, bs) \<and> extra_size opt us = 0"
  using assms
  by (cases vs; cases opt; auto simp: pack_item_def arg_int_def arg_float_def arg_string_def res_simps extra_size_def
      split: list.splits packval.splits if_splits)+

lemma strpack_loop_extends: "strpack_loop h tot fmt vs arg b = Inr r \<Longrightarrow> \<exists>x. r = b @ x"
proof (induction h tot fmt vs arg b rule: strpack_loop.induct)
  case (1 h tot fmt vs arg b)
  show ?case
  proof (cases "fmt = []")
    case True
    then show ?thesis using 1(2) by (simp add: strpack_loop.simps)
  next
    case False
    from 1(2) False obtain d h' fmt' where d: "getdetails h tot fmt = Inr (d, h', fmt')"
      by (subst (asm) strpack_loop.simps) (auto split: sum.splits prod.splits)
    from 1(2) False obtain takes bs where i: "pack_item (d_opt d) (nat (d_size d)) (islittle h') vs (arg + 1) = Inr (takes, bs)"
      by (subst (asm) strpack_loop.simps) (auto simp: d split: sum.splits prod.splits)
    have "strpack_loop h' (tot + d_ntoalign d + d_size d + extra_size (d_opt d) vs) fmt' (if takes then tl vs else vs)
        (if takes then arg + 1 else arg) (b @ replicate (nat (d_ntoalign d)) 0 @ bs) = Inr r"
      using 1(2) unfolding strpack_loop_step [OF False d i] .
    from 1(1) [OF False d refl refl i refl this] show ?thesis by auto
  qed
qed

text \<open>From the same position with the same header, the reading loop follows the writing loop.\<close>

lemma loops_agree:
  assumes "strpack_loop h (int (length b)) fmt vs arg b = Inr r" "header_ok h" "\<forall>v\<in>set vs. value_ok v" "length r \<le> 2147483647"
    "\<forall>n. room n"
  shows "\<exists>outs. strunpack_loop room h fmt (r @ post) (int (length b)) acc = Inr (acc @ outs, int (length r) + 1) \<and>
    length outs \<le> length vs \<and> list_all2 same outs (take (length outs) vs) \<and>
    (\<forall>n. if length outs \<le> n then strpack_loop h (int (length b)) fmt (take n vs) arg b = Inr r
      else \<exists>e. strpack_loop h (int (length b)) fmt (take n vs) arg b = Inl e)"
  using assms(1-4)
proof (induction h "int (length b)" fmt vs arg b arbitrary: acc rule: strpack_loop.induct)
  case (1 h fmt vs arg b)
  show ?case
  proof (cases "fmt = []")
    case True
    then show ?thesis using 1(2) by (simp add: strpack_loop.simps strunpack_loop.simps)
  next
    case False
    let ?tot = "int (length b)"
    from 1(2) False obtain d h' fmt' where d: "getdetails h ?tot fmt = Inr (d, h', fmt')"
      by (subst (asm) strpack_loop.simps) (auto split: sum.splits prod.splits)
    from 1(2) False obtain takes bs where i: "pack_item (d_opt d) (nat (d_size d)) (islittle h') vs (arg + 1) = Inr (takes, bs)"
      by (subst (asm) strpack_loop.simps) (auto simp: d split: sum.splits prod.splits)
    define pre where "pre = b @ replicate (nat (d_ntoalign d)) 0"
    define ex where "ex = extra_size (d_opt d) vs"
    define vs' where "vs' = (if takes then tl vs else vs)"
    note dok = getdetails_ok [OF d 1(3)]
    have next_run: "strpack_loop h' (?tot + d_ntoalign d + d_size d + ex) fmt' vs' (if takes then arg + 1 else arg) (pre @ bs) = Inr r"
      using 1(2) unfolding strpack_loop_step [OF False d i] by (simp only: ex_def vs'_def pre_def append_assoc)
    then obtain x where x: "r = pre @ bs @ x" using strpack_loop_extends by fastforce
    have len: "length pre + length bs \<le> 2147483647" using 1(5) by (simp add: x)
    note item = item_roundtrip [OF i dok(1) 1(4) len]
    have lp: "int (length pre) = ?tot + d_ntoalign d" using dok(3) by (simp add: pre_def)
    have tot': "?tot + d_ntoalign d + d_size d + ex = int (length (pre @ bs))" using item(1) lp by (simp add: ex_def)
    obtain v where v: "unpack_item (d_opt d) (nat (d_size d)) (islittle h') (r @ post) (int (length pre)) = Inr (v, ex)"
      and t: "if takes then vs \<noteq> [] \<and> (\<exists>y. v = Some y \<and> same y (hd vs)) else v = None"
      using item(3) [of "x @ post"] by (auto simp: x ex_def)
    define acc' where "acc' = (case v of None \<Rightarrow> acc | Some y \<Rightarrow> acc @ [y])"
    have ok: "\<forall>v\<in>set vs'. value_ok v" using 1(4) by (cases vs) (auto simp: vs'_def)
    have "\<exists>outs. strunpack_loop room h' fmt' (r @ post) (int (length (pre @ bs))) acc' = Inr (acc' @ outs, int (length r) + 1) \<and>
        length outs \<le> length vs' \<and> list_all2 same outs (take (length outs) vs') \<and>
        (\<forall>n. if length outs \<le> n
          then strpack_loop h' (int (length (pre @ bs))) fmt' (take n vs') (if takes then arg + 1 else arg) (pre @ bs) = Inr r
          else \<exists>e. strpack_loop h' (int (length (pre @ bs))) fmt' (take n vs') (if takes then arg + 1 else arg) (pre @ bs) = Inl e)"
      using 1(1) [OF False d refl refl i refl, folded ex_def vs'_def, OF tot' [unfolded pre_def append_assoc]
        next_run [unfolded tot' pre_def append_assoc] dok(2) ok 1(5)] unfolding pre_def append_assoc .
    then obtain outs where outs: "strunpack_loop room h' fmt' (r @ post) (int (length (pre @ bs))) acc' = Inr (acc' @ outs, int (length r) + 1)"
      "length outs \<le> length vs'" "list_all2 same outs (take (length outs) vs')"
      and few: "\<And>n. if length outs \<le> n
          then strpack_loop h' (int (length (pre @ bs))) fmt' (take n vs') (if takes then arg + 1 else arg) (pre @ bs) = Inr r
          else \<exists>e. strpack_loop h' (int (length (pre @ bs))) fmt' (take n vs') (if takes then arg + 1 else arg) (pre @ bs) = Inl e"
      by blast
    have fits: "\<not> (d_ntoalign d + d_size d > 18446744073709551615 - ?tot \<or>
        ?tot + d_ntoalign d + d_size d > int (length (r @ post)))"
      using tot' item(2) len by (simp add: x ex_def)
    have pos: "?tot + d_ntoalign d + ex + d_size d = int (length (pre @ bs))" using tot' by simp
    have run: "strunpack_loop room h fmt (r @ post) ?tot acc = Inr (acc' @ outs, int (length r) + 1)"
      using False fits assms(5) v outs(1) unfolding acc'_def
      by (subst strunpack_loop.simps) (simp add: d lp [symmetric] pos [unfolded lp [symmetric]] Let_def)
    show ?thesis
    proof (cases takes)
      case True
      then obtain y v1 vr where y: "v = Some y" "vs = v1 # vr" "same y v1" using t by (cases vs) auto
      have "if length (y # outs) \<le> n then strpack_loop h ?tot fmt (take n vs) arg b = Inr r
        else \<exists>e. strpack_loop h ?tot fmt (take n vs) arg b = Inl e" for n
      proof (cases n)
        case 0
        then show ?thesis using pack_item_takes(1) [OF i True] strpack_loop_stop [OF \<open>fmt \<noteq> []\<close> d] by fastforce
      next
        case (Suc m)
        note it = pack_item_takes(2) [OF i True, of m]
        have "strpack_loop h ?tot fmt (take n vs) arg b =
            strpack_loop h' (int (length (pre @ bs))) fmt' (tl (take (Suc m) vs)) (arg + 1) (pre @ bs)"
          unfolding Suc strpack_loop_step [OF \<open>fmt \<noteq> []\<close> d conjunct1 [OF it], of b] conjunct2 [OF it] ex_def [symmetric] tot'
          by (simp add: pre_def)
        moreover have "tl (take (Suc m) vs) = take m vs'" using True y(2) by (simp add: vs'_def)
        ultimately have "strpack_loop h ?tot fmt (take n vs) arg b =
            strpack_loop h' (int (length (pre @ bs))) fmt' (take m vs') (arg + 1) (pre @ bs)" by simp
        then show ?thesis using few [of m] True by (simp add: Suc cong: if_cong)
      qed
      then show ?thesis using run outs True y by (intro exI [of _ "y # outs"]) (simp add: acc'_def vs'_def cong: if_cong)
    next
      case False
      have "if length outs \<le> n then strpack_loop h ?tot fmt (take n vs) arg b = Inr r
        else \<exists>e. strpack_loop h ?tot fmt (take n vs) arg b = Inl e" for n
      proof -
        note it = pack_item_takes(3) [OF i False, of "take n vs"]
        have "ex = 0" using pack_item_takes(3) [OF i False, of vs] by (simp add: ex_def)
        then have e: "extra_size (d_opt d) (take n vs) = ex" using it by simp
        have "strpack_loop h ?tot fmt (take n vs) arg b =
            strpack_loop h' (int (length (pre @ bs))) fmt' (take n vs') arg (pre @ bs)"
          unfolding strpack_loop_step [OF \<open>fmt \<noteq> []\<close> d conjunct1 [OF it], of b] e tot' using False
          by (simp add: vs'_def pre_def)
        then show ?thesis using few [of n] False by (simp cong: if_cong)
      qed
      then show ?thesis using run outs t False by (intro exI [of _ outs]) (simp add: acc'_def vs'_def cong: if_cong)
    qed
  qed
qed

lemma item_length:
  assumes "pack_item opt (nat n) l vs arg = Inr (takes, bs)" "size_ok opt n"
  shows "int (length bs) = n + extra_size opt vs"
  using assms
  by (cases opt)
    (auto simp: pack_item_def arg_int_def arg_float_def arg_string_def res_simps extra_size_def size_ok_def length_packint
      copywithendian_def split: list.splits packval.splits if_splits)

lemma sizes_agree:
  assumes "strpack_loop h (int (length b)) fmt vs arg b = Inr r" "packsize_loop h (int (length b)) fmt = Inr n" "header_ok h"
    "int (length b) \<le> MAXSIZE"
  shows "n = int (length r) \<and> n \<le> MAXSIZE"
  using assms
proof (induction h "int (length b)" fmt vs arg b rule: strpack_loop.induct)
  case (1 h fmt vs arg b)
  show ?case
  proof (cases "fmt = []")
    case True
    then show ?thesis using 1(2,3,5) by (simp add: strpack_loop.simps packsize_loop.simps)
  next
    case False
    let ?tot = "int (length b)"
    from 1(2) False obtain d h' fmt' where d: "getdetails h ?tot fmt = Inr (d, h', fmt')"
      by (subst (asm) strpack_loop.simps) (auto split: sum.splits prod.splits)
    from 1(2) False obtain takes bs where i: "pack_item (d_opt d) (nat (d_size d)) (islittle h') vs (arg + 1) = Inr (takes, bs)"
      by (subst (asm) strpack_loop.simps) (auto simp: d split: sum.splits prod.splits)
    note dok = getdetails_ok [OF d 1(4)]
    have n: "packsize_loop h' (?tot + (d_size d + d_ntoalign d)) fmt' = Inr n" "?tot + (d_size d + d_ntoalign d) \<le> MAXSIZE"
      "d_opt d \<noteq> Kstring" "d_opt d \<noteq> Kzstr"
      using 1(3) False by (subst (asm) packsize_loop.simps, simp add: d Let_def split: if_splits)+
    then have e: "extra_size (d_opt d) vs = 0" by (simp add: extra_size_def split: list.split packval.split)
    let ?b = "b @ replicate (nat (d_ntoalign d)) 0 @ bs"
    have l: "?tot + d_ntoalign d + d_size d + extra_size (d_opt d) vs = int (length ?b)"
      using item_length [OF i dok(1)] dok(3) by simp
    have p: "strpack_loop h' (int (length ?b)) fmt' (if takes then tl vs else vs) (if takes then arg + 1 else arg) ?b = Inr r"
      using 1(2) unfolding strpack_loop_step [OF False d i] l .
    have t: "?tot + (d_size d + d_ntoalign d) = int (length ?b)" using l e by linarith
    show ?thesis by (rule 1(1) [OF False d refl refl i refl l p n(1) [unfolded t] dok(2) n(2) [unfolded t]])
  qed
qed

section \<open>Properties\<close>

text \<open>
  C23. \<open>string.unpack\<close> reads what \<open>string.pack\<close> wrote, under every format that \<open>pack\<close> accepts with these values: sizes from one
  to sixteen bytes, both byte orders, alignment and padding included. It returns the values in order, floats packed in four
  bytes rounded, and the position behind the packed part, whatever follows it. None is missing: \<open>pack\<close> makes the same string of just
  as many values as \<open>unpack\<close> returns, and fails with fewer. The values are Lua integers, bit patterns of
  doubles and strings, and the packed string is no longer than an \<open>int\<close> can count.
\<close>

theorem pack_unpack_roundtrip:
  assumes "str_pack fmt vs = Inr b" "\<forall>v\<in>set vs. value_ok v" "length b \<le> 2147483647" "\<forall>n. room n"
  shows "\<exists>outs. str_unpack room fmt (b @ rest) None = Inr (outs, int (length b) + 1) \<and>
    length outs \<le> length vs \<and> list_all2 same outs (take (length outs) vs) \<and>
    (\<forall>n. if length outs \<le> n then str_pack fmt (take n vs) = Inr b else \<exists>e. str_pack fmt (take n vs) = Inl e)"
proof -
  have "header_ok initheader" by (simp add: header_ok_def initheader_def)
  from loops_agree [where b = "[]" and acc = "[]" and post = rest and fmt = "until_zero fmt" and arg = 1, OF _ this assms(2,3,4)]
  have "\<exists>outs. strunpack_loop room initheader (until_zero fmt) (b @ rest) 0 [] = Inr (outs, int (length b) + 1) \<and>
      length outs \<le> length vs \<and> list_all2 same outs (take (length outs) vs) \<and>
      (\<forall>n. if length outs \<le> n then str_pack fmt (take n vs) = Inr b else \<exists>e. str_pack fmt (take n vs) = Inl e)"
    using assms(1) by (simp add: str_pack_def cong: if_cong)
  then show ?thesis by (simp add: str_unpack_def u_posrelat_nonneg res_simps u64_def)
qed

theorem pack_unpack_roundtrip_witness:
  "\<exists>outs. str_unpack (\<lambda>_. True) (map (of_nat \<circ> of_char) ''>i3 !2 x!4 z B'') ([255, 255, 254, 0, 97, 98, 0, 2] @ [3, 4]) None =
      Inr (outs, int (length [255, 255, 254, 0, 97, 98, 0, 2 :: byte]) + 1) \<and>
    length outs \<le> length [PInt (- 2), PStr [97, 98], PInt 2] \<and>
    list_all2 same outs (take (length outs) [PInt (- 2), PStr [97, 98], PInt 2]) \<and>
    (\<forall>n. if length outs \<le> n
      then str_pack (map (of_nat \<circ> of_char) ''>i3 !2 x!4 z B'') (take n [PInt (- 2), PStr [97, 98], PInt 2]) = Inr [255, 255, 254, 0, 97, 98, 0, 2]
      else \<exists>e. str_pack (map (of_nat \<circ> of_char) ''>i3 !2 x!4 z B'') (take n [PInt (- 2), PStr [97, 98], PInt 2]) = Inl e)"
  by (rule pack_unpack_roundtrip) (code_simp, simp add: value_ok_def in_s64_def, simp, simp)

text \<open>
  The size that \<open>string.packsize\<close> computes from the format alone is the length of every string \<open>pack\<close> makes with that
  format, and fits an \<open>int\<close>.
\<close>

lemma packsize_exact:
  assumes "str_packsize fmt = Inr n" "str_pack fmt vs = Inr b"
  shows "n = int (length b) \<and> n \<le> MAXSIZE"
  using sizes_agree [of initheader "[]" "until_zero fmt" vs 1 b n] assms
  by (simp add: str_pack_def str_packsize_def header_ok_def initheader_def MAXSIZE_def)

theorem packsize_exact_witness:
  "(8 :: int) = int (length [1, 0, 0, 0, 2, 0, 0, 0 :: byte]) \<and> 8 \<le> MAXSIZE"
  by (rule packsize_exact [of "map (of_nat \<circ> of_char) ''<!4 bi4''" _ "[PInt 1, PInt 2]"]) code_simp+

text \<open>
  A length of eight bytes, all ones, is accepted: \<open>pos + len + size\<close> wraps around, and so does the length that is tested before
  the memory for the string is taken. The copy leaves the data.
\<close>

lemma unpack_reads_outside:
  "str_unpack (\<lambda>_. True) (map (of_nat \<circ> of_char) ''s8'') (replicate 8 255) None = Inl (Fault OutOfBounds)"
  by code_simp

text \<open>A string without its zero at the end of the data is accepted; the position returned is behind the data.\<close>

lemma unpack_without_zero:
  "str_unpack (\<lambda>_. True) (map (of_nat \<circ> of_char) ''z'') [97] None = Inr ([PStr [97]], 3)"
  by code_simp

end
