(* ===== verification/LuaGc.thy ===== *)
theory LuaGc
  imports LuaString
begin

text \<open>
  The garbage collector of the embedded Lua (\<open>src/src/logic/scriptengine/lua/lgc.c\<close>), for objects of all kinds: the mark phase.

  Objects are held in a store by address; a pointer is the address, a link of a list the list of the addresses in it. The
  five lists of gray objects, which share the field \<open>gclist\<close>, are lists of addresses as well. Reading an object that has been
  freed is \<open>UseAfterFree\<close>; the assertions of the code, compiled in or not, are faults (but for one of \<open>atomic\<close>, see there). The string table is the subject of
  \<open>LuaString\<close>: what is done to a string here is only its colour and its freeing. The counts of memory, which decide when a
  step is made and how long it is, are left out.
\<close>

section \<open>Objects\<close>

text \<open>A value, as far as the collector sees it: \<open>VFun\<close> is a light C function, \<open>VPlain\<close> any other value that is not collectable, \<open>VDead\<close> a dead key.\<close>

datatype gval = VNil | VPlain int | VFun | VRef nat | VDead nat

record gctable =
  h_flags :: "8 word"
  h_metatable :: "nat option"
  h_array :: "gval list"
  h_node :: "(gval \<times> gval) list"

record gcproto =
  pr_cache :: "nat option"
  pr_source :: "nat option"
  pr_k :: "gval list"
  pr_upvalues :: "nat option list"
  pr_p :: "nat option list"
  pr_locvars :: "nat option list"

text \<open>\<open>th_built\<close> is \<open>stack != NULL\<close>; \<open>th_citops\<close> are the fields \<open>top\<close> of its \<open>CallInfo\<close>s.\<close>

record gcthread =
  th_built :: bool
  th_stack :: "gval list"
  th_top :: nat
  th_citops :: "nat list"
  th_openupval :: "nat list"

datatype gcbody =
    Str bool "byte list"
  | Udata "nat option" gval
  | Tab gctable
  | LCl "nat option" "nat option list"
  | CCl "gval list"
  | Thr gcthread
  | Prt gcproto

record gcobj =
  ob_marked :: "8 word"
  ob_body :: gcbody

text \<open>An upvalue is not an object of the collector; it counts its closures. An open one is at a place of the stack of a thread.\<close>

record upval =
  u_refcount :: int
  u_open :: "(nat \<times> nat) option"
  u_touched :: bool
  u_value :: gval

datatype gcstate_t =
  GCSpropagate | GCSatomic | GCSswpallgc | GCSswpfinobj | GCSswptobefnz | GCSswpend | GCScallfin | GCSpause | GCSinsideatomic

datatype gclistid = AllGC | FinObj | ToBeFnz | FixedGC

text \<open>A pointer to a link: the head of one of the lists, or the field \<open>next\<close> of an object.\<close>

datatype place = Head gclistid | NextOf nat

record cstate =
  c_currentwhite :: "8 word"
  c_gcstate :: gcstate_t
  c_emergency :: bool
  c_heap :: "nat \<rightharpoonup> gcobj"
  c_upvals :: "nat \<rightharpoonup> upval"
  c_allgc :: "nat list"
  c_finobj :: "nat list"
  c_tobefnz :: "nat list"
  c_fixedgc :: "nat list"
  c_sweepgc :: "place option"
  c_gray :: "nat list"
  c_grayagain :: "nat list"
  c_weak :: "nat list"
  c_ephemeron :: "nat list"
  c_allweak :: "nat list"
  c_twups :: "nat list"
  c_mainthread :: nat
  c_running :: nat
  c_registry :: gval
  c_mt :: "nat option list"
  c_gcfinnum :: nat
  c_tmname :: "nat list"

definition TM_GC :: nat where "TM_GC = 2"
definition TM_MODE :: nat where "TM_MODE = 3"

definition deref_o :: "nat \<Rightarrow> cstate \<Rightarrow> lua_error + gcobj" where
  "deref_o a g = (case c_heap g a of None \<Rightarrow> Inl (Fault UseAfterFree) | Some ob \<Rightarrow> Inr ob)"

definition put_o :: "nat \<Rightarrow> gcobj \<Rightarrow> cstate \<Rightarrow> cstate" where
  "put_o a ob g = g\<lparr>c_heap := (c_heap g)(a \<mapsto> ob)\<rparr>"

definition deref_u :: "nat \<Rightarrow> cstate \<Rightarrow> lua_error + upval" where
  "deref_u u g = (case c_upvals g u of None \<Rightarrow> Inl (Fault UseAfterFree) | Some uv \<Rightarrow> Inr uv)"

definition put_u :: "nat \<Rightarrow> upval \<Rightarrow> cstate \<Rightarrow> cstate" where
  "put_u u uv g = g\<lparr>c_upvals := (c_upvals g)(u \<mapsto> uv)\<rparr>"

definition lassert :: "bool \<Rightarrow> string \<Rightarrow> lua_error + unit" where
  "lassert b msg = (if b then Inr () else Inl (Fault (AssertFail msg)))"

text \<open>A pointer that is followed as a pointer to an object of some kind.\<close>

definition tab_at :: "nat \<Rightarrow> cstate \<Rightarrow> lua_error + gctable" where
  "tab_at a g =
     res_bind (deref_o a g) (\<lambda>ob. case ob_body ob of Tab h \<Rightarrow> Inr h | _ \<Rightarrow> Inl (Fault (AssertFail ''gco2t'')))"

definition thr_at :: "nat \<Rightarrow> cstate \<Rightarrow> lua_error + gcthread" where
  "thr_at a g =
     res_bind (deref_o a g) (\<lambda>ob. case ob_body ob of Thr th \<Rightarrow> Inr th | _ \<Rightarrow> Inl (Fault (AssertFail ''gco2th'')))"

definition put_body :: "nat \<Rightarrow> gcbody \<Rightarrow> cstate \<Rightarrow> lua_error + cstate" where
  "put_body a b g = res_bind (deref_o a g) (\<lambda>ob. Inr (put_o a (ob\<lparr>ob_body := b\<rparr>) g))"

text \<open>A loop whose body changes the state.\<close>

fun res_fold :: "('a \<Rightarrow> 's \<Rightarrow> 'e + 's) \<Rightarrow> 'a list \<Rightarrow> 's \<Rightarrow> 'e + 's" where
  "res_fold f [] s = Inr s"
| "res_fold f (x # xs) s = res_bind (f x s) (res_fold f xs)"

section \<open>Colours\<close>

definition FINALIZEDBIT :: "8 word" where "FINALIZEDBIT = 8"

definition iswhite_m :: "8 word \<Rightarrow> bool" where "iswhite_m m \<longleftrightarrow> m AND WHITEBITS \<noteq> 0"
definition isblack_m :: "8 word \<Rightarrow> bool" where "isblack_m m \<longleftrightarrow> m AND BLACKBIT \<noteq> 0"
definition isgray_m :: "8 word \<Rightarrow> bool" where "isgray_m m \<longleftrightarrow> m AND (WHITEBITS OR BLACKBIT) = 0"
definition tofinalize_m :: "8 word \<Rightarrow> bool" where "tofinalize_m m \<longleftrightarrow> m AND FINALIZEDBIT \<noteq> 0"

definition otherwhite_c :: "cstate \<Rightarrow> 8 word" where "otherwhite_c g = c_currentwhite g XOR WHITEBITS"
definition luaC_white_c :: "cstate \<Rightarrow> 8 word" where "luaC_white_c g = c_currentwhite g AND WHITEBITS"

definition white2gray_m :: "8 word \<Rightarrow> 8 word" where "white2gray_m m = m AND NOT WHITEBITS"
definition gray2black_m :: "8 word \<Rightarrow> 8 word" where "gray2black_m m = m OR BLACKBIT"
definition black2gray_m :: "8 word \<Rightarrow> 8 word" where "black2gray_m m = m AND NOT BLACKBIT"
definition makewhite_m :: "cstate \<Rightarrow> 8 word \<Rightarrow> 8 word" where "makewhite_m g m = (m AND maskcolors) OR luaC_white_c g"

definition recolor :: "(8 word \<Rightarrow> 8 word) \<Rightarrow> nat \<Rightarrow> cstate \<Rightarrow> lua_error + cstate" where
  "recolor f a g = res_bind (deref_o a g) (\<lambda>ob. Inr (put_o a (ob\<lparr>ob_marked := f (ob_marked ob)\<rparr>) g))"

definition iswhite_o :: "nat \<Rightarrow> cstate \<Rightarrow> lua_error + bool" where
  "iswhite_o a g = res_bind (deref_o a g) (\<lambda>ob. Inr (iswhite_m (ob_marked ob)))"

definition valiswhite :: "gval \<Rightarrow> cstate \<Rightarrow> lua_error + bool" where
  "valiswhite v g = (case v of VRef a \<Rightarrow> iswhite_o a g | _ \<Rightarrow> Inr False)"

definition keepinvariant :: "cstate \<Rightarrow> bool" where
  "keepinvariant g \<longleftrightarrow> c_gcstate g = GCSpropagate \<or> c_gcstate g = GCSatomic"

definition issweepphase :: "cstate \<Rightarrow> bool" where
  "issweepphase g \<longleftrightarrow> c_gcstate g \<in> {GCSswpallgc, GCSswpfinobj, GCSswptobefnz, GCSswpend}"

section \<open>Marking\<close>

text \<open>
  \<open>reallymarkobject\<close>: a chain of user values is followed by a jump, a metatable by a call. Each takes one of the objects
  that are left white, so that their number plus one is enough as fuel.
\<close>

definition gc_fuel :: "cstate \<Rightarrow> nat" where
  "gc_fuel g = length (c_allgc g) + length (c_finobj g) + length (c_tobefnz g) + length (c_fixedgc g) + 2"

fun reallymarkobject_o :: "nat \<Rightarrow> nat \<Rightarrow> cstate \<Rightarrow> lua_error + cstate" where
  "reallymarkobject_o 0 a g = Inl (Fault OutOfFuel)"
| "reallymarkobject_o (Suc f) a g =
     res_bind (deref_o a g) (\<lambda>ob.
     res_bind (recolor white2gray_m a g) (\<lambda>g.
       case ob_body ob of
         Str _ _ \<Rightarrow> recolor gray2black_m a g
       | Udata mt uv \<Rightarrow>
           res_bind (case mt of
               None \<Rightarrow> Inr g
             | Some m \<Rightarrow> res_bind (iswhite_o m g) (\<lambda>w. if w then reallymarkobject_o f m g else Inr g)) (\<lambda>g.
           res_bind (recolor gray2black_m a g) (\<lambda>g.
           res_bind (valiswhite uv g) (\<lambda>w.
             if w then (case uv of VRef b \<Rightarrow> reallymarkobject_o f b g | _ \<Rightarrow> Inr g) else Inr g)))
       | _ \<Rightarrow> Inr (g\<lparr>c_gray := a # c_gray g\<rparr>)))"

definition markobject_o :: "nat \<Rightarrow> cstate \<Rightarrow> lua_error + cstate" where
  "markobject_o a g = res_bind (iswhite_o a g) (\<lambda>w. if w then reallymarkobject_o (gc_fuel g) a g else Inr g)"

definition markobjectN :: "nat option \<Rightarrow> cstate \<Rightarrow> lua_error + cstate" where
  "markobjectN t g = (case t of None \<Rightarrow> Inr g | Some a \<Rightarrow> markobject_o a g)"

definition markvalue_o :: "gval \<Rightarrow> cstate \<Rightarrow> lua_error + cstate" where
  "markvalue_o v g = (case v of VRef a \<Rightarrow> markobject_o a g | _ \<Rightarrow> Inr g)"

definition markmt :: "cstate \<Rightarrow> lua_error + cstate" where
  "markmt g = res_fold markobjectN (c_mt g) g"

definition markbeingfnz :: "cstate \<Rightarrow> lua_error + cstate" where
  "markbeingfnz g = res_fold markobject_o (c_tobefnz g) g"

text \<open>\<open>uv->v\<close>.\<close>

definition upval_value :: "nat \<Rightarrow> cstate \<Rightarrow> lua_error + gval" where
  "upval_value u g =
     res_bind (deref_u u g) (\<lambda>uv.
       case u_open uv of
         None \<Rightarrow> Inr (u_value uv)
       | Some (t, i) \<Rightarrow>
           res_bind (thr_at t g) (\<lambda>th. if i < length (th_stack th) then Inr (th_stack th ! i) else Inl (Fault OutOfBounds)))"

definition set_touched :: "bool \<Rightarrow> nat \<Rightarrow> cstate \<Rightarrow> lua_error + cstate" where
  "set_touched b u g = res_bind (deref_u u g) (\<lambda>uv. Inr (put_u u (uv\<lparr>u_touched := b\<rparr>) g))"

definition remark_upval :: "nat \<Rightarrow> cstate \<Rightarrow> lua_error + cstate" where
  "remark_upval u g =
     res_bind (deref_u u g) (\<lambda>uv.
       if u_touched uv then
         res_bind (upval_value u g) (\<lambda>v. res_bind (markvalue_o v g) (set_touched False u))
       else Inr g)"

text \<open>The loop over the list \<open>twups\<close> keeps the first part of the list in front of the place \<open>p\<close>.\<close>

fun remark_threads :: "nat list \<Rightarrow> nat list \<Rightarrow> cstate \<Rightarrow> lua_error + cstate" where
  "remark_threads kept [] g = Inr g"
| "remark_threads kept (t # ts) g =
     res_bind (deref_o t g) (\<lambda>ob.
     res_bind (thr_at t g) (\<lambda>th.
     res_bind (lassert (\<not> isblack_m (ob_marked ob)) ''threads are never black'') (\<lambda>_.
       if isgray_m (ob_marked ob) \<and> th_openupval th \<noteq> [] then remark_threads (kept @ [t]) ts g
       else res_bind (res_fold remark_upval (th_openupval th) (g\<lparr>c_twups := kept @ ts\<rparr>)) (remark_threads kept ts))))"

definition remarkupvals :: "cstate \<Rightarrow> lua_error + cstate" where
  "remarkupvals g = remark_threads [] (c_twups g) g"

definition restartcollection :: "cstate \<Rightarrow> lua_error + cstate" where
  "restartcollection g =
     (let g = g\<lparr>c_gray := [], c_grayagain := [], c_weak := [], c_ephemeron := [], c_allweak := []\<rparr> in
      res_bind (markobject_o (c_mainthread g) g) (\<lambda>g.
      res_bind (markvalue_o (c_registry g) g) (\<lambda>g.
      res_bind (markmt g) markbeingfnz)))"

section \<open>Tables\<close>

definition set_entry :: "nat \<Rightarrow> nat \<Rightarrow> gval \<times> gval \<Rightarrow> cstate \<Rightarrow> lua_error + cstate" where
  "set_entry a i e g = res_bind (tab_at a g) (\<lambda>h. put_body a (Tab (h\<lparr>h_node := (h_node h)[i := e]\<rparr>)) g)"

definition set_slot :: "nat \<Rightarrow> nat \<Rightarrow> gval \<Rightarrow> cstate \<Rightarrow> lua_error + cstate" where
  "set_slot a i v g = res_bind (tab_at a g) (\<lambda>h. put_body a (Tab (h\<lparr>h_array := (h_array h)[i := v]\<rparr>)) g)"

definition removeentry :: "nat \<Rightarrow> nat \<Rightarrow> cstate \<Rightarrow> lua_error + cstate" where
  "removeentry a i g =
     res_bind (tab_at a g) (\<lambda>h. case h_node h ! i of (k, v) \<Rightarrow>
     res_bind (lassert (v = VNil) ''ttisnil(gval(n))'') (\<lambda>_.
     res_bind (valiswhite k g) (\<lambda>w.
       if w then set_entry a i (case k of VRef b \<Rightarrow> VDead b | _ \<Rightarrow> k, v) g else Inr g)))"

definition is_string :: "gcbody \<Rightarrow> bool" where
  "is_string b \<longleftrightarrow> (case b of Str _ _ \<Rightarrow> True | _ \<Rightarrow> False)"

definition iscleared :: "gval \<Rightarrow> cstate \<Rightarrow> lua_error + bool \<times> cstate" where
  "iscleared v g =
     (case v of
        VRef a \<Rightarrow>
          res_bind (deref_o a g) (\<lambda>ob.
            if is_string (ob_body ob) then res_bind (markobject_o a g) (\<lambda>g. Inr (False, g))
            else Inr (iswhite_m (ob_marked ob), g))
      | _ \<Rightarrow> Inr (False, g))"

definition checkdeadkey :: "gval \<times> gval \<Rightarrow> lua_error + unit" where
  "checkdeadkey e = lassert ((case fst e of VDead _ \<Rightarrow> False | _ \<Rightarrow> True) \<or> snd e = VNil) ''checkdeadkey''"

definition weakvalue_step :: "nat \<Rightarrow> nat \<Rightarrow> bool \<times> cstate \<Rightarrow> lua_error + bool \<times> cstate" where
  "weakvalue_step a i s =
     (case s of (hasclears, g) \<Rightarrow>
       res_bind (tab_at a g) (\<lambda>h. case h_node h ! i of (k, v) \<Rightarrow>
       res_bind (checkdeadkey (k, v)) (\<lambda>_.
         if v = VNil then res_bind (removeentry a i g) (\<lambda>g. Inr (hasclears, g))
         else
           res_bind (lassert (k \<noteq> VNil) ''!ttisnil(gkey(n))'') (\<lambda>_.
           res_bind (markvalue_o k g) (\<lambda>g.
             if hasclears then Inr (True, g) else iscleared v g)))))"

definition traverseweakvalue :: "nat \<Rightarrow> cstate \<Rightarrow> lua_error + cstate" where
  "traverseweakvalue a g =
     res_bind (tab_at a g) (\<lambda>h.
     res_bind (res_fold (weakvalue_step a) [0..<length (h_node h)] (0 < length (h_array h), g)) (\<lambda>(hasclears, g).
       if c_gcstate g = GCSpropagate then Inr (g\<lparr>c_grayagain := a # c_grayagain g\<rparr>)
       else if hasclears then Inr (g\<lparr>c_weak := a # c_weak g\<rparr>)
       else Inr g))"

text \<open>The flags of \<open>traverseephemeron\<close>.\<close>

record eph =
  e_marked :: bool
  e_clears :: bool
  e_ww :: bool

definition eph_mark :: "gval \<Rightarrow> eph \<times> cstate \<Rightarrow> lua_error + eph \<times> cstate" where
  "eph_mark v s =
     (case s of (e, g) \<Rightarrow>
       res_bind (valiswhite v g) (\<lambda>w.
         if w then res_bind (markvalue_o v g) (\<lambda>g. Inr (e\<lparr>e_marked := True\<rparr>, g)) else Inr (e, g)))"

definition eph_entry :: "nat \<Rightarrow> nat \<Rightarrow> eph \<times> cstate \<Rightarrow> lua_error + eph \<times> cstate" where
  "eph_entry a i s =
     (case s of (e, g) \<Rightarrow>
       res_bind (tab_at a g) (\<lambda>h. case h_node h ! i of (k, v) \<Rightarrow>
       res_bind (checkdeadkey (k, v)) (\<lambda>_.
         if v = VNil then res_bind (removeentry a i g) (\<lambda>g. Inr (e, g))
         else
           res_bind (iscleared k g) (\<lambda>(c, g).
             if c then res_bind (valiswhite v g) (\<lambda>w. Inr (e\<lparr>e_clears := True, e_ww := e_ww e \<or> w\<rparr>, g))
             else eph_mark v (e, g)))))"

definition traverseephemeron :: "nat \<Rightarrow> cstate \<Rightarrow> lua_error + bool \<times> cstate" where
  "traverseephemeron a g =
     res_bind (tab_at a g) (\<lambda>h.
     res_bind (res_fold eph_mark (h_array h) (\<lparr>e_marked = False, e_clears = False, e_ww = False\<rparr>, g)) (\<lambda>s.
     res_bind (res_fold (eph_entry a) [0..<length (h_node h)] s) (\<lambda>(e, g).
       Inr (e_marked e,
         if c_gcstate g = GCSpropagate then g\<lparr>c_grayagain := a # c_grayagain g\<rparr>
         else if e_ww e then g\<lparr>c_ephemeron := a # c_ephemeron g\<rparr>
         else if e_clears e then g\<lparr>c_allweak := a # c_allweak g\<rparr>
         else g))))"

definition strong_entry :: "nat \<Rightarrow> nat \<Rightarrow> cstate \<Rightarrow> lua_error + cstate" where
  "strong_entry a i g =
     res_bind (tab_at a g) (\<lambda>h. case h_node h ! i of (k, v) \<Rightarrow>
     res_bind (checkdeadkey (k, v)) (\<lambda>_.
       if v = VNil then removeentry a i g
       else res_bind (lassert (k \<noteq> VNil) ''!ttisnil(gkey(n))'') (\<lambda>_. res_bind (markvalue_o k g) (markvalue_o v))))"

definition traversestrongtable :: "nat \<Rightarrow> cstate \<Rightarrow> lua_error + cstate" where
  "traversestrongtable a g =
     res_bind (tab_at a g) (\<lambda>h.
     res_bind (res_fold markvalue_o (h_array h) g) (\<lambda>g.
       res_fold (strong_entry a) [0..<length (h_node h)] g))"

text \<open>\<open>luaH_getshortstr\<close> of a key that is an interned string: the entry with this pointer as its key.\<close>

fun node_get :: "nat \<Rightarrow> (gval \<times> gval) list \<Rightarrow> gval" where
  "node_get s [] = VNil"
| "node_get s ((k, v) # ns) = (if k = VRef s then v else node_get s ns)"

definition luaT_gettm :: "nat \<Rightarrow> nat \<Rightarrow> cstate \<Rightarrow> lua_error + gval option \<times> cstate" where
  "luaT_gettm m e g =
     res_bind (tab_at m g) (\<lambda>h.
       let tm = node_get (c_tmname g ! e) (h_node h) in
       if tm = VNil then res_bind (put_body m (Tab (h\<lparr>h_flags := h_flags h OR push_bit e 1\<rparr>)) g) (\<lambda>g. Inr (None, g))
       else Inr (Some tm, g))"

definition gfasttm :: "nat option \<Rightarrow> nat \<Rightarrow> cstate \<Rightarrow> lua_error + gval option \<times> cstate" where
  "gfasttm et e g =
     (case et of
        None \<Rightarrow> Inr (None, g)
      | Some m \<Rightarrow>
          res_bind (tab_at m g) (\<lambda>h.
            if h_flags h AND push_bit e 1 \<noteq> 0 then Inr (None, g) else luaT_gettm m e g))"

text \<open>Whether the mode, if it is a string, has the characters \<open>k\<close> and \<open>v\<close>.\<close>

definition mode_chars :: "gval option \<Rightarrow> cstate \<Rightarrow> lua_error + bool \<times> bool" where
  "mode_chars mode g =
     (case mode of
        Some (VRef s) \<Rightarrow>
          res_bind (deref_o s g) (\<lambda>ob.
            case ob_body ob of
              Str _ bs \<Rightarrow> Inr (107 \<in> set (cstring bs), 118 \<in> set (cstring bs))
            | _ \<Rightarrow> Inr (False, False))
      | _ \<Rightarrow> Inr (False, False))"

definition traversetable :: "nat \<Rightarrow> cstate \<Rightarrow> lua_error + cstate" where
  "traversetable a g =
     res_bind (tab_at a g) (\<lambda>h.
     res_bind (gfasttm (h_metatable h) TM_MODE g) (\<lambda>(mode, g).
     res_bind (markobjectN (h_metatable h) g) (\<lambda>g.
     res_bind (mode_chars mode g) (\<lambda>(weakkey, weakvalue).
       if weakkey \<or> weakvalue then
         res_bind (recolor black2gray_m a g) (\<lambda>g.
           if \<not> weakkey then traverseweakvalue a g
           else if \<not> weakvalue then res_bind (traverseephemeron a g) (\<lambda>(_, g). Inr g)
           else Inr (g\<lparr>c_allweak := a # c_allweak g\<rparr>))
       else traversestrongtable a g))))"

section \<open>Other objects\<close>

definition traverseproto :: "nat \<Rightarrow> gcproto \<Rightarrow> cstate \<Rightarrow> lua_error + cstate" where
  "traverseproto a f g =
     res_bind (case pr_cache f of
         None \<Rightarrow> Inr g
       | Some c \<Rightarrow> res_bind (iswhite_o c g) (\<lambda>w. if w then put_body a (Prt (f\<lparr>pr_cache := None\<rparr>)) g else Inr g)) (\<lambda>g.
     res_bind (markobjectN (pr_source f) g) (\<lambda>g.
     res_bind (res_fold markvalue_o (pr_k f) g) (\<lambda>g.
     res_bind (res_fold markobjectN (pr_upvalues f) g) (\<lambda>g.
     res_bind (res_fold markobjectN (pr_p f) g) (\<lambda>g.
       res_fold markobjectN (pr_locvars f) g)))))"

definition traverseCclosure :: "gval list \<Rightarrow> cstate \<Rightarrow> lua_error + cstate" where
  "traverseCclosure upvalue g = res_fold markvalue_o upvalue g"

definition closure_upval :: "nat option \<Rightarrow> cstate \<Rightarrow> lua_error + cstate" where
  "closure_upval x g =
     (case x of
        None \<Rightarrow> Inr g
      | Some u \<Rightarrow>
          res_bind (deref_u u g) (\<lambda>uv.
            if u_open uv \<noteq> None \<and> c_gcstate g \<noteq> GCSinsideatomic then set_touched True u g
            else res_bind (upval_value u g) (\<lambda>v. markvalue_o v g)))"

definition traverseLclosure :: "nat option \<Rightarrow> nat option list \<Rightarrow> cstate \<Rightarrow> lua_error + cstate" where
  "traverseLclosure p upvals g = res_bind (markobjectN p g) (res_fold closure_upval upvals)"

definition EXTRA_STACK :: nat where "EXTRA_STACK = 5"
definition LUAI_MAXSTACK :: nat where "LUAI_MAXSTACK = 1000000"

definition stackinuse :: "gcthread \<Rightarrow> nat" where
  "stackinuse th = fold max (th_citops th) (th_top th) + 1"

text \<open>Shrinking a stack cuts off its end; its list of \<open>CallInfo\<close>s, which is shrunk as well, has no references in its free part.\<close>

definition luaD_shrinkstack :: "gcthread \<Rightarrow> gcthread" where
  "luaD_shrinkstack th =
     (let inuse = stackinuse th; goodsize = min LUAI_MAXSTACK (inuse + inuse div 8 + 2 * EXTRA_STACK) in
      if LUAI_MAXSTACK < inuse \<or> length (th_stack th) \<le> goodsize then th
      else th\<lparr>th_stack := take goodsize (th_stack th)\<rparr>)"

definition clear_slice :: "gcthread \<Rightarrow> gcthread" where
  "clear_slice th = th\<lparr>th_stack := take (th_top th) (th_stack th) @ replicate (length (th_stack th) - th_top th) VNil\<rparr>"

definition traversethread :: "nat \<Rightarrow> gcthread \<Rightarrow> cstate \<Rightarrow> lua_error + cstate" where
  "traversethread a th g =
     (if \<not> th_built th then Inr g
      else
        res_bind (lassert (c_gcstate g = GCSinsideatomic \<or> th_openupval th = [] \<or> a \<in> set (c_twups g)) ''isintwups(th)'') (\<lambda>_.
        res_bind (res_fold markvalue_o (take (th_top th) (th_stack th)) g) (\<lambda>g.
          if c_gcstate g = GCSinsideatomic then
            res_bind (thr_at a g) (\<lambda>th.
            res_bind (put_body a (Thr (clear_slice th)) g) (\<lambda>g.
              Inr (if a \<notin> set (c_twups g) \<and> th_openupval th \<noteq> [] then g\<lparr>c_twups := a # c_twups g\<rparr> else g)))
          else if \<not> c_emergency g then res_bind (thr_at a g) (\<lambda>th. put_body a (Thr (luaD_shrinkstack th)) g)
          else Inr g)))"

section \<open>Propagation\<close>

definition propagatemark :: "cstate \<Rightarrow> lua_error + cstate" where
  "propagatemark g =
     (case c_gray g of
        [] \<Rightarrow> Inl (Fault NullDeref)
      | a # rest \<Rightarrow>
          res_bind (deref_o a g) (\<lambda>ob.
          res_bind (lassert (isgray_m (ob_marked ob)) ''isgray(o)'') (\<lambda>_.
          res_bind (recolor gray2black_m a g) (\<lambda>g.
            let g = g\<lparr>c_gray := rest\<rparr> in
            case ob_body ob of
              Tab _ \<Rightarrow> traversetable a g
            | LCl p upvals \<Rightarrow> traverseLclosure p upvals g
            | CCl upvalue \<Rightarrow> traverseCclosure upvalue g
            | Thr th \<Rightarrow>
                res_bind (recolor black2gray_m a (g\<lparr>c_grayagain := a # c_grayagain g\<rparr>)) (traversethread a th)
            | Prt f \<Rightarrow> traverseproto a f g
            | _ \<Rightarrow> Inl (Fault (AssertFail ''propagatemark''))))))"

fun propagate_loop :: "nat \<Rightarrow> cstate \<Rightarrow> lua_error + cstate" where
  "propagate_loop 0 g = Inl (Fault OutOfFuel)"
| "propagate_loop (Suc f) g = (if c_gray g = [] then Inr g else res_bind (propagatemark g) (propagate_loop f))"

text \<open>Every round takes one object from the gray list; only white ones come to it.\<close>

definition propagateall :: "cstate \<Rightarrow> lua_error + cstate" where
  "propagateall g = propagate_loop (2 * gc_fuel g) g"

fun converge_pass :: "nat list \<Rightarrow> bool \<Rightarrow> cstate \<Rightarrow> lua_error + bool \<times> cstate" where
  "converge_pass [] changed g = Inr (changed, g)"
| "converge_pass (w # ws) changed g =
     res_bind (traverseephemeron w g) (\<lambda>(m, g).
       if m then res_bind (propagateall g) (converge_pass ws True) else converge_pass ws changed g)"

fun converge_loop :: "nat \<Rightarrow> cstate \<Rightarrow> lua_error + cstate" where
  "converge_loop 0 g = Inl (Fault OutOfFuel)"
| "converge_loop (Suc f) g =
     res_bind (converge_pass (c_ephemeron g) False (g\<lparr>c_ephemeron := []\<rparr>)) (\<lambda>(changed, g).
       if changed then converge_loop f g else Inr g)"

text \<open>A round that is not the last marks an object.\<close>

definition convergeephemerons :: "cstate \<Rightarrow> lua_error + cstate" where
  "convergeephemerons g = converge_loop (gc_fuel g) g"

section \<open>Clearing weak tables\<close>

definition clearkey_entry :: "nat \<Rightarrow> nat \<Rightarrow> cstate \<Rightarrow> lua_error + cstate" where
  "clearkey_entry a i g =
     res_bind (tab_at a g) (\<lambda>h. case h_node h ! i of (k, v) \<Rightarrow>
       if v = VNil then Inr g
       else res_bind (iscleared k g) (\<lambda>(c, g).
         if c then res_bind (set_entry a i (k, VNil) g) (removeentry a i) else Inr g))"

definition clearvalue_slot :: "nat \<Rightarrow> nat \<Rightarrow> cstate \<Rightarrow> lua_error + cstate" where
  "clearvalue_slot a i g =
     res_bind (tab_at a g) (\<lambda>h.
     res_bind (iscleared (h_array h ! i) g) (\<lambda>(c, g). if c then set_slot a i VNil g else Inr g))"

definition clearvalue_entry :: "nat \<Rightarrow> nat \<Rightarrow> cstate \<Rightarrow> lua_error + cstate" where
  "clearvalue_entry a i g =
     res_bind (tab_at a g) (\<lambda>h. case h_node h ! i of (k, v) \<Rightarrow>
       if v = VNil then Inr g
       else res_bind (iscleared v g) (\<lambda>(c, g).
         if c then res_bind (set_entry a i (k, VNil) g) (removeentry a i) else Inr g))"

text \<open>The tables of a list up to, but not including, the one the pointer \<open>f\<close> leads to.\<close>

definition up_to :: "nat list \<Rightarrow> nat list \<Rightarrow> nat list" where
  "up_to l f = takeWhile (\<lambda>a. case f of [] \<Rightarrow> True | b # _ \<Rightarrow> a \<noteq> b) l"

definition clearkeys :: "nat list \<Rightarrow> nat list \<Rightarrow> cstate \<Rightarrow> lua_error + cstate" where
  "clearkeys l f g =
     res_fold (\<lambda>a g. res_bind (tab_at a g) (\<lambda>h. res_fold (clearkey_entry a) [0..<length (h_node h)] g)) (up_to l f) g"

definition clearvalues :: "nat list \<Rightarrow> nat list \<Rightarrow> cstate \<Rightarrow> lua_error + cstate" where
  "clearvalues l f g =
     res_fold (\<lambda>a g. res_bind (tab_at a g) (\<lambda>h.
         res_bind (res_fold (clearvalue_slot a) [0..<length (h_array h)] g) (\<lambda>g.
           res_fold (clearvalue_entry a) [0..<length (h_node h)] g))) (up_to l f) g"

section \<open>The atomic phase\<close>

text \<open>\<open>separatetobefnz\<close>: the objects that are moved, in their order.\<close>

fun separate :: "bool \<Rightarrow> nat list \<Rightarrow> cstate \<Rightarrow> lua_error + nat list \<times> nat list" where
  "separate every [] g = Inr ([], [])"
| "separate every (a # as) g =
     res_bind (deref_o a g) (\<lambda>ob.
     res_bind (lassert (tofinalize_m (ob_marked ob)) ''tofinalize(curr)'') (\<lambda>_.
     res_bind (separate every as g) (\<lambda>(stay, move).
       Inr (if iswhite_m (ob_marked ob) \<or> every then (stay, a # move) else (a # stay, move)))))"

definition separatetobefnz :: "bool \<Rightarrow> cstate \<Rightarrow> lua_error + cstate" where
  "separatetobefnz every g =
     res_bind (separate every (c_finobj g) g) (\<lambda>(stay, move).
       Inr (g\<lparr>c_finobj := stay, c_tobefnz := c_tobefnz g @ move\<rparr>))"

text \<open>
  The assertion at the start of \<open>atomic\<close>, that the lists \<open>ephemeron\<close> and \<open>weak\<close> are empty, is left out: it fails, without
  harm, when an object that a barrier has marked in the state \<open>GCSatomic\<close> leads to a weak table.
\<close>

definition atomic_mark :: "cstate \<Rightarrow> lua_error + cstate" where
  "atomic_mark g =
     (let grayagain = c_grayagain g in
      res_bind (iswhite_o (c_mainthread g) g) (\<lambda>w.
      res_bind (lassert (\<not> w) ''!iswhite(g->mainthread)'') (\<lambda>_.
      res_bind (markobject_o (c_running g) (g\<lparr>c_gcstate := GCSinsideatomic\<rparr>)) (\<lambda>g.
      res_bind (markvalue_o (c_registry g) g) (\<lambda>g.
      res_bind (markmt g) (\<lambda>g.
      res_bind (remarkupvals g) (\<lambda>g.
      res_bind (propagateall g) (\<lambda>g.
      res_bind (propagateall (g\<lparr>c_gray := grayagain\<rparr>)) convergeephemerons))))))))"

definition atomic :: "cstate \<Rightarrow> lua_error + cstate" where
  "atomic g =
     res_bind (atomic_mark g) (\<lambda>g.
     res_bind (clearvalues (c_weak g) [] g) (\<lambda>g.
     res_bind (clearvalues (c_allweak g) [] g) (\<lambda>g.
       let origweak = c_weak g; origall = c_allweak g in
       res_bind (separatetobefnz False g) (\<lambda>g.
       res_bind (markbeingfnz (g\<lparr>c_gcfinnum := 1\<rparr>)) (\<lambda>g.
       res_bind (propagateall g) (\<lambda>g.
       res_bind (convergeephemerons g) (\<lambda>g.
       res_bind (clearkeys (c_ephemeron g) [] g) (\<lambda>g.
       res_bind (clearkeys (c_allweak g) [] g) (\<lambda>g.
       res_bind (clearvalues (c_weak g) origweak g) (\<lambda>g.
       res_bind (clearvalues (c_allweak g) origall g) (\<lambda>g.
         Inr (g\<lparr>c_currentwhite := otherwhite_c g\<rparr>))))))))))))"

end
