(* ===== verification/LuaGcMark.thy ===== *)
theory LuaGcMark
  imports LuaGc LuaStringGc
begin

text \<open>
  Marking: what is reachable from an object, the relation between states in which marking can only have gone on, and that
  \<open>reallymarkobject\<close> with everything built on it stays in this relation.
\<close>

section \<open>Results and loops\<close>

definition okay :: "'e + 'a \<Rightarrow> ('a \<Rightarrow> bool) \<Rightarrow> bool" where
  "okay r Q \<longleftrightarrow> (\<exists>x. r = Inr x \<and> Q x)"

lemma okay_simps [simp]: "okay (Inr x) Q \<longleftrightarrow> Q x" "\<not> okay (Inl e) Q"
  by (simp_all add: okay_def)

lemma okay_mono: "okay r Q \<Longrightarrow> (\<And>x. Q x \<Longrightarrow> R x) \<Longrightarrow> okay r R"
  by (auto simp: okay_def)

lemma okay_bind: "okay r Q \<Longrightarrow> (\<And>x. Q x \<Longrightarrow> okay (f x) R) \<Longrightarrow> okay (res_bind r f) R"
  by (auto simp: okay_def)

lemma okay_assert: "b \<Longrightarrow> okay (f ()) R \<Longrightarrow> okay (res_bind (lassert b m) f) R"
  by (simp add: lassert_def)

text \<open>A loop whose steps keep \<open>I\<close> and establish \<open>Q x\<close>, which later steps do not undo.\<close>

lemma okay_fold:
  assumes "I s" "\<And>x s. x \<in> set xs \<Longrightarrow> I s \<Longrightarrow> okay (f x s) (\<lambda>s'. I s' \<and> K s s' \<and> Q x s')"
    "\<And>x s s'. I s \<Longrightarrow> I s' \<Longrightarrow> K s s' \<Longrightarrow> Q x s \<Longrightarrow> Q x s'" "\<And>s. K s s" "\<And>s s' s''. K s s' \<Longrightarrow> K s' s'' \<Longrightarrow> K s s''"
  shows "okay (res_fold f xs s) (\<lambda>s'. I s' \<and> K s s' \<and> (\<forall>x\<in>set xs. Q x s'))"
  using assms(1,2)
proof (induction xs arbitrary: s)
  case Nil
  then show ?case using assms(4) by simp
next
  case (Cons x xs)
  show ?case
    unfolding res_fold.simps
  proof (rule okay_bind)
    show "okay (f x s) (\<lambda>s'. I s' \<and> K s s' \<and> Q x s')" using Cons.prems by simp
    fix t assume t: "I t \<and> K s t \<and> Q x t"
    have "okay (res_fold f xs t) (\<lambda>s'. I s' \<and> K t s' \<and> (\<forall>x\<in>set xs. Q x s'))"
      using Cons.IH [of t] Cons.prems(2) t by simp
    then show "okay (res_fold f xs t) (\<lambda>s'. I s' \<and> K s s' \<and> (\<forall>x\<in>set (x # xs). Q x s'))"
      by (rule okay_mono) (use t assms(3,5) in \<open>auto\<close>)
  qed
qed

section \<open>Colours as bits\<close>

lemma more_bits: "bit (8 :: int) n \<longleftrightarrow> n = 3"
proof -
  consider "n = 0" | "n = 1" | "n = 2" | k where "n = Suc (Suc (Suc k))" by (metis One_nat_def Suc_1 not0_implies_Suc)
  then show ?thesis by (cases; simp add: bit_Suc bit_1_iff)
qed

lemma single_bits: "m AND 4 = 0 \<longleftrightarrow> \<not> bit m 2" "m AND 8 = 0 \<longleftrightarrow> \<not> bit m 3" for m :: "8 word"
  unfolding byte_eq_iff all_less_8 by (simp_all add: bit_and_iff small_bits more_bits)

lemma seven_bits: "m AND 7 = 0 \<longleftrightarrow> \<not> bit m 0 \<and> \<not> bit m 1 \<and> \<not> bit m 2" for m :: "8 word"
  unfolding byte_eq_iff all_less_8 by (auto simp: bit_and_iff small_bits)

lemma mark_bits:
  "iswhite_m m \<longleftrightarrow> bit m 0 \<or> bit m 1" "isblack_m m \<longleftrightarrow> bit m 2" "isgray_m m \<longleftrightarrow> \<not> iswhite_m m \<and> \<not> isblack_m m"
  "tofinalize_m m \<longleftrightarrow> bit m 3"
proof -
  show w: "iswhite_m m \<longleftrightarrow> bit m 0 \<or> bit m 1" by (auto simp: iswhite_m_def WHITEBITS_def white_bits)
  show b: "isblack_m m \<longleftrightarrow> bit m 2" by (simp add: isblack_m_def BLACKBIT_def single_bits)
  show "isgray_m m \<longleftrightarrow> \<not> iswhite_m m \<and> \<not> isblack_m m"
    by (simp add: isgray_m_def WHITEBITS_def BLACKBIT_def seven_bits w b)
  show "tofinalize_m m \<longleftrightarrow> bit m 3" by (simp add: tofinalize_m_def FINALIZEDBIT_def single_bits)
qed

lemma bit_white2gray: "n < 8 \<Longrightarrow> bit (white2gray_m m) n \<longleftrightarrow> bit m n \<and> n \<noteq> 0 \<and> n \<noteq> 1"
  unfolding white2gray_m_def WHITEBITS_def bit_and_iff bit_not_iff by (auto simp: small_bits)

lemma bit_gray2black: "n < 8 \<Longrightarrow> bit (gray2black_m m) n \<longleftrightarrow> bit m n \<or> n = 2"
  by (simp add: gray2black_m_def BLACKBIT_def bit_or_iff small_bits)

lemma bit_black2gray: "n < 8 \<Longrightarrow> bit (black2gray_m m) n \<longleftrightarrow> bit m n \<and> n \<noteq> 2"
  unfolding black2gray_m_def BLACKBIT_def bit_and_iff bit_not_iff by (auto simp: small_bits)

lemma recolored [simp]:
  "\<not> iswhite_m (white2gray_m m)" "isblack_m (white2gray_m m) \<longleftrightarrow> isblack_m m" "tofinalize_m (white2gray_m m) \<longleftrightarrow> tofinalize_m m"
  "iswhite_m (gray2black_m m) \<longleftrightarrow> iswhite_m m" "isblack_m (gray2black_m m)" "tofinalize_m (gray2black_m m) \<longleftrightarrow> tofinalize_m m"
  "iswhite_m (black2gray_m m) \<longleftrightarrow> iswhite_m m" "\<not> isblack_m (black2gray_m m)" "tofinalize_m (black2gray_m m) \<longleftrightarrow> tofinalize_m m"
  by (auto simp: mark_bits bit_white2gray bit_gray2black bit_black2gray)

section \<open>References\<close>

fun vrefs :: "gval \<Rightarrow> nat set" where
  "vrefs (VRef a) = {a}"
| "vrefs _ = {}"

definition lrefs :: "gval list \<Rightarrow> nat set" where
  "lrefs vs = (\<Union>v\<in>set vs. vrefs v)"

definition orefs :: "nat option list \<Rightarrow> nat set" where
  "orefs xs = (\<Union>x\<in>set xs. set_option x)"

text \<open>The key of an entry without a value counts as well, as long as it has not been made a dead key.\<close>

definition entry_refs :: "gval \<times> gval \<Rightarrow> nat set" where
  "entry_refs e = vrefs (fst e) \<union> vrefs (snd e)"

definition body_refs :: "gcbody \<Rightarrow> nat set" where
  "body_refs b =
     (case b of
        Str _ _ \<Rightarrow> {}
      | Udata mt uv \<Rightarrow> set_option mt \<union> vrefs uv
      | Tab h \<Rightarrow> set_option (h_metatable h) \<union> lrefs (h_array h) \<union> (\<Union>e\<in>set (h_node h). entry_refs e)
      | LCl p us \<Rightarrow> set_option p
      | CCl vs \<Rightarrow> lrefs vs
      | Thr th \<Rightarrow> lrefs (th_stack th)
      | Prt f \<Rightarrow> set_option (pr_cache f) \<union> set_option (pr_source f) \<union> lrefs (pr_k f) \<union> orefs (pr_upvalues f) \<union>
          orefs (pr_p f) \<union> orefs (pr_locvars f))"

definition body_upvals :: "gcbody \<Rightarrow> nat set" where
  "body_upvals b = (case b of LCl p us \<Rightarrow> orefs us | _ \<Rightarrow> {})"

definition white :: "cstate \<Rightarrow> nat \<Rightarrow> bool" where
  "white g a \<longleftrightarrow> (\<exists>ob. c_heap g a = Some ob \<and> iswhite_m (ob_marked ob))"

definition marked :: "cstate \<Rightarrow> nat \<Rightarrow> bool" where
  "marked g a \<longleftrightarrow> (\<exists>ob. c_heap g a = Some ob \<and> \<not> iswhite_m (ob_marked ob))"

definition gray :: "cstate \<Rightarrow> nat \<Rightarrow> bool" where
  "gray g a \<longleftrightarrow> (\<exists>ob. c_heap g a = Some ob \<and> isgray_m (ob_marked ob))"

lemma gray_marked: "gray g a \<Longrightarrow> marked g a"
  by (auto simp: gray_def marked_def mark_bits)

lemma iswhite_o_eq: "a \<in> dom (c_heap g) \<Longrightarrow> iswhite_o a g = Inr (white g a)"
  by (auto simp: iswhite_o_def deref_o_def white_def)

lemma valiswhite_eq: "vrefs v \<subseteq> dom (c_heap g) \<Longrightarrow> valiswhite v g = Inr (\<exists>a. v = VRef a \<and> white g a)"
  by (cases v) (simp_all add: valiswhite_def iswhite_o_eq)

lemma not_white: "a \<in> dom (c_heap g) \<Longrightarrow> \<not> white g a \<longleftrightarrow> marked g a"
  by (auto simp: white_def marked_def)

text \<open>The kinds of objects that marking puts into the list of gray objects.\<close>

definition listed :: "gcbody \<Rightarrow> bool" where
  "listed b \<longleftrightarrow> (case b of Str _ _ \<Rightarrow> False | Udata _ _ \<Rightarrow> False | _ \<Rightarrow> True)"

section \<open>Bodies that shrink\<close>

definition val_shrinks :: "gval \<Rightarrow> gval \<Rightarrow> bool" where
  "val_shrinks v v' \<longleftrightarrow> v' = v \<or> v' = VNil"

definition entry_shrinks :: "gval \<times> gval \<Rightarrow> gval \<times> gval \<Rightarrow> bool" where
  "entry_shrinks e e' \<longleftrightarrow> e' = e \<or> snd e' = VNil \<and> (fst e' = fst e \<or> (\<exists>b. fst e' = VDead b))"

definition tab_shrinks :: "gctable \<Rightarrow> gctable \<Rightarrow> bool" where
  "tab_shrinks h h' \<longleftrightarrow> h_metatable h' = h_metatable h \<and> list_all2 val_shrinks (h_array h) (h_array h') \<and>
     list_all2 entry_shrinks (h_node h) (h_node h')"

definition thr_shrinks :: "gcthread \<Rightarrow> gcthread \<Rightarrow> bool" where
  "thr_shrinks th th' \<longleftrightarrow> th_built th' = th_built th \<and> th_top th' = th_top th \<and> th_openupval th' = th_openupval th \<and>
     length (th_stack th') \<le> length (th_stack th) \<and> (th_top th \<le> length (th_stack th) \<longrightarrow> th_top th \<le> length (th_stack th')) \<and>
     (\<forall>i<length (th_stack th'). val_shrinks (th_stack th ! i) (th_stack th' ! i) \<and> (i < th_top th \<longrightarrow> th_stack th' ! i = th_stack th ! i))"

definition shrinks :: "gcbody \<Rightarrow> gcbody \<Rightarrow> bool" where
  "shrinks b b' \<longleftrightarrow>
     (case b of
        Tab h \<Rightarrow> (\<exists>h'. b' = Tab h' \<and> tab_shrinks h h')
      | Thr th \<Rightarrow> (\<exists>th'. b' = Thr th' \<and> thr_shrinks th th')
      | Prt f \<Rightarrow> b' = b \<or> b' = Prt (f\<lparr>pr_cache := None\<rparr>)
      | _ \<Rightarrow> b' = b)"

lemma val_shrinks_refl [simp]: "val_shrinks v v" by (simp add: val_shrinks_def)
lemma entry_shrinks_refl [simp]: "entry_shrinks e e" by (simp add: entry_shrinks_def)
lemma tab_shrinks_refl [simp]: "tab_shrinks h h" by (simp add: tab_shrinks_def list_all2_refl)
lemma thr_shrinks_refl [simp]: "thr_shrinks h h" by (simp add: thr_shrinks_def)
lemma shrinks_refl [simp]: "shrinks b b" by (cases b) (auto simp: shrinks_def)

lemma val_shrinks_trans: "val_shrinks a b \<Longrightarrow> val_shrinks b c \<Longrightarrow> val_shrinks a c"
  by (auto simp: val_shrinks_def)

lemma entry_shrinks_trans: "entry_shrinks a b \<Longrightarrow> entry_shrinks b c \<Longrightarrow> entry_shrinks a c"
  by (auto simp: entry_shrinks_def)

lemma tab_shrinks_trans: "tab_shrinks a b \<Longrightarrow> tab_shrinks b c \<Longrightarrow> tab_shrinks a c"
  unfolding tab_shrinks_def
  by (auto intro: list_all2_trans [OF val_shrinks_trans] list_all2_trans [OF entry_shrinks_trans])

lemma thr_shrinks_trans: "thr_shrinks a b \<Longrightarrow> thr_shrinks b c \<Longrightarrow> thr_shrinks a c"
proof -
  assume a: "thr_shrinks a b" and b: "thr_shrinks b c"
  have "val_shrinks (th_stack a ! i) (th_stack c ! i) \<and> (i < th_top a \<longrightarrow> th_stack c ! i = th_stack a ! i)"
    if "i < length (th_stack c)" for i
  proof -
    have "i < length (th_stack b)" using that b by (simp add: thr_shrinks_def)
    then show ?thesis using a b that val_shrinks_trans unfolding thr_shrinks_def by metis
  qed
  then show ?thesis using a b unfolding thr_shrinks_def by simp
qed

lemma shrinks_trans: "shrinks a b \<Longrightarrow> shrinks b c \<Longrightarrow> shrinks a c"
proof (cases a)
  case (Tab h)
  assume "shrinks a b" "shrinks b c"
  then obtain h1 h2 where "b = Tab h1" "tab_shrinks h h1" "c = Tab h2" "tab_shrinks h1 h2"
    by (auto simp: shrinks_def Tab)
  then show ?thesis using tab_shrinks_trans by (auto simp: shrinks_def Tab)
next
  case (Thr h)
  assume "shrinks a b" "shrinks b c"
  then obtain h1 h2 where "b = Thr h1" "thr_shrinks h h1" "c = Thr h2" "thr_shrinks h1 h2"
    by (auto simp: shrinks_def Thr)
  then show ?thesis using thr_shrinks_trans by (auto simp: shrinks_def Thr)
qed (auto simp: shrinks_def)

lemma val_shrinks_refs: "val_shrinks v v' \<Longrightarrow> vrefs v' \<subseteq> vrefs v"
  by (auto simp: val_shrinks_def)

lemma entry_shrinks_refs: "entry_shrinks e e' \<Longrightarrow> entry_refs e' \<subseteq> entry_refs e"
  by (auto simp: entry_shrinks_def entry_refs_def)

lemma shrinks_union:
  assumes "list_all2 R xs ys" "\<And>x y. R x y \<Longrightarrow> f y \<subseteq> f x"
  shows "(\<Union>y\<in>set ys. f y) \<subseteq> (\<Union>x\<in>set xs. f x)"
  using assms(1)
proof (induction rule: list_all2_induct)
  case (Cons x xs y ys)
  then show ?case using assms(2) [of x y] by auto
qed simp

lemma tab_shrinks_refs: "tab_shrinks h h' \<Longrightarrow> body_refs (Tab h') \<subseteq> body_refs (Tab h)"
proof -
  assume s: "tab_shrinks h h'"
  have "lrefs (h_array h') \<subseteq> lrefs (h_array h)"
    unfolding lrefs_def by (rule shrinks_union [OF _ val_shrinks_refs]) (use s in \<open>auto simp: tab_shrinks_def\<close>)
  moreover have "(\<Union>e\<in>set (h_node h'). entry_refs e) \<subseteq> (\<Union>e\<in>set (h_node h). entry_refs e)"
    by (rule shrinks_union [OF _ entry_shrinks_refs]) (use s in \<open>auto simp: tab_shrinks_def\<close>)
  ultimately show ?thesis using s by (auto simp: body_refs_def tab_shrinks_def)
qed

lemma thr_shrinks_refs: "thr_shrinks h h' \<Longrightarrow> body_refs (Thr h') \<subseteq> body_refs (Thr h)"
proof
  fix r assume s: "thr_shrinks h h'" and "r \<in> body_refs (Thr h')"
  then obtain i where "i < length (th_stack h')" "r \<in> vrefs (th_stack h' ! i)" by (auto simp: body_refs_def lrefs_def in_set_conv_nth)
  moreover from this have "i < length (th_stack h)" "val_shrinks (th_stack h ! i) (th_stack h' ! i)"
    using s by (simp_all add: thr_shrinks_def)
  ultimately have "i < length (th_stack h)" "r \<in> vrefs (th_stack h ! i)" using val_shrinks_refs by blast+
  then show "r \<in> body_refs (Thr h)" by (auto simp: body_refs_def lrefs_def)
qed

lemma shrinks_refs: "shrinks b b' \<Longrightarrow> body_refs b' \<subseteq> body_refs b"
proof (cases b)
  case (Tab h)
  assume "shrinks b b'"
  then obtain h' where "b' = Tab h'" "tab_shrinks h h'" by (auto simp: shrinks_def Tab)
  then show ?thesis using tab_shrinks_refs Tab by metis
next
  case (Thr h)
  assume "shrinks b b'"
  then obtain h' where "b' = Thr h'" "thr_shrinks h h'" by (auto simp: shrinks_def Thr)
  then show ?thesis using thr_shrinks_refs Thr by metis
next
  case (Prt f)
  assume "shrinks b b'"
  then show ?thesis by (auto simp: shrinks_def Prt body_refs_def)
qed (simp_all add: shrinks_def)

lemma shrinks_upvals: "shrinks b b' \<Longrightarrow> body_upvals b' = body_upvals b"
  by (cases b) (auto simp: shrinks_def body_upvals_def)

lemma shrinks_listed: "shrinks b b' \<Longrightarrow> listed b' = listed b"
  by (cases b) (auto simp: shrinks_def listed_def)

lemma shrinks_string: "shrinks b b' \<Longrightarrow> is_string b' = is_string b"
  by (cases b) (auto simp: shrinks_def is_string_def)

section \<open>What marking changes\<close>

text \<open>
  \<open>ob_adv\<close>: an object before and after marking. Objects that go to the list of gray objects become gray, the others black;
  for a moment, while its metatable is marked, a userdata is gray.
\<close>

definition ob_adv :: "gcobj \<Rightarrow> gcobj \<Rightarrow> bool" where
  "ob_adv ob ob' \<longleftrightarrow> shrinks (ob_body ob) (ob_body ob') \<and> tofinalize_m (ob_marked ob') = tofinalize_m (ob_marked ob) \<and>
     (iswhite_m (ob_marked ob') \<longrightarrow> iswhite_m (ob_marked ob) \<and> ob_marked ob' = ob_marked ob) \<and>
     (isblack_m (ob_marked ob) \<longrightarrow> isblack_m (ob_marked ob')) \<and>
     (listed (ob_body ob) \<and> \<not> iswhite_m (ob_marked ob) \<longrightarrow> ob_marked ob' = ob_marked ob) \<and>
     (listed (ob_body ob) \<and> iswhite_m (ob_marked ob) \<and> \<not> iswhite_m (ob_marked ob') \<longrightarrow> isgray_m (ob_marked ob'))"

definition upv_adv :: "upval \<Rightarrow> upval \<Rightarrow> bool" where
  "upv_adv uv uv' \<longleftrightarrow> uv' = uv \<or> uv' = uv\<lparr>u_touched := True\<rparr>"

lemma upv_adv_refl [simp]: "upv_adv uv uv"
  by (simp add: upv_adv_def)

lemma upv_adv_trans: "upv_adv a b \<Longrightarrow> upv_adv b c \<Longrightarrow> upv_adv a c"
  by (auto simp: upv_adv_def)

definition newly :: "cstate \<Rightarrow> cstate \<Rightarrow> nat \<Rightarrow> bool" where
  "newly g g' a \<longleftrightarrow> white g a \<and> marked g' a"

text \<open>\<open>advx X\<close>: marking has gone on from \<open>g\<close> to \<open>g'\<close>, but is not yet finished for the objects of \<open>X\<close>.\<close>

definition done_leaf :: "cstate \<Rightarrow> nat \<Rightarrow> bool" where
  "done_leaf g a \<longleftrightarrow> (\<exists>ob. c_heap g a = Some ob \<and> isblack_m (ob_marked ob) \<and> (\<forall>r\<in>body_refs (ob_body ob). marked g r))"

definition is_listed :: "cstate \<Rightarrow> nat \<Rightarrow> bool" where
  "is_listed g a \<longleftrightarrow> (\<exists>ob. c_heap g a = Some ob \<and> listed (ob_body ob))"

text \<open>An entry that has a value, or whose key is marked or dead.\<close>

definition empty_ok :: "cstate \<Rightarrow> nat \<Rightarrow> nat \<Rightarrow> bool" where
  "empty_ok g a i \<longleftrightarrow> (\<exists>ob h. c_heap g a = Some ob \<and> ob_body ob = Tab h \<and> i < length (h_node h) \<and>
     (snd (h_node h ! i) = VNil \<longrightarrow> (\<forall>r\<in>vrefs (fst (h_node h ! i)). marked g r)))"

lemma empty_ok_same:
  assumes "empty_ok g a i" "\<And>b. map_option ob_body (c_heap g' b) = map_option ob_body (c_heap g b)"
    "\<And>b. marked g b \<Longrightarrow> marked g' b"
  shows "empty_ok g' a i"
proof -
  obtain ob h where o: "c_heap g a = Some ob" "ob_body ob = Tab h" "i < length (h_node h)"
    "snd (h_node h ! i) = VNil \<longrightarrow> (\<forall>r\<in>vrefs (fst (h_node h ! i)). marked g r)"
    using assms(1) unfolding empty_ok_def by blast
  obtain ob' where "c_heap g' a = Some ob'" "ob_body ob' = Tab h" using assms(2) [of a] o(1,2) by auto
  then show ?thesis using o(3,4) assms(3) unfolding empty_ok_def by blast
qed

definition advx :: "nat set \<Rightarrow> cstate \<Rightarrow> cstate \<Rightarrow> bool" where
  "advx X g g' \<longleftrightarrow> (\<exists>h zs us. g' = g\<lparr>c_heap := h, c_upvals := us, c_gray := zs @ c_gray g\<rparr> \<and> distinct zs \<and>
     (\<forall>u. rel_option upv_adv (c_upvals g u) (us u)) \<and> (\<forall>a. rel_option ob_adv (c_heap g a) (h a)) \<and>
     (\<forall>a. a \<in> set zs \<longleftrightarrow> newly g g' a \<and> is_listed g a) \<and>
     (\<forall>a. newly g g' a \<and> \<not> is_listed g a \<and> a \<notin> X \<longrightarrow> done_leaf g' a)) \<and>
     (\<forall>a i. empty_ok g a i \<longrightarrow> empty_ok g' a i)"

abbreviation "adv \<equiv> advx {}"

lemma ob_adv_refl [simp]: "ob_adv ob ob"
  by (simp add: ob_adv_def)

lemma ob_advD:
  assumes "ob_adv ob ob'"
  shows "shrinks (ob_body ob) (ob_body ob')" "tofinalize_m (ob_marked ob') = tofinalize_m (ob_marked ob)"
    "iswhite_m (ob_marked ob') \<Longrightarrow> iswhite_m (ob_marked ob)" "iswhite_m (ob_marked ob') \<Longrightarrow> ob_marked ob' = ob_marked ob"
    "isblack_m (ob_marked ob) \<Longrightarrow> isblack_m (ob_marked ob')"
    "listed (ob_body ob) \<Longrightarrow> \<not> iswhite_m (ob_marked ob) \<Longrightarrow> ob_marked ob' = ob_marked ob"
    "listed (ob_body ob) \<Longrightarrow> iswhite_m (ob_marked ob) \<Longrightarrow> \<not> iswhite_m (ob_marked ob') \<Longrightarrow> isgray_m (ob_marked ob')"
  using assms unfolding ob_adv_def by blast+

lemma ob_adv_trans:
  assumes a: "ob_adv a b" and b: "ob_adv b c"
  shows "ob_adv a c"
proof -
  have 1: "shrinks (ob_body a) (ob_body c)" "tofinalize_m (ob_marked c) = tofinalize_m (ob_marked a)"
    using shrinks_trans ob_advD(1,2) [OF a] ob_advD(1,2) [OF b] by (blast, simp)
  have l: "listed (ob_body b) = listed (ob_body a)" by (rule shrinks_listed [OF ob_advD(1) [OF a]])
  have 2: "iswhite_m (ob_marked c) \<longrightarrow> iswhite_m (ob_marked a) \<and> ob_marked c = ob_marked a"
    using ob_advD(3,4) [OF a] ob_advD(3,4) [OF b] by metis
  have 3: "isblack_m (ob_marked a) \<longrightarrow> isblack_m (ob_marked c)" using ob_advD(5) [OF a] ob_advD(5) [OF b] by blast
  have 4: "listed (ob_body a) \<and> \<not> iswhite_m (ob_marked a) \<longrightarrow> ob_marked c = ob_marked a"
    using l ob_advD(3,6) [OF a] ob_advD(6) [OF b] by metis
  have 5: "listed (ob_body a) \<and> iswhite_m (ob_marked a) \<and> \<not> iswhite_m (ob_marked c) \<longrightarrow> isgray_m (ob_marked c)"
    using l ob_advD(7) [OF a] ob_advD(6,7) [OF b] by metis
  show ?thesis unfolding ob_adv_def using 1 2 3 4 5 by blast
qed

lemma advxI:
  assumes "g' = g\<lparr>c_heap := h, c_upvals := us, c_gray := zs @ c_gray g\<rparr>" "distinct zs"
    "\<And>u. rel_option upv_adv (c_upvals g u) (us u)" "\<And>a. rel_option ob_adv (c_heap g a) (h a)"
    "\<And>a. a \<in> set zs \<longleftrightarrow> newly g g' a \<and> is_listed g a"
    "\<And>a. newly g g' a \<Longrightarrow> \<not> is_listed g a \<Longrightarrow> a \<notin> X \<Longrightarrow> done_leaf g' a"
    "\<And>a i. empty_ok g a i \<Longrightarrow> empty_ok g' a i"
  shows "advx X g g'"
  unfolding advx_def
  by (rule conjI, intro exI [of _ h] exI [of _ zs] exI [of _ us] conjI allI; (rule assms(1-5))?) (use assms(6,7) in blast)+

lemma advx_refl [simp]: "advx X g g"
  by (rule advxI [where h = "c_heap g" and zs = "[]" and us = "c_upvals g"])
    (auto simp: newly_def white_def marked_def option.rel_refl)

lemma advx_obj:
  assumes "advx X g g'" "c_heap g a = Some ob"
  shows "\<exists>ob'. c_heap g' a = Some ob' \<and> ob_adv ob ob'"
proof -
  obtain h zs us where "g' = g\<lparr>c_heap := h, c_upvals := us, c_gray := zs @ c_gray g\<rparr>" "rel_option ob_adv (c_heap g a) (h a)"
    using assms(1) by (auto simp: advx_def)
  then show ?thesis using assms(2) by (auto simp: option_rel_Some1)
qed

lemma advx_obj_back:
  assumes "advx X g g'" "c_heap g' a = Some ob'"
  shows "\<exists>ob. c_heap g a = Some ob \<and> ob_adv ob ob'"
proof -
  obtain h zs us where "g' = g\<lparr>c_heap := h, c_upvals := us, c_gray := zs @ c_gray g\<rparr>" "rel_option ob_adv (c_heap g a) (h a)"
    using assms(1) by (auto simp: advx_def)
  then show ?thesis using assms(2) by (auto simp: option_rel_Some2)
qed

lemma advx_dom: "advx X g g' \<Longrightarrow> dom (c_heap g') = dom (c_heap g)"
  using advx_obj advx_obj_back by (meson domD domI subsetI subset_antisym)

lemma advx_fields:
  assumes "advx X g g'"
  shows "c_currentwhite g' = c_currentwhite g" "c_gcstate g' = c_gcstate g" "c_emergency g' = c_emergency g"
    "c_allgc g' = c_allgc g" "c_finobj g' = c_finobj g" "c_tobefnz g' = c_tobefnz g"
    "c_fixedgc g' = c_fixedgc g" "c_sweepgc g' = c_sweepgc g" "c_grayagain g' = c_grayagain g" "c_weak g' = c_weak g"
    "c_ephemeron g' = c_ephemeron g" "c_allweak g' = c_allweak g" "c_twups g' = c_twups g"
    "c_mainthread g' = c_mainthread g" "c_running g' = c_running g" "c_registry g' = c_registry g" "c_mt g' = c_mt g"
    "c_gcfinnum g' = c_gcfinnum g" "c_tmname g' = c_tmname g"
proof -
  obtain h zs us where "g' = g\<lparr>c_heap := h, c_upvals := us, c_gray := zs @ c_gray g\<rparr>" using assms unfolding advx_def by blast
  then show "c_currentwhite g' = c_currentwhite g" "c_gcstate g' = c_gcstate g" "c_emergency g' = c_emergency g"
    "c_allgc g' = c_allgc g" "c_finobj g' = c_finobj g" "c_tobefnz g' = c_tobefnz g"
    "c_fixedgc g' = c_fixedgc g" "c_sweepgc g' = c_sweepgc g" "c_grayagain g' = c_grayagain g" "c_weak g' = c_weak g"
    "c_ephemeron g' = c_ephemeron g" "c_allweak g' = c_allweak g" "c_twups g' = c_twups g"
    "c_mainthread g' = c_mainthread g" "c_running g' = c_running g" "c_registry g' = c_registry g" "c_mt g' = c_mt g"
    "c_gcfinnum g' = c_gcfinnum g" "c_tmname g' = c_tmname g"
    by simp_all
qed

lemma advx_upv:
  assumes "advx X g g'" "c_upvals g u = Some uv"
  shows "\<exists>uv'. c_upvals g' u = Some uv' \<and> upv_adv uv uv'"
proof -
  obtain h zs us where "g' = g\<lparr>c_heap := h, c_upvals := us, c_gray := zs @ c_gray g\<rparr>" "rel_option upv_adv (c_upvals g u) (us u)"
    using assms(1) by (auto simp: advx_def)
  then show ?thesis using assms(2) by (auto simp: option_rel_Some1)
qed

lemma advx_upv_back:
  assumes "advx X g g'" "c_upvals g' u = Some uv'"
  shows "\<exists>uv. c_upvals g u = Some uv \<and> upv_adv uv uv'"
proof -
  obtain h zs us where "g' = g\<lparr>c_heap := h, c_upvals := us, c_gray := zs @ c_gray g\<rparr>" "rel_option upv_adv (c_upvals g u) (us u)"
    using assms(1) by (auto simp: advx_def)
  then show ?thesis using assms(2) by (auto simp: option_rel_Some2)
qed

lemma advx_empty: "advx X g g' \<Longrightarrow> empty_ok g a i \<Longrightarrow> empty_ok g' a i"
  unfolding advx_def by blast

lemma advx_marked: "advx X g g' \<Longrightarrow> marked g a \<Longrightarrow> marked g' a"
  by (auto simp: marked_def dest: advx_obj ob_advD(3))

lemma advx_white: "advx X g g' \<Longrightarrow> white g' a \<Longrightarrow> white g a"
  by (auto simp: white_def dest: advx_obj_back ob_advD(3))

lemma advx_listed: "advx X g g' \<Longrightarrow> is_listed g' a = is_listed g a"
proof -
  assume m: "advx X g g'"
  have "is_listed g' a" if "c_heap g a = Some ob" "listed (ob_body ob)" for ob
    using advx_obj [OF m that(1)] shrinks_listed [OF ob_advD(1)] that(2) by (auto simp: is_listed_def)
  moreover have "is_listed g a" if "c_heap g' a = Some ob" "listed (ob_body ob)" for ob
    using advx_obj_back [OF m that(1)] shrinks_listed [OF ob_advD(1)] that(2) by (auto simp: is_listed_def)
  ultimately show ?thesis by (metis is_listed_def)
qed

lemma advx_leaf:
  assumes "advx X g g'" "done_leaf g a"
  shows "done_leaf g' a"
proof -
  obtain ob where ob: "c_heap g a = Some ob" "isblack_m (ob_marked ob)" "\<forall>r\<in>body_refs (ob_body ob). marked g r"
    using assms(2) by (auto simp: done_leaf_def)
  then obtain ob' where o: "c_heap g' a = Some ob'" "ob_adv ob ob'" using advx_obj [OF assms(1)] by blast
  have "isblack_m (ob_marked ob')" by (rule ob_advD(5) [OF o(2) ob(2)])
  moreover have "\<forall>r\<in>body_refs (ob_body ob'). marked g' r"
    using ob(3) advx_marked [OF assms(1)] shrinks_refs [OF ob_advD(1) [OF o(2)]] by blast
  ultimately show ?thesis unfolding done_leaf_def using o(1) by blast
qed

lemma newly_split:
  assumes "advx X g g'" "advx Y g' g''"
  shows "newly g g'' a \<longleftrightarrow> newly g g' a \<or> newly g' g'' a"
proof -
  have "white g a \<Longrightarrow> white g' a \<or> marked g' a"
    using advx_obj [OF assms(1)] unfolding white_def marked_def by blast
  then show ?thesis
    using advx_marked [OF assms(2)] advx_white [OF assms(1)] unfolding newly_def by blast
qed

lemma advx_trans:
  assumes 1: "advx X g g'" and 2: "advx Y g' g''"
  shows "advx (X \<union> Y) g g''"
proof -
  obtain h zs us where g': "g' = g\<lparr>c_heap := h, c_upvals := us, c_gray := zs @ c_gray g\<rparr>" "distinct zs"
    "\<forall>a. rel_option ob_adv (c_heap g a) (h a)" "\<forall>a. a \<in> set zs \<longleftrightarrow> newly g g' a \<and> is_listed g a"
    "\<forall>a. newly g g' a \<and> \<not> is_listed g a \<and> a \<notin> X \<longrightarrow> done_leaf g' a" "\<forall>u. rel_option upv_adv (c_upvals g u) (us u)"
    using 1 unfolding advx_def by blast
  obtain h2 zs2 us2 where g'': "g'' = g'\<lparr>c_heap := h2, c_upvals := us2, c_gray := zs2 @ c_gray g'\<rparr>" "distinct zs2"
    "\<forall>a. rel_option ob_adv (c_heap g' a) (h2 a)" "\<forall>a. a \<in> set zs2 \<longleftrightarrow> newly g' g'' a \<and> is_listed g' a"
    "\<forall>a. newly g' g'' a \<and> \<not> is_listed g' a \<and> a \<notin> Y \<longrightarrow> done_leaf g'' a" "\<forall>u. rel_option upv_adv (c_upvals g' u) (us2 u)"
    using 2 unfolding advx_def by blast
  note ns = newly_split [OF 1 2] and li = advx_listed [OF 1]
  have e: "g'' = g\<lparr>c_heap := h2, c_upvals := us2, c_gray := (zs2 @ zs) @ c_gray g\<rparr>" using g''(1) g'(1) by simp
  have "set zs2 \<inter> set zs = {}" using g'(4) g''(4) by (auto simp: newly_def white_def marked_def)
  then have d: "distinct (zs2 @ zs)" using g'(2) g''(2) by auto
  have r: "rel_option ob_adv (c_heap g a) (h2 a)" for a
  proof -
    have "rel_option ob_adv (c_heap g a) (h a)" "rel_option ob_adv (h a) (h2 a)"
      using g'(3) g''(3) by (simp_all add: g'(1))
    then show ?thesis using ob_adv_trans by (auto simp: rel_option_iff split: option.splits)
  qed
  have v: "rel_option upv_adv (c_upvals g u) (us2 u)" for u
  proof -
    have "rel_option upv_adv (c_upvals g u) (us u)" "rel_option upv_adv (us u) (us2 u)"
      using g'(6) g''(6) by (simp_all add: g'(1))
    then show ?thesis using upv_adv_trans by (auto simp: rel_option_iff split: option.splits)
  qed
  have z: "a \<in> set (zs2 @ zs) \<longleftrightarrow> newly g g'' a \<and> is_listed g a" for a
    using g'(4) g''(4) ns li by auto
  have l: "done_leaf g'' a" if "newly g g'' a" "\<not> is_listed g a" "a \<notin> X \<union> Y" for a
    using that ns li g'(5) g''(5) advx_leaf [OF 2] by blast
  have k: "empty_ok g'' a i" if "empty_ok g a i" for a i using 1 2 that unfolding advx_def by blast
  show ?thesis by (rule advxI [OF e d v r z l k])
qed

lemma adv_trans: "adv g g' \<Longrightarrow> adv g' g'' \<Longrightarrow> adv g g''"
  using advx_trans [of "{}" g g' "{}" g''] by simp

lemma advx_finish:
  assumes "advx X g g'" "\<forall>a\<in>X. is_listed g a \<or> done_leaf g' a"
  shows "adv g g'"
  using assms unfolding advx_def by blast

section \<open>Marking succeeds\<close>

text \<open>
  \<open>base\<close>: no reference of an object leads out of the store, no white object is black, and the fuel is enough. It depends on
  the store and the lists of all objects only, and marking keeps it.
\<close>

definition sane :: "cstate \<Rightarrow> bool" where
  "sane g \<longleftrightarrow> finite (dom (c_heap g)) \<and> card (dom (c_heap g)) < gc_fuel g \<and>
     (\<forall>a ob. c_heap g a = Some ob \<longrightarrow> body_refs (ob_body ob) \<subseteq> dom (c_heap g) \<and> (iswhite_m (ob_marked ob) \<longrightarrow> \<not> isblack_m (ob_marked ob)))"

lemma saneD:
  assumes "sane g" "c_heap g a = Some ob"
  shows "body_refs (ob_body ob) \<subseteq> dom (c_heap g)" "iswhite_m (ob_marked ob) \<Longrightarrow> \<not> isblack_m (ob_marked ob)"
  using assms unfolding sane_def by blast+

lemma gc_fuel_mkx: "advx X g g' \<Longrightarrow> gc_fuel g' = gc_fuel g"
  using advx_fields by (simp add: gc_fuel_def)

lemma advx_sane:
  assumes "advx X g g'" "sane g"
  shows "sane g'"
proof -
  have d: "dom (c_heap g') = dom (c_heap g)" using advx_dom [OF assms(1)] .
  have "body_refs (ob_body ob') \<subseteq> dom (c_heap g') \<and> (iswhite_m (ob_marked ob') \<longrightarrow> \<not> isblack_m (ob_marked ob'))"
    if h: "c_heap g' a = Some ob'" for a ob'
  proof -
    obtain ob where ob: "c_heap g a = Some ob" "ob_adv ob ob'" using advx_obj_back [OF assms(1) h] by blast
    have "iswhite_m (ob_marked ob') \<longrightarrow> \<not> isblack_m (ob_marked ob')"
      using ob_advD(3,4) [OF ob(2)] saneD(2) [OF assms(2) ob(1)] by metis
    then show ?thesis using saneD(1) [OF assms(2) ob(1)] shrinks_refs [OF ob_advD(1) [OF ob(2)]] d by auto
  qed
  then show ?thesis using assms(2) d gc_fuel_mkx [OF assms(1)] unfolding sane_def by simp
qed

definition whites :: "cstate \<Rightarrow> nat set" where
  "whites g = {a. white g a}"

lemma whites_finite: "sane g \<Longrightarrow> finite (whites g)"
  by (rule finite_subset [of _ "dom (c_heap g)"]) (auto simp: whites_def white_def sane_def)

lemma whites_bound: "sane g \<Longrightarrow> card (whites g) < gc_fuel g"
proof -
  assume s: "sane g"
  have "card (whites g) \<le> card (dom (c_heap g))"
    using s by (intro card_mono) (auto simp: whites_def white_def sane_def)
  then show ?thesis using s by (simp add: sane_def)
qed

lemma whites_less:
  assumes "sane g" "advx X g g'" "newly g g' a"
  shows "card (whites g') < card (whites g)"
proof (rule psubset_card_mono [OF whites_finite [OF assms(1)]])
  have "whites g' \<subseteq> whites g" using advx_white [OF assms(2)] by (auto simp: whites_def)
  moreover have "a \<in> whites g - whites g'" using assms(3) by (auto simp: newly_def whites_def white_def marked_def)
  ultimately show "whites g' \<subset> whites g" by blast
qed

lemma whites_le:
  assumes "sane g" "advx X g g'"
  shows "card (whites g') \<le> card (whites g)"
  by (rule card_mono [OF whites_finite [OF assms(1)]]) (use advx_white [OF assms(2)] in \<open>auto simp: whites_def\<close>)

text \<open>Single changes of colour.\<close>

lemma recolor_eq: "c_heap g a = Some ob \<Longrightarrow> recolor f a g = Inr (put_o a (ob\<lparr>ob_marked := f (ob_marked ob)\<rparr>) g)"
  by (simp add: recolor_def deref_o_def)

lemma first_gray:
  assumes "c_heap g a = Some ob" "iswhite_m (ob_marked ob)" "\<not> isblack_m (ob_marked ob)"
    "zs = (if listed (ob_body ob) then [a] else [])"
  shows "advx {a} g ((put_o a (ob\<lparr>ob_marked := white2gray_m (ob_marked ob)\<rparr>) g)\<lparr>c_gray := zs @ c_gray g\<rparr>)"
proof -
  let ?h = "(c_heap g)(a \<mapsto> ob\<lparr>ob_marked := white2gray_m (ob_marked ob)\<rparr>)"
  let ?g = "(put_o a (ob\<lparr>ob_marked := white2gray_m (ob_marked ob)\<rparr>) g)\<lparr>c_gray := zs @ c_gray g\<rparr>"
  have g: "?g = g\<lparr>c_heap := ?h, c_upvals := c_upvals g, c_gray := zs @ c_gray g\<rparr>" by (simp add: put_o_def)
  have "ob_adv ob (ob\<lparr>ob_marked := white2gray_m (ob_marked ob)\<rparr>)"
    using assms(2,3) by (simp add: ob_adv_def mark_bits(3))
  then have r: "rel_option ob_adv (c_heap g b) (?h b)" for b
    using assms(1) by (cases "c_heap g b") auto
  have n: "newly g ?g b \<longleftrightarrow> b = a" for b
    using assms(1,2) by (auto simp: newly_def white_def marked_def put_o_def)
  have l: "is_listed g a \<longleftrightarrow> listed (ob_body ob)" using assms(1) by (simp add: is_listed_def)
  have k: "empty_ok ?g b i" if e: "empty_ok g b i" for b i
    using assms(1) by (intro empty_ok_same [OF e]) (auto simp: put_o_def marked_def)
  show ?thesis
    by (rule advxI [OF g _ _ r _ _ k]) (use n l assms(4) in \<open>auto simp: option.rel_refl\<close>)
qed

lemma now_black:
  assumes "c_heap g a = Some ob" "\<not> iswhite_m (ob_marked ob)" "\<not> listed (ob_body ob)"
  shows "adv g (put_o a (ob\<lparr>ob_marked := gray2black_m (ob_marked ob)\<rparr>) g)"
proof -
  let ?h = "(c_heap g)(a \<mapsto> ob\<lparr>ob_marked := gray2black_m (ob_marked ob)\<rparr>)"
  let ?g = "put_o a (ob\<lparr>ob_marked := gray2black_m (ob_marked ob)\<rparr>) g"
  have g: "?g = g\<lparr>c_heap := ?h, c_upvals := c_upvals g, c_gray := [] @ c_gray g\<rparr>" by (simp add: put_o_def)
  have "ob_adv ob (ob\<lparr>ob_marked := gray2black_m (ob_marked ob)\<rparr>)" using assms(2,3) by (simp add: ob_adv_def)
  then have r: "rel_option ob_adv (c_heap g b) (?h b)" for b
    using assms(1) by (cases "c_heap g b") auto
  have n: "\<not> newly g ?g b" for b using assms(1,2) by (auto simp: newly_def white_def marked_def put_o_def)
  have k: "empty_ok ?g b i" if e: "empty_ok g b i" for b i
    using assms(1,2) by (intro empty_ok_same [OF e]) (auto simp: put_o_def marked_def)
  show ?thesis
    by (rule advxI [OF g _ _ r _ _ k]) (use n in \<open>auto simp: option.rel_refl\<close>)
qed

lemma reallymark_ok:
  assumes "sane g" "white g a" "card (whites g) < f"
  shows "okay (reallymarkobject_o f a g) (\<lambda>g'. adv g g' \<and> marked g' a)"
  using assms
proof (induction f arbitrary: g a)
  case (Suc f)
  obtain ob where ob: "c_heap g a = Some ob" "iswhite_m (ob_marked ob)" using Suc.prems(2) by (auto simp: white_def)
  have nb: "\<not> isblack_m (ob_marked ob)" using saneD(2) [OF Suc.prems(1) ob(1)] ob(2) by simp
  define ob1 where "ob1 = ob\<lparr>ob_marked := white2gray_m (ob_marked ob)\<rparr>"
  define g1 where "g1 = put_o a ob1 g"
  have start: "reallymarkobject_o (Suc f) a g = (case ob_body ob of
      Str _ _ \<Rightarrow> recolor gray2black_m a g1
    | Udata mt uv \<Rightarrow>
        res_bind (case mt of
            None \<Rightarrow> Inr g1
          | Some m \<Rightarrow> res_bind (iswhite_o m g1) (\<lambda>w. if w then reallymarkobject_o f m g1 else Inr g1)) (\<lambda>g.
        res_bind (recolor gray2black_m a g) (\<lambda>g.
        res_bind (valiswhite uv g) (\<lambda>w.
          if w then (case uv of VRef b \<Rightarrow> reallymarkobject_o f b g | _ \<Rightarrow> Inr g) else Inr g)))
    | _ \<Rightarrow> Inr (g1\<lparr>c_gray := a # c_gray g1\<rparr>))"
    by (simp only: reallymarkobject_o.simps deref_o_def ob(1) option.case res_bind_Inr recolor_eq [OF ob(1)] g1_def ob1_def)
  have g1: "c_heap g1 a = Some ob1" "ob_body ob1 = ob_body ob" "\<not> iswhite_m (ob_marked ob1)"
    by (simp_all add: g1_def ob1_def put_o_def)
  show ?case
  proof (cases "listed (ob_body ob)")
    case True
    then have "reallymarkobject_o (Suc f) a g = Inr (g1\<lparr>c_gray := a # c_gray g1\<rparr>)"
      unfolding start by (cases "ob_body ob") (auto simp: listed_def)
    moreover have "advx {a} g (g1\<lparr>c_gray := a # c_gray g1\<rparr>)"
      using first_gray [OF ob nb refl] True by (simp add: g1_def ob1_def put_o_def)
    then have "adv g (g1\<lparr>c_gray := a # c_gray g1\<rparr>)"
      by (rule advx_finish) (use True ob(1) in \<open>simp add: is_listed_def\<close>)
    ultimately show ?thesis using g1 by (simp add: marked_def)
  next
    case False
    have m1: "advx {a} g g1" using first_gray [OF ob nb refl] False by (simp add: g1_def ob1_def put_o_def)
    have s1: "sane g1" by (rule advx_sane [OF m1 Suc.prems(1)])
    have w1: "card (whites g1) < f"
      using whites_less [OF Suc.prems(1) m1, of a] Suc.prems(2,3) g1 by (auto simp: newly_def marked_def)
    show ?thesis
    proof (cases "ob_body ob")
      case (Str b bs)
      let ?g = "put_o a (ob1\<lparr>ob_marked := gray2black_m (ob_marked ob1)\<rparr>) g1"
      have m2: "adv g1 ?g" using now_black [OF g1(1,3)] False g1(2) by simp
      have "done_leaf ?g a" using g1(2) Str by (simp add: done_leaf_def put_o_def body_refs_def)
      then have "adv g ?g" using advx_finish [of "{a}" g ?g] advx_trans [OF m1 m2] by simp
      moreover have "marked ?g a" using g1(3) by (simp add: marked_def put_o_def)
      ultimately show ?thesis unfolding start Str using recolor_eq [OF g1(1)] by simp
    next
      case (Udata mt uv)
      have refs: "set_option mt \<union> vrefs uv \<subseteq> dom (c_heap g1)"
        using saneD(1) [OF s1 g1(1)] g1(2) Udata by (simp add: body_refs_def)
      show ?thesis
        unfolding start Udata gcbody.case
      proof (rule okay_bind)
        show "okay (case mt of None \<Rightarrow> Inr g1
            | Some m \<Rightarrow> res_bind (iswhite_o m g1) (\<lambda>w. if w then reallymarkobject_o f m g1 else Inr g1))
          (\<lambda>g2. adv g1 g2 \<and> (\<forall>m\<in>set_option mt. marked g2 m))"
        proof (cases mt)
          case (Some m)
          then have m: "m \<in> dom (c_heap g1)" using refs by simp
          show ?thesis
          proof (cases "white g1 m")
            case True
            then show ?thesis using Some m Suc.IH [OF s1 True w1] by (simp add: iswhite_o_eq)
          next
            case False
            then show ?thesis using Some m not_white [OF m] by (simp add: iswhite_o_eq)
          qed
        qed simp
        fix g2 assume g2: "adv g1 g2 \<and> (\<forall>m\<in>set_option mt. marked g2 m)"
        then have m2: "advx {a} g g2" using advx_trans [OF m1, of "{}" g2] by simp
        obtain ob2 where ob2: "c_heap g2 a = Some ob2" "ob_adv ob1 ob2" using advx_obj [of "{}" g1 g2] g2 g1(1) by blast
        have b2: "ob_body ob2 = Udata mt uv" "\<not> iswhite_m (ob_marked ob2)"
          using ob_advD(1,3) [OF ob2(2)] g1(2,3) Udata by (auto simp: shrinks_def)
        define ob3 where "ob3 = ob2\<lparr>ob_marked := gray2black_m (ob_marked ob2)\<rparr>"
        define g3 where "g3 = put_o a ob3 g2"
        have m23: "adv g2 g3" unfolding g3_def ob3_def by (rule now_black [OF ob2(1) b2(2)]) (simp add: b2 listed_def)
        have m3: "advx {a} g g3" using advx_trans [OF m2 m23] by simp
        have s3: "sane g3" by (rule advx_sane [OF m3 Suc.prems(1)])
        have m13: "adv g1 g3" using adv_trans g2 m23 by blast
        have w3: "card (whites g3) < f" using whites_le [OF s1 m13] w1 by simp
        have refs3: "vrefs uv \<subseteq> dom (c_heap g3)" using refs advx_dom [OF m13] by simp
        have h3: "c_heap g3 a = Some ob3" by (simp add: g3_def put_o_def)
        have fin: "adv g g4 \<and> marked g4 a" if m4: "adv g3 g4" and u: "\<forall>r\<in>vrefs uv. marked g4 r" for g4
        proof -
          obtain ob4 where ob4: "c_heap g4 a = Some ob4" "ob_adv ob3 ob4" using advx_obj [OF m4 h3] by blast
          have "isblack_m (ob_marked ob4)" by (rule ob_advD(5) [OF ob4(2)]) (simp add: ob3_def)
          moreover have "ob_body ob4 = Udata mt uv" using ob_advD(1) [OF ob4(2)] b2 by (simp add: ob3_def shrinks_def)
          moreover have "\<forall>m\<in>set_option mt. marked g4 m" using g2 advx_marked [OF adv_trans [OF m23 m4]] by blast
          ultimately have "done_leaf g4 a" using ob4(1) u by (auto simp: done_leaf_def body_refs_def)
          then have "adv g g4" using advx_finish [of "{a}" g g4] advx_trans [OF m3 m4] by simp
          moreover have "\<not> iswhite_m (ob_marked ob4)" using ob_advD(3) [OF ob4(2)] b2(2) by (auto simp: ob3_def)
          ultimately show ?thesis using ob4(1) by (auto simp: marked_def)
        qed
        have "okay (if \<exists>b. uv = VRef b \<and> white g3 b then (case uv of VRef b \<Rightarrow> reallymarkobject_o f b g3 | _ \<Rightarrow> Inr g3)
            else Inr g3) (\<lambda>g'. adv g g' \<and> marked g' a)"
        proof (cases "\<exists>b. uv = VRef b \<and> white g3 b")
          case True
          then obtain b where b: "uv = VRef b" "white g3 b" by blast
          then show ?thesis using okay_mono [OF Suc.IH [OF s3 b(2) w3]] fin by simp
        next
          case False
          then have "\<forall>r\<in>vrefs uv. marked g3 r" using refs3 not_white by (cases uv) auto
          then have "adv g g3 \<and> marked g3 a" using fin [of g3] by simp
          then show ?thesis by (simp only: False if_False okay_simps)
        qed
        then show "okay (res_bind (recolor gray2black_m a g2) (\<lambda>g. res_bind (valiswhite uv g) (\<lambda>w.
            if w then (case uv of VRef b \<Rightarrow> reallymarkobject_o f b g | _ \<Rightarrow> Inr g) else Inr g))) (\<lambda>g'. adv g g' \<and> marked g' a)"
          unfolding recolor_eq [OF ob2(1)] g3_def [symmetric, unfolded ob3_def] res_bind_Inr valiswhite_eq [OF refs3] .
      qed
    qed (use False in \<open>simp_all add: listed_def\<close>)
  qed
qed simp

lemma markobject_ok:
  assumes "sane g" "a \<in> dom (c_heap g)"
  shows "okay (markobject_o a g) (\<lambda>g'. adv g g' \<and> marked g' a)"
proof (cases "white g a")
  case True
  then show ?thesis
    using reallymark_ok [OF assms(1) True whites_bound [OF assms(1)]] by (simp add: markobject_o_def iswhite_o_eq [OF assms(2)])
next
  case False
  then show ?thesis using not_white [OF assms(2)] by (simp add: markobject_o_def iswhite_o_eq [OF assms(2)])
qed

lemma markvalue_ok:
  assumes "sane g" "vrefs v \<subseteq> dom (c_heap g)"
  shows "okay (markvalue_o v g) (\<lambda>g'. adv g g' \<and> (\<forall>r\<in>vrefs v. marked g' r))"
  using markobject_ok [OF assms(1)] assms(2) by (cases v) (simp_all add: markvalue_o_def)

lemma markobjectN_ok:
  assumes "sane g" "set_option x \<subseteq> dom (c_heap g)"
  shows "okay (markobjectN x g) (\<lambda>g'. adv g g' \<and> (\<forall>r\<in>set_option x. marked g' r))"
  using markobject_ok [OF assms(1)] assms(2) by (cases x) (simp_all add: markobjectN_def)

text \<open>Loops that mark.\<close>

lemma mark_fold:
  assumes "sane g" "(\<Union>x\<in>set xs. R x) \<subseteq> dom (c_heap g)"
    "\<And>x g. sane g \<Longrightarrow> R x \<subseteq> dom (c_heap g) \<Longrightarrow> okay (f x g) (\<lambda>g'. adv g g' \<and> (\<forall>r\<in>R x. marked g' r))"
  shows "okay (res_fold f xs g) (\<lambda>g'. adv g g' \<and> (\<forall>r\<in>(\<Union>x\<in>set xs. R x). marked g' r))"
proof -
  have "okay (res_fold f xs g) (\<lambda>g'. (sane g' \<and> dom (c_heap g') = dom (c_heap g)) \<and> adv g g' \<and>
      (\<forall>x\<in>set xs. \<forall>r\<in>R x. marked g' r))"
  proof (rule okay_fold [where Q = "\<lambda>x g'. \<forall>r\<in>R x. marked g' r" and K = adv])
    fix x s assume "x \<in> set xs" and s: "sane s \<and> dom (c_heap s) = dom (c_heap g)"
    then have "R x \<subseteq> dom (c_heap s)" using assms(2) by auto
    then show "okay (f x s) (\<lambda>s'. (sane s' \<and> dom (c_heap s') = dom (c_heap g)) \<and> adv s s' \<and> (\<forall>r\<in>R x. marked s' r))"
      by (intro okay_mono [OF assms(3)]) (use s advx_sane advx_dom in \<open>metis+\<close>)
  next
    fix x s s' assume "adv s s'" "\<forall>r\<in>R x. marked s r"
    then show "\<forall>r\<in>R x. marked s' r" using advx_marked by blast
  qed (use assms(1) in \<open>simp_all add: adv_trans\<close>)
  then show ?thesis by (rule okay_mono) blast
qed

lemma markvalues_ok:
  assumes "sane g" "lrefs vs \<subseteq> dom (c_heap g)"
  shows "okay (res_fold markvalue_o vs g) (\<lambda>g'. adv g g' \<and> (\<forall>r\<in>lrefs vs. marked g' r))"
  using mark_fold [of g vrefs vs markvalue_o] assms markvalue_ok by (simp add: lrefs_def)

lemma markobjectsN_ok:
  assumes "sane g" "orefs xs \<subseteq> dom (c_heap g)"
  shows "okay (res_fold markobjectN xs g) (\<lambda>g'. adv g g' \<and> (\<forall>r\<in>orefs xs. marked g' r))"
  using mark_fold [of g set_option xs markobjectN] assms markobjectN_ok by (simp add: orefs_def)

lemma markbeingfnz_ok:
  assumes "sane g" "set (c_tobefnz g) \<subseteq> dom (c_heap g)"
  shows "okay (markbeingfnz g) (\<lambda>g'. adv g g' \<and> (\<forall>r\<in>set (c_tobefnz g). marked g' r))"
  unfolding markbeingfnz_def
  using mark_fold [of g "\<lambda>a. {a}" "c_tobefnz g" markobject_o] assms markobject_ok by simp

text \<open>\<open>cleared\<close>: a value that can be cleared from a weak table.\<close>

definition cleared :: "cstate \<Rightarrow> gval \<Rightarrow> bool" where
  "cleared g v \<longleftrightarrow> (\<exists>a ob. v = VRef a \<and> c_heap g a = Some ob \<and> \<not> is_string (ob_body ob) \<and> iswhite_m (ob_marked ob))"

definition vmarked :: "cstate \<Rightarrow> gval \<Rightarrow> bool" where
  "vmarked g v \<longleftrightarrow> (\<forall>r\<in>vrefs v. marked g r)"

lemma advx_vmarked: "advx X g g' \<Longrightarrow> vmarked g v \<Longrightarrow> vmarked g' v"
  using advx_marked unfolding vmarked_def by blast

text \<open>Only strings are marked, which changes no list.\<close>

definition adv_strings :: "cstate \<Rightarrow> cstate \<Rightarrow> bool" where
  "adv_strings g g' \<longleftrightarrow> adv g g' \<and> (\<forall>a. newly g g' a \<longrightarrow> (\<exists>ob. c_heap g a = Some ob \<and> is_string (ob_body ob)))"

lemma adv_strings_refl [simp]: "adv_strings g g"
  by (auto simp: adv_strings_def newly_def white_def marked_def)

lemma adv_strings_trans: "adv_strings g g' \<Longrightarrow> adv_strings g' g'' \<Longrightarrow> adv_strings g g''"
proof -
  assume 1: "adv_strings g g'" and 2: "adv_strings g' g''"
  then have m: "adv g g'" "adv g' g''" by (simp_all add: adv_strings_def)
  have "\<exists>ob. c_heap g a = Some ob \<and> is_string (ob_body ob)" if n: "newly g g'' a" for a
  proof (cases "newly g g' a")
    case True
    then show ?thesis using 1 by (simp add: adv_strings_def)
  next
    case False
    then have "newly g' g'' a" using n newly_split [OF m] by simp
    then obtain ob where "c_heap g' a = Some ob" "is_string (ob_body ob)" using 2 by (auto simp: adv_strings_def)
    then show ?thesis using advx_obj_back [OF m(1)] ob_advD(1) shrinks_string by metis
  qed
  then show ?thesis using adv_trans [OF m] by (simp add: adv_strings_def)
qed

lemma reallymark_string:
  assumes "c_heap g a = Some ob" "ob_body ob = Str b bs"
  shows "reallymarkobject_o (Suc f) a g =
    Inr (put_o a (ob\<lparr>ob_marked := gray2black_m (white2gray_m (ob_marked ob))\<rparr>) g)"
  using assms by (simp add: deref_o_def recolor_eq put_o_def)

lemma iscleared_ok:
  assumes "sane g" "vrefs v \<subseteq> dom (c_heap g)"
  shows "okay (iscleared v g) (\<lambda>(c, g'). adv_strings g g' \<and> (if c then cleared g' v else vmarked g' v))"
proof (cases v)
  case (VRef a)
  then obtain ob where ob: "c_heap g a = Some ob" using assms(2) by auto
  show ?thesis
  proof (cases "is_string (ob_body ob)")
    case True
    have "okay (markobject_o a g) (\<lambda>g'. adv g g' \<and> marked g' a)" by (rule markobject_ok) (use assms ob in auto)
    moreover have "adv_strings g g'" if m: "markobject_o a g = Inr g'" "adv g g'" for g'
    proof -
      have "newly g g' c \<longrightarrow> c = a" for c
      proof (cases "white g a")
        case True
        obtain b bs where b: "ob_body ob = Str b bs" using \<open>is_string (ob_body ob)\<close> by (auto simp: is_string_def split: gcbody.splits)
        have f: "gc_fuel g = Suc (gc_fuel g - 1)" by (simp add: gc_fuel_def)
        have "markobject_o a g = reallymarkobject_o (Suc (gc_fuel g - 1)) a g"
          using True ob f by (simp add: markobject_o_def iswhite_o_eq domI)
        then have "g' = put_o a (ob\<lparr>ob_marked := gray2black_m (white2gray_m (ob_marked ob))\<rparr>) g"
          using m(1) unfolding reallymark_string [OF ob b] by simp
        then show ?thesis by (auto simp: newly_def white_def marked_def put_o_def)
      next
        case False
        then have "g' = g" using m(1) ob by (simp add: markobject_o_def iswhite_o_eq domI)
        then show ?thesis by (auto simp: newly_def white_def marked_def)
      qed
      then show ?thesis using m(2) ob True by (auto simp: adv_strings_def)
    qed
    ultimately have "okay (markobject_o a g) (\<lambda>g'. adv_strings g g' \<and> marked g' a)" by (auto simp: okay_def)
    then have "okay (res_bind (markobject_o a g) (\<lambda>g. Inr (False, g)))
        (\<lambda>(c, g'). adv_strings g g' \<and> (if c then cleared g' v else vmarked g' v))"
      by (rule okay_bind) (simp add: VRef vmarked_def)
    then show ?thesis using VRef ob True by (simp add: iscleared_def deref_o_def)
  next
    case False
    then show ?thesis using VRef ob by (auto simp: iscleared_def deref_o_def cleared_def vmarked_def marked_def)
  qed
qed (simp_all add: iscleared_def vmarked_def)

lemma not_cleared: "vmarked g v \<Longrightarrow> \<not> cleared g v"
  by (auto simp: vmarked_def cleared_def marked_def)

end
