(* ===== verification/LuaGcTrav.thy ===== *)
theory LuaGcTrav
  imports LuaGcMark
begin

text \<open>
  Traversal: each function that goes through an object stays in the relation \<open>adv\<close>, and afterwards the references that it
  has to mark are marked.
\<close>

section \<open>Changes of bodies\<close>

lemma adv_heap:
  assumes "c_heap g a = Some ob" "shrinks (ob_body ob) b"
    "\<And>h i. b = Tab h \<Longrightarrow> i < length (h_node h) \<Longrightarrow> snd (h_node h ! i) = VNil \<Longrightarrow> empty_ok g a i \<Longrightarrow>
      \<forall>r\<in>vrefs (fst (h_node h ! i)). marked g r"
  shows "adv g (put_o a (ob\<lparr>ob_body := b\<rparr>) g)"
proof -
  let ?ob = "ob\<lparr>ob_body := b\<rparr>" and ?h = "(c_heap g)(a \<mapsto> ob\<lparr>ob_body := b\<rparr>)"
  have g: "put_o a ?ob g = g\<lparr>c_heap := ?h, c_upvals := c_upvals g, c_gray := [] @ c_gray g\<rparr>" by (simp add: put_o_def)
  have "ob_adv ob ?ob" using assms(2) by (simp add: ob_adv_def)
  then have r: "rel_option ob_adv (c_heap g c) (?h c)" for c using assms(1) by (cases "c_heap g c") auto
  have n: "\<not> newly g (put_o a ?ob g) c" for c using assms(1) by (auto simp: newly_def white_def marked_def put_o_def)
  have m: "marked (put_o a ?ob g) c \<longleftrightarrow> marked g c" for c using assms(1) by (auto simp: marked_def put_o_def)
  have k: "empty_ok (put_o a ?ob g) c i" if e: "empty_ok g c i" for c i
  proof -
    obtain oc h where o: "c_heap g c = Some oc" "ob_body oc = Tab h" "i < length (h_node h)"
      "snd (h_node h ! i) = VNil \<longrightarrow> (\<forall>r\<in>vrefs (fst (h_node h ! i)). marked g r)"
      using e unfolding empty_ok_def by blast
    show ?thesis
    proof (cases "c = a")
      case True
      then obtain h' where h': "b = Tab h'" "tab_shrinks h h'" using assms(1,2) o(1,2) by (auto simp: shrinks_def)
      have "length (h_node h') = length (h_node h)" using h'(2) by (auto simp: tab_shrinks_def dest: list_all2_lengthD)
      then have "snd (h_node h' ! i) = VNil \<longrightarrow> (\<forall>r\<in>vrefs (fst (h_node h' ! i)). marked g r)" "i < length (h_node h')"
        using assms(3) [OF h'(1)] o(3) e True by auto
      then show ?thesis using h'(1) True unfolding empty_ok_def m by (auto simp: put_o_def)
    next
      case False
      then show ?thesis using o unfolding empty_ok_def m by (auto simp: put_o_def)
    qed
  qed
  show ?thesis
    by (rule advxI [OF g _ _ r _ _ k]) (use n in \<open>auto simp: option.rel_refl\<close>)
qed

lemma put_body_eq: "c_heap g a = Some ob \<Longrightarrow> put_body a b g = Inr (put_o a (ob\<lparr>ob_body := b\<rparr>) g)"
  by (simp add: put_body_def deref_o_def)

lemma newly_put_body: "c_heap g a = Some ob \<Longrightarrow> \<not> newly g (put_o a (ob\<lparr>ob_body := b\<rparr>) g) c"
  by (auto simp: newly_def white_def marked_def put_o_def)

lemma newly_same: "\<not> newly g g a"
  by (auto simp: newly_def white_def marked_def)

lemma adv_touch:
  assumes "c_upvals g u = Some uv"
  shows "adv g (put_u u (uv\<lparr>u_touched := True\<rparr>) g)"
proof -
  let ?us = "(c_upvals g)(u \<mapsto> uv\<lparr>u_touched := True\<rparr>)"
  let ?g = "put_u u (uv\<lparr>u_touched := True\<rparr>) g"
  have g: "?g = g\<lparr>c_heap := c_heap g, c_upvals := ?us, c_gray := [] @ c_gray g\<rparr>" by (simp add: put_u_def)
  have r: "rel_option upv_adv (c_upvals g v) (?us v)" for v
    using assms by (cases "c_upvals g v") (auto simp: upv_adv_def)
  have n: "\<not> newly g ?g c" for c by (auto simp: newly_def white_def marked_def put_u_def)
  have k: "empty_ok ?g b i" if e: "empty_ok g b i" for b i by (intro empty_ok_same [OF e]) (auto simp: put_u_def marked_def)
  show ?thesis
    by (rule advxI [OF g _ r _ _ _ k]) (use n in \<open>auto simp: option.rel_refl\<close>)
qed

section \<open>Tables\<close>

definition tab :: "cstate \<Rightarrow> nat \<Rightarrow> gctable \<Rightarrow> bool" where
  "tab g a h \<longleftrightarrow> (\<exists>ob. c_heap g a = Some ob \<and> ob_body ob = Tab h)"

definition is_tab :: "cstate \<Rightarrow> nat \<Rightarrow> bool" where
  "is_tab g a \<longleftrightarrow> (\<exists>h. tab g a h)"

lemma tab_fun: "tab g a h \<Longrightarrow> tab g a h' \<Longrightarrow> h' = h"
  by (auto simp: tab_def)

lemma tab_at_eq: "tab g a h \<Longrightarrow> tab_at a g = Inr h"
  by (auto simp: tab_def tab_at_def deref_o_def)

lemma adv_tab:
  assumes "advx X g g'" "tab g a h"
  shows "\<exists>h'. tab g' a h' \<and> tab_shrinks h h'"
proof -
  obtain ob where ob: "c_heap g a = Some ob" "ob_body ob = Tab h" using assms(2) by (auto simp: tab_def)
  obtain ob' where "c_heap g' a = Some ob'" "ob_adv ob ob'" using advx_obj [OF assms(1) ob(1)] by blast
  then show ?thesis using ob_advD(1) [of ob ob'] ob(2) by (auto simp: tab_def shrinks_def)
qed

lemma adv_tab_back:
  assumes "advx X g g'" "tab g' a h'"
  shows "\<exists>h. tab g a h \<and> tab_shrinks h h'"
proof -
  obtain ob' where ob': "c_heap g' a = Some ob'" "ob_body ob' = Tab h'" using assms(2) by (auto simp: tab_def)
  obtain ob where ob: "c_heap g a = Some ob" "ob_adv ob ob'" using advx_obj_back [OF assms(1) ob'(1)] by blast
  have "shrinks (ob_body ob) (Tab h')" using ob_advD(1) [OF ob(2)] ob'(2) by simp
  then obtain h where "ob_body ob = Tab h" "tab_shrinks h h'"
    by (cases "ob_body ob") (auto simp: shrinks_def)
  then show ?thesis using ob(1) by (auto simp: tab_def)
qed

lemma adv_is_tab: "advx X g g' \<Longrightarrow> is_tab g a \<Longrightarrow> is_tab g' a"
  using adv_tab unfolding is_tab_def by blast

lemma tab_shrinks_length: "tab_shrinks h h' \<Longrightarrow> length (h_node h') = length (h_node h) \<and> length (h_array h') = length (h_array h)"
  by (auto simp: tab_shrinks_def dest: list_all2_lengthD)

lemma tab_shrinks_nth:
  "tab_shrinks h h' \<Longrightarrow> i < length (h_node h) \<Longrightarrow> entry_shrinks (h_node h ! i) (h_node h' ! i)"
  "tab_shrinks h h' \<Longrightarrow> i < length (h_array h) \<Longrightarrow> val_shrinks (h_array h ! i) (h_array h' ! i)"
  by (auto simp: tab_shrinks_def list_all2_conv_all_nth)

lemma put_tab:
  assumes "tab g a h"
  shows "\<exists>ob. put_body a (Tab h') g = Inr (put_o a (ob\<lparr>ob_body := Tab h'\<rparr>) g) \<and> c_heap g a = Some ob \<and> ob_body ob = Tab h"
  using assms put_body_eq by (auto simp: tab_def)

lemma put_tab_ok:
  assumes "tab g a h" "tab_shrinks h h'"
    "\<And>i. i < length (h_node h') \<Longrightarrow> snd (h_node h' ! i) = VNil \<Longrightarrow> empty_ok g a i \<Longrightarrow> \<forall>r\<in>vrefs (fst (h_node h' ! i)). marked g r"
  shows "okay (put_body a (Tab h') g) (\<lambda>g'. adv g g' \<and> (\<forall>c. \<not> newly g g' c) \<and> tab g' a h')"
proof -
  obtain ob where ob: "put_body a (Tab h') g = Inr (put_o a (ob\<lparr>ob_body := Tab h'\<rparr>) g)" "c_heap g a = Some ob" "ob_body ob = Tab h"
    using put_tab [OF assms(1)] by blast
  have "adv g (put_o a (ob\<lparr>ob_body := Tab h'\<rparr>) g)"
    by (rule adv_heap [OF ob(2)]) (use assms(2,3) ob(3) in \<open>auto simp: shrinks_def\<close>)
  then show ?thesis using newly_put_body [OF ob(2)] by (simp add: ob(1) tab_def put_o_def)
qed

lemma tab_empty_ok:
  "tab g a h \<Longrightarrow> empty_ok g a i \<longleftrightarrow> i < length (h_node h) \<and> (snd (h_node h ! i) = VNil \<longrightarrow> vmarked g (fst (h_node h ! i)))"
  by (auto simp: tab_def empty_ok_def vmarked_def)

text \<open>An entry loses its value, or only its key becomes a dead one.\<close>

lemma empty_entry:
  assumes "tab g a h" "i < length (h_node h)" "vrefs k = {}" "k = fst (h_node h ! i) \<or> (\<exists>b. k = VDead b)"
  shows "tab_shrinks h (h\<lparr>h_node := (h_node h)[i := (k, VNil)]\<rparr>)"
    "j < length (h_node h) \<Longrightarrow> snd ((h_node h)[i := (k, VNil)] ! j) = VNil \<Longrightarrow> empty_ok g a j \<Longrightarrow>
      \<forall>r\<in>vrefs (fst ((h_node h)[i := (k, VNil)] ! j)). marked g r"
proof -
  show "tab_shrinks h (h\<lparr>h_node := (h_node h)[i := (k, VNil)]\<rparr>)"
    using assms(2,4) by (auto simp: tab_shrinks_def list_all2_conv_all_nth nth_list_update entry_shrinks_def)
  assume "j < length (h_node h)" "snd ((h_node h)[i := (k, VNil)] ! j) = VNil" "empty_ok g a j"
  then show "\<forall>r\<in>vrefs (fst ((h_node h)[i := (k, VNil)] ! j)). marked g r"
    using assms(1,3) by (cases "j = i") (auto simp: tab_empty_ok vmarked_def)
qed

lemma set_slot_ok:
  assumes "tab g a h" "i < length (h_array h)"
  shows "okay (set_slot a i VNil g) (\<lambda>g'. adv g g' \<and> (\<forall>c. \<not> newly g g' c) \<and> tab g' a (h\<lparr>h_array := (h_array h)[i := VNil]\<rparr>))"
  unfolding set_slot_def tab_at_eq [OF assms(1)] res_bind_Inr
proof (rule put_tab_ok [OF assms(1)])
  show "tab_shrinks h (h\<lparr>h_array := (h_array h)[i := VNil]\<rparr>)"
    using assms(2) by (auto simp: tab_shrinks_def list_all2_conv_all_nth nth_list_update val_shrinks_def)
qed (use tab_empty_ok [OF assms(1)] in \<open>simp add: vmarked_def\<close>)

text \<open>Types, for all objects of the store.\<close>

definition entry_wf :: "gval \<times> gval \<Rightarrow> bool" where
  "entry_wf e \<longleftrightarrow> snd e = VNil \<or> fst e \<noteq> VNil \<and> (\<forall>b. fst e \<noteq> VDead b)"

definition body_ok :: "cstate \<Rightarrow> gcbody \<Rightarrow> bool" where
  "body_ok g b \<longleftrightarrow>
     (case b of
        Udata mt uv \<Rightarrow> (\<forall>m\<in>set_option mt. is_tab g m)
      | Tab h \<Rightarrow> (\<forall>m\<in>set_option (h_metatable h). is_tab g m) \<and> (\<forall>e\<in>set (h_node h). entry_wf e)
      | Thr th \<Rightarrow> th_top th \<le> length (th_stack th) \<and> (\<not> th_built th \<longrightarrow> th_stack th = [] \<and> th_openupval th = [])
      | _ \<Rightarrow> True)"

definition typed :: "cstate \<Rightarrow> bool" where
  "typed g \<longleftrightarrow> (\<forall>a ob. c_heap g a = Some ob \<longrightarrow> body_ok g (ob_body ob))"

lemma entry_shrinks_wf: "entry_shrinks e e' \<Longrightarrow> entry_wf e \<Longrightarrow> entry_wf e'"
  by (auto simp: entry_shrinks_def entry_wf_def)

lemma shrinks_body_ok:
  assumes "shrinks b b'" "body_ok g b" "\<And>a. is_tab g a \<Longrightarrow> is_tab g' a"
  shows "body_ok g' b'"
proof (cases b)
  case (Tab h)
  then obtain h' where h': "b' = Tab h'" "tab_shrinks h h'" using assms(1) by (auto simp: shrinks_def)
  have "entry_wf e'" if e': "e' \<in> set (h_node h')" for e'
  proof -
    obtain i where i: "i < length (h_node h')" "e' = h_node h' ! i" using e' by (auto simp: in_set_conv_nth)
    then have "entry_shrinks (h_node h ! i) e'" "i < length (h_node h)"
      using tab_shrinks_nth(1) [OF h'(2)] tab_shrinks_length [OF h'(2)] by auto
    then show ?thesis using entry_shrinks_wf assms(2) Tab by (auto simp: body_ok_def)
  qed
  then show ?thesis using assms(2,3) Tab h' by (auto simp: body_ok_def tab_shrinks_def)
next
  case (Thr th)
  then obtain th' where "b' = Thr th'" "thr_shrinks th th'" using assms(1) by (auto simp: shrinks_def)
  then show ?thesis using assms(2) Thr by (auto simp: body_ok_def thr_shrinks_def)
qed (use assms in \<open>auto simp: shrinks_def body_ok_def\<close>)

lemma adv_typed:
  assumes "advx X g g'" "typed g"
  shows "typed g'"
  unfolding typed_def
proof (intro allI impI)
  fix a ob' assume "c_heap g' a = Some ob'"
  then obtain ob where ob: "c_heap g a = Some ob" "ob_adv ob ob'" using advx_obj_back [OF assms(1)] by blast
  have "body_ok g (ob_body ob)" using assms(2) ob(1) by (simp add: typed_def)
  then show "body_ok g' (ob_body ob')" using shrinks_body_ok [OF ob_advD(1) [OF ob(2)]] adv_is_tab [OF assms(1)] by blast
qed

lemma tab_refs:
  assumes "sane g" "tab g a h"
  shows "set_option (h_metatable h) \<subseteq> dom (c_heap g)" "lrefs (h_array h) \<subseteq> dom (c_heap g)"
    "i < length (h_node h) \<Longrightarrow>
      vrefs (fst (h_node h ! i)) \<subseteq> dom (c_heap g) \<and> vrefs (snd (h_node h ! i)) \<subseteq> dom (c_heap g)"
proof -
  have r: "body_refs (Tab h) \<subseteq> dom (c_heap g)" using assms saneD(1) by (fastforce simp: tab_def)
  then show "set_option (h_metatable h) \<subseteq> dom (c_heap g)" "lrefs (h_array h) \<subseteq> dom (c_heap g)"
    by (auto simp: body_refs_def)
  assume "i < length (h_node h)"
  then have "entry_refs (h_node h ! i) \<subseteq> body_refs (Tab h)" by (auto simp: body_refs_def)
  then show "vrefs (fst (h_node h ! i)) \<subseteq> dom (c_heap g) \<and> vrefs (snd (h_node h ! i)) \<subseteq> dom (c_heap g)"
    using r by (auto simp: entry_refs_def)
qed

section \<open>Entries\<close>

definition ent :: "cstate \<Rightarrow> nat \<Rightarrow> nat \<Rightarrow> (gval \<times> gval \<Rightarrow> bool) \<Rightarrow> bool" where
  "ent g a i C \<longleftrightarrow> (\<exists>h. tab g a h \<and> i < length (h_node h) \<and> C (h_node h ! i))"

abbreviation "key_marked g e \<equiv> vmarked g (fst e)"
abbreviation "both_marked g e \<equiv> vmarked g (fst e) \<and> vmarked g (snd e)"

lemma entry_shrinks_marked:
  assumes "entry_shrinks e e'" "advx X g g'"
  shows "key_marked g e \<Longrightarrow> key_marked g' e'" "vmarked g (snd e) \<Longrightarrow> vmarked g' (snd e')"
proof -
  show "key_marked g e \<Longrightarrow> key_marked g' e'" using assms advx_vmarked by (auto simp: entry_shrinks_def vmarked_def)
  show "vmarked g (snd e) \<Longrightarrow> vmarked g' (snd e')" using assms advx_vmarked by (auto simp: entry_shrinks_def vmarked_def)
qed

lemma adv_ent:
  assumes "advx X g g'" "ent g a i C" "\<And>e e'. entry_shrinks e e' \<Longrightarrow> C e \<Longrightarrow> C' e'"
  shows "ent g' a i C'"
proof -
  obtain h where h: "tab g a h" "i < length (h_node h)" "C (h_node h ! i)" using assms(2) by (auto simp: ent_def)
  obtain h' where h': "tab g' a h'" "tab_shrinks h h'" using adv_tab [OF assms(1) h(1)] by blast
  have "C' (h_node h' ! i)" by (rule assms(3) [OF tab_shrinks_nth(1) [OF h'(2) h(2)] h(3)])
  then show ?thesis using h(2) h' tab_shrinks_length unfolding ent_def by metis
qed

lemma adv_both: "advx X g g' \<Longrightarrow> ent g a i (both_marked g) \<Longrightarrow> ent g' a i (both_marked g')"
  by (frule (1) adv_ent [where C' = "both_marked g'"]) (metis entry_shrinks_marked, assumption)

lemma adv_key: "advx X g g' \<Longrightarrow> ent g a i (key_marked g) \<Longrightarrow> ent g' a i (key_marked g')"
  by (frule (1) adv_ent [where C' = "key_marked g'"]) (metis entry_shrinks_marked(1), assumption)

lemma removeentry_ok:
  assumes "sane g" "tab g a h" "i < length (h_node h)" "snd (h_node h ! i) = VNil"
  shows "okay (removeentry a i g) (\<lambda>g'. adv g g' \<and> (\<forall>c. \<not> newly g g' c) \<and>
    ent g' a i (\<lambda>e. both_marked g' e \<and> snd e = VNil))"
proof -
  obtain k where e: "h_node h ! i = (k, VNil)" using assms(4) by (cases "h_node h ! i") auto
  have "vrefs k \<subseteq> dom (c_heap g)" using tab_refs(3) [OF assms(1-3)] e by simp
  then have w: "valiswhite k g = Inr (\<exists>b. k = VRef b \<and> white g b)" by (rule valiswhite_eq)
  show ?thesis
  proof (cases "\<exists>b. k = VRef b \<and> white g b")
    case True
    then obtain b where b: "k = VRef b" "white g b" by blast
    let ?h = "h\<lparr>h_node := (h_node h)[i := (VDead b, VNil)]\<rparr>"
    have r: "removeentry a i g = put_body a (Tab ?h) g"
      using b w [unfolded b(1)] by (simp add: removeentry_def tab_at_eq [OF assms(2)] e lassert_def set_entry_def)
    have s: "tab_shrinks h ?h" by (rule empty_entry(1) [OF assms(2,3)]) simp_all
    have "okay (put_body a (Tab ?h) g) (\<lambda>g'. adv g g' \<and> (\<forall>c. \<not> newly g g' c) \<and> tab g' a ?h)"
      by (rule put_tab_ok [OF assms(2) s]) (use empty_entry(2) [OF assms(2,3), of "VDead b"] in auto)
    then show ?thesis
      unfolding r by (rule okay_mono) (use assms(3) in \<open>auto simp: ent_def vmarked_def intro!: exI [of _ ?h]\<close>)
  next
    case False
    have v: "vmarked g k" using False \<open>vrefs k \<subseteq> dom (c_heap g)\<close> not_white by (cases k) (auto simp: vmarked_def)
    have "removeentry a i g = Inr g" using w [unfolded eq_False [THEN iffD2, OF False]] by (simp add: removeentry_def tab_at_eq [OF assms(2)] e lassert_def)
    moreover have "ent g a i (\<lambda>e. both_marked g e \<and> snd e = VNil)"
      unfolding ent_def by (intro exI [of _ h]) (use assms(2,3) e v in \<open>simp add: vmarked_def\<close>)
    ultimately show ?thesis by (simp add: newly_same)
  qed
qed

lemma entry_checks:
  assumes "typed g" "tab g a h" "i < length (h_node h)"
  shows "checkdeadkey (h_node h ! i) = Inr ()" "snd (h_node h ! i) \<noteq> VNil \<Longrightarrow> fst (h_node h ! i) \<noteq> VNil"
proof -
  obtain ob where "c_heap g a = Some ob" "ob_body ob = Tab h" using assms(2) by (auto simp: tab_def)
  then have "body_ok g (Tab h)" using assms(1) by (metis typed_def)
  then have w: "entry_wf (h_node h ! i)" using assms(3) by (simp add: body_ok_def)
  then show "checkdeadkey (h_node h ! i) = Inr ()"
    by (cases "fst (h_node h ! i)") (auto simp: checkdeadkey_def lassert_def entry_wf_def)
  show "snd (h_node h ! i) \<noteq> VNil \<Longrightarrow> fst (h_node h ! i) \<noteq> VNil" using w by (simp add: entry_wf_def)
qed

text \<open>What a step of a loop over a table needs and keeps.\<close>

definition ready :: "nat \<Rightarrow> nat \<Rightarrow> nat \<Rightarrow> cstate \<Rightarrow> bool" where
  "ready a n m g \<longleftrightarrow> sane g \<and> typed g \<and> (\<exists>h. tab g a h \<and> length (h_node h) = n \<and> length (h_array h) = m)"

lemma ready_adv: "advx X g g' \<Longrightarrow> ready a n m g \<Longrightarrow> ready a n m g'"
  unfolding ready_def using advx_sane adv_typed adv_tab tab_shrinks_length by metis

lemma strong_entry_ok:
  assumes "ready a n m g" "i < n"
  shows "okay (strong_entry a i g) (\<lambda>g'. adv g g' \<and> ent g' a i (both_marked g'))"
proof -
  obtain h where s: "sane g" "typed g" and h: "tab g a h" "length (h_node h) = n" using assms(1) by (auto simp: ready_def)
  have i: "i < length (h_node h)" using assms(2) h(2) by simp
  obtain k v where e: "h_node h ! i = (k, v)" by (cases "h_node h ! i")
  note c = entry_checks [OF s(2) h(1) i, unfolded e]
  have r: "vrefs k \<subseteq> dom (c_heap g)" "vrefs v \<subseteq> dom (c_heap g)" using tab_refs(3) [OF s(1) h(1) i] e by simp_all
  show ?thesis
  proof (cases "v = VNil")
    case True
    then have "strong_entry a i g = removeentry a i g" using c by (simp add: strong_entry_def tab_at_eq [OF h(1)] e)
    then show ?thesis
      using removeentry_ok [OF s(1) h(1) i] e True by (auto elim!: okay_mono simp: ent_def)
  next
    case False
    then have "strong_entry a i g = res_bind (markvalue_o k g) (markvalue_o v)"
      using c by (simp add: strong_entry_def tab_at_eq [OF h(1)] e lassert_def)
    moreover have "okay (res_bind (markvalue_o k g) (markvalue_o v)) (\<lambda>g'. adv g g' \<and> vmarked g' k \<and> vmarked g' v)"
    proof (rule okay_bind [OF markvalue_ok [OF s(1) r(1)]])
      fix g1 assume g1: "adv g g1 \<and> (\<forall>r\<in>vrefs k. marked g1 r)"
      have "okay (markvalue_o v g1) (\<lambda>g'. adv g1 g' \<and> (\<forall>r\<in>vrefs v. marked g' r))"
        by (rule markvalue_ok) (use g1 s(1) r(2) advx_sane advx_dom in \<open>blast, metis\<close>)
      then show "okay (markvalue_o v g1) (\<lambda>g'. adv g g' \<and> vmarked g' k \<and> vmarked g' v)"
        by (rule okay_mono) (use g1 adv_trans advx_marked in \<open>auto simp: vmarked_def\<close>)
    qed
    ultimately show ?thesis
    proof (simp only:, elim okay_mono conjE, intro conjI)
      fix g' assume a: "adv g g'" and "vmarked g' k" "vmarked g' v"
      then have "ent g a i (\<lambda>e. both_marked g' e)" using h(1) i e by (auto simp: ent_def)
      then show "ent g' a i (both_marked g')"
        by (rule adv_ent [OF a]) (auto simp: entry_shrinks_def vmarked_def)
    qed
  qed
qed

text \<open>The loops over the entries of tables: of strong tables, of tables with weak values, and of ephemeron tables.\<close>

lemma ent_after:
  assumes "advx X g g'" "tab g a h" "i < length (h_node h)" "h_node h ! i = (k, v)" "vmarked g' k"
  shows "ent g' a i (key_marked g')" "vmarked g' v \<Longrightarrow> ent g' a i (both_marked g')"
proof -
  have e: "ent g a i (\<lambda>e. e = (k, v))" using assms(2-4) by (auto simp: ent_def)
  show "ent g' a i (key_marked g')"
    by (rule adv_ent [OF assms(1) e]) (use assms(5) in \<open>auto simp: entry_shrinks_def vmarked_def\<close>)
  show "vmarked g' v \<Longrightarrow> ent g' a i (both_marked g')"
    by (rule adv_ent [OF assms(1) e]) (use assms(5) in \<open>auto simp: entry_shrinks_def vmarked_def\<close>)
qed

lemma ready_tab:
  assumes "ready a n m g" "i < n"
  obtains h k v where "sane g" "typed g" "tab g a h" "i < length (h_node h)" "h_node h ! i = (k, v)"
    "vrefs k \<subseteq> dom (c_heap g)" "vrefs v \<subseteq> dom (c_heap g)" "checkdeadkey (k, v) = Inr ()" "v \<noteq> VNil \<Longrightarrow> k \<noteq> VNil"
proof -
  obtain h where s: "sane g" "typed g" and h: "tab g a h" "length (h_node h) = n" using assms(1) by (auto simp: ready_def)
  have i: "i < length (h_node h)" using assms(2) h(2) by simp
  obtain k v where e: "h_node h ! i = (k, v)" by (cases "h_node h ! i")
  show thesis
    by (rule that [OF s h(1) i e]) (use tab_refs(3) [OF s(1) h(1) i] entry_checks [OF s(2) h(1) i] e in auto)
qed

lemma ent_nil: "ent g a i (\<lambda>e. both_marked g e \<and> snd e = VNil) \<Longrightarrow> ent g a i (both_marked g) \<and> ent g a i (key_marked g)"
  by (auto simp: ent_def)

section \<open>Strong tables\<close>

lemma strong_loop:
  assumes "ready a n m g"
  shows "okay (res_fold (strong_entry a) [0..<n] g) (\<lambda>g'. adv g g' \<and> (\<forall>i<n. ent g' a i (both_marked g')))"
proof -
  have "okay (res_fold (strong_entry a) [0..<n] g) (\<lambda>g'. ready a n m g' \<and> adv g g' \<and> (\<forall>i\<in>set [0..<n]. ent g' a i (both_marked g')))"
  proof (rule okay_fold)
    fix i s assume "i \<in> set [0..<n]" "ready a n m s"
    then show "okay (strong_entry a i s) (\<lambda>s'. ready a n m s' \<and> adv s s' \<and> ent s' a i (both_marked s'))"
      using strong_entry_ok [of a n m s i] by (auto elim!: okay_mono intro: ready_adv)
  next
    fix i s s' assume "adv s s'" "ent s a i (both_marked s)"
    then show "ent s' a i (both_marked s')" by (rule adv_both)
  qed (use assms adv_trans in auto)
  then show ?thesis by (rule okay_mono) auto
qed

section \<open>Weak values\<close>

lemma weakvalue_step_ok:
  assumes "ready a n m (snd s)" "i < n"
  shows "okay (weakvalue_step a i s) (\<lambda>s'. adv (snd s) (snd s') \<and> (fst s \<longrightarrow> fst s') \<and>
    ent (snd s') a i (key_marked (snd s')) \<and> (\<not> fst s' \<longrightarrow> ent (snd s') a i (both_marked (snd s'))))"
proof -
  obtain c g where s: "s = (c, g)" by (cases s)
  have rd: "ready a n m g" using assms(1) s by simp
  obtain h k v where g: "sane g" "typed g" and h: "tab g a h" "i < length (h_node h)" "h_node h ! i = (k, v)"
    and r: "vrefs k \<subseteq> dom (c_heap g)" "vrefs v \<subseteq> dom (c_heap g)" and d: "checkdeadkey (k, v) = Inr ()" "v \<noteq> VNil \<Longrightarrow> k \<noteq> VNil"
    by (rule ready_tab [OF rd assms(2)]) blast
  show ?thesis
  proof (cases "v = VNil")
    case True
    then have e: "weakvalue_step a i s = res_bind (removeentry a i g) (\<lambda>g. Inr (c, g))"
      using d by (simp add: weakvalue_step_def s tab_at_eq [OF h(1)] h(3))
    show ?thesis
      unfolding e by (rule okay_bind [OF removeentry_ok [OF g(1) h(1,2)]]) (use h(3) True s ent_nil in auto)
  next
    case False
    then have e: "weakvalue_step a i s = res_bind (markvalue_o k g) (\<lambda>g. if c then Inr (True, g) else iscleared v g)"
      using d by (simp add: weakvalue_step_def s tab_at_eq [OF h(1)] h(3) lassert_def)
    show ?thesis
      unfolding e
    proof (rule okay_bind [OF markvalue_ok [OF g(1) r(1)]])
      fix g1 assume g1: "adv g g1 \<and> (\<forall>r\<in>vrefs k. marked g1 r)"
      then have k: "adv g g1" "vmarked g1 k" by (simp_all add: vmarked_def)
      show "okay (if c then Inr (True, g1) else iscleared v g1) (\<lambda>s'. adv (snd s) (snd s') \<and> (fst s \<longrightarrow> fst s') \<and>
          ent (snd s') a i (key_marked (snd s')) \<and> (\<not> fst s' \<longrightarrow> ent (snd s') a i (both_marked (snd s'))))"
      proof (cases c)
        case True
        then show ?thesis using k ent_after(1) [OF k(1) h k(2)] s by simp
      next
        case False
        have v: "okay (iscleared v g1) (\<lambda>(c, g'). adv_strings g1 g' \<and> (if c then cleared g' v else vmarked g' v))"
          by (rule iscleared_ok [OF advx_sane [OF k(1) g(1)]]) (use r(2) advx_dom [OF k(1)] in simp)
        have "okay (iscleared v g1) (\<lambda>s'. adv (snd s) (snd s') \<and> (fst s \<longrightarrow> fst s') \<and>
          ent (snd s') a i (key_marked (snd s')) \<and> (\<not> fst s' \<longrightarrow> ent (snd s') a i (both_marked (snd s'))))"
        proof (rule okay_mono [OF v], clarify)
          fix c' g2 assume w: "adv_strings g1 g2" "if c' then cleared g2 v else vmarked g2 v"
          have a12: "adv g1 g2" using w(1) by (simp add: adv_strings_def)
          have a2: "adv g g2" by (rule adv_trans [OF k(1) a12])
          have k2: "vmarked g2 k" by (rule advx_vmarked [OF a12 k(2)])
          show "adv (snd s) (snd (c', g2)) \<and> (fst s \<longrightarrow> fst (c', g2)) \<and>
            ent (snd (c', g2)) a i (key_marked (snd (c', g2))) \<and>
            (\<not> fst (c', g2) \<longrightarrow> ent (snd (c', g2)) a i (both_marked (snd (c', g2))))"
            using a2 False s ent_after [OF a2 h k2] w(2) by simp
        qed
        then show ?thesis using False by simp
      qed
    qed
  qed
qed

lemma weakvalue_loop:
  assumes "ready a n m g"
  shows "okay (res_fold (weakvalue_step a) [0..<n] (c, g)) (\<lambda>(c', g'). adv g g' \<and> (c \<longrightarrow> c') \<and>
    (\<forall>i<n. ent g' a i (key_marked g')) \<and> (\<not> c' \<longrightarrow> (\<forall>i<n. ent g' a i (both_marked g'))))"
proof -
  let ?Q = "\<lambda>i s. ent (snd s) a i (key_marked (snd s)) \<and> (\<not> fst s \<longrightarrow> ent (snd s) a i (both_marked (snd s)))"
  have "okay (res_fold (weakvalue_step a) [0..<n] (c, g)) (\<lambda>s'. ready a n m (snd s') \<and>
      (adv (snd (c, g)) (snd s') \<and> (fst (c, g) \<longrightarrow> fst s')) \<and> (\<forall>i\<in>set [0..<n]. ?Q i s'))"
  proof (rule okay_fold)
    fix i and s :: "bool \<times> cstate" assume "i \<in> set [0..<n]" "ready a n m (snd s)"
    then show "okay (weakvalue_step a i s) (\<lambda>s'. ready a n m (snd s') \<and> (adv (snd s) (snd s') \<and> (fst s \<longrightarrow> fst s')) \<and> ?Q i s')"
      using weakvalue_step_ok [of a n m s i] by (auto elim!: okay_mono intro: ready_adv)
  next
    fix i and s s' :: "bool \<times> cstate" assume s: "adv (snd s) (snd s') \<and> (fst s \<longrightarrow> fst s')" "?Q i s"
    then show "?Q i s'" using adv_key [of "{}" "snd s" "snd s'"] adv_both [of "{}" "snd s" "snd s'"] by blast
  qed (use assms adv_trans in auto)
  then show ?thesis by (rule okay_mono) auto
qed

section \<open>Ephemerons\<close>

text \<open>An entry of an ephemeron table, and what the flags of its traversal say of the entries that it has passed.\<close>

definition eph_pair :: "cstate \<Rightarrow> gval \<times> gval \<Rightarrow> bool" where
  "eph_pair g e \<longleftrightarrow> (if snd e = VNil then key_marked g e else cleared g (fst e) \<or> both_marked g e)"

definition eph_flags :: "eph \<times> cstate \<Rightarrow> nat \<Rightarrow> nat \<Rightarrow> bool" where
  "eph_flags s a i \<longleftrightarrow> (case s of (e, g) \<Rightarrow>
     empty_ok g a i \<and> (\<not> e_ww e \<longrightarrow> ent g a i (\<lambda>p. vmarked g (snd p))) \<and>
     (\<not> e_ww e \<and> \<not> e_clears e \<longrightarrow> ent g a i (both_marked g)) \<and> (\<not> e_marked e \<longrightarrow> ent g a i (eph_pair g)))"

text \<open>What a step of the traversal does to the flags and to the state: when nothing is marked, at most strings are.\<close>

definition eph_adv :: "eph \<times> cstate \<Rightarrow> eph \<times> cstate \<Rightarrow> bool" where
  "eph_adv s s' \<longleftrightarrow> adv (snd s) (snd s') \<and> (e_marked (fst s) \<longrightarrow> e_marked (fst s')) \<and> (e_clears (fst s) \<longrightarrow> e_clears (fst s')) \<and>
     (e_ww (fst s) \<longrightarrow> e_ww (fst s')) \<and> (\<not> e_marked (fst s') \<longrightarrow> adv_strings (snd s) (snd s')) \<and>
     (e_marked (fst s') \<and> \<not> e_marked (fst s) \<longrightarrow> (\<exists>c. newly (snd s) (snd s') c))"

lemma eph_adv_refl [simp]: "eph_adv s s"
  by (simp add: eph_adv_def)

lemma eph_adv_trans:
  assumes "eph_adv s s'" "eph_adv s' s''"
  shows "eph_adv s s''"
proof -
  have a: "adv (snd s) (snd s')" "adv (snd s') (snd s'')" using assms by (auto simp: eph_adv_def)
  have "\<exists>c. newly (snd s) (snd s'') c" if "e_marked (fst s'')" "\<not> e_marked (fst s)"
    using assms that newly_split [OF a] unfolding eph_adv_def by blast
  then show ?thesis using assms adv_trans [OF a] adv_strings_trans unfolding eph_adv_def by blast
qed

lemma cleared_strings:
  assumes "adv_strings g g'" "cleared g v"
  shows "cleared g' v"
proof -
  obtain a ob where a: "v = VRef a" "c_heap g a = Some ob" "\<not> is_string (ob_body ob)" "iswhite_m (ob_marked ob)"
    using assms(2) by (auto simp: cleared_def)
  have adv: "adv g g'" using assms(1) by (simp add: adv_strings_def)
  obtain ob' where ob': "c_heap g' a = Some ob'" "ob_adv ob ob'" using advx_obj [OF adv a(2)] by blast
  have "\<not> newly g g' a" using assms(1) a(2,3) by (auto simp: adv_strings_def)
  then have "iswhite_m (ob_marked ob')" using a(2,4) ob'(1) by (auto simp: newly_def white_def marked_def)
  moreover have "\<not> is_string (ob_body ob')" using shrinks_string [OF ob_advD(1) [OF ob'(2)]] a(3) by simp
  ultimately show ?thesis using a(1) ob'(1) by (auto simp: cleared_def)
qed

lemma eph_pair_strings:
  assumes "adv_strings g g'" "ent g a i (eph_pair g)"
  shows "ent g' a i (eph_pair g')"
proof -
  have adv: "adv g g'" using assms(1) by (simp add: adv_strings_def)
  obtain h where h: "tab g a h" "i < length (h_node h)" "eph_pair g (h_node h ! i)" using assms(2) by (auto simp: ent_def)
  obtain h' where h': "tab g' a h'" "tab_shrinks h h'" using adv_tab [OF adv h(1)] by blast
  have len: "i < length (h_node h')" using h(2) tab_shrinks_length [OF h'(2)] by simp
  have s: "entry_shrinks (h_node h ! i) (h_node h' ! i)" by (rule tab_shrinks_nth(1) [OF h'(2) h(2)])
  have "empty_ok g a i" using h by (auto simp: tab_empty_ok eph_pair_def)
  then have "empty_ok g' a i" by (rule advx_empty [OF adv])
  then have nil: "snd (h_node h' ! i) = VNil \<Longrightarrow> key_marked g' (h_node h' ! i)" using h'(1) by (simp add: tab_empty_ok)
  have "eph_pair g' (h_node h' ! i)"
  proof (cases "snd (h_node h' ! i) = VNil")
    case True
    then show ?thesis using nil by (simp add: eph_pair_def)
  next
    case False
    then have e: "h_node h' ! i = h_node h ! i" using s by (auto simp: entry_shrinks_def)
    then show ?thesis using h(3) False cleared_strings [OF assms(1)] advx_vmarked [OF adv] by (auto simp: eph_pair_def)
  qed
  then show ?thesis using h'(1) len by (auto simp: ent_def)
qed

lemma adv_value: "advx X g g' \<Longrightarrow> ent g a i (\<lambda>p. vmarked g (snd p)) \<Longrightarrow> ent g' a i (\<lambda>p. vmarked g' (snd p))"
  by (frule (1) adv_ent [where C' = "\<lambda>p. vmarked g' (snd p)"]) (metis entry_shrinks_marked(2), assumption)

lemma eph_flags_adv:
  assumes "eph_adv s s'" "eph_flags s a i"
  shows "eph_flags s' a i"
proof -
  have adv: "adv (snd s) (snd s')" using assms(1) by (simp add: eph_adv_def)
  note keep = advx_empty [OF adv] adv_value [OF adv] adv_both [OF adv] eph_pair_strings
  show ?thesis using assms keep unfolding eph_flags_def eph_adv_def by (cases s; cases s') auto
qed

lemma eph_mark_ok:
  assumes "sane g" "vrefs v \<subseteq> dom (c_heap g)"
  shows "okay (eph_mark v (e, g)) (\<lambda>s'. eph_adv (e, g) s' \<and> vmarked (snd s') v)"
proof (cases "\<exists>b. v = VRef b \<and> white g b")
  case True
  then obtain b where b: "v = VRef b" "white g b" by blast
  have e: "eph_mark v (e, g) = res_bind (markvalue_o v g) (\<lambda>g. Inr (e\<lparr>e_marked := True\<rparr>, g))"
    unfolding eph_mark_def by (simp only: valiswhite_eq [OF assms(2)] prod.case res_bind_Inr True if_True)
  show ?thesis
    unfolding e
  proof (rule okay_bind [OF markvalue_ok [OF assms]])
    fix g' assume g': "adv g g' \<and> (\<forall>r\<in>vrefs v. marked g' r)"
    then have "newly g g' b" using b by (simp add: newly_def)
    then show "okay (Inr (e\<lparr>e_marked := True\<rparr>, g')) (\<lambda>s'. eph_adv (e, g) s' \<and> vmarked (snd s') v)"
      using g' by (auto simp: eph_adv_def vmarked_def)
  qed
next
  case False
  have e: "eph_mark v (e, g) = Inr (e, g)"
    unfolding eph_mark_def by (simp only: valiswhite_eq [OF assms(2)] prod.case res_bind_Inr False if_False)
  have "vmarked g v" using False assms(2) not_white by (cases v) (auto simp: vmarked_def)
  then show ?thesis unfolding e by simp
qed

lemma eph_flagsI:
  assumes "empty_ok g a i" "ent g a i (both_marked g)"
  shows "eph_flags (e, g) a i"
  using assms by (auto simp: eph_flags_def ent_def eph_pair_def)

lemma eph_entry_ok:
  assumes "ready a n m (snd s)" "i < n"
  shows "okay (eph_entry a i s) (\<lambda>s'. eph_adv s s' \<and> eph_flags s' a i)"
proof -
  obtain e g where s: "s = (e, g)" by (cases s)
  have rd: "ready a n m g" using assms(1) s by simp
  obtain h k v where g: "sane g" "typed g" and h: "tab g a h" "i < length (h_node h)" "h_node h ! i = (k, v)"
    and r: "vrefs k \<subseteq> dom (c_heap g)" "vrefs v \<subseteq> dom (c_heap g)" and d: "checkdeadkey (k, v) = Inr ()" "v \<noteq> VNil \<Longrightarrow> k \<noteq> VNil"
    by (rule ready_tab [OF rd assms(2)]) blast
  show ?thesis
  proof (cases "v = VNil")
    case True
    then have e: "eph_entry a i s = res_bind (removeentry a i g) (\<lambda>g. Inr (e, g))"
      using d by (simp add: eph_entry_def s tab_at_eq [OF h(1)] h(3))
    show ?thesis
      unfolding e
    proof (rule okay_bind [OF removeentry_ok [OF g(1) h(1,2)]])
      show "snd (h_node h ! i) = VNil" using h(3) True by simp
      fix g' assume g': "adv g g' \<and> (\<forall>c. \<not> newly g g' c) \<and> ent g' a i (\<lambda>e. both_marked g' e \<and> snd e = VNil)"
      then have "empty_ok g' a i" by (auto simp: ent_def tab_empty_ok)
      then have "eph_flags (e, g') a i" using ent_nil g' by (intro eph_flagsI) auto
      moreover have "adv_strings g g'" using g' by (simp add: adv_strings_def)
      ultimately show "okay (Inr (e, g')) (\<lambda>s'. eph_adv s s' \<and> eph_flags s' a i)"
        using g' s by (simp add: eph_adv_def)
    qed
  next
    case False
    then have e: "eph_entry a i s = res_bind (iscleared k g) (\<lambda>(c, g).
        if c then res_bind (valiswhite v g) (\<lambda>w. Inr (e\<lparr>e_clears := True, e_ww := e_ww e \<or> w\<rparr>, g)) else eph_mark v (e, g))"
      using d by (simp add: eph_entry_def s tab_at_eq [OF h(1)] h(3))
    have ok0: "empty_ok g a i" using h False by (simp add: tab_empty_ok)
    show ?thesis
      unfolding e
    proof (rule okay_bind [OF iscleared_ok [OF g(1) r(1)]])
      fix z assume z: "case z of (c, g') \<Rightarrow> adv_strings g g' \<and> (if c then cleared g' k else vmarked g' k)"
      obtain c g1 where z': "z = (c, g1)" by (cases z)
      have st: "adv_strings g g1" and a1: "adv g g1" using z z' by (simp_all add: adv_strings_def)
      have s1: "sane g1" by (rule advx_sane [OF a1 g(1)])
      have r1: "vrefs v \<subseteq> dom (c_heap g1)" using r(2) advx_dom [OF a1] by simp
      have ok1: "empty_ok g1 a i" by (rule advx_empty [OF a1 ok0])
      show "okay (case z of (c, g) \<Rightarrow>
          if c then res_bind (valiswhite v g) (\<lambda>w. Inr (e\<lparr>e_clears := True, e_ww := e_ww e \<or> w\<rparr>, g)) else eph_mark v (e, g))
        (\<lambda>s'. eph_adv s s' \<and> eph_flags s' a i)"
      proof (cases c)
        case True
        let ?w = "\<exists>b. v = VRef b \<and> white g1 b"
        let ?e = "e\<lparr>e_clears := True, e_ww := e_ww e \<or> ?w\<rparr>"
        have cl: "cleared g1 k" using z z' True by simp
        have h0: "ent g a i (\<lambda>p. p = (k, v))" using h by (auto simp: ent_def)
        have val: "ent g1 a i (\<lambda>p. vmarked g1 (snd p))" if "\<not> ?w"
        proof -
          have "vmarked g1 v" using that r1 not_white by (cases v) (auto simp: vmarked_def)
          then show ?thesis by (intro adv_ent [OF a1 h0]) (auto simp: entry_shrinks_def vmarked_def)
        qed
        have "ent g a i (\<lambda>p. p = (k, v) \<and> empty_ok g1 a i)" using h ok1 by (auto simp: ent_def)
        have pair: "ent g1 a i (eph_pair g1)"
        proof -
          obtain h1 where h1: "tab g1 a h1" "tab_shrinks h h1" using adv_tab [OF a1 h(1)] by blast
          have l: "i < length (h_node h1)" using h(2) tab_shrinks_length [OF h1(2)] by simp
          have "entry_shrinks (k, v) (h_node h1 ! i)" using tab_shrinks_nth(1) [OF h1(2) h(2)] h(3) by simp
          then have "eph_pair g1 (h_node h1 ! i)"
            using ok1 cl h1(1) False by (auto simp: eph_pair_def entry_shrinks_def tab_empty_ok)
          then show ?thesis using h1(1) l by (auto simp: ent_def)
        qed
        have "eph_flags (?e, g1) a i" using ok1 val pair by (auto simp: eph_flags_def)
        moreover have "eph_adv s (?e, g1)" using st a1 s by (simp add: eph_adv_def)
        ultimately have "okay (Inr (?e, g1)) (\<lambda>s'. eph_adv s s' \<and> eph_flags s' a i)" by simp
        then show ?thesis unfolding z' prod.case using True by (simp only: valiswhite_eq [OF r1] res_bind_Inr if_True)
      next
        case False
        have k1: "vmarked g1 k" using z z' False by simp
        have "eph_adv s (e, g1)" using st a1 s by (simp add: eph_adv_def)
        then have "okay (eph_mark v (e, g1)) (\<lambda>s'. eph_adv s s' \<and> eph_flags s' a i)"
        proof (intro okay_mono [OF eph_mark_ok [OF s1 r1]])
          fix s' assume s': "eph_adv (e, g1) s' \<and> vmarked (snd s') v" and s01: "eph_adv s (e, g1)"
          have a12: "adv g1 (snd s')" using s' by (simp add: eph_adv_def)
          have a2: "adv g (snd s')" by (rule adv_trans [OF a1 a12])
          have "ent (snd s') a i (both_marked (snd s'))"
            by (rule ent_after(2) [OF a2 h advx_vmarked [OF a12 k1]]) (use s' in simp)
          then have "eph_flags (fst s', snd s') a i" by (rule eph_flagsI [OF advx_empty [OF a12 ok1]])
          then show "eph_adv s s' \<and> eph_flags s' a i" using eph_adv_trans [OF s01] s' by simp
        qed
        then show ?thesis using False z' by simp
      qed
    qed
  qed
qed

lemma eph_array:
  assumes "sane g" "lrefs vs \<subseteq> dom (c_heap g)"
  shows "okay (res_fold eph_mark vs (e, g)) (\<lambda>s'. eph_adv (e, g) s' \<and> (\<forall>r\<in>lrefs vs. marked (snd s') r))"
proof -
  let ?I = "\<lambda>s. sane (snd s) \<and> lrefs vs \<subseteq> dom (c_heap (snd s))"
  have "okay (res_fold eph_mark vs (e, g)) (\<lambda>s'. ?I s' \<and> eph_adv (e, g) s' \<and> (\<forall>v\<in>set vs. vmarked (snd s') v))"
  proof (rule okay_fold)
    fix v and s :: "eph \<times> cstate" assume v: "v \<in> set vs" and s: "?I s"
    have "okay (eph_mark v (fst s, snd s)) (\<lambda>s'. eph_adv (fst s, snd s) s' \<and> vmarked (snd s') v)"
      by (rule eph_mark_ok) (use s v in \<open>auto simp: lrefs_def\<close>)
    then show "okay (eph_mark v s) (\<lambda>s'. ?I s' \<and> eph_adv s s' \<and> vmarked (snd s') v)"
      using s advx_sane advx_dom unfolding prod.collapse by (elim okay_mono) (metis eph_adv_def)
  next
    fix v and s s' :: "eph \<times> cstate" assume "eph_adv s s'" "vmarked (snd s) v"
    then show "vmarked (snd s') v" using advx_vmarked unfolding eph_adv_def by blast
  qed (use assms eph_adv_trans in auto)
  then show ?thesis by (rule okay_mono) (auto simp: lrefs_def vmarked_def)
qed

lemma eph_loop:
  assumes "ready a n m g"
  shows "okay (res_fold (eph_entry a) [0..<n] (e, g)) (\<lambda>s'. eph_adv (e, g) s' \<and> (\<forall>i<n. eph_flags s' a i))"
proof -
  have "okay (res_fold (eph_entry a) [0..<n] (e, g)) (\<lambda>s'. ready a n m (snd s') \<and> eph_adv (e, g) s' \<and>
      (\<forall>i\<in>set [0..<n]. eph_flags s' a i))"
  proof (rule okay_fold)
    fix i and s :: "eph \<times> cstate" assume "i \<in> set [0..<n]" "ready a n m (snd s)"
    then show "okay (eph_entry a i s) (\<lambda>s'. ready a n m (snd s') \<and> eph_adv s s' \<and> eph_flags s' a i)"
      using eph_entry_ok [of a n m s i] by (auto elim!: okay_mono simp: eph_adv_def intro: ready_adv)
  next
    fix i s s' assume "eph_adv s s'" "eph_flags s a i"
    then show "eph_flags s' a i" by (rule eph_flags_adv)
  qed (use assms eph_adv_trans in auto)
  then show ?thesis by (rule okay_mono) auto
qed

end
