(* ===== verification/LuaGcInv.thy ===== *)
theory LuaGcInv
  imports LuaGcTrav
begin

text \<open>
  The invariant of the mark phase. Every marked object is \<open>settled\<close> (what it refers to is marked), or in one of the lists of gray
  objects that are still to be visited or cleared, or just being traversed. \<open>P\<close> are the objects that the atomic phase visits
  again, \<open>xs\<close> those being traversed, and \<open>T\<close> the threads whose open upvalues \<open>remarkupvals\<close> has still to look at.
\<close>

section \<open>Threads and upvalues\<close>

definition thr :: "cstate \<Rightarrow> nat \<Rightarrow> gcthread \<Rightarrow> bool" where
  "thr g t th \<longleftrightarrow> (\<exists>ob. c_heap g t = Some ob \<and> ob_body ob = Thr th)"

lemma thr_fun: "thr g t th \<Longrightarrow> thr g t th' \<Longrightarrow> th' = th"
  by (auto simp: thr_def)

lemma thr_at_eq: "thr g t th \<Longrightarrow> thr_at t g = Inr th"
  by (auto simp: thr_def thr_at_def deref_o_def)

lemma adv_thr:
  assumes "advx X g g'" "thr g t th"
  shows "\<exists>th'. thr g' t th' \<and> thr_shrinks th th'"
proof -
  obtain ob where ob: "c_heap g t = Some ob" "ob_body ob = Thr th" using assms(2) by (auto simp: thr_def)
  obtain ob' where "c_heap g' t = Some ob'" "ob_adv ob ob'" using advx_obj [OF assms(1) ob(1)] by blast
  then show ?thesis using ob_advD(1) [of ob ob'] ob(2) by (auto simp: thr_def shrinks_def)
qed

lemma adv_thr_back:
  assumes "advx X g g'" "thr g' t th'"
  shows "\<exists>th. thr g t th \<and> thr_shrinks th th'"
proof -
  obtain ob' where ob': "c_heap g' t = Some ob'" "ob_body ob' = Thr th'" using assms(2) by (auto simp: thr_def)
  obtain ob where ob: "c_heap g t = Some ob" "ob_adv ob ob'" using advx_obj_back [OF assms(1) ob'(1)] by blast
  have "shrinks (ob_body ob) (Thr th')" using ob_advD(1) [OF ob(2)] ob'(2) by simp
  then obtain th where "ob_body ob = Thr th" "thr_shrinks th th'" by (cases "ob_body ob") (auto simp: shrinks_def)
  then show ?thesis using ob(1) by (auto simp: thr_def)
qed

lemma thr_shrinksD:
  assumes "thr_shrinks th th'"
  shows "th_top th' = th_top th" "th_openupval th' = th_openupval th" "th_built th' = th_built th"
    "i < th_top th \<Longrightarrow> i < length (th_stack th') \<Longrightarrow> th_stack th' ! i = th_stack th ! i"
  using assms by (auto simp: thr_shrinks_def)

lemma typed_thr: "typed g \<Longrightarrow> thr g t th \<Longrightarrow> th_top th \<le> length (th_stack th) \<and> (\<not> th_built th \<longrightarrow> th_stack th = [] \<and> th_openupval th = [])"
  by (fastforce simp: typed_def thr_def body_ok_def)

definition uwf :: "cstate \<Rightarrow> bool" where
  "uwf g \<longleftrightarrow>
     (\<forall>u uv t i. c_upvals g u = Some uv \<longrightarrow> u_open uv = Some (t, i) \<longrightarrow>
        (\<exists>th. thr g t th \<and> u \<in> set (th_openupval th) \<and> i < th_top th)) \<and>
     (\<forall>u uv. c_upvals g u = Some uv \<longrightarrow> u_open uv = None \<longrightarrow> vrefs (u_value uv) \<subseteq> dom (c_heap g)) \<and>
     (\<forall>t th u. thr g t th \<longrightarrow> u \<in> set (th_openupval th) \<longrightarrow> (\<exists>uv i. c_upvals g u = Some uv \<and> u_open uv = Some (t, i))) \<and>
     (\<forall>a ob. c_heap g a = Some ob \<longrightarrow> body_upvals (ob_body ob) \<subseteq> dom (c_upvals g))"

lemma uwfD:
  assumes "uwf g"
  shows "c_upvals g u = Some uv \<Longrightarrow> u_open uv = Some (t, i) \<Longrightarrow> \<exists>th. thr g t th \<and> u \<in> set (th_openupval th) \<and> i < th_top th"
    "c_upvals g u = Some uv \<Longrightarrow> u_open uv = None \<Longrightarrow> vrefs (u_value uv) \<subseteq> dom (c_heap g)"
    "thr g t th \<Longrightarrow> u \<in> set (th_openupval th) \<Longrightarrow> \<exists>uv i. c_upvals g u = Some uv \<and> u_open uv = Some (t, i)"
    "c_heap g a = Some ob \<Longrightarrow> body_upvals (ob_body ob) \<subseteq> dom (c_upvals g)"
  using assms unfolding uwf_def by blast+

lemma upv_advD: "upv_adv uv uv' \<Longrightarrow> u_open uv' = u_open uv \<and> u_value uv' = u_value uv \<and> (u_touched uv \<longrightarrow> u_touched uv')"
  by (auto simp: upv_adv_def)

lemma adv_uwf:
  assumes "advx X g g'" "uwf g"
  shows "uwf g'"
proof -
  have 1: "\<exists>th'. thr g' t th' \<and> u \<in> set (th_openupval th') \<and> i < th_top th'"
    if h: "c_upvals g' u = Some uv'" "u_open uv' = Some (t, i)" for u uv' t i
  proof -
    obtain uv where uv: "c_upvals g u = Some uv" "upv_adv uv uv'" using advx_upv_back [OF assms(1) h(1)] by blast
    have "u_open uv = Some (t, i)" using upv_advD [OF uv(2)] h(2) by simp
    then obtain th where th: "thr g t th" "u \<in> set (th_openupval th)" "i < th_top th"
      using uwfD(1) [OF assms(2) uv(1)] by blast
    then show ?thesis using adv_thr [OF assms(1) th(1)] thr_shrinksD by metis
  qed
  have 2: "vrefs (u_value uv') \<subseteq> dom (c_heap g')" if h: "c_upvals g' u = Some uv'" "u_open uv' = None" for u uv'
  proof -
    obtain uv where uv: "c_upvals g u = Some uv" "upv_adv uv uv'" using advx_upv_back [OF assms(1) h(1)] by blast
    have "u_open uv = None" "u_value uv' = u_value uv" using h(2) upv_advD [OF uv(2)] by auto
    then show ?thesis using uwfD(2) [OF assms(2) uv(1)] advx_dom [OF assms(1)] by simp
  qed
  have 3: "\<exists>uv i. c_upvals g' u = Some uv \<and> u_open uv = Some (t, i)" if h: "thr g' t th'" "u \<in> set (th_openupval th')" for t th' u
  proof -
    obtain th where th: "thr g t th" "thr_shrinks th th'" using adv_thr_back [OF assms(1) h(1)] by blast
    have "u \<in> set (th_openupval th)" using thr_shrinksD(2) [OF th(2)] h(2) by simp
    then obtain uv i where uv: "c_upvals g u = Some uv" "u_open uv = Some (t, i)"
      using uwfD(3) [OF assms(2) th(1)] by blast
    then show ?thesis using advx_upv [OF assms(1) uv(1)] upv_advD by metis
  qed
  have 4: "body_upvals (ob_body ob') \<subseteq> dom (c_upvals g')" if h: "c_heap g' a = Some ob'" for a ob'
  proof
    fix u assume u: "u \<in> body_upvals (ob_body ob')"
    obtain ob where ob: "c_heap g a = Some ob" "ob_adv ob ob'" using advx_obj_back [OF assms(1) h] by blast
    have "u \<in> dom (c_upvals g)" using u shrinks_upvals [OF ob_advD(1) [OF ob(2)]] uwfD(4) [OF assms(2) ob(1)] by auto
    then show "u \<in> dom (c_upvals g')" using advx_upv [OF assms(1)] by blast
  qed
  show ?thesis unfolding uwf_def using 1 2 3 4 by blast
qed

section \<open>Weak modes\<close>

text \<open>No field \<open>__mode\<close> has both weak modes.\<close>

definition both_modes :: "cstate \<Rightarrow> gval \<Rightarrow> bool" where
  "both_modes g v \<longleftrightarrow> (\<exists>s ob b bs. v = VRef s \<and> c_heap g s = Some ob \<and> ob_body ob = Str b bs \<and>
     107 \<in> set (cstring bs) \<and> 118 \<in> set (cstring bs))"

definition modes :: "cstate \<Rightarrow> bool" where
  "modes g \<longleftrightarrow> (\<forall>a h. tab g a h \<longrightarrow> (\<forall>e\<in>set (h_node h). fst e = VRef (c_tmname g ! TM_MODE) \<longrightarrow> \<not> both_modes g (snd e)))"

lemma adv_both_modes:
  assumes "advx X g g'" "both_modes g' v"
  shows "both_modes g v"
proof -
  obtain s ob' b bs where o: "v = VRef s" "c_heap g' s = Some ob'" "ob_body ob' = Str b bs" "107 \<in> set (cstring bs)" "118 \<in> set (cstring bs)"
    using assms(2) unfolding both_modes_def by blast
  obtain ob where ob: "c_heap g s = Some ob" "ob_adv ob ob'" using advx_obj_back [OF assms(1) o(2)] by blast
  have "shrinks (ob_body ob) (Str b bs)" using ob_advD(1) [OF ob(2)] o(3) by simp
  then have "ob_body ob = Str b bs" by (cases "ob_body ob") (auto simp: shrinks_def)
  then show ?thesis using o ob(1) unfolding both_modes_def by blast
qed

lemma adv_modes:
  assumes "advx X g g'" "modes g"
  shows "modes g'"
  unfolding modes_def
proof (intro allI impI ballI)
  fix a h' e' assume h: "tab g' a h'" and e: "e' \<in> set (h_node h')" "fst e' = VRef (c_tmname g' ! TM_MODE)"
  obtain h where h0: "tab g a h" "tab_shrinks h h'" using adv_tab_back [OF assms(1) h] by blast
  obtain i where i: "i < length (h_node h')" "e' = h_node h' ! i" using e(1) by (auto simp: in_set_conv_nth)
  have i0: "i < length (h_node h)" using i(1) tab_shrinks_length [OF h0(2)] by simp
  have s: "entry_shrinks (h_node h ! i) e'" using tab_shrinks_nth(1) [OF h0(2) i0] i(2) by simp
  show "\<not> both_modes g' (snd e')"
  proof (cases "snd e' = VNil")
    case True
    then show ?thesis by (simp add: both_modes_def)
  next
    case False
    then have "e' = h_node h ! i" using s by (auto simp: entry_shrinks_def)
    then have "e' \<in> set (h_node h)" using i0 by simp
    then have "\<not> both_modes g (snd e')" using assms(2) h0(1) e(2) advx_fields(19) [OF assms(1)] unfolding modes_def by auto
    then show ?thesis using adv_both_modes [OF assms(1)] by blast
  qed
qed

section \<open>The invariant\<close>

definition upv_ok :: "nat set \<Rightarrow> nat list \<Rightarrow> nat list \<Rightarrow> cstate \<Rightarrow> nat \<Rightarrow> bool" where
  "upv_ok T P xs g u \<longleftrightarrow> (\<exists>uv. c_upvals g u = Some uv \<and>
     (case u_open uv of
        None \<Rightarrow> vmarked g (u_value uv)
      | Some (t, i) \<Rightarrow> t \<in> set (c_gray g) \<union> set P \<union> set xs \<or> t \<in> T \<and> u_touched uv \<or>
          (\<exists>th. thr g t th \<and> vmarked g (th_stack th ! i))))"

definition settled :: "nat set \<Rightarrow> nat list \<Rightarrow> nat list \<Rightarrow> cstate \<Rightarrow> nat \<Rightarrow> bool" where
  "settled T P xs g a \<longleftrightarrow> (\<exists>ob. c_heap g a = Some ob \<and> (\<forall>r\<in>body_refs (ob_body ob). marked g r) \<and>
     (\<forall>u\<in>body_upvals (ob_body ob). upv_ok T P xs g u))"

text \<open>The tables in the lists \<open>weak\<close>, \<open>ephemeron\<close> and \<open>allweak\<close>.\<close>

definition meta_marked :: "cstate \<Rightarrow> gctable \<Rightarrow> bool" where
  "meta_marked g h \<longleftrightarrow> (\<forall>m\<in>set_option (h_metatable h). marked g m)"

definition nil_marked :: "cstate \<Rightarrow> gval \<times> gval \<Rightarrow> bool" where
  "nil_marked g e \<longleftrightarrow> (snd e = VNil \<longrightarrow> key_marked g e)"

definition weak_tab :: "cstate \<Rightarrow> nat \<Rightarrow> bool" where
  "weak_tab g a \<longleftrightarrow> (\<exists>h. tab g a h \<and> meta_marked g h \<and> (\<forall>e\<in>set (h_node h). key_marked g e))"

definition eph_tab :: "cstate \<Rightarrow> nat \<Rightarrow> bool" where
  "eph_tab g a \<longleftrightarrow> (\<exists>h. tab g a h \<and> meta_marked g h \<and> (\<forall>r\<in>lrefs (h_array h). marked g r) \<and> (\<forall>e\<in>set (h_node h). nil_marked g e))"

definition key_tab :: "cstate \<Rightarrow> nat \<Rightarrow> bool" where
  "key_tab g a \<longleftrightarrow> (\<exists>h. tab g a h \<and> meta_marked g h \<and> (\<forall>r\<in>lrefs (h_array h). marked g r) \<and>
     (\<forall>e\<in>set (h_node h). nil_marked g e \<and> vmarked g (snd e)))"

abbreviation "weaks g \<equiv> c_weak g @ c_ephemeron g @ c_allweak g"

definition lists_ok :: "nat list \<Rightarrow> nat list \<Rightarrow> cstate \<Rightarrow> bool" where
  "lists_ok P xs g \<longleftrightarrow> distinct (c_gray g @ weaks g @ P @ xs) \<and> (\<forall>a\<in>set (c_gray g @ weaks g @ P). gray g a \<and> is_listed g a) \<and>
     (\<forall>a\<in>set xs. marked g a \<and> is_listed g a)"

definition weaks_ok :: "cstate \<Rightarrow> bool" where
  "weaks_ok g \<longleftrightarrow> (\<forall>a\<in>set (c_weak g). weak_tab g a) \<and> (\<forall>a\<in>set (c_ephemeron g). eph_tab g a) \<and> (\<forall>a\<in>set (c_allweak g). key_tab g a)"

definition thr_ok :: "nat set \<Rightarrow> nat list \<Rightarrow> nat list \<Rightarrow> cstate \<Rightarrow> nat \<Rightarrow> gcthread \<Rightarrow> bool" where
  "thr_ok T P xs g t th \<longleftrightarrow> (marked g t \<longrightarrow> t \<in> set xs \<or> gray g t) \<and>
     (marked g t \<and> t \<in> T \<longrightarrow> t \<in> set (c_gray g) \<union> set P \<union> set xs) \<and>
     (th_openupval th \<noteq> [] \<longrightarrow>
       t \<in> set (c_twups g) \<or> c_gcstate g = GCSinsideatomic \<and> (white g t \<or> t \<in> set (c_gray g) \<union> set P \<union> set xs))"

definition twups_ok :: "nat set \<Rightarrow> cstate \<Rightarrow> bool" where
  "twups_ok T g \<longleftrightarrow> distinct (c_twups g) \<and> (\<forall>t\<in>set (c_twups g). (\<exists>th. thr g t th) \<and> (t \<in> T \<or> marked g t))"

definition tri :: "nat set \<Rightarrow> nat list \<Rightarrow> nat list \<Rightarrow> cstate \<Rightarrow> bool" where
  "tri T P xs g \<longleftrightarrow> (\<forall>a. marked g a \<longrightarrow> a \<in> set (c_gray g @ weaks g @ P @ xs) \<or> settled T P xs g a)"

definition minv :: "nat set \<Rightarrow> nat list \<Rightarrow> nat list \<Rightarrow> cstate \<Rightarrow> bool" where
  "minv T P xs g \<longleftrightarrow> sane g \<and> typed g \<and> uwf g \<and> modes g \<and> lists_ok P xs g \<and> weaks_ok g \<and>
     (\<forall>t th. thr g t th \<longrightarrow> thr_ok T P xs g t th) \<and> twups_ok T g \<and> tri T P xs g"

lemma minvD:
  assumes "minv T P xs g"
  shows "sane g" "typed g" "uwf g" "modes g" "lists_ok P xs g" "weaks_ok g" "thr g t th \<Longrightarrow> thr_ok T P xs g t th"
    "twups_ok T g" "tri T P xs g"
  using assms unfolding minv_def by blast+

section \<open>Marking keeps the invariant\<close>

lemma advx_gray:
  assumes "advx X g g'"
  obtains zs where "c_gray g' = zs @ c_gray g" "distinct zs" "\<And>a. a \<in> set zs \<longleftrightarrow> newly g g' a \<and> is_listed g a"
proof -
  obtain h zs us where g': "g' = g\<lparr>c_heap := h, c_upvals := us, c_gray := zs @ c_gray g\<rparr>" "distinct zs"
    "\<forall>a. a \<in> set zs \<longleftrightarrow> newly g g' a \<and> is_listed g a"
    using assms unfolding advx_def by blast
  have "c_gray g' = zs @ c_gray g" unfolding g'(1) by simp
  then show thesis using that g'(2,3) by blast
qed

lemma advx_gray_mono: "advx X g g' \<Longrightarrow> set (c_gray g) \<subseteq> set (c_gray g')"
  by (erule advx_gray) auto

lemma adv_is_gray:
  assumes "advx X g g'" "gray g a" "is_listed g a"
  shows "gray g' a"
proof -
  obtain ob where ob: "c_heap g a = Some ob" "isgray_m (ob_marked ob)" using assms(2) by (auto simp: gray_def)
  have l: "listed (ob_body ob)" using assms(3) ob(1) by (auto simp: is_listed_def)
  obtain ob' where ob': "c_heap g' a = Some ob'" "ob_adv ob ob'" using advx_obj [OF assms(1) ob(1)] by blast
  have "ob_marked ob' = ob_marked ob" by (rule ob_advD(6) [OF ob'(2) l]) (use ob(2) in \<open>simp add: mark_bits\<close>)
  then show ?thesis using ob ob'(1) by (simp add: gray_def)
qed

lemma newly_gray:
  assumes "advx X g g'" "newly g g' a" "is_listed g a"
  shows "gray g' a"
proof -
  obtain ob where ob: "c_heap g a = Some ob" "listed (ob_body ob)" using assms(3) by (auto simp: is_listed_def)
  obtain ob' where ob': "c_heap g' a = Some ob'" "ob_adv ob ob'" using advx_obj [OF assms(1) ob(1)] by blast
  have "isgray_m (ob_marked ob')"
    by (rule ob_advD(7) [OF ob'(2) ob(2)]) (use assms(2) ob(1) ob'(1) in \<open>auto simp: newly_def white_def marked_def\<close>)
  then show ?thesis using ob'(1) by (simp add: gray_def)
qed

lemma adv_upv_ok:
  assumes "advx X g g'" "typed g'" "uwf g" "upv_ok T P xs g u"
  shows "upv_ok T P xs g' u"
proof -
  obtain uv where uv: "c_upvals g u = Some uv" "case u_open uv of
        None \<Rightarrow> vmarked g (u_value uv)
      | Some (t, i) \<Rightarrow> t \<in> set (c_gray g) \<union> set P \<union> set xs \<or> t \<in> T \<and> u_touched uv \<or>
          (\<exists>th. thr g t th \<and> vmarked g (th_stack th ! i))"
    using assms(4) unfolding upv_ok_def by blast
  obtain uv' where uv': "c_upvals g' u = Some uv'" "upv_adv uv uv'" using advx_upv [OF assms(1) uv(1)] by blast
  note d = upv_advD [OF uv'(2)]
  show ?thesis
  proof (cases "u_open uv")
    case None
    then show ?thesis using uv(2) uv'(1) d advx_vmarked [OF assms(1)] unfolding upv_ok_def by auto
  next
    case (Some p)
    obtain t i where p: "p = (t, i)" by (cases p)
    consider "t \<in> set (c_gray g) \<union> set P \<union> set xs \<or> t \<in> T \<and> u_touched uv" | th where "thr g t th" "vmarked g (th_stack th ! i)"
      using uv(2) Some p by auto
    then show ?thesis
    proof cases
      case 1
      then have "t \<in> set (c_gray g') \<union> set P \<union> set xs \<or> t \<in> T \<and> u_touched uv'" using advx_gray_mono [OF assms(1)] d by blast
      then show ?thesis using uv'(1) d Some p unfolding upv_ok_def by auto
    next
      case (2 th)
      obtain th' where th': "thr g' t th'" "thr_shrinks th th'" using adv_thr [OF assms(1) 2(1)] by blast
      obtain th0 where "thr g t th0" "i < th_top th0" using uwfD(1) [OF assms(3) uv(1)] Some p by blast
      then have i: "i < th_top th" using thr_fun [OF 2(1)] by blast
      then have "i < length (th_stack th')" using typed_thr [OF assms(2) th'(1)] thr_shrinksD(1) [OF th'(2)] by simp
      then have "th_stack th' ! i = th_stack th ! i" by (rule thr_shrinksD(4) [OF th'(2) i])
      then have "\<exists>th. thr g' t th \<and> vmarked g' (th_stack th ! i)" using th'(1) 2(2) advx_vmarked [OF assms(1)] by auto
      then show ?thesis using uv'(1) d Some p unfolding upv_ok_def by auto
    qed
  qed
qed

lemma adv_settled:
  assumes "advx X g g'" "typed g'" "uwf g" "settled T P xs g a"
  shows "settled T P xs g' a"
proof -
  obtain ob where ob: "c_heap g a = Some ob" "\<forall>r\<in>body_refs (ob_body ob). marked g r" "\<forall>u\<in>body_upvals (ob_body ob). upv_ok T P xs g u"
    using assms(4) unfolding settled_def by blast
  obtain ob' where ob': "c_heap g' a = Some ob'" "ob_adv ob ob'" using advx_obj [OF assms(1) ob(1)] by blast
  have s: "shrinks (ob_body ob) (ob_body ob')" by (rule ob_advD(1) [OF ob'(2)])
  have "\<forall>r\<in>body_refs (ob_body ob'). marked g' r" using ob(2) shrinks_refs [OF s] advx_marked [OF assms(1)] by blast
  moreover have "\<forall>u\<in>body_upvals (ob_body ob'). upv_ok T P xs g' u"
    using ob(3) shrinks_upvals [OF s] adv_upv_ok [OF assms(1-3)] by auto
  ultimately show ?thesis using ob'(1) unfolding settled_def by blast
qed

lemma leaf_settled:
  assumes "done_leaf g a" "\<not> is_listed g a"
  shows "settled T P xs g a"
proof -
  obtain ob where ob: "c_heap g a = Some ob" "\<forall>r\<in>body_refs (ob_body ob). marked g r" using assms(1) by (auto simp: done_leaf_def)
  then have "\<not> listed (ob_body ob)" using assms(2) by (auto simp: is_listed_def)
  then have "body_upvals (ob_body ob) = {}" by (cases "ob_body ob") (auto simp: listed_def body_upvals_def)
  then show ?thesis using ob unfolding settled_def by auto
qed

lemma adv_tri:
  assumes "adv g g'" "typed g'" "uwf g" "tri T P xs g"
  shows "tri T P xs g'"
  unfolding tri_def
proof (intro allI impI)
  fix a assume m: "marked g' a"
  have w: "weaks g' = weaks g" using advx_fields(10-12) [OF assms(1)] by simp
  show "a \<in> set (c_gray g' @ weaks g' @ P @ xs) \<or> settled T P xs g' a"
  proof (cases "marked g a")
    case True
    then show ?thesis
      using assms(4) w advx_gray_mono [OF assms(1)] adv_settled [OF assms(1-3)] unfolding tri_def by fastforce
  next
    case False
    then have n: "newly g g' a" using m advx_obj_back [OF assms(1)] by (fastforce simp: newly_def white_def marked_def)
    show ?thesis
    proof (cases "is_listed g a")
      case True
      then show ?thesis using n by (rule_tac advx_gray [OF assms(1)]) auto
    next
      case False
      then have "done_leaf g' a" using n assms(1) unfolding advx_def by blast
      then show ?thesis using leaf_settled False advx_listed [OF assms(1)] by blast
    qed
  qed
qed

lemma adv_lists:
  assumes "adv g g'" "lists_ok P xs g"
  shows "lists_ok P xs g'"
proof -
  obtain zs where zs: "c_gray g' = zs @ c_gray g" "distinct zs" "\<And>a. a \<in> set zs \<longleftrightarrow> newly g g' a \<and> is_listed g a"
    using advx_gray [OF assms(1)] by blast
  have w: "weaks g' = weaks g" using advx_fields(10-12) [OF assms(1)] by simp
  have l: "distinct (c_gray g @ weaks g @ P @ xs)" "\<forall>a\<in>set (c_gray g @ weaks g @ P). gray g a \<and> is_listed g a"
    "\<forall>a\<in>set xs. marked g a \<and> is_listed g a" using assms(2) unfolding lists_ok_def by blast+
  have m: "marked g a" if "a \<in> set (c_gray g @ weaks g @ P @ xs)" for a using l(2,3) that gray_marked by auto
  have z: "\<not> marked g a" if "a \<in> set zs" for a using zs(3) [of a] that by (auto simp: newly_def white_def marked_def)
  have "set zs \<inter> set (c_gray g @ weaks g @ P @ xs) = {}" using m z by blast
  then have "distinct (zs @ c_gray g @ weaks g @ P @ xs)" using l(1) zs(2) by simp
  moreover have "gray g' a \<and> is_listed g' a" if a: "a \<in> set (zs @ c_gray g @ weaks g @ P)" for a
  proof (cases "a \<in> set zs")
    case True
    then show ?thesis using zs(3) newly_gray [OF assms(1)] advx_listed [OF assms(1)] by blast
  next
    case False
    then show ?thesis using a l(2) adv_is_gray [OF assms(1)] advx_listed [OF assms(1)] by auto
  qed
  moreover have "\<forall>a\<in>set xs. marked g' a \<and> is_listed g' a"
    using l(3) advx_marked [OF assms(1)] advx_listed [OF assms(1)] by blast
  ultimately show ?thesis unfolding lists_ok_def zs(1) w by simp
qed

lemma adv_meta: "advx X g g' \<Longrightarrow> meta_marked g h \<Longrightarrow> tab_shrinks h h' \<Longrightarrow> meta_marked g' h'"
  using advx_marked unfolding meta_marked_def tab_shrinks_def by fastforce

lemma adv_array:
  assumes "advx X g g'" "\<forall>r\<in>lrefs (h_array h). marked g r" "tab_shrinks h h'"
  shows "\<forall>r\<in>lrefs (h_array h'). marked g' r"
proof
  fix r assume "r \<in> lrefs (h_array h')"
  then obtain i where i: "i < length (h_array h')" "r \<in> vrefs (h_array h' ! i)" by (auto simp: lrefs_def in_set_conv_nth)
  then have "val_shrinks (h_array h ! i) (h_array h' ! i)" "i < length (h_array h)"
    using tab_shrinks_nth(2) [OF assms(3)] tab_shrinks_length [OF assms(3)] by auto
  then have "r \<in> lrefs (h_array h)" using i(2) val_shrinks_refs by (fastforce simp: lrefs_def)
  then show "marked g' r" using assms(2) advx_marked [OF assms(1)] by blast
qed

lemma adv_nodes:
  assumes "tab g a h" "tab g' a h'" "tab_shrinks h h'" "\<forall>e\<in>set (h_node h). C e"
    "\<And>i. i < length (h_node h) \<Longrightarrow> C (h_node h ! i) \<Longrightarrow> ent g a i C \<Longrightarrow> ent g' a i C'"
  shows "\<forall>e\<in>set (h_node h'). C' e"
proof
  fix e' assume "e' \<in> set (h_node h')"
  then obtain i where i: "i < length (h_node h')" "e' = h_node h' ! i" by (auto simp: in_set_conv_nth)
  have i0: "i < length (h_node h)" using i(1) tab_shrinks_length [OF assms(3)] by simp
  then have "ent g a i C" using assms(1,4) by (auto simp: ent_def)
  then have "ent g' a i C'" using assms(4,5) i0 by simp
  then show "C' e'" using tab_fun assms(2) i(2) unfolding ent_def by blast
qed

lemma ent_all: "tab g a h \<Longrightarrow> \<forall>i<length (h_node h). ent g a i C \<Longrightarrow> \<forall>e\<in>set (h_node h). C e"
  unfolding in_set_conv_nth ent_def by (metis in_set_conv_nth tab_fun)

lemma adv_nil:
  assumes "advx X g g'" "ent g a i (nil_marked g)"
  shows "ent g' a i (nil_marked g')"
proof -
  have "empty_ok g a i" using assms(2) by (auto simp: ent_def tab_empty_ok nil_marked_def)
  then have k: "empty_ok g' a i" by (rule advx_empty [OF assms(1)])
  obtain h' where h': "tab g' a h'" using assms adv_tab unfolding ent_def by blast
  have "i < length (h_node h') \<and> nil_marked g' (h_node h' ! i)" using k h' by (simp add: tab_empty_ok nil_marked_def)
  then show ?thesis using h' unfolding ent_def by blast
qed

lemma adv_weak_tab:
  assumes "advx X g g'" "weak_tab g a"
  shows "weak_tab g' a"
proof -
  obtain h where h: "tab g a h" "meta_marked g h" "\<forall>e\<in>set (h_node h). key_marked g e" using assms(2) by (auto simp: weak_tab_def)
  obtain h' where h': "tab g' a h'" "tab_shrinks h h'" using adv_tab [OF assms(1) h(1)] by blast
  have "\<forall>e\<in>set (h_node h'). key_marked g' e" by (rule adv_nodes [OF h(1) h' h(3)]) (rule adv_key [OF assms(1)])
  then show ?thesis using h'(1) adv_meta [OF assms(1) h(2) h'(2)] by (auto simp: weak_tab_def)
qed

lemma adv_eph_tab:
  assumes "advx X g g'" "eph_tab g a"
  shows "eph_tab g' a"
proof -
  obtain h where h: "tab g a h" "meta_marked g h" "\<forall>r\<in>lrefs (h_array h). marked g r" "\<forall>e\<in>set (h_node h). nil_marked g e"
    using assms(2) unfolding eph_tab_def by blast
  obtain h' where h': "tab g' a h'" "tab_shrinks h h'" using adv_tab [OF assms(1) h(1)] by blast
  have "\<forall>e\<in>set (h_node h'). nil_marked g' e" by (rule adv_nodes [OF h(1) h' h(4)]) (rule adv_nil [OF assms(1)])
  then show ?thesis
    using h'(1) adv_meta [OF assms(1) h(2) h'(2)] adv_array [OF assms(1) h(3) h'(2)] unfolding eph_tab_def by blast
qed

lemma adv_key_tab:
  assumes "advx X g g'" "key_tab g a"
  shows "key_tab g' a"
proof -
  obtain h where h: "tab g a h" "meta_marked g h" "\<forall>r\<in>lrefs (h_array h). marked g r"
    "\<forall>e\<in>set (h_node h). nil_marked g e \<and> vmarked g (snd e)"
    using assms(2) unfolding key_tab_def by blast
  obtain h' where h': "tab g' a h'" "tab_shrinks h h'" using adv_tab [OF assms(1) h(1)] by blast
  have 1: "\<forall>e\<in>set (h_node h). nil_marked g e" "\<forall>e\<in>set (h_node h). vmarked g (snd e)" using h(4) by blast+
  have "\<forall>e\<in>set (h_node h'). nil_marked g' e" by (rule adv_nodes [OF h(1) h' 1(1)]) (rule adv_nil [OF assms(1)])
  moreover have "\<forall>e\<in>set (h_node h'). vmarked g' (snd e)" by (rule adv_nodes [OF h(1) h' 1(2)]) (rule adv_value [OF assms(1)])
  ultimately show ?thesis
    using h'(1) adv_meta [OF assms(1) h(2) h'(2)] adv_array [OF assms(1) h(3) h'(2)] unfolding key_tab_def by blast
qed

lemma adv_weaks:
  assumes "advx X g g'" "weaks_ok g"
  shows "weaks_ok g'"
  using assms(2) adv_weak_tab [OF assms(1)] adv_eph_tab [OF assms(1)] adv_key_tab [OF assms(1)] advx_fields(10-12) [OF assms(1)]
  unfolding weaks_ok_def by simp

lemma adv_twups:
  assumes "advx X g g'" "twups_ok T g"
  shows "twups_ok T g'"
  using assms(2) adv_thr [OF assms(1)] advx_marked [OF assms(1)] advx_fields(13) [OF assms(1)]
  unfolding twups_ok_def by (auto; blast)

lemma thr_listed: "thr g t th \<Longrightarrow> is_listed g t"
  by (auto simp: thr_def is_listed_def listed_def)

lemma adv_thr_ok:
  assumes "adv g g'" "lists_ok P xs g" "thr_ok T P xs g t th" "thr g t th" "thr_shrinks th th'"
  shows "thr_ok T P xs g' t th'"
proof -
  obtain zs where zs: "c_gray g' = zs @ c_gray g" "distinct zs" "\<And>a. a \<in> set zs \<longleftrightarrow> newly g g' a \<and> is_listed g a"
    using advx_gray [OF assms(1)] by blast
  have l: "is_listed g t" by (rule thr_listed [OF assms(4)])
  have n: "newly g g' t" if "marked g' t" "\<not> marked g t"
    using that assms(4) by (auto simp: newly_def white_def marked_def thr_def)
  have "marked g' t \<longrightarrow> t \<in> set xs \<or> gray g' t"
  proof (cases "marked g t")
    case True
    then show ?thesis using assms(3) adv_is_gray [OF assms(1) _ l] unfolding thr_ok_def by blast
  next
    case False
    then show ?thesis using n newly_gray [OF assms(1) _ l] by blast
  qed
  moreover have "marked g' t \<and> t \<in> T \<longrightarrow> t \<in> set (c_gray g') \<union> set P \<union> set xs"
    using n zs l assms(3) unfolding thr_ok_def by auto
  moreover have "th_openupval th' \<noteq> [] \<longrightarrow>
      t \<in> set (c_twups g') \<or> c_gcstate g' = GCSinsideatomic \<and> (white g' t \<or> t \<in> set (c_gray g') \<union> set P \<union> set xs)"
  proof (cases "white g' t")
    case True
    then show ?thesis
      using assms(3) thr_shrinksD(2) [OF assms(5)] advx_fields(2,13) [OF assms(1)] unfolding thr_ok_def by auto
  next
    case False
    have d: "t \<in> dom (c_heap g')" using assms(4) advx_dom [OF assms(1)] by (auto simp: thr_def)
    have "marked g' t" using not_white [OF d] False by blast
    then show ?thesis
      using assms(3) thr_shrinksD(2) [OF assms(5)] advx_fields(2,13) [OF assms(1)] n zs l unfolding thr_ok_def
      by (cases "marked g t") (auto simp: white_def marked_def)
  qed
  ultimately show ?thesis unfolding thr_ok_def by blast
qed

lemma minv_adv:
  assumes "adv g g'" "minv T P xs g"
  shows "minv T P xs g'"
proof -
  note i = minvD [OF assms(2)]
  have t: "typed g'" by (rule adv_typed [OF assms(1) i(2)])
  have "thr_ok T P xs g' t th'" if h: "thr g' t th'" for t th'
  proof -
    obtain th where th: "thr g t th" "thr_shrinks th th'" using adv_thr_back [OF assms(1) h] by blast
    show ?thesis by (rule adv_thr_ok [OF assms(1) i(5) i(7) [OF th(1)] th])
  qed
  then show ?thesis
    unfolding minv_def
    using t advx_sane [OF assms(1) i(1)] adv_uwf [OF assms(1) i(3)] adv_modes [OF assms(1) i(4)] adv_lists [OF assms(1) i(5)]
      adv_weaks [OF assms(1) i(6)] adv_twups [OF assms(1) i(8)] adv_tri [OF assms(1) t i(3,9)] by blast
qed

text \<open>Propagation keeps the invariant of the mark phase, and every step leaves less to do.\<close>

section \<open>States that are alike\<close>

text \<open>Objects have the same bodies, and none becomes white or is marked.\<close>

definition alike :: "cstate \<Rightarrow> cstate \<Rightarrow> bool" where
  "alike g g' \<longleftrightarrow> (\<forall>b. rel_option (\<lambda>ob ob'. ob_body ob' = ob_body ob \<and> (iswhite_m (ob_marked ob') = iswhite_m (ob_marked ob)) \<and>
       tofinalize_m (ob_marked ob') = tofinalize_m (ob_marked ob) \<and>
       (iswhite_m (ob_marked ob) \<longrightarrow> ob_marked ob' = ob_marked ob)) (c_heap g b) (c_heap g' b)) \<and>
     c_upvals g' = c_upvals g \<and> c_tmname g' = c_tmname g \<and> gc_fuel g' = gc_fuel g"

lemma alikeD:
  assumes "alike g g'"
  shows "c_heap g b = None \<Longrightarrow> c_heap g' b = None"
    "c_heap g b = Some ob \<Longrightarrow> \<exists>ob'. c_heap g' b = Some ob' \<and> ob_body ob' = ob_body ob \<and>
      iswhite_m (ob_marked ob') = iswhite_m (ob_marked ob) \<and> (iswhite_m (ob_marked ob) \<longrightarrow> ob_marked ob' = ob_marked ob)"
    "c_heap g' b = Some ob' \<Longrightarrow> \<exists>ob. c_heap g b = Some ob \<and> ob_body ob' = ob_body ob \<and>
      iswhite_m (ob_marked ob') = iswhite_m (ob_marked ob) \<and> (iswhite_m (ob_marked ob) \<longrightarrow> ob_marked ob' = ob_marked ob)"
proof -
  have r: "rel_option (\<lambda>ob ob'. ob_body ob' = ob_body ob \<and> (iswhite_m (ob_marked ob') = iswhite_m (ob_marked ob)) \<and>
      tofinalize_m (ob_marked ob') = tofinalize_m (ob_marked ob) \<and>
      (iswhite_m (ob_marked ob) \<longrightarrow> ob_marked ob' = ob_marked ob)) (c_heap g b) (c_heap g' b)" for b
    using assms unfolding alike_def by blast
  show "c_heap g b = None \<Longrightarrow> c_heap g' b = None" using r [of b] by simp
  show "c_heap g b = Some ob \<Longrightarrow> \<exists>ob'. c_heap g' b = Some ob' \<and> ob_body ob' = ob_body ob \<and>
      iswhite_m (ob_marked ob') = iswhite_m (ob_marked ob) \<and> (iswhite_m (ob_marked ob) \<longrightarrow> ob_marked ob' = ob_marked ob)"
    using r [of b] by (auto simp: option_rel_Some1)
  show "c_heap g' b = Some ob' \<Longrightarrow> \<exists>ob. c_heap g b = Some ob \<and> ob_body ob' = ob_body ob \<and>
      iswhite_m (ob_marked ob') = iswhite_m (ob_marked ob) \<and> (iswhite_m (ob_marked ob) \<longrightarrow> ob_marked ob' = ob_marked ob)"
    using r [of b] by (auto simp: option_rel_Some2)
qed

lemma alike_eqs:
  assumes "alike g g'"
  shows "dom (c_heap g') = dom (c_heap g)" "marked g' = marked g" "white g' = white g" "is_listed g' = is_listed g"
    "tab g' = tab g" "thr g' = thr g" "vmarked g' = vmarked g"
proof -
  note d = alikeD [OF assms]
  show "dom (c_heap g') = dom (c_heap g)" 
  proof (rule set_eqI)
    fix b show "b \<in> dom (c_heap g') \<longleftrightarrow> b \<in> dom (c_heap g)"
      using d(1) [of b] d(2) [of b] by (cases "c_heap g b") (simp add: domIff, force)
  qed
  show m: "marked g' = marked g" unfolding marked_def fun_eq_iff using d(2,3) by metis
  show "white g' = white g" unfolding white_def fun_eq_iff using d(2,3) by metis
  show "is_listed g' = is_listed g" unfolding is_listed_def fun_eq_iff using d(2,3) by metis
  show "tab g' = tab g" unfolding tab_def fun_eq_iff using d(2,3) by metis
  show "thr g' = thr g" unfolding thr_def fun_eq_iff using d(2,3) by metis
  show "vmarked g' = vmarked g" unfolding vmarked_def fun_eq_iff m by blast
qed

lemma alike_store:
  assumes "alike g g'"
  shows "sane g \<Longrightarrow> sane g'" "typed g \<Longrightarrow> typed g'" "uwf g \<Longrightarrow> uwf g'" "modes g \<Longrightarrow> modes g'"
proof -
  note d = alikeD [OF assms] and e = alike_eqs [OF assms]
  have u: "c_upvals g' = c_upvals g" "c_tmname g' = c_tmname g" "gc_fuel g' = gc_fuel g" using assms unfolding alike_def by blast+
  show "sane g'" if s: "sane g"
  proof -
    have "body_refs (ob_body ob') \<subseteq> dom (c_heap g) \<and> (iswhite_m (ob_marked ob') \<longrightarrow> \<not> isblack_m (ob_marked ob'))"
      if h: "c_heap g' a = Some ob'" for a ob'
    proof -
      obtain ob where o: "c_heap g a = Some ob" "ob_body ob' = ob_body ob" "iswhite_m (ob_marked ob') = iswhite_m (ob_marked ob)"
        "iswhite_m (ob_marked ob) \<longrightarrow> ob_marked ob' = ob_marked ob" using d(3) [OF h] by blast
      then show ?thesis using saneD [OF s o(1)] by simp
    qed
    then show ?thesis using s unfolding sane_def e(1) u(3) by blast
  qed
  show "typed g'" if t: "typed g"
    unfolding typed_def
  proof (intro allI impI)
    fix a ob' assume h: "c_heap g' a = Some ob'"
    obtain ob where o: "c_heap g a = Some ob" "ob_body ob' = ob_body ob" using d(3) [OF h] by blast
    have "body_ok g (ob_body ob)" using t o(1) by (simp add: typed_def)
    moreover have i: "is_tab g' = is_tab g" by (simp add: is_tab_def fun_eq_iff e(5))
    ultimately show "body_ok g' (ob_body ob')" unfolding o(2) body_ok_def i by blast
  qed
  show "uwf g'" if w: "uwf g"
  proof -
    have "body_upvals (ob_body ob') \<subseteq> dom (c_upvals g)" if h: "c_heap g' a = Some ob'" for a ob'
    proof -
      obtain ob where o: "c_heap g a = Some ob" "ob_body ob' = ob_body ob" using d(3) [OF h] by blast
      then show ?thesis using uwfD(4) [OF w o(1)] by simp
    qed
    then show ?thesis using w unfolding uwf_def e(1,6) u(1) by blast
  qed
  have "both_modes g v" if "both_modes g' v" for v
  proof -
    obtain s ob' b bs where o: "v = VRef s" "c_heap g' s = Some ob'" "ob_body ob' = Str b bs" "107 \<in> set (cstring bs)" "118 \<in> set (cstring bs)"
      using \<open>both_modes g' v\<close> unfolding both_modes_def by blast
    obtain ob where "c_heap g s = Some ob" "ob_body ob' = ob_body ob" using d(3) [OF o(2)] by blast
    then show ?thesis using o unfolding both_modes_def by metis
  qed
  then show "modes g \<Longrightarrow> modes g'" unfolding modes_def e(5) u(2) by blast
qed

lemma alike_refl [simp]: "alike g g"
  by (auto simp: alike_def option.rel_refl)

lemma alike_same: "c_heap g' = c_heap g \<Longrightarrow> c_upvals g' = c_upvals g \<Longrightarrow> c_tmname g' = c_tmname g \<Longrightarrow> gc_fuel g' = gc_fuel g \<Longrightarrow> alike g g'"
  by (simp add: alike_def option.rel_refl)

lemma alike_weak_tabs:
  assumes "alike g g'"
  shows "weak_tab g' = weak_tab g" "eph_tab g' = eph_tab g" "key_tab g' = key_tab g"
  unfolding weak_tab_def eph_tab_def key_tab_def meta_marked_def nil_marked_def alike_eqs [OF assms] by simp_all

lemma alike_weaks:
  assumes "alike g g'" "weaks_ok g" "c_weak g' = c_weak g" "c_ephemeron g' = c_ephemeron g" "c_allweak g' = c_allweak g"
  shows "weaks_ok g'"
  using assms(2-5) unfolding weaks_ok_def alike_weak_tabs [OF assms(1)] by simp

lemma alike_upv_ok:
  assumes "alike g g'" "uwf g" "upv_ok T P xs g u"
    "\<And>t th. thr g t th \<Longrightarrow> t \<in> set (c_gray g) \<union> set P \<union> set xs \<Longrightarrow> t \<in> set (c_gray g') \<union> set P' \<union> set xs'"
  shows "upv_ok T P' xs' g' u"
proof -
  note e = alike_eqs [OF assms(1)]
  have up: "c_upvals g' = c_upvals g" using assms(1) unfolding alike_def by blast
  obtain uv where uv: "c_upvals g u = Some uv" "case u_open uv of
        None \<Rightarrow> vmarked g (u_value uv)
      | Some (t, i) \<Rightarrow> t \<in> set (c_gray g) \<union> set P \<union> set xs \<or> t \<in> T \<and> u_touched uv \<or>
          (\<exists>th. thr g t th \<and> vmarked g (th_stack th ! i))"
    using assms(3) unfolding upv_ok_def by blast
  have "case u_open uv of
        None \<Rightarrow> vmarked g' (u_value uv)
      | Some (t, i) \<Rightarrow> t \<in> set (c_gray g') \<union> set P' \<union> set xs' \<or> t \<in> T \<and> u_touched uv \<or>
          (\<exists>th. thr g' t th \<and> vmarked g' (th_stack th ! i))"
  proof (cases "u_open uv")
    case None
    then show ?thesis using uv(2) by (simp add: e)
  next
    case (Some p)
    obtain t i where p: "p = (t, i)" by (cases p)
    obtain th where th: "thr g t th" using uwfD(1) [OF assms(2) uv(1)] Some p by blast
    show ?thesis using uv(2) Some p assms(4) [OF th] by (auto simp: e)
  qed
  then show ?thesis unfolding upv_ok_def up using uv(1) by blast
qed

lemma alike_settled:
  assumes "alike g g'" "uwf g" "settled T P xs g a"
    "\<And>t th. thr g t th \<Longrightarrow> t \<in> set (c_gray g) \<union> set P \<union> set xs \<Longrightarrow> t \<in> set (c_gray g') \<union> set P' \<union> set xs'"
  shows "settled T P' xs' g' a"
proof -
  obtain ob where ob: "c_heap g a = Some ob" "\<forall>r\<in>body_refs (ob_body ob). marked g r" "\<forall>u\<in>body_upvals (ob_body ob). upv_ok T P xs g u"
    using assms(3) unfolding settled_def by blast
  obtain ob' where ob': "c_heap g' a = Some ob'" "ob_body ob' = ob_body ob" using alikeD(2) [OF assms(1) ob(1)] by blast
  have "\<forall>u\<in>body_upvals (ob_body ob'). upv_ok T P' xs' g' u"
  proof
    fix u assume "u \<in> body_upvals (ob_body ob')"
    then have "upv_ok T P xs g u" using ob(3) ob'(2) by simp
    then show "upv_ok T P' xs' g' u" by (rule alike_upv_ok [OF assms(1,2)]) (rule assms(4))
  qed
  then show ?thesis unfolding settled_def alike_eqs(2) [OF assms(1)] using ob(2) ob' by auto
qed

text \<open>Objects change between the lists.\<close>

lemma minv_move:
  assumes m: "minv T P xs g" and al: "alike g g'" "c_twups g' = c_twups g"
      "c_gcstate g = GCSinsideatomic \<Longrightarrow> c_gcstate g' = GCSinsideatomic"
    and l: "lists_ok P' xs' g'" and w: "weaks_ok g'"
    and s1: "\<And>t th. thr g t th \<Longrightarrow> t \<in> set (c_gray g) \<union> set P \<union> set xs \<Longrightarrow> t \<in> set (c_gray g') \<union> set P' \<union> set xs'"
    and s2: "\<And>a. a \<in> set (c_gray g @ weaks g @ P @ xs) \<Longrightarrow> a \<in> set (c_gray g' @ weaks g' @ P' @ xs') \<or> settled T P' xs' g' a"
    and s3: "\<And>t th. thr g t th \<Longrightarrow> marked g t \<Longrightarrow> t \<in> set xs' \<or> gray g' t"
  shows "minv T P' xs' g'"
proof -
  note i = minvD [OF m] and e = alike_eqs [OF al(1)]
  have "thr_ok T P' xs' g' t th" if h: "thr g t th" for t th
    using i(7) [OF h] s1 [OF h] s3 [OF h] al(2,3) unfolding thr_ok_def e by auto
  moreover have "twups_ok T g'" using i(8) unfolding twups_ok_def e al(2) .
  moreover have "tri T P' xs' g'"
    unfolding tri_def e
  proof (intro allI impI)
    fix a assume "marked g a"
    then consider "a \<in> set (c_gray g @ weaks g @ P @ xs)" | "settled T P xs g a" using i(9) unfolding tri_def by blast
    then show "a \<in> set (c_gray g' @ weaks g' @ P' @ xs') \<or> settled T P' xs' g' a"
    proof cases
      case 1
      then show ?thesis by (rule s2)
    next
      case 2
      have "settled T P' xs' g' a" by (rule alike_settled [OF al(1) i(3) 2]) (rule s1)
      then show ?thesis by blast
    qed
  qed
  ultimately show ?thesis
    unfolding minv_def e using alike_store [OF al(1)] i(1-4) l w by blast
qed

section \<open>How far marking has gone\<close>

text \<open>What all functions of the mark phase keep.\<close>

definition evolves :: "cstate \<Rightarrow> cstate \<Rightarrow> bool" where
  "evolves g g' \<longleftrightarrow>
     (\<forall>b. rel_option (\<lambda>ob ob'. shrinks (ob_body ob) (ob_body ob') \<and> tofinalize_m (ob_marked ob') = tofinalize_m (ob_marked ob) \<and>
       (iswhite_m (ob_marked ob') \<longrightarrow> iswhite_m (ob_marked ob) \<and> ob_marked ob' = ob_marked ob)) (c_heap g b) (c_heap g' b)) \<and>
     (\<forall>u. rel_option (\<lambda>uv uv'. u_open uv' = u_open uv \<and> u_value uv' = u_value uv \<and> u_refcount uv' = u_refcount uv)
       (c_upvals g u) (c_upvals g' u)) \<and>
     (\<exists>ws. c_weak g' = ws @ c_weak g) \<and> (\<exists>as. c_allweak g' = as @ c_allweak g) \<and>
     c_currentwhite g' = c_currentwhite g \<and> c_gcstate g' = c_gcstate g \<and> c_emergency g' = c_emergency g \<and>
     c_allgc g' = c_allgc g \<and> c_finobj g' = c_finobj g \<and> c_tobefnz g' = c_tobefnz g \<and> c_fixedgc g' = c_fixedgc g \<and>
     c_sweepgc g' = c_sweepgc g \<and> c_mainthread g' = c_mainthread g \<and> c_running g' = c_running g \<and> c_registry g' = c_registry g \<and>
     c_mt g' = c_mt g \<and> c_gcfinnum g' = c_gcfinnum g \<and> c_tmname g' = c_tmname g"

lemma rel_option_trans:
  assumes "rel_option R x y" "rel_option S y z" "\<And>a b c. R a b \<Longrightarrow> S b c \<Longrightarrow> Q a c"
  shows "rel_option Q x z"
  using assms by (cases x; cases y; cases z) auto

lemma evolves_trans:
  assumes "evolves g g'" "evolves g' g''"
  shows "evolves g g''"
proof -
  let ?R = "\<lambda>ob ob'. shrinks (ob_body ob) (ob_body ob') \<and> tofinalize_m (ob_marked ob') = tofinalize_m (ob_marked ob) \<and>
       (iswhite_m (ob_marked ob') \<longrightarrow> iswhite_m (ob_marked ob) \<and> ob_marked ob' = ob_marked ob)"
  let ?S = "\<lambda>uv uv'. u_open uv' = u_open uv \<and> u_value uv' = u_value uv \<and> u_refcount uv' = u_refcount uv"
  have "rel_option ?R (c_heap g b) (c_heap g'' b)" for b
  proof (rule rel_option_trans [of ?R "c_heap g b" "c_heap g' b" ?R "c_heap g'' b" ?R])
    show "rel_option ?R (c_heap g b) (c_heap g' b)" using assms(1) unfolding evolves_def by blast
    show "rel_option ?R (c_heap g' b) (c_heap g'' b)" using assms(2) unfolding evolves_def by blast
  qed (use shrinks_trans in auto)
  moreover have "rel_option ?S (c_upvals g u) (c_upvals g'' u)" for u
  proof (rule rel_option_trans [of ?S "c_upvals g u" "c_upvals g' u" ?S "c_upvals g'' u" ?S])
    show "rel_option ?S (c_upvals g u) (c_upvals g' u)" using assms(1) unfolding evolves_def by blast
    show "rel_option ?S (c_upvals g' u) (c_upvals g'' u)" using assms(2) unfolding evolves_def by blast
  qed auto
  moreover have "\<exists>ws. c_weak g'' = ws @ c_weak g" "\<exists>ws. c_allweak g'' = ws @ c_allweak g"
    using assms unfolding evolves_def by (metis append.assoc)+
  ultimately show ?thesis using assms unfolding evolves_def by simp
qed

lemma adv_evolves:
  assumes "adv g g'"
  shows "evolves g g'"
proof -
  obtain h zs us where g': "g' = g\<lparr>c_heap := h, c_upvals := us, c_gray := zs @ c_gray g\<rparr>"
    "\<And>u. rel_option upv_adv (c_upvals g u) (us u)" "\<And>a. rel_option ob_adv (c_heap g a) (h a)"
    using assms unfolding advx_def by blast
  have "rel_option (\<lambda>ob ob'. shrinks (ob_body ob) (ob_body ob') \<and> tofinalize_m (ob_marked ob') = tofinalize_m (ob_marked ob) \<and>
       (iswhite_m (ob_marked ob') \<longrightarrow> iswhite_m (ob_marked ob) \<and> ob_marked ob' = ob_marked ob)) (c_heap g b) (h b)" for b
    by (rule option.rel_mono_strong [OF g'(3)]) (use ob_advD(1-4) in blast)
  moreover have "rel_option (\<lambda>uv uv'. u_open uv' = u_open uv \<and> u_value uv' = u_value uv \<and> u_refcount uv' = u_refcount uv)
       (c_upvals g u) (us u)" for u
    by (rule option.rel_mono_strong [OF g'(2)]) (auto simp: upv_adv_def)
  ultimately show ?thesis unfolding evolves_def g'(1) by simp
qed

lemma evolves_refl [simp]: "evolves g g"
  by (rule adv_evolves) simp

lemma alike_evolves:
  assumes "alike g g'" "\<exists>ws. c_weak g' = ws @ c_weak g" "\<exists>ws. c_allweak g' = ws @ c_allweak g"
    "c_currentwhite g' = c_currentwhite g \<and> c_gcstate g' = c_gcstate g \<and> c_emergency g' = c_emergency g \<and>
     c_allgc g' = c_allgc g \<and> c_finobj g' = c_finobj g \<and> c_tobefnz g' = c_tobefnz g \<and> c_fixedgc g' = c_fixedgc g \<and>
     c_sweepgc g' = c_sweepgc g \<and> c_mainthread g' = c_mainthread g \<and> c_running g' = c_running g \<and> c_registry g' = c_registry g \<and>
     c_mt g' = c_mt g \<and> c_gcfinnum g' = c_gcfinnum g \<and> c_tmname g' = c_tmname g"
  shows "evolves g g'"
proof -
  have "rel_option (\<lambda>ob ob'. shrinks (ob_body ob) (ob_body ob') \<and> tofinalize_m (ob_marked ob') = tofinalize_m (ob_marked ob) \<and>
       (iswhite_m (ob_marked ob') \<longrightarrow> iswhite_m (ob_marked ob) \<and> ob_marked ob' = ob_marked ob)) (c_heap g b) (c_heap g' b)" for b
  proof (rule option.rel_mono_strong)
    show "rel_option (\<lambda>ob ob'. ob_body ob' = ob_body ob \<and> (iswhite_m (ob_marked ob') = iswhite_m (ob_marked ob)) \<and>
      tofinalize_m (ob_marked ob') = tofinalize_m (ob_marked ob) \<and>
      (iswhite_m (ob_marked ob) \<longrightarrow> ob_marked ob' = ob_marked ob)) (c_heap g b) (c_heap g' b)"
      using assms(1) unfolding alike_def by blast
  qed auto
  moreover have "c_upvals g' = c_upvals g" using assms(1) by (simp add: alike_def)
  ultimately show ?thesis using assms(2-4) unfolding evolves_def by (simp add: option.rel_refl)
qed

text \<open>The objects that are still to be traversed.\<close>

definition todo :: "cstate \<Rightarrow> nat" where
  "todo g = length (c_gray g) + card (whites g)"

lemma todo_adv:
  assumes "sane g" "adv g g'"
  shows "todo g' \<le> todo g"
proof -
  obtain zs where zs: "c_gray g' = zs @ c_gray g" "distinct zs" "\<And>a. a \<in> set zs \<longleftrightarrow> newly g g' a \<and> is_listed g a"
    using advx_gray [OF assms(2)] by blast
  have f: "finite (whites g)" by (rule whites_finite [OF assms(1)])
  have s: "set zs \<subseteq> whites g" "set zs \<inter> whites g' = {}" "whites g' \<subseteq> whites g"
    using zs(3) advx_white [OF assms(2)] by (auto simp: newly_def whites_def white_def marked_def)
  have fin: "finite (whites g')" using finite_subset [OF s(3) f] .
  have "card (set zs \<union> whites g') = card (set zs) + card (whites g')" by (rule card_Un_disjoint) (use s(2) fin in auto)
  moreover have "card (set zs \<union> whites g') \<le> card (whites g)" by (rule card_mono [OF f]) (use s in auto)
  ultimately show ?thesis using zs(1,2) by (simp add: todo_def distinct_card)
qed

lemma alike_whites: "alike g g' \<Longrightarrow> whites g' = whites g"
  by (simp add: whites_def alike_eqs(3))

lemma todo_bound:
  assumes "minv T P xs g"
  shows "todo g < 2 * gc_fuel g"
proof -
  note i = minvD [OF assms]
  have f: "finite (dom (c_heap g))" and c: "card (dom (c_heap g)) < gc_fuel g" using i(1) by (simp_all add: sane_def)
  have "set (c_gray g) \<subseteq> dom (c_heap g)" using i(5) by (auto simp: lists_ok_def gray_def)
  then have "card (set (c_gray g)) \<le> card (dom (c_heap g))" by (rule card_mono [OF f])
  moreover have "distinct (c_gray g)" using i(5) by (simp add: lists_ok_def)
  then have "length (c_gray g) = card (set (c_gray g))" by (simp add: distinct_card)
  moreover have "card (whites g) < gc_fuel g" by (rule whites_bound [OF i(1)])
  ultimately show ?thesis using c by (simp add: todo_def)
qed

end
