(* ===== verification/LuaGcStep.thy ===== *)
theory LuaGcStep
  imports LuaGcInv
begin

text \<open>Traversing one object of each kind, and a step of propagation.\<close>

section \<open>Moves between the lists\<close>

definition phase :: "cstate \<Rightarrow> nat set \<Rightarrow> nat list \<Rightarrow> bool" where
  "phase g T P \<longleftrightarrow> (if c_gcstate g = GCSinsideatomic then T = {} else T = UNIV \<and> P = c_grayagain g)"

definition travd :: "nat set \<Rightarrow> nat list \<Rightarrow> cstate \<Rightarrow> cstate \<Rightarrow> bool" where
  "travd T P g g' \<longleftrightarrow> (\<exists>P'. phase g' T P' \<and> (c_gcstate g = GCSinsideatomic \<longrightarrow> P' = P) \<and> minv T P' [] g') \<and>
     evolves g g' \<and> todo g' \<le> todo g"

lemma phase_adv: "advx X g g' \<Longrightarrow> phase g' T P = phase g T P"
  using advx_fields(2,9) by (simp add: phase_def)

lemma lists_drop: "lists_ok P [a] g \<Longrightarrow> lists_ok P [] g"
  by (auto simp: lists_ok_def)

lemma minv_settle:
  assumes "minv T P [a] g" "\<And>th. \<not> thr g a th" "settled T P [] g a"
  shows "minv T P [] g"
proof (rule minv_move [OF assms(1)])
  show "lists_ok P [] g" by (rule lists_drop [OF minvD(5) [OF assms(1)]])
  show "weaks_ok g" by (rule minvD(6) [OF assms(1)])
  show "t \<in> set (c_gray g) \<union> set P \<union> set []" if "thr g t th" "t \<in> set (c_gray g) \<union> set P \<union> set [a]" for t th
    using that assms(2) by auto
  show "b \<in> set (c_gray g @ weaks g @ P @ []) \<or> settled T P [] g b" if "b \<in> set (c_gray g @ weaks g @ P @ [a])" for b
    using that assms(3) by auto
  show "t \<in> set [] \<or> gray g t" if h: "thr g t th" "marked g t" for t th
    using minvD(7) [OF assms(1) h(1)] h assms(2) by (auto simp: thr_ok_def)
qed simp_all

lemma minv_link:
  assumes m: "minv T P [a] g" and g: "gray g a" and h: "c_heap g' = c_heap g" and al: "alike g g'"
    and f: "c_gray g' = c_gray g" "c_twups g' = c_twups g" "c_gcstate g' = c_gcstate g" and w: "weaks_ok g'"
    and l: "set (weaks g' @ P') = insert a (set (weaks g @ P))" "distinct (weaks g' @ P')" "set P \<subseteq> set P'"
    and t: "a \<in> set P' \<or> (\<forall>th. \<not> thr g a th)"
  shows "minv T P' [] g'"
proof (rule minv_move [OF m al f(2) _ _ w])
  note lo = minvD(5) [OF m]
  have gr: "gray g' b = gray g b" for b by (simp add: gray_def h)
  have "set (c_gray g) \<inter> insert a (set (weaks g @ P)) = {}" using lo unfolding lists_ok_def by auto
  then have "set (c_gray g) \<inter> set (weaks g' @ P') = {}" by (simp only: l(1))
  moreover have "distinct (c_gray g)" using lo unfolding lists_ok_def by simp
  ultimately have d: "distinct (c_gray g' @ weaks g' @ P')" unfolding f(1) using l(2) by (simp only: distinct_append)
  have la: "is_listed g a" using lo by (simp add: lists_ok_def)
  have "gray g' b \<and> is_listed g' b" if b: "b \<in> set (c_gray g' @ weaks g' @ P')" for b
  proof -
    have "b \<in> insert a (set (c_gray g @ weaks g @ P))" using b l(1) f(1) by auto
    then have "gray g b \<and> is_listed g b" using lo g la unfolding lists_ok_def by blast
    then show ?thesis by (simp add: gr alike_eqs(4) [OF al])
  qed
  then show "lists_ok P' [] g'" using d unfolding lists_ok_def by simp
  show "t \<in> set (c_gray g') \<union> set P' \<union> set []" if "thr g t th" "t \<in> set (c_gray g) \<union> set P \<union> set [a]" for t th
    using that t l(3) f(1) by auto
  show "b \<in> set (c_gray g' @ weaks g' @ P' @ []) \<or> settled T P' [] g' b" if "b \<in> set (c_gray g @ weaks g @ P @ [a])" for b
    using that l(1) f(1) by auto
  show "t \<in> set [] \<or> gray g' t" if x: "thr g t th" "marked g t" for t th
    using minvD(7) [OF m x(1)] x g by (auto simp: thr_ok_def gr)
qed (use f in simp)

lemma linked_alike:
  "alike g (g\<lparr>c_weak := ws\<rparr>)" "alike g (g\<lparr>c_ephemeron := ws\<rparr>)" "alike g (g\<lparr>c_allweak := ws\<rparr>)"
  "alike g (g\<lparr>c_grayagain := ws\<rparr>)" "alike g (g\<lparr>c_gray := ws\<rparr>)"
  by (rule alike_same; simp add: gc_fuel_def)+

lemma linked_evolves:
  "evolves g (g\<lparr>c_weak := a # c_weak g\<rparr>)" "evolves g (g\<lparr>c_ephemeron := ws\<rparr>)" "evolves g (g\<lparr>c_allweak := a # c_allweak g\<rparr>)"
  "evolves g (g\<lparr>c_grayagain := ws\<rparr>)" "evolves g (g\<lparr>c_gray := ws\<rparr>)"
  by (rule alike_evolves [OF linked_alike(1)] alike_evolves [OF linked_alike(2)] alike_evolves [OF linked_alike(3)]
    alike_evolves [OF linked_alike(4)] alike_evolves [OF linked_alike(5)]; simp)+

lemma xs_new: "lists_ok P [a] g \<Longrightarrow> a \<notin> set (weaks g @ P) \<and> distinct (weaks g @ P)"
  unfolding lists_ok_def by auto

lemma link_weak:
  assumes "minv T P [a] g" "gray g a" "weak_tab g a" "\<And>th. \<not> thr g a th"
  shows "minv T P [] (g\<lparr>c_weak := a # c_weak g\<rparr>)"
proof (rule minv_link [OF assms(1,2) _ linked_alike(1)])
  show "weaks_ok (g\<lparr>c_weak := a # c_weak g\<rparr>)"
    using minvD(6) [OF assms(1)] assms(3) unfolding weaks_ok_def alike_weak_tabs [OF linked_alike(1)] by simp
qed (use xs_new [OF minvD(5) [OF assms(1)]] assms(4) in auto)

lemma link_eph:
  assumes "minv T P [a] g" "gray g a" "eph_tab g a" "\<And>th. \<not> thr g a th"
  shows "minv T P [] (g\<lparr>c_ephemeron := a # c_ephemeron g\<rparr>)"
proof (rule minv_link [OF assms(1,2) _ linked_alike(2)])
  show "weaks_ok (g\<lparr>c_ephemeron := a # c_ephemeron g\<rparr>)"
    using minvD(6) [OF assms(1)] assms(3) unfolding weaks_ok_def alike_weak_tabs [OF linked_alike(2)] by simp
qed (use xs_new [OF minvD(5) [OF assms(1)]] assms(4) in auto)

lemma link_key:
  assumes "minv T P [a] g" "gray g a" "key_tab g a" "\<And>th. \<not> thr g a th"
  shows "minv T P [] (g\<lparr>c_allweak := a # c_allweak g\<rparr>)"
proof (rule minv_link [OF assms(1,2) _ linked_alike(3)])
  show "weaks_ok (g\<lparr>c_allweak := a # c_allweak g\<rparr>)"
    using minvD(6) [OF assms(1)] assms(3) unfolding weaks_ok_def alike_weak_tabs [OF linked_alike(3)] by simp
qed (use xs_new [OF minvD(5) [OF assms(1)]] assms(4) in auto)

lemma link_again:
  assumes "minv T P [a] g" "gray g a"
  shows "minv T (a # P) [] (g\<lparr>c_grayagain := ws\<rparr>)"
proof (rule minv_link [OF assms(1,2) _ linked_alike(4)])
  show "weaks_ok (g\<lparr>c_grayagain := ws\<rparr>)" by (rule alike_weaks [OF linked_alike(4) minvD(6) [OF assms(1)]]) simp_all
qed (use xs_new [OF minvD(5) [OF assms(1)]] in auto)

text \<open>An object is taken from the list of gray objects, and changes its colour while it is traversed.\<close>

lemma take_gray:
  assumes "minv T P [] g" "c_gray g = a # rest"
  shows "minv T P [a] (g\<lparr>c_gray := rest\<rparr>)"
proof (rule minv_move [OF assms(1) linked_alike(5)])
  note lo = minvD(5) [OF assms(1)]
  have "gray g a \<and> is_listed g a" using lo assms(2) by (simp add: lists_ok_def)
  then show "lists_ok P [a] (g\<lparr>c_gray := rest\<rparr>)"
    using lo gray_marked [of g a] unfolding lists_ok_def assms(2) alike_eqs [OF linked_alike(5)] by (auto simp: gray_def)
  show "weaks_ok (g\<lparr>c_gray := rest\<rparr>)" by (rule alike_weaks [OF linked_alike(5) minvD(6) [OF assms(1)]]) simp_all
  show "t \<in> set [a] \<or> gray (g\<lparr>c_gray := rest\<rparr>) t" if h: "thr g t th" "marked g t" for t th
    using minvD(7) [OF assms(1) h(1)] h(2) by (simp add: thr_ok_def gray_def)
qed (use assms(2) in auto)

lemma recolor_alike:
  assumes "c_heap g a = Some ob" "\<not> iswhite_m (ob_marked ob)" "\<not> iswhite_m m" "tofinalize_m m = tofinalize_m (ob_marked ob)"
  shows "alike g (put_o a (ob\<lparr>ob_marked := m\<rparr>) g)"
  using assms by (auto simp: alike_def put_o_def gc_fuel_def option.rel_refl)

lemma recolor_evolves:
  assumes "c_heap g a = Some ob" "\<not> iswhite_m (ob_marked ob)" "\<not> iswhite_m m" "tofinalize_m m = tofinalize_m (ob_marked ob)"
  shows "evolves g (put_o a (ob\<lparr>ob_marked := m\<rparr>) g)"
  by (rule alike_evolves [OF recolor_alike [OF assms]]) (simp_all add: put_o_def)

lemma minv_recolor:
  assumes "minv T P [a] g" "c_heap g a = Some ob" "\<not> iswhite_m m" "tofinalize_m m = tofinalize_m (ob_marked ob)"
  shows "minv T P [a] (put_o a (ob\<lparr>ob_marked := m\<rparr>) g)"
proof -
  let ?g = "put_o a (ob\<lparr>ob_marked := m\<rparr>) g"
  note lo = minvD(5) [OF assms(1)]
  have w: "\<not> iswhite_m (ob_marked ob)" using lo assms(2) by (auto simp: lists_ok_def marked_def)
  note al = recolor_alike [OF assms(2) w assms(3,4)]
  have f: "c_gray ?g = c_gray g" "weaks ?g = weaks g" "c_twups ?g = c_twups g" "c_gcstate ?g = c_gcstate g" by (simp_all add: put_o_def)
  have gr: "gray ?g b = gray g b" if "b \<noteq> a" for b using that by (simp add: gray_def put_o_def)
  show ?thesis
  proof (rule minv_move [OF assms(1) al f(3)])
    have na: "a \<notin> set (c_gray g @ weaks g @ P)" using lo by (auto simp: lists_ok_def)
    have "\<forall>b\<in>set (c_gray g @ weaks g @ P). gray ?g b \<and> is_listed g b"
      using lo gr na unfolding lists_ok_def by metis
    then show "lists_ok P [a] ?g" using lo unfolding lists_ok_def f alike_eqs [OF al] by blast
    show "weaks_ok ?g" by (rule alike_weaks [OF al minvD(6) [OF assms(1)]]) (simp_all add: put_o_def)
    show "t \<in> set [a] \<or> gray ?g t" if h: "thr g t th" "marked g t" for t th
      using minvD(7) [OF assms(1) h(1)] h(2) gr by (cases "t = a") (auto simp: thr_ok_def)
  qed (use f in auto)
qed

lemma todo_same: "alike g g' \<Longrightarrow> c_gray g' = c_gray g \<Longrightarrow> todo g' = todo g"
  by (simp add: todo_def alike_whites)

section \<open>Tables\<close>

lemma gray_adv: "minv T P xs g \<Longrightarrow> a \<in> set xs \<Longrightarrow> gray g a \<Longrightarrow> adv g g' \<Longrightarrow> gray g' a"
  using adv_is_gray minvD(5) unfolding lists_ok_def by blast

lemma tab_thr: "tab g a h \<Longrightarrow> \<not> thr g a th"
  by (auto simp: tab_def thr_def)

lemma minv_ready: "minv T P xs g \<Longrightarrow> tab g a h \<Longrightarrow> ready a (length (h_node h)) (length (h_array h)) g"
  using minvD(1,2) unfolding ready_def by blast

lemma tab_settled:
  assumes "tab g a h" "meta_marked g h" "\<forall>r\<in>lrefs (h_array h). marked g r" "\<forall>e\<in>set (h_node h). both_marked g e"
  shows "settled T P xs g a"
proof -
  obtain ob where ob: "c_heap g a = Some ob" "ob_body ob = Tab h" using assms(1) by (auto simp: tab_def)
  have "\<forall>r\<in>body_refs (Tab h). marked g r"
    using assms(2-4) by (auto simp: body_refs_def meta_marked_def entry_refs_def vmarked_def)
  then show ?thesis using ob by (auto simp: settled_def body_upvals_def)
qed

text \<open>What a loop over the entries leaves, as a statement about the table.\<close>

lemma after_loop:
  assumes "adv g g'" "tab g a h" "meta_marked g h" "\<forall>i<length (h_node h). ent g' a i C"
  obtains h' where "tab g' a h'" "tab_shrinks h h'" "meta_marked g' h'" "\<forall>e\<in>set (h_node h'). C e"
proof -
  obtain h' where h': "tab g' a h'" "tab_shrinks h h'" using adv_tab [OF assms(1,2)] by blast
  have "\<forall>i<length (h_node h'). ent g' a i C" using assms(4) tab_shrinks_length [OF h'(2)] by simp
  then have "\<forall>e\<in>set (h_node h'). C e" by (rule ent_all [OF h'(1)])
  then show thesis using that h' adv_meta [OF assms(1,3) h'(2)] by blast
qed

lemma traversestrongtable_ok:
  assumes m: "minv T P [a] g" and h: "tab g a h" "meta_marked g h" and ph: "phase g T P"
  shows "okay (traversestrongtable a g) (travd T P g)"
  unfolding traversestrongtable_def tab_at_eq [OF h(1)] res_bind_Inr
proof (rule okay_bind [OF markvalues_ok])
  note s = minvD(1) [OF m]
  show "sane g" "lrefs (h_array h) \<subseteq> dom (c_heap g)" using s tab_refs(2) [OF s h(1)] by simp_all
  fix g1 assume g1: "adv g g1 \<and> (\<forall>r\<in>lrefs (h_array h). marked g1 r)"
  then have a1: "adv g g1" by simp
  note m1 = minv_adv [OF a1 m]
  obtain h1 where h1: "tab g1 a h1" "tab_shrinks h h1" using adv_tab [OF a1 h(1)] by blast
  have r: "ready a (length (h_node h)) (length (h_array h)) g1"
    using minv_ready [OF m1 h1(1)] tab_shrinks_length [OF h1(2)] by simp
  show "okay (res_fold (strong_entry a) [0..<length (h_node h)] g1) (travd T P g)"
  proof (rule okay_mono [OF strong_loop [OF r]])
    fix g2 assume g2: "adv g1 g2 \<and> (\<forall>i<length (h_node h). ent g2 a i (both_marked g2))"
    have a2: "adv g g2" using adv_trans a1 g2 by blast
    obtain h2 where h2: "tab g2 a h2" "tab_shrinks h h2" "meta_marked g2 h2" "\<forall>e\<in>set (h_node h2). both_marked g2 e"
      by (rule after_loop [OF a2 h]) (use g2 in auto)
    have "\<forall>r\<in>lrefs (h_array h). marked g2 r" using g1 g2 advx_marked by blast
    then have "\<forall>r\<in>lrefs (h_array h2). marked g2 r"
      using h2(2) adv_array [of "{}" g2 g2 h h2] by simp
    then have "settled T P [] g2 a" by (rule tab_settled [OF h2(1,3) _ h2(4)])
    then have "minv T P [] g2" by (rule minv_settle [OF minv_adv [OF a2 m] tab_thr [OF h2(1)]])
    then show "travd T P g g2" unfolding travd_def using adv_evolves [OF a2] todo_adv [OF s a2] phase_adv [OF a2] ph by blast
  qed
qed

text \<open>A table that is linked in the propagate phase is visited again; one that is linked later is in the list of its kind.\<close>

lemma travd_again:
  assumes "minv T P [a] g1" "gray g1 a" "phase g T P" "adv g g1" "sane g" "c_gcstate g1 \<noteq> GCSinsideatomic"
  shows "travd T P g (g1\<lparr>c_grayagain := a # c_grayagain g1\<rparr>)"
proof -
  let ?g = "g1\<lparr>c_grayagain := a # c_grayagain g1\<rparr>"
  have "phase g1 T P" using phase_adv [OF assms(4)] assms(3) by simp
  then have "phase ?g T (a # P)" using assms(6) by (simp add: phase_def)
  moreover have "minv T (a # P) [] ?g" by (rule link_again [OF assms(1,2)])
  moreover have "evolves g ?g" by (rule evolves_trans [OF adv_evolves [OF assms(4)] linked_evolves(4)])
  moreover have "todo ?g \<le> todo g"
    using todo_adv [OF assms(5,4)] todo_same [OF linked_alike(4)] by simp
  ultimately show ?thesis unfolding travd_def using assms(4,6) advx_fields(2) [OF assms(4)] by auto
qed

lemma travd_linked:
  assumes "minv T P [] g2" "phase g T P" "adv g g1" "sane g" "evolves g1 g2" "alike g1 g2" "c_gray g2 = c_gray g1"
    "c_grayagain g2 = c_grayagain g1"
  shows "travd T P g g2"
proof -
  have st: "c_gcstate g2 = c_gcstate g1" using assms(5) by (simp add: evolves_def)
  have "phase g1 T P" using phase_adv [OF assms(3)] assms(2) by simp
  then have "phase g2 T P" using assms(8) st by (simp add: phase_def)
  moreover have "todo g2 \<le> todo g" using todo_adv [OF assms(4,3)] todo_same [OF assms(6,7)] by simp
  ultimately show ?thesis
    unfolding travd_def using assms(1,2) evolves_trans [OF adv_evolves [OF assms(3)] assms(5)] by blast
qed

lemma traverseweakvalue_ok:
  assumes m: "minv T P [a] g" and g: "gray g a" and h: "tab g a h" "meta_marked g h" and ph: "phase g T P"
  shows "okay (traverseweakvalue a g) (travd T P g)"
  unfolding traverseweakvalue_def tab_at_eq [OF h(1)] res_bind_Inr
proof (rule okay_bind [OF weakvalue_loop [OF minv_ready [OF m h(1)]]])
  note s = minvD(1) [OF m]
  fix z assume z: "case z of (c', g') \<Rightarrow> adv g g' \<and> (0 < length (h_array h) \<longrightarrow> c') \<and>
    (\<forall>i<length (h_node h). ent g' a i (key_marked g')) \<and> (\<not> c' \<longrightarrow> (\<forall>i<length (h_node h). ent g' a i (both_marked g')))"
  obtain c g1 where zc: "z = (c, g1)" by (cases z)
  have a1: "adv g g1" using z zc by simp
  note m1 = minv_adv [OF a1 m]
  have gr: "gray g1 a" by (rule gray_adv [OF m _ g a1]) simp
  obtain h1 where h1: "tab g1 a h1" "tab_shrinks h h1" "meta_marked g1 h1" "\<forall>e\<in>set (h_node h1). key_marked g1 e"
    by (rule after_loop [OF a1 h]) (use z zc in auto)
  have again: "travd T P g (g1\<lparr>c_grayagain := a # c_grayagain g1\<rparr>)" if "c_gcstate g1 = GCSpropagate"
    by (rule travd_again [OF m1 gr ph a1 s]) (use that in simp)
  have weak: "travd T P g (g1\<lparr>c_weak := a # c_weak g1\<rparr>)"
  proof (rule travd_linked [OF _ ph a1 s linked_evolves(1) linked_alike(1)])
    have "weak_tab g1 a" using h1 by (auto simp: weak_tab_def)
    then show "minv T P [] (g1\<lparr>c_weak := a # c_weak g1\<rparr>)" by (rule link_weak [OF m1 gr _ tab_thr [OF h1(1)]])
  qed simp_all
  have none: "travd T P g g1" if c: "\<not> c"
  proof (rule travd_linked [OF _ ph a1 s evolves_refl alike_refl])
    have "h_array h1 = []" using z zc c tab_shrinks_length [OF h1(2)] by auto
    moreover have "\<forall>e\<in>set (h_node h1). both_marked g1 e"
      by (rule ent_all [OF h1(1)]) (use z zc c tab_shrinks_length [OF h1(2)] in auto)
    ultimately have "settled T P [] g1 a" by (intro tab_settled [OF h1(1,3)]) (simp_all add: lrefs_def)
    then show "minv T P [] g1" by (rule minv_settle [OF m1 tab_thr [OF h1(1)]])
  qed simp_all
  show "okay (case z of (hasclears, g) \<Rightarrow>
      if c_gcstate g = GCSpropagate then Inr (g\<lparr>c_grayagain := a # c_grayagain g\<rparr>)
      else if hasclears then Inr (g\<lparr>c_weak := a # c_weak g\<rparr>) else Inr g) (travd T P g)"
    unfolding zc using again weak none by simp
qed

text \<open>If nothing has been marked in the array or the entries, every entry is an ephemeron pair, and only strings have changed.\<close>

definition eph_quiet :: "nat \<Rightarrow> cstate \<Rightarrow> cstate \<Rightarrow> bool" where
  "eph_quiet a g g' \<longleftrightarrow> (\<exists>g1 h. adv_strings g g1 \<and> alike g1 g' \<and> c_heap g' = c_heap g1 \<and> c_gray g' = c_gray g1 \<and>
     tab g1 a h \<and> (\<forall>e\<in>set (h_node h). eph_pair g1 e))"

lemma traverseephemeron_ok:
  assumes m: "minv T P [a] g" and g: "gray g a" and h: "tab g a h" "meta_marked g h" and ph: "phase g T P"
  shows "okay (traverseephemeron a g) (\<lambda>(b, g'). travd T P g g' \<and> (if b then \<exists>c. newly g g' c else eph_quiet a g g') \<and>
    (\<exists>es. c_ephemeron g' = es @ c_ephemeron g \<and> set es \<subseteq> {a}))"
  unfolding traverseephemeron_def tab_at_eq [OF h(1)] res_bind_Inr
proof (rule okay_bind [OF eph_array])
  let ?e0 = "\<lparr>e_marked = False, e_clears = False, e_ww = False\<rparr>"
  note s = minvD(1) [OF m]
  show "sane g" "lrefs (h_array h) \<subseteq> dom (c_heap g)" using s tab_refs(2) [OF s h(1)] by simp_all
  fix s1 assume s1: "eph_adv (?e0, g) s1 \<and> (\<forall>r\<in>lrefs (h_array h). marked (snd s1) r)"
  obtain e1 g1 where z1: "s1 = (e1, g1)" by (cases s1)
  have a1: "adv g g1" using s1 z1 by (simp add: eph_adv_def)
  note m1 = minv_adv [OF a1 m]
  obtain h1 where h1: "tab g1 a h1" "tab_shrinks h h1" using adv_tab [OF a1 h(1)] by blast
  have r: "ready a (length (h_node h)) (length (h_array h)) g1"
    using minv_ready [OF m1 h1(1)] tab_shrinks_length [OF h1(2)] by simp
  show "okay (res_bind (res_fold (eph_entry a) [0..<length (h_node h)] s1) (\<lambda>(e, g).
       Inr (e_marked e,
         if c_gcstate g = GCSpropagate then g\<lparr>c_grayagain := a # c_grayagain g\<rparr>
         else if e_ww e then g\<lparr>c_ephemeron := a # c_ephemeron g\<rparr>
         else if e_clears e then g\<lparr>c_allweak := a # c_allweak g\<rparr>
         else g))) (\<lambda>(b, g'). travd T P g g' \<and> (if b then \<exists>c. newly g g' c else eph_quiet a g g') \<and>
    (\<exists>es. c_ephemeron g' = es @ c_ephemeron g \<and> set es \<subseteq> {a}))"
    unfolding z1
  proof (rule okay_bind [OF eph_loop [OF r]])
    fix s2 assume s2: "eph_adv (e1, g1) s2 \<and> (\<forall>i<length (h_node h). eph_flags s2 a i)"
    obtain e g2 where z2: "s2 = (e, g2)" by (cases s2)
    have ea: "eph_adv (?e0, g) (e, g2)" using eph_adv_trans s1 s2 z1 z2 by blast
    then have a2: "adv g g2" by (simp add: eph_adv_def)
    note m2 = minv_adv [OF a2 m]
    have gr: "gray g2 a" by (rule gray_adv [OF m _ g a2]) simp
    have fl: "\<forall>i<length (h_node h). eph_flags (e, g2) a i" using s2 z2 by simp
    have "empty_ok g2 a i \<Longrightarrow> ent g2 a i (nil_marked g2)" for i
      using adv_tab [OF a2 h(1)] by (auto simp: ent_def tab_empty_ok nil_marked_def)
    then have ni: "\<forall>i<length (h_node h). ent g2 a i (nil_marked g2)" using fl by (simp add: eph_flags_def)
    obtain h2 where h2: "tab g2 a h2" "tab_shrinks h h2" "meta_marked g2 h2" "\<forall>e\<in>set (h_node h2). nil_marked g2 e"
      by (rule after_loop [OF a2 h ni])
    have "\<forall>r\<in>lrefs (h_array h). marked g2 r" using s1 s2 z1 z2 advx_marked by (fastforce simp: eph_adv_def)
    then have arr: "\<forall>r\<in>lrefs (h_array h2). marked g2 r" using h2(2) adv_array [of "{}" g2 g2 h h2] by simp
    have all: "\<forall>p\<in>set (h_node h2). C p" if "\<forall>i<length (h_node h). ent g2 a i C" for C
      by (rule ent_all [OF h2(1)]) (use that tab_shrinks_length [OF h2(2)] in simp)
    let ?g = "if c_gcstate g2 = GCSpropagate then g2\<lparr>c_grayagain := a # c_grayagain g2\<rparr>
         else if e_ww e then g2\<lparr>c_ephemeron := a # c_ephemeron g2\<rparr>
         else if e_clears e then g2\<lparr>c_allweak := a # c_allweak g2\<rparr> else g2"
    note tl = travd_linked [OF _ ph a2 s]
    have again: "travd T P g (g2\<lparr>c_grayagain := a # c_grayagain g2\<rparr>)" if "c_gcstate g2 = GCSpropagate"
      by (rule travd_again [OF m2 gr ph a2 s]) (use that in simp)
    have eph: "travd T P g (g2\<lparr>c_ephemeron := a # c_ephemeron g2\<rparr>)"
    proof (rule tl [OF _ linked_evolves(2) linked_alike(2)])
      have "eph_tab g2 a" using h2 arr unfolding eph_tab_def by blast
      then show "minv T P [] (g2\<lparr>c_ephemeron := a # c_ephemeron g2\<rparr>)" by (rule link_eph [OF m2 gr _ tab_thr [OF h2(1)]])
    qed simp_all
    have key: "travd T P g (g2\<lparr>c_allweak := a # c_allweak g2\<rparr>)" if w: "\<not> e_ww e"
    proof (rule tl [OF _ linked_evolves(3) linked_alike(3)])
      have "\<forall>p\<in>set (h_node h2). vmarked g2 (snd p)" by (rule all) (use fl w in \<open>simp add: eph_flags_def\<close>)
      then have "key_tab g2 a" using h2 arr unfolding key_tab_def by blast
      then show "minv T P [] (g2\<lparr>c_allweak := a # c_allweak g2\<rparr>)" by (rule link_key [OF m2 gr _ tab_thr [OF h2(1)]])
    qed simp_all
    have none: "travd T P g g2" if w: "\<not> e_ww e" "\<not> e_clears e"
    proof (rule tl [OF _ evolves_refl alike_refl])
      have "\<forall>p\<in>set (h_node h2). both_marked g2 p" by (rule all) (use fl w in \<open>simp add: eph_flags_def\<close>)
      then have "settled T P [] g2 a" by (rule tab_settled [OF h2(1,3) arr])
      then show "minv T P [] g2" by (rule minv_settle [OF m2 tab_thr [OF h2(1)]])
    qed simp_all
    have "travd T P g ?g" using again eph key none by simp
    moreover have al: "alike g2 ?g" "c_heap ?g = c_heap g2" "c_gray ?g = c_gray g2" using linked_alike [of g2] by simp_all
    moreover have "if e_marked e then \<exists>c. newly g ?g c else eph_quiet a g ?g"
    proof (cases "e_marked e")
      case True
      then obtain c where "newly g g2 c" using ea by (auto simp: eph_adv_def)
      then have "newly g ?g c" using alike_eqs(2) [OF al(1)] by (simp add: newly_def)
      then show ?thesis using True by auto
    next
      case False
      have "\<forall>p\<in>set (h_node h2). eph_pair g2 p" by (rule all) (use fl False in \<open>simp add: eph_flags_def\<close>)
      moreover have "adv_strings g g2" using ea False by (simp add: eph_adv_def)
      ultimately show ?thesis unfolding eph_quiet_def using al h2(1) False by auto
    qed
    moreover have "\<exists>es. c_ephemeron ?g = es @ c_ephemeron g \<and> set es \<subseteq> {a}"
      using advx_fields(11) [OF a2] by auto
    ultimately show "okay (case s2 of (e, g) \<Rightarrow> Inr (e_marked e,
         if c_gcstate g = GCSpropagate then g\<lparr>c_grayagain := a # c_grayagain g\<rparr>
         else if e_ww e then g\<lparr>c_ephemeron := a # c_ephemeron g\<rparr>
         else if e_clears e then g\<lparr>c_allweak := a # c_allweak g\<rparr> else g))
      (\<lambda>(b, g'). travd T P g g' \<and> (if b then \<exists>c. newly g g' c else eph_quiet a g g') \<and>
        (\<exists>es. c_ephemeron g' = es @ c_ephemeron g \<and> set es \<subseteq> {a}))"
      unfolding z2 by simp
  qed
qed

text \<open>Tables by their modes, prototypes, closures and threads; a step of propagation and the whole propagation.\<close>

section \<open>Tables by their modes\<close>

lemma node_get_in: "node_get s ns \<noteq> VNil \<Longrightarrow> \<exists>p\<in>set ns. fst p = VRef s \<and> snd p = node_get s ns"
  by (induction s ns rule: node_get.induct) auto

lemma flags_ok:
  assumes "tab g m h"
  shows "okay (put_body m (Tab (h\<lparr>h_flags := w\<rparr>)) g) (\<lambda>g'. adv g g')"
proof -
  have "tab_shrinks h (h\<lparr>h_flags := w\<rparr>)" by (simp add: tab_shrinks_def list_all2_refl)
  then have "okay (put_body m (Tab (h\<lparr>h_flags := w\<rparr>)) g) (\<lambda>g'. adv g g' \<and> (\<forall>c. \<not> newly g g' c) \<and> tab g' m (h\<lparr>h_flags := w\<rparr>))"
    by (rule put_tab_ok [OF assms]) (use tab_empty_ok [OF assms] in \<open>simp add: vmarked_def\<close>)
  then show ?thesis by (rule okay_mono) simp
qed

definition field_of :: "cstate \<Rightarrow> nat option \<Rightarrow> nat \<Rightarrow> gval \<Rightarrow> bool" where
  "field_of g et e v \<longleftrightarrow> (\<exists>m h p. et = Some m \<and> tab g m h \<and> p \<in> set (h_node h) \<and> fst p = VRef (c_tmname g ! e) \<and> snd p = v)"

lemma gfasttm_ok:
  assumes "\<And>m. et = Some m \<Longrightarrow> is_tab g m"
  shows "okay (gfasttm et e g) (\<lambda>(tm, g'). adv g g' \<and> (\<forall>v. tm = Some v \<longrightarrow> g' = g \<and> v \<noteq> VNil \<and> field_of g et e v))"
proof (cases et)
  case None
  then show ?thesis by (simp add: gfasttm_def)
next
  case (Some m)
  then obtain h where h: "tab g m h" using assms by (auto simp: is_tab_def)
  show ?thesis
  proof (cases "h_flags h AND push_bit e 1 \<noteq> 0")
    case True
    then show ?thesis using Some h by (simp add: gfasttm_def tab_at_eq)
  next
    case False
    let ?tm = "node_get (c_tmname g ! e) (h_node h)"
    have e: "gfasttm et e g = (if ?tm = VNil
        then res_bind (put_body m (Tab (h\<lparr>h_flags := h_flags h OR push_bit e 1\<rparr>)) g) (\<lambda>g. Inr (None, g)) else Inr (Some ?tm, g))"
      using Some False by (simp add: gfasttm_def luaT_gettm_def tab_at_eq [OF h] Let_def)
    show ?thesis
    proof (cases "?tm = VNil")
      case True
      then have "gfasttm et e g = res_bind (put_body m (Tab (h\<lparr>h_flags := h_flags h OR push_bit e 1\<rparr>)) g) (\<lambda>g. Inr (None, g))"
        using e by simp
      then show ?thesis by (simp only:) (rule okay_bind [OF flags_ok [OF h]], simp)
    next
      case False
      then have "field_of g et e ?tm" unfolding field_of_def using Some h node_get_in [OF False] by blast
      then show ?thesis unfolding e using False by simp
    qed
  qed
qed

lemma mode_chars_ok:
  assumes "\<And>v. mode = Some v \<Longrightarrow> vrefs v \<subseteq> dom (c_heap g) \<and> \<not> both_modes g v"
  shows "okay (mode_chars mode g) (\<lambda>(k, v). \<not> (k \<and> v))"
proof (cases "\<exists>s. mode = Some (VRef s)")
  case True
  then obtain s where s: "mode = Some (VRef s)" by blast
  then obtain ob where ob: "c_heap g s = Some ob" using assms by auto
  show ?thesis
  proof (cases "ob_body ob")
    case (Str b bs)
    then have "\<not> (107 \<in> set (cstring bs) \<and> 118 \<in> set (cstring bs))" using assms [OF s] ob unfolding both_modes_def by blast
    then show ?thesis using s ob Str by (simp add: mode_chars_def deref_o_def)
  qed (use s ob in \<open>simp_all add: mode_chars_def deref_o_def\<close>)
next
  case False
  then have "mode_chars mode g = Inr (False, False)" by (auto simp: mode_chars_def split: option.splits gval.splits)
  then show ?thesis by simp
qed

lemma travd_adv:
  assumes "sane g" "adv g g1" "travd T P g1 g2" "phase g T P"
  shows "travd T P g g2"
proof -
  obtain P' where p: "phase g2 T P'" "c_gcstate g1 = GCSinsideatomic \<longrightarrow> P' = P" "minv T P' [] g2"
    "evolves g1 g2" "todo g2 \<le> todo g1" using assms(3) unfolding travd_def by blast
  have "c_gcstate g = GCSinsideatomic \<longrightarrow> P' = P" using p(2) advx_fields(2) [OF assms(2)] by simp
  moreover have "todo g2 \<le> todo g" using p(5) todo_adv [OF assms(1,2)] by simp
  ultimately show ?thesis unfolding travd_def using p(1,3) evolves_trans [OF adv_evolves [OF assms(2)] p(4)] by blast
qed

lemma travd_alike:
  assumes "alike g g1" "c_gray g1 = c_gray g" "evolves g g1" "travd T P g1 g2" "c_gcstate g1 = c_gcstate g"
  shows "travd T P g g2"
proof -
  obtain P' where p: "phase g2 T P'" "c_gcstate g1 = GCSinsideatomic \<longrightarrow> P' = P" "minv T P' [] g2"
    "evolves g1 g2" "todo g2 \<le> todo g1" using assms(4) unfolding travd_def by blast
  have "c_gcstate g = GCSinsideatomic \<longrightarrow> P' = P" using p(2) assms(5) by simp
  moreover have "todo g2 \<le> todo g" using p(5) todo_same [OF assms(1,2)] by simp
  ultimately show ?thesis unfolding travd_def using p(1,3) evolves_trans [OF assms(3) p(4)] by blast
qed

lemma traversetable_ok:
  assumes m: "minv T P [a] g" and h: "tab g a h" and ph: "phase g T P"
  shows "okay (traversetable a g) (travd T P g)"
  unfolding traversetable_def tab_at_eq [OF h] res_bind_Inr
proof (rule okay_bind [OF gfasttm_ok])
  note s = minvD(1) [OF m]
  have bo: "body_ok g (Tab h)" using minvD(2) [OF m] h by (fastforce simp: typed_def tab_def)
  show "is_tab g mt" if "h_metatable h = Some mt" for mt using bo that by (simp add: body_ok_def)
  fix z assume z: "case z of (tm, g') \<Rightarrow> adv g g' \<and>
    (\<forall>v. tm = Some v \<longrightarrow> g' = g \<and> v \<noteq> VNil \<and> field_of g (h_metatable h) TM_MODE v)"
  obtain mode g1 where zc: "z = (mode, g1)" by (cases z)
  have a1: "adv g g1" and mo: "\<And>v. mode = Some v \<Longrightarrow> field_of g (h_metatable h) TM_MODE v" using z zc by auto
  note m1 = minv_adv [OF a1 m]
  have mt: "set_option (h_metatable h) \<subseteq> dom (c_heap g1)" using tab_refs(1) [OF s h] advx_dom [OF a1] by simp
  show "okay (case z of (mode, g) \<Rightarrow> res_bind (markobjectN (h_metatable h) g) (\<lambda>g.
     res_bind (mode_chars mode g) (\<lambda>(weakkey, weakvalue).
       if weakkey \<or> weakvalue then
         res_bind (recolor black2gray_m a g) (\<lambda>g.
           if \<not> weakkey then traverseweakvalue a g
           else if \<not> weakvalue then res_bind (traverseephemeron a g) (\<lambda>(_, g). Inr g)
           else Inr (g\<lparr>c_allweak := a # c_allweak g\<rparr>))
       else traversestrongtable a g))) (travd T P g)"
    unfolding zc prod.case
  proof (rule okay_bind [OF markobjectN_ok [OF minvD(1) [OF m1] mt]])
    fix g2 assume g2: "adv g1 g2 \<and> (\<forall>r\<in>set_option (h_metatable h). marked g2 r)"
    have a2: "adv g g2" using adv_trans a1 g2 by blast
    note m2 = minv_adv [OF a2 m]
    have ph2: "phase g2 T P" using phase_adv [OF a2] ph by simp
    obtain h2 where h2: "tab g2 a h2" "tab_shrinks h h2" using adv_tab [OF a2 h] by blast
    have mm: "meta_marked g2 h2" using g2 h2(2) by (simp add: meta_marked_def tab_shrinks_def)
    have mo2: "vrefs v \<subseteq> dom (c_heap g2) \<and> \<not> both_modes g2 v" if v: "mode = Some v" for v
    proof -
      obtain mt h' p where p: "tab g mt h'" "p \<in> set (h_node h')" "fst p = VRef (c_tmname g ! TM_MODE)" "snd p = v"
        using mo [OF v] unfolding field_of_def by blast
      have "\<not> both_modes g v" using minvD(4) [OF m] p unfolding modes_def by blast
      moreover obtain i where "i < length (h_node h')" "p = h_node h' ! i" using p(2) by (auto simp: in_set_conv_nth)
      then have "vrefs v \<subseteq> dom (c_heap g)" using tab_refs(3) [OF s p(1)] p(4) by auto
      ultimately show ?thesis using adv_both_modes [OF a2] advx_dom [OF a2] by auto
    qed
    show "okay (res_bind (mode_chars mode g2) (\<lambda>(weakkey, weakvalue).
       if weakkey \<or> weakvalue then
         res_bind (recolor black2gray_m a g2) (\<lambda>g.
           if \<not> weakkey then traverseweakvalue a g
           else if \<not> weakvalue then res_bind (traverseephemeron a g) (\<lambda>(_, g). Inr g)
           else Inr (g\<lparr>c_allweak := a # c_allweak g\<rparr>))
       else traversestrongtable a g2)) (travd T P g)"
    proof (rule okay_bind [OF mode_chars_ok], rule mo2, assumption)
      fix kv :: "bool \<times> bool" assume kv: "case kv of (k, v) \<Rightarrow> \<not> (k \<and> v)"
      obtain k v where kvc: "kv = (k, v)" by (cases kv)
      show "okay (case kv of (weakkey, weakvalue) \<Rightarrow> if weakkey \<or> weakvalue then
         res_bind (recolor black2gray_m a g2) (\<lambda>g.
           if \<not> weakkey then traverseweakvalue a g
           else if \<not> weakvalue then res_bind (traverseephemeron a g) (\<lambda>(_, g). Inr g)
           else Inr (g\<lparr>c_allweak := a # c_allweak g\<rparr>))
       else traversestrongtable a g2) (travd T P g)"
      proof (cases "k \<or> v")
        case True
        obtain ob where ob: "c_heap g2 a = Some ob" "ob_body ob = Tab h2" using h2(1) by (auto simp: tab_def)
        have w: "\<not> iswhite_m (ob_marked ob)" using minvD(5) [OF m2] ob(1) by (auto simp: lists_ok_def marked_def)
        let ?m = "black2gray_m (ob_marked ob)"
        define g3 where "g3 = put_o a (ob\<lparr>ob_marked := ?m\<rparr>) g2"
        have wm: "\<not> iswhite_m ?m" "tofinalize_m ?m = tofinalize_m (ob_marked ob)" using w by simp_all
        have m3: "minv T P [a] g3" unfolding g3_def by (rule minv_recolor [OF m2 ob(1) wm])
        have al: "alike g2 g3" "evolves g2 g3" unfolding g3_def
          by (rule recolor_alike [OF ob(1) w wm], rule recolor_evolves [OF ob(1) w wm])
        have f3: "c_gray g3 = c_gray g2" "c_gcstate g3 = c_gcstate g2" "phase g3 T P"
          using ph2 by (simp_all add: g3_def put_o_def phase_def)
        have gr: "gray g3 a" using w by (simp add: gray_def g3_def put_o_def mark_bits(3))
        have h3: "tab g3 a h2" "meta_marked g3 h2" using h2(1) mm alike_eqs [OF al(1)] by (simp_all add: meta_marked_def)
        have lift: "travd T P g g'" if "travd T P g3 g'" for g'
          by (rule travd_adv [OF s a2 travd_alike [OF al(1) f3(1) al(2) that f3(2)] ph])
        have "okay (if \<not> k then traverseweakvalue a g3
           else if \<not> v then res_bind (traverseephemeron a g3) (\<lambda>(_, g). Inr g)
           else Inr (g3\<lparr>c_allweak := a # c_allweak g3\<rparr>)) (travd T P g)"
        proof (cases k)
          case False
          then show ?thesis using okay_mono [OF traverseweakvalue_ok [OF m3 gr h3 f3(3)] lift] by simp
        next
          case True
          then have "\<not> v" using kv kvc by simp
          moreover have "okay (res_bind (traverseephemeron a g3) (\<lambda>(_, g). Inr g)) (travd T P g)"
            by (rule okay_bind [OF traverseephemeron_ok [OF m3 gr h3 f3(3)]]) (auto intro: lift)
          ultimately show ?thesis using True by simp
        qed
        moreover have rc: "recolor black2gray_m a g2 = Inr g3" by (simp add: recolor_eq [OF ob(1)] g3_def)
        ultimately show ?thesis unfolding kvc prod.case rc res_bind_Inr using True by (simp only: if_True)
      next
        case False
        have "okay (traversestrongtable a g2) (travd T P g)"
          by (rule okay_mono [OF traversestrongtable_ok [OF m2 h2(1) mm ph2]]) (rule travd_adv [OF s a2 _ ph])
        then show ?thesis using False by (simp add: kvc)
      qed
    qed
  qed
qed

section \<open>Prototypes and closures\<close>

lemma settle_marked:
  assumes m: "minv T P [a] g" and ph: "phase g T P" and ob: "c_heap g a = Some ob" and nt: "\<And>th. ob_body ob \<noteq> Thr th"
    and a: "adv g g'" and r: "\<forall>r\<in>body_refs (ob_body ob). marked g' r"
    and u: "\<forall>u\<in>body_upvals (ob_body ob). upv_ok T P [a] g' u"
  shows "travd T P g g'"
proof -
  note m' = minv_adv [OF a m]
  obtain ob' where ob': "c_heap g' a = Some ob'" "ob_adv ob ob'" using advx_obj [OF a ob] by blast
  have sh: "shrinks (ob_body ob) (ob_body ob')" by (rule ob_advD(1) [OF ob'(2)])
  have nt': "\<not> thr g' a th" for th
  proof
    assume "thr g' a th"
    then have "ob_body ob' = Thr th" using ob'(1) by (auto simp: thr_def)
    then have "shrinks (ob_body ob) (Thr th)" using sh by simp
    then show False using nt by (cases "ob_body ob") (auto simp: shrinks_def)
  qed
  have "upv_ok T P [] g' v" if v: "v \<in> body_upvals (ob_body ob')" for v
  proof (rule alike_upv_ok [OF alike_refl minvD(3) [OF m']])
    show "upv_ok T P [a] g' v" using u v shrinks_upvals [OF sh] by simp
    show "t \<in> set (c_gray g') \<union> set P \<union> set []" if "thr g' t th" "t \<in> set (c_gray g') \<union> set P \<union> set [a]" for t th
      using that nt' by auto
  qed
  then have "settled T P [] g' a" unfolding settled_def using ob'(1) r shrinks_refs [OF sh] by blast
  then have "minv T P [] g'" by (rule minv_settle [OF m' nt'])
  then show ?thesis
    unfolding travd_def using adv_evolves [OF a] todo_adv [OF minvD(1) [OF m] a] phase_adv [OF a] ph by blast
qed

lemma mark_bind:
  assumes "adv g g1" "sane g" "R \<subseteq> dom (c_heap g)"
    "\<And>g. sane g \<Longrightarrow> R \<subseteq> dom (c_heap g) \<Longrightarrow> okay (f g) (\<lambda>g'. adv g g' \<and> (\<forall>r\<in>R. marked g' r))"
    "\<And>g2. adv g g2 \<Longrightarrow> adv g1 g2 \<Longrightarrow> \<forall>r\<in>R. marked g2 r \<Longrightarrow> okay (k g2) Q"
  shows "okay (res_bind (f g1) k) Q"
proof (rule okay_bind [OF assms(4)])
  show "sane g1" "R \<subseteq> dom (c_heap g1)" using advx_sane [OF assms(1,2)] advx_dom [OF assms(1)] assms(3) by simp_all
  fix g2 assume "adv g1 g2 \<and> (\<forall>r\<in>R. marked g2 r)"
  then show "okay (k g2) Q" using assms(5) adv_trans [OF assms(1)] by blast
qed

lemma traverseproto_ok:
  assumes m: "minv T P [a] g" and ob: "c_heap g a = Some ob" "ob_body ob = Prt f" and ph: "phase g T P"
  shows "okay (traverseproto a f g) (travd T P g)"
proof -
  note s = minvD(1) [OF m]
  have r: "body_refs (Prt f) \<subseteq> dom (c_heap g)" using saneD(1) [OF s ob(1)] ob(2) by simp
  let ?cache = "case pr_cache f of None \<Rightarrow> Inr g
       | Some c \<Rightarrow> res_bind (iswhite_o c g) (\<lambda>w. if w then put_body a (Prt (f\<lparr>pr_cache := None\<rparr>)) g else Inr g)"
  have c: "okay ?cache (\<lambda>g1. adv g g1 \<and> (\<exists>ob1 f1. c_heap g1 a = Some ob1 \<and> ob_body ob1 = Prt f1 \<and>
      (f1 = f \<or> f1 = f\<lparr>pr_cache := None\<rparr>) \<and> (\<forall>r\<in>set_option (pr_cache f1). marked g1 r)))"
  proof (cases "pr_cache f")
    case None
    then show ?thesis using ob by simp
  next
    case (Some c)
    then have d: "c \<in> dom (c_heap g)" using r by (auto simp: body_refs_def)
    show ?thesis
    proof (cases "white g c")
      case True
      have "adv g (put_o a (ob\<lparr>ob_body := Prt (f\<lparr>pr_cache := None\<rparr>)\<rparr>) g)"
        by (rule adv_heap [OF ob(1)]) (simp_all add: shrinks_def ob(2))
      then show ?thesis using Some True d by (simp add: iswhite_o_eq put_body_eq [OF ob(1)] put_o_def)
    next
      case False
      then show ?thesis using Some ob not_white [OF d] by (simp add: iswhite_o_eq [OF d])
    qed
  qed
  show ?thesis
    unfolding traverseproto_def
  proof (rule okay_bind [OF c])
    fix g1 assume "adv g g1 \<and> (\<exists>ob1 f1. c_heap g1 a = Some ob1 \<and> ob_body ob1 = Prt f1 \<and>
      (f1 = f \<or> f1 = f\<lparr>pr_cache := None\<rparr>) \<and> (\<forall>r\<in>set_option (pr_cache f1). marked g1 r))"
    then obtain ob1 f1 where a1: "adv g g1" and ob1: "c_heap g1 a = Some ob1" "ob_body ob1 = Prt f1"
      "f1 = f \<or> f1 = f\<lparr>pr_cache := None\<rparr>" "\<forall>r\<in>set_option (pr_cache f1). marked g1 r" by blast
    note m1 = minv_adv [OF a1 m]
    note s1 = minvD(1) [OF m1]
    have d: "set_option (pr_source f) \<subseteq> dom (c_heap g1)" "lrefs (pr_k f) \<subseteq> dom (c_heap g1)"
      "orefs (pr_upvalues f) \<subseteq> dom (c_heap g1)" "orefs (pr_p f) \<subseteq> dom (c_heap g1)" "orefs (pr_locvars f) \<subseteq> dom (c_heap g1)"
      using r advx_dom [OF a1] by (auto simp: body_refs_def)
    show "okay (res_bind (markobjectN (pr_source f) g1) (\<lambda>g.
     res_bind (res_fold markvalue_o (pr_k f) g) (\<lambda>g.
     res_bind (res_fold markobjectN (pr_upvalues f) g) (\<lambda>g.
     res_bind (res_fold markobjectN (pr_p f) g) (\<lambda>g.
       res_fold markobjectN (pr_locvars f) g))))) (travd T P g)"
    proof (rule mark_bind [OF advx_refl s1 d(1) markobjectN_ok])
      fix g2 assume 2: "adv g1 g2" "\<forall>r\<in>set_option (pr_source f). marked g2 r"
      show "okay (res_bind (res_fold markvalue_o (pr_k f) g2) (\<lambda>g.
     res_bind (res_fold markobjectN (pr_upvalues f) g) (\<lambda>g.
     res_bind (res_fold markobjectN (pr_p f) g) (\<lambda>g.
       res_fold markobjectN (pr_locvars f) g)))) (travd T P g)"
      proof (rule mark_bind [OF 2(1) s1 d(2) markvalues_ok])
        fix g3 assume 3: "adv g1 g3" "adv g2 g3" "\<forall>r\<in>lrefs (pr_k f). marked g3 r"
        show "okay (res_bind (res_fold markobjectN (pr_upvalues f) g3) (\<lambda>g.
     res_bind (res_fold markobjectN (pr_p f) g) (\<lambda>g.
       res_fold markobjectN (pr_locvars f) g))) (travd T P g)"
        proof (rule mark_bind [OF 3(1) s1 d(3) markobjectsN_ok])
          fix g4 assume 4: "adv g1 g4" "adv g3 g4" "\<forall>r\<in>orefs (pr_upvalues f). marked g4 r"
          show "okay (res_bind (res_fold markobjectN (pr_p f) g4) (\<lambda>g. res_fold markobjectN (pr_locvars f) g)) (travd T P g)"
          proof (rule mark_bind [OF 4(1) s1 d(4) markobjectsN_ok])
            fix g5 assume 5: "adv g1 g5" "adv g4 g5" "\<forall>r\<in>orefs (pr_p f). marked g5 r"
            have "okay (res_fold markobjectN (pr_locvars f) g5) (\<lambda>g'. adv g5 g' \<and> (\<forall>r\<in>orefs (pr_locvars f). marked g' r))"
              by (rule markobjectsN_ok [OF advx_sane [OF 5(1) s1]]) (use d(5) advx_dom [OF 5(1)] in simp)
            then show "okay (res_fold markobjectN (pr_locvars f) g5) (travd T P g)"
            proof (rule okay_mono)
              fix g6 assume 6: "adv g5 g6 \<and> (\<forall>r\<in>orefs (pr_locvars f). marked g6 r)"
              have x1: "adv g5 g6" using 6 by simp
              note x2 = adv_trans [OF 5(2) x1]
              note x3 = adv_trans [OF 4(2) x2]
              note x4 = adv_trans [OF 3(2) x3]
              note x = x1 x2 x3 x4 adv_trans [OF 2(1) x4]
              have "\<forall>r\<in>set_option (pr_source f). marked g6 r" using 2(2) advx_marked [OF x(4)] by blast
              moreover have "\<forall>r\<in>lrefs (pr_k f). marked g6 r" using 3(3) advx_marked [OF x(3)] by blast
              moreover have "\<forall>r\<in>orefs (pr_upvalues f). marked g6 r" using 4(3) advx_marked [OF x(2)] by blast
              moreover have "\<forall>r\<in>orefs (pr_p f). marked g6 r" using 5(3) advx_marked [OF x(1)] by blast
              moreover have "\<forall>r\<in>set_option (pr_cache f1). marked g6 r" using ob1(4) advx_marked [OF x(5)] by blast
              moreover have "body_refs (Prt f1) = set_option (pr_cache f1) \<union> set_option (pr_source f) \<union> lrefs (pr_k f) \<union>
                orefs (pr_upvalues f) \<union> orefs (pr_p f) \<union> orefs (pr_locvars f)"
                using ob1(3) by (auto simp: body_refs_def)
              ultimately have "\<forall>r\<in>body_refs (Prt f1). marked g6 r" using 6 by (simp only: ball_Un) (intro conjI; blast)
              then have "travd T P g1 g6"
                by (intro settle_marked [OF m1 _ ob1(1) _ x(5)]) (use ph phase_adv [OF a1] ob1(2) in \<open>simp_all add: body_upvals_def\<close>)
              then show "travd T P g g6" by (rule travd_adv [OF s a1 _ ph])
            qed
          qed
        qed
      qed
    qed
  qed
qed

lemma traverseCclosure_ok:
  assumes m: "minv T P [a] g" and ob: "c_heap g a = Some ob" "ob_body ob = CCl vs" and ph: "phase g T P"
  shows "okay (traverseCclosure vs g) (travd T P g)"
  unfolding traverseCclosure_def
proof (rule okay_mono [OF markvalues_ok [OF minvD(1) [OF m]]])
  show "lrefs vs \<subseteq> dom (c_heap g)" using saneD(1) [OF minvD(1) [OF m] ob(1)] ob(2) by (simp add: body_refs_def)
  show "travd T P g g'" if "adv g g' \<and> (\<forall>r\<in>lrefs vs. marked g' r)" for g'
    by (rule settle_marked [OF m ph ob(1)]) (use that ob(2) in \<open>simp_all add: body_refs_def body_upvals_def\<close>)
qed

lemma upval_value_ok:
  assumes "sane g" "typed g" "uwf g" "c_upvals g u = Some uv"
  shows "\<exists>v. upval_value u g = Inr v \<and> vrefs v \<subseteq> dom (c_heap g) \<and> (u_open uv = None \<longrightarrow> v = u_value uv) \<and>
    (\<forall>t i. u_open uv = Some (t, i) \<longrightarrow> (\<exists>th. thr g t th \<and> i < th_top th \<and> i < length (th_stack th) \<and> v = th_stack th ! i))"
proof (cases "u_open uv")
  case None
  then show ?thesis using uwfD(2) [OF assms(3,4)] assms(4) by (simp add: upval_value_def deref_u_def)
next
  case (Some p)
  obtain t i where p: "p = (t, i)" by (cases p)
  obtain th where th: "thr g t th" "i < th_top th" using uwfD(1) [OF assms(3,4)] Some p by blast
  then have l: "i < length (th_stack th)" using typed_thr [OF assms(2)] by fastforce
  have v: "upval_value u g = Inr (th_stack th ! i)"
    using Some p l assms(4) by (simp add: upval_value_def deref_u_def thr_at_eq [OF th(1)])
  obtain ob where ob: "c_heap g t = Some ob" "ob_body ob = Thr th" using th(1) by (auto simp: thr_def)
  have "lrefs (th_stack th) \<subseteq> dom (c_heap g)" using saneD(1) [OF assms(1) ob(1)] ob(2) by (simp add: body_refs_def)
  moreover have "vrefs (th_stack th ! i) \<subseteq> lrefs (th_stack th)" using nth_mem [OF l] by (auto simp: lrefs_def)
  ultimately have "vrefs (th_stack th ! i) \<subseteq> dom (c_heap g)" by blast
  then show ?thesis using v Some p th l by auto
qed

lemma marked_upval:
  assumes "minv T P xs g" "c_upvals g u = Some uv" "upval_value u g = Inr v" "adv g g'" "\<forall>r\<in>vrefs v. marked g' r"
  shows "upv_ok T' P' xs' g' u"
proof -
  note i = minvD [OF assms(1)]
  obtain uv' where uv': "c_upvals g' u = Some uv'" "upv_adv uv uv'" using advx_upv [OF assms(4,2)] by blast
  note d = upv_advD [OF uv'(2)]
  have v': "u_open uv = None \<Longrightarrow> v = u_value uv"
    "\<And>t i. u_open uv = Some (t, i) \<Longrightarrow> \<exists>th. thr g t th \<and> i < th_top th \<and> i < length (th_stack th) \<and> v = th_stack th ! i"
    using upval_value_ok [OF i(1-3) assms(2)] assms(3) by auto
  show ?thesis
  proof (cases "u_open uv")
    case None
    then show ?thesis using uv'(1) d v'(1) assms(5) by (auto simp: upv_ok_def vmarked_def)
  next
    case (Some p)
    obtain t k where p: "p = (t, k)" by (cases p)
    obtain th where th: "thr g t th" "k < th_top th" "v = th_stack th ! k" using v'(2) [of t k] Some p by auto
    obtain th' where th': "thr g' t th'" "thr_shrinks th th'" using adv_thr [OF assms(4) th(1)] by blast
    have "k < length (th_stack th')"
      using typed_thr [OF adv_typed [OF assms(4) i(2)] th'(1)] thr_shrinksD(1) [OF th'(2)] th(2) by simp
    then have "th_stack th' ! k = v" using thr_shrinksD(4) [OF th'(2) th(2)] th(3) by simp
    then have "\<exists>th. thr g' t th \<and> vmarked g' (th_stack th ! k)" using th'(1) assms(5) by (auto simp: vmarked_def)
    then show ?thesis using uv'(1) d Some p unfolding upv_ok_def by auto
  qed
qed

lemma closure_upval_ok:
  assumes m: "minv T P [a] g" and ph: "phase g T P" and x: "set_option x \<subseteq> dom (c_upvals g)"
  shows "okay (closure_upval x g) (\<lambda>g'. adv g g' \<and> (\<forall>u\<in>set_option x. upv_ok T P [a] g' u))"
proof (cases x)
  case None
  then show ?thesis by (simp add: closure_upval_def)
next
  case (Some u)
  then obtain uv where uv: "c_upvals g u = Some uv" using x by auto
  show ?thesis
  proof (cases "u_open uv \<noteq> None \<and> c_gcstate g \<noteq> GCSinsideatomic")
    case True
    obtain t i where o: "u_open uv = Some (t, i)" using True by auto
    have "T = UNIV" using ph True by (simp add: phase_def)
    then have "upv_ok T P [a] (put_u u (uv\<lparr>u_touched := True\<rparr>) g) u"
      using o by (simp add: upv_ok_def put_u_def)
    then show ?thesis
      using Some uv True adv_touch [OF uv] by (simp add: closure_upval_def deref_u_def set_touched_def)
  next
    case False
    obtain v where v: "upval_value u g = Inr v" "vrefs v \<subseteq> dom (c_heap g)"
      using upval_value_ok [OF minvD(1-3) [OF m] uv] by blast
    have e: "closure_upval x g = markvalue_o v g"
    proof (cases "u_open uv")
      case None
      then show ?thesis using Some uv v(1) by (simp add: closure_upval_def deref_u_def)
    next
      case (Some y)
      then show ?thesis using \<open>x = Some u\<close> False uv v(1) by (simp add: closure_upval_def deref_u_def)
    qed
    show ?thesis
      unfolding e by (rule okay_mono [OF markvalue_ok [OF minvD(1) [OF m] v(2)]]) (use Some marked_upval [OF m uv v(1)] in auto)
  qed
qed

lemma traverseLclosure_ok:
  assumes m: "minv T P [a] g" and ob: "c_heap g a = Some ob" "ob_body ob = LCl p us" and ph: "phase g T P"
  shows "okay (traverseLclosure p us g) (travd T P g)"
  unfolding traverseLclosure_def
proof (rule okay_bind [OF markobjectN_ok [OF minvD(1) [OF m]]])
  show "set_option p \<subseteq> dom (c_heap g)" using saneD(1) [OF minvD(1) [OF m] ob(1)] ob(2) by (simp add: body_refs_def)
  fix g1 assume g1: "adv g g1 \<and> (\<forall>r\<in>set_option p. marked g1 r)"
  then have a1: "adv g g1" by simp
  note m1 = minv_adv [OF a1 m]
  have "orefs us \<subseteq> dom (c_upvals g)" using uwfD(4) [OF minvD(3) [OF m] ob(1)] ob(2) by (simp add: body_upvals_def)
  moreover have "dom (c_upvals g) \<subseteq> dom (c_upvals g1)" using advx_upv [OF a1] by blast
  ultimately have d: "orefs us \<subseteq> dom (c_upvals g1)" by blast
  let ?I = "\<lambda>s. minv T P [a] s \<and> phase s T P \<and> orefs us \<subseteq> dom (c_upvals s)"
  have "okay (res_fold closure_upval us g1) (\<lambda>g2. ?I g2 \<and> adv g1 g2 \<and> (\<forall>x\<in>set us. \<forall>u\<in>set_option x. upv_ok T P [a] g2 u \<and> typed g2))"
  proof (rule okay_fold)
    fix x s assume x: "x \<in> set us" and s: "?I s"
    then have "set_option x \<subseteq> dom (c_upvals s)" by (auto simp: orefs_def)
    then have "okay (closure_upval x s) (\<lambda>g'. adv s g' \<and> (\<forall>u\<in>set_option x. upv_ok T P [a] g' u))"
      using closure_upval_ok s by blast
    then show "okay (closure_upval x s) (\<lambda>s'. ?I s' \<and> adv s s' \<and> (\<forall>u\<in>set_option x. upv_ok T P [a] s' u \<and> typed s'))"
    proof (rule okay_mono)
      fix s' assume s': "adv s s' \<and> (\<forall>u\<in>set_option x. upv_ok T P [a] s' u)"
      have "dom (c_upvals s) \<subseteq> dom (c_upvals s')" using advx_upv s' by blast
      then have "orefs us \<subseteq> dom (c_upvals s')" using s by blast
      then show "?I s' \<and> adv s s' \<and> (\<forall>u\<in>set_option x. upv_ok T P [a] s' u \<and> typed s')"
        using s s' minv_adv phase_adv minvD(2) by blast
    qed
  next
    fix x s s' assume "?I s" "?I s'" "adv s s'" "\<forall>u\<in>set_option x. upv_ok T P [a] s u \<and> typed s"
    then show "\<forall>u\<in>set_option x. upv_ok T P [a] s' u \<and> typed s'" using adv_upv_ok minvD(2,3) by blast
  qed (use m1 ph phase_adv [OF a1] d adv_trans in auto)
  then show "okay (res_fold closure_upval us g1) (travd T P g)"
  proof (rule okay_mono)
    fix g2 assume g2: "?I g2 \<and> adv g1 g2 \<and> (\<forall>x\<in>set us. \<forall>u\<in>set_option x. upv_ok T P [a] g2 u \<and> typed g2)"
    show "travd T P g g2"
    proof (rule settle_marked [OF m ph ob(1)])
      show "adv g g2" using adv_trans a1 g2 by blast
      show "\<forall>r\<in>body_refs (ob_body ob). marked g2 r" using g1 g2 ob(2) advx_marked by (simp add: body_refs_def) blast
      show "\<forall>u\<in>body_upvals (ob_body ob). upv_ok T P [a] g2 u" using g2 ob(2) by (auto simp: body_upvals_def orefs_def)
    qed (use ob(2) in simp)
  qed
qed

text \<open>Threads; a step of propagation, and propagation until no gray object is left.\<close>

section \<open>Threads\<close>

lemma minv_grayagain:
  assumes "minv T P xs g"
  shows "minv T P xs (g\<lparr>c_grayagain := ws\<rparr>)"
proof (rule minv_move [OF assms linked_alike(4)])
  show "lists_ok P xs (g\<lparr>c_grayagain := ws\<rparr>)"
    using minvD(5) [OF assms] unfolding lists_ok_def alike_eqs [OF linked_alike(4)] by (simp add: gray_def)
  show "weaks_ok (g\<lparr>c_grayagain := ws\<rparr>)" by (rule alike_weaks [OF linked_alike(4) minvD(6) [OF assms]]) simp_all
  show "t \<in> set xs \<or> gray (g\<lparr>c_grayagain := ws\<rparr>) t" if h: "thr g t th" "marked g t" for t th
    using minvD(7) [OF assms h(1)] h(2) by (simp add: thr_ok_def gray_def)
qed auto

lemma fold_max_ge: "(t :: nat) \<le> fold max xs t"
  by (induction xs arbitrary: t) (auto intro: le_trans [OF max.cobounded2])

lemma shrinkstack_ok:
  assumes "th_top th \<le> length (th_stack th)"
  shows "thr_shrinks th (luaD_shrinkstack th)"
proof -
  have "th_top th < stackinuse th" using fold_max_ge [of "th_top th" "th_citops th"] by (simp add: stackinuse_def)
  then show ?thesis using assms by (auto simp: luaD_shrinkstack_def thr_shrinks_def Let_def)
qed

lemma clear_slice_ok:
  assumes "th_top th \<le> length (th_stack th)"
  shows "thr_shrinks th (clear_slice th)" "lrefs (th_stack (clear_slice th)) = lrefs (take (th_top th) (th_stack th))"
  using assms by (auto simp: clear_slice_def thr_shrinks_def nth_append val_shrinks_def lrefs_def)

lemma put_thr_ok:
  assumes "thr g a th" "thr_shrinks th th'"
  shows "okay (put_body a (Thr th') g) (\<lambda>g'. adv g g' \<and> thr g' a th' \<and> (\<forall>c. marked g' c = marked g c))"
proof -
  obtain ob where ob: "c_heap g a = Some ob" "ob_body ob = Thr th" using assms(1) by (auto simp: thr_def)
  have "adv g (put_o a (ob\<lparr>ob_body := Thr th'\<rparr>) g)" by (rule adv_heap [OF ob(1)]) (use assms(2) ob(2) in \<open>auto simp: shrinks_def\<close>)
  then show ?thesis using ob(1) by (auto simp: put_body_eq [OF ob(1)] thr_def marked_def put_o_def)
qed

text \<open>The last traversal of a thread, in the atomic phase.\<close>

lemma settle_thread:
  assumes m: "minv {} P [a] g" and h: "thr g a th" and g: "gray g a" and r: "\<forall>r\<in>lrefs (th_stack th). marked g r"
    and g': "g' = (if a \<notin> set (c_twups g) \<and> th_openupval th \<noteq> [] then g\<lparr>c_twups := a # c_twups g\<rparr> else g)"
  shows "minv {} P [] g'"
proof -
  note i = minvD [OF m]
  have f: "c_heap g' = c_heap g" "c_gray g' = c_gray g" "weaks g' = weaks g" by (simp_all add: g')
  have al: "alike g g'" by (rule alike_same) (simp_all add: g' gc_fuel_def)
  have gr: "gray g' = gray g" unfolding gray_def fun_eq_iff f by simp
  note e = alike_eqs [OF al] gr
  have am: "marked g a" by (rule gray_marked [OF g])
  have ob: "settled {} P [] g' b" if s: "settled {} P [a] g b" for b
  proof -
    have "upv_ok {} P [] g' u" if u: "upv_ok {} P [a] g u" for u
    proof -
      have up: "c_upvals g' = c_upvals g" by (simp add: g')
      obtain uv where uv: "c_upvals g u = Some uv" "case u_open uv of
            None \<Rightarrow> vmarked g (u_value uv)
          | Some (t, i) \<Rightarrow> t \<in> set (c_gray g) \<union> set P \<union> set [a] \<or> t \<in> {} \<and> u_touched uv \<or>
              (\<exists>th. thr g t th \<and> vmarked g (th_stack th ! i))"
        using u unfolding upv_ok_def by blast
      have "case u_open uv of
            None \<Rightarrow> vmarked g' (u_value uv)
          | Some (t, i) \<Rightarrow> t \<in> set (c_gray g') \<union> set P \<union> set [] \<or> t \<in> {} \<and> u_touched uv \<or>
              (\<exists>th. thr g' t th \<and> vmarked g' (th_stack th ! i))"
      proof (cases "u_open uv")
        case None
        then show ?thesis using uv(2) by (simp add: e)
      next
        case (Some p)
        obtain t k where p: "p = (t, k)" by (cases p)
        show ?thesis
        proof (cases "t = a")
          case True
          obtain th0 where "thr g t th0" "k < th_top th0" using uwfD(1) [OF i(3) uv(1)] Some p by blast
          then have "k < th_top th" using True thr_fun [OF h] by blast
          then have "k < length (th_stack th)" using typed_thr [OF i(2) h] by simp
          then have "vmarked g (th_stack th ! k)" using r nth_mem by (fastforce simp: vmarked_def lrefs_def)
          then show ?thesis using Some p True h by (auto simp: e)
        next
          case False
          then show ?thesis using uv(2) Some p by (auto simp: e f)
        qed
      qed
      then show ?thesis unfolding upv_ok_def up using uv(1) by blast
    qed
    moreover have "c_heap g' b = c_heap g b" by (simp add: f)
    ultimately show ?thesis using s unfolding settled_def e by auto
  qed
  have "settled {} P [] g' a"
  proof -
    obtain oa where "c_heap g a = Some oa" "ob_body oa = Thr th" using h by (auto simp: thr_def)
    then show ?thesis using r unfolding settled_def f e by (simp add: body_refs_def body_upvals_def)
  qed
  then have t: "tri {} P [] g'" unfolding tri_def using i(9) ob unfolding tri_def e f by auto
  have th: "thr_ok {} P [] g' t tt" if x: "thr g t tt" for t tt
  proof (cases "t = a")
    case True
    then have "tt = th" using thr_fun [OF h] x by blast
    then show ?thesis using True g unfolding thr_ok_def e by (auto simp: g')
  next
    case False
    then show ?thesis using i(7) [OF x] unfolding thr_ok_def e f by (auto simp: g')
  qed
  have tw: "twups_ok {} g'" using i(8) h am unfolding twups_ok_def e by (auto simp: g')
  have lo: "lists_ok P [] g'" using lists_drop [OF i(5)] unfolding lists_ok_def e f .
  have wk: "weaks_ok g'" by (rule alike_weaks [OF al i(6)]) (simp_all add: g')
  show ?thesis unfolding minv_def e using alike_store [OF al] i(1-4) t th tw lo wk by blast
qed

lemma lrefs_take: "lrefs (take n vs) \<subseteq> lrefs vs"
  using set_take_subset by (fastforce simp: lrefs_def)

lemma thr_refs: "sane g \<Longrightarrow> thr g a th \<Longrightarrow> lrefs (th_stack th) \<subseteq> dom (c_heap g)"
  using saneD(1) by (fastforce simp: thr_def body_refs_def)

lemma thr_shrinks_take:
  assumes "thr_shrinks th th'" "th_top th \<le> length (th_stack th)"
  shows "take (th_top th') (th_stack th') = take (th_top th) (th_stack th)"
proof (rule nth_equalityI)
  have "th_top th \<le> length (th_stack th')" "th_top th' = th_top th" using assms by (auto simp: thr_shrinks_def)
  then show "length (take (th_top th') (th_stack th')) = length (take (th_top th) (th_stack th))" using assms(2) by simp
  show "take (th_top th') (th_stack th') ! i = take (th_top th) (th_stack th) ! i" if "i < length (take (th_top th') (th_stack th'))" for i
    using that thr_shrinksD(1) [OF assms(1)] thr_shrinksD(4) [OF assms(1), of i] by simp
qed

text \<open>\<open>traversethread\<close>, when the thread has been linked to be visited again, and when it is visited for the last time.\<close>

lemma traversethread_again:
  assumes m: "minv T P [] g" and h: "thr g a th" and ph: "phase g T P" and st: "c_gcstate g \<noteq> GCSinsideatomic"
  shows "okay (traversethread a th g) (travd T P g)"
proof (cases "th_built th")
  case False
  then show ?thesis using m ph by (auto simp: traversethread_def travd_def)
next
  case True
  note s = minvD(1) [OF m]
  have T: "T = UNIV" using ph st by (simp add: phase_def)
  have as: "th_openupval th = [] \<or> a \<in> set (c_twups g)" using minvD(7) [OF m h] st unfolding thr_ok_def by blast
  have fin: "travd T P g g'" if a: "adv g g'" for g'
    unfolding travd_def using minv_adv [OF a m] adv_evolves [OF a] todo_adv [OF s a] phase_adv [OF a] ph by blast
  have e: "traversethread a th g = res_bind (res_fold markvalue_o (take (th_top th) (th_stack th)) g) (\<lambda>g.
      if c_gcstate g = GCSinsideatomic then
        res_bind (thr_at a g) (\<lambda>th.
        res_bind (put_body a (Thr (clear_slice th)) g) (\<lambda>g.
          Inr (if a \<notin> set (c_twups g) \<and> th_openupval th \<noteq> [] then g\<lparr>c_twups := a # c_twups g\<rparr> else g)))
      else if \<not> c_emergency g then res_bind (thr_at a g) (\<lambda>th. put_body a (Thr (luaD_shrinkstack th)) g)
      else Inr g)"
    using True as by (simp add: traversethread_def lassert_def)
  show ?thesis
    unfolding e
  proof (rule okay_bind [OF markvalues_ok [OF s]])
    show "lrefs (take (th_top th) (th_stack th)) \<subseteq> dom (c_heap g)" using lrefs_take thr_refs [OF s h] by blast
    fix g1 assume g1: "adv g g1 \<and> (\<forall>r\<in>lrefs (take (th_top th) (th_stack th)). marked g1 r)"
    then have a1: "adv g g1" by simp
    obtain th1 where th1: "thr g1 a th1" "thr_shrinks th th1" using adv_thr [OF a1 h] by blast
    have "th_top th1 \<le> length (th_stack th1)" using typed_thr [OF minvD(2) [OF minv_adv [OF a1 m]] th1(1)] by simp
    note sh = put_thr_ok [OF th1(1) shrinkstack_ok [OF this]]
    have "okay (put_body a (Thr (luaD_shrinkstack th1)) g1) (travd T P g)"
      by (rule okay_mono [OF sh]) (use adv_trans [OF a1] fin in blast)
    then show "okay (if c_gcstate g1 = GCSinsideatomic then
        res_bind (thr_at a g1) (\<lambda>th.
        res_bind (put_body a (Thr (clear_slice th)) g1) (\<lambda>g.
          Inr (if a \<notin> set (c_twups g) \<and> th_openupval th \<noteq> [] then g\<lparr>c_twups := a # c_twups g\<rparr> else g)))
      else if \<not> c_emergency g1 then res_bind (thr_at a g1) (\<lambda>th. put_body a (Thr (luaD_shrinkstack th)) g1)
      else Inr g1) (travd T P g)"
      using fin [OF a1] st advx_fields(2) [OF a1] by (simp add: thr_at_eq [OF th1(1)])
  qed
qed

lemma twups_evolves: "evolves g (g\<lparr>c_twups := ws\<rparr>)"
proof -
  have "alike g (g\<lparr>c_twups := ws\<rparr>)" by (rule alike_same) (simp_all add: gc_fuel_def)
  then show ?thesis by (rule alike_evolves) simp_all
qed

lemma traversethread_last:
  assumes m: "minv T P [a] g" and h: "thr g a th" and gr: "gray g a" and ph: "phase g T P" and st: "c_gcstate g = GCSinsideatomic"
  shows "okay (traversethread a th g) (travd T P g)"
proof -
  note s = minvD(1) [OF m]
  have T: "T = {}" using ph st by (simp add: phase_def)
  note tt = typed_thr [OF minvD(2) [OF m] h]
  have fin: "travd T P g (if a \<notin> set (c_twups g') \<and> th_openupval th' \<noteq> [] then g'\<lparr>c_twups := a # c_twups g'\<rparr> else g')"
    if a: "adv g g'" and h': "thr g' a th'" and r: "\<forall>r\<in>lrefs (th_stack th'). marked g' r" for g' th'
  proof -
    define g2 where "g2 = (if a \<notin> set (c_twups g') \<and> th_openupval th' \<noteq> [] then g'\<lparr>c_twups := a # c_twups g'\<rparr> else g')"
    have "minv {} P [a] g'" using minv_adv [OF a m] T by simp
    moreover have "gray g' a" by (rule gray_adv [OF m _ gr a]) simp
    ultimately have "minv {} P [] g2" using settle_thread h' r g2_def by blast
    moreover have ev: "evolves g g2"
      by (rule evolves_trans [OF adv_evolves [OF a]]) (use twups_evolves in \<open>auto simp: g2_def\<close>)
    moreover have al: "alike g' g2" by (rule alike_same) (simp_all add: g2_def gc_fuel_def)
    then have "todo g2 \<le> todo g" using todo_adv [OF s a] todo_same [OF al] by (simp add: g2_def)
    moreover have "phase g2 T P" using T ev st by (simp add: phase_def evolves_def)
    ultimately have "travd T P g g2" unfolding travd_def T by blast
    then show ?thesis by (simp add: g2_def)
  qed
  show ?thesis
  proof (cases "th_built th")
    case False
    then have "th_stack th = []" "th_openupval th = []" using tt by simp_all
    then have "travd T P g g" using fin [OF advx_refl h] by (simp add: lrefs_def)
    then show ?thesis using False by (simp add: traversethread_def)
  next
    case True
    have e: "traversethread a th g = res_bind (res_fold markvalue_o (take (th_top th) (th_stack th)) g) (\<lambda>g.
        if c_gcstate g = GCSinsideatomic then
          res_bind (thr_at a g) (\<lambda>th.
          res_bind (put_body a (Thr (clear_slice th)) g) (\<lambda>g.
            Inr (if a \<notin> set (c_twups g) \<and> th_openupval th \<noteq> [] then g\<lparr>c_twups := a # c_twups g\<rparr> else g)))
        else if \<not> c_emergency g then res_bind (thr_at a g) (\<lambda>th. put_body a (Thr (luaD_shrinkstack th)) g)
        else Inr g)"
      using True st by (simp add: traversethread_def lassert_def)
    show ?thesis
      unfolding e
    proof (rule okay_bind [OF markvalues_ok [OF s]])
      show "lrefs (take (th_top th) (th_stack th)) \<subseteq> dom (c_heap g)" using lrefs_take thr_refs [OF s h] by blast
      fix g1 assume g1: "adv g g1 \<and> (\<forall>r\<in>lrefs (take (th_top th) (th_stack th)). marked g1 r)"
      then have a1: "adv g g1" by simp
      obtain th1 where th1: "thr g1 a th1" "thr_shrinks th th1" using adv_thr [OF a1 h] by blast
      have top1: "th_top th1 \<le> length (th_stack th1)" using typed_thr [OF minvD(2) [OF minv_adv [OF a1 m]] th1(1)] by simp
      note cs = clear_slice_ok [OF top1]
      have up: "th_openupval (clear_slice th1) = th_openupval th1" by (simp add: clear_slice_def)
      have r1: "\<forall>r\<in>lrefs (th_stack (clear_slice th1)). marked g1 r"
        using g1 cs(2) thr_shrinks_take [OF th1(2)] tt by simp
      have "okay (res_bind (put_body a (Thr (clear_slice th1)) g1) (\<lambda>g.
          Inr (if a \<notin> set (c_twups g) \<and> th_openupval th1 \<noteq> [] then g\<lparr>c_twups := a # c_twups g\<rparr> else g))) (travd T P g)"
      proof (rule okay_bind [OF put_thr_ok [OF th1(1) cs(1)]])
        fix g2 assume g2: "adv g1 g2 \<and> thr g2 a (clear_slice th1) \<and> (\<forall>c. marked g2 c = marked g1 c)"
        have "travd T P g (if a \<notin> set (c_twups g2) \<and> th_openupval (clear_slice th1) \<noteq> [] then g2\<lparr>c_twups := a # c_twups g2\<rparr> else g2)"
          by (rule fin) (use g2 a1 adv_trans r1 in auto)
        then show "okay (Inr (if a \<notin> set (c_twups g2) \<and> th_openupval th1 \<noteq> [] then g2\<lparr>c_twups := a # c_twups g2\<rparr> else g2)) (travd T P g)"
          unfolding up by simp
      qed
      then show "okay (if c_gcstate g1 = GCSinsideatomic then
          res_bind (thr_at a g1) (\<lambda>th.
          res_bind (put_body a (Thr (clear_slice th)) g1) (\<lambda>g.
            Inr (if a \<notin> set (c_twups g) \<and> th_openupval th \<noteq> [] then g\<lparr>c_twups := a # c_twups g\<rparr> else g)))
        else if \<not> c_emergency g1 then res_bind (thr_at a g1) (\<lambda>th. put_body a (Thr (luaD_shrinkstack th)) g1)
        else Inr g1) (travd T P g)"
        using st advx_fields(2) [OF a1] by (simp add: thr_at_eq [OF th1(1)])
    qed
  qed
qed

section \<open>Propagation\<close>

text \<open>A step of propagation, and any number of them.\<close>

definition propd :: "nat set \<Rightarrow> nat list \<Rightarrow> cstate \<Rightarrow> cstate \<Rightarrow> bool" where
  "propd T P g g' \<longleftrightarrow> (\<exists>P'. phase g' T P' \<and> (c_gcstate g = GCSinsideatomic \<longrightarrow> P' = P) \<and> minv T P' [] g') \<and> evolves g g'"

lemma propagatemark_ok:
  assumes m: "minv T P [] g" and ph: "phase g T P" and ne: "c_gray g \<noteq> []"
  shows "okay (propagatemark g) (\<lambda>g'. propd T P g g' \<and> todo g' < todo g)"
proof -
  obtain a rest where c: "c_gray g = a # rest" using ne by (cases "c_gray g") auto
  have ga: "gray g a" "is_listed g a" using minvD(5) [OF m] c by (simp_all add: lists_ok_def)
  obtain ob where ob: "c_heap g a = Some ob" "isgray_m (ob_marked ob)" using ga(1) by (auto simp: gray_def)
  have li: "listed (ob_body ob)" using ga(2) ob(1) by (auto simp: is_listed_def)
  have w: "\<not> iswhite_m (ob_marked ob)" using ob(2) by (simp add: mark_bits)
  define g0 where "g0 = g\<lparr>c_gray := rest\<rparr>"
  have m0: "minv T P [a] g0" unfolding g0_def by (rule take_gray [OF m c])
  have ob0: "c_heap g0 a = Some ob" by (simp add: g0_def ob(1))
  let ?m = "gray2black_m (ob_marked ob)"
  define g1 where "g1 = put_o a (ob\<lparr>ob_marked := ?m\<rparr>) g0"
  have wm: "\<not> iswhite_m ?m" "tofinalize_m ?m = tofinalize_m (ob_marked ob)" using w by simp_all
  have m1: "minv T P [a] g1" unfolding g1_def by (rule minv_recolor [OF m0 ob0 wm])
  have al0: "alike g g0" unfolding g0_def by (rule linked_alike(5))
  have al1: "alike g0 g1" "evolves g0 g1" unfolding g1_def
    by (rule recolor_alike [OF ob0 w wm], rule recolor_evolves [OF ob0 w wm])
  have ev: "evolves g g1" by (rule evolves_trans [OF _ al1(2)]) (simp add: g0_def linked_evolves(5))
  have td: "todo g1 < todo g"
    using todo_same [OF al1(1)] alike_whites [OF al0] c by (simp add: todo_def g0_def g1_def put_o_def alike_whites [OF al1(1)])
  have ph1: "phase g1 T P" and st1: "c_gcstate g1 = c_gcstate g" using ph by (simp_all add: phase_def g1_def g0_def put_o_def)
  have ob1: "c_heap g1 a = Some (ob\<lparr>ob_marked := ?m\<rparr>)" by (simp add: g1_def put_o_def)
  have fin: "propd T P g g' \<and> todo g' < todo g" if t: "travd T P g1 g'" for g'
    using t st1 evolves_trans [OF ev] td unfolding travd_def propd_def by fastforce
  have rc: "recolor gray2black_m a g = Inr (put_o a (ob\<lparr>ob_marked := ?m\<rparr>) g)" by (rule recolor_eq [OF ob(1)])
  have g1': "(put_o a (ob\<lparr>ob_marked := ?m\<rparr>) g)\<lparr>c_gray := rest\<rparr> = g1" by (simp add: g1_def g0_def put_o_def)
  have e: "propagatemark g = (case ob_body ob of
              Tab _ \<Rightarrow> traversetable a g1
            | LCl p upvals \<Rightarrow> traverseLclosure p upvals g1
            | CCl upvalue \<Rightarrow> traverseCclosure upvalue g1
            | Thr th \<Rightarrow>
                res_bind (recolor black2gray_m a (g1\<lparr>c_grayagain := a # c_grayagain g1\<rparr>)) (traversethread a th)
            | Prt f \<Rightarrow> traverseproto a f g1
            | _ \<Rightarrow> Inl (Fault (AssertFail ''propagatemark'')))"
    unfolding propagatemark_def c list.case deref_o_def ob(1) option.case res_bind_Inr rc Let_def g1'
    using ob(2) by (simp add: lassert_def)
  have "okay (propagatemark g) (travd T P g1)"
    unfolding e
  proof (cases "ob_body ob")
    case (Tab h)
    then show "okay (case ob_body ob of
              Tab _ \<Rightarrow> traversetable a g1
            | LCl p upvals \<Rightarrow> traverseLclosure p upvals g1
            | CCl upvalue \<Rightarrow> traverseCclosure upvalue g1
            | Thr th \<Rightarrow>
                res_bind (recolor black2gray_m a (g1\<lparr>c_grayagain := a # c_grayagain g1\<rparr>)) (traversethread a th)
            | Prt f \<Rightarrow> traverseproto a f g1
            | _ \<Rightarrow> Inl (Fault (AssertFail ''propagatemark''))) (travd T P g1)"
      using traversetable_ok [OF m1 _ ph1] ob1 by (simp add: tab_def)
  next
    case (Thr th)
    let ?m2 = "black2gray_m ?m"
    define g2 where "g2 = put_o a (ob\<lparr>ob_marked := ?m2\<rparr>) g1"
    have wm2: "\<not> iswhite_m ?m2" "tofinalize_m ?m2 = tofinalize_m (ob_marked (ob\<lparr>ob_marked := ?m\<rparr>))" using w by simp_all
    have w1: "\<not> iswhite_m (ob_marked (ob\<lparr>ob_marked := ?m\<rparr>))" using w by simp
    have m2: "minv T P [a] g2" using minv_recolor [OF m1 ob1 wm2] by (simp add: g2_def)
    have al2: "alike g1 g2" "evolves g1 g2"
      using recolor_alike [OF ob1 w1 wm2] recolor_evolves [OF ob1 w1 wm2] by (simp_all add: g2_def)
    define g3 where "g3 = g2\<lparr>c_grayagain := a # c_grayagain g2\<rparr>"
    have r2: "recolor black2gray_m a (g1\<lparr>c_grayagain := a # c_grayagain g1\<rparr>) = Inr g3"
      using recolor_eq [of "g1\<lparr>c_grayagain := a # c_grayagain g1\<rparr>" a _ black2gray_m] ob1 by (simp add: g3_def g2_def put_o_def)
    have al3: "alike g2 g3" "evolves g2 g3" unfolding g3_def by (rule linked_alike(4), rule linked_evolves(4))
    have gr2: "gray g2 a" using w by (simp add: gray_def g2_def put_o_def mark_bits(3))
    have h3: "thr g3 a th" using Thr by (simp add: thr_def g3_def g2_def put_o_def)
    have lift: "travd T P g1 g'" if t: "travd T P' g3 g'" "c_gcstate g1 = GCSinsideatomic \<longrightarrow> P' = P" for g' P'
    proof -
      have "evolves g1 g3" by (rule evolves_trans [OF al2(2) al3(2)])
      moreover have "todo g3 = todo g1" using todo_same [OF al2(1)] todo_same [OF al3(1)] by (simp add: g3_def g2_def put_o_def)
      moreover have "c_gcstate g3 = c_gcstate g1" by (simp add: g3_def g2_def put_o_def)
      ultimately show ?thesis using t evolves_trans unfolding travd_def by (metis (no_types, lifting))
    qed
    have "okay (traversethread a th g3) (travd T P g1)"
    proof (cases "c_gcstate g1 = GCSinsideatomic")
      case True
      have m3: "minv T P [a] g3" unfolding g3_def by (rule minv_grayagain [OF m2])
      have gr3: "gray g3 a" using gr2 by (simp add: gray_def g3_def)
      have "phase g3 T P" "c_gcstate g3 = GCSinsideatomic" using True ph1 by (simp_all add: phase_def g3_def g2_def put_o_def)
      from traversethread_last [OF m3 h3 gr3 this] show ?thesis
        by (rule okay_mono) (rule lift, assumption, simp)
    next
      case False
      have m3: "minv T (a # P) [] g3" unfolding g3_def by (rule link_again [OF m2 gr2])
      have "phase g3 T (a # P)" "c_gcstate g3 \<noteq> GCSinsideatomic"
        using False ph1 by (simp_all add: phase_def g3_def g2_def put_o_def)
      from traversethread_again [OF m3 h3 this] show ?thesis
        by (rule okay_mono) (rule lift, assumption, simp add: False)
    qed
    then show "okay (case ob_body ob of
              Tab _ \<Rightarrow> traversetable a g1
            | LCl p upvals \<Rightarrow> traverseLclosure p upvals g1
            | CCl upvalue \<Rightarrow> traverseCclosure upvalue g1
            | Thr th \<Rightarrow>
                res_bind (recolor black2gray_m a (g1\<lparr>c_grayagain := a # c_grayagain g1\<rparr>)) (traversethread a th)
            | Prt f \<Rightarrow> traverseproto a f g1
            | _ \<Rightarrow> Inl (Fault (AssertFail ''propagatemark''))) (travd T P g1)"
      by (simp add: Thr r2)
  qed (use li traverseLclosure_ok [OF m1 ob1 _ ph1] traverseCclosure_ok [OF m1 ob1 _ ph1] traverseproto_ok [OF m1 ob1 _ ph1]
      in \<open>simp_all add: listed_def\<close>)
  then show ?thesis by (rule okay_mono) (rule fin)
qed

lemma propd_step:
  assumes "c_gcstate g = GCSinsideatomic \<longrightarrow> P1 = P" "evolves g g1" "propd T P1 g1 g2"
  shows "propd T P g g2"
proof -
  obtain P2 where 2: "phase g2 T P2" "c_gcstate g1 = GCSinsideatomic \<longrightarrow> P2 = P1" "minv T P2 [] g2" "evolves g1 g2"
    using assms(3) unfolding propd_def by blast
  have "c_gcstate g1 = c_gcstate g" using assms(2) by (simp add: evolves_def)
  then have "c_gcstate g = GCSinsideatomic \<longrightarrow> P2 = P" using assms(1) 2(2) by simp
  then show ?thesis unfolding propd_def using 2(1,3) evolves_trans [OF assms(2) 2(4)] by blast
qed

lemma propagate_loop_ok:
  assumes "minv T P [] g" "phase g T P" "todo g < f"
  shows "okay (propagate_loop f g) (\<lambda>g'. propd T P g g' \<and> c_gray g' = [])"
  using assms
proof (induction f arbitrary: g P)
  case (Suc f)
  show ?case
  proof (cases "c_gray g = []")
    case True
    then show ?thesis using Suc.prems by (auto simp: propd_def)
  next
    case False
    have "okay (res_bind (propagatemark g) (propagate_loop f)) (\<lambda>g'. propd T P g g' \<and> c_gray g' = [])"
    proof (rule okay_bind [OF propagatemark_ok [OF Suc.prems(1,2) False]])
      fix g1 assume g1: "propd T P g g1 \<and> todo g1 < todo g"
      then obtain P1 where p1: "phase g1 T P1" "c_gcstate g = GCSinsideatomic \<longrightarrow> P1 = P" "minv T P1 [] g1" "evolves g g1"
        unfolding propd_def by blast
      have "okay (propagate_loop f g1) (\<lambda>g'. propd T P1 g1 g' \<and> c_gray g' = [])"
        by (rule Suc.IH [OF p1(3,1)]) (use g1 Suc.prems(3) in simp)
      then show "okay (propagate_loop f g1) (\<lambda>g'. propd T P g g' \<and> c_gray g' = [])"
        by (rule okay_mono) (use propd_step [OF p1(2,4)] in blast)
    qed
    then show ?thesis using False by simp
  qed
qed simp

lemma propagateall_ok:
  assumes "minv T P [] g" "phase g T P"
  shows "okay (propagateall g) (\<lambda>g'. propd T P g g' \<and> c_gray g' = [])"
  unfolding propagateall_def by (rule propagate_loop_ok [OF assms todo_bound [OF assms(1)]])

end
