(* ===== verification/LuaGcConverge.thy ===== *)
theory LuaGcConverge
  imports LuaGcStep
begin

text \<open>The convergence of ephemeron tables ends, and afterwards each of them has only ephemeron pairs as its entries.\<close>

section \<open>What evolution keeps\<close>

lemma evolves_obj:
  assumes "evolves g g'" "c_heap g b = Some ob"
  shows "\<exists>ob'. c_heap g' b = Some ob' \<and> shrinks (ob_body ob) (ob_body ob') \<and> tofinalize_m (ob_marked ob') = tofinalize_m (ob_marked ob) \<and>
    (iswhite_m (ob_marked ob') \<longrightarrow> iswhite_m (ob_marked ob) \<and> ob_marked ob' = ob_marked ob)"
proof -
  have "rel_option (\<lambda>ob ob'. shrinks (ob_body ob) (ob_body ob') \<and> tofinalize_m (ob_marked ob') = tofinalize_m (ob_marked ob) \<and>
       (iswhite_m (ob_marked ob') \<longrightarrow> iswhite_m (ob_marked ob) \<and> ob_marked ob' = ob_marked ob)) (c_heap g b) (c_heap g' b)"
    using assms(1) unfolding evolves_def by blast
  then show ?thesis using assms(2) by (auto simp: option_rel_Some1)
qed

lemma evolves_obj_back:
  assumes "evolves g g'" "c_heap g' b = Some ob'"
  shows "\<exists>ob. c_heap g b = Some ob \<and> shrinks (ob_body ob) (ob_body ob') \<and> tofinalize_m (ob_marked ob') = tofinalize_m (ob_marked ob) \<and>
    (iswhite_m (ob_marked ob') \<longrightarrow> iswhite_m (ob_marked ob) \<and> ob_marked ob' = ob_marked ob)"
proof -
  have "rel_option (\<lambda>ob ob'. shrinks (ob_body ob) (ob_body ob') \<and> tofinalize_m (ob_marked ob') = tofinalize_m (ob_marked ob) \<and>
       (iswhite_m (ob_marked ob') \<longrightarrow> iswhite_m (ob_marked ob) \<and> ob_marked ob' = ob_marked ob)) (c_heap g b) (c_heap g' b)"
    using assms(1) unfolding evolves_def by blast
  then show ?thesis using assms(2) by (auto simp: option_rel_Some2)
qed

lemma evolves_marked: "evolves g g' \<Longrightarrow> marked g a \<Longrightarrow> marked g' a"
  using evolves_obj unfolding marked_def by blast

lemma evolves_white: "evolves g g' \<Longrightarrow> white g' a \<Longrightarrow> white g a"
  using evolves_obj_back unfolding white_def by blast

lemma evolves_dom: "evolves g g' \<Longrightarrow> dom (c_heap g') = dom (c_heap g)"
  using evolves_obj evolves_obj_back by (meson domD domI subsetI subset_antisym)

lemma evolves_vmarked: "evolves g g' \<Longrightarrow> vmarked g v \<Longrightarrow> vmarked g' v"
  using evolves_marked unfolding vmarked_def by blast

lemma evolves_tab:
  assumes "evolves g g'" "tab g a h"
  shows "\<exists>h'. tab g' a h' \<and> tab_shrinks h h'"
proof -
  obtain ob where ob: "c_heap g a = Some ob" "ob_body ob = Tab h" using assms(2) by (auto simp: tab_def)
  obtain ob' where "c_heap g' a = Some ob'" "shrinks (ob_body ob) (ob_body ob')" using evolves_obj [OF assms(1) ob(1)] by blast
  then show ?thesis using ob(2) by (auto simp: tab_def shrinks_def)
qed

definition meta_tab :: "cstate \<Rightarrow> nat \<Rightarrow> bool" where
  "meta_tab g a \<longleftrightarrow> (\<exists>h. tab g a h \<and> meta_marked g h)"

lemma evolves_meta: "evolves g g' \<Longrightarrow> meta_tab g a \<Longrightarrow> meta_tab g' a"
  using evolves_tab evolves_marked unfolding meta_tab_def meta_marked_def tab_shrinks_def by fastforce

lemma evolves_whites:
  assumes "sane g" "evolves g g'"
  shows "card (whites g') \<le> card (whites g)" "newly g g' c \<Longrightarrow> card (whites g') < card (whites g)"
proof -
  have s: "whites g' \<subseteq> whites g" using evolves_white [OF assms(2)] by (auto simp: whites_def)
  show "card (whites g') \<le> card (whites g)" by (rule card_mono [OF whites_finite [OF assms(1)] s])
  assume "newly g g' c"
  then have "c \<in> whites g - whites g'" by (auto simp: newly_def whites_def white_def marked_def)
  then show "card (whites g') < card (whites g)"
    by (intro psubset_card_mono [OF whites_finite [OF assms(1)]]) (use s in blast)
qed

section \<open>A pass over the ephemeron tables\<close>

definition pairs :: "cstate \<Rightarrow> nat \<Rightarrow> bool" where
  "pairs g a \<longleftrightarrow> (\<exists>h. tab g a h \<and> (\<forall>e\<in>set (h_node h). eph_pair g e))"

lemma pairs_strings:
  assumes "adv_strings g g'" "pairs g a"
  shows "pairs g' a"
proof -
  have a: "adv g g'" using assms(1) by (simp add: adv_strings_def)
  obtain h where h: "tab g a h" "\<forall>e\<in>set (h_node h). eph_pair g e" using assms(2) by (auto simp: pairs_def)
  obtain h' where h': "tab g' a h'" "tab_shrinks h h'" using adv_tab [OF a h(1)] by blast
  have "\<forall>e\<in>set (h_node h'). eph_pair g' e"
    by (rule adv_nodes [OF h(1) h' h(2)]) (rule eph_pair_strings [OF assms(1)])
  then show ?thesis using h'(1) by (auto simp: pairs_def)
qed

lemma pairs_same:
  assumes "c_heap g' = c_heap g"
  shows "pairs g' = pairs g"
proof -
  have t: "tab g' = tab g" unfolding tab_def fun_eq_iff assms by simp
  have m: "marked g' = marked g" unfolding marked_def fun_eq_iff assms by simp
  have v: "vmarked g' = vmarked g" unfolding vmarked_def fun_eq_iff m by simp
  have c: "cleared g' = cleared g" unfolding cleared_def fun_eq_iff assms by simp
  show ?thesis unfolding pairs_def eph_pair_def fun_eq_iff t v c by simp
qed

lemma strings_gray:
  assumes "adv_strings g g'"
  shows "c_gray g' = c_gray g"
proof -
  have a: "adv g g'" using assms by (simp add: adv_strings_def)
  obtain zs where zs: "c_gray g' = zs @ c_gray g" "distinct zs" "\<And>a. a \<in> set zs \<longleftrightarrow> newly g g' a \<and> is_listed g a"
    using advx_gray [OF a] by blast
  have "\<not> (newly g g' b \<and> is_listed g b)" for b
  proof
    assume n: "newly g g' b \<and> is_listed g b"
    then obtain ob where ob: "c_heap g b = Some ob" "is_string (ob_body ob)" using assms by (auto simp: adv_strings_def)
    have "listed (ob_body ob)" using n ob(1) unfolding is_listed_def by simp
    then show False using ob(2) by (cases "ob_body ob") (simp_all add: listed_def is_string_def)
  qed
  then have "b \<notin> set zs" for b using zs(3) [of b] by simp
  then have "zs = []" by (cases zs) auto
  then show ?thesis using zs(1) by simp
qed

lemma quiet_pairs:
  assumes "eph_quiet w g g'"
  shows "pairs g a \<Longrightarrow> pairs g' a" "pairs g' w" "c_gray g' = c_gray g"
proof -
  obtain g1 h where q: "adv_strings g g1" "c_heap g' = c_heap g1" "c_gray g' = c_gray g1" "tab g1 w h" "\<forall>e\<in>set (h_node h). eph_pair g1 e"
    using assms unfolding eph_quiet_def by blast
  note s = pairs_same [OF q(2)]
  show "pairs g a \<Longrightarrow> pairs g' a" unfolding s by (rule pairs_strings [OF q(1)])
  show "pairs g' w" unfolding s pairs_def using q(4,5) by blast
  show "c_gray g' = c_gray g" using q(3) strings_gray [OF q(1)] by simp
qed

text \<open>The next table of a pass is taken from the objects to be visited.\<close>

lemma take_again:
  assumes "minv T (w # P) [] g"
  shows "minv T P [w] g"
proof (rule minv_move [OF assms alike_refl])
  note lo = minvD(5) [OF assms]
  have "gray g w \<and> is_listed g w" using lo by (simp add: lists_ok_def)
  then show "lists_ok P [w] g" using lo gray_marked [of g w] unfolding lists_ok_def by auto
  show "weaks_ok g" by (rule minvD(6) [OF assms])
  show "t \<in> set [w] \<or> gray g t" if h: "thr g t th" "marked g t" for t th
    using minvD(7) [OF assms h(1)] h(2) by (simp add: thr_ok_def)
qed auto

lemma inside_propd: "propd {} P g g' \<Longrightarrow> c_gcstate g = GCSinsideatomic \<Longrightarrow> minv {} P [] g' \<and> evolves g g' \<and> c_gcstate g' = GCSinsideatomic"
  unfolding propd_def evolves_def by auto

lemma inside_travd: "travd {} P g g' \<Longrightarrow> c_gcstate g = GCSinsideatomic \<Longrightarrow> minv {} P [] g' \<and> evolves g g' \<and> c_gcstate g' = GCSinsideatomic"
  unfolding travd_def evolves_def by auto

lemma inside_phase: "c_gcstate g = GCSinsideatomic \<Longrightarrow> phase g {} P"
  by (simp add: phase_def)

lemma converge_pass_ok:
  assumes "minv {} (ws @ P) [] g" "c_gcstate g = GCSinsideatomic" "c_gray g = []" "\<forall>w\<in>set ws. meta_tab g w"
  shows "okay (converge_pass ws changed g) (\<lambda>(ch, g'). minv {} P [] g' \<and> c_gcstate g' = GCSinsideatomic \<and> c_gray g' = [] \<and>
    evolves g g' \<and> (changed \<longrightarrow> ch) \<and> (ch \<and> \<not> changed \<longrightarrow> card (whites g') < card (whites g)) \<and>
    (\<not> ch \<longrightarrow> (\<forall>a. pairs g a \<longrightarrow> pairs g' a) \<and> (\<forall>a\<in>set (c_ephemeron g'). a \<in> set (c_ephemeron g) \<or> pairs g' a)))"
  using assms
proof (induction ws arbitrary: changed g)
  case (Cons w ws)
  note st = Cons.prems(2)
  have m: "minv {} (ws @ P) [w] g" by (rule take_again) (use Cons.prems(1) in simp)
  have gr: "gray g w" using minvD(5) [OF Cons.prems(1)] by (simp add: lists_ok_def)
  obtain h where h: "tab g w h" "meta_marked g h" using Cons.prems(4) by (auto simp: meta_tab_def)
  note s = minvD(1) [OF m]
  show ?case
    unfolding converge_pass.simps
  proof (rule okay_bind [OF traverseephemeron_ok [OF m gr h inside_phase [OF st]]])
    fix z assume z: "case z of (b, g') \<Rightarrow> travd {} (ws @ P) g g' \<and> (if b then \<exists>c. newly g g' c else eph_quiet w g g') \<and>
      (\<exists>es. c_ephemeron g' = es @ c_ephemeron g \<and> set es \<subseteq> {w})"
    obtain b g1 where zc: "z = (b, g1)" by (cases z)
    have m1: "minv {} (ws @ P) [] g1" and ev1: "evolves g g1" and st1: "c_gcstate g1 = GCSinsideatomic"
      using inside_travd st z zc by auto
    have mt1: "\<forall>w\<in>set ws. meta_tab g1 w" using Cons.prems(4) evolves_meta [OF ev1] by simp
    let ?post = "\<lambda>(ch, g'). minv {} P [] g' \<and> c_gcstate g' = GCSinsideatomic \<and> c_gray g' = [] \<and>
      evolves g g' \<and> (changed \<longrightarrow> ch) \<and> (ch \<and> \<not> changed \<longrightarrow> card (whites g') < card (whites g)) \<and>
      (\<not> ch \<longrightarrow> (\<forall>a. pairs g a \<longrightarrow> pairs g' a) \<and> (\<forall>a\<in>set (c_ephemeron g'). a \<in> set (c_ephemeron g) \<or> pairs g' a))"
    have "okay (if b then res_bind (propagateall g1) (converge_pass ws True) else converge_pass ws changed g1) ?post"
    proof (cases b)
      case True
      then obtain c where n: "newly g g1 c" using z zc by auto
      have "okay (res_bind (propagateall g1) (converge_pass ws True)) ?post"
      proof (rule okay_bind [OF propagateall_ok [OF m1 inside_phase [OF st1]]])
        fix g2 assume g2: "propd {} (ws @ P) g1 g2 \<and> c_gray g2 = []"
        then have m2: "minv {} (ws @ P) [] g2" and ev2: "evolves g1 g2" and st2: "c_gcstate g2 = GCSinsideatomic"
          using inside_propd st1 by auto
        have mt2: "\<forall>w\<in>set ws. meta_tab g2 w" using mt1 evolves_meta [OF ev2] by simp
        show "okay (converge_pass ws True g2) ?post"
        proof (rule okay_mono [OF Cons.IH [OF m2 st2 _ mt2, of True]])
          show "c_gray g2 = []" using g2 by simp
          fix y assume y: "case y of (ch, g') \<Rightarrow> minv {} P [] g' \<and> c_gcstate g' = GCSinsideatomic \<and> c_gray g' = [] \<and>
            evolves g2 g' \<and> (True \<longrightarrow> ch) \<and> (ch \<and> \<not> True \<longrightarrow> card (whites g') < card (whites g2)) \<and>
            (\<not> ch \<longrightarrow> (\<forall>a. pairs g2 a \<longrightarrow> pairs g' a) \<and> (\<forall>a\<in>set (c_ephemeron g'). a \<in> set (c_ephemeron g2) \<or> pairs g' a))"
          obtain ch g' where yc: "y = (ch, g')" by (cases y)
          have y': "minv {} P [] g'" "c_gcstate g' = GCSinsideatomic" "c_gray g' = []" "evolves g2 g'" "ch" using y yc by auto
          note ev12 = evolves_trans [OF ev2 y'(4)]
          have "card (whites g') \<le> card (whites g1)" by (rule evolves_whites(1) [OF minvD(1) [OF m1] ev12])
          moreover have "card (whites g1) < card (whites g)" by (rule evolves_whites(2) [OF s ev1 n])
          ultimately show "?post y" using y' yc evolves_trans [OF ev1 ev12] by simp
        qed
      qed
      then show ?thesis using True by simp
    next
      case False
      then have q: "eph_quiet w g g1" using z zc by simp
      note qp = quiet_pairs [OF q]
      have "okay (converge_pass ws changed g1) ?post"
      proof (rule okay_mono [OF Cons.IH [OF m1 st1 _ mt1, of changed]])
        show "c_gray g1 = []" using qp(3) Cons.prems(3) by simp
        fix y assume y: "case y of (ch, g') \<Rightarrow> minv {} P [] g' \<and> c_gcstate g' = GCSinsideatomic \<and> c_gray g' = [] \<and>
          evolves g1 g' \<and> (changed \<longrightarrow> ch) \<and> (ch \<and> \<not> changed \<longrightarrow> card (whites g') < card (whites g1)) \<and>
          (\<not> ch \<longrightarrow> (\<forall>a. pairs g1 a \<longrightarrow> pairs g' a) \<and> (\<forall>a\<in>set (c_ephemeron g'). a \<in> set (c_ephemeron g1) \<or> pairs g' a))"
        obtain ch g' where yc: "y = (ch, g')" by (cases y)
        have y': "minv {} P [] g'" "c_gcstate g' = GCSinsideatomic" "c_gray g' = []" "evolves g1 g'" "changed \<longrightarrow> ch"
          "ch \<and> \<not> changed \<longrightarrow> card (whites g') < card (whites g1)"
          "\<not> ch \<longrightarrow> (\<forall>a. pairs g1 a \<longrightarrow> pairs g' a) \<and> (\<forall>a\<in>set (c_ephemeron g'). a \<in> set (c_ephemeron g1) \<or> pairs g' a)"
          using y yc by auto
        have e: "set (c_ephemeron g1) \<subseteq> insert w (set (c_ephemeron g))" using z zc by auto
        have "card (whites g1) \<le> card (whites g)" by (rule evolves_whites(1) [OF s ev1])
        then have "ch \<and> \<not> changed \<longrightarrow> card (whites g') < card (whites g)" using y'(6) by linarith
        moreover have "(\<forall>a. pairs g a \<longrightarrow> pairs g' a) \<and> (\<forall>a\<in>set (c_ephemeron g'). a \<in> set (c_ephemeron g) \<or> pairs g' a)" if "\<not> ch"
          using y'(7) that qp(1,2) e by blast
        ultimately show "?post y" using y' yc evolves_trans [OF ev1 y'(4)] by simp
      qed
      then show ?thesis using False by simp
    qed
    then show "okay (case z of (m, g) \<Rightarrow>
        if m then res_bind (propagateall g) (converge_pass ws True) else converge_pass ws changed g) ?post"
      unfolding zc by simp
  qed
qed simp

lemma eph_meta: "weaks_ok g \<Longrightarrow> a \<in> set (c_ephemeron g) \<Longrightarrow> meta_tab g a"
  unfolding weaks_ok_def eph_tab_def meta_tab_def by blast

lemma start_pass:
  assumes "minv {} P [] g"
  shows "minv {} (c_ephemeron g @ P) [] (g\<lparr>c_ephemeron := []\<rparr>)"
proof (rule minv_move [OF assms linked_alike(2)])
  show "lists_ok (c_ephemeron g @ P) [] (g\<lparr>c_ephemeron := []\<rparr>)"
    using minvD(5) [OF assms] unfolding lists_ok_def alike_eqs [OF linked_alike(2)] by (auto simp: gray_def)
  show "weaks_ok (g\<lparr>c_ephemeron := []\<rparr>)"
    using minvD(6) [OF assms] unfolding weaks_ok_def alike_weak_tabs [OF linked_alike(2)] by simp
  show "t \<in> set [] \<or> gray (g\<lparr>c_ephemeron := []\<rparr>) t" if h: "thr g t th" "marked g t" for t th
    using minvD(7) [OF assms h(1)] h(2) by (simp add: thr_ok_def gray_def)
qed auto

lemma converge_loop_ok:
  assumes "minv {} P [] g" "c_gcstate g = GCSinsideatomic" "c_gray g = []" "card (whites g) < f"
  shows "okay (converge_loop f g) (\<lambda>g'. minv {} P [] g' \<and> c_gcstate g' = GCSinsideatomic \<and> c_gray g' = [] \<and> evolves g g' \<and>
    (\<forall>a\<in>set (c_ephemeron g'). pairs g' a))"
  using assms
proof (induction f arbitrary: g)
  case (Suc f)
  let ?g0 = "g\<lparr>c_ephemeron := []\<rparr>"
  note m0 = start_pass [OF Suc.prems(1)]
  have ev0: "evolves g ?g0" by (rule linked_evolves(2))
  have mt0: "\<forall>w\<in>set (c_ephemeron g). meta_tab ?g0 w"
    using eph_meta [OF minvD(6) [OF Suc.prems(1)]] evolves_meta [OF ev0] by blast
  have w0: "whites ?g0 = whites g" by (rule alike_whites [OF linked_alike(2)])
  show ?case
    unfolding converge_loop.simps
  proof (rule okay_bind [OF converge_pass_ok [OF m0 _ _ mt0, of False]])
    show "c_gcstate ?g0 = GCSinsideatomic" "c_gray ?g0 = []" using Suc.prems by simp_all
    fix z assume z: "case z of (ch, g') \<Rightarrow> minv {} P [] g' \<and> c_gcstate g' = GCSinsideatomic \<and> c_gray g' = [] \<and>
      evolves ?g0 g' \<and> (False \<longrightarrow> ch) \<and> (ch \<and> \<not> False \<longrightarrow> card (whites g') < card (whites ?g0)) \<and>
      (\<not> ch \<longrightarrow> (\<forall>a. pairs ?g0 a \<longrightarrow> pairs g' a) \<and> (\<forall>a\<in>set (c_ephemeron g'). a \<in> set (c_ephemeron ?g0) \<or> pairs g' a))"
    obtain ch g1 where zc: "z = (ch, g1)" by (cases z)
    have z': "minv {} P [] g1" "c_gcstate g1 = GCSinsideatomic" "c_gray g1 = []" "evolves ?g0 g1"
      "ch \<Longrightarrow> card (whites g1) < card (whites g)" "\<not> ch \<Longrightarrow> \<forall>a\<in>set (c_ephemeron g1). pairs g1 a"
      using z zc w0 by auto
    have ev: "evolves g g1" by (rule evolves_trans [OF ev0 z'(4)])
    let ?post = "\<lambda>g'. minv {} P [] g' \<and> c_gcstate g' = GCSinsideatomic \<and> c_gray g' = [] \<and> evolves g g' \<and>
      (\<forall>a\<in>set (c_ephemeron g'). pairs g' a)"
    have "okay (if ch then converge_loop f g1 else Inr g1) ?post"
    proof (cases ch)
      case True
      have "okay (converge_loop f g1) ?post"
        by (rule okay_mono [OF Suc.IH [OF z'(1-3)]]) (use z'(5) Suc.prems(4) True evolves_trans [OF ev] in auto)
      then show ?thesis using True by simp
    qed (use z' ev in simp)
    then show "okay (case z of (changed, g) \<Rightarrow> if changed then converge_loop f g else Inr g) ?post" unfolding zc by simp
  qed
qed simp

lemma convergeephemerons_ok:
  assumes "minv {} P [] g" "c_gcstate g = GCSinsideatomic" "c_gray g = []"
  shows "okay (convergeephemerons g) (\<lambda>g'. minv {} P [] g' \<and> c_gcstate g' = GCSinsideatomic \<and> c_gray g' = [] \<and> evolves g g' \<and>
    (\<forall>a\<in>set (c_ephemeron g'). pairs g' a))"
  unfolding convergeephemerons_def by (rule converge_loop_ok [OF assms whites_bound [OF minvD(1) [OF assms(1)]]])

text \<open>Clearing weak tables: it marks only strings, and afterwards every table that has been cleared refers to marked objects only.\<close>

section \<open>Entries and slots\<close>

lemma strings_put:
  assumes "tab g a h" "tab_shrinks h h'"
    "\<And>i. i < length (h_node h') \<Longrightarrow> snd (h_node h' ! i) = VNil \<Longrightarrow> empty_ok g a i \<Longrightarrow> \<forall>r\<in>vrefs (fst (h_node h' ! i)). marked g r"
  shows "okay (put_body a (Tab h') g) (\<lambda>g'. adv_strings g g' \<and> tab g' a h' \<and> (\<forall>c. marked g' c = marked g c))"
proof -
  obtain ob where ob: "put_body a (Tab h') g = Inr (put_o a (ob\<lparr>ob_body := Tab h'\<rparr>) g)" "c_heap g a = Some ob"
    using put_tab [OF assms(1)] by blast
  have "marked (put_o a (ob\<lparr>ob_body := Tab h'\<rparr>) g) c = marked g c" for c using ob(2) by (auto simp: marked_def put_o_def)
  then show ?thesis using put_tab_ok [OF assms] ob(1) by (auto simp: adv_strings_def)
qed

lemma entI: "tab g a h \<Longrightarrow> i < length (h_node h) \<Longrightarrow> C (h_node h ! i) \<Longrightarrow> ent g a i C"
  unfolding ent_def by blast

text \<open>An entry that has lost its value, and then its key, if that is white.\<close>

lemma unset_ok:
  assumes "sane g" "tab g a h" "i < length (h_node h)" "h_node h ! i = (k, v)"
  shows "okay (res_bind (set_entry a i (k, VNil) g) (removeentry a i))
    (\<lambda>g'. adv_strings g g' \<and> ent g' a i (\<lambda>e. both_marked g' e \<and> snd e = VNil))"
proof -
  obtain ob where ob: "c_heap g a = Some ob" "ob_body ob = Tab h" using assms(2) by (auto simp: tab_def)
  let ?h1 = "h\<lparr>h_node := (h_node h)[i := (k, VNil)]\<rparr>"
  define g1 where "g1 = put_o a (ob\<lparr>ob_body := Tab ?h1\<rparr>) g"
  have s1: "set_entry a i (k, VNil) g = Inr g1"
    by (simp add: set_entry_def tab_at_eq [OF assms(2)] put_body_eq [OF ob(1)] g1_def)
  have t1: "tab g1 a ?h1" by (simp add: tab_def g1_def put_o_def)
  have d1: "dom (c_heap g1) = dom (c_heap g)" using ob(1) by (auto simp: g1_def put_o_def)
  have w1: "white g1 c = white g c" "marked g1 c = marked g c" for c using ob(1) by (auto simp: white_def marked_def g1_def put_o_def)
  have k: "vrefs k \<subseteq> dom (c_heap g)" using tab_refs(3) [OF assms(1-3)] assms(4) by simp
  have e: "h_node ?h1 ! i = (k, VNil)" using assms(3) by simp
  have w: "valiswhite k g1 = Inr (\<exists>b. k = VRef b \<and> white g b)" using valiswhite_eq [of k g1] k d1 w1(1) by simp
  have l: "i < length (h_node ?h1)" using assms(3) by simp
  show ?thesis
  proof (cases "\<exists>b. k = VRef b \<and> white g b")
    case True
    then obtain b where b: "k = VRef b" "white g b" by blast
    let ?h2 = "h\<lparr>h_node := (h_node h)[i := (VDead b, VNil)]\<rparr>"
    have "removeentry a i g1 = put_body a (Tab (?h1\<lparr>h_node := (h_node ?h1)[i := (VDead b, VNil)]\<rparr>)) g1"
      using b w [unfolded b(1)] e by (simp add: removeentry_def tab_at_eq [OF t1] lassert_def set_entry_def)
    then have r: "res_bind (set_entry a i (k, VNil) g) (removeentry a i) = put_body a (Tab ?h2) g"
      unfolding s1 res_bind_Inr by (simp add: put_body_def deref_o_def g1_def put_o_def ob(1))
    have s: "tab_shrinks h ?h2" by (rule empty_entry(1) [OF assms(2,3)]) simp_all
    have "okay (put_body a (Tab ?h2) g) (\<lambda>g'. adv_strings g g' \<and> tab g' a ?h2 \<and> (\<forall>c. marked g' c = marked g c))"
      by (rule strings_put [OF assms(2) s]) (use empty_entry(2) [OF assms(2,3), of "VDead b"] in auto)
    then show ?thesis
      unfolding r
    proof (rule okay_mono)
      fix g' assume g': "adv_strings g g' \<and> tab g' a ?h2 \<and> (\<forall>c. marked g' c = marked g c)"
      have "ent g' a i (\<lambda>e. both_marked g' e \<and> snd e = VNil)"
        by (rule entI [of g' a ?h2]) (use g' assms(3) in \<open>simp_all add: vmarked_def\<close>)
      then show "adv_strings g g' \<and> ent g' a i (\<lambda>e. both_marked g' e \<and> snd e = VNil)" using g' by blast
    qed
  next
    case False
    have v: "vmarked g k" using False k not_white unfolding vmarked_def by (cases k) auto
    have r1: "removeentry a i g1 = Inr g1"
      using w [unfolded eq_False [THEN iffD2, OF False]] e by (simp add: removeentry_def tab_at_eq [OF t1] lassert_def)
    have r: "res_bind (set_entry a i (k, VNil) g) (removeentry a i) = put_body a (Tab ?h1) g"
      unfolding s1 res_bind_Inr r1 unfolding put_body_eq [OF ob(1)] g1_def ..
    have s: "tab_shrinks h ?h1"
      using assms(3,4) by (auto simp: tab_shrinks_def list_all2_conv_all_nth nth_list_update entry_shrinks_def)
    have "okay (put_body a (Tab ?h1) g) (\<lambda>g'. adv_strings g g' \<and> tab g' a ?h1 \<and> (\<forall>c. marked g' c = marked g c))"
    proof (rule strings_put [OF assms(2) s])
      fix j assume j: "j < length (h_node ?h1)" "snd (h_node ?h1 ! j) = VNil" "empty_ok g a j"
      then show "\<forall>r\<in>vrefs (fst (h_node ?h1 ! j)). marked g r"
        using v assms(2) by (cases "j = i") (auto simp: tab_empty_ok vmarked_def)
    qed
    then show ?thesis
      unfolding r
    proof (rule okay_mono)
      fix g' assume g': "adv_strings g g' \<and> tab g' a ?h1 \<and> (\<forall>c. marked g' c = marked g c)"
      have "ent g' a i (\<lambda>e. both_marked g' e \<and> snd e = VNil)"
        by (rule entI [of g' a ?h1]) (use g' assms(3) v in \<open>simp_all add: vmarked_def\<close>)
      then show "adv_strings g g' \<and> ent g' a i (\<lambda>e. both_marked g' e \<and> snd e = VNil)" using g' by blast
    qed
  qed
qed

lemma ent_weaken: "ent g a i C \<Longrightarrow> (\<And>e. C e \<Longrightarrow> D e) \<Longrightarrow> ent g a i D"
  unfolding ent_def by metis

lemma ent_both: "ent g a i C \<Longrightarrow> ent g a i D \<Longrightarrow> ent g a i (\<lambda>e. C e \<and> D e)"
  unfolding ent_def using tab_fun by metis

lemma ent_entry: "ent g a i C \<Longrightarrow> tab g a h \<Longrightarrow> C (h_node h ! i)"
  unfolding ent_def using tab_fun by metis

lemma iscleared_true:
  assumes "iscleared v g = Inr (True, g')"
  shows "g' = g"
proof (cases v)
  case (VRef a)
  then obtain ob where ob: "c_heap g a = Some ob" using assms by (cases "c_heap g a") (simp_all add: iscleared_def deref_o_def)
  show ?thesis
  proof (cases "is_string (ob_body ob)")
    case True
    then show ?thesis using assms VRef ob by (cases "markobject_o a g") (simp_all add: iscleared_def deref_o_def)
  qed (use assms VRef ob in \<open>simp add: iscleared_def deref_o_def\<close>)
qed (use assms in \<open>simp_all add: iscleared_def\<close>)

lemma iscleared_cases:
  assumes "sane g" "vrefs v \<subseteq> dom (c_heap g)"
  shows "okay (iscleared v g) (\<lambda>(c, g'). if c then g' = g \<and> cleared g v else adv_strings g g' \<and> vmarked g' v)"
  using iscleared_ok [OF assms] iscleared_true [of v g] unfolding okay_def by (auto split: if_splits)

text \<open>Keys: an entry that stays has a marked key, and both if it was an ephemeron pair.\<close>

lemma clearkey_ok:
  assumes "ready a n m g" "i < n" "ent g a i (nil_marked g)"
  shows "okay (clearkey_entry a i g) (\<lambda>g'. adv_strings g g' \<and> ent g' a i (key_marked g') \<and>
    (ent g a i (eph_pair g) \<longrightarrow> ent g' a i (both_marked g')))"
proof -
  obtain h k v where g: "sane g" "typed g" and h: "tab g a h" "i < length (h_node h)" "h_node h ! i = (k, v)"
    and r: "vrefs k \<subseteq> dom (c_heap g)"
    by (rule ready_tab [OF assms(1,2)]) blast
  have nm: "nil_marked g (k, v)" using ent_entry [OF assms(3) h(1)] h(3) by simp
  show ?thesis
  proof (cases "v = VNil")
    case True
    then have "key_marked g (k, v)" using nm by (simp add: nil_marked_def)
    then show ?thesis
      using True h by (auto simp: clearkey_entry_def tab_at_eq [OF h(1)] ent_def vmarked_def intro!: exI [of _ h])
  next
    case False
    have e: "clearkey_entry a i g = res_bind (iscleared k g) (\<lambda>(c, g).
        if c then res_bind (set_entry a i (k, VNil) g) (removeentry a i) else Inr g)"
      using False by (simp add: clearkey_entry_def tab_at_eq [OF h(1)] h(3))
    show ?thesis
      unfolding e
    proof (rule okay_bind [OF iscleared_cases [OF g(1) r]])
      fix z assume z: "case z of (c, g') \<Rightarrow> if c then g' = g \<and> cleared g k else adv_strings g g' \<and> vmarked g' k"
      obtain c g1 where zc: "z = (c, g1)" by (cases z)
      have "okay (if c then res_bind (set_entry a i (k, VNil) g1) (removeentry a i) else Inr g1)
        (\<lambda>g'. adv_strings g g' \<and> ent g' a i (key_marked g') \<and> (ent g a i (eph_pair g) \<longrightarrow> ent g' a i (both_marked g')))"
      proof (cases c)
        case True
        then have "g1 = g" using z zc by simp
        moreover have "okay (res_bind (set_entry a i (k, VNil) g) (removeentry a i))
          (\<lambda>g'. adv_strings g g' \<and> ent g' a i (key_marked g') \<and> (ent g a i (eph_pair g) \<longrightarrow> ent g' a i (both_marked g')))"
          by (rule okay_mono [OF unset_ok [OF g(1) h]]) (auto elim: ent_weaken)
        ultimately show ?thesis using True by simp
      next
        case False
        then have st: "adv_strings g g1" and a1: "adv g g1" and k1: "vmarked g1 k" using z zc by (simp_all add: adv_strings_def)
        obtain h1 where h1: "tab g1 a h1" "tab_shrinks h h1" using adv_tab [OF a1 h(1)] by blast
        have l1: "i < length (h_node h1)" using h(2) tab_shrinks_length [OF h1(2)] by simp
        have e1: "ent g1 a i (key_marked g1)" by (rule ent_after(1) [OF a1 h k1])
        moreover have "ent g1 a i (both_marked g1)" if "ent g a i (eph_pair g)"
        proof -
          have p: "eph_pair g1 (h_node h1 ! i)" by (rule ent_entry [OF eph_pair_strings [OF st that] h1(1)])
          have km: "key_marked g1 (h_node h1 ! i)" by (rule ent_entry [OF e1 h1(1)])
          have "both_marked g1 (h_node h1 ! i)"
            using p km not_cleared [OF km] by (cases "snd (h_node h1 ! i) = VNil") (auto simp: eph_pair_def vmarked_def)
          then show ?thesis using h1(1) l1 by (auto simp: ent_def)
        qed
        ultimately show ?thesis using False st by simp
      qed
      then show "okay (case z of (c, g) \<Rightarrow> if c then res_bind (set_entry a i (k, VNil) g) (removeentry a i) else Inr g)
        (\<lambda>g'. adv_strings g g' \<and> ent g' a i (key_marked g') \<and> (ent g a i (eph_pair g) \<longrightarrow> ent g' a i (both_marked g')))"
        unfolding zc by simp
    qed
  qed
qed

lemma clearvalue_ok:
  assumes "ready a n m g" "i < n"
  shows "okay (clearvalue_entry a i g) (\<lambda>g'. adv_strings g g' \<and> ent g' a i (\<lambda>e. vmarked g' (snd e)))"
proof -
  obtain h k v where g: "sane g" "typed g" and h: "tab g a h" "i < length (h_node h)" "h_node h ! i = (k, v)"
    and r: "vrefs v \<subseteq> dom (c_heap g)"
    by (rule ready_tab [OF assms(1,2)]) blast
  show ?thesis
  proof (cases "v = VNil")
    case True
    then show ?thesis
      using h by (auto simp: clearvalue_entry_def tab_at_eq [OF h(1)] ent_def vmarked_def intro!: exI [of _ h])
  next
    case False
    have e: "clearvalue_entry a i g = res_bind (iscleared v g) (\<lambda>(c, g).
        if c then res_bind (set_entry a i (k, VNil) g) (removeentry a i) else Inr g)"
      using False by (simp add: clearvalue_entry_def tab_at_eq [OF h(1)] h(3))
    show ?thesis
      unfolding e
    proof (rule okay_bind [OF iscleared_cases [OF g(1) r]])
      fix z assume z: "case z of (c, g') \<Rightarrow> if c then g' = g \<and> cleared g v else adv_strings g g' \<and> vmarked g' v"
      obtain c g1 where zc: "z = (c, g1)" by (cases z)
      have "okay (if c then res_bind (set_entry a i (k, VNil) g1) (removeentry a i) else Inr g1)
        (\<lambda>g'. adv_strings g g' \<and> ent g' a i (\<lambda>e. vmarked g' (snd e)))"
      proof (cases c)
        case True
        then have "g1 = g" using z zc by simp
        moreover have "okay (res_bind (set_entry a i (k, VNil) g) (removeentry a i))
          (\<lambda>g'. adv_strings g g' \<and> ent g' a i (\<lambda>e. vmarked g' (snd e)))"
          by (rule okay_mono [OF unset_ok [OF g(1) h]]) (auto elim: ent_weaken)
        ultimately show ?thesis using True by simp
      next
        case False
        then have st: "adv_strings g g1" and a1: "adv g g1" and v1: "vmarked g1 v" using z zc by (simp_all add: adv_strings_def)
        have e0: "ent g a i (\<lambda>e. e = (k, v))" using h by (auto simp: ent_def)
        have "ent g1 a i (\<lambda>e. vmarked g1 (snd e))"
          by (rule adv_ent [OF a1 e0]) (use v1 in \<open>auto simp: entry_shrinks_def vmarked_def\<close>)
        then show ?thesis using False st by simp
      qed
      then show "okay (case z of (c, g) \<Rightarrow> if c then res_bind (set_entry a i (k, VNil) g) (removeentry a i) else Inr g)
        (\<lambda>g'. adv_strings g g' \<and> ent g' a i (\<lambda>e. vmarked g' (snd e)))"
        unfolding zc by simp
    qed
  qed
qed

text \<open>Slots of the array part.\<close>

definition slot :: "cstate \<Rightarrow> nat \<Rightarrow> nat \<Rightarrow> bool" where
  "slot g a i \<longleftrightarrow> (\<exists>h. tab g a h \<and> i < length (h_array h) \<and> vmarked g (h_array h ! i))"

lemma adv_slot:
  assumes "adv g g'" "slot g a i"
  shows "slot g' a i"
proof -
  obtain h where h: "tab g a h" "i < length (h_array h)" "vmarked g (h_array h ! i)" using assms(2) by (auto simp: slot_def)
  obtain h' where h': "tab g' a h'" "tab_shrinks h h'" using adv_tab [OF assms(1) h(1)] by blast
  have "val_shrinks (h_array h ! i) (h_array h' ! i)" by (rule tab_shrinks_nth(2) [OF h'(2) h(2)])
  then have "vmarked g' (h_array h' ! i)"
    using h(3) advx_vmarked [OF assms(1)] by (auto simp: val_shrinks_def vmarked_def)
  then show ?thesis using h'(1) h(2) tab_shrinks_length [OF h'(2)] unfolding slot_def by auto
qed

lemma clearslot_ok:
  assumes "ready a n m g" "i < m"
  shows "okay (clearvalue_slot a i g) (\<lambda>g'. adv_strings g g' \<and> slot g' a i)"
proof -
  obtain h where g: "sane g" and h: "tab g a h" "i < length (h_array h)" using assms by (auto simp: ready_def)
  let ?v = "h_array h ! i"
  have "vrefs ?v \<subseteq> lrefs (h_array h)" using nth_mem [OF h(2)] by (auto simp: lrefs_def)
  then have r: "vrefs ?v \<subseteq> dom (c_heap g)" using tab_refs(2) [OF g h(1)] by blast
  show ?thesis
    unfolding clearvalue_slot_def tab_at_eq [OF h(1)] res_bind_Inr
  proof (rule okay_bind [OF iscleared_cases [OF g r]])
    fix z assume z: "case z of (c, g') \<Rightarrow> if c then g' = g \<and> cleared g ?v else adv_strings g g' \<and> vmarked g' ?v"
    obtain c g1 where zc: "z = (c, g1)" by (cases z)
    have "okay (if c then set_slot a i VNil g1 else Inr g1) (\<lambda>g'. adv_strings g g' \<and> slot g' a i)"
    proof (cases c)
      case True
      then have "g1 = g" using z zc by simp
      moreover have "okay (set_slot a i VNil g) (\<lambda>g'. adv_strings g g' \<and> slot g' a i)"
        by (rule okay_mono [OF set_slot_ok [OF h]])
          (use h(2) in \<open>auto simp: adv_strings_def slot_def vmarked_def intro!: exI [of _ "h\<lparr>h_array := (h_array h)[i := VNil]\<rparr>"]\<close>)
      ultimately show ?thesis using True by simp
    next
      case False
      then have st: "adv_strings g g1" and a1: "adv g g1" and v1: "vmarked g1 ?v" using z zc by (simp_all add: adv_strings_def)
      obtain h1 where h1: "tab g1 a h1" "tab_shrinks h h1" using adv_tab [OF a1 h(1)] by blast
      have "val_shrinks ?v (h_array h1 ! i)" by (rule tab_shrinks_nth(2) [OF h1(2) h(2)])
      then have "vmarked g1 (h_array h1 ! i)" using v1 by (auto simp: val_shrinks_def vmarked_def)
      then have "slot g1 a i" using h1(1) h(2) tab_shrinks_length [OF h1(2)] unfolding slot_def by auto
      then show ?thesis using False st by simp
    qed
    then show "okay (case z of (c, g) \<Rightarrow> if c then set_slot a i VNil g else Inr g) (\<lambda>g'. adv_strings g g' \<and> slot g' a i)"
      unfolding zc by simp
  qed
qed

section \<open>Whole tables and lists of tables\<close>

lemma strings_adv: "adv_strings g g' \<Longrightarrow> adv g g'"
  by (simp add: adv_strings_def)

text \<open>A loop whose steps mark strings only.\<close>

lemma clear_fold:
  assumes "ready a n m g" "\<And>i s. i < l \<Longrightarrow> ready a n m s \<Longrightarrow> I i s \<Longrightarrow> okay (f i s) (\<lambda>s'. adv_strings s s' \<and> Q i s')"
    "\<And>i s s'. adv_strings s s' \<Longrightarrow> Q i s \<Longrightarrow> Q i s'" "\<And>i s s'. adv_strings s s' \<Longrightarrow> I i s \<Longrightarrow> I i s'" "\<And>i. i < l \<Longrightarrow> I i g"
  shows "okay (res_fold f [0..<l] g) (\<lambda>g'. adv_strings g g' \<and> (\<forall>i<l. Q i g'))"
proof -
  have "okay (res_fold f [0..<l] g) (\<lambda>g'. (ready a n m g' \<and> (\<forall>i<l. I i g')) \<and> adv_strings g g' \<and> (\<forall>i\<in>set [0..<l]. Q i g'))"
  proof (rule okay_fold)
    fix i s assume i: "i \<in> set [0..<l]" and s: "ready a n m s \<and> (\<forall>i<l. I i s)"
    show "okay (f i s) (\<lambda>s'. (ready a n m s' \<and> (\<forall>i<l. I i s')) \<and> adv_strings s s' \<and> Q i s')"
    proof (rule okay_mono [OF assms(2)])
      show "i < l" "ready a n m s" "I i s" using i s by auto
      fix s' assume s': "adv_strings s s' \<and> Q i s'"
      then show "(ready a n m s' \<and> (\<forall>i<l. I i s')) \<and> adv_strings s s' \<and> Q i s'"
        using s assms(4) ready_adv [OF strings_adv] by blast
    qed
  next
    fix i s s' assume "adv_strings s s'" "Q i s"
    then show "Q i s'" by (rule assms(3))
  qed (use assms(1,5) adv_strings_trans in auto)
  then show ?thesis by (rule okay_mono) auto
qed

definition closed :: "cstate \<Rightarrow> nat \<Rightarrow> bool" where
  "closed g a \<longleftrightarrow> (\<exists>ob. c_heap g a = Some ob \<and> (\<forall>r\<in>body_refs (ob_body ob). marked g r))"

lemma evolves_closed:
  assumes "evolves g g'" "closed g a"
  shows "closed g' a"
proof -
  obtain ob where ob: "c_heap g a = Some ob" "\<forall>r\<in>body_refs (ob_body ob). marked g r" using assms(2) by (auto simp: closed_def)
  obtain ob' where ob': "c_heap g' a = Some ob'" "shrinks (ob_body ob) (ob_body ob')" using evolves_obj [OF assms(1) ob(1)] by blast
  have "\<forall>r\<in>body_refs (ob_body ob'). marked g' r" using ob(2) shrinks_refs [OF ob'(2)] evolves_marked [OF assms(1)] by blast
  then show ?thesis using ob'(1) by (auto simp: closed_def)
qed

lemma strings_evolves: "adv_strings g g' \<Longrightarrow> evolves g g'"
  by (rule adv_evolves [OF strings_adv])

lemma tab_closed:
  assumes "tab g a h" "meta_marked g h" "\<forall>r\<in>lrefs (h_array h). marked g r" "\<forall>e\<in>set (h_node h). both_marked g e"
  shows "closed g a"
  using tab_settled [OF assms, of "{}" "[]" "[]"] unfolding settled_def closed_def by blast

definition clearkeys_tab :: "nat \<Rightarrow> cstate \<Rightarrow> lua_error + cstate" where
  "clearkeys_tab a g = res_bind (tab_at a g) (\<lambda>h. res_fold (clearkey_entry a) [0..<length (h_node h)] g)"

lemma clearkeys_tab_ok:
  assumes "sane g" "typed g" "eph_tab g a"
  shows "okay (clearkeys_tab a g) (\<lambda>g'. adv_strings g g' \<and> (pairs g a \<or> key_tab g a \<longrightarrow> closed g' a))"
proof -
  obtain h where h: "tab g a h" "meta_marked g h" "\<forall>r\<in>lrefs (h_array h). marked g r" "\<forall>e\<in>set (h_node h). nil_marked g e"
    using assms(3) unfolding eph_tab_def by blast
  let ?n = "length (h_node h)"
  let ?Q = "\<lambda>i s. ent s a i (key_marked s) \<and> (pairs g a \<longrightarrow> ent s a i (both_marked s))"
  let ?I = "\<lambda>i s. ent s a i (nil_marked s) \<and> (pairs g a \<longrightarrow> ent s a i (eph_pair s))"
  have rd: "ready a ?n (length (h_array h)) g" using assms h(1) by (auto simp: ready_def)
  have "okay (res_fold (clearkey_entry a) [0..<?n] g) (\<lambda>g'. adv_strings g g' \<and> (\<forall>i<?n. ?Q i g'))"
  proof (rule clear_fold [OF rd, where I = ?I])
    show "okay (clearkey_entry a i s) (\<lambda>s'. adv_strings s s' \<and> ?Q i s')"
      if "i < ?n" "ready a ?n (length (h_array h)) s" "?I i s" for i s
      by (rule okay_mono [OF clearkey_ok [OF that(2,1)]]) (use that(3) in auto)
    show "?Q i s'" if "adv_strings s s'" "?Q i s" for i s s'
      using that adv_key [OF strings_adv [OF that(1)]] adv_both [OF strings_adv [OF that(1)]] by blast
    show "?I i s'" if "adv_strings s s'" "?I i s" for i s s'
      using that adv_nil [OF strings_adv [OF that(1)]] eph_pair_strings [OF that(1)] by blast
    show "?I i g" if "i < ?n" for i
    proof -
      have "nil_marked g (h_node h ! i)" using h(4) that by simp
      moreover have "eph_pair g (h_node h ! i)" if "pairs g a"
        using that \<open>i < ?n\<close> tab_fun [OF h(1)] unfolding pairs_def by (metis nth_mem)
      ultimately show ?thesis using h(1) that by (auto simp: ent_def)
    qed
  qed
  then show ?thesis
    unfolding clearkeys_tab_def tab_at_eq [OF h(1)] res_bind_Inr
  proof (rule okay_mono)
    fix g' assume g': "adv_strings g g' \<and> (\<forall>i<?n. ?Q i g')"
    then have st: "adv_strings g g'" and a: "adv g g'" by (simp_all add: adv_strings_def)
    have "closed g' a" if pk: "pairs g a \<or> key_tab g a"
    proof -
      have b: "\<forall>i<?n. ent g' a i (both_marked g')"
      proof (cases "pairs g a")
        case False
        then obtain hk where hk: "tab g a hk" "\<forall>e\<in>set (h_node hk). vmarked g (snd e)" using pk unfolding key_tab_def by blast
        then have "\<forall>e\<in>set (h_node h). vmarked g (snd e)" using tab_fun [OF h(1) hk(1)] by simp
        then have "\<forall>i<?n. ent g a i (\<lambda>e. vmarked g (snd e))" using h(1) by (auto simp: ent_def)
        then have "\<forall>i<?n. ent g' a i (\<lambda>e. vmarked g' (snd e))" using adv_value [OF a] by blast
        then show ?thesis using g' ent_both by fastforce
      qed (use g' in blast)
      obtain h' where h': "tab g' a h'" "tab_shrinks h h'" "meta_marked g' h'" "\<forall>e\<in>set (h_node h'). both_marked g' e"
        by (rule after_loop [OF a h(1,2) b])
      show ?thesis by (rule tab_closed [OF h'(1,3) adv_array [OF a h(3) h'(2)] h'(4)])
    qed
    then show "adv_strings g g' \<and> (pairs g a \<or> key_tab g a \<longrightarrow> closed g' a)" using st by blast
  qed
qed

definition clearvalues_tab :: "nat \<Rightarrow> cstate \<Rightarrow> lua_error + cstate" where
  "clearvalues_tab a g = res_bind (tab_at a g) (\<lambda>h.
     res_bind (res_fold (clearvalue_slot a) [0..<length (h_array h)] g) (\<lambda>g.
       res_fold (clearvalue_entry a) [0..<length (h_node h)] g))"

lemma clearvalues_tab_ok:
  assumes "sane g" "typed g" "meta_tab g a"
  shows "okay (clearvalues_tab a g) (\<lambda>g'. adv_strings g g' \<and> (weak_tab g a \<longrightarrow> closed g' a))"
proof -
  obtain h where h: "tab g a h" "meta_marked g h" using assms(3) unfolding meta_tab_def by blast
  let ?n = "length (h_node h)" and ?m = "length (h_array h)"
  have rd: "ready a ?n ?m g" using assms h(1) by (auto simp: ready_def)
  have f1: "okay (res_fold (clearvalue_slot a) [0..<?m] g) (\<lambda>g'. adv_strings g g' \<and> (\<forall>i<?m. slot g' a i))"
  proof (rule clear_fold [OF rd, where I = "\<lambda>i s. True"])
    show "okay (clearvalue_slot a i s) (\<lambda>s'. adv_strings s s' \<and> slot s' a i)" if "i < ?m" "ready a ?n ?m s" for i s
      by (rule clearslot_ok [OF that(2,1)])
  qed (use adv_slot strings_adv in blast)+
  show ?thesis
    unfolding clearvalues_tab_def tab_at_eq [OF h(1)] res_bind_Inr
  proof (rule okay_bind [OF f1])
    fix g1 assume g1: "adv_strings g g1 \<and> (\<forall>i<?m. slot g1 a i)"
    then have st1: "adv_strings g g1" by simp
    have rd1: "ready a ?n ?m g1" by (rule ready_adv [OF strings_adv [OF st1] rd])
    have "okay (res_fold (clearvalue_entry a) [0..<?n] g1)
        (\<lambda>g'. adv_strings g1 g' \<and> (\<forall>i<?n. ent g' a i (\<lambda>e. vmarked g' (snd e))))"
    proof (rule clear_fold [OF rd1, where I = "\<lambda>i s. True"])
      show "okay (clearvalue_entry a i s) (\<lambda>s'. adv_strings s s' \<and> ent s' a i (\<lambda>e. vmarked s' (snd e)))"
        if "i < ?n" "ready a ?n ?m s" for i s
        by (rule clearvalue_ok [OF that(2,1)])
    qed (use adv_value strings_adv in blast)+
    then show "okay (res_fold (clearvalue_entry a) [0..<?n] g1) (\<lambda>g'. adv_strings g g' \<and> (weak_tab g a \<longrightarrow> closed g' a))"
    proof (rule okay_mono)
      fix g2 assume g2: "adv_strings g1 g2 \<and> (\<forall>i<?n. ent g2 a i (\<lambda>e. vmarked g2 (snd e)))"
      have st: "adv_strings g g2" using adv_strings_trans st1 g2 by blast
      note a = strings_adv [OF st]
      have "closed g2 a" if wt: "weak_tab g a"
      proof -
        obtain hk where "tab g a hk" "\<forall>e\<in>set (h_node hk). key_marked g e" using wt unfolding weak_tab_def by blast
        then have "\<forall>e\<in>set (h_node h). key_marked g e" using tab_fun [OF h(1)] by blast
        then have "\<forall>i<?n. ent g a i (key_marked g)" using h(1) by (auto simp: ent_def)
        then have "\<forall>i<?n. ent g2 a i (key_marked g2)" using adv_key [OF a] by blast
        then have b: "\<forall>i<?n. ent g2 a i (both_marked g2)" using g2 ent_both by fastforce
        obtain h2 where h2: "tab g2 a h2" "tab_shrinks h h2" "meta_marked g2 h2" "\<forall>e\<in>set (h_node h2). both_marked g2 e"
          by (rule after_loop [OF a h b])
        have sl: "\<forall>i<?m. slot g2 a i" using g1 g2 adv_slot strings_adv by blast
        have "\<forall>r\<in>lrefs (h_array h2). marked g2 r"
        proof
          fix r assume "r \<in> lrefs (h_array h2)"
          then obtain i where i: "i < length (h_array h2)" "r \<in> vrefs (h_array h2 ! i)" by (auto simp: lrefs_def in_set_conv_nth)
          then have "slot g2 a i" using sl tab_shrinks_length [OF h2(2)] by simp
          then have "vmarked g2 (h_array h2 ! i)" using tab_fun [OF h2(1)] unfolding slot_def by blast
          then show "marked g2 r" using i(2) by (simp add: vmarked_def)
        qed
        then show ?thesis by (rule tab_closed [OF h2(1,3) _ h2(4)])
      qed
      then show "adv_strings g g2 \<and> (weak_tab g a \<longrightarrow> closed g2 a)" using st by blast
    qed
  qed
qed

text \<open>Lists of tables.\<close>

lemma strings_weak_tabs:
  assumes "adv_strings g g'"
  shows "meta_tab g a \<Longrightarrow> meta_tab g' a" "weak_tab g a \<Longrightarrow> weak_tab g' a" "eph_tab g a \<Longrightarrow> eph_tab g' a"
    "key_tab g a \<Longrightarrow> key_tab g' a" "closed g a \<Longrightarrow> closed g' a" "sane g \<Longrightarrow> sane g'" "typed g \<Longrightarrow> typed g'"
  using evolves_meta [OF strings_evolves [OF assms]] adv_weak_tab [OF strings_adv [OF assms]] adv_eph_tab [OF strings_adv [OF assms]]
    adv_key_tab [OF strings_adv [OF assms]] evolves_closed [OF strings_evolves [OF assms]] advx_sane [OF strings_adv [OF assms]]
    adv_typed [OF strings_adv [OF assms]]
  by blast+

lemma clearkeys_ok:
  assumes "sane g" "typed g" "\<forall>a\<in>set (up_to l f). eph_tab g a \<and> (pairs g a \<or> key_tab g a)"
  shows "okay (clearkeys l f g) (\<lambda>g'. adv_strings g g' \<and> (\<forall>a\<in>set (up_to l f). closed g' a))"
proof -
  let ?I = "\<lambda>s. sane s \<and> typed s \<and> (\<forall>a\<in>set (up_to l f). eph_tab s a \<and> (pairs s a \<or> key_tab s a))"
  have e: "clearkeys l f g = res_fold clearkeys_tab (up_to l f) g"
    by (simp add: clearkeys_def clearkeys_tab_def [abs_def])
  have "okay (res_fold clearkeys_tab (up_to l f) g) (\<lambda>g'. ?I g' \<and> adv_strings g g' \<and> (\<forall>a\<in>set (up_to l f). closed g' a))"
  proof (rule okay_fold)
    fix a s assume a: "a \<in> set (up_to l f)" and s: "?I s"
    then have "sane s" "typed s" "eph_tab s a" and pk: "pairs s a \<or> key_tab s a" by blast+
    from clearkeys_tab_ok [OF this(1-3)] show "okay (clearkeys_tab a s) (\<lambda>s'. ?I s' \<and> adv_strings s s' \<and> closed s' a)"
    proof (rule okay_mono)
      fix s' assume s': "adv_strings s s' \<and> (pairs s a \<or> key_tab s a \<longrightarrow> closed s' a)"
      then have st: "adv_strings s s'" by simp
      have "eph_tab s' b \<and> (pairs s' b \<or> key_tab s' b)" if "b \<in> set (up_to l f)" for b
        using s that strings_weak_tabs(3,4) [OF st] pairs_strings [OF st] by blast
      then show "?I s' \<and> adv_strings s s' \<and> closed s' a"
        using s s' pk strings_weak_tabs(6,7) [OF st] by blast
    qed
  next
    fix a s s' assume "adv_strings s s'" "closed s a"
    then show "closed s' a" by (rule strings_weak_tabs(5))
  qed (use assms adv_strings_trans in auto)
  then show ?thesis unfolding e by (rule okay_mono) blast
qed

lemma clearvalues_ok:
  assumes "sane g" "typed g" "\<forall>a\<in>set (up_to l f). meta_tab g a"
  shows "okay (clearvalues l f g) (\<lambda>g'. adv_strings g g' \<and> (\<forall>a\<in>set (up_to l f). weak_tab g a \<longrightarrow> closed g' a))"
proof -
  let ?I = "\<lambda>s. sane s \<and> typed s \<and> (\<forall>a\<in>set (up_to l f). meta_tab s a) \<and> (\<forall>a. weak_tab g a \<longrightarrow> weak_tab s a)"
  have e: "clearvalues l f g = res_fold clearvalues_tab (up_to l f) g"
    by (simp add: clearvalues_def clearvalues_tab_def [abs_def])
  have "okay (res_fold clearvalues_tab (up_to l f) g) (\<lambda>g'. ?I g' \<and> adv_strings g g' \<and>
      (\<forall>a\<in>set (up_to l f). weak_tab g a \<longrightarrow> closed g' a))"
  proof (rule okay_fold)
    fix a s assume a: "a \<in> set (up_to l f)" and s: "?I s"
    then have "sane s" "typed s" "meta_tab s a" by blast+
    from clearvalues_tab_ok [OF this]
    show "okay (clearvalues_tab a s) (\<lambda>s'. ?I s' \<and> adv_strings s s' \<and> (weak_tab g a \<longrightarrow> closed s' a))"
    proof (rule okay_mono)
      fix s' assume s': "adv_strings s s' \<and> (weak_tab s a \<longrightarrow> closed s' a)"
      then have st: "adv_strings s s'" by simp
      show "?I s' \<and> adv_strings s s' \<and> (weak_tab g a \<longrightarrow> closed s' a)"
        using s s' strings_weak_tabs [OF st] by blast
    qed
  next
    fix a s s' assume "adv_strings s s'" "weak_tab g a \<longrightarrow> closed s a"
    then show "weak_tab g a \<longrightarrow> closed s' a" using strings_weak_tabs(5) by blast
  qed (use assms adv_strings_trans in auto)
  then show ?thesis unfolding e by (rule okay_mono) blast
qed

end
