(* ===== verification/LuaGcAtomic.thy ===== *)
theory LuaGcAtomic
  imports LuaGcConverge
begin

text \<open>The atomic phase: afterwards every marked object refers to marked objects only.\<close>

section \<open>Remarking upvalues\<close>

definition holds :: "'e + 'a \<Rightarrow> ('a \<Rightarrow> bool) \<Rightarrow> bool" where
  "holds r Q \<longleftrightarrow> (\<forall>x. r = Inr x \<longrightarrow> Q x)"

lemma holds_simps [simp]: "holds (Inr x) Q = Q x" "holds (Inl e) Q"
  by (simp_all add: holds_def)

lemma holds_bind: "holds r Q \<Longrightarrow> (\<And>x. Q x \<Longrightarrow> holds (f x) R) \<Longrightarrow> holds (res_bind r f) R"
  by (cases r) auto

lemma holds_any: "(\<And>x. holds (f x) R) \<Longrightarrow> holds (res_bind r f) R"
  by (cases r) auto

lemma recolor_upvals: "holds (recolor f a g) (\<lambda>g'. c_upvals g' = c_upvals g)"
  unfolding recolor_def by (rule holds_any) (simp add: put_o_def)

lemma reallymark_upvals: "holds (reallymarkobject_o f a g) (\<lambda>g'. c_upvals g' = c_upvals g)"
proof (induction f arbitrary: a g)
  case (Suc f)
  have c: "holds (if w then reallymarkobject_o f b s else Inr s) (\<lambda>g'. c_upvals g' = c_upvals g)" if "c_upvals s = c_upvals g" for w b s
    using Suc [of b s] that by simp
  show ?case
    unfolding reallymarkobject_o.simps
  proof (rule holds_any, rule holds_bind [OF recolor_upvals])
    fix ob and s :: cstate assume s: "c_upvals s = c_upvals g"
    show "holds (case ob_body ob of
         Str _ _ \<Rightarrow> recolor gray2black_m a s
       | Udata mt uv \<Rightarrow>
           res_bind (case mt of
               None \<Rightarrow> Inr s
             | Some m \<Rightarrow> res_bind (iswhite_o m s) (\<lambda>w. if w then reallymarkobject_o f m s else Inr s)) (\<lambda>g.
           res_bind (recolor gray2black_m a g) (\<lambda>g.
           res_bind (valiswhite uv g) (\<lambda>w.
             if w then (case uv of VRef b \<Rightarrow> reallymarkobject_o f b g | _ \<Rightarrow> Inr g) else Inr g)))
       | _ \<Rightarrow> Inr (s\<lparr>c_gray := a # c_gray s\<rparr>)) (\<lambda>g'. c_upvals g' = c_upvals g)"
    proof (cases "ob_body ob")
      case (Udata mt uv)
      have 1: "holds (case mt of
               None \<Rightarrow> Inr s
             | Some m \<Rightarrow> res_bind (iswhite_o m s) (\<lambda>w. if w then reallymarkobject_o f m s else Inr s)) (\<lambda>g'. c_upvals g' = c_upvals g)"
        using s c [OF s] by (cases mt) (auto intro: holds_any)
      show ?thesis
        unfolding Udata gcbody.case
      proof (rule holds_bind [OF 1])
        fix s1 :: cstate assume s1: "c_upvals s1 = c_upvals g"
        show "holds (res_bind (recolor gray2black_m a s1) (\<lambda>g.
           res_bind (valiswhite uv g) (\<lambda>w.
             if w then (case uv of VRef b \<Rightarrow> reallymarkobject_o f b g | _ \<Rightarrow> Inr g) else Inr g))) (\<lambda>g'. c_upvals g' = c_upvals g)"
        proof (rule holds_bind [OF recolor_upvals], rule holds_any)
          fix s2 :: cstate and w assume "c_upvals s2 = c_upvals s1"
          then have "c_upvals s2 = c_upvals g" using s1 by simp
          then show "holds (if w then (case uv of VRef b \<Rightarrow> reallymarkobject_o f b s2 | _ \<Rightarrow> Inr s2) else Inr s2)
              (\<lambda>g'. c_upvals g' = c_upvals g)"
            using Suc [of _ s2] by (cases uv) auto
        qed
      qed
    qed (use s recolor_upvals [of gray2black_m a s] in auto)
  qed
qed simp

lemma markvalue_upvals: "holds (markvalue_o v g) (\<lambda>g'. c_upvals g' = c_upvals g)"
proof (cases v)
  case (VRef a)
  have "holds (markobject_o a g) (\<lambda>g'. c_upvals g' = c_upvals g)"
    unfolding markobject_o_def by (rule holds_any) (use reallymark_upvals in auto)
  then show ?thesis using VRef by (simp add: markvalue_o_def)
qed (simp_all add: markvalue_o_def)

definition untouched :: "cstate \<Rightarrow> nat \<Rightarrow> bool" where
  "untouched g u \<longleftrightarrow> (\<forall>uv. c_upvals g u = Some uv \<longrightarrow> \<not> u_touched uv)"

lemma minv_untouch:
  assumes m: "minv T P [] g" and u: "c_upvals g u = Some uv" and v: "upval_value u g = Inr v" "\<forall>r\<in>vrefs v. marked g r"
  shows "minv T P [] (put_u u (uv\<lparr>u_touched := False\<rparr>) g)"
proof -
  let ?g = "put_u u (uv\<lparr>u_touched := False\<rparr>) g"
  note i = minvD [OF m]
  have h: "c_heap ?g = c_heap g" by (simp add: put_u_def)
  have e: "marked ?g = marked g" "white ?g = white g" "gray ?g = gray g" "is_listed ?g = is_listed g" "tab ?g = tab g" "thr ?g = thr g"
    unfolding marked_def white_def gray_def is_listed_def tab_def thr_def h fun_eq_iff by simp_all
  have vm: "vmarked ?g = vmarked g" unfolding vmarked_def e ..
  have f: "c_gray ?g = c_gray g" "weaks ?g = weaks g" "c_twups ?g = c_twups g" "c_gcstate ?g = c_gcstate g" "c_tmname ?g = c_tmname g"
    "gc_fuel ?g = gc_fuel g" "c_weak ?g = c_weak g" "c_ephemeron ?g = c_ephemeron g" "c_allweak ?g = c_allweak g"
    by (simp_all add: put_u_def gc_fuel_def)
  have "sane ?g" using i(1) unfolding sane_def h f .
  moreover have it: "is_tab ?g = is_tab g" unfolding is_tab_def e ..
  have "typed ?g" using i(2) unfolding typed_def body_ok_def h it .
  moreover have "uwf ?g"
    unfolding uwf_def e h
  proof (intro conjI allI impI)
    note w = uwfD [OF i(3)]
    show "\<exists>th. thr g t th \<and> x \<in> set (th_openupval th) \<and> k < th_top th" if "c_upvals ?g x = Some ux" "u_open ux = Some (t, k)" for x ux t k
      using that w(1) u by (cases "x = u") (auto simp: put_u_def)
    show "vrefs (u_value ux) \<subseteq> dom (c_heap g)" if "c_upvals ?g x = Some ux" "u_open ux = None" for x ux
      using that w(2) [of x] w(2) [OF u] by (cases "x = u") (auto simp: put_u_def)
    show "\<exists>ux k. c_upvals ?g x = Some ux \<and> u_open ux = Some (t, k)" if o: "thr g t th" "x \<in> set (th_openupval th)" for t th x
    proof -
      obtain ux k where "c_upvals g x = Some ux" "u_open ux = Some (t, k)" using w(3) [OF o] by blast
      then show ?thesis using u by (cases "x = u") (simp_all add: put_u_def)
    qed
    have "dom (c_upvals ?g) = insert u (dom (c_upvals g))" by (auto simp: put_u_def)
    then show "body_upvals (ob_body ob) \<subseteq> dom (c_upvals ?g)" if "c_heap g a = Some ob" for a ob
      using w(4) [OF that] by blast
  qed
  moreover have "both_modes ?g = both_modes g" unfolding both_modes_def h ..
  then have "modes ?g" using i(4) unfolding modes_def e f by simp
  moreover have "lists_ok P [] ?g" using i(5) unfolding lists_ok_def e f .
  moreover have "weaks_ok ?g"
    using i(6) unfolding weaks_ok_def weak_tab_def eph_tab_def key_tab_def meta_marked_def nil_marked_def e f vm .
  moreover have "\<forall>t th. thr ?g t th \<longrightarrow> thr_ok T P [] ?g t th" using i(7) unfolding thr_ok_def e f by blast
  moreover have "twups_ok T ?g" using i(8) unfolding twups_ok_def e f .
  moreover have "tri T P [] ?g"
  proof -
    have uo: "upv_ok T P [] ?g w" if w: "upv_ok T P [] g w" for w
    proof (cases "w = u")
      case True
      have "upv_ok {} P [] g u" by (rule marked_upval [OF m u v(1) advx_refl v(2)])
      then show ?thesis using True u unfolding upv_ok_def e f vm by (auto simp: put_u_def split: option.splits)
    next
      case False
      then show ?thesis using w unfolding upv_ok_def e f vm by (simp add: put_u_def)
    qed
    show ?thesis using i(9) uo unfolding tri_def settled_def e f h by meson
  qed
  ultimately show ?thesis unfolding minv_def by blast
qed

lemma untouch_evolves: "c_upvals g u = Some uv \<Longrightarrow> evolves g (put_u u (uv\<lparr>u_touched := b\<rparr>) g)"
  unfolding evolves_def by (auto simp: put_u_def rel_option_iff split: option.splits)

lemma remark_upval_ok:
  assumes m: "minv T P [] g" and u: "u \<in> dom (c_upvals g)"
  shows "okay (remark_upval u g) (\<lambda>g'. minv T P [] g' \<and> evolves g g' \<and> c_twups g' = c_twups g \<and>
    (\<forall>w. untouched g w \<longrightarrow> untouched g' w) \<and> untouched g' u)"
proof -
  obtain uv where uv: "c_upvals g u = Some uv" using u by auto
  note i = minvD [OF m]
  show ?thesis
  proof (cases "u_touched uv")
    case False
    then show ?thesis using m uv by (simp add: remark_upval_def deref_u_def untouched_def)
  next
    case True
    obtain v where v: "upval_value u g = Inr v" "vrefs v \<subseteq> dom (c_heap g)" using upval_value_ok [OF i(1-3) uv] by blast
    have e: "remark_upval u g = res_bind (markvalue_o v g) (set_touched False u)"
      using True uv v(1) by (simp add: remark_upval_def deref_u_def)
    obtain g1 where g1: "markvalue_o v g = Inr g1" "adv g g1" "\<forall>r\<in>vrefs v. marked g1 r"
      using markvalue_ok [OF i(1) v(2)] unfolding okay_def by blast
    have up: "c_upvals g1 = c_upvals g" using markvalue_upvals [of v g] g1(1) by simp
    let ?g = "put_u u (uv\<lparr>u_touched := False\<rparr>) g1"
    note m1 = minv_adv [OF g1(2) m]
    have uv1: "c_upvals g1 u = Some uv" using up uv by simp
    obtain v1 where v1: "upval_value u g1 = Inr v1" using upval_value_ok [OF minvD(1-3) [OF m1] uv1] by blast
    have "v1 = v"
    proof (cases "u_open uv")
      case None
      then show ?thesis using v(1) v1 uv uv1 by (simp add: upval_value_def deref_u_def)
    next
      case (Some p)
      obtain t k where p: "p = (t, k)" by (cases p)
      obtain th where th: "thr g t th" "k < th_top th" using uwfD(1) [OF i(3) uv] Some p by blast
      obtain th1 where th1: "thr g1 t th1" "thr_shrinks th th1" using adv_thr [OF g1(2) th(1)] by blast
      have l: "k < length (th_stack th1)" "k < length (th_stack th)"
        using typed_thr [OF minvD(2) [OF m1] th1(1)] typed_thr [OF i(2) th(1)] thr_shrinksD(1) [OF th1(2)] th(2) by simp_all
      then have "th_stack th1 ! k = th_stack th ! k" using thr_shrinksD(4) [OF th1(2) th(2)] by simp
      then show ?thesis
        using v(1) v1 uv uv1 Some p l by (simp add: upval_value_def deref_u_def thr_at_eq [OF th(1)] thr_at_eq [OF th1(1)])
    qed
    then have "minv T P [] ?g" by (intro minv_untouch [OF m1 uv1 v1]) (use g1(3) in simp)
    moreover have "evolves g ?g" by (rule evolves_trans [OF adv_evolves [OF g1(2)] untouch_evolves [OF uv1]])
    moreover have "c_twups ?g = c_twups g" using advx_fields(13) [OF g1(2)] by (simp add: put_u_def)
    moreover have "\<forall>w. untouched g w \<longrightarrow> untouched ?g w" "untouched ?g u" using up by (auto simp: untouched_def put_u_def)
    ultimately show ?thesis unfolding e g1(1) by (simp add: set_touched_def deref_u_def uv1)
  qed
qed

text \<open>Fewer threads are left whose upvalues have to be looked at.\<close>

lemma minv_drop:
  assumes m: "minv T P [] g" and s: "T' \<subseteq> T"
    and u: "\<And>u uv t i. c_upvals g u = Some uv \<Longrightarrow> u_open uv = Some (t, i) \<Longrightarrow> t \<in> T - T' \<Longrightarrow>
      \<not> u_touched uv \<or> t \<in> set (c_gray g) \<union> set P"
    and t: "\<And>t. t \<in> set (c_twups g) \<Longrightarrow> t \<in> T - T' \<Longrightarrow> marked g t"
  shows "minv T' P [] g"
proof -
  note i = minvD [OF m]
  have uo: "upv_ok T' P [] g w" if w: "upv_ok T P [] g w" for w
  proof -
    obtain uv where uv: "c_upvals g w = Some uv" "case u_open uv of
        None \<Rightarrow> vmarked g (u_value uv)
      | Some (t, i) \<Rightarrow> t \<in> set (c_gray g) \<union> set P \<union> set [] \<or> t \<in> T \<and> u_touched uv \<or>
          (\<exists>th. thr g t th \<and> vmarked g (th_stack th ! i))"
      using w unfolding upv_ok_def by blast
    have "case u_open uv of
        None \<Rightarrow> vmarked g (u_value uv)
      | Some (t, i) \<Rightarrow> t \<in> set (c_gray g) \<union> set P \<union> set [] \<or> t \<in> T' \<and> u_touched uv \<or>
          (\<exists>th. thr g t th \<and> vmarked g (th_stack th ! i))"
    proof (cases "u_open uv")
      case (Some p)
      obtain t k where p: "p = (t, k)" by (cases p)
      then show ?thesis using uv(2) Some u [OF uv(1), of t k] by auto
    qed (use uv(2) in simp)
    then show ?thesis using uv(1) unfolding upv_ok_def by blast
  qed
  have "tri T' P [] g" using i(9) uo unfolding tri_def settled_def by meson
  moreover have "twups_ok T' g" using i(8) t unfolding twups_ok_def by blast
  moreover have "thr_ok T' P [] g t th" if "thr g t th" for t th using i(7) [OF that] s unfolding thr_ok_def by blast
  ultimately show ?thesis unfolding minv_def using i(1-6) by blast
qed

lemma minv_unlink:
  assumes m: "minv T P [] g" and st: "c_gcstate g = GCSinsideatomic" and tw: "c_twups g = kept @ t # ts"
    and t: "thr g t th" "\<not> (gray g t \<and> th_openupval th \<noteq> [])"
  shows "minv T P [] (g\<lparr>c_twups := kept @ ts\<rparr>)"
proof -
  let ?g = "g\<lparr>c_twups := kept @ ts\<rparr>"
  note i = minvD [OF m]
  have al: "alike g ?g" by (rule alike_same) (simp_all add: gc_fuel_def)
  have gr: "gray ?g = gray g" unfolding gray_def fun_eq_iff by simp
  note e = alike_eqs [OF al] gr
  have d: "t \<in> dom (c_heap g)" using t(1) by (auto simp: thr_def)
  have "thr_ok T P [] ?g x tx" if x: "thr g x tx" for x tx
  proof (cases "x = t")
    case True
    then have "tx = th" using thr_fun [OF t(1)] x by blast
    then show ?thesis using i(7) [OF x] True t(2) not_white [OF d] st unfolding thr_ok_def e by auto
  next
    case False
    then show ?thesis using i(7) [OF x] tw unfolding thr_ok_def e by auto
  qed
  moreover have "twups_ok T ?g" using i(8) tw unfolding twups_ok_def e by auto
  moreover have "tri T P [] ?g"
  proof -
    have "settled T P [] ?g a" if "settled T P [] g a" for a by (rule alike_settled [OF al i(3) that]) simp
    then show ?thesis using i(9) unfolding tri_def e by auto
  qed
  moreover have "lists_ok P [] ?g" using i(5) unfolding lists_ok_def e by simp
  moreover have "weaks_ok ?g" by (rule alike_weaks [OF al i(6)]) simp_all
  ultimately show ?thesis unfolding minv_def e using alike_store [OF al] i(1-4) by blast
qed

lemma evolves_thr:
  assumes "evolves g g'" "thr g t th"
  shows "\<exists>th'. thr g' t th' \<and> thr_shrinks th th'"
proof -
  obtain ob where ob: "c_heap g t = Some ob" "ob_body ob = Thr th" using assms(2) by (auto simp: thr_def)
  obtain ob' where "c_heap g' t = Some ob'" "shrinks (ob_body ob) (ob_body ob')" using evolves_obj [OF assms(1) ob(1)] by blast
  then show ?thesis using ob(2) by (auto simp: thr_def shrinks_def)
qed

lemma evolves_thr_back:
  assumes "evolves g g'" "thr g' t th'"
  shows "\<exists>th. thr g t th \<and> thr_shrinks th th'"
proof -
  obtain ob' where ob': "c_heap g' t = Some ob'" "ob_body ob' = Thr th'" using assms(2) by (auto simp: thr_def)
  obtain ob where ob: "c_heap g t = Some ob" "shrinks (ob_body ob) (ob_body ob')" using evolves_obj_back [OF assms(1) ob'(1)] by blast
  have "shrinks (ob_body ob) (Thr th')" using ob(2) ob'(2) by simp
  then obtain th where "ob_body ob = Thr th" "thr_shrinks th th'" by (cases "ob_body ob") (auto simp: shrinks_def)
  then show ?thesis using ob(1) by (auto simp: thr_def)
qed

lemma evolves_upvals: "evolves g g' \<Longrightarrow> dom (c_upvals g') = dom (c_upvals g)"
proof -
  assume "evolves g g'"
  then have r: "rel_option (\<lambda>uv uv'. u_open uv' = u_open uv \<and> u_value uv' = u_value uv \<and> u_refcount uv' = u_refcount uv)
       (c_upvals g u) (c_upvals g' u)" for u
    unfolding evolves_def by blast
  have "u \<in> dom (c_upvals g') \<longleftrightarrow> u \<in> dom (c_upvals g)" for u
    using r [of u] by (cases "c_upvals g u"; cases "c_upvals g' u") (simp_all add: dom_def)
  then show ?thesis by blast
qed

lemma remark_threads_ok:
  assumes "minv T P [] g" "c_gcstate g = GCSinsideatomic" "c_twups g = kept @ ts" "set ts \<subseteq> T" "set kept \<inter> T = {}"
    "\<And>t th. thr g t th \<Longrightarrow> th_openupval th \<noteq> [] \<Longrightarrow> t \<in> T \<Longrightarrow> t \<in> set ts"
  shows "okay (remark_threads kept ts g) (\<lambda>g'. minv {} P [] g' \<and> evolves g g')"
  using assms
proof (induction ts arbitrary: T g kept)
  case Nil
  note i = minvD [OF Nil.prems(1)]
  have "minv {} P [] g"
  proof (rule minv_drop [OF Nil.prems(1)])
    fix u uv t k assume u: "c_upvals g u = Some uv" "u_open uv = Some (t, k)" "t \<in> T - {}"
    obtain th where "thr g t th" "u \<in> set (th_openupval th)" using uwfD(1) [OF i(3) u(1,2)] by blast
    then show "\<not> u_touched uv \<or> t \<in> set (c_gray g) \<union> set P" using Nil.prems(6) [of t th] u(3) by force
  next
    fix t assume "t \<in> set (c_twups g)" "t \<in> T - {}"
    then show "marked g t" using Nil.prems(3,5) by auto
  qed simp
  then show ?case by simp
next
  case (Cons t ts)
  note i = minvD [OF Cons.prems(1)]
  obtain th where th: "thr g t th" using i(8) Cons.prems(3) unfolding twups_ok_def by auto
  obtain ob where ob: "c_heap g t = Some ob" "ob_body ob = Thr th" using th by (auto simp: thr_def)
  have tT: "t \<in> T" using Cons.prems(4) by simp
  have nt: "t \<notin> set ts" "t \<notin> set kept" using i(8) Cons.prems(3) unfolding twups_ok_def by auto
  have to: "thr_ok T P [] g t th" by (rule i(7) [OF th])
  have nb: "\<not> isblack_m (ob_marked ob)"
  proof (cases "iswhite_m (ob_marked ob)")
    case True
    then show ?thesis using saneD(2) [OF i(1) ob(1)] by blast
  next
    case False
    then have "gray g t" using to ob(1) by (simp add: thr_ok_def marked_def)
    then show ?thesis using ob(1) by (simp add: gray_def mark_bits)
  qed
  have gg: "gray g t = isgray_m (ob_marked ob)" using ob(1) by (simp add: gray_def)
  have e: "remark_threads kept (t # ts) g = (if gray g t \<and> th_openupval th \<noteq> [] then remark_threads (kept @ [t]) ts g
      else res_bind (res_fold remark_upval (th_openupval th) (g\<lparr>c_twups := kept @ ts\<rparr>)) (remark_threads kept ts))"
    using nb by (simp add: deref_o_def ob(1) thr_at_eq [OF th] lassert_def gg)
  have sub: "set ts \<subseteq> T - {t}" using Cons.prems(4) nt by auto
  show ?case
  proof (cases "gray g t \<and> th_openupval th \<noteq> []")
    case True
    have mt: "marked g t" using True gray_marked by blast
    have m': "minv (T - {t}) P [] g"
    proof (rule minv_drop [OF Cons.prems(1)])
      show "\<not> u_touched uv \<or> x \<in> set (c_gray g) \<union> set P" if "x \<in> T - (T - {t})" for u uv x and k :: nat
        using that to mt tT unfolding thr_ok_def by auto
      show "marked g x" if "x \<in> T - (T - {t})" for x using that mt by auto
    qed auto
    have "okay (remark_threads (kept @ [t]) ts g) (\<lambda>g'. minv {} P [] g' \<and> evolves g g')"
    proof (rule Cons.IH [OF m' Cons.prems(2) _ sub])
      show "c_twups g = (kept @ [t]) @ ts" using Cons.prems(3) by simp
      show "set (kept @ [t]) \<inter> (T - {t}) = {}" using Cons.prems(5) by auto
      show "x \<in> set ts" if "thr g x tx" "th_openupval tx \<noteq> []" "x \<in> T - {t}" for x tx
        using Cons.prems(6) [OF that(1,2)] that(3) by auto
    qed
    then show ?thesis unfolding e using True by simp
  next
    case False
    let ?g0 = "g\<lparr>c_twups := kept @ ts\<rparr>"
    have m0: "minv T P [] ?g0" by (rule minv_unlink [OF Cons.prems(1,2) Cons.prems(3) th False])
    have ev0: "evolves g ?g0" by (rule twups_evolves)
    let ?us = "th_openupval th"
    let ?I = "\<lambda>s. minv T P [] s \<and> set ?us \<subseteq> dom (c_upvals s)"
    let ?K = "\<lambda>s s'. evolves s s' \<and> c_twups s' = c_twups s \<and> (\<forall>w. untouched s w \<longrightarrow> untouched s' w)"
    have d: "set ?us \<subseteq> dom (c_upvals ?g0)" using uwfD(3) [OF i(3) th] by auto
    have "okay (res_fold remark_upval ?us ?g0) (\<lambda>g1. ?I g1 \<and> ?K ?g0 g1 \<and> (\<forall>u\<in>set ?us. untouched g1 u))"
    proof (rule okay_fold)
      fix u s assume u: "u \<in> set ?us" and s: "?I s"
      show "okay (remark_upval u s) (\<lambda>s'. ?I s' \<and> ?K s s' \<and> untouched s' u)"
      proof (rule okay_mono [OF remark_upval_ok [of T P s u]])
        show "minv T P [] s" "u \<in> dom (c_upvals s)" using u s by auto
        fix s' assume s': "minv T P [] s' \<and> evolves s s' \<and> c_twups s' = c_twups s \<and> (\<forall>w. untouched s w \<longrightarrow> untouched s' w) \<and> untouched s' u"
        then have "dom (c_upvals s') = dom (c_upvals s)" using evolves_upvals by blast
        then show "?I s' \<and> ?K s s' \<and> untouched s' u" using s s' by simp
      qed
    qed (use m0 d evolves_trans in auto)
    then have "okay (res_bind (res_fold remark_upval ?us ?g0) (remark_threads kept ts)) (\<lambda>g'. minv {} P [] g' \<and> evolves g g')"
    proof (rule okay_bind)
      fix g1 assume g1: "?I g1 \<and> ?K ?g0 g1 \<and> (\<forall>u\<in>set ?us. untouched g1 u)"
      then have m1: "minv T P [] g1" and tw1: "c_twups g1 = kept @ ts" and ev1: "evolves ?g0 g1" by simp_all
      have ev: "evolves g g1" by (rule evolves_trans [OF ev0 ev1])
      have st1: "c_gcstate g1 = GCSinsideatomic" using ev Cons.prems(2) by (simp add: evolves_def)
      have m': "minv (T - {t}) P [] g1"
      proof (rule minv_drop [OF m1])
        fix u uv x k assume u: "c_upvals g1 u = Some uv" "u_open uv = Some (x, k)" "x \<in> T - (T - {t})"
        then have "x = t" by simp
        then obtain th1 where th1: "thr g1 t th1" "u \<in> set (th_openupval th1)"
          using uwfD(1) [OF minvD(3) [OF m1] u(1,2)] by blast
        obtain th0 where th0: "thr g t th0" "thr_shrinks th0 th1" using evolves_thr_back [OF ev th1(1)] by blast
        have "u \<in> set ?us" using thr_fun [OF th th0(1)] thr_shrinksD(2) [OF th0(2)] th1(2) by simp
        then show "\<not> u_touched uv \<or> x \<in> set (c_gray g1) \<union> set P" using g1 u(1) by (simp add: untouched_def)
      next
        fix x assume "x \<in> set (c_twups g1)" "x \<in> T - (T - {t})"
        then show "marked g1 x" using tw1 nt by auto
      qed auto
      have "okay (remark_threads kept ts g1) (\<lambda>g'. minv {} P [] g' \<and> evolves g1 g')"
      proof (rule Cons.IH [OF m' st1 tw1 sub])
        show "set kept \<inter> (T - {t}) = {}" using Cons.prems(5) by auto
        show "x \<in> set ts" if x: "thr g1 x tx" "th_openupval tx \<noteq> []" "x \<in> T - {t}" for x tx
        proof -
          obtain tx0 where tx0: "thr g x tx0" "thr_shrinks tx0 tx" using evolves_thr_back [OF ev x(1)] by blast
          then show ?thesis using Cons.prems(6) [OF tx0(1)] thr_shrinksD(2) [OF tx0(2)] x(2,3) by auto
        qed
      qed
      then show "okay (remark_threads kept ts g1) (\<lambda>g'. minv {} P [] g' \<and> evolves g g')"
        by (rule okay_mono) (use evolves_trans [OF ev] in blast)
    qed
    then show ?thesis unfolding e using False by (simp only: if_False)
  qed
qed

text \<open>The start of a collection and the whole atomic phase.\<close>

section \<open>Roots\<close>

definition root_refs :: "cstate \<Rightarrow> nat set" where
  "root_refs g = {c_mainthread g, c_running g} \<union> vrefs (c_registry g) \<union> orefs (c_mt g) \<union> set (c_tobefnz g)"

definition fin_ok :: "cstate \<Rightarrow> bool" where
  "fin_ok g \<longleftrightarrow> (\<forall>a\<in>set (c_finobj g). \<exists>ob. c_heap g a = Some ob \<and> tofinalize_m (ob_marked ob))"

lemma evolves_fin:
  assumes "evolves g g'" "fin_ok g"
  shows "fin_ok g'"
  unfolding fin_ok_def
proof
  fix a assume "a \<in> set (c_finobj g')"
  then have "a \<in> set (c_finobj g)" using assms(1) by (simp add: evolves_def)
  then obtain ob where ob: "c_heap g a = Some ob" "tofinalize_m (ob_marked ob)" using assms(2) unfolding fin_ok_def by blast
  then show "\<exists>ob. c_heap g' a = Some ob \<and> tofinalize_m (ob_marked ob)" using evolves_obj [OF assms(1) ob(1)] by auto
qed

lemma evolves_roots: "evolves g g' \<Longrightarrow> root_refs g' = root_refs g"
  by (simp add: evolves_def root_refs_def)

lemma markmt_ok:
  assumes "sane g" "orefs (c_mt g) \<subseteq> dom (c_heap g)"
  shows "okay (markmt g) (\<lambda>g'. adv g g' \<and> (\<forall>r\<in>orefs (c_mt g). marked g' r))"
  unfolding markmt_def by (rule markobjectsN_ok [OF assms])

section \<open>The start of a collection\<close>

text \<open>Between two collections everything is white but for some strings, the ones that are never collected.\<close>

definition resting :: "cstate \<Rightarrow> bool" where
  "resting g \<longleftrightarrow> sane g \<and> typed g \<and> uwf g \<and> modes g \<and> c_gcstate g = GCSpause \<and> root_refs g \<subseteq> dom (c_heap g) \<and> fin_ok g \<and>
     (\<exists>th. thr g (c_mainthread g) th) \<and> distinct (c_twups g) \<and> (\<forall>t\<in>set (c_twups g). \<exists>th. thr g t th) \<and>
     (\<forall>t th. thr g t th \<longrightarrow> th_openupval th \<noteq> [] \<longrightarrow> t \<in> set (c_twups g)) \<and>
     (\<forall>a. marked g a \<longrightarrow> (\<exists>ob. c_heap g a = Some ob \<and> is_string (ob_body ob)))"

lemma resting_minv:
  assumes "resting g"
  shows "minv UNIV [] [] (g\<lparr>c_gray := [], c_grayagain := [], c_weak := [], c_ephemeron := [], c_allweak := []\<rparr>)"
proof -
  let ?g = "g\<lparr>c_gray := [], c_grayagain := [], c_weak := [], c_ephemeron := [], c_allweak := []\<rparr>"
  note r = assms [unfolded resting_def]
  have al: "alike g ?g" by (rule alike_same) (simp_all add: gc_fuel_def)
  have gr: "gray ?g = gray g" unfolding gray_def fun_eq_iff by simp
  note e = alike_eqs [OF al] gr
  have "thr_ok UNIV [] [] ?g t th" if h: "thr g t th" for t th
  proof -
    have "\<not> marked g t"
    proof
      assume "marked g t"
      then obtain ob where "c_heap g t = Some ob" "is_string (ob_body ob)" using r by blast
      then show False using h by (auto simp: thr_def is_string_def)
    qed
    moreover have "th_openupval th \<noteq> [] \<longrightarrow> t \<in> set (c_twups g)" using r h by blast
    ultimately show ?thesis unfolding thr_ok_def e by simp
  qed
  moreover have "tri UNIV [] [] ?g"
    unfolding tri_def e
  proof (intro allI impI)
    fix a assume "marked g a"
    then obtain ob where "c_heap g a = Some ob" "is_string (ob_body ob)" using r by blast
    then have "settled UNIV [] [] ?g a"
      by (cases "ob_body ob") (auto simp: settled_def body_refs_def body_upvals_def is_string_def)
    then show "a \<in> set (c_gray ?g @ weaks ?g @ [] @ []) \<or> settled UNIV [] [] ?g a" by blast
  qed
  moreover have "twups_ok UNIV ?g" using r unfolding twups_ok_def e by simp
  moreover have "lists_ok [] [] ?g" by (simp add: lists_ok_def)
  moreover have "weaks_ok ?g" by (simp add: weaks_ok_def)
  ultimately show ?thesis unfolding minv_def e using alike_store [OF al] r by blast
qed

text \<open>What holds in the mark phase, between two steps.\<close>

definition marking :: "cstate \<Rightarrow> bool" where
  "marking g \<longleftrightarrow> minv UNIV (c_grayagain g) [] g \<and> c_gcstate g \<in> {GCSpropagate, GCSatomic} \<and> root_refs g \<subseteq> dom (c_heap g) \<and> fin_ok g \<and>
     marked g (c_mainthread g)"

lemma minv_gcstate:
  assumes "minv T P xs g" "c_gcstate g \<noteq> GCSinsideatomic"
  shows "minv T P xs (g\<lparr>c_gcstate := s\<rparr>)"
proof (rule minv_move [OF assms(1)])
  show al: "alike g (g\<lparr>c_gcstate := s\<rparr>)" by (rule alike_same) (simp_all add: gc_fuel_def)
  show "lists_ok P xs (g\<lparr>c_gcstate := s\<rparr>)" using minvD(5) [OF assms(1)] unfolding lists_ok_def alike_eqs [OF al] by (simp add: gray_def)
  show "weaks_ok (g\<lparr>c_gcstate := s\<rparr>)" by (rule alike_weaks [OF al minvD(6) [OF assms(1)]]) simp_all
  show "t \<in> set xs \<or> gray (g\<lparr>c_gcstate := s\<rparr>) t" if h: "thr g t th" "marked g t" for t th
    using minvD(7) [OF assms(1) h(1)] h(2) by (simp add: thr_ok_def gray_def)
qed (use assms(2) in auto)

text \<open>Marking the roots.\<close>

definition base_roots :: "cstate \<Rightarrow> nat set" where
  "base_roots g = vrefs (c_registry g) \<union> orefs (c_mt g)"

lemma mark_roots_ok:
  assumes "sane g" "a \<in> dom (c_heap g)" "base_roots g \<subseteq> dom (c_heap g)"
  shows "okay (res_bind (markobject_o a g) (\<lambda>g. res_bind (markvalue_o (c_registry g) g) markmt))
    (\<lambda>g'. adv g g' \<and> marked g' a \<and> (\<forall>r\<in>base_roots g. marked g' r))"
proof (rule okay_bind [OF markobject_ok [OF assms(1,2)]])
  fix g1 assume g1: "adv g g1 \<and> marked g1 a"
  then have a1: "adv g g1" by simp
  show "okay (res_bind (markvalue_o (c_registry g1) g1) markmt) (\<lambda>g'. adv g g' \<and> marked g' a \<and> (\<forall>r\<in>base_roots g. marked g' r))"
  proof (rule okay_bind [OF markvalue_ok [OF advx_sane [OF a1 assms(1)]]])
    show "vrefs (c_registry g1) \<subseteq> dom (c_heap g1)"
      using assms(3) advx_fields(16) [OF a1] advx_dom [OF a1] by (simp add: base_roots_def)
    fix g2 assume g2: "adv g1 g2 \<and> (\<forall>r\<in>vrefs (c_registry g1). marked g2 r)"
    then have a12: "adv g1 g2" by simp
    have a2: "adv g g2" by (rule adv_trans [OF a1 a12])
    show "okay (markmt g2) (\<lambda>g'. adv g g' \<and> marked g' a \<and> (\<forall>r\<in>base_roots g. marked g' r))"
    proof (rule okay_mono [OF markmt_ok [OF advx_sane [OF a2 assms(1)]]])
      show "orefs (c_mt g2) \<subseteq> dom (c_heap g2)"
        using assms(3) advx_fields(17) [OF a2] advx_dom [OF a2] by (simp add: base_roots_def)
      fix g3 assume g3: "adv g2 g3 \<and> (\<forall>r\<in>orefs (c_mt g2). marked g3 r)"
      then have a23: "adv g2 g3" by simp
      have a13: "adv g1 g3" by (rule adv_trans [OF a12 a23])
      have "marked g3 a" using g1 advx_marked [OF a13] by blast
      moreover have "\<forall>r\<in>vrefs (c_registry g). marked g3 r" using g2 advx_marked [OF a23] advx_fields(16) [OF a1] by simp
      moreover have "\<forall>r\<in>orefs (c_mt g). marked g3 r" using g3 advx_fields(17) [OF a2] by simp
      ultimately show "adv g g3 \<and> marked g3 a \<and> (\<forall>r\<in>base_roots g. marked g3 r)"
        using adv_trans [OF a1 a13] by (auto simp: base_roots_def)
    qed
  qed
qed

lemma restart_ok:
  assumes "resting g"
  shows "okay (restartcollection g) (\<lambda>g'. minv UNIV [] [] g' \<and> c_grayagain g' = [] \<and> c_gray g' \<noteq> [] \<and> marked g' (c_mainthread g') \<and>
    evolves (g\<lparr>c_gray := [], c_grayagain := [], c_weak := [], c_ephemeron := [], c_allweak := []\<rparr>) g')"
proof -
  let ?g = "g\<lparr>c_gray := [], c_grayagain := [], c_weak := [], c_ephemeron := [], c_allweak := []\<rparr>"
  have m: "minv UNIV [] [] ?g" by (rule resting_minv [OF assms])
  note s = minvD(1) [OF m]
  have rr: "c_mainthread ?g \<in> dom (c_heap ?g)" "base_roots ?g \<subseteq> dom (c_heap ?g)" "set (c_tobefnz ?g) \<subseteq> dom (c_heap ?g)"
    using assms by (auto simp: resting_def root_refs_def base_roots_def)
  have e: "restartcollection g = res_bind
      (res_bind (markobject_o (c_mainthread ?g) ?g) (\<lambda>g. res_bind (markvalue_o (c_registry g) g) markmt)) markbeingfnz"
    unfolding restartcollection_def Let_def res_bind_assoc by simp
  show ?thesis
    unfolding e
  proof (rule okay_bind [OF mark_roots_ok [OF s rr(1,2)]])
    fix g1 assume g1: "adv ?g g1 \<and> marked g1 (c_mainthread ?g) \<and> (\<forall>r\<in>base_roots ?g. marked g1 r)"
    then have a1: "adv ?g g1" by simp
    show "okay (markbeingfnz g1) (\<lambda>g'. minv UNIV [] [] g' \<and> c_grayagain g' = [] \<and> c_gray g' \<noteq> [] \<and> marked g' (c_mainthread g') \<and> evolves ?g g')"
    proof (rule okay_mono [OF markbeingfnz_ok [OF advx_sane [OF a1 s]]])
      show "set (c_tobefnz g1) \<subseteq> dom (c_heap g1)" using rr(3) advx_fields(6) [OF a1] advx_dom [OF a1] by simp
      fix g2 assume g2: "adv g1 g2 \<and> (\<forall>r\<in>set (c_tobefnz g1). marked g2 r)"
      then have a12: "adv g1 g2" by simp
      have a2: "adv ?g g2" by (rule adv_trans [OF a1 a12])
      note f = advx_fields [OF a2]
      have mm: "marked g2 (c_mainthread ?g)" using g1 advx_marked [OF a12] by blast
      obtain th where th: "thr ?g (c_mainthread ?g) th" using assms by (auto simp: resting_def thr_def)
      have "\<not> marked ?g (c_mainthread ?g)"
      proof
        assume "marked ?g (c_mainthread ?g)"
        then have "marked g (c_mainthread g)" by (simp add: marked_def)
        then obtain ob where "c_heap g (c_mainthread g) = Some ob" "is_string (ob_body ob)" using assms unfolding resting_def by blast
        then show False using th by (auto simp: thr_def is_string_def)
      qed
      then have "newly ?g g2 (c_mainthread ?g)" using mm th by (auto simp: newly_def white_def marked_def thr_def)
      then have "c_mainthread ?g \<in> set (c_gray g2)" using thr_listed [OF th] by (rule_tac advx_gray [OF a2]) auto
      then have "c_gray g2 \<noteq> []" by auto
      then show "minv UNIV [] [] g2 \<and> c_grayagain g2 = [] \<and> c_gray g2 \<noteq> [] \<and> marked g2 (c_mainthread g2) \<and> evolves ?g g2"
        using minv_adv [OF a2 m] f mm adv_evolves [OF a2] by simp
    qed
  qed
qed

section \<open>The atomic phase\<close>

lemma marked_roots_dom: "root_refs g \<subseteq> dom (c_heap g) \<Longrightarrow> base_roots g \<subseteq> dom (c_heap g)"
  by (auto simp: root_refs_def base_roots_def)

lemma atomic_mark_ok:
  assumes "marking g"
  shows "okay (atomic_mark g) (\<lambda>g'. minv {} [] [] g' \<and> c_gcstate g' = GCSinsideatomic \<and> c_gray g' = [] \<and>
    evolves (g\<lparr>c_gcstate := GCSinsideatomic\<rparr>) g' \<and> (\<forall>a\<in>set (c_ephemeron g'). pairs g' a) \<and>
    marked g' (c_mainthread g') \<and> marked g' (c_running g') \<and> (\<forall>r\<in>base_roots g'. marked g' r))"
proof -
  let ?P = "c_grayagain g" and ?g = "g\<lparr>c_gcstate := GCSinsideatomic\<rparr>"
  have m: "minv UNIV ?P [] g" and st: "c_gcstate g \<noteq> GCSinsideatomic" and rr: "root_refs g \<subseteq> dom (c_heap g)"
    and mm: "marked g (c_mainthread g)" using assms by (auto simp: marking_def)
  have m0: "minv UNIV ?P [] ?g" by (rule minv_gcstate [OF m st])
  note s0 = minvD(1) [OF m0]
  have d: "c_mainthread g \<in> dom (c_heap g)" "c_running ?g \<in> dom (c_heap ?g)" "base_roots ?g \<subseteq> dom (c_heap ?g)"
    using rr by (auto simp: root_refs_def base_roots_def)
  have nw: "iswhite_o (c_mainthread g) g = Inr False" using iswhite_o_eq [OF d(1)] mm by (auto simp: white_def marked_def)
  have e: "atomic_mark g = res_bind (res_bind (markobject_o (c_running ?g) ?g) (\<lambda>g. res_bind (markvalue_o (c_registry g) g) markmt))
      (\<lambda>g. res_bind (remarkupvals g) (\<lambda>g. res_bind (propagateall g) (\<lambda>g. res_bind (propagateall (g\<lparr>c_gray := ?P\<rparr>)) convergeephemerons)))"
    unfolding atomic_mark_def Let_def nw res_bind_assoc by (simp add: lassert_def)
  let ?post = "\<lambda>g'. minv {} [] [] g' \<and> c_gcstate g' = GCSinsideatomic \<and> c_gray g' = [] \<and> evolves ?g g' \<and>
    (\<forall>a\<in>set (c_ephemeron g'). pairs g' a) \<and> marked g' (c_mainthread g') \<and> marked g' (c_running g') \<and> (\<forall>r\<in>base_roots g'. marked g' r)"
  show ?thesis
    unfolding e
  proof (rule okay_bind [OF mark_roots_ok [OF s0 d(2,3)]])
    fix g1 assume g1: "adv ?g g1 \<and> marked g1 (c_running ?g) \<and> (\<forall>r\<in>base_roots ?g. marked g1 r)"
    then have a1: "adv ?g g1" by simp
    note m1 = minv_adv [OF a1 m0]
    have ev1: "evolves ?g g1" by (rule adv_evolves [OF a1])
    have tw: "t \<in> set (c_twups g1)" if h: "thr g1 t th" "th_openupval th \<noteq> []" for t th
    proof -
      obtain th0 where th0: "thr ?g t th0" "thr_shrinks th0 th" using adv_thr_back [OF a1 h(1)] by blast
      then have "thr g t th0" by (simp add: thr_def)
      then have "th_openupval th0 \<noteq> [] \<longrightarrow> t \<in> set (c_twups g)" using minvD(7) [OF m] st unfolding thr_ok_def by blast
      then show ?thesis using thr_shrinksD(2) [OF th0(2)] h(2) advx_fields(13) [OF a1] by simp
    qed
    have st1: "c_gcstate g1 = GCSinsideatomic" using ev1 by (simp add: evolves_def)
    have "okay (remarkupvals g1) (\<lambda>g'. minv {} ?P [] g' \<and> evolves g1 g')"
      unfolding remarkupvals_def by (rule remark_threads_ok [OF m1 st1]) (use tw in auto)
    then show "okay (res_bind (remarkupvals g1) (\<lambda>g. res_bind (propagateall g) (\<lambda>g.
        res_bind (propagateall (g\<lparr>c_gray := ?P\<rparr>)) convergeephemerons))) ?post"
    proof (rule okay_bind)
      fix g2 assume g2: "minv {} ?P [] g2 \<and> evolves g1 g2"
      then have st2: "c_gcstate g2 = GCSinsideatomic" using st1 by (simp add: evolves_def)
      show "okay (res_bind (propagateall g2) (\<lambda>g. res_bind (propagateall (g\<lparr>c_gray := ?P\<rparr>)) convergeephemerons)) ?post"
      proof (rule okay_bind [OF propagateall_ok])
        show "minv {} ?P [] g2" "phase g2 {} ?P" using g2 st2 by (simp_all add: phase_def)
        fix g3 assume g3: "propd {} ?P g2 g3 \<and> c_gray g3 = []"
        then have m3: "minv {} ?P [] g3" and ev3: "evolves g2 g3" and st3: "c_gcstate g3 = GCSinsideatomic"
          using inside_propd st2 by auto
        let ?g3 = "g3\<lparr>c_gray := ?P\<rparr>"
        have m3': "minv {} [] [] ?g3"
        proof (rule minv_move [OF m3 linked_alike(5)])
          have d: "distinct (weaks g3 @ ?P)" "\<forall>a\<in>set (weaks g3 @ ?P). gray g3 a \<and> is_listed g3 a"
            using minvD(5) [OF m3] g3 unfolding lists_ok_def by auto
          have "gray ?g3 = gray g3" unfolding gray_def by simp
          then show "lists_ok [] [] ?g3" using d unfolding lists_ok_def alike_eqs [OF linked_alike(5)] by auto
          show "weaks_ok ?g3" by (rule alike_weaks [OF linked_alike(5) minvD(6) [OF m3]]) simp_all
          show "t \<in> set [] \<or> gray ?g3 t" if h: "thr g3 t th" "marked g3 t" for t th
            using minvD(7) [OF m3 h(1)] h(2) by (simp add: thr_ok_def gray_def)
        qed (use g3 in auto)
        have st3': "c_gcstate ?g3 = GCSinsideatomic" using st3 by simp
        show "okay (res_bind (propagateall ?g3) convergeephemerons) ?post"
        proof (rule okay_bind [OF propagateall_ok [OF m3' inside_phase [OF st3']]])
          fix g4 assume g4: "propd {} [] ?g3 g4 \<and> c_gray g4 = []"
          then have m4: "minv {} [] [] g4" and ev4: "evolves ?g3 g4" and st4: "c_gcstate g4 = GCSinsideatomic"
            using inside_propd st3' by auto
          have ev: "evolves g1 g4"
            using evolves_trans [OF evolves_trans [OF _ ev3] evolves_trans [OF linked_evolves(5) ev4]] g2 by blast
          show "okay (convergeephemerons g4) ?post"
          proof (rule okay_mono [OF convergeephemerons_ok [OF m4 st4]])
            show "c_gray g4 = []" using g4 by simp
            fix g5 assume g5: "minv {} [] [] g5 \<and> c_gcstate g5 = GCSinsideatomic \<and> c_gray g5 = [] \<and> evolves g4 g5 \<and>
              (\<forall>a\<in>set (c_ephemeron g5). pairs g5 a)"
            have ev15: "evolves g1 g5" using evolves_trans [OF ev] g5 by blast
            have ev05: "evolves ?g g5" by (rule evolves_trans [OF ev1 ev15])
            have f: "c_mainthread g5 = c_mainthread g" "c_running g5 = c_running g" "base_roots g5 = base_roots g"
              using ev05 by (simp_all add: evolves_def base_roots_def)
            have "marked g5 (c_mainthread g)" using evolves_marked [OF ev05] mm by (simp add: marked_def)
            moreover have "marked g5 (c_running g)" using evolves_marked [OF ev15] g1 by simp
            moreover have "base_roots ?g = base_roots g" by (simp add: base_roots_def)
            then have "\<forall>r\<in>base_roots g. marked g5 r" using evolves_marked [OF ev15] g1 by simp
            ultimately show "?post g5" using g5 ev05 f by simp
          qed
        qed
      qed
    qed
  qed
qed

text \<open>The whole atomic phase.\<close>

lemma separate_ok:
  assumes "\<forall>a\<in>set xs. \<exists>ob. c_heap g a = Some ob \<and> tofinalize_m (ob_marked ob)"
  shows "separate False xs g = Inr (filter (\<lambda>a. \<not> white g a) xs, filter (white g) xs)"
  using assms
proof (induction xs)
  case (Cons a xs)
  then obtain ob where ob: "c_heap g a = Some ob" "tofinalize_m (ob_marked ob)" by auto
  have w: "white g a = iswhite_m (ob_marked ob)" using ob(1) by (simp add: white_def)
  show ?case using Cons ob by (simp add: deref_o_def lassert_def w)
qed simp

lemma up_to_new: "distinct (ws @ f) \<Longrightarrow> up_to (ws @ f) f = ws"
  by (cases f) (auto simp: up_to_def takeWhile_append)

lemma up_to_all: "up_to l [] = l"
  by (simp add: up_to_def)

lemma key_eph: "key_tab g a \<Longrightarrow> eph_tab g a"
  unfolding key_tab_def eph_tab_def by blast

lemma weak_meta: "weak_tab g a \<Longrightarrow> meta_tab g a" "eph_tab g a \<Longrightarrow> meta_tab g a" "key_tab g a \<Longrightarrow> meta_tab g a"
  unfolding weak_tab_def eph_tab_def key_tab_def meta_tab_def by blast+

lemma strings_lists:
  assumes "adv_strings g g'"
  shows "c_weak g' = c_weak g" "c_allweak g' = c_allweak g" "c_ephemeron g' = c_ephemeron g" "c_gcstate g' = c_gcstate g"
    "c_currentwhite g' = c_currentwhite g"
  using advx_fields [OF strings_adv [OF assms]] by simp_all

lemma strings_minv:
  assumes "adv_strings g g'" "minv T P [] g" "c_gray g = []"
  shows "minv T P [] g'" "c_gray g' = []"
  using minv_adv [OF strings_adv [OF assms(1)] assms(2)] strings_gray [OF assms(1)] assms(3) by simp_all

text \<open>The first half, up to the resurrection of objects with finalizers.\<close>

lemma clear_weak_ok:
  assumes "minv T P [] g" "c_gray g = []" "\<forall>a\<in>set (up_to (c_weak g) f). True" "set (up_to (c_weak g) f) \<subseteq> set (c_weak g)"
  shows "okay (clearvalues (c_weak g) f g) (\<lambda>g'. adv_strings g g' \<and> (\<forall>a\<in>set (up_to (c_weak g) f). closed g' a))"
proof -
  have w: "\<forall>a\<in>set (up_to (c_weak g) f). weak_tab g a" using minvD(6) [OF assms(1)] assms(4) unfolding weaks_ok_def by blast
  have mt: "\<forall>a\<in>set (up_to (c_weak g) f). meta_tab g a" using w weak_meta(1) by blast
  show ?thesis
    by (rule okay_mono [OF clearvalues_ok [OF minvD(1) [OF assms(1)] minvD(2) [OF assms(1)] mt]]) (use w in blast)
qed

lemma up_to_subset: "set (up_to l f) \<subseteq> set l"
  unfolding up_to_def using set_takeWhileD by fast

lemma clear_all_ok:
  assumes "minv T P [] g"
  shows "okay (clearvalues (c_allweak g) f g) (\<lambda>g'. adv_strings g g')"
proof -
  have mt: "\<forall>a\<in>set (up_to (c_allweak g) f). meta_tab g a"
    using minvD(6) [OF assms] weak_meta(3) up_to_subset [of "c_allweak g" f] unfolding weaks_ok_def by blast
  show ?thesis
    by (rule okay_mono [OF clearvalues_ok [OF minvD(1) [OF assms] minvD(2) [OF assms] mt]]) blast
qed

text \<open>What the atomic phase leaves: every marked object is settled, and the roots are marked.\<close>

definition all_settled :: "cstate \<Rightarrow> bool" where
  "all_settled g \<longleftrightarrow> (\<forall>a. marked g a \<longrightarrow> closed g a \<and> (\<forall>ob. c_heap g a = Some ob \<longrightarrow> (\<forall>u\<in>body_upvals (ob_body ob).
     \<exists>v. upval_value u g = Inr v \<and> vmarked g v)))"

lemma settled_end:
  assumes m: "minv {} [] [] g" "c_gray g = []" and s: "settled {} [] [] g a"
  shows "closed g a \<and> (\<forall>ob. c_heap g a = Some ob \<longrightarrow> (\<forall>u\<in>body_upvals (ob_body ob). \<exists>v. upval_value u g = Inr v \<and> vmarked g v))"
proof -
  note i = minvD [OF m(1)]
  obtain ob where ob: "c_heap g a = Some ob" "\<forall>r\<in>body_refs (ob_body ob). marked g r" "\<forall>u\<in>body_upvals (ob_body ob). upv_ok {} [] [] g u"
    using s unfolding settled_def by blast
  have "\<exists>v. upval_value u g = Inr v \<and> vmarked g v" if u: "u \<in> body_upvals (ob_body ob)" for u
  proof -
    obtain uv where uv: "c_upvals g u = Some uv" "case u_open uv of
        None \<Rightarrow> vmarked g (u_value uv)
      | Some (t, i) \<Rightarrow> t \<in> set (c_gray g) \<union> set [] \<union> set [] \<or> t \<in> {} \<and> u_touched uv \<or>
          (\<exists>th. thr g t th \<and> vmarked g (th_stack th ! i))"
      using ob(3) u unfolding upv_ok_def by blast
    obtain v where v: "upval_value u g = Inr v" "u_open uv = None \<longrightarrow> v = u_value uv"
      "\<forall>t i. u_open uv = Some (t, i) \<longrightarrow> (\<exists>th. thr g t th \<and> i < th_top th \<and> i < length (th_stack th) \<and> v = th_stack th ! i)"
      using upval_value_ok [OF i(1-3) uv(1)] by (elim exE conjE) (rule that)
    have "vmarked g v"
    proof (cases "u_open uv")
      case None
      then show ?thesis using uv(2) v(2) by simp
    next
      case (Some p)
      obtain t k where p: "p = (t, k)" by (cases p)
      obtain th where th: "thr g t th" "vmarked g (th_stack th ! k)" using uv(2) Some p m(2) by auto
      obtain th' where "thr g t th'" "v = th_stack th' ! k" using v(3) Some p by blast
      then show ?thesis using thr_fun [OF th(1)] th(2) by blast
    qed
    then show ?thesis using v(1) by blast
  qed
  then show ?thesis using ob(1,2) by (auto simp: closed_def)
qed

lemma tab_no_upvals: "tab g a h \<Longrightarrow> c_heap g a = Some ob \<Longrightarrow> body_upvals (ob_body ob) = {}"
  by (auto simp: tab_def body_upvals_def)

lemma all_settledI:
  assumes m: "minv {} [] [] g" "c_gray g = []" and c: "\<forall>a\<in>set (weaks g). closed g a"
  shows "all_settled g"
  unfolding all_settled_def
proof (intro allI impI)
  fix a assume "marked g a"
  then consider "a \<in> set (weaks g)" | "settled {} [] [] g a" using minvD(9) [OF m(1)] m(2) unfolding tri_def by auto
  then show "closed g a \<and> (\<forall>ob. c_heap g a = Some ob \<longrightarrow> (\<forall>u\<in>body_upvals (ob_body ob). \<exists>v. upval_value u g = Inr v \<and> vmarked g v))"
  proof cases
    case 1
    then have "meta_tab g a" using minvD(6) [OF m(1)] weak_meta unfolding weaks_ok_def by auto
    then obtain h where "tab g a h" by (auto simp: meta_tab_def)
    then show ?thesis using c 1 tab_no_upvals by blast
  next
    case 2
    then show ?thesis by (rule settled_end [OF m])
  qed
qed

definition atomic_post :: "cstate \<Rightarrow> cstate \<Rightarrow> bool" where
  "atomic_post g g' \<longleftrightarrow> minv {} [] [] g' \<and> c_gcstate g' = GCSinsideatomic \<and> all_settled g' \<and> (\<forall>r\<in>root_refs g'. marked g' r) \<and>
     (\<forall>a\<in>set (c_finobj g'). marked g' a) \<and> fin_ok g' \<and> c_gcfinnum g' = 1 \<and>
     (\<exists>move. set (c_finobj g') \<union> set move = set (c_finobj g) \<and> c_tobefnz g' = c_tobefnz g @ move \<and>
       length (c_finobj g') + length move = length (c_finobj g) \<and> (distinct (c_finobj g) \<longrightarrow> distinct (c_finobj g' @ move))) \<and>
     evolves (g\<lparr>c_gcstate := GCSinsideatomic, c_finobj := c_finobj g', c_tobefnz := c_tobefnz g', c_gcfinnum := 1,
       c_currentwhite := otherwhite_c g\<rparr>) g'"

definition atomic_rest :: "cstate \<Rightarrow> lua_error + cstate" where
  "atomic_rest g =
     res_bind (clearvalues (c_weak g) [] g) (\<lambda>g.
     res_bind (clearvalues (c_allweak g) [] g) (\<lambda>g.
       let origweak = c_weak g; origall = c_allweak g in
       res_bind (separatetobefnz False g) (\<lambda>g.
       res_bind (markbeingfnz (g\<lparr>c_gcfinnum := 1\<rparr>)) (\<lambda>g.
       res_bind (propagateall g) (\<lambda>g.
       res_bind (convergeephemerons g) (\<lambda>g.
       res_bind (clearkeys (c_ephemeron g) [] g) (\<lambda>g.
       res_bind (clearkeys (c_allweak g) [] g) (\<lambda>g.
       res_bind (clearvalues (c_weak g) origweak g) (\<lambda>g.
       res_bind (clearvalues (c_allweak g) origall g) (\<lambda>g.
         Inr (g\<lparr>c_currentwhite := otherwhite_c g\<rparr>)))))))))))"

text \<open>The end: the lists of weak tables are cleared one by one.\<close>

lemma clear_end_ok:
  assumes m: "minv {} [] [] g" "c_gray g = []" and st: "c_gcstate g = GCSinsideatomic" and pr: "\<forall>a\<in>set (c_ephemeron g). pairs g a"
    and ow: "c_weak g = ws @ origweak" "\<forall>a\<in>set origweak. closed g a"
  shows "okay (res_bind (clearkeys (c_ephemeron g) [] g) (\<lambda>g.
       res_bind (clearkeys (c_allweak g) [] g) (\<lambda>g.
       res_bind (clearvalues (c_weak g) origweak g) (\<lambda>g.
       res_bind (clearvalues (c_allweak g) origall g) (\<lambda>g.
         Inr (g\<lparr>c_currentwhite := otherwhite_c g\<rparr>))))))
    (\<lambda>g'. \<exists>g1. adv_strings g g1 \<and> minv {} [] [] g1 \<and> c_gray g1 = [] \<and> all_settled g1 \<and> g' = g1\<lparr>c_currentwhite := otherwhite_c g1\<rparr>)"
proof -
  note i = minvD [OF m(1)]
  have w: "\<forall>a\<in>set (c_weak g). weak_tab g a" "\<forall>a\<in>set (c_ephemeron g). eph_tab g a" "\<forall>a\<in>set (c_allweak g). key_tab g a"
    using i(6) unfolding weaks_ok_def by blast+
  let ?post = "\<lambda>g'. \<exists>g1. adv_strings g g1 \<and> minv {} [] [] g1 \<and> c_gray g1 = [] \<and> all_settled g1 \<and> g' = g1\<lparr>c_currentwhite := otherwhite_c g1\<rparr>"
  have pre1: "\<forall>a\<in>set (up_to (c_ephemeron g) []). eph_tab g a \<and> (pairs g a \<or> key_tab g a)" using w(2) pr by (simp add: up_to_all)
  show ?thesis
  proof (rule okay_bind [OF clearkeys_ok [OF i(1,2) pre1]])
    fix g1 assume g1: "adv_strings g g1 \<and> (\<forall>a\<in>set (up_to (c_ephemeron g) []). closed g1 a)"
    then have s1: "adv_strings g g1" by simp
    note m1 = strings_minv [OF s1 m] and l1 = strings_lists [OF s1]
    have pre2: "\<forall>a\<in>set (up_to (c_allweak g1) []). eph_tab g1 a \<and> (pairs g1 a \<or> key_tab g1 a)"
      using minvD(6) [OF m1(1)] key_eph unfolding weaks_ok_def by (simp add: up_to_all)
    show "okay (res_bind (clearkeys (c_allweak g1) [] g1) (\<lambda>g.
       res_bind (clearvalues (c_weak g) origweak g) (\<lambda>g.
       res_bind (clearvalues (c_allweak g) origall g) (\<lambda>g.
         Inr (g\<lparr>c_currentwhite := otherwhite_c g\<rparr>))))) ?post"
    proof (rule okay_bind [OF clearkeys_ok [OF minvD(1,2) [OF m1(1)] pre2]])
      fix g2 assume g2: "adv_strings g1 g2 \<and> (\<forall>a\<in>set (up_to (c_allweak g1) []). closed g2 a)"
      then have s2: "adv_strings g1 g2" by simp
      note m2 = strings_minv [OF s2 m1] and l2 = strings_lists [OF s2]
      have cw: "c_weak g2 = ws @ origweak" using l1 l2 ow(1) by simp
      have "distinct (ws @ origweak)" using i(5) ow(1) unfolding lists_ok_def by auto
      then have ut: "up_to (c_weak g2) origweak = ws" unfolding cw by (rule up_to_new)
      have pre3: "\<forall>a\<in>set (up_to (c_weak g2) origweak). True" "set (up_to (c_weak g2) origweak) \<subseteq> set (c_weak g2)"
        using cw unfolding ut by auto
      show "okay (res_bind (clearvalues (c_weak g2) origweak g2) (\<lambda>g.
         res_bind (clearvalues (c_allweak g) origall g) (\<lambda>g.
           Inr (g\<lparr>c_currentwhite := otherwhite_c g\<rparr>)))) ?post"
      proof (rule okay_bind [OF clear_weak_ok [OF m2 pre3]])
        fix g3 assume g3: "adv_strings g2 g3 \<and> (\<forall>a\<in>set (up_to (c_weak g2) origweak). closed g3 a)"
        then have s3: "adv_strings g2 g3" by simp
        note m3 = strings_minv [OF s3 m2] and l3 = strings_lists [OF s3]
        show "okay (res_bind (clearvalues (c_allweak g3) origall g3) (\<lambda>g. Inr (g\<lparr>c_currentwhite := otherwhite_c g\<rparr>))) ?post"
        proof (rule okay_bind [OF clear_all_ok [OF m3(1)]])
          fix g4 assume s4: "adv_strings g3 g4"
          note m4 = strings_minv [OF s4 m3] and l4 = strings_lists [OF s4]
          have s34: "adv_strings g2 g4" by (rule adv_strings_trans [OF s3 s4])
          have s24: "adv_strings g1 g4" by (rule adv_strings_trans [OF s2 s34])
          have s14: "adv_strings g g4" by (rule adv_strings_trans [OF s1 s24])
          have we: "weaks g4 = (ws @ origweak) @ c_ephemeron g @ c_allweak g1"
            unfolding l4 l3 cw unfolding l2 l1 ..
          have "closed g4 a" if a: "a \<in> set (weaks g4)" for a
          proof -
            consider "a \<in> set ws" | "a \<in> set origweak" | "a \<in> set (c_ephemeron g)" | "a \<in> set (c_allweak g1)"
              using a unfolding we by auto
            then show ?thesis
            proof cases
              case 1
              then show ?thesis using g3 ut strings_weak_tabs(5) [OF s4] by simp
            next
              case 2
              then show ?thesis using ow(2) strings_weak_tabs(5) [OF s14] by blast
            next
              case 3
              then show ?thesis using g1 strings_weak_tabs(5) [OF s24] by (simp add: up_to_all)
            next
              case 4
              then show ?thesis using g2 strings_weak_tabs(5) [OF s34] by (simp add: up_to_all)
            qed
          qed
          then have "all_settled g4" by (intro all_settledI [OF m4]) blast
          then show "okay (Inr (g4\<lparr>c_currentwhite := otherwhite_c g4\<rparr>)) ?post" using s14 m4 by auto
        qed
      qed
    qed
  qed
qed

text \<open>Objects with finalizers are moved between lists.\<close>

lemma minv_relist:
  assumes "minv T P [] g" "length fin + length tbf = length (c_finobj g) + length (c_tobefnz g)"
  shows "minv T P [] (g\<lparr>c_finobj := fin, c_tobefnz := tbf, c_gcfinnum := n\<rparr>)" "alike g (g\<lparr>c_finobj := fin, c_tobefnz := tbf, c_gcfinnum := n\<rparr>)"
proof -
  let ?g = "g\<lparr>c_finobj := fin, c_tobefnz := tbf, c_gcfinnum := n\<rparr>"
  show al: "alike g ?g" by (rule alike_same) (use assms(2) in \<open>simp_all add: gc_fuel_def\<close>)
  show "minv T P [] ?g"
  proof (rule minv_move [OF assms(1) al])
    show "lists_ok P [] ?g" using minvD(5) [OF assms(1)] unfolding lists_ok_def alike_eqs [OF al] by (simp add: gray_def)
    show "weaks_ok ?g" by (rule alike_weaks [OF al minvD(6) [OF assms(1)]]) simp_all
    show "t \<in> set [] \<or> gray ?g t" if h: "thr g t th" "marked g t" for t th
      using minvD(7) [OF assms(1) h(1)] h(2) by (simp add: thr_ok_def gray_def)
  qed auto
qed

lemma evolves_relist:
  assumes "evolves g g'"
  shows "evolves (g\<lparr>c_finobj := fin, c_tobefnz := tbf, c_gcfinnum := n\<rparr>) (g'\<lparr>c_finobj := fin, c_tobefnz := tbf, c_gcfinnum := n\<rparr>)"
  using assms unfolding evolves_def by simp

lemma evolves_flip:
  assumes "evolves g g'"
  shows "evolves (g\<lparr>c_currentwhite := w\<rparr>) (g'\<lparr>c_currentwhite := w\<rparr>)"
  using assms unfolding evolves_def by simp

lemma minv_flip:
  assumes "minv T P [] g"
  shows "minv T P [] (g\<lparr>c_currentwhite := w\<rparr>)" "alike g (g\<lparr>c_currentwhite := w\<rparr>)"
proof -
  let ?g = "g\<lparr>c_currentwhite := w\<rparr>"
  show al: "alike g ?g" by (rule alike_same) (simp_all add: gc_fuel_def)
  show "minv T P [] ?g"
  proof (rule minv_move [OF assms(1) al])
    show "lists_ok P [] ?g" using minvD(5) [OF assms(1)] unfolding lists_ok_def alike_eqs [OF al] by (simp add: gray_def)
    show "weaks_ok ?g" by (rule alike_weaks [OF al minvD(6) [OF assms(1)]]) simp_all
    show "t \<in> set [] \<or> gray ?g t" if h: "thr g t th" "marked g t" for t th
      using minvD(7) [OF assms(1) h(1)] h(2) by (simp add: thr_ok_def gray_def)
  qed auto
qed

lemma all_settled_same:
  assumes "all_settled g" "c_heap g' = c_heap g" "c_upvals g' = c_upvals g"
  shows "all_settled g'"
proof -
  have m: "marked g' = marked g" unfolding marked_def fun_eq_iff assms by simp
  have c: "closed g' = closed g" unfolding closed_def fun_eq_iff assms m by simp
  have v: "vmarked g' = vmarked g" unfolding vmarked_def fun_eq_iff m by simp
  have u: "upval_value u g' = upval_value u g" for u
    unfolding upval_value_def deref_u_def thr_at_def deref_o_def assms ..
  show ?thesis using assms(1) unfolding all_settled_def m c v u assms .
qed

theorem atomic_ok:
  assumes "marking g"
  shows "okay (atomic g) (atomic_post g)"
proof -
  let ?ga = "g\<lparr>c_gcstate := GCSinsideatomic\<rparr>"
  have rr: "root_refs g \<subseteq> dom (c_heap g)" and fo: "fin_ok g" using assms by (auto simp: marking_def)
  have e: "atomic g = res_bind (atomic_mark g) atomic_rest" by (simp add: atomic_def atomic_rest_def [abs_def])
  show ?thesis
    unfolding e
  proof (rule okay_bind [OF atomic_mark_ok [OF assms]])
    fix g1 assume g1: "minv {} [] [] g1 \<and> c_gcstate g1 = GCSinsideatomic \<and> c_gray g1 = [] \<and> evolves ?ga g1 \<and>
      (\<forall>a\<in>set (c_ephemeron g1). pairs g1 a) \<and> marked g1 (c_mainthread g1) \<and> marked g1 (c_running g1) \<and> (\<forall>r\<in>base_roots g1. marked g1 r)"
    then have m1: "minv {} [] [] g1" "c_gray g1 = []" and ev1: "evolves ?ga g1" by simp_all
    have u1: "up_to (c_weak g1) [] = c_weak g1" by (rule up_to_all)
    show "okay (atomic_rest g1) (atomic_post g)"
      unfolding atomic_rest_def
    proof (rule okay_bind [OF clear_weak_ok [OF m1]])
      show "\<forall>a\<in>set (up_to (c_weak g1) []). True" "set (up_to (c_weak g1) []) \<subseteq> set (c_weak g1)" by (simp_all add: u1)
      fix g2 assume g2: "adv_strings g1 g2 \<and> (\<forall>a\<in>set (up_to (c_weak g1) []). closed g2 a)"
      then have s2: "adv_strings g1 g2" by simp
      note m2 = strings_minv [OF s2 m1] and l2 = strings_lists [OF s2]
      show "okay (res_bind (clearvalues (c_allweak g2) [] g2) (\<lambda>g.
         let origweak = c_weak g; origall = c_allweak g in
         res_bind (separatetobefnz False g) (\<lambda>g.
         res_bind (markbeingfnz (g\<lparr>c_gcfinnum := 1\<rparr>)) (\<lambda>g.
         res_bind (propagateall g) (\<lambda>g.
         res_bind (convergeephemerons g) (\<lambda>g.
         res_bind (clearkeys (c_ephemeron g) [] g) (\<lambda>g.
         res_bind (clearkeys (c_allweak g) [] g) (\<lambda>g.
         res_bind (clearvalues (c_weak g) origweak g) (\<lambda>g.
         res_bind (clearvalues (c_allweak g) origall g) (\<lambda>g.
           Inr (g\<lparr>c_currentwhite := otherwhite_c g\<rparr>))))))))))) (atomic_post g)"
      proof (rule okay_bind [OF clear_all_ok [OF m2(1)]])
        fix g3 assume s3: "adv_strings g2 g3"
        note m3 = strings_minv [OF s3 m2] and l3 = strings_lists [OF s3]
        have ev3: "evolves ?ga g3"
          by (rule evolves_trans [OF ev1 evolves_trans [OF strings_evolves [OF s2] strings_evolves [OF s3]]])
        define stay where "stay = filter (\<lambda>a. \<not> white g3 a) (c_finobj g)"
        define move where "move = filter (white g3) (c_finobj g)"
        have f3: "c_finobj g3 = c_finobj g" "c_tobefnz g3 = c_tobefnz g" "c_gcstate g3 = GCSinsideatomic"
          "c_mainthread g3 = c_mainthread g" "c_running g3 = c_running g" "base_roots g3 = base_roots g" "c_currentwhite g3 = c_currentwhite g"
          using ev3 by (simp_all add: evolves_def base_roots_def)
        have fo3: "fin_ok g3" by (rule evolves_fin [OF ev3]) (use fo in \<open>simp add: fin_ok_def\<close>)
        have "\<forall>a\<in>set (c_finobj g). \<exists>ob. c_heap g3 a = Some ob \<and> tofinalize_m (ob_marked ob)"
          using fo3 f3(1) unfolding fin_ok_def by simp
        then have sp: "separatetobefnz False g3 = Inr (g3\<lparr>c_finobj := stay, c_tobefnz := c_tobefnz g @ move\<rparr>)"
          unfolding separatetobefnz_def f3 using separate_ok [of "c_finobj g" g3] by (simp add: stay_def move_def)
        let ?R = "\<lambda>g. g\<lparr>c_finobj := stay, c_tobefnz := c_tobefnz g3 @ move, c_gcfinnum := 1\<rparr>"
        define g5 where "g5 = ?R g3"
        have len: "length stay + length move = length (c_finobj g)"
          using sum_length_filter_compl [of "white g3" "c_finobj g"] by (simp add: stay_def move_def)
        note rl = minv_relist [OF m3(1), of stay "c_tobefnz g3 @ move" 1]
        have m5: "minv {} [] [] g5" unfolding g5_def by (rule rl(1)) (use len f3(1) in simp)
        have al5: "alike g3 g5" unfolding g5_def by (rule rl(2)) (use len f3(1) in simp)
        have ev5: "evolves (?R ?ga) g5" unfolding g5_def by (rule evolves_relist [OF ev3])
        have gr5: "c_gray g5 = []" "c_weak g5 = c_weak g1" "c_gcstate g5 = GCSinsideatomic" "c_tobefnz g5 = c_tobefnz g @ move"
          using m3(2) l2 l3 f3 by (simp_all add: g5_def)
        have tb: "set (c_tobefnz g5) \<subseteq> dom (c_heap g5)"
        proof -
          have "set move \<subseteq> dom (c_heap g3)" using fo3 unfolding fin_ok_def move_def f3 by auto
          moreover have "set (c_tobefnz g) \<subseteq> dom (c_heap g)" using rr by (auto simp: root_refs_def)
          then have "set (c_tobefnz g) \<subseteq> dom (c_heap g3)" using evolves_dom [OF ev3] by simp
          ultimately show ?thesis using gr5(4) alike_eqs(1) [OF al5] by simp
        qed
        have e5: "(g3\<lparr>c_finobj := stay, c_tobefnz := c_tobefnz g @ move\<rparr>)\<lparr>c_gcfinnum := 1\<rparr> = g5" by (simp add: g5_def f3(2))
        have cl5: "\<forall>a\<in>set (c_weak g1). closed g5 a"
        proof
          fix a assume "a \<in> set (c_weak g1)"
          then have "closed g3 a" using g2 strings_weak_tabs(5) [OF s3] by (simp add: u1)
          then show "closed g5 a" unfolding closed_def alike_eqs(2) [OF al5] by (simp add: g5_def)
        qed
        have "okay (res_bind (markbeingfnz g5) (\<lambda>g.
           res_bind (propagateall g) (\<lambda>g.
           res_bind (convergeephemerons g) (\<lambda>g.
           res_bind (clearkeys (c_ephemeron g) [] g) (\<lambda>g.
           res_bind (clearkeys (c_allweak g) [] g) (\<lambda>g.
           res_bind (clearvalues (c_weak g) (c_weak g3) g) (\<lambda>g.
           res_bind (clearvalues (c_allweak g) (c_allweak g3) g) (\<lambda>g.
             Inr (g\<lparr>c_currentwhite := otherwhite_c g\<rparr>))))))))) (atomic_post g)"
        proof (rule okay_bind [OF markbeingfnz_ok [OF minvD(1) [OF m5] tb]])
          fix g6 assume g6: "adv g5 g6 \<and> (\<forall>r\<in>set (c_tobefnz g5). marked g6 r)"
          then have a6: "adv g5 g6" by simp
          note m6 = minv_adv [OF a6 m5]
          have st6: "c_gcstate g6 = GCSinsideatomic" using gr5(3) advx_fields(2) [OF a6] by simp
          show "okay (res_bind (propagateall g6) (\<lambda>g.
           res_bind (convergeephemerons g) (\<lambda>g.
           res_bind (clearkeys (c_ephemeron g) [] g) (\<lambda>g.
           res_bind (clearkeys (c_allweak g) [] g) (\<lambda>g.
           res_bind (clearvalues (c_weak g) (c_weak g3) g) (\<lambda>g.
           res_bind (clearvalues (c_allweak g) (c_allweak g3) g) (\<lambda>g.
             Inr (g\<lparr>c_currentwhite := otherwhite_c g\<rparr>)))))))) (atomic_post g)"
          proof (rule okay_bind [OF propagateall_ok [OF m6 inside_phase [OF st6]]])
            fix g7 assume g7: "propd {} [] g6 g7 \<and> c_gray g7 = []"
            then have m7: "minv {} [] [] g7" and ev7: "evolves g6 g7" and st7: "c_gcstate g7 = GCSinsideatomic"
              using inside_propd st6 by auto
            show "okay (res_bind (convergeephemerons g7) (\<lambda>g.
             res_bind (clearkeys (c_ephemeron g) [] g) (\<lambda>g.
             res_bind (clearkeys (c_allweak g) [] g) (\<lambda>g.
             res_bind (clearvalues (c_weak g) (c_weak g3) g) (\<lambda>g.
             res_bind (clearvalues (c_allweak g) (c_allweak g3) g) (\<lambda>g.
               Inr (g\<lparr>c_currentwhite := otherwhite_c g\<rparr>))))))) (atomic_post g)"
            proof (rule okay_bind [OF convergeephemerons_ok [OF m7 st7]])
              show "c_gray g7 = []" using g7 by simp
              fix g8 assume g8: "minv {} [] [] g8 \<and> c_gcstate g8 = GCSinsideatomic \<and> c_gray g8 = [] \<and> evolves g7 g8 \<and>
                (\<forall>a\<in>set (c_ephemeron g8). pairs g8 a)"
              have ev68: "evolves g6 g8" using evolves_trans [OF ev7] g8 by blast
              have ev58: "evolves g5 g8" by (rule evolves_trans [OF adv_evolves [OF a6] ev68])
              obtain ws where ws: "c_weak g8 = ws @ c_weak g3" using ev58 gr5(2) l2 l3 unfolding evolves_def by metis
              have ow: "\<forall>a\<in>set (c_weak g3). closed g8 a" using cl5 l2 l3 evolves_closed [OF ev58] by simp
              have m8: "minv {} [] [] g8" "c_gray g8 = []" and st8: "c_gcstate g8 = GCSinsideatomic"
                and pr8: "\<forall>a\<in>set (c_ephemeron g8). pairs g8 a" using g8 by simp_all
              show "okay (res_bind (clearkeys (c_ephemeron g8) [] g8) (\<lambda>g.
               res_bind (clearkeys (c_allweak g) [] g) (\<lambda>g.
               res_bind (clearvalues (c_weak g) (c_weak g3) g) (\<lambda>g.
               res_bind (clearvalues (c_allweak g) (c_allweak g3) g) (\<lambda>g.
                 Inr (g\<lparr>c_currentwhite := otherwhite_c g\<rparr>)))))) (atomic_post g)"
              proof (rule okay_mono [OF clear_end_ok [OF m8 st8 pr8 ws ow]])
                fix g' assume "\<exists>g9. adv_strings g8 g9 \<and> minv {} [] [] g9 \<and> c_gray g9 = [] \<and> all_settled g9 \<and>
                  g' = g9\<lparr>c_currentwhite := otherwhite_c g9\<rparr>"
                then obtain g9 where g9: "adv_strings g8 g9" "minv {} [] [] g9" "c_gray g9 = []" "all_settled g9"
                  "g' = g9\<lparr>c_currentwhite := otherwhite_c g9\<rparr>" by blast
                have ev59: "evolves g5 g9" by (rule evolves_trans [OF ev58 strings_evolves [OF g9(1)]])
                have ev69: "evolves g6 g9" by (rule evolves_trans [OF ev68 strings_evolves [OF g9(1)]])
                have ev9: "evolves (?R ?ga) g9" by (rule evolves_trans [OF ev5 ev59])
                have cw: "otherwhite_c g9 = otherwhite_c g" using ev9 by (simp add: evolves_def otherwhite_c_def)
                have mk: "marked g' = marked g9" unfolding g9(5) marked_def fun_eq_iff by simp
                have f9: "c_finobj g' = stay" "c_tobefnz g' = c_tobefnz g @ move" "c_gcfinnum g' = 1" "c_gcstate g' = GCSinsideatomic"
                  "c_mainthread g' = c_mainthread g" "c_running g' = c_running g" "base_roots g' = base_roots g"
                  using ev9 f3 by (simp_all add: evolves_def g9(5) base_roots_def)
                have ev39: "marked g3 a \<Longrightarrow> marked g9 a" for a using evolves_marked [OF ev59] alike_eqs(2) [OF al5] by simp
                have ev13: "marked g1 a \<Longrightarrow> marked g3 a" for a
                  using evolves_marked [OF evolves_trans [OF strings_evolves [OF s2] strings_evolves [OF s3]]] by blast
                have f1: "c_mainthread g1 = c_mainthread g" "c_running g1 = c_running g" "base_roots g1 = base_roots g"
                  using ev1 by (simp_all add: evolves_def base_roots_def)
                have "\<forall>r\<in>root_refs g'. marked g' r"
                proof
                  fix r assume "r \<in> root_refs g'"
                  then consider "r \<in> {c_mainthread g, c_running g} \<union> base_roots g" | "r \<in> set (c_tobefnz g5)"
                    using f9 gr5(4) unfolding root_refs_def base_roots_def [symmetric] by (auto simp: base_roots_def)
                  then show "marked g' r"
                  proof cases
                    case 1
                    then have "marked g1 r" using g1 f1 by auto
                    then show ?thesis unfolding mk by (rule ev39 [OF ev13])
                  next
                    case 2
                    then have "marked g6 r" using g6 by blast
                    then show ?thesis unfolding mk by (rule evolves_marked [OF ev69])
                  qed
                qed
                moreover have "\<forall>a\<in>set (c_finobj g'). marked g' a"
                proof
                  fix a assume "a \<in> set (c_finobj g')"
                  then have a: "a \<in> set (c_finobj g)" "\<not> white g3 a" unfolding f9 stay_def by auto
                  then have "a \<in> dom (c_heap g3)" using fo3 f3(1) unfolding fin_ok_def by auto
                  then show "marked g' a" using not_white a(2) ev39 mk by simp
                qed
                moreover have "fin_ok g5" using fo3 f3(1) unfolding fin_ok_def g5_def by (auto simp: stay_def)
                then have "fin_ok g9" by (rule evolves_fin [OF ev59])
                then have "fin_ok g'" by (simp add: fin_ok_def g9(5))
                moreover have "set stay \<union> set move = set (c_finobj g)" by (auto simp: stay_def move_def)
                moreover have "distinct (c_finobj g) \<longrightarrow> distinct (stay @ move)" by (auto simp: stay_def move_def)
                moreover have "minv {} [] [] g'" unfolding g9(5) by (rule minv_flip [OF g9(2)])
                moreover have "all_settled g'" by (rule all_settled_same [OF g9(4)]) (simp_all add: g9(5))
                moreover have "evolves (g\<lparr>c_gcstate := GCSinsideatomic, c_finobj := c_finobj g', c_tobefnz := c_tobefnz g', c_gcfinnum := 1,
                    c_currentwhite := otherwhite_c g\<rparr>) g'"
                  using evolves_flip [OF ev9, of "otherwhite_c g"] unfolding g9(5) cw f9 f3(2) by (simp add: f9 [unfolded g9(5), simplified])
                ultimately show "atomic_post g g'" unfolding atomic_post_def using f9 len by blast
              qed
            qed
          qed
        qed
        then show "okay (let origweak = c_weak g3; origall = c_allweak g3 in
         res_bind (separatetobefnz False g3) (\<lambda>g.
         res_bind (markbeingfnz (g\<lparr>c_gcfinnum := 1\<rparr>)) (\<lambda>g.
         res_bind (propagateall g) (\<lambda>g.
         res_bind (convergeephemerons g) (\<lambda>g.
         res_bind (clearkeys (c_ephemeron g) [] g) (\<lambda>g.
         res_bind (clearkeys (c_allweak g) [] g) (\<lambda>g.
         res_bind (clearvalues (c_weak g) origweak g) (\<lambda>g.
         res_bind (clearvalues (c_allweak g) origall g) (\<lambda>g.
           Inr (g\<lparr>c_currentwhite := otherwhite_c g\<rparr>)))))))))) (atomic_post g)"
          unfolding Let_def sp res_bind_Inr e5 .
      qed
    qed
  qed
qed

end
