(* ===== verification/LuaGcSweep.thy ===== *)
theory LuaGcSweep
  imports LuaGc
begin

text \<open>
  The garbage collector of the embedded Lua (\<open>lgc.c\<close>): freeing and sweeping, finalization, the states of the collector and
  the barriers; with the upvalues of \<open>lfunc.c\<close> and \<open>luaE_freethread\<close> of \<open>lstate.c\<close>. A finalizer is any code: what its call does
  to the state is an argument, and how many single steps \<open>luaC_step\<close> makes, which depends on the counts of memory, is another.
\<close>

section \<open>Upvalues\<close>

definition free_u :: "nat \<Rightarrow> cstate \<Rightarrow> cstate" where
  "free_u u g = g\<lparr>c_upvals := (c_upvals g)(u := None)\<rparr>"

definition luaC_upvdeccount :: "nat \<Rightarrow> cstate \<Rightarrow> lua_error + cstate" where
  "luaC_upvdeccount u g =
     res_bind (deref_u u g) (\<lambda>uv.
     res_bind (lassert (0 < u_refcount uv) ''uv->refcount > 0'') (\<lambda>_.
       let uv = uv\<lparr>u_refcount := u_refcount uv - 1\<rparr>; g = put_u u uv g in
       Inr (if u_refcount uv = 0 \<and> u_open uv = None then free_u u g else g)))"

text \<open>The barrier of an upvalue, with the test that its macro makes.\<close>

definition luaC_upvalbarrier :: "nat \<Rightarrow> cstate \<Rightarrow> lua_error + cstate" where
  "luaC_upvalbarrier u g =
     res_bind (deref_u u g) (\<lambda>uv.
       case u_open uv of
         Some _ \<Rightarrow> Inr g
       | None \<Rightarrow>
           (case u_value uv of
              VRef a \<Rightarrow> if keepinvariant g then markobject_o a g else Inr g
            | _ \<Rightarrow> Inr g))"

text \<open>\<open>luaF_findupval\<close>: the list of the open upvalues of a thread is sorted by their level, the highest first.\<close>

fun find_open :: "nat \<Rightarrow> nat list \<Rightarrow> cstate \<Rightarrow> lua_error + nat option \<times> nat list \<times> nat list" where
  "find_open level [] g = Inr (None, [], [])"
| "find_open level (u # us) g =
     res_bind (deref_u u g) (\<lambda>uv.
       case u_open uv of
         None \<Rightarrow> Inl (Fault (AssertFail ''upisopen(p)''))
       | Some (t, i) \<Rightarrow>
           if i < level then Inr (None, [], u # us)
           else if i = level then Inr (Some u, [], u # us)
           else res_bind (find_open level us g) (\<lambda>(r, xs, ys). Inr (r, u # xs, ys)))"

definition luaF_findupval :: "nat \<Rightarrow> nat \<Rightarrow> nat \<Rightarrow> cstate \<Rightarrow> lua_error + nat \<times> cstate" where
  "luaF_findupval new t level g =
     res_bind (thr_at t g) (\<lambda>th.
     res_bind (lassert (t \<in> set (c_twups g) \<or> th_openupval th = []) ''isintwups(L) || L->openupval == NULL'') (\<lambda>_.
     res_bind (find_open level (th_openupval th) g) (\<lambda>(r, xs, ys).
       case r of
         Some u \<Rightarrow> Inr (u, g)
       | None \<Rightarrow>
           res_bind (put_body t (Thr (th\<lparr>th_openupval := xs @ new # ys\<rparr>))
               (put_u new \<lparr>u_refcount = 0, u_open = Some (t, level), u_touched = True, u_value = VNil\<rparr> g)) (\<lambda>g.
             Inr (new, if t \<notin> set (c_twups g) then g\<lparr>c_twups := t # c_twups g\<rparr> else g)))))"

text \<open>\<open>luaF_close\<close>, a loop over the list of the open upvalues.\<close>

fun close_loop :: "nat \<Rightarrow> nat \<Rightarrow> nat list \<Rightarrow> cstate \<Rightarrow> lua_error + cstate" where
  "close_loop t level [] g = Inr g"
| "close_loop t level (u # us) g =
     res_bind (deref_u u g) (\<lambda>uv.
       case u_open uv of
         None \<Rightarrow> Inl (Fault (AssertFail ''upisopen(uv)''))
       | Some (t', i) \<Rightarrow>
           if i < level then Inr g
           else
             res_bind (thr_at t g) (\<lambda>th.
             res_bind (put_body t (Thr (th\<lparr>th_openupval := us\<rparr>)) g) (\<lambda>g.
             res_bind
               (if u_refcount uv = 0 then Inr (free_u u g)
                else res_bind (upval_value u g) (\<lambda>v.
                  luaC_upvalbarrier u (put_u u (uv\<lparr>u_value := v, u_open := None\<rparr>) g)))
               (close_loop t level us))))"

definition luaF_close :: "nat \<Rightarrow> nat \<Rightarrow> cstate \<Rightarrow> lua_error + cstate" where
  "luaF_close t level g = res_bind (thr_at t g) (\<lambda>th. close_loop t level (th_openupval th) g)"

section \<open>Freeing\<close>

definition free_mem :: "nat \<Rightarrow> cstate \<Rightarrow> cstate" where
  "free_mem a g = g\<lparr>c_heap := (c_heap g)(a := None)\<rparr>"

definition freeLclosure :: "nat \<Rightarrow> nat option list \<Rightarrow> cstate \<Rightarrow> lua_error + cstate" where
  "freeLclosure a upvals g =
     res_bind (res_fold (\<lambda>x g. case x of None \<Rightarrow> Inr g | Some u \<Rightarrow> luaC_upvdeccount u g) upvals g) (\<lambda>g. Inr (free_mem a g))"

definition luaE_freethread :: "nat \<Rightarrow> cstate \<Rightarrow> lua_error + cstate" where
  "luaE_freethread a g =
     res_bind (luaF_close a 0 g) (\<lambda>g.
     res_bind (thr_at a g) (\<lambda>th.
     res_bind (lassert (th_openupval th = []) ''L1->openupval == NULL'') (\<lambda>_. Inr (free_mem a g))))"

definition freeobj_o :: "nat \<Rightarrow> cstate \<Rightarrow> lua_error + cstate" where
  "freeobj_o a g =
     res_bind (deref_o a g) (\<lambda>ob.
       case ob_body ob of
         LCl p upvals \<Rightarrow> freeLclosure a upvals g
       | Thr th \<Rightarrow> luaE_freethread a g
       | _ \<Rightarrow> Inr (free_mem a g))"

section \<open>Sweeping\<close>

definition the_list :: "gclistid \<Rightarrow> cstate \<Rightarrow> nat list" where
  "the_list l g = (case l of AllGC \<Rightarrow> c_allgc g | FinObj \<Rightarrow> c_finobj g | ToBeFnz \<Rightarrow> c_tobefnz g | FixedGC \<Rightarrow> c_fixedgc g)"

definition set_list :: "gclistid \<Rightarrow> nat list \<Rightarrow> cstate \<Rightarrow> cstate" where
  "set_list l xs g =
     (case l of
        AllGC \<Rightarrow> g\<lparr>c_allgc := xs\<rparr> | FinObj \<Rightarrow> g\<lparr>c_finobj := xs\<rparr>
      | ToBeFnz \<Rightarrow> g\<lparr>c_tobefnz := xs\<rparr> | FixedGC \<Rightarrow> g\<lparr>c_fixedgc := xs\<rparr>)"

text \<open>
  A pointer to a link: the list it is in, and the elements in front of the link and behind it. An object that is in no list
  has none (the main thread).
\<close>

definition cut_behind :: "nat \<Rightarrow> nat list \<Rightarrow> nat list \<times> nat list" where
  "cut_behind a xs = (takeWhile (\<lambda>x. x \<noteq> a) xs @ [a], tl (dropWhile (\<lambda>x. x \<noteq> a) xs))"

definition list_of :: "nat \<Rightarrow> cstate \<Rightarrow> gclistid option" where
  "list_of a g =
     (if a \<in> set (c_allgc g) then Some AllGC else if a \<in> set (c_finobj g) then Some FinObj
      else if a \<in> set (c_tobefnz g) then Some ToBeFnz else if a \<in> set (c_fixedgc g) then Some FixedGC else None)"

definition link_at :: "place \<Rightarrow> cstate \<Rightarrow> lua_error + gclistid \<times> nat list \<times> nat list" where
  "link_at p g =
     (case p of
        Head l \<Rightarrow> Inr (l, [], the_list l g)
      | NextOf a \<Rightarrow>
          (case list_of a g of
             None \<Rightarrow> Inl (Fault UseAfterFree)
           | Some l \<Rightarrow> Inr (l, cut_behind a (the_list l g))))"

definition sweep_link :: "place \<Rightarrow> cstate \<Rightarrow> lua_error + place option \<times> cstate" where
  "sweep_link p g =
     res_bind (link_at p g) (\<lambda>(l, pre, post).
       case post of
         [] \<Rightarrow> Inr (None, g)
       | x # rest \<Rightarrow>
           res_bind (deref_o x g) (\<lambda>ob.
             if isdeadm (otherwhite_c g) (ob_marked ob) then
               res_bind (freeobj_o x (set_list l (pre @ rest) g)) (\<lambda>g. Inr (Some p, g))
             else res_bind (recolor (makewhite_m g) x g) (\<lambda>g. Inr (Some (NextOf x), g))))"

text \<open>\<open>sweeplist\<close> returns no place when the list is finished.\<close>

fun sweeplist_o :: "nat \<Rightarrow> place \<Rightarrow> cstate \<Rightarrow> lua_error + place option \<times> cstate" where
  "sweeplist_o 0 p g = res_bind (link_at p g) (\<lambda>(l, pre, post). Inr (if post = [] then None else Some p, g))"
| "sweeplist_o (Suc count) p g =
     res_bind (sweep_link p g) (\<lambda>(q, g). case q of None \<Rightarrow> Inr (None, g) | Some q \<Rightarrow> sweeplist_o count q g)"

fun sweeptolive_loop :: "nat \<Rightarrow> place \<Rightarrow> cstate \<Rightarrow> lua_error + place option \<times> cstate" where
  "sweeptolive_loop 0 p g = Inl (Fault OutOfFuel)"
| "sweeptolive_loop (Suc f) p g =
     res_bind (sweeplist_o 1 p g) (\<lambda>(q, g). if q = Some p then sweeptolive_loop f p g else Inr (q, g))"

text \<open>Every turn of the loop but the last takes an object out of its list.\<close>

definition sweeptolive_o :: "place \<Rightarrow> cstate \<Rightarrow> lua_error + place option \<times> cstate" where
  "sweeptolive_o p g = sweeptolive_loop (gc_fuel g) p g"

definition entersweep_o :: "cstate \<Rightarrow> lua_error + cstate" where
  "entersweep_o g =
     (let g = g\<lparr>c_gcstate := GCSswpallgc\<rparr> in
      res_bind (lassert (c_sweepgc g = None) ''g->sweepgc == NULL'') (\<lambda>_.
      res_bind (sweeptolive_o (Head AllGC) g) (\<lambda>(q, g). Inr (g\<lparr>c_sweepgc := q\<rparr>))))"

definition GCSWEEPMAX :: nat where "GCSWEEPMAX = 85"

definition sweepstep :: "gcstate_t \<Rightarrow> place option \<Rightarrow> cstate \<Rightarrow> lua_error + cstate" where
  "sweepstep nextstate nextlist g =
     res_bind (case c_sweepgc g of
         None \<Rightarrow> Inr g
       | Some p \<Rightarrow> res_bind (sweeplist_o GCSWEEPMAX p g) (\<lambda>(q, g). Inr (g\<lparr>c_sweepgc := q\<rparr>))) (\<lambda>g.
       if c_sweepgc g \<noteq> None then Inr g else Inr (g\<lparr>c_gcstate := nextstate, c_sweepgc := nextlist\<rparr>))"

section \<open>Finalization\<close>

definition udata2finalize :: "cstate \<Rightarrow> lua_error + nat \<times> cstate" where
  "udata2finalize g =
     (case c_tobefnz g of
        [] \<Rightarrow> Inl (Fault NullDeref)
      | a # rest \<Rightarrow>
          res_bind (deref_o a g) (\<lambda>ob.
          res_bind (lassert (tofinalize_m (ob_marked ob)) ''tofinalize(o)'') (\<lambda>_.
          res_bind (recolor (\<lambda>m. m AND NOT FINALIZEDBIT) a (g\<lparr>c_tobefnz := rest, c_allgc := a # c_allgc g\<rparr>)) (\<lambda>g.
          res_bind (if issweepphase g then recolor (makewhite_m g) a g else Inr g) (\<lambda>g. Inr (a, g))))))"

text \<open>\<open>luaT_gettmbyobj\<close> looks the event up without the cache of absent ones; \<open>ttype\<close> is the type of a value that is no table or userdata.\<close>

definition gettm_gc :: "nat \<Rightarrow> (gcbody \<Rightarrow> nat) \<Rightarrow> cstate \<Rightarrow> lua_error + gval" where
  "gettm_gc a ttype g =
     res_bind (deref_o a g) (\<lambda>ob.
       let mt = (case ob_body ob of Tab h \<Rightarrow> h_metatable h | Udata mt _ \<Rightarrow> mt | b \<Rightarrow> c_mt g ! ttype b) in
       case mt of
         None \<Rightarrow> Inr VNil
       | Some m \<Rightarrow> res_bind (tab_at m g) (\<lambda>h. Inr (node_get (c_tmname g ! TM_GC) (h_node h))))"

definition is_function :: "gval \<Rightarrow> cstate \<Rightarrow> lua_error + bool" where
  "is_function v g =
     (case v of
        VRef a \<Rightarrow> res_bind (deref_o a g) (\<lambda>ob. Inr (case ob_body ob of LCl _ _ \<Rightarrow> True | CCl _ \<Rightarrow> True | _ \<Rightarrow> False))
      | VFun \<Rightarrow> Inr True
      | _ \<Rightarrow> Inr False)"

text \<open>The finalizer and its argument are put on the stack of the running thread; a slot is written, whether or not it is in use.\<close>

definition push2 :: "gval \<Rightarrow> gval \<Rightarrow> cstate \<Rightarrow> lua_error + cstate" where
  "push2 f v g =
     res_bind (thr_at (c_running g) g) (\<lambda>th.
       let t = th_top th in
       if length (th_stack th) \<le> t + 1 then Inl (Fault OutOfBounds)
       else put_body (c_running g) (Thr (th\<lparr>th_stack := (th_stack th)[t := f, t + 1 := v], th_top := t + 2\<rparr>)) g)"

text \<open>\<open>GCTM\<close> up to the call of the finalizer.\<close>

definition GCTM :: "(gcbody \<Rightarrow> nat) \<Rightarrow> cstate \<Rightarrow> lua_error + bool \<times> cstate" where
  "GCTM ttype g =
     res_bind (udata2finalize g) (\<lambda>(a, g).
     res_bind (gettm_gc a ttype g) (\<lambda>tm.
     res_bind (is_function tm g) (\<lambda>b.
       if b then res_bind (push2 tm (VRef a) g) (\<lambda>g. Inr (True, g)) else Inr (False, g))))"

fun run_finalizers :: "(cstate \<Rightarrow> lua_error + cstate) \<Rightarrow> (gcbody \<Rightarrow> nat) \<Rightarrow> nat \<Rightarrow> cstate \<Rightarrow> lua_error + cstate" where
  "run_finalizers call ttype 0 g = Inr g"
| "run_finalizers call ttype (Suc n) g =
     (if c_tobefnz g = [] then Inr g
      else res_bind (GCTM ttype g) (\<lambda>(b, g). res_bind (if b then call g else Inr g) (run_finalizers call ttype n)))"

definition runafewfinalizers :: "(cstate \<Rightarrow> lua_error + cstate) \<Rightarrow> (gcbody \<Rightarrow> nat) \<Rightarrow> cstate \<Rightarrow> lua_error + cstate" where
  "runafewfinalizers call ttype g =
     res_bind (lassert (c_tobefnz g = [] \<or> 0 < c_gcfinnum g) ''!g->tobefnz || g->gcfinnum > 0'') (\<lambda>_.
     res_bind (run_finalizers call ttype (c_gcfinnum g) g) (\<lambda>g.
       Inr (g\<lparr>c_gcfinnum := (if c_tobefnz g = [] then 0 else c_gcfinnum g * 2 mod 4294967296)\<rparr>)))"

text \<open>
  \<open>luaC_checkfinalizer\<close>. The object that is taken out of \<open>allgc\<close> must be there: the search for it has no other end. When the
  sweep stands right behind it, the sweep first goes on to the next object that stays.
\<close>

definition luaC_checkfinalizer :: "nat \<Rightarrow> nat option \<Rightarrow> cstate \<Rightarrow> lua_error + cstate" where
  "luaC_checkfinalizer a mt g =
     res_bind (deref_o a g) (\<lambda>ob.
       if tofinalize_m (ob_marked ob) then Inr g
       else
         res_bind (gfasttm mt TM_GC g) (\<lambda>(tm, g).
           if tm = None then Inr g
           else
             res_bind
               (if issweepphase g then
                  res_bind (recolor (makewhite_m g) a g) (\<lambda>g.
                    if c_sweepgc g = Some (NextOf a) then
                      res_bind (sweeptolive_o (NextOf a) g) (\<lambda>(q, g). Inr (g\<lparr>c_sweepgc := q\<rparr>))
                    else Inr g)
                else Inr g) (\<lambda>g.
               if a \<notin> set (c_allgc g) then Inl (Fault NullDeref)
               else recolor (\<lambda>m. m OR FINALIZEDBIT) a (g\<lparr>c_allgc := remove1 a (c_allgc g), c_finobj := a # c_finobj g\<rparr>))))"

section \<open>The states of the collector\<close>

definition singlestep :: "(cstate \<Rightarrow> lua_error + cstate) \<Rightarrow> (gcbody \<Rightarrow> nat) \<Rightarrow> cstate \<Rightarrow> lua_error + cstate" where
  "singlestep call ttype g =
     (case c_gcstate g of
        GCSpause \<Rightarrow> res_bind (restartcollection g) (\<lambda>g. Inr (g\<lparr>c_gcstate := GCSpropagate\<rparr>))
      | GCSpropagate \<Rightarrow>
          res_bind (lassert (c_gray g \<noteq> []) ''g->gray'') (\<lambda>_.
          res_bind (propagatemark g) (\<lambda>g. Inr (if c_gray g = [] then g\<lparr>c_gcstate := GCSatomic\<rparr> else g)))
      | GCSatomic \<Rightarrow> res_bind (propagateall g) (\<lambda>g. res_bind (atomic g) entersweep_o)
      | GCSswpallgc \<Rightarrow> sweepstep GCSswpfinobj (Some (Head FinObj)) g
      | GCSswpfinobj \<Rightarrow> sweepstep GCSswptobefnz (Some (Head ToBeFnz)) g
      | GCSswptobefnz \<Rightarrow> sweepstep GCSswpend None g
      | GCSswpend \<Rightarrow> res_bind (recolor (makewhite_m g) (c_mainthread g) g) (\<lambda>g. Inr (g\<lparr>c_gcstate := GCScallfin\<rparr>))
      | GCScallfin \<Rightarrow>
          if c_tobefnz g \<noteq> [] \<and> \<not> c_emergency g then runafewfinalizers call ttype g else Inr (g\<lparr>c_gcstate := GCSpause\<rparr>)
      | GCSinsideatomic \<Rightarrow> Inl (Fault (AssertFail ''singlestep'')))"

fun step_loop :: "(cstate \<Rightarrow> lua_error + cstate) \<Rightarrow> (gcbody \<Rightarrow> nat) \<Rightarrow> nat \<Rightarrow> cstate \<Rightarrow> lua_error + cstate" where
  "step_loop call ttype 0 g = Inr g"
| "step_loop call ttype (Suc n) g =
     res_bind (singlestep call ttype g) (\<lambda>g. if c_gcstate g = GCSpause then Inr g else step_loop call ttype n g)"

text \<open>\<open>luaC_step\<close> of a running collector, with the number of single steps it has to pay for.\<close>

definition luaC_step :: "(cstate \<Rightarrow> lua_error + cstate) \<Rightarrow> (gcbody \<Rightarrow> nat) \<Rightarrow> nat \<Rightarrow> cstate \<Rightarrow> lua_error + cstate" where
  "luaC_step call ttype n g =
     res_bind (step_loop call ttype (Suc n) g) (\<lambda>g.
       if c_gcstate g = GCSpause then Inr g else runafewfinalizers call ttype g)"

section \<open>Barriers\<close>

definition barrier_forward :: "nat \<Rightarrow> nat \<Rightarrow> cstate \<Rightarrow> lua_error + cstate" where
  "barrier_forward a v g =
     res_bind (deref_o a g) (\<lambda>ob. res_bind (deref_o v g) (\<lambda>vb.
     res_bind (lassert (isblack_m (ob_marked ob) \<and> iswhite_m (ob_marked vb) \<and> \<not> isdeadm (otherwhite_c g) (ob_marked vb) \<and>
         \<not> isdeadm (otherwhite_c g) (ob_marked ob)) ''luaC_barrier_'') (\<lambda>_.
       if keepinvariant g then reallymarkobject_o (gc_fuel g) v g
       else res_bind (lassert (issweepphase g) ''issweepphase(g)'') (\<lambda>_. recolor (makewhite_m g) a g))))"

text \<open>The macros \<open>luaC_barrier\<close>, \<open>luaC_objbarrier\<close> (of an object as a value) and \<open>luaC_barrierback\<close>.\<close>

definition luaC_barrier :: "nat \<Rightarrow> gval \<Rightarrow> cstate \<Rightarrow> lua_error + cstate" where
  "luaC_barrier a v g =
     (case v of
        VRef b \<Rightarrow>
          res_bind (deref_o a g) (\<lambda>ob. res_bind (iswhite_o b g) (\<lambda>w.
            if isblack_m (ob_marked ob) \<and> w then barrier_forward a b g else Inr g))
      | _ \<Rightarrow> Inr g)"

definition barrier_back :: "nat \<Rightarrow> cstate \<Rightarrow> lua_error + cstate" where
  "barrier_back a g =
     res_bind (deref_o a g) (\<lambda>ob.
     res_bind (lassert (isblack_m (ob_marked ob) \<and> \<not> isdeadm (otherwhite_c g) (ob_marked ob)) ''luaC_barrierback_'') (\<lambda>_.
     res_bind (recolor black2gray_m a g) (\<lambda>g. Inr (g\<lparr>c_grayagain := a # c_grayagain g\<rparr>))))"

definition luaC_barrierback :: "nat \<Rightarrow> gval \<Rightarrow> cstate \<Rightarrow> lua_error + cstate" where
  "luaC_barrierback a v g =
     (case v of
        VRef b \<Rightarrow>
          res_bind (deref_o a g) (\<lambda>ob. res_bind (iswhite_o b g) (\<lambda>w.
            if isblack_m (ob_marked ob) \<and> w then barrier_back a g else Inr g))
      | _ \<Rightarrow> Inr g)"

definition newobj_o :: "nat \<Rightarrow> gcbody \<Rightarrow> cstate \<Rightarrow> cstate" where
  "newobj_o a b g = put_o a \<lparr>ob_marked = luaC_white_c g, ob_body = b\<rparr> g\<lparr>c_allgc := a # c_allgc g\<rparr>"

section \<open>The interface\<close>

text \<open>\<open>lua_setmetatable\<close> of an object; \<open>tt\<close> is the type of a value that is no table or userdata.\<close>

definition set_meta :: "nat \<Rightarrow> gcbody \<Rightarrow> nat option \<Rightarrow> cstate \<Rightarrow> lua_error + cstate" where
  "set_meta a b mt g =
     res_bind (put_body a b g) (\<lambda>g.
       case mt of
         None \<Rightarrow> Inr g
       | Some m \<Rightarrow> res_bind (luaC_barrier a (VRef m) g) (luaC_checkfinalizer a (Some m)))"

definition lua_setmetatable :: "gval \<Rightarrow> nat \<Rightarrow> nat option \<Rightarrow> cstate \<Rightarrow> lua_error + cstate" where
  "lua_setmetatable v tt mt g =
     (case v of
        VRef a \<Rightarrow>
          res_bind (deref_o a g) (\<lambda>ob.
            case ob_body ob of
              Tab h \<Rightarrow> set_meta a (Tab (h\<lparr>h_metatable := mt\<rparr>)) mt g
            | Udata _ uv \<Rightarrow> set_meta a (Udata mt uv) mt g
            | _ \<Rightarrow> Inr (g\<lparr>c_mt := (c_mt g)[tt := mt]\<rparr>))
      | _ \<Rightarrow> Inr (g\<lparr>c_mt := (c_mt g)[tt := mt]\<rparr>))"

end
