(* ===== verification/LuaGcProps.thy ===== *)
theory LuaGcProps
  imports LuaGcAtomic LuaGcSweep
begin

text \<open>
  What the mark phase of the garbage collector (\<open>lgc.c\<close>) achieves: every step of it can be made, it ends, and after the atomic
  phase everything that can be reached is marked. At the end, behaviour of the collector that these theorems have to exclude.
\<close>

section \<open>Reachable objects\<close>

inductive reached :: "cstate \<Rightarrow> nat \<Rightarrow> bool" for g where
  reached_root: "r \<in> root_refs g \<Longrightarrow> reached g r"
| reached_ref: "reached g a \<Longrightarrow> c_heap g a = Some ob \<Longrightarrow> r \<in> body_refs (ob_body ob) \<Longrightarrow> reached g r"
| reached_upval: "reached g a \<Longrightarrow> c_heap g a = Some ob \<Longrightarrow> u \<in> body_upvals (ob_body ob) \<Longrightarrow> upval_value u g = Inr v \<Longrightarrow>
    r \<in> vrefs v \<Longrightarrow> reached g r"

lemma reach_marked:
  assumes "all_settled g" "\<forall>r\<in>root_refs g. marked g r" "reached g a"
  shows "marked g a"
  using assms(3)
proof (induction rule: reached.induct)
  case (reached_root r)
  then show ?case using assms(2) by blast
next
  case (reached_ref a ob r)
  then show ?case using assms(1) unfolding all_settled_def closed_def by fastforce
next
  case (reached_upval a ob u v r)
  then obtain v' where "upval_value u g = Inr v'" "vmarked g v'" using assms(1) unfolding all_settled_def by blast
  then show ?case using reached_upval.hyps(4,5) by (simp add: vmarked_def)
qed

section \<open>The steps of the mark phase\<close>

lemma minv_reset:
  assumes "marking g"
  shows "minv UNIV (c_grayagain g) [] g" "phase g UNIV (c_grayagain g)"
  using assms by (auto simp: marking_def phase_def)

lemma propd_marking:
  assumes "marking g" "propd UNIV (c_grayagain g) g g'"
  shows "marking g'"
proof -
  have ev: "evolves g g'" and st: "c_gcstate g \<noteq> GCSinsideatomic" using assms by (auto simp: propd_def marking_def)
  have st': "c_gcstate g' = c_gcstate g" using ev by (simp add: evolves_def)
  have m: "minv UNIV (c_grayagain g') [] g'" using assms(2) st st' unfolding propd_def phase_def by auto
  have d: "c_mainthread g' = c_mainthread g" using ev by (simp add: evolves_def)
  have "root_refs g' \<subseteq> dom (c_heap g')" using evolves_roots [OF ev] evolves_dom [OF ev] assms(1) by (simp add: marking_def)
  moreover have "fin_ok g'" by (rule evolves_fin [OF ev]) (use assms(1) in \<open>simp add: marking_def\<close>)
  moreover have "marked g' (c_mainthread g')" using evolves_marked [OF ev] assms(1) unfolding d by (simp add: marking_def)
  ultimately show ?thesis using m st' assms(1) by (simp add: marking_def)
qed

lemma marking_state:
  assumes "marking g" "s \<in> {GCSpropagate, GCSatomic}"
  shows "marking (g\<lparr>c_gcstate := s\<rparr>)"
proof -
  have "minv UNIV (c_grayagain g) [] (g\<lparr>c_gcstate := s\<rparr>)"
    by (rule minv_gcstate) (use assms(1) in \<open>auto simp: marking_def\<close>)
  then show ?thesis using assms by (simp add: marking_def root_refs_def fin_ok_def marked_def)
qed

lemma propagate_step:
  assumes "marking g" "c_gray g \<noteq> []"
  shows "okay (propagatemark g) (\<lambda>g'. marking g' \<and> todo g' < todo g \<and> evolves g g')"
  by (rule okay_mono [OF propagatemark_ok [OF minv_reset [OF assms(1)] assms(2)]])
    (use propd_marking [OF assms(1)] in \<open>auto simp: propd_def\<close>)

lemma todo_state: "todo (g\<lparr>c_gcstate := s\<rparr>) = todo g"
  by (simp add: todo_def whites_def white_def)

text \<open>In the propagate phase the list of gray objects is not empty.\<close>

definition mark_phase :: "cstate \<Rightarrow> bool" where
  "mark_phase g \<longleftrightarrow> marking g \<and> (c_gcstate g = GCSpropagate \<longrightarrow> c_gray g \<noteq> [])"

lemma propagate_singlestep:
  assumes "mark_phase g" "c_gcstate g = GCSpropagate"
  shows "okay (singlestep call ttype g) (\<lambda>g'. mark_phase g' \<and> todo g' < todo g)"
proof -
  have ne: "c_gray g \<noteq> []" and m: "marking g" using assms by (auto simp: mark_phase_def)
  have e: "singlestep call ttype g =
      res_bind (propagatemark g) (\<lambda>g. Inr (if c_gray g = [] then g\<lparr>c_gcstate := GCSatomic\<rparr> else g))"
    using assms(2) ne by (simp add: singlestep_def lassert_def)
  show ?thesis
    unfolding e
  proof (rule okay_bind [OF propagate_step [OF m ne]])
    fix g1 assume g1: "marking g1 \<and> todo g1 < todo g \<and> evolves g g1"
    then show "okay (Inr (if c_gray g1 = [] then g1\<lparr>c_gcstate := GCSatomic\<rparr> else g1)) (\<lambda>g'. mark_phase g' \<and> todo g' < todo g)"
      using marking_state [of g1 GCSatomic] by (auto simp: mark_phase_def todo_state)
  qed
qed

lemma start_singlestep:
  assumes "resting g"
  shows "okay (singlestep call ttype g) (\<lambda>g'. mark_phase g' \<and> c_gcstate g' = GCSpropagate)"
proof -
  let ?g = "g\<lparr>c_gray := [], c_grayagain := [], c_weak := [], c_ephemeron := [], c_allweak := []\<rparr>"
  have st: "c_gcstate g = GCSpause" using assms by (simp add: resting_def)
  have e: "singlestep call ttype g = res_bind (restartcollection g) (\<lambda>g. Inr (g\<lparr>c_gcstate := GCSpropagate\<rparr>))"
    using st by (simp add: singlestep_def)
  show ?thesis
    unfolding e
  proof (rule okay_bind [OF restart_ok [OF assms]])
    fix g1 assume g1: "minv UNIV [] [] g1 \<and> c_grayagain g1 = [] \<and> c_gray g1 \<noteq> [] \<and> marked g1 (c_mainthread g1) \<and> evolves ?g g1"
    then have ev: "evolves ?g g1" by simp
    have s1: "c_gcstate g1 \<noteq> GCSinsideatomic" using ev st by (simp add: evolves_def)
    have "root_refs g1 \<subseteq> dom (c_heap g1)"
      using evolves_roots [OF ev] evolves_dom [OF ev] assms by (simp add: resting_def root_refs_def)
    moreover have "fin_ok g1" by (rule evolves_fin [OF ev]) (use assms in \<open>simp add: resting_def fin_ok_def\<close>)
    moreover have "minv UNIV [] [] (g1\<lparr>c_gcstate := GCSpropagate\<rparr>)" by (rule minv_gcstate) (use g1 s1 in simp_all)
    ultimately show "okay (Inr (g1\<lparr>c_gcstate := GCSpropagate\<rparr>)) (\<lambda>g'. mark_phase g' \<and> c_gcstate g' = GCSpropagate)"
      using g1 by (simp add: mark_phase_def marking_def root_refs_def fin_ok_def marked_def)
  qed
qed

fun single_steps :: "(cstate \<Rightarrow> lua_error + cstate) \<Rightarrow> (gcbody \<Rightarrow> nat) \<Rightarrow> nat \<Rightarrow> cstate \<Rightarrow> lua_error + cstate" where
  "single_steps call ttype 0 g = Inr g"
| "single_steps call ttype (Suc n) g = res_bind (singlestep call ttype g) (single_steps call ttype n)"

lemma propagate_ends:
  assumes "mark_phase g"
  shows "\<exists>n. okay (single_steps call ttype n g) (\<lambda>g'. mark_phase g' \<and> c_gcstate g' = GCSatomic)"
  using assms
proof (induction "todo g" arbitrary: g rule: less_induct)
  case less
  show ?case
  proof (cases "c_gcstate g = GCSpropagate")
    case True
    obtain g1 where g1: "singlestep call ttype g = Inr g1" "mark_phase g1" "todo g1 < todo g"
      using propagate_singlestep [OF less.prems True] unfolding okay_def by blast
    obtain n where "okay (single_steps call ttype n g1) (\<lambda>g'. mark_phase g' \<and> c_gcstate g' = GCSatomic)"
      using less.hyps [OF g1(3,2)] by blast
    then have "okay (single_steps call ttype (Suc n) g) (\<lambda>g'. mark_phase g' \<and> c_gcstate g' = GCSatomic)"
      using g1(1) by simp
    then show ?thesis by blast
  next
    case False
    then have "c_gcstate g = GCSatomic" using less.prems by (auto simp: mark_phase_def marking_def)
    then have "okay (single_steps call ttype 0 g) (\<lambda>g'. mark_phase g' \<and> c_gcstate g' = GCSatomic)" using less.prems by simp
    then show ?thesis by blast
  qed
qed

section \<open>The properties\<close>

text \<open>
  C15. A collection that starts between two collections, from a well-formed heap in which no metatable has a \<open>__mode\<close> with both
  \<open>k\<close> and \<open>v\<close> (\<open>resting\<close>), comes to its atomic phase: marking the roots and every single step of the propagation can be
  made, and after finitely many of them the list of gray objects is empty. Well formed means that objects refer to objects that
  exist and are of the types the fields demand, and that open upvalues and the threads with them agree. Tables weak in both ways are
  left out because they break that: after one of them has been cleared a key of it may be freed memory
  (\<open>dangling_key\<close>), and a later collection that visits the table reads it (\<open>dangling_key_read\<close>).
\<close>

theorem mark_phase_ends:
  assumes "resting g"
  shows "\<exists>n. okay (single_steps call ttype n g) (\<lambda>g'. marking g' \<and> c_gcstate g' = GCSatomic)"
proof -
  obtain g1 where g1: "singlestep call ttype g = Inr g1" "mark_phase g1"
    using start_singlestep [OF assms] unfolding okay_def by blast
  obtain n where "okay (single_steps call ttype n g1) (\<lambda>g'. mark_phase g' \<and> c_gcstate g' = GCSatomic)"
    using propagate_ends [OF g1(2)] by blast
  then have "okay (single_steps call ttype (Suc n) g) (\<lambda>g'. marking g' \<and> c_gcstate g' = GCSatomic)"
    using g1(1) by (auto simp: mark_phase_def elim: okay_mono)
  then show ?thesis by blast
qed

text \<open>
  C14. A step of the propagation keeps the invariant of the mark phase: a marked object that no list of gray objects holds refers
  to marked objects only, through the upvalues of closures as well; and it brings the phase nearer to its end.
\<close>

theorem propagation_keeps_invariant:
  assumes "marking g" "c_gray g \<noteq> []"
  shows "okay (propagatemark g) (\<lambda>g'. marking g' \<and> todo g' < todo g)"
  by (rule okay_mono [OF propagate_step [OF assms]]) blast

text \<open>
  C13. Let the state be one of the mark phase that satisfies its invariant (\<open>marking\<close>): a well-formed heap in which no
  metatable has a \<open>__mode\<close> with both \<open>k\<close> and \<open>v\<close>, and gray objects and lists as the phase has them. Then the rest of the
  propagation and the atomic phase can be carried out, and they leave every object marked that can be reached from the roots,
  through weak tables as well, whose entries for unmarked objects are gone: no reference to an object that the sweep will
  free is left. For tables weak in both ways this is false: \<open>late_metatable_freed\<close> frees a metatable that is in use.
\<close>

theorem atomic_marks_reachable:
  assumes "marking g"
  shows "okay (res_bind (propagateall g) atomic) (\<lambda>g'. \<forall>a. reached g' a \<longrightarrow> marked g' a)"
proof (rule okay_bind [OF propagateall_ok [OF minv_reset [OF assms]]])
  fix g1 assume "propd UNIV (c_grayagain g) g g1 \<and> c_gray g1 = []"
  then have "marking g1" using propd_marking [OF assms] by blast
  then show "okay (atomic g1) (\<lambda>g'. \<forall>a. reached g' a \<longrightarrow> marked g' a)"
    by (rule okay_mono [OF atomic_ok]) (use reach_marked in \<open>auto simp: atomic_post_def\<close>)
qed

section \<open>A small heap\<close>

text \<open>A short stack is never shrunk.\<close>

lemma luaD_shrinkstack_short [code]:
  "luaD_shrinkstack th = (if length (th_stack th) \<le> 11 then th
     else let inuse = stackinuse th; goodsize = min LUAI_MAXSTACK (inuse + inuse div 8 + 2 * EXTRA_STACK) in
      if LUAI_MAXSTACK < inuse \<or> length (th_stack th) \<le> goodsize then th
      else th\<lparr>th_stack := take goodsize (th_stack th)\<rparr>)"
  unfolding luaD_shrinkstack_def Let_def LUAI_MAXSTACK_def EXTRA_STACK_def stackinuse_def by (simp add: min_def)

text \<open>A thread (1) that holds a table (2) with a metatable (3), whose field \<open>__mode\<close> (4) is a string (5); and a userdata (6).\<close>

definition demo_thread :: gcthread where
  "demo_thread = \<lparr>th_built = True, th_stack = [VRef 2, VNil], th_top = 1, th_citops = [1], th_openupval = []\<rparr>"

definition demo :: "byte list \<Rightarrow> gval \<times> gval \<Rightarrow> cstate" where
  "demo mode e = \<lparr>c_currentwhite = 1, c_gcstate = GCSpause, c_emergency = False,
     c_heap = [1 \<mapsto> \<lparr>ob_marked = 1, ob_body = Thr demo_thread\<rparr>,
               2 \<mapsto> \<lparr>ob_marked = 1, ob_body = Tab \<lparr>h_flags = 0, h_metatable = Some 3, h_array = [], h_node = [e]\<rparr>\<rparr>,
               3 \<mapsto> \<lparr>ob_marked = 1, ob_body = Tab \<lparr>h_flags = 0, h_metatable = None, h_array = [], h_node = [(VRef 4, VRef 5)]\<rparr>\<rparr>,
               4 \<mapsto> \<lparr>ob_marked = 1, ob_body = Str False [95]\<rparr>,
               5 \<mapsto> \<lparr>ob_marked = 1, ob_body = Str False mode\<rparr>,
               6 \<mapsto> \<lparr>ob_marked = 1, ob_body = Udata None VNil\<rparr>],
     c_upvals = (\<lambda>_. None), c_allgc = [2, 3, 4, 5, 6], c_finobj = [], c_tobefnz = [], c_fixedgc = [], c_sweepgc = None,
     c_gray = [], c_grayagain = [], c_weak = [], c_ephemeron = [], c_allweak = [], c_twups = [], c_mainthread = 1, c_running = 1,
     c_registry = VNil, c_mt = [], c_gcfinnum = 0, c_tmname = [4, 4, 4, 4]\<rparr>"

abbreviation "weak_key_demo \<equiv> demo [107] (VRef 6, VRef 4)"

lemma demo_heap:
  assumes "c_heap weak_key_demo a = Some ob"
  shows "ob_marked ob = 1" "a = 1 \<and> ob_body ob = Thr demo_thread \<or>
    a = 2 \<and> ob_body ob = Tab \<lparr>h_flags = 0, h_metatable = Some 3, h_array = [], h_node = [(VRef 6, VRef 4)]\<rparr> \<or>
    a = 3 \<and> ob_body ob = Tab \<lparr>h_flags = 0, h_metatable = None, h_array = [], h_node = [(VRef 4, VRef 5)]\<rparr> \<or>
    a = 4 \<and> ob_body ob = Str False [95] \<or> a = 5 \<and> ob_body ob = Str False [107] \<or> a = 6 \<and> ob_body ob = Udata None VNil"
  using assms by (auto simp: demo_def split: if_splits)

lemma demo_dom: "dom (c_heap weak_key_demo) = {1, 2, 3, 4, 5, 6}"
  by (auto simp: demo_def)

lemma demo_resting: "resting weak_key_demo"
proof -
  let ?g = weak_key_demo
  have ne: "\<not> marked ?g a" for a using demo_heap(1) [of a] by (auto simp: marked_def mark_bits)
  have tabs: "tab ?g a h \<longleftrightarrow> a = 2 \<and> h = \<lparr>h_flags = 0, h_metatable = Some 3, h_array = [], h_node = [(VRef 6, VRef 4)]\<rparr> \<or>
     a = 3 \<and> h = \<lparr>h_flags = 0, h_metatable = None, h_array = [], h_node = [(VRef 4, VRef 5)]\<rparr>" for a h
    by (auto simp: tab_def demo_def)
  have thrs: "thr ?g a th \<longleftrightarrow> a = 1 \<and> th = demo_thread" for a th
    by (auto simp: thr_def demo_def)
  have "sane ?g"
  proof -
    have refs: "body_refs (ob_body ob) \<subseteq> {1, 2, 3, 4, 5, 6}" if h: "c_heap ?g a = Some ob" for a ob
      using demo_heap(2) [OF h] by (elim disjE conjE) (simp_all add: body_refs_def demo_thread_def lrefs_def entry_refs_def)
    have "ob_marked ob = 1" if h: "c_heap ?g a = Some ob" for a ob by (rule demo_heap(1) [OF h])
    moreover have "gc_fuel ?g = 7" by (simp add: gc_fuel_def demo_def)
    ultimately show ?thesis unfolding sane_def demo_dom using refs by (auto simp: mark_bits)
  qed
  moreover have "typed ?g"
  proof -
    have "body_ok ?g (ob_body ob)" if h: "c_heap ?g a = Some ob" for a ob
      using demo_heap(2) [OF h] by (auto simp: body_ok_def is_tab_def tabs demo_thread_def entry_wf_def)
    then show ?thesis by (simp add: typed_def)
  qed
  moreover have "uwf ?g"
  proof -
    have "c_upvals ?g u = None" for u by (simp add: demo_def)
    moreover have "body_upvals (ob_body ob) = {}" if h: "c_heap ?g a = Some ob" for a ob
      using demo_heap(2) [OF h] by (auto simp: body_upvals_def)
    ultimately show ?thesis unfolding uwf_def thrs by (simp add: demo_thread_def)
  qed
  moreover have "modes ?g"
  proof -
    have "c_heap ?g 5 = Some \<lparr>ob_marked = 1, ob_body = Str False [107]\<rparr>" "c_heap ?g 4 = Some \<lparr>ob_marked = 1, ob_body = Str False [95]\<rparr>"
      by (simp_all add: demo_def)
    then have "\<not> both_modes ?g (VRef 5)" "\<not> both_modes ?g (VRef 4)" by (auto simp: both_modes_def cstring_def)
    then show ?thesis unfolding modes_def tabs by auto
  qed
  moreover have "root_refs ?g = {1}" by (simp add: root_refs_def demo_def orefs_def)
  then have "root_refs ?g \<subseteq> dom (c_heap ?g)" by (simp add: demo_dom)
  ultimately show ?thesis unfolding resting_def thrs using ne
    by (simp add: demo_dom) (simp add: demo_def fin_ok_def demo_thread_def)
qed

lemma mark_phase_ends_witness: "\<exists>n. okay (single_steps Inr (\<lambda>_. 0) n weak_key_demo) (\<lambda>g'. marking g' \<and> c_gcstate g' = GCSatomic)"
  by (rule mark_phase_ends [OF demo_resting])

lemma demo_marking: "okay (singlestep Inr (\<lambda>_. 0) weak_key_demo) (\<lambda>g. marking g \<and> c_gray g \<noteq> [])"
  by (rule okay_mono [OF start_singlestep [OF demo_resting]]) (auto simp: mark_phase_def)

lemma propagation_keeps_invariant_witness:
  "okay (res_bind (singlestep Inr (\<lambda>_. 0) weak_key_demo) propagatemark) marking"
proof (rule okay_bind [OF demo_marking])
  fix g assume "marking g \<and> c_gray g \<noteq> []"
  then show "okay (propagatemark g) marking" by (intro okay_mono [OF propagation_keeps_invariant]) auto
qed

lemma atomic_marks_reachable_witness:
  "okay (res_bind (singlestep Inr (\<lambda>_. 0) weak_key_demo) (\<lambda>g. res_bind (propagateall g) atomic)) (\<lambda>g'. \<forall>a. reached g' a \<longrightarrow> marked g' a)"
proof (rule okay_bind [OF demo_marking])
  fix g assume "marking g \<and> c_gray g \<noteq> []"
  then show "okay (res_bind (propagateall g) atomic) (\<lambda>g'. \<forall>a. reached g' a \<longrightarrow> marked g' a)"
    by (intro atomic_marks_reachable) simp
qed

section \<open>What the invariant has to exclude\<close>

text \<open>
  A table that is weak in its keys and values and that is visited in the propagate phase is not visited again. A metatable
  that it is given afterwards is not marked, as the barrier does nothing for an object that is not black: it is freed, while
  the table still refers to it.
\<close>

definition late_metatable :: "lua_error + cstate" where
  "late_metatable =
     res_bind (single_steps Inr (\<lambda>_. 0) 3 (demo [107, 118] (VRef 6, VNil))) (\<lambda>g.
     res_bind (lua_setmetatable (VRef 2) 0 (Some 7) (newobj_o 7 (Tab \<lparr>h_flags = 0, h_metatable = None, h_array = [], h_node = []\<rparr>) g))
       (single_steps Inr (\<lambda>_. 0) 6))"

lemma late_metatable_freed:
  "case late_metatable of
     Inl e \<Rightarrow> False
   | Inr g \<Rightarrow> c_heap g 7 = None \<and> (case tab_at 2 g of Inr h \<Rightarrow> h_metatable h = Some 7 | Inl e \<Rightarrow> False) \<and> c_gcstate g = GCScallfin"
  by code_simp

text \<open>
  An entry of such a table that has no value keeps its key, although the key is freed: it is not made a dead key. The next
  visit that looks at the entry reads freed memory.
\<close>

lemma dangling_key:
  "case single_steps Inr (\<lambda>_. 0) 10 (demo [107, 118] (VRef 6, VNil)) of
     Inl e \<Rightarrow> False
   | Inr g \<Rightarrow> c_gcstate g = GCSpause \<and> c_heap g 6 = None \<and> (case tab_at 2 g of Inr h \<Rightarrow> h_node h = [(VRef 6, VNil)] | Inl e \<Rightarrow> False)"
  by code_simp

lemma dangling_key_read:
  assumes "tab_at a g = Inr h" "h_node h = [(VRef k, VNil)]" "c_heap g k = None"
  shows "removeentry a 0 g = Inl (Fault UseAfterFree)"
  using assms by (simp add: removeentry_def lassert_def valiswhite_def iswhite_o_def deref_o_def)

text \<open>
  \<open>udata2finalize\<close> does not look at \<open>sweepgc\<close>. When the sweep of \<open>tobefnz\<close> stands behind the object that is taken, it goes on in
  \<open>allgc\<close>, and the other objects of \<open>tobefnz\<close> are not made white; \<open>luaC_step\<close> runs finalizers between the steps of the sweep.
\<close>

lemma sweep_changes_list:
  assumes "c_tobefnz g = a # rest" "c_sweepgc g = Some (NextOf a)" "c_heap g a = Some ob" "tofinalize_m (ob_marked ob)"
  shows "okay (udata2finalize g) (\<lambda>(b, g'). b = a \<and> c_sweepgc g' = Some (NextOf a) \<and> c_tobefnz g' = rest \<and>
    link_at (NextOf a) g' = Inr (AllGC, [a], c_allgc g))"
  using assms
  by (simp add: udata2finalize_def deref_o_def lassert_def recolor_def put_o_def issweepphase_def link_at_def list_of_def
      cut_behind_def the_list_def)

end
