(* ===== verification/Spec2Isabelle.thy ===== *)
theory Spec2Isabelle
  imports CycleQueueSpsc NetFindings MeshProps EngineProps KernelCore Http LuaOpcodes LuaObjectSpec LuaUtf8Spec ThreadModule SerializeSpec Discovery Rpc LuaDumpSafe LuaVmSort LuaVm LuaVmLoop LuaStringProps LuaStrProps LuaStrFind LuaPackProps LuaGcProps
begin

text \<open>
  A verification development for \<open>hyper_net\<close>: a C++ framework for game servers (\<open>src/src/kernel\<close>, \<open>public\<close>, \<open>API\<close>), its
  modules (\<open>src/src/logic\<close>), and the Lua 5.3 interpreter it embeds and compiles (\<open>src/src/logic/scriptengine/lua\<close>).

  \<^bold>\<open>The program.\<close> A process parses its command line, loads module libraries, starts their modules in two phases and loops.
  The main thread owns an epoll engine with listeners, connectors and connections; worker threads do the reading and
  writing of the sockets and exchange requests and results with the main thread through ring buffers. On top of the
  connections the module harbor links the nodes of a cluster, master and cluster let nodes find one another, and rpc,
  http and the script engine bring messages into Lua and back.

  \<^bold>\<open>Theories and what they model.\<close>

  \<^item> \<open>Prelude\<close>: the integers of the code at their widths (\<open>s32\<close>, \<open>s64\<close>, \<open>u64\<close> as \<open>int\<close> with the wrap-around written out,
    bytes as \<open>8 word\<close>), memory copies, faults as values (\<open>fault + 'a\<close>, \<open>res_bind\<close>), little-endian layouts.
  \<^item> \<open>CycleQueue\<close>, \<open>CycleQueueSpsc\<close>: \<open>public/CycleQueue.h\<close>, sequentially (a locale \<open>bounded_fifo\<close>,
    interpreted on the class) and between one producer and one consumer, one memory access at a time.
  \<^item> \<open>NetState\<close>, \<open>Connection\<close>, \<open>NetWorker\<close>: \<open>kernel/net/Connection.cpp\<close>, its nine send and five receive states under
    \<open>kernel/net/state\<close> and \<open>NetWorker.cpp\<close>. The application is a parameter: a list of calls for every callback.
    \<open>ConnectionInv\<close>, \<open>ConnectionSafe\<close>, \<open>WorkerSafe\<close> prove the invariant of each operation, \<open>NetProps\<close> the properties over
    all interleavings (\<open>net_reach\<close>), \<open>NetFindings\<close> what the design does not intend.
  \<^item> \<open>Engine\<close>, \<open>EngineSafe\<close>, \<open>EngineProps\<close>: \<open>NetEngine.cpp\<close>, \<open>Acceptor.cpp\<close>, \<open>Connector.cpp\<close>: the tables of the main loop, the
    epoll set and the kernel's descriptors, with the workers of \<open>NetWorker\<close> below. An operation of a worker lists the connections it
    closed (\<open>w_closed\<close>); the engine then does for each what is left of \<open>Connection::OnClose\<close> (\<open>OnClose_engine\<close>).
  \<^item> \<open>PacketStream\<close>: the reassembly of packets from the bytes of a stream, for any cutting of it.
  \<^item> \<open>Harbor\<close>, \<open>HarborSpec\<close>, \<open>MeshProps\<close>: \<open>logic/harbor\<close>; \<open>Discovery\<close>: \<open>logic/master\<close> and \<open>logic/cluster\<close>.
  \<^item> \<open>ThreadModule\<close>: \<open>public/ThreadModule.h\<close>; \<open>Http\<close>: \<open>logic/http\<close>; \<open>KernelCore\<close>: command line, configuration, modules, loop.
  \<^item> \<open>Serialize\<close>, \<open>SerializeSpec\<close>: \<open>scriptengine/serialize.cpp\<close>; \<open>ScriptEngine\<close>, \<open>ScriptSpec\<close>: \<open>ScriptEngine.cpp\<close> over a small model
    of the Lua stack; \<open>Rpc\<close>: \<open>logic/rpc\<close>, the composition of mesh, stream, serialisation and script engine.
  \<^item> \<open>LuaCtype\<close>, \<open>LuaObject\<close>, \<open>LuaObjectSpec\<close>, \<open>LuaOpcodes\<close>, \<open>LuaApi\<close>, \<open>LuaUtf8\<close>, \<open>LuaUtf8Spec\<close>: character classes,
    object helpers, instruction words, conversion of numbers and the UTF-8 library.
  \<^item> \<open>LuaTable\<close>: \<open>ltable.c\<close> with pointers as cells and indices. \<open>LuaTableChain\<close> states the invariant of the chains and the three
    ways to insert; \<open>LuaTableSpec\<close> the invariant of a table, the map it stands for and lookup (locale \<open>scatter\<close> over the
    main position, interpreted on \<open>mainposition\<close>); \<open>LuaTableStore\<close>, \<open>LuaTableResize\<close>, \<open>LuaTableRehash\<close> stores, resizing and
    the counts; \<open>LuaTableProps\<close> and \<open>LuaTableIter\<close> the properties, with traversal and length.
  \<^item> \<open>LuaTabLib\<close>: \<open>ltablib.c\<close> over its two access functions; \<open>LuaTabSort\<close> proves under the promises of
    access (locale \<open>tab_access\<close>) what sorting and the copying operations do; \<open>LuaTabProps\<close> interprets it on raw tables.
  \<^item> \<open>LuaZio\<close>, \<open>LuaDump\<close>: \<open>lzio.c\<close>, \<open>ldump.c\<close>, \<open>lundump.c\<close> and \<open>f_parser\<close>. \<open>LuaDumpSpec\<close> proves load after dump with one
    notion, \<open>delivers\<close>, that composes along the code; \<open>LuaDumpProps\<close> states it; \<open>LuaDumpSafe\<close> treats arbitrary input.
  \<^item> \<open>LuaVm\<close>: the numbers of \<open>lvm.c\<close> with integer arithmetic; \<open>LuaVmCompare\<close> the comparison of integers, floats
    (as multiples of \<open>2 ^ -1074\<close>) and strings, \<open>LuaVmLoop\<close> the numeric loop, \<open>LuaVmSort\<close> sorting with the default order.
  \<^item> \<open>LuaString\<close>: the string table and its cache (\<open>lstring.c\<close>) with the steps of the collector that concern strings;
    \<open>LuaStringSpec\<close> is the table, \<open>LuaStringGc\<close> adds colours and the cache, \<open>LuaStringRun\<close> the phases of the collector and
    \<open>LuaStringProps\<close> what holds in every reachable state.
  \<^item> \<open>LuaMatch\<close>: the matcher of \<open>lstrlib.c\<close>, a \<open>matcher\<close> being the rest of the pattern as a function, with its bounds;
    \<open>LuaMatchWays\<close> the list of all ways to match and the proof that the matcher returns its head. \<open>LuaStrFind\<close> holds \<open>find\<close>, \<open>match\<close>,
    \<open>gmatch\<close> and \<open>gsub\<close>, and the simple functions, \<open>LuaPack\<close> packing; \<open>LuaStrSpec\<close>, \<open>LuaStrProps\<close> and
    \<open>LuaPackProps\<close> their lemmas and properties.
  \<^item> \<open>LuaGc\<close>, \<open>LuaGcSweep\<close>: the garbage collector (\<open>lgc.c\<close>, with the upvalues of \<open>lfunc.c\<close>) over a store of objects of every kind,
    faults and assertions as errors. \<open>LuaGcMark\<close> and \<open>LuaGcTrav\<close>: marking only goes forward (\<open>adv\<close>); \<open>LuaGcInv\<close> has the
    invariant of the mark phase (\<open>minv\<close>), kept by the traversals and propagation (\<open>LuaGcStep\<close>), by the convergence of
    ephemerons and by clearing (\<open>LuaGcConverge\<close>); \<open>LuaGcAtomic\<close> puts the atomic phase together; \<open>LuaGcProps\<close> has the
    properties, and the behaviour they exclude.
    The fuels are bounds on the number of unmarked objects; that they are enough is part of the theorems.

  \<^bold>\<open>How state corresponds.\<close> A class is a record with the names of its members, a C++ container an association list or list in the
  order the code goes through it, a pointer to an object the key under which it is kept; a callback of the application
  is data of the model. An assertion (\<open>OASSERT\<close>; those under \<open>_DEBUG\<close> too, which every build defines), a read or write out of bounds, the use of a freed object and a full queue
  are left values of a sum, so that safety is the absence of those values. A system call's outcome is an argument of the
  operation that makes it.

  \<^bold>\<open>Fuel and bounds.\<close> \<open>OnEvent\<close> and the loops of a worker take fuel where callbacks can nest; the properties show which depth is
  enough. \<open>unserialize\<close> takes as much as the message has bytes, \<open>luaH_newkey\<close> two levels, \<open>find_chain\<close> one more than there
  are nodes, \<open>unbound_search\<close> 32 doublings, the matcher one level per character of the
  pattern, each proved sufficient. \<open>LoadFunction\<close> counts the nested calls for which the C stack has room; running out of it is a fault,
  as the source has no limit. Lua tables are proved for fewer than \<open>2 ^ 30\<close> values,
  where the counters of the source do not wrap.

  \<^bold>\<open>Not modelled.\<close> \<open>public/tinyxml\<close> and everything under \<open>src/contrib\<close> are third-party code the sources call; XML documents are
  a parameter where the configuration reads them. \<open>main.cpp\<close>, \<open>singleton.h\<close>, the empty \<open>redis\<close> and \<open>starter\<close> modules, \<open>OStream\<close>,
  curl and the dynamic loader are input, output or glue. Of the embedded Lua the interpreter loop, parser and code generator,
  coroutines, the debug interface and the input and output libraries, and the counts of memory of the collector are not modelled, nor are the rest of \<open>lapi.c\<close> and \<open>lauxlib.c\<close> and \<open>string.format\<close>; \<open>lbitlib.c\<close> is compiled to nothing. The Lua scripts under \<open>src/bin\<close> are not C.
\<close>

end
